(* ===== verification/Egg_Prelude.thy ===== *)
theory Egg_Prelude
  imports Main "HOL-Library.Word"
begin

text \<open>
  Prelude of the gcr development.

  It fixes the representation of the C data every component works on and the lemmas they share:
  \<^item> an octet (\<^verbatim>\<open>guchar\<close>, \<^verbatim>\<open>gchar\<close>) is a \<open>byte\<close>, an 8-bit word; a memory area or a
    C string without its terminator is a \<open>byte list\<close>;
  \<^item> \<open>cstr\<close> turns a string literal of the source into its bytes;
  \<^item> a call that may abort the process (\<^verbatim>\<open>g_assert\<close>) or read or write outside of its
    memory is an \<open>outcome\<close>: \<open>Ret\<close> of the result, \<open>Abort\<close>, or \<open>Undef\<close> for undefined
    behaviour of C;
  \<^item> \<open>size_t\<close>/\<open>gsize\<close> arithmetic is on \<open>nat\<close> with the wrap-around written out by
    \<open>wrap64\<close> (and \<open>wrap32\<close> for \<open>guint\<close>/\<open>uint32_t\<close>) at the places where the
    source can overflow;
  \<^item> the functions of the C library the source uses (\<^verbatim>\<open>strchr\<close>, \<^verbatim>\<open>memchr\<close>,
    \<^verbatim>\<open>isspace\<close>, \<dots>) are defined here.
\<close>

unbundle bit_operations_syntax

named_theorems outcome_simps \<open>evaluation of the outcome type\<close>
named_theorems wrap_simps \<open>wrap-around of in-range sizes\<close>

type_synonym byte = "8 word"

subsection \<open>Outcomes\<close>

datatype 'a outcome = Ret 'a | Abort | Undef

definition obind :: "'a outcome \<Rightarrow> ('a \<Rightarrow> 'b outcome) \<Rightarrow> 'b outcome" where
  "obind m f = (case m of Ret x \<Rightarrow> f x | Abort \<Rightarrow> Abort | Undef \<Rightarrow> Undef)"

lemma obind_simps [simp, outcome_simps]:
  "obind (Ret x) f = f x" "obind Abort f = Abort" "obind Undef f = Undef"
  by (simp_all add: obind_def)

lemma obind_Ret_iff: "obind m f = Ret y \<longleftrightarrow> (\<exists>x. m = Ret x \<and> f x = Ret y)"
  by (cases m) simp_all

lemma obind_assoc: "obind (obind m f) g = obind m (\<lambda>x. obind (f x) g)"
  by (cases m) simp_all

text \<open>\<^verbatim>\<open>g_assert\<close>: the process aborts when the condition is false.\<close>

definition g_assert :: "bool \<Rightarrow> 'a outcome \<Rightarrow> 'a outcome" where
  "g_assert b m = (if b then m else Abort)"

lemma g_assert_simps [simp, outcome_simps]:
  "g_assert True m = m" "g_assert False m = Abort"
  by (simp_all add: g_assert_def)

subsection \<open>Sizes\<close>

definition wrap64 :: "nat \<Rightarrow> nat" where
  "wrap64 n = n mod 2 ^ 64"

definition wrap32 :: "nat \<Rightarrow> nat" where
  "wrap32 n = n mod 2 ^ 32"

lemma wrap64_id [wrap_simps]: "n < 2 ^ 64 \<Longrightarrow> wrap64 n = n"
  by (simp add: wrap64_def)

lemma wrap32_id [wrap_simps]: "n < 2 ^ 32 \<Longrightarrow> wrap32 n = n"
  by (simp add: wrap32_def)

lemma wrap64_less: "wrap64 n < 2 ^ 64"
  by (simp add: wrap64_def)

lemma wrap32_less: "wrap32 n < 2 ^ 32"
  by (simp add: wrap32_def)

text \<open>
  A loop \<^verbatim>\<open>for (i = 0; i < n; i++)\<close> whose counter is a \<^verbatim>\<open>guint\<close> and whose bound is
  of a 64-bit type: the counter wraps around, so the loop comes to its end only when the bound
  fits in 32 bits.  \<open>None\<close> is a loop that runs for ever.
\<close>

partial_function (option) guint_for :: "32 word \<Rightarrow> nat \<Rightarrow> unit option" where
  "guint_for i n = (if unat i < n then guint_for (i + 1) n else Some ())"

lemma guint_for_bounded:
  assumes "guint_for i n = Some u"
  shows "n < 2 ^ 32"
proof (rule guint_for.raw_induct [where P = "\<lambda>i n u. n < 2 ^ 32", OF _ assms])
  fix loop :: "32 word \<Rightarrow> nat \<Rightarrow> unit option" and i n u
  assume IH: "\<And>i n u. loop i n = Some u \<Longrightarrow> n < 2 ^ 32"
    and step: "(if unat i < n then loop (i + 1) n else Some ()) = Some u"
  show "n < 2 ^ 32"
  proof (cases "unat i < n")
    case True
    with step IH show ?thesis by simp
  next
    case False
    moreover have "unat i < 2 ^ 32" using unsigned_less [of i] by simp
    ultimately show ?thesis by linarith
  qed
qed

lemma guint_for_ends:
  assumes "n < 2 ^ 32"
  shows "guint_for i n = Some ()"
proof (induction "n - unat i" arbitrary: i)
  case 0
  then show ?case by (subst guint_for.simps) simp
next
  case (Suc m)
  then have lt: "unat i < n" by simp
  then have "unat (i + 1) = unat i + 1"
    using assms by (simp add: unat_word_ariths)
  with Suc have "guint_for (i + 1) n = Some ()" by simp
  with lt show ?case by (subst guint_for.simps) simp
qed

lemma guint_for_eq: "guint_for 0 n = (if n < 2 ^ 32 then Some () else None)"
  using guint_for_ends [of n 0] guint_for_bounded [of 0 n] by (cases "guint_for 0 n") auto

subsection \<open>Characters and C strings\<close>

definition cstr :: "string \<Rightarrow> byte list" where
  "cstr s = map of_char s"

abbreviation chr :: "char \<Rightarrow> byte" where
  "chr c \<equiv> of_char c"

lemma cstr_simps [simp]: "cstr [] = []" "cstr (c # s) = of_char c # cstr s"
  by (simp_all add: cstr_def)

lemma length_cstr [simp]: "length (cstr s) = length s"
  by (simp add: cstr_def)

lemma cstr_append [simp]: "cstr (s @ t) = cstr s @ cstr t"
  by (simp add: cstr_def)

text \<open>A list of octets that can stand in memory as a NUL terminated string.\<close>

definition c_string :: "byte list \<Rightarrow> bool" where
  "c_string s \<longleftrightarrow> 0 \<notin> set s"

lemma c_string_simps [simp]:
  "c_string []" "c_string (b # s) \<longleftrightarrow> b \<noteq> 0 \<and> c_string s"
  "c_string (s @ t) \<longleftrightarrow> c_string s \<and> c_string t"
  by (auto simp: c_string_def)

text \<open>
  The string a NUL terminated area is read as: the octets before the first NUL.
\<close>

definition until_nul :: "byte list \<Rightarrow> byte list" where
  "until_nul s = takeWhile (\<lambda>b. b \<noteq> 0) s"

lemma until_nul_id [simp]: "c_string s \<Longrightarrow> until_nul s = s"
  by (auto simp: until_nul_def c_string_def takeWhile_eq_all_conv)

lemma c_string_until_nul [simp]: "c_string (until_nul s)"
  by (auto simp: until_nul_def c_string_def dest: set_takeWhileD)

text \<open>The offset of the first occurrence of an octet (\<^verbatim>\<open>memchr\<close> over the whole list).\<close>

fun memchr :: "byte list \<Rightarrow> byte \<Rightarrow> nat option" where
  "memchr [] c = None"
| "memchr (b # s) c = (if b = c then Some 0 else map_option Suc (memchr s c))"

lemma memchr_None [simp]: "memchr s c = None \<longleftrightarrow> c \<notin> set s"
  by (induction s) auto

lemma memchr_Some_iff:
  "memchr s c = Some i \<longleftrightarrow> i < length s \<and> s ! i = c \<and> c \<notin> set (take i s)"
proof (induction s arbitrary: i)
  case Nil
  then show ?case by simp
next
  case (Cons b s)
  then show ?case by (cases i) auto
qed

lemma memchr_append: "c \<notin> set s \<Longrightarrow> memchr (s @ c # t) c = Some (length s)"
  by (induction s) auto

lemma memchr_append_if:
  "memchr (s @ t) c =
     (if c \<in> set s then memchr s c else map_option (\<lambda>i. length s + i) (memchr t c))"
  by (induction s; cases "memchr t c") (auto simp del: memchr_None)

lemma memchr_append_left: "c \<in> set s \<Longrightarrow> memchr (s @ t) c = memchr s c"
  by (induction s) auto

text \<open>
  \<^verbatim>\<open>strchr\<close> on a NUL terminated string: the terminator is part of the string, so a
  search for NUL finds the end of it.
\<close>

definition strchr :: "byte list \<Rightarrow> byte \<Rightarrow> nat option" where
  "strchr s c = memchr (s @ [0]) c"

definition g_ascii_toupper :: "byte \<Rightarrow> byte" where
  "g_ascii_toupper c = (if chr CHR ''a'' \<le> c \<and> c \<le> chr CHR ''z'' then c - 32 else c)"

definition g_ascii_tolower :: "byte \<Rightarrow> byte" where
  "g_ascii_tolower c = (if chr CHR ''A'' \<le> c \<and> c \<le> chr CHR ''Z'' then c + 32 else c)"

text \<open>
  White space in the C locale; \<^verbatim>\<open>g_strstrip\<close> uses \<^verbatim>\<open>g_ascii_isspace\<close>, which
  does not count the vertical tab.
\<close>

definition isspace :: "byte \<Rightarrow> bool" where
  "isspace c \<longleftrightarrow> c = 32 \<or> (9 \<le> c \<and> c \<le> 13)"

definition g_ascii_isspace :: "byte \<Rightarrow> bool" where
  "g_ascii_isspace c \<longleftrightarrow> c = 32 \<or> c = 9 \<or> c = 10 \<or> c = 12 \<or> c = 13"

definition g_ascii_isdigit :: "byte \<Rightarrow> bool" where
  "g_ascii_isdigit c \<longleftrightarrow> chr CHR ''0'' \<le> c \<and> c \<le> chr CHR ''9''"

definition g_strstrip :: "byte list \<Rightarrow> byte list" where
  "g_strstrip s = rev (dropWhile g_ascii_isspace (rev (dropWhile g_ascii_isspace s)))"

subsection \<open>Octets as numbers\<close>

text \<open>The number an area holds, most significant octet first.\<close>

definition be_nat :: "byte list \<Rightarrow> nat" where
  "be_nat bs = foldl (\<lambda>n b. n * 256 + unat b) 0 bs"

lemma be_nat_Nil [simp]: "be_nat [] = 0"
  by (simp add: be_nat_def)

lemma be_nat_snoc [simp]: "be_nat (bs @ [b]) = be_nat bs * 256 + unat b"
  by (simp add: be_nat_def)

lemma be_nat_append: "be_nat (as @ bs) = be_nat as * 256 ^ length bs + be_nat bs"
proof (induction bs rule: rev_induct)
  case Nil
  then show ?case by simp
next
  case (snoc b bs)
  have "be_nat (as @ bs @ [b]) = be_nat ((as @ bs) @ [b])" by simp
  also have "\<dots> = be_nat (as @ bs) * 256 + unat b" by (rule be_nat_snoc)
  finally show ?case using snoc by (simp add: algebra_simps)
qed

lemma unat_byte_less [simp]: "unat (b :: byte) < 256"
  using unsigned_less [of b] by simp

lemma be_nat_less: "be_nat bs < 256 ^ length bs"
proof (induction bs rule: rev_induct)
  case Nil
  then show ?case by simp
next
  case (snoc b bs)
  have "be_nat bs * 256 + unat b < Suc (be_nat bs) * 256"
    using unat_byte_less [of b] by simp
  also have "\<dots> \<le> 256 ^ length bs * 256"
    using snoc by (metis Suc_leI mult_le_mono1)
  finally show ?case by simp
qed

subsection \<open>Lists\<close>

lemma takeWhile_append_stop: "(\<And>x. x \<in> set xs \<Longrightarrow> P x) \<Longrightarrow> \<not> P y \<Longrightarrow> takeWhile P (xs @ y # ys) = xs"
  by (induction xs) auto

lemma list_update_take_drop:
  "i < length xs \<Longrightarrow> xs[i := x] = take i xs @ x # drop (Suc i) xs"
  by (simp add: upd_conv_take_nth_drop)

subsection \<open>Splitting at a delimiter\<close>

text \<open>The reference: the fields between the delimiters.\<close>

fun split_fields :: "byte \<Rightarrow> byte list \<Rightarrow> byte list list" where
  "split_fields d [] = [[]]"
| "split_fields d (c # s) =
     (if c = d then [] # split_fields d s else (c # hd (split_fields d s)) # tl (split_fields d s))"

lemma split_fields_not_Nil [simp]: "split_fields d s \<noteq> []"
  by (induction s) auto

lemma split_fields_no_delim: "d \<notin> set s \<Longrightarrow> split_fields d s = [s]"
  by (induction s) auto

lemma split_fields_delim: "d \<notin> set f \<Longrightarrow> split_fields d (f @ d # s) = f # split_fields d s"
  by (induction f) auto

lemma split_fields_c_string: "c_string s \<Longrightarrow> list_all c_string (split_fields d s)"
  by (induction s) (auto simp: list_all_iff list.set_sel neq_Nil_conv split: if_splits)

lemma split_fields_joined:
  assumes "list_all (\<lambda>t. d \<notin> set t) ts"
  shows "split_fields d (concat (map (\<lambda>t. t @ [d]) ts)) = ts @ [[]]"
  using assms by (induction ts) (auto simp: split_fields_delim)

end
