(* ===== verification/Egg_Hex.thy ===== *)
theory Egg_Hex
  imports Egg_Prelude
begin

text \<open>
  Hexadecimal text, \<^verbatim>\<open>egg/egg-hex.c\<close>: decoding with an optional delimiter between groups
  of octets, and encoding.  A text is a \<open>byte list\<close>, \<open>None\<close> is the \<^verbatim>\<open>NULL\<close> result.
\<close>

section \<open>Definitions\<close>

definition HEXC_UPPER :: "byte list" where
  "HEXC_UPPER = cstr ''0123456789ABCDEF''"

definition HEXC_LOWER :: "byte list" where
  "HEXC_LOWER = cstr ''0123456789abcdef''"

text \<open>
  The inner loop: digits of one group.  \<open>st\<close> is the variable \<^verbatim>\<open>state\<close> (0, 1 or -1),
  \<open>part\<close> the number of octets of the group read so far, \<open>out\<close> the octets before
  \<^verbatim>\<open>decoded\<close> and \<open>cur\<close> the octet \<^verbatim>\<open>decoded\<close> points at.  The result is the
  state, the text that is left, and \<open>out\<close>, \<open>cur\<close>.
\<close>

fun hex_decode_group ::
  "nat \<Rightarrow> nat \<Rightarrow> int \<Rightarrow> byte list \<Rightarrow> byte list \<Rightarrow> byte \<Rightarrow> int \<times> byte list \<times> byte list \<times> byte" where
  "hex_decode_group grp part st [] out cur = (st, [], out, cur)"
| "hex_decode_group grp part st (c # data) out cur =
     (if part < grp then
        (case strchr HEXC_UPPER (g_ascii_toupper c) of
           None \<Rightarrow> (-1, c # data, out, cur)
         | Some pos \<Rightarrow>
             (let j = of_nat pos :: byte in
              if st = 0 then hex_decode_group grp part 1 data out (push_bit 4 (j AND 0xf))
              else hex_decode_group grp (Suc part) 0 data (out @ [cur OR (j AND 0xf)]) 0))
      else (st, c # data, out, cur))"

lemma hex_decode_group_length:
  "hex_decode_group grp part st data out cur = (st', rest, out', cur') \<Longrightarrow>
   length rest \<le> length data"
proof (induction data arbitrary: part st out cur)
  case Nil
  then show ?case by simp
next
  case (Cons c data)
  then show ?case
    by (auto simp: Let_def split: if_splits option.splits dest!: Cons.IH)
qed

lemma hex_decode_group_progress:
  assumes "hex_decode_group grp 0 0 data' out cur = (st', rest, out', cur')"
    and "grp \<noteq> 0" and "data \<noteq> []" and "length data' \<le> length data"
  shows "length rest + (if st' = 0 then 1 else 0) < length data + 1"
proof (cases data')
  case Nil
  with assms show ?thesis by simp
next
  case (Cons c cs)
  with assms show ?thesis
    by (auto simp: Let_def split: if_splits option.splits dest!: hex_decode_group_length)
qed

text \<open>
  The outer loop: between two groups the delimiter has to follow.  A \<open>grp\<close> of zero, which
  \<^verbatim>\<open>g_return_val_if_fail\<close> excludes before the loop, ends it.
\<close>

function hex_decode_loop ::
  "nat \<Rightarrow> byte list option \<Rightarrow> int \<Rightarrow> byte list \<Rightarrow> byte list \<Rightarrow> byte \<Rightarrow> int \<times> byte list" where
  "hex_decode_loop grp delim st data out cur =
     (if data = [] \<or> st \<noteq> 0 \<or> grp = 0 then (st, out)
      else
        (let n_delim = (case delim of None \<Rightarrow> 0 | Some d \<Rightarrow> length d);
             d_ok = (out = [] \<or> (case delim of None \<Rightarrow> True
                                | Some d \<Rightarrow> n_delim \<le> length data \<and> take n_delim data = d));
             data' = (if out \<noteq> [] then drop n_delim data else data)
         in if \<not> d_ok then (-1, out)
            else
              (case hex_decode_group grp 0 st data' out cur of
                 (st', rest, out', cur') \<Rightarrow> hex_decode_loop grp delim st' rest out' cur')))"
  by pat_completeness auto

termination
proof (relation "measure (\<lambda>(grp, delim, st, data, out, cur). length data + (if st = 0 then 1 else 0))",
    goal_cases)
  case 1
  show ?case by simp
next
  case (2 grp delim st data out cur x xa xb xc y xd ya xe yb)
  then have call: "hex_decode_group grp 0 0 xb out cur = (xc, xd, xe, yb)" and st: "st = 0"
    and "grp \<noteq> 0" and "data \<noteq> []" and "length xb \<le> length data" by auto
  from hex_decode_group_progress [OF call this(3-5)] st show ?case by simp
qed

declare hex_decode_loop.simps [simp del]

text \<open>
  \<^verbatim>\<open>egg_hex_decode_full\<close> on a text of known length (a length of -1 is the length up to the
  terminator).
\<close>

definition egg_hex_decode_full ::
  "byte list \<Rightarrow> byte list option \<Rightarrow> nat \<Rightarrow> byte list option" where
  "egg_hex_decode_full data delim grp =
     (if grp \<ge> 1 then
        (case hex_decode_loop grp delim 0 data [] 0 of
           (st, out) \<Rightarrow> if st \<noteq> 0 then None else Some out)
      else None)"

definition egg_hex_decode :: "byte list \<Rightarrow> byte list option" where
  "egg_hex_decode data = egg_hex_decode_full data None 1"

text \<open>The encoder; \<open>bytes\<close> counts the octets written so far.\<close>

fun hex_encode_loop ::
  "byte list \<Rightarrow> byte list option \<Rightarrow> nat \<Rightarrow> nat \<Rightarrow> byte list \<Rightarrow> byte list" where
  "hex_encode_loop hexc delim grp bytes [] = []"
| "hex_encode_loop hexc delim grp bytes (b # data) =
     (if delim \<noteq> None \<and> grp \<noteq> 0 \<and> bytes \<noteq> 0 \<and> bytes mod grp = 0 then the delim else [])
     @ [hexc ! unat (drop_bit 4 b AND 0xf), hexc ! unat (b AND 0xf)]
     @ hex_encode_loop hexc delim grp (Suc bytes) data"

definition egg_hex_encode_full ::
  "byte list \<Rightarrow> bool \<Rightarrow> byte list option \<Rightarrow> nat \<Rightarrow> byte list" where
  "egg_hex_encode_full data upper_case delim grp =
     hex_encode_loop (if upper_case then HEXC_UPPER else HEXC_LOWER) delim grp 0 data"

definition egg_hex_encode :: "byte list \<Rightarrow> byte list" where
  "egg_hex_encode data = egg_hex_encode_full data True None 0"

section \<open>Digits\<close>

lemma HEXC_lengths [simp]: "length HEXC_UPPER = 16" "length HEXC_LOWER = 16"
  by (simp_all add: HEXC_UPPER_def HEXC_LOWER_def)

lemma strchr_HEXC_all:
  "list_all (\<lambda>n. strchr HEXC_UPPER (g_ascii_toupper (HEXC_UPPER ! n)) = Some n \<and>
                 strchr HEXC_UPPER (g_ascii_toupper (HEXC_LOWER ! n)) = Some n) [0..<16]"
  by code_simp

lemma strchr_HEXC:
  assumes "n < 16"
  shows "strchr HEXC_UPPER (g_ascii_toupper (HEXC_UPPER ! n)) = Some n"
    and "strchr HEXC_UPPER (g_ascii_toupper (HEXC_LOWER ! n)) = Some n"
  using strchr_HEXC_all assms by (auto simp: list_all_iff)


text \<open>A table of sixteen digits that the decoder reads back.\<close>

definition digit_table :: "byte list \<Rightarrow> bool" where
  "digit_table hexc \<longleftrightarrow> (\<forall>n < 16. strchr HEXC_UPPER (g_ascii_toupper (hexc ! n)) = Some n)"

lemma digit_tables [simp]: "digit_table HEXC_UPPER" "digit_table HEXC_LOWER"
  by (simp_all add: digit_table_def strchr_HEXC)

lemma nibble_less: "unat ((b :: byte) AND 15) < 16"
proof -
  have "b AND 15 \<le> 15" by (rule word_and_le1)
  then show ?thesis by (simp add: word_le_nat_alt)
qed

lemma nibbles_join: "push_bit 4 (drop_bit 4 b) AND 240 OR b AND 15 = (b :: byte)"
proof (rule bit_word_eqI)
  fix n :: nat
  assume "n < LENGTH(8)"
  then have "n \<in> {0, 1, 2, 3, 4, 5, 6, 7}" by auto
  then show "bit (push_bit 4 (drop_bit 4 b) AND 240 OR b AND 15) n = bit b n"
    by (auto simp: bit_simps)
qed

lemma hex_decode_group_octet:
  assumes "digit_table hexc" and "part < grp"
  shows "hex_decode_group grp part 0
           (hexc ! unat (drop_bit 4 b AND 15) # hexc ! unat (b AND 15) # data) out cur =
         hex_decode_group grp (Suc part) 0 data (out @ [b]) 0"
  using assms nibble_less [of b] nibble_less [of "drop_bit 4 b"]
  by (simp add: digit_table_def nibbles_join Let_def)


section \<open>Round trip\<close>

text \<open>What stands between two octets of the encoded text.\<close>

definition delim_text :: "byte list option \<Rightarrow> byte list" where
  "delim_text delim = (case delim of None \<Rightarrow> [] | Some d \<Rightarrow> d)"

lemma hex_encode_loop_Cons:
  assumes "grp \<noteq> 0"
  shows "hex_encode_loop hexc delim grp n (b # bs) =
    (if n \<noteq> 0 \<and> n mod grp = 0 then delim_text delim else [])
    @ hexc ! unat (drop_bit 4 b AND 15) # hexc ! unat (b AND 15)
    # hex_encode_loop hexc delim grp (Suc n) bs"
  using assms by (cases delim) (simp_all add: delim_text_def)

lemma hex_encode_loop_None:
  "hex_encode_loop hexc None g n bs = hex_encode_loop hexc None g' n' bs"
  by (induction bs arbitrary: n n') simp_all

lemma hex_decode_group_encoded:
  assumes "digit_table hexc" and "0 < part" and "part \<le> grp" and "n mod grp = part mod grp"
  shows "\<exists>k. hex_decode_group grp part 0 (hex_encode_loop hexc delim grp n bs) out 0 =
               (0, hex_encode_loop hexc delim grp (n + k) (drop k bs), out @ take k bs, 0)
            \<and> k \<le> length bs \<and> (k < length bs \<longrightarrow> (n + k) mod grp = 0)"
  using assms(2-)
proof (induction bs arbitrary: part n out)
  case Nil
  then show ?case by (auto intro: exI [of _ 0])
next
  case (Cons b bs)
  show ?case
  proof (cases "part = grp")
    case True
    then have "\<And>d. hex_decode_group grp part 0 d out 0 = (0, d, out, 0)"
      by (case_tac d) simp_all
    with Cons.prems True show ?thesis by (intro exI [of _ 0]) simp
  next
    case False
    with Cons.prems have lt: "part < grp" and "n mod grp \<noteq> 0" by auto
    moreover have "Suc n mod grp = Suc part mod grp"
      using Cons.prems by (metis mod_Suc_eq)
    from Cons.IH [of "Suc part" "Suc n" "out @ [b]", OF _ _ this] lt obtain k where
      "hex_decode_group grp (Suc part) 0 (hex_encode_loop hexc delim grp (Suc n) bs) (out @ [b]) 0 =
         (0, hex_encode_loop hexc delim grp (Suc n + k) (drop k bs), (out @ [b]) @ take k bs, 0)
       \<and> k \<le> length bs \<and> (k < length bs \<longrightarrow> (Suc n + k) mod grp = 0)"
      by (meson Suc_leI zero_less_Suc)
    ultimately show ?thesis
      by (intro exI [of _ "Suc k"])
        (simp add: hex_encode_loop_Cons hex_decode_group_octet [OF assms(1)] del: hex_encode_loop.simps
          hex_decode_group.simps)
  qed
qed

lemma hex_decode_loop_step:
  assumes "data \<noteq> []" and "grp \<noteq> 0"
    and "data = (if out = [] then [] else delim_text delim) @ data'"
    and "hex_decode_group grp 0 0 data' out 0 = (st', rest, out', cur')"
  shows "hex_decode_loop grp delim 0 data out 0 = hex_decode_loop grp delim st' rest out' cur'"
  using assms
  by (subst hex_decode_loop.simps) (auto simp: Let_def delim_text_def split: option.splits)

lemma hex_decode_loop_encoded:
  assumes "digit_table hexc" and "grp \<noteq> 0"
  shows "n = length out \<Longrightarrow> bs = [] \<or> n mod grp = 0 \<Longrightarrow>
    hex_decode_loop grp delim 0 (hex_encode_loop hexc delim grp n bs) out 0 = (0, out @ bs)"
proof (induction "length bs" arbitrary: n out bs rule: less_induct)
  case less
  show ?case
  proof (cases bs)
    case Nil
    then show ?thesis by (simp add: hex_decode_loop.simps)
  next
    case (Cons b bs')
    let ?E = "hex_encode_loop hexc delim grp"
    let ?d = "hexc ! unat (drop_bit 4 b AND 15) # hexc ! unat (b AND 15) # ?E (Suc n) bs'"
    from Cons less.prems have n: "n mod grp = 0" by simp
    with Cons less.prems have enc: "?E n bs = (if out = [] then [] else delim_text delim) @ ?d"
      by (simp add: hex_encode_loop_Cons [OF assms(2)] del: hex_encode_loop.simps)
    from n have "Suc n mod grp = 1 mod grp" by (metis mod_Suc_eq One_nat_def)
    from hex_decode_group_encoded [OF assms(1) _ _ this, of delim bs' "out @ [b]"] assms(2)
    obtain k where
      k: "hex_decode_group grp 1 0 (?E (Suc n) bs') (out @ [b]) 0 =
          (0, ?E (Suc n + k) (drop k bs'), (out @ [b]) @ take k bs', 0)"
      and le: "k \<le> length bs'" and m: "k < length bs' \<longrightarrow> (Suc n + k) mod grp = 0"
      by (metis One_nat_def Suc_leI neq0_conv zero_less_one)
    have "hex_decode_group grp 0 0 ?d out 0 = (0, ?E (Suc n + k) (drop k bs'), out @ b # take k bs', 0)"
      using k assms(2) by (simp add: hex_decode_group_octet [OF assms(1)] del: hex_decode_group.simps)
    then have "hex_decode_loop grp delim 0 (?E n bs) out 0 =
        hex_decode_loop grp delim 0 (?E (Suc n + k) (drop k bs')) (out @ b # take k bs') 0"
      by (intro hex_decode_loop_step [OF _ assms(2) enc]) (simp_all add: enc)
    also have "\<dots> = (0, (out @ b # take k bs') @ drop k bs')"
      by (rule less.hyps) (use Cons less.prems le m in auto)
    finally show ?thesis using Cons by simp
  qed
qed


text \<open>
  C29. Encoding and then decoding gives the octets back: with any delimiter (also none) between
  groups of any positive size, in either case of the digits.
\<close>

theorem egg_hex_roundtrip:
  assumes "grp \<ge> 1"
  shows "egg_hex_decode_full (egg_hex_encode_full data upper_case delim grp) delim grp = Some data"
  using assms hex_decode_loop_encoded [of _ grp 0 "[]" data delim]
  by (simp add: egg_hex_decode_full_def egg_hex_encode_full_def)

theorem egg_hex_roundtrip_witness:
  "egg_hex_decode_full (egg_hex_encode_full [0xDE, 0xAD, 0xBE] False (Some (cstr '':'')) 2)
     (Some (cstr '':'')) 2 = Some [0xDE, 0xAD, 0xBE]
   \<and> egg_hex_encode_full [0xDE, 0xAD, 0xBE] False (Some (cstr '':'')) 2 = cstr ''dead:be''"
  using egg_hex_roundtrip [of 2 "[0xDE, 0xAD, 0xBE]" False "Some (cstr '':'')"]
  by (simp add: egg_hex_encode_full_def HEXC_LOWER_def)

section \<open>The accepted texts\<close>

text \<open>A reference decoder: the texts are the sequences of pairs of digits.\<close>

definition hex_value :: "byte \<Rightarrow> nat option" where
  "hex_value c =
     (if chr CHR ''0'' \<le> c \<and> c \<le> chr CHR ''9'' then Some (unat c - 48)
      else if chr CHR ''A'' \<le> c \<and> c \<le> chr CHR ''F'' then Some (unat c - 55)
      else if chr CHR ''a'' \<le> c \<and> c \<le> chr CHR ''f'' then Some (unat c - 87)
      else None)"

fun hex_pairs :: "(byte \<Rightarrow> nat option) \<Rightarrow> byte list \<Rightarrow> byte list option" where
  "hex_pairs dig [] = Some []"
| "hex_pairs dig [c] = None"
| "hex_pairs dig (c # d # s) =
     (case (dig c, dig d) of
        (Some h, Some l) \<Rightarrow> map_option ((#) (of_nat (16 * h + l))) (hex_pairs dig s)
      | _ \<Rightarrow> None)"

text \<open>The digits the code knows: those of \<open>hex_value\<close>, and NUL.\<close>

definition hex_value_nul :: "byte \<Rightarrow> nat option" where
  "hex_value_nul c = (if c = 0 then Some 0 else hex_value c)"

lemma memchr_range:
  "b \<le> 256 \<Longrightarrow> memchr (map word_of_nat [a..<b]) c =
     (if a \<le> unat c \<and> unat c < b then Some (unat c - a) else None)"
proof (induction "b - a" arbitrary: a)
  case 0
  then show ?case by simp
next
  case (Suc k)
  then have ab: "a < b" by simp
  then have "(word_of_nat a = c) = (a = unat c)"
    using Suc.prems by (auto simp: unat_of_nat)
  with Suc ab show ?case by (auto simp: upt_rec [of a b] Suc_diff_le)
qed

lemma in_range_iff:
  "b \<le> 256 \<Longrightarrow> c \<in> set (map word_of_nat [a..<b]) \<longleftrightarrow> a \<le> unat (c :: byte) \<and> unat c < b"
  using memchr_range [of b a c] memchr_None [of "map word_of_nat [a..<b]" c] by (auto split: if_splits)

lemma HEXC_UPPER_ranges: "HEXC_UPPER = map word_of_nat [48..<58] @ map word_of_nat [65..<71]"
  by code_simp

lemma hex_value_unat:
  "hex_value c =
     (if 48 \<le> unat c \<and> unat c < 58 then Some (unat c - 48)
      else if 65 \<le> unat c \<and> unat c < 71 then Some (unat c - 55)
      else if 97 \<le> unat c \<and> unat c < 103 then Some (unat c - 87) else None)"
  by (auto simp: hex_value_def word_le_nat_alt)

lemma unat_toupper:
  "unat (g_ascii_toupper c) = (if 97 \<le> unat c \<and> unat c \<le> 122 then unat c - 32 else unat c)"
  by (auto simp: g_ascii_toupper_def word_le_nat_alt unat_sub)

lemma toupper_eq_0: "(0 = g_ascii_toupper c) = (c = 0)"
proof -
  have "(unat (g_ascii_toupper c) = 0) = (unat c = 0)" unfolding unat_toupper by auto
  then show ?thesis by (auto simp only: unat_eq_zero)
qed

lemma strchr_HEXC_UPPER:
  "strchr HEXC_UPPER (g_ascii_toupper c) = (if c = 0 then Some 16 else hex_value c)"
proof (cases "97 \<le> unat c \<and> unat c \<le> 122")
  case True
  then show ?thesis
    unfolding strchr_def HEXC_UPPER_ranges memchr_append_if set_append Un_iff
    by (simp only: memchr_range in_range_iff unat_toupper hex_value_unat toupper_eq_0 memchr.simps) auto
next
  case False
  then have "unat (g_ascii_toupper c) = unat c" by (auto simp: unat_toupper)
  with False show ?thesis
    unfolding strchr_def HEXC_UPPER_ranges memchr_append_if set_append Un_iff
    by (simp only: memchr_range in_range_iff hex_value_unat toupper_eq_0 memchr.simps) auto
qed

lemma hex_value_nul_less: "hex_value_nul c = Some v \<Longrightarrow> v < 16"
  by (auto simp: hex_value_nul_def hex_value_unat split: if_splits)

lemma nibble_and: "v < 16 \<Longrightarrow> (of_nat v AND 15 :: byte) = of_nat v"
proof -
  assume "v < 16"
  have "(15 :: byte) = mask 4" by (simp add: mask_eq_exp_minus_1)
  then have "(of_nat v AND 15 :: byte) = take_bit 4 (of_nat v)" by (simp only: take_bit_eq_mask)
  with \<open>v < 16\<close> show ?thesis by (simp add: take_bit_of_nat take_bit_nat_eq_self)
qed

lemma hex_pos_digit:
  "strchr HEXC_UPPER (g_ascii_toupper c) = None \<longleftrightarrow> hex_value_nul c = None"
  "strchr HEXC_UPPER (g_ascii_toupper c) = Some pos \<Longrightarrow>
     \<exists>v < 16. hex_value_nul c = Some v \<and> (of_nat pos AND 15 :: byte) = of_nat v"
proof -
  show "strchr HEXC_UPPER (g_ascii_toupper c) = None \<longleftrightarrow> hex_value_nul c = None"
    by (simp add: strchr_HEXC_UPPER hex_value_nul_def)
  assume pos: "strchr HEXC_UPPER (g_ascii_toupper c) = Some pos"
  show "\<exists>v < 16. hex_value_nul c = Some v \<and> (of_nat pos AND 15 :: byte) = of_nat v"
  proof (cases "c = 0")
    case True
    with pos show ?thesis by (simp add: strchr_HEXC_UPPER hex_value_nul_def)
  next
    case False
    with pos have "hex_value_nul c = Some pos" by (simp add: strchr_HEXC_UPPER hex_value_nul_def)
    with hex_value_nul_less [OF this] show ?thesis by (auto simp: nibble_and)
  qed
qed

lemma nibbles_of_nat:
  assumes "h < 16" and "l < 16"
  shows "push_bit 4 (of_nat h) OR of_nat l = (of_nat (16 * h + l) :: byte)"
proof -
  have l: "take_bit 4 l = l" using assms(2) by (simp add: take_bit_nat_eq_self)
  have "push_bit 4 h AND l = 0"
    using l by (metis bit_and_iff bit_eq_iff bit_0_eq bot_apply bot_bool_def bit_push_bit_iff_nat
        bit_take_bit_iff not_less)
  then have "push_bit 4 h OR l = 16 * h + l"
    by (simp add: push_bit_eq_mult flip: disjunctive_add_eq_or)
  then show ?thesis by (metis of_nat_or_eq push_bit_of_nat)
qed

lemma hex_pairs_Cons2:
  "hex_pairs dig (c # d # s) = (case dig c of None \<Rightarrow> None | Some h \<Rightarrow>
     (case dig d of None \<Rightarrow> None
      | Some l \<Rightarrow> map_option ((#) (of_nat (16 * h + l))) (hex_pairs dig s)))"
  by (simp split: option.splits)

lemma hex_decode_loop_error: "st \<noteq> 0 \<Longrightarrow> hex_decode_loop g d st data out cur = (st, out)"
  by (simp add: hex_decode_loop.simps)

lemma hex_decode_loop_1:
  "hex_decode_loop (Suc 0) None 0 s out cur =
     (case s of [] \<Rightarrow> (0, out)
      | c # s' \<Rightarrow> case hex_decode_group (Suc 0) 0 0 s out cur of
                   (st, rest, out', cur') \<Rightarrow> hex_decode_loop (Suc 0) None st rest out' cur')"
  by (subst hex_decode_loop.simps) (simp add: Let_def split: list.splits)

lemma hex_decode_loop_pairs:
  "(case hex_decode_loop (Suc 0) None 0 s out cur of (st, r) \<Rightarrow> if st \<noteq> 0 then None else Some r) =
   map_option ((@) out) (hex_pairs hex_value_nul s)"
proof (induction s arbitrary: out cur rule: induct_list012)
  case 1
  then show ?case by (simp add: hex_decode_loop_1)
next
  case (2 c)
  then show ?case
    by (simp add: hex_decode_loop_1 Let_def hex_decode_loop_error split: option.splits)
next
  case (3 c d s)
  show ?case
  proof (cases "strchr HEXC_UPPER (g_ascii_toupper c)")
    case None
    then have "hex_value_nul c = None" by (simp only: hex_pos_digit(1))
    with None show ?thesis
      by (simp add: hex_decode_loop_1 hex_decode_loop_error)
  next
    case (Some p)
    then obtain h where h: "h < 16" "hex_value_nul c = Some h" "(of_nat p AND 15 :: byte) = of_nat h"
      using hex_pos_digit(2) by blast
    show ?thesis
    proof (cases "strchr HEXC_UPPER (g_ascii_toupper d)")
      case None
      then have "hex_value_nul d = None" by (simp only: hex_pos_digit(1))
      with None Some h show ?thesis
        by (simp add: hex_decode_loop_1 Let_def hex_decode_loop_error)
    next
      case (Some q)
      then obtain l where l: "l < 16" "hex_value_nul d = Some l" "(of_nat q AND 15 :: byte) = of_nat l"
        using hex_pos_digit(2) by blast
      have b: "push_bit 4 (of_nat p AND 15) OR (of_nat q AND 15) = (of_nat (16 * h + l) :: byte)"
        using h l by (simp only: nibbles_of_nat)
      have "hex_decode_group (Suc 0) 0 0 (c # d # s) out cur = (0, s, out @ [of_nat (16 * h + l)], 0)"
        using \<open>strchr HEXC_UPPER (g_ascii_toupper c) = Some p\<close> Some
        by (cases s) (simp_all add: Let_def b [simplified])
      then show ?thesis
        using 3(1) h l
        by (simp add: hex_decode_loop_1 [of "c # d # s"] hex_pairs_Cons2 option.map_comp comp_def
            del: hex_pairs.simps hex_decode_group.simps)
    qed
  qed
qed

text \<open>
  C30. \<^verbatim>\<open>egg_hex_decode\<close> computes what the reference decoder does on every input: it
  succeeds exactly on the texts of an even number of digits, and a NUL octet inside of the text
  counts as the digit zero (\<^verbatim>\<open>strchr\<close> finds the terminator of the table of digits).
\<close>

theorem egg_hex_decode_reference:
  "egg_hex_decode data = hex_pairs hex_value_nul data"
  using hex_decode_loop_pairs [of data "[]" 0]
  by (cases "hex_pairs hex_value_nul data") (simp_all add: egg_hex_decode_def egg_hex_decode_full_def)

end
