(* ===== verification/Egg_Decimal.thy ===== *)
theory Egg_Decimal
  imports Egg_Prelude
begin

text \<open>
  Decimal numbers of any size, \<^verbatim>\<open>egg/egg-decimal.c\<close>: \<^verbatim>\<open>egg_decimal_decode\<close> turns
  a text of digits into the octets of the number, most significant first, by halving the digits
  in place and storing the remainders as bits from the end of a zeroed area.
\<close>

section \<open>Definitions\<close>

text \<open>The conversion of the text to an array of digits, leading zeros left out.\<close>

fun decimal_digits :: "bool \<Rightarrow> byte list \<Rightarrow> nat list option" where
  "decimal_digits saw_non_zero [] = Some []"
| "decimal_digits saw_non_zero (ch # data) =
     (if ch < chr CHR ''0'' \<or> ch > chr CHR ''9'' then None
      else if ch \<noteq> chr CHR ''0'' \<or> saw_non_zero then
        map_option ((#) (unat (ch - chr CHR ''0''))) (decimal_digits True data)
      else decimal_digits saw_non_zero data)"

text \<open>
  The inner \<^verbatim>\<open>for\<close> loop, from position \<open>i\<close> on: the digits from \<open>i\<close> are divided by two;
  \<open>cleared\<close> advances over leading digits that became zero.
\<close>

fun decimal_halve :: "nat \<Rightarrow> nat \<Rightarrow> nat \<Rightarrow> nat list \<Rightarrow> nat list \<times> nat" where
  "decimal_halve i cleared carry [] = ([], cleared)"
| "decimal_halve i cleared carry (d # ds) =
     (let odd_d = (d mod 2 \<noteq> 0);
          d' = d div 2 + carry;
          carry' = (if odd_d then 5 else 0);
          cleared' = (if i = cleared \<and> d' = 0 then Suc cleared else cleared);
          (ds', c) = decimal_halve (Suc i) cleared' carry' ds
      in (d' # ds', c))"

definition digits_value :: "nat list \<Rightarrow> nat" where
  "digits_value ds = foldl (\<lambda>v d. v * 10 + d) 0 ds"

lemma digits_value_Nil [simp]: "digits_value [] = 0"
  by (simp add: digits_value_def)

lemma digits_value_snoc [simp]: "digits_value (ds @ [d]) = digits_value ds * 10 + d"
  by (simp add: digits_value_def)

lemma digits_value_append:
  "digits_value (as @ bs) = digits_value as * 10 ^ length bs + digits_value bs"
  by (induction bs rule: rev_induct)
    (simp_all add: algebra_simps flip: append_assoc)

lemma digits_value_Cons: "digits_value (d # ds) = d * 10 ^ length ds + digits_value ds"
  using digits_value_append [of "[d]" ds] digits_value_snoc [of "[]" d] by simp

lemma length_decimal_halve [simp]: "length (fst (decimal_halve i c carry ds)) = length ds"
  by (induction ds arbitrary: i c carry) (simp_all add: Let_def split_beta)

text \<open>The digits after the loop are those of half the number; \<open>p\<close> is the parity carried in.\<close>

lemma digits_value_halve:
  "p < 2 \<Longrightarrow>
   digits_value (fst (decimal_halve i c (5 * p) ds)) = (p * 10 ^ length ds + digits_value ds) div 2"
proof (induction ds arbitrary: i c p)
  case Nil
  then show ?case by simp
next
  case (Cons d ds)
  let ?m = "d mod 2" and ?T = "10 ^ length ds :: nat"
  have "?m = 0 \<or> ?m = 1" by arith
  then have ih: "digits_value (fst (decimal_halve i' c' (if d mod 2 \<noteq> 0 then 5 else 0) ds)) =
      (?m * ?T + digits_value ds) div 2" for i' c'
    using Cons.IH [of 0] Cons.IH [of 1] by auto
  have "digits_value (fst (decimal_halve i c (5 * p) (d # ds))) =
      (d div 2 + 5 * p) * ?T + (?m * ?T + digits_value ds) div 2"
    by (simp only: decimal_halve.simps Let_def split_beta digits_value_Cons fst_conv ih length_decimal_halve)
  also have "\<dots> = (2 * ((d div 2 + 5 * p) * ?T) + (?m * ?T + digits_value ds)) div 2"
    by simp
  also have "2 * ((d div 2 + 5 * p) * ?T) + (?m * ?T + digits_value ds) =
      (2 * (d div 2) + ?m) * ?T + p * (10 * ?T) + digits_value ds"
    by (simp only: algebra_simps)
  also have "2 * (d div 2) + ?m = d" by simp
  finally show ?case by (simp add: digits_value_Cons algebra_simps)
qed

lemma decimal_halve_past: "c < i \<Longrightarrow> snd (decimal_halve i c carry ds) = c"
  by (induction ds arbitrary: i carry) (simp_all add: Let_def split_beta)

text \<open>\<open>cleared\<close> passes zeros only, so the number read from it on stays the same.\<close>

lemma decimal_halve_cleared:
  "\<exists>k \<le> length ds. snd (decimal_halve c c carry ds) = c + k \<and>
     digits_value (drop k (fst (decimal_halve c c carry ds))) =
     digits_value (fst (decimal_halve c c carry ds))"
proof (induction ds arbitrary: c carry)
  case Nil
  then show ?case by simp
next
  case (Cons d ds)
  define carry' :: nat where "carry' = (if d mod 2 \<noteq> 0 then 5 else 0)"
  show ?case
  proof (cases "d div 2 + carry = 0")
    case True
    from Cons.IH [of "Suc c" carry'] obtain k where
      "k \<le> length ds" "snd (decimal_halve (Suc c) (Suc c) carry' ds) = Suc c + k"
      "digits_value (drop k (fst (decimal_halve (Suc c) (Suc c) carry' ds))) =
       digits_value (fst (decimal_halve (Suc c) (Suc c) carry' ds))" by blast
    with True show ?thesis
      by (intro exI [of _ "Suc k"]) (simp add: Let_def split_beta digits_value_Cons carry'_def)
  next
    case False
    then show ?thesis
      by (intro exI [of _ 0]) (simp add: Let_def split_beta decimal_halve_past)
  qed
qed

lemma decimal_halve_zero_progress:
  assumes "digits_value ds = 0" and "ds \<noteq> []"
  shows "c < snd (decimal_halve c c 0 ds)"
proof -
  obtain d ds' where ds: "ds = d # ds'" using assms(2) by (cases ds) auto
  with assms(1) have d: "d = 0" by (simp add: digits_value_Cons)
  obtain k where "snd (decimal_halve (Suc c) (Suc c) 0 ds') = Suc c + k"
    using decimal_halve_cleared [of ds' "Suc c" 0] by blast
  then show ?thesis by (simp add: ds d Let_def split_beta)
qed

text \<open>What the halving step does to the digits from \<open>cleared\<close> on.\<close>

lemma decimal_halve_step:
  assumes "decimal_halve cleared cleared 0 (drop cleared digits) = (ds', cleared')"
    and "cleared \<le> length digits"
  shows "length (take cleared digits @ ds') = length digits"
    and "cleared \<le> cleared'" and "cleared' \<le> length digits"
    and "digits_value (drop cleared' (take cleared digits @ ds')) =
         digits_value (drop cleared digits) div 2"
proof -
  from assms(1) have ds': "ds' = fst (decimal_halve cleared cleared 0 (drop cleared digits))" 
    and c': "cleared' = snd (decimal_halve cleared cleared 0 (drop cleared digits))" by simp_all
  from decimal_halve_cleared [of "drop cleared digits" cleared 0] obtain k where
    k: "k \<le> length digits - cleared" "cleared' = cleared + k"
      "digits_value (drop k ds') = digits_value ds'"
    unfolding ds' c' by auto
  from ds' have len: "length ds' = length digits - cleared" by simp
  with assms(2) show "length (take cleared digits @ ds') = length digits" by simp
  from k show "cleared \<le> cleared'" by simp
  from k assms(2) show "cleared' \<le> length digits" by simp
  have "digits_value ds' = digits_value (drop cleared digits) div 2"
    using digits_value_halve [of 0 cleared cleared "drop cleared digits"] ds' by simp
  with k assms(2) show "digits_value (drop cleared' (take cleared digits @ ds')) =
         digits_value (drop cleared digits) div 2" by simp
qed

lemma decimal_bits_decreases:
  assumes "decimal_halve cleared cleared 0 (drop cleared digits) = (ds', cleared')"
    and "cleared < length digits"
  shows "digits_value (drop cleared' (take cleared digits @ ds')) < digits_value (drop cleared digits)
    \<or> digits_value (drop cleared' (take cleared digits @ ds')) = digits_value (drop cleared digits)
      \<and> length (take cleared digits @ ds') - cleared' < length digits - cleared"
  using decimal_halve_step [OF assms(1)] assms(2)
    decimal_halve_zero_progress [of "drop cleared digits" cleared] assms(1)
  by (cases "digits_value (drop cleared digits) = 0") auto

text \<open>
  The \<^verbatim>\<open>while\<close> loop over the digits.  \<open>at_byte\<close> is the index of the octet the next bit
  goes to and \<open>at_bit\<close> the bit in it; \<open>g_assert\<close> guards the step to the octet before.
\<close>

function decimal_bits ::
  "nat list \<Rightarrow> nat \<Rightarrow> byte list \<Rightarrow> int \<Rightarrow> nat \<Rightarrow> (byte list \<times> int \<times> nat) outcome" where
  "decimal_bits digits cleared usg at_byte at_bit =
     (if cleared < length digits then
        (let bit = of_nat (last digits mod 2) :: byte;
             usg' = usg[nat at_byte := usg ! nat at_byte OR push_bit at_bit bit];
             (ds', cleared') = decimal_halve cleared cleared 0 (drop cleared digits);
             digits' = take cleared digits @ ds'
         in if at_bit = 7 then
              g_assert (at_byte - 1 \<ge> 0) (decimal_bits digits' cleared' usg' (at_byte - 1) 0)
            else decimal_bits digits' cleared' usg' at_byte (Suc at_bit))
      else Ret (usg, at_byte, at_bit))"
  by pat_completeness auto

termination
proof (relation "measures [\<lambda>(digits, cleared, usg, at_byte, at_bit). digits_value (drop cleared digits),
      \<lambda>(digits, cleared, usg, at_byte, at_bit). length digits - cleared]", goal_cases)
  case 1
  show ?case by simp
next
  case (2 digits cleared usg at_byte at_bit bit usg' r ds' cleared' digits')
  then show ?case using decimal_bits_decreases [of cleared digits ds' cleared'] by simp
next
  case (3 digits cleared usg at_byte at_bit bit usg' r ds' cleared' digits')
  then show ?case using decimal_bits_decreases [of cleared digits ds' cleared'] by simp
qed

declare decimal_bits.simps [simp del]

text \<open>
  \<^verbatim>\<open>egg_decimal_decode\<close>: \<open>None\<close> is a \<^verbatim>\<open>NULL\<close> result; an empty text gives it too, since
  \<^verbatim>\<open>g_new0\<close> of no elements is \<^verbatim>\<open>NULL\<close>.  The loop over the characters counts with
  a \<^verbatim>\<open>guint\<close> against a \<^verbatim>\<open>gssize\<close>: it sees the first \<open>2 ^ 32\<close> characters only, and when
  there are as many and all of them are digits it starts over for ever.  A loop that does nothing
  but write to memory and never ends is undefined behaviour in C: \<open>Undef\<close>.
\<close>

definition egg_decimal_decode :: "byte list \<Rightarrow> byte list option outcome" where
  "egg_decimal_decode data =
     (case decimal_digits False (take (2 ^ 32) data) of
        None \<Rightarrow> Ret None
      | Some digits \<Rightarrow>
          (case guint_for 0 (length data) of
             None \<Rightarrow> Undef
           | Some _ \<Rightarrow>
               obind (decimal_bits digits 0 (replicate (length data) 0) (int (length data) - 1) 0)
                 (\<lambda>(usg, at_byte, at_bit).
                    let at_byte' = (if at_bit = 0 then at_byte + 1 else at_byte)
                    in Ret (if data = [] then None else Some (drop (nat at_byte') usg)))))"


section \<open>Correctness\<close>

lemma unat_or_bit:
  assumes "unat (b :: byte) < 2 ^ k" and "k < 8" and "m < 2"
  shows "unat (b OR push_bit k (of_nat m)) = unat b + m * 2 ^ k"
proof -
  have "unat b AND push_bit k m = 0"
  proof (rule bit_eqI)
    fix n
    have "take_bit k (unat b) = unat b" using assms(1) by (simp add: take_bit_nat_eq_self)
    then have "bit (unat b) n \<Longrightarrow> n < k" by (metis bit_take_bit_iff)
    then show "bit (unat b AND push_bit k m) n = bit 0 n" by (auto simp: bit_simps)
  qed
  then have "unat b OR push_bit k m = unat b + m * 2 ^ k"
    by (simp add: push_bit_eq_mult flip: disjunctive_add_eq_or)
  moreover have "unat (push_bit k (of_nat m) :: byte) = push_bit k m"
  proof -
    have "push_bit k m < 2 ^ 8"
    proof -
      have "m * 2 ^ k \<le> 1 * 2 ^ k" using assms(3) by (intro mult_le_mono1) simp
      also have "\<dots> < 2 ^ 8" using power_strict_increasing [of k 8 "2 :: nat"] assms(2) by simp
      finally show ?thesis by (simp add: push_bit_eq_mult)
    qed
    moreover have "(push_bit k (of_nat m) :: byte) = of_nat (push_bit k m)"
      by (simp add: push_bit_of_nat)
    ultimately show ?thesis by (simp only: unat_of_nat) simp
  qed
  ultimately show ?thesis by (simp add: unsigned_or_eq)
qed

lemma be_nat_list_update:
  assumes "i < length bs"
  shows "be_nat (bs[i := b]) + unat (bs ! i) * 256 ^ (length bs - Suc i) =
         be_nat bs + unat b * 256 ^ (length bs - Suc i)"
proof -
  let ?p = "take i bs" and ?q = "drop (Suc i) bs"
  have one: "be_nat [c] = unat c" for c using be_nat_snoc [of "[]" c] by simp
  have "be_nat bs = be_nat (?p @ [bs ! i] @ ?q)"
    using assms by (simp add: id_take_nth_drop [symmetric])
  moreover have "be_nat (bs[i := b]) = be_nat (?p @ [b] @ ?q)"
    using assms by (simp add: upd_conv_take_nth_drop)
  ultimately show ?thesis
    using assms by (simp only: be_nat_append one length_drop) (simp add: algebra_simps)
qed

text \<open>The digits from \<open>cleared\<close> on never start with a zero.\<close>

definition no_leading_zero :: "nat list \<Rightarrow> bool" where
  "no_leading_zero ds \<longleftrightarrow> ds = [] \<or> hd ds \<noteq> 0"

lemma no_leading_zero_halve:
  assumes "decimal_halve cleared cleared 0 (drop cleared digits) = (ds', cleared')"
    and "cleared < length digits" and "no_leading_zero (drop cleared digits)"
  shows "no_leading_zero (drop cleared' (take cleared digits @ ds'))"
proof -
  obtain d ds where ds: "drop cleared digits = d # ds" and d: "d \<noteq> 0"
    using assms(2,3) by (cases "drop cleared digits") (auto simp: no_leading_zero_def)
  show ?thesis
  proof (cases "d = 1")
    case False
    with d have "d div 2 \<noteq> 0" by arith
    with assms(1,2) ds show ?thesis
      by (auto simp: Let_def split_beta decimal_halve_past no_leading_zero_def)
  next
    case True
    with assms(1,2) ds show ?thesis
      by (cases ds) (auto simp: Let_def split_beta decimal_halve_past no_leading_zero_def)
  qed
qed

lemma no_leading_zero_positive: "no_leading_zero ds \<Longrightarrow> ds \<noteq> [] \<Longrightarrow> 0 < digits_value ds"
  by (cases ds) (auto simp: no_leading_zero_def digits_value_Cons)

lemma digits_value_parity:
  assumes "ds \<noteq> []"
  shows "last ds mod 2 = digits_value ds mod 2"
proof -
  from assms have "digits_value ds = digits_value (butlast ds) * 10 + last ds"
    by (metis append_butlast_last_id digits_value_snoc)
  also have "\<dots> = 2 * (digits_value (butlast ds) * 5) + last ds" by simp
  finally show ?thesis by presburger
qed


text \<open>
  The invariant of the loop: the octets before \<open>at_byte\<close> are zero, the octet itself has only
  bits below \<open>at_bit\<close>, and there is room for what is left of the number, with one bit to spare.
\<close>

definition decimal_inv :: "nat list \<Rightarrow> nat \<Rightarrow> byte list \<Rightarrow> nat \<Rightarrow> nat \<Rightarrow> bool" where
  "decimal_inv digits cleared usg ab at_bit \<longleftrightarrow>
     ab < length usg \<and> at_bit < 8 \<and> (\<forall>j < ab. usg ! j = 0) \<and> unat (usg ! ab) < 2 ^ at_bit
     \<and> cleared \<le> length digits \<and> no_leading_zero (drop cleared digits)
     \<and> digits_value (drop cleared digits) < 2 ^ (8 * ab + 7 - at_bit)"

text \<open>The number of bits stored so far.\<close>

definition decimal_stored :: "byte list \<Rightarrow> nat \<Rightarrow> nat \<Rightarrow> nat" where
  "decimal_stored usg ab at_bit = 8 * (length usg - Suc ab) + at_bit"

text \<open>Storing one bit: the octet and the invariant after it.\<close>

lemma decimal_store_bit:
  assumes inv: "decimal_inv digits cleared usg ab at_bit" and lt: "cleared < length digits"
    and usg': "usg' = usg[ab := usg ! ab OR push_bit at_bit (of_nat (last digits mod 2))]"
  shows "length usg' = length usg"
    and "be_nat usg' = be_nat usg
           + digits_value (drop cleared digits) mod 2 * 2 ^ decimal_stored usg ab at_bit"
    and "\<forall>j < ab. usg' ! j = 0" and "unat (usg' ! ab) < 2 ^ Suc at_bit"
proof -
  let ?v = "digits_value (drop cleared digits)" and ?b = "usg ! ab"
  from inv have ab: "ab < length usg" and bit: "at_bit < 8" and b: "unat ?b < 2 ^ at_bit"
    by (auto simp: decimal_inv_def)
  from lt have "last digits = last (drop cleared digits)" by simp
  with lt have par: "last digits mod 2 = ?v mod 2"
    using digits_value_parity [of "drop cleared digits"] by simp
  have ub: "unat (?b OR push_bit at_bit (of_nat (last digits mod 2))) = unat ?b + ?v mod 2 * 2 ^ at_bit"
    using unat_or_bit [OF b bit, of "?v mod 2"] par by simp
  show "length usg' = length usg" by (simp add: usg')
  from inv ab show "\<forall>j < ab. usg' ! j = 0" by (simp add: usg' decimal_inv_def)
  have "?v mod 2 * 2 ^ at_bit \<le> (2 :: nat) ^ at_bit" by (cases "?v mod 2 = 0") auto
  with ub b have "unat (?b OR push_bit at_bit (of_nat (last digits mod 2))) < 2 ^ Suc at_bit"
    unfolding power_Suc by linarith
  with ab show "unat (usg' ! ab) < 2 ^ Suc at_bit" by (simp add: usg')
  have pw: "2 ^ decimal_stored usg ab at_bit = (2 :: nat) ^ at_bit * 256 ^ (length usg - Suc ab)"
    by (simp add: decimal_stored_def power_add power_mult)
  show "be_nat usg' = be_nat usg + ?v mod 2 * 2 ^ decimal_stored usg ab at_bit"
    using be_nat_list_update [OF ab, of "?b OR push_bit at_bit (of_nat (last digits mod 2))"] ub
    by (simp add: usg' pw algebra_simps)
qed

lemma half_room:
  assumes "0 < v" and "v < 2 ^ m" and "Suc k = m"
  shows "v div 2 < (2 :: nat) ^ k"
  using assms by auto

lemma half_split: "v mod 2 * x + v div 2 * (2 * x) = v * (x :: nat)"
proof -
  have "v mod 2 * x + v div 2 * (2 * x) = (v mod 2 + 2 * (v div 2)) * x"
    by (simp only: algebra_simps)
  then show ?thesis by simp
qed

lemma decimal_bits_correct:
  assumes "decimal_inv digits cleared usg ab at_bit"
  shows "\<exists>usg' ab' bit'. decimal_bits digits cleared usg (int ab) at_bit = Ret (usg', int ab', bit')
    \<and> decimal_inv [] 0 usg' ab' bit' \<and> length usg' = length usg
    \<and> be_nat usg' = be_nat usg + digits_value (drop cleared digits) * 2 ^ decimal_stored usg ab at_bit
    \<and> decimal_stored usg ab at_bit \<le> decimal_stored usg' ab' bit'
    \<and> 2 ^ decimal_stored usg' ab' bit'
        \<le> max 1 (2 * digits_value (drop cleared digits)) * 2 ^ decimal_stored usg ab at_bit"
  using assms
proof (induction "digits_value (drop cleared digits)" arbitrary: digits cleared usg ab at_bit
    rule: less_induct)
  case less
  let ?v = "digits_value (drop cleared digits)" and ?K = "decimal_stored usg ab at_bit"
  from less.prems have cl: "cleared \<le> length digits" and nlz: "no_leading_zero (drop cleared digits)"
    and room: "?v < 2 ^ (8 * ab + 7 - at_bit)" and bit: "at_bit < 8" and ab: "ab < length usg"
    by (auto simp: decimal_inv_def)
  show ?case
  proof (cases "cleared < length digits")
    case False
    with less.prems cl show ?thesis
      by (intro exI [of _ usg] exI [of _ ab] exI [of _ at_bit])
        (auto simp: decimal_bits.simps decimal_inv_def no_leading_zero_def)
  next
    case lt: True
    obtain ds' cleared' where halve: "decimal_halve cleared cleared 0 (drop cleared digits) = (ds', cleared')"
      by (cases "decimal_halve cleared cleared 0 (drop cleared digits)") auto
    let ?d' = "take cleared digits @ ds'"
    define usg1 where "usg1 = usg[ab := usg ! ab OR push_bit at_bit (of_nat (last digits mod 2))]"
    note store = decimal_store_bit [OF less.prems lt usg1_def]
    note step = decimal_halve_step [OF halve cl]
    have vpos: "0 < ?v" using no_leading_zero_positive [OF nlz] lt by simp
    define ab1 bit1 where "ab1 = (if at_bit = 7 then ab - 1 else ab)"
      and "bit1 = (if at_bit = 7 then 0 else Suc at_bit)"
    have abpos: "0 < ab" if "at_bit = 7"
    proof (rule ccontr)
      assume "\<not> 0 < ab"
      with room that vpos show False by simp
    qed
    have unfold: "decimal_bits digits cleared usg (int ab) at_bit =
        decimal_bits ?d' cleared' usg1 (int ab1) bit1"
      using lt halve abpos
      by (subst decimal_bits.simps) (auto simp: Let_def usg1_def ab1_def bit1_def of_nat_diff)
    have K1: "decimal_stored usg1 ab1 bit1 = Suc ?K"
      using abpos ab bit by (auto simp: decimal_stored_def ab1_def bit1_def store(1))
    have inv1: "decimal_inv ?d' cleared' usg1 ab1 bit1"
    proof -
      have "?v div 2 < 2 ^ (8 * ab1 + 7 - bit1)"
        by (rule half_room [OF vpos room]) (use abpos bit in \<open>auto simp: ab1_def bit1_def\<close>)
      then show ?thesis
        using step store(3,4) abpos ab bit no_leading_zero_halve [OF halve lt nlz]
        by (auto simp: decimal_inv_def ab1_def bit1_def store(1))
    qed
    from less.hyps [OF _ inv1] step(4) vpos obtain usg' ab' bit' where
      r: "decimal_bits ?d' cleared' usg1 (int ab1) bit1 = Ret (usg', int ab', bit')"
        "decimal_inv [] 0 usg' ab' bit'" "length usg' = length usg1"
        "be_nat usg' = be_nat usg1 + ?v div 2 * 2 ^ Suc ?K"
        "Suc ?K \<le> decimal_stored usg' ab' bit'"
        "2 ^ decimal_stored usg' ab' bit' \<le> max 1 (2 * (?v div 2)) * 2 ^ Suc ?K"
      unfolding step(4) K1 by auto
    have "be_nat usg' = be_nat usg + ?v * 2 ^ ?K"
      using r(4) store(2) half_split [of ?v "2 ^ ?K"] by (simp only: power_Suc)
    moreover have "max 1 (2 * (?v div 2)) * 2 ^ Suc ?K \<le> max 1 (2 * ?v) * 2 ^ ?K"
      using vpos by auto
    with r(6) have "2 ^ decimal_stored usg' ab' bit' \<le> max 1 (2 * ?v) * 2 ^ ?K" by (rule order_trans)
    ultimately show ?thesis
      using r(1-3,5) store(1) unfold
      by - (rule exI [of _ usg'], rule exI [of _ ab'], rule exI [of _ bit'], simp)
  qed
qed


text \<open>The number a text of digits stands for.\<close>

definition decimal_text_value :: "byte list \<Rightarrow> nat" where
  "decimal_text_value data = digits_value (map (\<lambda>ch. unat ch - 48) data)"

definition decimal_text :: "byte list \<Rightarrow> bool" where
  "decimal_text data \<longleftrightarrow> (\<forall>ch \<in> set data. g_ascii_isdigit ch)"

lemma decimal_digits_None: "\<not> decimal_text data \<Longrightarrow> decimal_digits s data = None"
  by (induction data arbitrary: s) (auto simp: decimal_text_def g_ascii_isdigit_def not_less)

lemma digit_unat: "g_ascii_isdigit ch \<Longrightarrow> unat (ch - chr CHR ''0'') = unat ch - 48 \<and> unat ch - 48 < 10"
  by (simp add: g_ascii_isdigit_def word_le_nat_alt unat_sub) arith

lemma decimal_digits_Some:
  assumes "decimal_text data"
  shows "\<exists>ds. decimal_digits s data = Some ds \<and> digits_value ds = decimal_text_value data
     \<and> (s \<or> no_leading_zero ds) \<and> (\<forall>d \<in> set ds. d < 10) \<and> length ds \<le> length data
     \<and> (s \<longrightarrow> length ds = length data)"
  using assms
proof (induction data arbitrary: s)
  case Nil
  then show ?case by (simp add: decimal_text_value_def no_leading_zero_def)
next
  case (Cons ch data)
  then have dig: "g_ascii_isdigit ch" and rest: "decimal_text data" by (simp_all add: decimal_text_def)
  from dig have rng: "\<not> (ch < chr CHR ''0'' \<or> ch > chr CHR ''9'')"
    by (auto simp: g_ascii_isdigit_def)
  have ne: "ch \<noteq> chr CHR ''0'' \<longleftrightarrow> unat ch - 48 \<noteq> 0"
    using dig by (auto simp: g_ascii_isdigit_def word_le_nat_alt word_unat_eq_iff)
  show ?case
  proof (cases "ch \<noteq> chr CHR ''0'' \<or> s")
    case True
    from Cons.IH [OF rest, of True] obtain ds where
      "decimal_digits True data = Some ds" "digits_value ds = decimal_text_value data"
      "\<forall>d \<in> set ds. d < 10" "length ds = length data" by blast
    with True rng ne digit_unat [OF dig] show ?thesis
      by (auto simp: decimal_text_value_def digits_value_Cons no_leading_zero_def)
  next
    case False
    from Cons.IH [OF rest, of s] False rng ne show ?thesis
      by (auto simp: decimal_text_value_def digits_value_Cons)
  qed
qed

lemma digits_value_bound: "\<forall>d \<in> set ds. d < 10 \<Longrightarrow> digits_value ds < 10 ^ length ds"
proof (induction ds)
  case Nil
  then show ?case by simp
next
  case (Cons d ds)
  then have "digits_value ds < 10 ^ length ds" and "d \<le> 9" by auto
  moreover from \<open>d \<le> 9\<close> have "d * 10 ^ length ds \<le> 9 * 10 ^ length ds" by simp
  ultimately have "d * 10 ^ length ds + digits_value ds < 9 * 10 ^ length ds + 10 ^ length ds"
    by linarith
  then show ?case by (simp add: digits_value_Cons)
qed

lemma be_nat_zeros: "be_nat (replicate k 0 @ bs) = be_nat bs"
proof -
  have "be_nat (replicate k 0) = 0"
    by (induction k) (simp_all add: replicate_append_same [symmetric])
  then show ?thesis by (simp add: be_nat_append)
qed

lemma decimal_inv_start:
  assumes "ds = [] \<or> hd ds \<noteq> 0" and "\<forall>d \<in> set ds. d < 10" and "length ds \<le> n" and "0 < n"
  shows "decimal_inv ds 0 (replicate n 0) (n - 1) 0"
proof -
  have "digits_value ds < 10 ^ length ds" using assms(2) by (rule digits_value_bound)
  also have "\<dots> \<le> 10 ^ n" using assms(3) by (rule power_increasing) simp
  also have "\<dots> \<le> 16 ^ n" by (rule power_mono) simp_all
  also have "(16 :: nat) ^ n = 2 ^ (4 * n)" by (simp add: power_mult)
  also have "\<dots> \<le> 2 ^ (8 * (n - 1) + 7)" using assms(4) by (intro power_increasing) arith+
  finally show ?thesis using assms(1,4) by (simp add: decimal_inv_def no_leading_zero_def)
qed

text \<open>The area left of the first stored octet is zero, and that octet is not.\<close>

lemma decimal_result:
  assumes inv: "decimal_inv [] 0 usg ab bt"
    and bits: "2 ^ decimal_stored usg ab bt \<le> max 1 (2 * be_nat usg)"
    and start: "start = (if bt = 0 then Suc ab else ab)"
  shows "be_nat (drop start usg) = be_nat usg"
    and "drop start usg = [] \<or> hd (drop start usg) \<noteq> 0"
proof -
  let ?out = "drop start usg"
  from inv have ab: "ab < length usg" and z: "\<forall>j < ab. usg ! j = 0" and b: "unat (usg ! ab) < 2 ^ bt"
    by (auto simp: decimal_inv_def)
  from b have "bt = 0 \<Longrightarrow> usg ! ab = 0" by (simp add: unat_eq_zero)
  with z have "\<forall>j < start. usg ! j = 0" by (auto simp: start less_Suc_eq)
  then have "take start usg = replicate start 0"
    using ab by (intro nth_equalityI) (auto simp: start)
  then have split: "usg = replicate start 0 @ ?out" by (metis append_take_drop_id)
  then show eq: "be_nat ?out = be_nat usg" by (metis be_nat_zeros)
  show "?out = [] \<or> hd ?out \<noteq> 0"
  proof (rule ccontr)
    assume "\<not> (?out = [] \<or> hd ?out \<noteq> 0)"
    then obtain rest where out: "?out = 0 # rest" by (cases ?out) auto
    have "be_nat ?out < 256 ^ length rest"
      using be_nat_zeros [of 1 rest] be_nat_less [of rest] by (simp add: out)
    then have lt: "be_nat usg < 256 ^ length rest" by (simp add: eq)
    have "length rest = length usg - Suc start" using arg_cong [OF out, of length] by simp
    then have "8 * length rest + 1 \<le> decimal_stored usg ab bt"
      using ab arg_cong [OF out, of length] by (auto simp: start decimal_stored_def split: if_splits)
    then have "(2 :: nat) ^ (8 * length rest + 1) \<le> 2 ^ decimal_stored usg ab bt"
      by (rule power_increasing) simp
    then have "2 * 256 ^ length rest \<le> max 1 (2 * be_nat usg)"
      using bits by (simp add: power_mult)
    moreover have "(1 :: nat) \<le> 256 ^ length rest" by simp
    ultimately show False using lt by linarith
  qed
qed

lemma decimal_decode_value:
  assumes "decimal_text data" and "data \<noteq> []" and "length data < 2 ^ 32"
  shows "\<exists>out. egg_decimal_decode data = Ret (Some out)
           \<and> be_nat out = decimal_text_value data \<and> (out = [] \<or> hd out \<noteq> 0)"
proof -
  from decimal_digits_Some [OF assms(1), of False] obtain ds where
    ds: "decimal_digits False data = Some ds" "digits_value ds = decimal_text_value data"
      "no_leading_zero ds" "\<forall>d \<in> set ds. d < 10" "length ds \<le> length data" by blast
  let ?n = "length data"
  from ds(3-5) assms(2) have "decimal_inv ds 0 (replicate ?n 0) (?n - 1) 0"
    by (intro decimal_inv_start) (simp_all add: no_leading_zero_def)
  from decimal_bits_correct [OF this] obtain usg ab bt where
    r: "decimal_bits ds 0 (replicate ?n 0) (int (?n - 1)) 0 = Ret (usg, int ab, bt)"
      "decimal_inv [] 0 usg ab bt" "be_nat usg = digits_value ds"
      "2 ^ decimal_stored usg ab bt \<le> max 1 (2 * digits_value ds)"
    using assms(2) be_nat_zeros [of ?n "[]"] by (auto simp: decimal_stored_def)
  have i: "int (?n - 1) = int ?n - 1" using assms(2) by (cases data) simp_all
  let ?out = "drop (if bt = 0 then Suc ab else ab) usg"
  have "egg_decimal_decode data = Ret (Some ?out)"
    using r(1) ds(1) assms(2,3) unfolding i
    by (simp add: egg_decimal_decode_def nat_add_distrib guint_for_eq)
  moreover note decimal_result [OF r(2) _ refl]
  ultimately show ?thesis using r(3,4) ds(2) by metis
qed

text \<open>
  C31. On every non-empty text of fewer than \<open>2 ^ 32\<close> decimal digits the decoder returns (its loops
  end, and the assertion that guards the output area never fails) the octets of exactly that number,
  most significant first and without leading zero octets.
\<close>

theorem egg_decimal_decode_correct:
  assumes "decimal_text data" and "data \<noteq> []" and "length data < 2 ^ 32"
  shows "\<exists>out. egg_decimal_decode data = Ret (Some out)
           \<and> be_nat out = decimal_text_value data \<and> (out = [] \<or> hd out \<noteq> 0)"
  by (rule decimal_decode_value [OF assms])

theorem egg_decimal_decode_correct_witness:
  "\<exists>out. egg_decimal_decode (cstr ''0065537'') = Ret (Some out) \<and> be_nat out = 65537
     \<and> (out = [] \<or> hd out \<noteq> 0)"
  using egg_decimal_decode_correct [of "cstr ''0065537''"]
  by (simp add: decimal_text_def g_ascii_isdigit_def decimal_text_value_def digits_value_def)

lemma egg_decimal_decode_not_digits:
  "\<not> decimal_text data \<Longrightarrow> length data < 2 ^ 32 \<Longrightarrow> egg_decimal_decode data = Ret None"
  by (simp add: egg_decimal_decode_def decimal_digits_None)

text \<open>Beyond that the loop over the characters does not end.\<close>

lemma egg_decimal_decode_hangs:
  assumes "decimal_text data" and "2 ^ 32 \<le> length data"
  shows "egg_decimal_decode data = Undef"
proof -
  have "decimal_text (take (2 ^ 32) data)"
    using assms(1) by (auto simp: decimal_text_def dest: in_set_takeD)
  from decimal_digits_Some [OF this, of False] obtain ds where
    "decimal_digits False (take (2 ^ 32) data) = Some ds" by blast
  moreover have "guint_for 0 (length data) = None" using assms(2) by (simp add: guint_for_eq)
  ultimately show ?thesis by (simp add: egg_decimal_decode_def)
qed

end
