(* ===== verification/Egg_Padding.thy ===== *)
theory Egg_Padding
  imports Egg_Prelude
begin

text \<open>
  Block padding, \<^verbatim>\<open>egg/egg-padding.c\<close>: zero padding, PKCS#1 block types 1 and 2, and
  PKCS#7.

  A result is \<open>Ret None\<close> for \<^verbatim>\<open>FALSE\<close> and \<open>Ret (Some (n, area))\<close> for \<^verbatim>\<open>TRUE\<close>, with
  \<open>n\<close> the value stored to the length pointer and \<open>area\<close> the octets of the allocated result
  (\<open>None\<close> when the caller passed \<^verbatim>\<open>NULL\<close>, \<open>want = False\<close>).  \<open>Abort\<close> is a failed
  \<^verbatim>\<open>g_assert\<close>, \<open>Undef\<close> an access outside of the memory passed in.

  Parameters: \<open>alloc n\<close> says whether the allocator returns memory for \<open>n\<close> octets;
  \<open>rnd k n\<close> are the \<open>n\<close> octets the \<open>k\<close>-th call of \<^verbatim>\<open>egg_random\<close> writes; and
  \<open>salloc k n\<close> says whether \<^verbatim>\<open>egg_secure_alloc\<close> succeeds in the \<open>k\<close>-th round.
\<close>

section \<open>Definitions\<close>

type_synonym pad_result = "(nat \<times> byte list option) option outcome"

fun count_zeros :: "byte list \<Rightarrow> nat" where
  "count_zeros [] = 0"
| "count_zeros (b # data) = (if b = 0 then Suc (count_zeros data) else count_zeros data)"

text \<open>The \<^verbatim>\<open>for\<close> loop that puts replacement octets in place of the zeros.\<close>

fun replace_zeros :: "byte list \<Rightarrow> byte list \<Rightarrow> byte list" where
  "replace_zeros [] rs = []"
| "replace_zeros (b # data) rs =
     (if b \<noteq> 0 then b # replace_zeros data rs
      else (case rs of [] \<Rightarrow> b # replace_zeros data [] | r # rs' \<Rightarrow> r # replace_zeros data rs'))"

text \<open>The loop may run for ever, when no replacement is ever free of zeros: \<open>None\<close> then.\<close>

partial_function (option) fill_loop ::
  "(nat \<Rightarrow> nat \<Rightarrow> byte list) \<Rightarrow> (nat \<Rightarrow> nat \<Rightarrow> bool) \<Rightarrow> nat \<Rightarrow> byte list \<Rightarrow> byte list option" where
  "fill_loop rnd salloc k data =
     (if count_zeros data > 0 then
        (if salloc k (count_zeros data)
         then fill_loop rnd salloc (Suc k) (replace_zeros data (rnd k (count_zeros data)))
         else Some data)
      else Some data)"

text \<open>
  The first loop, which counts the zeros of the random octets, has a \<^verbatim>\<open>guint\<close> for its
  counter and a \<^verbatim>\<open>gsize\<close> for its bound: it has to come to its end before the second one.
\<close>

definition fill_random_nonzero ::
  "(nat \<Rightarrow> nat \<Rightarrow> byte list) \<Rightarrow> (nat \<Rightarrow> nat \<Rightarrow> bool) \<Rightarrow> nat \<Rightarrow> byte list option" where
  "fill_random_nonzero rnd salloc n_data =
     Option.bind (guint_for 0 n_data) (\<lambda>_. fill_loop rnd salloc 1 (rnd 0 n_data))"

definition unpad_pkcs1 ::
  "byte \<Rightarrow> (nat \<Rightarrow> bool) \<Rightarrow> nat \<Rightarrow> byte list \<Rightarrow> bool \<Rightarrow> pad_result" where
  "unpad_pkcs1 bt alloc block padded want =
     (let n_padded = length padded in
      if block \<noteq> 0 \<and> n_padded mod block \<noteq> 0 then Ret None
      else if n_padded < 1 then Undef
      else if padded ! 0 \<noteq> 0 then Ret None
      else if n_padded < 2 then Undef
      else if padded ! 1 \<noteq> bt then Ret None
      else (case memchr (drop 2 padded) 0 of
              None \<Rightarrow> Ret None
            | Some i \<Rightarrow>
                (let at = 2 + i + 1; n_raw = n_padded - at in
                 if want then
                   (if alloc (n_raw + 1) then Ret (Some (n_raw, Some (drop at padded @ [0])))
                    else Ret None)
                 else Ret (Some (n_raw, None)))))"

definition egg_padding_zero_pad ::
  "(nat \<Rightarrow> bool) \<Rightarrow> nat \<Rightarrow> byte list \<Rightarrow> bool \<Rightarrow> pad_result" where
  "egg_padding_zero_pad alloc block raw want =
     (if block = 0 then Ret None
      else
        (let n_raw = length raw;
             n_padded = wrap64 (n_raw + (block - 1)) div block * block;
             n_pad = n_padded - n_raw
         in g_assert (n_raw \<le> n_padded) (g_assert (n_pad < block)
              (if want then
                 (if alloc (max n_padded 1) then Ret (Some (n_padded, Some (replicate n_pad 0 @ raw)))
                  else Ret None)
               else Ret (Some (n_padded, None))))))"

definition egg_padding_pkcs1_pad_01 ::
  "(nat \<Rightarrow> bool) \<Rightarrow> nat \<Rightarrow> byte list \<Rightarrow> bool \<Rightarrow> pad_result" where
  "egg_padding_pkcs1_pad_01 alloc block raw want =
     (if block = 0 then Ret None
      else if \<not> block > 3 then Ret None
      else
        (let n_raw = length raw;
             n_padded = wrap64 (n_raw + 3 + (block - 1)) div block * block;
             n_pad = n_padded - n_raw
         in g_assert (n_raw \<le> n_padded) (g_assert (n_pad \<le> block) (g_assert (n_pad \<ge> 3)
              (if want then
                 (if alloc (max n_padded 1)
                  then Ret (Some (n_padded, Some ([0, 1] @ replicate (n_pad - 3) 0xFF @ [0] @ raw)))
                  else Ret None)
               else Ret (Some (n_padded, None)))))))"

text \<open>
  Block type 2 fills in random octets; the outer option is the termination of that loop.
\<close>

definition egg_padding_pkcs1_pad_02 ::
  "(nat \<Rightarrow> nat \<Rightarrow> byte list) \<Rightarrow> (nat \<Rightarrow> nat \<Rightarrow> bool) \<Rightarrow>
   (nat \<Rightarrow> bool) \<Rightarrow> nat \<Rightarrow> byte list \<Rightarrow> bool \<Rightarrow> pad_result option" where
  "egg_padding_pkcs1_pad_02 rnd salloc alloc block raw want =
     (if block = 0 then Some (Ret None)
      else if \<not> block > 3 then Some (Ret None)
      else
        (let n_raw = length raw;
             n_padded = wrap64 (n_raw + 3 + (block - 1)) div block * block;
             n_pad = n_padded - n_raw
         in if \<not> n_raw \<le> n_padded \<or> \<not> n_pad \<le> block \<or> \<not> n_pad \<ge> 3 then Some Abort
            else if want then
              (if alloc (max n_padded 1) then
                 map_option (\<lambda>ps. Ret (Some (n_padded, Some ([0, 2] @ ps @ [0] @ raw))))
                   (fill_random_nonzero rnd salloc (n_pad - 3))
               else Some (Ret None))
            else Some (Ret (Some (n_padded, None)))))"

definition egg_padding_pkcs1_unpad_01 ::
  "(nat \<Rightarrow> bool) \<Rightarrow> nat \<Rightarrow> byte list \<Rightarrow> bool \<Rightarrow> pad_result" where
  "egg_padding_pkcs1_unpad_01 alloc block padded want = unpad_pkcs1 0x01 alloc block padded want"

definition egg_padding_pkcs1_unpad_02 ::
  "(nat \<Rightarrow> bool) \<Rightarrow> nat \<Rightarrow> byte list \<Rightarrow> bool \<Rightarrow> pad_result" where
  "egg_padding_pkcs1_unpad_02 alloc block padded want = unpad_pkcs1 0x02 alloc block padded want"

definition egg_padding_pkcs7_pad ::
  "(nat \<Rightarrow> bool) \<Rightarrow> nat \<Rightarrow> byte list \<Rightarrow> bool \<Rightarrow> pad_result" where
  "egg_padding_pkcs7_pad alloc block raw want =
     (if block = 0 then Ret None
      else if \<not> block < 256 then Ret None
      else
        (let n_raw = length raw;
             n_padded = wrap64 (n_raw + block) div block * block;
             n_pad = n_padded - n_raw
         in g_assert (n_raw < n_padded) (g_assert (n_pad > 0 \<and> n_pad \<le> block)
              (if want then
                 (if alloc (max n_padded 1)
                  then Ret (Some (n_padded, Some (raw @ replicate n_pad (of_nat n_pad))))
                  else Ret None)
               else Ret (Some (n_padded, None))))))"

definition egg_padding_pkcs7_unpad ::
  "(nat \<Rightarrow> bool) \<Rightarrow> nat \<Rightarrow> byte list \<Rightarrow> bool \<Rightarrow> pad_result" where
  "egg_padding_pkcs7_unpad alloc block padded want =
     (let n_padded = length padded in
      if n_padded = 0 then Ret None
      else
        (let n_pad = unat (padded ! (n_padded - 1)) in
         if n_pad = 0 \<or> n_pad > 256 then Ret None
         else if n_pad > n_padded then Ret None
         else if block \<noteq> 0 \<and> n_pad > block then Ret None
         else if \<not> (\<forall>i \<in> set [n_padded - n_pad ..< n_padded]. unat (padded ! i) = n_pad) then Ret None
         else
           (let n_raw = n_padded - n_pad in
            if want then
              (if alloc (n_raw + 1) then Ret (Some (n_raw, Some (take n_raw padded @ [0])))
               else Ret None)
            else Ret (Some (n_raw, None)))))"

section \<open>Sizes\<close>

text \<open>Rounding \<open>n\<close> up to a multiple of the block size.\<close>

lemma round_up:
  assumes "0 < (b :: nat)"
  shows "n \<le> (n + (b - 1)) div b * b" and "(n + (b - 1)) div b * b < n + b"
    and "(n + (b - 1)) div b * b mod b = 0"
proof -
  have eq: "(n + (b - 1)) div b * b + (n + (b - 1)) mod b = n + (b - 1)" by simp
  moreover have "(n + (b - 1)) mod b < b" using assms by simp
  ultimately show "n \<le> (n + (b - 1)) div b * b" using assms by linarith
  from eq have "(n + (b - 1)) div b * b \<le> n + (b - 1)" by (metis le_add1)
  then show "(n + (b - 1)) div b * b < n + b" using assms by linarith
qed simp

lemma round_past:
  assumes "0 < (b :: nat)"
  shows "n < (n + b) div b * b" and "(n + b) div b * b \<le> n + b" and "(n + b) div b * b mod b = 0"
proof -
  have eq: "(n + b) div b * b + (n + b) mod b = n + b" by (rule div_mult_mod_eq)
  moreover have "(n + b) mod b < b" using assms by simp
  ultimately show "n < (n + b) div b * b" by linarith
  from eq show "(n + b) div b * b \<le> n + b" by (metis le_add1)
qed simp


lemma round_up_mod:
  assumes "0 < (b :: nat)"
  shows "(n + (b - 1)) div b * b = (if n mod b = 0 then n else n + b - n mod b)"
proof (cases "n mod b = 0")
  case True
  then have "(n + (b - 1)) div b = n div b" using assms
    by (metis Suc_pred' add.right_neutral div_add1_eq div_less lessI mod_less mod_0 add_0)
  moreover have "n div b * b + n mod b = n" by (rule div_mult_mod_eq)
  ultimately show ?thesis using True by (simp del: div_mult_mod_eq)
next
  case False
  then have "(n mod b + (b - 1)) div b = 1"
    using mod_less_divisor [OF assms, of n] by (intro div_nat_eqI; simp; linarith)
  moreover have "n + (b - 1) = (n mod b + (b - 1)) + n div b * b"
    using div_mult_mod_eq [of n b] by linarith
  then have "(n + (b - 1)) div b = n div b + (n mod b + (b - 1)) div b"
    using assms by (metis div_mult_self1 neq0_conv)
  ultimately have "(n + (b - 1)) div b * b = n div b * b + b" by simp
  moreover have "n div b * b + n mod b = n" by (rule div_mult_mod_eq)
  ultimately have "(n + (b - 1)) div b * b + n mod b = n + b" by linarith
  with False show ?thesis by simp
qed

section \<open>The contract of a padding scheme\<close>

text \<open>
  What the clients of the module rely on: padding a block that the scheme accepts succeeds, gives a
  multiple of the block size that is longer than the input, and can be taken off again.
\<close>

locale padding_scheme =
  fixes accepts :: "nat \<Rightarrow> byte list \<Rightarrow> bool"
    and pad :: "nat \<Rightarrow> byte list \<Rightarrow> pad_result"
    and unpad :: "nat \<Rightarrow> byte list \<Rightarrow> pad_result"
  assumes pad_returns: "accepts block raw \<Longrightarrow>
      \<exists>p. pad block raw = Ret (Some (length p, Some p)) \<and> block dvd length p \<and> length raw < length p"
    and unpad_pad: "accepts block raw \<Longrightarrow> pad block raw = Ret (Some (n, Some p)) \<Longrightarrow>
      unpad block p = Ret (Some (length raw, Some (raw @ [0])))"
begin

lemma pad_unpad:
  assumes "accepts block raw"
  shows "\<exists>p. pad block raw = Ret (Some (length p, Some p)) \<and> block dvd length p
      \<and> unpad block p = Ret (Some (length raw, Some (raw @ [0])))"
  using pad_returns [OF assms] unpad_pad [OF assms] by blast

lemma pad_injective:
  assumes "accepts block raw" and "accepts block raw'" and "pad block raw = pad block raw'"
  shows "raw = raw'"
  using pad_unpad [OF assms(1)] pad_unpad [OF assms(2)] assms(3) by auto

end

subsection \<open>PKCS#7\<close>

definition pkcs7_accepts :: "nat \<Rightarrow> byte list \<Rightarrow> bool" where
  "pkcs7_accepts block raw \<longleftrightarrow> 0 < block \<and> block < 256 \<and> length raw + block < 2 ^ 64"

lemma pkcs7_pad_eq:
  assumes "pkcs7_accepts block raw" and "\<And>n. alloc n"
  obtains k where "0 < k" and "k \<le> block" and "block dvd length raw + k"
    and "egg_padding_pkcs7_pad alloc block raw True =
         Ret (Some (length raw + k, Some (raw @ replicate k (of_nat k))))"
proof -
  let ?N = "(length raw + block) div block * block"
  have w: "wrap64 (length raw + block) = length raw + block"
    using assms(1) by (intro wrap64_id) (simp add: pkcs7_accepts_def)
  from assms(1) have b: "0 < block" "block < 256" by (simp_all add: pkcs7_accepts_def)
  from round_past [OF b(1), of "length raw"] obtain k where
    N: "?N = length raw + k" "0 < k" "k \<le> block" "block dvd ?N"
    by (metis add_le_cancel_left dvd_triv_right less_imp_add_positive)
  show thesis
    by (rule that [of k])
      (use N b assms(2) in \<open>simp_all add: egg_padding_pkcs7_pad_def Let_def w\<close>)
qed

lemma pkcs7_unpad_eq:
  assumes "0 < k" and "k \<le> block" and "block < 256" and "\<And>n. alloc n"
  shows "egg_padding_pkcs7_unpad alloc block (raw @ replicate k (of_nat k)) True =
    Ret (Some (length raw, Some (raw @ [0])))"
proof -
  let ?p = "raw @ replicate k (of_nat k) :: byte list"
  have u: "unat (of_nat k :: byte) = k" using assms by (simp add: unat_of_nat)
  have "?p ! (length ?p - 1) = of_nat k"
    using assms(1) by (subst last_conv_nth [symmetric]) simp_all
  moreover have "\<forall>i \<in> set [length raw ..< length raw + k]. unat (?p ! i) = k"
    by (auto simp: nth_append u)
  ultimately show ?thesis using assms
    by (simp add: egg_padding_pkcs7_unpad_def Let_def u)
qed

interpretation pkcs7: padding_scheme pkcs7_accepts
  "\<lambda>block raw. egg_padding_pkcs7_pad (\<lambda>_. True) block raw True"
  "\<lambda>block padded. egg_padding_pkcs7_unpad (\<lambda>_. True) block padded True"
proof (unfold_locales, goal_cases)
  case (1 block raw)
  then show ?case by (rule pkcs7_pad_eq [of _ _ "\<lambda>_. True"]) auto
next
  case (2 block raw n p)
  from 2(1) have "block < 256" by (simp add: pkcs7_accepts_def)
  with 2 show ?case
    by (elim pkcs7_pad_eq [of _ _ "\<lambda>_. True"]) (auto simp: pkcs7_unpad_eq)
qed


subsection \<open>PKCS#1, block types 1 and 2\<close>

text \<open>
  The inputs that get padding of at least three octets and at most a block, which the assertions
  of the code ask for.
\<close>

definition pkcs1_accepts :: "nat \<Rightarrow> byte list \<Rightarrow> bool" where
  "pkcs1_accepts block raw \<longleftrightarrow>
     3 < block \<and> length raw + 3 + block < 2 ^ 64 \<and> (length raw + 3) mod block \<notin> {1, 2}"

lemma pkcs1_size:
  assumes "3 < block" and "n_raw + 3 + block < 2 ^ 64"
  defines "n_padded \<equiv> wrap64 (n_raw + 3 + (block - 1)) div block * block"
  shows "n_raw + 3 \<le> n_padded" and "block dvd n_padded"
    and "n_padded - n_raw \<le> block \<longleftrightarrow> (n_raw + 3) mod block \<notin> {1, 2}"
proof -
  have w: "wrap64 (n_raw + 3 + (block - 1)) = n_raw + 3 + (block - 1)"
    using assms(1,2) by (intro wrap64_id) simp
  have N: "n_padded = (if (n_raw + 3) mod block = 0 then n_raw + 3
                       else n_raw + 3 + block - (n_raw + 3) mod block)"
    unfolding n_padded_def w using assms(1) by (intro round_up_mod) simp
  show "n_raw + 3 \<le> n_padded"
    unfolding n_padded_def w using assms(1) by (intro round_up(1)) simp
  show "block dvd n_padded" by (simp add: n_padded_def)
  have "(n_raw + 3) mod block < block" using assms(1) by simp
  then show "n_padded - n_raw \<le> block \<longleftrightarrow> (n_raw + 3) mod block \<notin> {1, 2}"
    unfolding N using assms(1) by auto
qed

lemma pkcs1_length: "length raw + 3 + n = Suc (Suc (n + Suc (length raw)))"
  by simp

lemma pkcs1_pad_01_eq:
  assumes "pkcs1_accepts block raw" and "\<And>n. alloc n"
  obtains k where "block dvd length raw + 3 + k"
    and "egg_padding_pkcs1_pad_01 alloc block raw True =
         Ret (Some (length raw + 3 + k, Some ([0, 1] @ replicate k 0xFF @ [0] @ raw)))"
proof -
  from assms(1) have acc: "3 < block" "length raw + 3 + block < 2 ^ 64"
    "(length raw + 3) mod block \<notin> {1, 2}" by (simp_all add: pkcs1_accepts_def)
  note sz = pkcs1_size [OF acc(1,2)]
  define N where "N = wrap64 (length raw + 3 + (block - 1)) div block * block"
  from sz(1) obtain k where N: "N = length raw + 3 + k" unfolding N_def by (metis le_Suc_ex)
  from sz(3) acc(3) have "N - length raw \<le> block" unfolding N_def by simp
  with acc(1) N assms(2) have "egg_padding_pkcs1_pad_01 alloc block raw True =
      Ret (Some (length raw + 3 + k, Some ([0, 1] @ replicate k 0xFF @ [0] @ raw)))"
    unfolding egg_padding_pkcs1_pad_01_def Let_def N_def [symmetric] by simp
  moreover from sz(2) have "block dvd length raw + 3 + k" unfolding N [symmetric] N_def .
  ultimately show thesis using that by blast
qed

lemma pkcs1_unpad_eq:
  assumes "block dvd length raw + 3 + length ps" and "0 \<notin> set ps" and "\<And>n. alloc n"
  shows "unpad_pkcs1 bt alloc block ([0, bt] @ ps @ [0] @ raw) True =
    Ret (Some (length raw, Some (raw @ [0])))"
proof -
  have "block = 0 \<or> (length ps + length raw + 3) mod block = 0"
    using assms(1) by (auto simp: add_ac)
  then show ?thesis using assms(2,3)
    by (auto simp: unpad_pkcs1_def Let_def memchr_append numeral_eq_Suc)
qed

interpretation pkcs1_01: padding_scheme pkcs1_accepts
  "\<lambda>block raw. egg_padding_pkcs1_pad_01 (\<lambda>_. True) block raw True"
  "\<lambda>block padded. egg_padding_pkcs1_unpad_01 (\<lambda>_. True) block padded True"
proof (unfold_locales, goal_cases)
  case (1 block raw)
  then show ?case
    by (rule pkcs1_pad_01_eq [of _ _ "\<lambda>_. True"]) (auto simp: pkcs1_length)
next
  case (2 block raw n p)
  from 2(1) obtain k where k: "block dvd length raw + 3 + k"
    "egg_padding_pkcs1_pad_01 (\<lambda>_. True) block raw True =
       Ret (Some (length raw + 3 + k, Some ([0, 1] @ replicate k 0xFF @ [0] @ raw)))"
    by (rule pkcs1_pad_01_eq [of _ _ "\<lambda>_. True"]) simp
  with 2(2) have "p = [0, 1] @ replicate k 0xFF @ [0] @ raw" by simp
  with k(1) show ?case unfolding egg_padding_pkcs1_unpad_01_def
    using pkcs1_unpad_eq [of block raw "replicate k 0xFF" "\<lambda>_. True" 1] by simp
qed


text \<open>The random octets of block type 2.\<close>

lemma length_replace_zeros [simp]: "length (replace_zeros data rs) = length data"
  by (induction data rs rule: replace_zeros.induct) (auto split: list.splits)

lemma count_zeros_0: "count_zeros data = 0 \<longleftrightarrow> 0 \<notin> set data"
  by (induction data) auto

lemma replace_zeros_nonzero:
  "length rs = count_zeros data \<Longrightarrow> 0 \<notin> set rs \<Longrightarrow> 0 \<notin> set (replace_zeros data rs)"
  by (induction data rs rule: replace_zeros.induct) (auto split: list.splits if_splits)

lemma fill_loop_result:
  assumes ret: "fill_loop rnd salloc k data = Some out"
  shows "length out = length data \<and> ((\<forall>k n. salloc k n) \<longrightarrow> 0 \<notin> set out)"
proof (rule fill_loop.raw_induct [where P = "\<lambda>rnd salloc k data out.
      length out = length data \<and> ((\<forall>k n. salloc k n) \<longrightarrow> 0 \<notin> set out)", OF _ ret])
  fix fl rnd salloc k data out
  assume IH: "\<And>rnd salloc k data out. fl rnd salloc k data = Some out \<Longrightarrow>
      length out = length data \<and> ((\<forall>k n. salloc k n) \<longrightarrow> 0 \<notin> set (out :: byte list))"
    and eq: "(if 0 < count_zeros data
         then if salloc k (count_zeros data)
              then fl rnd salloc (Suc k) (replace_zeros data (rnd k (count_zeros data))) else Some data
         else Some data) = Some out"
  show "length out = length data \<and> ((\<forall>k n. salloc k n) \<longrightarrow> 0 \<notin> set out)"
    using eq IH [of rnd salloc "Suc k" "replace_zeros data (rnd k (count_zeros data))" out]
    by (auto simp: count_zeros_0 split: if_splits)
qed

text \<open>The loop ends with the first round whose replacement octets are all non-zero.\<close>

lemma fill_loop_returns:
  assumes "\<And>k n. length (rnd k n) = n" and "\<And>n. 0 \<notin> set (rnd K n)" and "k \<le> K"
  shows "\<exists>out. fill_loop rnd salloc k data = Some out"
  using assms(3)
proof (induction "K - k" arbitrary: k data)
  case 0
  then have "k = K" by simp
  with assms(1,2) have "count_zeros (replace_zeros data (rnd k (count_zeros data))) = 0"
    by (simp add: count_zeros_0 replace_zeros_nonzero)
  then show ?case
    by (subst fill_loop.simps, subst fill_loop.simps) simp
next
  case (Suc m)
  then have "\<exists>out. fill_loop rnd salloc (Suc k) (replace_zeros data (rnd k (count_zeros data))) = Some out"
    by simp
  then show ?case by (subst fill_loop.simps) simp
qed

text \<open>For an area whose size does not fit in a \<^verbatim>\<open>guint\<close> the filling never ends.\<close>

lemma fill_random_nonzero_hangs: "2 ^ 32 \<le> n_data \<Longrightarrow> fill_random_nonzero rnd salloc n_data = None"
  by (simp add: fill_random_nonzero_def guint_for_eq)

text \<open>
  When the area has fewer than \<open>2 ^ 32\<close> octets (the counters of the loops are 32 bits wide),
  every random request yields the number of octets asked for, memory for the replacements is there,
  and some round yields no zero, the random filling of block type 2 ends, and the octets are all
  non-zero.
\<close>

theorem fill_random_nonzero_terminates:
  assumes "\<And>k n. length (rnd k n) = n" and "\<And>n. 0 \<notin> set (rnd K n)" and "1 \<le> K"
    and "\<And>k n. salloc k n" and "n_data < 2 ^ 32"
  shows "\<exists>out. fill_random_nonzero rnd salloc n_data = Some out \<and> length out = n_data \<and> 0 \<notin> set out"
proof -
  from fill_loop_returns [where rnd = rnd, OF assms(1-3)] obtain out where
    "fill_loop rnd salloc 1 (rnd 0 n_data) = Some out" by blast
  with fill_loop_result [OF this] assms(1,4,5) show ?thesis
    by (simp add: fill_random_nonzero_def guint_for_eq)
qed

theorem fill_random_nonzero_terminates_witness:
  "\<exists>out. fill_random_nonzero (\<lambda>k n. replicate n (if k < 2 then 0 else 7)) (\<lambda>_ _. True) 4 = Some out
     \<and> length out = 4 \<and> 0 \<notin> set out"
  by (rule fill_random_nonzero_terminates [where K = 2]) simp_all


text \<open>
  The inputs padding of type 2 is sure to return for: those of type 1 in blocks of fewer than
  \<open>2 ^ 32\<close> octets, with a random source that fills every area of such a size in the end.
\<close>

definition pkcs1_02_accepts ::
  "(nat \<Rightarrow> nat \<Rightarrow> byte list) \<Rightarrow> nat \<Rightarrow> byte list \<Rightarrow> bool" where
  "pkcs1_02_accepts rnd block raw \<longleftrightarrow> pkcs1_accepts block raw \<and> block < 2 ^ 32 \<and>
     (\<forall>n. length (rnd 0 n) = n) \<and> (\<forall>n < block. fill_random_nonzero rnd (\<lambda>_ _. True) n \<noteq> None)"

lemma pkcs1_pad_02_eq:
  assumes "pkcs1_02_accepts rnd block raw" and "\<And>n. alloc n"
  obtains ps where "block dvd length raw + 3 + length ps" and "0 \<notin> set ps"
    and "egg_padding_pkcs1_pad_02 rnd (\<lambda>_ _. True) alloc block raw True =
         Some (Ret (Some (length raw + 3 + length ps, Some ([0, 2] @ ps @ [0] @ raw))))"
proof -
  from assms(1) have acc: "3 < block" "length raw + 3 + block < 2 ^ 64"
    "(length raw + 3) mod block \<notin> {1, 2}" by (simp_all add: pkcs1_02_accepts_def pkcs1_accepts_def)
  note sz = pkcs1_size [OF acc(1,2)]
  define N where "N = wrap64 (length raw + 3 + (block - 1)) div block * block"
  from sz(1) obtain k where N: "N = length raw + 3 + k" unfolding N_def by (metis le_Suc_ex)
  from sz(3) acc(3) have le: "N - length raw \<le> block" unfolding N_def by simp
  from le N have "k < block" using acc(1) by simp
  with assms(1) obtain ps where ps: "fill_random_nonzero rnd (\<lambda>_ _. True) k = Some ps"
    by (auto simp: pkcs1_02_accepts_def)
  then have "fill_loop rnd (\<lambda>_ _. True) 1 (rnd 0 k) = Some ps"
    by (simp add: fill_random_nonzero_def Option.bind_eq_Some_conv)
  with fill_loop_result [of rnd "\<lambda>_ _. True" 1 "rnd 0 k" ps] assms(1)
  have len: "length ps = k" and nz: "0 \<notin> set ps"
    by (simp_all add: pkcs1_02_accepts_def)
  have "egg_padding_pkcs1_pad_02 rnd (\<lambda>_ _. True) alloc block raw True =
      Some (Ret (Some (length raw + 3 + length ps, Some ([0, 2] @ ps @ [0] @ raw))))"
    using acc(1) N le ps len assms(2)
    unfolding egg_padding_pkcs1_pad_02_def Let_def N_def [symmetric] by simp
  moreover from sz(2) have "block dvd length raw + 3 + length ps"
    unfolding len N [symmetric] N_def .
  ultimately show thesis using that nz by blast
qed

interpretation pkcs1_02: padding_scheme "pkcs1_02_accepts rnd"
  "\<lambda>block raw. case egg_padding_pkcs1_pad_02 rnd (\<lambda>_ _. True) (\<lambda>_. True) block raw True of
                 None \<Rightarrow> Undef | Some r \<Rightarrow> r"
  "\<lambda>block padded. egg_padding_pkcs1_unpad_02 (\<lambda>_. True) block padded True"
  for rnd
proof (unfold_locales, goal_cases)
  case (1 block raw)
  then show ?case
    by (rule pkcs1_pad_02_eq [of _ _ _ "\<lambda>_. True"]) (auto simp: pkcs1_length)
next
  case (2 block raw n p)
  from 2(1) obtain ps where ps: "block dvd length raw + 3 + length ps" "0 \<notin> set ps"
    "egg_padding_pkcs1_pad_02 rnd (\<lambda>_ _. True) (\<lambda>_. True) block raw True =
       Some (Ret (Some (length raw + 3 + length ps, Some ([0, 2] @ ps @ [0] @ raw))))"
    by (rule pkcs1_pad_02_eq [of _ _ _ "\<lambda>_. True"]) simp
  with 2(2) have "p = [0, 2] @ ps @ [0] @ raw" by simp
  then show ?case unfolding egg_padding_pkcs1_unpad_02_def
    using pkcs1_unpad_eq [OF ps(1,2), of "\<lambda>_. True" 2] by simp
qed

section \<open>Properties\<close>

text \<open>
  C32. PKCS#7: for block sizes up to 255 padding always returns, yields a multiple of the block
  size, and unpadding gives the input back (with its convenience NUL).
\<close>

theorem egg_padding_pkcs7_roundtrip:
  assumes "pkcs7_accepts block raw"
  shows "\<exists>p. egg_padding_pkcs7_pad (\<lambda>_. True) block raw True = Ret (Some (length p, Some p))
      \<and> block dvd length p
      \<and> egg_padding_pkcs7_unpad (\<lambda>_. True) block p True = Ret (Some (length raw, Some (raw @ [0])))"
  using assms by (rule pkcs7.pad_unpad)

theorem egg_padding_pkcs7_roundtrip_witness:
  "\<exists>p. egg_padding_pkcs7_pad (\<lambda>_. True) 8 [1, 2, 3] True = Ret (Some (length p, Some p))
      \<and> 8 dvd length p
      \<and> egg_padding_pkcs7_unpad (\<lambda>_. True) 8 p True = Ret (Some (length [1, 2, 3 :: byte], Some ([1, 2, 3] @ [0])))"
  by (rule egg_padding_pkcs7_roundtrip) (simp add: pkcs7_accepts_def)

text \<open>
  What PKCS#7 unpadding accepts: it succeeds only on an input that ends in \<open>k\<close> octets of
  value \<open>k\<close>, with \<open>k\<close> at least one and no more than the block size, and returns exactly the
  octets before them.
\<close>

theorem egg_padding_pkcs7_unpad_sound:
  assumes "egg_padding_pkcs7_unpad alloc block padded True = Ret (Some (n, Some out))"
  shows "\<exists>raw k. padded = raw @ replicate k (of_nat k) \<and> 0 < k \<and> k < 256 \<and> (block \<noteq> 0 \<longrightarrow> k \<le> block)
      \<and> n = length raw \<and> out = raw @ [0]"
proof -
  define k where "k = unat (padded ! (length padded - 1))"
  define same where "same = (\<forall>i \<in> set [length padded - k ..< length padded]. unat (padded ! i) = k)"
  have ok: "0 < k" "k \<le> length padded" "block \<noteq> 0 \<longrightarrow> k \<le> block" "n = length padded - k"
    "out = take (length padded - k) padded @ [0]"
    and same
    using assms unfolding egg_padding_pkcs7_unpad_def Let_def k_def [symmetric] same_def [symmetric]
    by (auto split: if_splits)
  have "drop (length padded - k) padded = replicate k (of_nat k)"
  proof (rule nth_equalityI)
    show "length (drop (length padded - k) padded) = length (replicate k (of_nat k :: byte))"
      using ok(2) by simp
    fix i assume "i < length (drop (length padded - k) padded)"
    then have i: "i < k" using ok(2) by simp
    with ok(2) \<open>same\<close> have "unat (padded ! (length padded - k + i)) = k"
      unfolding same_def by (metis add_less_cancel_left atLeastLessThan_iff le_add1
          le_add_diff_inverse2 set_upt)
    then have "padded ! (length padded - k + i) = of_nat k" by (metis of_nat_unat ucast_id)
    with i ok(2) show "drop (length padded - k) padded ! i = replicate k (of_nat k) ! i" by simp
  qed
  then have "padded = take n padded @ replicate k (of_nat k)"
    using ok(4) by (metis append_take_drop_id)
  moreover have "k < 256" by (simp add: k_def)
  ultimately show ?thesis using ok by (intro exI [of _ "take n padded"] exI [of _ k]) simp
qed

theorem egg_padding_pkcs7_unpad_sound_witness:
  "\<exists>raw k. [9, 8, 2, 2 :: byte] = raw @ replicate k (of_nat k) \<and> 0 < k \<and> k < 256
      \<and> ((4::nat) \<noteq> 0 \<longrightarrow> k \<le> 4) \<and> (2::nat) = length raw \<and> [9, 8, 0] = raw @ [0]"
  by (rule egg_padding_pkcs7_unpad_sound [where alloc = "\<lambda>_. True"])
    (simp add: egg_padding_pkcs7_unpad_def Let_def upt_rec)


text \<open>
  PKCS#1 padding aborts the process for some inputs: where the input length plus three leaves
  one or two octets in a last block, the padding would have to be longer than a block, and the
  assertion \<^verbatim>\<open>n_pad <= block\<close> fails.  For all other inputs it does not abort.
\<close>

theorem egg_padding_pkcs1_pad_01_aborts_iff:
  assumes "3 < block" and "length raw + 3 + block < 2 ^ 64"
  shows "egg_padding_pkcs1_pad_01 alloc block raw want = Abort
           \<longleftrightarrow> (length raw + 3) mod block = 1 \<or> (length raw + 3) mod block = 2"
proof -
  note sz = pkcs1_size [OF assms]
  define N where "N = wrap64 (length raw + 3 + (block - 1)) div block * block"
  have "length raw \<le> N" "N - length raw \<ge> 3" using sz(1) unfolding N_def by simp_all
  moreover have "N - length raw \<le> block \<longleftrightarrow> \<not> ((length raw + 3) mod block = 1 \<or> (length raw + 3) mod block = 2)"
    using sz(3) unfolding N_def by simp
  ultimately show ?thesis using assms(1)
    unfolding egg_padding_pkcs1_pad_01_def Let_def N_def [symmetric] by (simp add: g_assert_def)
qed

theorem egg_padding_pkcs1_pad_01_aborts_iff_witness:
  "egg_padding_pkcs1_pad_01 (\<lambda>_. True) 128 (replicate 126 0) True = Abort"
  using egg_padding_pkcs1_pad_01_aborts_iff [of 128 "replicate 126 0" "\<lambda>_. True" True] by simp

text \<open>
  PKCS#1 unpadding reads outside of its input exactly for an empty input, whatever the block
  size, and for the single octet zero when the block size allows it; on any input of two or more
  octets it stays inside.
\<close>

theorem unpad_pkcs1_reads_outside_iff:
  "unpad_pkcs1 bt alloc block padded want = Undef
     \<longleftrightarrow> padded = [] \<or> (padded = [0] \<and> (block = 0 \<or> block = 1))"
proof -
  have one: "length padded = 1 \<longleftrightarrow> (\<exists>b. padded = [b])" by (auto simp: length_Suc_conv)
  show ?thesis
  proof (cases "length padded < 2")
    case True
    then consider "padded = []" | b where "padded = [b]"
      using one by (cases padded) auto
    then show ?thesis by cases (auto simp: unpad_pkcs1_def Let_def)
  next
    case False
    then have "padded \<noteq> []" and "padded \<noteq> [0]" by auto
    with False show ?thesis
      by (auto simp: unpad_pkcs1_def Let_def split: option.splits if_splits)
  qed
qed

text \<open>
  Zero padding succeeds for every block size and every input that does not overflow the size
  type: it prepends fewer zeros than a block, up to a multiple of the block size.
\<close>

theorem egg_padding_zero_pad_correct:
  assumes "0 < block" and "length raw + block < 2 ^ 64" and "\<And>n. alloc n"
  shows "\<exists>k < block. egg_padding_zero_pad alloc block raw True =
           Ret (Some (k + length raw, Some (replicate k 0 @ raw))) \<and> block dvd k + length raw"
proof -
  let ?N = "(length raw + (block - 1)) div block * block"
  have w: "wrap64 (length raw + (block - 1)) = length raw + (block - 1)"
    using assms(1,2) by (intro wrap64_id) simp
  note up = round_up [OF assms(1), of "length raw"]
  from up(1) obtain k where k: "?N = length raw + k" by (metis le_Suc_ex)
  with up(2) have "k < block" by simp
  moreover have "egg_padding_zero_pad alloc block raw True =
      Ret (Some (k + length raw, Some (replicate k 0 @ raw)))"
    using \<open>k < block\<close> assms unfolding egg_padding_zero_pad_def Let_def w k by simp
  moreover have "block dvd ?N" by simp
  then have "block dvd k + length raw" by (simp only: k add.commute)
  ultimately show ?thesis by blast
qed

theorem egg_padding_zero_pad_correct_witness:
  "\<exists>k < 8. egg_padding_zero_pad (\<lambda>_. True) 8 [1, 2, 3] True =
           Ret (Some (k + length [1, 2, 3 :: byte], Some (replicate k 0 @ [1, 2, 3])))
     \<and> 8 dvd k + length [1, 2, 3 :: byte]"
  by (rule egg_padding_zero_pad_correct) simp_all

end
