(* ===== verification/Egg_Buffer.thy ===== *)
theory Egg_Buffer
  imports Egg_Prelude "HOL-Library.Sublist"
begin

text \<open>
  The growable octet buffer of \<^verbatim>\<open>egg/egg-buffer.c\<close>, with the encoding of integers, octet
  arrays and strings the ssh agent and the OpenSSH parsers use.

  A buffer is a record with the fields of \<^verbatim>\<open>EggBuffer\<close>.  Its memory is the list of all allocated
  octets (\<open>None\<close> for \<^verbatim>\<open>NULL\<close>).  An allocator is a function pointer of the C code: a number
  here, \<open>DEFAULT_ALLOCATOR\<close> being \<^verbatim>\<open>realloc\<close>; what the numbers stand for is the parameter
  \<open>al\<close>, where \<open>al a p n\<close> is the memory allocator \<open>a\<close> returns for a call with \<open>p\<close> and
  \<open>n\<close> (\<open>None\<close> for \<^verbatim>\<open>NULL\<close>).  The locale \<open>realloc_like\<close> states what a buffer relies
  on; it holds for \<^verbatim>\<open>realloc\<close>.

  Every access to the memory is checked: outside of it the result is \<open>Undef\<close>.
\<close>

section \<open>Definitions\<close>

type_synonym memory = "byte list option"
type_synonym alloc_env = "nat \<Rightarrow> memory \<Rightarrow> nat \<Rightarrow> memory"

record EggBuffer =
  buf :: memory
  len :: nat
  allocated_len :: nat
  failures :: nat
  allocator :: "nat option"

definition DEFAULT_ALLOCATOR :: nat where
  "DEFAULT_ALLOCATOR = 0"

definition EGG_BUFFER_EMPTY :: EggBuffer where
  "EGG_BUFFER_EMPTY = \<lparr>buf = None, len = 0, allocated_len = 0, failures = 0, allocator = None\<rparr>"

definition fail :: "EggBuffer \<Rightarrow> EggBuffer" where
  "fail b = b\<lparr>failures := Suc (failures b)\<rparr>"

text \<open>\<^verbatim>\<open>memcpy\<close> into the memory of the buffer, and reading from it.\<close>

definition buf_write :: "EggBuffer \<Rightarrow> nat \<Rightarrow> byte list \<Rightarrow> EggBuffer outcome" where
  "buf_write b off bs =
     (let m = (case buf b of None \<Rightarrow> [] | Some m \<Rightarrow> m) in
      if bs = [] then Ret b
      else if off + length bs \<le> length m
      then Ret (b\<lparr>buf := Some (take off m @ bs @ drop (off + length bs) m)\<rparr>)
      else Undef)"

definition buf_read :: "EggBuffer \<Rightarrow> nat \<Rightarrow> nat \<Rightarrow> byte list outcome" where
  "buf_read b off n =
     (let m = (case buf b of None \<Rightarrow> [] | Some m \<Rightarrow> m) in
      if n = 0 then Ret []
      else if off + n \<le> length m then Ret (take n (drop off m)) else Undef)"

definition egg_buffer_init_full ::
  "alloc_env \<Rightarrow> nat \<Rightarrow> nat option \<Rightarrow> bool \<times> EggBuffer" where
  "egg_buffer_init_full al reserve alloc =
     (let a = (case alloc of None \<Rightarrow> DEFAULT_ALLOCATOR | Some a \<Rightarrow> a);
          reserve' = (if reserve = 0 then 64 else reserve)
      in case al a None reserve' of
           None \<Rightarrow> (False, fail EGG_BUFFER_EMPTY)
         | Some m \<Rightarrow> (True, \<lparr>buf = Some m, len = 0, allocated_len = reserve', failures = 0,
                            allocator = Some a\<rparr>))"

definition egg_buffer_init :: "alloc_env \<Rightarrow> nat \<Rightarrow> bool \<times> EggBuffer" where
  "egg_buffer_init al reserve = egg_buffer_init_full al reserve None"

definition egg_buffer_init_static :: "memory \<Rightarrow> nat \<Rightarrow> EggBuffer" where
  "egg_buffer_init_static m n =
     \<lparr>buf = m, len = n, allocated_len = n, failures = 0, allocator = None\<rparr>"

definition egg_buffer_init_allocated :: "memory \<Rightarrow> nat \<Rightarrow> nat option \<Rightarrow> EggBuffer" where
  "egg_buffer_init_allocated m n alloc =
     \<lparr>buf = m, len = n, allocated_len = n, failures = 0,
      allocator = Some (case alloc of None \<Rightarrow> DEFAULT_ALLOCATOR | Some a \<Rightarrow> a)\<rparr>"

definition egg_buffer_reset :: "EggBuffer \<Rightarrow> EggBuffer outcome" where
  "egg_buffer_reset b =
     obind (buf_write b 0 (replicate (allocated_len b) 0)) (\<lambda>b.
     Ret (b\<lparr>len := 0, failures := 0\<rparr>))"

text \<open>
  Releasing: the first component is the memory given back to the allocator (with the allocator).
\<close>

definition egg_buffer_uninit :: "EggBuffer \<Rightarrow> (nat \<times> memory) option \<times> EggBuffer" where
  "egg_buffer_uninit b =
     ((case (buf b, allocator b) of (Some m, Some a) \<Rightarrow> Some (a, Some m) | _ \<Rightarrow> None),
      EGG_BUFFER_EMPTY)"

definition egg_buffer_uninit_steal :: "EggBuffer \<Rightarrow> memory \<times> nat \<times> EggBuffer" where
  "egg_buffer_uninit_steal b = (buf b, len b, EGG_BUFFER_EMPTY)"

definition egg_buffer_set_allocator ::
  "alloc_env \<Rightarrow> EggBuffer \<Rightarrow> nat option \<Rightarrow> (bool \<times> EggBuffer) outcome" where
  "egg_buffer_set_allocator al b alloc =
     (let a = (case alloc of None \<Rightarrow> DEFAULT_ALLOCATOR | Some a \<Rightarrow> a) in
      if allocator b = Some a then Ret (True, b)
      else if allocated_len b \<noteq> 0 then
        (case al a None (allocated_len b) of
           None \<Rightarrow> Ret (False, b)
         | Some m \<Rightarrow>
             obind (buf_read b 0 (allocated_len b)) (\<lambda>old.
             obind (buf_write (b\<lparr>buf := Some m\<rparr>) 0 old) (\<lambda>b'.
             Ret (True, b'\<lparr>allocator := Some a\<rparr>))))
      else Ret (True, b\<lparr>buf := None, allocator := Some a\<rparr>))"

definition egg_buffer_equal :: "EggBuffer \<Rightarrow> EggBuffer \<Rightarrow> bool outcome" where
  "egg_buffer_equal b1 b2 =
     (if len b1 \<noteq> len b2 then Ret False
      else obind (buf_read b1 0 (len b1)) (\<lambda>x1.
           obind (buf_read b2 0 (len b1)) (\<lambda>x2. Ret (x1 = x2))))"

definition egg_buffer_reserve :: "alloc_env \<Rightarrow> EggBuffer \<Rightarrow> nat \<Rightarrow> bool \<times> EggBuffer" where
  "egg_buffer_reserve al b n =
     (if n < allocated_len b then (True, b)
      else
        (let newlen = wrap64 (allocated_len b * 2);
             newlen' = (if n > newlen then wrap64 (newlen + n) else newlen)
         in case allocator b of
              None \<Rightarrow> (False, fail b)
            | Some a \<Rightarrow>
                (case al a (buf b) newlen' of
                   None \<Rightarrow> (False, fail b)
                 | Some m \<Rightarrow> (True, b\<lparr>buf := Some m, allocated_len := newlen'\<rparr>))))"

definition egg_buffer_resize :: "alloc_env \<Rightarrow> EggBuffer \<Rightarrow> nat \<Rightarrow> bool \<times> EggBuffer" where
  "egg_buffer_resize al b n =
     (case egg_buffer_reserve al b n of
        (False, b') \<Rightarrow> (False, b') | (True, b') \<Rightarrow> (True, b'\<lparr>len := n\<rparr>))"

text \<open>The returned pointer is the offset in the memory.\<close>

definition egg_buffer_add_empty ::
  "alloc_env \<Rightarrow> EggBuffer \<Rightarrow> nat \<Rightarrow> nat option \<times> EggBuffer" where
  "egg_buffer_add_empty al b n =
     (case egg_buffer_reserve al b (wrap64 (len b + n)) of
        (False, b') \<Rightarrow> (None, b')
      | (True, b') \<Rightarrow> (Some (len b), b'\<lparr>len := wrap64 (len b' + n)\<rparr>))"

definition egg_buffer_append ::
  "alloc_env \<Rightarrow> EggBuffer \<Rightarrow> byte list \<Rightarrow> (bool \<times> EggBuffer) outcome" where
  "egg_buffer_append al b val =
     (case egg_buffer_reserve al b (wrap64 (len b + length val)) of
        (False, b') \<Rightarrow> Ret (False, b')
      | (True, b') \<Rightarrow>
          obind (buf_write b' (len b') val) (\<lambda>b'.
          Ret (True, b'\<lparr>len := wrap64 (len b' + length val)\<rparr>)))"

definition egg_buffer_add_byte ::
  "alloc_env \<Rightarrow> EggBuffer \<Rightarrow> byte \<Rightarrow> (bool \<times> EggBuffer) outcome" where
  "egg_buffer_add_byte al b val =
     (case egg_buffer_reserve al b (wrap64 (len b + 1)) of
        (False, b') \<Rightarrow> Ret (False, b')
      | (True, b') \<Rightarrow>
          obind (buf_write b' (len b') [val]) (\<lambda>b'.
          Ret (True, b'\<lparr>len := wrap64 (len b' + 1)\<rparr>)))"

text \<open>
  The getters: \<open>Some (next_offset, val)\<close> for a return value of 1, \<open>None\<close> for 0.
\<close>

type_synonym 'a get_result = "((nat \<times> 'a) option \<times> EggBuffer) outcome"

definition egg_buffer_get_byte :: "EggBuffer \<Rightarrow> nat \<Rightarrow> byte get_result" where
  "egg_buffer_get_byte b off =
     (if len b < 1 \<or> off > len b - 1 then Ret (None, fail b)
      else obind (buf_read b off 1) (\<lambda>bs. Ret (Some (off + 1, bs ! 0), b)))"

definition egg_buffer_encode_uint16 :: "16 word \<Rightarrow> byte list" where
  "egg_buffer_encode_uint16 val = [ucast (drop_bit 8 val AND 0xff), ucast (val AND 0xff)]"

definition egg_buffer_decode_uint16 :: "byte list \<Rightarrow> 16 word" where
  "egg_buffer_decode_uint16 bs =
     ucast (push_bit 8 (ucast (bs ! 0) :: 32 word) OR ucast (bs ! 1))"

definition egg_buffer_set_uint16 ::
  "EggBuffer \<Rightarrow> nat \<Rightarrow> 16 word \<Rightarrow> (bool \<times> EggBuffer) outcome" where
  "egg_buffer_set_uint16 b off val =
     (if len b < 2 \<or> off > len b - 2 then Ret (False, fail b)
      else obind (buf_write b off (egg_buffer_encode_uint16 val)) (\<lambda>b'. Ret (True, b')))"

definition egg_buffer_add_uint16 ::
  "alloc_env \<Rightarrow> EggBuffer \<Rightarrow> 16 word \<Rightarrow> (bool \<times> EggBuffer) outcome" where
  "egg_buffer_add_uint16 al b val =
     (case egg_buffer_reserve al b (wrap64 (len b + 2)) of
        (False, b') \<Rightarrow> Ret (False, b')
      | (True, b') \<Rightarrow>
          (let b'' = b'\<lparr>len := wrap64 (len b' + 2)\<rparr> in
           obind (egg_buffer_set_uint16 b'' (len b'' - 2) val) (\<lambda>(_, b3). Ret (True, b3))))"

definition egg_buffer_get_uint16 :: "EggBuffer \<Rightarrow> nat \<Rightarrow> 16 word get_result" where
  "egg_buffer_get_uint16 b off =
     (if len b < 2 \<or> off > len b - 2 then Ret (None, fail b)
      else obind (buf_read b off 2) (\<lambda>bs. Ret (Some (off + 2, egg_buffer_decode_uint16 bs), b)))"

definition egg_buffer_encode_uint32 :: "32 word \<Rightarrow> byte list" where
  "egg_buffer_encode_uint32 val =
     [ucast (drop_bit 24 val AND 0xff), ucast (drop_bit 16 val AND 0xff),
      ucast (drop_bit 8 val AND 0xff), ucast (val AND 0xff)]"

definition egg_buffer_decode_uint32 :: "byte list \<Rightarrow> 32 word" where
  "egg_buffer_decode_uint32 bs =
     push_bit 24 (ucast (bs ! 0)) OR push_bit 16 (ucast (bs ! 1))
     OR push_bit 8 (ucast (bs ! 2)) OR ucast (bs ! 3)"

definition egg_buffer_set_uint32 ::
  "EggBuffer \<Rightarrow> nat \<Rightarrow> 32 word \<Rightarrow> (bool \<times> EggBuffer) outcome" where
  "egg_buffer_set_uint32 b off val =
     (if len b < 4 \<or> off > len b - 4 then Ret (False, fail b)
      else obind (buf_write b off (egg_buffer_encode_uint32 val)) (\<lambda>b'. Ret (True, b')))"

definition egg_buffer_add_uint32 ::
  "alloc_env \<Rightarrow> EggBuffer \<Rightarrow> 32 word \<Rightarrow> (bool \<times> EggBuffer) outcome" where
  "egg_buffer_add_uint32 al b val =
     (case egg_buffer_reserve al b (wrap64 (len b + 4)) of
        (False, b') \<Rightarrow> Ret (False, b')
      | (True, b') \<Rightarrow>
          (let b'' = b'\<lparr>len := wrap64 (len b' + 4)\<rparr> in
           obind (egg_buffer_set_uint32 b'' (len b'' - 4) val) (\<lambda>(_, b3). Ret (True, b3))))"

definition egg_buffer_get_uint32 :: "EggBuffer \<Rightarrow> nat \<Rightarrow> 32 word get_result" where
  "egg_buffer_get_uint32 b off =
     (if len b < 4 \<or> off > len b - 4 then Ret (None, fail b)
      else obind (buf_read b off 4) (\<lambda>bs. Ret (Some (off + 4, egg_buffer_decode_uint32 bs), b)))"

definition egg_buffer_add_uint64 ::
  "alloc_env \<Rightarrow> EggBuffer \<Rightarrow> 64 word \<Rightarrow> (bool \<times> EggBuffer) outcome" where
  "egg_buffer_add_uint64 al b val =
     obind (egg_buffer_add_uint32 al b (ucast (drop_bit 32 val AND 0xffffffff))) (\<lambda>(ok, b').
     if \<not> ok then Ret (False, b')
     else egg_buffer_add_uint32 al b' (ucast (val AND 0xffffffff)))"

definition egg_buffer_get_uint64 :: "EggBuffer \<Rightarrow> nat \<Rightarrow> 64 word get_result" where
  "egg_buffer_get_uint64 b off =
     obind (egg_buffer_get_uint32 b off) (\<lambda>(r, b).
     case r of None \<Rightarrow> Ret (None, b)
     | Some (off, a) \<Rightarrow>
         obind (egg_buffer_get_uint32 b off) (\<lambda>(r, b).
         case r of None \<Rightarrow> Ret (None, b)
         | Some (off, c) \<Rightarrow> Ret (Some (off, push_bit 32 (ucast a) OR ucast c), b)))"

text \<open>An octet array may be \<^verbatim>\<open>NULL\<close> (\<open>None\<close>), which is stored as the length 0xffffffff.\<close>

definition egg_buffer_add_byte_array ::
  "alloc_env \<Rightarrow> EggBuffer \<Rightarrow> byte list option \<Rightarrow> (bool \<times> EggBuffer) outcome" where
  "egg_buffer_add_byte_array al b val =
     (case val of
        None \<Rightarrow> egg_buffer_add_uint32 al b 0xffffffff
      | Some v \<Rightarrow>
          if length v \<ge> 0x7fffffff then Ret (False, fail b)
          else obind (egg_buffer_add_uint32 al b (of_nat (length v))) (\<lambda>(ok, b').
               if \<not> ok then Ret (False, b') else egg_buffer_append al b' v))"

definition egg_buffer_add_byte_array_empty ::
  "alloc_env \<Rightarrow> EggBuffer \<Rightarrow> nat \<Rightarrow> (nat option \<times> EggBuffer) outcome" where
  "egg_buffer_add_byte_array_empty al b vlen =
     (if vlen \<ge> 0x7fffffff then Ret (None, fail b)
      else obind (egg_buffer_add_uint32 al b (of_nat vlen)) (\<lambda>(ok, b').
           if \<not> ok then Ret (None, b') else Ret (egg_buffer_add_empty al b' vlen)))"

definition egg_buffer_get_byte_array :: "EggBuffer \<Rightarrow> nat \<Rightarrow> byte list option get_result" where
  "egg_buffer_get_byte_array b off =
     obind (egg_buffer_get_uint32 b off) (\<lambda>(r, b).
     case r of None \<Rightarrow> Ret (None, b)
     | Some (off, n) \<Rightarrow>
         if n = 0xffffffff then Ret (Some (off, None), b)
         else if n \<ge> 0x7fffffff then Ret (None, fail b)
         else if len b < unat n \<or> off > len b - unat n then Ret (None, fail b)
         else obind (buf_read b off (unat n)) (\<lambda>v. Ret (Some (off + unat n, Some v), b)))"

definition egg_buffer_add_string ::
  "alloc_env \<Rightarrow> EggBuffer \<Rightarrow> byte list option \<Rightarrow> (bool \<times> EggBuffer) outcome" where
  "egg_buffer_add_string al b str =
     (case str of
        None \<Rightarrow> egg_buffer_add_uint32 al b 0xffffffff
      | Some s \<Rightarrow>
          if length s \<ge> 0x7fffffff then Ret (False, b)
          else obind (egg_buffer_add_uint32 al b (of_nat (length s))) (\<lambda>(ok, b').
               if \<not> ok then Ret (False, b') else egg_buffer_append al b' s))"

text \<open>
  Reading a string copies it to memory of the allocator, zero terminated.  The second component
  says whether the pointer \<^verbatim>\<open>*str_ret\<close> was written, which a failing call may have done.
\<close>

definition egg_buffer_get_string ::
  "alloc_env \<Rightarrow> EggBuffer \<Rightarrow> nat \<Rightarrow> nat option
    \<Rightarrow> ((nat \<times> byte list option) option \<times> bool \<times> EggBuffer) outcome" where
  "egg_buffer_get_string al b off alloc =
     (let a = (case alloc of Some a \<Rightarrow> a
               | None \<Rightarrow> (case allocator b of Some a \<Rightarrow> a | None \<Rightarrow> DEFAULT_ALLOCATOR)) in
      obind (egg_buffer_get_uint32 b off) (\<lambda>(r, b).
      case r of None \<Rightarrow> Ret (None, False, b)
      | Some (off, n) \<Rightarrow>
          if n = 0xffffffff then Ret (Some (off, None), True, b)
          else if n \<ge> 0x7fffffff then Ret (None, False, b)
          else if len b < unat n \<or> off > len b - unat n then Ret (None, False, b)
          else obind (buf_read b off (unat n)) (\<lambda>v.
               if memchr v 0 \<noteq> None then Ret (None, False, b)
               else (case al a None (unat n + 1) of
                       None \<Rightarrow> Ret (None, True, b)
                     | Some m \<Rightarrow> Ret (Some (off + unat n, Some v), True, b)))))"

fun add_strings ::
  "alloc_env \<Rightarrow> EggBuffer \<Rightarrow> byte list list \<Rightarrow> (bool \<times> EggBuffer) outcome" where
  "add_strings al b [] = Ret (True, b)"
| "add_strings al b (s # strv) =
     obind (egg_buffer_add_string al b (Some s)) (\<lambda>(ok, b').
     if \<not> ok then Ret (False, b') else add_strings al b' strv)"

definition egg_buffer_add_stringv ::
  "alloc_env \<Rightarrow> EggBuffer \<Rightarrow> byte list list option \<Rightarrow> (bool \<times> EggBuffer) outcome" where
  "egg_buffer_add_stringv al b strv =
     (case strv of
        None \<Rightarrow> Ret (False, b)
      | Some v \<Rightarrow>
          obind (egg_buffer_add_uint32 al b (of_nat (length v))) (\<lambda>(ok, b').
          if \<not> ok then Ret (False, b') else add_strings al b' v))"

text \<open>
  The loop over the strings: \<open>n\<close> more of them; the array has \<open>slots\<close> elements, of which
  \<open>got\<close> holds those filled in, so the next one is written at index \<open>length got\<close>.
\<close>

fun get_strings ::
  "alloc_env \<Rightarrow> EggBuffer \<Rightarrow> nat \<Rightarrow> nat option \<Rightarrow> nat \<Rightarrow> nat \<Rightarrow> byte list option list
    \<Rightarrow> byte list option list get_result" where
  "get_strings al b off alloc slots 0 got = Ret (Some (off, got), b)"
| "get_strings al b off alloc slots (Suc n) got =
     obind (egg_buffer_get_string al b off alloc) (\<lambda>(r, wrote, b).
     if wrote \<and> \<not> length got < slots then Undef
     else (case r of None \<Rightarrow> Ret (None, b)
           | Some (off, s) \<Rightarrow> get_strings al b off alloc slots n (got @ [s])))"

text \<open>
  \<^verbatim>\<open>(n + 1) * sizeof (char *)\<close>: the sum is computed in 32 bits, and the array has that many
  elements.
\<close>

definition egg_buffer_get_stringv ::
  "alloc_env \<Rightarrow> EggBuffer \<Rightarrow> nat \<Rightarrow> nat option \<Rightarrow> byte list option list get_result" where
  "egg_buffer_get_stringv al b off alloc =
     (let a = (case alloc of Some a \<Rightarrow> a
               | None \<Rightarrow> (case allocator b of Some a \<Rightarrow> a | None \<Rightarrow> DEFAULT_ALLOCATOR)) in
      obind (egg_buffer_get_uint32 b off) (\<lambda>(r, b).
      case r of None \<Rightarrow> Ret (None, b)
      | Some (off, n) \<Rightarrow>
          (let slots = unat (n + 1); bytes = slots * 8 in
           case al a None bytes of
             None \<Rightarrow> Ret (None, b)
           | Some m \<Rightarrow> get_strings al b off (Some a) slots (unat n) [])))"


section \<open>Well-formed buffers and their contents\<close>

definition mem :: "EggBuffer \<Rightarrow> byte list" where
  "mem b = (case buf b of None \<Rightarrow> [] | Some m \<Rightarrow> m)"

text \<open>
  The memory has the recorded size, and holds the contents.  No allocation is larger than a
  quarter of the address space (see \<open>realloc_like\<close>).
\<close>

definition buf_ok :: "EggBuffer \<Rightarrow> bool" where
  "buf_ok b \<longleftrightarrow> length (mem b) = allocated_len b \<and> len b \<le> allocated_len b \<and> allocated_len b < 2 ^ 62"

text \<open>The abstract value of a buffer: the octets written to it.\<close>

definition contents :: "EggBuffer \<Rightarrow> byte list" where
  "contents b = take (len b) (mem b)"

lemma length_contents [simp]: "buf_ok b \<Longrightarrow> length (contents b) = len b"
  by (simp add: buf_ok_def contents_def)

lemma buf_ok_small: "buf_ok b \<Longrightarrow> len b < 2 ^ 62"
  by (simp add: buf_ok_def)

lemma fail_simps [simp]:
  "buf_ok (fail b) = buf_ok b" "contents (fail b) = contents b" "len (fail b) = len b"
  by (simp_all add: fail_def buf_ok_def contents_def mem_def)

text \<open>
  What an operation that appends \<open>bs\<close> promises: it never leaves the memory, keeps what was in
  the buffer, also when it fails, and has appended exactly \<open>bs\<close> when it reports success.
\<close>

definition appends :: "EggBuffer \<Rightarrow> byte list \<Rightarrow> (bool \<times> EggBuffer) outcome \<Rightarrow> bool" where
  "appends b bs r \<longleftrightarrow> (\<exists>ok b'. r = Ret (ok, b') \<and> buf_ok b' \<and> prefix (contents b) (contents b')
     \<and> (ok \<longrightarrow> contents b' = contents b @ bs))"

lemma appendsE:
  assumes "appends b bs r"
  obtains ok b' where "r = Ret (ok, b')" and "buf_ok b'" and "prefix (contents b) (contents b')"
    and "ok \<longrightarrow> contents b' = contents b @ bs"
  using assms by (auto simp: appends_def)

lemma appends_fail: "buf_ok b \<Longrightarrow> appends b bs (Ret (False, fail b))"
  by (auto simp: appends_def)

lemma appends_ok: "buf_ok b' \<Longrightarrow> contents b' = contents b @ bs \<Longrightarrow> appends b bs (Ret (True, b'))"
  by (auto simp: appends_def)

lemma appends_seq:
  assumes "appends b xs r" and "\<And>b'. buf_ok b' \<Longrightarrow> contents b' = contents b @ xs \<Longrightarrow> appends b' ys (f b')"
  shows "appends b (xs @ ys) (obind r (\<lambda>(ok, b'). if \<not> ok then Ret (False, b') else f b'))"
proof -
  from assms(1) obtain ok b' where r: "r = Ret (ok, b')" "buf_ok b'" "prefix (contents b) (contents b')"
    "ok \<longrightarrow> contents b' = contents b @ xs" by (rule appendsE)
  show ?thesis
  proof (cases ok)
    case False
    with r show ?thesis by (auto simp: appends_def)
  next
    case True
    with r have "appends b' ys (f b')" by (intro assms(2)) simp_all
    then obtain ok2 b2 where "f b' = Ret (ok2, b2)" "buf_ok b2"
      "prefix (contents b') (contents b2)" "ok2 \<longrightarrow> contents b2 = contents b' @ ys"
      by (rule appendsE)
    with r True show ?thesis by (auto simp: appends_def dest: append_prefixD)
  qed
qed

text \<open>Reading and writing inside of the contents.\<close>

lemma buf_read_contents:
  assumes "buf_ok b" and "off + n \<le> len b"
  shows "buf_read b off n = Ret (take n (drop off (contents b)))"
proof -
  have "off + n \<le> length (mem b)" using assms by (simp add: buf_ok_def)
  moreover have "take n (drop off (take (len b) (mem b))) = take n (drop off (mem b))"
    using assms(2) by (simp add: drop_take)
  ultimately show ?thesis
    by (simp add: buf_read_def contents_def mem_def [symmetric] Let_def)
qed

lemma buf_write_end:
  assumes "length (mem b) = allocated_len b" and "k + length bs \<le> allocated_len b"
    and "allocated_len b < 2 ^ 62" and "len b = k + length bs"
  obtains b' where "buf_write b k bs = Ret b'" and "buf_ok b'" and "len b' = len b"
    and "contents b' = take k (mem b) @ bs"
proof (cases "bs = []")
  case True
  show thesis
    by (rule that [of b]) (use True assms in \<open>simp_all add: buf_write_def buf_ok_def contents_def\<close>)
next
  case False
  let ?b' = "b\<lparr>buf := Some (take k (mem b) @ bs @ drop (k + length bs) (mem b))\<rparr>"
  show thesis
    by (rule that [of ?b'])
      (use False assms in \<open>simp_all add: buf_write_def buf_ok_def contents_def mem_def [symmetric] Let_def\<close>,
       simp_all add: mem_def)
qed

section \<open>Integers as octets\<close>

lemma low_octet: "x AND 255 = take_bit 8 (x :: 'a :: len word)"
proof -
  have "(255 :: 'a word) = mask 8" by (simp add: mask_eq_exp_minus_1)
  then show ?thesis by (simp only: take_bit_eq_mask)
qed

lemma low_half: "x AND 4294967295 = take_bit 32 (x :: 'a :: len word)"
proof -
  have "(4294967295 :: 'a word) = mask 32" by (simp add: mask_eq_exp_minus_1)
  then show ?thesis by (simp only: take_bit_eq_mask)
qed

lemma decode_encode_uint16 [simp]:
  "egg_buffer_decode_uint16 (egg_buffer_encode_uint16 v) = v"
proof (rule bit_word_eqI)
  fix n assume "n < LENGTH(16)"
  then consider "n < 8" | "8 \<le> n" "n < 16" by fastforce
  then show "bit (egg_buffer_decode_uint16 (egg_buffer_encode_uint16 v)) n = bit v n"
    by cases (simp_all add: egg_buffer_decode_uint16_def egg_buffer_encode_uint16_def low_octet
        bit_simps less_diff_conv2)
qed

lemma decode_encode_uint32 [simp]:
  "egg_buffer_decode_uint32 (egg_buffer_encode_uint32 v) = v"
proof (rule bit_word_eqI)
  fix n assume n: "n < LENGTH(32)"
  have nth: "[a, b, c, d] ! 2 = c" "[a, b, c, d] ! 3 = d" for a b c d :: byte by simp_all
  from n consider "n < 8" | "8 \<le> n" "n < 16" | "16 \<le> n" "n < 24" | "24 \<le> n" "n < 32" by fastforce
  then show "bit (egg_buffer_decode_uint32 (egg_buffer_encode_uint32 v)) n = bit v n"
    by cases (simp_all add: egg_buffer_decode_uint32_def egg_buffer_encode_uint32_def low_octet
        nth bit_simps less_diff_conv2)
qed

lemma join_uint64:
  "push_bit 32 (ucast (ucast (drop_bit 32 v AND 0xffffffff) :: 32 word))
   OR ucast (ucast (v AND 0xffffffff) :: 32 word) = (v :: 64 word)"
proof (rule bit_word_eqI)
  fix n assume "n < LENGTH(64)"
  then consider "n < 32" | "32 \<le> n" "n < 64" by fastforce
  then show "bit (push_bit 32 (ucast (ucast (drop_bit 32 v AND 0xffffffff) :: 32 word))
   OR ucast (ucast (v AND 0xffffffff) :: 32 word) :: 64 word) n = bit v n"
    by cases (simp_all add: low_half bit_simps less_diff_conv2)
qed

lemma length_encode_uint [simp]:
  "length (egg_buffer_encode_uint16 v) = 2" "length (egg_buffer_encode_uint32 w) = 4"
  by (simp_all add: egg_buffer_encode_uint16_def egg_buffer_encode_uint32_def)

text \<open>The encodings of the composite values, as the wire format of the buffer defines them.\<close>

definition encode_uint64 :: "64 word \<Rightarrow> byte list" where
  "encode_uint64 v = egg_buffer_encode_uint32 (ucast (drop_bit 32 v AND 0xffffffff))
     @ egg_buffer_encode_uint32 (ucast (v AND 0xffffffff))"

definition encode_byte_array :: "byte list option \<Rightarrow> byte list" where
  "encode_byte_array v = (case v of None \<Rightarrow> egg_buffer_encode_uint32 0xffffffff
     | Some bs \<Rightarrow> egg_buffer_encode_uint32 (of_nat (length bs)) @ bs)"

definition encode_stringv :: "byte list list \<Rightarrow> byte list" where
  "encode_stringv v = egg_buffer_encode_uint32 (of_nat (length v))
     @ concat (map (\<lambda>s. encode_byte_array (Some s)) v)"

definition byte_array_valid :: "byte list option \<Rightarrow> bool" where
  "byte_array_valid v \<longleftrightarrow> (case v of None \<Rightarrow> True | Some bs \<Rightarrow> length bs < 0x7fffffff)"

lemma array_length_word:
  assumes "n < 0x7fffffff"
  shows "unat (of_nat n :: 32 word) = n" and "(of_nat n :: 32 word) \<noteq> 0xffffffff"
    and "\<not> (of_nat n :: 32 word) \<ge> 0x7fffffff"
proof -
  show u: "unat (of_nat n :: 32 word) = n" using assms by (simp add: unat_of_nat)
  show "\<not> (of_nat n :: 32 word) \<ge> 0x7fffffff" using assms by (simp add: word_le_nat_alt u)
  show "(of_nat n :: 32 word) \<noteq> 0xffffffff"
  proof
    assume "(of_nat n :: 32 word) = 0xffffffff"
    then have "unat (of_nat n :: 32 word) = 0xffffffff" by simp
    with u assms show False by simp
  qed
qed

subsection \<open>Reading back what stands in a buffer\<close>

lemma buf_read_mid:
  assumes "buf_ok b" and "contents b = pre @ bs @ post"
  shows "buf_read b (length pre) (length bs) = Ret bs" and "length pre + length bs \<le> len b"
proof -
  from assms have "length pre + length bs + length post = len b"
    using length_contents [OF assms(1)] by simp
  then show le: "length pre + length bs \<le> len b" by simp
  show "buf_read b (length pre) (length bs) = Ret bs"
    using buf_read_contents [OF assms(1) le] assms(2) by simp
qed

lemma get_byte_mid:
  assumes "buf_ok b" and "contents b = pre @ [v] @ post"
  shows "egg_buffer_get_byte b (length pre) = Ret (Some (length pre + 1, v), b)"
  using buf_read_mid [OF assms] by (simp add: egg_buffer_get_byte_def)

lemma get_uint16_mid:
  assumes "buf_ok b" and "contents b = pre @ egg_buffer_encode_uint16 v @ post"
  shows "egg_buffer_get_uint16 b (length pre) = Ret (Some (length pre + 2, v), b)"
  using buf_read_mid [OF assms] by (simp add: egg_buffer_get_uint16_def)

lemma get_uint32_mid:
  assumes "buf_ok b" and "contents b = pre @ egg_buffer_encode_uint32 v @ post"
  shows "egg_buffer_get_uint32 b (length pre) = Ret (Some (length pre + 4, v), b)"
  using buf_read_mid [OF assms] by (simp add: egg_buffer_get_uint32_def)

lemma get_uint64_mid:
  assumes "buf_ok b" and "contents b = pre @ encode_uint64 v @ post"
  shows "egg_buffer_get_uint64 b (length pre) = Ret (Some (length pre + length (encode_uint64 v), v), b)"
proof -
  let ?hi = "ucast (drop_bit 32 v AND 0xffffffff) :: 32 word" and ?lo = "ucast (v AND 0xffffffff) :: 32 word"
  have "contents b = pre @ egg_buffer_encode_uint32 ?hi @ (egg_buffer_encode_uint32 ?lo @ post)"
    using assms(2) by (simp add: encode_uint64_def)
  note hi = get_uint32_mid [OF assms(1) this]
  have "contents b = (pre @ egg_buffer_encode_uint32 ?hi) @ egg_buffer_encode_uint32 ?lo @ post"
    using assms(2) by (simp add: encode_uint64_def)
  note lo = get_uint32_mid [OF assms(1) this]
  from hi lo show ?thesis
    by (simp add: egg_buffer_get_uint64_def join_uint64 encode_uint64_def)
qed

lemma get_byte_array_mid:
  assumes "buf_ok b" and "byte_array_valid v" and "contents b = pre @ encode_byte_array v @ post"
  shows "egg_buffer_get_byte_array b (length pre) =
    Ret (Some (length pre + length (encode_byte_array v), v), b)"
proof (cases v)
  case None
  with assms have "contents b = pre @ egg_buffer_encode_uint32 0xffffffff @ post"
    by (simp add: encode_byte_array_def)
  from get_uint32_mid [OF assms(1) this] None show ?thesis
    by (simp add: egg_buffer_get_byte_array_def encode_byte_array_def)
next
  case (Some bs)
  let ?n = "of_nat (length bs) :: 32 word"
  from Some assms(2) have l: "length bs < 0x7fffffff" by (simp add: byte_array_valid_def)
  note w = array_length_word [OF l]
  from Some assms(3) have c: "contents b = pre @ egg_buffer_encode_uint32 ?n @ bs @ post"
    "contents b = (pre @ egg_buffer_encode_uint32 ?n) @ bs @ post" by (simp_all add: encode_byte_array_def)
  note n = get_uint32_mid [OF assms(1) c(1)]
  note rd = buf_read_mid [OF assms(1) c(2)]
  from n rd w Some show ?thesis
    by (simp add: egg_buffer_get_byte_array_def encode_byte_array_def)
qed

lemma get_string_mid:
  assumes "buf_ok b" and "length s < 0x7fffffff" and "c_string s"
    and "contents b = pre @ encode_byte_array (Some s) @ post"
    and "al a None (length s + 1) = Some m"
  shows "egg_buffer_get_string al b (length pre) (Some a) =
    Ret (Some (length pre + length (encode_byte_array (Some s)), Some s), True, b)"
proof -
  let ?n = "of_nat (length s) :: 32 word"
  note w = array_length_word [OF assms(2)]
  from assms(4) have c: "contents b = pre @ egg_buffer_encode_uint32 ?n @ s @ post"
    "contents b = (pre @ egg_buffer_encode_uint32 ?n) @ s @ post" by (simp_all add: encode_byte_array_def)
  note n = get_uint32_mid [OF assms(1) c(1)]
  note rd = buf_read_mid [OF assms(1) c(2)]
  have "memchr s 0 = None" using assms(3) by (simp add: c_string_def)
  with n rd w assms(5) show ?thesis
    by (simp add: egg_buffer_get_string_def encode_byte_array_def)
qed

section \<open>The contract of a field\<close>

text \<open>
  A kind of value that can be added to a buffer and read back: what the users of a pair of
  \<^verbatim>\<open>add\<close> and \<^verbatim>\<open>get\<close> operations rely on.
\<close>

locale buffer_field =
  fixes add :: "EggBuffer \<Rightarrow> 'a \<Rightarrow> (bool \<times> EggBuffer) outcome"
    and get :: "EggBuffer \<Rightarrow> nat \<Rightarrow> 'a get_result"
    and enc :: "'a \<Rightarrow> byte list"
    and valid :: "'a \<Rightarrow> bool"
  assumes add_appends: "buf_ok b \<Longrightarrow> valid x \<Longrightarrow> appends b (enc x) (add b x)"
    and get_mid: "buf_ok b \<Longrightarrow> valid x \<Longrightarrow> contents b = pre @ enc x @ post \<Longrightarrow>
      get b (length pre) = Ret (Some (length pre + length (enc x), x), b)"
begin

lemma add_True:
  assumes "buf_ok b" and "valid x" and "add b x = Ret (True, b')"
  shows "buf_ok b'" and "contents b' = contents b @ enc x" and "len b' = len b + length (enc x)"
proof -
  from add_appends [OF assms(1,2)] assms(3) show ok: "buf_ok b'" and c: "contents b' = contents b @ enc x"
    by (auto simp: appends_def)
  from arg_cong [OF c, of length] ok assms(1) show "len b' = len b + length (enc x)" by simp
qed

text \<open>A value stays readable where it was added, whatever is appended after it.\<close>

lemma add_get:
  assumes "buf_ok b" and "valid x" and "add b x = Ret (True, b')"
    and "buf_ok b''" and "prefix (contents b') (contents b'')"
  shows "get b'' (len b) = Ret (Some (len b', x), b'')"
proof -
  note a = add_True [OF assms(1-3)]
  from assms(5) a(2) obtain post where "contents b'' = contents b @ enc x @ post"
    by (auto simp: prefix_def)
  from get_mid [OF assms(4,2) this] a assms(1) show ?thesis by simp
qed

lemma add_get_next:
  assumes "buf_ok b" and "valid x" and "add b x = Ret (True, b')"
  shows "get b' (len b) = Ret (Some (len b', x), b')"
  using assms add_True(1) [OF assms] by (intro add_get) simp_all

end

section \<open>What a buffer needs from its allocators\<close>

text \<open>
  \<^verbatim>\<open>realloc\<close>: the memory returned has the size asked for and keeps the octets of the old one; no
  allocator hands out a quarter of the address space or more.
\<close>

locale realloc_like =
  fixes al :: alloc_env
  assumes al_length: "al a p n = Some m \<Longrightarrow> length m = n"
    and al_keeps: "al a (Some old) n = Some m \<Longrightarrow> k \<le> length old \<Longrightarrow> k \<le> n \<Longrightarrow> take k m = take k old"
    and al_bound: "al a p n = Some m \<Longrightarrow> n < 2 ^ 62"
begin

lemma reserve_spec:
  assumes "buf_ok b" and "n < 2 ^ 63"
  shows "egg_buffer_reserve al b n = (False, fail b) \<or>
    (\<exists>b'. egg_buffer_reserve al b n = (True, b') \<and> buf_ok b' \<and> len b' = len b
        \<and> contents b' = contents b \<and> n \<le> allocated_len b')"
proof (cases "n < allocated_len b")
  case True
  with assms show ?thesis by (simp add: egg_buffer_reserve_def)
next
  case False
  let ?dbl = "allocated_len b * 2"
  let ?new = "if n > ?dbl then ?dbl + n else ?dbl"
  from assms have small: "allocated_len b < 2 ^ 62" by (simp add: buf_ok_def)
  then have w1: "wrap64 ?dbl = ?dbl" by (intro wrap64_id) simp
  have w2: "(if n > ?dbl then wrap64 (?dbl + n) else ?dbl) = ?new"
    using assms(2) wrap64_id [of "?dbl + n"] by simp
  have res: "egg_buffer_reserve al b n =
      (case allocator b of None \<Rightarrow> (False, fail b)
       | Some a \<Rightarrow> (case al a (buf b) ?new of None \<Rightarrow> (False, fail b)
                   | Some m \<Rightarrow> (True, b\<lparr>buf := Some m, allocated_len := ?new\<rparr>)))"
    using False unfolding egg_buffer_reserve_def Let_def w1 w2 by simp
  show ?thesis
  proof (cases "allocator b")
    case None
    with res show ?thesis by simp
  next
    case (Some a)
    show ?thesis
    proof (cases "al a (buf b) ?new")
      case None
      with res Some show ?thesis by simp
    next
      case (Some m)
      have ge: "n \<le> ?new" "allocated_len b \<le> ?new" using False by auto
      have m: "length m = ?new" "?new < 2 ^ 62" using al_length [OF Some] al_bound [OF Some] by simp_all
      have "take (len b) m = contents b"
      proof (cases "buf b")
        case None
        with assms(1) have "len b = 0" by (simp add: buf_ok_def mem_def)
        then show ?thesis by (simp add: contents_def)
      next
        case old: (Some old)
        with assms(1) have "len b \<le> length old" "len b \<le> ?new"
          using ge(2) by (simp_all add: buf_ok_def mem_def)
        with al_keeps [of a old ?new m "len b"] Some old show ?thesis
          by (simp add: contents_def mem_def)
      qed
      moreover have "len b \<le> ?new" using assms(1) ge(2) by (simp add: buf_ok_def)
      ultimately show ?thesis using res \<open>allocator b = Some a\<close> Some m ge
        by (auto simp: buf_ok_def mem_def contents_def)
    qed
  qed
qed

text \<open>The common shape of the appending operations: reserve, write at the end, set the length.\<close>

lemma reserve_write:
  assumes "buf_ok b" and "length bs < 2 ^ 62"
  obtains "egg_buffer_reserve al b (wrap64 (len b + length bs)) = (False, fail b)"
  | b1 b2 where "egg_buffer_reserve al b (wrap64 (len b + length bs)) = (True, b1)"
    and "len b1 = len b" and "wrap64 (len b1 + length bs) = len b + length bs"
    and "buf_write (b1\<lparr>len := len b + length bs\<rparr>) (len b) bs = Ret b2"
    and "buf_ok b2" and "contents b2 = contents b @ bs" and "len b2 = len b + length bs"
proof -
  have lt: "len b + length bs < 2 ^ 63" using buf_ok_small [OF assms(1)] assms(2) by simp
  then have w: "wrap64 (len b + length bs) = len b + length bs" by (intro wrap64_id) simp
  from reserve_spec [OF assms(1) lt] consider
      (no) "egg_buffer_reserve al b (len b + length bs) = (False, fail b)"
    | (yes) b1 where "egg_buffer_reserve al b (len b + length bs) = (True, b1)" "buf_ok b1"
        "len b1 = len b" "contents b1 = contents b" "len b + length bs \<le> allocated_len b1" by blast
  then show thesis
  proof cases
    case no
    then show ?thesis using that(1) w by simp
  next
    case yes
    let ?b = "b1\<lparr>len := len b + length bs\<rparr>"
    have "length (mem ?b) = allocated_len ?b" "allocated_len ?b < 2 ^ 62"
      using yes(2) by (simp_all add: buf_ok_def mem_def)
    then obtain b2 where "buf_write ?b (len b) bs = Ret b2" "buf_ok b2" "len b2 = len ?b"
      "contents b2 = take (len b) (mem ?b) @ bs"
      using buf_write_end [of ?b "len b" bs] yes(5) by auto
    moreover have "take (len b) (mem ?b) = contents b"
      using yes(3,4) by (simp add: contents_def mem_def)
    ultimately show ?thesis using that(2) [of b1 b2] yes w by simp
  qed
qed

lemma buf_write_len_update:
  "buf_write (b\<lparr>len := n\<rparr>) k bs = Ret b2 \<Longrightarrow> buf_write b k bs = Ret (b2\<lparr>len := len b\<rparr>) \<and> len b2 = n"
  by (auto simp: buf_write_def Let_def split: if_splits)

lemma append_appends:
  assumes "buf_ok b" and "length val < 2 ^ 62"
  shows "appends b val (egg_buffer_append al b val)"
  using assms
proof (rule reserve_write)
  assume "egg_buffer_reserve al b (wrap64 (len b + length val)) = (False, fail b)"
  then show ?thesis using assms by (simp add: egg_buffer_append_def appends_fail)
next
  fix b1 b2
  assume *: "egg_buffer_reserve al b (wrap64 (len b + length val)) = (True, b1)"
    "len b1 = len b" "wrap64 (len b1 + length val) = len b + length val"
    "buf_write (b1\<lparr>len := len b + length val\<rparr>) (len b) val = Ret b2"
    "buf_ok b2" "contents b2 = contents b @ val" "len b2 = len b + length val"
  from buf_write_len_update [OF *(4)] * have "egg_buffer_append al b val = Ret (True, b2)"
    by (simp add: egg_buffer_append_def)
  with * show ?thesis by (simp add: appends_ok)
qed

lemma add_byte_append: "egg_buffer_add_byte al b v = egg_buffer_append al b [v]"
  unfolding egg_buffer_add_byte_def egg_buffer_append_def
  by (simp only: list.size add_0 One_nat_def)

lemma add_uint32_appends:
  assumes "buf_ok b"
  shows "appends b (egg_buffer_encode_uint32 v) (egg_buffer_add_uint32 al b v)"
proof -
  have l: "length (egg_buffer_encode_uint32 v) = 4" by (simp add: egg_buffer_encode_uint32_def)
  then have "length (egg_buffer_encode_uint32 v) < 2 ^ 62" by simp
  with assms show ?thesis
  proof (rule reserve_write, unfold l)
    assume "egg_buffer_reserve al b (wrap64 (len b + 4)) = (False, fail b)"
    then show ?thesis using assms by (simp add: egg_buffer_add_uint32_def appends_fail)
  next
    fix b1 b2
    assume *: "egg_buffer_reserve al b (wrap64 (len b + 4)) = (True, b1)"
      "len b1 = len b" "wrap64 (len b1 + 4) = len b + 4"
      "buf_write (b1\<lparr>len := len b + 4\<rparr>) (len b) (egg_buffer_encode_uint32 v) = Ret b2"
      "buf_ok b2" "contents b2 = contents b @ egg_buffer_encode_uint32 v" "len b2 = len b + 4"
    then have "egg_buffer_add_uint32 al b v = Ret (True, b2)"
      by (simp add: egg_buffer_add_uint32_def egg_buffer_set_uint32_def Let_def)
    with * show ?thesis by (simp add: appends_ok)
  qed
qed

lemma add_uint16_appends:
  assumes "buf_ok b"
  shows "appends b (egg_buffer_encode_uint16 v) (egg_buffer_add_uint16 al b v)"
proof -
  have l: "length (egg_buffer_encode_uint16 v) = 2" by (simp add: egg_buffer_encode_uint16_def)
  then have "length (egg_buffer_encode_uint16 v) < 2 ^ 62" by simp
  with assms show ?thesis
  proof (rule reserve_write, unfold l)
    assume "egg_buffer_reserve al b (wrap64 (len b + 2)) = (False, fail b)"
    then show ?thesis using assms by (simp add: egg_buffer_add_uint16_def appends_fail)
  next
    fix b1 b2
    assume *: "egg_buffer_reserve al b (wrap64 (len b + 2)) = (True, b1)"
      "len b1 = len b" "wrap64 (len b1 + 2) = len b + 2"
      "buf_write (b1\<lparr>len := len b + 2\<rparr>) (len b) (egg_buffer_encode_uint16 v) = Ret b2"
      "buf_ok b2" "contents b2 = contents b @ egg_buffer_encode_uint16 v" "len b2 = len b + 2"
    then have "egg_buffer_add_uint16 al b v = Ret (True, b2)"
      by (simp add: egg_buffer_add_uint16_def egg_buffer_set_uint16_def Let_def)
    with * show ?thesis by (simp add: appends_ok)
  qed
qed

lemma add_uint64_appends: "buf_ok b \<Longrightarrow> appends b (encode_uint64 v) (egg_buffer_add_uint64 al b v)"
  unfolding encode_uint64_def egg_buffer_add_uint64_def
  by (rule appends_seq) (simp_all add: add_uint32_appends)

lemma add_byte_array_appends:
  assumes "buf_ok b" and "byte_array_valid v"
  shows "appends b (encode_byte_array v) (egg_buffer_add_byte_array al b v)"
proof (cases v)
  case None
  with assms show ?thesis
    by (simp add: encode_byte_array_def egg_buffer_add_byte_array_def add_uint32_appends)
next
  case (Some bs)
  with assms(2) have "length bs < 0x7fffffff" by (simp add: byte_array_valid_def)
  moreover then have "length bs < 2 ^ 62" by simp
  ultimately have "appends b (egg_buffer_encode_uint32 (of_nat (length bs)) @ bs)
      (obind (egg_buffer_add_uint32 al b (of_nat (length bs))) (\<lambda>(ok, b').
         if \<not> ok then Ret (False, b') else egg_buffer_append al b' bs))"
    using assms(1) by (intro appends_seq) (simp_all add: add_uint32_appends append_appends)
  with Some \<open>length bs < 0x7fffffff\<close> show ?thesis
    by (simp add: encode_byte_array_def egg_buffer_add_byte_array_def)
qed

lemma add_string_array: "byte_array_valid s \<Longrightarrow> egg_buffer_add_string al b s = egg_buffer_add_byte_array al b s"
  by (cases s) (simp_all add: egg_buffer_add_string_def egg_buffer_add_byte_array_def byte_array_valid_def)

lemma add_strings_appends:
  "buf_ok b \<Longrightarrow> \<forall>s \<in> set v. length s < 0x7fffffff \<Longrightarrow>
   appends b (concat (map (\<lambda>s. encode_byte_array (Some s)) v)) (add_strings al b v)"
proof (induction v arbitrary: b)
  case Nil
  then show ?case by (simp add: appends_ok)
next
  case (Cons s v)
  then have "byte_array_valid (Some s)" by (simp add: byte_array_valid_def)
  with Cons show ?case
    by (simp add: add_string_array appends_seq add_byte_array_appends)
qed

lemma add_stringv_appends:
  assumes "buf_ok b" and "\<forall>s \<in> set v. length s < 0x7fffffff"
  shows "appends b (encode_stringv v) (egg_buffer_add_stringv al b (Some v))"
  unfolding encode_stringv_def egg_buffer_add_stringv_def option.case
  using assms by (intro appends_seq) (simp_all add: add_uint32_appends add_strings_appends)

end

sublocale realloc_like \<subseteq> byte: buffer_field "egg_buffer_add_byte al" egg_buffer_get_byte "\<lambda>v. [v]" "\<lambda>_. True"
  by unfold_locales (simp_all add: add_byte_append append_appends get_byte_mid [simplified])

sublocale realloc_like \<subseteq> uint16: buffer_field "egg_buffer_add_uint16 al" egg_buffer_get_uint16
    egg_buffer_encode_uint16 "\<lambda>_. True"
  by unfold_locales (simp_all add: add_uint16_appends get_uint16_mid)

sublocale realloc_like \<subseteq> uint32: buffer_field "egg_buffer_add_uint32 al" egg_buffer_get_uint32
    egg_buffer_encode_uint32 "\<lambda>_. True"
  by unfold_locales (simp_all add: add_uint32_appends get_uint32_mid)

sublocale realloc_like \<subseteq> uint64: buffer_field "egg_buffer_add_uint64 al" egg_buffer_get_uint64
    encode_uint64 "\<lambda>_. True"
  by unfold_locales (simp_all add: add_uint64_appends get_uint64_mid)

sublocale realloc_like \<subseteq> bytes: buffer_field "egg_buffer_add_byte_array al" egg_buffer_get_byte_array
    encode_byte_array byte_array_valid
  by unfold_locales (simp_all add: add_byte_array_appends get_byte_array_mid)

section \<open>The allocator of the C library\<close>

text \<open>
  \<^verbatim>\<open>realloc\<close>: \<open>avail\<close> says which requests succeed, new octets have the value \<open>fill\<close>.
\<close>

definition c_realloc :: "(nat \<Rightarrow> nat \<Rightarrow> bool) \<Rightarrow> byte \<Rightarrow> alloc_env" where
  "c_realloc avail fill a p n =
     (if n < 2 ^ 62 \<and> avail a n
      then Some (take n ((case p of None \<Rightarrow> [] | Some old \<Rightarrow> old) @ replicate n fill))
      else None)"

interpretation c_realloc: realloc_like "c_realloc avail fill" for avail fill
  by unfold_locales (auto simp: c_realloc_def min_def split: if_splits)


section \<open>Properties\<close>

subsection \<open>Reading what was added\<close>

text \<open>
  C27. An octet array (or \<^verbatim>\<open>NULL\<close>) that was added to a buffer is read back from the offset where
  the buffer ended before, also after any number of further additions, and the next offset is
  where the buffer ended after it.
\<close>

theorem egg_buffer_byte_array_roundtrip:
  assumes "buf_ok b" and "byte_array_valid v"
    and "egg_buffer_add_byte_array (c_realloc avail fill) b v = Ret (True, b')"
    and "buf_ok b''" and "prefix (contents b') (contents b'')"
  shows "egg_buffer_get_byte_array b'' (len b) = Ret (Some (len b', v), b'')"
  using assms by (rule c_realloc.bytes.add_get)

definition sample_buffer :: EggBuffer where
  "sample_buffer = \<lparr>buf = Some (replicate 16 0), len = 0, allocated_len = 16, failures = 0,
     allocator = Some DEFAULT_ALLOCATOR\<rparr>"

definition sample_buffer' :: EggBuffer where
  "sample_buffer' = sample_buffer\<lparr>buf := Some ([0, 0, 0, 2, 7, 9] @ replicate 10 0), len := 6\<rparr>"

lemma sample_buffer_ok: "buf_ok sample_buffer" "buf_ok sample_buffer'"
  by (simp_all add: buf_ok_def mem_def sample_buffer_def sample_buffer'_def)

lemma sample_buffer_add:
  "egg_buffer_add_byte_array (c_realloc (\<lambda>_ _. True) 0) sample_buffer (Some [7, 9]) = Ret (True, sample_buffer')"
  by (simp add: egg_buffer_add_byte_array_def egg_buffer_add_uint32_def egg_buffer_reserve_def
      wrap64_def sample_buffer_def sample_buffer'_def egg_buffer_set_uint32_def buf_write_def Let_def
      egg_buffer_encode_uint32_def egg_buffer_append_def)

theorem egg_buffer_byte_array_roundtrip_witness:
  "egg_buffer_get_byte_array sample_buffer' (len sample_buffer) =
     Ret (Some (len sample_buffer', Some [7, 9]), sample_buffer')"
  by (rule egg_buffer_byte_array_roundtrip [OF _ _ sample_buffer_add])
    (simp_all add: sample_buffer_ok byte_array_valid_def)

text \<open>
  The same for 64-bit integers, which are stored as two big-endian halves.
\<close>

theorem egg_buffer_uint64_roundtrip:
  assumes "buf_ok b" and "egg_buffer_add_uint64 (c_realloc avail fill) b v = Ret (True, b')"
    and "buf_ok b''" and "prefix (contents b') (contents b'')"
  shows "egg_buffer_get_uint64 b'' (len b) = Ret (Some (len b', v), b'')"
  using c_realloc.uint64.add_get [OF assms(1) _ assms(2-4)] by simp

definition sample_buffer64 :: EggBuffer where
  "sample_buffer64 = sample_buffer\<lparr>buf := Some ([0, 0, 0, 1, 0, 0, 0, 5] @ replicate 8 0), len := 8\<rparr>"

theorem egg_buffer_uint64_roundtrip_witness:
  "egg_buffer_get_uint64 sample_buffer64 (len sample_buffer) =
     Ret (Some (len sample_buffer64, 0x100000005), sample_buffer64)"
proof (rule egg_buffer_uint64_roundtrip [OF sample_buffer_ok(1)])
  show "egg_buffer_add_uint64 (c_realloc (\<lambda>_ _. True) 0) sample_buffer 0x100000005 = Ret (True, sample_buffer64)"
    by (simp add: egg_buffer_add_uint64_def egg_buffer_add_uint32_def egg_buffer_reserve_def
        wrap64_def sample_buffer_def sample_buffer64_def egg_buffer_set_uint32_def buf_write_def Let_def
        egg_buffer_encode_uint32_def)
qed (simp_all add: buf_ok_def mem_def sample_buffer_def sample_buffer64_def)


subsection \<open>Reading from any buffer\<close>

lemma encode_decode_uint32:
  assumes "length bs = 4"
  shows "egg_buffer_encode_uint32 (egg_buffer_decode_uint32 bs) = bs"
proof -
  from assms obtain a b c d where bs: "bs = [a, b, c, d]"
    by (auto simp: length_Suc_conv numeral_eq_Suc)
  have nth: "[a, b, c, d] ! 2 = c" "[a, b, c, d] ! 3 = d" for a b c d :: byte by simp_all
  let ?w = "egg_buffer_decode_uint32 bs"
  have hi: "\<not> bit x (8 + n)" "\<not> bit x (16 + n)" "\<not> bit x (24 + n)" for x :: byte and n
    using bit_imp_le_length [of x "8 + n"] bit_imp_le_length [of x "16 + n"]
      bit_imp_le_length [of x "24 + n"] by auto
  have "ucast (drop_bit 24 ?w AND 255) = a" "ucast (drop_bit 16 ?w AND 255) = b"
    "ucast (drop_bit 8 ?w AND 255) = c" "ucast (?w AND 255) = d"
    by (auto intro!: bit_word_eqI
        simp: bs egg_buffer_decode_uint32_def low_octet nth bit_simps hi)
  then show ?thesis by (simp add: egg_buffer_encode_uint32_def bs)
qed

lemma take_drop_split:
  "off + n \<le> length xs \<Longrightarrow> xs = take off xs @ take n (drop off xs) @ drop (off + n) xs"
  by (metis append_take_drop_id drop_drop add.commute)

lemma get_uint32_cases:
  assumes "buf_ok b"
  obtains "egg_buffer_get_uint32 b off = Ret (None, fail b)" and "len b < off + 4"
  | w where "egg_buffer_get_uint32 b off = Ret (Some (off + 4, w), b)" and "off + 4 \<le> len b"
    and "contents b = take off (contents b) @ egg_buffer_encode_uint32 w @ drop (off + 4) (contents b)"
proof (cases "off + 4 \<le> len b")
  case True
  let ?bs = "take 4 (drop off (contents b))"
  from True assms have rd: "buf_read b off 4 = Ret ?bs" by (rule buf_read_contents [rotated])
  from True assms have l: "length ?bs = 4" by simp
  show thesis
  proof (rule that(2) [of "egg_buffer_decode_uint32 ?bs"])
    show "egg_buffer_get_uint32 b off = Ret (Some (off + 4, egg_buffer_decode_uint32 ?bs), b)"
      using True rd by (simp add: egg_buffer_get_uint32_def)
    show "contents b = take off (contents b) @ egg_buffer_encode_uint32 (egg_buffer_decode_uint32 ?bs)
        @ drop (off + 4) (contents b)"
      unfolding encode_decode_uint32 [OF l] using True assms by (intro take_drop_split) simp
  qed (rule True)
next
  case False
  show thesis by (rule that(1)) (use False in \<open>auto simp: egg_buffer_get_uint32_def\<close>)
qed

lemma get_byte_array_any:
  assumes "buf_ok b"
  shows "egg_buffer_get_byte_array b off = Ret (None, fail b)
    \<or> (\<exists>v. egg_buffer_get_byte_array b off = Ret (Some (off + length (encode_byte_array v), v), b)
         \<and> off + length (encode_byte_array v) \<le> len b
         \<and> take (length (encode_byte_array v)) (drop off (contents b)) = encode_byte_array v)"
  using assms
proof (cases rule: get_uint32_cases [of b off])
  case 1
  then show ?thesis by (simp add: egg_buffer_get_byte_array_def)
next
  case (2 w)
  have off: "off \<le> length (contents b)" using assms 2(2) by simp
  let ?rest = "drop (off + 4) (contents b)"
  have at: "drop off (contents b) = egg_buffer_encode_uint32 w @ ?rest"
    using arg_cong [OF 2(3), of "drop off"] off by simp
  consider "w = 0xffffffff" | "w \<noteq> 0xffffffff" "w \<ge> 0x7fffffff \<or> len b < off + 4 + unat w"
    | (ok) "w \<noteq> 0xffffffff" "\<not> w \<ge> 0x7fffffff" "off + 4 + unat w \<le> len b" by fastforce
  then show ?thesis
  proof cases
    case 1
    with 2 at show ?thesis
      by (intro disjI2 exI [of _ None]) (simp add: egg_buffer_get_byte_array_def encode_byte_array_def)
  next
    case 2
    then have "len b < unat w \<or> off + 4 > len b - unat w \<or> w \<ge> 0x7fffffff" by auto
    with \<open>egg_buffer_get_uint32 b off = _\<close> 2(1) show ?thesis
      by (auto simp: egg_buffer_get_byte_array_def)
  next
    case ok
    let ?v = "take (unat w) ?rest"
    have l: "length ?v = unat w" using ok(3) assms by simp
    have rd: "buf_read b (off + 4) (unat w) = Ret ?v" using assms ok(3) by (intro buf_read_contents) simp
    have enc: "encode_byte_array (Some ?v) = egg_buffer_encode_uint32 w @ ?v"
      by (simp only: encode_byte_array_def option.case l) simp
    show ?thesis
      by (intro disjI2 exI [of _ "Some ?v"])
        (use ok 2 rd l in \<open>simp add: enc at egg_buffer_get_byte_array_def\<close>)
  qed
qed

text \<open>
  C28. Reading an octet array from any well-formed buffer at any offset never accesses memory
  outside of the buffer; if it succeeds, the array is what stands encoded at the offset, and the
  next offset is behind it and inside of the buffer.
\<close>

theorem egg_buffer_get_byte_array_sound:
  assumes "buf_ok b"
  shows "egg_buffer_get_byte_array b off = Ret (None, fail b)
    \<or> (\<exists>v. egg_buffer_get_byte_array b off = Ret (Some (off + length (encode_byte_array v), v), b)
         \<and> off + length (encode_byte_array v) \<le> len b
         \<and> take (length (encode_byte_array v)) (drop off (contents b)) = encode_byte_array v)"
  by (rule get_byte_array_any [OF assms])

theorem egg_buffer_get_byte_array_sound_witness:
  "egg_buffer_get_byte_array sample_buffer' 0 = Ret (None, fail sample_buffer')
    \<or> (\<exists>v. egg_buffer_get_byte_array sample_buffer' 0 =
           Ret (Some (0 + length (encode_byte_array v), v), sample_buffer')
         \<and> 0 + length (encode_byte_array v) \<le> len sample_buffer'
         \<and> take (length (encode_byte_array v)) (drop 0 (contents sample_buffer')) = encode_byte_array v)"
  by (rule egg_buffer_get_byte_array_sound) (rule sample_buffer_ok)

subsection \<open>Lists of strings\<close>

lemma get_strings_mid:
  assumes "buf_ok b" and "\<And>n. n < 2 ^ 62 \<Longrightarrow> \<exists>m. al a None n = Some m"
  shows "\<forall>s \<in> set v. length s < 0x7fffffff \<and> c_string s \<Longrightarrow> length got + length v \<le> slots \<Longrightarrow>
    contents b = pre @ concat (map (\<lambda>s. encode_byte_array (Some s)) v) @ post \<Longrightarrow>
    get_strings al b (length pre) (Some a) slots (length v) got =
      Ret (Some (length pre + length (concat (map (\<lambda>s. encode_byte_array (Some s)) v)), got @ map Some v), b)"
proof (induction v arbitrary: pre got)
  case Nil
  then show ?case by simp
next
  case (Cons s v)
  obtain m where m: "al a None (length s + 1) = Some m"
    using assms(2) [of "length s + 1"] Cons.prems(1) by auto
  let ?e = "encode_byte_array (Some s)"
  from Cons.prems have "egg_buffer_get_string al b (length pre) (Some a) =
      Ret (Some (length pre + length ?e, Some s), True, b)"
    by (intro get_string_mid [where al = al, OF assms(1) _ _ _ m]) simp_all
  moreover have "get_strings al b (length (pre @ ?e)) (Some a) slots (length v) (got @ [Some s]) =
      Ret (Some (length (pre @ ?e) + length (concat (map (\<lambda>s. encode_byte_array (Some s)) v)),
        (got @ [Some s]) @ map Some v), b)"
    using Cons.prems by (intro Cons.IH) simp_all
  ultimately show ?case using Cons.prems(2) by (simp add: add.assoc)
qed

text \<open>
  A list of fewer than 2^32 - 1 strings that was added to a buffer is read back, when the
  allocator has memory.
\<close>

theorem egg_buffer_stringv_roundtrip:
  assumes "buf_ok b" and "length v < 2 ^ 32 - 1" and "\<forall>s \<in> set v. length s < 0x7fffffff \<and> c_string s"
    and "\<And>n. avail a n"
    and "egg_buffer_add_stringv (c_realloc avail fill) b (Some v) = Ret (True, b')"
  shows "egg_buffer_get_stringv (c_realloc avail fill) b' (len b) (Some a) = Ret (Some (len b', map Some v), b')"
proof -
  let ?al = "c_realloc avail fill" and ?ss = "concat (map (\<lambda>s. encode_byte_array (Some s)) v)"
  let ?n = "of_nat (length v) :: 32 word"
  from assms(3) have "\<forall>s \<in> set v. length s < 0x7fffffff" by simp
  from c_realloc.add_stringv_appends [OF assms(1) this, of avail fill] assms(5)
  have ok: "buf_ok b'" and c: "contents b' = contents b @ encode_stringv v" by (auto simp: appends_def)
  from c have c1: "contents b' = contents b @ egg_buffer_encode_uint32 ?n @ (?ss @ [])"
    and c2: "contents b' = (contents b @ egg_buffer_encode_uint32 ?n) @ ?ss @ []"
    by (simp_all add: encode_stringv_def)
  have n: "unat ?n = length v" "unat (?n + 1) = Suc (length v)"
    using assms(2) by (simp_all add: unat_of_nat unat_word_ariths)
  have av: "n < 2 ^ 62 \<Longrightarrow> \<exists>m. ?al a None n = Some m" for n
    using assms(4) by (simp add: c_realloc_def)
  have "get_strings ?al b' (length (contents b @ egg_buffer_encode_uint32 ?n)) (Some a)
      (Suc (length v)) (length v) [] =
      Ret (Some (length (contents b @ egg_buffer_encode_uint32 ?n) + length ?ss, [] @ map Some v), b')"
    by (rule get_strings_mid [where al = ?al, OF ok av assms(3) _ c2]) simp_all
  moreover have "len b' = len b + 4 + length ?ss"
    using arg_cong [OF c2, of length] ok assms(1) by simp
  moreover obtain m where "?al a None (Suc (length v) * 8) = Some m"
    using av [of "Suc (length v) * 8"] assms(2) by auto
  ultimately show ?thesis
    using get_uint32_mid [OF ok c1] assms(1) n by (simp add: egg_buffer_get_stringv_def Let_def)
qed


definition sample_stringv :: EggBuffer where
  "sample_stringv = sample_buffer\<lparr>buf := Some ([0, 0, 0, 1, 0, 0, 0, 2, 104, 105] @ replicate 6 0), len := 10\<rparr>"

theorem egg_buffer_stringv_roundtrip_witness:
  "egg_buffer_get_stringv (c_realloc (\<lambda>_ _. True) 0) sample_stringv (len sample_buffer) (Some 0) =
     Ret (Some (len sample_stringv, map Some [cstr ''hi'']), sample_stringv)"
proof (rule egg_buffer_stringv_roundtrip [OF sample_buffer_ok(1)])
  show "egg_buffer_add_stringv (c_realloc (\<lambda>_ _. True) 0) sample_buffer (Some [cstr ''hi'']) =
      Ret (True, sample_stringv)"
    by (simp add: egg_buffer_add_stringv_def egg_buffer_add_string_def egg_buffer_add_uint32_def
        egg_buffer_reserve_def wrap64_def sample_buffer_def sample_stringv_def egg_buffer_set_uint32_def
        buf_write_def Let_def egg_buffer_encode_uint32_def egg_buffer_append_def)
qed simp_all

text \<open>
  A stored count of 0xffffffff makes the size of the array wrap to zero, so reading the list
  writes the first string outside of the array that was allocated.
\<close>

theorem egg_buffer_get_stringv_overflow:
  assumes "buf_ok b" and "length s < 0x7fffffff" and "c_string s"
    and "contents b = pre @ egg_buffer_encode_uint32 0xffffffff @ encode_byte_array (Some s) @ post"
    and "al a None 0 = Some m" and "al a None (length s + 1) = Some m'"
  shows "egg_buffer_get_stringv al b (length pre) (Some a) = Undef"
proof -
  let ?n = "0xffffffff :: 32 word"
  have "contents b = (pre @ egg_buffer_encode_uint32 ?n) @ encode_byte_array (Some s) @ post"
    using assms(4) by simp
  from get_string_mid [where al = al, OF assms(1-3) this assms(6)] 
  have str: "egg_buffer_get_string al b (length pre + 4) (Some a) =
      Ret (Some (length pre + 4 + length (encode_byte_array (Some s)), Some s), True, b)" by simp
  have "unat ?n = Suc 4294967294" by simp
  then have "get_strings al b (length pre + 4) (Some a) 0 (unat ?n) [] = Undef"
    by (simp only: get_strings.simps) (simp add: str)
  moreover have "unat (?n + 1) = 0" by simp
  ultimately show ?thesis
    using get_uint32_mid [OF assms(1,4)] assms(5) by (simp add: egg_buffer_get_stringv_def Let_def)
qed

theorem egg_buffer_get_stringv_overflow_witness:
  "egg_buffer_get_stringv (c_realloc (\<lambda>_ _. True) 0)
     (egg_buffer_init_static (Some [0xff, 0xff, 0xff, 0xff, 0, 0, 0, 1, 104]) 9) 0 (Some 0) = Undef"
  using egg_buffer_get_stringv_overflow
    [of "egg_buffer_init_static (Some [0xff, 0xff, 0xff, 0xff, 0, 0, 0, 1, 104]) 9" "[104]" "[]" "[]"
      "c_realloc (\<lambda>_ _. True) 0" 0 "[]" "[0, 0]"]
  by (simp add: buf_ok_def mem_def egg_buffer_init_static_def contents_def encode_byte_array_def
      egg_buffer_encode_uint32_def c_realloc_def)

subsection \<open>Sizes that wrap around\<close>

text \<open>
  Adding empty space of a size that makes the length wrap around reports success and leaves
  the buffer shorter than it was.
\<close>

theorem egg_buffer_add_empty_wraps:
  assumes "buf_ok b" and "0 < k" and "k \<le> len b"
  shows "egg_buffer_add_empty al b (2 ^ 64 - k) = (Some (len b), b\<lparr>len := len b - k\<rparr>)"
proof -
  from assms have "len b < 2 ^ 62" "len b \<le> allocated_len b" by (simp_all add: buf_ok_def)
  with assms have "wrap64 (len b + (2 ^ 64 - k)) = len b - k"
    by (simp add: wrap64_def mod_if)
  moreover from assms \<open>len b \<le> allocated_len b\<close> have "len b - k < allocated_len b" by simp
  ultimately show ?thesis by (simp add: egg_buffer_add_empty_def egg_buffer_reserve_def)
qed

theorem egg_buffer_add_empty_wraps_witness:
  "egg_buffer_add_empty (c_realloc (\<lambda>_ _. True) 0) sample_buffer' (2 ^ 64 - 2) = (Some 6, sample_buffer'\<lparr>len := 4\<rparr>)"
  using egg_buffer_add_empty_wraps [OF sample_buffer_ok(2), of 2]
  by (simp add: sample_buffer'_def)

end
