(* ===== verification/Egg_Numerals.thy ===== *)
theory Egg_Numerals
  imports Egg_Prelude
begin

text \<open>
  The conversions between numbers and decimal text of the C library and GLib that the components
  use: \<open>%u\<close>, \<open>%lu\<close> and \<open>%0nd\<close> of \<^verbatim>\<open>printf\<close>, and
  \<^verbatim>\<open>g_ascii_strtoll\<close>, \<^verbatim>\<open>g_ascii_strtoull\<close> and \<^verbatim>\<open>strtol\<close> for base ten.
  A printed number is read back.
\<close>

section \<open>Numbers\<close>

text \<open>\<open>%u\<close> and \<open>%lu\<close>.\<close>

fun print_unsigned :: "nat \<Rightarrow> byte list" where
  "print_unsigned n =
     (if n < 10 then [chr CHR ''0'' + of_nat n]
      else print_unsigned (n div 10) @ [chr CHR ''0'' + of_nat (n mod 10)])"

declare print_unsigned.simps [simp del]

definition digits_nat :: "byte list \<Rightarrow> nat" where
  "digits_nat ds = foldl (\<lambda>v d. v * 10 + unat (d - chr CHR ''0'')) 0 ds"

text \<open>
  The common part of \<^verbatim>\<open>g_ascii_strtoll\<close> and \<^verbatim>\<open>g_ascii_strtoull\<close> for base ten: white
  space, a sign, digits.  The result is the sign, the magnitude and the text behind the number;
  without a digit the end is the start of the text.
\<close>

definition parse_long_long :: "byte list \<Rightarrow> bool \<times> nat \<times> byte list" where
  "parse_long_long s =
     (let t = dropWhile isspace s;
          neg = (t \<noteq> [] \<and> hd t = chr CHR ''-'');
          u = (if t \<noteq> [] \<and> (hd t = chr CHR ''-'' \<or> hd t = chr CHR ''+'') then tl t else t);
          ds = takeWhile g_ascii_isdigit u
      in if ds = [] then (False, 0, s) else (neg, digits_nat ds, dropWhile g_ascii_isdigit u))"

definition g_ascii_strtoll :: "byte list \<Rightarrow> int \<times> byte list" where
  "g_ascii_strtoll s =
     (case parse_long_long s of (neg, m, rest) \<Rightarrow>
        (if neg then max (- int m) (- (2 ^ 63)) else min (int m) (2 ^ 63 - 1), rest))"

definition g_ascii_strtoull :: "byte list \<Rightarrow> nat \<times> byte list" where
  "g_ascii_strtoull s =
     (case parse_long_long s of (neg, m, rest) \<Rightarrow>
        (if m > 2 ^ 64 - 1 then 2 ^ 64 - 1
         else if neg then wrap64 (2 ^ 64 - m) else m, rest))"

section \<open>Decimal numbers\<close>

lemma digit_octet:
  assumes "k < 10"
  shows "g_ascii_isdigit (chr CHR ''0'' + of_nat k)" "\<not> isspace (chr CHR ''0'' + of_nat k)"
    and "chr CHR ''0'' + of_nat k \<notin> {chr CHR ''-'', chr CHR ''+'', 0 :: byte}"
proof -
  have "list_all (\<lambda>k. g_ascii_isdigit (chr CHR ''0'' + of_nat k) \<and> \<not> isspace (chr CHR ''0'' + of_nat k) \<and>
      chr CHR ''0'' + of_nat k \<notin> {chr CHR ''-'', chr CHR ''+'', 0 :: byte}) [0..<10]"
    by code_simp
  with assms show "g_ascii_isdigit (chr CHR ''0'' + of_nat k)" "\<not> isspace (chr CHR ''0'' + of_nat k)"
    "chr CHR ''0'' + of_nat k \<notin> {chr CHR ''-'', chr CHR ''+'', 0 :: byte}"
    by (simp_all add: list_all_iff)
qed

lemma print_unsigned_digits:
  "list_all (\<lambda>c. \<exists>k < 10. c = chr CHR ''0'' + of_nat k) (print_unsigned n)"
proof (induction n rule: print_unsigned.induct)
  case (1 n)
  moreover have "\<exists>k < 10. chr CHR ''0'' + of_nat (n mod 10) = (chr CHR ''0'' + of_nat k :: byte)"
    by (rule exI [of _ "n mod 10"]) simp
  ultimately show ?case by (subst print_unsigned.simps) auto
qed

lemma print_unsigned_not_Nil [simp]: "print_unsigned n \<noteq> []"
  by (subst print_unsigned.simps) simp

lemma digits_nat_print: "digits_nat (print_unsigned n) = n"
proof (induction n rule: print_unsigned.induct)
  case (1 n)
  have "unat (of_nat k :: byte) = k" if "k < 10" for k
    using that by (simp add: unat_of_nat)
  with 1 show ?case
    by (subst print_unsigned.simps) (simp add: digits_nat_def)
qed

lemma c_string_print_unsigned [simp]: "c_string (print_unsigned n)"
  using print_unsigned_digits [of n] digit_octet(3) by (fastforce simp: list_all_iff c_string_def)

definition digit_text :: "byte list \<Rightarrow> bool" where
  "digit_text s \<longleftrightarrow> s \<noteq> [] \<and> list_all (\<lambda>c. \<exists>k < 10. c = chr CHR ''0'' + of_nat k) s"

lemma parse_digit_text:
  assumes "digit_text s"
  shows "parse_long_long s = (False, digits_nat s, [])"
proof -
  have digits: "list_all (\<lambda>c. \<exists>k < 10. c = chr CHR ''0'' + of_nat k) s" and "s \<noteq> []"
    using assms by (simp_all add: digit_text_def)
  have all: "list_all g_ascii_isdigit s"
    using digits digit_octet(1) by (fastforce simp: list_all_iff)
  have "\<exists>k < 10. hd s = chr CHR ''0'' + of_nat k"
    using digits \<open>s \<noteq> []\<close> hd_in_set [of s] by (auto simp: list_all_iff)
  then have "\<not> isspace (hd s)" "hd s \<noteq> chr CHR ''-''" "hd s \<noteq> chr CHR ''+''"
    using digit_octet(2,3) by auto
  moreover from this(1) have "dropWhile isspace s = s" by (cases s) auto
  ultimately show ?thesis
    using all \<open>s \<noteq> []\<close> by (simp add: parse_long_long_def Let_def takeWhile_eq_all_conv [THEN iffD2]
        dropWhile_eq_Nil_conv list_all_iff)
qed

lemma parse_print_unsigned: "parse_long_long (print_unsigned n) = (False, n, [])"
  using parse_digit_text [of "print_unsigned n"] print_unsigned_digits [of n]
  by (simp add: digit_text_def digits_nat_print)

text \<open>Padded with zeros to a width.\<close>

definition print_padded :: "nat \<Rightarrow> nat \<Rightarrow> byte list" where
  "print_padded w n = replicate (w - length (print_unsigned n)) (chr CHR ''0'') @ print_unsigned n"

lemma digits_nat_zeros: "digits_nat (replicate k (chr CHR ''0'') @ s) = digits_nat s"
  by (induction k) (simp_all add: digits_nat_def)

lemma parse_print_padded: "parse_long_long (print_padded w n) = (False, n, [])"
proof -
  have "chr CHR ''0'' = chr CHR ''0'' + (of_nat 0 :: byte)" by simp
  then have "\<exists>k < 10. chr CHR ''0'' = (chr CHR ''0'' + of_nat k :: byte)" by (metis zero_less_numeral)
  then have "digit_text (print_padded w n)"
    using print_unsigned_digits [of n] by (auto simp: digit_text_def print_padded_def list_all_iff)
  from parse_digit_text [OF this] show ?thesis
    by (simp only: print_padded_def digits_nat_zeros digits_nat_print)
qed

lemma length_print_unsigned: "n < 10 ^ w \<Longrightarrow> 0 < w \<Longrightarrow> length (print_unsigned n) \<le> w"
proof (induction n arbitrary: w rule: print_unsigned.induct)
  case (1 n)
  show ?case
  proof (cases "n < 10")
    case True
    with 1 show ?thesis by (subst print_unsigned.simps) simp
  next
    case False
    then obtain v where w: "w = Suc v" "0 < v" using 1 by (cases w; cases "w - 1") auto
    with 1 have "n div 10 < 10 ^ v" by (simp add: less_mult_imp_div_less mult.commute)
    with 1 False w show ?thesis by (subst print_unsigned.simps) simp
  qed
qed

lemma length_print_padded: "n < 10 ^ w \<Longrightarrow> 0 < w \<Longrightarrow> length (print_padded w n) = w"
  using length_print_unsigned [of n w] by (simp add: print_padded_def)

lemma g_ascii_strtoull_less: "g_ascii_strtoull s = (u, rest) \<Longrightarrow> u < 2 ^ 64"
  using wrap64_less by (auto simp: g_ascii_strtoull_def split: prod.splits if_splits)

end
