(* ===== verification/Gcr_Record.thy ===== *)
theory Gcr_Record
  imports Egg_Numerals
begin

text \<open>
  Records of delimited columns (gcr/gcr-record.c), the format of \<^verbatim>\<open>gpg --with-colons\<close>.

  A \<open>GcrRecord\<close> owns a chain of blocks and an array of 32 column pointers.  A pointer is
  \<open>Null\<close>, a string that is not owned by the record (a literal or the text of a quark), or an
  offset into a block; the blocks are counted from the oldest one, so that a pointer stays the same
  when a block is put in front of the chain.  \<open>col_text\<close> reads a pointer as a C string, and
  the reading functions are \<open>Undef\<close> where it does not point to one.

  The specification level is the list of the texts of the columns (\<open>record_abs\<close>).  Every
  operation keeps the invariant \<open>record_ok\<close> and refines the list operation it stands for;
  parsing is splitting at the delimiter and copying is the identity.  Parameters of the model: the
  quark table, UTF-8 validation, the conversion from Latin-1, base64 and the date parser of GLib.
\<close>

section \<open>Data\<close>

definition MAX_COLUMNS :: nat where
  "MAX_COLUMNS = 32"

record GcrRecordBlock =
  n_value :: nat
  bvalue :: "byte list"

datatype colptr = Null | Lit "byte list" | InBlock nat nat

record GcrRecord =
  blocks :: "GcrRecordBlock list"
  columns :: "colptr list"
  n_columns :: nat
  delimiter :: byte

text \<open>The C string a column pointer stands for; \<open>None\<close> when it does not point to one.\<close>

definition col_text :: "GcrRecordBlock list \<Rightarrow> colptr \<Rightarrow> byte list option" where
  "col_text bs p = (case p of
     Null \<Rightarrow> None
   | Lit s \<Rightarrow> (if c_string s then Some s else None)
   | InBlock k off \<Rightarrow>
       (if k < length bs \<and> 0 \<in> set (drop off (bvalue (rev bs ! k)))
        then Some (until_nul (drop off (bvalue (rev bs ! k)))) else None))"

section \<open>Blocks\<close>

text \<open>
  \<^verbatim>\<open>record_block_new\<close>; without a value the area stays uninitialised apart from its first
  octet (\<open>junk\<close>).
\<close>

definition record_block_new ::
  "(nat \<Rightarrow> byte) \<Rightarrow> byte list option \<Rightarrow> nat \<Rightarrow> GcrRecordBlock" where
  "record_block_new junk value len =
     \<lparr>n_value = len,
      bvalue = (case value of
        Some v \<Rightarrow> take len v @ [0]
      | None \<Rightarrow> 0 # map junk [0..<len])\<rparr>"

text \<open>\<^verbatim>\<open>record_block_take\<close>: the text is moved behind the fields of the block.\<close>

definition record_block_take :: "byte list \<Rightarrow> nat \<Rightarrow> GcrRecordBlock" where
  "record_block_take value len = \<lparr>n_value = len, bvalue = take len value @ [0]\<rparr>"

definition record_take_column :: "GcrRecord \<Rightarrow> nat \<Rightarrow> GcrRecordBlock \<Rightarrow> GcrRecord outcome" where
  "record_take_column rec column block =
     (let rec1 = rec\<lparr>blocks := block # blocks rec\<rparr> in
      g_assert (column < n_columns rec1)
        (Ret (rec1\<lparr>columns := (columns rec1)[column := InBlock (length (blocks rec)) 0]\<rparr>)))"

section \<open>Creation, copy, format\<close>

definition gcr_record_new ::
  "(nat \<Rightarrow> byte list option) \<Rightarrow> nat \<Rightarrow> nat \<Rightarrow> byte \<Rightarrow> GcrRecord outcome" where
  "gcr_record_new quark_to_string schema n delim =
     (if n > MAX_COLUMNS then Undef
      else
        (let cols = replicate n (Lit []) @ replicate (MAX_COLUMNS - n) Null;
             cols' = cols[0 := (case quark_to_string schema of None \<Rightarrow> Null | Some s \<Rightarrow> Lit s)]
         in Ret \<lparr>blocks = [], columns = cols', n_columns = n, delimiter = delim\<rparr>))"

definition gcr_record_get_raw :: "GcrRecord \<Rightarrow> nat \<Rightarrow> byte list option outcome" where
  "gcr_record_get_raw rec column =
     (if column \<ge> n_columns rec then Ret None
      else (case col_text (blocks rec) (columns rec ! column) of
              None \<Rightarrow> Undef
            | Some s \<Rightarrow> Ret (Some s)))"

definition gcr_record_get_count :: "GcrRecord \<Rightarrow> nat" where
  "gcr_record_get_count rec = n_columns rec"

text \<open>
  \<^verbatim>\<open>record_flatten\<close>: first the lengths are added up, then every column is copied with its
  terminator behind the one before.
\<close>

fun flatten_total :: "GcrRecordBlock list \<Rightarrow> colptr list \<Rightarrow> nat outcome" where
  "flatten_total bs [] = Ret 0"
| "flatten_total bs (p # ps) =
     (case col_text bs p of
        None \<Rightarrow> Undef
      | Some s \<Rightarrow> obind (flatten_total bs ps) (\<lambda>t. Ret (length s + 1 + t)))"

definition memcpy_at :: "nat \<Rightarrow> byte list \<Rightarrow> byte list \<Rightarrow> byte list outcome" where
  "memcpy_at at s mem =
     (if at + length s \<le> length mem then Ret (take at mem @ s @ drop (at + length s) mem) else Undef)"

fun flatten_copy ::
  "GcrRecordBlock list \<Rightarrow> colptr list \<Rightarrow> nat \<Rightarrow> byte list \<Rightarrow> (byte list \<times> colptr list \<times> nat) outcome" where
  "flatten_copy bs [] at mem = Ret (mem, [], at)"
| "flatten_copy bs (p # ps) at mem =
     (case col_text bs p of
        None \<Rightarrow> Undef
      | Some s \<Rightarrow>
          obind (memcpy_at at (s @ [0]) mem)
            (\<lambda>mem'. obind (flatten_copy bs ps (at + (length s + 1)) mem')
              (\<lambda>(mem'', cols, at'). Ret (mem'', InBlock 0 at # cols, at'))))"

definition record_flatten :: "(nat \<Rightarrow> byte) \<Rightarrow> GcrRecord \<Rightarrow> GcrRecord outcome" where
  "record_flatten junk rec =
     (let used = take (n_columns rec) (columns rec) in
      obind (flatten_total (blocks rec) used)
        (\<lambda>total. let block = record_block_new junk None total in
          obind (flatten_copy (blocks rec) used 0 (bvalue block))
            (\<lambda>(mem, cols, at).
              g_assert (at = total)
                (Ret \<lparr>blocks = [block\<lparr>bvalue := mem\<rparr>],
                      columns = cols @ replicate (MAX_COLUMNS - length cols) Null,
                      n_columns = n_columns rec, delimiter = delimiter rec\<rparr>))))"

definition gcr_record_copy :: "(nat \<Rightarrow> byte) \<Rightarrow> GcrRecord \<Rightarrow> GcrRecord outcome" where
  "gcr_record_copy junk rec = record_flatten junk rec"

text \<open>\<^verbatim>\<open>print_record_to_string\<close>, from column \<open>i\<close> on.\<close>

fun print_columns :: "GcrRecordBlock list \<Rightarrow> byte \<Rightarrow> colptr list \<Rightarrow> byte list \<Rightarrow> byte list outcome" where
  "print_columns bs delim [] str = Ret str"
| "print_columns bs delim (p # ps) str =
     (case col_text bs p of
        None \<Rightarrow> Undef
      | Some s \<Rightarrow> print_columns bs delim ps (str @ s @ [delim]))"

definition print_record_to_string :: "GcrRecord \<Rightarrow> byte list \<Rightarrow> byte list outcome" where
  "print_record_to_string rec str =
     print_columns (blocks rec) (delimiter rec) (take (n_columns rec) (columns rec)) str"

definition gcr_record_format :: "GcrRecord \<Rightarrow> byte list outcome" where
  "gcr_record_format rec = print_record_to_string rec []"

fun gcr_records_print :: "GcrRecord list \<Rightarrow> byte list \<Rightarrow> byte list outcome" where
  "gcr_records_print [] str = Ret str"
| "gcr_records_print (r # rs) str =
     obind (print_record_to_string r str) (\<lambda>str'. gcr_records_print rs (str' @ [chr CHR 0x0A]))"

definition gcr_records_format :: "GcrRecord list \<Rightarrow> byte list outcome" where
  "gcr_records_format rs = gcr_records_print rs []"

section \<open>Parsing\<close>

text \<open>
  The loop of \<^verbatim>\<open>take_and_parse_internal\<close>: the area is cut at the delimiters by writing
  terminators into it.  \<open>beg\<close> is the offset of the column; a column is counted when empty
  columns are allowed or the pointer \<open>end\<close> is behind its start.
\<close>

function parse_columns ::
  "byte \<Rightarrow> bool \<Rightarrow> nat \<Rightarrow> byte list \<Rightarrow> colptr list \<Rightarrow> nat \<Rightarrow> nat \<Rightarrow>
   (byte list \<times> colptr list \<times> nat) option outcome" where
  "parse_columns delim allow_empty nv value cols n beg =
     (if n \<ge> MAX_COLUMNS then Ret None
      else if 0 \<notin> set (drop beg value) then Undef
      else
        (let cols' = cols[n := InBlock 0 beg] in
         case strchr (until_nul (drop beg value)) delim of
           None \<Rightarrow>
             Ret (Some (value, cols', if allow_empty \<or> int nv - 1 > int beg then Suc n else n))
         | Some k \<Rightarrow>
             parse_columns delim allow_empty nv (value[beg + k := 0]) cols'
               (if allow_empty \<or> beg + k > beg then Suc n else n) (Suc (beg + k))))"
  by pat_completeness auto
termination
proof (relation "measure (\<lambda>(_, _, _, value, _, _, beg). length value - beg)", goal_cases)
  case 1
  show ?case by simp
next
  case (2 delim allow_empty nv buf cols n beg x k)
  then have "drop beg buf \<noteq> []" by (metis empty_iff list.set(1))
  then show ?case by simp
qed

declare parse_columns.simps [simp del]

definition take_and_parse_internal ::
  "GcrRecordBlock \<Rightarrow> byte \<Rightarrow> bool \<Rightarrow> GcrRecord option outcome" where
  "take_and_parse_internal block delim allow_empty =
     obind (parse_columns delim allow_empty (n_value block) (bvalue block)
              (replicate MAX_COLUMNS Null) 0 0)
       (\<lambda>r. Ret (case r of
          None \<Rightarrow> None
        | Some (value, cols, n) \<Rightarrow>
            Some \<lparr>blocks = [block\<lparr>bvalue := value\<rparr>], columns = cols, n_columns = n,
                  delimiter = delim\<rparr>))"

text \<open>
  The line is the memory at the pointer; a negative length means up to the terminator.
\<close>

definition line_length :: "byte list \<Rightarrow> int \<Rightarrow> nat" where
  "line_length line n_line = (if n_line < 0 then length (until_nul line) else nat n_line)"

definition gcr_record_parse_colons :: "byte list \<Rightarrow> int \<Rightarrow> GcrRecord option outcome" where
  "gcr_record_parse_colons line n_line =
     (let n = line_length line n_line in
      if n > length line then Undef
      else take_and_parse_internal (record_block_new (\<lambda>_. 0) (Some line) n) (chr CHR '':'') True)"

definition gcr_record_parse_spaces :: "byte list \<Rightarrow> int \<Rightarrow> GcrRecord option outcome" where
  "gcr_record_parse_spaces line n_line =
     (let n = line_length line n_line in
      if n > length line then Undef
      else take_and_parse_internal (record_block_new (\<lambda>_. 0) (Some line) n) (chr CHR '' '') False)"

text \<open>
  \<^verbatim>\<open>strnsplit\<close>.  \<open>g_strndup\<close> stops at a terminator.  The rest behind the last
  delimiter is a line when the first octet of the whole text is not NUL; that octet is read even
  when the length is zero.
\<close>

function strnsplit_loop :: "byte list \<Rightarrow> byte \<Rightarrow> byte list list \<Rightarrow> byte list \<times> byte list list" where
  "strnsplit_loop remainder delim acc =
     (case memchr remainder delim of
        None \<Rightarrow> (remainder, acc)
      | Some len \<Rightarrow>
          strnsplit_loop (drop (Suc len) remainder) delim (acc @ [until_nul (take len remainder)]))"
  by pat_completeness auto
termination
  by (relation "measure (\<lambda>(r, _, _). length r)") (auto simp: memchr_Some_iff)

declare strnsplit_loop.simps [simp del]

definition strnsplit :: "byte list \<Rightarrow> nat \<Rightarrow> byte \<Rightarrow> byte list list outcome" where
  "strnsplit str len delim =
     (if len > length str \<or> str = [] then Undef
      else
        (case strnsplit_loop (take len str) delim [] of
           (remainder, acc) \<Rightarrow> Ret (if hd str \<noteq> 0 then acc @ [until_nul remainder] else acc)))"

text \<open>
  The loop over the lines.  The record of a line takes over the memory of the line; when the line is
  refused (it has more columns than a record can hold) that memory is released with the record, and
  the loop that frees what was not done starts at this line again and releases it a second time:
  undefined behaviour.
\<close>

fun parse_lines :: "byte list list \<Rightarrow> GcrRecord list \<Rightarrow> GcrRecord list option outcome" where
  "parse_lines [] result = Ret (Some result)"
| "parse_lines (l # ls) result =
     obind (take_and_parse_internal (record_block_take l (length l)) (chr CHR '':'') True)
       (\<lambda>r. case r of None \<Rightarrow> Undef | Some rec \<Rightarrow> parse_lines ls (result @ [rec]))"

text \<open>The length is passed on without the test for -1 the parsers of one line have.\<close>

definition gcr_records_parse_colons :: "byte list \<Rightarrow> int \<Rightarrow> GcrRecord list option outcome" where
  "gcr_records_parse_colons data n_data =
     (if n_data < 0 then Undef
      else obind (strnsplit data (nat n_data) (chr CHR 0x0A)) (\<lambda>lines. parse_lines lines []))"

section \<open>Escapes\<close>

definition HEXC_LOWER :: "byte list" where
  "HEXC_LOWER = cstr ''0123456789abcdef''"

text \<open>The \<^verbatim>\<open>while\<close> loops over octal and hexadecimal digits; \<open>q\<close> is the octet built.\<close>

fun unescape_octal :: "nat \<Rightarrow> byte \<Rightarrow> byte list \<Rightarrow> byte \<times> byte list" where
  "unescape_octal 0 q p = (q, p)"
| "unescape_octal (Suc k) q [] = (q, [])"
| "unescape_octal (Suc k) q (c # p) =
     (if chr CHR ''0'' \<le> c \<and> c \<le> chr CHR ''7'' then unescape_octal k (q * 8 + (c - chr CHR ''0'')) p
      else (q, c # p))"

fun unescape_hex :: "nat \<Rightarrow> byte \<Rightarrow> byte list \<Rightarrow> (byte \<times> byte list) option" where
  "unescape_hex 0 q p = Some (q, p)"
| "unescape_hex (Suc k) q p =
     (let c = (case p of [] \<Rightarrow> 0 | c # _ \<Rightarrow> c) in
      case strchr HEXC_LOWER (g_ascii_tolower c) of
        None \<Rightarrow> None
      | Some pos \<Rightarrow> unescape_hex k (q * 16 + of_nat pos) (drop 1 p))"

definition unescape_char :: "byte \<Rightarrow> byte" where
  "unescape_char e =
     (if e = chr CHR ''b'' then 8 else if e = chr CHR ''f'' then 12
      else if e = chr CHR ''n'' then 10 else if e = chr CHR ''r'' then 13
      else if e = chr CHR ''t'' then 9 else e)"

lemma unescape_octal_length: "length (snd (unescape_octal k q p)) \<le> length p"
  by (induction k q p rule: unescape_octal.induct) auto

lemma unescape_hex_length: "unescape_hex k q p = Some (b, r) \<Longrightarrow> length r \<le> length p"
  by (induction k q p rule: unescape_hex.induct)
    (force simp: Let_def split: option.splits list.splits)+

text \<open>
  The loop of \<^verbatim>\<open>c_colons_unescape\<close>: \<open>pre\<close> is the source before \<open>p\<close>, which is
  copied at the first escape; \<open>dest\<close> is the text written so far.  In the case \<open>x\<close> the
  digits are read from \<open>hex = p\<close> on, where \<open>p\<close> is at the letter itself.
\<close>

function unescape_loop :: "byte list \<Rightarrow> byte list option \<Rightarrow> byte list \<Rightarrow> byte list option" where
  "unescape_loop pre dest [] = dest"
| "unescape_loop pre dest (c # p) =
     (if c = chr CHR 0x5C then
        (let q = (case dest of None \<Rightarrow> pre | Some q \<Rightarrow> q) in
         case p of
           [] \<Rightarrow> None
         | e # r \<Rightarrow>
             if chr CHR ''0'' \<le> e \<and> e \<le> chr CHR ''7'' then
               (case unescape_octal 3 0 (e # r) of (b, rest) \<Rightarrow> unescape_loop pre (Some (q @ [b])) rest)
             else if e = chr CHR ''x'' then
               (case unescape_hex 2 0 (e # r) of
                  None \<Rightarrow> None
                | Some (b, rest) \<Rightarrow> unescape_loop pre (Some (q @ [b])) rest)
             else unescape_loop pre (Some (q @ [unescape_char e])) r)
      else unescape_loop (pre @ [c]) (map_option (\<lambda>q. q @ [c]) dest) p)"
  by pat_completeness auto
termination
proof (relation "measure (\<lambda>(_, _, p). length p)", goal_cases)
  case (2 pre dest c p x e r b rest)
  then have "length rest \<le> length (e # r)"
    by (metis snd_conv unescape_octal_length)
  with 2 show ?case by simp
next
  case (3 pre dest c p x e r y b rest)
  then have "length rest \<le> length (e # r)"
    by (metis unescape_hex_length)
  with 3 show ?case by simp
qed auto

definition c_colons_unescape :: "byte list \<Rightarrow> byte list option" where
  "c_colons_unescape source = unescape_loop [] None source"

definition escape_letter :: "byte \<Rightarrow> byte" where
  "escape_letter c =
     (if c = 8 then chr CHR ''b'' else if c = 12 then chr CHR ''f''
      else if c = 10 then chr CHR ''n'' else if c = 13 then chr CHR ''r''
      else if c = 9 then chr CHR ''t'' else if c = chr CHR 0x5C then chr CHR 0x5C
      else if c = chr CHR 0x22 then chr CHR 0x22 else 0)"

text \<open>
  The condition for an escape.  \<open>*p\<close> is unsigned and is compared with the signed
  \<open>extra\<close> as an \<open>int\<close>.
\<close>

definition escape_needed :: "byte \<Rightarrow> byte \<Rightarrow> bool" where
  "escape_needed extra c \<longleftrightarrow>
     escape_letter c \<noteq> 0 \<or> c < chr CHR '' '' \<or> unat c \<ge> 0x127 \<or> int (unat c) = sint extra"

fun escape_loop :: "byte \<Rightarrow> byte list \<Rightarrow> byte list option \<Rightarrow> byte list \<Rightarrow> byte list option" where
  "escape_loop extra pre dest [] = dest"
| "escape_loop extra pre dest (c # p) =
     (if escape_needed extra c then
        (let q = (case dest of None \<Rightarrow> pre | Some q \<Rightarrow> q);
             q' = (if escape_letter c \<noteq> 0 then q @ [chr CHR 0x5C, escape_letter c]
                   else q @ [chr CHR 0x5C, chr CHR ''x'', HEXC_LOWER ! unat (drop_bit 4 c AND 0xf),
                             HEXC_LOWER ! unat (c AND 0xf)])
         in escape_loop extra (pre @ [c]) (Some q') p)
      else escape_loop extra (pre @ [c]) (map_option (\<lambda>q. q @ [c]) dest) p)"

definition c_colons_escape :: "byte list \<Rightarrow> byte \<Rightarrow> byte list option" where
  "c_colons_escape source extra = escape_loop extra [] None source"

text \<open>A \<^verbatim>\<open>guint64\<close> stored in a \<^verbatim>\<open>gint64\<close>.\<close>

definition as_int64 :: "nat \<Rightarrow> int" where
  "as_int64 n = (if n < 2 ^ 63 then int n else int n - 2 ^ 64)"

section \<open>Columns\<close>

definition gcr_record_get_string ::
  "(byte list \<Rightarrow> bool) \<Rightarrow> (byte list \<Rightarrow> byte list option) \<Rightarrow> GcrRecord \<Rightarrow> nat \<Rightarrow> byte list option outcome" where
  "gcr_record_get_string utf8_validate convert rec column =
     obind (gcr_record_get_raw rec column)
       (\<lambda>r. case r of
          None \<Rightarrow> Ret None
        | Some raw \<Rightarrow>
            (let value = (case c_colons_unescape raw of None \<Rightarrow> raw | Some text \<Rightarrow> until_nul text)
             in Ret (if \<not> utf8_validate value then convert value else Some value)))"

definition gcr_record_set_string :: "GcrRecord \<Rightarrow> nat \<Rightarrow> byte list \<Rightarrow> GcrRecord outcome" where
  "gcr_record_set_string rec column str =
     (if column < n_columns rec then
        record_take_column rec column
          (case c_colons_escape str (delimiter rec) of
             Some escaped \<Rightarrow> record_block_take escaped (length escaped)
           | None \<Rightarrow> record_block_new (\<lambda>_. 0) (Some str) (length str))
      else Ret rec)"

definition gcr_record_get_char :: "GcrRecord \<Rightarrow> nat \<Rightarrow> byte outcome" where
  "gcr_record_get_char rec column =
     obind (gcr_record_get_raw rec column)
       (\<lambda>r. Ret (case r of Some [c] \<Rightarrow> c | _ \<Rightarrow> 0))"

definition gcr_record_set_char :: "GcrRecord \<Rightarrow> nat \<Rightarrow> byte \<Rightarrow> GcrRecord outcome" where
  "gcr_record_set_char rec column c =
     (if column < n_columns rec \<and> c \<noteq> 0 then
        record_take_column rec column (record_block_new (\<lambda>_. 0) (Some [c]) 1)
      else Ret rec)"

definition gcr_record_get_uint :: "GcrRecord \<Rightarrow> nat \<Rightarrow> nat option outcome" where
  "gcr_record_get_uint rec column =
     obind (gcr_record_get_raw rec column)
       (\<lambda>r. case r of
          None \<Rightarrow> Ret None
        | Some raw \<Rightarrow>
            (case g_ascii_strtoll raw of (result, rest) \<Rightarrow>
               Ret (if rest \<noteq> [] then None
                    else if result < 0 \<or> result > 2 ^ 32 - 1 then None
                    else Some (wrap32 (nat result)))))"

definition gcr_record_set_uint :: "GcrRecord \<Rightarrow> nat \<Rightarrow> nat \<Rightarrow> GcrRecord outcome" where
  "gcr_record_set_uint rec column v =
     (if column < n_columns rec then
        (let escaped = print_unsigned v in
         record_take_column rec column (record_block_take escaped (length escaped)))
      else Ret rec)"

text \<open>
  The comparison with \<^verbatim>\<open>G_MAXULONG\<close> is one of unsigned numbers; the result passes through
  a \<^verbatim>\<open>guint\<close>.
\<close>

definition gcr_record_get_ulong :: "GcrRecord \<Rightarrow> nat \<Rightarrow> nat option outcome" where
  "gcr_record_get_ulong rec column =
     obind (gcr_record_get_raw rec column)
       (\<lambda>r. case r of
          None \<Rightarrow> Ret None
        | Some raw \<Rightarrow>
            (case g_ascii_strtoull raw of (u, rest) \<Rightarrow>
               (let result = as_int64 u in
                Ret (if rest \<noteq> [] then None
                     else if result < 0 \<or> nat (result mod 2 ^ 64) > 2 ^ 64 - 1 then None
                     else Some (wrap32 (nat result))))))"

definition gcr_record_set_ulong :: "GcrRecord \<Rightarrow> nat \<Rightarrow> nat \<Rightarrow> GcrRecord outcome" where
  "gcr_record_set_ulong rec column v =
     (if column < n_columns rec then
        (let escaped = print_unsigned v in
         record_take_column rec column (record_block_take escaped (length escaped)))
      else Ret rec)"

definition gcr_record_get_date ::
  "(nat \<Rightarrow> 'd option) \<Rightarrow> (byte list \<Rightarrow> 'd option) \<Rightarrow> GcrRecord \<Rightarrow> nat \<Rightarrow> 'd option outcome" where
  "gcr_record_get_date from_unix_utc from_iso8601 rec column =
     obind (gcr_record_get_raw rec column)
       (\<lambda>r. case r of
          None \<Rightarrow> Ret None
        | Some raw \<Rightarrow>
            (case g_ascii_strtoull raw of (result, rest) \<Rightarrow>
               Ret (if rest = [] then (if result = 0 then None else from_unix_utc result)
                    else from_iso8601 raw)))"

definition gcr_record_get_base64 ::
  "(byte list \<Rightarrow> byte list) \<Rightarrow> GcrRecord \<Rightarrow> nat \<Rightarrow> byte list option outcome" where
  "gcr_record_get_base64 base64_decode rec column =
     obind (gcr_record_get_raw rec column) (\<lambda>r. Ret (map_option base64_decode r))"

text \<open>\<^verbatim>\<open>g_strchomp\<close>: trailing white space is overwritten with NUL.\<close>

definition g_strchomp :: "byte list \<Rightarrow> byte list" where
  "g_strchomp mem =
     (let text = until_nul mem;
          kept = rev (dropWhile g_ascii_isspace (rev text))
      in kept @ replicate (length text - length kept) 0 @ drop (length text) mem)"

definition gcr_record_set_base64 ::
  "(byte list \<Rightarrow> byte list \<times> 's) \<Rightarrow> ('s \<Rightarrow> byte list) \<Rightarrow> (nat \<Rightarrow> byte) \<Rightarrow>
   GcrRecord \<Rightarrow> nat \<Rightarrow> byte list \<Rightarrow> GcrRecord outcome" where
  "gcr_record_set_base64 encode_step encode_close junk rec column data =
     (if column < n_columns rec then
        (let n_data = length data;
             estimate = wrap64 (wrap64 (n_data * 4) div 3 + wrap64 (n_data * 4) div (3 * 65) + 7);
             block = record_block_new junk None estimate;
             (body, st) = encode_step data
         in obind (memcpy_at 0 body (bvalue block))
              (\<lambda>m1. obind (memcpy_at (length body) (encode_close st) m1)
                (\<lambda>m2. let len = length body + length (encode_close st) in
                  obind (memcpy_at len [0] m2)
                    (\<lambda>m3. g_assert (len < estimate)
                      (record_take_column rec column (block\<lparr>bvalue := g_strchomp m3\<rparr>))))))
      else Ret rec)"

definition gcr_record_set_raw :: "GcrRecord \<Rightarrow> nat \<Rightarrow> byte list \<Rightarrow> GcrRecord outcome" where
  "gcr_record_set_raw rec column v =
     (if column < n_columns rec then
        record_take_column rec column (record_block_new (\<lambda>_. 0) (Some v) (length v))
      else Ret rec)"

definition gcr_record_take_raw :: "GcrRecord \<Rightarrow> nat \<Rightarrow> byte list \<Rightarrow> GcrRecord outcome" where
  "gcr_record_take_raw rec column v =
     (if column < n_columns rec then
        record_take_column rec column (record_block_take v (length v))
      else Ret rec)"

definition gcr_record_get_schema :: "(byte list \<Rightarrow> nat) \<Rightarrow> GcrRecord \<Rightarrow> nat outcome" where
  "gcr_record_get_schema quark_try_string rec =
     obind (gcr_record_get_raw rec 0)
       (\<lambda>r. Ret (case r of Some v \<Rightarrow> quark_try_string v | None \<Rightarrow> 0))"

fun gcr_records_find_loop ::
  "(byte list \<Rightarrow> nat) \<Rightarrow> GcrRecord list \<Rightarrow> nat \<Rightarrow> GcrRecord option outcome" where
  "gcr_records_find_loop quark_try_string [] schema = Ret None"
| "gcr_records_find_loop quark_try_string (r # rs) schema =
     obind (gcr_record_get_schema quark_try_string r)
       (\<lambda>q. if schema = q then Ret (Some r) else gcr_records_find_loop quark_try_string rs schema)"

definition gcr_records_find ::
  "(byte list \<Rightarrow> nat) \<Rightarrow> GcrRecord list \<Rightarrow> nat \<Rightarrow> GcrRecord option outcome" where
  "gcr_records_find quark_try_string rs schema =
     (if schema \<noteq> 0 then gcr_records_find_loop quark_try_string rs schema else Ret None)"

text \<open>Releasing a record: the blocks handed to \<^verbatim>\<open>g_free\<close>, in their order.\<close>

fun free_blocks :: "GcrRecordBlock list \<Rightarrow> GcrRecordBlock list \<Rightarrow> GcrRecordBlock list" where
  "free_blocks freed [] = freed"
| "free_blocks freed (block # rest) = free_blocks (freed @ [block]) rest"

definition gcr_record_free :: "GcrRecord option \<Rightarrow> GcrRecordBlock list" where
  "gcr_record_free rec = (case rec of None \<Rightarrow> [] | Some r \<Rightarrow> free_blocks [] (blocks r))"

section \<open>The invariant and the specification level\<close>

definition record_texts :: "GcrRecord \<Rightarrow> byte list option list" where
  "record_texts rec = map (col_text (blocks rec)) (take (n_columns rec) (columns rec))"

text \<open>The texts of the columns.\<close>

definition record_abs :: "GcrRecord \<Rightarrow> byte list list" where
  "record_abs rec = map the (record_texts rec)"

text \<open>The array has its size and every column points to a terminated string in the record.\<close>

definition record_ok :: "GcrRecord \<Rightarrow> bool" where
  "record_ok rec \<longleftrightarrow>
     length (columns rec) = MAX_COLUMNS \<and> n_columns rec \<le> MAX_COLUMNS \<and> None \<notin> set (record_texts rec)"

text \<open>\<open>rec'\<close> is the record with the text of column \<open>c\<close> replaced.\<close>

definition column_updated :: "GcrRecord \<Rightarrow> GcrRecord \<Rightarrow> nat \<Rightarrow> byte list \<Rightarrow> bool" where
  "column_updated rec rec' c text \<longleftrightarrow>
     record_ok rec' \<and> n_columns rec' = n_columns rec \<and> delimiter rec' = delimiter rec \<and>
     record_abs rec' = (record_abs rec)[c := text]"

lemma col_text_c_string: "col_text bs p = Some s \<Longrightarrow> c_string s"
  by (auto simp: col_text_def split: colptr.splits if_splits)

lemma col_text_newer: "col_text bs p \<noteq> None \<Longrightarrow> col_text (b # bs) p = col_text bs p"
  by (auto simp: col_text_def nth_append split: colptr.splits if_splits)

lemma record_texts_abs:
  assumes "record_ok rec"
  shows "record_texts rec = map Some (record_abs rec)"
proof -
  have "map Some (map the ts) = ts" if "None \<notin> set ts" for ts :: "byte list option list"
    using that by (induction ts) auto
  with assms show ?thesis by (simp add: record_ok_def record_abs_def)
qed

lemma length_record_abs [simp]: "record_ok rec \<Longrightarrow> length (record_abs rec) = n_columns rec"
  by (simp add: record_abs_def record_texts_def record_ok_def)

lemma record_column_text:
  assumes "record_ok rec" and "c < n_columns rec"
  shows "col_text (blocks rec) (columns rec ! c) = Some (record_abs rec ! c)"
proof -
  have "record_texts rec ! c = Some (record_abs rec ! c)"
    using assms by (simp add: record_texts_abs)
  then show ?thesis using assms by (simp add: record_texts_def record_ok_def)
qed

lemma record_abs_c_string: "record_ok rec \<Longrightarrow> s \<in> set (record_abs rec) \<Longrightarrow> c_string s"
  by (metis col_text_c_string in_set_conv_nth length_record_abs record_column_text)

lemma gcr_record_get_raw_ok:
  "record_ok rec \<Longrightarrow>
   gcr_record_get_raw rec c = Ret (if c < n_columns rec then Some (record_abs rec ! c) else None)"
  by (simp add: gcr_record_get_raw_def record_column_text)

lemma record_okI:
  "length (columns rec) = MAX_COLUMNS \<Longrightarrow> n_columns rec \<le> MAX_COLUMNS \<Longrightarrow>
   record_texts rec = map Some ts \<Longrightarrow> record_ok rec \<and> record_abs rec = ts"
  by (auto simp: record_ok_def record_abs_def comp_def)

lemma column_updated_ok: "column_updated rec rec' c t \<Longrightarrow> record_ok rec'"
  by (simp add: column_updated_def)

lemma record_take_column_updates:
  assumes "record_ok rec" and "c < n_columns rec" and "0 \<in> set (bvalue b)"
  shows "\<exists>rec'. record_take_column rec c b = Ret rec' \<and>
           column_updated rec rec' c (until_nul (bvalue b))"
proof -
  let ?rec' = "rec\<lparr>blocks := b # blocks rec, columns := (columns rec)[c := InBlock (length (blocks rec)) 0]\<rparr>"
  have new: "col_text (b # blocks rec) (InBlock (length (blocks rec)) 0) = Some (until_nul (bvalue b))"
    using assms(3) by (simp add: col_text_def nth_append)
  have "record_texts ?rec' = (map Some (record_abs rec))[c := Some (until_nul (bvalue b))]"
  proof (rule nth_equalityI)
    show "length (record_texts ?rec') = length ((map Some (record_abs rec))[c := Some (until_nul (bvalue b))])"
      using assms(1) by (simp add: record_texts_def record_ok_def record_abs_def)
    fix i
    assume "i < length (record_texts ?rec')"
    then have i: "i < n_columns rec" "i < length (columns rec)"
      using assms(1) by (auto simp: record_texts_def record_ok_def)
    then have "col_text (blocks rec) (columns rec ! i) = Some (record_abs rec ! i)"
      using assms(1) by (simp add: record_column_text)
    then show "record_texts ?rec' ! i = (map Some (record_abs rec))[c := Some (until_nul (bvalue b))] ! i"
      using i assms(1) new
      by (cases "i = c") (simp_all add: record_texts_def col_text_newer nth_list_update)
  qed
  then have texts: "record_texts ?rec' = map Some ((record_abs rec)[c := until_nul (bvalue b)])"
    by (simp add: map_update)
  then have "record_abs ?rec' = (record_abs rec)[c := until_nul (bvalue b)]"
    by (simp add: record_abs_def [of ?rec'] comp_def)
  with texts have "column_updated rec ?rec' c (until_nul (bvalue b))"
    using assms(1) by (auto simp: column_updated_def record_ok_def)
  then show ?thesis
    using assms(2) by (auto simp: record_take_column_def Let_def)
qed

lemma until_nul_terminated [simp]: "c_string s \<Longrightarrow> until_nul (s @ 0 # t) = s"
  by (auto simp: until_nul_def c_string_def intro!: takeWhile_append_stop)

lemma until_nul_split:
  assumes "0 \<in> set s"
  shows "\<exists>t. s = until_nul s @ 0 # t"
proof -
  obtain as bs where "s = as @ 0 # bs" "0 \<notin> set as"
    using assms split_list_first by metis
  then show ?thesis by (simp add: c_string_def)
qed

text \<open>The block a text is put into.\<close>

lemma record_block_text [simp]:
  "c_string s \<Longrightarrow> until_nul (bvalue (record_block_new junk (Some s) (length s))) = s"
  "c_string s \<Longrightarrow> until_nul (bvalue (record_block_take s (length s))) = s"
  "0 \<in> set (bvalue (record_block_new junk (Some s) n))"
  "0 \<in> set (bvalue (record_block_take s n))"
  by (simp_all add: record_block_new_def record_block_take_def)

section \<open>Consecutive strings in one block\<close>

text \<open>
  The strings \<open>ts\<close> laid out one behind the other, and the offsets they have from \<open>at\<close> on:
  the layout of both a copied and a parsed record.
\<close>

definition laid_out :: "byte list list \<Rightarrow> byte list" where
  "laid_out ts = concat (map (\<lambda>t. t @ [0]) ts)"

fun offs :: "nat \<Rightarrow> byte list list \<Rightarrow> nat list" where
  "offs at [] = []"
| "offs at (t # ts) = at # offs (at + (length t + 1)) ts"

lemma laid_out_simps [simp]:
  "laid_out [] = []" "laid_out (t # ts) = t @ 0 # laid_out ts"
  by (simp_all add: laid_out_def)

lemma length_offs [simp]: "length (offs at ts) = length ts"
  by (induction ts arbitrary: at) auto

lemma laid_out_text:
  assumes "bvalue b = pre @ laid_out ts @ post" and "list_all c_string ts"
    and "(off, t) \<in> set (zip (offs (length pre) ts) ts)"
  shows "col_text [b] (InBlock 0 off) = Some t"
  using assms
proof (induction ts arbitrary: pre)
  case Nil
  then show ?case by simp
next
  case (Cons u ts)
  show ?case
  proof (cases "(off, t) = (length pre, u)")
    case True
    with Cons.prems show ?thesis by (simp add: col_text_def)
  next
    case False
    with Cons.prems have "(off, t) \<in> set (zip (offs (length (pre @ u @ [0])) ts) ts)"
      by (auto simp: algebra_simps)
    moreover have "bvalue b = (pre @ u @ [0]) @ laid_out ts @ post" using Cons.prems by simp
    ultimately show ?thesis using Cons.IH [of "pre @ u @ [0]"] Cons.prems by simp
  qed
qed

section \<open>Copying\<close>

lemma flatten_total_ok:
  "map (col_text bs) ps = map Some ts \<Longrightarrow> flatten_total bs ps = Ret (length (laid_out ts))"
  by (induction ps arbitrary: ts) (auto simp: Cons_eq_map_conv)

lemma flatten_copy_ok:
  assumes "map (col_text bs) ps = map Some ts" and "length mem = length (laid_out ts) + length post"
  shows "\<exists>post'. length post' = length post \<and>
     flatten_copy bs ps (length pre) (pre @ mem) =
       Ret (pre @ laid_out ts @ post', map (InBlock 0) (offs (length pre) ts),
            length pre + length (laid_out ts))"
  using assms
proof (induction ps arbitrary: ts pre mem)
  case Nil
  then show ?case by auto
next
  case (Cons p ps)
  then obtain t ts' where ts: "ts = t # ts'" and t: "col_text bs p = Some t"
    and rest: "map (col_text bs) ps = map Some ts'" by (auto simp: Cons_eq_map_conv)
  let ?mem = "drop (length t + 1) mem"
  have "length ?mem = length (laid_out ts') + length post" using Cons.prems(2) ts by simp
  from Cons.IH [OF rest this, of "pre @ t @ [0]"] obtain post' where
    "length post' = length post"
    "flatten_copy bs ps (length pre + (length t + 1)) (pre @ t @ 0 # ?mem) =
       Ret (pre @ t @ 0 # laid_out ts' @ post', map (InBlock 0) (offs (length pre + (length t + 1)) ts'),
            length pre + length (laid_out ts))"
    using ts by (auto simp: algebra_simps)
  moreover have "memcpy_at (length pre) (t @ [0]) (pre @ mem) = Ret (pre @ t @ 0 # ?mem)"
    using Cons.prems(2) ts by (simp add: memcpy_at_def)
  ultimately show ?case using t ts by auto
qed

lemma texts_of_offsets:
  assumes "bvalue b = pre @ laid_out ts @ post" and "list_all c_string ts"
  shows "map (col_text [b]) (map (InBlock 0) (offs (length pre) ts)) = map Some ts"
proof (rule nth_equalityI)
  fix i
  assume "i < length (map (col_text [b]) (map (InBlock 0) (offs (length pre) ts)))"
  then have i: "i < length ts" by simp
  then have "(offs (length pre) ts ! i, ts ! i) \<in> set (zip (offs (length pre) ts) ts)"
    by (auto simp: set_zip)
  from laid_out_text [OF assms this] i
  show "map (col_text [b]) (map (InBlock 0) (offs (length pre) ts)) ! i = map Some ts ! i" by simp
qed simp

lemma record_flatten_ok:
  assumes "record_ok rec"
  shows "\<exists>rec'. record_flatten junk rec = Ret rec' \<and> record_ok rec' \<and>
     record_abs rec' = record_abs rec \<and> delimiter rec' = delimiter rec \<and> length (blocks rec') = 1"
proof -
  let ?ps = "take (n_columns rec) (columns rec)" and ?ts = "record_abs rec"
  have texts: "map (col_text (blocks rec)) ?ps = map Some ?ts"
    using record_texts_abs [OF assms] by (simp add: record_texts_def)
  have cs: "list_all c_string ?ts" using record_abs_c_string [OF assms] by (simp add: list_all_iff)
  let ?total = "length (laid_out ?ts)"
  let ?b = "record_block_new junk None ?total"
  have "length (bvalue ?b) = ?total + length [0 :: byte]" by (simp add: record_block_new_def)
  from flatten_copy_ok [OF texts this, of "[]"] obtain post where
    copy: "flatten_copy (blocks rec) ?ps 0 (bvalue ?b) =
       Ret (laid_out ?ts @ post, map (InBlock 0) (offs 0 ?ts), ?total)" by auto
  let ?b' = "?b\<lparr>bvalue := laid_out ?ts @ post\<rparr>"
  let ?rec' = "\<lparr>blocks = [?b'],
      columns = map (InBlock 0) (offs 0 ?ts) @ replicate (MAX_COLUMNS - length ?ts) Null,
      n_columns = n_columns rec, delimiter = delimiter rec\<rparr>"
  have texts': "record_texts ?rec' = map Some ?ts"
    using texts_of_offsets [of ?b' "[]" ?ts post] cs assms by (simp add: record_texts_def)
  have "record_ok ?rec' \<and> record_abs ?rec' = ?ts"
    by (rule record_okI [OF _ _ texts']) (use assms in \<open>simp_all add: record_ok_def [of rec]\<close>)
  moreover have "record_flatten junk rec = Ret ?rec'"
    using copy flatten_total_ok [OF texts] by (simp add: record_flatten_def Let_def)
  ultimately show ?thesis by simp
qed

section \<open>The layout of fields\<close>

lemma split_fields_laid_out: "laid_out (split_fields d s) = map (\<lambda>b. if b = d then 0 else b) s @ [0]"
proof (induction s)
  case Nil
  then show ?case by simp
next
  case (Cons c s)
  then show ?case
    by (cases "split_fields d s") auto
qed

section \<open>Parsing is splitting\<close>

text \<open>
  Which of the fields become columns, with their offsets, and whether the loop gives up because
  there are already 32 columns.
\<close>

fun kept :: "bool \<Rightarrow> nat \<Rightarrow> nat \<Rightarrow> byte list list \<Rightarrow> (nat \<times> byte list) list" where
  "kept ae nv beg [] = []"
| "kept ae nv beg [f] = (if ae \<or> int nv - 1 > int beg then [(beg, f)] else [])"
| "kept ae nv beg (f # g # fs) =
     (if ae \<or> f \<noteq> [] then [(beg, f)] else []) @ kept ae nv (beg + (length f + 1)) (g # fs)"

fun too_many :: "bool \<Rightarrow> nat \<Rightarrow> byte list list \<Rightarrow> bool" where
  "too_many ae n [] = False"
| "too_many ae n [f] = (n \<ge> MAX_COLUMNS)"
| "too_many ae n (f # g # fs) =
     (n \<ge> MAX_COLUMNS \<or> too_many ae (if ae \<or> f \<noteq> [] then Suc n else n) (g # fs))"

lemma kept_subset: "set (kept ae nv beg fs) \<subseteq> set (zip (offs beg fs) fs)"
proof (induction ae nv beg fs rule: kept.induct)
  case (3 ae nv beg f g fs)
  then have "set (kept ae nv (beg + (length f + 1)) (g # fs)) \<subseteq> set (zip (offs beg (f # g # fs)) (f # g # fs))"
    by (simp only: offs.simps zip_Cons_Cons list.set) blast
  then show ?case by auto
qed auto

lemma kept_allow_empty: "map snd (kept True nv beg fs) = fs"
  by (induction True nv beg fs rule: kept.induct) simp_all

lemma too_many_allow_empty:
  "fs \<noteq> [] \<Longrightarrow> n \<le> MAX_COLUMNS \<Longrightarrow> too_many True n fs \<longleftrightarrow> n + length fs > MAX_COLUMNS"
proof (induction True n fs rule: too_many.induct)
  case (3 n f g fs)
  then show ?case by (cases "n = MAX_COLUMNS") auto
qed auto

lemma kept_nonempty:
  assumes "fs \<noteq> []" and "Suc nv = beg + length (laid_out fs)"
  shows "map snd (kept False nv beg fs) =
     filter (\<lambda>f. f \<noteq> []) (butlast fs) @ (if length (last fs) > 1 then [last fs] else [])"
  using assms by (induction False nv beg fs rule: kept.induct) auto

lemma too_many_nonempty:
  "fs \<noteq> [] \<Longrightarrow>
   too_many False n fs \<longleftrightarrow> n + length (filter (\<lambda>f. f \<noteq> []) (butlast fs)) \<ge> MAX_COLUMNS"
  by (induction False n fs rule: too_many.induct) auto

lemma strchr_in: "c_string f \<Longrightarrow> d \<noteq> 0 \<Longrightarrow> d \<notin> set f \<Longrightarrow> strchr (f @ d # s) d = Some (length f)"
  by (simp add: strchr_def memchr_append)

lemma strchr_not_in: "d \<noteq> 0 \<Longrightarrow> d \<notin> set s \<Longrightarrow> strchr s d = None"
  by (simp add: strchr_def)

lemma parse_columns_ok:
  assumes "c_string s" and "d \<noteq> 0" and "length cols = MAX_COLUMNS" and "n \<le> MAX_COLUMNS"
  shows "\<exists>cols'. parse_columns d ae nv (pre @ s @ 0 # post) cols n (length pre) =
       Ret (if too_many ae n (split_fields d s) then None
            else Some (pre @ laid_out (split_fields d s) @ post, cols',
                       n + length (kept ae nv (length pre) (split_fields d s)))) \<and>
     (\<not> too_many ae n (split_fields d s) \<longrightarrow>
       length cols' = MAX_COLUMNS \<and> n + length (kept ae nv (length pre) (split_fields d s)) \<le> MAX_COLUMNS \<and>
       take (n + length (kept ae nv (length pre) (split_fields d s))) cols' =
       take n cols @ map (InBlock 0 \<circ> fst) (kept ae nv (length pre) (split_fields d s)))"
  using assms
proof (induction "length s" arbitrary: s pre cols n rule: less_induct)
  case less
  show ?case
  proof (cases "n \<ge> MAX_COLUMNS")
    case True
    then have "too_many ae n (split_fields d s)" by (cases "split_fields d s" rule: list.exhaust; cases "tl (split_fields d s)") auto
    with True show ?thesis by (subst parse_columns.simps) simp
  next
    case n: False
    show ?thesis
    proof (cases "d \<in> set s")
      case False
      with n less.prems show ?thesis
        by (subst parse_columns.simps)
          (auto simp: split_fields_no_delim strchr_not_in take_Suc_conv_app_nth Let_def)
    next
      case True
      then obtain f s' where s: "s = f @ d # s'" and f: "d \<notin> set f" by (meson split_list_first)
      obtain g fs where gfs: "split_fields d s' = g # fs" by (cases "split_fields d s'") auto
      define n' where "n' = (if ae \<or> f \<noteq> [] then Suc n else n)"
      let ?cols = "cols[n := InBlock 0 (length pre)]" and ?pre = "pre @ f @ [0]"
      have "until_nul (drop (length pre) (pre @ s @ 0 # post)) = s"
        using less.prems(1) by simp
      moreover have "strchr s d = Some (length f)"
        using less.prems s f by (simp add: strchr_in)
      moreover have "(pre @ s @ 0 # post)[length pre + length f := 0] = ?pre @ s' @ 0 # post"
        by (simp add: s list_update_append)
      ultimately have "parse_columns d ae nv (pre @ s @ 0 # post) cols n (length pre) =
          parse_columns d ae nv (?pre @ s' @ 0 # post) ?cols n' (length ?pre)"
        using n by (subst parse_columns.simps) (simp add: Let_def n'_def)
      moreover have "take n' ?cols = take n cols @ (if ae \<or> f \<noteq> [] then [InBlock 0 (length pre)] else [])"
        using n less.prems by (simp add: n'_def take_Suc_conv_app_nth)
      ultimately show ?thesis
        using less.hyps [of s' ?cols n' ?pre] less.prems s f n gfs
        by (auto simp: split_fields_delim n'_def algebra_simps split: if_splits)
    qed
  qed
qed

lemma take_and_parse_ok:
  assumes "c_string s" and "d \<noteq> 0" and "bvalue b = s @ 0 # post"
  shows "if too_many ae 0 (split_fields d s) then take_and_parse_internal b d ae = Ret None
     else \<exists>rec. take_and_parse_internal b d ae = Ret (Some rec) \<and> record_ok rec \<and>
            record_abs rec = map snd (kept ae (n_value b) 0 (split_fields d s)) \<and> delimiter rec = d"
proof (cases "too_many ae 0 (split_fields d s)")
  case True
  with parse_columns_ok [OF assms(1,2), of "replicate MAX_COLUMNS Null" 0 ae "n_value b" "[]" post] assms(3)
  show ?thesis by (auto simp: take_and_parse_internal_def)
next
  case False
  let ?k = "kept ae (n_value b) 0 (split_fields d s)"
  let ?b = "b\<lparr>bvalue := laid_out (split_fields d s) @ post\<rparr>"
  from parse_columns_ok [OF assms(1,2), of "replicate MAX_COLUMNS Null" 0 ae "n_value b" "[]" post] assms(3) False
  obtain cols where
    parse: "parse_columns d ae (n_value b) (bvalue b) (replicate MAX_COLUMNS Null) 0 0 =
      Ret (Some (laid_out (split_fields d s) @ post, cols, length ?k))" and
    cols: "length cols = MAX_COLUMNS" "length ?k \<le> MAX_COLUMNS"
      "take (length ?k) cols = map (InBlock 0 \<circ> fst) ?k"
    by auto
  let ?rec = "\<lparr>blocks = [?b], columns = cols, n_columns = length ?k, delimiter = d\<rparr>"
  have "col_text [?b] (InBlock 0 off) = Some t" if "(off, t) \<in> set ?k" for off t
    by (rule laid_out_text [of ?b "[]" "split_fields d s" post])
      (use that kept_subset [of ae "n_value b" 0 "split_fields d s"] split_fields_c_string [OF assms(1)] in auto)
  then have "record_texts ?rec = map Some (map snd ?k)"
    using cols by (auto simp: record_texts_def)
  then have "record_ok ?rec \<and> record_abs ?rec = map snd ?k"
    by (intro record_okI) (use cols in simp_all)
  with parse False show ?thesis by (simp add: take_and_parse_internal_def)
qed

text \<open>The area of a line of \<open>n\<close> octets; the text parsed is the one before a NUL.\<close>

lemma line_block:
  "\<exists>post. bvalue (record_block_new junk (Some line) n) = until_nul (take n line) @ 0 # post"
proof (cases "0 \<in> set (take n line)")
  case True
  then obtain t where "take n line = until_nul (take n line) @ 0 # t" using until_nul_split by blast
  then have "bvalue (record_block_new junk (Some line) n) = until_nul (take n line) @ 0 # t @ [0]"
    by (simp add: record_block_new_def)
  then show ?thesis by blast
next
  case False
  then show ?thesis by (auto simp: record_block_new_def c_string_def)
qed

lemma parse_colons_ok:
  assumes "n \<le> length line"
  defines "fs \<equiv> split_fields (chr CHR '':'') (until_nul (take n line))"
  shows "if length fs > MAX_COLUMNS then gcr_record_parse_colons line (int n) = Ret None
     else \<exists>rec. gcr_record_parse_colons line (int n) = Ret (Some rec) \<and> record_ok rec \<and>
            record_abs rec = fs \<and> delimiter rec = chr CHR '':''"
proof -
  obtain post where "bvalue (record_block_new (\<lambda>_. 0) (Some line) n) = until_nul (take n line) @ 0 # post"
    using line_block by blast
  from take_and_parse_ok [OF c_string_until_nul _ this, of "chr CHR '':''" True] assms(1) show ?thesis
    by (auto simp: gcr_record_parse_colons_def line_length_def Let_def fs_def
        too_many_allow_empty kept_allow_empty split: if_splits)
qed

lemma parse_spaces_ok:
  assumes "c_string line"
  defines "fs \<equiv> split_fields (chr CHR '' '') line"
  shows "if length (filter (\<lambda>f. f \<noteq> []) (butlast fs)) \<ge> MAX_COLUMNS
     then gcr_record_parse_spaces line (-1) = Ret None
     else \<exists>rec. gcr_record_parse_spaces line (-1) = Ret (Some rec) \<and> record_ok rec \<and>
            record_abs rec = filter (\<lambda>f. f \<noteq> []) (butlast fs) @ (if length (last fs) > 1 then [last fs] else [])"
proof -
  let ?b = "record_block_new (\<lambda>_. 0) (Some line) (length line)"
  have b: "bvalue ?b = line @ 0 # []" "n_value ?b = length line" by (simp_all add: record_block_new_def)
  have parse: "gcr_record_parse_spaces line (-1) = take_and_parse_internal ?b (chr CHR '' '') False"
    using assms(1) by (simp add: gcr_record_parse_spaces_def line_length_def Let_def)
  have kept: "map snd (kept False (length line) 0 fs) =
      filter (\<lambda>f. f \<noteq> []) (butlast fs) @ (if length (last fs) > 1 then [last fs] else [])"
    by (rule kept_nonempty) (simp_all add: fs_def split_fields_laid_out)
  have many: "too_many False 0 fs \<longleftrightarrow> length (filter (\<lambda>f. f \<noteq> []) (butlast fs)) \<ge> MAX_COLUMNS"
    by (simp add: too_many_nonempty fs_def)
  have "chr CHR '' '' \<noteq> (0 :: byte)" by simp
  from take_and_parse_ok [OF assms(1) this b(1), of False] show ?thesis
    unfolding parse b(2) fs_def [symmetric] kept many by metis
qed

section \<open>Printing\<close>

lemma print_columns_ok:
  "map (col_text bs) ps = map Some ts \<Longrightarrow>
   print_columns bs d ps str = Ret (str @ concat (map (\<lambda>t. t @ [d]) ts))"
  by (induction ps arbitrary: ts str) (auto simp: Cons_eq_map_conv)

lemma print_record_ok:
  "record_ok rec \<Longrightarrow>
   print_record_to_string rec str = Ret (str @ concat (map (\<lambda>t. t @ [delimiter rec]) (record_abs rec)))"
  using record_texts_abs [of rec]
  by (simp add: print_record_to_string_def print_columns_ok record_texts_def)

definition record_line :: "GcrRecord \<Rightarrow> byte list" where
  "record_line rec = concat (map (\<lambda>t. t @ [delimiter rec]) (record_abs rec))"

lemma records_print_ok:
  "list_all record_ok rs \<Longrightarrow>
   gcr_records_print rs str = Ret (str @ concat (map (\<lambda>r. record_line r @ [10]) rs))"
  by (induction rs arbitrary: str) (auto simp: print_record_ok record_line_def)

lemma record_line_c_string:
  "record_ok rec \<Longrightarrow> delimiter rec \<noteq> 0 \<Longrightarrow> c_string (record_line rec)"
  using record_abs_c_string [of rec] by (auto simp: record_line_def c_string_def)

section \<open>Lines\<close>

lemma strnsplit_loop_ok:
  "strnsplit_loop s d acc = (last (split_fields d s), acc @ map until_nul (butlast (split_fields d s)))"
proof (induction "length s" arbitrary: s acc rule: less_induct)
  case less
  show ?case
  proof (cases "d \<in> set s")
    case False
    then have "memchr s d = None" by simp
    with False show ?thesis by (simp add: strnsplit_loop.simps [of s] split_fields_no_delim del: memchr_None)
  next
    case True
    then obtain f s' where s: "s = f @ d # s'" and f: "d \<notin> set f" by (meson split_list_first)
    with less [of s'] show ?thesis
      by (subst strnsplit_loop.simps) (simp add: memchr_append split_fields_delim)
  qed
qed

lemma strnsplit_ok:
  assumes "len \<le> length str" and "str \<noteq> []" and "hd str \<noteq> 0"
  shows "strnsplit str len d = Ret (map until_nul (split_fields d (take len str)))"
proof -
  let ?fs = "split_fields d (take len str)"
  have "map until_nul ?fs = map until_nul (butlast ?fs) @ [until_nul (last ?fs)]"
    by (subst append_butlast_last_id [OF split_fields_not_Nil, symmetric]) (simp only: map_append list.map)
  with assms show ?thesis by (simp add: strnsplit_def strnsplit_loop_ok)
qed

lemma parse_lines_ok:
  assumes "list_all c_string ls"
    and "list_all (\<lambda>l. length (split_fields (chr CHR '':'') l) \<le> MAX_COLUMNS) ls"
  shows "\<exists>rs. parse_lines ls acc = Ret (Some (acc @ rs)) \<and> list_all record_ok rs \<and>
           map record_abs rs = map (split_fields (chr CHR '':'')) ls"
  using assms
proof (induction ls arbitrary: acc)
  case Nil
  then show ?case by simp
next
  case (Cons l ls)
  have "bvalue (record_block_take l (length l)) = l @ 0 # []" by (simp add: record_block_take_def)
  from take_and_parse_ok [OF _ _ this, of "chr CHR '':''" True] Cons.prems obtain rec where
    rec: "take_and_parse_internal (record_block_take l (length l)) (chr CHR '':'') True = Ret (Some rec)"
    "record_ok rec" "record_abs rec = split_fields (chr CHR '':'') l"
    by (auto simp: too_many_allow_empty kept_allow_empty not_less)
  from Cons.IH [of "acc @ [rec]"] Cons.prems obtain rs where
    "parse_lines ls (acc @ [rec]) = Ret (Some (acc @ rec # rs))" "list_all record_ok rs"
    "map record_abs rs = map (split_fields (chr CHR '':'')) ls" by auto
  with rec show ?case by (intro exI [of _ "rec # rs"]) simp
qed

text \<open>A line of more columns than a record holds is where the lines are released twice.\<close>

lemma parse_lines_refused:
  assumes "c_string l" and "length (split_fields (chr CHR '':'') l) > MAX_COLUMNS"
  shows "parse_lines (l # ls) acc = Undef"
proof -
  have "bvalue (record_block_take l (length l)) = l @ 0 # []" by (simp add: record_block_take_def)
  from take_and_parse_ok [OF assms(1) _ this, of "chr CHR '':''" True] assms(2)
  have "take_and_parse_internal (record_block_take l (length l)) (chr CHR '':'') True = Ret None"
    by (simp add: too_many_allow_empty)
  then show ?thesis by simp
qed

section \<open>Escaping\<close>

text \<open>What one octet of the source becomes, and which octets get a hexadecimal escape.\<close>

definition escaped_octet :: "byte \<Rightarrow> byte \<Rightarrow> byte list" where
  "escaped_octet extra c =
     (if \<not> escape_needed extra c then [c]
      else if escape_letter c \<noteq> 0 then [chr CHR 0x5C, escape_letter c]
      else [chr CHR 0x5C, chr CHR ''x'', HEXC_LOWER ! unat (drop_bit 4 c AND 0xf),
            HEXC_LOWER ! unat (c AND 0xf)])"

definition hex_escaped :: "byte \<Rightarrow> byte \<Rightarrow> bool" where
  "hex_escaped extra c \<longleftrightarrow> escape_needed extra c \<and> escape_letter c = 0"

definition escaped_text :: "byte \<Rightarrow> byte list \<Rightarrow> byte list" where
  "escaped_text extra s = concat (map (escaped_octet extra) s)"

lemma escaped_text_simps [simp]:
  "escaped_text d [] = []" "escaped_text d (c # s) = escaped_octet d c @ escaped_text d s"
  by (simp_all add: escaped_text_def)

lemma escape_loop_text:
  "escape_loop d pre dest s =
     (case dest of Some q \<Rightarrow> Some (q @ escaped_text d s)
      | None \<Rightarrow> if list_all (\<lambda>c. \<not> escape_needed d c) s then None else Some (pre @ escaped_text d s))"
  by (induction s arbitrary: pre dest)
    (auto simp: escaped_octet_def Let_def split: option.splits)

lemma escaped_text_id: "list_all (\<lambda>c. \<not> escape_needed d c) s \<Longrightarrow> escaped_text d s = s"
  by (induction s) (auto simp: escaped_octet_def)

lemma c_colons_escape_text:
  "(case c_colons_escape s d of Some e \<Rightarrow> e | None \<Rightarrow> s) = escaped_text d s"
  by (auto simp: c_colons_escape_def escape_loop_text escaped_text_id)

lemma length_escaped_text: "length (escaped_text d s) \<le> 4 * length s"
  by (induction s) (auto simp: escaped_octet_def)

lemma escape_letter_inverse:
  assumes "escape_letter c \<noteq> 0"
  shows "unescape_char (escape_letter c) = c"
    and "\<not> (chr CHR ''0'' \<le> escape_letter c \<and> escape_letter c \<le> chr CHR ''7'')"
    and "escape_letter c \<noteq> chr CHR ''x''" and "31 < escape_letter c"
    and "escape_letter c \<noteq> chr CHR '':''"
  using assms by (auto simp: escape_letter_def unescape_char_def split: if_splits)

lemma escape_needed_backslash: "escape_needed d (chr CHR 0x5C)"
  by (simp add: escape_needed_def escape_letter_def)

lemma strchr_x: "strchr HEXC_LOWER (g_ascii_tolower 120) = None"
  by code_simp

lemma unescape_hex_fails: "unescape_hex 2 0 (120 # r) = None"
  by (simp add: numeral_2_eq_2 strchr_x)

lemma unescape_escaped:
  "unescape_loop pre dest (escaped_text d s) =
     (if list_ex (hex_escaped d) s then None
      else case dest of Some q \<Rightarrow> Some (q @ s)
      | None \<Rightarrow> if list_all (\<lambda>c. \<not> escape_needed d c) s then None else Some (pre @ s))"
proof (induction s arbitrary: pre dest)
  case Nil
  then show ?case by (simp split: option.split)
next
  case (Cons c s)
  consider (plain) "\<not> escape_needed d c" | (letter) "escape_needed d c" "escape_letter c \<noteq> 0"
    | (hex) "hex_escaped d c" by (auto simp: hex_escaped_def)
  then show ?case
  proof cases
    case plain
    then have "c \<noteq> chr CHR 0x5C" using escape_needed_backslash by metis
    with plain Cons show ?thesis by (auto simp: escaped_octet_def hex_escaped_def split: option.split)
  next
    case letter
    with Cons escape_letter_inverse [OF letter(2)] show ?thesis
      by (auto simp: escaped_octet_def hex_escaped_def Let_def split: option.split)
  next
    case hex
    then show ?thesis
      by (simp add: escaped_octet_def hex_escaped_def Let_def unescape_hex_fails del: unescape_hex.simps)
  qed
qed

text \<open>The buffers the two loops write to are large enough.\<close>

lemma unescape_octal_shrinks:
  "chr CHR ''0'' \<le> e \<Longrightarrow> e \<le> chr CHR ''7'' \<Longrightarrow> unescape_octal 3 0 (e # r) = (b, rest) \<Longrightarrow> length rest \<le> length r"
  using unescape_octal_length [of 2 "e - chr CHR ''0''" r] by (simp add: numeral_3_eq_3 numeral_2_eq_2)

lemma unescape_loop_fits:
  "unescape_loop pre dest p = Some t \<Longrightarrow>
   length t \<le> (case dest of None \<Rightarrow> length pre | Some q \<Rightarrow> length q) + length p"
proof (induction pre dest p rule: unescape_loop.induct)
  case (1 pre dest)
  then show ?case by simp
next
  case (2 pre dest c p)
  show ?case
  proof (cases "c = chr CHR 0x5C")
    case False
    with 2 show ?thesis by (auto split: option.splits)
  next
    case True
    with 2(5) obtain e r where p: "p = e # r" by (cases p) (auto simp: Let_def)
    show ?thesis
    proof (cases "chr CHR ''0'' \<le> e \<and> e \<le> chr CHR ''7''")
      case oct: True
      obtain b rest where b: "unescape_octal 3 0 (e # r) = (b, rest)" by fastforce
      with oct have "length rest \<le> length r" by (auto intro: unescape_octal_shrinks)
      with 2(1) [OF True refl p oct b [symmetric]] 2(5) True p oct b show ?thesis
        by (auto simp: Let_def split: option.splits)
    next
      case other: False
      show ?thesis
      proof (cases "e = chr CHR ''x''")
        case x: True
        with 2(5) True p other show ?thesis
          by (simp add: Let_def unescape_hex_fails del: unescape_hex.simps)
      next
        case False
        with 2(3) [OF True refl p other] 2(5) True p other show ?thesis
          by (auto simp: Let_def split: option.splits)
      qed
    qed
  qed
qed

text \<open>Escaped text is free of control characters and of the colon.\<close>

lemma HEXC_LOWER_nth: "i < 16 \<Longrightarrow> 31 < HEXC_LOWER ! i \<and> HEXC_LOWER ! i \<noteq> chr CHR '':''"
proof -
  have "list_all (\<lambda>c. 31 < c \<and> c \<noteq> chr CHR '':'') HEXC_LOWER" by (simp add: HEXC_LOWER_def)
  moreover have "length HEXC_LOWER = 16" by (simp add: HEXC_LOWER_def)
  ultimately show "i < 16 \<Longrightarrow> 31 < HEXC_LOWER ! i \<and> HEXC_LOWER ! i \<noteq> chr CHR '':''"
    by (simp add: list_all_length)
qed

lemma record_nibble_less: "unat ((c :: byte) AND 0xf) < 16"
proof -
  have "c AND 0xf \<le> 0xf" by (rule word_and_le1)
  then show ?thesis by (simp add: word_le_nat_alt)
qed

lemma printable_above: "\<not> (c :: byte) < 32 \<Longrightarrow> 31 < c"
  by (simp add: word_less_nat_alt)

lemma escaped_octet_clean:
  "b \<in> set (escaped_octet (chr CHR '':'') c) \<Longrightarrow> 31 < b \<and> b \<noteq> chr CHR '':''"
proof (cases "escape_needed (chr CHR '':'') c")
  case False
  have "int (unat c) = 58 \<longleftrightarrow> c = 58" by (simp add: word_uint_eq_iff)
  with False show "b \<in> set (escaped_octet (chr CHR '':'') c) \<Longrightarrow> 31 < b \<and> b \<noteq> chr CHR '':''"
    by (auto simp: escaped_octet_def escape_needed_def printable_above)
next
  case True
  then show "b \<in> set (escaped_octet (chr CHR '':'') c) \<Longrightarrow> 31 < b \<and> b \<noteq> chr CHR '':''"
    using escape_letter_inverse(4,5) [of c] HEXC_LOWER_nth [OF record_nibble_less]
    by (auto simp: escaped_octet_def split: if_splits)
qed

section \<open>The contract of the columns\<close>

text \<open>
  A setter writes a text that stands for a value into one column and leaves the others; a getter
  is a function of the text of its column.
\<close>

locale record_column =
  fixes set_col :: "GcrRecord \<Rightarrow> nat \<Rightarrow> 'v \<Rightarrow> GcrRecord outcome"
    and get_col :: "GcrRecord \<Rightarrow> nat \<Rightarrow> 'r outcome"
    and valid :: "'v \<Rightarrow> bool"
    and text_of :: "byte \<Rightarrow> 'v \<Rightarrow> byte list"
    and value_of :: "byte list \<Rightarrow> 'r"
  assumes set_refines: "record_ok rec \<Longrightarrow> c < n_columns rec \<Longrightarrow> valid v \<Longrightarrow>
      \<exists>rec'. set_col rec c v = Ret rec' \<and> column_updated rec rec' c (text_of (delimiter rec) v)"
    and set_outside: "c \<ge> n_columns rec \<Longrightarrow> set_col rec c v = Ret rec"
    and get_reads: "record_ok rec \<Longrightarrow> c < n_columns rec \<Longrightarrow>
      get_col rec c = Ret (value_of (record_abs rec ! c))"
begin

lemma set_ok:
  assumes "record_ok rec" and "valid v" and "set_col rec c v = Ret rec'"
  shows "record_ok rec' \<and> n_columns rec' = n_columns rec \<and> delimiter rec' = delimiter rec"
  using assms set_refines [of rec c v] set_outside [of rec c v]
  by (cases "c < n_columns rec") (auto simp: column_updated_def)

lemma set_get:
  assumes "record_ok rec" and "c < n_columns rec" and "valid v"
  shows "obind (set_col rec c v) (\<lambda>rec'. get_col rec' c) = Ret (value_of (text_of (delimiter rec) v))"
  using set_refines [OF assms] assms get_reads by (auto simp: column_updated_def)

lemma set_other:
  assumes "record_ok rec" and "c < n_columns rec" and "valid v" and "i \<noteq> c"
  shows "obind (set_col rec c v) (\<lambda>rec'. gcr_record_get_raw rec' i) = gcr_record_get_raw rec i"
  using set_refines [OF assms(1-3)] assms by (auto simp: column_updated_def gcr_record_get_raw_ok)

lemma set_then_format:
  assumes "record_ok rec" and "c < n_columns rec" and "valid v"
  shows "obind (set_col rec c v) gcr_record_format =
     Ret (concat (map (\<lambda>t. t @ [delimiter rec]) ((record_abs rec)[c := text_of (delimiter rec) v])))"
  using set_refines [OF assms] assms
  by (auto simp: column_updated_def gcr_record_format_def print_record_ok)

end

lemma record_take_column_text:
  assumes "record_ok rec" and "c < n_columns rec" and "0 \<in> set (bvalue b)" and "until_nul (bvalue b) = t"
  shows "\<exists>rec'. record_take_column rec c b = Ret rec' \<and> column_updated rec rec' c t"
  using record_take_column_updates [OF assms(1-3)] assms(4) by simp

definition string_value ::
  "(byte list \<Rightarrow> bool) \<Rightarrow> (byte list \<Rightarrow> byte list option) \<Rightarrow> byte list \<Rightarrow> byte list option" where
  "string_value utf8_validate convert raw =
     (let v = (case c_colons_unescape raw of None \<Rightarrow> raw | Some text \<Rightarrow> until_nul text)
      in if \<not> utf8_validate v then convert v else Some v)"

lemma c_string_escaped_text:
  assumes "c_string s"
  shows "c_string (escaped_text d s)"
proof -
  have "c_string (escaped_octet d c)" if "c \<noteq> 0" for c
  proof -
    have "HEXC_LOWER ! i \<noteq> 0" if "i < 16" for i
      using HEXC_LOWER_nth [OF that] by auto
    with that record_nibble_less show ?thesis by (auto simp: escaped_octet_def)
  qed
  with assms show ?thesis by (induction s) auto
qed

interpretation column_string: record_column gcr_record_set_string
  "gcr_record_get_string utf8_validate convert" c_string escaped_text "string_value utf8_validate convert"
  for utf8_validate convert
proof unfold_locales
  fix rec c and v :: "byte list"
  assume rec: "record_ok rec" "c < n_columns rec" and v: "c_string v"
  have "until_nul (bvalue (case c_colons_escape v (delimiter rec) of
        Some e \<Rightarrow> record_block_take e (length e)
      | None \<Rightarrow> record_block_new (\<lambda>_. 0) (Some v) (length v))) = escaped_text (delimiter rec) v"
    using v c_colons_escape_text [of v "delimiter rec"] c_string_escaped_text [OF v]
    by (cases "c_colons_escape v (delimiter rec)") auto
  then show "\<exists>rec'. gcr_record_set_string rec c v = Ret rec' \<and>
      column_updated rec rec' c (escaped_text (delimiter rec) v)"
    using rec by (auto simp: gcr_record_set_string_def intro!: record_take_column_text split: option.split)
qed (auto simp: gcr_record_set_string_def gcr_record_get_string_def gcr_record_get_raw_ok string_value_def Let_def)

interpretation column_char: record_column gcr_record_set_char gcr_record_get_char
  "\<lambda>c. c \<noteq> 0" "\<lambda>_ c. [c]" "\<lambda>t. case t of [c] \<Rightarrow> c | _ \<Rightarrow> 0"
proof unfold_locales
  fix rec c and v :: byte
  assume rec: "record_ok rec" "c < n_columns rec" and v: "v \<noteq> 0"
  then show "\<exists>rec'. gcr_record_set_char rec c v = Ret rec' \<and> column_updated rec rec' c [v]"
    using record_block_text(1) [of "[v]"]
    by (auto simp: gcr_record_set_char_def intro!: record_take_column_text)
qed (auto simp: gcr_record_set_char_def gcr_record_get_char_def gcr_record_get_raw_ok)

text \<open>The value of a number in a column.\<close>

definition uint_value :: "byte list \<Rightarrow> nat option" where
  "uint_value raw =
     (case g_ascii_strtoll raw of (r, rest) \<Rightarrow>
        if rest = [] \<and> 0 \<le> r \<and> r < 2 ^ 32 then Some (nat r) else None)"

definition ulong_value :: "byte list \<Rightarrow> nat option" where
  "ulong_value raw =
     (case g_ascii_strtoull raw of (u, rest) \<Rightarrow>
        if rest = [] \<and> u < 2 ^ 63 then Some (u mod 2 ^ 32) else None)"

interpretation column_uint: record_column gcr_record_set_uint gcr_record_get_uint
  "\<lambda>v. v < 2 ^ 32" "\<lambda>_. print_unsigned" uint_value
  by unfold_locales
    (auto simp: gcr_record_set_uint_def gcr_record_get_uint_def gcr_record_get_raw_ok uint_value_def
      Let_def wrap32_def nat_mod_distrib split: prod.split intro!: record_take_column_text)

interpretation column_ulong: record_column gcr_record_set_ulong gcr_record_get_ulong
  "\<lambda>v. v < 2 ^ 64" "\<lambda>_. print_unsigned" ulong_value
proof unfold_locales
  fix rec c
  assume "record_ok rec" "c < n_columns rec"
  then show "gcr_record_get_ulong rec c = Ret (ulong_value (record_abs rec ! c))"
    using g_ascii_strtoull_less [of "record_abs rec ! c"]
    by (auto simp: gcr_record_get_ulong_def gcr_record_get_raw_ok ulong_value_def wrap32_def as_int64_def
        Let_def split: prod.split)
qed (auto simp: gcr_record_set_ulong_def Let_def intro!: record_take_column_text)

interpretation column_raw: record_column gcr_record_set_raw gcr_record_get_raw
  c_string "\<lambda>_ s. s" Some
  by unfold_locales
    (auto simp: gcr_record_set_raw_def gcr_record_get_raw_ok intro!: record_take_column_text)

interpretation column_taken: record_column gcr_record_take_raw gcr_record_get_raw
  c_string "\<lambda>_ s. s" Some
  by unfold_locales
    (auto simp: gcr_record_take_raw_def gcr_record_get_raw_ok intro!: record_take_column_text)

text \<open>Base64: the value can be stored when the encoder stays below the estimate.\<close>

definition base64_text :: "(byte list \<Rightarrow> byte list \<times> 's) \<Rightarrow> ('s \<Rightarrow> byte list) \<Rightarrow> byte list \<Rightarrow> byte list" where
  "base64_text encode_step encode_close data =
     (case encode_step data of (body, st) \<Rightarrow> body @ encode_close st)"

definition base64_fits :: "(byte list \<Rightarrow> byte list \<times> 's) \<Rightarrow> ('s \<Rightarrow> byte list) \<Rightarrow> byte list \<Rightarrow> bool" where
  "base64_fits encode_step encode_close data \<longleftrightarrow>
     c_string (base64_text encode_step encode_close data) \<and> length data < 2 ^ 61 \<and>
     length (base64_text encode_step encode_close data) <
       length data * 4 div 3 + length data * 4 div 195 + 7"

definition chomp :: "byte list \<Rightarrow> byte list" where
  "chomp s = rev (dropWhile g_ascii_isspace (rev s))"

lemma length_chomp: "length (chomp s) \<le> length s"
  using length_dropWhile_le [of g_ascii_isspace "rev s"] by (simp add: chomp_def)

lemma c_string_chomp: "c_string s \<Longrightarrow> c_string (chomp s)"
  by (auto simp: chomp_def c_string_def dest: set_dropWhileD)

lemma g_strchomp_text:
  assumes "c_string s"
  shows "until_nul (g_strchomp (s @ 0 # t)) = chomp s" "0 \<in> set (g_strchomp (s @ 0 # t))"
proof -
  have "\<exists>u. g_strchomp (s @ 0 # t) = chomp s @ 0 # u"
    using assms by (cases "length s - length (chomp s)") (auto simp: g_strchomp_def chomp_def Let_def)
  then show "until_nul (g_strchomp (s @ 0 # t)) = chomp s" "0 \<in> set (g_strchomp (s @ 0 # t))"
    using c_string_chomp [OF assms] by auto
qed

lemma memcpy_at_front:
  "length s + length u \<le> length mem \<Longrightarrow>
   memcpy_at (length s) u (s @ drop (length s) mem) = Ret (s @ u @ drop (length s + length u) mem)"
  by (simp add: memcpy_at_def add.commute)

lemma record_set_base64_ok:
  assumes "record_ok rec" and "c < n_columns rec" and "base64_fits encode_step encode_close data"
  shows "\<exists>rec'. gcr_record_set_base64 encode_step encode_close junk rec c data = Ret rec' \<and>
     column_updated rec rec' c (chomp (base64_text encode_step encode_close data))"
proof -
  obtain body st where enc: "encode_step data = (body, st)" by fastforce
  let ?close = "encode_close st" and ?n = "length data"
  define est where "est = ?n * 4 div 3 + ?n * 4 div 195 + 7"
  define mem where "mem = 0 # map junk [0..<est]"
  have body: "base64_text encode_step encode_close data = body @ ?close"
    by (simp add: base64_text_def enc)
  have n: "?n < 2 ^ 61" and len: "length body + length ?close < est"
    and cs: "c_string (body @ ?close)"
    using assms(3) body by (simp_all add: base64_fits_def est_def)
  have "wrap64 (wrap64 (?n * 4) div 3 + wrap64 (?n * 4) div 195 + 7) = est"
    using n by (simp add: wrap64_def est_def)
  moreover have "length mem = Suc est" by (simp add: mem_def)
  then have "memcpy_at 0 body mem = Ret (body @ drop (length body) mem)"
    "memcpy_at (length body) ?close (body @ drop (length body) mem) =
       Ret (body @ ?close @ drop (length body + length ?close) mem)"
    "memcpy_at (length body + length ?close) [0] (body @ ?close @ drop (length body + length ?close) mem) =
       Ret (body @ ?close @ 0 # drop (Suc (length body + length ?close)) mem)"
    using len memcpy_at_front [of body ?close mem] memcpy_at_front [of "body @ ?close" "[0]" mem]
    by (simp_all add: memcpy_at_def)
  moreover have "record_block_new junk None est = \<lparr>n_value = est, bvalue = mem\<rparr>"
    by (simp add: record_block_new_def mem_def)
  ultimately have "gcr_record_set_base64 encode_step encode_close junk rec c data =
      record_take_column rec c
        \<lparr>n_value = est, bvalue = g_strchomp ((body @ ?close) @ 0 # drop (Suc (length body + length ?close)) mem)\<rparr>"
    using assms(2) len by (simp add: gcr_record_set_base64_def enc Let_def)
  with record_take_column_text [OF assms(1,2)] g_strchomp_text [OF cs] body show ?thesis by simp
qed

interpretation column_base64: record_column
  "gcr_record_set_base64 encode_step encode_close junk" "gcr_record_get_base64 base64_decode"
  "base64_fits encode_step encode_close" "\<lambda>_ data. chomp (base64_text encode_step encode_close data)"
  "\<lambda>t. Some (base64_decode t)"
  for encode_step encode_close junk base64_decode
  by unfold_locales
    (rule record_set_base64_ok, assumption+,
      simp_all add: gcr_record_set_base64_def gcr_record_get_base64_def gcr_record_get_raw_ok)

section \<open>Properties\<close>

text \<open>
  C33. Parsing a colon line of \<open>n\<close> octets splits the text before the first NUL at the colons:
  the record has exactly these fields as columns, it satisfies the invariant (every column is a
  terminated string inside the block of the record), and a line with more than 32 fields is
  refused.\<close>
theorem gcr_record_parse_colons_splits:
  assumes "n \<le> length line"
  shows "if length (split_fields (chr CHR '':'') (until_nul (take n line))) > MAX_COLUMNS
     then gcr_record_parse_colons line (int n) = Ret None
     else \<exists>rec. gcr_record_parse_colons line (int n) = Ret (Some rec) \<and> record_ok rec \<and>
            record_abs rec = split_fields (chr CHR '':'') (until_nul (take n line)) \<and>
            gcr_record_get_count rec = length (split_fields (chr CHR '':'') (until_nul (take n line)))"
  using parse_colons_ok [OF assms] length_record_abs
  by (metis gcr_record_get_count_def)

theorem gcr_record_parse_colons_splits_witness:
  "\<exists>rec. gcr_record_parse_colons (cstr ''pub:f:'') 6 = Ret (Some rec) \<and> record_ok rec \<and>
     record_abs rec = [cstr ''pub'', cstr ''f'', []]"
  using gcr_record_parse_colons_splits [of 6 "cstr ''pub:f:''"]
  by (auto simp: MAX_COLUMNS_def until_nul_def)

text \<open>
  C34. A list of records, formatted and parsed again, gives the records back: every line ends
  with a delimiter and every record with a line feed, so each record comes back with one more empty
  column and there is one more record with a single empty column.  The columns must not hold a
  colon or a line feed themselves, and a record has to have room for the empty column.\<close>
theorem gcr_records_roundtrip:
  assumes "rs \<noteq> []" and "list_all record_ok rs"
    and "list_all (\<lambda>r. delimiter r = chr CHR '':'' \<and> 0 < n_columns r \<and> n_columns r < MAX_COLUMNS) rs"
    and "list_all (\<lambda>r. list_all (\<lambda>t. chr CHR '':'' \<notin> set t \<and> 10 \<notin> set t) (record_abs r)) rs"
  shows "\<exists>text rs'. gcr_records_format rs = Ret text \<and>
     gcr_records_parse_colons (text @ [0]) (int (length text)) = Ret (Some rs') \<and>
     list_all record_ok rs' \<and> map record_abs rs' = map (\<lambda>r. record_abs r @ [[]]) rs @ [[[]]]"
proof -
  let ?text = "concat (map (\<lambda>r. record_line r @ [10]) rs)"
  let ?lines = "map record_line rs @ [[]]"
  have line: "c_string (record_line r) \<and> 10 \<notin> set (record_line r) \<and> record_line r \<noteq> [] \<and>
      split_fields (chr CHR '':'') (record_line r) = record_abs r @ [[]]" if "r \<in> set rs" for r
  proof -
    have "record_ok r" and d: "delimiter r = chr CHR '':''" "0 < n_columns r"
      and t: "list_all (\<lambda>t. chr CHR '':'' \<notin> set t \<and> 10 \<notin> set t) (record_abs r)"
      using assms that by (auto simp: list_all_iff)
    moreover have "record_abs r \<noteq> []" using \<open>record_ok r\<close> d(2) length_record_abs by fastforce
    ultimately show ?thesis
      using record_line_c_string [of r] split_fields_joined [of "chr CHR '':''" "record_abs r"]
      by (auto simp: record_line_def list_all_iff)
  qed
  have "split_fields 10 ?text = ?lines"
    using split_fields_joined [of 10 "map record_line rs"] line by (simp add: list_all_iff comp_def)
  moreover obtain r rs0 where "rs = r # rs0" using assms(1) by (cases rs) auto
  then have "?text \<noteq> []" "hd ?text \<noteq> 0"
    using line [of r] by (auto simp: hd_append c_string_def dest: hd_in_set)
  moreover have "map until_nul ?lines = ?lines" using line by (simp add: list_all_iff)
  ultimately have split: "strnsplit (?text @ [0]) (length ?text) 10 = Ret ?lines"
    by (simp add: strnsplit_ok)
  have short: "list_all (\<lambda>l. length (split_fields (chr CHR '':'') l) \<le> MAX_COLUMNS) ?lines"
    using line assms(2,3) by (auto simp: list_all_iff Suc_leI MAX_COLUMNS_def)
  have "list_all c_string ?lines" using line by (simp add: list_all_iff)
  from parse_lines_ok [OF this short, of "[]"] obtain rs' where
    "parse_lines ?lines [] = Ret (Some rs')" "list_all record_ok rs'"
    "map record_abs rs' = map (split_fields (chr CHR '':'')) ?lines" by auto
  moreover from this(3) have "map record_abs rs' = map (\<lambda>r. record_abs r @ [[]]) rs @ [[[]]]"
    using line by (simp add: comp_def)
  moreover have "gcr_records_format rs = Ret ?text"
    using records_print_ok [OF assms(2)] by (simp add: gcr_records_format_def)
  ultimately show ?thesis using split by (simp add: gcr_records_parse_colons_def)
qed

theorem gcr_records_roundtrip_witness:
  "\<exists>text rs'. gcr_records_format [\<lparr>blocks = [], columns = Lit (cstr ''uid'') # Lit [] # replicate 30 Null,
        n_columns = 2, delimiter = chr CHR '':''\<rparr>] = Ret text \<and>
     gcr_records_parse_colons (text @ [0]) (int (length text)) = Ret (Some rs') \<and>
     list_all record_ok rs' \<and> map record_abs rs' = [[cstr ''uid'', [], []], [[]]]"
  using gcr_records_roundtrip [of "[\<lparr>blocks = [], columns = Lit (cstr ''uid'') # Lit [] # replicate 30 Null,
        n_columns = 2, delimiter = chr CHR '':''\<rparr>]"]
  by (simp add: record_ok_def record_abs_def record_texts_def col_text_def MAX_COLUMNS_def)

text \<open>
  C35. Storing a string and reading it back.  When no octet needs a hexadecimal escape the same
  string is returned.  Otherwise (a control character without an escape letter, or the delimiter)
  the reader fails to undo the escape, because it takes the letter x for the first digit, and
  returns the escaped text as it stands.  The texts involved are taken to be valid UTF-8, so that
  no conversion follows.\<close>
theorem gcr_record_set_get_string:
  assumes "record_ok rec" and "c < n_columns rec" and "c_string s"
    and "utf8_validate s" and "utf8_validate (escaped_text (delimiter rec) s)"
  shows "obind (gcr_record_set_string rec c s) (\<lambda>rec'. gcr_record_get_string utf8_validate convert rec' c) =
     Ret (Some (if list_ex (hex_escaped (delimiter rec)) s then escaped_text (delimiter rec) s else s))"
  using column_string.set_get [OF assms(1-3)] assms(3-5)
    unescape_escaped [of "[]" None "delimiter rec" s] escaped_text_id [of "delimiter rec" s]
  by (auto simp: string_value_def c_colons_unescape_def Let_def split: if_splits)

theorem gcr_record_set_get_string_witness:
  "let rec = \<lparr>blocks = [], columns = Lit [] # replicate 31 Null, n_columns = 1, delimiter = chr CHR '':''\<rparr>
   in obind (gcr_record_set_string rec 0 (cstr ''a:b''))
        (\<lambda>rec'. gcr_record_get_string (\<lambda>_. True) Some rec' 0) = Ret (Some (cstr (''a'' @ CHR 0x5C # ''x3ab'')))"
proof -
  let ?rec = "\<lparr>blocks = [], columns = Lit [] # replicate 31 Null, n_columns = 1, delimiter = chr CHR '':''\<rparr>"
  have "record_ok ?rec"
    by (simp add: record_ok_def record_texts_def col_text_def MAX_COLUMNS_def)
  moreover have "escaped_text (chr CHR '':'') (cstr ''a:b'') = cstr (''a'' @ CHR 0x5C # ''x3ab'')"
    "list_ex (hex_escaped (chr CHR '':'')) (cstr ''a:b'')" by code_simp+
  ultimately show ?thesis
    using gcr_record_set_get_string [of ?rec 0 "cstr ''a:b''" "\<lambda>_. True" Some] by simp
qed

text \<open>
  Parsing a line of words separated by blanks gives the non-empty words, except that a last
  word of a single character is dropped, because the end of the last word is computed one octet
  too early.\<close>
theorem gcr_record_parse_spaces_words:
  assumes "c_string line"
    and "length (filter (\<lambda>f. f \<noteq> []) (butlast (split_fields (chr CHR '' '') line))) < MAX_COLUMNS"
  shows "\<exists>rec. gcr_record_parse_spaces line (-1) = Ret (Some rec) \<and> record_ok rec \<and>
     record_abs rec =
       filter (\<lambda>f. f \<noteq> []) (butlast (split_fields (chr CHR '' '') line)) @
       (if length (last (split_fields (chr CHR '' '') line)) > 1 then [last (split_fields (chr CHR '' '') line)] else [])"
  using parse_spaces_ok [OF assms(1)] assms(2) by (simp add: linorder_not_less [symmetric] del: of_char_of)

theorem gcr_record_parse_spaces_words_witness:
  "\<exists>rec. gcr_record_parse_spaces (cstr ''OK  12 1'') (-1) = Ret (Some rec) \<and> record_ok rec \<and>
     record_abs rec = [cstr ''OK'', cstr ''12'']"
  using gcr_record_parse_spaces_words [of "cstr ''OK  12 1''"]
  by (simp add: MAX_COLUMNS_def)

text \<open>
  A number stored with \<^verbatim>\<open>set_ulong\<close> comes back modulo 2^32 when it is below 2^63,
  and is refused as out of range from there on.\<close>
theorem gcr_record_set_get_ulong:
  assumes "record_ok rec" and "c < n_columns rec" and "v < 2 ^ 64"
  shows "obind (gcr_record_set_ulong rec c v) (\<lambda>rec'. gcr_record_get_ulong rec' c) =
     Ret (if v < 2 ^ 63 then Some (v mod 2 ^ 32) else None)"
  using column_ulong.set_get [OF assms] assms(3)
  by (simp add: ulong_value_def g_ascii_strtoull_def parse_print_unsigned)

theorem gcr_record_set_get_ulong_witness:
  "obind (gcr_record_set_ulong
       \<lparr>blocks = [], columns = Lit [] # replicate 31 Null, n_columns = 1, delimiter = chr CHR '':''\<rparr> 0 4294967297)
     (\<lambda>rec'. gcr_record_get_ulong rec' 0) = Ret (Some 1)"
  using gcr_record_set_get_ulong
    [of "\<lparr>blocks = [], columns = Lit [] # replicate 31 Null, n_columns = 1, delimiter = chr CHR '':''\<rparr>" 0 4294967297]
  by (simp add: record_ok_def record_texts_def col_text_def MAX_COLUMNS_def)

text \<open>
  A copy of a well-formed record is a well-formed record with the same columns and
  delimiter in a single block of its own, whatever the fresh memory holds; the assertion about the
  total length holds.\<close>
theorem gcr_record_copy_same:
  assumes "record_ok rec"
  shows "\<exists>rec'. gcr_record_copy junk rec = Ret rec' \<and> record_ok rec' \<and>
     record_abs rec' = record_abs rec \<and> delimiter rec' = delimiter rec \<and> length (blocks rec') = 1"
  using record_flatten_ok [OF assms] by (simp add: gcr_record_copy_def)

theorem gcr_record_copy_same_witness:
  "\<exists>rec'. gcr_record_copy (\<lambda>_. 7)
       \<lparr>blocks = [], columns = Lit (cstr ''ab'') # replicate 31 Null, n_columns = 1, delimiter = 58\<rparr> = Ret rec' \<and>
     record_ok rec' \<and> record_abs rec' = [cstr ''ab''] \<and> delimiter rec' = 58 \<and> length (blocks rec') = 1"
  using gcr_record_copy_same
    [of "\<lparr>blocks = [], columns = Lit (cstr ''ab'') # replicate 31 Null, n_columns = 1, delimiter = 58\<rparr>" "\<lambda>_. 7"]
  by (simp add: record_ok_def record_abs_def record_texts_def col_text_def MAX_COLUMNS_def)

text \<open>
  The buffers of the escape functions are large enough: a text gets no longer by unescaping, and
  at most four times as long by escaping.
\<close>

lemma c_colons_unescape_fits: "c_colons_unescape s = Some t \<Longrightarrow> length t \<le> length s"
  using unescape_loop_fits [of "[]" None s t] by (simp add: c_colons_unescape_def)

lemma c_colons_escape_fits: "c_colons_escape s d = Some t \<Longrightarrow> length t \<le> 4 * length s"
  using length_escaped_text [of d s] c_colons_escape_text [of s d] by simp

lemma gcr_record_set_get_uint:
  assumes "record_ok rec" and "c < n_columns rec" and "v < 2 ^ 32"
  shows "obind (gcr_record_set_uint rec c v) (\<lambda>rec'. gcr_record_get_uint rec' c) = Ret (Some v)"
  using column_uint.set_get [OF assms] assms(3)
  by (simp add: uint_value_def g_ascii_strtoll_def parse_print_unsigned)

end
