(* ===== verification/Gck_Attributes.thy ===== *)
theory Gck_Attributes
  imports Egg_Numerals "HOL-Library.Multiset"
begin

text \<open>
  PKCS#11 attributes and their builder (gck/gck-attributes.c).

  The octets of an attribute live in reference counted values that builders, attribute lists and
  single attributes share; a value is never written after its creation.  The store maps the
  address of a value to its counter, its octets and the kind of memory it is in.  Every operation
  takes and returns the store.  A builder is the array it collects (\<open>None\<close> for the
  \<^verbatim>\<open>NULL\<close> array), its flag for secure memory and its own reference count; a pointer to an
  attribute of the array, which the functions of the source hand to each other, is its index.

  Two things are shown.  Ownership: the counter of every value is the number of attributes that
  point to it, over everything that is alive; each operation keeps this for an arbitrary rest of the
  program (the multiset \<open>F\<close> of the references held elsewhere) and leaves the octets of the rest
  alone.  So nothing is released while it is in use, nothing is released twice and nothing leaks.
  Function: each operation refines an operation on the list of pairs of a type and a view of the value
  (invalid, empty or octets).  An interface, \<open>builder_edit\<close>, carries both; the operations are
  its interpretations, and edits compose.

  Secure memory can run out, which aborts in \<^verbatim>\<open>g_assert\<close>; \<open>secure_avail\<close> says for
  which sizes it is available.  A \<^verbatim>\<open>CK_ULONG\<close> has eight octets, the least significant
  first.
\<close>

section \<open>Data\<close>

abbreviation G_MAXULONG :: nat where
  "G_MAXULONG \<equiv> 2 ^ 64 - 1"

definition GCK_INVALID :: nat where
  "GCK_INVALID = G_MAXULONG"

definition MAX_ALIGN :: nat where
  "MAX_ALIGN = 16"

text \<open>
  A value in memory: its reference counter, its octets and whether it is secure.  The counter is a
  \<^verbatim>\<open>gint\<close> in the code and an unbounded \<open>int\<close> here, which is the same as long as there are fewer than
  \<open>2 ^ 31\<close> references to one value.
\<close>

record vcell =
  vrefs :: int
  vdata :: "byte list"
  vsecure :: bool

record vstore =
  cells :: "nat \<rightharpoonup> vcell"
  vnext :: nat
  secure_avail :: "nat \<Rightarrow> bool"

record GckAttribute =
  atype :: nat
  avalue :: "nat option"
  alength :: nat

record GckRealBuilder =
  barray :: "GckAttribute list option"
  bsecure :: bool
  brefs :: int

record GckAttributes =
  adata :: "GckAttribute list"
  arefs :: int

section \<open>Values\<close>

text \<open>
  \<^verbatim>\<open>value_blank\<close>: an area with room for the counter in front.  The size is computed modulo
  2^64; when the area is smaller than the room for the counter, the returned pointer is not in it.
  \<open>junk\<close> is what the fresh area holds.
\<close>

definition value_blank ::
  "(nat \<Rightarrow> byte) \<Rightarrow> vstore \<Rightarrow> nat \<Rightarrow> bool \<Rightarrow> (vstore \<times> nat) outcome" where
  "value_blank junk st len secure =
     (let size = wrap64 (len + MAX_ALIGN) in
      if secure \<and> \<not> secure_avail st size then Abort
      else if size < MAX_ALIGN then Undef
      else Ret (st\<lparr>cells := (cells st)(vnext st \<mapsto>
                   \<lparr>vrefs = 1, vdata = map junk [0..<size - MAX_ALIGN], vsecure = secure\<rparr>),
                  vnext := Suc (vnext st)\<rparr>, vnext st))"

text \<open>The memory copied from has to hold \<open>len\<close> octets.\<close>

definition value_new :: "vstore \<Rightarrow> byte list \<Rightarrow> nat \<Rightarrow> bool \<Rightarrow> (vstore \<times> nat) outcome" where
  "value_new st data len secure =
     obind (value_blank (\<lambda>_. 0) st len secure)
       (\<lambda>(st', p). case cells st' p of
          None \<Rightarrow> Undef
        | Some c \<Rightarrow>
            if len \<le> length data \<and> len \<le> length (vdata c)
            then Ret (st'\<lparr>cells := (cells st')(p \<mapsto> c\<lparr>vdata := take len data @ drop len (vdata c)\<rparr>)\<rparr>, p)
            else Undef)"

text \<open>\<^verbatim>\<open>value_take\<close>: memory of the caller is grown and becomes a value.\<close>

definition value_take :: "vstore \<Rightarrow> byte list \<Rightarrow> nat \<Rightarrow> bool \<Rightarrow> (vstore \<times> nat) outcome" where
  "value_take st data len secure =
     (let size = wrap64 (len + MAX_ALIGN) in
      if secure \<and> \<not> secure_avail st size then Abort
      else if size < MAX_ALIGN \<or> len > length data then Undef
      else Ret (st\<lparr>cells := (cells st)(vnext st \<mapsto>
                   \<lparr>vrefs = 1, vdata = take len data, vsecure = secure\<rparr>),
                  vnext := Suc (vnext st)\<rparr>, vnext st))"

definition value_ref :: "vstore \<Rightarrow> nat \<Rightarrow> (vstore \<times> nat option) outcome" where
  "value_ref st p =
     (case cells st p of
        None \<Rightarrow> Undef
      | Some c \<Rightarrow>
          (let st' = st\<lparr>cells := (cells st)(p \<mapsto> c\<lparr>vrefs := vrefs c + 1\<rparr>)\<rparr>
           in Ret (st', if vrefs c \<le> 0 then None else Some p)))"

definition value_unref :: "vstore \<Rightarrow> nat \<Rightarrow> vstore outcome" where
  "value_unref st p =
     (case cells st p of
        None \<Rightarrow> Undef
      | Some c \<Rightarrow>
          if vrefs c - 1 = 0 then Ret (st\<lparr>cells := (cells st)(p := None)\<rparr>)
          else Ret (st\<lparr>cells := (cells st)(p \<mapsto> c\<lparr>vrefs := vrefs c - 1\<rparr>)\<rparr>))"

text \<open>The octets an attribute points to.\<close>

definition read_value :: "vstore \<Rightarrow> nat \<Rightarrow> nat \<Rightarrow> byte list outcome" where
  "read_value st p len =
     (case cells st p of
        None \<Rightarrow> Undef
      | Some c \<Rightarrow> if len \<le> length (vdata c) then Ret (take len (vdata c)) else Undef)"

section \<open>The array of a builder\<close>

definition gck_builder_init_full :: "bool \<Rightarrow> GckRealBuilder" where
  "gck_builder_init_full secure = \<lparr>barray = None, bsecure = secure, brefs = 0\<rparr>"

definition gck_builder_init :: GckRealBuilder where
  "gck_builder_init = gck_builder_init_full False"

definition gck_builder_new :: "bool \<Rightarrow> GckRealBuilder" where
  "gck_builder_new secure = (gck_builder_init_full secure)\<lparr>brefs := 1\<rparr>"

text \<open>The second component tells whether the caller gets the builder or \<^verbatim>\<open>NULL\<close>.\<close>

definition gck_builder_ref :: "GckRealBuilder \<Rightarrow> GckRealBuilder \<times> bool" where
  "gck_builder_ref b = (b\<lparr>brefs := brefs b + 1\<rparr>, brefs b \<noteq> 0)"

definition attrs_of :: "GckRealBuilder \<Rightarrow> GckAttribute list" where
  "attrs_of b = (case barray b of None \<Rightarrow> [] | Some a \<Rightarrow> a)"

definition builder_push :: "GckRealBuilder \<Rightarrow> nat \<Rightarrow> GckRealBuilder \<times> nat" where
  "builder_push b attr_type =
     (let arr = (case barray b of None \<Rightarrow> [] | Some a \<Rightarrow> a)
      in (b\<lparr>barray := Some (arr @ [\<lparr>atype = attr_type, avalue = None, alength = 0\<rparr>])\<rparr>, length arr))"

definition builder_clear :: "vstore \<Rightarrow> GckAttribute \<Rightarrow> (vstore \<times> GckAttribute) outcome" where
  "builder_clear st attr =
     (case avalue attr of
        None \<Rightarrow> Ret (st, attr\<lparr>alength := 0, avalue := None\<rparr>)
      | Some p \<Rightarrow> obind (value_unref st p) (\<lambda>st'. Ret (st', attr\<lparr>alength := 0, avalue := None\<rparr>)))"

fun find_attribute :: "GckAttribute list \<Rightarrow> nat \<Rightarrow> nat option" where
  "find_attribute [] attr_type = None"
| "find_attribute (a # as) attr_type =
     (if atype a = attr_type then Some 0 else map_option Suc (find_attribute as attr_type))"

definition set_attr :: "GckRealBuilder \<Rightarrow> nat \<Rightarrow> GckAttribute \<Rightarrow> GckRealBuilder" where
  "set_attr b i a = b\<lparr>barray := map_option (\<lambda>arr. arr[i := a]) (barray b)\<rparr>"

definition builder_clear_or_push ::
  "vstore \<Rightarrow> GckRealBuilder \<Rightarrow> nat \<Rightarrow> (vstore \<times> GckRealBuilder \<times> nat) outcome" where
  "builder_clear_or_push st b attr_type =
     (case (case barray b of None \<Rightarrow> None | Some arr \<Rightarrow> find_attribute arr attr_type) of
        None \<Rightarrow> (case builder_push b attr_type of (b', i) \<Rightarrow> Ret (st, b', i))
      | Some i \<Rightarrow>
          obind (builder_clear st (attrs_of b ! i)) (\<lambda>(st', a). Ret (st', set_attr b i a, i)))"

text \<open>
  What \<^verbatim>\<open>builder_copy\<close> stores for an attribute: a value is shared.
\<close>

definition copy_value :: "vstore \<Rightarrow> GckAttribute \<Rightarrow> (vstore \<times> nat option \<times> nat) outcome" where
  "copy_value st attr =
     (if alength attr = G_MAXULONG then Ret (st, None, G_MAXULONG)
      else case avalue attr of
        None \<Rightarrow> Ret (st, None, 0)
      | Some p \<Rightarrow> obind (value_ref st p) (\<lambda>(st', v). Ret (st', v, alength attr)))"

definition builder_copy ::
  "vstore \<Rightarrow> GckRealBuilder \<Rightarrow> GckAttribute \<Rightarrow> bool \<Rightarrow> (vstore \<times> GckRealBuilder) outcome" where
  "builder_copy st b attr performing_set =
     obind (if performing_set then builder_clear_or_push st b (atype attr)
            else (case builder_push b (atype attr) of (b', i) \<Rightarrow> Ret (st, b', i)))
       (\<lambda>(st1, b1, i). obind (copy_value st1 attr)
         (\<lambda>(st2, v, len). Ret (st2, set_attr b1 i ((attrs_of b1 ! i)\<lparr>avalue := v, alength := len\<rparr>))))"

fun builder_copy_all ::
  "vstore \<Rightarrow> GckRealBuilder \<Rightarrow> GckAttribute list \<Rightarrow> bool \<Rightarrow> (vstore \<times> GckRealBuilder) outcome" where
  "builder_copy_all st b [] performing_set = Ret (st, b)"
| "builder_copy_all st b (a # as) performing_set =
     obind (builder_copy st b a performing_set)
       (\<lambda>(st', b'). builder_copy_all st' b' as performing_set)"

definition gck_builder_copy :: "vstore \<Rightarrow> GckRealBuilder \<Rightarrow> (vstore \<times> GckRealBuilder) outcome" where
  "gck_builder_copy st b =
     builder_copy_all st (gck_builder_new (bsecure b)) (case barray b of None \<Rightarrow> [] | Some arr \<Rightarrow> arr) False"

section \<open>Adding and setting\<close>

text \<open>
  The common end of \<^verbatim>\<open>gck_builder_add_data\<close> and \<^verbatim>\<open>gck_builder_set_data\<close>, which fills
  the attribute at an index.  \<open>value\<close> is the memory of the caller (\<open>None\<close> for
  \<^verbatim>\<open>NULL\<close>) and \<open>src_secure\<close> the answer of \<^verbatim>\<open>egg_secure_check\<close> for it.
\<close>

definition fill_attr ::
  "vstore \<Rightarrow> GckRealBuilder \<Rightarrow> nat \<Rightarrow> byte list option \<Rightarrow> bool \<Rightarrow> nat \<Rightarrow> (vstore \<times> GckRealBuilder) outcome" where
  "fill_attr st b i value src_secure len =
     (let attr = attrs_of b ! i in
      if len = G_MAXULONG then Ret (st, set_attr b i (attr\<lparr>avalue := None, alength := G_MAXULONG\<rparr>))
      else case value of
        None \<Rightarrow> Ret (st, set_attr b i (attr\<lparr>avalue := None, alength := 0\<rparr>))
      | Some data \<Rightarrow>
          obind (value_new st data len (bsecure b \<or> src_secure))
            (\<lambda>(st', p). Ret (st', set_attr b i (attr\<lparr>avalue := Some p, alength := len\<rparr>))))"

definition gck_builder_add_data ::
  "vstore \<Rightarrow> GckRealBuilder \<Rightarrow> nat \<Rightarrow> byte list option \<Rightarrow> bool \<Rightarrow> nat \<Rightarrow> (vstore \<times> GckRealBuilder) outcome" where
  "gck_builder_add_data st b attr_type value src_secure len =
     (case builder_push b attr_type of (b', i) \<Rightarrow> fill_attr st b' i value src_secure len)"

definition gck_builder_set_data ::
  "vstore \<Rightarrow> GckRealBuilder \<Rightarrow> nat \<Rightarrow> byte list option \<Rightarrow> bool \<Rightarrow> nat \<Rightarrow> (vstore \<times> GckRealBuilder) outcome" where
  "gck_builder_set_data st b attr_type value src_secure len =
     obind (builder_clear_or_push st b attr_type)
       (\<lambda>(st', b', i). fill_attr st' b' i value src_secure len)"

definition gck_builder_take_data ::
  "vstore \<Rightarrow> GckRealBuilder \<Rightarrow> nat \<Rightarrow> byte list option \<Rightarrow> bool \<Rightarrow> nat \<Rightarrow> (vstore \<times> GckRealBuilder) outcome" where
  "gck_builder_take_data st b attr_type value src_secure len =
     (case builder_push b attr_type of (b', i) \<Rightarrow>
        (let attr = attrs_of b' ! i in
         if len = G_MAXULONG then Ret (st, set_attr b' i (attr\<lparr>avalue := None, alength := G_MAXULONG\<rparr>))
         else case value of
           None \<Rightarrow> Ret (st, set_attr b' i (attr\<lparr>avalue := None, alength := 0\<rparr>))
         | Some data \<Rightarrow>
             obind (value_take st data len src_secure)
               (\<lambda>(st', p). Ret (st', set_attr b' i (attr\<lparr>avalue := Some p, alength := len\<rparr>)))))"

definition gck_builder_add_empty :: "GckRealBuilder \<Rightarrow> nat \<Rightarrow> GckRealBuilder" where
  "gck_builder_add_empty b attr_type = fst (builder_push b attr_type)"

definition gck_builder_set_empty ::
  "vstore \<Rightarrow> GckRealBuilder \<Rightarrow> nat \<Rightarrow> (vstore \<times> GckRealBuilder) outcome" where
  "gck_builder_set_empty st b attr_type =
     obind (builder_clear_or_push st b attr_type) (\<lambda>(st', b', i). Ret (st', b'))"

definition gck_builder_add_invalid :: "GckRealBuilder \<Rightarrow> nat \<Rightarrow> GckRealBuilder" where
  "gck_builder_add_invalid b attr_type =
     (case builder_push b attr_type of (b', i) \<Rightarrow>
        set_attr b' i ((attrs_of b' ! i)\<lparr>alength := G_MAXULONG\<rparr>))"

definition gck_builder_set_invalid ::
  "vstore \<Rightarrow> GckRealBuilder \<Rightarrow> nat \<Rightarrow> (vstore \<times> GckRealBuilder) outcome" where
  "gck_builder_set_invalid st b attr_type =
     obind (builder_clear_or_push st b attr_type)
       (\<lambda>(st', b', i). Ret (st', set_attr b' i ((attrs_of b' ! i)\<lparr>alength := G_MAXULONG\<rparr>)))"

text \<open>The octets of a \<^verbatim>\<open>CK_ULONG\<close> in memory.\<close>

definition ulong_octets :: "nat \<Rightarrow> byte list" where
  "ulong_octets v = map (\<lambda>i. of_nat (v div 256 ^ i)) [0..<8]"

definition gck_builder_add_ulong ::
  "vstore \<Rightarrow> GckRealBuilder \<Rightarrow> nat \<Rightarrow> nat \<Rightarrow> (vstore \<times> GckRealBuilder) outcome" where
  "gck_builder_add_ulong st b attr_type v =
     gck_builder_add_data st b attr_type (Some (ulong_octets v)) False 8"

definition gck_builder_set_ulong ::
  "vstore \<Rightarrow> GckRealBuilder \<Rightarrow> nat \<Rightarrow> nat \<Rightarrow> (vstore \<times> GckRealBuilder) outcome" where
  "gck_builder_set_ulong st b attr_type v =
     gck_builder_set_data st b attr_type (Some (ulong_octets v)) False 8"

definition gck_builder_add_boolean ::
  "vstore \<Rightarrow> GckRealBuilder \<Rightarrow> nat \<Rightarrow> bool \<Rightarrow> (vstore \<times> GckRealBuilder) outcome" where
  "gck_builder_add_boolean st b attr_type v =
     gck_builder_add_data st b attr_type (Some [if v then 1 else 0]) False 1"

definition gck_builder_set_boolean ::
  "vstore \<Rightarrow> GckRealBuilder \<Rightarrow> nat \<Rightarrow> bool \<Rightarrow> (vstore \<times> GckRealBuilder) outcome" where
  "gck_builder_set_boolean st b attr_type v =
     gck_builder_set_data st b attr_type (Some [if v then 1 else 0]) False 1"

text \<open>A string of the caller, \<^verbatim>\<open>NULL\<close> included.\<close>

definition string_length :: "byte list option \<Rightarrow> nat" where
  "string_length v = (case v of None \<Rightarrow> 0 | Some s \<Rightarrow> length (until_nul s))"

definition gck_builder_add_string ::
  "vstore \<Rightarrow> GckRealBuilder \<Rightarrow> nat \<Rightarrow> byte list option \<Rightarrow> bool \<Rightarrow> (vstore \<times> GckRealBuilder) outcome" where
  "gck_builder_add_string st b attr_type v src_secure =
     gck_builder_add_data st b attr_type v src_secure (string_length v)"

definition gck_builder_set_string ::
  "vstore \<Rightarrow> GckRealBuilder \<Rightarrow> nat \<Rightarrow> byte list option \<Rightarrow> bool \<Rightarrow> (vstore \<times> GckRealBuilder) outcome" where
  "gck_builder_set_string st b attr_type v src_secure =
     gck_builder_set_data st b attr_type v src_secure (string_length v)"

section \<open>Dates\<close>

text \<open>
  A date is written as \<open>%04d%02d%02d\<close> into nine octets, terminator included.
\<close>

definition convert_gdate_to_ckdate :: "nat \<Rightarrow> nat \<Rightarrow> nat \<Rightarrow> byte list" where
  "convert_gdate_to_ckdate year month day =
     take 8 (print_padded 4 year @ print_padded 2 month @ print_padded 2 day)"

definition gck_builder_add_date ::
  "vstore \<Rightarrow> GckRealBuilder \<Rightarrow> nat \<Rightarrow> nat \<times> nat \<times> nat \<Rightarrow> (vstore \<times> GckRealBuilder) outcome" where
  "gck_builder_add_date st b attr_type d =
     (case d of (year, month, day) \<Rightarrow>
        gck_builder_add_data st b attr_type (Some (convert_gdate_to_ckdate year month day)) False 8)"

definition gck_builder_set_date ::
  "vstore \<Rightarrow> GckRealBuilder \<Rightarrow> nat \<Rightarrow> nat \<times> nat \<times> nat \<Rightarrow> (vstore \<times> GckRealBuilder) outcome" where
  "gck_builder_set_date st b attr_type d =
     (case d of (year, month, day) \<Rightarrow>
        gck_builder_set_data st b attr_type (Some (convert_gdate_to_ckdate year month day)) False 8)"

section \<open>Copying whole lists\<close>

definition gck_builder_add_attribute ::
  "vstore \<Rightarrow> GckRealBuilder \<Rightarrow> GckAttribute \<Rightarrow> (vstore \<times> GckRealBuilder) outcome" where
  "gck_builder_add_attribute st b attr = builder_copy st b attr False"

definition gck_builder_add_all ::
  "vstore \<Rightarrow> GckRealBuilder \<Rightarrow> GckAttributes \<Rightarrow> (vstore \<times> GckRealBuilder) outcome" where
  "gck_builder_add_all st b attrs = builder_copy_all st b (adata attrs) False"

definition gck_builder_set_all ::
  "vstore \<Rightarrow> GckRealBuilder \<Rightarrow> GckAttributes \<Rightarrow> (vstore \<times> GckRealBuilder) outcome" where
  "gck_builder_set_all st b attrs = builder_copy_all st b (adata attrs) True"

text \<open>An attribute is copied once for every position of its type in the list of types.\<close>

definition gck_builder_add_onlyv ::
  "vstore \<Rightarrow> GckRealBuilder \<Rightarrow> GckAttributes \<Rightarrow> nat list \<Rightarrow> (vstore \<times> GckRealBuilder) outcome" where
  "gck_builder_add_onlyv st b attrs only_types =
     builder_copy_all st b
       (concat (map (\<lambda>a. concat (map (\<lambda>t. if atype a = t then [a] else []) only_types)) (adata attrs))) False"

definition gck_builder_add_exceptv ::
  "vstore \<Rightarrow> GckRealBuilder \<Rightarrow> GckAttributes \<Rightarrow> nat list \<Rightarrow> (vstore \<times> GckRealBuilder) outcome" where
  "gck_builder_add_exceptv st b attrs except_types =
     builder_copy_all st b (filter (\<lambda>a. \<not> list_ex (\<lambda>t. atype a = t) except_types) (adata attrs)) False"

text \<open>The variable arguments end with \<^verbatim>\<open>GCK_INVALID\<close>.\<close>

definition gck_builder_add_only ::
  "vstore \<Rightarrow> GckRealBuilder \<Rightarrow> GckAttributes \<Rightarrow> nat list \<Rightarrow> (vstore \<times> GckRealBuilder) outcome" where
  "gck_builder_add_only st b attrs args =
     gck_builder_add_onlyv st b attrs (takeWhile (\<lambda>t. t \<noteq> GCK_INVALID) args)"

definition gck_builder_add_except ::
  "vstore \<Rightarrow> GckRealBuilder \<Rightarrow> GckAttributes \<Rightarrow> nat list \<Rightarrow> (vstore \<times> GckRealBuilder) outcome" where
  "gck_builder_add_except st b attrs args =
     gck_builder_add_exceptv st b attrs (takeWhile (\<lambda>t. t \<noteq> GCK_INVALID) args)"

section \<open>The end of a builder\<close>

definition gck_builder_end :: "GckRealBuilder \<Rightarrow> GckRealBuilder \<times> GckAttributes" where
  "gck_builder_end b =
     (case barray b of
        Some arr \<Rightarrow> (b\<lparr>barray := None\<rparr>, \<lparr>adata = arr, arefs = 1\<rparr>)
      | None \<Rightarrow> (b, \<lparr>adata = [], arefs = 1\<rparr>))"

fun clear_all :: "vstore \<Rightarrow> GckAttribute list \<Rightarrow> vstore outcome" where
  "clear_all st [] = Ret st"
| "clear_all st (a # as) = obind (builder_clear st a) (\<lambda>(st', a'). clear_all st' as)"

definition gck_builder_clear :: "vstore \<Rightarrow> GckRealBuilder \<Rightarrow> (vstore \<times> GckRealBuilder) outcome" where
  "gck_builder_clear st b =
     (case barray b of
        None \<Rightarrow> Ret (st, b)
      | Some arr \<Rightarrow> obind (clear_all st arr) (\<lambda>st'. Ret (st', b\<lparr>barray := None\<rparr>)))"

text \<open>\<open>None\<close> as the builder: its memory is released.\<close>

definition gck_builder_unref ::
  "vstore \<Rightarrow> GckRealBuilder \<Rightarrow> (vstore \<times> GckRealBuilder option) outcome" where
  "gck_builder_unref st b =
     (let b' = b\<lparr>brefs := brefs b - 1\<rparr> in
      if brefs b' = 0 then obind (gck_builder_clear st b') (\<lambda>(st', _). Ret (st', None))
      else Ret (st, Some b'))"

section \<open>Reading attributes\<close>

definition gck_attribute_is_invalid :: "GckAttribute \<Rightarrow> bool" where
  "gck_attribute_is_invalid attr \<longleftrightarrow> alength attr = G_MAXULONG"

text \<open>\<^verbatim>\<open>gck_value_to_ulong\<close> and \<^verbatim>\<open>gck_value_to_boolean\<close> (gck/gck-misc.c).\<close>

definition octets_ulong :: "byte list \<Rightarrow> nat" where
  "octets_ulong bs = foldr (\<lambda>b n. unat b + 256 * n) bs 0"

definition gck_value_to_ulong :: "vstore \<Rightarrow> nat option \<Rightarrow> nat \<Rightarrow> nat option outcome" where
  "gck_value_to_ulong st v len =
     (case v of
        None \<Rightarrow> Ret None
      | Some p \<Rightarrow> if len \<noteq> 8 then Ret None
                  else obind (read_value st p 8) (\<lambda>bs. Ret (Some (octets_ulong bs))))"

definition gck_value_to_boolean :: "vstore \<Rightarrow> nat option \<Rightarrow> nat \<Rightarrow> bool option outcome" where
  "gck_value_to_boolean st v len =
     (case v of
        None \<Rightarrow> Ret None
      | Some p \<Rightarrow> if len \<noteq> 1 then Ret None
                  else obind (read_value st p 1) (\<lambda>bs. Ret (Some (bs \<noteq> [0]))))"

definition gck_attribute_get_boolean :: "vstore \<Rightarrow> GckAttribute \<Rightarrow> bool outcome" where
  "gck_attribute_get_boolean st attr =
     (if gck_attribute_is_invalid attr then Ret False
      else obind (gck_value_to_boolean st (avalue attr) (alength attr))
             (\<lambda>r. Ret (case r of None \<Rightarrow> False | Some v \<Rightarrow> v)))"

definition gck_attribute_get_ulong :: "vstore \<Rightarrow> GckAttribute \<Rightarrow> nat outcome" where
  "gck_attribute_get_ulong st attr =
     (if gck_attribute_is_invalid attr then Ret 0
      else obind (gck_value_to_ulong st (avalue attr) (alength attr))
             (\<lambda>r. Ret (case r of None \<Rightarrow> G_MAXULONG | Some v \<Rightarrow> v)))"

text \<open>\<^verbatim>\<open>g_strndup\<close> ends at a NUL.\<close>

definition gck_attribute_get_string :: "vstore \<Rightarrow> GckAttribute \<Rightarrow> byte list option outcome" where
  "gck_attribute_get_string st attr =
     (if gck_attribute_is_invalid attr then Ret None
      else case avalue attr of
        None \<Rightarrow> Ret None
      | Some p \<Rightarrow> obind (read_value st p (alength attr)) (\<lambda>bs. Ret (Some (until_nul bs))))"

definition gck_attribute_get_data :: "vstore \<Rightarrow> GckAttribute \<Rightarrow> (nat option \<times> nat)" where
  "gck_attribute_get_data st attr =
     (if alength attr = G_MAXULONG then (None, 0) else (avalue attr, alength attr))"

text \<open>
  \<^verbatim>\<open>gck_attribute_get_date\<close> clears the date, leaves it as it was (after a failed check), or
  sets day, month and year, cut to the widths of the arguments of \<^verbatim>\<open>g_date_set_dmy\<close>.
\<close>

datatype date_result = DateCleared | DateUntouched | DateSet nat nat nat

definition read_field :: "byte list \<Rightarrow> nat option" where
  "read_field s =
     (case g_ascii_strtoll (until_nul s) of (v, rest) \<Rightarrow>
        if rest \<noteq> until_nul s \<and> rest = [] then Some (nat (v mod 2 ^ 32)) else None)"

definition gck_attribute_get_date :: "vstore \<Rightarrow> GckAttribute \<Rightarrow> date_result outcome" where
  "gck_attribute_get_date st attr =
     (if gck_attribute_is_invalid attr then Ret DateCleared
      else if alength attr \<noteq> 8 then Ret DateUntouched
      else case avalue attr of
        None \<Rightarrow> Ret DateUntouched
      | Some p \<Rightarrow> obind (read_value st p 8)
          (\<lambda>bs. Ret (case (read_field (take 4 bs), read_field (take 2 (drop 4 bs)), read_field (drop 6 bs)) of
             (Some year, Some month, Some day) \<Rightarrow> DateSet (day mod 256) month (year mod 65536)
           | _ \<Rightarrow> DateUntouched)))"

section \<open>Finding\<close>

definition gck_builder_find :: "GckRealBuilder \<Rightarrow> nat \<Rightarrow> nat option" where
  "gck_builder_find b attr_type =
     (case barray b of None \<Rightarrow> None | Some arr \<Rightarrow> find_attribute arr attr_type)"

definition find_attribute_boolean ::
  "vstore \<Rightarrow> GckAttribute list \<Rightarrow> nat \<Rightarrow> bool option outcome" where
  "find_attribute_boolean st as attr_type =
     (case find_attribute as attr_type of
        None \<Rightarrow> Ret None
      | Some i \<Rightarrow> if gck_attribute_is_invalid (as ! i) then Ret None
                  else gck_value_to_boolean st (avalue (as ! i)) (alength (as ! i)))"

definition find_attribute_ulong ::
  "vstore \<Rightarrow> GckAttribute list \<Rightarrow> nat \<Rightarrow> nat option outcome" where
  "find_attribute_ulong st as attr_type =
     (case find_attribute as attr_type of
        None \<Rightarrow> Ret None
      | Some i \<Rightarrow> if gck_attribute_is_invalid (as ! i) then Ret None
                  else gck_value_to_ulong st (avalue (as ! i)) (alength (as ! i)))"

definition find_attribute_string ::
  "vstore \<Rightarrow> GckAttribute list \<Rightarrow> nat \<Rightarrow> byte list option outcome" where
  "find_attribute_string st as attr_type =
     (case find_attribute as attr_type of
        None \<Rightarrow> Ret None
      | Some i \<Rightarrow> if gck_attribute_is_invalid (as ! i) then Ret None
                  else gck_attribute_get_string st (as ! i))"

definition find_attribute_date ::
  "vstore \<Rightarrow> GckAttribute list \<Rightarrow> nat \<Rightarrow> date_result option outcome" where
  "find_attribute_date st as attr_type =
     (case find_attribute as attr_type of
        None \<Rightarrow> Ret None
      | Some i \<Rightarrow> if gck_attribute_is_invalid (as ! i) then Ret None
                  else obind (gck_attribute_get_date st (as ! i)) (\<lambda>d. Ret (Some d)))"

definition gck_builder_find_boolean :: "vstore \<Rightarrow> GckRealBuilder \<Rightarrow> nat \<Rightarrow> bool option outcome" where
  "gck_builder_find_boolean st b attr_type =
     (case barray b of None \<Rightarrow> Ret None | Some arr \<Rightarrow> find_attribute_boolean st arr attr_type)"

definition gck_builder_find_ulong :: "vstore \<Rightarrow> GckRealBuilder \<Rightarrow> nat \<Rightarrow> nat option outcome" where
  "gck_builder_find_ulong st b attr_type =
     (case barray b of None \<Rightarrow> Ret None | Some arr \<Rightarrow> find_attribute_ulong st arr attr_type)"

definition gck_builder_find_string ::
  "vstore \<Rightarrow> GckRealBuilder \<Rightarrow> nat \<Rightarrow> byte list option outcome" where
  "gck_builder_find_string st b attr_type =
     (case barray b of None \<Rightarrow> Ret None | Some arr \<Rightarrow> find_attribute_string st arr attr_type)"

definition gck_builder_find_date ::
  "vstore \<Rightarrow> GckRealBuilder \<Rightarrow> nat \<Rightarrow> date_result option outcome" where
  "gck_builder_find_date st b attr_type =
     (case barray b of None \<Rightarrow> Ret None | Some arr \<Rightarrow> find_attribute_date st arr attr_type)"

section \<open>Single attributes\<close>

definition gck_attribute_init ::
  "vstore \<Rightarrow> nat \<Rightarrow> byte list option \<Rightarrow> bool \<Rightarrow> nat \<Rightarrow> (vstore \<times> GckAttribute) outcome" where
  "gck_attribute_init st attr_type value src_secure len =
     (if len = G_MAXULONG then Ret (st, \<lparr>atype = attr_type, avalue = None, alength = G_MAXULONG\<rparr>)
      else case value of
        None \<Rightarrow> Ret (st, \<lparr>atype = attr_type, avalue = None, alength = 0\<rparr>)
      | Some data \<Rightarrow>
          obind (value_new st data len src_secure)
            (\<lambda>(st', p). Ret (st', \<lparr>atype = attr_type, avalue = Some p, alength = len\<rparr>)))"

definition gck_attribute_init_invalid :: "nat \<Rightarrow> GckAttribute" where
  "gck_attribute_init_invalid attr_type = \<lparr>atype = attr_type, avalue = None, alength = G_MAXULONG\<rparr>"

definition gck_attribute_init_empty :: "nat \<Rightarrow> GckAttribute" where
  "gck_attribute_init_empty attr_type = \<lparr>atype = attr_type, avalue = None, alength = 0\<rparr>"

definition gck_attribute_init_boolean :: "vstore \<Rightarrow> nat \<Rightarrow> bool \<Rightarrow> (vstore \<times> GckAttribute) outcome" where
  "gck_attribute_init_boolean st attr_type v =
     gck_attribute_init st attr_type (Some [if v then 1 else 0]) False 1"

definition gck_attribute_init_date ::
  "vstore \<Rightarrow> nat \<Rightarrow> nat \<times> nat \<times> nat \<Rightarrow> (vstore \<times> GckAttribute) outcome" where
  "gck_attribute_init_date st attr_type d =
     (case d of (year, month, day) \<Rightarrow>
        gck_attribute_init st attr_type (Some (convert_gdate_to_ckdate year month day)) False 8)"

definition gck_attribute_init_ulong :: "vstore \<Rightarrow> nat \<Rightarrow> nat \<Rightarrow> (vstore \<times> GckAttribute) outcome" where
  "gck_attribute_init_ulong st attr_type v =
     gck_attribute_init st attr_type (Some (ulong_octets v)) False 8"

definition gck_attribute_init_string ::
  "vstore \<Rightarrow> nat \<Rightarrow> byte list option \<Rightarrow> bool \<Rightarrow> (vstore \<times> GckAttribute) outcome" where
  "gck_attribute_init_string st attr_type v src_secure =
     gck_attribute_init st attr_type v src_secure (string_length v)"

text \<open>
  The functions \<^verbatim>\<open>gck_attribute_new\<close> and so on initialise an attribute in memory of its own.
\<close>

definition gck_attribute_new ::
  "vstore \<Rightarrow> nat \<Rightarrow> byte list option \<Rightarrow> bool \<Rightarrow> nat \<Rightarrow> (vstore \<times> GckAttribute) outcome" where
  "gck_attribute_new st attr_type value src_secure len = gck_attribute_init st attr_type value src_secure len"

definition gck_attribute_new_invalid :: "nat \<Rightarrow> GckAttribute" where
  "gck_attribute_new_invalid attr_type = gck_attribute_init_invalid attr_type"

definition gck_attribute_new_empty :: "nat \<Rightarrow> GckAttribute" where
  "gck_attribute_new_empty attr_type = gck_attribute_init_empty attr_type"

definition gck_attribute_new_boolean :: "vstore \<Rightarrow> nat \<Rightarrow> bool \<Rightarrow> (vstore \<times> GckAttribute) outcome" where
  "gck_attribute_new_boolean st attr_type v = gck_attribute_init_boolean st attr_type v"

definition gck_attribute_new_date ::
  "vstore \<Rightarrow> nat \<Rightarrow> nat \<times> nat \<times> nat \<Rightarrow> (vstore \<times> GckAttribute) outcome" where
  "gck_attribute_new_date st attr_type d = gck_attribute_init_date st attr_type d"

definition gck_attribute_new_ulong :: "vstore \<Rightarrow> nat \<Rightarrow> nat \<Rightarrow> (vstore \<times> GckAttribute) outcome" where
  "gck_attribute_new_ulong st attr_type v = gck_attribute_init_ulong st attr_type v"

definition gck_attribute_new_string ::
  "vstore \<Rightarrow> nat \<Rightarrow> byte list option \<Rightarrow> bool \<Rightarrow> (vstore \<times> GckAttribute) outcome" where
  "gck_attribute_new_string st attr_type v src_secure = gck_attribute_init_string st attr_type v src_secure"

definition gck_attribute_init_copy :: "vstore \<Rightarrow> GckAttribute \<Rightarrow> (vstore \<times> GckAttribute) outcome" where
  "gck_attribute_init_copy st src =
     (if alength src = G_MAXULONG
      then Ret (st, \<lparr>atype = atype src, avalue = None, alength = G_MAXULONG\<rparr>)
      else case avalue src of
        None \<Rightarrow> Ret (st, \<lparr>atype = atype src, avalue = None, alength = 0\<rparr>)
      | Some p \<Rightarrow>
          obind (value_ref st p)
            (\<lambda>(st', v). Ret (st', \<lparr>atype = atype src, avalue = v, alength = alength src\<rparr>)))"

definition gck_attribute_dup ::
  "vstore \<Rightarrow> GckAttribute option \<Rightarrow> (vstore \<times> GckAttribute option) outcome" where
  "gck_attribute_dup st attr =
     (case attr of
        None \<Rightarrow> Ret (st, None)
      | Some a \<Rightarrow> obind (gck_attribute_init_copy st a) (\<lambda>(st', c). Ret (st', Some c)))"

definition gck_attribute_clear :: "vstore \<Rightarrow> GckAttribute \<Rightarrow> (vstore \<times> GckAttribute) outcome" where
  "gck_attribute_clear st attr =
     (case avalue attr of
        None \<Rightarrow> Ret (st, attr\<lparr>avalue := None, alength := 0\<rparr>)
      | Some p \<Rightarrow> obind (value_unref st p) (\<lambda>st'. Ret (st', attr\<lparr>avalue := None, alength := 0\<rparr>)))"

definition gck_attribute_free :: "vstore \<Rightarrow> GckAttribute option \<Rightarrow> vstore outcome" where
  "gck_attribute_free st attr =
     (case attr of
        None \<Rightarrow> Ret st
      | Some a \<Rightarrow> obind (gck_attribute_clear st a) (\<lambda>(st', _). Ret st'))"

definition gck_attribute_equal ::
  "vstore \<Rightarrow> GckAttribute option \<Rightarrow> GckAttribute option \<Rightarrow> bool outcome" where
  "gck_attribute_equal st attr1 attr2 =
     (case (attr1, attr2) of
        (None, None) \<Rightarrow> Ret True
      | (Some aa, Some ab) \<Rightarrow>
          if atype aa \<noteq> atype ab then Ret False
          else if alength aa \<noteq> alength ab then Ret False
          else (case (avalue aa, avalue ab) of
             (None, None) \<Rightarrow> Ret True
           | (Some p, Some q) \<Rightarrow>
               obind (read_value st p (alength aa))
                 (\<lambda>x. obind (read_value st q (alength aa)) (\<lambda>y. Ret (x = y)))
           | _ \<Rightarrow> Ret False)
      | _ \<Rightarrow> Ret False)"

text \<open>The hash: octets are added as signed numbers, modulo 2^32.\<close>

definition gck_ulong_hash :: "nat \<Rightarrow> 32 word" where
  "gck_ulong_hash v =
     (let p = ulong_octets v in
      foldl (\<lambda>h c. (push_bit 5 h - h) + of_int (sint c)) (of_int (sint (hd p))) p)"

definition gck_attribute_hash :: "vstore \<Rightarrow> GckAttribute \<Rightarrow> 32 word outcome" where
  "gck_attribute_hash st a =
     (let h = 5381 XOR gck_ulong_hash (atype a) in
      case avalue a of
        None \<Rightarrow> Ret h
      | Some p \<Rightarrow>
          obind (read_value st p (alength a))
            (\<lambda>bs. Ret (foldl (\<lambda>h c. (push_bit 5 h + h) + of_int (sint c)) h bs)))"

section \<open>Attribute lists\<close>

fun add_empties :: "GckRealBuilder \<Rightarrow> nat list \<Rightarrow> GckRealBuilder" where
  "add_empties b [] = b"
| "add_empties b (t # ts) = add_empties (gck_builder_add_empty b t) ts"

definition gck_attributes_new_empty :: "nat list \<Rightarrow> GckAttributes" where
  "gck_attributes_new_empty args =
     snd (gck_builder_end (add_empties gck_builder_init (takeWhile (\<lambda>t. t \<noteq> GCK_INVALID) args)))"

definition gck_attributes_new :: GckAttributes where
  "gck_attributes_new = snd (gck_builder_end gck_builder_init)"

definition gck_attributes_at :: "GckAttributes \<Rightarrow> nat \<Rightarrow> GckAttribute option" where
  "gck_attributes_at attrs i = (if i < length (adata attrs) then Some (adata attrs ! i) else None)"

definition gck_attributes_count :: "GckAttributes \<Rightarrow> nat" where
  "gck_attributes_count attrs = length (adata attrs)"

definition gck_attributes_find :: "GckAttributes \<Rightarrow> nat \<Rightarrow> nat option" where
  "gck_attributes_find attrs attr_type = find_attribute (adata attrs) attr_type"

definition gck_attributes_find_boolean :: "vstore \<Rightarrow> GckAttributes \<Rightarrow> nat \<Rightarrow> bool option outcome" where
  "gck_attributes_find_boolean st attrs attr_type = find_attribute_boolean st (adata attrs) attr_type"

definition gck_attributes_find_ulong :: "vstore \<Rightarrow> GckAttributes \<Rightarrow> nat \<Rightarrow> nat option outcome" where
  "gck_attributes_find_ulong st attrs attr_type = find_attribute_ulong st (adata attrs) attr_type"

definition gck_attributes_find_string ::
  "vstore \<Rightarrow> GckAttributes \<Rightarrow> nat \<Rightarrow> byte list option outcome" where
  "gck_attributes_find_string st attrs attr_type = find_attribute_string st (adata attrs) attr_type"

definition gck_attributes_find_date ::
  "vstore \<Rightarrow> GckAttributes \<Rightarrow> nat \<Rightarrow> date_result option outcome" where
  "gck_attributes_find_date st attrs attr_type = find_attribute_date st (adata attrs) attr_type"

definition gck_attributes_ref :: "GckAttributes \<Rightarrow> GckAttributes" where
  "gck_attributes_ref attrs = attrs\<lparr>arefs := arefs attrs + 1\<rparr>"

fun unref_all :: "vstore \<Rightarrow> GckAttribute list \<Rightarrow> vstore outcome" where
  "unref_all st [] = Ret st"
| "unref_all st (a # as) =
     obind (case avalue a of None \<Rightarrow> Ret st | Some p \<Rightarrow> value_unref st p) (\<lambda>st'. unref_all st' as)"

definition gck_attributes_unref ::
  "vstore \<Rightarrow> GckAttributes option \<Rightarrow> (vstore \<times> GckAttributes option) outcome" where
  "gck_attributes_unref st attrs =
     (case attrs of
        None \<Rightarrow> Ret (st, None)
      | Some a \<Rightarrow>
          (let a' = a\<lparr>arefs := arefs a - 1\<rparr> in
           if arefs a' = 0 then obind (unref_all st (adata a')) (\<lambda>st'. Ret (st', None))
           else Ret (st, Some a')))"

fun contains_loop :: "vstore \<Rightarrow> GckAttribute list \<Rightarrow> GckAttribute option \<Rightarrow> bool outcome" where
  "contains_loop st [] match = Ret False"
| "contains_loop st (a # as) match =
     obind (gck_attribute_equal st (Some a) match)
       (\<lambda>eq. if eq then Ret True else contains_loop st as match)"

definition gck_attributes_contains ::
  "vstore \<Rightarrow> GckAttributes \<Rightarrow> GckAttribute option \<Rightarrow> bool outcome" where
  "gck_attributes_contains st attrs match = contains_loop st (adata attrs) match"

section \<open>Attributes filled by a module\<close>

text \<open>
  Before the first call of \<^verbatim>\<open>C_GetAttributeValue\<close> all values are dropped; between the calls
  each attribute gets an area of the length the module has set.
\<close>

fun prepare_all :: "vstore \<Rightarrow> GckAttribute list \<Rightarrow> (vstore \<times> GckAttribute list) outcome" where
  "prepare_all st [] = Ret (st, [])"
| "prepare_all st (a # as) =
     obind (case avalue a of None \<Rightarrow> Ret st | Some p \<Rightarrow> value_unref st p)
       (\<lambda>st'. obind (prepare_all st' as)
         (\<lambda>(st'', as'). Ret (st'', a\<lparr>avalue := None, alength := 0\<rparr> # as')))"

definition gck_builder_prepare_in :: "vstore \<Rightarrow> GckRealBuilder \<Rightarrow> (vstore \<times> GckRealBuilder) outcome" where
  "gck_builder_prepare_in st b =
     (case barray b of
        None \<Rightarrow> Ret (st, b)
      | Some arr \<Rightarrow> obind (prepare_all st arr) (\<lambda>(st', arr'). Ret (st', b\<lparr>barray := Some arr'\<rparr>)))"

fun commit_all ::
  "(nat \<Rightarrow> byte) \<Rightarrow> vstore \<Rightarrow> bool \<Rightarrow> GckAttribute list \<Rightarrow> (vstore \<times> GckAttribute list) outcome" where
  "commit_all junk st secure [] = Ret (st, [])"
| "commit_all junk st secure (a # as) =
     obind (if alength a \<noteq> 0 \<and> alength a \<noteq> G_MAXULONG
            then obind (value_blank junk st (alength a) secure) (\<lambda>(st', p). Ret (st', Some p))
            else Ret (st, None))
       (\<lambda>(st', v). obind (commit_all junk st' secure as)
         (\<lambda>(st'', as'). Ret (st'', a\<lparr>avalue := v\<rparr> # as')))"

definition gck_builder_commit_in ::
  "(nat \<Rightarrow> byte) \<Rightarrow> vstore \<Rightarrow> GckRealBuilder \<Rightarrow> (vstore \<times> GckRealBuilder) outcome" where
  "gck_builder_commit_in junk st b =
     (case barray b of
        None \<Rightarrow> Ret (st, b)
      | Some arr \<Rightarrow>
          obind (commit_all junk st (bsecure b) arr) (\<lambda>(st', arr'). Ret (st', b\<lparr>barray := Some arr'\<rparr>)))"

definition gck_attributes_commit_out :: "GckAttributes \<Rightarrow> GckAttribute list" where
  "gck_attributes_commit_out attrs = adata attrs"

section \<open>Ownership\<close>

definition aref :: "GckAttribute \<Rightarrow> nat multiset" where
  "aref a = (case avalue a of None \<Rightarrow> {#} | Some p \<Rightarrow> {#p#})"

definition refs_of :: "GckAttribute list \<Rightarrow> nat multiset" where
  "refs_of as = sum_list (map aref as)"

text \<open>Every value has exactly as many references as its counter says, and at least one.\<close>

definition store_ok :: "vstore \<Rightarrow> nat multiset \<Rightarrow> bool" where
  "store_ok st R \<longleftrightarrow>
     (\<forall>p. map_option vrefs (cells st p) = (if p \<in># R then Some (int (count R p)) else None)) \<and>
     (\<forall>p \<ge> vnext st. cells st p = None)"

text \<open>The values in \<open>R\<close> are still there with the same octets; secure memory is as before.\<close>

definition keeps :: "nat multiset \<Rightarrow> vstore \<Rightarrow> vstore \<Rightarrow> bool" where
  "keeps R st st' \<longleftrightarrow>
     (\<forall>p \<in># R. map_option vdata (cells st' p) = map_option vdata (cells st p)) \<and>
     secure_avail st' = secure_avail st"

definition attr_ok :: "vstore \<Rightarrow> GckAttribute \<Rightarrow> bool" where
  "attr_ok st a \<longleftrightarrow>
     (case avalue a of
        None \<Rightarrow> alength a = 0 \<or> alength a = G_MAXULONG
      | Some p \<Rightarrow> alength a \<noteq> G_MAXULONG \<and> map_option (length \<circ> vdata) (cells st p) = Some (alength a))"

datatype aval = Invalid | Empty | Octets "byte list"

definition attr_val :: "vstore \<Rightarrow> GckAttribute \<Rightarrow> aval" where
  "attr_val st a =
     (if alength a = G_MAXULONG then Invalid
      else case avalue a of None \<Rightarrow> Empty | Some p \<Rightarrow> Octets (vdata (the (cells st p))))"

definition views :: "vstore \<Rightarrow> GckAttribute list \<Rightarrow> (nat \<times> aval) list" where
  "views st as = map (\<lambda>a. (atype a, attr_val st a)) as"

definition builder_ok :: "vstore \<Rightarrow> nat multiset \<Rightarrow> GckRealBuilder \<Rightarrow> bool" where
  "builder_ok st F b \<longleftrightarrow> store_ok st (F + refs_of (attrs_of b)) \<and> list_all (attr_ok st) (attrs_of b)"

definition secure_ready :: "vstore \<Rightarrow> bool" where
  "secure_ready st \<longleftrightarrow> (\<forall>n. secure_avail st n)"

lemma refs_of_simps [simp]:
  "refs_of [] = {#}" "refs_of (a # as) = aref a + refs_of as" "refs_of (as @ bs) = refs_of as + refs_of bs"
  by (simp_all add: refs_of_def)

lemma aref_None [simp]: "avalue a = None \<Longrightarrow> aref a = {#}"
  and aref_Some [simp]: "avalue a = Some p \<Longrightarrow> aref a = {#p#}"
  by (simp_all add: aref_def)

lemma aref_subset: "a \<in> set as \<Longrightarrow> aref a \<subseteq># refs_of as"
  by (induction as) (auto intro: subset_mset.order_trans [OF _ mset_subset_eq_add_right])

lemma refs_of_update:
  "i < length as \<Longrightarrow> avalue (as ! i) = None \<Longrightarrow> refs_of (as[i := a]) = refs_of as + aref a"
proof (induction as arbitrary: i)
  case (Cons x as)
  then show ?case by (cases i) (auto simp: ac_simps)
qed simp

lemma refs_of_clear:
  "i < length as \<Longrightarrow> avalue a = None \<Longrightarrow> refs_of as = refs_of (as[i := a]) + aref (as ! i)"
proof (induction as arbitrary: i)
  case (Cons x as)
  then show ?case by (cases i) (auto simp: ac_simps)
qed simp

lemma views_simps [simp]:
  "views st [] = []" "views st (a # as) = (atype a, attr_val st a) # views st as"
  "views st (as @ bs) = views st as @ views st bs" "length (views st as) = length as"
  by (simp_all add: views_def)

lemma views_update: "views st (as[i := a]) = (views st as)[i := (atype a, attr_val st a)]"
  by (simp add: views_def map_update)

lemma keeps_refl [simp]: "keeps R st st"
  by (simp add: keeps_def)

lemma keeps_trans: "keeps R st st' \<Longrightarrow> keeps R st' st'' \<Longrightarrow> keeps R st st''"
  by (simp add: keeps_def)

lemma keeps_sub: "keeps R st st' \<Longrightarrow> S \<subseteq># R \<Longrightarrow> keeps S st st'"
  by (auto simp: keeps_def dest: mset_subset_eqD)

lemma keeps_add: "keeps (F + G) st st' \<Longrightarrow> keeps F st st'"
  by (erule keeps_sub) simp

lemma keeps_secure: "keeps R st st' \<Longrightarrow> secure_ready st' = secure_ready st"
  by (simp add: keeps_def secure_ready_def)

lemma keeps_attr:
  assumes "keeps R st st'" and "aref a \<subseteq># R"
  shows "attr_ok st' a = attr_ok st a" "attr_val st' a = attr_val st a"
proof -
  have same: "map_option vdata (cells st' p) = map_option vdata (cells st p)" if "avalue a = Some p" for p
    using assms that by (auto simp: keeps_def)
  show "attr_ok st' a = attr_ok st a"
  proof (cases "avalue a")
    case (Some p)
    from arg_cong [OF same [OF this], of "map_option length"] Some show ?thesis
      by (simp add: attr_ok_def option.map_comp)
  qed (simp add: attr_ok_def)
  show "attr_val st' a = attr_val st a"
  proof (cases "avalue a")
    case (Some p)
    with same [OF this] show ?thesis
      by (cases "cells st p"; cases "cells st' p") (auto simp: attr_val_def the_def)
  qed (simp add: attr_val_def)
qed

lemma keeps_attr_list:
  assumes "keeps R st st'" and "list_all (\<lambda>a. aref a \<subseteq># R) as"
  shows "list_all (attr_ok st') as = list_all (attr_ok st) as" "views st' as = views st as"
  using keeps_attr [OF assms(1)] assms(2) by (auto simp: list_all_iff views_def)

lemma keeps_attrs:
  assumes "keeps R st st'" and "refs_of as \<subseteq># R"
  shows "list_all (attr_ok st') as = list_all (attr_ok st) as" "views st' as = views st as"
proof -
  have "list_all (\<lambda>a. aref a \<subseteq># R) as"
    using aref_subset assms(2) by (auto simp: list_all_iff intro: subset_mset.order_trans)
  from keeps_attr_list [OF assms(1) this]
  show "list_all (attr_ok st') as = list_all (attr_ok st) as" "views st' as = views st as" .
qed

subsection \<open>Values\<close>

lemma store_ok_cell:
  "store_ok st R \<Longrightarrow>
   map_option vrefs (cells st p) = (if p \<in># R then Some (int (count R p)) else None)"
  by (simp add: store_ok_def)

lemma store_ok_fresh:
  assumes "store_ok st R"
  shows "cells st (vnext st) = None" "vnext st \<notin># R"
proof -
  show none: "cells st (vnext st) = None" using assms by (simp add: store_ok_def)
  from store_ok_cell [OF assms, of "vnext st"] none show "vnext st \<notin># R" by (auto split: if_splits)
qed

text \<open>The counter of one value changes together with the references to it.\<close>

lemma store_ok_change:
  assumes "store_ok st R" and "\<And>q. q \<noteq> p \<Longrightarrow> count R' q = count R q" and "p < vnext st"
    and "map_option vrefs v = (if p \<in># R' then Some (int (count R' p)) else None)"
  shows "store_ok (st\<lparr>cells := (cells st)(p := v)\<rparr>) R'"
  unfolding store_ok_def
proof (intro conjI allI impI)
  fix q
  have "q \<in># R' \<longleftrightarrow> q \<in># R" if "q \<noteq> p"
    using assms(2) [OF that] by (metis count_greater_zero_iff)
  then show "map_option vrefs (cells (st\<lparr>cells := (cells st)(p := v)\<rparr>) q) =
      (if q \<in># R' then Some (int (count R' q)) else None)"
    using assms(2) [of q] assms(4) store_ok_cell [OF assms(1), of q] by (cases "q = p") simp_all
next
  fix q
  assume "vnext (st\<lparr>cells := (cells st)(p := v)\<rparr>) \<le> q"
  with assms(1,3) show "cells (st\<lparr>cells := (cells st)(p := v)\<rparr>) q = None" by (simp add: store_ok_def)
qed

lemma store_ok_below: "store_ok st R \<Longrightarrow> p \<in># R \<Longrightarrow> p < vnext st"
  by (metis linorder_not_less option.map_disc_iff option.simps(3) store_ok_def)

lemma value_unref_ok:
  assumes "store_ok st (add_mset p F)"
  shows "\<exists>st'. value_unref st p = Ret st' \<and> store_ok st' F \<and> keeps F st st'"
proof -
  obtain c where c: "cells st p = Some c" "vrefs c = int (count F p) + 1"
    using store_ok_cell [OF assms, of p] by auto
  define v where "v = (if p \<in># F then Some (c\<lparr>vrefs := vrefs c - 1\<rparr>) else None)"
  have "map_option vrefs v = (if p \<in># F then Some (int (count F p)) else None)"
    using c by (simp add: v_def)
  then have "store_ok (st\<lparr>cells := (cells st)(p := v)\<rparr>) F"
    by (intro store_ok_change [OF assms]) (use store_ok_below [OF assms, of p] in auto)
  moreover have "value_unref st p = Ret (st\<lparr>cells := (cells st)(p := v)\<rparr>)"
    using c count_greater_zero_iff [of F p] by (auto simp: value_unref_def v_def simp del: count_greater_zero_iff)
  moreover have "keeps F st (st\<lparr>cells := (cells st)(p := v)\<rparr>)"
    using c by (auto simp: keeps_def v_def)
  ultimately show ?thesis by blast
qed

lemma value_ref_ok:
  assumes "store_ok st F" and "p \<in># F"
  shows "\<exists>st'. value_ref st p = Ret (st', Some p) \<and> store_ok st' (add_mset p F) \<and> keeps F st st'"
proof -
  obtain c where c: "cells st p = Some c" "vrefs c = int (count F p)"
    using store_ok_cell [OF assms(1), of p] assms(2) by auto
  let ?st = "st\<lparr>cells := (cells st)(p \<mapsto> c\<lparr>vrefs := vrefs c + 1\<rparr>)\<rparr>"
  have "store_ok ?st (add_mset p F)"
    by (rule store_ok_change [OF assms(1)]) (use c store_ok_below [OF assms] in auto)
  moreover have "0 < count F p" using assms(2) by simp
  then have "value_ref st p = Ret (?st, Some p)"
    using c by (simp add: value_ref_def Let_def)
  moreover have "keeps F st ?st" using c by (simp add: keeps_def)
  ultimately show ?thesis by blast
qed

text \<open>A fresh value.\<close>

lemma fresh_value_ok:
  assumes "store_ok st F" and "vrefs c = 1"
  defines "st' \<equiv> st\<lparr>cells := (cells st)(vnext st \<mapsto> c), vnext := Suc (vnext st)\<rparr>"
  shows "store_ok st' (add_mset (vnext st) F)" "keeps F st st'" "cells st' (vnext st) = Some c"
proof -
  note fresh = store_ok_fresh [OF assms(1)]
  have "store_ok (st\<lparr>vnext := Suc (vnext st)\<rparr>) F" using assms(1) by (simp add: store_ok_def)
  from store_ok_change [OF this, where p = "vnext st" and R' = "add_mset (vnext st) F" and v = "Some c"]
  have "store_ok (st\<lparr>vnext := Suc (vnext st), cells := (cells st)(vnext st \<mapsto> c)\<rparr>) (add_mset (vnext st) F)"
    using assms(2) fresh by (simp add: not_in_iff)
  moreover have "st' = st\<lparr>vnext := Suc (vnext st), cells := (cells st)(vnext st \<mapsto> c)\<rparr>" by (simp add: st'_def)
  ultimately show "store_ok st' (add_mset (vnext st) F)" by simp
  show "keeps F st st'" using fresh by (auto simp: keeps_def st'_def)
qed (simp add: st'_def)

lemma vstore_update_order: "st\<lparr>vnext := n, cells := m\<rparr> = st\<lparr>cells := m, vnext := n\<rparr>"
  by simp

lemma value_new_ok:
  assumes "store_ok st F" and "secure_ready st" and "len \<le> length data" and "len + MAX_ALIGN < 2 ^ 64"
  shows "\<exists>st' p. value_new st data len secure = Ret (st', p) \<and> store_ok st' (add_mset p F) \<and>
     keeps F st st' \<and> cells st' p = Some \<lparr>vrefs = 1, vdata = take len data, vsecure = secure\<rparr>"
  using fresh_value_ok [OF assms(1), of "\<lparr>vrefs = 1, vdata = take len data, vsecure = secure\<rparr>"] assms(2-4)
  by (simp add: value_new_def value_blank_def secure_ready_def wrap64_id Let_def vstore_update_order)

lemma value_take_ok:
  assumes "store_ok st F" and "secure_ready st" and "len \<le> length data" and "len + MAX_ALIGN < 2 ^ 64"
  shows "\<exists>st' p. value_take st data len secure = Ret (st', p) \<and> store_ok st' (add_mset p F) \<and>
     keeps F st st' \<and> cells st' p = Some \<lparr>vrefs = 1, vdata = take len data, vsecure = secure\<rparr>"
  using fresh_value_ok [OF assms(1), of "\<lparr>vrefs = 1, vdata = take len data, vsecure = secure\<rparr>"] assms(2-4)
  by (simp add: value_take_def secure_ready_def wrap64_id Let_def)

section \<open>Edits\<close>

text \<open>
  The contract of an operation on a builder for a rest \<open>F\<close> of the program: it succeeds, keeps
  the ownership and the values of the rest, and does the edit \<open>ed\<close> to the list of views.
\<close>

definition edits ::
  "nat multiset \<Rightarrow> vstore \<Rightarrow> GckRealBuilder \<Rightarrow> (vstore \<times> GckRealBuilder) outcome \<Rightarrow>
   ((nat \<times> aval) list \<Rightarrow> (nat \<times> aval) list) \<Rightarrow> bool" where
  "edits F st b r ed \<longleftrightarrow>
     (\<exists>st' b'. r = Ret (st', b') \<and> builder_ok st' F b' \<and> keeps F st st' \<and>
        bsecure b' = bsecure b \<and> brefs b' = brefs b \<and>
        views st' (attrs_of b') = ed (views st (attrs_of b)))"

lemma edits_obind:
  assumes "edits F st b r ed"
    and next_op: "\<And>st' b'. builder_ok st' F b' \<Longrightarrow> keeps F st st' \<Longrightarrow> bsecure b' = bsecure b \<Longrightarrow>
      edits F st' b' (f (st', b')) ed'"
  shows "edits F st b (obind r f) (ed' \<circ> ed)"
proof -
  obtain st' b' where r: "r = Ret (st', b')" and b': "builder_ok st' F b'" and st': "keeps F st st'"
    and same: "bsecure b' = bsecure b" "brefs b' = brefs b"
    and vs: "views st' (attrs_of b') = ed (views st (attrs_of b))"
    using assms(1) by (auto simp: edits_def)
  from next_op [OF b' st' same(1)] obtain st'' b'' where
    "f (st', b') = Ret (st'', b'')" "builder_ok st'' F b''" "keeps F st' st''" "bsecure b'' = bsecure b'"
    "brefs b'' = brefs b'" "views st'' (attrs_of b'') = ed' (views st' (attrs_of b'))"
    by (auto simp: edits_def)
  with r st' same vs show ?thesis by (auto simp: edits_def intro: keeps_trans)
qed

text \<open>The first position of a type, and the two edits.\<close>

fun vfind :: "(nat \<times> aval) list \<Rightarrow> nat \<Rightarrow> nat option" where
  "vfind [] t = None"
| "vfind (v # vs) t = (if fst v = t then Some 0 else map_option Suc (vfind vs t))"

definition vadd :: "nat \<Rightarrow> aval \<Rightarrow> (nat \<times> aval) list \<Rightarrow> (nat \<times> aval) list" where
  "vadd t v vs = vs @ [(t, v)]"

definition vset :: "nat \<Rightarrow> aval \<Rightarrow> (nat \<times> aval) list \<Rightarrow> (nat \<times> aval) list" where
  "vset t v vs = (case vfind vs t of None \<Rightarrow> vs @ [(t, v)] | Some i \<Rightarrow> vs[i := (t, v)])"

lemma find_attribute_views: "find_attribute as t = vfind (views st as) t"
  by (induction as) auto

lemma find_attribute_SomeD:
  "find_attribute as t = Some i \<Longrightarrow> i < length as \<and> atype (as ! i) = t"
  by (induction as arbitrary: i) (auto split: if_splits)

text \<open>
  The common first half of the operations: an empty attribute of the type, new or cleared, stands at
  \<open>i\<close>; filling it with \<open>v\<close> makes the edit \<open>ed v\<close>.
\<close>

definition slot ::
  "nat multiset \<Rightarrow> vstore \<Rightarrow> GckRealBuilder \<Rightarrow> nat \<Rightarrow> vstore \<Rightarrow> GckRealBuilder \<Rightarrow> nat \<Rightarrow>
   (aval \<Rightarrow> (nat \<times> aval) list \<Rightarrow> (nat \<times> aval) list) \<Rightarrow> bool" where
  "slot F st b t st1 b1 i ed \<longleftrightarrow>
     builder_ok st1 F b1 \<and> keeps F st st1 \<and> bsecure b1 = bsecure b \<and> brefs b1 = brefs b \<and>
     i < length (attrs_of b1) \<and> attrs_of b1 ! i = \<lparr>atype = t, avalue = None, alength = 0\<rparr> \<and>
     (\<forall>v. (views st1 (attrs_of b1))[i := (t, v)] = ed v (views st (attrs_of b)))"

lemma attrs_of_set_attr [simp]: "attrs_of (set_attr b i a) = (attrs_of b)[i := a]"
  by (simp add: attrs_of_def set_attr_def split: option.split)

lemma set_attr_simps [simp]: "bsecure (set_attr b i a) = bsecure b" "brefs (set_attr b i a) = brefs b"
  by (simp_all add: set_attr_def)

lemma slot_fill:
  assumes slot: "slot F st b t st1 b1 i ed" and a: "atype a = t" "attr_ok st2 a"
    and st2: "store_ok st2 (F + refs_of (attrs_of b1) + aref a)"
    and keeps: "keeps (F + refs_of (attrs_of b1)) st1 st2"
  shows "edits F st b (Ret (st2, set_attr b1 i a)) (ed (attr_val st2 a))"
proof -
  have old: "list_all (attr_ok st2) (attrs_of b1)" "views st2 (attrs_of b1) = views st1 (attrs_of b1)"
    using slot keeps_attrs [OF keeps] by (simp_all add: slot_def builder_ok_def)
  have "refs_of ((attrs_of b1)[i := a]) = refs_of (attrs_of b1) + aref a"
    by (rule refs_of_update) (use slot in \<open>auto simp: slot_def\<close>)
  then have "builder_ok st2 F (set_attr b1 i a)"
    using st2 old(1) a(2) by (auto simp: builder_ok_def ac_simps list_all_iff dest!: set_update_subset_insert [THEN subsetD])
  moreover have "keeps F st st2"
    using slot keeps_trans keeps_sub [OF keeps] by (auto simp: slot_def)
  ultimately show ?thesis
    using slot a(1) old(2) by (auto simp: edits_def slot_def views_update)
qed

lemma builder_push_slot:
  assumes "builder_ok st F b" and "builder_push b t = (b1, i)"
  shows "slot F st b t st b1 i (vadd t)"
  using assms by (auto simp: slot_def builder_push_def builder_ok_def attrs_of_def Let_def attr_ok_def
      vadd_def list_update_append split: option.splits)

lemma builder_clear_ok:
  assumes "store_ok st (F + aref a)"
  shows "\<exists>st'. builder_clear st a = Ret (st', \<lparr>atype = atype a, avalue = None, alength = 0\<rparr>) \<and>
     store_ok st' F \<and> keeps F st st'"
proof (cases "avalue a")
  case None
  with assms show ?thesis by (auto simp: builder_clear_def)
next
  case (Some p)
  with assms have "store_ok st (add_mset p F)" by simp
  from value_unref_ok [OF this] Some show ?thesis by (auto simp: builder_clear_def)
qed

lemma builder_clear_or_push_slot:
  assumes ok: "builder_ok st F b"
  shows "\<exists>st1 b1 i. builder_clear_or_push st b t = Ret (st1, b1, i) \<and> slot F st b t st1 b1 i (vset t)"
proof (cases "find_attribute (attrs_of b) t")
  case None
  obtain b1 i where push: "builder_push b t = (b1, i)" by fastforce
  have "builder_clear_or_push st b t = Ret (st, b1, i)"
    using None push by (auto simp: builder_clear_or_push_def attrs_of_def split: option.splits)
  moreover have "vfind (views st (attrs_of b)) t = None" using None by (simp add: find_attribute_views [of _ _ st])
  ultimately show ?thesis
    using builder_push_slot [OF ok push] by (auto simp: slot_def vset_def vadd_def)
next
  case (Some i)
  let ?as = "attrs_of b" and ?e = "\<lparr>atype = t, avalue = None, alength = 0\<rparr>"
  have i: "i < length ?as" "atype (?as ! i) = t" using find_attribute_SomeD [OF Some] by auto
  have refs: "refs_of ?as = refs_of (?as[i := ?e]) + aref (?as ! i)"
    by (rule refs_of_clear) (use i in simp_all)
  then have "store_ok st ((F + refs_of (?as[i := ?e])) + aref (?as ! i))"
    using ok by (simp add: builder_ok_def add.assoc)
  from builder_clear_ok [OF this] obtain st1 where
    clear: "builder_clear st (?as ! i) = Ret (st1, ?e)" and st1: "store_ok st1 (F + refs_of (?as[i := ?e]))"
    and keeps: "keeps (F + refs_of (?as[i := ?e])) st st1" using i by auto
  have "list_all (attr_ok st) (?as[i := ?e])"
    using ok by (auto simp: builder_ok_def list_all_iff attr_ok_def dest!: set_update_subset_insert [THEN subsetD])
  with keeps_attrs [OF keeps] have new: "list_all (attr_ok st1) (?as[i := ?e])"
    "views st1 (?as[i := ?e]) = views st (?as[i := ?e])" by auto
  have "builder_clear_or_push st b t = Ret (st1, set_attr b i ?e, i)"
    using Some clear by (auto simp: builder_clear_or_push_def attrs_of_def split: option.splits)
  moreover have "slot F st b t st1 (set_attr b i ?e) i (vset t)"
    using st1 new i keeps_sub [OF keeps, of F] Some
    by (auto simp: slot_def builder_ok_def views_update vset_def find_attribute_views [of _ _ st])
  ultimately show ?thesis by blast
qed

subsection \<open>The operations\<close>

definition data_val :: "byte list option \<Rightarrow> nat \<Rightarrow> aval" where
  "data_val v len = (if len = G_MAXULONG then Invalid
     else case v of None \<Rightarrow> Empty | Some d \<Rightarrow> Octets (take len d))"

text \<open>The memory of the caller holds the octets, and there are fewer than 2^64 - 16 of them.\<close>

definition data_valid :: "byte list option \<Rightarrow> nat \<Rightarrow> bool" where
  "data_valid v len \<longleftrightarrow>
     len = G_MAXULONG \<or> v = None \<or> (len \<le> length (the v) \<and> len + MAX_ALIGN < 2 ^ 64)"

lemma slot_storeD:
  "slot F st b t st1 b1 i ed \<Longrightarrow> store_ok st1 (F + refs_of (attrs_of b1))"
  "slot F st b t st1 b1 i ed \<Longrightarrow> attrs_of b1 ! i = \<lparr>atype = t, avalue = None, alength = 0\<rparr>"
  "slot F st b t st1 b1 i ed \<Longrightarrow> keeps F st st1"
  by (simp_all add: slot_def builder_ok_def)

lemma slot_plain:
  assumes "slot F st b t st1 b1 i ed" and "len = 0 \<or> len = G_MAXULONG"
  shows "edits F st b (Ret (st1, set_attr b1 i \<lparr>atype = t, avalue = None, alength = len\<rparr>))
     (ed (if len = 0 then Empty else Invalid))"
  using slot_fill [OF assms(1), of "\<lparr>atype = t, avalue = None, alength = len\<rparr>" st1]
    slot_storeD(1) [OF assms(1)] assms(2)
  by (auto simp: attr_ok_def attr_val_def)

lemma slot_fresh:
  assumes slot: "slot F st b t st1 b1 i ed" and len: "len \<noteq> G_MAXULONG" "len \<le> length data"
    and st2: "store_ok st2 (add_mset p (F + refs_of (attrs_of b1)))"
    "keeps (F + refs_of (attrs_of b1)) st1 st2"
    "cells st2 p = Some \<lparr>vrefs = 1, vdata = take len data, vsecure = s\<rparr>"
  shows "edits F st b (Ret (st2, set_attr b1 i \<lparr>atype = t, avalue = Some p, alength = len\<rparr>))
     (ed (Octets (take len data)))"
  using slot_fill [OF slot _ _ _ st2(2), of "\<lparr>atype = t, avalue = Some p, alength = len\<rparr>"] st2 len
  by (simp add: attr_ok_def attr_val_def aref_def)

lemma fill_attr_edits:
  assumes slot: "slot F st b t st1 b1 i ed" and ready: "secure_ready st" and valid: "data_valid v len"
  shows "edits F st b (fill_attr st1 b1 i v src_secure len) (ed (data_val v len))"
proof -
  note attr = slot_storeD(2) [OF slot]
  have ready1: "secure_ready st1" using keeps_secure [OF slot_storeD(3) [OF slot]] ready by simp
  consider (invalid) "len = G_MAXULONG" | (null) "len \<noteq> G_MAXULONG" "v = None"
    | (data) d where "len \<noteq> G_MAXULONG" "v = Some d" by fastforce
  then show ?thesis
  proof cases
    case invalid
    with slot_plain [OF slot, of len] attr show ?thesis by (simp add: fill_attr_def data_val_def)
  next
    case null
    with slot_plain [OF slot, of 0] attr show ?thesis by (simp add: fill_attr_def data_val_def)
  next
    case data
    with valid have len: "len \<le> length d" "len + MAX_ALIGN < 2 ^ 64" by (auto simp: data_valid_def)
    from value_new_ok [OF slot_storeD(1) [OF slot] ready1 this] obtain st2 p where
      "value_new st1 d len (bsecure b1 \<or> src_secure) = Ret (st2, p)"
      "store_ok st2 (add_mset p (F + refs_of (attrs_of b1)))" "keeps (F + refs_of (attrs_of b1)) st1 st2"
      "cells st2 p = Some \<lparr>vrefs = 1, vdata = take len d, vsecure = bsecure b1 \<or> src_secure\<rparr>" by blast
    with slot_fresh [OF slot data(1) len(1)] attr data show ?thesis
      by (simp add: fill_attr_def data_val_def)
  qed
qed

lemma gck_builder_take_data_edits:
  assumes ok: "builder_ok st F b" and ready: "secure_ready st" and valid: "data_valid v len"
  shows "edits F st b (gck_builder_take_data st b t v src_secure len) (vadd t (data_val v len))"
proof -
  obtain b1 i where push: "builder_push b t = (b1, i)" by fastforce
  note slot = builder_push_slot [OF ok push]
  note attr = slot_storeD(2) [OF slot]
  consider (invalid) "len = G_MAXULONG" | (null) "len \<noteq> G_MAXULONG" "v = None"
    | (data) d where "len \<noteq> G_MAXULONG" "v = Some d" by fastforce
  then show ?thesis
  proof cases
    case invalid
    with slot_plain [OF slot, of len] attr push show ?thesis by (simp add: gck_builder_take_data_def data_val_def)
  next
    case null
    with slot_plain [OF slot, of 0] attr push show ?thesis by (simp add: gck_builder_take_data_def data_val_def)
  next
    case data
    with valid have len: "len \<le> length d" "len + MAX_ALIGN < 2 ^ 64" by (auto simp: data_valid_def)
    from value_take_ok [OF slot_storeD(1) [OF slot] ready this] obtain st2 p where
      "value_take st d len src_secure = Ret (st2, p)"
      "store_ok st2 (add_mset p (F + refs_of (attrs_of b1)))" "keeps (F + refs_of (attrs_of b1)) st st2"
      "cells st2 p = Some \<lparr>vrefs = 1, vdata = take len d, vsecure = src_secure\<rparr>" by blast
    with slot_fresh [OF slot data(1) len(1)] attr data push show ?thesis
      by (simp add: gck_builder_take_data_def data_val_def)
  qed
qed

lemma copy_value_ok:
  assumes "store_ok st R" and "attr_ok st a" and "aref a \<subseteq># R"
  shows "\<exists>st' v len. copy_value st a = Ret (st', v, len) \<and> keeps R st st' \<and>
     (\<forall>t. let a' = \<lparr>atype = t, avalue = v, alength = len\<rparr> in
        store_ok st' (R + aref a') \<and> attr_ok st' a' \<and> attr_val st' a' = attr_val st a)"
proof (cases "avalue a")
  case None
  with assms show ?thesis by (auto simp: copy_value_def attr_ok_def attr_val_def)
next
  case (Some p)
  with assms(3) have "p \<in># R" by simp
  from value_ref_ok [OF assms(1) this] obtain st' where
    st': "value_ref st p = Ret (st', Some p)" "store_ok st' (add_mset p R)" "keeps R st st'" by blast
  have len: "alength a \<noteq> G_MAXULONG" using assms(2) Some by (simp add: attr_ok_def)
  have "attr_ok st' a" "attr_val st' a = attr_val st a"
    using keeps_attr [OF st'(3) assms(3)] assms(2) by simp_all
  with st' Some len show ?thesis
    by (auto simp: copy_value_def attr_ok_def attr_val_def aref_def Let_def)
qed

definition vput :: "bool \<Rightarrow> nat \<times> aval \<Rightarrow> (nat \<times> aval) list \<Rightarrow> (nat \<times> aval) list" where
  "vput performing_set tv = (if performing_set then vset else vadd) (fst tv) (snd tv)"

lemma builder_copy_edits:
  assumes ok: "builder_ok st F b" and a: "attr_ok st a" "aref a \<subseteq># F"
  shows "edits F st b (builder_copy st b a s) (vput s (atype a, attr_val st a))"
proof -
  obtain st1 b1 i where
    first: "(if s then builder_clear_or_push st b (atype a)
       else (case builder_push b (atype a) of (b', i) \<Rightarrow> Ret (st, b', i))) = Ret (st1, b1, i)" and
    slot: "slot F st b (atype a) st1 b1 i (if s then vset (atype a) else vadd (atype a))"
  proof (cases s)
    case True
    with builder_clear_or_push_slot [OF ok, of "atype a"] that show ?thesis by auto
  next
    case False
    obtain b1 i where "builder_push b (atype a) = (b1, i)" by fastforce
    with builder_push_slot [OF ok this] that False show ?thesis by auto
  qed
  have "attr_ok st1 a" "attr_val st1 a = attr_val st a"
    using keeps_attr [OF slot_storeD(3) [OF slot] a(2)] a(1) by simp_all
  moreover have "aref a \<subseteq># F + refs_of (attrs_of b1)" using a(2) by (simp add: subset_mset.add_increasing2)
  ultimately obtain st2 v len where
    copy: "copy_value st1 a = Ret (st2, v, len)" "keeps (F + refs_of (attrs_of b1)) st1 st2" and
    new: "let a' = \<lparr>atype = atype a, avalue = v, alength = len\<rparr> in
        store_ok st2 (F + refs_of (attrs_of b1) + aref a') \<and> attr_ok st2 a' \<and> attr_val st2 a' = attr_val st a"
    using copy_value_ok [OF slot_storeD(1) [OF slot], of a] by metis
  from slot_fill [OF slot _ _ _ copy(2), of "\<lparr>atype = atype a, avalue = v, alength = len\<rparr>"] new
  have "edits F st b (Ret (st2, set_attr b1 i \<lparr>atype = atype a, avalue = v, alength = len\<rparr>))
     ((if s then vset (atype a) else vadd (atype a)) (attr_val st a))" by (simp add: Let_def)
  then show ?thesis
    using first copy(1) slot_storeD(2) [OF slot]
    by (cases s) (simp_all add: builder_copy_def vput_def)
qed

text \<open>Attributes of the rest of the program.\<close>

definition list_valid :: "GckAttribute list \<Rightarrow> nat multiset \<Rightarrow> vstore \<Rightarrow> bool" where
  "list_valid as F st \<longleftrightarrow> list_all (\<lambda>a. aref a \<subseteq># F \<and> attr_ok st a) as"

lemma list_valid_keeps:
  assumes "list_valid as F st" and "keeps F st st'"
  shows "list_valid as F st'" "views st' as = views st as"
proof -
  have "list_all (\<lambda>a. aref a \<subseteq># F) as" "list_all (attr_ok st) as"
    using assms(1) by (simp_all add: list_valid_def list_all_iff)
  with keeps_attr_list [OF assms(2) this(1)] show "list_valid as F st'" "views st' as = views st as"
    by (simp_all add: list_valid_def list_all_iff)
qed

lemma builder_copy_all_edits:
  assumes "builder_ok st F b" and "list_valid as F st"
  shows "edits F st b (builder_copy_all st b as s) (fold (vput s) (views st as))"
  using assms
proof (induction as arbitrary: st b)
  case Nil
  then show ?case by (auto simp: edits_def)
next
  case (Cons a as)
  then have a: "attr_ok st a" "aref a \<subseteq># F" "list_valid as F st" by (simp_all add: list_valid_def)
  have "edits F st b (obind (builder_copy st b a s) (\<lambda>(st', b'). builder_copy_all st' b' as s))
     (fold (vput s) (views st as) \<circ> vput s (atype a, attr_val st a))"
  proof (rule edits_obind)
    show "edits F st b (builder_copy st b a s) (vput s (atype a, attr_val st a))"
      by (rule builder_copy_edits [OF Cons.prems(1) a(1,2)])
    fix st' b'
    assume "builder_ok st' F b'" "keeps F st st'"
    with Cons.IH [of st' b'] list_valid_keeps [OF a(3) this(2)]
    show "edits F st' b' (case (st', b') of (st', b') \<Rightarrow> builder_copy_all st' b' as s) (fold (vput s) (views st as))"
      by simp
  qed
  then show ?case by (simp add: comp_def)
qed

subsection \<open>Releasing\<close>

lemma clear_all_ok:
  "store_ok st (F + refs_of as) \<Longrightarrow> \<exists>st'. clear_all st as = Ret st' \<and> store_ok st' F \<and> keeps F st st'"
proof (induction as arbitrary: st)
  case Nil
  then show ?case by simp
next
  case (Cons a as)
  then have "store_ok st ((F + refs_of as) + aref a)" by (simp add: ac_simps)
  from builder_clear_ok [OF this] obtain st1 e where
    "builder_clear st a = Ret (st1, e)" "store_ok st1 (F + refs_of as)" "keeps (F + refs_of as) st st1" by blast
  with Cons.IH [of st1] show ?case by (auto dest: keeps_add intro: keeps_trans)
qed

lemma unref_all_ok:
  "store_ok st (F + refs_of as) \<Longrightarrow> \<exists>st'. unref_all st as = Ret st' \<and> store_ok st' F \<and> keeps F st st'"
proof (induction as arbitrary: st)
  case Nil
  then show ?case by simp
next
  case (Cons a as)
  have "\<exists>st1. (case avalue a of None \<Rightarrow> Ret st | Some p \<Rightarrow> value_unref st p) = Ret st1 \<and>
      store_ok st1 (F + refs_of as) \<and> keeps (F + refs_of as) st st1" (is "\<exists>st1. ?unref = _ \<and> _")
  proof (cases "avalue a")
    case None
    with Cons.prems show ?thesis by simp
  next
    case (Some p)
    with Cons.prems value_unref_ok [of st p "F + refs_of as"] show ?thesis by simp
  qed
  then obtain st1 where "?unref = Ret st1" "store_ok st1 (F + refs_of as)" "keeps (F + refs_of as) st st1"
    by blast
  with Cons.IH [of st1] show ?case by (auto dest: keeps_add intro: keeps_trans)
qed

lemma gck_builder_clear_ok:
  assumes "builder_ok st F b"
  shows "\<exists>st'. gck_builder_clear st b = Ret (st', b\<lparr>barray := None\<rparr>) \<and> store_ok st' F \<and> keeps F st st'"
proof (cases "barray b")
  case None
  with assms show ?thesis by (auto simp: gck_builder_clear_def builder_ok_def attrs_of_def)
next
  case (Some arr)
  with assms clear_all_ok [of st F arr] show ?thesis
    by (auto simp: gck_builder_clear_def builder_ok_def attrs_of_def)
qed

text \<open>Ending a builder moves its references into the list.\<close>

lemma gck_builder_end_ok:
  assumes "gck_builder_end b = (b', attrs)"
  shows "adata attrs = attrs_of b" "attrs_of b' = []" "arefs attrs = 1"
  using assms by (auto simp: gck_builder_end_def attrs_of_def split: option.splits)

section \<open>The contract of the editing operations\<close>

locale builder_edit =
  fixes oper :: "'a \<Rightarrow> vstore \<Rightarrow> GckRealBuilder \<Rightarrow> (vstore \<times> GckRealBuilder) outcome"
    and valid :: "'a \<Rightarrow> nat multiset \<Rightarrow> vstore \<Rightarrow> bool"
    and ed :: "'a \<Rightarrow> vstore \<Rightarrow> (nat \<times> aval) list \<Rightarrow> (nat \<times> aval) list"
  assumes oper_edits: "builder_ok st F b \<Longrightarrow> secure_ready st \<Longrightarrow> valid x F st \<Longrightarrow>
      edits F st b (oper x st b) (ed x st)"
begin

text \<open>Nothing is left behind when the builder is cleared after the operation.\<close>

lemma then_clear:
  assumes "builder_ok st F b" and "secure_ready st" and "valid x F st"
  shows "\<exists>st' b'. obind (oper x st b) (\<lambda>(st1, b1). gck_builder_clear st1 b1) = Ret (st', b') \<and>
     attrs_of b' = [] \<and> store_ok st' F \<and> keeps F st st'"
proof -
  obtain st1 b1 where 1: "oper x st b = Ret (st1, b1)" "builder_ok st1 F b1" "keeps F st st1"
    using oper_edits [OF assms] by (auto simp: edits_def)
  from gck_builder_clear_ok [OF 1(2)] 1 show ?thesis
    by (auto simp: attrs_of_def intro: keeps_trans)
qed

text \<open>The list made from the builder holds the edited views and is released without a trace.\<close>

lemma then_end:
  assumes "builder_ok st F b" and "secure_ready st" and "valid x F st"
  shows "\<exists>st1 b1 b2 attrs st'. oper x st b = Ret (st1, b1) \<and> gck_builder_end b1 = (b2, attrs) \<and>
     views st1 (adata attrs) = ed x st (views st (attrs_of b)) \<and>
     gck_attributes_unref st1 (Some attrs) = Ret (st', None) \<and> store_ok st' F \<and> keeps F st st'"
proof -
  obtain st1 b1 where 1: "oper x st b = Ret (st1, b1)" "builder_ok st1 F b1" "keeps F st st1"
    "views st1 (attrs_of b1) = ed x st (views st (attrs_of b))"
    using oper_edits [OF assms] by (auto simp: edits_def)
  obtain b2 attrs where e: "gck_builder_end b1 = (b2, attrs)" by fastforce
  note end_ok = gck_builder_end_ok [OF e]
  from unref_all_ok [of st1 F "adata attrs"] 1(2) obtain st' where
    "unref_all st1 (adata attrs) = Ret st'" "store_ok st' F" "keeps F st1 st'"
    by (auto simp: builder_ok_def end_ok)
  with 1 e end_ok show ?thesis
    by (auto simp: gck_attributes_unref_def intro: keeps_trans)
qed

end

interpretation add_data: builder_edit
  "\<lambda>(t, v, s, len) st b. gck_builder_add_data st b t v s len"
  "\<lambda>(t, v, s, len) F st. data_valid v len" "\<lambda>(t, v, s, len) st. vadd t (data_val v len)"
  by unfold_locales
    (auto simp: gck_builder_add_data_def split: prod.splits intro!: fill_attr_edits builder_push_slot)

lemma set_data_edits:
  assumes "builder_ok st F b" and "secure_ready st" and "data_valid v len"
  shows "edits F st b (gck_builder_set_data st b t v s len) (vset t (data_val v len))"
  using builder_clear_or_push_slot [OF assms(1), of t] fill_attr_edits [OF _ assms(2,3)]
  by (auto simp: gck_builder_set_data_def)

interpretation set_data: builder_edit
  "\<lambda>(t, v, s, len) st b. gck_builder_set_data st b t v s len"
  "\<lambda>(t, v, s, len) F st. data_valid v len" "\<lambda>(t, v, s, len) st. vset t (data_val v len)"
  by unfold_locales (auto intro!: set_data_edits)

interpretation take_data: builder_edit
  "\<lambda>(t, v, s, len) st b. gck_builder_take_data st b t v s len"
  "\<lambda>(t, v, s, len) F st. data_valid v len" "\<lambda>(t, v, s, len) st. vadd t (data_val v len)"
  by unfold_locales (auto intro!: gck_builder_take_data_edits)

lemma add_empty_edits:
  assumes "builder_ok st F b"
  shows "edits F st b (Ret (st, gck_builder_add_empty b t)) (vadd t Empty)"
    and "edits F st b (Ret (st, gck_builder_add_invalid b t)) (vadd t Invalid)"
proof -
  obtain b1 i where push: "builder_push b t = (b1, i)" by fastforce
  note slot = builder_push_slot [OF assms push]
  have "set_attr b1 i \<lparr>atype = t, avalue = None, alength = 0\<rparr> = b1"
    using slot_storeD(2) [OF slot]
    by (cases b1; cases "barray b1") (simp_all add: set_attr_def attrs_of_def list_update_same_conv flip: \<open>attrs_of b1 ! i = _\<close>)
  with slot_plain [OF slot, of 0] slot_plain [OF slot, of G_MAXULONG] slot_storeD(2) [OF slot] push
  show "edits F st b (Ret (st, gck_builder_add_empty b t)) (vadd t Empty)"
    "edits F st b (Ret (st, gck_builder_add_invalid b t)) (vadd t Invalid)"
    by (simp_all add: gck_builder_add_empty_def gck_builder_add_invalid_def)
qed

lemma set_empty_edits:
  assumes "builder_ok st F b"
  shows "edits F st b (gck_builder_set_empty st b t) (vset t Empty)"
    and "edits F st b (gck_builder_set_invalid st b t) (vset t Invalid)"
proof -
  obtain st1 b1 i where push: "builder_clear_or_push st b t = Ret (st1, b1, i)"
    and slot: "slot F st b t st1 b1 i (vset t)"
    using builder_clear_or_push_slot [OF assms] by blast
  have "set_attr b1 i \<lparr>atype = t, avalue = None, alength = 0\<rparr> = b1"
    using slot_storeD(2) [OF slot]
    by (cases b1; cases "barray b1") (simp_all add: set_attr_def attrs_of_def list_update_same_conv flip: \<open>attrs_of b1 ! i = _\<close>)
  with slot_plain [OF slot, of 0] slot_plain [OF slot, of G_MAXULONG] slot_storeD(2) [OF slot] push
  show "edits F st b (gck_builder_set_empty st b t) (vset t Empty)"
    "edits F st b (gck_builder_set_invalid st b t) (vset t Invalid)"
    by (simp_all add: gck_builder_set_empty_def gck_builder_set_invalid_def)
qed

lemma length_ulong_octets [simp]: "length (ulong_octets v) = 8"
  by (simp add: ulong_octets_def)

lemma length_ckdate [simp]: "length (convert_gdate_to_ckdate y m d) = 8"
proof -
  have "w \<le> length (print_padded w n)" for w n by (simp add: print_padded_def)
  from this [of 4 y] this [of 2 m] this [of 2 d] show ?thesis
    by (simp add: convert_gdate_to_ckdate_def)
qed

lemma octets_of_digits:
  "foldr (\<lambda>b n. unat b + 256 * n) (map (\<lambda>i. of_nat (v div 256 ^ i) :: byte) [0..<k]) 0 = v mod 256 ^ k"
proof (induction k arbitrary: v)
  case 0
  then show ?case by simp
next
  case (Suc k)
  have "map (\<lambda>i. of_nat (v div 256 ^ i) :: byte) [0..<Suc k] =
      of_nat v # map (\<lambda>i. of_nat (v div 256 div 256 ^ i)) [0..<k]"
    by (simp add: upt_conv_Cons map_Suc_upt [symmetric] div_mult2_eq comp_def del: upt_Suc)
  with Suc [of "v div 256"] show ?case
    by (simp add: unat_of_nat mod_mult2_eq)
qed

lemma octets_ulong_inverse: "v < 2 ^ 64 \<Longrightarrow> octets_ulong (ulong_octets v) = v"
  using octets_of_digits [of v 8] by (simp add: octets_ulong_def ulong_octets_def)

text \<open>
  All editing operations as commands.  The lists the copying commands read belong to the rest of the
  program.
\<close>

datatype builder_cmd =
    AddData nat "byte list option" bool nat | SetData nat "byte list option" bool nat
  | TakeData nat "byte list option" bool nat
  | AddEmpty nat | SetEmpty nat | AddInvalid nat | SetInvalid nat
  | AddUlong nat nat | SetUlong nat nat | AddBoolean nat bool | SetBoolean nat bool
  | AddString nat "byte list option" bool | SetString nat "byte list option" bool
  | AddDate nat "nat \<times> nat \<times> nat" | SetDate nat "nat \<times> nat \<times> nat"
  | AddAttribute GckAttribute | AddAll GckAttributes | SetAll GckAttributes
  | AddOnly GckAttributes "nat list" | AddExcept GckAttributes "nat list"

fun run_cmd :: "builder_cmd \<Rightarrow> vstore \<Rightarrow> GckRealBuilder \<Rightarrow> (vstore \<times> GckRealBuilder) outcome" where
  "run_cmd (AddData t v s len) st b = gck_builder_add_data st b t v s len"
| "run_cmd (SetData t v s len) st b = gck_builder_set_data st b t v s len"
| "run_cmd (TakeData t v s len) st b = gck_builder_take_data st b t v s len"
| "run_cmd (AddEmpty t) st b = Ret (st, gck_builder_add_empty b t)"
| "run_cmd (SetEmpty t) st b = gck_builder_set_empty st b t"
| "run_cmd (AddInvalid t) st b = Ret (st, gck_builder_add_invalid b t)"
| "run_cmd (SetInvalid t) st b = gck_builder_set_invalid st b t"
| "run_cmd (AddUlong t v) st b = gck_builder_add_ulong st b t v"
| "run_cmd (SetUlong t v) st b = gck_builder_set_ulong st b t v"
| "run_cmd (AddBoolean t v) st b = gck_builder_add_boolean st b t v"
| "run_cmd (SetBoolean t v) st b = gck_builder_set_boolean st b t v"
| "run_cmd (AddString t v s) st b = gck_builder_add_string st b t v s"
| "run_cmd (SetString t v s) st b = gck_builder_set_string st b t v s"
| "run_cmd (AddDate t d) st b = gck_builder_add_date st b t d"
| "run_cmd (SetDate t d) st b = gck_builder_set_date st b t d"
| "run_cmd (AddAttribute a) st b = gck_builder_add_attribute st b a"
| "run_cmd (AddAll l) st b = gck_builder_add_all st b l"
| "run_cmd (SetAll l) st b = gck_builder_set_all st b l"
| "run_cmd (AddOnly l ts) st b = gck_builder_add_only st b l ts"
| "run_cmd (AddExcept l ts) st b = gck_builder_add_except st b l ts"

definition strings_valid :: "byte list option \<Rightarrow> bool" where
  "strings_valid v \<longleftrightarrow> string_length v + MAX_ALIGN < 2 ^ 64"

fun cmd_valid :: "builder_cmd \<Rightarrow> nat multiset \<Rightarrow> vstore \<Rightarrow> bool" where
  "cmd_valid (AddData t v s len) F st = data_valid v len"
| "cmd_valid (SetData t v s len) F st = data_valid v len"
| "cmd_valid (TakeData t v s len) F st = data_valid v len"
| "cmd_valid (AddString t v s) F st = strings_valid v"
| "cmd_valid (SetString t v s) F st = strings_valid v"
| "cmd_valid (AddAttribute a) F st = list_valid [a] F st"
| "cmd_valid (AddAll l) F st = list_valid (adata l) F st"
| "cmd_valid (SetAll l) F st = list_valid (adata l) F st"
| "cmd_valid (AddOnly l ts) F st = list_valid (adata l) F st"
| "cmd_valid (AddExcept l ts) F st = list_valid (adata l) F st"
| "cmd_valid _ F st = True"

definition date_octets :: "nat \<times> nat \<times> nat \<Rightarrow> byte list" where
  "date_octets d = (case d of (y, m, dd) \<Rightarrow> convert_gdate_to_ckdate y m dd)"

text \<open>What a command means for the list of views.\<close>

fun cmd_edit :: "builder_cmd \<Rightarrow> vstore \<Rightarrow> (nat \<times> aval) list \<Rightarrow> (nat \<times> aval) list" where
  "cmd_edit (AddData t v s len) st = vadd t (data_val v len)"
| "cmd_edit (SetData t v s len) st = vset t (data_val v len)"
| "cmd_edit (TakeData t v s len) st = vadd t (data_val v len)"
| "cmd_edit (AddEmpty t) st = vadd t Empty"
| "cmd_edit (SetEmpty t) st = vset t Empty"
| "cmd_edit (AddInvalid t) st = vadd t Invalid"
| "cmd_edit (SetInvalid t) st = vset t Invalid"
| "cmd_edit (AddUlong t v) st = vadd t (Octets (ulong_octets v))"
| "cmd_edit (SetUlong t v) st = vset t (Octets (ulong_octets v))"
| "cmd_edit (AddBoolean t v) st = vadd t (Octets [if v then 1 else 0])"
| "cmd_edit (SetBoolean t v) st = vset t (Octets [if v then 1 else 0])"
| "cmd_edit (AddString t v s) st = vadd t (case v of None \<Rightarrow> Empty | Some x \<Rightarrow> Octets (until_nul x))"
| "cmd_edit (SetString t v s) st = vset t (case v of None \<Rightarrow> Empty | Some x \<Rightarrow> Octets (until_nul x))"
| "cmd_edit (AddDate t d) st = vadd t (Octets (date_octets d))"
| "cmd_edit (SetDate t d) st = vset t (Octets (date_octets d))"
| "cmd_edit (AddAttribute a) st = vadd (atype a) (attr_val st a)"
| "cmd_edit (AddAll l) st = (\<lambda>vs. vs @ views st (adata l))"
| "cmd_edit (SetAll l) st = fold (\<lambda>(t, v). vset t v) (views st (adata l))"
| "cmd_edit (AddOnly l ts) st =
     (\<lambda>vs. vs @ concat (map (\<lambda>(t, v).
        replicate (count_list (takeWhile (\<lambda>t. t \<noteq> GCK_INVALID) ts) t) (t, v)) (views st (adata l))))"
| "cmd_edit (AddExcept l ts) st =
     (\<lambda>vs. vs @ filter (\<lambda>(t, v). t \<notin> set (takeWhile (\<lambda>t. t \<noteq> GCK_INVALID) ts)) (views st (adata l)))"

lemma fold_vadd: "fold (vput False) vs ws = ws @ vs"
  by (induction vs arbitrary: ws) (simp_all add: vput_def vadd_def)

lemma fold_vset: "fold (vput True) vs = fold (\<lambda>(t, v). vset t v) vs"
  by (rule ext, rule fold_cong) (auto simp: vput_def)

lemma views_onlyv:
  "views st (concat (map (\<lambda>a. concat (map (\<lambda>t. if atype a = t then [a] else []) ts)) as)) =
   concat (map (\<lambda>(t, v). replicate (count_list ts t) (t, v)) (views st as))"
proof (induction as)
  case (Cons a as)
  have "views st (concat (map (\<lambda>t. if atype a = t then [a] else []) ts)) =
      replicate (count_list ts (atype a)) (atype a, attr_val st a)"
    by (induction ts) auto
  with Cons show ?case by simp
qed simp

lemma views_exceptv:
  "views st (filter (\<lambda>a. \<not> list_ex (\<lambda>t. atype a = t) ts) as) =
   filter (\<lambda>(t, v). t \<notin> set ts) (views st as)"
  by (induction as) (auto simp: list_ex_iff)

lemma list_valid_sub: "list_valid as F st \<Longrightarrow> set bs \<subseteq> set as \<Longrightarrow> list_valid bs F st"
  by (auto simp: list_valid_def list_all_iff)

lemma copy_only_edits:
  assumes "builder_ok st F b" and "list_valid (adata l) F st"
  shows "edits F st b (gck_builder_add_only st b l ts) (cmd_edit (AddOnly l ts) st)"
proof -
  let ?ts = "takeWhile (\<lambda>t. t \<noteq> GCK_INVALID) ts"
  let ?as = "concat (map (\<lambda>a. concat (map (\<lambda>t. if atype a = t then [a] else []) ?ts)) (adata l))"
  have "list_valid ?as F st" by (rule list_valid_sub [OF assms(2)]) auto
  from builder_copy_all_edits [OF assms(1) this, of False] show ?thesis
    by (simp add: gck_builder_add_only_def gck_builder_add_onlyv_def fold_vadd [abs_def] views_onlyv)
qed

lemma copy_except_edits:
  assumes "builder_ok st F b" and "list_valid (adata l) F st"
  shows "edits F st b (gck_builder_add_except st b l ts) (cmd_edit (AddExcept l ts) st)"
proof -
  let ?ts = "takeWhile (\<lambda>t. t \<noteq> GCK_INVALID) ts"
  let ?as = "filter (\<lambda>a. \<not> list_ex (\<lambda>t. atype a = t) ?ts) (adata l)"
  have "list_valid ?as F st" by (rule list_valid_sub [OF assms(2)]) auto
  from builder_copy_all_edits [OF assms(1) this, of False] show ?thesis
    by (simp add: gck_builder_add_except_def gck_builder_add_exceptv_def fold_vadd [abs_def] views_exceptv)
qed

lemma octets_valid: "length d < 2 ^ 32 \<Longrightarrow> data_valid (Some d) (length d)"
  by (simp add: data_valid_def MAX_ALIGN_def)

lemma octets_val: "length d < 2 ^ 32 \<Longrightarrow> data_val (Some d) (length d) = Octets d"
  by (auto simp: data_val_def)

lemma string_valid: "strings_valid v \<Longrightarrow> data_valid v (string_length v)"
  by (cases v) (auto simp: strings_valid_def data_valid_def string_length_def until_nul_def length_takeWhile_le)

lemma string_val:
  "strings_valid v \<Longrightarrow>
   data_val v (string_length v) = (case v of None \<Rightarrow> Empty | Some x \<Rightarrow> Octets (until_nul x))"
  by (cases v) (auto simp: strings_valid_def data_val_def string_length_def until_nul_def takeWhile_eq_take [symmetric] MAX_ALIGN_def)

lemma run_cmd_edits:
  assumes "builder_ok st F b" and "secure_ready st" and "cmd_valid c F st"
  shows "edits F st b (run_cmd c st b) (cmd_edit c st)"
proof -
  note add = add_data.oper_edits [OF assms(1,2), of "(t, v, s, len)" for t v s len, unfolded prod.case]
  note set = set_data_edits [OF assms(1,2)]
  note add_octets = add [OF octets_valid] and set_octets = set [OF octets_valid]
  show ?thesis
  proof (cases c)
    case (AddData t v s len)
    with assms(3) add show ?thesis by simp
  next
    case (SetData t v s len)
    with assms(3) set show ?thesis by simp
  next
    case (TakeData t v s len)
    with assms(3) gck_builder_take_data_edits [OF assms(1,2)] show ?thesis by simp
  next
    case (AddUlong t v)
    with add_octets [of "ulong_octets v" t False] show ?thesis by (simp add: gck_builder_add_ulong_def data_val_def)
  next
    case (SetUlong t v)
    with set_octets [of "ulong_octets v" t False] show ?thesis by (simp add: gck_builder_set_ulong_def data_val_def)
  next
    case (AddBoolean t v)
    with add_octets [of "[if v then 1 else 0]" t False] show ?thesis
      by (simp add: gck_builder_add_boolean_def data_val_def)
  next
    case (SetBoolean t v)
    with set_octets [of "[if v then 1 else 0]" t False] show ?thesis
      by (simp add: gck_builder_set_boolean_def data_val_def)
  next
    case (AddString t v s)
    with assms(3) add [OF string_valid, of v t s] string_val [of v] show ?thesis by (simp add: gck_builder_add_string_def)
  next
    case (SetString t v s)
    with assms(3) set [OF string_valid, of v t s] string_val [of v] show ?thesis by (simp add: gck_builder_set_string_def)
  next
    case (AddDate t d)
    with add_octets [of "date_octets d" t False] show ?thesis
      by (cases d) (simp add: gck_builder_add_date_def date_octets_def data_val_def)
  next
    case (SetDate t d)
    with set_octets [of "date_octets d" t False] show ?thesis
      by (cases d) (simp add: gck_builder_set_date_def date_octets_def data_val_def)
  next
    case (AddAttribute a)
    with assms(3) builder_copy_edits [OF assms(1), of a False] show ?thesis
      by (simp add: gck_builder_add_attribute_def vput_def list_valid_def)
  next
    case (AddAll l)
    with assms(3) builder_copy_all_edits [OF assms(1), of "adata l" False] show ?thesis
      by (simp add: gck_builder_add_all_def fold_vadd [abs_def])
  next
    case (SetAll l)
    with assms(3) builder_copy_all_edits [OF assms(1), of "adata l" True] show ?thesis
      by (simp add: gck_builder_set_all_def fold_vset)
  next
    case (AddOnly l ts)
    with assms(3) copy_only_edits [OF assms(1)] show ?thesis by simp
  next
    case (AddExcept l ts)
    with assms(3) copy_except_edits [OF assms(1)] show ?thesis by simp
  qed (use add_empty_edits [OF assms(1)] set_empty_edits [OF assms(1)] in simp_all)
qed

interpretation cmd: builder_edit run_cmd cmd_valid cmd_edit
  by unfold_locales (rule run_cmd_edits)

text \<open>A whole program of commands.\<close>

fun run_cmds :: "builder_cmd list \<Rightarrow> vstore \<Rightarrow> GckRealBuilder \<Rightarrow> (vstore \<times> GckRealBuilder) outcome" where
  "run_cmds [] st b = Ret (st, b)"
| "run_cmds (c # cs) st b = obind (run_cmd c st b) (\<lambda>(st', b'). run_cmds cs st' b')"

lemma keeps_cmd:
  assumes "keeps F st st'" and "cmd_valid c F st"
  shows "cmd_valid c F st'" "cmd_edit c st' = cmd_edit c st"
proof -
  note lists = list_valid_keeps [OF _ assms(1)]
  show "cmd_valid c F st'" using assms(2) by (cases c) (simp_all add: lists)
  have "attr_val st' a = attr_val st a" if "list_valid [a] F st" for a
    using lists(2) [OF that] by simp
  then show "cmd_edit c st' = cmd_edit c st" using assms(2) by (cases c) (simp_all add: lists)
qed

interpretation cmds: builder_edit run_cmds "\<lambda>cs F st. list_all (\<lambda>c. cmd_valid c F st) cs"
  "\<lambda>cs st. fold (\<lambda>c. cmd_edit c st) cs"
proof
  fix st F b cs
  assume "builder_ok st F b" and "secure_ready st" and "list_all (\<lambda>c. cmd_valid c F st) cs"
  then show "edits F st b (run_cmds cs st b) (fold (\<lambda>c. cmd_edit c st) cs)"
  proof (induction cs arbitrary: st b)
    case Nil
    then show ?case by (auto simp: edits_def)
  next
    case (Cons c cs)
    have "edits F st b (obind (run_cmd c st b) (\<lambda>(st', b'). run_cmds cs st' b'))
       (fold (\<lambda>c. cmd_edit c st) cs \<circ> cmd_edit c st)"
    proof (rule edits_obind)
      show "edits F st b (run_cmd c st b) (cmd_edit c st)"
        using Cons.prems by (intro cmd.oper_edits) simp_all
      fix st' b'
      assume st': "builder_ok st' F b'" "keeps F st st'"
      have "list_all (\<lambda>c. cmd_valid c F st') cs"
        using Cons.prems(3) keeps_cmd(1) [OF st'(2)] by (simp add: list_all_iff)
      moreover have "fold (\<lambda>c. cmd_edit c st') cs = fold (\<lambda>c. cmd_edit c st) cs"
        by (rule ext, rule fold_cong) (use Cons.prems(3) keeps_cmd(2) [OF st'(2)] in \<open>auto simp: list_all_iff\<close>)
      ultimately show "edits F st' b' (case (st', b') of (st', b') \<Rightarrow> run_cmds cs st' b')
          (fold (\<lambda>c. cmd_edit c st) cs)"
        using Cons.IH [OF st'(1)] Cons.prems(2) keeps_secure [OF st'(2)] by simp
    qed
    then show ?case by (simp add: comp_def)
  qed
qed

section \<open>Reading through the views\<close>

definition val_ulong :: "aval \<Rightarrow> nat option" where
  "val_ulong v = (case v of Octets bs \<Rightarrow> if length bs = 8 then Some (octets_ulong bs) else None | _ \<Rightarrow> None)"

definition views_ulong :: "(nat \<times> aval) list \<Rightarrow> nat \<Rightarrow> nat option" where
  "views_ulong vs t = (case vfind vs t of None \<Rightarrow> None | Some i \<Rightarrow> val_ulong (snd (vs ! i)))"

lemma read_value_ok:
  assumes "attr_ok st a" and "avalue a = Some p"
  shows "read_value st p (alength a) = Ret (vdata (the (cells st p)))"
    "length (vdata (the (cells st p))) = alength a"
  using assms by (auto simp: attr_ok_def read_value_def)

lemma value_to_ulong_view:
  assumes "attr_ok st a" and "\<not> gck_attribute_is_invalid a"
  shows "gck_value_to_ulong st (avalue a) (alength a) = Ret (val_ulong (attr_val st a))"
proof (cases "avalue a")
  case None
  with assms show ?thesis
    by (simp add: gck_value_to_ulong_def attr_val_def val_ulong_def gck_attribute_is_invalid_def)
next
  case (Some p)
  with read_value_ok [OF assms(1) Some] assms(2) show ?thesis
    by (auto simp: gck_value_to_ulong_def attr_val_def val_ulong_def gck_attribute_is_invalid_def)
qed

lemma find_attribute_ulong_view:
  assumes "list_all (attr_ok st) as"
  shows "find_attribute_ulong st as t = Ret (views_ulong (views st as) t)"
proof (cases "find_attribute as t")
  case None
  then show ?thesis
    by (simp add: find_attribute_ulong_def views_ulong_def find_attribute_views [of _ _ st])
next
  case (Some i)
  then have i: "i < length as" using find_attribute_SomeD by blast
  then have "attr_ok st (as ! i)" using assms by (simp add: list_all_length)
  moreover have "val_ulong (attr_val st (as ! i)) = None" if "gck_attribute_is_invalid (as ! i)"
    using that by (simp add: attr_val_def val_ulong_def gck_attribute_is_invalid_def)
  moreover have "vfind (views st as) t = Some i" "snd (views st as ! i) = attr_val st (as ! i)"
    using Some i by (simp_all add: find_attribute_views [of _ _ st] views_def)
  ultimately show ?thesis
    using Some value_to_ulong_view [of st "as ! i"]
    by (auto simp: find_attribute_ulong_def views_ulong_def)
qed

lemma vfind_SomeD: "vfind vs t = Some i \<Longrightarrow> i < length vs \<and> fst (vs ! i) = t"
  by (induction vs arbitrary: i) (auto split: if_splits)

lemma vfind_append:
  "vfind (vs @ ws) t =
     (case vfind vs t of Some i \<Rightarrow> Some i | None \<Rightarrow> map_option ((+) (length vs)) (vfind ws t))"
  by (induction vs; cases "vfind ws t") (auto split: option.split)

lemma vfind_update:
  "i < length vs \<Longrightarrow> fst (vs ! i) = fst w \<Longrightarrow> vfind (vs[i := w]) t = vfind vs t"
proof (induction vs arbitrary: i)
  case (Cons v vs)
  then show ?case by (cases i) auto
qed simp

lemma views_ulong_vset:
  "views_ulong (vset t v vs) u = (if u = t then val_ulong v else views_ulong vs u)"
proof (cases "vfind vs t")
  case None
  then show ?thesis
    by (auto simp: vset_def views_ulong_def vfind_append nth_append split: option.split dest: vfind_SomeD)
next
  case (Some i)
  then have i: "i < length vs" "fst (vs ! i) = t" using vfind_SomeD by blast+
  have "vs[i := (t, v)] ! j = vs ! j" if "vfind vs u = Some j" "u \<noteq> t" for j
    using vfind_SomeD [OF that(1)] i that(2) by (cases "j = i") auto
  with Some i show ?thesis
    by (auto simp: vset_def views_ulong_def vfind_update split: option.split)
qed

lemma builder_find_ulong_view:
  assumes "builder_ok st F b"
  shows "gck_builder_find_ulong st b t = Ret (views_ulong (views st (attrs_of b)) t)"
  using assms find_attribute_ulong_view [of st "attrs_of b" t]
  by (auto simp: gck_builder_find_ulong_def builder_ok_def attrs_of_def views_ulong_def split: option.splits)

lemma attribute_equal_view:
  assumes "attr_ok st a" and "attr_ok st b"
  shows "gck_attribute_equal st (Some a) (Some b) =
     Ret (atype a = atype b \<and> attr_val st a = attr_val st b)"
proof (cases "avalue a"; cases "avalue b")
  fix p q
  assume ab: "avalue a = Some p" "avalue b = Some q"
  have "alength a \<noteq> G_MAXULONG" "alength b \<noteq> G_MAXULONG"
    using assms ab by (auto simp: attr_ok_def)
  with ab read_value_ok [OF assms(1) ab(1)] read_value_ok [OF assms(2) ab(2)] show ?thesis
    by (auto simp: gck_attribute_equal_def attr_val_def)
qed (use assms in \<open>auto simp: gck_attribute_equal_def attr_val_def attr_ok_def\<close>)

lemma attribute_hash_view:
  assumes "attr_ok st a" and "attr_ok st b" and "atype a = atype b" and "attr_val st a = attr_val st b"
  shows "gck_attribute_hash st a = gck_attribute_hash st b"
proof (cases "avalue a"; cases "avalue b")
  fix p q
  assume ab: "avalue a = Some p" "avalue b = Some q"
  have "alength a \<noteq> G_MAXULONG" "alength b \<noteq> G_MAXULONG"
    using assms ab by (auto simp: attr_ok_def)
  with ab assms read_value_ok [OF assms(1) ab(1)] read_value_ok [OF assms(2) ab(2)] show ?thesis
    by (simp add: gck_attribute_hash_def attr_val_def)
qed (use assms in \<open>auto simp: gck_attribute_hash_def attr_val_def attr_ok_def split: if_splits\<close>)

lemma commit_all_undef:
  assumes "list_all (\<lambda>a. alength a < 2 ^ 64) as"
  shows "(commit_all junk st False as = Undef \<longleftrightarrow>
       (\<exists>a \<in> set as. 2 ^ 64 - MAX_ALIGN \<le> alength a \<and> alength a \<noteq> G_MAXULONG)) \<and>
     commit_all junk st False as \<noteq> Abort"
  using assms
proof (induction as arbitrary: st)
  case Nil
  then show ?case by simp
next
  case (Cons a as)
  let ?bad = "2 ^ 64 - MAX_ALIGN \<le> alength a \<and> alength a \<noteq> G_MAXULONG"
  let ?first = "if alength a \<noteq> 0 \<and> alength a \<noteq> G_MAXULONG
        then obind (value_blank junk st (alength a) False) (\<lambda>(st', p). Ret (st', Some p))
        else Ret (st, None)"
  have "value_blank junk st (alength a) False = Undef \<longleftrightarrow> 2 ^ 64 - MAX_ALIGN \<le> alength a"
    "value_blank junk st (alength a) False \<noteq> Abort"
    using Cons.prems by (auto simp: value_blank_def Let_def wrap64_def MAX_ALIGN_def mod_if)
  then have first: "?first = Undef \<longleftrightarrow> ?bad" "?first \<noteq> Abort"
    by (auto simp: MAX_ALIGN_def obind_def split: outcome.splits prod.splits)
  show ?case
  proof (cases ?first)
    case (Ret r)
    with first have good: "\<not> ?bad" by auto
    have step: "commit_all junk st False (a # as) =
        obind (commit_all junk (fst r) False as) (\<lambda>(st'', as'). Ret (st'', a\<lparr>avalue := snd r\<rparr> # as'))"
      by (simp only: commit_all.simps Ret obind_simps split_beta)
    show ?thesis
      using good Cons.IH [of "fst r"] Cons.prems unfolding step
      by (cases "commit_all junk (fst r) False as") (auto simp: split_beta)
  next
    case Undef
    then have step: "commit_all junk st False (a # as) = Undef"
      by (simp only: commit_all.simps obind_simps)
    with first Undef show ?thesis by (simp only: step) auto
  qed (use first in auto)
qed

section \<open>Properties\<close>

text \<open>
  C36. Any sequence of editing commands on a fresh builder succeeds; the list made at the end holds
  exactly what the commands mean for a list of types and values (adding appends, setting replaces
  the first attribute of the type); and when the list is released, precisely the references that the
  rest of the program holds are left, with their octets unchanged: every value created on the way is
  released once and no shared value is released early.\<close>
theorem gck_builder_program:
  assumes "store_ok st F" and "secure_ready st" and "list_all (\<lambda>c. cmd_valid c F st) cs"
  shows "\<exists>st1 b1 b2 attrs st'. run_cmds cs st (gck_builder_init_full secure) = Ret (st1, b1) \<and>
     gck_builder_end b1 = (b2, attrs) \<and>
     views st1 (adata attrs) = fold (\<lambda>c. cmd_edit c st) cs [] \<and>
     gck_attributes_unref st1 (Some attrs) = Ret (st', None) \<and> store_ok st' F \<and> keeps F st st'"
  using cmds.then_end [of st F "gck_builder_init_full secure" cs] assms
  by (simp add: builder_ok_def gck_builder_init_full_def attrs_of_def)

theorem gck_builder_program_witness:
  "let st = \<lparr>cells = Map.empty, vnext = 0, secure_avail = \<lambda>_. True\<rparr>;
       cs = [AddUlong 0 3, SetBoolean 1 True, SetUlong 0 4]
   in \<exists>st1 b1 b2 attrs st'. run_cmds cs st (gck_builder_init_full False) = Ret (st1, b1) \<and>
     gck_builder_end b1 = (b2, attrs) \<and>
     views st1 (adata attrs) = [(0, Octets [4, 0, 0, 0, 0, 0, 0, 0]), (1, Octets [1])] \<and>
     gck_attributes_unref st1 (Some attrs) = Ret (st', None) \<and> store_ok st' {#} \<and> keeps {#} st st'"
proof -
  let ?st = "\<lparr>cells = Map.empty, vnext = 0, secure_avail = \<lambda>_. True\<rparr>"
  let ?cs = "[AddUlong 0 3, SetBoolean 1 True, SetUlong 0 4]"
  have "store_ok ?st {#}" "secure_ready ?st" "list_all (\<lambda>c. cmd_valid c {#} ?st) ?cs"
    by (simp_all add: store_ok_def secure_ready_def)
  moreover have "fold (\<lambda>c. cmd_edit c ?st) ?cs [] = [(0, Octets [4, 0, 0, 0, 0, 0, 0, 0]), (1, Octets [1])]"
    by (simp add: vadd_def vset_def ulong_octets_def upt_rec)
  ultimately show ?thesis
    using gck_builder_program [of ?st "{#}" ?cs False] by (simp only: Let_def)
qed

text \<open>
  C37. After setting an attribute of a type to a number, looking the type up gives the number, and
  looking up any other type gives what it gave before.\<close>
theorem gck_builder_set_find_ulong:
  assumes "builder_ok st F b" and "secure_ready st" and "v < 2 ^ 64"
  shows "\<exists>st' b'. gck_builder_set_ulong st b t v = Ret (st', b') \<and> builder_ok st' F b' \<and>
     gck_builder_find_ulong st' b' t = Ret (Some v) \<and>
     (\<forall>u. u \<noteq> t \<longrightarrow> gck_builder_find_ulong st' b' u = gck_builder_find_ulong st b u)"
proof -
  obtain st' b' where b': "gck_builder_set_ulong st b t v = Ret (st', b')" "builder_ok st' F b'"
    "views st' (attrs_of b') = vset t (Octets (ulong_octets v)) (views st (attrs_of b))"
    using cmd.oper_edits [OF assms(1,2), of "SetUlong t v"] by (auto simp: edits_def)
  moreover have "val_ulong (Octets (ulong_octets v)) = Some v"
    using octets_ulong_inverse [OF assms(3)] by (simp add: val_ulong_def)
  ultimately show ?thesis
    using builder_find_ulong_view [OF b'(2)] builder_find_ulong_view [OF assms(1)]
    by (simp add: views_ulong_vset)
qed

theorem gck_builder_set_find_ulong_witness:
  "\<exists>st' b'. gck_builder_set_ulong \<lparr>cells = Map.empty, vnext = 0, secure_avail = \<lambda>_. True\<rparr>
       (gck_builder_init_full False) 256 3 = Ret (st', b') \<and>
     builder_ok st' {#} b' \<and> gck_builder_find_ulong st' b' 256 = Ret (Some 3)"
proof -
  let ?st = "\<lparr>cells = Map.empty, vnext = 0, secure_avail = \<lambda>_. True\<rparr>"
  have "builder_ok ?st {#} (gck_builder_init_full False)" "secure_ready ?st"
    by (simp_all add: builder_ok_def store_ok_def secure_ready_def gck_builder_init_full_def attrs_of_def)
  from gck_builder_set_find_ulong [OF this, of 3 256] show ?thesis by auto
qed

text \<open>
  On well-formed attributes \<^verbatim>\<open>gck_attribute_equal\<close> holds exactly when type and value
  agree, the values being compared by their octets and not by their address; and equal attributes
  have the same hash, as a hash table needs.\<close>
theorem gck_attribute_equal_hash:
  assumes "attr_ok st a" and "attr_ok st b"
  shows "gck_attribute_equal st (Some a) (Some b) =
       Ret (atype a = atype b \<and> attr_val st a = attr_val st b) \<and>
     (gck_attribute_equal st (Some a) (Some b) = Ret True \<longrightarrow>
       gck_attribute_hash st a = gck_attribute_hash st b)"
  using attribute_equal_view [OF assms] attribute_hash_view [OF assms] by simp

theorem gck_attribute_equal_hash_witness:
  "gck_attribute_equal \<lparr>cells = [0 \<mapsto> \<lparr>vrefs = 1, vdata = [9], vsecure = False\<rparr>,
         1 \<mapsto> \<lparr>vrefs = 1, vdata = [9], vsecure = True\<rparr>], vnext = 2, secure_avail = \<lambda>_. True\<rparr>
       (Some \<lparr>atype = 3, avalue = Some 0, alength = 1\<rparr>) (Some \<lparr>atype = 3, avalue = Some 1, alength = 1\<rparr>) = Ret True"
  using gck_attribute_equal_hash [of "\<lparr>cells = [0 \<mapsto> \<lparr>vrefs = 1, vdata = [9], vsecure = False\<rparr>,
         1 \<mapsto> \<lparr>vrefs = 1, vdata = [9], vsecure = True\<rparr>], vnext = 2, secure_avail = \<lambda>_. True\<rparr>"
      "\<lparr>atype = 3, avalue = Some 0, alength = 1\<rparr>" "\<lparr>atype = 3, avalue = Some 1, alength = 1\<rparr>"]
  by (simp add: attr_ok_def attr_val_def)

text \<open>
  When a module has reported the lengths of the attributes,
  \<^verbatim>\<open>_gck_builder_commit_in\<close> of a builder without secure memory has undefined behaviour exactly when a reported length is among
  the fifteen largest ones below the invalid one: adding the room for the counter wraps around and the area is
  smaller than that room.\<close>
theorem gck_builder_commit_in_wraps:
  assumes "\<not> bsecure b" and "list_all (\<lambda>a. alength a < 2 ^ 64) (attrs_of b)"
  shows "gck_builder_commit_in junk st b = Undef \<longleftrightarrow>
     (\<exists>a \<in> set (attrs_of b). 2 ^ 64 - 16 \<le> alength a \<and> alength a \<noteq> G_MAXULONG)"
proof (cases "barray b")
  case None
  then show ?thesis by (simp add: gck_builder_commit_in_def attrs_of_def)
next
  case (Some arr)
  with assms commit_all_undef [of arr junk st] show ?thesis
    by (cases "commit_all junk st False arr")
      (auto simp: gck_builder_commit_in_def attrs_of_def MAX_ALIGN_def split_beta)
qed

theorem gck_builder_commit_in_wraps_witness:
  "gck_builder_commit_in (\<lambda>_. 0) \<lparr>cells = Map.empty, vnext = 0, secure_avail = \<lambda>_. True\<rparr>
     \<lparr>barray = Some [\<lparr>atype = 17, avalue = None, alength = 2 ^ 64 - 2\<rparr>], bsecure = False, brefs = 0\<rparr> = Undef"
  using gck_builder_commit_in_wraps
    [of "\<lparr>barray = Some [\<lparr>atype = 17, avalue = None, alength = 2 ^ 64 - 2\<rparr>], bsecure = False, brefs = 0\<rparr>" "\<lambda>_. 0"
        "\<lparr>cells = Map.empty, vnext = 0, secure_avail = \<lambda>_. True\<rparr>"]
  by (simp add: attrs_of_def)

end
