(* ===== verification/Gcr_Openssh.thy ===== *)
theory Gcr_Openssh
  imports Egg_Buffer Egg_Decimal Gck_Attributes
begin

text \<open>
  The parser of OpenSSH public keys (gcr/gcr-openssh.c): lines of the files
  \<^verbatim>\<open>authorized_keys\<close> and \<^verbatim>\<open>id_*.pub\<close>, in the format of version 1 (decimal numbers)
  and of version 2 (base64 of a packet of octet arrays).

  A line is a list of octets and the pointers into it are the words and rests of it.  The attributes
  of a key are collected with the builder of \<open>Gck_Attributes\<close> in its store of values, and a
  packet is read with \<open>Egg_Buffer\<close>; the decimal numbers of version 1 go through
  \<open>Egg_Decimal\<close>.  A call of the callback is a record with the views of the attributes at the
  time of the call, the label, the options and the octets of the line.

  Parameters: \<open>decode\<close> is \<^verbatim>\<open>g_base64_decode_step\<close> from its initial state,
  \<open>ec_params\<close> and \<open>ec_point\<close> are the encodings egg-asn1x makes of a named curve and of an
  octet string (\<open>None\<close> when it fails).  The numbers of the attribute and key types are the ones
  PKCS#11 assigns.
\<close>

section \<open>Constants\<close>

abbreviation (input) CKA_CLASS :: nat where "CKA_CLASS \<equiv> 0x0"
abbreviation (input) CKA_LABEL :: nat where "CKA_LABEL \<equiv> 0x3"
abbreviation (input) CKA_VALUE :: nat where "CKA_VALUE \<equiv> 0x11"
abbreviation (input) CKA_KEY_TYPE :: nat where "CKA_KEY_TYPE \<equiv> 0x100"
abbreviation (input) CKA_MODULUS :: nat where "CKA_MODULUS \<equiv> 0x120"
abbreviation (input) CKA_PUBLIC_EXPONENT :: nat where "CKA_PUBLIC_EXPONENT \<equiv> 0x122"
abbreviation (input) CKA_PRIME :: nat where "CKA_PRIME \<equiv> 0x130"
abbreviation (input) CKA_SUBPRIME :: nat where "CKA_SUBPRIME \<equiv> 0x131"
abbreviation (input) CKA_BASE :: nat where "CKA_BASE \<equiv> 0x132"
abbreviation (input) CKA_EC_PARAMS :: nat where "CKA_EC_PARAMS \<equiv> 0x180"
abbreviation (input) CKA_EC_POINT :: nat where "CKA_EC_POINT \<equiv> 0x181"
abbreviation (input) CKK_RSA :: nat where "CKK_RSA \<equiv> 0x0"
abbreviation (input) CKK_DSA :: nat where "CKK_DSA \<equiv> 0x1"
abbreviation (input) CKK_ECDSA :: nat where "CKK_ECDSA \<equiv> 0x3"
abbreviation (input) CKK_EC_EDWARDS :: nat where "CKK_EC_EDWARDS \<equiv> 0x40"
abbreviation (input) CKO_PUBLIC_KEY :: nat where "CKO_PUBLIC_KEY \<equiv> 0x2"

datatype GcrDataError =
  GCR_SUCCESS | GCR_ERROR_FAILURE | GCR_ERROR_UNRECOGNIZED | GCR_ERROR_CANCELLED | GCR_ERROR_LOCKED

record OpensshPub =
  pub_attrs :: "(nat \<times> aval) list"
  pub_label :: "byte list option"
  pub_options :: "byte list option"
  pub_outer :: "byte list"

section \<open>Words\<close>

definition skip_spaces :: "byte list \<Rightarrow> byte list" where
  "skip_spaces line = dropWhile (\<lambda>c. c = chr CHR '' '') line"

text \<open>The loop of \<^verbatim>\<open>next_word\<close>: a space inside of quotes belongs to the word.\<close>

fun word_length :: "bool \<Rightarrow> byte list \<Rightarrow> nat" where
  "word_length quotes [] = 0"
| "word_length quotes (c # cs) =
     (if c = chr CHR 0x22 then Suc (word_length (\<not> quotes) cs)
      else if c = chr CHR '' '' then (if \<not> quotes then 0 else Suc (word_length quotes cs))
      else Suc (word_length quotes cs))"

definition next_word :: "byte list \<Rightarrow> byte list option \<times> byte list" where
  "next_word line =
     (let line' = skip_spaces line in
      if line' = [] then (None, line')
      else (let n = word_length False line' in (Some (take n line'), drop n line')))"

definition match_word :: "byte list \<Rightarrow> byte list \<Rightarrow> bool" where
  "match_word word matches \<longleftrightarrow> length matches = length word \<and> word = matches"

definition keytype_to_algo :: "byte list option \<Rightarrow> nat" where
  "keytype_to_algo algo =
     (case algo of
        None \<Rightarrow> G_MAXULONG
      | Some a \<Rightarrow>
          if match_word a (cstr ''ssh-rsa'') then CKK_RSA
          else if match_word a (cstr ''ssh-dss'') then CKK_DSA
          else if match_word a (cstr ''ssh-ed25519'') then CKK_EC_EDWARDS
          else if length a \<ge> 6 \<and> take 6 a = cstr ''ecdsa-'' then CKK_ECDSA
          else G_MAXULONG)"

text \<open>
  \<^verbatim>\<open>atoin\<close> adds up the digits from the last one; overflow of \<^verbatim>\<open>gint\<close> is undefined.
  The length arrives as a \<^verbatim>\<open>gint\<close>.
\<close>

fun atoin_loop :: "byte list \<Rightarrow> int \<Rightarrow> int \<Rightarrow> int outcome" where
  "atoin_loop [] ret base = Ret ret"
| "atoin_loop (c # cs) ret base =
     (if c < chr CHR ''0'' \<or> c > chr CHR ''9'' then Ret (-1)
      else (let ret' = ret + uint (c - chr CHR ''0'') * base; base' = base * 10 in
            if ret' \<ge> 2 ^ 31 \<or> base' \<ge> 2 ^ 31 then Undef else atoin_loop cs ret' base'))"

definition as_gint :: "nat \<Rightarrow> int" where
  "as_gint n = (let m = int n mod 2 ^ 32 in if m < 2 ^ 31 then m else m - 2 ^ 32)"

definition atoin :: "byte list \<Rightarrow> int \<Rightarrow> int outcome" where
  "atoin p digits = atoin_loop (rev (take (nat digits) p)) 0 1"

section \<open>Version 1\<close>

definition read_decimal_mpi ::
  "vstore \<Rightarrow> GckRealBuilder \<Rightarrow> byte list \<Rightarrow> nat \<Rightarrow> (bool \<times> vstore \<times> GckRealBuilder) outcome" where
  "read_decimal_mpi st b decimal attribute_type =
     obind (egg_decimal_decode decimal)
       (\<lambda>r. case r of
          None \<Rightarrow> Ret (False, st, b)
        | Some data \<Rightarrow>
            obind (gck_builder_add_data st b attribute_type (Some data) False (length data))
              (\<lambda>(st', b'). Ret (True, st', b')))"

text \<open>The label: the rest of the line, up to a NUL, stripped.\<close>

definition line_label :: "byte list \<Rightarrow> byte list option" where
  "line_label line =
     (let rest = skip_spaces line in if rest \<noteq> [] then Some (g_strstrip (until_nul rest)) else None)"

definition add_label ::
  "vstore \<Rightarrow> GckRealBuilder \<Rightarrow> byte list option \<Rightarrow> (vstore \<times> GckRealBuilder) outcome" where
  "add_label st b label =
     (case label of
        None \<Rightarrow> Ret (st, b)
      | Some l \<Rightarrow> gck_builder_add_string st b CKA_LABEL (Some l) False)"

text \<open>The end of both parsers: the attributes are handed to the callback and released.\<close>

definition finish_key ::
  "vstore \<Rightarrow> GckRealBuilder \<Rightarrow> byte list option \<Rightarrow> byte list option \<Rightarrow> byte list \<Rightarrow>
   (vstore \<times> GcrDataError \<times> OpensshPub option) outcome" where
  "finish_key st b label options outer =
     (case gck_builder_end b of (b', attrs) \<Rightarrow>
        (let call = \<lparr>pub_attrs = views st (adata attrs), pub_label = label, pub_options = options,
                     pub_outer = outer\<rparr>
         in obind (gck_attributes_unref st (Some attrs)) (\<lambda>(st', _). Ret (st', GCR_SUCCESS, Some call))))"

definition clear_key ::
  "vstore \<Rightarrow> GckRealBuilder \<Rightarrow> GcrDataError \<Rightarrow> (vstore \<times> GcrDataError \<times> OpensshPub option) outcome" where
  "clear_key st b err = obind (gck_builder_clear st b) (\<lambda>(st', _). Ret (st', err, None))"

text \<open>
  The words of a line: the options (only when the line does not start with a digit), the three
  numbers and the rest.
\<close>

definition v1_words ::
  "byte list \<Rightarrow> (byte list option \<times> byte list \<times> byte list \<times> byte list \<times> byte list) option" where
  "v1_words line0 =
     (let line = skip_spaces line0 in
      if line = [] \<or> hd line = chr CHR ''#'' then None
      else
        (case (if g_ascii_isdigit (hd line) then (True, None, line)
               else (case next_word line of (w, rest) \<Rightarrow> (w \<noteq> None, w, rest))) of
           (ok, word_options, line1) \<Rightarrow>
             if \<not> ok then None
             else (case next_word line1 of
               (None, _) \<Rightarrow> None
             | (Some word_bits, line2) \<Rightarrow>
                 (case next_word line2 of
                    (None, _) \<Rightarrow> None
                  | (Some word_exponent, line3) \<Rightarrow>
                      (case next_word line3 of
                         (None, _) \<Rightarrow> None
                       | (Some word_modulus, line4) \<Rightarrow>
                           Some (word_options, word_bits, word_exponent, word_modulus, line4))))))"

text \<open>Type, class and label, once the two numbers are there.\<close>

definition v1_finish ::
  "vstore \<Rightarrow> GckRealBuilder \<Rightarrow> byte list \<Rightarrow> byte list option \<Rightarrow> byte list \<Rightarrow>
   (vstore \<times> GcrDataError \<times> OpensshPub option) outcome" where
  "v1_finish st b rest options line =
     obind (gck_builder_add_ulong st b CKA_KEY_TYPE CKK_RSA)
       (\<lambda>(st3, b3). obind (gck_builder_add_ulong st3 b3 CKA_CLASS CKO_PUBLIC_KEY)
         (\<lambda>(st4, b4). obind (add_label st4 b4 (line_label rest))
           (\<lambda>(st5, b5). finish_key st5 b5 (line_label rest) options line)))"

definition parse_v1_public_line ::
  "vstore \<Rightarrow> byte list \<Rightarrow> (vstore \<times> GcrDataError \<times> OpensshPub option) outcome" where
  "parse_v1_public_line st line =
     (case v1_words line of
        None \<Rightarrow> Ret (st, GCR_ERROR_UNRECOGNIZED, None)
      | Some (word_options, word_bits, word_exponent, word_modulus, rest) \<Rightarrow>
          obind (atoin word_bits (as_gint (length word_bits)))
            (\<lambda>bits. if bits \<le> 0 then Ret (st, GCR_ERROR_UNRECOGNIZED, None)
              else obind (read_decimal_mpi st (gck_builder_init_full False) word_exponent CKA_PUBLIC_EXPONENT)
                (\<lambda>(ok1, st1, b1). if \<not> ok1 then clear_key st1 b1 GCR_ERROR_UNRECOGNIZED
                  else obind (read_decimal_mpi st1 b1 word_modulus CKA_MODULUS)
                    (\<lambda>(ok2, st2, b2). if \<not> ok2 then clear_key st2 b2 GCR_ERROR_UNRECOGNIZED
                      else v1_finish st2 b2 rest (map_option until_nul word_options) line))))"

section \<open>Version 2\<close>

text \<open>
  The readers work on a packet: the buffer, the offset, the store and the builder.
\<close>

record packet =
  pbuf :: EggBuffer
  poff :: nat
  pst :: vstore
  pbld :: GckRealBuilder

type_synonym reading = "(bool \<times> packet) outcome"

definition and_then :: "reading \<Rightarrow> (packet \<Rightarrow> reading) \<Rightarrow> reading" where
  "and_then r f = obind r (\<lambda>(ok, p). if ok then f p else Ret (False, p))"

definition add_to :: "packet \<Rightarrow> (vstore \<times> GckRealBuilder) outcome \<Rightarrow> reading" where
  "add_to p r = obind r (\<lambda>(st, b). Ret (True, p\<lparr>pst := st, pbld := b\<rparr>))"

text \<open>An array that is stored as \<^verbatim>\<open>NULL\<close> has the length 0.\<close>

definition array_length :: "byte list option \<Rightarrow> nat" where
  "array_length v = (case v of None \<Rightarrow> 0 | Some bs \<Rightarrow> length bs)"

definition read_buffer_mpi :: "nat \<Rightarrow> packet \<Rightarrow> reading" where
  "read_buffer_mpi attribute_type p =
     obind (egg_buffer_get_byte_array (pbuf p) (poff p))
       (\<lambda>(r, buf'). case r of
          None \<Rightarrow> Ret (False, p\<lparr>pbuf := buf'\<rparr>)
        | Some (off, data) \<Rightarrow>
            add_to (p\<lparr>pbuf := buf', poff := off\<rparr>)
              (gck_builder_add_data (pst p) (pbld p) attribute_type data False (array_length data)))"

definition read_buffer_mpi_to_der ::
  "(byte list option \<Rightarrow> byte list option) \<Rightarrow> nat \<Rightarrow> packet \<Rightarrow> reading" where
  "read_buffer_mpi_to_der ec_point attribute_type p =
     obind (egg_buffer_get_byte_array (pbuf p) (poff p))
       (\<lambda>(r, buf'). case r of
          None \<Rightarrow> Ret (False, p\<lparr>pbuf := buf'\<rparr>)
        | Some (off, data) \<Rightarrow>
            (case ec_point data of
               None \<Rightarrow> Ret (False, p\<lparr>pbuf := buf', poff := off\<rparr>)
             | Some der \<Rightarrow>
                 add_to (p\<lparr>pbuf := buf', poff := off\<rparr>)
                   (gck_builder_add_data (pst p) (pbld p) attribute_type (Some der) False (length der))))"

definition add_ulong_to :: "nat \<Rightarrow> nat \<Rightarrow> packet \<Rightarrow> reading" where
  "add_ulong_to attribute_type v p = add_to p (gck_builder_add_ulong (pst p) (pbld p) attribute_type v)"

definition key_type_and_class :: "nat \<Rightarrow> packet \<Rightarrow> reading" where
  "key_type_and_class algo p =
     and_then (add_ulong_to CKA_KEY_TYPE algo p) (add_ulong_to CKA_CLASS CKO_PUBLIC_KEY)"

definition read_v2_public_dsa :: "packet \<Rightarrow> reading" where
  "read_v2_public_dsa p =
     and_then (read_buffer_mpi CKA_PRIME p)
       (\<lambda>p. and_then (read_buffer_mpi CKA_SUBPRIME p)
         (\<lambda>p. and_then (read_buffer_mpi CKA_BASE p)
           (\<lambda>p. and_then (read_buffer_mpi CKA_VALUE p) (key_type_and_class CKK_DSA))))"

definition read_v2_public_rsa :: "packet \<Rightarrow> reading" where
  "read_v2_public_rsa p =
     and_then (read_buffer_mpi CKA_PUBLIC_EXPONENT p)
       (\<lambda>p. and_then (read_buffer_mpi CKA_MODULUS p) (key_type_and_class CKK_RSA))"

text \<open>\<^verbatim>\<open>g_realloc\<close> does not fail: it aborts the process instead.\<close>

definition g_realloc_env :: alloc_env where
  "g_realloc_env = c_realloc (\<lambda>_ _. True) 0"

datatype curve = SECP256R1 | SECP384R1 | SECP521R1

definition curve_of :: "byte list option \<Rightarrow> curve option" where
  "curve_of name =
     (if name = Some (cstr ''nistp256'') then Some SECP256R1
      else if name = Some (cstr ''nistp384'') then Some SECP384R1
      else if name = Some (cstr ''nistp521'') then Some SECP521R1
      else None)"

definition read_v2_public_ecdsa ::
  "(curve \<Rightarrow> byte list) \<Rightarrow> (byte list option \<Rightarrow> byte list option) \<Rightarrow> packet \<Rightarrow> reading" where
  "read_v2_public_ecdsa ec_params ec_point p =
     obind (egg_buffer_get_string g_realloc_env (pbuf p) (poff p) (Some 1))
       (\<lambda>(r, written, buf'). case r of
          None \<Rightarrow> Ret (False, p\<lparr>pbuf := buf'\<rparr>)
        | Some (off, name) \<Rightarrow>
            (case curve_of name of
               None \<Rightarrow> Ret (False, p\<lparr>pbuf := buf', poff := off\<rparr>)
             | Some c \<Rightarrow>
                 and_then
                   (add_to (p\<lparr>pbuf := buf', poff := off\<rparr>)
                     (gck_builder_add_data (pst p) (pbld p) CKA_EC_PARAMS (Some (ec_params c)) False
                        (length (ec_params c))))
                   (\<lambda>p. and_then (read_buffer_mpi_to_der ec_point CKA_EC_POINT p)
                     (key_type_and_class CKK_ECDSA))))"

definition read_v2_public_ed25519 :: "packet \<Rightarrow> reading" where
  "read_v2_public_ed25519 p =
     and_then (read_buffer_mpi CKA_VALUE p) (key_type_and_class CKK_EC_EDWARDS)"

text \<open>The \<^verbatim>\<open>switch\<close> over the algorithm.\<close>

definition read_v2_algo ::
  "(curve \<Rightarrow> byte list) \<Rightarrow> (byte list option \<Rightarrow> byte list option) \<Rightarrow> nat \<Rightarrow> packet \<Rightarrow> reading" where
  "read_v2_algo ec_params ec_point algo p =
     (if algo = CKK_RSA then read_v2_public_rsa p
      else if algo = CKK_DSA then read_v2_public_dsa p
      else if algo = CKK_EC_EDWARDS then read_v2_public_ed25519 p
      else if algo = CKK_ECDSA then read_v2_public_ecdsa ec_params ec_point p
      else Abort)"

text \<open>
  The algorithm that is named inside the packet has to be the one of the line.  When it is not, the
  name is released and then handed to \<^verbatim>\<open>g_message\<close>: a use after free (or, for a name that is
  \<^verbatim>\<open>NULL\<close>, a \<^verbatim>\<open>%s\<close> without a string), undefined behaviour either way.
\<close>

definition read_v2_public_key ::
  "(curve \<Rightarrow> byte list) \<Rightarrow> (byte list option \<Rightarrow> byte list option) \<Rightarrow> nat \<Rightarrow> byte list \<Rightarrow>
   vstore \<Rightarrow> GckRealBuilder \<Rightarrow> reading" where
  "read_v2_public_key ec_params ec_point algo data st b =
     (let p = \<lparr>pbuf = egg_buffer_init_static (Some data) (length data), poff = 0, pst = st, pbld = b\<rparr> in
      obind (egg_buffer_get_string g_realloc_env (pbuf p) 0 (Some 1))
        (\<lambda>(r, written, buf'). case r of
           None \<Rightarrow> Ret (False, p\<lparr>pbuf := buf'\<rparr>)
         | Some (off, stype) \<Rightarrow>
             (let p' = p\<lparr>pbuf := buf', poff := off\<rparr> in
              if keytype_to_algo stype \<noteq> algo then Undef
              else read_v2_algo ec_params ec_point algo p')))"

definition decode_v2_public_key ::
  "(byte list \<Rightarrow> byte list) \<Rightarrow> (curve \<Rightarrow> byte list) \<Rightarrow> (byte list option \<Rightarrow> byte list option) \<Rightarrow>
   nat \<Rightarrow> byte list \<Rightarrow> vstore \<Rightarrow> GckRealBuilder \<Rightarrow> (bool \<times> vstore \<times> GckRealBuilder) outcome" where
  "decode_v2_public_key decode ec_params ec_point algo data st b =
     (let decoded = decode data in
      if length decoded > length data * 3 div 4 then Undef
      else if decoded = [] then Ret (False, st, b)
      else obind (read_v2_public_key ec_params ec_point algo decoded st b)
             (\<lambda>(ok, p). Ret (ok, pst p, pbld p)))"

text \<open>
  The words of a line: the options when the first word is not an algorithm, the number of the
  algorithm, and the rest of the line; an error otherwise.
\<close>

definition v2_words :: "byte list \<Rightarrow> (byte list option \<times> nat \<times> byte list) option" where
  "v2_words line0 =
     (let line = skip_spaces line0 in
      if line = [] \<or> hd line = chr CHR ''#'' then None
      else
        (case next_word line of
           (None, _) \<Rightarrow> None
         | (Some word, line1) \<Rightarrow>
             if keytype_to_algo (Some word) \<noteq> G_MAXULONG
             then Some (None, keytype_to_algo (Some word), line1)
             else (case next_word line1 of
               (None, _) \<Rightarrow> None
             | (Some word_algo, line2) \<Rightarrow>
                 if keytype_to_algo (Some word_algo) = G_MAXULONG then None
                 else Some (Some word, keytype_to_algo (Some word_algo), line2))))"

definition parse_v2_public_line ::
  "(byte list \<Rightarrow> byte list) \<Rightarrow> (curve \<Rightarrow> byte list) \<Rightarrow> (byte list option \<Rightarrow> byte list option) \<Rightarrow>
   vstore \<Rightarrow> byte list \<Rightarrow> (vstore \<times> GcrDataError \<times> OpensshPub option) outcome" where
  "parse_v2_public_line decode ec_params ec_point st line =
     (case v2_words line of
        None \<Rightarrow> Ret (st, GCR_ERROR_UNRECOGNIZED, None)
      | Some (word_options, algo, line1) \<Rightarrow>
          (case next_word line1 of
             (None, _) \<Rightarrow> Ret (st, GCR_ERROR_FAILURE, None)
           | (Some word_key, rest) \<Rightarrow>
               obind (decode_v2_public_key decode ec_params ec_point algo word_key st (gck_builder_init_full False))
                 (\<lambda>(ok, st1, b1). if \<not> ok then clear_key st1 b1 GCR_ERROR_FAILURE
                   else obind (add_label st1 b1 (line_label rest))
                     (\<lambda>(st2, b2). finish_key st2 b2 (line_label rest)
                        (map_option until_nul word_options) line))))"

section \<open>Files\<close>

definition parse_public_line ::
  "(byte list \<Rightarrow> byte list) \<Rightarrow> (curve \<Rightarrow> byte list) \<Rightarrow> (byte list option \<Rightarrow> byte list option) \<Rightarrow>
   vstore \<Rightarrow> byte list \<Rightarrow> (vstore \<times> GcrDataError \<times> OpensshPub option) outcome" where
  "parse_public_line decode ec_params ec_point st line =
     obind (parse_v2_public_line decode ec_params ec_point st line)
       (\<lambda>(st1, res, call). if res = GCR_ERROR_UNRECOGNIZED then parse_v1_public_line st1 line
          else Ret (st1, res, call))"

function openssh_lines ::
  "(byte list \<Rightarrow> byte list) \<Rightarrow> (curve \<Rightarrow> byte list) \<Rightarrow> (byte list option \<Rightarrow> byte list option) \<Rightarrow>
   vstore \<Rightarrow> byte list \<Rightarrow> OpensshPub list \<Rightarrow> nat \<Rightarrow> (vstore \<times> OpensshPub list \<times> nat) outcome" where
  "openssh_lines decode ec_params ec_point st data calls num_parsed =
     (let (line, rest) = (case memchr data (chr CHR 0x0A) of
            None \<Rightarrow> (data, None)
          | Some i \<Rightarrow> (take i data, Some (drop (Suc i) data)))
      in obind
           (if line \<noteq> [] then
              obind (parse_public_line decode ec_params ec_point st line)
                (\<lambda>(st', res, call).
                   Ret (st', calls @ (case call of None \<Rightarrow> [] | Some c \<Rightarrow> [c]),
                        if res = GCR_SUCCESS then Suc num_parsed else num_parsed))
            else Ret (st, calls, num_parsed))
           (\<lambda>(st', calls', num').
              case rest of
                None \<Rightarrow> Ret (st', calls', num')
              | Some data' \<Rightarrow> openssh_lines decode ec_params ec_point st' data' calls' num'))"
  by pat_completeness auto
termination
  by (relation "measure (\<lambda>(_, _, _, _, data, _, _). length data)")
    (auto simp: memchr_Some_iff split: option.splits)

declare openssh_lines.simps [simp del]

definition gcr_openssh_pub_parse ::
  "(byte list \<Rightarrow> byte list) \<Rightarrow> (curve \<Rightarrow> byte list) \<Rightarrow> (byte list option \<Rightarrow> byte list option) \<Rightarrow>
   vstore \<Rightarrow> byte list \<Rightarrow> (vstore \<times> OpensshPub list \<times> nat) outcome" where
  "gcr_openssh_pub_parse decode ec_params ec_point st data =
     openssh_lines decode ec_params ec_point st data [] 0"

section \<open>Reading packets\<close>

lemma get_string_any:
  assumes "buf_ok b"
  shows "\<exists>r w b'. egg_buffer_get_string al b off a = Ret (r, w, b') \<and> buf_ok b'"
  using assms
proof (cases rule: get_uint32_cases [of b off])
  case 1
  with assms show ?thesis by (auto simp: egg_buffer_get_string_def Let_def)
next
  case (2 w)
  show ?thesis
  proof (cases "w = 0xffffffff \<or> w \<ge> 0x7fffffff \<or> len b < unat w \<or> off + 4 > len b - unat w")
    case True
    with 2(1) assms show ?thesis by (auto simp: egg_buffer_get_string_def Let_def)
  next
    case False
    then have "buf_read b (off + 4) (unat w) = Ret (take (unat w) (drop (off + 4) (contents b)))"
      using assms by (intro buf_read_contents) auto
    with 2(1) False assms show ?thesis
      by (auto simp: egg_buffer_get_string_def Let_def split: option.splits)
  qed
qed

text \<open>The part of the packet that is not read yet.\<close>

definition rest_of :: "packet \<Rightarrow> byte list" where
  "rest_of p = drop (poff p) (contents (pbuf p))"

definition packet_ok :: "nat multiset \<Rightarrow> packet \<Rightarrow> bool" where
  "packet_ok F p \<longleftrightarrow> builder_ok (pst p) F (pbld p) \<and> secure_ready (pst p) \<and> buf_ok (pbuf p)"

text \<open>
  Two contracts.  \<open>reads\<close>: the reader comes back, with whatever answer, and keeps the ownership.
  \<open>reads_to\<close>: it succeeds, has added the views \<open>vs\<close>, and \<open>post\<close> is left to be read.
\<close>

definition reads :: "nat multiset \<Rightarrow> packet \<Rightarrow> reading \<Rightarrow> bool" where
  "reads F p r \<longleftrightarrow> (\<exists>ok p'. r = Ret (ok, p') \<and> packet_ok F p' \<and> keeps F (pst p) (pst p'))"

definition packet_views :: "packet \<Rightarrow> (nat \<times> aval) list" where
  "packet_views p = views (pst p) (attrs_of (pbld p))"

definition reads_to :: "nat multiset \<Rightarrow> packet \<Rightarrow> reading \<Rightarrow> (nat \<times> aval) list \<Rightarrow> byte list \<Rightarrow> bool" where
  "reads_to F p r vs post \<longleftrightarrow>
     (\<exists>p'. r = Ret (True, p') \<and> packet_ok F p' \<and> keeps F (pst p) (pst p') \<and>
        packet_views p' = packet_views p @ vs \<and> rest_of p' = post)"

lemma reads_toD: "reads_to F p r vs post \<Longrightarrow> reads F p r"
  by (auto simp: reads_to_def reads_def)

lemma and_then_reads:
  assumes "reads F p r" and "\<And>p'. packet_ok F p' \<Longrightarrow> reads F p' (f p')"
  shows "reads F p (and_then r f)"
proof -
  obtain ok p' where r: "r = Ret (ok, p')" "packet_ok F p'" "keeps F (pst p) (pst p')"
    using assms(1) by (auto simp: reads_def)
  show ?thesis
  proof (cases ok)
    case True
    with r assms(2) [OF r(2)] show ?thesis by (auto simp: and_then_def reads_def intro: keeps_trans)
  qed (use r in \<open>auto simp: and_then_def reads_def\<close>)
qed

lemma and_then_reads_to:
  assumes "reads_to F p r vs post"
    and "\<And>p'. packet_ok F p' \<Longrightarrow> rest_of p' = post \<Longrightarrow> reads_to F p' (f p') ws post'"
  shows "reads_to F p (and_then r f) (vs @ ws) post'"
proof -
  obtain p' where r: "r = Ret (True, p')" "packet_ok F p'" "keeps F (pst p) (pst p')"
    "packet_views p' = packet_views p @ vs" "rest_of p' = post"
    using assms(1) by (auto simp: reads_to_def)
  from assms(2) [OF r(2,5)] r show ?thesis
    by (auto simp: and_then_def reads_to_def intro: keeps_trans)
qed

lemma add_to_reads:
  assumes "packet_ok F p" and "buf_ok buf'" and "edits F (pst p) (pbld p) r (vadd t v)"
  shows "reads_to F p (add_to (p\<lparr>pbuf := buf', poff := off\<rparr>) r) [(t, v)] (drop off (contents buf'))"
proof -
  obtain st' b' where "r = Ret (st', b')" "builder_ok st' F b'" "keeps F (pst p) st'"
    "views st' (attrs_of b') = vadd t v (views (pst p) (attrs_of (pbld p)))"
    using assms(3) by (auto simp: edits_def)
  with assms(1,2) show ?thesis
    by (auto simp: add_to_def reads_to_def packet_ok_def packet_views_def rest_of_def vadd_def keeps_secure)
qed

definition array_val :: "byte list option \<Rightarrow> aval" where
  "array_val v = (case v of None \<Rightarrow> Empty | Some bs \<Rightarrow> Octets bs)"

lemma add_array_edits:
  assumes "packet_ok F p" and "array_length v < 2 ^ 62"
  shows "edits F (pst p) (pbld p) (gck_builder_add_data (pst p) (pbld p) t v False (array_length v))
     (vadd t (array_val v))"
proof -
  have "data_valid v (array_length v)" "data_val v (array_length v) = array_val v"
    using assms(2)
    by (auto simp: data_valid_def data_val_def array_val_def array_length_def MAX_ALIGN_def split: option.splits)
  with assms(1) add_data.oper_edits [of "pst p" F "pbld p" "(t, v, False, array_length v)"] show ?thesis
    by (simp add: packet_ok_def)
qed

lemma rest_split:
  assumes "rest_of p = e @ post" and "e \<noteq> []"
  shows "contents (pbuf p) = take (poff p) (contents (pbuf p)) @ e @ post"
    "length (take (poff p) (contents (pbuf p))) = poff p"
    "drop (poff p + length e) (contents (pbuf p)) = post"
proof -
  have "poff p < length (contents (pbuf p))"
  proof (rule ccontr)
    assume "\<not> poff p < length (contents (pbuf p))"
    with assms show False by (simp add: rest_of_def)
  qed
  then show "length (take (poff p) (contents (pbuf p))) = poff p" by simp
  show "contents (pbuf p) = take (poff p) (contents (pbuf p)) @ e @ post"
    using assms(1) by (metis append_take_drop_id rest_of_def)
  have "drop (poff p + length e) (contents (pbuf p)) = drop (length e) (rest_of p)"
    by (simp add: rest_of_def add.commute)
  with assms(1) show "drop (poff p + length e) (contents (pbuf p)) = post" by simp
qed

lemma encode_byte_array_not_Nil [simp]: "encode_byte_array v \<noteq> []"
  by (cases v) (simp_all add: encode_byte_array_def egg_buffer_encode_uint32_def)

lemma get_byte_array_rest:
  assumes "packet_ok F p" and "byte_array_valid v" and "rest_of p = encode_byte_array v @ post"
  shows "egg_buffer_get_byte_array (pbuf p) (poff p) =
       Ret (Some (poff p + length (encode_byte_array v), v), pbuf p)"
    and "array_length v < 2 ^ 62"
proof -
  have ok: "buf_ok (pbuf p)" using assms(1) by (simp add: packet_ok_def)
  note split = rest_split [OF assms(3) encode_byte_array_not_Nil]
  show "egg_buffer_get_byte_array (pbuf p) (poff p) =
       Ret (Some (poff p + length (encode_byte_array v), v), pbuf p)"
    using get_byte_array_mid [OF ok assms(2) split(1)] split(2) by simp
  have "length (encode_byte_array v) \<le> len (pbuf p)"
    using arg_cong [OF split(1), of length] ok by simp
  then show "array_length v < 2 ^ 62"
    using buf_ok_small [OF ok] by (cases v) (auto simp: array_length_def encode_byte_array_def)
qed

lemma read_buffer_mpi_to:
  assumes "packet_ok F p" and "byte_array_valid v" and "rest_of p = encode_byte_array v @ post"
  shows "reads_to F p (read_buffer_mpi t p) [(t, array_val v)] post"
proof -
  have ok: "buf_ok (pbuf p)" using assms(1) by (simp add: packet_ok_def)
  note get = get_byte_array_rest [OF assms]
  from add_to_reads [OF assms(1) ok add_array_edits [OF assms(1) get(2)], of "poff p + length (encode_byte_array v)" t]
  show ?thesis
    using get(1) rest_split(3) [OF assms(3)] by (simp add: read_buffer_mpi_def)
qed

lemma get_byte_array_length:
  assumes "buf_ok b" and "egg_buffer_get_byte_array b off = Ret (Some (off', v), b')"
  shows "array_length v < 2 ^ 62" "b' = b"
  using get_byte_array_any [OF assms(1), of off] assms(2) buf_ok_small [OF assms(1)]
  by (auto simp: array_length_def encode_byte_array_def split: option.splits)

lemma read_buffer_mpi_reads:
  assumes "packet_ok F p"
  shows "reads F p (read_buffer_mpi t p)"
proof -
  have ok: "buf_ok (pbuf p)" using assms by (simp add: packet_ok_def)
  from get_byte_array_any [OF ok, of "poff p"] show ?thesis
  proof
    assume "egg_buffer_get_byte_array (pbuf p) (poff p) = Ret (None, fail (pbuf p))"
    with assms show ?thesis by (auto simp: read_buffer_mpi_def reads_def packet_ok_def)
  next
    assume "\<exists>v. egg_buffer_get_byte_array (pbuf p) (poff p) =
        Ret (Some (poff p + length (encode_byte_array v), v), pbuf p) \<and>
        poff p + length (encode_byte_array v) \<le> len (pbuf p) \<and>
        take (length (encode_byte_array v)) (drop (poff p) (contents (pbuf p))) = encode_byte_array v"
    then obtain off v where get: "egg_buffer_get_byte_array (pbuf p) (poff p) = Ret (Some (off, v), pbuf p)"
      by blast
    from add_to_reads [OF assms ok add_array_edits [OF assms get_byte_array_length(1) [OF ok get]], of off t]
    have "reads F p (add_to (p\<lparr>poff := off\<rparr>)
        (gck_builder_add_data (pst p) (pbld p) t v False (array_length v)))"
      by (auto dest: reads_toD)
    with get show ?thesis by (simp add: read_buffer_mpi_def)
  qed
qed

lemma add_ulong_reads_to:
  assumes "packet_ok F p"
  shows "reads_to F p (add_ulong_to t v p) [(t, Octets (ulong_octets v))] (rest_of p)"
proof -
  have "edits F (pst p) (pbld p) (gck_builder_add_ulong (pst p) (pbld p) t v) (vadd t (Octets (ulong_octets v)))"
    using cmd.oper_edits [of "pst p" F "pbld p" "AddUlong t v"] assms by (simp add: packet_ok_def)
  from add_to_reads [OF assms _ this, of "pbuf p" "poff p"] assms show ?thesis
    by (simp add: add_ulong_to_def packet_ok_def rest_of_def)
qed

definition class_views :: "nat \<Rightarrow> (nat \<times> aval) list" where
  "class_views algo =
     [(CKA_KEY_TYPE, Octets (ulong_octets algo)), (CKA_CLASS, Octets (ulong_octets CKO_PUBLIC_KEY))]"

lemma key_type_and_class_to:
  assumes "packet_ok F p" and "rest_of p = post"
  shows "reads_to F p (key_type_and_class algo p) (class_views algo) post"
proof -
  have "reads_to F p (key_type_and_class algo p)
      ([(CKA_KEY_TYPE, Octets (ulong_octets algo))] @ [(CKA_CLASS, Octets (ulong_octets CKO_PUBLIC_KEY))]) post"
    unfolding key_type_and_class_def
    by (rule and_then_reads_to [OF add_ulong_reads_to [OF assms(1)]])
      (use add_ulong_reads_to assms(2) in metis)
  then show ?thesis by (simp add: class_views_def)
qed

lemma key_type_and_class_reads: "packet_ok F p \<Longrightarrow> reads F p (key_type_and_class algo p)"
  using key_type_and_class_to reads_toD by blast

text \<open>Encodings egg-asn1x produces are of a size that exists.\<close>

definition encoder_ok ::
  "(curve \<Rightarrow> byte list) \<Rightarrow> (byte list option \<Rightarrow> byte list option) \<Rightarrow> bool" where
  "encoder_ok ec_params ec_point \<longleftrightarrow>
     (\<forall>c. length (ec_params c) < 2 ^ 62) \<and> (\<forall>v der. ec_point v = Some der \<longrightarrow> length der < 2 ^ 62)"

lemma add_octets_reads_to:
  assumes "packet_ok F p" and "buf_ok buf'" and "length d < 2 ^ 62"
  shows "reads_to F p (add_to (p\<lparr>pbuf := buf', poff := off\<rparr>)
       (gck_builder_add_data (pst p) (pbld p) t (Some d) False (length d)))
     [(t, Octets d)] (drop off (contents buf'))"
  using add_to_reads [OF assms(1,2) add_array_edits [OF assms(1), of "Some d"]] assms(3)
  by (simp add: array_length_def array_val_def)

lemma read_der_reads:
  assumes "packet_ok F p" and "encoder_ok ec_params ec_point"
  shows "reads F p (read_buffer_mpi_to_der ec_point t p)"
proof -
  have ok: "buf_ok (pbuf p)" using assms by (simp add: packet_ok_def)
  obtain r b' where get: "egg_buffer_get_byte_array (pbuf p) (poff p) = Ret (r, b')" and b': "buf_ok b'"
    using get_byte_array_any [OF ok, of "poff p"] ok by auto
  show ?thesis
  proof (cases r)
    case None
    with get b' assms(1) show ?thesis by (auto simp: read_buffer_mpi_to_der_def reads_def packet_ok_def)
  next
    case (Some x)
    obtain off v where x: "x = (off, v)" by fastforce
    show ?thesis
    proof (cases "ec_point v")
      case None
      with get b' Some x assms(1) show ?thesis
        by (auto simp: read_buffer_mpi_to_der_def reads_def packet_ok_def)
    next
      case (Some der)
      then have "length der < 2 ^ 62" using assms(2) by (auto simp: encoder_ok_def)
      from add_octets_reads_to [OF assms(1) b' this, of off t] get Some x \<open>r = Some x\<close>
      show ?thesis by (auto simp: read_buffer_mpi_to_der_def dest: reads_toD)
    qed
  qed
qed

lemma read_ecdsa_reads:
  assumes "packet_ok F p" and "encoder_ok ec_params ec_point"
  shows "reads F p (read_v2_public_ecdsa ec_params ec_point p)"
proof -
  have ok: "buf_ok (pbuf p)" using assms by (simp add: packet_ok_def)
  obtain r w b' where get: "egg_buffer_get_string g_realloc_env (pbuf p) (poff p) (Some 1) = Ret (r, w, b')"
    and b': "buf_ok b'" using get_string_any [OF ok] by blast
  show ?thesis
  proof (cases r)
    case None
    with get b' assms(1) show ?thesis by (auto simp: read_v2_public_ecdsa_def reads_def packet_ok_def)
  next
    case (Some x)
    obtain off name where x: "x = (off, name)" by fastforce
    show ?thesis
    proof (cases "curve_of name")
      case None
      with get b' Some x assms(1) show ?thesis
        by (auto simp: read_v2_public_ecdsa_def reads_def packet_ok_def)
    next
      case (Some c)
      have "length (ec_params c) < 2 ^ 62" using assms(2) by (simp add: encoder_ok_def)
      note first = reads_toD [OF add_octets_reads_to [OF assms(1) b' this, of off CKA_EC_PARAMS]]
      have "reads F p' (and_then (read_buffer_mpi_to_der ec_point CKA_EC_POINT p') (key_type_and_class CKK_ECDSA))"
        if "packet_ok F p'" for p'
        by (intro and_then_reads read_der_reads key_type_and_class_reads) (use that assms(2) in auto)
      from and_then_reads [OF first this] get Some x \<open>r = Some x\<close> show ?thesis
        by (simp add: read_v2_public_ecdsa_def)
    qed
  qed
qed

lemma keytype_cases:
  "keytype_to_algo a \<in> {CKK_RSA, CKK_DSA, CKK_EC_EDWARDS, CKK_ECDSA, G_MAXULONG}"
  by (simp add: keytype_to_algo_def split: option.split)

lemma read_algo_reads:
  assumes "packet_ok F p" and "encoder_ok ec_params ec_point"
    and "algo \<in> {CKK_RSA, CKK_DSA, CKK_EC_EDWARDS, CKK_ECDSA}"
  shows "reads F p (read_v2_algo ec_params ec_point algo p)"
proof -
  have "reads F p (read_v2_public_rsa p)" "reads F p (read_v2_public_dsa p)"
    "reads F p (read_v2_public_ed25519 p)" "reads F p (read_v2_public_ecdsa ec_params ec_point p)"
    unfolding read_v2_public_rsa_def read_v2_public_dsa_def read_v2_public_ed25519_def
    by (intro and_then_reads read_buffer_mpi_reads key_type_and_class_reads read_ecdsa_reads assms(1,2);
        assumption)+
  with assms(3) show ?thesis by (auto simp: read_v2_algo_def)
qed

text \<open>The packet at the start of the parser.\<close>

definition start_packet :: "byte list \<Rightarrow> vstore \<Rightarrow> GckRealBuilder \<Rightarrow> packet" where
  "start_packet data st b =
     \<lparr>pbuf = egg_buffer_init_static (Some data) (length data), poff = 0, pst = st, pbld = b\<rparr>"

lemma start_packet_ok:
  "builder_ok st F b \<Longrightarrow> secure_ready st \<Longrightarrow> length data < 2 ^ 62 \<Longrightarrow> packet_ok F (start_packet data st b)"
  by (simp add: start_packet_def packet_ok_def buf_ok_def egg_buffer_init_static_def mem_def)

lemma read_key_start:
  "egg_buffer_get_string g_realloc_env (pbuf (start_packet data st b)) 0 (Some 1) =
     Ret (Some (off, stype), w, buf') \<Longrightarrow>
   read_v2_public_key ec_params ec_point algo data st b =
     (let p' = (start_packet data st b)\<lparr>pbuf := buf', poff := off\<rparr> in
      if keytype_to_algo stype \<noteq> algo then Undef else read_v2_algo ec_params ec_point algo p')"
  by (simp only: read_v2_public_key_def Let_def obind_simps option.case prod.case flip: start_packet_def)

lemma start_packet_contents: "contents (pbuf (start_packet data st b)) = data"
  by (simp add: start_packet_def egg_buffer_init_static_def contents_def mem_def)

text \<open>The name inside a packet, where one can be read.\<close>

definition packet_name :: "byte list \<Rightarrow> byte list option option" where
  "packet_name data =
     (case egg_buffer_get_string g_realloc_env (egg_buffer_init_static (Some data) (length data)) 0 (Some 1) of
        Ret (Some (off, stype), w, buf') \<Rightarrow> Some stype
      | _ \<Rightarrow> None)"

definition name_agrees :: "nat \<Rightarrow> byte list \<Rightarrow> bool" where
  "name_agrees algo data \<longleftrightarrow>
     (case packet_name data of None \<Rightarrow> True | Some stype \<Rightarrow> keytype_to_algo stype = algo)"

lemma read_key_disagrees:
  "\<not> name_agrees algo data \<Longrightarrow> read_v2_public_key ec_params ec_point algo data st b = Undef"
  by (auto simp: name_agrees_def packet_name_def read_v2_public_key_def Let_def
      split: outcome.splits option.splits prod.splits)

lemma read_key_reads:
  assumes "builder_ok st F b" and "secure_ready st" and "length data < 2 ^ 62"
    and "encoder_ok ec_params ec_point" and "algo \<in> {CKK_RSA, CKK_DSA, CKK_EC_EDWARDS, CKK_ECDSA}"
    and "name_agrees algo data"
  shows "reads F (start_packet data st b) (read_v2_public_key ec_params ec_point algo data st b)"
proof -
  let ?p = "start_packet data st b"
  have p: "packet_ok F ?p" using start_packet_ok [OF assms(1-3)] .
  then have "buf_ok (pbuf ?p)" by (simp add: packet_ok_def)
  from get_string_any [OF this] obtain r w b' where
    get: "egg_buffer_get_string g_realloc_env (pbuf ?p) 0 (Some 1) = Ret (r, w, b')" and b': "buf_ok b'" by blast
  show ?thesis
  proof (cases r)
    case None
    with get b' p show ?thesis
      by (auto simp: read_v2_public_key_def Let_def reads_def packet_ok_def simp flip: start_packet_def)
  next
    case (Some x)
    obtain off stype where x: "x = (off, stype)" by fastforce
    let ?p' = "?p\<lparr>pbuf := b', poff := off\<rparr>"
    have p': "packet_ok F ?p'" using p b' by (simp add: packet_ok_def)
    have key: "read_v2_public_key ec_params ec_point algo data st b =
        (if keytype_to_algo stype \<noteq> algo then Undef else read_v2_algo ec_params ec_point algo ?p')"
      using read_key_start [OF get [unfolded Some x]] by (simp only: Let_def)
    have "keytype_to_algo stype = algo"
      using assms(6) get [unfolded Some x] by (simp add: name_agrees_def packet_name_def start_packet_def)
    with read_algo_reads [OF p' assms(4,5)] p' show ?thesis unfolding key reads_def by auto
  qed
qed

section \<open>Keys\<close>

text \<open>
  The keys a packet can hold, their names, packets and attributes.  The name of an ECDSA key is only
  looked at up to the hyphen.
\<close>

datatype ssh_key =
    RsaKey "byte list option" "byte list option"
  | DsaKey "byte list option" "byte list option" "byte list option" "byte list option"
  | Ed25519Key "byte list option"
  | EcdsaKey "byte list" curve "byte list option"

definition curve_name :: "curve \<Rightarrow> byte list" where
  "curve_name c = (case c of SECP256R1 \<Rightarrow> cstr ''nistp256'' | SECP384R1 \<Rightarrow> cstr ''nistp384''
     | SECP521R1 \<Rightarrow> cstr ''nistp521'')"

fun key_name :: "ssh_key \<Rightarrow> byte list" where
  "key_name (RsaKey e n) = cstr ''ssh-rsa''"
| "key_name (DsaKey p q g y) = cstr ''ssh-dss''"
| "key_name (Ed25519Key v) = cstr ''ssh-ed25519''"
| "key_name (EcdsaKey sfx c pt) = cstr ''ecdsa-'' @ sfx"

fun key_algo :: "ssh_key \<Rightarrow> nat" where
  "key_algo (RsaKey e n) = CKK_RSA"
| "key_algo (DsaKey p q g y) = CKK_DSA"
| "key_algo (Ed25519Key v) = CKK_EC_EDWARDS"
| "key_algo (EcdsaKey sfx c pt) = CKK_ECDSA"

fun key_body :: "ssh_key \<Rightarrow> byte list" where
  "key_body (RsaKey e n) = encode_byte_array e @ encode_byte_array n"
| "key_body (DsaKey p q g y) =
     encode_byte_array p @ encode_byte_array q @ encode_byte_array g @ encode_byte_array y"
| "key_body (Ed25519Key v) = encode_byte_array v"
| "key_body (EcdsaKey sfx c pt) = encode_byte_array (Some (curve_name c)) @ encode_byte_array pt"

definition key_packet :: "ssh_key \<Rightarrow> byte list" where
  "key_packet k = encode_byte_array (Some (key_name k)) @ key_body k"

fun key_views ::
  "(curve \<Rightarrow> byte list) \<Rightarrow> (byte list option \<Rightarrow> byte list option) \<Rightarrow> ssh_key \<Rightarrow> (nat \<times> aval) list" where
  "key_views ec_params ec_point (RsaKey e n) =
     [(CKA_PUBLIC_EXPONENT, array_val e), (CKA_MODULUS, array_val n)] @ class_views CKK_RSA"
| "key_views ec_params ec_point (DsaKey p q g y) =
     [(CKA_PRIME, array_val p), (CKA_SUBPRIME, array_val q), (CKA_BASE, array_val g), (CKA_VALUE, array_val y)]
     @ class_views CKK_DSA"
| "key_views ec_params ec_point (Ed25519Key v) = [(CKA_VALUE, array_val v)] @ class_views CKK_EC_EDWARDS"
| "key_views ec_params ec_point (EcdsaKey sfx c pt) =
     [(CKA_EC_PARAMS, Octets (ec_params c)), (CKA_EC_POINT, Octets (the (ec_point pt)))] @ class_views CKK_ECDSA"

fun key_valid :: "(byte list option \<Rightarrow> byte list option) \<Rightarrow> ssh_key \<Rightarrow> bool" where
  "key_valid ec_point (RsaKey e n) = (byte_array_valid e \<and> byte_array_valid n)"
| "key_valid ec_point (DsaKey p q g y) =
     (byte_array_valid p \<and> byte_array_valid q \<and> byte_array_valid g \<and> byte_array_valid y)"
| "key_valid ec_point (Ed25519Key v) = byte_array_valid v"
| "key_valid ec_point (EcdsaKey sfx c pt) =
     (byte_array_valid pt \<and> ec_point pt \<noteq> None \<and> length sfx < 1000 \<and>
      c_string sfx \<and> chr CHR '' '' \<notin> set sfx \<and> chr CHR 0x22 \<notin> set sfx)"

lemma g_realloc_env_Some: "n < 2 ^ 62 \<Longrightarrow> \<exists>m. g_realloc_env a None n = Some m"
  by (simp add: g_realloc_env_def c_realloc_def)

lemma get_string_rest:
  assumes "packet_ok F p" and "c_string s" and "length s < 0x7fffffff"
    and "rest_of p = encode_byte_array (Some s) @ post"
  shows "\<exists>off. egg_buffer_get_string g_realloc_env (pbuf p) (poff p) (Some 1) =
     Ret (Some (off, Some s), True, pbuf p) \<and> drop off (contents (pbuf p)) = post"
proof -
  have ok: "buf_ok (pbuf p)" using assms(1) by (simp add: packet_ok_def)
  note split = rest_split [OF assms(4) encode_byte_array_not_Nil]
  have "length s + 1 < 2 ^ 62" using assms(3) by simp
  then obtain m where "g_realloc_env 1 None (length s + 1) = Some m" using g_realloc_env_Some by blast
  from get_string_mid [where al = g_realloc_env, OF ok assms(3,2) split(1) this] split(2,3) show ?thesis by simp
qed

lemma curve_name_facts: "c_string (curve_name c)" "length (curve_name c) = 8" "curve_of (Some (curve_name c)) = Some c"
proof -
  have "cstr ''nistp384'' \<noteq> cstr ''nistp256''" "cstr ''nistp521'' \<noteq> cstr ''nistp256''"
    "cstr ''nistp521'' \<noteq> cstr ''nistp384''" by simp_all
  then show "c_string (curve_name c)" "length (curve_name c) = 8" "curve_of (Some (curve_name c)) = Some c"
    by (cases c; simp add: curve_name_def curve_of_def)+
qed

lemma read_der_to:
  assumes p: "packet_ok F p" and "byte_array_valid v" and rest: "rest_of p = encode_byte_array v @ post"
    and der: "ec_point v = Some der" "length der < 2 ^ 62"
  shows "reads_to F p (read_buffer_mpi_to_der ec_point t p) [(t, Octets der)] post"
proof -
  have ok: "buf_ok (pbuf p)" using p by (simp add: packet_ok_def)
  from add_octets_reads_to [OF p ok der(2), of "poff p + length (encode_byte_array v)" t] der(1)
    get_byte_array_rest(1) [OF assms(1-3)] rest_split(3) [OF rest]
  show ?thesis by (simp add: read_buffer_mpi_to_der_def)
qed

lemma mpi_then:
  assumes "packet_ok F p" and "byte_array_valid v" and "rest_of p = encode_byte_array v @ post"
    and "\<And>q. packet_ok F q \<Longrightarrow> rest_of q = post \<Longrightarrow> reads_to F q (f q) ws junk"
  shows "reads_to F p (and_then (read_buffer_mpi t p) f) ((t, array_val v) # ws) junk"
  using and_then_reads_to [OF read_buffer_mpi_to [OF assms(1-3), of t] assms(4)] by simp

lemma read_body:
  assumes p: "packet_ok F p" and valid: "key_valid ec_point k" and enc: "encoder_ok ec_params ec_point"
    and rest: "rest_of p = key_body k @ junk"
  shows "reads_to F p (read_v2_algo ec_params ec_point (key_algo k) p) (key_views ec_params ec_point k) junk"
proof (cases k)
  case (RsaKey e n)
  then have "rest_of p = encode_byte_array e @ encode_byte_array n @ junk"
    and v: "byte_array_valid e" "byte_array_valid n" using rest valid by simp_all
  from mpi_then [OF p v(1) this(1) mpi_then [OF _ v(2) _ key_type_and_class_to]] RsaKey show ?thesis
    by (simp add: read_v2_algo_def read_v2_public_rsa_def)
next
  case (DsaKey a q g y)
  then have "rest_of p = encode_byte_array a @ encode_byte_array q @ encode_byte_array g @ encode_byte_array y @ junk"
    and v: "byte_array_valid a" "byte_array_valid q" "byte_array_valid g" "byte_array_valid y"
    using rest valid by simp_all
  from mpi_then [OF p v(1) this(1) mpi_then [OF _ v(2) _ mpi_then [OF _ v(3) _ mpi_then [OF _ v(4) _ key_type_and_class_to]]]]
    DsaKey show ?thesis by (simp add: read_v2_algo_def read_v2_public_dsa_def)
next
  case (Ed25519Key v)
  then have "rest_of p = encode_byte_array v @ junk" and v: "byte_array_valid v" using rest valid by simp_all
  from mpi_then [OF p v this(1) key_type_and_class_to] Ed25519Key show ?thesis
    by (simp add: read_v2_algo_def read_v2_public_ed25519_def)
next
  case (EcdsaKey sfx c pt)
  obtain der where der: "ec_point pt = Some der" "length der < 2 ^ 62"
    using valid enc EcdsaKey by (auto simp: encoder_ok_def)
  have ok: "buf_ok (pbuf p)" using p by (simp add: packet_ok_def)
  have rest': "rest_of p = encode_byte_array (Some (curve_name c)) @ encode_byte_array pt @ junk"
    using rest EcdsaKey by simp
  obtain off where
    get: "egg_buffer_get_string g_realloc_env (pbuf p) (poff p) (Some 1) = Ret (Some (off, Some (curve_name c)), True, pbuf p)"
    and off: "drop off (contents (pbuf p)) = encode_byte_array pt @ junk"
    using get_string_rest [OF p curve_name_facts(1) _ rest'] curve_name_facts(2) by auto
  have params: "length (ec_params c) < 2 ^ 62" using enc by (simp add: encoder_ok_def)
  have second: "reads_to F q (and_then (read_buffer_mpi_to_der ec_point CKA_EC_POINT q) (key_type_and_class CKK_ECDSA))
      ([(CKA_EC_POINT, Octets der)] @ class_views CKK_ECDSA) junk"
    if "packet_ok F q" "rest_of q = encode_byte_array pt @ junk" for q
    by (rule and_then_reads_to [OF read_der_to [where ec_point = ec_point, OF that(1) _ that(2) der]])
      (use valid EcdsaKey key_type_and_class_to in auto)
  from and_then_reads_to [OF add_octets_reads_to [OF p ok params, of off CKA_EC_PARAMS, unfolded off] second]
  show ?thesis
    using EcdsaKey get der(1) curve_name_facts(3) [of c]
    by (simp add: read_v2_algo_def read_v2_public_ecdsa_def)
qed

lemma key_name_facts:
  assumes "key_valid ec_point k"
  shows "c_string (key_name k)" "length (key_name k) < 0x7fffffff" "keytype_to_algo (Some (key_name k)) = key_algo k"
    "key_algo k \<noteq> G_MAXULONG" "chr CHR '' '' \<notin> set (key_name k)" "chr CHR 0x22 \<notin> set (key_name k)"
    "key_name k \<noteq> []" "hd (key_name k) \<noteq> chr CHR ''#''"
  using assms by (cases k; simp add: keytype_to_algo_def match_word_def)+

lemma read_key_to:
  assumes "builder_ok st F b" and "secure_ready st" and "length (key_packet k @ junk) < 2 ^ 62"
    and "encoder_ok ec_params ec_point" and valid: "key_valid ec_point k"
  shows "reads_to F (start_packet (key_packet k @ junk) st b)
     (read_v2_public_key ec_params ec_point (key_algo k) (key_packet k @ junk) st b)
     (key_views ec_params ec_point k) junk"
proof -
  let ?data = "key_packet k @ junk"
  let ?p = "start_packet ?data st b"
  have p: "packet_ok F ?p" by (rule start_packet_ok [OF assms(1-3)])
  have off0: "poff ?p = 0" by (simp add: start_packet_def)
  have "rest_of ?p = encode_byte_array (Some (key_name k)) @ key_body k @ junk"
    by (simp add: rest_of_def off0 start_packet_contents) (simp add: key_packet_def)
  from get_string_rest [OF p key_name_facts(1,2) [OF valid] this] obtain off where
    get: "egg_buffer_get_string g_realloc_env (pbuf ?p) 0 (Some 1) = Ret (Some (off, Some (key_name k)), True, pbuf ?p)"
    and off: "drop off (contents (pbuf ?p)) = key_body k @ junk" using off0 by auto
  let ?p' = "?p\<lparr>poff := off\<rparr>"
  have "packet_ok F ?p'" "rest_of ?p' = key_body k @ junk"
    using p off by (simp_all add: packet_ok_def rest_of_def)
  from read_body [OF this(1) valid assms(4) this(2)]
  have "reads_to F ?p (read_v2_algo ec_params ec_point (key_algo k) ?p') (key_views ec_params ec_point k) junk"
    by (simp add: reads_to_def packet_views_def)
  moreover have "read_v2_public_key ec_params ec_point (key_algo k) ?data st b =
      read_v2_algo ec_params ec_point (key_algo k) ?p'"
    using read_key_start [OF get] key_name_facts(3) [OF valid] by simp
  ultimately show ?thesis by simp
qed

section \<open>Lines\<close>

definition plain_word :: "byte list \<Rightarrow> bool" where
  "plain_word w \<longleftrightarrow> w \<noteq> [] \<and> chr CHR '' '' \<notin> set w \<and> chr CHR 0x22 \<notin> set w"

lemma word_length_plain:
  "chr CHR '' '' \<notin> set w \<Longrightarrow> chr CHR 0x22 \<notin> set w \<Longrightarrow> word_length False (w @ chr CHR '' '' # rest) = length w"
  "chr CHR '' '' \<notin> set w \<Longrightarrow> chr CHR 0x22 \<notin> set w \<Longrightarrow> word_length False w = length w"
  by (induction w) auto

lemma skip_spaces_plain: "plain_word w \<Longrightarrow> skip_spaces (w @ rest) = w @ rest"
  by (cases w) (auto simp: plain_word_def skip_spaces_def)

lemma next_word_plain:
  assumes "plain_word w"
  shows "next_word (w @ chr CHR '' '' # rest) = (Some w, chr CHR '' '' # rest)"
    and "next_word (chr CHR '' '' # line) = next_word line"
    and "next_word w = (Some w, [])"
  using assms skip_spaces_plain [OF assms] skip_spaces_plain [OF assms, of "[]"]
    word_length_plain(1) [of w rest] word_length_plain(2) [of w]
  by (simp_all add: next_word_def plain_word_def Let_def) (simp_all add: skip_spaces_def)

lemma word_length_le: "word_length q line \<le> length line"
  by (induction q line rule: word_length.induct) auto

text \<open>The label of a line that has one.\<close>

definition label_views :: "byte list option \<Rightarrow> (nat \<times> aval) list" where
  "label_views label = (case label of None \<Rightarrow> [] | Some l \<Rightarrow> [(CKA_LABEL, Octets l)])"

lemma line_label_c_string: "line_label line = Some l \<Longrightarrow> c_string l \<and> length l \<le> length line"
proof -
  assume l: "line_label line = Some l"
  let ?t = "until_nul (skip_spaces line)"
  have "l = g_strstrip ?t" using l by (auto simp: line_label_def Let_def split: if_splits)
  moreover have "set (g_strstrip ?t) \<subseteq> set ?t" by (auto simp: g_strstrip_def dest!: set_dropWhileD)
  moreover have "length (g_strstrip ?t) \<le> length ?t"
    unfolding g_strstrip_def by (metis length_dropWhile_le length_rev order_trans)
  moreover have "length ?t \<le> length line"
    unfolding until_nul_def skip_spaces_def by (metis length_dropWhile_le length_takeWhile_le order_trans)
  ultimately show ?thesis using c_string_until_nul [of "skip_spaces line"] by (auto simp: c_string_def)
qed

lemma add_label_edits:
  assumes "builder_ok st F b" and "secure_ready st" and "label = line_label line" and "length line < 2 ^ 62"
  shows "edits F st b (add_label st b label) (\<lambda>vs. vs @ label_views label)"
proof (cases label)
  case None
  with assms(1) show ?thesis by (auto simp: add_label_def label_views_def edits_def)
next
  case (Some l)
  with assms(3,4) line_label_c_string [of line l] have l: "c_string l" "length l < 2 ^ 62" by auto
  then have "cmd_valid (AddString CKA_LABEL (Some l) False) F st"
    by (simp add: strings_valid_def string_length_def MAX_ALIGN_def)
  from cmd.oper_edits [OF assms(1,2) this] Some l show ?thesis
    by (simp add: add_label_def label_views_def vadd_def [abs_def])
qed

text \<open>Both ends release what was collected.\<close>

lemma finish_key_ok:
  assumes "builder_ok st F b"
  shows "\<exists>st'. finish_key st b label options outer =
     Ret (st', GCR_SUCCESS, Some \<lparr>pub_attrs = views st (attrs_of b), pub_label = label, pub_options = options,
                                 pub_outer = outer\<rparr>) \<and> store_ok st' F \<and> keeps F st st'"
proof -
  obtain b' attrs where e: "gck_builder_end b = (b', attrs)" by fastforce
  note end_ok = gck_builder_end_ok [OF e]
  from unref_all_ok [of st F "adata attrs"] assms obtain st' where
    "unref_all st (adata attrs) = Ret st'" "store_ok st' F" "keeps F st st'"
    by (auto simp: builder_ok_def end_ok)
  with e end_ok show ?thesis by (auto simp: finish_key_def gck_attributes_unref_def)
qed

lemma clear_key_ok:
  assumes "builder_ok st F b"
  shows "\<exists>st'. clear_key st b err = Ret (st', err, None) \<and> store_ok st' F \<and> keeps F st st'"
  using gck_builder_clear_ok [OF assms] by (auto simp: clear_key_def)

text \<open>
  A line parser returns, reports success exactly when it has called the callback, and leaves only the
  references of the rest of the program.
\<close>

definition line_ok ::
  "nat multiset \<Rightarrow> vstore \<Rightarrow> (vstore \<times> GcrDataError \<times> OpensshPub option) outcome \<Rightarrow> bool" where
  "line_ok F st r \<longleftrightarrow>
     (\<exists>st' res call. r = Ret (st', res, call) \<and> store_ok st' F \<and> keeps F st st' \<and>
        (res = GCR_SUCCESS \<longleftrightarrow> call \<noteq> None))"

lemma line_ok_keeps: "line_ok F st' r \<Longrightarrow> keeps F st st' \<Longrightarrow> line_ok F st r"
  by (auto simp: line_ok_def intro: keeps_trans)

lemma line_ok_fail: "store_ok st F \<Longrightarrow> err \<noteq> GCR_SUCCESS \<Longrightarrow> line_ok F st (Ret (st, err, None))"
  by (simp add: line_ok_def)

lemma line_ok_clear: "builder_ok st F b \<Longrightarrow> err \<noteq> GCR_SUCCESS \<Longrightarrow> line_ok F st (clear_key st b err)"
  using clear_key_ok [of st F b err] by (auto simp: line_ok_def)

lemma line_ok_finish:
  assumes "builder_ok st F b" and "secure_ready st" and "length line < 2 ^ 62"
  shows "line_ok F st (obind (add_label st b (line_label line))
     (\<lambda>(st', b'). finish_key st' b' (line_label line) options outer))"
proof -
  obtain st' b' where "add_label st b (line_label line) = Ret (st', b')" "builder_ok st' F b'" "keeps F st st'"
    using add_label_edits [OF assms(1,2) refl assms(3)] by (auto simp: edits_def)
  with finish_key_ok [of st' F b' "line_label line" options outer] show ?thesis
    by (auto simp: line_ok_def intro: keeps_trans)
qed

lemma builder_start: "store_ok st F \<Longrightarrow> builder_ok st F (gck_builder_init_full s)"
  by (simp add: builder_ok_def gck_builder_init_full_def attrs_of_def)

lemma attrs_of_start: "attrs_of (gck_builder_init_full s) = []"
  by (simp add: gck_builder_init_full_def attrs_of_def)

section \<open>Decimal numbers of version 1\<close>

lemma decimal_text_value_less: "decimal_text data \<Longrightarrow> decimal_text_value data < 10 ^ length data"
proof (induction data rule: rev_induct)
  case Nil
  then show ?case by (simp add: decimal_text_value_def)
next
  case (snoc ch data)
  then have "unat ch - 48 < 10" "decimal_text_value data < 10 ^ length data"
    using digit_unat [of ch] by (auto simp: decimal_text_def)
  moreover have "decimal_text_value (data @ [ch]) = decimal_text_value data * 10 + (unat ch - 48)"
    by (simp add: decimal_text_value_def)
  ultimately show ?case by simp
qed

lemma be_nat_ge: "b \<noteq> 0 \<Longrightarrow> 256 ^ length bs \<le> be_nat (b # bs)"
proof -
  assume "b \<noteq> 0"
  then have pos: "Suc 0 \<le> unat b" by (simp add: Suc_le_eq unat_gt_0)
  have be: "be_nat (b # bs) = unat b * 256 ^ length bs + be_nat bs"
    using be_nat_append [of "[b]" bs] be_nat_snoc [of "[]" b] by simp
  have "1 * 256 ^ length bs \<le> unat b * 256 ^ length bs"
    by (rule mult_le_mono1) (use pos in simp)
  then show "256 ^ length bs \<le> be_nat (b # bs)"
    unfolding be mult_1 by (rule trans_le_add1)
qed

lemma decimal_decode_cases:
  assumes "w \<noteq> []" and "length w < 2 ^ 32"
  shows "egg_decimal_decode w = Ret None \<and> \<not> decimal_text w \<or>
     (\<exists>out. egg_decimal_decode w = Ret (Some out) \<and> decimal_text w \<and>
        be_nat out = decimal_text_value w \<and> length out \<le> length w)"
proof (cases "decimal_text w")
  case False
  then show ?thesis using assms(2) by (simp add: egg_decimal_decode_not_digits)
next
  case True
  from decimal_decode_value [OF this assms] obtain out where
    out: "egg_decimal_decode w = Ret (Some out)" "be_nat out = decimal_text_value w" "out = [] \<or> hd out \<noteq> 0"
    by blast
  have "length out \<le> length w"
  proof (cases out)
    case (Cons b bs)
    with out have "256 ^ length bs \<le> decimal_text_value w" using be_nat_ge [of b bs] by simp
    also have "\<dots> < 10 ^ length w" by (rule decimal_text_value_less [OF True])
    also have "\<dots> \<le> 256 ^ length w" by (rule power_mono) simp_all
    finally show ?thesis using Cons by simp
  qed simp
  with out True show ?thesis by blast
qed

lemma digit_uint:
  "g_ascii_isdigit c \<Longrightarrow> uint (c - 48) = int (unat c - 48) \<and> unat c - 48 < 10"
  using digit_unat [of c] by (simp add: uint_nat)

text \<open>One digit: no overflow as long as the base is small enough.\<close>

lemma atoin_loop_step:
  assumes "g_ascii_isdigit c" and "0 \<le> ret" and "ret < base" and "base * 10 ^ Suc k < 2 ^ 31"
  defines "ret' \<equiv> ret + int (unat c - 48) * base"
  shows "atoin_loop (c # cs) ret base = atoin_loop cs ret' (base * 10)"
    and "0 \<le> ret'" and "ret' < base * 10" and "base * 10 * 10 ^ k < 2 ^ 31"
proof -
  define d where "d = unat c - 48"
  have d: "uint (c - 48) = int d" "int d \<le> 9" using digit_uint [OF assms(1)] by (simp_all add: d_def)
  have "int d * base \<le> 9 * base" by (rule mult_right_mono) (use d assms in simp_all)
  then show r: "ret' < base * 10" using assms(3) by (simp add: ret'_def d_def)
  show "0 \<le> ret'" using assms(2,3) by (simp add: ret'_def)
  show b: "base * 10 * 10 ^ k < 2 ^ 31" using assms(4) by (simp add: mult.assoc)
  have "base * 10 * 1 \<le> base * 10 * 10 ^ k" by (rule mult_left_mono) (use assms in simp_all)
  with b r have "ret' < 2 ^ 31" "base * 10 < 2 ^ 31" by simp_all
  moreover have "\<not> c < 48" "\<not> 57 < c" using assms(1) by (simp_all add: g_ascii_isdigit_def not_less)
  ultimately show "atoin_loop (c # cs) ret base = atoin_loop cs ret' (base * 10)"
    using d(1) by (simp add: Let_def ret'_def flip: d_def)
qed

lemma atoin_loop_digits:
  assumes "decimal_text ds" and "0 \<le> ret" and "ret < base" and "base * 10 ^ length ds < 2 ^ 31"
  shows "atoin_loop (rev ds) ret base = Ret (ret + base * int (decimal_text_value ds))"
  using assms
proof (induction ds arbitrary: ret base rule: rev_induct)
  case Nil
  then show ?case by (simp add: decimal_text_value_def)
next
  case (snoc c ds)
  then have "g_ascii_isdigit c" "decimal_text ds" "base * 10 ^ Suc (length ds) < 2 ^ 31"
    by (simp_all add: decimal_text_def)
  note step = atoin_loop_step [OF this(1) snoc.prems(2,3) this(3)]
  have "atoin_loop (rev (ds @ [c])) ret base =
      Ret (ret + int (unat c - 48) * base + base * 10 * int (decimal_text_value ds))"
    using step(1) [of "rev ds"] snoc.IH [OF \<open>decimal_text ds\<close> step(2-4)] by simp
  moreover have "int (decimal_text_value (ds @ [c])) = int (decimal_text_value ds) * 10 + int (unat c - 48)"
    by (simp add: decimal_text_value_def)
  ultimately show ?case by (simp add: algebra_simps)
qed

lemma atoin_loop_returns:
  "0 \<le> ret \<Longrightarrow> ret < base \<Longrightarrow> base * 10 ^ length cs < 2 ^ 31 \<Longrightarrow> \<exists>v. atoin_loop cs ret base = Ret v"
proof (induction cs arbitrary: ret base)
  case (Cons c cs)
  show ?case
  proof (cases "g_ascii_isdigit c")
    case True
    have "base * 10 ^ Suc (length cs) < 2 ^ 31" using Cons.prems(3) by simp
    note step = atoin_loop_step [OF True Cons.prems(1,2) this]
    from step(1) Cons.IH [OF step(2-4)] show ?thesis by simp
  next
    case False
    then show ?thesis by (auto simp: g_ascii_isdigit_def not_le)
  qed
qed simp

lemma as_gint_small: "n < 2 ^ 31 \<Longrightarrow> as_gint n = int n"
  by (simp add: as_gint_def Let_def)

lemma atoin_short:
  assumes "length w < 10"
  shows "\<exists>v. atoin w (as_gint (length w)) = Ret v" and
    "decimal_text w \<Longrightarrow> atoin w (as_gint (length w)) = Ret (int (decimal_text_value w))"
proof -
  have a: "atoin w (as_gint (length w)) = atoin_loop (rev w) 0 1"
    using assms by (simp add: atoin_def as_gint_small)
  have ten: "(10::int) ^ length w \<le> 10 ^ 9" using assms by (intro power_increasing) simp_all
  then show dec: "decimal_text w \<Longrightarrow> atoin w (as_gint (length w)) = Ret (int (decimal_text_value w))"
    using atoin_loop_digits [of w 0 1] a by simp
  from atoin_loop_returns [of 0 1 "rev w"] ten a show "\<exists>v. atoin w (as_gint (length w)) = Ret v" by simp
qed

lemma read_decimal_mpi_cases:
  assumes "builder_ok st F b" and "secure_ready st" and "w \<noteq> []" and "length w < 2 ^ 32"
  shows "read_decimal_mpi st b w t = Ret (False, st, b) \<and> \<not> decimal_text w \<or>
     (\<exists>out st' b'. read_decimal_mpi st b w t = Ret (True, st', b') \<and> decimal_text w \<and>
        be_nat out = decimal_text_value w \<and> builder_ok st' F b' \<and> keeps F st st' \<and>
        views st' (attrs_of b') = views st (attrs_of b) @ [(t, Octets out)])"
proof -
  consider "egg_decimal_decode w = Ret None" "\<not> decimal_text w"
    | (num) out where "egg_decimal_decode w = Ret (Some out)" "decimal_text w"
      "be_nat out = decimal_text_value w" "length out \<le> length w"
    using decimal_decode_cases [OF assms(3,4)] by blast
  then show ?thesis
  proof cases
    case num
    have "data_valid (Some out) (length out)" "data_val (Some out) (length out) = Octets out"
      using num(4) assms(4) by (auto simp: data_valid_def data_val_def MAX_ALIGN_def)
    from add_data.oper_edits [OF assms(1,2), of "(t, Some out, False, length out)"] this num
    show ?thesis by (auto simp: read_decimal_mpi_def edits_def vadd_def)
  qed (simp add: read_decimal_mpi_def)
qed

lemma next_word_facts:
  assumes "next_word line = (Some w, rest)"
  shows "w \<noteq> []" "length w + length rest \<le> length line"
proof -
  let ?l = "skip_spaces line"
  have l: "?l \<noteq> []" "w = take (word_length False ?l) ?l" "rest = drop (word_length False ?l) ?l"
    using assms by (auto simp: next_word_def Let_def split: if_splits)
  then have "hd ?l \<noteq> chr CHR '' ''"
    using hd_dropWhile [of "\<lambda>c. c = chr CHR '' ''" line] by (simp add: skip_spaces_def)
  with l(1) have "word_length False ?l \<noteq> 0" by (cases ?l) auto
  with l(1,2) show "w \<noteq> []" by simp
  have "length w + length rest = length ?l" using l(2,3) by simp
  also have "\<dots> \<le> length line" unfolding skip_spaces_def by (rule length_dropWhile_le)
  finally show "length w + length rest \<le> length line" .
qed

section \<open>Whole lines\<close>

text \<open>Base64 yields at most three octets for four characters.\<close>

definition decode_ok :: "(byte list \<Rightarrow> byte list) \<Rightarrow> bool" where
  "decode_ok decode \<longleftrightarrow> (\<forall>w. length (decode w) \<le> length w div 4 * 3)"

text \<open>
  A line of version 1 whose number of bits fits in a \<^verbatim>\<open>gint\<close>, and whose numbers do not
  have more digits than a \<^verbatim>\<open>guint\<close> counts.
\<close>

definition bits_ok :: "byte list \<Rightarrow> bool" where
  "bits_ok line \<longleftrightarrow>
     (case v1_words line of
        None \<Rightarrow> True
      | Some (opts, bits, e, n, rest) \<Rightarrow> length bits < 10 \<and> length e < 2 ^ 32 \<and> length n < 2 ^ 32)"

text \<open>
  A line of version 2 whose packet names the algorithm the line names (or whose packet is not read
  that far).
\<close>

definition names_agree :: "(byte list \<Rightarrow> byte list) \<Rightarrow> byte list \<Rightarrow> bool" where
  "names_agree decode line \<longleftrightarrow>
     (case v2_words line of
        None \<Rightarrow> True
      | Some (opts, algo, line1) \<Rightarrow>
          (case fst (next_word line1) of
             None \<Rightarrow> True
           | Some key \<Rightarrow> decode key = [] \<or> name_agrees algo (decode key)))"

lemma next_word_both: "next_word line = (Some w, rest) \<Longrightarrow> w \<noteq> [] \<and> length w + length rest \<le> length line"
  using next_word_facts by blast

lemma skip_spaces_length: "length (skip_spaces line) \<le> length line"
  unfolding skip_spaces_def by (rule length_dropWhile_le)

lemma v2_words_facts:
  assumes "v2_words line = Some (opts, algo, rest)"
  shows "algo \<in> {CKK_RSA, CKK_DSA, CKK_EC_EDWARDS, CKK_ECDSA}" "length rest \<le> length line"
proof -
  show "algo \<in> {CKK_RSA, CKK_DSA, CKK_EC_EDWARDS, CKK_ECDSA}"
  proof -
    obtain w where "algo = keytype_to_algo w" "keytype_to_algo w \<noteq> G_MAXULONG"
      using assms by (auto simp: v2_words_def Let_def split: if_splits option.splits prod.splits)
    with keytype_cases [of w] show ?thesis by auto
  qed
  show "length rest \<le> length line"
    using assms skip_spaces_length [of line]
    by (auto simp: v2_words_def Let_def split: if_splits option.splits prod.splits
        dest!: next_word_facts(2))
qed

lemma v1_words_facts:
  assumes "v1_words line = Some (opts, bits, e, n, rest)"
  shows "e \<noteq> []" "n \<noteq> []" "length e \<le> length line" "length n \<le> length line" "length rest \<le> length line"
  using assms skip_spaces_length [of line]
  by (auto simp: v1_words_def Let_def split: if_splits option.splits prod.splits
      dest!: next_word_both)

lemma decode_key_ok:
  assumes "builder_ok st F b" and "secure_ready st" and "length w < 2 ^ 62" and "encoder_ok ec_params ec_point"
    and "decode_ok decode" and "algo \<in> {CKK_RSA, CKK_DSA, CKK_EC_EDWARDS, CKK_ECDSA}"
    and agree: "decode w = [] \<or> name_agrees algo (decode w)"
  shows "\<exists>ok st' b'. decode_v2_public_key decode ec_params ec_point algo w st b = Ret (ok, st', b') \<and>
     builder_ok st' F b' \<and> keeps F st st'"
proof -
  have "length (decode w) \<le> length w div 4 * 3" using assms(5) by (simp add: decode_ok_def)
  then have len: "\<not> length (decode w) > length w * 3 div 4" "length (decode w) < 2 ^ 62" using assms(3) by linarith+
  show ?thesis
  proof (cases "decode w = []")
    case True
    with assms(1) show ?thesis by (auto simp: decode_v2_public_key_def Let_def)
  next
    case False
    with agree have "name_agrees algo (decode w)" by simp
    from read_key_reads [OF assms(1,2) len(2) assms(4,6) this] obtain ok p' where
      "read_v2_public_key ec_params ec_point algo (decode w) st b = Ret (ok, p')" "packet_ok F p'"
      "keeps F st (pst p')" by (auto simp: reads_def start_packet_def)
    with len(1) False show ?thesis by (auto simp: decode_v2_public_key_def Let_def packet_ok_def)
  qed
qed

lemma parse_v2_disagrees:
  assumes "\<not> names_agree decode line" and "decode_ok decode"
  shows "parse_v2_public_line decode ec_params ec_point st line = Undef"
proof -
  obtain opts algo line1 key rest where words: "v2_words line = Some (opts, algo, line1)"
    "next_word line1 = (Some key, rest)" and key: "decode key \<noteq> []" "\<not> name_agrees algo (decode key)"
    using assms(1) by (auto simp: names_agree_def split: option.splits) (metis prod.collapse)
  have "length (decode key) \<le> length key div 4 * 3" using assms(2) by (simp add: decode_ok_def)
  then have "\<not> length (decode key) > length key * 3 div 4" by linarith
  with key have "decode_v2_public_key decode ec_params ec_point algo key st b = Undef" for b
    by (simp add: decode_v2_public_key_def Let_def read_key_disagrees)
  with words show ?thesis by (simp add: parse_v2_public_line_def)
qed

lemma parse_v2_ok:
  assumes "store_ok st F" and "secure_ready st" and "length line < 2 ^ 62" and "encoder_ok ec_params ec_point"
    and "decode_ok decode" and agree: "names_agree decode line"
  shows "line_ok F st (parse_v2_public_line decode ec_params ec_point st line)"
proof (cases "v2_words line")
  case None
  with assms(1) show ?thesis by (simp add: parse_v2_public_line_def line_ok_fail)
next
  case (Some x)
  obtain opts algo line1 where x: "x = (opts, algo, line1)" by (cases x) auto
  note words = v2_words_facts [OF Some [unfolded x]]
  obtain w rest where nw: "next_word line1 = (w, rest)" by fastforce
  show ?thesis
  proof (cases w)
    case None
    with nw Some x assms(1) show ?thesis by (simp add: parse_v2_public_line_def line_ok_fail)
  next
    case (Some wk)
    have len: "length wk < 2 ^ 62" "length rest < 2 ^ 62"
      using next_word_facts(2) [OF nw [unfolded Some]] words(2) assms(3) by simp_all
    have "decode wk = [] \<or> name_agrees algo (decode wk)"
      using agree nw \<open>v2_words line = Some x\<close> Some x by (simp add: names_agree_def)
    from decode_key_ok [OF builder_start [OF assms(1), of False] assms(2) len(1) assms(4,5) words(1) this]
    obtain ok st1 b1 where d: "decode_v2_public_key decode ec_params ec_point algo wk st (gck_builder_init_full False) =
        Ret (ok, st1, b1)" "builder_ok st1 F b1" "keeps F st st1" by blast
    have "secure_ready st1" using keeps_secure [OF d(3)] assms(2) by simp
    note fin = line_ok_finish [OF d(2) this len(2)] and clr = line_ok_clear [OF d(2), of GCR_ERROR_FAILURE]
    show ?thesis
      using line_ok_keeps [OF fin d(3)] line_ok_keeps [OF clr d(3)] d(1) nw Some x \<open>v2_words line = Some x\<close>
      by (cases ok) (simp_all add: parse_v2_public_line_def)
  qed
qed

text \<open>The tail of the parser of version 1, behind the two numbers.\<close>

lemma add_class_edits:
  assumes "builder_ok st F b" and "secure_ready st"
  shows "edits F st b (obind (gck_builder_add_ulong st b CKA_KEY_TYPE CKK_RSA)
       (\<lambda>(st', b'). gck_builder_add_ulong st' b' CKA_CLASS CKO_PUBLIC_KEY)) (\<lambda>vs. vs @ class_views CKK_RSA)"
proof -
  have "edits F st b (run_cmds [AddUlong CKA_KEY_TYPE CKK_RSA, AddUlong CKA_CLASS CKO_PUBLIC_KEY] st b)
      (\<lambda>vs. vs @ class_views CKK_RSA)"
    using cmds.oper_edits [OF assms, of "[AddUlong CKA_KEY_TYPE CKK_RSA, AddUlong CKA_CLASS CKO_PUBLIC_KEY]"]
    by (simp add: vadd_def [abs_def] class_views_def comp_def)
  moreover have "obind r (\<lambda>(st', b'). Ret (st', b')) = r" for r :: "(vstore \<times> GckRealBuilder) outcome"
    by (cases r) auto
  ultimately show ?thesis by (simp add: split_def)
qed

lemma v1_finish_ok:
  assumes "builder_ok st F b" and "secure_ready st" and "length rest < 2 ^ 62"
  shows "\<exists>st'. v1_finish st b rest options line = Ret (st', GCR_SUCCESS,
       Some \<lparr>pub_attrs = views st (attrs_of b) @ class_views CKK_RSA @ label_views (line_label rest),
             pub_label = line_label rest, pub_options = options, pub_outer = line\<rparr>) \<and>
     store_ok st' F \<and> keeps F st st'"
proof -
  obtain st3 b3 st4 b4 where
    4: "gck_builder_add_ulong st b CKA_KEY_TYPE CKK_RSA = Ret (st3, b3)"
    "gck_builder_add_ulong st3 b3 CKA_CLASS CKO_PUBLIC_KEY = Ret (st4, b4)"
    "builder_ok st4 F b4" "keeps F st st4" "views st4 (attrs_of b4) = views st (attrs_of b) @ class_views CKK_RSA"
    using add_class_edits [OF assms(1,2)]
    by (cases "gck_builder_add_ulong st b CKA_KEY_TYPE CKK_RSA") (auto simp: edits_def)
  have "secure_ready st4" using keeps_secure [OF 4(4)] assms(2) by simp
  from add_label_edits [OF 4(3) this refl assms(3)] obtain st5 b5 where
    5: "add_label st4 b4 (line_label rest) = Ret (st5, b5)" "builder_ok st5 F b5" "keeps F st4 st5"
    "views st5 (attrs_of b5) = views st4 (attrs_of b4) @ label_views (line_label rest)"
    by (auto simp: edits_def)
  from finish_key_ok [OF 5(2), of "line_label rest" options line] 4 5 show ?thesis
    by (auto simp: v1_finish_def intro: keeps_trans)
qed

text \<open>The whole parser on its words.\<close>

lemma parse_v1_words:
  assumes "v1_words line = Some (opts, bits, e, n, rest)"
  shows "parse_v1_public_line st line =
     obind (atoin bits (as_gint (length bits)))
       (\<lambda>v. if v \<le> 0 then Ret (st, GCR_ERROR_UNRECOGNIZED, None)
         else obind (read_decimal_mpi st (gck_builder_init_full False) e CKA_PUBLIC_EXPONENT)
           (\<lambda>(ok1, st1, b1). if \<not> ok1 then clear_key st1 b1 GCR_ERROR_UNRECOGNIZED
             else obind (read_decimal_mpi st1 b1 n CKA_MODULUS)
               (\<lambda>(ok2, st2, b2). if \<not> ok2 then clear_key st2 b2 GCR_ERROR_UNRECOGNIZED
                 else v1_finish st2 b2 rest (map_option until_nul opts) line)))"
  by (simp add: parse_v1_public_line_def assms)

lemma parse_v1_ok:
  assumes "store_ok st F" and "secure_ready st" and "length line < 2 ^ 62" and "bits_ok line"
  shows "line_ok F st (parse_v1_public_line st line)"
proof (cases "v1_words line")
  case None
  with assms(1) show ?thesis by (simp add: parse_v1_public_line_def line_ok_fail)
next
  case (Some x)
  obtain opts bits e n rest where words: "v1_words line = Some (opts, bits, e, n, rest)" using Some by (cases x) auto
  note facts = v1_words_facts [OF words]
  have bits: "length bits < 10" "length e < 2 ^ 32" "length n < 2 ^ 32"
    using assms(4) words by (simp_all add: bits_ok_def)
  obtain v where v: "atoin bits (as_gint (length bits)) = Ret v"
    using atoin_short(1) [OF bits(1)] by blast
  let ?b = "gck_builder_init_full False"
  have "line_ok F st (obind (read_decimal_mpi st ?b e CKA_PUBLIC_EXPONENT)
      (\<lambda>(ok1, st1, b1). if \<not> ok1 then clear_key st1 b1 GCR_ERROR_UNRECOGNIZED
        else obind (read_decimal_mpi st1 b1 n CKA_MODULUS)
          (\<lambda>(ok2, st2, b2). if \<not> ok2 then clear_key st2 b2 GCR_ERROR_UNRECOGNIZED
            else v1_finish st2 b2 rest (map_option until_nul opts) line)))"
    (is "line_ok F st (obind _ ?f)")
  proof -
    have b: "builder_ok st F ?b" by (rule builder_start [OF assms(1)])
    consider "read_decimal_mpi st ?b e CKA_PUBLIC_EXPONENT = Ret (False, st, ?b)"
      | (one) st1 b1 where "read_decimal_mpi st ?b e CKA_PUBLIC_EXPONENT = Ret (True, st1, b1)"
        "builder_ok st1 F b1" "keeps F st st1"
      using read_decimal_mpi_cases [OF b assms(2) facts(1) bits(2), of CKA_PUBLIC_EXPONENT] by auto
    then show ?thesis
    proof cases
      case 1
      with line_ok_clear [OF b, of GCR_ERROR_UNRECOGNIZED] show ?thesis by simp
    next
      case one
      have ready1: "secure_ready st1" using keeps_secure [OF one(3)] assms(2) by simp
      consider "read_decimal_mpi st1 b1 n CKA_MODULUS = Ret (False, st1, b1)"
        | (two) st2 b2 where "read_decimal_mpi st1 b1 n CKA_MODULUS = Ret (True, st2, b2)"
          "builder_ok st2 F b2" "keeps F st1 st2"
        using read_decimal_mpi_cases [OF one(2) ready1 facts(2) bits(3), of CKA_MODULUS] by auto
      then show ?thesis
      proof cases
        case 1
        with one line_ok_keeps [OF line_ok_clear [OF one(2), of GCR_ERROR_UNRECOGNIZED] one(3)] show ?thesis by simp
      next
        case two
        have "secure_ready st2" using keeps_secure [OF two(3)] ready1 by simp
        from v1_finish_ok [OF two(2) this, of rest "map_option until_nul opts" line] facts(5) assms(3)
        have "line_ok F st2 (v1_finish st2 b2 rest (map_option until_nul opts) line)"
          by (auto simp: line_ok_def)
        with one two keeps_trans [OF one(3) two(3)] show ?thesis by (simp add: line_ok_keeps)
      qed
    qed
  qed
  with v assms(1) show ?thesis by (simp add: parse_v1_words [OF words] line_ok_fail)
qed

section \<open>Properties\<close>

text \<open>The line of a key: options, name, base64, label.\<close>

definition options_text :: "byte list option \<Rightarrow> byte list" where
  "options_text opts = (case opts of None \<Rightarrow> [] | Some w \<Rightarrow> w @ [chr CHR '' ''])"

definition options_valid :: "byte list option \<Rightarrow> bool" where
  "options_valid opts \<longleftrightarrow> (case opts of None \<Rightarrow> True
     | Some w \<Rightarrow> plain_word w \<and> c_string w \<and> hd w \<noteq> chr CHR ''#'' \<and>
         keytype_to_algo (Some w) = G_MAXULONG)"

lemma key_line_words:
  assumes "key_valid ec_point k" and "options_valid opts"
  shows "v2_words (options_text opts @ key_name k @ chr CHR '' '' # rest) = Some (opts, key_algo k, chr CHR '' '' # rest)"
proof -
  note name = key_name_facts [OF assms(1)]
  have k: "plain_word (key_name k)" using name by (simp add: plain_word_def)
  have nk: "next_word (key_name k @ chr CHR '' '' # rest) = (Some (key_name k), chr CHR '' '' # rest)"
    by (rule next_word_plain(1) [OF k])
  show ?thesis
  proof (cases opts)
    case None
    have "skip_spaces (key_name k @ chr CHR '' '' # rest) = key_name k @ chr CHR '' '' # rest"
      by (rule skip_spaces_plain [OF k])
    with None nk name show ?thesis by (simp add: v2_words_def options_text_def Let_def)
  next
    case (Some w)
    then have w: "plain_word w" "hd w \<noteq> chr CHR ''#''" "keytype_to_algo (Some w) = G_MAXULONG"
      using assms(2) by (simp_all add: options_valid_def)
    let ?l = "key_name k @ chr CHR '' '' # rest"
    have nw: "next_word (w @ chr CHR '' '' # ?l) = (Some w, chr CHR '' '' # ?l)" by (rule next_word_plain(1) [OF w(1)])
    have "skip_spaces (w @ chr CHR '' '' # ?l) = w @ chr CHR '' '' # ?l" by (rule skip_spaces_plain [OF w(1)])
    with Some w nw nk name next_word_plain(2) [OF w(1), of ?l] show ?thesis
      by (simp add: v2_words_def options_text_def Let_def plain_word_def)
  qed
qed

text \<open>
  C38. The line of an RSA, DSA, Ed25519 or ECDSA public key, with or without options in front, is
  parsed to exactly the attributes of the key: the callback gets the numbers of the packet under
  their attribute types, the key type, the class and the label, together with the label, the options
  and the whole line; what follows the key in the packet is ignored.  Afterwards everything that was
  collected is released.  \<open>decode\<close> undoes base64, and \<open>ec_params\<close>, \<open>ec_point\<close> are the
  encodings of egg-asn1x.\<close>
theorem parse_v2_public_line_key:
  assumes "store_ok st F" and "secure_ready st" and "encoder_ok ec_params ec_point"
    and "key_valid ec_point k" and "options_valid opts" and "plain_word w"
    and "decode w = key_packet k @ junk" and "decode_ok decode"
    and "length w < 2 ^ 60" and "length label < 2 ^ 60"
  defines "line \<equiv> options_text opts @ key_name k @ chr CHR '' '' # w @ chr CHR '' '' # label"
  shows "\<exists>st'. parse_v2_public_line decode ec_params ec_point st line =
     Ret (st', GCR_SUCCESS, Some
       \<lparr>pub_attrs = key_views ec_params ec_point k @ label_views (line_label (chr CHR '' '' # label)),
        pub_label = line_label (chr CHR '' '' # label), pub_options = opts, pub_outer = line\<rparr>) \<and>
     store_ok st' F \<and> keeps F st st'"
proof -
  let ?b = "gck_builder_init_full False" and ?rest = "chr CHR '' '' # label"
  have dl: "length (decode w) \<le> length w div 4 * 3" using assms(8) by (simp add: decode_ok_def)
  then have "length (decode w) \<le> length w" by linarith
  also have "\<dots> < 2 ^ 62" using assms(9) by simp
  finally have "length (decode w) < 2 ^ 62" .
  with dl have len: "\<not> length (decode w) > length w * 3 div 4" "length (key_packet k @ junk) < 2 ^ 62"
    unfolding assms(7) by linarith+
  from read_key_to [OF builder_start [OF assms(1), of False] assms(2) len(2) assms(3,4)] obtain p' where
    p': "read_v2_public_key ec_params ec_point (key_algo k) (key_packet k @ junk) st ?b = Ret (True, p')"
    "packet_ok F p'" "keeps F st (pst p')" "packet_views p' = key_views ec_params ec_point k"
    by (auto simp: reads_to_def packet_views_def start_packet_def attrs_of_start)
  have "decode w \<noteq> []" using assms(7) by (simp add: key_packet_def)
  with p'(1) len(1) assms(7) have dec: "decode_v2_public_key decode ec_params ec_point (key_algo k) w st ?b =
      Ret (True, pst p', pbld p')" by (simp add: decode_v2_public_key_def Let_def)
  have p'_ok: "builder_ok (pst p') F (pbld p')" "secure_ready (pst p')" using p'(2) by (simp_all add: packet_ok_def)
  have "length ?rest < 2 ^ 62" using assms(10) by simp
  from add_label_edits [OF p'_ok refl this] obtain st2 b2 where
    lab: "add_label (pst p') (pbld p') (line_label ?rest) = Ret (st2, b2)" "builder_ok st2 F b2"
    "keeps F (pst p') st2" "views st2 (attrs_of b2) = key_views ec_params ec_point k @ label_views (line_label ?rest)"
    using p'(4) by (auto simp: edits_def packet_views_def)
  have "next_word (chr CHR '' '' # w @ ?rest) = (Some w, ?rest)"
    using next_word_plain(1,2) [OF assms(6)] by simp
  moreover have "map_option until_nul opts = opts"
    using assms(5) by (cases opts) (simp_all add: options_valid_def)
  ultimately have "parse_v2_public_line decode ec_params ec_point st line =
      finish_key st2 b2 (line_label ?rest) opts line"
    using key_line_words [OF assms(4,5), of "w @ ?rest"] dec lab(1)
    by (simp add: parse_v2_public_line_def line_def)
  with finish_key_ok [OF lab(2), of "line_label ?rest" opts line] lab p'(3) show ?thesis
    by (auto intro: keeps_trans)
qed

text \<open>
  C40. A line of version 1 (the number of bits, the exponent and the modulus in decimal, then a label) is
  parsed by the whole line parser, after the parser of version 2 has refused it: the callback gets
  an exponent and a modulus whose octets have exactly the values of the decimal numbers.  The number of
  bits is positive and has at most nine digits, and the exponent and the modulus have fewer than
  \<open>2 ^ 32\<close>.\<close>
theorem parse_public_line_v1:
  assumes "store_ok st F" and "secure_ready st"
    and "decimal_text bits" and "bits \<noteq> []" and "length bits < 10" and "0 < decimal_text_value bits"
    and "decimal_text e" and "e \<noteq> []" and "decimal_text n" and "n \<noteq> []"
    and "length e < 2 ^ 32" and "length n < 2 ^ 32" and "length label < 2 ^ 60"
  defines "line \<equiv> bits @ chr CHR '' '' # e @ chr CHR '' '' # n @ chr CHR '' '' # label"
  shows "\<exists>st' ee nn. parse_public_line decode ec_params ec_point st line =
     Ret (st', GCR_SUCCESS, Some
       \<lparr>pub_attrs = [(CKA_PUBLIC_EXPONENT, Octets ee), (CKA_MODULUS, Octets nn)] @ class_views CKK_RSA @
          label_views (line_label (chr CHR '' '' # label)),
        pub_label = line_label (chr CHR '' '' # label), pub_options = None, pub_outer = line\<rparr>) \<and>
     be_nat ee = decimal_text_value e \<and> be_nat nn = decimal_text_value n \<and>
     store_ok st' F \<and> keeps F st st'"
proof -
  let ?rest = "chr CHR '' '' # label" and ?b = "gck_builder_init_full False"
  have plain: "plain_word w \<and> keytype_to_algo (Some w) = G_MAXULONG \<and> g_ascii_isdigit (hd w) \<and> hd w \<noteq> chr CHR ''#''"
    if "decimal_text w" "w \<noteq> []" for w
  proof -
    have "g_ascii_isdigit (hd w)" using that by (simp add: decimal_text_def)
    moreover from this have "hd w \<notin> {chr CHR ''s'', chr CHR ''e'', chr CHR ''#''}" by (auto simp: g_ascii_isdigit_def)
    ultimately show ?thesis
      using that by (cases w) (auto simp: plain_word_def decimal_text_def g_ascii_isdigit_def keytype_to_algo_def match_word_def)
  qed
  note pb = plain [OF assms(3,4)] and pe = plain [OF assms(7,8)] and pn = plain [OF assms(9,10)]
  have nb: "next_word line = (Some bits, chr CHR '' '' # e @ chr CHR '' '' # n @ ?rest)"
    unfolding line_def using next_word_plain(1) pb by blast
  have ne: "next_word (chr CHR '' '' # e @ chr CHR '' '' # n @ ?rest) = (Some e, chr CHR '' '' # n @ ?rest)"
    using next_word_plain(1,2) pe by metis
  have nn: "next_word (chr CHR '' '' # n @ ?rest) = (Some n, ?rest)"
    using next_word_plain(1,2) pn by metis
  have skip: "skip_spaces line = line" "line \<noteq> []" "hd line = hd bits"
    unfolding line_def using skip_spaces_plain pb assms(4) by auto
  have "v2_words line = None" using nb ne skip pb pe by (simp add: v2_words_def Let_def)
  then have v2: "parse_v2_public_line decode ec_params ec_point st line = Ret (st, GCR_ERROR_UNRECOGNIZED, None)"
    by (simp add: parse_v2_public_line_def)
  have words: "v1_words line = Some (None, bits, e, n, ?rest)"
    using nb ne nn skip pb by (simp add: v1_words_def Let_def)
  have lens: "length e < 2 ^ 32" "length n < 2 ^ 32" "length ?rest < 2 ^ 62" using assms(11-13) by simp_all
  from read_decimal_mpi_cases [OF builder_start [OF assms(1), of False] assms(2,8) lens(1), of CKA_PUBLIC_EXPONENT]
  obtain ee st1 b1 where 1: "read_decimal_mpi st ?b e CKA_PUBLIC_EXPONENT = Ret (True, st1, b1)"
    "be_nat ee = decimal_text_value e" "builder_ok st1 F b1" "keeps F st st1"
    "views st1 (attrs_of b1) = [(CKA_PUBLIC_EXPONENT, Octets ee)]" using assms(7) by (auto simp: attrs_of_start)
  have ready1: "secure_ready st1" using keeps_secure [OF 1(4)] assms(2) by simp
  from read_decimal_mpi_cases [OF 1(3) ready1 assms(10) lens(2), of CKA_MODULUS]
  obtain mm st2 b2 where 2: "read_decimal_mpi st1 b1 n CKA_MODULUS = Ret (True, st2, b2)"
    "be_nat mm = decimal_text_value n" "builder_ok st2 F b2" "keeps F st1 st2"
    "views st2 (attrs_of b2) = [(CKA_PUBLIC_EXPONENT, Octets ee), (CKA_MODULUS, Octets mm)]"
    using assms(9) 1(5) by auto
  have "secure_ready st2" using keeps_secure [OF 2(4)] ready1 by simp
  from v1_finish_ok [OF 2(3) this lens(3), of None line] obtain st3 where
    3: "v1_finish st2 b2 ?rest None line = Ret (st3, GCR_SUCCESS, Some
       \<lparr>pub_attrs = views st2 (attrs_of b2) @ class_views CKK_RSA @ label_views (line_label ?rest),
        pub_label = line_label ?rest, pub_options = None, pub_outer = line\<rparr>)"
    "store_ok st3 F" "keeps F st2 st3" by blast
  have "parse_public_line decode ec_params ec_point st line = v1_finish st2 b2 ?rest None line"
    using v2 1(1) 2(1) assms(6) by (simp add: parse_public_line_def parse_v1_words [OF words] atoin_short(2) [OF assms(5,3)])
  with 3 2(5) 1(2) 2(2) keeps_trans [OF keeps_trans [OF 1(4) 2(4)] 3(3)] show ?thesis by auto
qed

definition empty_store :: vstore where
  "empty_store = \<lparr>cells = Map.empty, vnext = 0, secure_avail = \<lambda>_. True\<rparr>"

lemma empty_store_ok: "store_ok empty_store {#}" "secure_ready empty_store"
  by (simp_all add: empty_store_def store_ok_def secure_ready_def)

theorem parse_v2_public_line_key_witness:
  "\<exists>st'. parse_v2_public_line
       (\<lambda>w. if w = replicate 28 65 then key_packet (Ed25519Key (Some [1, 2])) else []) (\<lambda>_. []) (\<lambda>_. None) empty_store
       (cstr ''ssh-ed25519 '' @ replicate 28 65 @ cstr '' me'') =
     Ret (st', GCR_SUCCESS, Some
       \<lparr>pub_attrs = [(CKA_VALUE, Octets [1, 2])] @ class_views CKK_EC_EDWARDS @ [(CKA_LABEL, Octets (cstr ''me''))],
        pub_label = Some (cstr ''me''), pub_options = None,
        pub_outer = cstr ''ssh-ed25519 '' @ replicate 28 65 @ cstr '' me''\<rparr>) \<and>
     store_ok st' {#} \<and> keeps {#} empty_store st'"
proof -
  let ?k = "Ed25519Key (Some [1, 2])"
  let ?decode = "\<lambda>w. if w = replicate 28 65 then key_packet ?k else []"
  have "length (key_packet ?k) = 21" by (simp add: key_packet_def encode_byte_array_def)
  then have "decode_ok ?decode" by (simp add: decode_ok_def)
  moreover have "plain_word (replicate 28 65)" "key_valid (\<lambda>_. None) ?k" "options_valid None"
    "encoder_ok (\<lambda>_. []) (\<lambda>_. None)"
    by (simp_all add: plain_word_def byte_array_valid_def options_valid_def encoder_ok_def)
  moreover have "line_label (chr CHR '' '' # cstr ''me'') = Some (cstr ''me'')"
    by (simp add: line_label_def skip_spaces_def until_nul_def g_strstrip_def g_ascii_isspace_def)
  ultimately show ?thesis
    using parse_v2_public_line_key [OF empty_store_ok, of "\<lambda>_. []" "\<lambda>_. None" ?k None "replicate 28 65" ?decode "[]" "cstr ''me''"]
    by (simp add: options_text_def label_views_def array_val_def)
qed

theorem parse_public_line_v1_witness:
  "\<exists>st' ee nn. parse_public_line (\<lambda>_. []) (\<lambda>_. []) (\<lambda>_. None) empty_store (cstr ''1024 35 65537 me'') =
     Ret (st', GCR_SUCCESS, Some
       \<lparr>pub_attrs = [(CKA_PUBLIC_EXPONENT, Octets ee), (CKA_MODULUS, Octets nn)] @ class_views CKK_RSA @
          [(CKA_LABEL, Octets (cstr ''me''))],
        pub_label = Some (cstr ''me''), pub_options = None, pub_outer = cstr ''1024 35 65537 me''\<rparr>) \<and>
     be_nat ee = 35 \<and> be_nat nn = 65537 \<and> store_ok st' {#} \<and> keeps {#} empty_store st'"
proof -
  have "line_label (chr CHR '' '' # cstr ''me'') = Some (cstr ''me'')"
    by (simp add: line_label_def skip_spaces_def until_nul_def g_strstrip_def g_ascii_isspace_def)
  then show ?thesis
    using parse_public_line_v1 [OF empty_store_ok, of "cstr ''1024''" "cstr ''35''" "cstr ''65537''" "cstr ''me''"
        "\<lambda>_. []" "\<lambda>_. []" "\<lambda>_. None"]
    by (simp add: decimal_text_def g_ascii_isdigit_def decimal_text_value_def digits_value_def label_views_def)
qed

lemma parse_line_ok:
  assumes "store_ok st F" and "secure_ready st" and "length line < 2 ^ 62" and "encoder_ok ec_params ec_point"
    and "decode_ok decode" and "names_agree decode line" and "bits_ok line"
  shows "line_ok F st (parse_public_line decode ec_params ec_point st line)"
proof -
  obtain st1 res call where
    v2: "parse_v2_public_line decode ec_params ec_point st line = Ret (st1, res, call)" "store_ok st1 F" "keeps F st st1"
    "res = GCR_SUCCESS \<longleftrightarrow> call \<noteq> None"
    using parse_v2_ok [OF assms(1-6)] by (auto simp: line_ok_def)
  have "secure_ready st1" using keeps_secure [OF v2(3)] assms(2) by simp
  from line_ok_keeps [OF parse_v1_ok [OF v2(2) this assms(3,7)] v2(3)] v2 show ?thesis
    by (cases "res = GCR_ERROR_UNRECOGNIZED") (auto simp: parse_public_line_def line_ok_def)
qed

lemma openssh_lines_ok:
  assumes "store_ok st F" and "secure_ready st" and "length data < 2 ^ 62" and "encoder_ok ec_params ec_point"
    and "decode_ok decode" and "list_all bits_ok (split_fields 10 data)" and "n = length calls"
  shows "if list_all (names_agree decode) (split_fields 10 data)
     then \<exists>st' calls'. openssh_lines decode ec_params ec_point st data calls n = Ret (st', calls', length calls') \<and>
            store_ok st' F \<and> keeps F st st'
     else openssh_lines decode ec_params ec_point st data calls n = Undef"
  using assms
proof (induction "length data" arbitrary: data st calls n rule: less_induct)
  case less
  define line where "line = (case memchr data 10 of None \<Rightarrow> data | Some i \<Rightarrow> take i data)"
  define agree where "agree s = list_all (names_agree decode) (split_fields 10 s)" for s
  have "bits_ok line \<and> length line \<le> length data \<and> (memchr data 10 = None \<longrightarrow> agree data = names_agree decode line) \<and>
      (\<forall>i. memchr data 10 = Some i \<longrightarrow> length (drop (Suc i) data) < length data \<and>
        list_all bits_ok (split_fields 10 (drop (Suc i) data)) \<and>
        agree data = (names_agree decode line \<and> agree (drop (Suc i) data)))"
  proof (cases "10 \<in> set data")
    case False
    then have "memchr data 10 = None" by simp
    with False less.prems(6) show ?thesis
      by (simp add: line_def agree_def split_fields_no_delim del: memchr_None)
  next
    case True
    then obtain f t where d: "data = f @ 10 # t" "10 \<notin> set f" by (meson split_list_first)
    with less.prems(6) show ?thesis by (simp add: line_def agree_def memchr_append split_fields_delim)
  qed
  then have line: "bits_ok line" "length line < 2 ^ 62"
    and last: "memchr data 10 = None \<Longrightarrow> agree data = names_agree decode line"
    and rest: "\<And>i. memchr data 10 = Some i \<Longrightarrow> length (drop (Suc i) data) < length data \<and>
      list_all bits_ok (split_fields 10 (drop (Suc i) data)) \<and>
      agree data = (names_agree decode line \<and> agree (drop (Suc i) data))" using less.prems(3) by auto
  let ?first = "if line \<noteq> [] then
          obind (parse_public_line decode ec_params ec_point st line)
            (\<lambda>(st', res, call). Ret (st', calls @ (case call of None \<Rightarrow> [] | Some c \<Rightarrow> [c]),
               if res = GCR_SUCCESS then Suc n else n))
        else Ret (st, calls, n)"
  have unfold: "openssh_lines decode ec_params ec_point st data calls n =
      obind ?first (\<lambda>(st', calls', num'). case memchr data 10 of None \<Rightarrow> Ret (st', calls', num')
        | Some i \<Rightarrow> openssh_lines decode ec_params ec_point st' (drop (Suc i) data) calls' num')"
    by (subst openssh_lines.simps; cases "memchr data 10") (simp_all add: line_def del: memchr_None)
  show ?case
  proof (cases "names_agree decode line")
    case False
    then have "line \<noteq> []" by (auto simp: names_agree_def v2_words_def skip_spaces_def)
    moreover have "parse_public_line decode ec_params ec_point st line = Undef"
      using parse_v2_disagrees [OF False less.prems(5)] by (simp add: parse_public_line_def)
    moreover have "\<not> agree data" using False last rest by (cases "memchr data 10") blast+
    ultimately show ?thesis unfolding unfold by (simp add: agree_def)
  next
    case True
    have "\<exists>st1 calls1. ?first = Ret (st1, calls1, length calls1) \<and> store_ok st1 F \<and> keeps F st st1"
      using parse_line_ok [OF less.prems(1,2) line(2) less.prems(4,5) True line(1)] less.prems(1,7)
      by (auto simp: line_ok_def)
    then obtain st1 calls1 where first: "?first = Ret (st1, calls1, length calls1)" "store_ok st1 F" "keeps F st st1"
      by blast
    have ready1: "secure_ready st1" using keeps_secure [OF first(3)] less.prems(2) by simp
    show ?thesis
    proof (cases "memchr data 10")
      case None
      then have "openssh_lines decode ec_params ec_point st data calls n = Ret (st1, calls1, length calls1)"
        unfolding unfold first(1) by (simp del: memchr_None)
      with first(2,3) True last [OF None] show ?thesis by (simp add: agree_def)
    next
      case (Some i)
      then have step: "openssh_lines decode ec_params ec_point st data calls n =
          openssh_lines decode ec_params ec_point st1 (drop (Suc i) data) calls1 (length calls1)"
        unfolding unfold first(1) by simp
      have "agree data = agree (drop (Suc i) data)" using rest [OF Some] True by blast
      with less.hyps [of "drop (Suc i) data" st1 "length calls1" calls1] rest [OF Some] first(2,3) ready1 less.prems(3-5)
      show ?thesis unfolding step agree_def by (auto intro: keeps_trans split: if_splits)
    qed
  qed
qed

lemma name_agrees_key:
  assumes "key_valid ec_point k" and "length (key_packet k) < 2 ^ 62"
  shows "name_agrees (key_algo k) (key_packet k)"
proof -
  let ?data = "key_packet k"
  let ?p = "start_packet ?data empty_store (gck_builder_init_full False)"
  have p: "packet_ok {#} ?p"
    using start_packet_ok [OF builder_start [OF empty_store_ok(1)] empty_store_ok(2) assms(2)] .
  have off0: "poff ?p = 0" by (simp add: start_packet_def)
  have "rest_of ?p = encode_byte_array (Some (key_name k)) @ key_body k"
    by (simp add: rest_of_def off0 start_packet_contents) (simp add: key_packet_def)
  from get_string_rest [OF p key_name_facts(1,2) [OF assms(1)] this] key_name_facts(3) [OF assms(1)] off0
  show ?thesis by (auto simp: name_agrees_def packet_name_def start_packet_def)
qed


text \<open>A file of two lines: a key of version 2 whose packet names its algorithm, and one of version 1.\<close>

definition sample_base64 :: "byte list \<Rightarrow> byte list" where
  "sample_base64 w = (if w = replicate 28 65 then key_packet (Ed25519Key (Some [1, 2])) else [])"

definition sample_lines :: "byte list list" where
  "sample_lines = [cstr ''ssh-ed25519 '' @ replicate 28 65, cstr ''12 1 3'']"

lemma sample_split: "split_fields 10 (concat (map (\<lambda>l. l @ [10]) sample_lines)) = sample_lines @ [[]]"
  by (rule split_fields_joined) (simp add: sample_lines_def)

lemma sample_ed25519_words:
  "v2_words (cstr ''ssh-ed25519 '' @ replicate 28 65) = Some (None, CKK_EC_EDWARDS, 32 # replicate 28 65)"
  using key_line_words [of "\<lambda>_. None" "Ed25519Key (Some [1, 2])" None "replicate 28 65"]
  by (simp add: options_valid_def options_text_def byte_array_valid_def)

lemma sample_bits: "list_all bits_ok (sample_lines @ [[]])"
proof -
  have "plain_word (cstr ''ssh-ed25519'')" "plain_word (replicate 28 65)" by (simp_all add: plain_word_def)
  then have "next_word (cstr ''ssh-ed25519'' @ 32 # replicate 28 65) =
        (Some (cstr ''ssh-ed25519''), 32 # replicate 28 65)"
    "next_word (32 # replicate 28 65) = (Some (replicate 28 65), [])"
    using next_word_plain(1) [of "cstr ''ssh-ed25519''" "replicate 28 65"] next_word_plain(2) [of "replicate 28 65" "replicate 28 65"]
      next_word_plain(3) [of "replicate 28 65"]
    by simp_all
  moreover have "next_word [] = (None, [])" by (simp add: next_word_def skip_spaces_def)
  ultimately have "v1_words (cstr ''ssh-ed25519 '' @ replicate 28 65) = None" "v1_words [] = None"
    by (simp_all add: v1_words_def skip_spaces_def g_ascii_isdigit_def)
  moreover have "v1_words (cstr ''12 1 3'') = Some (None, cstr ''12'', cstr ''1'', cstr ''3'', [])"
    by (simp add: v1_words_def next_word_def skip_spaces_def g_ascii_isdigit_def)
  ultimately show ?thesis
    by (simp only: sample_lines_def bits_ok_def list.pred_inject append.simps option.case prod.case) simp
qed

lemma sample_agrees: "list_all (names_agree sample_base64) (sample_lines @ [[]])"
proof -
  have "plain_word (replicate 28 65)" by (simp add: plain_word_def)
  note word = next_word_plain(2,3) [OF this]
  have "name_agrees CKK_EC_EDWARDS (key_packet (Ed25519Key (Some [1, 2])))"
    using name_agrees_key [of "\<lambda>_. None" "Ed25519Key (Some [1, 2])"]
    by (simp add: byte_array_valid_def key_packet_def encode_byte_array_def)
  then have "names_agree sample_base64 (cstr ''ssh-ed25519 '' @ replicate 28 65)"
    using sample_ed25519_words word by (simp add: names_agree_def sample_base64_def)
  moreover have "v2_words (cstr ''12 1 3'') = None" "v2_words [] = None"
    by (simp_all add: v2_words_def next_word_def skip_spaces_def keytype_to_algo_def match_word_def)
  ultimately show ?thesis by (simp add: sample_lines_def names_agree_def)
qed


text \<open>
  In the number of bits of a version 1 line ten digits are enough for an overflow of
  \<^verbatim>\<open>gint\<close> in \<^verbatim>\<open>atoin\<close>, which is undefined behaviour; up to nine digits give
  their value.\<close>
theorem atoin_overflows:
  assumes "decimal_text w" and "length w < 2 ^ 31"
  shows "atoin w (as_gint (length w)) =
     (if length w \<ge> 10 then Undef else Ret (int (decimal_text_value w)))"
proof (cases "length w \<ge> 10")
  case False
  with atoin_short(2) [of w] assms(1) show ?thesis by simp
next
  case True
  have a: "atoin w (as_gint (length w)) = atoin_loop (rev w) 0 1"
    using assms(2) by (simp add: atoin_def as_gint_small)
  have "atoin_loop cs ret (10 ^ k) = Undef"
    if "decimal_text cs" "0 \<le> ret" "k \<le> 9" "10 \<le> k + length cs" for cs ret k
    using that
  proof (induction cs arbitrary: ret k)
    case (Cons c cs)
    then have c: "\<not> c < 48" "\<not> 57 < c" by (simp_all add: decimal_text_def g_ascii_isdigit_def not_less)
    show ?case
    proof (cases "k = 9")
      case False
      have "0 \<le> ret + uint (c - 48) * 10 ^ k" using Cons.prems(2) by simp
      with Cons.IH [of "ret + uint (c - 48) * 10 ^ k" "Suc k"] Cons.prems False c show ?thesis
        by (simp add: decimal_text_def Let_def mult.commute)
    qed (use c in \<open>simp add: Let_def\<close>)
  qed simp
  from this [of "rev w" 0 0] assms(1) True a show ?thesis by (simp add: decimal_text_def)
qed

theorem atoin_overflows_witness:
  "atoin (cstr ''0000002048'') (as_gint 10) = Undef"
proof -
  have "length (cstr ''0000002048'') = 10" "decimal_text (cstr ''0000002048'')"
    by (simp_all add: decimal_text_def g_ascii_isdigit_def)
  with atoin_overflows [of "cstr ''0000002048''"] show ?thesis by (simp only:) simp
qed

end
