(* ===== verification/Egg_Secure_Pool.thy ===== *)
theory Egg_Secure_Pool
  imports Egg_Prelude
begin

text \<open>
  The state of the allocator of locked memory (egg/egg-secure-memory.c) and its lowest layer: access
  to the locked memory, the pool of meta data items and the rings of cells.

  Addresses are natural numbers and \<^verbatim>\<open>NULL\<close> is 0.  The state \<open>secmem\<close> has
  \<^item> the locked memory and the memory handed out by the fallback, octet by octet; an address
    outside of its domain is not mapped and an access there is undefined;
  \<^item> the items of the pools that are in use.  The code uses an item as a \<^verbatim>\<open>Cell\<close> or as a
    \<^verbatim>\<open>Block\<close>; a fresh item is zeroed, and an item given back is not in the domain any more,
    so that a use after free is undefined;
  \<^item> the pools, with the stack of unused items as a list, in the order of \<^verbatim>\<open>pool_data\<close>;
  \<^item> the list of blocks in the order of \<^verbatim>\<open>all_blocks\<close>;
  \<^item> the number of calls of the operating system so far.

  The rings of cells are linked through the \<^verbatim>\<open>next\<close> and \<^verbatim>\<open>prev\<close> members of the cells as
  in the code.  The guards of a cell are pointers stored in the locked memory itself, in eight octets
  each, the least significant first.

  The operating system is a parameter: \<^verbatim>\<open>mmap\<close>, \<^verbatim>\<open>mlock\<close>, the page size, the environment
  variable, and the fallback allocator of the program.
\<close>

section \<open>State\<close>

abbreviation (input) SIZEOF_PTR :: nat where "SIZEOF_PTR \<equiv> 8"
abbreviation (input) SIZEOF_ITEM :: nat where "SIZEOF_ITEM \<equiv> 48"
abbreviation (input) POOL_ITEMS :: nat where "POOL_ITEMS \<equiv> 40"
abbreviation (input) SIZEOF_POOL :: nat where "SIZEOF_POOL \<equiv> 88"

record Cell =
  words :: nat
  n_words :: nat
  requested :: nat
  tag :: "byte list option"
  next_cell :: nat
  prev_cell :: nat

record Block =
  block_words :: nat
  block_n_words :: nat
  n_used :: nat
  used_cells :: nat
  unused_cells :: nat

datatype Item = Zeroed | ItemCell Cell | ItemBlock Block

record Pool =
  pool_base :: nat
  pool_length :: nat
  pool_used :: nat
  pool_unused :: "nat list"
  n_items :: nat

record secmem =
  mem :: "nat \<rightharpoonup> byte"
  items :: "nat \<rightharpoonup> Item"
  pool_data :: "Pool list"
  all_blocks :: "nat list"
  os_calls :: nat

record os =
  os_mmap :: "secmem \<Rightarrow> nat \<Rightarrow> nat option"
  os_mlock :: "secmem \<Rightarrow> nat \<Rightarrow> nat \<Rightarrow> bool"
  os_fallback :: "(secmem \<Rightarrow> nat \<Rightarrow> nat \<Rightarrow> nat \<times> (nat \<rightharpoonup> byte)) option"
  os_realloc :: "secmem \<Rightarrow> nat \<Rightarrow> bool"
  getpagesize :: nat
  force_fallback :: bool
  pool_version :: "byte list option"

section \<open>Memory\<close>

definition mapped :: "secmem \<Rightarrow> nat \<Rightarrow> nat \<Rightarrow> bool" where
  "mapped s a n \<longleftrightarrow> list_all (\<lambda>i. mem s i \<noteq> None) [a..<a + n]"

definition write_octets :: "(nat \<rightharpoonup> byte) \<Rightarrow> nat \<Rightarrow> byte list \<Rightarrow> nat \<rightharpoonup> byte" where
  "write_octets m a bs = (\<lambda>i. if a \<le> i \<and> i < a + length bs then Some (bs ! (i - a)) else m i)"

definition memwrite :: "secmem \<Rightarrow> nat \<Rightarrow> byte list \<Rightarrow> secmem outcome" where
  "memwrite s a bs =
     (if mapped s a (length bs) then Ret (s\<lparr>mem := write_octets (mem s) a bs\<rparr>) else Undef)"

definition memread :: "secmem \<Rightarrow> nat \<Rightarrow> nat \<Rightarrow> byte list outcome" where
  "memread s a n = (if mapped s a n then Ret (map (\<lambda>i. the (mem s i)) [a..<a + n]) else Undef)"

fun ptr_octets :: "nat \<Rightarrow> nat \<Rightarrow> byte list" where
  "ptr_octets 0 p = []"
| "ptr_octets (Suc n) p = word_of_nat (p mod 256) # ptr_octets n (p div 256)"

fun octets_ptr :: "byte list \<Rightarrow> nat" where
  "octets_ptr [] = 0"
| "octets_ptr (b # bs) = unat b + 256 * octets_ptr bs"

definition load_ptr :: "secmem \<Rightarrow> nat \<Rightarrow> nat outcome" where
  "load_ptr s a = obind (memread s a SIZEOF_PTR) (\<lambda>bs. Ret (octets_ptr bs))"

definition store_ptr :: "secmem \<Rightarrow> nat \<Rightarrow> nat \<Rightarrow> secmem outcome" where
  "store_ptr s a p = memwrite s a (ptr_octets SIZEOF_PTR p)"

definition zero_cell :: Cell where
  "zero_cell = \<lparr>words = 0, n_words = 0, requested = 0, tag = None, next_cell = 0, prev_cell = 0\<rparr>"

definition zero_block :: Block where
  "zero_block = \<lparr>block_words = 0, block_n_words = 0, n_used = 0, used_cells = 0, unused_cells = 0\<rparr>"

definition cell_of :: "Item option \<Rightarrow> Cell option" where
  "cell_of it = (case it of Some Zeroed \<Rightarrow> Some zero_cell | Some (ItemCell c) \<Rightarrow> Some c | _ \<Rightarrow> None)"

definition block_of :: "Item option \<Rightarrow> Block option" where
  "block_of it = (case it of Some Zeroed \<Rightarrow> Some zero_block | Some (ItemBlock b) \<Rightarrow> Some b | _ \<Rightarrow> None)"

definition get_cell :: "secmem \<Rightarrow> nat \<Rightarrow> Cell outcome" where
  "get_cell s c = (case cell_of (items s c) of None \<Rightarrow> Undef | Some cell \<Rightarrow> Ret cell)"

definition set_cell :: "secmem \<Rightarrow> nat \<Rightarrow> Cell \<Rightarrow> secmem" where
  "set_cell s c cell = s\<lparr>items := (items s)(c \<mapsto> ItemCell cell)\<rparr>"

definition get_block :: "secmem \<Rightarrow> nat \<Rightarrow> Block outcome" where
  "get_block s b = (case block_of (items s b) of None \<Rightarrow> Undef | Some block \<Rightarrow> Ret block)"

definition set_block :: "secmem \<Rightarrow> nat \<Rightarrow> Block \<Rightarrow> secmem" where
  "set_block s b block = s\<lparr>items := (items s)(b \<mapsto> ItemBlock block)\<rparr>"

section \<open>The pool of items\<close>

text \<open>The stack of unused items: pushing and popping, through the list.\<close>

definition unused_push :: "nat list \<Rightarrow> nat \<Rightarrow> nat list" where
  "unused_push stack ptr = ptr # stack"

definition unused_pop :: "nat list \<Rightarrow> (nat \<times> nat list) option" where
  "unused_pop stack = (case stack of [] \<Rightarrow> None | ptr # rest \<Rightarrow> Some (ptr, rest))"

definition unused_peek :: "nat list \<Rightarrow> nat" where
  "unused_peek stack = (case stack of [] \<Rightarrow> 0 | ptr # _ \<Rightarrow> ptr)"

text \<open>The first pool with an available item gives it.\<close>

fun pool_take :: "Pool list \<Rightarrow> (nat \<times> Pool list) option" where
  "pool_take [] = None"
| "pool_take (p # ps) =
     (if unused_peek (pool_unused p) \<noteq> 0 then
        (case unused_pop (pool_unused p) of
           None \<Rightarrow> None
         | Some (item, rest) \<Rightarrow>
             Some (item, p\<lparr>pool_used := pool_used p + 1, pool_unused := rest\<rparr> # ps))
      else map_option (\<lambda>(item, ps'). (item, p # ps')) (pool_take ps))"

definition pool_create :: "nat \<Rightarrow> nat \<Rightarrow> Pool" where
  "pool_create pages len =
     (let n = (len - SIZEOF_POOL) div SIZEOF_ITEM in
      \<lparr>pool_base = pages, pool_length = len, pool_used = 0,
       pool_unused = fold (\<lambda>i stack. unused_push stack (pages + POOL_ITEMS + i * SIZEOF_ITEM)) [0..<n] [],
       n_items = n\<rparr>)"

definition pool_alloc :: "os \<Rightarrow> secmem \<Rightarrow> (nat \<times> secmem) outcome" where
  "pool_alloc env s =
     (if pool_version env \<noteq> Some (cstr ''1.0'') then Ret (0, s)
      else
        (case pool_take (pool_data s) of
           Some (item, ps) \<Rightarrow> Ret (item, s\<lparr>pool_data := ps, items := (items s)(item \<mapsto> Zeroed)\<rparr>)
         | None \<Rightarrow>
             let len = getpagesize env * 2; s' = s\<lparr>os_calls := os_calls s + 1\<rparr> in
             (case os_mmap env s len of
                None \<Rightarrow> Ret (0, s')
              | Some pages \<Rightarrow>
                  (case pool_take (pool_create pages len # pool_data s) of
                     None \<Rightarrow> Abort
                   | Some (item, ps) \<Rightarrow>
                       Ret (item, s'\<lparr>pool_data := ps, items := (items s)(item \<mapsto> Zeroed)\<rparr>)))))"

definition in_pool :: "Pool \<Rightarrow> nat \<Rightarrow> bool" where
  "in_pool p ptr \<longleftrightarrow>
     pool_base p + POOL_ITEMS \<le> ptr \<and> ptr \<le> pool_base p + pool_length p - SIZEOF_ITEM"

fun pool_give :: "Pool list \<Rightarrow> nat \<Rightarrow> Pool list outcome" where
  "pool_give [] item = Abort"
| "pool_give (p # ps) item =
     (if in_pool p item then
        g_assert ((item - (pool_base p + POOL_ITEMS)) mod SIZEOF_ITEM = 0)
          (g_assert (pool_used p > 0)
            (if pool_used p = 1 then Ret ps
             else Ret (p\<lparr>pool_used := pool_used p - 1, pool_unused := unused_push (pool_unused p) item\<rparr> # ps)))
      else obind (pool_give ps item) (\<lambda>ps'. Ret (p # ps')))"

definition pool_free :: "secmem \<Rightarrow> nat \<Rightarrow> secmem outcome" where
  "pool_free s item =
     obind (pool_give (pool_data s) item)
       (\<lambda>ps. Ret (s\<lparr>pool_data := ps, items := (items s)(item := None)\<rparr>))"

definition pool_valid :: "secmem \<Rightarrow> nat \<Rightarrow> bool" where
  "pool_valid s item =
     (case find (\<lambda>p. in_pool p item) (pool_data s) of
        None \<Rightarrow> False
      | Some p \<Rightarrow> pool_used p \<noteq> 0 \<and> (item - (pool_base p + POOL_ITEMS)) mod SIZEOF_ITEM = 0)"

section \<open>Cells: guards and rings\<close>

definition sec_size_to_words :: "nat \<Rightarrow> nat" where
  "sec_size_to_words len = (if len mod SIZEOF_PTR \<noteq> 0 then 1 else 0) + len div SIZEOF_PTR"

definition sec_write_guards :: "secmem \<Rightarrow> nat \<Rightarrow> secmem outcome" where
  "sec_write_guards s c =
     obind (get_cell s c) (\<lambda>cell.
       obind (store_ptr s (words cell) c) (\<lambda>s'.
         store_ptr s' (words cell + (n_words cell - 1) * SIZEOF_PTR) c))"

definition sec_check_guards :: "secmem \<Rightarrow> nat \<Rightarrow> unit outcome" where
  "sec_check_guards s c =
     obind (get_cell s c) (\<lambda>cell.
       obind (load_ptr s (words cell)) (\<lambda>first.
         g_assert (first = c)
           (obind (load_ptr s (words cell + (n_words cell - 1) * SIZEOF_PTR)) (\<lambda>last.
             g_assert (last = c) (Ret ())))))"

text \<open>Both ring operations take the value of \<^verbatim>\<open>*ring\<close> and return the new one.\<close>

definition sec_insert_cell_ring :: "secmem \<Rightarrow> nat \<Rightarrow> nat \<Rightarrow> (nat \<times> secmem) outcome" where
  "sec_insert_cell_ring s ring c =
     g_assert (c \<noteq> 0) (g_assert (c \<noteq> ring)
       (obind (get_cell s c) (\<lambda>cell.
         g_assert (next_cell cell = 0) (g_assert (prev_cell cell = 0)
           (obind
             (if ring \<noteq> 0 then
                obind (get_cell s ring) (\<lambda>r.
                  let n = next_cell r; s1 = set_cell s c (cell\<lparr>next_cell := n, prev_cell := ring\<rparr>) in
                  obind (get_cell s1 n) (\<lambda>after.
                    let s2 = set_cell s1 n (after\<lparr>prev_cell := c\<rparr>) in
                    obind (get_cell s2 ring) (\<lambda>prior.
                      Ret (set_cell s2 ring (prior\<lparr>next_cell := c\<rparr>)))))
              else Ret (set_cell s c (cell\<lparr>next_cell := c, prev_cell := c\<rparr>)))
             (\<lambda>s'. obind (get_cell s' c) (\<lambda>cell'.
               obind (get_cell s' (next_cell cell')) (\<lambda>after.
                 g_assert (prev_cell after = c)
                   (obind (get_cell s' (prev_cell cell')) (\<lambda>prior.
                     g_assert (next_cell prior = c) (Ret (c, s'))))))))))))"

definition sec_remove_cell_ring :: "secmem \<Rightarrow> nat \<Rightarrow> nat \<Rightarrow> (nat \<times> secmem) outcome" where
  "sec_remove_cell_ring s ring c =
     g_assert (ring \<noteq> 0)
       (obind (get_cell s c) (\<lambda>cell.
         g_assert (next_cell cell \<noteq> 0) (g_assert (prev_cell cell \<noteq> 0)
           (obind (get_cell s (next_cell cell)) (\<lambda>after.
             g_assert (prev_cell after = c)
               (obind (get_cell s (prev_cell cell)) (\<lambda>prior.
                 g_assert (next_cell prior = c)
                   (obind
                     (if c = ring then
                        (if next_cell cell = c then g_assert (prev_cell cell = c) (Ret 0)
                         else g_assert (prev_cell cell \<noteq> c) (Ret (next_cell cell)))
                      else Ret ring)
                     (\<lambda>ring'.
                       let s1 = set_cell s (next_cell cell) (after\<lparr>prev_cell := prev_cell cell\<rparr>) in
                       obind (get_cell s1 (prev_cell cell)) (\<lambda>prior'.
                         let s2 = set_cell s1 (prev_cell cell) (prior'\<lparr>next_cell := next_cell cell\<rparr>) in
                         obind (get_cell s2 c) (\<lambda>cell'.
                           let s3 = set_cell s2 c (cell'\<lparr>next_cell := 0, prev_cell := 0\<rparr>) in
                           g_assert (ring' \<noteq> c) (Ret (ring', s3)))))))))))))"

text \<open>
  The loops over rings and over the cells of a block end because every step meets another item: there
  are no more items than \<open>item_slots\<close>.
\<close>

definition item_slots :: "secmem \<Rightarrow> nat" where
  "item_slots s = sum_list (map n_items (pool_data s))"

section \<open>Memory facts\<close>

lemma mapped_iff: "mapped s a n \<longleftrightarrow> (\<forall>i. a \<le> i \<and> i < a + n \<longrightarrow> mem s i \<noteq> None)"
  by (auto simp: mapped_def list_all_iff)

lemma mapped_sub: "mapped s a n \<Longrightarrow> a \<le> a' \<Longrightarrow> a' + n' \<le> a + n \<Longrightarrow> mapped s a' n'"
  by (auto simp: mapped_iff)

lemma memwrite_mapped:
  "mapped s a (length bs) \<Longrightarrow> memwrite s a bs = Ret (s\<lparr>mem := write_octets (mem s) a bs\<rparr>)"
  by (simp add: memwrite_def)

lemma write_octets_in: "a \<le> i \<Longrightarrow> i < a + length bs \<Longrightarrow> write_octets m a bs i = Some (bs ! (i - a))"
  by (simp add: write_octets_def)

lemma write_octets_out: "\<not> (a \<le> i \<and> i < a + length bs) \<Longrightarrow> write_octets m a bs i = m i"
  by (auto simp: write_octets_def)

lemma write_octets_mapped:
  "(\<And>i. a \<le> i \<Longrightarrow> i < a + length bs \<Longrightarrow> m i \<noteq> None) \<Longrightarrow> dom (write_octets m a bs) = dom m"
  by (auto simp: write_octets_def dom_def)

lemma length_ptr_octets [simp]: "length (ptr_octets n p) = n"
  by (induction n arbitrary: p) auto

lemma octets_ptr_octets: "octets_ptr (ptr_octets n p) = p mod 256 ^ n"
proof (induction n arbitrary: p)
  case (Suc n)
  have "unat (word_of_nat (p mod 256) :: byte) = p mod 256" by (simp add: unat_of_nat)
  with Suc [of "p div 256"] show ?case
    by (simp add: mod_mult2_eq)
qed simp

text \<open>The octets of an area, and a pointer that is stored at an address.\<close>

definition octets :: "(nat \<rightharpoonup> byte) \<Rightarrow> nat \<Rightarrow> nat \<Rightarrow> byte list" where
  "octets m a n = map (\<lambda>i. the (m i)) [a..<a + n]"

definition ptr_at :: "(nat \<rightharpoonup> byte) \<Rightarrow> nat \<Rightarrow> nat \<Rightarrow> bool" where
  "ptr_at m a p \<longleftrightarrow> (\<forall>i<8. m (a + i) = Some (ptr_octets 8 p ! i))"

lemma length_octets [simp]: "length (octets m a n) = n"
  by (simp add: octets_def)

lemma octets_nth: "i < n \<Longrightarrow> octets m a n ! i = the (m (a + i))"
  by (simp add: octets_def)

lemma octets_cong: "(\<And>i. a \<le> i \<Longrightarrow> i < a + n \<Longrightarrow> m' i = m i) \<Longrightarrow> octets m' a n = octets m a n"
  by (auto simp: octets_def)

lemma octets_written: "length bs = n \<Longrightarrow> octets (write_octets m a bs) a n = bs"
  by (rule nth_equalityI) (auto simp: octets_nth write_octets_in)

lemma octets_take: "n' \<le> n \<Longrightarrow> octets m a n' = take n' (octets m a n)"
  by (rule nth_equalityI) (auto simp: octets_nth)

lemma memread_mapped: "mapped s a n \<Longrightarrow> memread s a n = Ret (octets (mem s) a n)"
  by (simp add: memread_def octets_def)

lemma load_ptr_at:
  assumes "ptr_at (mem s) a p" and "p < 2 ^ 64"
  shows "load_ptr s a = Ret p"
proof -
  have "mem s i \<noteq> None" if "a \<le> i" "i < a + 8" for i
    using assms(1) [unfolded ptr_at_def, rule_format, of "i - a"] that by simp
  then have m: "mapped s a 8" by (auto simp: mapped_iff)
  have "octets (mem s) a 8 = ptr_octets 8 p"
    using assms(1) by (intro nth_equalityI) (auto simp: octets_nth ptr_at_def)
  with m assms(2) show ?thesis by (simp add: load_ptr_def memread_mapped octets_ptr_octets)
qed

lemma ptr_at_stored: "ptr_at (write_octets m a (ptr_octets 8 p)) a p"
  by (auto simp: ptr_at_def write_octets_in)

lemma ptr_at_frame:
  assumes "ptr_at m a p" and "\<And>i. a \<le> i \<Longrightarrow> i < a + 8 \<Longrightarrow> m' i = m i"
  shows "ptr_at m' a p"
  using assms by (auto simp: ptr_at_def)

lemma store_ptr_mapped:
  "mapped s a 8 \<Longrightarrow> store_ptr s a p = Ret (s\<lparr>mem := write_octets (mem s) a (ptr_octets 8 p)\<rparr>)"
  by (simp add: store_ptr_def memwrite_def)

section \<open>The pool as a set of items\<close>

text \<open>
  What the users of the pool rely on: the items in use are the slots of the pools that are not on
  a stack, and they are valid pointers.
\<close>

definition pool_slots :: "Pool \<Rightarrow> nat set" where
  "pool_slots p = (\<lambda>i. pool_base p + POOL_ITEMS + i * SIZEOF_ITEM) ` {..<n_items p}"

definition pool_ok :: "Pool \<Rightarrow> bool" where
  "pool_ok p \<longleftrightarrow> 0 < pool_base p \<and> pool_base p + pool_length p \<le> 2 ^ 64 \<and>
     n_items p * SIZEOF_ITEM + SIZEOF_POOL \<le> pool_length p \<and>
     distinct (pool_unused p) \<and> set (pool_unused p) \<subseteq> pool_slots p \<and>
     pool_used p + length (pool_unused p) = n_items p \<and> 0 < pool_used p"

definition apart :: "Pool \<Rightarrow> Pool \<Rightarrow> bool" where
  "apart p q \<longleftrightarrow> pool_base p + pool_length p \<le> pool_base q \<or> pool_base q + pool_length q \<le> pool_base p"

definition pool_busy :: "Pool \<Rightarrow> nat set" where
  "pool_busy p = pool_slots p - set (pool_unused p)"

definition pools_ok :: "Pool list \<Rightarrow> nat set \<Rightarrow> bool" where
  "pools_ok ps D \<longleftrightarrow>
     list_all pool_ok ps \<and> sorted_wrt apart ps \<and> D = (\<Union>p\<in>set ps. pool_busy p)"

lemma card_pool_slots: "card (pool_slots p) = n_items p" "finite (pool_slots p)"
  by (auto simp: pool_slots_def card_image inj_on_def)

lemma pool_slots_range:
  assumes "pool_ok p" and "x \<in> pool_slots p"
  shows "in_pool p x" "pool_base p < x" "x < pool_base p + pool_length p" "x < 2 ^ 64"
    "(x - (pool_base p + POOL_ITEMS)) mod SIZEOF_ITEM = 0"
proof -
  obtain i where i: "x = pool_base p + 40 + i * 48" "i < n_items p" using assms(2) by (auto simp: pool_slots_def)
  then have "Suc i * 48 \<le> n_items p * 48" by (intro mult_le_mono1) simp
  with assms(1) i show "in_pool p x" "pool_base p < x" "x < pool_base p + pool_length p" "x < 2 ^ 64"
    "(x - (pool_base p + POOL_ITEMS)) mod SIZEOF_ITEM = 0"
    by (auto simp: pool_ok_def in_pool_def)
qed

lemma in_pool_apart:
  assumes "pool_ok p" and "pool_ok q" and "apart p q" and "x \<in> pool_slots q"
  shows "\<not> in_pool p x" "x \<notin> pool_slots p"
  using pool_slots_range [OF assms(2,4)] pool_slots_range(2,3) [OF assms(1), of x] assms(1,3)
  by (auto simp: apart_def in_pool_def pool_ok_def)

lemma card_pool_busy: "pool_ok p \<Longrightarrow> card (pool_busy p) = pool_used p"
  by (auto simp: pool_busy_def card_Diff_subset card_pool_slots distinct_card pool_ok_def)

lemma pools_ok_Cons:
  "pools_ok (p # ps) D \<longleftrightarrow> pool_ok p \<and> (\<forall>q\<in>set ps. apart p q) \<and> pools_ok ps (D - pool_busy p) \<and>
     pool_busy p \<subseteq> D"
proof -
  have "pool_busy p \<inter> (\<Union>q\<in>set ps. pool_busy q) = {}" if "pool_ok p" "\<forall>q\<in>set ps. apart p q" "list_all pool_ok ps"
    using that in_pool_apart(2) [of p] by (fastforce simp: pool_busy_def list_all_iff)
  then show ?thesis by (auto simp: pools_ok_def)
qed

lemma pools_ok_item:
  assumes "pools_ok ps D" and "x \<in> D"
  shows "0 < x" "x < 2 ^ 64"
proof -
  from assms obtain p where "p \<in> set ps" "x \<in> pool_slots p" "pool_ok p"
    by (auto simp: pools_ok_def pool_busy_def list_all_iff)
  with pool_slots_range [of p x] show "0 < x" "x < 2 ^ 64" by auto
qed

lemma pools_ok_card:
  assumes "pools_ok ps D"
  shows "finite D" "card D \<le> sum_list (map n_items ps)"
proof -
  have "finite D \<and> card D \<le> sum_list (map n_items ps)"
    using assms
  proof (induction ps arbitrary: D)
    case (Cons p ps)
    then have ps: "pool_ok p" "pool_busy p \<subseteq> D" "finite (D - pool_busy p)"
      "card (D - pool_busy p) \<le> sum_list (map n_items ps)"
      by (auto simp: pools_ok_Cons)
    have busy: "finite (pool_busy p)" by (simp add: pool_busy_def card_pool_slots)
    have "finite D" using ps(3) busy by (metis Diff_infinite_finite)
    moreover have "card D = card (pool_busy p) + card (D - pool_busy p)"
      using ps(2) busy \<open>finite D\<close> by (metis card_Diff_subset card_mono le_add_diff_inverse)
    ultimately show ?case using ps(1,4) card_pool_busy [OF ps(1)] by (auto simp: pool_ok_def)
  qed (simp add: pools_ok_def)
  then show "finite D" "card D \<le> sum_list (map n_items ps)" by auto
qed

lemma pool_take_ok:
  assumes "pools_ok ps D" and "pool_take ps = Some (item, ps')"
  shows "item \<notin> D \<and> pools_ok ps' (insert item D) \<and>
     map (\<lambda>p. (pool_base p, pool_length p)) ps' = map (\<lambda>p. (pool_base p, pool_length p)) ps"
  using assms
proof (induction ps arbitrary: D ps')
  case (Cons p ps)
  have p: "pool_ok p" "\<forall>q\<in>set ps. apart p q" "pools_ok ps (D - pool_busy p)" "pool_busy p \<subseteq> D"
    using Cons.prems(1) by (simp_all add: pools_ok_Cons)
  have later: "x \<notin> pool_slots p" if "x \<in> \<Union> (pool_slots ` set ps)" for x
    using that in_pool_apart(2) [OF p(1)] p(2,3) by (auto simp: pools_ok_def list_all_iff)
  show ?case
  proof (cases "pool_unused p")
    case (Cons x rest)
    then have x: "x \<in> pool_slots p" "x \<notin> set rest" "0 < x" using p(1) pool_slots_range(2) [OF p(1), of x]
      by (auto simp: pool_ok_def)
    with Cons Cons.prems(2) have res: "item = x" "ps' = p\<lparr>pool_used := pool_used p + 1, pool_unused := rest\<rparr> # ps"
      by (auto simp: unused_peek_def unused_pop_def)
    let ?p = "p\<lparr>pool_used := pool_used p + 1, pool_unused := rest\<rparr>"
    have "pool_slots ?p = pool_slots p" by (simp add: pool_slots_def)
    then have busy: "pool_busy ?p = insert x (pool_busy p)" "x \<notin> pool_busy p" "pool_ok ?p"
      using x Cons p(1) by (auto simp: pool_busy_def pool_ok_def)
    have notD: "x \<notin> D - pool_busy p"
      using later [of x] x(1) p(3) by (auto simp: pools_ok_def pool_busy_def)
    then have "insert x D - pool_busy ?p = D - pool_busy p" using busy by auto
    with p busy notD res show ?thesis by (auto simp: pools_ok_Cons apart_def)
  next
    case Nil
    with Cons.prems(2) obtain ps1 where ps1: "pool_take ps = Some (item, ps1)" "ps' = p # ps1"
      by (auto simp: unused_peek_def)
    from Cons.IH [OF p(3) this(1)]
    have IH: "item \<notin> D - pool_busy p" "pools_ok ps1 (insert item (D - pool_busy p))"
      "map (\<lambda>p. (pool_base p, pool_length p)) ps1 = map (\<lambda>p. (pool_base p, pool_length p)) ps"
      by auto
    have ap: "\<forall>q\<in>set ps1. apart p q"
    proof
      fix q assume "q \<in> set ps1"
      then have "(pool_base q, pool_length q) \<in> set (map (\<lambda>p. (pool_base p, pool_length p)) ps)"
        unfolding IH(3) [symmetric] by auto
      with p(2) show "apart p q" by (auto simp: apart_def)
    qed
    have "item \<notin> pool_busy p"
    proof -
      obtain q where "q \<in> set ps1" "item \<in> pool_slots q" "pool_ok q"
        using IH(2) by (fastforce simp: pools_ok_def pool_busy_def list_all_iff)
      then show ?thesis using in_pool_apart(2) [OF p(1)] ap by (auto simp: pool_busy_def)
    qed
    then have "insert item D - pool_busy p = insert item (D - pool_busy p)" by auto
    with IH ap p ps1(2) \<open>item \<notin> pool_busy p\<close> show ?thesis by (auto simp: pools_ok_Cons)
  qed
qed simp

lemma pool_give_ok:
  assumes "pools_ok ps D" and "item \<in> D"
  shows "\<exists>ps'. pool_give ps item = Ret ps' \<and> pools_ok ps' (D - {item}) \<and>
     set (map (\<lambda>p. (pool_base p, pool_length p)) ps') \<subseteq> set (map (\<lambda>p. (pool_base p, pool_length p)) ps)"
  using assms
proof (induction ps arbitrary: D)
  case Nil
  then show ?case by (simp add: pools_ok_def)
next
  case (Cons p ps)
  have p: "pool_ok p" "\<forall>q\<in>set ps. apart p q" "pools_ok ps (D - pool_busy p)" "pool_busy p \<subseteq> D"
    using Cons.prems(1) by (simp_all add: pools_ok_Cons)
  show ?case
  proof (cases "item \<in> pool_busy p")
    case True
    then have slot: "item \<in> pool_slots p" "item \<notin> set (pool_unused p)" by (auto simp: pool_busy_def)
    note range = pool_slots_range [OF p(1) slot(1)]
    have used: "card (pool_busy p) = pool_used p" "finite (pool_busy p)"
      using card_pool_busy [OF p(1)] by (auto simp: pool_busy_def card_pool_slots)
    show ?thesis
    proof (cases "pool_used p = 1")
      case True
      with used \<open>item \<in> pool_busy p\<close> have "pool_busy p = {item}" by (metis card_1_singletonE singletonD)
      with p range True show ?thesis by (auto simp: pool_ok_def)
    next
      case False
      let ?p = "p\<lparr>pool_used := pool_used p - 1, pool_unused := item # pool_unused p\<rparr>"
      have "pool_slots ?p = pool_slots p" by (simp add: pool_slots_def)
      then have "pool_busy ?p = pool_busy p - {item}" "pool_ok ?p"
        using slot False p(1) by (auto simp: pool_busy_def pool_ok_def)
      moreover from this have "D - {item} - pool_busy ?p = D - pool_busy p" using \<open>item \<in> pool_busy p\<close> by auto
      ultimately have "pools_ok (?p # ps) (D - {item})" using p by (auto simp: pools_ok_Cons apart_def)
      moreover have "pool_give (p # ps) item = Ret (?p # ps)"
        using range p(1) False by (simp add: pool_ok_def unused_push_def)
      ultimately show ?thesis by auto
    qed
  next
    case False
    with Cons.prems(2) have "item \<in> D - pool_busy p" by auto
    from Cons.IH [OF p(3) this] obtain ps' where
      ps': "pool_give ps item = Ret ps'" "pools_ok ps' (D - pool_busy p - {item})"
        "set (map (\<lambda>p. (pool_base p, pool_length p)) ps') \<subseteq> set (map (\<lambda>p. (pool_base p, pool_length p)) ps)"
      by auto
    obtain q where "q \<in> set ps" "item \<in> pool_slots q" "pool_ok q"
      using p(3) \<open>item \<in> D - pool_busy p\<close> by (fastforce simp: pools_ok_def pool_busy_def list_all_iff)
    then have "\<not> in_pool p item" using in_pool_apart(1) [OF p(1)] p(2) by auto
    moreover have "\<forall>q\<in>set ps'. apart p q"
      using ps'(3) p(2) by (fastforce simp: apart_def)
    moreover have "D - pool_busy p - {item} = D - {item} - pool_busy p" by auto
    ultimately show ?thesis using ps' p False by (auto simp: pools_ok_Cons)
  qed
qed

lemma pool_valid_item:
  assumes "pools_ok (pool_data s) D" and "x \<in> D"
  shows "pool_valid s x"
proof -
  have "\<exists>p. find (\<lambda>p. in_pool p x) ps = Some p \<and> pool_used p \<noteq> 0 \<and>
      (x - (pool_base p + POOL_ITEMS)) mod SIZEOF_ITEM = 0"
    if "pools_ok ps D" "x \<in> D" for ps D
    using that
  proof (induction ps arbitrary: D)
    case (Cons p ps)
    then have p: "pool_ok p" "\<forall>q\<in>set ps. apart p q" "pools_ok ps (D - pool_busy p)"
      by (simp_all add: pools_ok_Cons)
    show ?case
    proof (cases "x \<in> pool_busy p")
      case True
      then have "x \<in> pool_slots p" by (simp add: pool_busy_def)
      from pool_slots_range [OF p(1) this] p(1) show ?thesis by (simp add: pool_ok_def)
    next
      case False
      then have "x \<in> D - pool_busy p" using Cons.prems(2) by simp
      moreover from this obtain q where "q \<in> set ps" "x \<in> pool_slots q" "pool_ok q"
        using p(3) by (fastforce simp: pools_ok_def pool_busy_def list_all_iff)
      then have "\<not> in_pool p x" using in_pool_apart(1) [OF p(1)] p(2) by auto
      ultimately show ?thesis using Cons.IH [OF p(3)] by simp
    qed
  qed (simp add: pools_ok_def)
  from this [OF assms] show ?thesis by (auto simp: pool_valid_def)
qed

subsection \<open>The contract of the operating system\<close>

text \<open>
  \<^verbatim>\<open>mmap\<close> returns an area that is in use nowhere; the page size is a power of two.
\<close>

definition os_ok :: "os \<Rightarrow> bool" where
  "os_ok env \<longleftrightarrow>
     (\<forall>s n p. os_mmap env s n = Some p \<longrightarrow>
        0 < p \<and> p + n \<le> 2 ^ 64 \<and> (\<forall>i. p \<le> i \<and> i < p + n \<longrightarrow> mem s i = None) \<and>
        (\<forall>q\<in>set (pool_data s). p + n \<le> pool_base q \<or> pool_base q + pool_length q \<le> p)) \<and>
     (\<exists>k. 7 \<le> k \<and> k \<le> 24 \<and> getpagesize env = 2 ^ k)"

definition pool_inv :: "os \<Rightarrow> secmem \<Rightarrow> bool" where
  "pool_inv env s \<longleftrightarrow> os_ok env \<and> pools_ok (pool_data s) (dom (items s))"

lemma os_ok_page: "os_ok env \<Longrightarrow> 128 \<le> getpagesize env"
  using power_increasing [of 7 _ "2 :: nat"] by (auto simp: os_ok_def)

text \<open>The interface of the pool for the layers above it.\<close>

locale item_pool =
  fixes alloc :: "secmem \<Rightarrow> (nat \<times> secmem) outcome"
    and free :: "secmem \<Rightarrow> nat \<Rightarrow> secmem outcome"
    and valid :: "secmem \<Rightarrow> nat \<Rightarrow> bool"
    and inv :: "secmem \<Rightarrow> bool"
  assumes alloc_law: "inv s \<Longrightarrow> \<exists>r s'. alloc s = Ret (r, s') \<and> inv s' \<and> mem s' = mem s \<and>
      all_blocks s' = all_blocks s \<and>
      (r = 0 \<and> items s' = items s \<or> r \<notin> dom (items s) \<and> items s' = (items s)(r \<mapsto> Zeroed))"
    and free_law: "inv s \<Longrightarrow> c \<in> dom (items s) \<Longrightarrow> \<exists>s'. free s c = Ret s' \<and> inv s' \<and> mem s' = mem s \<and>
      all_blocks s' = all_blocks s \<and> items s' = (items s)(c := None)"
    and valid_law: "inv s \<Longrightarrow> c \<in> dom (items s) \<Longrightarrow> valid s c \<and> 0 < c \<and> c < 2 ^ 64"
    and slots_law: "inv s \<Longrightarrow> finite (dom (items s)) \<and> card (dom (items s)) \<le> item_slots s"
    and frame_law: "inv s \<Longrightarrow> pool_data s' = pool_data s \<Longrightarrow> dom (items s') = dom (items s) \<Longrightarrow> inv s'"
begin

lemma alloc_item:
  assumes "inv s"
  obtains s' where "alloc s = Ret (0, s')" "inv s'" "mem s' = mem s" "all_blocks s' = all_blocks s" "items s' = items s"
  | r s' where "alloc s = Ret (r, s')" "inv s'" "mem s' = mem s" "all_blocks s' = all_blocks s"
      "0 < r" "r < 2 ^ 64" "r \<notin> dom (items s)" "items s' = (items s)(r \<mapsto> Zeroed)"
proof -
  obtain r s' where r: "alloc s = Ret (r, s')" "inv s'" "mem s' = mem s" "all_blocks s' = all_blocks s"
    "r = 0 \<and> items s' = items s \<or> r \<notin> dom (items s) \<and> items s' = (items s)(r \<mapsto> Zeroed)"
    using alloc_law [OF assms] by auto
  from r(5) show thesis
  proof
    assume "r = 0 \<and> items s' = items s"
    with r that(1) show thesis by auto
  next
    assume i: "r \<notin> dom (items s) \<and> items s' = (items s)(r \<mapsto> Zeroed)"
    with valid_law [OF r(2), of r] have "0 < r" "r < 2 ^ 64" by auto
    with r i that(2) show thesis by auto
  qed
qed

lemma free_item:
  assumes "inv s" and "c \<in> dom (items s)"
  obtains s' where "free s c = Ret s'" "inv s'" "mem s' = mem s" "all_blocks s' = all_blocks s"
    "items s' = (items s)(c := None)"
  using free_law [OF assms] by auto

lemma slots_distinct: "inv s \<Longrightarrow> distinct xs \<Longrightarrow> set xs \<subseteq> dom (items s) \<Longrightarrow> length xs \<le> item_slots s"
  using slots_law [of s] card_mono [of "dom (items s)" "set xs"] distinct_card [of xs] by fastforce

lemma valid_pointer: "inv s \<Longrightarrow> c \<in> dom (items s) \<Longrightarrow> 0 < c" "inv s \<Longrightarrow> c \<in> dom (items s) \<Longrightarrow> c < 2 ^ 64"
  "inv s \<Longrightarrow> c \<in> dom (items s) \<Longrightarrow> valid s c"
  using valid_law by auto

end

lemma pool_create_unused:
  "pool_unused (pool_create pages len) =
     rev (map (\<lambda>i. pages + POOL_ITEMS + i * SIZEOF_ITEM) [0..<(len - SIZEOF_POOL) div SIZEOF_ITEM])"
proof -
  have "fold (\<lambda>i stack. unused_push stack (f i)) xs acc = rev (map f xs) @ acc" for f :: "nat \<Rightarrow> nat" and xs acc
    by (induction xs arbitrary: acc) (auto simp: unused_push_def)
  then show ?thesis by (simp add: pool_create_def Let_def)
qed

lemma pool_alloc_ok:
  assumes "pool_inv env s"
  shows "\<exists>r s'. pool_alloc env s = Ret (r, s') \<and> pool_inv env s' \<and> mem s' = mem s \<and> all_blocks s' = all_blocks s \<and>
     (r = 0 \<and> items s' = items s \<or> r \<notin> dom (items s) \<and> items s' = (items s)(r \<mapsto> Zeroed))"
proof (cases "pool_version env \<noteq> Some (cstr ''1.0'')")
  case True
  with assms show ?thesis by (auto simp: pool_alloc_def)
next
  case False
  note version = False
  have os: "os_ok env" and ok: "pools_ok (pool_data s) (dom (items s))" using assms by (auto simp: pool_inv_def)
  show ?thesis
  proof (cases "pool_take (pool_data s)")
    case (Some x)
    then obtain item ps where x: "pool_take (pool_data s) = Some (item, ps)" by (cases x) auto
    from pool_take_ok [OF ok x] version x os show ?thesis
      by (auto simp: pool_alloc_def pool_inv_def)
  next
    case None
    let ?len = "getpagesize env * 2"
    show ?thesis
    proof (cases "os_mmap env s ?len")
      case None
      with \<open>pool_take (pool_data s) = None\<close> version assms show ?thesis
        by (auto simp: pool_alloc_def pool_inv_def Let_def)
    next
      case (Some pages)
      let ?p = "pool_create pages ?len" and ?n = "(getpagesize env * 2 - 88) div 48"
      have big: "1 \<le> ?n" using os_ok_page [OF os] by simp
      have area: "0 < pages" "pages + ?len \<le> 2 ^ 64"
        "\<And>q. q \<in> set (pool_data s) \<Longrightarrow> pages + ?len \<le> pool_base q \<or> pool_base q + pool_length q \<le> pages"
        using os Some by (auto simp: os_ok_def)
      obtain k where n: "?n = Suc k" using big by (cases ?n) auto
      let ?item = "pages + 40 + k * 48"
      let ?q = "?p\<lparr>pool_used := 1, pool_unused := tl (pool_unused ?p)\<rparr>"
      have unused: "pool_unused ?p = ?item # rev (map (\<lambda>i. pages + 40 + i * 48) [0..<k])"
        unfolding pool_create_unused n by simp
      have fields: "pool_base ?p = pages" "pool_length ?p = ?len" "n_items ?p = Suc k" "pool_used ?p = 0"
        using n by (simp_all add: pool_create_def Let_def)
      have "pool_slots ?q = (\<lambda>i. pages + 40 + i * 48) ` {..<Suc k}" by (simp add: pool_slots_def fields)
      moreover have "inj_on (\<lambda>i. pages + 40 + i * 48) {0..<k}" by (simp add: inj_on_def)
      ultimately have q: "pool_ok ?q" "pool_busy ?q = {?item}"
        using area n os_ok_page [OF os] fields unused
        by (auto simp: pool_ok_def pool_busy_def distinct_map lessThan_Suc)
      have ap: "\<forall>r\<in>set (pool_data s). apart ?q r" using area(3) fields by (auto simp: apart_def)
      have notin: "?item \<notin> dom (items s)"
      proof
        assume "?item \<in> dom (items s)"
        then obtain r where "r \<in> set (pool_data s)" "?item \<in> pool_slots r" "pool_ok r"
          using ok by (auto simp: pools_ok_def pool_busy_def list_all_iff)
        then show False using in_pool_apart(2) [OF q(1)] ap q(2) by (auto simp: pool_busy_def)
      qed
      then have "insert ?item (dom (items s)) - pool_busy ?q = dom (items s)" using q(2) by auto
      then have "pools_ok (?q # pool_data s) (insert ?item (dom (items s)))"
        using q ap ok by (auto simp: pools_ok_Cons)
      moreover have "pool_take (?p # pool_data s) = Some (?item, ?q # pool_data s)"
        using area(1) unused fields by (simp add: unused_peek_def unused_pop_def)
      ultimately show ?thesis
        using version os Some \<open>pool_take (pool_data s) = None\<close> notin
        by (auto simp: pool_alloc_def pool_inv_def Let_def simp del: pool_take.simps)
    qed
  qed
qed

interpretation meta: item_pool "pool_alloc env" pool_free pool_valid "pool_inv env" for env
proof (unfold_locales, goal_cases)
  case (1 s)
  then show ?case by (rule pool_alloc_ok)
next
  case (2 s c)
  then have "pools_ok (pool_data s) (dom (items s))" by (simp add: pool_inv_def)
  from pool_give_ok [OF this 2(2)] obtain ps where
    "pool_give (pool_data s) c = Ret ps" "pools_ok ps (dom (items s) - {c})" by auto
  with 2(1) show ?case by (auto simp: pool_free_def pool_inv_def)
next
  case (3 s c)
  then have "pools_ok (pool_data s) (dom (items s))" by (simp add: pool_inv_def)
  from pool_valid_item [OF this 3(2)] pools_ok_item [OF this 3(2)] show ?case by simp
next
  case (4 s)
  then show ?case using pools_ok_card by (auto simp: pool_inv_def item_slots_def)
next
  case (5 s s')
  then show ?case by (simp add: pool_inv_def)
qed

section \<open>Rings as lists\<close>

text \<open>
  A ring is the list of its cells from the one \<^verbatim>\<open>*ring\<close> points to; \<open>core_at\<close> is a cell
  without its links.
\<close>

definition cell_at :: "(nat \<rightharpoonup> Item) \<Rightarrow> nat \<Rightarrow> Cell option" where
  "cell_at its c = (case its c of Some (ItemCell k) \<Rightarrow> Some k | _ \<Rightarrow> None)"

definition core :: "Cell \<Rightarrow> Cell" where
  "core k = k\<lparr>next_cell := 0, prev_cell := 0\<rparr>"

definition core_at :: "(nat \<rightharpoonup> Item) \<Rightarrow> nat \<Rightarrow> Cell option" where
  "core_at its c = map_option core (cell_at its c)"

definition next_at :: "(nat \<rightharpoonup> Item) \<Rightarrow> nat \<Rightarrow> nat" where
  "next_at its c = (case cell_at its c of Some k \<Rightarrow> next_cell k | None \<Rightarrow> 0)"

definition prev_at :: "(nat \<rightharpoonup> Item) \<Rightarrow> nat \<Rightarrow> nat" where
  "prev_at its c = (case cell_at its c of Some k \<Rightarrow> prev_cell k | None \<Rightarrow> 0)"

lemma core_simps [simp]:
  "words (core k) = words k" "n_words (core k) = n_words k" "requested (core k) = requested k"
  "tag (core k) = tag k" "core (k\<lparr>next_cell := x\<rparr>) = core k" "core (k\<lparr>prev_cell := x\<rparr>) = core k"
  "core (core k) = core k"
  by (simp_all add: core_def)

lemma cell_at_upd [simp]: "cell_at (its(c \<mapsto> ItemCell k)) x = (if x = c then Some k else cell_at its x)"
  "cell_at (its(b \<mapsto> ItemBlock blk)) x = (if x = b then None else cell_at its x)"
  "cell_at (its(b \<mapsto> Zeroed)) x = (if x = b then None else cell_at its x)"
  "cell_at (its(b := None)) x = (if x = b then None else cell_at its x)"
  by (simp_all add: cell_at_def)

lemma cell_at_get: "cell_at (items s) c = Some k \<Longrightarrow> get_cell s c = Ret k"
  by (auto simp: cell_at_def get_cell_def cell_of_def split: option.splits Item.splits)

lemma cell_at_dom: "cell_at its c = Some k \<Longrightarrow> c \<in> dom its"
  by (auto simp: cell_at_def split: option.splits)

lemma core_at_SomeD: "core_at its c = Some k \<Longrightarrow> \<exists>k'. cell_at its c = Some k' \<and> core k' = k"
  by (auto simp: core_at_def)

fun chain :: "(nat \<rightharpoonup> Item) \<Rightarrow> nat list \<Rightarrow> bool" where
  "chain its (x # y # zs) \<longleftrightarrow> next_at its x = y \<and> prev_at its y = x \<and> chain its (y # zs)"
| "chain its _ \<longleftrightarrow> True"

definition ring :: "(nat \<rightharpoonup> Item) \<Rightarrow> nat \<Rightarrow> nat list \<Rightarrow> bool" where
  "ring its r xs \<longleftrightarrow> r = (case xs of [] \<Rightarrow> 0 | x # _ \<Rightarrow> x) \<and> distinct xs \<and>
     (\<forall>x\<in>set xs. x \<noteq> 0 \<and> cell_at its x \<noteq> None) \<and> (xs \<noteq> [] \<longrightarrow> chain its (xs @ [hd xs]))"

lemma chain_append: "chain its (xs @ y # zs) \<longleftrightarrow> chain its (xs @ [y]) \<and> chain its (y # zs)"
  by (induction its xs rule: chain.induct) auto

lemma chain_frame:
  assumes "chain its xs" and "\<And>x. x \<in> set (butlast xs) \<Longrightarrow> next_at its' x = next_at its x"
    and "\<And>x. x \<in> set (tl xs) \<Longrightarrow> prev_at its' x = prev_at its x"
  shows "chain its' xs"
  using assms by (induction its xs rule: chain.induct) auto

lemma ring_frame:
  assumes "ring its r xs" and "\<And>x. x \<in> set xs \<Longrightarrow> cell_at its' x \<noteq> None"
    and "\<And>x. x \<in> set xs \<Longrightarrow> next_at its' x = next_at its x"
    and "\<And>x. x \<in> set xs \<Longrightarrow> prev_at its' x = prev_at its x"
  shows "ring its' r xs"
proof -
  have "chain its' (xs @ [hd xs])" if "xs \<noteq> []"
  proof (rule chain_frame [of its])
    show "chain its (xs @ [hd xs])" using assms(1) that by (simp add: ring_def)
  qed (use assms(3,4) that in \<open>auto simp: tl_append split: list.splits\<close>)
  with assms show ?thesis by (auto simp: ring_def)
qed

text \<open>What an operation on a ring changes: only the links of the cells of the ring.\<close>

definition relinked :: "nat set \<Rightarrow> secmem \<Rightarrow> secmem \<Rightarrow> bool" where
  "relinked A s s' \<longleftrightarrow> s' = s\<lparr>items := items s'\<rparr> \<and> (\<forall>x. x \<notin> A \<longrightarrow> items s' x = items s x) \<and>
     (\<forall>x\<in>A. core_at (items s') x = core_at (items s) x \<and> core_at (items s) x \<noteq> None)"

lemma relinkedD:
  assumes "relinked A s s'"
  shows "mem s' = mem s" "pool_data s' = pool_data s" "all_blocks s' = all_blocks s" "os_calls s' = os_calls s"
    "\<And>x. x \<notin> A \<Longrightarrow> items s' x = items s x" "\<And>x. core_at (items s') x = core_at (items s) x"
    "dom (items s') = dom (items s)"
proof -
  have e: "s' = s\<lparr>items := items s'\<rparr>" using assms by (simp add: relinked_def)
  show "mem s' = mem s" "pool_data s' = pool_data s" "all_blocks s' = all_blocks s" "os_calls s' = os_calls s"
    by (subst e, simp)+
  show c: "\<And>x. core_at (items s') x = core_at (items s) x" "\<And>x. x \<notin> A \<Longrightarrow> items s' x = items s x"
    using assms by (auto simp: relinked_def core_at_def cell_at_def)
  show "dom (items s') = dom (items s)"
  proof (rule set_eqI)
    fix x show "x \<in> dom (items s') \<longleftrightarrow> x \<in> dom (items s)"
    proof (cases "x \<in> A")
      case True
      then obtain k where "core_at (items s) x = Some k" "core_at (items s') x = Some k"
        using assms by (auto simp: relinked_def)
      then show ?thesis by (auto dest!: core_at_SomeD dest: cell_at_dom)
    qed (use c(2) in auto)
  qed
qed

lemma relinked_refl: "relinked {} s s"
  by (simp add: relinked_def)

lemma relinked_set_cell:
  assumes "cell_at (items s) c = Some k" and "core k' = core k"
  shows "relinked {c} s (set_cell s c k')"
  using assms by (auto simp: relinked_def set_cell_def core_at_def)

lemma relinked_trans:
  assumes "relinked A s s'" and "relinked B s' s''"
  shows "relinked (A \<union> B) s s''"
proof -
  note a = relinkedD [OF assms(1)] and b = relinkedD [OF assms(2)]
  have "s'' = s\<lparr>items := items s''\<rparr>" using a b by (intro secmem.equality) auto
  with a b assms show ?thesis by (auto simp: relinked_def)
qed

lemma relinked_mono:
  assumes "relinked A s s'" and "A \<subseteq> B" and "\<And>x. x \<in> B \<Longrightarrow> cell_at (items s) x \<noteq> None"
  shows "relinked B s s'"
  using assms relinkedD(5,6) [OF assms(1)] by (auto simp: relinked_def core_at_def)

lemma set_cell_items [simp]: "items (set_cell s c k) = (items s)(c \<mapsto> ItemCell k)" "mem (set_cell s c k) = mem s"
  "pool_data (set_cell s c k) = pool_data s" "all_blocks (set_cell s c k) = all_blocks s"
  by (simp_all add: set_cell_def)

lemma get_cell_set_cell [simp]: "get_cell (set_cell s c k) x = (if x = c then Ret k else get_cell s x)"
  by (simp add: get_cell_def set_cell_def cell_of_def)

lemma insert_eval:
  assumes "get_cell s c = Ret k" "get_cell s h = Ret kh" "get_cell s n = Ret kn" "c \<noteq> 0" "h \<noteq> 0" "c \<noteq> h" "c \<noteq> n"
    "next_cell kh = n" "next_cell k = 0" "prev_cell k = 0"
  shows "sec_insert_cell_ring s h c = Ret (c, set_cell (set_cell (set_cell s c (k\<lparr>next_cell := n, prev_cell := h\<rparr>)) n (kn\<lparr>prev_cell := c\<rparr>)) h
     ((if h = n then kn\<lparr>prev_cell := c\<rparr> else kh)\<lparr>next_cell := c\<rparr>))"
  using assms by (cases "h = n") (simp_all add: sec_insert_cell_ring_def Let_def)

lemma insert_ring:
  assumes "ring (items s) r xs" and "c \<notin> set xs" and "c \<noteq> 0" and "cell_at (items s) c = Some k"
    and "next_cell k = 0" and "prev_cell k = 0"
  shows "\<exists>s' xs'. sec_insert_cell_ring s r c = Ret (c, s') \<and> ring (items s') c xs' \<and> set xs' = insert c (set xs) \<and>
     length xs' = Suc (length xs) \<and> relinked (insert c (set xs)) s s'"
proof (cases xs)
  case Nil
  then have "r = 0" using assms(1) by (simp add: ring_def)
  let ?s = "set_cell s c (k\<lparr>next_cell := c, prev_cell := c\<rparr>)"
  have "ring (items ?s) c [c]" using assms(3) by (simp add: ring_def next_at_def prev_at_def)
  moreover have "sec_insert_cell_ring s r c = Ret (c, ?s)"
    using assms(3-6) \<open>r = 0\<close> by (simp add: sec_insert_cell_ring_def cell_at_get)
  moreover have "relinked {c} s ?s" using assms(4) by (intro relinked_set_cell) auto
  ultimately show ?thesis using Nil by (intro exI [of _ ?s] exI [of _ "[c]"]) auto
next
  case (Cons h t)
  have r: "r = h" "distinct (h # t)" "h \<noteq> 0" "chain (items s) (h # t @ [h])"
    using assms(1) Cons by (auto simp: ring_def)
  define n where "n = hd (t @ [h])"
  have n: "n \<in> set (h # t)" "next_at (items s) h = n" using r(4) by (cases t; simp add: n_def)+
  have cells: "\<And>x. x \<in> set (h # t) \<Longrightarrow> cell_at (items s) x \<noteq> None" "c \<noteq> h" "c \<noteq> n"
    using assms(1,2) Cons n(1) by (auto simp: ring_def)
  then obtain kh kn where k: "cell_at (items s) h = Some kh" "cell_at (items s) n = Some kn"
    using n(1) by (metis list.set_intros(1) not_None_eq)
  with n(2) have nh: "next_cell kh = n" by (simp add: next_at_def)
  define s3 where "s3 = set_cell (set_cell (set_cell s c (k\<lparr>next_cell := n, prev_cell := h\<rparr>)) n (kn\<lparr>prev_cell := c\<rparr>)) h
     ((if h = n then kn\<lparr>prev_cell := c\<rparr> else kh)\<lparr>next_cell := c\<rparr>)"
  have get: "get_cell s c = Ret k" "get_cell s h = Ret kh" "get_cell s n = Ret kn"
    using assms(4) k by (auto intro: cell_at_get)
  have eval: "sec_insert_cell_ring s r c = Ret (c, s3)"
    unfolding s3_def r(1) by (rule insert_eval [OF get]) (use assms(3,5,6) r(3) cells(2,3) nh in simp_all)
  have at3: "cell_at (items s3) x =
      (if x = h then Some ((if h = n then kn\<lparr>prev_cell := c\<rparr> else kh)\<lparr>next_cell := c\<rparr>)
       else if x = n then Some (kn\<lparr>prev_cell := c\<rparr>)
       else if x = c then Some (k\<lparr>next_cell := n, prev_cell := h\<rparr>) else cell_at (items s) x)" for x
    by (simp add: s3_def)
  have rel: "relinked {c, n, h} s s3"
    using assms(4) k by (auto simp: relinked_def s3_def set_cell_def core_at_def)
  have links: "next_at (items s3) = (next_at (items s))(c := n, h := c)"
    "prev_at (items s3) = (prev_at (items s))(c := h, n := c)"
    using k cells nh by (auto simp: next_at_def prev_at_def fun_eq_iff at3)
  have "chain (items s3) (c # t @ [h] @ [c])"
  proof (cases t)
    case Nil
    with links cells(2) show ?thesis by (simp add: n_def)
  next
    case t: (Cons m t')
    then have m: "n = m" by (simp add: n_def)
    have "chain (items s) (m # t' @ [h])" using r(4) t by simp
    then have "chain (items s3) (m # t' @ [h])"
    proof (rule chain_frame)
      fix x assume "x \<in> set (butlast (m # t' @ [h]))"
      then have "x \<in> set t" using t by (auto simp: butlast_append)
      with assms(2) Cons r(2) show "next_at (items s3) x = next_at (items s) x"
        unfolding links by auto
    next
      fix x assume "x \<in> set (tl (m # t' @ [h]))"
      with assms(2) Cons r(2) t m show "prev_at (items s3) x = prev_at (items s) x"
        unfolding links by auto
    qed
    with links cells(2,3) m show ?thesis using t
      using chain_append [of "items s3" "c # m # t'" h "[c]"] by simp
  qed
  moreover have "\<forall>x\<in>set (c # t @ [h]). x \<noteq> 0 \<and> cell_at (items s3) x \<noteq> None"
    using assms(1,3) Cons by (auto simp: ring_def at3)
  ultimately have "ring (items s3) c (c # t @ [h])"
    using r(2) assms(2) Cons by (auto simp: ring_def)
  moreover have "relinked (insert c (set xs)) s s3"
    using rel n(1) Cons cells assms(4) by (elim relinked_mono) auto
  ultimately show ?thesis using eval Cons by (intro exI [of _ s3] exI [of _ "c # t @ [h]"]) auto
qed

lemma chain_rotate: "chain its (xs @ ys @ [hd (xs @ ys)]) \<Longrightarrow> chain its (ys @ xs @ [hd (ys @ xs)])"
proof (cases "xs = [] \<or> ys = []")
  case False
  then obtain x xs' y ys' where l: "xs = x # xs'" "ys = y # ys'" by (meson neq_Nil_conv)
  assume "chain its (xs @ ys @ [hd (xs @ ys)])"
  then show ?thesis
    using chain_append [of its "x # xs'" y "ys' @ [x]"] chain_append [of its "y # ys'" x "xs' @ [y]"]
    unfolding l by simp
qed auto

lemma ring_rotate:
  assumes "ring its r (xs @ ys)" and "xs @ ys \<noteq> []"
  shows "ring its (hd (ys @ xs)) (ys @ xs)"
proof -
  have c: "chain its (ys @ xs @ [hd (ys @ xs)])"
    by (rule chain_rotate) (use assms in \<open>simp add: ring_def\<close>)
  obtain z zs where z: "ys @ xs = z # zs" using assms(2) by (cases "ys @ xs") auto
  have "distinct (z # zs)" "\<forall>x\<in>set (z # zs). x \<noteq> 0 \<and> cell_at its x \<noteq> None"
    unfolding z [symmetric] using assms(1) by (auto simp: ring_def)
  with c z show ?thesis by (simp add: ring_def flip: append_assoc)
qed

lemma remove_eval:
  assumes "get_cell s c = Ret k" "get_cell s n = Ret kn" "get_cell s p = Ret kp" "r \<noteq> 0" "n \<noteq> 0" "p \<noteq> 0"
    "c \<noteq> n" "c \<noteq> p" "next_cell k = n" "prev_cell k = p" "prev_cell kn = c" "next_cell kp = c"
  shows "sec_remove_cell_ring s r c = Ret (if c = r then n else r, set_cell (set_cell (set_cell s n (kn\<lparr>prev_cell := p\<rparr>)) p
     ((if n = p then kn\<lparr>prev_cell := p\<rparr> else kp)\<lparr>next_cell := n\<rparr>)) c (k\<lparr>next_cell := 0, prev_cell := 0\<rparr>))"
  using assms by (cases "n = p"; cases "c = r") (simp_all add: sec_remove_cell_ring_def Let_def)

lemma remove_eval_last:
  assumes "get_cell s c = Ret k" "c \<noteq> 0" "next_cell k = c" "prev_cell k = c"
  shows "sec_remove_cell_ring s c c =
     Ret (0, set_cell (set_cell (set_cell s c (k\<lparr>prev_cell := c\<rparr>)) c (k\<lparr>prev_cell := c, next_cell := c\<rparr>)) c
       (k\<lparr>next_cell := 0, prev_cell := 0\<rparr>))"
  using assms by (simp add: sec_remove_cell_ring_def Let_def)

text \<open>Taking the first cell of a ring out of it.\<close>

lemma remove_first:
  assumes "ring (items s) c (c # ws)" and "ws \<noteq> []" and "r \<in> set (c # ws)"
  shows "\<exists>s' k. sec_remove_cell_ring s r c = Ret (if c = r then hd ws else r, s') \<and> ring (items s') (hd ws) ws \<and>
     relinked (set (c # ws)) s s' \<and> cell_at (items s') c = Some k \<and> next_cell k = 0 \<and> prev_cell k = 0"
proof -
  obtain us p where ws: "ws = us @ [p]" using assms(2) by (cases ws rule: rev_cases) auto
  obtain n vs where vs: "us @ [p] = n # vs" by (cases "us @ [p]") auto
  have hd: "hd ws = n" by (simp add: ws vs)
  have d: "distinct (c # us @ [p])" "chain (items s) ((c # us) @ p # [c])"
    "\<And>x. x \<in> set (c # ws) \<Longrightarrow> x \<noteq> 0 \<and> cell_at (items s) x \<noteq> None"
    using assms(1) by (auto simp: ring_def ws)
  have "us @ [p, c] = n # vs @ [c]" using arg_cong [OF vs, of "\<lambda>l. l @ [c]"] by simp
  with d(2) have front: "chain (items s) (c # n # vs @ [c])" by simp
  have mem: "n \<in> set ws" "p \<in> set ws" using arg_cong [OF vs, of set] by (auto simp: ws)
  then obtain k kn kp where k: "cell_at (items s) c = Some k" "cell_at (items s) n = Some kn" "cell_at (items s) p = Some kp"
    using d(3) by (metis list.set_intros not_None_eq)
  have ne: "c \<noteq> n" "c \<noteq> p" using d(1) mem by (auto simp: ws)
  have link: "next_cell k = n" "prev_cell kn = c" using front k by (auto simp: next_at_def prev_at_def)
  have split: "chain (items s) (c # us @ [p])" "next_at (items s) p = c" "prev_at (items s) c = p"
    using d(2) chain_append [of "items s" "c # us" p "[c]"] by auto
  then have link': "next_cell kp = c" "prev_cell k = p" using k by (auto simp: next_at_def prev_at_def)
  have inner: "chain (items s) (us @ [p])" using split(1) by (simp add: vs)
  define s3 where "s3 = set_cell (set_cell (set_cell s n (kn\<lparr>prev_cell := p\<rparr>)) p
     ((if n = p then kn\<lparr>prev_cell := p\<rparr> else kp)\<lparr>next_cell := n\<rparr>)) c (k\<lparr>next_cell := 0, prev_cell := 0\<rparr>)"
  have eval: "sec_remove_cell_ring s r c = Ret (if c = r then n else r, s3)"
    unfolding s3_def
    by (rule remove_eval) (use k ne d(3) mem assms(3) link link' in \<open>auto intro: cell_at_get\<close>)
  have at3: "cell_at (items s3) x = (if x = c then Some (k\<lparr>next_cell := 0, prev_cell := 0\<rparr>)
      else if x = p then Some ((if n = p then kn\<lparr>prev_cell := p\<rparr> else kp)\<lparr>next_cell := n\<rparr>)
      else if x = n then Some (kn\<lparr>prev_cell := p\<rparr>) else cell_at (items s) x)" for x
    by (simp add: s3_def)
  have rel: "relinked {c, n, p} s s3"
    using k ne by (auto simp: relinked_def s3_def set_cell_def core_at_def)
  have nx: "next_at (items s3) x = (if x = p then n else next_at (items s) x)" if "x \<noteq> c" for x
    using that k ne by (auto simp: next_at_def at3)
  have pv: "prev_at (items s3) x = (if x = n then p else prev_at (items s) x)" if "x \<noteq> c" for x
    using that k ne by (auto simp: prev_at_def at3)
  have "chain (items s3) (us @ [p])"
  proof (rule chain_frame [OF inner])
    fix x assume "x \<in> set (butlast (us @ [p]))"
    with d(1) show "next_at (items s3) x = next_at (items s) x" by (subst nx) auto
  next
    fix x assume x: "x \<in> set (tl (us @ [p]))"
    with d(1) have "x \<noteq> n" "x \<noteq> c" unfolding vs by auto
    then show "prev_at (items s3) x = prev_at (items s) x" by (simp add: pv)
  qed
  moreover have "chain (items s3) [p, n]" using ne by (auto simp: nx pv)
  ultimately have "chain (items s3) (ws @ [n])"
    using chain_append [of "items s3" us p "[n]"] by (simp add: ws)
  then have "ring (items s3) n ws"
    using d(1,3) vs mem by (auto simp: ring_def at3 ws)
  moreover have "relinked (set (c # ws)) s s3" using rel mem d(3) by (elim relinked_mono) auto
  ultimately show ?thesis using eval at3 [of c] unfolding hd
    by (intro exI [of _ s3] exI [of _ "k\<lparr>next_cell := 0, prev_cell := 0\<rparr>"]) simp
qed

lemma remove_ring:
  assumes "ring (items s) r xs" and "c \<in> set xs"
  shows "\<exists>r' s' xs' k. sec_remove_cell_ring s r c = Ret (r', s') \<and> ring (items s') r' xs' \<and> set xs' = set xs - {c} \<and>
     Suc (length xs') = length xs \<and> relinked (set xs) s s' \<and> cell_at (items s') c = Some k \<and>
     next_cell k = 0 \<and> prev_cell k = 0"
proof -
  obtain ys zs where xs: "xs = ys @ c # zs" using assms(2) by (meson split_list)
  have d: "distinct xs" using assms(1) by (simp add: ring_def)
  have rot: "ring (items s) c (c # zs @ ys)"
    using ring_rotate [of "items s" r ys "c # zs"] assms(1) xs by simp
  have r: "r \<in> set (c # zs @ ys)" using assms(1) xs by (cases ys) (auto simp: ring_def)
  show ?thesis
  proof (cases "zs @ ys = []")
    case True
    then have "r = c" "xs = [c]" using r xs by auto
    obtain k where k: "cell_at (items s) c = Some k" using rot by (auto simp: ring_def)
    with rot True have l: "next_cell k = c" "prev_cell k = c" "c \<noteq> 0"
      by (auto simp: ring_def next_at_def prev_at_def)
    define s' where "s' = set_cell (set_cell (set_cell s c (k\<lparr>prev_cell := c\<rparr>)) c (k\<lparr>prev_cell := c, next_cell := c\<rparr>)) c
       (k\<lparr>next_cell := 0, prev_cell := 0\<rparr>)"
    have "sec_remove_cell_ring s r c = Ret (0, s')"
      unfolding s'_def \<open>r = c\<close> using k l by (intro remove_eval_last) (auto intro: cell_at_get)
    moreover have "relinked {c} s s'" using k by (auto simp: s'_def relinked_def set_cell_def core_at_def)
    moreover have "cell_at (items s') c = Some (k\<lparr>next_cell := 0, prev_cell := 0\<rparr>)" by (simp add: s'_def)
    ultimately show ?thesis using \<open>xs = [c]\<close>
      by (intro exI [of _ 0] exI [of _ s'] exI [of _ "[]"] exI [of _ "k\<lparr>next_cell := 0, prev_cell := 0\<rparr>"])
        (auto simp: ring_def)
  next
    case False
    from remove_first [OF rot False r] obtain s' k where
      s': "sec_remove_cell_ring s r c = Ret (if c = r then hd (zs @ ys) else r, s')" "ring (items s') (hd (zs @ ys)) (zs @ ys)"
      "relinked (set (c # zs @ ys)) s s'" "cell_at (items s') c = Some k" "next_cell k = 0" "prev_cell k = 0"
      by auto
    have "set (c # zs @ ys) = set xs" using xs by auto
    moreover have "\<exists>xs'. ring (items s') (if c = r then hd (zs @ ys) else r) xs' \<and> set xs' = set xs - {c} \<and>
        Suc (length xs') = length xs"
    proof (cases "c = r")
      case True
      then show ?thesis using s'(2) xs d by (intro exI [of _ "zs @ ys"]) auto
    next
      case False
      then have "hd (ys @ zs) = r" using assms(1) xs by (cases ys) (auto simp: ring_def)
      then show ?thesis using ring_rotate [OF s'(2) \<open>zs @ ys \<noteq> []\<close>] False xs d
        by (intro exI [of _ "ys @ zs"]) auto
    qed
    ultimately show ?thesis using s' by metis
  qed
qed

end
