(* ===== verification/Egg_Secure_Cells.thy ===== *)
theory Egg_Secure_Cells
  imports Egg_Secure_Pool
begin

text \<open>
  The cells of one block of locked memory (egg/egg-secure-memory.c, the functions \<^verbatim>\<open>sec_*\<close>
  on a block): allocation, release and reallocation inside of a block, and its validation.
\<close>

section \<open>Operations\<close>

abbreviation (input) WASTE :: nat where "WASTE \<equiv> 4"

definition sec_cell_to_memory :: "Cell \<Rightarrow> nat" where
  "sec_cell_to_memory cell = words cell + SIZEOF_PTR"

definition sec_is_valid_word :: "Block \<Rightarrow> nat \<Rightarrow> bool" where
  "sec_is_valid_word block word \<longleftrightarrow>
     block_words block \<le> word \<and> word < block_words block + block_n_words block * SIZEOF_PTR"

definition sec_clear :: "secmem \<Rightarrow> nat \<Rightarrow> nat \<Rightarrow> nat \<Rightarrow> secmem outcome" where
  "sec_clear s memory from to =
     g_assert (from \<le> to) (memwrite s (memory + from) (replicate (to - from) 0))"

definition sec_neighbor :: "secmem \<Rightarrow> Block \<Rightarrow> nat \<Rightarrow> nat outcome" where
  "sec_neighbor s block word =
     (if \<not> sec_is_valid_word block word then Ret 0
      else obind (load_ptr s word) (\<lambda>c. obind (sec_check_guards s c) (\<lambda>_. Ret c)))"

definition sec_neighbor_before :: "secmem \<Rightarrow> nat \<Rightarrow> nat \<Rightarrow> nat outcome" where
  "sec_neighbor_before s b c =
     obind (get_block s b) (\<lambda>block. obind (get_cell s c) (\<lambda>cell.
       sec_neighbor s block (words cell - SIZEOF_PTR)))"

definition sec_neighbor_after :: "secmem \<Rightarrow> nat \<Rightarrow> nat \<Rightarrow> nat outcome" where
  "sec_neighbor_after s b c =
     obind (get_block s b) (\<lambda>block. obind (get_cell s c) (\<lambda>cell.
       sec_neighbor s block (words cell + n_words cell * SIZEOF_PTR)))"

text \<open>The rings of a block: the two operations on the member that is passed to them.\<close>

definition insert_used :: "secmem \<Rightarrow> nat \<Rightarrow> nat \<Rightarrow> secmem outcome" where
  "insert_used s b c =
     obind (get_block s b) (\<lambda>block. obind (sec_insert_cell_ring s (used_cells block) c)
       (\<lambda>(ring, s'). Ret (set_block s' b (block\<lparr>used_cells := ring\<rparr>))))"

definition insert_unused :: "secmem \<Rightarrow> nat \<Rightarrow> nat \<Rightarrow> secmem outcome" where
  "insert_unused s b c =
     obind (get_block s b) (\<lambda>block. obind (sec_insert_cell_ring s (unused_cells block) c)
       (\<lambda>(ring, s'). Ret (set_block s' b (block\<lparr>unused_cells := ring\<rparr>))))"

definition remove_used :: "secmem \<Rightarrow> nat \<Rightarrow> nat \<Rightarrow> secmem outcome" where
  "remove_used s b c =
     obind (get_block s b) (\<lambda>block. obind (sec_remove_cell_ring s (used_cells block) c)
       (\<lambda>(ring, s'). Ret (set_block s' b (block\<lparr>used_cells := ring\<rparr>))))"

definition remove_unused :: "secmem \<Rightarrow> nat \<Rightarrow> nat \<Rightarrow> secmem outcome" where
  "remove_unused s b c =
     obind (get_block s b) (\<lambda>block. obind (sec_remove_cell_ring s (unused_cells block) c)
       (\<lambda>(ring, s'). Ret (set_block s' b (block\<lparr>unused_cells := ring\<rparr>))))"

definition add_used_count :: "secmem \<Rightarrow> nat \<Rightarrow> (nat \<Rightarrow> nat) \<Rightarrow> secmem outcome" where
  "add_used_count s b f =
     obind (get_block s b) (\<lambda>block. Ret (set_block s b (block\<lparr>n_used := f (n_used block)\<rparr>)))"

definition upd_cell :: "secmem \<Rightarrow> nat \<Rightarrow> (Cell \<Rightarrow> Cell) \<Rightarrow> secmem outcome" where
  "upd_cell s c f = obind (get_cell s c) (\<lambda>cell. Ret (set_cell s c (f cell)))"

subsection \<open>Allocation\<close>

fun find_cell :: "nat \<Rightarrow> secmem \<Rightarrow> nat \<Rightarrow> nat \<Rightarrow> nat \<Rightarrow> nat outcome" where
  "find_cell fuel s start c n =
     (case fuel of
        0 \<Rightarrow> Undef
      | Suc fuel' \<Rightarrow>
          obind (get_cell s c) (\<lambda>cell.
            if n_words cell < n then
              (if next_cell cell = start then Ret 0 else find_cell fuel' s start (next_cell cell) n)
            else Ret c))"

declare find_cell.simps [simp del]

text \<open>A cell that is too long is split; the front part becomes the new cell.\<close>

definition split_cell :: "os \<Rightarrow> secmem \<Rightarrow> nat \<Rightarrow> nat \<Rightarrow> (nat \<times> secmem) outcome" where
  "split_cell env s c n =
     obind (get_cell s c) (\<lambda>cell.
       if n_words cell > n + WASTE then
         obind (pool_alloc env s) (\<lambda>(other, s1).
           if other = 0 then Ret (0, s1)
           else
             obind (upd_cell s1 other (\<lambda>o'. o'\<lparr>n_words := n, words := words cell\<rparr>)) (\<lambda>s2.
             obind (upd_cell s2 c (\<lambda>k. k\<lparr>n_words := n_words k - n, words := words k + n * SIZEOF_PTR\<rparr>)) (\<lambda>s3.
             obind (sec_write_guards s3 other) (\<lambda>s4.
             obind (sec_write_guards s4 c) (\<lambda>s5. Ret (other, s5))))))
       else Ret (c, s))"

definition use_cell :: "secmem \<Rightarrow> nat \<Rightarrow> nat \<Rightarrow> byte list \<Rightarrow> nat \<Rightarrow> (nat \<times> secmem) outcome" where
  "use_cell s b c tg len =
     obind (get_cell s c) (\<lambda>cell.
     obind (if next_cell cell \<noteq> 0 then remove_unused s b c else Ret s) (\<lambda>s1.
     obind (add_used_count s1 b Suc) (\<lambda>s2.
     obind (upd_cell s2 c (\<lambda>k. k\<lparr>tag := Some tg, requested := len\<rparr>)) (\<lambda>s3.
     obind (insert_used s3 b c) (\<lambda>s4.
     obind (get_cell s4 c) (\<lambda>cell'.
     let memory = sec_cell_to_memory cell' in
     obind (memwrite s4 memory (replicate len 0)) (\<lambda>s5. Ret (memory, s5))))))))"

definition sec_alloc :: "os \<Rightarrow> secmem \<Rightarrow> nat \<Rightarrow> byte list \<Rightarrow> nat \<Rightarrow> (nat \<times> secmem) outcome" where
  "sec_alloc env s b tg len =
     g_assert (b \<noteq> 0) (g_assert (len \<noteq> 0)
       (obind (get_block s b) (\<lambda>block.
         if unused_cells block = 0 then Ret (0, s)
         else
           let n = sec_size_to_words len + 2 in
           obind (find_cell (item_slots s) s (unused_cells block) (unused_cells block) n) (\<lambda>c.
             if c = 0 then Ret (0, s)
             else
               obind (get_cell s c) (\<lambda>cell.
               g_assert (tag cell = None) (g_assert (requested cell = 0)
                 (g_assert (prev_cell cell \<noteq> 0) (g_assert (words cell \<noteq> 0)
                   (obind (sec_check_guards s c) (\<lambda>_.
                    obind (split_cell env s c n) (\<lambda>(c', s1).
                      if c' = 0 then Ret (0, s1) else use_cell s1 b c' tg len)))))))))))"

subsection \<open>Release\<close>

definition live_cell :: "secmem \<Rightarrow> nat \<Rightarrow> nat \<Rightarrow> nat outcome" where
  "live_cell s b memory =
     g_assert (b \<noteq> 0) (g_assert (memory \<noteq> 0)
       (obind (get_block s b) (\<lambda>block.
         let word = memory - SIZEOF_PTR in
         g_assert (sec_is_valid_word block word)
           (obind (load_ptr s word) (\<lambda>c.
             g_assert (pool_valid s c)
               (obind (sec_check_guards s c) (\<lambda>_. Ret c)))))))"

definition merge_before :: "secmem \<Rightarrow> nat \<Rightarrow> nat \<Rightarrow> (nat \<times> secmem) outcome" where
  "merge_before s b c =
     obind (sec_neighbor_before s b c) (\<lambda>other.
       if other = 0 then Ret (c, s)
       else
         obind (get_cell s other) (\<lambda>o'.
           if requested o' \<noteq> 0 then Ret (c, s)
           else g_assert (tag o' = None) (g_assert (next_cell o' \<noteq> 0 \<and> prev_cell o' \<noteq> 0)
             (obind (get_cell s c) (\<lambda>cell.
              obind (upd_cell s other (\<lambda>k. k\<lparr>n_words := n_words k + n_words cell\<rparr>)) (\<lambda>s1.
              obind (sec_write_guards s1 other) (\<lambda>s2.
              obind (pool_free s2 c) (\<lambda>s3. Ret (other, s3)))))))))"

definition merge_after :: "secmem \<Rightarrow> nat \<Rightarrow> nat \<Rightarrow> (nat \<times> secmem) outcome" where
  "merge_after s b c =
     obind (sec_neighbor_after s b c) (\<lambda>other.
       if other = 0 then Ret (c, s)
       else
         obind (get_cell s other) (\<lambda>o'.
           if requested o' \<noteq> 0 then Ret (c, s)
           else g_assert (tag o' = None) (g_assert (next_cell o' \<noteq> 0 \<and> prev_cell o' \<noteq> 0)
             (obind (get_cell s c) (\<lambda>cell.
              obind (upd_cell s other (\<lambda>k. k\<lparr>n_words := n_words k + n_words cell, words := words cell\<rparr>)) (\<lambda>s1.
              obind (if next_cell cell \<noteq> 0 then remove_unused s1 b c else Ret s1) (\<lambda>s2.
              obind (sec_write_guards s2 other) (\<lambda>s3.
              obind (pool_free s3 c) (\<lambda>s4. Ret (other, s4))))))))))"

definition sec_free :: "secmem \<Rightarrow> nat \<Rightarrow> nat \<Rightarrow> secmem outcome" where
  "sec_free s b memory =
     obind (live_cell s b memory) (\<lambda>c.
     obind (get_cell s c) (\<lambda>cell.
     obind (sec_clear s memory 0 (requested cell)) (\<lambda>s1.
     obind (sec_check_guards s1 c) (\<lambda>_.
     g_assert (requested cell > 0) (g_assert (tag cell \<noteq> None)
       (obind (remove_used s1 b c) (\<lambda>s2.
        obind (merge_before s2 b c) (\<lambda>(c1, s3).
        obind (merge_after s3 b c1) (\<lambda>(c2, s4).
        obind (get_cell s4 c2) (\<lambda>cell2.
        obind (if next_cell cell2 = 0 then insert_unused s4 b c2 else Ret s4) (\<lambda>s5.
        obind (upd_cell s5 c2 (\<lambda>k. k\<lparr>tag := None, requested := 0\<rparr>)) (\<lambda>s6.
        add_used_count s6 b (\<lambda>n. n - 1)))))))))))))"

subsection \<open>Reallocation\<close>

fun grow_cell :: "nat \<Rightarrow> secmem \<Rightarrow> nat \<Rightarrow> nat \<Rightarrow> nat \<Rightarrow> secmem outcome" where
  "grow_cell fuel s b c n =
     (case fuel of
        0 \<Rightarrow> Undef
      | Suc fuel' \<Rightarrow>
          obind (get_cell s c) (\<lambda>cell.
            if n_words cell < n then
              obind (sec_neighbor_after s b c) (\<lambda>other.
                if other = 0 then Ret s
                else obind (get_cell s other) (\<lambda>o'.
                  if requested o' \<noteq> 0 then Ret s
                  else
                    obind
                      (if n - n_words cell + WASTE \<ge> n_words o' then
                         obind (upd_cell s c (\<lambda>k. k\<lparr>n_words := n_words k + n_words o'\<rparr>)) (\<lambda>s1.
                         obind (sec_write_guards s1 c) (\<lambda>s2.
                         obind (remove_unused s2 b other) (\<lambda>s3. pool_free s3 other)))
                       else
                         obind (upd_cell s other (\<lambda>k. k\<lparr>words := words k + (n - n_words cell) * SIZEOF_PTR,
                             n_words := n_words k - (n - n_words cell)\<rparr>)) (\<lambda>s1.
                         obind (sec_write_guards s1 other) (\<lambda>s2.
                         obind (upd_cell s2 c (\<lambda>k. k\<lparr>n_words := n\<rparr>)) (\<lambda>s3. sec_write_guards s3 c))))
                      (\<lambda>s'. grow_cell fuel' s' b c n)))
            else Ret s))"

declare grow_cell.simps [simp del]

definition sec_realloc ::
  "os \<Rightarrow> secmem \<Rightarrow> nat \<Rightarrow> byte list \<Rightarrow> nat \<Rightarrow> nat \<Rightarrow> (nat \<times> secmem) outcome" where
  "sec_realloc env s b tg memory len =
     g_assert (memory \<noteq> 0) (g_assert (len > 0)
       (obind (live_cell s b memory) (\<lambda>c.
        obind (get_cell s c) (\<lambda>cell.
        g_assert (requested cell > 0) (g_assert (tag cell \<noteq> None)
          (let valid = requested cell; n = sec_size_to_words len + 2 in
           if n \<le> n_words cell then
             let s1 = set_cell s c (cell\<lparr>requested := len\<rparr>); alloc = sec_cell_to_memory cell in
             if len < valid then obind (sec_clear s1 alloc len valid) (\<lambda>s2. Ret (alloc, s2))
             else Ret (alloc, s1)
           else
             obind (grow_cell (Suc (item_slots s)) s b c n) (\<lambda>s1.
             obind (get_cell s1 c) (\<lambda>cell1.
               if n_words cell1 \<ge> n then
                 let s2 = set_cell s1 c (cell1\<lparr>requested := len, tag := Some tg\<rparr>);
                     alloc = sec_cell_to_memory cell1 in
                 obind (sec_clear s2 alloc valid len) (\<lambda>s3. Ret (alloc, s3))
               else
                 obind (sec_alloc env s1 b tg len) (\<lambda>(alloc, s2).
                   if alloc = 0 then Ret (0, s2)
                   else
                     obind (memread s2 memory valid) (\<lambda>bs.
                     obind (memwrite s2 alloc bs) (\<lambda>s3.
                     obind (sec_free s3 b memory) (\<lambda>s4. Ret (alloc, s4)))))))))))))"

definition sec_allocated :: "secmem \<Rightarrow> nat \<Rightarrow> nat \<Rightarrow> nat outcome" where
  "sec_allocated s b memory =
     obind (live_cell s b memory) (\<lambda>c.
     obind (get_cell s c) (\<lambda>cell.
     g_assert (requested cell > 0) (g_assert (tag cell \<noteq> None) (Ret (requested cell)))))"

subsection \<open>Validation\<close>

definition linked_cell :: "secmem \<Rightarrow> nat \<Rightarrow> Cell \<Rightarrow> unit outcome" where
  "linked_cell s c cell =
     g_assert (next_cell cell \<noteq> 0) (g_assert (prev_cell cell \<noteq> 0)
       (obind (get_cell s (next_cell cell)) (\<lambda>after. g_assert (prev_cell after = c)
         (obind (get_cell s (prev_cell cell)) (\<lambda>prior. g_assert (next_cell prior = c) (Ret ()))))))"

fun validate_words :: "nat \<Rightarrow> secmem \<Rightarrow> Block \<Rightarrow> nat \<Rightarrow> unit outcome" where
  "validate_words fuel s block word =
     (case fuel of
        0 \<Rightarrow> Undef
      | Suc fuel' \<Rightarrow>
          let last = block_words block + block_n_words block * SIZEOF_PTR in
          g_assert (word < last) (g_assert (sec_is_valid_word block word)
            (obind (load_ptr s word) (\<lambda>c.
             g_assert (pool_valid s c)
              (obind (sec_check_guards s c) (\<lambda>_.
               obind (get_cell s c) (\<lambda>cell.
               obind
                 (if requested cell > 0 then
                    g_assert (tag cell \<noteq> None) (obind (linked_cell s c cell) (\<lambda>_.
                      g_assert (requested cell \<le> (n_words cell - 2) * SIZEOF_PTR) (Ret ())))
                  else g_assert (tag cell = None) (linked_cell s c cell))
                 (\<lambda>_. let word' = word + n_words cell * SIZEOF_PTR in
                   if word' = last then Ret () else validate_words fuel' s block word'))))))))"

declare validate_words.simps [simp del]

definition sec_validate :: "secmem \<Rightarrow> nat \<Rightarrow> unit outcome" where
  "sec_validate s b =
     obind (get_block s b) (\<lambda>block. validate_words (Suc (item_slots s)) s block (block_words block))"

section \<open>The layout of a block\<close>

text \<open>
  The cells of a block lie side by side.  A layout lists them with their contents (without the links);
  \<open>tiles\<close> says that it describes the memory from \<open>a\<close> to \<open>e\<close>, guards included.
\<close>

fun tiles :: "(nat \<rightharpoonup> byte) \<Rightarrow> (nat \<rightharpoonup> Item) \<Rightarrow> nat \<Rightarrow> (nat \<times> Cell) list \<Rightarrow> nat \<Rightarrow> bool" where
  "tiles m its a [] e \<longleftrightarrow> a = e"
| "tiles m its a ((c, k) # L) e \<longleftrightarrow>
     core_at its c = Some k \<and> words k = a \<and> 2 \<le> n_words k \<and>
     ptr_at m a c \<and> ptr_at m (a + (n_words k - 1) * 8) c \<and> tiles m its (a + n_words k * 8) L e"

lemma tiles_append: "tiles m its a (xs @ ys) e \<longleftrightarrow> (\<exists>b. tiles m its a xs b \<and> tiles m its b ys e)"
  by (induction m its a xs e rule: tiles.induct) auto

lemma tiles_le: "tiles m its a L e \<Longrightarrow> a \<le> e"
  by (induction m its a L e rule: tiles.induct) auto

lemma tiles_cell:
  assumes "tiles m its a L e" and "(c, k) \<in> set L"
  shows "core_at its c = Some k" "2 \<le> n_words k" "a \<le> words k" "words k + n_words k * 8 \<le> e"
    "ptr_at m (words k) c" "ptr_at m (words k + (n_words k - 1) * 8) c"
proof -
  obtain xs ys where "L = xs @ (c, k) # ys" using assms(2) by (meson split_list)
  then obtain b where "tiles m its a xs b" "tiles m its b ((c, k) # ys) e" using assms(1) by (auto simp: tiles_append)
  then show "core_at its c = Some k" "2 \<le> n_words k" "a \<le> words k" "words k + n_words k * 8 \<le> e"
    "ptr_at m (words k) c" "ptr_at m (words k + (n_words k - 1) * 8) c"
    by (auto dest!: tiles_le)
qed

lemma tiles_frame:
  assumes "tiles m its a L e" and "\<And>c. c \<in> fst ` set L \<Longrightarrow> core_at its' c = core_at its c"
    and "\<And>i. a \<le> i \<Longrightarrow> i < e \<Longrightarrow> m' i = m i"
  shows "tiles m' its' a L e"
  using assms
proof (induction m its a L e rule: tiles.induct)
  case (2 m its a c k L e)
  have le: "a + n_words k * 8 \<le> e" "2 \<le> n_words k" using 2(2) by (auto dest: tiles_le)
  have t: "tiles m' its' (a + n_words k * 8) L e"
  proof (rule 2(1))
    show "m' i = m i" if "a + n_words k * 8 \<le> i" "i < e" for i using 2(4) that by simp
  qed (use 2(2,3) in auto)
  have g: "ptr_at m' a c" "ptr_at m' (a + (n_words k - 1) * 8) c"
  proof -
    show "ptr_at m' a c" by (rule ptr_at_frame [of m]) (use 2(2,4) le in auto)
    show "ptr_at m' (a + (n_words k - 1) * 8) c" by (rule ptr_at_frame [of m]) (use 2(2,4) le in auto)
  qed
  with t 2(2,3) show ?case by auto
qed simp

text \<open>Replacing the cells between two addresses.\<close>

lemma tiles_replace:
  assumes "tiles m its a (xs @ mid @ ys) e" and "tiles m its u mid v" and "mid \<noteq> []"
    and "tiles m' its' u mid' v"
    and "\<And>c. c \<in> fst ` set (xs @ ys) \<Longrightarrow> core_at its' c = core_at its c"
    and "\<And>i. \<not> (u \<le> i \<and> i < v) \<Longrightarrow> m' i = m i"
  shows "tiles m' its' a (xs @ mid' @ ys) e"
proof -
  obtain b d where t: "tiles m its a xs b" "tiles m its b mid d" "tiles m its d ys e"
    using assms(1) by (auto simp: tiles_append)
  have start: "words (snd (hd mid)) = w" if "tiles m its w mid z" for w z
    using that assms(3) by (cases mid) auto
  have "b = u" using start [OF t(2)] start [OF assms(2)] by simp
  have fin: "z = z'" if "tiles m its w l z" "tiles m its w l z'" for w l z z'
    using that by (induction m its w l z rule: tiles.induct) auto
  have "d = v" using fin [of u mid d v] t(2) assms(2) \<open>b = u\<close> by simp
  have "tiles m' its' a xs u"
  proof (rule tiles_frame)
    show "tiles m its a xs u" using t(1) \<open>b = u\<close> by simp
    show "core_at its' c = core_at its c" if "c \<in> fst ` set xs" for c using that assms(5) by auto
    show "m' i = m i" if "i < u" for i using that assms(6) by simp
  qed
  moreover have "tiles m' its' v ys e"
  proof (rule tiles_frame)
    show "tiles m its v ys e" using t(3) \<open>d = v\<close> by simp
    show "core_at its' c = core_at its c" if "c \<in> fst ` set ys" for c using that assms(5) by auto
    show "m' i = m i" if "v \<le> i" for i using that assms(6) by simp
  qed
  ultimately show ?thesis using assms(4) by (auto simp: tiles_append)
qed

lemma tiles_mid: "tiles m its a (xs @ mid @ ys) e \<Longrightarrow> \<exists>u v. tiles m its u mid v \<and> a \<le> u \<and> v \<le> e"
  by (auto simp: tiles_append dest: tiles_le)

lemma tiles_distinct: "tiles m its a L e \<Longrightarrow> distinct (map fst L)"
proof (induction L arbitrary: a)
  case (Cons ck L)
  obtain c k where ck: "ck = (c, k)" by (cases ck)
  have t: "tiles m its (a + n_words k * 8) L e" "core_at its c = Some k" "words k = a" "2 \<le> n_words k"
    using Cons.prems ck by auto
  have "c \<notin> fst ` set L"
  proof
    assume "c \<in> fst ` set L"
    then obtain k' where "(c, k') \<in> set L" by auto
    from tiles_cell [OF t(1) this] t show False by auto
  qed
  with Cons.IH [OF t(1)] ck show ?case by simp
qed simp

text \<open>Two different cells do not overlap.\<close>

lemma tiles_disjoint:
  assumes "tiles m its a L e" and "(c, k) \<in> set L" and "(c', k') \<in> set L" and "c \<noteq> c'"
  shows "words k + n_words k * 8 \<le> words k' \<or> words k' + n_words k' * 8 \<le> words k"
proof -
  obtain xs ys where L: "L = xs @ (c, k) # ys" using assms(2) by (meson split_list)
  then obtain b where t: "tiles m its a xs b" "words k = b" "tiles m its (b + n_words k * 8) ys e"
    using assms(1) by (auto simp: tiles_append)
  from assms(3,4) L consider "(c', k') \<in> set xs" | "(c', k') \<in> set ys" by auto
  then show ?thesis
  proof cases
    case 1
    from tiles_cell(4) [OF t(1) this] t(2) show ?thesis by auto
  next
    case 2
    from tiles_cell(3) [OF t(3) this] t(2) show ?thesis by auto
  qed
qed

section \<open>Guards\<close>

lemma check_guards_ok:
  assumes "core_at (items s) c = Some k" and "ptr_at (mem s) (words k) c"
    and "ptr_at (mem s) (words k + (n_words k - 1) * 8) c" and "c < 2 ^ 64"
  shows "sec_check_guards s c = Ret ()"
  using assms by (auto simp: sec_check_guards_def cell_at_get load_ptr_at dest!: core_at_SomeD)

lemma write_guards_ok:
  assumes "cell_at (items s) c = Some k" and "2 \<le> n_words k" and "mapped s (words k) (n_words k * 8)"
  shows "\<exists>m'. sec_write_guards s c = Ret (s\<lparr>mem := m'\<rparr>) \<and> ptr_at m' (words k) c \<and>
     ptr_at m' (words k + (n_words k - 1) * 8) c \<and> dom m' = dom (mem s) \<and>
     (\<forall>i. \<not> (words k \<le> i \<and> i < words k + 8) \<longrightarrow>
        \<not> (words k + (n_words k - 1) * 8 \<le> i \<and> i < words k + n_words k * 8) \<longrightarrow> m' i = mem s i)"
proof -
  let ?a = "words k" and ?z = "words k + (n_words k - 1) * 8"
  let ?m1 = "write_octets (mem s) ?a (ptr_octets 8 c)"
  let ?m2 = "write_octets ?m1 ?z (ptr_octets 8 c)"
  have z: "?a + 8 \<le> ?z" "?z + 8 = ?a + n_words k * 8" using assms(2) by auto
  have m: "mapped s ?a 8" "mapped s ?z 8" using assms(3) z by (auto intro: mapped_sub)
  have d1: "dom ?m1 = dom (mem s)" using m(1) by (intro write_octets_mapped) (auto simp: mapped_iff)
  have m1: "mapped (s\<lparr>mem := ?m1\<rparr>) ?z 8" using m(2) d1 by (auto simp: mapped_iff dom_def set_eq_iff)
  have d2: "dom ?m2 = dom (mem s)" using m1 d1 by (subst write_octets_mapped) (auto simp: mapped_iff)
  have "sec_write_guards s c = Ret (s\<lparr>mem := ?m2\<rparr>)"
    using m(1) m1 cell_at_get [OF assms(1)] by (simp add: sec_write_guards_def store_ptr_mapped)
  moreover have "ptr_at ?m2 ?a c"
    by (rule ptr_at_frame [OF ptr_at_stored]) (use z in \<open>auto simp: write_octets_def\<close>)
  moreover have "ptr_at ?m2 ?z c" by (rule ptr_at_stored)
  moreover have "\<forall>i. \<not> (?a \<le> i \<and> i < ?a + 8) \<longrightarrow> \<not> (?z \<le> i \<and> i < ?a + n_words k * 8) \<longrightarrow> ?m2 i = mem s i"
    using z by (auto simp: write_octets_def)
  ultimately show ?thesis using d2 by blast
qed

section \<open>A block and its rings\<close>

text \<open>
  \<open>block_rep\<close> ties a block to its layout \<open>L\<close> and to the lists of its two rings; it also
  holds between the steps of an operation.  \<open>block_good\<close> holds between operations: the rings
  are the used and the unused cells of the layout.
\<close>

definition in_block :: "Block \<Rightarrow> nat \<Rightarrow> bool" where
  "in_block blk i \<longleftrightarrow> block_words blk \<le> i \<and> i < block_words blk + block_n_words blk * 8"

definition block_rep :: "secmem \<Rightarrow> nat \<Rightarrow> Block \<Rightarrow> (nat \<times> Cell) list \<Rightarrow> nat list \<Rightarrow> nat list \<Rightarrow> bool" where
  "block_rep s b blk L us fs \<longleftrightarrow>
     items s b = Some (ItemBlock blk) \<and> 0 < block_words blk \<and>
     tiles (mem s) (items s) (block_words blk) L (block_words blk + block_n_words blk * 8) \<and>
     (\<forall>i. in_block blk i \<longrightarrow> mem s i \<noteq> None) \<and>
     ring (items s) (used_cells blk) us \<and> ring (items s) (unused_cells blk) fs \<and>
     set us \<inter> set fs = {} \<and> set us \<union> set fs \<subseteq> fst ` set L"

definition cell_good :: "Cell \<Rightarrow> bool" where
  "cell_good k \<longleftrightarrow>
     (if requested k = 0 then tag k = None else tag k \<noteq> None \<and> requested k \<le> (n_words k - 2) * 8)"

definition coherent :: "(nat \<times> Cell) list \<Rightarrow> nat set \<Rightarrow> nat set \<Rightarrow> bool" where
  "coherent L U F \<longleftrightarrow>
     list_all (\<lambda>(c, k). cell_good k \<and> (if requested k = 0 then c \<in> F \<and> c \<notin> U else c \<in> U \<and> c \<notin> F)) L"

definition block_good :: "secmem \<Rightarrow> nat \<Rightarrow> Block \<Rightarrow> (nat \<times> Cell) list \<Rightarrow> nat list \<Rightarrow> nat list \<Rightarrow> bool" where
  "block_good s b blk L us fs \<longleftrightarrow>
     block_rep s b blk L us fs \<and> coherent L (set us) (set fs) \<and> n_used blk = length us"

lemma coherent_append: "coherent (xs @ ys) U F \<longleftrightarrow> coherent xs U F \<and> coherent ys U F"
  by (simp add: coherent_def)

lemma coherent_Cons: "coherent ((c, k) # L) U F \<longleftrightarrow>
    cell_good k \<and> (if requested k = 0 then c \<in> F \<and> c \<notin> U else c \<in> U \<and> c \<notin> F) \<and> coherent L U F"
  by (simp add: coherent_def)

lemma coherent_cong:
  assumes "coherent L U F" and "\<And>c. c \<in> fst ` set L \<Longrightarrow> (c \<in> U' \<longleftrightarrow> c \<in> U) \<and> (c \<in> F' \<longleftrightarrow> c \<in> F)"
  shows "coherent L U' F'"
  using assms by (induction L) (auto simp: coherent_Cons simp: coherent_def)

lemma set_block_items [simp]: "items (set_block s b blk) = (items s)(b \<mapsto> ItemBlock blk)"
  "mem (set_block s b blk) = mem s" "pool_data (set_block s b blk) = pool_data s"
  "all_blocks (set_block s b blk) = all_blocks s"
  by (simp_all add: set_block_def)

lemma core_at_upd [simp]:
  "core_at (its(b \<mapsto> ItemBlock blk)) x = (if x = b then None else core_at its x)"
  "core_at (its(c \<mapsto> ItemCell k)) x = (if x = c then Some (core k) else core_at its x)"
  "core_at (its(c \<mapsto> Zeroed)) x = (if x = c then None else core_at its x)"
  "core_at (its(c := None)) x = (if x = c then None else core_at its x)"
  by (simp_all add: core_at_def)

lemma link_upd [simp]:
  "next_at (its(b \<mapsto> ItemBlock blk)) x = (if x = b then 0 else next_at its x)"
  "prev_at (its(b \<mapsto> ItemBlock blk)) x = (if x = b then 0 else prev_at its x)"
  "next_at (its(c \<mapsto> ItemCell k)) x = (if x = c then next_cell k else next_at its x)"
  "prev_at (its(c \<mapsto> ItemCell k)) x = (if x = c then prev_cell k else prev_at its x)"
  "next_at (its(c := None)) x = (if x = c then 0 else next_at its x)"
  "prev_at (its(c := None)) x = (if x = c then 0 else prev_at its x)"
  "next_at (its(c \<mapsto> Zeroed)) x = (if x = c then 0 else next_at its x)"
  "prev_at (its(c \<mapsto> Zeroed)) x = (if x = c then 0 else prev_at its x)"
  by (simp_all add: next_at_def prev_at_def)

lemma block_rep_get:
  assumes "block_rep s b blk L us fs"
  shows "get_block s b = Ret blk" "items s b = Some (ItemBlock blk)" "cell_at (items s) b = None"
    "core_at (items s) b = None" "b \<notin> fst ` set L" "b \<notin> set us" "b \<notin> set fs"
proof -
  show i: "items s b = Some (ItemBlock blk)" using assms by (simp add: block_rep_def)
  then show "get_block s b = Ret blk" "cell_at (items s) b = None" "core_at (items s) b = None"
    by (simp_all add: get_block_def block_of_def cell_at_def core_at_def)
  have "core_at (items s) c \<noteq> None" if "c \<in> fst ` set L" for c
  proof -
    from that obtain k where "(c, k) \<in> set L" by auto
    with assms show ?thesis by (auto simp: block_rep_def dest: tiles_cell(1))
  qed
  with \<open>core_at (items s) b = None\<close> show "b \<notin> fst ` set L" by blast
  then show "b \<notin> set us" "b \<notin> set fs" using assms by (auto simp: block_rep_def)
qed

lemma block_rep_cell:
  assumes "block_rep s b blk L us fs" and "(c, k) \<in> set L"
  shows "core_at (items s) c = Some k" "c \<in> dom (items s)" "\<exists>k'. cell_at (items s) c = Some k' \<and> core k' = k"
    "2 \<le> n_words k" "in_block blk (words k)" "words k + n_words k * 8 \<le> block_words blk + block_n_words blk * 8"
    "mapped s (words k) (n_words k * 8)"
proof -
  have t: "tiles (mem s) (items s) (block_words blk) L (block_words blk + block_n_words blk * 8)"
    using assms(1) by (simp add: block_rep_def)
  note c = tiles_cell [OF t assms(2)]
  show "core_at (items s) c = Some k" "2 \<le> n_words k" "in_block blk (words k)"
    "words k + n_words k * 8 \<le> block_words blk + block_n_words blk * 8"
    using c by (auto simp: in_block_def)
  then show "\<exists>k'. cell_at (items s) c = Some k' \<and> core k' = k" by (auto dest: core_at_SomeD)
  then show "c \<in> dom (items s)" by (auto dest: cell_at_dom)
  show "mapped s (words k) (n_words k * 8)"
    using assms(1) c(3,4) by (auto simp: block_rep_def mapped_iff in_block_def)
qed

text \<open>Changing the cells of a block while the links of the rings stay.\<close>

lemma block_rep_change:
  assumes "block_rep s b blk L us fs" and "items s' b = Some (ItemBlock blk')"
    and "block_words blk' = block_words blk" "block_n_words blk' = block_n_words blk"
    and "used_cells blk' = used_cells blk" "unused_cells blk' = unused_cells blk"
    and "tiles (mem s') (items s') (block_words blk) L' (block_words blk + block_n_words blk * 8)"
    and "dom (mem s') = dom (mem s)"
    and "\<And>x. x \<in> set us \<union> set fs \<Longrightarrow> next_at (items s') x = next_at (items s) x \<and> prev_at (items s') x = prev_at (items s) x"
    and "set us \<union> set fs \<subseteq> fst ` set L'"
  shows "block_rep s' b blk' L' us fs"
proof -
  have cells: "cell_at (items s') x \<noteq> None" if "x \<in> set us \<union> set fs" for x
  proof -
    from that assms(10) obtain k where "(x, k) \<in> set L'" by auto
    from tiles_cell(1) [OF assms(7) this] show ?thesis by (auto simp: core_at_def)
  qed
  have "ring (items s') (used_cells blk) us" "ring (items s') (unused_cells blk) fs"
    using assms(1,9) cells by (auto simp: block_rep_def intro: ring_frame)
  moreover have "mem s' i \<noteq> None" if "in_block blk i" for i
    using assms(1,8) that by (metis block_rep_def domIff)
  ultimately show ?thesis using assms by (auto simp: block_rep_def in_block_def)
qed

subsection \<open>Ring operations on a block\<close>

definition linkstep :: "nat \<Rightarrow> nat set \<Rightarrow> secmem \<Rightarrow> secmem \<Rightarrow> bool" where
  "linkstep b A s s' \<longleftrightarrow> mem s' = mem s \<and> pool_data s' = pool_data s \<and> all_blocks s' = all_blocks s \<and>
     dom (items s') = dom (items s) \<and> (\<forall>x. x \<notin> insert b A \<longrightarrow> items s' x = items s x) \<and>
     (\<forall>x. core_at (items s') x = core_at (items s) x)"

lemma linkstepI:
  assumes "relinked A s s1" and "items s b = Some (ItemBlock blk)" and "b \<notin> A"
  shows "linkstep b A s (set_block s1 b blk')"
  using relinkedD [OF assms(1)] assms(2,3)
  by (auto simp: linkstep_def core_at_def cell_at_def)

lemma linkstep_tiles:
  assumes "linkstep b A s s'" and "tiles (mem s) (items s) a L e"
  shows "tiles (mem s') (items s') a L e"
  using assms by (intro tiles_frame [OF assms(2)]) (auto simp: linkstep_def)

lemma ring_disjoint_relinked:
  assumes "ring (items s) r xs" and "relinked A s s1" and "set xs \<inter> A = {}" and "b \<notin> set xs"
  shows "ring ((items s1)(b \<mapsto> ItemBlock blk')) r xs"
proof -
  have "cell_at (items s1) x = cell_at (items s) x" if "x \<in> set xs" for x
  proof -
    have "items s1 x = items s x" using relinkedD(5) [OF assms(2), of x] assms(3) that by blast
    then show ?thesis by (simp add: cell_at_def)
  qed
  with assms(1,4) show ?thesis by (intro ring_frame [OF assms(1)]) (auto simp: next_at_def prev_at_def ring_def)
qed

lemma ring_set_block: "ring its r xs \<Longrightarrow> b \<notin> set xs \<Longrightarrow> ring (its(b \<mapsto> ItemBlock blk)) r xs"
  by (rule ring_frame) (auto simp: ring_def)

lemma links_zero:
  assumes "cell_at its c = Some k"
  shows "next_at its c = next_cell k" "prev_at its c = prev_cell k"
  using assms by (simp_all add: next_at_def prev_at_def)

lemma insert_used_rep:
  assumes rep: "block_rep s b blk L us fs" and c: "c \<in> fst ` set L" "c \<notin> set us" "c \<notin> set fs" "c \<noteq> 0"
    and z: "next_at (items s) c = 0" "prev_at (items s) c = 0"
  shows "\<exists>s' us' r. insert_used s b c = Ret s' \<and> block_rep s' b (blk\<lparr>used_cells := r\<rparr>) L us' fs \<and>
     set us' = insert c (set us) \<and> length us' = Suc (length us) \<and> linkstep b (insert c (set us)) s s'"
proof -
  obtain k where "(c, k) \<in> set L" using c(1) by auto
  then obtain k' where k: "cell_at (items s) c = Some k'" using block_rep_cell(3) [OF rep] by blast
  have r: "ring (items s) (used_cells blk) us" "ring (items s) (unused_cells blk) fs" using rep by (auto simp: block_rep_def)
  from insert_ring [OF r(1) c(2,4) k] z links_zero [OF k] obtain s1 us' where
    i: "sec_insert_cell_ring s (used_cells blk) c = Ret (c, s1)" "ring (items s1) c us'" "set us' = insert c (set us)"
      "length us' = Suc (length us)" "relinked (insert c (set us)) s s1" by auto
  let ?blk = "blk\<lparr>used_cells := c\<rparr>" and ?s = "set_block s1 b (blk\<lparr>used_cells := c\<rparr>)"
  note b = block_rep_get [OF rep]
  have ls: "linkstep b (insert c (set us)) s ?s" by (rule linkstepI [OF i(5)]) (use b c(1) in auto)
  have t: "tiles (mem ?s) (items ?s) (block_words blk) L (block_words blk + block_n_words blk * 8)"
    by (rule linkstep_tiles [OF ls]) (use rep in \<open>simp add: block_rep_def\<close>)
  have "ring (items ?s) (used_cells ?blk) us'"
    using ring_set_block [OF i(2), of b] b(5,6) c(1) i(3) by auto
  moreover have "ring (items ?s) (unused_cells ?blk) fs"
    using ring_disjoint_relinked [OF r(2) i(5), of b] rep b(7) c(3) by (auto simp: block_rep_def)
  ultimately have "block_rep ?s b ?blk L us' fs"
    using t rep i(3) c ls by (auto simp: block_rep_def linkstep_def in_block_def)
  with i ls b(1) show ?thesis by (intro exI [of _ ?s]) (auto simp: insert_used_def)
qed

lemma insert_unused_rep:
  assumes rep: "block_rep s b blk L us fs" and c: "c \<in> fst ` set L" "c \<notin> set us" "c \<notin> set fs" "c \<noteq> 0"
    and z: "next_at (items s) c = 0" "prev_at (items s) c = 0"
  shows "\<exists>s' fs' r. insert_unused s b c = Ret s' \<and> block_rep s' b (blk\<lparr>unused_cells := r\<rparr>) L us fs' \<and>
     set fs' = insert c (set fs) \<and> linkstep b (insert c (set fs)) s s'"
proof -
  obtain k where "(c, k) \<in> set L" using c(1) by auto
  then obtain k' where k: "cell_at (items s) c = Some k'" using block_rep_cell(3) [OF rep] by blast
  have r: "ring (items s) (used_cells blk) us" "ring (items s) (unused_cells blk) fs" using rep by (auto simp: block_rep_def)
  from insert_ring [OF r(2) c(3,4) k] z links_zero [OF k] obtain s1 fs' where
    i: "sec_insert_cell_ring s (unused_cells blk) c = Ret (c, s1)" "ring (items s1) c fs'" "set fs' = insert c (set fs)"
      "relinked (insert c (set fs)) s s1" by auto
  let ?blk = "blk\<lparr>unused_cells := c\<rparr>" and ?s = "set_block s1 b (blk\<lparr>unused_cells := c\<rparr>)"
  note b = block_rep_get [OF rep]
  have ls: "linkstep b (insert c (set fs)) s ?s" by (rule linkstepI [OF i(4)]) (use b c(1) in auto)
  have t: "tiles (mem ?s) (items ?s) (block_words blk) L (block_words blk + block_n_words blk * 8)"
    by (rule linkstep_tiles [OF ls]) (use rep in \<open>simp add: block_rep_def\<close>)
  have "ring (items ?s) (unused_cells ?blk) fs'"
    using ring_set_block [OF i(2), of b] b(5,7) c(1) i(3) by auto
  moreover have "ring (items ?s) (used_cells ?blk) us"
    using ring_disjoint_relinked [OF r(1) i(4), of b] rep b(6) c(2) by (auto simp: block_rep_def)
  ultimately have "block_rep ?s b ?blk L us fs'"
    using t rep i(3) c ls by (auto simp: block_rep_def linkstep_def in_block_def)
  with i ls b(1) show ?thesis by (intro exI [of _ ?s]) (auto simp: insert_unused_def)
qed

lemma remove_used_rep:
  assumes rep: "block_rep s b blk L us fs" and c: "c \<in> set us"
  shows "\<exists>s' us' r. remove_used s b c = Ret s' \<and> block_rep s' b (blk\<lparr>used_cells := r\<rparr>) L us' fs \<and>
     set us' = set us - {c} \<and> Suc (length us') = length us \<and> linkstep b (set us) s s' \<and>
     next_at (items s') c = 0 \<and> prev_at (items s') c = 0"
proof -
  have r: "ring (items s) (used_cells blk) us" "ring (items s) (unused_cells blk) fs" using rep by (auto simp: block_rep_def)
  from remove_ring [OF r(1) c] obtain r' s1 us' k where
    i: "sec_remove_cell_ring s (used_cells blk) c = Ret (r', s1)" "ring (items s1) r' us'" "set us' = set us - {c}"
      "Suc (length us') = length us" "relinked (set us) s s1" "cell_at (items s1) c = Some k" "next_cell k = 0" "prev_cell k = 0"
    by blast
  let ?blk = "blk\<lparr>used_cells := r'\<rparr>" and ?s = "set_block s1 b (blk\<lparr>used_cells := r'\<rparr>)"
  note b = block_rep_get [OF rep]
  have ls: "linkstep b (set us) s ?s" by (rule linkstepI [OF i(5)]) (use b in auto)
  have t: "tiles (mem ?s) (items ?s) (block_words blk) L (block_words blk + block_n_words blk * 8)"
    by (rule linkstep_tiles [OF ls]) (use rep in \<open>simp add: block_rep_def\<close>)
  have "ring (items ?s) (used_cells ?blk) us'" using ring_set_block [OF i(2), of b] b(6) i(3) by auto
  moreover have "ring (items ?s) (unused_cells ?blk) fs"
    using ring_disjoint_relinked [OF r(2) i(5), of b] rep b(7) by (auto simp: block_rep_def)
  ultimately have "block_rep ?s b ?blk L us' fs"
    using t rep i(3) ls by (auto simp: block_rep_def linkstep_def in_block_def)
  moreover have "b \<noteq> c" using c b(6) by auto
  ultimately show ?thesis using i ls b(1) links_zero [OF i(6)]
    by (intro exI [of _ ?s] exI [of _ us'] exI [of _ r']) (auto simp: remove_used_def)
qed

lemma remove_unused_rep:
  assumes rep: "block_rep s b blk L us fs" and c: "c \<in> set fs"
  shows "\<exists>s' fs' r. remove_unused s b c = Ret s' \<and> block_rep s' b (blk\<lparr>unused_cells := r\<rparr>) L us fs' \<and>
     set fs' = set fs - {c} \<and> Suc (length fs') = length fs \<and> linkstep b (set fs) s s' \<and>
     next_at (items s') c = 0 \<and> prev_at (items s') c = 0"
proof -
  have r: "ring (items s) (used_cells blk) us" "ring (items s) (unused_cells blk) fs" using rep by (auto simp: block_rep_def)
  from remove_ring [OF r(2) c] obtain r' s1 fs' k where
    i: "sec_remove_cell_ring s (unused_cells blk) c = Ret (r', s1)" "ring (items s1) r' fs'" "set fs' = set fs - {c}"
      "Suc (length fs') = length fs" "relinked (set fs) s s1" "cell_at (items s1) c = Some k" "next_cell k = 0" "prev_cell k = 0"
    by blast
  let ?blk = "blk\<lparr>unused_cells := r'\<rparr>" and ?s = "set_block s1 b (blk\<lparr>unused_cells := r'\<rparr>)"
  note b = block_rep_get [OF rep]
  have ls: "linkstep b (set fs) s ?s" by (rule linkstepI [OF i(5)]) (use b in auto)
  have t: "tiles (mem ?s) (items ?s) (block_words blk) L (block_words blk + block_n_words blk * 8)"
    by (rule linkstep_tiles [OF ls]) (use rep in \<open>simp add: block_rep_def\<close>)
  have "ring (items ?s) (unused_cells ?blk) fs'" using ring_set_block [OF i(2), of b] b(7) i(3) by auto
  moreover have "ring (items ?s) (used_cells ?blk) us"
    using ring_disjoint_relinked [OF r(1) i(5), of b] rep b(6) by (auto simp: block_rep_def)
  ultimately have "block_rep ?s b ?blk L us fs'"
    using t rep i(3) ls by (auto simp: block_rep_def linkstep_def in_block_def)
  moreover have "b \<noteq> c" using c b(7) by auto
  ultimately show ?thesis using i ls b(1) links_zero [OF i(6)]
    by (intro exI [of _ ?s] exI [of _ fs'] exI [of _ r']) (auto simp: remove_unused_def)
qed

section \<open>Steps inside of a block\<close>

text \<open>
  What an operation on a block leaves alone: the memory and the items of everything else.
\<close>

definition confined :: "nat \<Rightarrow> Block \<Rightarrow> nat set \<Rightarrow> secmem \<Rightarrow> secmem \<Rightarrow> bool" where
  "confined b blk A s s' \<longleftrightarrow>
     (\<forall>i. \<not> in_block blk i \<longrightarrow> mem s' i = mem s i) \<and> dom (mem s') = dom (mem s) \<and>
     all_blocks s' = all_blocks s \<and> (\<forall>x. x \<notin> insert b A \<longrightarrow> items s' x = items s x)"

lemma confined_refl: "confined b blk A s s"
  by (simp add: confined_def)

lemma confined_trans: "confined b blk A s s' \<Longrightarrow> confined b blk B s' s'' \<Longrightarrow> confined b blk (A \<union> B) s s''"
  by (auto simp: confined_def)

lemma confined_mono: "confined b blk A s s' \<Longrightarrow> A \<subseteq> B \<Longrightarrow> confined b blk B s s'"
  by (auto simp: confined_def)

lemma confined_geometry:
  "block_words blk' = block_words blk \<Longrightarrow> block_n_words blk' = block_n_words blk \<Longrightarrow>
   confined b blk' A s s' \<longleftrightarrow> confined b blk A s s'"
  by (simp add: confined_def in_block_def)

lemma linkstep_confined: "linkstep b A s s' \<Longrightarrow> confined b blk A s s'"
  by (auto simp: linkstep_def confined_def)

lemma ring_next:
  assumes "ring its r xs" and "c \<in> set xs"
  shows "next_at its c \<in> set xs" "prev_at its c \<in> set xs" "prev_at its (next_at its c) = c"
    "next_at its (prev_at its c) = c" "next_at its c \<noteq> 0" "prev_at its c \<noteq> 0"
proof -
  obtain ys zs where xs: "xs = ys @ c # zs" using assms(2) by (meson split_list)
  have rot: "ring its c (c # zs @ ys)" using ring_rotate [of its r ys "c # zs"] assms(1) xs by simp
  have set: "set xs = set (c # zs @ ys)" using xs by auto
  obtain n vs where n: "(zs @ ys) @ [c] = n # vs" by (cases "(zs @ ys) @ [c]") auto
  have "chain its (c # (zs @ ys) @ [c])" using rot by (simp add: ring_def)
  then have nx: "next_at its c = n" "prev_at its n = c" unfolding n by auto
  obtain us p where p: "c # zs @ ys = us @ [p]" by (cases "c # zs @ ys" rule: rev_cases) auto
  have "chain its (us @ p # [c])"
  proof -
    have "chain its ((c # zs @ ys) @ [c])" using rot by (simp add: ring_def)
    then show ?thesis unfolding p by simp
  qed
  then have pv: "next_at its p = c" "prev_at its c = p" using chain_append [of its us p "[c]"] by auto
  have "n \<in> set xs" using arg_cong [OF n, of set] set by auto
  moreover have "p \<in> set xs" using arg_cong [OF p, of set] set by auto
  moreover have "n \<noteq> 0" "p \<noteq> 0" using assms(1) \<open>n \<in> set xs\<close> \<open>p \<in> set xs\<close> by (auto simp: ring_def)
  ultimately show "next_at its c \<in> set xs" "prev_at its c \<in> set xs" "prev_at its (next_at its c) = c"
    "next_at its (prev_at its c) = c" "next_at its c \<noteq> 0" "prev_at its c \<noteq> 0"
    using nx pv by auto
qed

lemma upd_cell_at: "cell_at (items s) c = Some k \<Longrightarrow> upd_cell s c f = Ret (set_cell s c (f k))"
  by (simp add: upd_cell_def cell_at_get)

text \<open>A cell keeps its place and its links.\<close>

lemma rep_set_cell:
  assumes rep: "block_rep s b blk (xs @ (c, k) # ys) us fs" and kc: "cell_at (items s) c = Some kc"
    and f: "words k' = words kc" "n_words k' = n_words kc" "next_cell k' = next_cell kc" "prev_cell k' = prev_cell kc"
  shows "block_rep (set_cell s c k') b blk (xs @ (c, core k') # ys) us fs"
proof -
  let ?e = "block_words blk + block_n_words blk * 8"
  have t: "tiles (mem s) (items s) (block_words blk) (xs @ [(c, k)] @ ys) ?e" using rep by (simp add: block_rep_def)
  have k: "k = core kc" using block_rep_cell(3) [OF rep, of c k] kc by auto
  have nb: "b \<noteq> c" using block_rep_get(5) [OF rep] by auto
  obtain u v where mid: "tiles (mem s) (items s) u [(c, k)] v" using tiles_mid [OF t] by auto
  have dis: "c \<notin> fst ` set (xs @ ys)" using tiles_distinct [OF t] by auto
  have new: "tiles (mem s) (items (set_cell s c k')) u [(c, core k')] v" using mid f k by auto
  have "tiles (mem s) (items (set_cell s c k')) (block_words blk) (xs @ [(c, core k')] @ ys) ?e"
    by (rule tiles_replace [OF t mid _ new]) (use dis in auto)
  moreover have "next_at (items (set_cell s c k')) x = next_at (items s) x \<and>
      prev_at (items (set_cell s c k')) x = prev_at (items s) x" for x
    using f kc by (auto simp: next_at_def prev_at_def)
  moreover have "set us \<union> set fs \<subseteq> fst ` set (xs @ (c, core k') # ys)" using rep by (auto simp: block_rep_def)
  ultimately show ?thesis
    using block_rep_get(2) [OF rep] nb by (intro block_rep_change [OF rep]) auto
qed

lemma rep_count:
  assumes rep: "block_rep s b blk L us fs"
  shows "add_used_count s b f = Ret (set_block s b (blk\<lparr>n_used := f (n_used blk)\<rparr>))"
    "block_rep (set_block s b (blk\<lparr>n_used := f (n_used blk)\<rparr>)) b (blk\<lparr>n_used := f (n_used blk)\<rparr>) L us fs"
    "linkstep b {} s (set_block s b (blk\<lparr>n_used := f (n_used blk)\<rparr>))"
proof -
  note b = block_rep_get [OF rep]
  show "add_used_count s b f = Ret (set_block s b (blk\<lparr>n_used := f (n_used blk)\<rparr>))"
    using b(1) by (simp add: add_used_count_def)
  show ls: "linkstep b {} s (set_block s b (blk\<lparr>n_used := f (n_used blk)\<rparr>))"
    using b by (intro linkstepI [OF relinked_refl]) auto
  show "block_rep (set_block s b (blk\<lparr>n_used := f (n_used blk)\<rparr>)) b (blk\<lparr>n_used := f (n_used blk)\<rparr>) L us fs"
  proof (rule block_rep_change [OF rep])
    show "tiles (mem (set_block s b (blk\<lparr>n_used := f (n_used blk)\<rparr>))) (items (set_block s b (blk\<lparr>n_used := f (n_used blk)\<rparr>)))
      (block_words blk) L (block_words blk + block_n_words blk * 8)"
      by (rule linkstep_tiles [OF ls]) (use rep in \<open>simp add: block_rep_def\<close>)
  qed (use rep b in \<open>auto simp: block_rep_def\<close>)
qed

text \<open>Writing inside of a cell, between its guards.\<close>

lemma rep_write:
  assumes rep: "block_rep s b blk L us fs" and c: "(c, k) \<in> set L"
    and a: "words k + 8 \<le> a" "a + length bs \<le> words k + (n_words k - 1) * 8"
  shows "memwrite s a bs = Ret (s\<lparr>mem := write_octets (mem s) a bs\<rparr>)"
    "block_rep (s\<lparr>mem := write_octets (mem s) a bs\<rparr>) b blk L us fs"
    "confined b blk {} s (s\<lparr>mem := write_octets (mem s) a bs\<rparr>)"
proof -
  let ?m = "write_octets (mem s) a bs" and ?e = "block_words blk + block_n_words blk * 8"
  note cell = block_rep_cell [OF rep c]
  have m: "mapped s a (length bs)" using cell(4,7) a by (elim mapped_sub) auto
  then have d: "dom ?m = dom (mem s)" by (intro write_octets_mapped) (auto simp: mapped_iff)
  show "memwrite s a bs = Ret (s\<lparr>mem := ?m\<rparr>)" by (rule memwrite_mapped [OF m])
  show "confined b blk {} s (s\<lparr>mem := ?m\<rparr>)"
    using d a cell(4,5,6) by (auto simp: confined_def write_octets_def in_block_def)
  obtain xs ys where L: "L = xs @ [(c, k)] @ ys" using c by (metis append_Cons append_Nil split_list)
  have t: "tiles (mem s) (items s) (block_words blk) (xs @ [(c, k)] @ ys) ?e"
    using rep L by (simp add: block_rep_def)
  obtain u v where mid: "tiles (mem s) (items s) u [(c, k)] v" using tiles_mid [OF t] by auto
  have g: "ptr_at ?m (words k) c" "ptr_at ?m (words k + (n_words k - 1) * 8) c"
  proof -
    show "ptr_at ?m (words k) c"
      by (rule ptr_at_frame [of "mem s"]) (use mid a in \<open>auto simp: write_octets_def\<close>)
    show "ptr_at ?m (words k + (n_words k - 1) * 8) c"
      by (rule ptr_at_frame [of "mem s"]) (use mid a in \<open>auto simp: write_octets_def\<close>)
  qed
  have new: "tiles ?m (items s) u [(c, k)] v" using mid g by auto
  have "tiles ?m (items s) (block_words blk) (xs @ [(c, k)] @ ys) ?e"
    by (rule tiles_replace [OF t mid _ new]) (use a mid in \<open>auto simp: write_octets_def\<close>)
  then show "block_rep (s\<lparr>mem := ?m\<rparr>) b blk L us fs"
    using L d rep by (intro block_rep_change [OF rep]) (auto simp: block_rep_def)
qed

section \<open>Allocation\<close>

lemma use_cell_ok:
  assumes rep: "block_rep s b blk (xs @ (c, k) # ys) us fs" and c: "c \<notin> set us" "c \<noteq> 0"
    and links: "c \<in> set fs \<or> next_at (items s) c = 0 \<and> prev_at (items s) c = 0"
    and len: "0 < len" "len \<le> (n_words k - 2) * 8"
  shows "\<exists>s' blk' us' fs'. use_cell s b c tg len = Ret (words k + 8, s') \<and>
     block_rep s' b blk' (xs @ (c, k\<lparr>tag := Some tg, requested := len\<rparr>) # ys) us' fs' \<and>
     set us' = insert c (set us) \<and> length us' = Suc (length us) \<and> set fs' = set fs - {c} \<and>
     n_used blk' = Suc (n_used blk) \<and> block_words blk' = block_words blk \<and> block_n_words blk' = block_n_words blk \<and>
     mem s' = write_octets (mem s) (words k + 8) (replicate len 0) \<and> pool_data s' = pool_data s \<and>
     dom (items s') = dom (items s) \<and> confined b blk (fst ` set (xs @ (c, k) # ys)) s s'"
proof -
  let ?L = "xs @ (c, k) # ys" and ?k = "k\<lparr>tag := Some tg, requested := len\<rparr>"
  let ?L' = "xs @ (c, ?k) # ys"
  have sub: "set us \<union> set fs \<subseteq> fst ` set ?L" using rep by (simp add: block_rep_def)
  obtain kc where kc: "cell_at (items s) c = Some kc" "core kc = k" using block_rep_cell(3) [OF rep, of c k] by auto
  have nx: "next_cell kc = next_at (items s) c" using kc by (simp add: next_at_def)
  have "\<exists>s1 fs1 r. (if next_cell kc \<noteq> 0 then remove_unused s b c else Ret s) = Ret s1 \<and>
      block_rep s1 b (blk\<lparr>unused_cells := r\<rparr>) ?L us fs1 \<and> set fs1 = set fs - {c} \<and> linkstep b (set fs) s s1 \<and>
      next_at (items s1) c = 0 \<and> prev_at (items s1) c = 0"
  proof (cases "c \<in> set fs")
    case True
    have "next_at (items s) c \<noteq> 0" using ring_next(5) [of "items s" "unused_cells blk" fs c] rep True
      by (simp add: block_rep_def)
    then show ?thesis using remove_unused_rep [OF rep True] nx by auto
  next
    case False
    then show ?thesis using links nx rep
      by (intro exI [of _ s] exI [of _ fs] exI [of _ "unused_cells blk"]) (auto simp: linkstep_def)
  qed
  then obtain s1 fs1 r1 where s1: "(if next_cell kc \<noteq> 0 then remove_unused s b c else Ret s) = Ret s1"
    "block_rep s1 b (blk\<lparr>unused_cells := r1\<rparr>) ?L us fs1" "set fs1 = set fs - {c}" "linkstep b (set fs) s s1"
    "next_at (items s1) c = 0" "prev_at (items s1) c = 0" by blast
  define blk2 where "blk2 = blk\<lparr>unused_cells := r1, n_used := Suc (n_used blk)\<rparr>"
  define s2 where "s2 = set_block s1 b blk2"
  have s2: "add_used_count s1 b Suc = Ret s2" "block_rep s2 b blk2 ?L us fs1" "linkstep b {} s1 s2"
    using rep_count [OF s1(2), of Suc] by (simp_all add: s2_def blk2_def)
  have "b \<noteq> c" using block_rep_get(5) [OF rep] by auto
  obtain kc2 where kc2: "cell_at (items s2) c = Some kc2" "core kc2 = k" using block_rep_cell(3) [OF s2(2), of c k] by auto
  define s3 where "s3 = set_cell s2 c (kc2\<lparr>tag := Some tg, requested := len\<rparr>)"
  have cr: "core (kc2\<lparr>tag := Some tg, requested := len\<rparr>) = ?k" using kc2(2) by (auto simp: core_def)
  have up: "upd_cell s2 c (\<lambda>k. k\<lparr>tag := Some tg, requested := len\<rparr>) = Ret s3"
    unfolding s3_def by (rule upd_cell_at [OF kc2(1)])
  have r3: "block_rep s3 b blk2 ?L' us fs1"
    using rep_set_cell [OF s2(2) kc2(1), of "kc2\<lparr>tag := Some tg, requested := len\<rparr>"] unfolding s3_def cr by simp
  have z: "next_at (items s2) c = 0" "prev_at (items s2) c = 0" using s1(5,6) \<open>b \<noteq> c\<close> by (auto simp: s2_def)
  then have z3: "next_at (items s3) c = 0" "prev_at (items s3) c = 0"
    using kc2 by (auto simp: s3_def next_at_def prev_at_def)
  from insert_used_rep [OF r3 _ c(1) _ c(2) z3] s1(3) obtain s4 us' r4 where
    s4: "insert_used s3 b c = Ret s4" "block_rep s4 b (blk2\<lparr>used_cells := r4\<rparr>) ?L' us' fs1"
    "set us' = insert c (set us)" "length us' = Suc (length us)" "linkstep b (insert c (set us)) s3 s4" by auto
  obtain kc4 where kc4: "cell_at (items s4) c = Some kc4" "core kc4 = ?k"
    using block_rep_cell(3) [OF s4(2), of c ?k] by auto
  have "words kc4 = words k" using arg_cong [OF kc4(2), of words] by simp
  then have p: "sec_cell_to_memory kc4 = words k + 8" by (simp add: sec_cell_to_memory_def)
  have nk: "2 \<le> n_words k" using block_rep_cell(4) [OF rep, of c k] by simp
  have fit: "words k + 8 + len \<le> words k + (n_words k - 1) * 8" using len nk by auto
  define s5 where "s5 = s4\<lparr>mem := write_octets (mem s4) (words k + 8) (replicate len 0)\<rparr>"
  have w: "memwrite s4 (words k + 8) (replicate len 0) = Ret s5" "block_rep s5 b (blk2\<lparr>used_cells := r4\<rparr>) ?L' us' fs1"
    "confined b (blk2\<lparr>used_cells := r4\<rparr>) {} s4 s5"
    using rep_write [OF s4(2), of c ?k "words k + 8" "replicate len 0"] fit by (auto simp: s5_def)
  have eval: "use_cell s b c tg len = Ret (words k + 8, s5)"
    using s1(1) s2(1) up s4(1) w(1) by (simp add: use_cell_def cell_at_get [OF kc(1)] cell_at_get [OF kc4(1)] p Let_def)
  have m4: "mem s4 = mem s" "pool_data s4 = pool_data s" "dom (items s4) = dom (items s)"
    using s1(4) s2(3) s4(5) kc2(1) by (auto simp: linkstep_def s3_def dest: cell_at_dom)
  have c35: "confined b blk {c} s2 s3" "confined b blk {} s4 s5"
    using w(3) by (simp_all add: s3_def confined_def blk2_def in_block_def)
  note cs = linkstep_confined [of _ _ _ _ blk]
  have "confined b blk (set fs \<union> {} \<union> {c} \<union> insert c (set us) \<union> {}) s s5"
    by (rule confined_trans [OF confined_trans [OF confined_trans [OF confined_trans [OF cs [OF s1(4)] cs [OF s2(3)]]
          c35(1)] cs [OF s4(5)]] c35(2)])
  then have "confined b blk (fst ` set ?L) s s5" by (rule confined_mono) (use sub in auto)
  moreover have "mem s5 = write_octets (mem s) (words k + 8) (replicate len 0)" "pool_data s5 = pool_data s"
    "dom (items s5) = dom (items s)" using m4 by (simp_all add: s5_def)
  ultimately show ?thesis using eval w(2) s4(3,4) s1(3)
    by (intro exI [of _ s5] exI [of _ "blk2\<lparr>used_cells := r4\<rparr>"] exI [of _ us'] exI [of _ fs1])
      (simp add: blk2_def)
qed

lemma find_cell_ok:
  assumes "ring (items s) r xs" and "xs = ys @ c # zs" and "length zs < fuel"
  shows "\<exists>f. find_cell fuel s r c n = Ret f \<and>
     (f = 0 \<and> (\<forall>x\<in>set (c # zs). \<forall>k. cell_at (items s) x = Some k \<longrightarrow> n_words k < n) \<or>
      f \<in> set xs \<and> (\<exists>k. cell_at (items s) f = Some k \<and> n \<le> n_words k))"
  using assms(2,3)
proof (induction zs arbitrary: ys c fuel)
  case (Cons d zs)
  obtain k where k: "cell_at (items s) c = Some k" using assms(1) Cons.prems(1) by (auto simp: ring_def)
  have "chain (items s) (ys @ c # d # zs @ [hd xs])" using assms(1) Cons.prems(1) by (simp add: ring_def)
  then have "next_cell k = d" using chain_append [of "items s" ys c "d # zs @ [hd xs]"] k by (simp add: next_at_def)
  moreover have "d \<noteq> r" using assms(1) Cons.prems(1) by (cases ys) (auto simp: ring_def)
  moreover obtain fuel' where "fuel = Suc fuel'" using Cons.prems(2) by (cases fuel) auto
  ultimately show ?case
    using Cons.IH [of "ys @ [c]" d fuel'] Cons.prems k cell_at_get [OF k]
    by (subst find_cell.simps) auto
next
  case Nil
  obtain k where k: "cell_at (items s) c = Some k" using assms(1) Nil(1) by (auto simp: ring_def)
  have "chain (items s) (ys @ c # [hd xs])" using assms(1) Nil(1) by (simp add: ring_def)
  then have "next_cell k = hd xs" using chain_append [of "items s" ys c "[hd xs]"] k by (simp add: next_at_def)
  moreover have "hd xs = r" using assms(1) Nil(1) by (cases ys) (auto simp: ring_def)
  moreover obtain fuel' where "fuel = Suc fuel'" using Nil(2) by (cases fuel) auto
  ultimately show ?case using Nil k cell_at_get [OF k] by (subst find_cell.simps) auto
qed

text \<open>Replacing some cells of a block by others that cover the same memory.\<close>

lemma rep_replace:
  assumes rep: "block_rep s b blk (xs @ mid @ ys) us fs" and mid: "tiles (mem s) (items s) u mid v" "mid \<noteq> []"
    and new: "tiles (mem s') (items s') u mid' v"
    and its: "\<And>x. x \<notin> A \<Longrightarrow> items s' x = items s x" "A \<inter> fst ` set (xs @ ys) = {}" "b \<notin> A"
    and mm: "\<And>i. \<not> (u \<le> i \<and> i < v) \<Longrightarrow> mem s' i = mem s i" "dom (mem s') = dom (mem s)"
    and links: "\<And>x. x \<in> set us \<union> set fs \<Longrightarrow> next_at (items s') x = next_at (items s) x \<and> prev_at (items s') x = prev_at (items s) x"
    and sub: "set us \<union> set fs \<subseteq> fst ` set (xs @ mid' @ ys)" and ab: "all_blocks s' = all_blocks s"
  shows "block_rep s' b blk (xs @ mid' @ ys) us fs \<and> confined b blk A s s'"
proof
  let ?e = "block_words blk + block_n_words blk * 8"
  have t: "tiles (mem s) (items s) (block_words blk) (xs @ mid @ ys) ?e" using rep by (simp add: block_rep_def)
  have t': "tiles (mem s') (items s') (block_words blk) (xs @ mid' @ ys) ?e"
  proof (rule tiles_replace [OF t mid(1,2) new])
    fix c assume "c \<in> fst ` set (xs @ ys)"
    with its have "items s' c = items s c" by blast
    then show "core_at (items s') c = core_at (items s) c" by (simp add: core_at_def cell_at_def)
  qed (rule mm(1))
  show "block_rep s' b blk (xs @ mid' @ ys) us fs"
    using block_rep_get(2) [OF rep] its(1,3) t' mm(2) links sub
    by (intro block_rep_change [OF rep]) auto
  obtain ck ms where cons: "mid = ck # ms" using mid(2) by (cases mid) auto
  have "words (snd ck) = u" using mid(1) cons by (cases ck) auto
  have hd: "(fst ck, snd ck) \<in> set (xs @ mid @ ys)" using cons by simp
  have "block_words blk \<le> u" using tiles_cell(3) [OF t hd] \<open>words (snd ck) = u\<close> by simp
  have "v \<le> ?e"
  proof -
    obtain p q where pq: "tiles (mem s) (items s) p mid q" "q \<le> ?e" using tiles_mid [OF t] by blast
    have "p = u" using pq(1) \<open>words (snd ck) = u\<close> cons by (cases ck) auto
    have fin: "z = z'" if "tiles m i w l z" "tiles m i w l z'" for m i w l z z'
      using that by (induction m i w l z rule: tiles.induct) auto
    show ?thesis using fin [OF mid(1), of q] pq \<open>p = u\<close> by simp
  qed
  then show "confined b blk A s s'"
    using its(1) mm ab \<open>block_words blk \<le> u\<close> by (auto simp: confined_def in_block_def)
qed

text \<open>A cell that is split: the new cell in front of the rest.\<close>

lemma split_rep:
  assumes rep: "block_rep s b blk (xs @ (c, k) # ys) us fs" and n: "2 \<le> n" "n + 2 \<le> n_words k"
    and other: "cell_at (items s) other = Some zo" "other \<notin> fst ` set (xs @ (c, k) # ys)"
    and zo: "words zo = words k" "n_words zo = n"
  shows "\<exists>s' kc. upd_cell s c (\<lambda>k. k\<lparr>n_words := n_words k - n, words := words k + n * 8\<rparr>) = Ret (set_cell s c kc) \<and>
     obind (sec_write_guards (set_cell s c kc) other) (\<lambda>s1. sec_write_guards s1 c) = Ret s' \<and>
     block_rep s' b blk (xs @ (other, core zo) # (c, k\<lparr>n_words := n_words k - n, words := words k + n * 8\<rparr>) # ys) us fs \<and>
     items s' = (items s)(c \<mapsto> ItemCell kc) \<and> pool_data s' = pool_data s \<and> confined b blk {c} s s' \<and>
     (\<forall>i. \<not> (words k \<le> i \<and> i < words k + n_words k * 8) \<longrightarrow> mem s' i = mem s i)"
proof -
  let ?L = "xs @ [(c, k)] @ ys" and ?e = "block_words blk + block_n_words blk * 8"
  have t: "tiles (mem s) (items s) (block_words blk) ?L ?e" using rep by (simp add: block_rep_def)
  obtain kc where kc: "cell_at (items s) c = Some kc" "core kc = k" using block_rep_cell(3) [OF rep, of c k] by auto
  have kw: "words kc = words k" "n_words kc = n_words k" using arg_cong [OF kc(2), of words] arg_cong [OF kc(2), of n_words] by auto
  define kn where "kn = kc\<lparr>n_words := n_words kc - n, words := words kc + n * 8\<rparr>"
  define s0 where "s0 = set_cell s c kn"
  have up: "upd_cell s c (\<lambda>k. k\<lparr>n_words := n_words k - n, words := words k + n * 8\<rparr>) = Ret s0"
    unfolding s0_def kn_def by (rule upd_cell_at [OF kc(1)])
  have dif: "other \<noteq> c" "other \<noteq> b" using other block_rep_get(3) [OF rep] by auto
  have map0: "mapped s0 (words k) (n_words k * 8)"
    using block_rep_cell(7) [OF rep, of c k] by (simp add: s0_def mapped_iff)
  have o0: "cell_at (items s0) other = Some zo" using other dif by (simp add: s0_def)
  from write_guards_ok [OF o0] zo n map0 obtain m1 where m1:
    "sec_write_guards s0 other = Ret (s0\<lparr>mem := m1\<rparr>)" "ptr_at m1 (words k) other" "ptr_at m1 (words k + (n - 1) * 8) other"
    "dom m1 = dom (mem s)"
    "\<And>i. \<not> (words k \<le> i \<and> i < words k + 8) \<Longrightarrow> \<not> (words k + (n - 1) * 8 \<le> i \<and> i < words k + n * 8) \<Longrightarrow> m1 i = mem s i"
    by (auto simp: s0_def mapped_sub)
  have map1: "mapped (s0\<lparr>mem := m1\<rparr>) (words k + n * 8) ((n_words k - n) * 8)"
  proof -
    have "m1 i \<noteq> None" if "words k \<le> i" "i < words k + n_words k * 8" for i
      using map0 that m1(4) by (auto simp: mapped_iff s0_def dom_def set_eq_iff)
    then show ?thesis using n by (auto simp: mapped_iff)
  qed
  have c1: "cell_at (items (s0\<lparr>mem := m1\<rparr>)) c = Some kn" by (simp add: s0_def)
  have kn: "words kn = words k + n * 8" "n_words kn = n_words k - n" by (simp_all add: kn_def kw)
  have n2: "2 \<le> n_words k - n" using n by simp
  from write_guards_ok [OF c1, unfolded kn, OF n2 map1] m1(4) obtain m2 where m2:
    "sec_write_guards (s0\<lparr>mem := m1\<rparr>) c = Ret (s0\<lparr>mem := m2\<rparr>)" "ptr_at m2 (words k + n * 8) c"
    "ptr_at m2 (words k + n * 8 + (n_words k - n - 1) * 8) c" "dom m2 = dom (mem s)"
    "\<And>i. \<not> (words k + n * 8 \<le> i \<and> i < words k + n * 8 + 8) \<Longrightarrow>
      \<not> (words k + n * 8 + (n_words k - n - 1) * 8 \<le> i \<and> i < words k + n * 8 + (n_words k - n) * 8) \<Longrightarrow> m2 i = m1 i"
    by (auto simp del: diff_diff_left)
  have N: "n * 8 + (n_words k - n) * 8 = n_words k * 8" using n(2) by (simp flip: distrib_right)
  have g: "ptr_at m2 (words k) other" "ptr_at m2 (words k + (n - 1) * 8) other"
  proof -
    show "ptr_at m2 (words k) other" by (rule ptr_at_frame [OF m1(2)]) (use n in \<open>auto intro: m2(5)\<close>)
    show "ptr_at m2 (words k + (n - 1) * 8) other" by (rule ptr_at_frame [OF m1(3)]) (use n in \<open>auto intro: m2(5)\<close>)
  qed
  have out: "m2 i = mem s i" if "\<not> (words k \<le> i \<and> i < words k + n_words k * 8)" for i
  proof -
    have "m2 i = m1 i" using that n by (intro m2(5)) (auto simp: algebra_simps)
    also have "\<dots> = mem s i" using that n by (intro m1(5)) auto
    finally show ?thesis .
  qed
  let ?s = "s0\<lparr>mem := m2\<rparr>" and ?kc = "k\<lparr>n_words := n_words k - n, words := words k + n * 8\<rparr>"
  have cn: "core kn = ?kc" unfolding kn_def kc(2) [symmetric] by (simp add: core_def)
  obtain u v where mid: "tiles (mem s) (items s) u [(c, k)] v" using tiles_mid [OF t] by auto
  have new: "tiles (mem ?s) (items ?s) u [(other, core zo), (c, ?kc)] v"
    using mid g m2(2,3) zo n dif cn other N by (auto simp: s0_def core_at_def add.assoc)
  have dis: "c \<notin> fst ` set (xs @ ys)" using tiles_distinct [OF t] by auto
  have uv: "u = words k" "v = words k + n_words k * 8" using mid by auto
  have mid2: "block_rep ?s b blk (xs @ [(other, core zo), (c, ?kc)] @ ys) us fs \<and> confined b blk {c} s ?s"
  proof (rule rep_replace [OF _ mid _ new])
    show "block_rep s b blk (xs @ [(c, k)] @ ys) us fs" using rep by simp
    show "items ?s x = items s x" if "x \<notin> {c}" for x using that by (simp add: s0_def)
    show "mem ?s i = mem s i" if "\<not> (u \<le> i \<and> i < v)" for i using that out [of i] uv by simp
    show "next_at (items ?s) x = next_at (items s) x \<and> prev_at (items ?s) x = prev_at (items s) x" for x
      using kc(1) by (auto simp: s0_def kn_def next_at_def prev_at_def)
    show "set us \<union> set fs \<subseteq> fst ` set (xs @ [(other, core zo), (c, ?kc)] @ ys)"
      using rep by (auto simp: block_rep_def)
  qed (use dis m2(4) block_rep_get(5) [OF rep] in \<open>auto simp: s0_def\<close>)
  show ?thesis using up m1(1) m2(1) out mid2
    by (intro exI [of _ ?s] exI [of _ kn]) (auto simp: s0_def)
qed

subsection \<open>The contract of an operation on a block\<close>

text \<open>The live allocations of a layout: the address and the octets of every used cell.\<close>

definition live_in :: "(nat \<rightharpoonup> byte) \<Rightarrow> (nat \<times> Cell) list \<Rightarrow> (nat \<times> byte list) set" where
  "live_in m L = {(words k + 8, octets m (words k + 8) (requested k)) |c k. (c, k) \<in> set L \<and> 0 < requested k}"

lemma live_in_simps:
  "live_in m [] = {}" "live_in m (xs @ ys) = live_in m xs \<union> live_in m ys"
  "live_in m ((c, k) # ys) =
     (if requested k = 0 then {} else {(words k + 8, octets m (words k + 8) (requested k))}) \<union> live_in m ys"
  by (auto simp: live_in_def)

lemma live_in_cong:
  assumes "coherent L U F" and "tiles m its a L e" and "\<And>i. a \<le> i \<Longrightarrow> i < e \<Longrightarrow> m' i = m i"
  shows "live_in m' L = live_in m L"
proof -
  have "octets m' (words k + 8) (requested k) = octets m (words k + 8) (requested k)" if "(c, k) \<in> set L" for c k
  proof (rule octets_cong)
    have "requested k \<le> (n_words k - 2) * 8" using assms(1) that
      by (auto simp: coherent_def cell_good_def list_all_iff split: if_splits)
    with tiles_cell [OF assms(2) that] show "m' i = m i" if "words k + 8 \<le> i" "i < words k + 8 + requested k" for i
      using that by (intro assms(3)) auto
  qed
  then show ?thesis by (fastforce simp: live_in_def)
qed

definition block_step ::
  "os \<Rightarrow> nat \<Rightarrow> Block \<Rightarrow> (nat \<times> Cell) list \<Rightarrow> secmem \<Rightarrow> Block \<Rightarrow> (nat \<times> Cell) list \<Rightarrow> secmem \<Rightarrow> bool" where
  "block_step env b blk L s blk' L' s' \<longleftrightarrow>
     pool_inv env s' \<and> (\<exists>us fs. block_good s' b blk' L' us fs) \<and>
     block_words blk' = block_words blk \<and> block_n_words blk' = block_n_words blk \<and>
     confined b blk (fst ` set L \<union> fst ` set L') s s' \<and>
     dom (items s') = dom (items s) - fst ` set L \<union> fst ` set L' \<and>
     fst ` set L' \<inter> (dom (items s) - fst ` set L) = {}"

lemma block_step_refl:
  "pool_inv env s \<Longrightarrow> block_good s b blk L us fs \<Longrightarrow> block_step env b blk L s blk L s"
  using block_rep_cell(2) by (fastforce simp: block_step_def confined_refl block_good_def)

lemma block_step_trans:
  assumes "block_step env b blk L s blk1 L1 s1" and "block_step env b blk1 L1 s1 blk2 L2 s2"
  shows "block_step env b blk L s blk2 L2 s2"
proof -
  note a = assms [unfolded block_step_def]
  have g: "block_words blk1 = block_words blk" "block_n_words blk1 = block_n_words blk" using a by auto
  have d: "dom (items s1) = dom (items s) - fst ` set L \<union> fst ` set L1"
    "dom (items s2) = dom (items s1) - fst ` set L1 \<union> fst ` set L2"
    "fst ` set L1 \<inter> (dom (items s) - fst ` set L) = {}" "fst ` set L2 \<inter> (dom (items s1) - fst ` set L1) = {}"
    using a by auto
  then have d': "dom (items s1) - fst ` set L1 = dom (items s) - fst ` set L" by blast
  have c: "confined b blk (fst ` set L \<union> fst ` set L1) s s1" "confined b blk (fst ` set L1 \<union> fst ` set L2) s1 s2"
    using a g confined_geometry [of blk1 blk] by auto
  have "confined b blk (fst ` set L \<union> fst ` set L2) s s2"
  proof -
    have "items s2 x = items s x" if x: "x \<notin> insert b (fst ` set L \<union> fst ` set L2)" for x
    proof (cases "x \<in> fst ` set L1")
      case True
      then have "x \<notin> dom (items s)" "x \<notin> dom (items s2)" using d d' x by blast+
      then show ?thesis by (simp add: domIff)
    next
      case False
      with c x show ?thesis by (simp add: confined_def)
    qed
    with c show ?thesis by (simp add: confined_def)
  qed
  with a d d' show ?thesis unfolding block_step_def by auto
qed

lemma sec_size_to_words_bound: "len \<le> sec_size_to_words len * 8" "sec_size_to_words len * 8 < len + 8"
  "0 < len \<Longrightarrow> 0 < sec_size_to_words len"
  by (auto simp: sec_size_to_words_def) presburger+

text \<open>An allocation in a block.\<close>

definition alloc_result ::
  "nat \<Rightarrow> nat \<Rightarrow> (nat \<rightharpoonup> byte) \<Rightarrow> (nat \<times> Cell) list \<Rightarrow> (nat \<rightharpoonup> byte) \<Rightarrow> (nat \<times> Cell) list \<Rightarrow> bool" where
  "alloc_result p len m L m' L' \<longleftrightarrow>
     (if p = 0 then live_in m' L' = live_in m L
      else p \<notin> fst ` live_in m L \<and> live_in m' L' = insert (p, replicate len 0) (live_in m L))"

lemma block_rep_dom: "block_rep s b blk L us fs \<Longrightarrow> fst ` set L \<subseteq> dom (items s)"
proof
  fix x assume "block_rep s b blk L us fs" "x \<in> fst ` set L"
  then show "x \<in> dom (items s)" using block_rep_cell(2) by force
qed

lemma live_in_outside:
  assumes "tiles m its a L e" and "(p, bs) \<in> live_in m' L"
  shows "a + 8 \<le> p \<and> p + 8 \<le> e"
  using assms tiles_cell [OF assms(1)] by (fastforce simp: live_in_def)

lemma alloc_finish:
  assumes good: "block_good s b blk (xs @ (c, k) # ys) us fs" and k: "requested k = 0"
    and inv: "pool_inv env t" and rep: "block_rep t b blk (xs @ (c', k') # zs @ ys) us fs"
    and k': "words k' = words k" "requested k' = 0" "c' \<notin> set us" "c' \<noteq> 0"
      "c' \<in> set fs \<or> next_at (items t) c' = 0 \<and> prev_at (items t) c' = 0"
    and shape: "c' = c \<and> zs = [] \<or> c' \<notin> dom (items s) \<and> (\<exists>k2. zs = [(c, k2)] \<and> requested k2 = 0 \<and> tag k2 = None)"
    and len: "0 < len" "len \<le> (n_words k' - 2) * 8"
    and mm: "\<And>i. \<not> (words k \<le> i \<and> i < words k + n_words k * 8) \<Longrightarrow> mem t i = mem s i"
    and conf: "confined b blk {c, c'} s t" "dom (items t) = insert c' (dom (items s))"
    and fit: "n_words k' \<le> n_words k"
  shows "\<exists>s' blk' L'. use_cell t b c' tg len = Ret (words k + 8, s') \<and>
     block_step env b blk (xs @ (c, k) # ys) s blk' L' s' \<and>
     alloc_result (words k + 8) len (mem s) (xs @ (c, k) # ys) (mem s') L'"
proof -
  let ?L = "xs @ (c, k) # ys" and ?k = "k'\<lparr>tag := Some tg, requested := len\<rparr>"
  let ?L' = "xs @ (c', ?k) # zs @ ys" and ?e = "block_words blk + block_n_words blk * 8"
  have srep: "block_rep s b blk ?L us fs" and coh: "coherent ?L (set us) (set fs)" and nu: "n_used blk = length us"
    using good by (auto simp: block_good_def)
  from use_cell_ok [OF rep k'(3-5) len, of tg] obtain s' blk' us' fs' where u:
    "use_cell t b c' tg len = Ret (words k' + 8, s')" "block_rep s' b blk' ?L' us' fs'"
    "set us' = insert c' (set us)" "length us' = Suc (length us)" "set fs' = set fs - {c'}"
    "n_used blk' = Suc (n_used blk)" "block_words blk' = block_words blk" "block_n_words blk' = block_n_words blk"
    "mem s' = write_octets (mem t) (words k' + 8) (replicate len 0)" "pool_data s' = pool_data t"
    "dom (items s') = dom (items t)" "confined b blk (fst ` set (xs @ (c', k') # zs @ ys)) t s'" by auto
  have sub: "fst ` set ?L \<subseteq> dom (items s)" by (rule block_rep_dom [OF srep])
  have t: "tiles (mem s) (items s) (block_words blk) (xs @ [(c, k)] @ ys) ?e" using srep by (simp add: block_rep_def)
  have dis: "c \<notin> fst ` set xs" "c \<notin> fst ` set ys" using tiles_distinct [OF t] by auto
  have dis': "c' \<notin> fst ` set xs" "c' \<notin> fst ` set ys" using dis shape sub by auto
  have cz: "fst ` set zs \<union> {c'} = {c, c'}" using shape by auto
  have cg: "cell_good ?k" using len by (simp add: cell_good_def)
  have c_coh: "c \<in> set fs" "c \<notin> set us" "tag k = None" "coherent xs (set us) (set fs)" "coherent ys (set us) (set fs)"
    using coh k by (auto simp: coherent_append coherent_Cons cell_good_def)
  have "coherent xs (set us') (set fs')" "coherent ys (set us') (set fs')"
    by (rule coherent_cong [OF c_coh(4)], use dis' u(3,5) in auto, rule coherent_cong [OF c_coh(5)], use dis' u(3,5) in auto)
  moreover have "coherent zs (set us') (set fs')"
    using shape c_coh u(3,5) sub by (auto simp: coherent_def cell_good_def)
  ultimately have coh': "coherent ?L' (set us') (set fs')"
    using cg len(1) u(3,5) by (simp add: coherent_append coherent_Cons)
  have good': "block_good s' b blk' ?L' us' fs'" using u coh' nu by (simp add: block_good_def)
  have inv': "pool_inv env s'" using u(10,11) inv by (auto intro: meta.frame_law)
  have conf': "confined b blk (fst ` set ?L \<union> fst ` set ?L') s s'"
    by (rule confined_mono [OF confined_trans [OF conf(1) u(12)]]) (use cz in auto)
  have "dom (items s') = dom (items s) - fst ` set ?L \<union> fst ` set ?L'" "fst ` set ?L' \<inter> (dom (items s) - fst ` set ?L) = {}"
    using u(11) conf(2) sub cz shape by auto
  then have step: "block_step env b blk ?L s blk' ?L' s'"
    unfolding block_step_def using good' inv' conf' u(7,8) by blast
  obtain p q where pq: "tiles (mem s) (items s) (block_words blk) xs p" "p = words k" "q = p + n_words k * 8"
    "tiles (mem s) (items s) q ys ?e" using t by (auto simp: tiles_append)
  have out: "mem s' i = mem s i" if "i < p \<or> q \<le> i" for i
  proof -
    have "2 \<le> n_words k'" using block_rep_cell(4) [OF rep, of c' k'] by simp
    then have "words k + 8 + len \<le> q" using len fit pq by auto
    with that pq k' show ?thesis unfolding u(9) by (subst write_octets_out) (auto intro: mm)
  qed
  have lx: "live_in (mem s') xs = live_in (mem s) xs" by (rule live_in_cong [OF c_coh(4) pq(1)]) (simp add: out)
  have ly: "live_in (mem s') ys = live_in (mem s) ys" by (rule live_in_cong [OF c_coh(5) pq(4)]) (simp add: out)
  have lz: "live_in (mem s') zs = {}" using shape by (auto simp: live_in_simps)
  have lc: "octets (mem s') (words k + 8) len = replicate len 0" unfolding u(9) k'(1) by (rule octets_written) simp
  have "words k + 8 \<notin> fst ` live_in (mem s) ?L"
    using live_in_outside [OF pq(1), of _ _ "mem s"] live_in_outside [OF pq(4), of _ _ "mem s"] pq(2,3) k
      block_rep_cell(4) [OF srep, of c k] by (fastforce simp: live_in_simps)
  moreover have "live_in (mem s') ?L' = insert (words k + 8, replicate len 0) (live_in (mem s) ?L)"
    using len(1) k'(1) k by (auto simp: live_in_simps lx ly lz lc)
  ultimately have "alloc_result (words k + 8) len (mem s) ?L (mem s') ?L'" by (simp add: alloc_result_def)
  with step u(1) k'(1) show ?thesis by auto
qed

lemma fresh_item_rep:
  assumes "block_rep s b blk L us fs" and "items s' = (items s)(r \<mapsto> it)" and "r \<notin> dom (items s)"
    and "mem s' = mem s" "all_blocks s' = all_blocks s"
  shows "block_rep s' b blk L us fs \<and> confined b blk {r} s s'"
proof -
  have notin: "r \<notin> fst ` set L" "r \<noteq> b" "r \<notin> set us \<union> set fs"
    using block_rep_dom [OF assms(1)] block_rep_get(2) [OF assms(1)] assms(1,3) unfolding block_rep_def by blast+
  have cell: "cell_at (items s') x = cell_at (items s) x" if "x \<noteq> r" for x using that assms(2) by (simp add: cell_at_def)
  have "tiles (mem s') (items s') (block_words blk) L (block_words blk + block_n_words blk * 8)"
  proof (rule tiles_frame)
    show "tiles (mem s) (items s) (block_words blk) L (block_words blk + block_n_words blk * 8)"
      using assms(1) by (simp add: block_rep_def)
    show "core_at (items s') c = core_at (items s) c" if "c \<in> fst ` set L" for c
      using that notin(1) cell [of c] by (metis core_at_def)
  qed (simp add: assms(4))
  then have "block_rep s' b blk L us fs"
  proof (intro block_rep_change [OF assms(1)])
    fix x assume "x \<in> set us \<union> set fs"
    with notin(3) have "x \<noteq> r" by auto
    from cell [OF this] show "next_at (items s') x = next_at (items s) x \<and> prev_at (items s') x = prev_at (items s) x"
      by (simp add: next_at_def prev_at_def)
  qed (use assms notin in \<open>auto simp: block_rep_def\<close>)
  with assms show ?thesis by (auto simp: confined_def)
qed

lemma split_cell_ok:
  assumes good: "block_good s b blk (xs @ (c, k) # ys) us fs" and inv: "pool_inv env s" and k: "requested k = 0"
    and n: "2 \<le> n" and big: "n + 4 < n_words k"
  shows "(\<exists>s1. pool_alloc env s = Ret (0, s1) \<and> split_cell env s c n = Ret (0, s1)) \<or>
    (\<exists>t c' k' k2. split_cell env s c n = Ret (c', t) \<and> pool_inv env t \<and>
       block_rep t b blk (xs @ (c', k') # [(c, k2)] @ ys) us fs \<and> words k' = words k \<and> n_words k' = n \<and>
       requested k' = 0 \<and> c' \<notin> set us \<and> c' \<noteq> 0 \<and> next_at (items t) c' = 0 \<and> prev_at (items t) c' = 0 \<and>
       c' \<notin> dom (items s) \<and> requested k2 = 0 \<and> tag k2 = None \<and>
       (\<forall>i. \<not> (words k \<le> i \<and> i < words k + n_words k * 8) \<longrightarrow> mem t i = mem s i) \<and>
       confined b blk {c, c'} s t \<and> dom (items t) = insert c' (dom (items s)))"
proof -
  let ?L = "xs @ (c, k) # ys"
  have rep: "block_rep s b blk ?L us fs" using good by (simp add: block_good_def)
  have "cell_good k" using good by (auto simp: block_good_def coherent_append coherent_Cons)
  with k have tk: "tag k = None" by (simp add: cell_good_def)
  obtain kc where kc: "cell_at (items s) c = Some kc" "core kc = k" using block_rep_cell(3) [OF rep, of c k] by auto
  have kw: "words kc = words k" "n_words kc = n_words k"
    using arg_cong [OF kc(2), of words] arg_cong [OF kc(2), of n_words] by auto
  show ?thesis
  proof (cases rule: meta.alloc_item [OF inv])
    case (1 s1)
    then show ?thesis using big kw by (auto simp: split_cell_def cell_at_get [OF kc(1)])
  next
    case (2 r s1)
    define zo where "zo = zero_cell\<lparr>n_words := n, words := words kc\<rparr>"
    define s2 where "s2 = set_cell s1 r zo"
    have up: "upd_cell s1 r (\<lambda>o'. o'\<lparr>n_words := n, words := words kc\<rparr>) = Ret s2"
      using 2(8) by (simp add: upd_cell_def get_cell_def cell_of_def s2_def zo_def)
    have i2: "items s2 = (items s)(r \<mapsto> ItemCell zo)" using 2(8) by (simp add: s2_def)
    have r2: "block_rep s2 b blk ?L us fs" "confined b blk {r} s s2"
      using fresh_item_rep [OF rep i2 2(7)] 2(3,4) by (simp_all add: s2_def)
    have rL: "r \<notin> fst ` set ?L" using block_rep_dom [OF rep] 2(7) by blast
    have at2: "cell_at (items s2) r = Some zo" by (simp add: i2)
    have zo: "words zo = words k" "n_words zo = n" by (simp_all add: zo_def kw)
    from split_rep [OF r2(1) n _ at2 rL zo] big obtain t kn where t:
      "upd_cell s2 c (\<lambda>k. k\<lparr>n_words := n_words k - n, words := words k + n * 8\<rparr>) = Ret (set_cell s2 c kn)"
      "obind (sec_write_guards (set_cell s2 c kn) r) (\<lambda>s1. sec_write_guards s1 c) = Ret t"
      "block_rep t b blk (xs @ (r, core zo) # (c, k\<lparr>n_words := n_words k - n, words := words k + n * 8\<rparr>) # ys) us fs"
      "items t = (items s2)(c \<mapsto> ItemCell kn)" "pool_data t = pool_data s2" "confined b blk {c} s2 t"
      "\<forall>i. \<not> (words k \<le> i \<and> i < words k + n_words k * 8) \<longrightarrow> mem t i = mem s2 i" by auto
    have cr: "c \<noteq> r" using rL by auto
    have dt: "dom (items t) = insert r (dom (items s))"
      using t(4) i2 cell_at_dom [OF kc(1)] by auto
    have "pool_inv env t" by (rule meta.frame_law [OF 2(2)]) (use 2(8) t(5) dt in \<open>simp_all add: s2_def\<close>)
    moreover have "split_cell env s c n = Ret (r, t)"
      using 2(1,5) up t(1,2) big kw by (auto simp: split_cell_def cell_at_get [OF kc(1)] obind_assoc obind_Ret_iff)
    moreover have "next_at (items t) r = 0" "prev_at (items t) r = 0"
      using t(4) cr i2 by (simp_all add: zo_def zero_cell_def)
    moreover have "confined b blk {c, r} s t" using confined_trans [OF r2(2) t(6)] by (simp add: insert_commute)
    moreover have "mem s2 = mem s" using 2(3) by (simp add: s2_def)
    moreover have "r \<notin> set us" using rL rep by (auto simp: block_rep_def)
    ultimately show ?thesis using t(3,7) 2(5,7) dt tk k
      by (intro disjI2 exI [of _ t] exI [of _ r] exI [of _ "core zo"]
          exI [of _ "k\<lparr>n_words := n_words k - n, words := words k + n * 8\<rparr>"])
        (auto simp: zo zo_def zero_cell_def kw)
  qed
qed

lemma sec_alloc_ok:
  assumes good: "block_good s b blk L us fs" and inv: "pool_inv env s" and len: "0 < len"
  shows "\<exists>p s' blk' L'. sec_alloc env s b tg len = Ret (p, s') \<and> block_step env b blk L s blk' L' s' \<and>
     alloc_result p len (mem s) L (mem s') L' \<and>
     (p = 0 \<longrightarrow> (\<exists>s1. pool_alloc env s = Ret (0, s1)) \<or>
        (\<forall>(c, k)\<in>set L. requested k = 0 \<longrightarrow> n_words k < sec_size_to_words len + 2))"
proof -
  let ?n = "sec_size_to_words len + 2"
  have rep: "block_rep s b blk L us fs" and coh: "coherent L (set us) (set fs)" using good by (auto simp: block_good_def)
  have r: "ring (items s) (unused_cells blk) fs" using rep by (simp add: block_rep_def)
  note b = block_rep_get [OF rep]
  have b0: "b \<noteq> 0" using meta.valid_pointer(1) [OF inv, of b] b(2) by auto
  note refl = block_step_refl [OF inv good]
  show ?thesis
  proof (cases fs)
    case Nil
    then have "sec_alloc env s b tg len = Ret (0, s)"
      using r b0 len b(1) by (simp add: sec_alloc_def ring_def)
    moreover have "\<forall>(c, k)\<in>set L. requested k = 0 \<longrightarrow> n_words k < ?n"
      using coh Nil by (auto simp: coherent_def list_all_iff)
    ultimately show ?thesis using refl
      by (intro exI [of _ 0] exI [of _ s] exI [of _ blk] exI [of _ L]) (auto simp: alloc_result_def)
  next
    case (Cons h t)
    then have h: "unused_cells blk = h" "h \<noteq> 0" using r by (auto simp: ring_def)
    have sub: "set fs \<subseteq> fst ` set L" "distinct fs" using rep r by (auto simp: block_rep_def ring_def)
    have "length fs \<le> item_slots s"
      using meta.slots_distinct [OF inv sub(2)] sub(1) block_rep_dom [OF rep] by blast
    then have "length t < item_slots s" using Cons by simp
    from find_cell_ok [OF r [unfolded h(1)], of "[]" h t, OF _ this, of ?n] Cons obtain c where c:
      "find_cell (item_slots s) s h h ?n = Ret c"
      "c = 0 \<and> (\<forall>x\<in>set fs. \<forall>k. cell_at (items s) x = Some k \<longrightarrow> n_words k < ?n) \<or>
       c \<in> set fs \<and> (\<exists>k. cell_at (items s) c = Some k \<and> ?n \<le> n_words k)" by auto
    show ?thesis
    proof (cases "c = 0")
      case True
      have none: "n_words k < ?n" if x: "(x, k) \<in> set L" "requested k = 0" for x k
      proof -
        have "x \<in> set fs" using coh x by (auto simp: coherent_def list_all_iff)
        moreover obtain k' where "cell_at (items s) x = Some k'" "core k' = k" using block_rep_cell(3) [OF rep x(1)] by auto
        moreover have "0 \<notin> set fs" using r by (auto simp: ring_def)
        ultimately show ?thesis using c(2) True by (metis core_simps(2))
      qed
      have "sec_alloc env s b tg len = Ret (0, s)"
        using h b0 len b(1) c(1) True by (simp add: sec_alloc_def Let_def)
      with refl none show ?thesis
        by (intro exI [of _ 0] exI [of _ s] exI [of _ blk] exI [of _ L]) (auto simp: alloc_result_def)
    next
      case False
      then obtain kc where kc: "c \<in> set fs" "cell_at (items s) c = Some kc" "?n \<le> n_words kc" using c(2) by auto
      then obtain k where k: "(c, k) \<in> set L" using sub(1) by auto
      have ck: "core kc = k" using block_rep_cell(3) [OF rep k] kc(2) by auto
      have kf: "words kc = words k" "n_words kc = n_words k" "requested kc = requested k" "tag kc = tag k"
        using arg_cong [OF ck, of words] arg_cong [OF ck, of n_words] arg_cong [OF ck, of requested] arg_cong [OF ck, of tag]
        by auto
      have rk: "requested k = 0" "tag k = None" "c \<notin> set us"
        using coh k kc(1) by (auto simp: coherent_def list_all_iff cell_good_def split: if_splits)
      obtain xs ys where L: "L = xs @ (c, k) # ys" using k by (meson split_list)
      have c64: "c < 2 ^ 64" using meta.valid_pointer(2) [OF inv, of c] cell_at_dom [OF kc(2)] by simp
      have t: "tiles (mem s) (items s) (block_words blk) L (block_words blk + block_n_words blk * 8)"
        using rep by (simp add: block_rep_def)
      note cell = tiles_cell [OF t k]
      have guards: "sec_check_guards s c = Ret ()" by (rule check_guards_ok [OF cell(1,5,6) c64])
      have w0: "words k \<noteq> 0" using cell(3) rep by (auto simp: block_rep_def)
      have pv: "prev_cell kc \<noteq> 0" using ring_next(6) [OF r kc(1)] kc(2) by (simp add: prev_at_def)
      have start: "sec_alloc env s b tg len =
          obind (split_cell env s c ?n) (\<lambda>(c', s1). if c' = 0 then Ret (0, s1) else use_cell s1 b c' tg len)"
        using h b0 len b(1) c(1) False rk kf w0 pv guards cell_at_get [OF kc(2)]
        by (simp add: sec_alloc_def Let_def)
      have fit: "len \<le> (?n - 2) * 8" using sec_size_to_words_bound(1) by simp
      have p0: "words k + 8 \<noteq> 0" by simp
      show ?thesis
      proof (cases "?n + 4 < n_words k")
        case False
        have "split_cell env s c ?n = Ret (c, s)" using False kf(2) by (simp add: split_cell_def cell_at_get [OF kc(2)])
        moreover have "\<exists>s' blk' L'. use_cell s b c tg len = Ret (words k + 8, s') \<and>
            block_step env b blk (xs @ (c, k) # ys) s blk' L' s' \<and>
            alloc_result (words k + 8) len (mem s) (xs @ (c, k) # ys) (mem s') L'"
          by (rule alloc_finish [where zs = "[]" and k' = k and us = us and fs = fs])
            (use good inv rep rk kc \<open>c \<noteq> 0\<close> len fit L kf cell_at_dom [OF kc(2)] in
              \<open>auto simp: confined_refl intro: order_trans [OF fit]\<close>)
        then obtain s' blk' L' where "use_cell s b c tg len = Ret (words k + 8, s')"
            "block_step env b blk L s blk' L' s'" "alloc_result (words k + 8) len (mem s) L (mem s') L'"
          unfolding L by blast
        ultimately show ?thesis using start \<open>c \<noteq> 0\<close>
          by (intro exI [of _ "words k + 8"] exI [of _ s'] exI [of _ blk'] exI [of _ L']) simp
      next
        case True
        from split_cell_ok [OF good [unfolded L] inv rk(1) _ True] consider
          s1 where "pool_alloc env s = Ret (0, s1)" "split_cell env s c ?n = Ret (0, s1)"
        | t' c' k' k2 where "split_cell env s c ?n = Ret (c', t')" "pool_inv env t'"
          "block_rep t' b blk (xs @ (c', k') # [(c, k2)] @ ys) us fs" "words k' = words k" "n_words k' = ?n"
          "requested k' = 0" "c' \<notin> set us" "c' \<noteq> 0" "next_at (items t') c' = 0" "prev_at (items t') c' = 0"
          "c' \<notin> dom (items s)" "requested k2 = 0" "tag k2 = None"
          "\<forall>i. \<not> (words k \<le> i \<and> i < words k + n_words k * 8) \<longrightarrow> mem t' i = mem s i"
          "confined b blk {c, c'} s t'" "dom (items t') = insert c' (dom (items s))" by fastforce
        then show ?thesis
        proof cases
          case 1
          have "pool_inv env s1 \<and> mem s1 = mem s \<and> items s1 = items s \<and> all_blocks s1 = all_blocks s"
            by (rule meta.alloc_item [OF inv]) (use 1(1) in auto)
          then have "block_step env b blk L s blk L s1 \<and> mem s1 = mem s"
            using good block_rep_dom [OF rep]
            by (auto simp: block_step_def block_good_def block_rep_def confined_def)
          then show ?thesis using start 1 
            by (intro exI [of _ 0] exI [of _ s1] exI [of _ blk] exI [of _ L]) (auto simp: alloc_result_def)
        next
          case 2
          have "\<exists>s' blk' L'. use_cell t' b c' tg len = Ret (words k + 8, s') \<and>
            block_step env b blk (xs @ (c, k) # ys) s blk' L' s' \<and>
            alloc_result (words k + 8) len (mem s) (xs @ (c, k) # ys) (mem s') L'"
            by (rule alloc_finish [where zs = "[(c, k2)]" and k' = k' and us = us and fs = fs])
              (use good L rk 2 len fit True in auto)
          then obtain s' blk' L' where "use_cell t' b c' tg len = Ret (words k + 8, s')"
              "block_step env b blk L s blk' L' s'" "alloc_result (words k + 8) len (mem s) L (mem s') L'"
            unfolding L by blast
          then show ?thesis using start 2(1,8)
            by (intro exI [of _ "words k + 8"] exI [of _ s'] exI [of _ blk'] exI [of _ L']) simp
        qed
      qed
    qed
  qed
qed

section \<open>Release\<close>

lemma live_cell_ok:
  assumes rep: "block_rep s b blk L us fs" and inv: "pool_inv env s" and c: "(c, k) \<in> set L"
  shows "live_cell s b (words k + 8) = Ret c" "sec_check_guards s c = Ret ()"
    "sec_neighbor s blk (words k) = Ret c" "sec_neighbor s blk (words k + (n_words k - 1) * 8) = Ret c"
proof -
  have t: "tiles (mem s) (items s) (block_words blk) L (block_words blk + block_n_words blk * 8)"
    using rep by (simp add: block_rep_def)
  note cell = tiles_cell [OF t c] and dom = block_rep_cell(2) [OF rep c] and b = block_rep_get [OF rep]
  note ptr = meta.valid_pointer [OF inv dom]
  show g: "sec_check_guards s c = Ret ()" by (rule check_guards_ok [OF cell(1,5,6) ptr(2)])
  have l: "load_ptr s (words k) = Ret c" "load_ptr s (words k + (n_words k - 1) * 8) = Ret c"
    using cell(5,6) ptr(2) by (auto intro: load_ptr_at)
  have v: "sec_is_valid_word blk (words k)" "sec_is_valid_word blk (words k + (n_words k - 1) * 8)"
    using cell(2-4) by (auto simp: sec_is_valid_word_def)
  have "b \<noteq> 0" using meta.valid_pointer(1) [OF inv, of b] b(2) by auto
  with g l v ptr(3) b(1) show "live_cell s b (words k + 8) = Ret c" by (simp add: live_cell_def Let_def)
  from g l v show "sec_neighbor s blk (words k) = Ret c" "sec_neighbor s blk (words k + (n_words k - 1) * 8) = Ret c"
    by (simp_all add: sec_neighbor_def)
qed

text \<open>Memory that is the same except for the guards of a cell at \<open>a\<close> with \<open>n\<close> words.\<close>

definition off_guards :: "nat \<Rightarrow> nat \<Rightarrow> (nat \<rightharpoonup> byte) \<Rightarrow> (nat \<rightharpoonup> byte) \<Rightarrow> bool" where
  "off_guards a n m m' \<longleftrightarrow> (\<forall>i. \<not> (a \<le> i \<and> i < a + 8) \<longrightarrow>
     \<not> (a + (n - 1) * 8 \<le> i \<and> i < a + n * 8) \<longrightarrow> m' i = m i)"

lemma off_guardsD:
  assumes "off_guards a n m m'" and "2 \<le> n"
  shows "\<not> (a \<le> i \<and> i < a + n * 8) \<Longrightarrow> m' i = m i"
    "a + 8 \<le> i \<Longrightarrow> i < a + (n - 1) * 8 \<Longrightarrow> m' i = m i"
  using assms by (auto simp: off_guards_def)

text \<open>Two neighbours become one cell, which keeps the item of one of them.\<close>

lemma merge_rep:
  assumes rep: "block_rep s b blk (xs @ (c1, k1) # (c2, k2) # ys) us fs"
    and d: "d \<in> {c1, c2}" "d' \<in> {c1, c2}" "d \<noteq> d'" "d' \<notin> set us \<union> set fs"
    and at: "cell_at (items s) d = Some kd" and kn: "words kn = words k1" "n_words kn = n_words k1 + n_words k2"
    "next_cell kn = next_cell kd" "prev_cell kn = prev_cell kd"
    and inv: "pool_inv env s"
  shows "\<exists>s1 s2. sec_write_guards (set_cell s d kn) d = Ret s1 \<and> pool_free s1 d' = Ret s2 \<and> pool_inv env s2 \<and>
     block_rep s2 b blk (xs @ (d, core kn) # ys) us fs \<and> confined b blk {c1, c2} s s2 \<and>
     items s2 = (items s)(d \<mapsto> ItemCell kn, d' := None) \<and>
     off_guards (words k1) (n_words k1 + n_words k2) (mem s) (mem s2)"
proof -
  let ?L = "xs @ [(c1, k1), (c2, k2)] @ ys" and ?e = "block_words blk + block_n_words blk * 8"
  have rep': "block_rep s b blk ?L us fs" using rep by simp
  have t: "tiles (mem s) (items s) (block_words blk) ?L ?e" using rep' by (simp add: block_rep_def)
  obtain u v where mid: "tiles (mem s) (items s) u [(c1, k1), (c2, k2)] v" using tiles_mid [OF t] by auto
  have uv: "u = words k1" "v = words k1 + (n_words k1 + n_words k2) * 8" "2 \<le> n_words k1" "2 \<le> n_words k2"
    "words k2 = words k1 + n_words k1 * 8" using mid by auto
  have dis: "{c1, c2} \<inter> fst ` set (xs @ ys) = {}" using tiles_distinct [OF t] by auto
  have db: "b \<notin> {c1, c2}" using block_rep_get(5) [OF rep] by auto
  let ?s0 = "set_cell s d kn"
  have "mapped ?s0 (words kn) (n_words kn * 8)"
    unfolding mapped_iff
  proof (intro allI impI)
    fix i assume i: "words kn \<le> i \<and> i < words kn + n_words kn * 8"
    show "mem ?s0 i \<noteq> None"
      using block_rep_cell(7) [OF rep, of c1 k1] block_rep_cell(7) [OF rep, of c2 k2] uv(5) kn i
      by (cases "i < words k1 + n_words k1 * 8") (auto simp: mapped_iff add_mult_distrib)
  qed
  from write_guards_ok [of ?s0 d kn, OF _ _ this] kn uv obtain m where m:
    "sec_write_guards ?s0 d = Ret (?s0\<lparr>mem := m\<rparr>)" "ptr_at m (words kn) d" "ptr_at m (words kn + (n_words kn - 1) * 8) d"
    "dom m = dom (mem s)"
    "\<And>i. \<not> (words kn \<le> i \<and> i < words kn + 8) \<Longrightarrow>
      \<not> (words kn + (n_words kn - 1) * 8 \<le> i \<and> i < words kn + n_words kn * 8) \<Longrightarrow> m i = mem s i"
    by auto
  let ?s1 = "?s0\<lparr>mem := m\<rparr>"
  have dd: "dom (items ?s1) = dom (items s)" using cell_at_dom [OF at] by auto
  have inv1: "pool_inv env ?s1" by (rule meta.frame_law [OF inv]) (use dd in simp_all)
  have d'dom: "d' \<in> dom (items ?s1)"
    unfolding dd using d(2) block_rep_cell(2) [OF rep, of c1 k1] block_rep_cell(2) [OF rep, of c2 k2] by auto
  obtain s2 where s2: "pool_free ?s1 d' = Ret s2" "pool_inv env s2" "mem s2 = m" "all_blocks s2 = all_blocks s"
    "items s2 = (items s)(d \<mapsto> ItemCell kn, d' := None)"
    using meta.free_item [OF inv1 d'dom] by (metis secmem.select_convs(1,2,4) secmem.surjective secmem.update_convs(1) set_cell_items(1,4))
  have out: "m i = mem s i" if "\<not> (u \<le> i \<and> i < v)" for i using that uv kn by (intro m(5)) auto
  have off: "off_guards (words k1) (n_words k1 + n_words k2) (mem s) m"
    using m(5) unfolding off_guards_def kn by blast
  have new: "tiles (mem s2) (items s2) u [(d, core kn)] v"
    using m(2,3) uv kn d(3) s2(3,5) by auto
  have "block_rep s2 b blk (xs @ [(d, core kn)] @ ys) us fs \<and> confined b blk {c1, c2} s s2"
  proof (rule rep_replace [OF rep' mid _ new])
    show "items s2 x = items s x" if "x \<notin> {c1, c2}" for x using that s2(5) d(1,2) by auto
    show "mem s2 i = mem s i" if "\<not> (u \<le> i \<and> i < v)" for i using that out s2(3) by simp
    show "next_at (items s2) x = next_at (items s) x \<and> prev_at (items s2) x = prev_at (items s) x" if "x \<in> set us \<union> set fs" for x
      using that s2(5) kn at d(3,4) by (auto simp: next_at_def prev_at_def)
    show "set us \<union> set fs \<subseteq> fst ` set (xs @ [(d, core kn)] @ ys)"
      using rep d by (auto simp: block_rep_def)
  qed (use dis db m(4) s2 in auto)
  then show ?thesis using m(1) s2 off uv
    by (intro exI [of _ ?s1] exI [of _ s2]) auto
qed

text \<open>
  The states of a release after the cell has left its ring: \<open>(c, k)\<close> is the cell that is
  being freed, with everything merged into it so far, and \<open>live\<close> are the other allocations; the
  octets from \<open>lo\<close> to \<open>hi\<close> are cleared.
\<close>

definition freeing ::
  "os \<Rightarrow> nat \<Rightarrow> Block \<Rightarrow> (nat \<times> Cell) list \<Rightarrow> secmem \<Rightarrow> (nat \<times> byte list) set \<Rightarrow> nat \<Rightarrow> nat \<Rightarrow> secmem \<Rightarrow> Block \<Rightarrow>
   (nat \<times> Cell) list \<Rightarrow> nat \<Rightarrow> Cell \<Rightarrow> (nat \<times> Cell) list \<Rightarrow> nat list \<Rightarrow> nat list \<Rightarrow> bool" where
  "freeing env b blk L s live lo hi t blkt xs c k ys us fs \<longleftrightarrow>
     pool_inv env t \<and> block_rep t b blkt (xs @ (c, k) # ys) us fs \<and>
     block_words blkt = block_words blk \<and> block_n_words blkt = block_n_words blk \<and> n_used blkt = n_used blk \<and>
     c \<notin> set us \<and> (c \<in> set fs \<or> next_at (items t) c = 0 \<and> prev_at (items t) c = 0) \<and>
     coherent (xs @ ys) (set us) (set fs) \<and> confined b blk (fst ` set L) s t \<and>
     dom (items t) = dom (items s) - fst ` set L \<union> fst ` set (xs @ (c, k) # ys) \<and>
     fst ` set (xs @ (c, k) # ys) \<subseteq> fst ` set L \<and>
     (\<forall>i. \<not> (words k \<le> i \<and> i < words k + n_words k * 8) \<longrightarrow> mem t i = mem s i) \<and>
     live_in (mem s) (xs @ ys) = live \<and>
     words k + 8 \<le> lo \<and> hi \<le> words k + (n_words k - 1) * 8 \<and> (\<forall>i. lo \<le> i \<and> i < hi \<longrightarrow> mem t i = Some 0)"

lemma unused_cell:
  assumes "block_rep t b blk L us fs" and "coherent [(o', ko)] (set us) (set fs)" and "(o', ko) \<in> set L"
    and "requested ko = 0"
  shows "\<exists>k. cell_at (items t) o' = Some k \<and> core k = ko \<and> tag k = None \<and> requested k = 0 \<and> o' \<in> set fs \<and>
     o' \<notin> set us \<and> next_cell k \<noteq> 0 \<and> prev_cell k \<noteq> 0"
proof -
  obtain k where k: "cell_at (items t) o' = Some k" "core k = ko" using block_rep_cell(3) [OF assms(1,3)] by auto
  have o': "o' \<in> set fs" "o' \<notin> set us" "tag ko = None" using assms(2,4) by (auto simp: coherent_def cell_good_def)
  have "ring (items t) (unused_cells blk) fs" using assms(1) by (simp add: block_rep_def)
  from ring_next(5,6) [OF this o'(1)] k have "next_cell k \<noteq> 0" "prev_cell k \<noteq> 0" by (simp_all add: next_at_def prev_at_def)
  moreover have "tag k = None" "requested k = 0"
    using o'(3) assms(4) arg_cong [OF k(2), of tag] arg_cong [OF k(2), of requested] by auto
  ultimately show ?thesis using k o' by auto
qed

lemma merge_before_ok:
  assumes f: "freeing env b blk L s live lo hi t blkt xs c k ys us fs" and cf: "c \<notin> set fs"
  shows "\<exists>c1 t1 xs1 k1. merge_before t b c = Ret (c1, t1) \<and> freeing env b blk L s live lo hi t1 blkt xs1 c1 k1 ys us fs"
proof -
  note f' = f [unfolded freeing_def]
  have rep: "block_rep t b blkt (xs @ (c, k) # ys) us fs" and inv: "pool_inv env t" using f' by auto
  obtain kc where kc: "cell_at (items t) c = Some kc" "core kc = k" using block_rep_cell(3) [OF rep, of c k] by auto
  have kw: "words kc = words k" "n_words kc = n_words k" using arg_cong [OF kc(2), of words] arg_cong [OF kc(2), of n_words] by auto
  have tl: "tiles (mem t) (items t) (block_words blkt) (xs @ (c, k) # ys) (block_words blkt + block_n_words blkt * 8)"
    using rep by (simp add: block_rep_def)
  have nb: "sec_neighbor_before t b c = sec_neighbor t blkt (words k - 8)"
    using block_rep_get(1) [OF rep] kc kw by (simp add: sec_neighbor_before_def cell_at_get)
  show ?thesis
  proof (cases xs rule: rev_cases)
    case Nil
    then have "words k = block_words blkt" "0 < block_words blkt" using tl rep by (auto simp: block_rep_def)
    then have "sec_neighbor t blkt (words k - 8) = Ret 0" by (auto simp: sec_neighbor_def sec_is_valid_word_def)
    then show ?thesis using f nb by (auto simp: merge_before_def)
  next
    case (snoc xs1 ok)
    obtain o' ko where ok: "ok = (o', ko)" by (cases ok)
    have L: "xs @ (c, k) # ys = xs1 @ (o', ko) # (c, k) # ys" using snoc ok by simp
    have mem: "(o', ko) \<in> set (xs @ (c, k) # ys)" unfolding L by simp
    have adj: "words k = words ko + n_words ko * 8" "2 \<le> n_words ko"
      using tl unfolding L by (auto simp: tiles_append)
    then have "words k - 8 = words ko + (n_words ko - 1) * 8" by (simp add: diff_mult_distrib)
    then have n: "sec_neighbor_before t b c = Ret o'" using nb live_cell_ok(4) [OF rep inv mem] by simp
    have o0: "o' \<noteq> 0" using meta.valid_pointer(1) [OF inv block_rep_cell(2) [OF rep mem]] by simp
    show ?thesis
    proof (cases "requested ko = 0")
      case False
      obtain k' where k': "cell_at (items t) o' = Some k'" "core k' = ko" using block_rep_cell(3) [OF rep mem] by auto
      have "requested k' \<noteq> 0" using False arg_cong [OF k'(2), of requested] by simp
      then show ?thesis using f n o0 by (auto simp: merge_before_def cell_at_get [OF k'(1)])
    next
      case True
      have coh: "coherent [(o', ko)] (set us) (set fs)" "coherent (xs1 @ ys) (set us) (set fs)"
        using f' snoc ok by (simp_all add: coherent_def)
      obtain k' where k': "cell_at (items t) o' = Some k'" "core k' = ko" "tag k' = None" "requested k' = 0"
        "o' \<in> set fs" "o' \<notin> set us" "next_cell k' \<noteq> 0" "prev_cell k' \<noteq> 0"
        using unused_cell [OF rep coh(1) mem True] by auto
      define kn where "kn = k'\<lparr>n_words := n_words k' + n_words kc\<rparr>"
      have kn: "words kn = words ko" "n_words kn = n_words ko + n_words k" "next_cell kn = next_cell k'" "prev_cell kn = prev_cell k'"
        "requested kn = 0" "tag kn = None"
        using arg_cong [OF k'(2), of words] arg_cong [OF k'(2), of n_words] kw k' by (auto simp: kn_def)
      have oc: "o' \<noteq> c" using k'(5) cf by auto
      have cuf: "c \<notin> set us \<union> set fs" using f' cf by auto
      from merge_rep [of t b blkt xs1 o' ko c k ys us fs o' c k' kn env] rep [unfolded L] oc cuf k'(1) kn inv obtain s1 s2 where
        s2: "sec_write_guards (set_cell t o' kn) o' = Ret s1" "pool_free s1 c = Ret s2" "pool_inv env s2"
        "block_rep s2 b blkt (xs1 @ (o', core kn) # ys) us fs" "confined b blkt {o', c} t s2"
        "items s2 = (items t)(o' \<mapsto> ItemCell kn, c := None)"
        "off_guards (words ko) (n_words ko + n_words k) (mem t) (mem s2)" by auto
      have eval: "merge_before t b c = Ret (o', s2)"
        using n o0 s2(1,2) k' upd_cell_at [OF k'(1)] kc(1)
        by (simp add: merge_before_def cell_at_get kn_def)
      have c1: "confined b blk (fst ` set L) s t" and inL: "fst ` set (xs @ (c, k) # ys) \<subseteq> fst ` set L" using f' by simp_all
      have c2: "confined b blk {o', c} t s2" using s2(5) f' by (simp add: confined_def in_block_def)
      have "{o', c} \<subseteq> fst ` set L" using inL unfolding L by simp
      then have conf: "confined b blk (fst ` set L) s s2" using confined_trans [OF c1 c2] by (simp add: insert_absorb)
      have out: "mem s2 i = mem s i" if "\<not> (words ko \<le> i \<and> i < words ko + (n_words ko + n_words k) * 8)" for i
      proof -
        have "mem s2 i = mem t i" by (rule off_guardsD(1) [OF s2(7)]) (use adj that in auto)
        then show ?thesis using f' that adj by (auto simp: add_mult_distrib)
      qed
      have lohi: "words k + 8 \<le> lo" "hi \<le> words k + (n_words k - 1) * 8" "\<forall>i. lo \<le> i \<and> i < hi \<longrightarrow> mem t i = Some 0" "2 \<le> n_words k"
        using f' block_rep_cell(4) [OF rep, of c k] by simp_all
      have clear: "mem s2 i = Some 0" if "lo \<le> i \<and> i < hi" for i
      proof -
        have "mem s2 i = mem t i" by (rule off_guardsD(2) [OF s2(7)]) (use lohi adj that in auto)
        then show ?thesis using lohi(3) that by simp
      qed
      have dis: "distinct (map fst (xs1 @ (o', ko) # (c, k) # ys))" using tiles_distinct [OF tl] unfolding L .
      have dd: "dom (items t) = dom (items s) - fst ` set L \<union> fst ` set (xs1 @ (o', ko) # (c, k) # ys)" "c \<in> fst ` set L"
        using f' L by auto
      have "dom (items s2) = dom (items s) - fst ` set L \<union> fst ` set (xs1 @ (o', core kn) # ys)"
        using dis oc dd(2) unfolding s2(6) by (auto simp: dd(1))
      moreover have "live_in (mem s) (xs1 @ ys) = live" using f' snoc ok True by (auto simp: live_in_simps)
      moreover have "fst ` set (xs1 @ (o', core kn) # ys) \<subseteq> fst ` set L" using f' L by auto
      ultimately have "freeing env b blk L s live lo hi s2 blkt xs1 o' (core kn) ys us fs"
        unfolding freeing_def using s2(3,4) f' k'(5,6) coh(2) conf out kn clear lohi(1,2,4) adj by auto
      with eval show ?thesis by blast
    qed
  qed
qed

lemma ring_drop: "ring its r xs \<Longrightarrow> c \<notin> set xs \<Longrightarrow> ring (its(c := None)) r xs"
  by (rule ring_frame) (auto simp: ring_def)

lemma ring_set_cell:
  "ring its r xs \<Longrightarrow> cell_at its c = Some k \<Longrightarrow> next_cell k' = next_cell k \<Longrightarrow> prev_cell k' = prev_cell k \<Longrightarrow>
   ring (its(c \<mapsto> ItemCell k')) r xs"
  by (rule ring_frame) (auto simp: ring_def next_at_def prev_at_def)

text \<open>Taking a cell out of the unused ring while the layout is being changed.\<close>

lemma remove_unused_rings:
  assumes b: "items s b = Some (ItemBlock blk)" and r: "ring (items s) (used_cells blk) us" "ring (items s) (unused_cells blk) fs"
    and d: "set us \<inter> set fs = {}" and c: "c \<in> set fs"
  shows "\<exists>s' fs' r. remove_unused s b c = Ret s' \<and> items s' b = Some (ItemBlock (blk\<lparr>unused_cells := r\<rparr>)) \<and>
     ring (items s') (used_cells blk) us \<and> ring (items s') r fs' \<and> set fs' = set fs - {c} \<and> linkstep b (set fs) s s'"
proof -
  have bn: "b \<notin> set us" "b \<notin> set fs" using r b by (auto simp: ring_def cell_at_def)
  from remove_ring [OF r(2) c] obtain r' s1 fs' where
    i: "sec_remove_cell_ring s (unused_cells blk) c = Ret (r', s1)" "ring (items s1) r' fs'" "set fs' = set fs - {c}"
      "relinked (set fs) s s1" by blast
  let ?s = "set_block s1 b (blk\<lparr>unused_cells := r'\<rparr>)"
  have "linkstep b (set fs) s ?s" by (rule linkstepI [OF i(4) b bn(2)])
  moreover have "ring (items ?s) r' fs'" using ring_set_block [OF i(2), of b] bn i(3) by auto
  moreover have "ring (items ?s) (used_cells blk) us"
    using ring_disjoint_relinked [OF r(1) i(4), of b] bn d by auto
  ultimately show ?thesis using i(1,3) b
    by (intro exI [of _ ?s] exI [of _ fs'] exI [of _ r'])
      (simp add: remove_unused_def get_block_def block_of_def)
qed

lemma merge_after_rep:
  assumes rep: "block_rep t b blk (xs @ (c, k) # (o', ko) # ys) us fs" and inv: "pool_inv env t"
    and c: "c \<notin> set us" "c \<in> set fs \<or> next_at (items t) c = 0" and o': "o' \<in> set fs"
    and at: "cell_at (items t) o' = Some kd" "cell_at (items t) c = Some kc"
    and kn: "words kn = words k" "n_words kn = n_words k + n_words ko" "next_cell kn = next_cell kd" "prev_cell kn = prev_cell kd"
  shows "\<exists>s2 s3 s4 fs' r. (if next_cell kc \<noteq> 0 then remove_unused (set_cell t o' kn) b c else Ret (set_cell t o' kn)) = Ret s2 \<and>
     sec_write_guards s2 o' = Ret s3 \<and> pool_free s3 c = Ret s4 \<and> pool_inv env s4 \<and>
     block_rep s4 b (blk\<lparr>unused_cells := r\<rparr>) (xs @ (o', core kn) # ys) us fs' \<and> set fs' = set fs - {c} \<and>
     confined b blk (fst ` set (xs @ (c, k) # (o', ko) # ys)) t s4 \<and> dom (items s4) = dom (items t) - {c} \<and>
     off_guards (words k) (n_words k + n_words ko) (mem t) (mem s4)"
proof -
  let ?L = "xs @ [(c, k), (o', ko)] @ ys" and ?e = "block_words blk + block_n_words blk * 8" and ?s1 = "set_cell t o' kn"
  have tl: "tiles (mem t) (items t) (block_words blk) ?L ?e" and rings: "ring (items t) (used_cells blk) us"
    "ring (items t) (unused_cells blk) fs" "set us \<inter> set fs = {}" "set us \<union> set fs \<subseteq> fst ` set ?L"
    using rep by (auto simp: block_rep_def)
  obtain u v where mid: "tiles (mem t) (items t) u [(c, k), (o', ko)] v" using tiles_mid [OF tl] by auto
  have uv: "u = words k" "v = words k + (n_words k + n_words ko) * 8" "2 \<le> n_words k" "2 \<le> n_words ko"
    "words ko = words k + n_words k * 8" using mid by auto
  have dis: "c \<notin> fst ` set (xs @ ys)" "o' \<notin> fst ` set (xs @ ys)" "o' \<noteq> c" using tiles_distinct [OF tl] by auto
  have bn: "b \<noteq> o'" "b \<noteq> c" "items t b = Some (ItemBlock blk)" using block_rep_get(2,5) [OF rep] by auto
  have r1: "ring (items ?s1) (used_cells blk) us" "ring (items ?s1) (unused_cells blk) fs"
    using rings(1,2) at(1) kn by (auto intro: ring_set_cell)
  have nx: "next_cell kc = next_at (items t) c" using at(2) by (simp add: next_at_def)
  have b1: "items ?s1 b = Some (ItemBlock blk)" using bn by simp
  have "\<exists>s2 fs' r. (if next_cell kc \<noteq> 0 then remove_unused ?s1 b c else Ret ?s1) = Ret s2 \<and>
      items s2 b = Some (ItemBlock (blk\<lparr>unused_cells := r\<rparr>)) \<and> ring (items s2) (used_cells blk) us \<and>
      ring (items s2) r fs' \<and> set fs' = set fs - {c} \<and> linkstep b (set fs) ?s1 s2"
  proof (cases "c \<in> set fs")
    case True
    then have "next_cell kc \<noteq> 0" using ring_next(5) [OF rings(2) True] nx by simp
    then show ?thesis using remove_unused_rings [OF b1 r1 rings(3) True] by auto
  next
    case False
    then have "next_cell kc = 0" using c(2) nx by simp
    then show ?thesis using False r1 b1
      by (intro exI [of _ ?s1] exI [of _ fs] exI [of _ "unused_cells blk"]) (auto simp: linkstep_def)
  qed
  then obtain s2 fs' r where s2: "(if next_cell kc \<noteq> 0 then remove_unused ?s1 b c else Ret ?s1) = Ret s2"
    "items s2 b = Some (ItemBlock (blk\<lparr>unused_cells := r\<rparr>))" "ring (items s2) (used_cells blk) us" "ring (items s2) r fs'"
    "set fs' = set fs - {c}" "linkstep b (set fs) ?s1 s2" by blast
  have m2: "mem s2 = mem t" "pool_data s2 = pool_data t" "all_blocks s2 = all_blocks t" "dom (items s2) = dom (items t)"
    using s2(6) cell_at_dom [OF at(1)] by (auto simp: linkstep_def)
  have core2: "core_at (items s2) x = (if x = o' then Some (core kn) else core_at (items t) x)" for x
    using s2(6) by (simp add: linkstep_def)
  then obtain ko2 where ko2: "cell_at (items s2) o' = Some ko2" "core ko2 = core kn" using core_at_SomeD [of "items s2" o'] by auto
  have kw: "words ko2 = words k" "n_words ko2 = n_words k + n_words ko"
    using arg_cong [OF ko2(2), of words] arg_cong [OF ko2(2), of n_words] kn by auto
  have "mapped s2 (words ko2) (n_words ko2 * 8)"
    unfolding mapped_iff
  proof (intro allI impI)
    fix i assume i: "words ko2 \<le> i \<and> i < words ko2 + n_words ko2 * 8"
    show "mem s2 i \<noteq> None"
      using block_rep_cell(7) [OF rep, of c k] block_rep_cell(7) [OF rep, of o' ko] uv(5) kw i m2(1)
      by (cases "i < words k + n_words k * 8") (auto simp: mapped_iff add_mult_distrib)
  qed
  from write_guards_ok [OF ko2(1) _ this] kw uv obtain m where m:
    "sec_write_guards s2 o' = Ret (s2\<lparr>mem := m\<rparr>)" "ptr_at m (words k) o'"
    "ptr_at m (words k + (n_words k + n_words ko - 1) * 8) o'" "dom m = dom (mem t)"
    "\<And>i. \<not> (words k \<le> i \<and> i < words k + 8) \<Longrightarrow>
      \<not> (words k + (n_words k + n_words ko - 1) * 8 \<le> i \<and> i < words k + (n_words k + n_words ko) * 8) \<Longrightarrow> m i = mem t i"
    using m2(1) by auto
  let ?s3 = "s2\<lparr>mem := m\<rparr>"
  have inv3: "pool_inv env ?s3" by (rule meta.frame_law [OF inv]) (use m2 in simp_all)
  have "c \<in> dom (items ?s3)" using m2(4) cell_at_dom [OF at(2)] by simp
  from meta.free_item [OF inv3 this] obtain s4 where s4: "pool_free ?s3 c = Ret s4" "pool_inv env s4" "mem s4 = m"
    "all_blocks s4 = all_blocks t" "items s4 = (items s2)(c := None)" using m2(3) by auto
  have out: "m i = mem t i" if "\<not> (u \<le> i \<and> i < v)" for i using that uv by (intro m(5)) auto
  have new: "tiles (mem s4) (items s4) u [(o', core kn)] v"
    using m(2,3) uv kn dis(3) s4(3,5) core2 by auto
  have "tiles (mem s4) (items s4) (block_words blk) (xs @ [(o', core kn)] @ ys) ?e"
  proof (rule tiles_replace [OF tl mid _ new])
    fix x assume x: "x \<in> fst ` set (xs @ ys)"
    then have "x \<noteq> c" "x \<noteq> o'" using dis by blast+
    then show "core_at (items s4) x = core_at (items t) x" by (simp add: s4(5) core2)
  qed (use out s4(3) in auto)
  moreover have "ring (items s4) (used_cells blk) us" "ring (items s4) r fs'"
    unfolding s4(5) by (rule ring_drop [OF s2(3) c(1)], rule ring_drop [OF s2(4)], simp add: s2(5))
  moreover have "set us \<inter> set fs' = {}" "set us \<union> set fs' \<subseteq> fst ` set (xs @ [(o', core kn)] @ ys)"
    using rings(3,4) s2(5) c(1) by auto
  moreover have "\<forall>i. in_block (blk\<lparr>unused_cells := r\<rparr>) i \<longrightarrow> mem s4 i \<noteq> None"
  proof (intro allI impI)
    fix i assume "in_block (blk\<lparr>unused_cells := r\<rparr>) i"
    then have "i \<in> dom (mem t)" using rep by (auto simp: block_rep_def in_block_def)
    then show "mem s4 i \<noteq> None" unfolding m(4) [symmetric] s4(3) by auto
  qed
  moreover have "items s4 b = Some (ItemBlock (blk\<lparr>unused_cells := r\<rparr>))" "0 < block_words blk"
    using s2(2) s4(5) bn rep by (simp_all add: block_rep_def)
  ultimately have rep4: "block_rep s4 b (blk\<lparr>unused_cells := r\<rparr>) (xs @ (o', core kn) # ys) us fs'"
    unfolding block_rep_def by simp
  have "confined b blk (fst ` set ?L) t s4"
    unfolding confined_def
  proof (intro conjI allI impI)
    fix x assume x: "x \<notin> insert b (fst ` set ?L)"
    then have "x \<notin> insert b (set fs)" "x \<noteq> c" "x \<noteq> o'" using rings(4) by auto
    then show "items s4 x = items t x" using s2(6) s4(5) by (simp add: linkstep_def)
  next
    fix i assume "\<not> in_block blk i"
    then have "\<not> (u \<le> i \<and> i < v)"
      using block_rep_cell(5,6) [OF rep, of c k] block_rep_cell(6) [OF rep, of o' ko] uv by (auto simp: in_block_def add_mult_distrib)
    then show "mem s4 i = mem t i" using out s4(3) by simp
  qed (use m(4) s4 in auto)
  moreover have "off_guards (words k) (n_words k + n_words ko) (mem t) (mem s4)"
    using m(5) unfolding off_guards_def s4(3) by blast
  ultimately show ?thesis using s2(1,5) m(1) s4(1,2,5) rep4 m2(4)
    by (intro exI [of _ s2] exI [of _ ?s3] exI [of _ s4] exI [of _ fs'] exI [of _ r]) simp
qed

lemma merge_after_ok:
  assumes f: "freeing env b blk L s live lo hi t blkt xs c k ys us fs"
  shows "\<exists>c1 t1 blk1 k1 ys1 fs1. merge_after t b c = Ret (c1, t1) \<and>
     freeing env b blk L s live lo hi t1 blk1 xs c1 k1 ys1 us fs1"
proof -
  note f' = f [unfolded freeing_def]
  have rep: "block_rep t b blkt (xs @ (c, k) # ys) us fs" and inv: "pool_inv env t" using f' by auto
  obtain kc where kc: "cell_at (items t) c = Some kc" "core kc = k" using block_rep_cell(3) [OF rep, of c k] by auto
  have kw: "words kc = words k" "n_words kc = n_words k" using arg_cong [OF kc(2), of words] arg_cong [OF kc(2), of n_words] by auto
  have tl: "tiles (mem t) (items t) (block_words blkt) (xs @ (c, k) # ys) (block_words blkt + block_n_words blkt * 8)"
    using rep by (simp add: block_rep_def)
  have nb: "sec_neighbor_after t b c = sec_neighbor t blkt (words k + n_words k * 8)"
    using block_rep_get(1) [OF rep] kc kw by (simp add: sec_neighbor_after_def cell_at_get)
  show ?thesis
  proof (cases ys)
    case Nil
    then have "words k + n_words k * 8 = block_words blkt + block_n_words blkt * 8" using tl by (auto simp: tiles_append)
    then have "sec_neighbor t blkt (words k + n_words k * 8) = Ret 0" by (auto simp: sec_neighbor_def sec_is_valid_word_def)
    then show ?thesis using f nb by (auto simp: merge_after_def)
  next
    case (Cons ok ys1)
    obtain o' ko where ok: "ok = (o', ko)" by (cases ok)
    have L: "xs @ (c, k) # ys = xs @ (c, k) # (o', ko) # ys1" using Cons ok by simp
    have mem: "(o', ko) \<in> set (xs @ (c, k) # ys)" unfolding L by simp
    have adj: "words ko = words k + n_words k * 8" "2 \<le> n_words ko" "2 \<le> n_words k"
      using tl unfolding L by (auto simp: tiles_append)
    have n: "sec_neighbor_after t b c = Ret o'" using nb live_cell_ok(3) [OF rep inv mem] adj by simp
    have o0: "o' \<noteq> 0" using meta.valid_pointer(1) [OF inv block_rep_cell(2) [OF rep mem]] by simp
    show ?thesis
    proof (cases "requested ko = 0")
      case False
      obtain k' where k': "cell_at (items t) o' = Some k'" "core k' = ko" using block_rep_cell(3) [OF rep mem] by auto
      have "requested k' \<noteq> 0" using False arg_cong [OF k'(2), of requested] by simp
      then have "merge_after t b c = Ret (c, t)" using n o0 by (simp add: merge_after_def cell_at_get [OF k'(1)])
      then show ?thesis using f by blast
    next
      case True
      have coh: "coherent [(o', ko)] (set us) (set fs)" "coherent (xs @ ys1) (set us) (set fs)"
        using f' Cons ok by (simp_all add: coherent_def)
      obtain k' where k': "cell_at (items t) o' = Some k'" "core k' = ko" "tag k' = None" "requested k' = 0"
        "o' \<in> set fs" "o' \<notin> set us" "next_cell k' \<noteq> 0" "prev_cell k' \<noteq> 0"
        using unused_cell [OF rep coh(1) mem True] by auto
      define kn where "kn = k'\<lparr>n_words := n_words k' + n_words kc, words := words kc\<rparr>"
      have kn: "words kn = words k" "n_words kn = n_words k + n_words ko" "next_cell kn = next_cell k'" "prev_cell kn = prev_cell k'"
        using arg_cong [OF k'(2), of n_words] kw k' by (auto simp: kn_def)
      have cl: "c \<notin> set us" "c \<in> set fs \<or> next_at (items t) c = 0" using f' by auto
      from merge_after_rep [OF rep [unfolded L] inv cl k'(5,1) kc(1) kn] obtain s2 s3 s4 fs1 r where
        s4: "(if next_cell kc \<noteq> 0 then remove_unused (set_cell t o' kn) b c else Ret (set_cell t o' kn)) = Ret s2"
        "sec_write_guards s2 o' = Ret s3" "pool_free s3 c = Ret s4" "pool_inv env s4"
        "block_rep s4 b (blkt\<lparr>unused_cells := r\<rparr>) (xs @ (o', core kn) # ys1) us fs1" "set fs1 = set fs - {c}"
        "confined b blkt (fst ` set (xs @ (c, k) # (o', ko) # ys1)) t s4" "dom (items s4) = dom (items t) - {c}"
        "off_guards (words k) (n_words k + n_words ko) (mem t) (mem s4)" by auto
      have eval: "merge_after t b c = Ret (o', s4)"
        using n o0 s4(1) [unfolded kn_def] s4(2,3) k' upd_cell_at [OF k'(1)] kc(1)
        by (cases "next_cell kc = 0") (simp_all add: merge_after_def cell_at_get)
      have c1: "confined b blk (fst ` set L) s t" and inL: "fst ` set (xs @ (c, k) # (o', ko) # ys1) \<subseteq> fst ` set L"
        using f' L by simp_all
      have c2: "confined b blk (fst ` set (xs @ (c, k) # (o', ko) # ys1)) t s4" using s4(7) f' by (simp add: confined_def in_block_def)
      have conf: "confined b blk (fst ` set L) s s4" using confined_trans [OF c1 c2] inL by (simp only: Un_absorb2)
      have out: "mem s4 i = mem s i" if i: "\<not> (words k \<le> i \<and> i < words k + (n_words k + n_words ko) * 8)" for i
      proof -
        have "mem s4 i = mem t i" by (rule off_guardsD(1) [OF s4(9)]) (use adj i in auto)
        then show ?thesis using f' i by (auto simp: add_mult_distrib)
      qed
      have lohi: "words k + 8 \<le> lo" "hi \<le> words k + (n_words k - 1) * 8" "\<forall>i. lo \<le> i \<and> i < hi \<longrightarrow> mem t i = Some 0"
        using f' by simp_all
      have clear: "mem s4 i = Some 0" if i: "lo \<le> i \<and> i < hi" for i
      proof -
        have "mem s4 i = mem t i" by (rule off_guardsD(2) [OF s4(9)]) (use lohi adj i in auto)
        then show ?thesis using lohi(3) i by simp
      qed
      have dis: "distinct (map fst (xs @ (c, k) # (o', ko) # ys1))" using tiles_distinct [OF tl] unfolding L .
      have dd: "dom (items t) = dom (items s) - fst ` set L \<union> fst ` set (xs @ (c, k) # (o', ko) # ys1)" "c \<in> fst ` set L"
        using f' L by auto
      have d4: "dom (items s4) = dom (items s) - fst ` set L \<union> fst ` set (xs @ (o', core kn) # ys1)"
        using dis dd(2) unfolding s4(8) dd(1) by auto
      have coh1: "coherent (xs @ ys1) (set us) (set fs1)"
        by (rule coherent_cong [OF coh(2)]) (use dis s4(6) in auto)
      have "o' \<in> set fs1" using k'(5) s4(6) dis by auto
      moreover have "live_in (mem s) (xs @ ys1) = live" using f' Cons ok True by (auto simp: live_in_simps)
      moreover have "fst ` set (xs @ (o', core kn) # ys1) \<subseteq> fst ` set L" using inL by auto
      ultimately have "freeing env b blk L s live lo hi s4 (blkt\<lparr>unused_cells := r\<rparr>) xs o' (core kn) ys1 us fs1"
        unfolding freeing_def using s4(4,5) f' k'(6) coh1 conf out d4 kn clear lohi(1,2) adj by auto
      with eval show ?thesis by blast
    qed
  qed
qed

lemma free_finish:
  assumes f: "freeing env b blk L s live lo hi t blkt xs c k ys us fs" and nu: "n_used blk = Suc (length us)"
  shows "\<exists>s' blk' L'. obind (get_cell t c) (\<lambda>cell. obind (if next_cell cell = 0 then insert_unused t b c else Ret t) (\<lambda>s5.
       obind (upd_cell s5 c (\<lambda>k. k\<lparr>tag := None, requested := 0\<rparr>)) (\<lambda>s6. add_used_count s6 b (\<lambda>n. n - 1)))) = Ret s' \<and>
     block_step env b blk L s blk' L' s' \<and> live_in (mem s') L' = live \<and> n_used blk' = length us \<and>
     (\<forall>i. lo \<le> i \<and> i < hi \<longrightarrow> mem s' i = Some 0)"
proof -
  note f' = f [unfolded freeing_def]
  have rep: "block_rep t b blkt (xs @ (c, k) # ys) us fs" and inv: "pool_inv env t" using f' by auto
  obtain kc where kc: "cell_at (items t) c = Some kc" "core kc = k" using block_rep_cell(3) [OF rep, of c k] by auto
  have c0: "c \<noteq> 0" using meta.valid_pointer(1) [OF inv cell_at_dom [OF kc(1)]] by simp
  have nx: "next_cell kc = next_at (items t) c" using kc by (simp add: next_at_def)
  have ring: "ring (items t) (unused_cells blkt) fs" using rep by (simp add: block_rep_def)
  have "\<exists>s5 fs' r. (if next_cell kc = 0 then insert_unused t b c else Ret t) = Ret s5 \<and>
      block_rep s5 b (blkt\<lparr>unused_cells := r\<rparr>) (xs @ (c, k) # ys) us fs' \<and> set fs' = insert c (set fs) \<and>
      linkstep b (insert c (set fs)) t s5"
  proof (cases "c \<in> set fs")
    case True
    then have "next_cell kc \<noteq> 0" using ring_next(5) [OF ring True] nx by simp
    then show ?thesis using True rep
      by (intro exI [of _ t] exI [of _ fs] exI [of _ "unused_cells blkt"]) (auto simp: linkstep_def)
  next
    case False
    then have z: "next_at (items t) c = 0" "prev_at (items t) c = 0" "c \<notin> set us" using f' by auto
    from insert_unused_rep [OF rep _ z(3) False c0 z(1,2)] z(1) nx show ?thesis by auto
  qed
  then obtain s5 fs' r where s5: "(if next_cell kc = 0 then insert_unused t b c else Ret t) = Ret s5"
    "block_rep s5 b (blkt\<lparr>unused_cells := r\<rparr>) (xs @ (c, k) # ys) us fs'" "set fs' = insert c (set fs)"
    "linkstep b (insert c (set fs)) t s5" by blast
  obtain k5 where k5: "cell_at (items s5) c = Some k5" "core k5 = k" using block_rep_cell(3) [OF s5(2), of c k] by auto
  define s6 where "s6 = set_cell s5 c (k5\<lparr>tag := None, requested := 0\<rparr>)"
  define k6 where "k6 = k\<lparr>tag := None, requested := 0\<rparr>"
  have ck: "core (k5\<lparr>tag := None, requested := 0\<rparr>) = k6" unfolding k6_def k5(2) [symmetric] by (simp add: core_def)
  have r6: "block_rep s6 b (blkt\<lparr>unused_cells := r\<rparr>) (xs @ (c, k6) # ys) us fs'"
    using rep_set_cell [OF s5(2) k5(1), of "k5\<lparr>tag := None, requested := 0\<rparr>"] unfolding s6_def ck by simp
  define blk7 where "blk7 = blkt\<lparr>unused_cells := r, n_used := length us\<rparr>"
  define s7 where "s7 = set_block s6 b blk7"
  have nb: "n_used blkt = Suc (length us)" using f' nu by simp
  have s7: "add_used_count s6 b (\<lambda>n. n - 1) = Ret s7" "block_rep s7 b blk7 (xs @ (c, k6) # ys) us fs'" "linkstep b {} s6 s7"
    using rep_count [OF r6, of "\<lambda>n. n - 1"] nb by (simp_all add: s7_def blk7_def)
  have eval: "obind (get_cell t c) (\<lambda>cell. obind (if next_cell cell = 0 then insert_unused t b c else Ret t) (\<lambda>s5.
       obind (upd_cell s5 c (\<lambda>k. k\<lparr>tag := None, requested := 0\<rparr>)) (\<lambda>s6. add_used_count s6 b (\<lambda>n. n - 1)))) = Ret s7"
    using s5(1) s7(1) by (simp add: cell_at_get [OF kc(1)] upd_cell_at [OF k5(1)] flip: s6_def)
  have tl: "tiles (mem t) (items t) (block_words blkt) (xs @ [(c, k)] @ ys) (block_words blkt + block_n_words blkt * 8)"
    using rep by (simp add: block_rep_def)
  have dis: "c \<notin> fst ` set (xs @ ys)" using tiles_distinct [OF tl] by auto
  have "coherent (xs @ ys) (set us) (set fs')"
  proof (rule coherent_cong)
    show "coherent (xs @ ys) (set us) (set fs)" using f' by simp
    fix x assume "x \<in> fst ` set (xs @ ys)"
    then have "x \<noteq> c" using dis by blast
    then show "(x \<in> set us \<longleftrightarrow> x \<in> set us) \<and> (x \<in> set fs' \<longleftrightarrow> x \<in> set fs)" using s5(3) by simp
  qed
  then have "coherent (xs @ (c, k6) # ys) (set us) (set fs')"
    using f' s5(3) by (simp add: coherent_def k6_def cell_good_def)
  then have good: "block_good s7 b blk7 (xs @ (c, k6) # ys) us fs'"
    using s7(2) by (simp add: block_good_def blk7_def)
  have m7: "mem s7 = mem t" "pool_data s7 = pool_data t" "dom (items s7) = dom (items t)"
    using s5(4) s7(3) cell_at_dom [OF k5(1)] by (auto simp: linkstep_def s6_def)
  have inv7: "pool_inv env s7" by (rule meta.frame_law [OF inv m7(2,3)])
  have sub: "set fs \<subseteq> fst ` set (xs @ (c, k) # ys)" "fst ` set (xs @ (c, k) # ys) \<subseteq> fst ` set L"
    using rep f' by (simp_all add: block_rep_def)
  have cL: "insert c (set fs) \<subseteq> fst ` set L" using order_trans [OF sub] sub(2) by (metis image_eqI in_set_conv_decomp fst_conv insert_subset subsetD)
  have conf: "confined b blk (fst ` set L) s s7"
  proof -
    have a: "confined b blk (fst ` set L) s t" "confined b blk (fst ` set L) t s5"
      using f' linkstep_confined [OF s5(4)] cL by (auto intro: confined_mono)
    have "confined b blk (fst ` set L) s5 s6" "confined b blk (fst ` set L) s6 s7"
      using cL linkstep_confined [OF s7(3)] by (auto intro: confined_mono simp: s6_def confined_def)
    with a show ?thesis by (metis confined_trans sup.idem)
  qed
  have fsts: "fst ` set (xs @ (c, k6) # ys) = fst ` set (xs @ (c, k) # ys)" by auto
  have step: "block_step env b blk L s blk7 (xs @ (c, k6) # ys) s7"
    unfolding block_step_def fsts
  proof (intro conjI)
    show "\<exists>us fs. block_good s7 b blk7 (xs @ (c, k6) # ys) us fs" using good by blast
    show "confined b blk (fst ` set L \<union> fst ` set (xs @ (c, k) # ys)) s s7" using conf sub(2) by (simp only: Un_absorb2)
  qed (use inv7 f' m7(3) sub(2) in \<open>auto simp: blk7_def\<close>)
  obtain p q where pq: "tiles (mem t) (items t) (block_words blkt) xs p" "words k = p" "q = p + n_words k * 8"
    "tiles (mem t) (items t) q ys (block_words blkt + block_n_words blkt * 8)" using tl by (auto simp: tiles_append)
  have out: "mem t i = mem s i" if "i < p \<or> q \<le> i" for i using f' that pq(2,3) by auto
  have coh: "coherent xs (set us) (set fs)" "coherent ys (set us) (set fs)" using f' by (simp_all add: coherent_def)
  have "live_in (mem s) xs = live_in (mem t) xs" by (rule live_in_cong [OF coh(1) pq(1)]) (simp add: out)
  moreover have "live_in (mem s) ys = live_in (mem t) ys" by (rule live_in_cong [OF coh(2) pq(4)]) (simp add: out)
  ultimately have "live_in (mem s7) (xs @ (c, k6) # ys) = live" using f' m7(1) by (simp add: live_in_simps k6_def)
  with eval step f' m7(1) show ?thesis
    by (intro exI [of _ s7] exI [of _ blk7] exI [of _ "xs @ (c, k6) # ys"]) (simp add: blk7_def)
qed

lemma live_others:
  assumes "block_good s b blk (xs @ (c, k) # ys) us fs" and "0 < requested k"
  shows "live_in m (xs @ ys) = live_in m (xs @ (c, k) # ys) - {(words k + 8, octets m (words k + 8) (requested k))}"
proof -
  have t: "tiles (mem s) (items s) (block_words blk) (xs @ [(c, k)] @ ys) (block_words blk + block_n_words blk * 8)"
    using assms(1) by (simp add: block_good_def block_rep_def)
  then obtain p q where pq: "tiles (mem s) (items s) (block_words blk) xs p" "words k = p" "q = p + n_words k * 8" "2 \<le> n_words k"
    "tiles (mem s) (items s) q ys (block_words blk + block_n_words blk * 8)" by (auto simp: tiles_append)
  have "words k + 8 \<notin> fst ` live_in m (xs @ ys)"
    using live_in_outside [OF pq(1), of _ _ m] live_in_outside [OF pq(5), of _ _ m] pq(2-4) by (fastforce simp: live_in_simps)
  with assms(2) show ?thesis by (force simp: live_in_simps)
qed

lemma sec_free_ok:
  assumes good: "block_good s b blk L us fs" and inv: "pool_inv env s" and c: "(c, k) \<in> set L" "0 < requested k"
  shows "\<exists>s' blk' L'. sec_free s b (words k + 8) = Ret s' \<and> block_step env b blk L s blk' L' s' \<and>
     live_in (mem s') L' = live_in (mem s) L - {(words k + 8, octets (mem s) (words k + 8) (requested k))} \<and>
     Suc (n_used blk') = n_used blk \<and>
     (\<forall>i. words k + 8 \<le> i \<and> i < words k + 8 + requested k \<longrightarrow> mem s' i = Some 0)"
proof -
  let ?p = "words k + 8" and ?bs = "replicate (requested k) (0 :: byte)"
  have rep: "block_rep s b blk L us fs" and coh: "coherent L (set us) (set fs)" and nu: "n_used blk = length us"
    using good by (auto simp: block_good_def)
  obtain xs ys where L: "L = xs @ (c, k) # ys" using c(1) by (meson split_list)
  have ck: "cell_good k" "c \<in> set us" "c \<notin> set fs" "coherent (xs @ ys) (set us) (set fs)"
    using coh c(2) unfolding L by (auto simp: coherent_def)
  have fit: "requested k \<le> (n_words k - 2) * 8" "tag k \<noteq> None" using ck(1) c(2) by (auto simp: cell_good_def)
  have n2: "2 \<le> n_words k" by (rule block_rep_cell(4) [OF rep c(1)])
  obtain kc where kc: "cell_at (items s) c = Some kc" "core kc = k" using block_rep_cell(3) [OF rep c(1)] by auto
  have kf: "requested kc = requested k" "tag kc = tag k"
    using arg_cong [OF kc(2), of requested] arg_cong [OF kc(2), of tag] by auto
  define s1 where "s1 = s\<lparr>mem := write_octets (mem s) ?p ?bs\<rparr>"
  have w: "memwrite s ?p ?bs = Ret s1" "block_rep s1 b blk L us fs" "confined b blk {} s s1"
    using rep_write [OF rep c(1), of ?p ?bs] fit n2 by (auto simp: s1_def)
  have inv1: "pool_inv env s1" by (rule meta.frame_law [OF inv]) (simp_all add: s1_def)
  have g1: "sec_check_guards s1 c = Ret ()" by (rule live_cell_ok(2) [OF w(2) inv1 c(1)])
  from remove_used_rep [OF w(2) ck(2)] obtain s2 us2 r where s2: "remove_used s1 b c = Ret s2"
    "block_rep s2 b (blk\<lparr>used_cells := r\<rparr>) L us2 fs" "set us2 = set us - {c}" "Suc (length us2) = length us"
    "linkstep b (set us) s1 s2" "next_at (items s2) c = 0" "prev_at (items s2) c = 0" by blast
  have m2: "mem s2 = write_octets (mem s) ?p ?bs" "pool_data s2 = pool_data s" "dom (items s2) = dom (items s)"
    using s2(5) by (auto simp: linkstep_def s1_def)
  have dis: "c \<notin> fst ` set (xs @ ys)"
  proof -
    have "distinct (map fst L)" using rep by (auto simp: block_rep_def dest: tiles_distinct)
    then show ?thesis by (auto simp: L)
  qed
  have coh2: "coherent (xs @ ys) (set us2) (set fs)"
  proof (rule coherent_cong [OF ck(4)])
    fix x assume "x \<in> fst ` set (xs @ ys)"
    then have "x \<noteq> c" using dis by blast
    then show "(x \<in> set us2 \<longleftrightarrow> x \<in> set us) \<and> (x \<in> set fs \<longleftrightarrow> x \<in> set fs)" using s2(3) by simp
  qed
  have sub: "set us \<subseteq> fst ` set L" "fst ` set L \<subseteq> dom (items s)" using rep block_rep_dom [OF rep] by (auto simp: block_rep_def)
  have conf: "confined b blk (fst ` set L) s s2"
    by (rule confined_mono [OF confined_trans [OF w(3) linkstep_confined [OF s2(5)]]]) (use sub(1) in simp)
  define live where "live = live_in (mem s) L - {(?p, octets (mem s) ?p (requested k))}"
  have lv: "live_in (mem s) (xs @ ys) = live" unfolding live_def L by (rule live_others [OF good [unfolded L] c(2)])
  have out: "mem s2 i = mem s i" if "\<not> (words k \<le> i \<and> i < words k + n_words k * 8)" for i
    using that fit n2 unfolding m2(1) by (subst write_octets_out) auto
  have clr: "mem s2 i = Some 0" if "?p \<le> i \<and> i < ?p + requested k" for i
    using that unfolding m2(1) by (subst write_octets_in) auto
  have f2: "freeing env b blk L s live ?p (?p + requested k) s2 (blk\<lparr>used_cells := r\<rparr>) xs c k ys us2 fs"
    unfolding freeing_def L [symmetric]
    by (intro conjI) (use meta.frame_law [OF inv m2(2,3)] s2 ck coh2 conf m2(3) sub(2) out lv fit n2 clr in auto)
  obtain c1 t1 xs1 k1 where b1: "merge_before s2 b c = Ret (c1, t1)"
    "freeing env b blk L s live ?p (?p + requested k) t1 (blk\<lparr>used_cells := r\<rparr>) xs1 c1 k1 ys us2 fs"
    using merge_before_ok [OF f2 ck(3)] by blast
  obtain c3 t3 blk3 k3 ys3 fs3 where b3: "merge_after t1 b c1 = Ret (c3, t3)"
    "freeing env b blk L s live ?p (?p + requested k) t3 blk3 xs1 c3 k3 ys3 us2 fs3"
    using merge_after_ok [OF b1(2)] by blast
  have "n_used blk = Suc (length us2)" using nu s2(4) by simp
  from free_finish [OF b3(2) this] obtain s' blk' L' where fin:
    "obind (get_cell t3 c3) (\<lambda>cell. obind (if next_cell cell = 0 then insert_unused t3 b c3 else Ret t3) (\<lambda>s5.
       obind (upd_cell s5 c3 (\<lambda>k. k\<lparr>tag := None, requested := 0\<rparr>)) (\<lambda>s6. add_used_count s6 b (\<lambda>n. n - 1)))) = Ret s'"
    "block_step env b blk L s blk' L' s'" "live_in (mem s') L' = live" "n_used blk' = length us2"
    "\<forall>i. ?p \<le> i \<and> i < ?p + requested k \<longrightarrow> mem s' i = Some 0" by blast
  have "sec_free s b ?p = Ret s'"
    using live_cell_ok(1) [OF rep inv c(1)] w(1) g1 kf fit(2) c(2) s2(1) b1(1) b3(1) fin(1)
    by (simp add: sec_free_def sec_clear_def cell_at_get [OF kc(1)])
  with fin(2-5) nu s2(4) show ?thesis unfolding live_def
    by (intro exI [of _ s'] exI [of _ blk'] exI [of _ L']) simp
qed

end
