(* ===== verification/Egg_Secure_Realloc.thy ===== *)
theory Egg_Secure_Realloc
  imports Egg_Secure_Cells
begin

text \<open>
  Reallocation inside of a block and the validation of a block: what \<^verbatim>\<open>sec_realloc\<close>,
  \<^verbatim>\<open>sec_allocated\<close> and \<^verbatim>\<open>sec_validate\<close> do on a well-formed block.
\<close>

section \<open>Writing into an allocation\<close>

lemma liveE:
  assumes "(p, bs) \<in> live_in m L"
  obtains c k where "(c, k) \<in> set L" "0 < requested k" "p = words k + 8" "bs = octets m p (requested k)"
  using assms by (auto simp: live_in_def)

lemma live_length: "(p, bs) \<in> live_in m L \<Longrightarrow> bs \<noteq> []"
  by (force simp: live_in_def octets_def)

lemma block_live_used:
  assumes "block_good s b blk L us fs"
  shows "n_used blk = 0 \<longleftrightarrow> live_in m L = {}"
proof -
  have g: "coherent L (set us) (set fs)" "n_used blk = length us" "set us \<subseteq> fst ` set L"
    using assms by (auto simp: block_good_def block_rep_def)
  have "us = [] \<longleftrightarrow> (\<forall>(c, k)\<in>set L. requested k = 0)"
  proof
    assume "us = []"
    with g(1) show "\<forall>(c, k)\<in>set L. requested k = 0" by (auto simp: coherent_def list_all_iff split: if_splits)
  next
    assume z: "\<forall>(c, k)\<in>set L. requested k = 0"
    show "us = []"
    proof (rule ccontr)
      assume "us \<noteq> []"
      then obtain c where "c \<in> set us" by (cases us) auto
      moreover from this obtain k where "(c, k) \<in> set L" using g(3) by auto
      ultimately show False using z g(1) by (fastforce simp: coherent_def list_all_iff)
    qed
  qed
  with g(2) show ?thesis by (auto simp: live_in_def)
qed

lemma live_write:
  assumes good: "block_good s b blk L us fs" and c: "(c, k) \<in> set L" "0 < requested k"
    and a: "off + length bs \<le> (n_words k - 2) * 8"
  defines "p \<equiv> words k + 8"
  defines "s' \<equiv> s\<lparr>mem := write_octets (mem s) (p + off) bs\<rparr>"
  shows "memwrite s (p + off) bs = Ret s'" "block_good s' b blk L us fs" "confined b blk {} s s'"
    "live_in (mem s') L = insert (p, octets (mem s') p (requested k)) (live_in (mem s) L - {(p, octets (mem s) p (requested k))})"
proof -
  have rep: "block_rep s b blk L us fs" and coh: "coherent L (set us) (set fs)" using good by (auto simp: block_good_def)
  have fit: "requested k \<le> (n_words k - 2) * 8" "2 \<le> n_words k"
    using coh c block_rep_cell(4) [OF rep c(1)] by (auto simp: coherent_def list_all_iff cell_good_def split: if_splits)
  have w: "memwrite s (p + off) bs = Ret s'" "block_rep s' b blk L us fs" "confined b blk {} s s'"
    using rep_write [OF rep c(1), of "p + off" bs] fit a by (auto simp: p_def s'_def)
  then show "memwrite s (p + off) bs = Ret s'" "confined b blk {} s s'" by auto
  show good': "block_good s' b blk L us fs" using w(2) good by (simp add: block_good_def)
  obtain xs ys where L: "L = xs @ (c, k) # ys" using c(1) by (meson split_list)
  have t: "tiles (mem s) (items s) (block_words blk) (xs @ [(c, k)] @ ys) (block_words blk + block_n_words blk * 8)"
    using rep by (simp add: block_rep_def L)
  then obtain u v where uv: "tiles (mem s) (items s) (block_words blk) xs u" "words k = u" "v = u + n_words k * 8"
    "tiles (mem s) (items s) v ys (block_words blk + block_n_words blk * 8)" by (auto simp: tiles_append)
  have out: "mem s' i = mem s i" if "i < u \<or> v \<le> i" for i
    using that uv(2,3) fit a unfolding s'_def p_def by (simp, subst write_octets_out) auto
  have cs: "coherent xs (set us) (set fs)" "coherent ys (set us) (set fs)" using coh by (simp_all add: L coherent_def)
  have "live_in (mem s') xs = live_in (mem s) xs" by (rule live_in_cong [OF cs(1) uv(1)]) (simp add: out)
  moreover have "live_in (mem s') ys = live_in (mem s) ys" by (rule live_in_cong [OF cs(2) uv(4)]) (simp add: out)
  ultimately have "live_in (mem s') (xs @ ys) = live_in (mem s) (xs @ ys)" by (simp add: live_in_simps)
  moreover have "live_in (mem s') L = insert (p, octets (mem s') p (requested k)) (live_in (mem s') (xs @ ys))"
    using c(2) by (auto simp: L live_in_simps p_def)
  ultimately show "live_in (mem s') L = insert (p, octets (mem s') p (requested k)) (live_in (mem s) L - {(p, octets (mem s) p (requested k))})"
    using live_others [OF good [unfolded L] c(2), of "mem s"] by (simp add: L p_def)
qed

lemma memwrite_Nil [simp]: "memwrite s a [] = Ret s"
proof -
  have "write_octets (mem s) a [] = mem s" by (auto simp: write_octets_def fun_eq_iff)
  then show ?thesis by (simp add: memwrite_def mapped_def)
qed

lemma octets_overwrite:
  assumes "off + length bs \<le> n"
  shows "octets (write_octets m (a + off) bs) a n = take off (octets m a n) @ bs @ drop (off + length bs) (octets m a n)"
proof (rule nth_equalityI)
  fix i assume i: "i < length (octets (write_octets m (a + off) bs) a n)"
  then have "i < n" by simp
  consider "i < off" | "off \<le> i" "i < off + length bs" | "off + length bs \<le> i" by linarith
  then show "octets (write_octets m (a + off) bs) a n ! i = (take off (octets m a n) @ bs @ drop (off + length bs) (octets m a n)) ! i"
  proof cases
    case 1
    then show ?thesis using \<open>i < n\<close> assms by (simp add: octets_nth nth_append write_octets_def)
  next
    case 2
    then have "i - off < length bs" by simp
    with 2 show ?thesis using \<open>i < n\<close> assms by (simp add: octets_nth nth_append write_octets_def)
  next
    case 3
    then have "\<not> i - off < length bs" by simp
    with 3 show ?thesis using \<open>i < n\<close> assms by (simp add: octets_nth nth_append write_octets_def)
  qed
qed (use assms in simp)

section \<open>Growing a cell\<close>

lemma eat_rep:
  assumes rep: "block_rep t b blk (xs @ (c, k) # (o', ko) # ys) us fs" and inv: "pool_inv env t"
    and o': "o' \<in> set fs" "o' \<notin> set us" and c: "c \<notin> set fs"
    and at: "cell_at (items t) c = Some kc"
    and kn: "words kn = words k" "n_words kn = n_words k + n_words ko" "next_cell kn = next_cell kc" "prev_cell kn = prev_cell kc"
  shows "\<exists>s2 s3 s4 fs' r. sec_write_guards (set_cell t c kn) c = Ret s2 \<and> remove_unused s2 b o' = Ret s3 \<and>
     pool_free s3 o' = Ret s4 \<and> pool_inv env s4 \<and>
     block_rep s4 b (blk\<lparr>unused_cells := r\<rparr>) (xs @ (c, core kn) # ys) us fs' \<and> set fs' = set fs - {o'} \<and>
     confined b blk (fst ` set (xs @ (c, k) # (o', ko) # ys)) t s4 \<and> dom (items s4) = dom (items t) - {o'} \<and>
     off_guards (words k) (n_words k + n_words ko) (mem t) (mem s4)"
proof -
  let ?L = "xs @ [(c, k), (o', ko)] @ ys" and ?e = "block_words blk + block_n_words blk * 8" and ?s1 = "set_cell t c kn"
  have tl: "tiles (mem t) (items t) (block_words blk) ?L ?e" and rings: "ring (items t) (used_cells blk) us"
    "ring (items t) (unused_cells blk) fs" "set us \<inter> set fs = {}" "set us \<union> set fs \<subseteq> fst ` set ?L" "0 < block_words blk"
    using rep by (auto simp: block_rep_def)
  obtain u v where mid: "tiles (mem t) (items t) u [(c, k), (o', ko)] v" using tiles_mid [OF tl] by auto
  have uv: "u = words k" "v = words k + (n_words k + n_words ko) * 8" "2 \<le> n_words k" "2 \<le> n_words ko"
    "words ko = words k + n_words k * 8" using mid by auto
  have dis: "c \<notin> fst ` set (xs @ ys)" "o' \<notin> fst ` set (xs @ ys)" "o' \<noteq> c" using tiles_distinct [OF tl] by auto
  have bn: "b \<noteq> o'" "b \<noteq> c" "items t b = Some (ItemBlock blk)" using block_rep_get(2,5) [OF rep] by auto
  have "mapped ?s1 (words kn) (n_words kn * 8)"
    unfolding mapped_iff
  proof (intro allI impI)
    fix i assume i: "words kn \<le> i \<and> i < words kn + n_words kn * 8"
    show "mem ?s1 i \<noteq> None"
      using block_rep_cell(7) [OF rep, of c k] block_rep_cell(7) [OF rep, of o' ko] uv(5) kn i
      by (cases "i < words k + n_words k * 8") (auto simp: mapped_iff add_mult_distrib)
  qed
  from write_guards_ok [of ?s1 c kn, OF _ _ this] kn uv obtain m where m:
    "sec_write_guards ?s1 c = Ret (?s1\<lparr>mem := m\<rparr>)" "ptr_at m (words k) c"
    "ptr_at m (words k + (n_words k + n_words ko - 1) * 8) c" "dom m = dom (mem t)"
    "\<And>i. \<not> (words k \<le> i \<and> i < words k + 8) \<Longrightarrow>
      \<not> (words k + (n_words k + n_words ko - 1) * 8 \<le> i \<and> i < words k + (n_words k + n_words ko) * 8) \<Longrightarrow> m i = mem t i"
    by auto
  let ?s2 = "?s1\<lparr>mem := m\<rparr>"
  have r2: "ring (items ?s2) (used_cells blk) us" "ring (items ?s2) (unused_cells blk) fs"
    using rings(1,2) at kn by (auto intro: ring_set_cell)
  have b2: "items ?s2 b = Some (ItemBlock blk)" using bn by simp
  from remove_unused_rings [OF b2 r2 rings(3) o'(1)] obtain s3 fs' r where s3: "remove_unused ?s2 b o' = Ret s3"
    "items s3 b = Some (ItemBlock (blk\<lparr>unused_cells := r\<rparr>))" "ring (items s3) (used_cells blk) us" "ring (items s3) r fs'"
    "set fs' = set fs - {o'}" "linkstep b (set fs) ?s2 s3" by blast
  have m3: "mem s3 = m" "pool_data s3 = pool_data t" "all_blocks s3 = all_blocks t" "dom (items s3) = dom (items t)"
    using s3(6) cell_at_dom [OF at] by (auto simp: linkstep_def)
  have core3: "core_at (items s3) x = (if x = c then Some (core kn) else core_at (items t) x)" for x
    using s3(6) by (simp add: linkstep_def)
  have inv3: "pool_inv env s3" by (rule meta.frame_law [OF inv m3(2,4)])
  have "o' \<in> dom (items s3)" using m3(4) block_rep_cell(2) [OF rep, of o' ko] by simp
  from meta.free_item [OF inv3 this] obtain s4 where s4: "pool_free s3 o' = Ret s4" "pool_inv env s4" "mem s4 = m"
    "all_blocks s4 = all_blocks t" "items s4 = (items s3)(o' := None)" using m3 by auto
  have out: "m i = mem t i" if "\<not> (u \<le> i \<and> i < v)" for i using that uv by (intro m(5)) auto
  have new: "tiles (mem s4) (items s4) u [(c, core kn)] v" using m(2,3) uv kn dis(3) s4(3,5) core3 by auto
  have "tiles (mem s4) (items s4) (block_words blk) (xs @ [(c, core kn)] @ ys) ?e"
  proof (rule tiles_replace [OF tl mid _ new])
    fix x assume x: "x \<in> fst ` set (xs @ ys)"
    then have "x \<noteq> c" "x \<noteq> o'" using dis by blast+
    then show "core_at (items s4) x = core_at (items t) x" by (simp add: s4(5) core3)
  qed (use out s4(3) in auto)
  moreover have "ring (items s4) (used_cells blk) us" "ring (items s4) r fs'"
    unfolding s4(5) by (rule ring_drop [OF s3(3) o'(2)], rule ring_drop [OF s3(4)], simp add: s3(5))
  moreover have "set us \<inter> set fs' = {}" "set us \<union> set fs' \<subseteq> fst ` set (xs @ [(c, core kn)] @ ys)"
    using rings(3,4) s3(5) o'(2) by auto
  moreover have "\<forall>i. in_block (blk\<lparr>unused_cells := r\<rparr>) i \<longrightarrow> mem s4 i \<noteq> None"
  proof (intro allI impI)
    fix i assume "in_block (blk\<lparr>unused_cells := r\<rparr>) i"
    then have "i \<in> dom (mem t)" using rep by (auto simp: block_rep_def in_block_def)
    then show "mem s4 i \<noteq> None" unfolding m(4) [symmetric] s4(3) by auto
  qed
  moreover have "items s4 b = Some (ItemBlock (blk\<lparr>unused_cells := r\<rparr>))" using s3(2) s4(5) bn by simp
  ultimately have rep4: "block_rep s4 b (blk\<lparr>unused_cells := r\<rparr>) (xs @ (c, core kn) # ys) us fs'"
    unfolding block_rep_def using rings(5) by simp
  have "confined b blk (fst ` set ?L) t s4"
    unfolding confined_def
  proof (intro conjI allI impI)
    fix x assume x: "x \<notin> insert b (fst ` set ?L)"
    then have "x \<notin> insert b (set fs)" "x \<noteq> c" "x \<noteq> o'" using rings(4) by auto
    then show "items s4 x = items t x" using s3(6) s4(5) by (simp add: linkstep_def)
  next
    fix i assume "\<not> in_block blk i"
    then have "\<not> (u \<le> i \<and> i < v)"
      using block_rep_cell(5,6) [OF rep, of c k] block_rep_cell(6) [OF rep, of o' ko] uv by (auto simp: in_block_def add_mult_distrib)
    then show "mem s4 i = mem t i" using out s4(3) by simp
  qed (use m(4) s4 in auto)
  moreover have "off_guards (words k) (n_words k + n_words ko) (mem t) (mem s4)"
    using m(5) unfolding off_guards_def s4(3) by blast
  ultimately show ?thesis using m(1) s3(1,5) s4(1,2,5) rep4 m3(4)
    by (intro exI [of _ ?s2] exI [of _ s3] exI [of _ s4] exI [of _ fs'] exI [of _ r]) simp
qed

lemma steal_rep:
  assumes rep: "block_rep t b blk (xs @ (c, k) # (o', ko) # ys) us fs" and d: "d + 4 < n_words ko"
    and at: "cell_at (items t) c = Some kc" "cell_at (items t) o' = Some kd"
    and kc: "words kc = words k" "n_words kc = n_words k" and kd: "words kd = words ko" "n_words kd = n_words ko"
    and kn: "words kn = words k" "n_words kn = n_words k + d" "next_cell kn = next_cell kc" "prev_cell kn = prev_cell kc"
    and km: "words km = words ko + d * 8" "n_words km = n_words ko - d" "next_cell km = next_cell kd" "prev_cell km = prev_cell kd"
  shows "\<exists>s2 s4. sec_write_guards (set_cell t o' km) o' = Ret s2 \<and> items s2 = (items t)(o' \<mapsto> ItemCell km) \<and>
     sec_write_guards (set_cell s2 c kn) c = Ret s4 \<and> items s4 = (items t)(o' \<mapsto> ItemCell km, c \<mapsto> ItemCell kn) \<and>
     pool_data s4 = pool_data t \<and> block_rep s4 b blk (xs @ (c, core kn) # (o', core km) # ys) us fs \<and> confined b blk {c, o'} t s4 \<and>
     (\<forall>i. words k + 8 \<le> i \<and> i < words k + n_words k * 8 \<longrightarrow> mem s4 i = mem t i) \<and>
     (\<forall>i. \<not> (words k \<le> i \<and> i < words k + (n_words k + n_words ko) * 8) \<longrightarrow> mem s4 i = mem t i)"
proof -
  let ?L = "xs @ [(c, k), (o', ko)] @ ys" and ?e = "block_words blk + block_n_words blk * 8"
  have rep': "block_rep t b blk ?L us fs" using rep by simp
  have tl: "tiles (mem t) (items t) (block_words blk) ?L ?e" using rep' by (simp add: block_rep_def)
  obtain u v where mid: "tiles (mem t) (items t) u [(c, k), (o', ko)] v" using tiles_mid [OF tl] by auto
  have uv: "u = words k" "v = words k + (n_words k + n_words ko) * 8" "2 \<le> n_words k" "2 \<le> n_words ko"
    "words ko = words k + n_words k * 8" using mid by auto
  have dis: "{c, o'} \<inter> fst ` set (xs @ ys) = {}" "o' \<noteq> c" using tiles_distinct [OF tl] by auto
  have bn: "b \<notin> {c, o'}" using block_rep_get(5) [OF rep] by auto
  have mapt: "mem t i \<noteq> None" if "words k \<le> i" "i < words k + (n_words k + n_words ko) * 8" for i
    using block_rep_cell(7) [OF rep, of c k] block_rep_cell(7) [OF rep, of o' ko] uv(5) that
    by (cases "i < words k + n_words k * 8") (auto simp: mapped_iff add_mult_distrib)
  let ?s1 = "set_cell t o' km"
  have N: "words km + n_words km * 8 = v" using km uv d by (simp add: diff_mult_distrib add_mult_distrib)
  have "mapped ?s1 (words km) (n_words km * 8)" unfolding mapped_iff N using mapt uv km by auto
  moreover have "2 \<le> n_words km" using km d by simp
  ultimately obtain m2 where m2:
    "sec_write_guards ?s1 o' = Ret (?s1\<lparr>mem := m2\<rparr>)" "ptr_at m2 (words km) o'" "ptr_at m2 (words km + (n_words km - 1) * 8) o'"
    "dom m2 = dom (mem t)"
    "\<And>i. \<not> (words km \<le> i \<and> i < words km + 8) \<Longrightarrow> \<not> (words km + (n_words km - 1) * 8 \<le> i \<and> i < v) \<Longrightarrow> m2 i = mem t i"
    using write_guards_ok [of ?s1 o' km] by (auto simp: N)
  let ?s2 = "?s1\<lparr>mem := m2\<rparr>" and ?s3 = "set_cell (?s1\<lparr>mem := m2\<rparr>) c kn"
  have e: "words kn + n_words kn * 8 = words km" using kn km uv by (simp add: add_mult_distrib)
  have "mapped ?s3 (words kn) (n_words kn * 8)" unfolding mapped_iff e
  proof (intro allI impI)
    fix i assume "words kn \<le> i \<and> i < words km"
    then have "i \<in> dom (mem t)" using mapt [of i] kn km uv d by (auto simp: add_mult_distrib)
    then show "mem ?s3 i \<noteq> None" unfolding m2(4) [symmetric] by auto
  qed
  moreover have "2 \<le> n_words kn" using kn uv by simp
  ultimately obtain m4 where m4:
    "sec_write_guards ?s3 c = Ret (?s3\<lparr>mem := m4\<rparr>)" "ptr_at m4 (words kn) c" "ptr_at m4 (words kn + (n_words kn - 1) * 8) c"
    "dom m4 = dom (mem t)"
    "\<And>i. \<not> (words kn \<le> i \<and> i < words kn + 8) \<Longrightarrow> \<not> (words kn + (n_words kn - 1) * 8 \<le> i \<and> i < words km) \<Longrightarrow> m4 i = m2 i"
    using write_guards_ok [of ?s3 c kn] m2(4) by (auto simp: e)
  let ?s4 = "?s3\<lparr>mem := m4\<rparr>"
  have kmv: "words kn \<le> words km" "words km + 8 \<le> words km + (n_words km - 1) * 8" "words km + (n_words km - 1) * 8 + 8 = v"
    using e N km d by (auto simp: diff_mult_distrib)
  have g: "ptr_at m4 (words km) o'" "ptr_at m4 (words km + (n_words km - 1) * 8) o'"
  proof -
    show "ptr_at m4 (words km) o'" by (rule ptr_at_frame [OF m2(2)]) (use kmv kn uv e in \<open>auto intro: m4(5)\<close>)
    show "ptr_at m4 (words km + (n_words km - 1) * 8) o'"
      by (rule ptr_at_frame [OF m2(3)]) (use kmv kn uv e in \<open>auto intro: m4(5)\<close>)
  qed
  have out: "m4 i = mem t i" if "\<not> (u \<le> i \<and> i < v)" for i
  proof -
    have "m4 i = m2 i" using that kmv kn uv e by (intro m4(5)) auto
    also have "\<dots> = mem t i" using that kmv kn uv e by (intro m2(5)) auto
    finally show ?thesis .
  qed
  have inn: "m4 i = mem t i" if "words k + 8 \<le> i \<and> i < words k + n_words k * 8" for i
  proof (cases "d = 0")
    case False
    have "m4 i = m2 i" using that kn False by (intro m4(5)) auto
    also have "\<dots> = mem t i" using that kmv kn uv e km by (intro m2(5)) auto
    finally show ?thesis .
  next
    case True
    have old: "ptr_at (mem t) (words k + (n_words k - 1) * 8) c" using mid by simp
    have m2t: "m2 i = mem t i" using that kmv kn uv e km by (intro m2(5)) auto
    show ?thesis
    proof (cases "i < words k + (n_words k - 1) * 8")
      case False
      have i8: "i - (words k + (n_words k - 1) * 8) < 8" using that False uv by (auto simp: diff_mult_distrib)
      then show ?thesis using m4(3) old kn True False unfolding ptr_at_def
        by (metis add.right_neutral le_add_diff_inverse linorder_not_less)
    qed (use that kn True m2t in \<open>auto simp: m4(5)\<close>)
  qed
  have new: "tiles (mem ?s4) (items ?s4) u [(c, core kn), (o', core km)] v"
    using g m4(2,3) kn km uv dis(2) d e N by (auto simp: add_mult_distrib diff_mult_distrib add.assoc)
  have "block_rep ?s4 b blk (xs @ [(c, core kn), (o', core km)] @ ys) us fs \<and> confined b blk {c, o'} t ?s4"
  proof (rule rep_replace [OF rep' mid _ new])
    show "items ?s4 x = items t x" if "x \<notin> {c, o'}" for x using that by simp
    show "mem ?s4 i = mem t i" if "\<not> (u \<le> i \<and> i < v)" for i using that out by simp
    show "next_at (items ?s4) x = next_at (items t) x \<and> prev_at (items ?s4) x = prev_at (items t) x" for x
      using kn km at by (auto simp: next_at_def prev_at_def)
    show "set us \<union> set fs \<subseteq> fst ` set (xs @ [(c, core kn), (o', core km)] @ ys)"
      using rep by (auto simp: block_rep_def)
  qed (use dis bn m4(4) in auto)
  then show ?thesis using m2(1) m4(1) out inn uv
    by (intro exI [of _ ?s2] exI [of _ ?s4]) auto
qed


lemma grow_finish:
  assumes good: "block_good s b blk (xs @ (c, k) # (o', ko) # ys) us fs" and req: "0 < requested k" "requested ko = 0"
    and inv: "pool_inv env s'" and rep: "block_rep s' b blk' (xs @ (c, k') # zs @ ys) us fs'"
    and k': "words k' = words k" "requested k' = requested k" "tag k' = tag k" "n_words k \<le> n_words k'"
    and zs: "zs = [] \<and> set fs' = set fs - {o'} \<and> dom (items s') = dom (items s) - {o'} \<or>
      (\<exists>km. zs = [(o', km)] \<and> requested km = 0 \<and> tag km = None) \<and> set fs' = set fs \<and> dom (items s') = dom (items s)"
    and blk': "n_used blk' = n_used blk" "block_words blk' = block_words blk" "block_n_words blk' = block_n_words blk"
    and conf: "confined b blk (fst ` set (xs @ (c, k) # (o', ko) # ys)) s s'"
    and mm: "\<And>i. words k + 8 \<le> i \<and> i < words k + (n_words k - 1) * 8 \<Longrightarrow> mem s' i = mem s i"
      "\<And>i. \<not> (words k \<le> i \<and> i < words k + (n_words k + n_words ko) * 8) \<Longrightarrow> mem s' i = mem s i"
  shows "block_step env b blk (xs @ (c, k) # (o', ko) # ys) s blk' (xs @ (c, k') # zs @ ys) s' \<and>
    live_in (mem s') (xs @ (c, k') # zs @ ys) = live_in (mem s) (xs @ (c, k) # (o', ko) # ys)"
proof
  let ?L = "xs @ [(c, k), (o', ko)] @ ys" and ?e = "block_words blk + block_n_words blk * 8"
  have srep: "block_rep s b blk ?L us fs" and coh: "coherent ?L (set us) (set fs)" and nu: "n_used blk = length us"
    using good by (simp_all add: block_good_def)
  have tl: "tiles (mem s) (items s) (block_words blk) ?L ?e" using srep by (simp add: block_rep_def)
  have dis: "o' \<notin> fst ` set (xs @ ys)" "o' \<noteq> c" using tiles_distinct [OF tl] by auto
  have cs: "coherent xs (set us) (set fs)" "coherent ys (set us) (set fs)" "cell_good k" "c \<in> set us" "c \<notin> set fs"
    "o' \<in> set fs" "o' \<notin> set us"
    using coh req by (simp_all add: coherent_append coherent_Cons)
  have fit: "tag k \<noteq> None" "requested k \<le> (n_words k - 2) * 8" using cs(3) req by (auto simp: cell_good_def)
  have "cell_good k'" using fit k' req(1) by (auto simp: cell_good_def intro: order_trans)
  moreover have "coherent xs (set us) (set fs')" by (rule coherent_cong [OF cs(1)]) (use zs dis in auto)
  moreover have "coherent ys (set us) (set fs')" by (rule coherent_cong [OF cs(2)]) (use zs dis in auto)
  moreover have "coherent zs (set us) (set fs')" using zs cs by (auto simp: coherent_def cell_good_def)
  ultimately have "block_good s' b blk' (xs @ (c, k') # zs @ ys) us fs'"
    using rep nu blk'(1) k' req cs(4,5) zs by (auto simp: block_good_def coherent_append coherent_Cons)
  moreover have sub: "fst ` set (xs @ (c, k') # zs @ ys) \<subseteq> fst ` set (xs @ (c, k) # (o', ko) # ys)" using zs by auto
  moreover have "dom (items s') = dom (items s) - fst ` set (xs @ (c, k) # (o', ko) # ys) \<union> fst ` set (xs @ (c, k') # zs @ ys)"
  proof -
    define A where "A = insert c (fst ` set (xs @ ys))"
    have A: "fst ` set (xs @ (c, k) # (o', ko) # ys) = insert o' A" "o' \<notin> A" "insert o' A \<subseteq> dom (items s)"
      using dis block_rep_dom [OF srep] by (auto simp: A_def)
    have "fst ` set (xs @ (c, k') # zs @ ys) = A \<union> fst ` set zs" by (auto simp: A_def)
    then show ?thesis unfolding A(1) using zs A(2,3) by (elim disjE) auto
  qed
  moreover have "confined b blk (fst ` set (xs @ (c, k) # (o', ko) # ys) \<union> fst ` set (xs @ (c, k') # zs @ ys)) s s'"
    by (rule confined_mono [OF conf]) blast
  ultimately show "block_step env b blk (xs @ (c, k) # (o', ko) # ys) s blk' (xs @ (c, k') # zs @ ys) s'"
    unfolding block_step_def using inv blk'(2,3) by blast
  obtain p q where pq: "tiles (mem s) (items s) (block_words blk) xs p" "p = words k"
    "tiles (mem s) (items s) q ys ?e" "q = words k + (n_words k + n_words ko) * 8"
    using tl by (auto simp: tiles_append add_mult_distrib add.assoc)
  have "live_in (mem s') xs = live_in (mem s) xs" by (rule live_in_cong [OF cs(1) pq(1)]) (simp add: mm(2) pq(2))
  moreover have "live_in (mem s') ys = live_in (mem s) ys" by (rule live_in_cong [OF cs(2) pq(3)]) (simp add: mm(2) pq(4))
  moreover have "live_in (mem s') zs = {}" using zs by (auto simp: live_in_simps)
  moreover have "octets (mem s') (words k + 8) (requested k) = octets (mem s) (words k + 8) (requested k)"
    by (rule octets_cong) (use fit(2) mm(1) in auto)
  ultimately show "live_in (mem s') (xs @ (c, k') # zs @ ys) = live_in (mem s) (xs @ (c, k) # (o', ko) # ys)"
    using k' req by (simp add: live_in_simps)
qed

lemma core_fields:
  assumes "core kc = k"
  shows "words kc = words k" "n_words kc = n_words k" "requested kc = requested k" "tag kc = tag k"
  using assms by auto

definition grow_once :: "secmem \<Rightarrow> nat \<Rightarrow> nat \<Rightarrow> nat \<Rightarrow> nat \<Rightarrow> nat \<Rightarrow> nat \<Rightarrow> secmem outcome" where
  "grow_once s b c m other mo n =
     (if n - m + 4 \<ge> mo then
        obind (upd_cell s c (\<lambda>k. k\<lparr>n_words := n_words k + mo\<rparr>)) (\<lambda>s1.
        obind (sec_write_guards s1 c) (\<lambda>s2. obind (remove_unused s2 b other) (\<lambda>s3. pool_free s3 other)))
      else
        obind (upd_cell s other (\<lambda>k. k\<lparr>words := words k + (n - m) * 8, n_words := n_words k - (n - m)\<rparr>)) (\<lambda>s1.
        obind (sec_write_guards s1 other) (\<lambda>s2.
        obind (upd_cell s2 c (\<lambda>k. k\<lparr>n_words := n\<rparr>)) (\<lambda>s3. sec_write_guards s3 c))))"

lemma grow_once_ok:
  assumes good: "block_good s b blk (xs @ (c, k) # (o', ko) # ys) us fs" and inv: "pool_inv env s"
    and req: "0 < requested k" "requested ko = 0" and n: "n_words k < n"
  shows "\<exists>s' blk' k' ys'. grow_once s b c (n_words k) o' (n_words ko) n = Ret s' \<and>
    block_step env b blk (xs @ (c, k) # (o', ko) # ys) s blk' (xs @ (c, k') # ys') s' \<and>
    live_in (mem s') (xs @ (c, k') # ys') = live_in (mem s) (xs @ (c, k) # (o', ko) # ys) \<and>
    words k' = words k \<and> requested k' = requested k \<and> (n \<le> n_words k' \<or> length ys' = length ys)"
proof -
  let ?L = "xs @ (c, k) # (o', ko) # ys"
  have rep: "block_rep s b blk ?L us fs" and coh: "coherent ?L (set us) (set fs)" using good by (auto simp: block_good_def)
  obtain kc where kc: "cell_at (items s) c = Some kc" "core kc = k" using block_rep_cell(3) [OF rep, of c k] by auto
  note kcf = core_fields [OF kc(2)]
  have "coherent [(o', ko)] (set us) (set fs)" using coh by (simp add: coherent_def)
  from unused_cell [OF rep this _ req(2)] obtain kd where kd: "cell_at (items s) o' = Some kd" "core kd = ko" "tag kd = None"
    "requested kd = 0" "o' \<in> set fs" "o' \<notin> set us" by auto
  note kdf = core_fields [OF kd(2)]
  have cu: "c \<in> set us" "c \<notin> set fs" using coh req(1) by (auto simp: coherent_def)
  have n2: "2 \<le> n_words k" using block_rep_cell(4) [OF rep, of c k] by simp
  have n2': "2 \<le> n_words ko" using block_rep_cell(4) [OF rep, of o' ko] by simp
  show ?thesis
  proof (cases "n_words ko \<le> n - n_words k + 4")
    case True
    define kn where "kn = kc\<lparr>n_words := n_words kc + n_words ko\<rparr>"
    have kn: "words kn = words k" "n_words kn = n_words k + n_words ko" "next_cell kn = next_cell kc" "prev_cell kn = prev_cell kc"
      "requested kn = requested k" "tag kn = tag k" by (auto simp: kn_def kcf)
    from eat_rep [OF rep inv kd(5,6) cu(2) kc(1) kn(1-4)] obtain s2 s3 s4 fs' r where e:
      "sec_write_guards (set_cell s c kn) c = Ret s2" "remove_unused s2 b o' = Ret s3" "pool_free s3 o' = Ret s4"
      "pool_inv env s4" "block_rep s4 b (blk\<lparr>unused_cells := r\<rparr>) (xs @ (c, core kn) # ys) us fs'" "set fs' = set fs - {o'}"
      "confined b blk (fst ` set ?L) s s4" "dom (items s4) = dom (items s) - {o'}"
      "off_guards (words k) (n_words k + n_words ko) (mem s) (mem s4)" by (elim exE conjE) (rule that; assumption)
    have eval: "grow_once s b c (n_words k) o' (n_words ko) n = Ret s4"
      using True e(1-3) upd_cell_at [OF kc(1)] by (simp add: grow_once_def kn_def)
    have nn: "2 \<le> n_words k + n_words ko" using n2 by simp
    have in4: "mem s4 i = mem s i" if "words k + 8 \<le> i \<and> i < words k + (n_words k - 1) * 8" for i
      by (rule off_guardsD(2) [OF e(9) nn]) (use that n2 in auto)
    have out4: "mem s4 i = mem s i" if "\<not> (words k \<le> i \<and> i < words k + (n_words k + n_words ko) * 8)" for i
      by (rule off_guardsD(1) [OF e(9) nn that])
    have "block_step env b blk ?L s (blk\<lparr>unused_cells := r\<rparr>) (xs @ (c, core kn) # [] @ ys) s4 \<and>
      live_in (mem s4) (xs @ (c, core kn) # [] @ ys) = live_in (mem s) ?L"
      by (rule grow_finish [OF good req e(4), where fs' = fs']) (use e kn in4 out4 in simp_all)
    with eval kn show ?thesis by (intro exI [of _ s4] exI [of _ "blk\<lparr>unused_cells := r\<rparr>"] exI [of _ "core kn"] exI [of _ ys]) simp
  next
    case False
    define d where "d = n - n_words k"
    have d: "d + 4 < n_words ko" "n_words k + d = n" using False n by (auto simp: d_def)
    define kn where "kn = kc\<lparr>n_words := n\<rparr>"
    define km where "km = kd\<lparr>words := words kd + d * 8, n_words := n_words kd - d\<rparr>"
    have kn: "words kn = words k" "n_words kn = n_words k + d" "next_cell kn = next_cell kc" "prev_cell kn = prev_cell kc"
      "requested kn = requested k" "tag kn = tag k" using d by (auto simp: kn_def kcf)
    have km: "words km = words ko + d * 8" "n_words km = n_words ko - d" "next_cell km = next_cell kd" "prev_cell km = prev_cell kd"
      "requested km = 0" "tag km = None" using kd by (auto simp: km_def kdf)
    from steal_rep [OF rep d(1) kc(1) kd(1) kcf(1,2) kdf(1,2) kn(1-4) km(1-4)] obtain s2 s4 where e:
      "sec_write_guards (set_cell s o' km) o' = Ret s2" "items s2 = (items s)(o' \<mapsto> ItemCell km)"
      "sec_write_guards (set_cell s2 c kn) c = Ret s4" "items s4 = (items s)(o' \<mapsto> ItemCell km, c \<mapsto> ItemCell kn)"
      "pool_data s4 = pool_data s" "block_rep s4 b blk (xs @ (c, core kn) # (o', core km) # ys) us fs" "confined b blk {c, o'} s s4"
      "\<forall>i. words k + 8 \<le> i \<and> i < words k + n_words k * 8 \<longrightarrow> mem s4 i = mem s i"
      "\<forall>i. \<not> (words k \<le> i \<and> i < words k + (n_words k + n_words ko) * 8) \<longrightarrow> mem s4 i = mem s i" by blast
    have oc: "o' \<noteq> c" using kd(5) cu by auto
    have "cell_at (items s2) c = Some kc" using e(2) kc(1) oc by (simp add: cell_at_def)
    then have eval: "grow_once s b c (n_words k) o' (n_words ko) n = Ret s4"
      using False e(1,3) upd_cell_at [OF kd(1)] upd_cell_at [of s2 c kc] by (simp add: grow_once_def kn_def km_def d_def)
    have dom4: "dom (items s4) = dom (items s)" using e(4) kc(1) kd(1) by (auto dest: cell_at_dom)
    have inv4: "pool_inv env s4" by (rule meta.frame_law [OF inv e(5) dom4])
    have in4: "mem s4 i = mem s i" if "words k + 8 \<le> i \<and> i < words k + (n_words k - 1) * 8" for i
      using e(8) that by auto
    have conf4: "confined b blk (fst ` set ?L) s s4" by (rule confined_mono [OF e(7)]) auto
    have "block_step env b blk ?L s blk (xs @ (c, core kn) # [(o', core km)] @ ys) s4 \<and>
      live_in (mem s4) (xs @ (c, core kn) # [(o', core km)] @ ys) = live_in (mem s) ?L"
      by (rule grow_finish [OF good req inv4, where fs' = fs]) (use e kn km in4 dom4 conf4 in simp_all)
    with eval kn d show ?thesis
      by (intro exI [of _ s4] exI [of _ blk] exI [of _ "core kn"] exI [of _ "(o', core km) # ys"]) simp
  qed
qed


lemma grow_cell_once:
  assumes "cell_at (items s) c = Some kc" "n_words kc < n" and "sec_neighbor_after s b c = Ret other" "other \<noteq> 0"
    and "cell_at (items s) other = Some ko" "requested ko = 0"
  shows "grow_cell (Suc fuel) s b c n = obind (grow_once s b c (n_words kc) other (n_words ko) n) (\<lambda>s'. grow_cell fuel s' b c n)"
  by (subst grow_cell.simps) (simp add: assms cell_at_get grow_once_def)

lemma neighbor_after_ok:
  assumes rep: "block_rep s b blk (xs @ (c, k) # ys) us fs" and inv: "pool_inv env s"
  shows "sec_neighbor_after s b c = Ret (case ys of [] \<Rightarrow> 0 | (o', _) # _ \<Rightarrow> o')"
proof -
  obtain kc where kc: "cell_at (items s) c = Some kc" "core kc = k" using block_rep_cell(3) [OF rep, of c k] by auto
  have na: "sec_neighbor_after s b c = sec_neighbor s blk (words k + n_words k * 8)"
    using block_rep_get(1) [OF rep] core_fields [OF kc(2)] by (simp add: sec_neighbor_after_def cell_at_get [OF kc(1)])
  have tl: "tiles (mem s) (items s) (block_words blk) (xs @ (c, k) # ys) (block_words blk + block_n_words blk * 8)"
    using rep by (simp add: block_rep_def)
  show ?thesis
  proof (cases ys)
    case Nil
    then have "words k + n_words k * 8 = block_words blk + block_n_words blk * 8" using tl by (auto simp: tiles_append)
    then show ?thesis unfolding na Nil by (simp add: sec_neighbor_def sec_is_valid_word_def)
  next
    case (Cons ok zs)
    obtain o' ko where ok: "ok = (o', ko)" by (cases ok)
    have "words ko = words k + n_words k * 8" using tl unfolding Cons ok by (auto simp: tiles_append)
    then show ?thesis using live_cell_ok(3) [OF rep inv, of o' ko] unfolding na Cons ok by simp
  qed
qed

lemma grow_cell_ok:
  assumes "block_good s b blk (xs @ (c, k) # ys) us fs" and "pool_inv env s" and "0 < requested k"
    and "0 < fuel" "n \<le> n_words k \<or> length ys < fuel"
  shows "\<exists>s' blk' k' ys'. grow_cell fuel s b c n = Ret s' \<and>
    block_step env b blk (xs @ (c, k) # ys) s blk' (xs @ (c, k') # ys') s' \<and>
    live_in (mem s') (xs @ (c, k') # ys') = live_in (mem s) (xs @ (c, k) # ys) \<and>
    words k' = words k \<and> requested k' = requested k"
  using assms
proof (induction fuel arbitrary: s blk k ys us fs)
  case (Suc fuel)
  note good = Suc.prems(1) and inv = Suc.prems(2) and req = Suc.prems(3)
  have rep: "block_rep s b blk (xs @ (c, k) # ys) us fs" using good by (simp add: block_good_def)
  obtain kc where kc: "cell_at (items s) c = Some kc" "core kc = k" using block_rep_cell(3) [OF rep, of c k] by auto
  note kcf = core_fields [OF kc(2)] and na = neighbor_after_ok [OF rep inv] and stay = block_step_refl [OF inv good]
  have stop: ?case if "grow_cell (Suc fuel) s b c n = Ret s"
    using that stay by (intro exI [of _ s] exI [of _ blk] exI [of _ k] exI [of _ ys]) simp
  show ?case
  proof (cases "n \<le> n_words k \<or> ys = []")
    case True
    then have "grow_cell (Suc fuel) s b c n = Ret s"
      using na by (subst grow_cell.simps) (auto simp: cell_at_get [OF kc(1)] kcf)
    then show ?thesis by (rule stop)
  next
    case False
    then obtain o' ko zs where ys: "ys = (o', ko) # zs" by (cases ys) auto
    have mem: "(o', ko) \<in> set (xs @ (c, k) # ys)" by (simp add: ys)
    obtain kd where kd: "cell_at (items s) o' = Some kd" "core kd = ko" using block_rep_cell(3) [OF rep mem] by auto
    have o0: "o' \<noteq> 0" using meta.valid_pointer(1) [OF inv block_rep_cell(2) [OF rep mem]] by simp
    show ?thesis
    proof (cases "requested ko = 0")
      case req0: False
      then have "grow_cell (Suc fuel) s b c n = Ret s"
        using na False core_fields(3) [OF kd(2)]
        by (subst grow_cell.simps) (simp add: ys cell_at_get [OF kc(1)] cell_at_get [OF kd(1)] kcf)
      then show ?thesis by (rule stop)
    next
      case True
      have lt: "n_words k < n" using False by simp
      from grow_once_ok [OF good [unfolded ys] inv req True lt] obtain s1 blk1 k1 ys1 where g:
        "grow_once s b c (n_words k) o' (n_words ko) n = Ret s1"
        "block_step env b blk (xs @ (c, k) # ys) s blk1 (xs @ (c, k1) # ys1) s1"
        "live_in (mem s1) (xs @ (c, k1) # ys1) = live_in (mem s) (xs @ (c, k) # ys)"
        "words k1 = words k" "requested k1 = requested k" "n \<le> n_words k1 \<or> length ys1 = length zs"
        unfolding ys by blast
      obtain us1 fs1 where g1: "block_good s1 b blk1 (xs @ (c, k1) # ys1) us1 fs1" "pool_inv env s1"
        using g(2) by (auto simp: block_step_def)
      have "0 < requested k1" "0 < fuel" "n \<le> n_words k1 \<or> length ys1 < fuel"
        using g(5,6) req Suc.prems(5) False by (auto simp: ys)
      from Suc.IH [OF g1 this] obtain s2 blk2 k2 ys2 where h: "grow_cell fuel s1 b c n = Ret s2"
        "block_step env b blk1 (xs @ (c, k1) # ys1) s1 blk2 (xs @ (c, k2) # ys2) s2"
        "live_in (mem s2) (xs @ (c, k2) # ys2) = live_in (mem s1) (xs @ (c, k1) # ys1)"
        "words k2 = words k1" "requested k2 = requested k1" by blast
      have "grow_cell (Suc fuel) s b c n = Ret s2"
      proof (subst grow_cell_once [OF kc(1) _ _ o0 kd(1)])
        show "n_words kc < n" using lt kcf by simp
        show "sec_neighbor_after s b c = Ret o'" using na ys by simp
        show "requested kd = 0" using True core_fields(3) [OF kd(2)] by simp
      qed (simp add: g(1) h(1) kcf core_fields(2) [OF kd(2)])
      with block_step_trans [OF g(2) h(2)] g h show ?thesis
        by (intro exI [of _ s2] exI [of _ blk2] exI [of _ k2] exI [of _ ys2]) simp
    qed
  qed
qed simp


section \<open>Reallocation\<close>

lemma live_unique:
  assumes "block_good s b blk L us fs" and "(p, bs) \<in> live_in m L"
  shows "p \<notin> fst ` (live_in m L - {(p, bs)})"
proof -
  obtain c k where c: "(c, k) \<in> set L" "0 < requested k" "p = words k + 8" "bs = octets m p (requested k)"
    using assms(2) by (rule liveE)
  obtain xs ys where L: "L = xs @ (c, k) # ys" using c(1) by (meson split_list)
  have t: "tiles (mem s) (items s) (block_words blk) (xs @ [(c, k)] @ ys) (block_words blk + block_n_words blk * 8)"
    using assms(1) by (simp add: block_good_def block_rep_def L)
  then obtain u v where uv: "tiles (mem s) (items s) (block_words blk) xs u" "words k = u" "v = u + n_words k * 8" "2 \<le> n_words k"
    "tiles (mem s) (items s) v ys (block_words blk + block_n_words blk * 8)" by (auto simp: tiles_append)
  have "words k + 8 \<notin> fst ` live_in m (xs @ ys)"
    using live_in_outside [OF uv(1), of _ _ m] live_in_outside [OF uv(5), of _ _ m] uv(2-4) by (fastforce simp: live_in_simps)
  then show ?thesis using live_others [OF assms(1) [unfolded L] c(2), of m] c(3,4) by (simp add: L)
qed

lemma live_eq:
  assumes "block_good s b blk L us fs" and "(p, bs) \<in> live_in m L" "(p, bs') \<in> live_in m L"
  shows "bs = bs'"
proof (rule ccontr)
  assume "bs \<noteq> bs'"
  then have "(p, bs) \<in> live_in m L - {(p, bs')}" using assms(2) by simp
  then show False using live_unique [OF assms(1,3)] by force
qed

lemma good_dom: "block_good s b blk L us fs \<Longrightarrow> fst ` set L \<subseteq> dom (items s)"
  unfolding block_good_def by (blast dest: block_rep_dom)

lemma insert_diff_fst: "p \<notin> fst ` A \<Longrightarrow> insert (p, y) A - {(p, y)} = A"
  by force

lemma live_fit:
  assumes "block_good s b blk L us fs" and "(c, k) \<in> set L" and "0 < requested k"
  shows "requested k \<le> (n_words k - 2) * 8" "tag k \<noteq> None" "c \<in> set us" "c \<notin> set fs" "2 \<le> n_words k"
  using assms block_rep_cell(4) [of s b blk L us fs c k]
  by (auto simp: block_good_def coherent_def cell_good_def list_all_iff split: if_splits)

lemma memread_live:
  assumes "block_good s b blk L us fs" and "(p, bs) \<in> live_in (mem s) L"
  shows "memread s p (length bs) = Ret bs"
proof -
  obtain c k where c: "(c, k) \<in> set L" "0 < requested k" "p = words k + 8" "bs = octets (mem s) p (requested k)"
    using assms(2) by (rule liveE)
  have "block_rep s b blk L us fs" using assms(1) by (simp add: block_good_def)
  from block_rep_cell(7) [OF this c(1)] live_fit [OF assms(1) c(1,2)] have "mapped s p (requested k)"
    by (elim mapped_sub) (auto simp: c(3))
  then show ?thesis using c(4) by (simp add: memread_mapped)
qed

text \<open>A step that keeps the cells of the layout.\<close>

lemma block_step_same:
  assumes "pool_inv env s'" and "block_good s' b blk' L' us fs" and "fst ` set L' = fst ` set L" "fst ` set L \<subseteq> dom (items s)"
    and "confined b blk (fst ` set L) s s'" "dom (items s') = dom (items s)"
    and "block_words blk' = block_words blk" "block_n_words blk' = block_n_words blk"
  shows "block_step env b blk L s blk' L' s'"
proof -
  have "dom (items s) = dom (items s) - fst ` set L \<union> fst ` set L" "fst ` set L \<inter> (dom (items s) - fst ` set L) = {}"
    using assms(4) by auto
  moreover have "\<exists>us fs. block_good s' b blk' L' us fs" using assms(2) by blast
  ultimately show ?thesis unfolding block_step_def assms(3) Un_absorb assms(6) using assms(1,5,7,8) by simp
qed

text \<open>A used cell is given another length and tag.\<close>

lemma set_requested:
  assumes good: "block_good s b blk (xs @ (c, k) # ys) us fs" and inv: "pool_inv env s" and req: "0 < requested k"
    and kc: "cell_at (items s) c = Some kc" and len: "0 < len" "len \<le> (n_words k - 2) * 8" and t: "t \<noteq> None"
  defines "k' \<equiv> kc\<lparr>requested := len, tag := t\<rparr>"
  shows "block_good (set_cell s c k') b blk (xs @ (c, core k') # ys) us fs"
    "block_step env b blk (xs @ (c, k) # ys) s blk (xs @ (c, core k') # ys) (set_cell s c k')"
    "live_in (mem s) (xs @ (c, core k') # ys) = insert (words k + 8, octets (mem s) (words k + 8) len)
      (live_in (mem s) (xs @ (c, k) # ys) - {(words k + 8, octets (mem s) (words k + 8) (requested k))})"
proof -
  let ?L = "xs @ (c, k) # ys" and ?L' = "xs @ (c, core k') # ys" and ?s' = "set_cell s c k'"
  have rep: "block_rep s b blk ?L us fs" and coh: "coherent ?L (set us) (set fs)" using good by (auto simp: block_good_def)
  have "core kc = k" using block_rep_cell(3) [OF rep, of c k] kc by auto
  note kcf = core_fields [OF this]
  have k': "words k' = words k" "n_words k' = n_words k" "requested k' = len" "tag k' = t" by (simp_all add: k'_def kcf)
  have "block_rep ?s' b blk ?L' us fs" by (rule rep_set_cell [OF rep kc]) (simp_all add: k'_def)
  moreover have "coherent ?L' (set us) (set fs)"
    using coh req len t k' by (auto simp: coherent_append coherent_Cons cell_good_def)
  ultimately show good': "block_good ?s' b blk ?L' us fs" using good by (simp add: block_good_def)
  have dom: "dom (items ?s') = dom (items s)" using cell_at_dom [OF kc] by auto
  have "pool_inv env ?s'" by (rule meta.frame_law [OF inv _ dom]) simp
  moreover have "confined b blk (fst ` set ?L) s ?s'" by (auto simp: confined_def)
  moreover have "fst ` set ?L' = fst ` set ?L" by simp
  ultimately show "block_step env b blk ?L s blk ?L' ?s'"
    using block_step_same [OF _ good' _ block_rep_dom [OF rep] _ dom] by blast
  show "live_in (mem s) ?L' = insert (words k + 8, octets (mem s) (words k + 8) len)
      (live_in (mem s) ?L - {(words k + 8, octets (mem s) (words k + 8) (requested k))})"
    unfolding live_others [OF good req, symmetric] using len k' by (simp add: live_in_simps)
qed

definition realloc_result ::
  "nat \<Rightarrow> byte list \<Rightarrow> nat \<Rightarrow> nat \<Rightarrow> (nat \<times> byte list) set \<Rightarrow> (nat \<times> byte list) set \<Rightarrow> (nat \<rightharpoonup> byte) \<Rightarrow> bool" where
  "realloc_result p bs q len live live' m' \<longleftrightarrow>
     (if q = 0 then live' = live \<and> length bs < len
      else \<exists>bs'. length bs' = len \<and> take (length bs) bs' = take len bs \<and>
        (q \<noteq> p \<longrightarrow> q \<notin> fst ` live \<and> bs' = bs @ replicate (len - length bs) 0) \<and>
        live' = insert (q, bs') (live - {(p, bs)}) \<and>
        (\<forall>i. (if q = p then p + len \<le> i else p \<le> i) \<and> i < p + length bs \<longrightarrow> m' i = Some 0))"

text \<open>The length of an allocation changes in its place, and the octets from \<open>lo\<close> to \<open>hi\<close> are cleared.\<close>

lemma resize_in_place:
  assumes good: "block_good s b blk (xs @ (c, k) # ys) us fs" and inv: "pool_inv env s" and req: "0 < requested k"
    and kc: "cell_at (items s) c = Some kc" and len: "0 < len" "len \<le> (n_words k - 2) * 8" and t: "t \<noteq> None"
    and lohi: "lo \<le> hi" "hi \<le> (n_words k - 2) * 8" "min len (requested k) \<le> lo" "len < requested k \<longrightarrow> lo = len \<and> hi = requested k"
  shows "\<exists>s' L'. sec_clear (set_cell s c (kc\<lparr>requested := len, tag := t\<rparr>)) (words k + 8) lo hi = Ret s' \<and>
    block_step env b blk (xs @ (c, k) # ys) s blk L' s' \<and>
    realloc_result (words k + 8) (octets (mem s) (words k + 8) (requested k)) (words k + 8) len
      (live_in (mem s) (xs @ (c, k) # ys)) (live_in (mem s') L') (mem s')"
proof -
  let ?k' = "kc\<lparr>requested := len, tag := t\<rparr>" and ?p = "words k + 8" and ?bs = "octets (mem s) (words k + 8) (requested k)"
  let ?L = "xs @ (c, k) # ys" and ?s1 = "set_cell s c (kc\<lparr>requested := len, tag := t\<rparr>)"
  let ?L' = "xs @ (c, core ?k') # ys" and ?z = "replicate (hi - lo) (0 :: byte)"
  have rep: "block_rep s b blk ?L us fs" using good by (simp add: block_good_def)
  have "core kc = k" using block_rep_cell(3) [OF rep, of c k] kc by auto
  note kcf = core_fields [OF this]
  note sr = set_requested [OF good inv req kc len t]
  define s' where "s' = ?s1\<lparr>mem := write_octets (mem ?s1) (?p + lo) ?z\<rparr>"
  have m': "mem s' = write_octets (mem s) (?p + lo) ?z" by (simp add: s'_def)
  have lw: "memwrite ?s1 (?p + lo) ?z = Ret s'" "block_good s' b blk ?L' us fs" "confined b blk {} ?s1 s'"
    "live_in (mem s') ?L' = insert (?p, octets (mem s') ?p len) (live_in (mem s) ?L' - {(?p, octets (mem s) ?p len)})"
    using live_write [OF sr(1), of c "core ?k'" lo ?z] len lohi by (simp_all add: s'_def kcf)
  have eval: "sec_clear ?s1 ?p lo hi = Ret s'" using lw(1) lohi(1) by (simp add: sec_clear_def)
  have inv': "pool_inv env s'"
  proof -
    have "pool_inv env ?s1" using sr(2) by (simp add: block_step_def)
    then show ?thesis by (rule meta.frame_law) (simp_all add: s'_def)
  qed
  note sub = good_dom [OF sr(1)]
  have "block_step env b blk ?L' ?s1 blk ?L' s'"
    by (rule block_step_same [OF inv' lw(2) _ sub confined_mono [OF lw(3)]]) (simp_all add: s'_def)
  with sr(2) have step: "block_step env b blk ?L s blk ?L' s'" by (rule block_step_trans)
  let ?bs' = "octets (mem s') ?p len"
  have mem: "(?p, ?bs) \<in> live_in (mem s) ?L" using req by (auto simp: live_in_simps)
  have live: "live_in (mem s') ?L' = insert (?p, ?bs') (live_in (mem s) ?L - {(?p, ?bs)})"
    unfolding lw(4) sr(3) insert_diff_fst [OF live_unique [OF good mem]] ..
  have "?bs' ! i = ?bs ! i" if "i < len" "i < requested k" for i
  proof -
    have "?p + i < ?p + lo" using lohi(3) that by auto
    then have "mem s' (?p + i) = mem s (?p + i)" unfolding m' by (simp add: write_octets_def)
    with that show ?thesis by (simp add: octets_nth)
  qed
  then have tk: "take (requested k) ?bs' = take len ?bs" by (intro nth_equalityI) auto
  have clr: "mem s' i = Some 0" if "?p + len \<le> i" "i < ?p + requested k" for i
  proof -
    have "?p + lo \<le> i" "i < ?p + hi" using that lohi(4) by auto
    then show ?thesis unfolding m' by (simp add: write_octets_def)
  qed
  have p0: "?p \<noteq> 0" by simp
  have "realloc_result ?p ?bs ?p len (live_in (mem s) ?L) (live_in (mem s') ?L') (mem s')"
    unfolding realloc_result_def if_not_P [OF p0] using tk live clr by (intro exI [of _ ?bs']) simp
  with eval step show ?thesis by blast
qed


text \<open>The allocation moves to another cell of the block.\<close>

lemma realloc_move:
  assumes good: "block_good s b blk L us fs" and inv: "pool_inv env s" and p: "(p, bs) \<in> live_in (mem s) L"
    and len: "length bs < len"
  shows "\<exists>q s' blk' L'. obind (sec_alloc env s b tg len) (\<lambda>(alloc, s2).
       if alloc = 0 then Ret (0, s2)
       else obind (memread s2 p (length bs)) (\<lambda>bs. obind (memwrite s2 alloc bs) (\<lambda>s3.
         obind (sec_free s3 b p) (\<lambda>s4. Ret (alloc, s4))))) = Ret (q, s') \<and>
     block_step env b blk L s blk' L' s' \<and> realloc_result p bs q len (live_in (mem s) L) (live_in (mem s') L') (mem s')"
proof -
  let ?live = "live_in (mem s) L" and ?z = "replicate len (0 :: byte)"
  have "0 < len" using len by simp
  from sec_alloc_ok [OF good inv this, of tg] obtain q s2 blk2 L2 where a: "sec_alloc env s b tg len = Ret (q, s2)"
    "block_step env b blk L s blk2 L2 s2" "alloc_result q len (mem s) L (mem s2) L2" by blast
  show ?thesis
  proof (cases "q = 0")
    case True
    with a len show ?thesis
      by (intro exI [of _ 0] exI [of _ s2] exI [of _ blk2] exI [of _ L2]) (simp add: realloc_result_def alloc_result_def)
  next
    case False
    have r: "q \<notin> fst ` ?live" "live_in (mem s2) L2 = insert (q, ?z) ?live" using a(3) False by (simp_all add: alloc_result_def)
    obtain us2 fs2 where g2: "block_good s2 b blk2 L2 us2 fs2" "pool_inv env s2" using a(2) by (auto simp: block_step_def)
    have p2: "(p, bs) \<in> live_in (mem s2) L2" and q2: "(q, ?z) \<in> live_in (mem s2) L2" using r p by auto
    note rd = memread_live [OF g2(1) p2]
    from q2 obtain c k where ck: "(c, k) \<in> set L2" "0 < requested k" "q = words k + 8" "?z = octets (mem s2) q (requested k)"
      by (rule liveE)
    have rk: "requested k = len" using arg_cong [OF ck(4), of length] by simp
    define s3 where "s3 = s2\<lparr>mem := write_octets (mem s2) q bs\<rparr>"
    have "0 + length bs \<le> (n_words k - 2) * 8" using live_fit(1) [OF g2(1) ck(1,2)] rk len by simp
    from live_write [OF g2(1) ck(1,2) this]
    have w: "memwrite s2 q bs = Ret s3" "block_good s3 b blk2 L2 us2 fs2" "confined b blk2 {} s2 s3"
      "live_in (mem s3) L2 = insert (q, octets (mem s3) q len) (live_in (mem s2) L2 - {(q, octets (mem s2) q len)})"
      by (simp_all add: s3_def ck(3) rk)
    have z: "octets (mem s2) q len = ?z" using ck(4) rk by simp
    have "octets (mem s3) q len = bs @ replicate (len - length bs) 0"
      using octets_overwrite [of 0 bs len "mem s2" q] len unfolding z by (simp add: s3_def)
    then have l3: "live_in (mem s3) L2 = insert (q, bs @ replicate (len - length bs) 0) ?live"
      unfolding w(4) z r(2) insert_diff_fst [OF r(1)] by simp
    have inv3: "pool_inv env s3" by (rule meta.frame_law [OF g2(2)]) (simp_all add: s3_def)
    have "block_step env b blk2 L2 s2 blk2 L2 s3"
      by (rule block_step_same [OF inv3 w(2) _ _ confined_mono [OF w(3)]])
        (simp_all add: s3_def good_dom [OF g2(1)])
    with a(2) have st3: "block_step env b blk L s blk2 L2 s3" by (rule block_step_trans)
    have p3: "(p, bs) \<in> live_in (mem s3) L2" using p l3 by auto
    then obtain c' k' where ck': "(c', k') \<in> set L2" "0 < requested k'" "p = words k' + 8" "bs = octets (mem s3) p (requested k')"
      by (rule liveE)
    from sec_free_ok [OF w(2) inv3 ck'(1,2)] obtain s4 blk4 L4 where f: "sec_free s3 b p = Ret s4"
      "block_step env b blk2 L2 s3 blk4 L4 s4" "live_in (mem s4) L4 = live_in (mem s3) L2 - {(p, bs)}"
      "\<forall>i. p \<le> i \<and> i < p + requested k' \<longrightarrow> mem s4 i = Some 0" unfolding ck'(3) [symmetric] ck'(4) [symmetric] by blast
    have rk': "requested k' = length bs" using arg_cong [OF ck'(4), of length] by simp
    have pq: "p \<noteq> q" using r(1) p by force
    have l4: "live_in (mem s4) L4 = insert (q, bs @ replicate (len - length bs) 0) (?live - {(p, bs)})"
      unfolding f(3) l3 using pq by auto
    have "realloc_result p bs q len ?live (live_in (mem s4) L4) (mem s4)"
      unfolding realloc_result_def if_not_P [OF False]
      using l4 len pq f(4) r(1) by (intro exI [of _ "bs @ replicate (len - length bs) 0"]) (simp add: rk')
    with block_step_trans [OF st3 f(2)] a(1) rd w(1) f(1) False show ?thesis
      by (intro exI [of _ q] exI [of _ s4] exI [of _ blk4] exI [of _ L4]) simp
  qed
qed

lemma sec_realloc_ok:
  assumes good: "block_good s b blk L us fs" and inv: "pool_inv env s" and c: "(c, k) \<in> set L" "0 < requested k" and len: "0 < len"
  shows "\<exists>q s' blk' L'. sec_realloc env s b tg (words k + 8) len = Ret (q, s') \<and> block_step env b blk L s blk' L' s' \<and>
    realloc_result (words k + 8) (octets (mem s) (words k + 8) (requested k)) q len (live_in (mem s) L) (live_in (mem s') L') (mem s')"
proof -
  let ?p = "words k + 8" and ?n = "sec_size_to_words len + 2" and ?bs = "octets (mem s) (words k + 8) (requested k)"
  obtain xs ys where L: "L = xs @ (c, k) # ys" using c(1) by (meson split_list)
  have rep: "block_rep s b blk L us fs" using good by (simp add: block_good_def)
  note fit = live_fit [OF good c] and lc = live_cell_ok(1) [OF rep inv c(1)]
  obtain kc where kc: "cell_at (items s) c = Some kc" "core kc = k" using block_rep_cell(3) [OF rep c(1)] by auto
  note kcf = core_fields [OF kc(2)]
  note real = sec_realloc_def [of env s b tg ?p len] and at = lc cell_at_get [OF kc(1)]
  show ?thesis
  proof (cases "?n \<le> n_words k")
    case True
    have room: "len \<le> (n_words k - 2) * 8"
      using sec_size_to_words_bound(1) [of len] True by (auto intro: order_trans)
    define lo where "lo = min len (requested k)"
    define hi where "hi = (if len < requested k then requested k else lo)"
    have lh: "lo \<le> hi" "hi \<le> (n_words k - 2) * 8" "min len (requested k) \<le> lo" "len < requested k \<longrightarrow> lo = len \<and> hi = requested k"
      using fit(1) room by (auto simp: lo_def hi_def)
    from resize_in_place [OF good [unfolded L] inv c(2) kc(1) len room fit(2) lh] obtain s' L' where r:
      "sec_clear (set_cell s c (kc\<lparr>requested := len, tag := tag k\<rparr>)) ?p lo hi = Ret s'" "block_step env b blk L s blk L' s'"
      "realloc_result ?p ?bs ?p len (live_in (mem s) L) (live_in (mem s') L') (mem s')" unfolding L by blast
    have k': "kc\<lparr>requested := len, tag := tag k\<rparr> = kc\<lparr>requested := len\<rparr>" by (simp flip: kcf(4))
    have "sec_realloc env s b tg ?p len = Ret (?p, s')"
    proof (cases "len < requested k")
      case True
      then show ?thesis using r(1) \<open>?n \<le> n_words k\<close> c(2) fit(2) len
        unfolding real k' by (simp add: at kcf sec_cell_to_memory_def Let_def lo_def hi_def)
    next
      case False
      then have "s' = set_cell s c (kc\<lparr>requested := len\<rparr>)"
        using r(1) unfolding k' by (simp add: lo_def hi_def sec_clear_def)
      then show ?thesis using \<open>?n \<le> n_words k\<close> c(2) fit(2) len False
        unfolding real by (simp add: at kcf sec_cell_to_memory_def Let_def)
    qed
    with r(2,3) show ?thesis by blast
  next
    case False
    have "distinct (map fst L)" using rep by (auto simp: block_rep_def dest: tiles_distinct)
    then have "length (map fst L) \<le> item_slots s"
      using block_rep_dom [OF rep] by (intro meta.slots_distinct [OF inv]) auto
    then have "n \<le> n_words k \<or> length ys < Suc (item_slots s)" for n by (simp add: L)
    from grow_cell_ok [OF good [unfolded L] inv c(2) _ this] obtain s1 blk1 k1 ys1 where g:
      "grow_cell (Suc (item_slots s)) s b c ?n = Ret s1" "block_step env b blk L s blk1 (xs @ (c, k1) # ys1) s1"
      "live_in (mem s1) (xs @ (c, k1) # ys1) = live_in (mem s) L" "words k1 = words k" "requested k1 = requested k"
      unfolding L by blast
    let ?L1 = "xs @ (c, k1) # ys1"
    obtain us1 fs1 where g1: "block_good s1 b blk1 ?L1 us1 fs1" "pool_inv env s1" using g(2) by (auto simp: block_step_def)
    have rep1: "block_rep s1 b blk1 ?L1 us1 fs1" using g1(1) by (simp add: block_good_def)
    obtain kc1 where kc1: "cell_at (items s1) c = Some kc1" "core kc1 = k1" using block_rep_cell(3) [OF rep1, of c k1] by auto
    note kcf1 = core_fields [OF kc1(2)]
    have "(?p, octets (mem s1) ?p (requested k)) \<in> live_in (mem s1) ?L1" using c(2) g(4,5) by (auto simp: live_in_simps)
    moreover have "(?p, ?bs) \<in> live_in (mem s1) ?L1" using c unfolding g(3) by (auto simp: live_in_def)
    ultimately have bs: "octets (mem s1) ?p (requested k) = ?bs" by (rule live_eq [OF g1(1)])
    have big: "requested k1 < len" if "n_words k1 < ?n"
    proof -
      have "0 < requested k1" using c(2) g(5) by simp
      from live_fit(1,5) [OF g1(1) _ this] have "requested k1 \<le> (n_words k1 - 2) * 8" "2 \<le> n_words k1" by auto
      with that sec_size_to_words_bound(2) [of len] show ?thesis by linarith
    qed
    show ?thesis
    proof (cases "?n \<le> n_words k1")
      case True
      have room: "len \<le> (n_words k1 - 2) * 8" using sec_size_to_words_bound(1) [of len] True by (auto intro: order_trans)
      have big0: "requested k1 \<le> len"
        using \<open>\<not> ?n \<le> n_words k\<close> fit(1,5) sec_size_to_words_bound(2) [of len] unfolding g(5) by linarith
      from resize_in_place [OF g1 _ kc1(1) len room, of "Some tg" "requested k1" len] c(2) g(4,5) room big0
      obtain s' L' where r: "sec_clear (set_cell s1 c (kc1\<lparr>requested := len, tag := Some tg\<rparr>)) ?p (requested k) len = Ret s'"
        "block_step env b blk1 ?L1 s1 blk1 L' s'" "realloc_result ?p ?bs ?p len (live_in (mem s) L) (live_in (mem s') L') (mem s')"
        by (auto simp: bs g(3))
      have "sec_realloc env s b tg ?p len = Ret (?p, s')"
        using r(1) True False g(1) c(2) fit(2) len
        unfolding real by (simp add: at kcf kcf1 g(4) cell_at_get [OF kc1(1)] sec_cell_to_memory_def Let_def)
      with block_step_trans [OF g(2) r(2)] r(3) show ?thesis by blast
    next
      case small: False
      have "(?p, ?bs) \<in> live_in (mem s1) ?L1" using c unfolding g(3) by (auto simp: live_in_def)
      moreover have "length ?bs < len" using big small g(5) by simp
      ultimately obtain q s' blk' L' where r: "obind (sec_alloc env s1 b tg len) (\<lambda>(alloc, s2).
         if alloc = 0 then Ret (0, s2)
         else obind (memread s2 ?p (length ?bs)) (\<lambda>bs. obind (memwrite s2 alloc bs) (\<lambda>s3.
           obind (sec_free s3 b ?p) (\<lambda>s4. Ret (alloc, s4))))) = Ret (q, s')"
        "block_step env b blk1 ?L1 s1 blk' L' s'" "realloc_result ?p ?bs q len (live_in (mem s1) ?L1) (live_in (mem s') L') (mem s')"
        using realloc_move [OF g1] by blast
      have lb: "length ?bs = requested kc" by (simp add: kcf)
      have "sec_realloc env s b tg ?p len = Ret (q, s')"
        using r(1) [unfolded lb] small False g(1) c(2) fit(2) len
        unfolding real by (simp add: at kcf kcf1 cell_at_get [OF kc1(1)] Let_def)
      with block_step_trans [OF g(2) r(2)] r(3) show ?thesis unfolding g(3) by blast
    qed
  qed
qed


section \<open>Queries and validation\<close>

lemma tiles_fun: "tiles m its a L e \<Longrightarrow> tiles m its a L e' \<Longrightarrow> e = e'"
  by (induction m its a L e rule: tiles.induct) auto

lemma sec_allocated_ok:
  assumes "block_good s b blk L us fs" and "pool_inv env s" and "(c, k) \<in> set L" "0 < requested k"
  shows "sec_allocated s b (words k + 8) = Ret (requested k)"
proof -
  have rep: "block_rep s b blk L us fs" using assms(1) by (simp add: block_good_def)
  obtain kc where kc: "cell_at (items s) c = Some kc" "core kc = k" using block_rep_cell(3) [OF rep assms(3)] by auto
  then show ?thesis
    using live_cell_ok(1) [OF rep assms(2,3)] live_fit(2) [OF assms(1,3,4)] assms(4) core_fields [OF kc(2)]
    by (simp add: sec_allocated_def cell_at_get [OF kc(1)])
qed

lemma linked_cell_ok:
  assumes "ring (items s) r xs" and "c \<in> set xs" and "cell_at (items s) c = Some k"
  shows "linked_cell s c k = Ret ()"
proof -
  note n = ring_next [OF assms(1,2)]
  have nx: "next_at (items s) c = next_cell k" "prev_at (items s) c = prev_cell k"
    using assms(3) by (simp_all add: next_at_def prev_at_def)
  obtain k1 where k1: "cell_at (items s) (next_cell k) = Some k1" using n(1) assms(1) by (auto simp: ring_def nx)
  obtain k2 where k2: "cell_at (items s) (prev_cell k) = Some k2" using n(2) assms(1) by (auto simp: ring_def nx)
  have "prev_cell k1 = c" "next_cell k2 = c" using n(3,4) k1 k2 unfolding nx by (simp_all add: next_at_def prev_at_def)
  then show ?thesis using n(5,6) by (simp add: linked_cell_def nx cell_at_get [OF k1] cell_at_get [OF k2])
qed

lemma validate_words_ok:
  assumes good: "block_good s b blk (xs @ ys) us fs" and inv: "pool_inv env s" and "ys \<noteq> []" "length ys \<le> fuel"
    and "tiles (mem s) (items s) (block_words blk) xs a"
  shows "validate_words fuel s blk a = Ret ()"
  using assms
proof (induction ys arbitrary: xs a fuel)
  case (Cons ck ys)
  obtain c k where ck: "ck = (c, k)" by (cases ck)
  obtain fuel' where fuel: "fuel = Suc fuel'" using Cons.prems(4) by (cases fuel) auto
  let ?e = "block_words blk + block_n_words blk * 8"
  note good = Cons.prems(1) [unfolded ck]
  have rep: "block_rep s b blk (xs @ (c, k) # ys) us fs" and coh: "coherent (xs @ (c, k) # ys) (set us) (set fs)"
    using good by (simp_all add: block_good_def)
  have m: "(c, k) \<in> set (xs @ (c, k) # ys)" by simp
  have "tiles (mem s) (items s) (block_words blk) (xs @ (c, k) # ys) ?e" using rep by (simp add: block_rep_def)
  moreover have "z = a" if "tiles (mem s) (items s) (block_words blk) xs z" for z
    using tiles_fun [OF Cons.prems(5) that] by simp
  ultimately have t: "words k = a" "2 \<le> n_words k" "tiles (mem s) (items s) (a + n_words k * 8) ys ?e" "ptr_at (mem s) a c"
    and one: "tiles (mem s) (items s) a [(c, k)] (a + n_words k * 8)"
    by (auto simp: tiles_append)
  have v: "a < ?e" "sec_is_valid_word blk a" using t block_rep_cell(5,6) [OF rep m] by (auto simp: sec_is_valid_word_def in_block_def)
  note ptr = meta.valid_pointer [OF inv block_rep_cell(2) [OF rep m]]
  have l: "load_ptr s a = Ret c" by (rule load_ptr_at [OF t(4) ptr(2)])
  obtain kc where kc: "cell_at (items s) c = Some kc" "core kc = k" using block_rep_cell(3) [OF rep m] by auto
  note kcf = core_fields [OF kc(2)]
  have rings: "ring (items s) (used_cells blk) us" "ring (items s) (unused_cells blk) fs" using rep by (simp_all add: block_rep_def)
  have ok: "(if requested kc > 0 then g_assert (tag kc \<noteq> None) (obind (linked_cell s c kc) (\<lambda>_.
        g_assert (requested kc \<le> (n_words kc - 2) * 8) (Ret ())))
      else g_assert (tag kc = None) (linked_cell s c kc)) = Ret ()"
    using coh linked_cell_ok [OF rings(1) _ kc(1)] linked_cell_ok [OF rings(2) _ kc(1)]
    by (auto simp: coherent_append coherent_Cons cell_good_def kcf)
  have next_word: "validate_words fuel' s blk (a + n_words k * 8) = Ret ()" if "ys \<noteq> []"
  proof (rule Cons.IH [of "xs @ [(c, k)]"])
    show "block_good s b blk ((xs @ [(c, k)]) @ ys) us fs" using good by simp
    show "tiles (mem s) (items s) (block_words blk) (xs @ [(c, k)]) (a + n_words k * 8)"
      using Cons.prems(5) one by (auto simp: tiles_append)
  qed (use that inv Cons.prems(4) fuel in auto)
  have last: "a + n_words k * 8 = ?e \<longleftrightarrow> ys = []"
  proof
    assume "a + n_words k * 8 = ?e"
    with t(3) show "ys = []" using tiles_le by (cases ys) fastforce+
  qed (use t(3) in simp)
  show ?case
    using v l ptr(3) live_cell_ok(2) [OF rep inv m] ok last next_word unfolding fuel
    by (subst validate_words.simps) (simp add: cell_at_get [OF kc(1)] kcf(2) Let_def)
qed simp

lemma sec_validate_ok:
  assumes good: "block_good s b blk L us fs" and inv: "pool_inv env s" and n: "0 < block_n_words blk"
  shows "sec_validate s b = Ret ()"
proof -
  have rep: "block_rep s b blk L us fs" using good by (simp add: block_good_def)
  have "L \<noteq> []" using rep n by (auto simp: block_rep_def)
  moreover have "length L \<le> Suc (item_slots s)"
  proof -
    have "distinct (map fst L)" using rep by (auto simp: block_rep_def dest: tiles_distinct)
    then have "length (map fst L) \<le> item_slots s"
      using block_rep_dom [OF rep] by (intro meta.slots_distinct [OF inv]) auto
    then show ?thesis by simp
  qed
  ultimately show ?thesis
    using validate_words_ok [of s b blk "[]" L us fs env, OF _ inv] good block_rep_get(1) [OF rep]
    by (simp add: sec_validate_def)
qed

end
