(* ===== verification/Egg_Secure_Memory.thy ===== *)
theory Egg_Secure_Memory
  imports Egg_Secure_Realloc
begin

text \<open>
  The public part of the allocator of locked memory (egg/egg-secure-memory.c from
  \<^verbatim>\<open>sec_acquire_pages\<close> on, and gcr/gcr-secure-memory.c): pages, blocks, allocation over all
  blocks with the fallback of the program, strings and records.

  The lock that surrounds each public operation makes it one step; warnings on the standard error are
  left out.  Memory outside of the allocator that a function reads (the source of a string) is a list
  of octets.
\<close>

section \<open>Operations\<close>

abbreviation (input) DEFAULT_BLOCK_SIZE :: nat where "DEFAULT_BLOCK_SIZE \<equiv> 16384"

subsection \<open>Pages\<close>

definition round_pages :: "nat \<Rightarrow> nat \<Rightarrow> nat" where
  "round_pages pgsize sz =
     unat ((word_of_nat (sz + pgsize - 1) :: 64 word) AND NOT (word_of_nat (pgsize - 1)))"

definition unmap :: "secmem \<Rightarrow> nat \<Rightarrow> nat \<Rightarrow> secmem" where
  "unmap s a n = s\<lparr>mem := (\<lambda>i. if a \<le> i \<and> i < a + n then None else mem s i)\<rparr>"

definition sec_acquire_pages :: "os \<Rightarrow> secmem \<Rightarrow> nat \<Rightarrow> (nat \<times> nat \<times> secmem) outcome" where
  "sec_acquire_pages env s sz0 =
     g_assert (sz0 \<noteq> 0)
       (let sz = round_pages (getpagesize env) sz0; s1 = s\<lparr>os_calls := os_calls s + 1\<rparr> in
        case os_mmap env s sz of
          None \<Rightarrow> Ret (0, sz, s1)
        | Some pages \<Rightarrow>
            let s2 = s1\<lparr>mem := write_octets (mem s) pages (replicate sz 0)\<rparr> in
            if os_mlock env s2 pages sz then Ret (pages, sz, s2)
            else Ret (0, sz, unmap s2 pages sz))"

definition sec_release_pages :: "os \<Rightarrow> secmem \<Rightarrow> nat \<Rightarrow> nat \<Rightarrow> secmem outcome" where
  "sec_release_pages env s pages sz =
     g_assert (pages \<noteq> 0) (g_assert (sz mod getpagesize env = 0) (Ret (unmap s pages sz)))"

subsection \<open>Blocks\<close>

definition sec_block_create :: "os \<Rightarrow> secmem \<Rightarrow> nat \<Rightarrow> (nat \<times> secmem) outcome" where
  "sec_block_create env s size0 =
     (if force_fallback env then Ret (0, s)
      else
        obind (pool_alloc env s) (\<lambda>(b, s1).
          if b = 0 then Ret (0, s1)
          else
            obind (pool_alloc env s1) (\<lambda>(c, s2).
              if c = 0 then obind (pool_free s2 b) (\<lambda>s3. Ret (0, s3))
              else
                obind (sec_acquire_pages env s2 (max size0 DEFAULT_BLOCK_SIZE)) (\<lambda>(pages, size, s3).
                  if pages = 0 then
                    obind (pool_free s3 b) (\<lambda>s4. obind (pool_free s4 c) (\<lambda>s5. Ret (0, s5)))
                  else
                    obind (get_block s3 b) (\<lambda>block.
                    let s4 = set_block s3 b (block\<lparr>block_words := pages, block_n_words := size div SIZEOF_PTR\<rparr>) in
                    obind (upd_cell s4 c (\<lambda>k. k\<lparr>words := pages, n_words := size div SIZEOF_PTR, requested := 0\<rparr>)) (\<lambda>s5.
                    obind (sec_write_guards s5 c) (\<lambda>s6.
                    obind (insert_unused s6 b c) (\<lambda>s7.
                    Ret (b, s7\<lparr>all_blocks := b # all_blocks s7\<rparr>)))))))))"

fun free_unused :: "nat \<Rightarrow> secmem \<Rightarrow> nat \<Rightarrow> secmem outcome" where
  "free_unused fuel s b =
     (case fuel of
        0 \<Rightarrow> Undef
      | Suc fuel' \<Rightarrow>
          obind (get_block s b) (\<lambda>block.
            if unused_cells block = 0 then Ret s
            else
              let c = unused_cells block in
              obind (remove_unused s b c) (\<lambda>s1.
              obind (pool_free s1 c) (\<lambda>s2. free_unused fuel' s2 b))))"

declare free_unused.simps [simp del]

definition sec_block_destroy :: "os \<Rightarrow> secmem \<Rightarrow> nat \<Rightarrow> secmem outcome" where
  "sec_block_destroy env s b =
     g_assert (b \<noteq> 0)
       (obind (get_block s b) (\<lambda>block.
         g_assert (block_words block \<noteq> 0) (g_assert (n_used block = 0)
           (let s1 = s\<lparr>all_blocks := remove1 b (all_blocks s)\<rparr> in
            g_assert (b \<in> set (all_blocks s)) (g_assert (used_cells block = 0)
              (obind (free_unused (Suc (item_slots s1)) s1 b) (\<lambda>s2.
               obind (sec_release_pages env s2 (block_words block) (block_n_words block * SIZEOF_PTR)) (\<lambda>s3.
               pool_free s3 b))))))))"

text \<open>The block a pointer lies in: the first block of the list that has the word.\<close>

fun find_block :: "secmem \<Rightarrow> nat list \<Rightarrow> nat \<Rightarrow> nat outcome" where
  "find_block s [] memory = Ret 0"
| "find_block s (b # bs) memory =
     obind (get_block s b) (\<lambda>block.
       if sec_is_valid_word block memory then Ret b else find_block s bs memory)"

subsection \<open>Allocation, reallocation, release\<close>

definition call_fallback :: "os \<Rightarrow> secmem \<Rightarrow> bool \<Rightarrow> nat \<Rightarrow> nat \<Rightarrow> (nat \<times> secmem) option" where
  "call_fallback env s use_fallback memory len =
     (case os_fallback env of
        Some f \<Rightarrow>
          if use_fallback then
            (case f s memory len of (p, m) \<Rightarrow> Some (p, s\<lparr>mem := m, os_calls := os_calls s + 1\<rparr>))
          else None
      | None \<Rightarrow> None)"

fun alloc_in_blocks ::
  "os \<Rightarrow> secmem \<Rightarrow> nat list \<Rightarrow> byte list \<Rightarrow> nat \<Rightarrow> (nat \<times> secmem) outcome" where
  "alloc_in_blocks env s [] tg len = Ret (0, s)"
| "alloc_in_blocks env s (b # bs) tg len =
     obind (sec_alloc env s b tg len) (\<lambda>(memory, s1).
       if memory \<noteq> 0 then Ret (memory, s1) else alloc_in_blocks env s1 bs tg len)"

definition egg_secure_alloc_full ::
  "os \<Rightarrow> secmem \<Rightarrow> byte list option \<Rightarrow> nat \<Rightarrow> bool \<Rightarrow> (nat \<times> secmem) outcome" where
  "egg_secure_alloc_full env s tg len use_fallback =
     (let t = (case tg of None \<Rightarrow> cstr ''?'' | Some t \<Rightarrow> t) in
      if len > 0xFFFFFFFF div 2 then Ret (0, s)
      else if len = 0 then Ret (0, s)
      else
        obind (alloc_in_blocks env s (all_blocks s) t len) (\<lambda>(memory1, s1).
        obind
          (if memory1 \<noteq> 0 then Ret (memory1, s1)
           else
             obind (sec_block_create env s1 len) (\<lambda>(b, s2).
               if b \<noteq> 0 then sec_alloc env s2 b t len else Ret (0, s2)))
          (\<lambda>(memory2, s3).
            if memory2 \<noteq> 0 then Ret (memory2, s3)
            else
              (case call_fallback env s3 use_fallback 0 len of
                 None \<Rightarrow> Ret (0, s3)
               | Some (p, s4) \<Rightarrow>
                   if p \<noteq> 0 then obind (memwrite s4 p (replicate len 0)) (\<lambda>s5. Ret (p, s5))
                   else Ret (0, s4)))))"

definition egg_secure_free_full :: "os \<Rightarrow> secmem \<Rightarrow> nat \<Rightarrow> bool \<Rightarrow> secmem outcome" where
  "egg_secure_free_full env s memory use_fallback =
     (if memory = 0 then Ret s
      else
        obind (find_block s (all_blocks s) memory) (\<lambda>b.
          if b \<noteq> 0 then
            obind (sec_free s b memory) (\<lambda>s1.
            obind (get_block s1 b) (\<lambda>block.
              if n_used block = 0 then sec_block_destroy env s1 b else Ret s1))
          else
            (case call_fallback env s use_fallback memory 0 of
               Some (_, s1) \<Rightarrow> Ret s1
             | None \<Rightarrow> Abort)))"

definition egg_secure_free :: "os \<Rightarrow> secmem \<Rightarrow> nat \<Rightarrow> secmem outcome" where
  "egg_secure_free env s memory = egg_secure_free_full env s memory True"

definition egg_secure_realloc_full ::
  "os \<Rightarrow> secmem \<Rightarrow> byte list option \<Rightarrow> nat \<Rightarrow> nat \<Rightarrow> bool \<Rightarrow> (nat \<times> secmem) outcome" where
  "egg_secure_realloc_full env s tg memory len use_fallback =
     (let t = (case tg of None \<Rightarrow> cstr ''?'' | Some t \<Rightarrow> t) in
      if len > 0xFFFFFFFF div 2 then Ret (0, s)
      else if memory = 0 then egg_secure_alloc_full env s (Some t) len use_fallback
      else if len = 0 then
        obind (egg_secure_free_full env s memory use_fallback) (\<lambda>s1. Ret (0, s1))
      else
        obind (find_block s (all_blocks s) memory) (\<lambda>b.
          if b = 0 then
            (case call_fallback env s use_fallback memory len of
               Some (p, s1) \<Rightarrow> Ret (p, s1)
             | None \<Rightarrow> Abort)
          else
            obind (sec_allocated s b memory) (\<lambda>previous.
            obind (sec_realloc env s b t memory len) (\<lambda>(alloc, s1).
            obind (get_block s1 b) (\<lambda>block.
            obind (if n_used block = 0 then sec_block_destroy env s1 b else Ret s1) (\<lambda>s2.
              if alloc \<noteq> 0 then Ret (alloc, s2)
              else
                obind (egg_secure_alloc_full env s2 (Some t) len use_fallback) (\<lambda>(alloc', s3).
                  if alloc' = 0 then Ret (0, s3)
                  else
                    obind (memread s3 memory previous) (\<lambda>bs.
                    obind (memwrite s3 alloc' bs) (\<lambda>s4.
                    obind (egg_secure_free_full env s4 memory use_fallback) (\<lambda>s5.
                    Ret (alloc', s5)))))))))))"

definition egg_secure_check :: "secmem \<Rightarrow> nat \<Rightarrow> bool outcome" where
  "egg_secure_check s memory =
     obind (find_block s (all_blocks s) memory) (\<lambda>b. Ret (b \<noteq> 0))"

fun validate_blocks :: "secmem \<Rightarrow> nat list \<Rightarrow> unit outcome" where
  "validate_blocks s [] = Ret ()"
| "validate_blocks s (b # bs) = obind (sec_validate s b) (\<lambda>_. validate_blocks s bs)"

definition egg_secure_validate :: "secmem \<Rightarrow> unit outcome" where
  "egg_secure_validate s = validate_blocks s (all_blocks s)"

subsection \<open>Records\<close>

record egg_secure_rec =
  rec_tag :: "byte list option"
  request_length :: nat
  block_length :: nat

definition rec_of_cell :: "Cell \<Rightarrow> egg_secure_rec" where
  "rec_of_cell cell =
     \<lparr>rec_tag = tag cell, request_length = requested cell, block_length = n_words cell * SIZEOF_PTR\<rparr>"

abbreviation (input) SIZEOF_REC :: nat where "SIZEOF_REC \<equiv> 24"

fun records_loop ::
  "nat \<Rightarrow> os \<Rightarrow> secmem \<Rightarrow> nat \<Rightarrow> nat \<Rightarrow> egg_secure_rec list \<Rightarrow> nat \<Rightarrow> nat \<Rightarrow>
   (egg_secure_rec list option \<times> nat) outcome" where
  "records_loop fuel env s cell_ring c recs allocated tot =
     (case fuel of
        0 \<Rightarrow> Undef
      | Suc fuel' \<Rightarrow>
          if length recs \<ge> allocated \<and> \<not> os_realloc env s (SIZEOF_REC * (allocated + 32)) then Ret (None, tot)
          else
            let allocated' = (if length recs \<ge> allocated then allocated + 32 else allocated) in
            if c = 0 then Ret (Some recs, tot)
            else
              obind (get_cell s c) (\<lambda>cell.
                let recs' = recs @ [rec_of_cell cell]; tot' = wrap32 (tot + n_words cell) in
                if next_cell cell \<noteq> 0 \<and> next_cell cell \<noteq> cell_ring
                then records_loop fuel' env s cell_ring (next_cell cell) recs' allocated' tot'
                else Ret (Some recs', tot')))"

declare records_loop.simps [simp del]

definition records_for_ring ::
  "os \<Rightarrow> secmem \<Rightarrow> nat \<Rightarrow> egg_secure_rec list \<Rightarrow> nat \<Rightarrow> (egg_secure_rec list option \<times> nat) outcome" where
  "records_for_ring env s cell_ring recs tot =
     records_loop (Suc (item_slots s)) env s cell_ring cell_ring recs (length recs) tot"

fun records_of_blocks ::
  "os \<Rightarrow> secmem \<Rightarrow> nat list \<Rightarrow> egg_secure_rec list \<Rightarrow> egg_secure_rec list option outcome" where
  "records_of_blocks env s [] recs = Ret (Some recs)"
| "records_of_blocks env s (b # bs) recs =
     obind (get_block s b) (\<lambda>block.
     obind (records_for_ring env s (unused_cells block) recs 0) (\<lambda>(r1, total1).
       case r1 of
         None \<Rightarrow> Ret None
       | Some recs1 \<Rightarrow>
           obind (records_for_ring env s (used_cells block) recs1 total1) (\<lambda>(r2, total2).
             case r2 of
               None \<Rightarrow> Ret None
             | Some recs2 \<Rightarrow>
                 g_assert (total2 = block_n_words block) (records_of_blocks env s bs recs2))))"

definition egg_secure_records :: "os \<Rightarrow> secmem \<Rightarrow> egg_secure_rec list option outcome" where
  "egg_secure_records env s =
     (if all_blocks s = [] then Ret None else records_of_blocks env s (all_blocks s) [])"

subsection \<open>Strings\<close>

definition egg_secure_strdup_full ::
  "os \<Rightarrow> secmem \<Rightarrow> byte list option \<Rightarrow> byte list option \<Rightarrow> bool \<Rightarrow> (nat \<times> secmem) outcome" where
  "egg_secure_strdup_full env s tg str use_fallback =
     (case str of
        None \<Rightarrow> Ret (0, s)
      | Some st \<Rightarrow>
          obind (egg_secure_alloc_full env s tg (length st + 1) use_fallback) (\<lambda>(res, s1).
            if res = 0 then Undef
            else obind (memwrite s1 res (st @ [0])) (\<lambda>s2. Ret (res, s2))))"

text \<open>Here the source is the whole area of memory from \<open>str\<close> on that may be read.\<close>

definition egg_secure_strndup_full ::
  "os \<Rightarrow> secmem \<Rightarrow> byte list option \<Rightarrow> byte list option \<Rightarrow> nat \<Rightarrow> bool \<Rightarrow> (nat \<times> secmem) outcome" where
  "egg_secure_strndup_full env s tg str len0 use_fallback =
     (case str of
        None \<Rightarrow> Ret (0, s)
      | Some st \<Rightarrow>
          if length (until_nul st) = length st \<and> length st < len0 then Undef
          else
            let len1 = (case memchr (take len0 st) 0 of Some i \<Rightarrow> i | None \<Rightarrow> len0); len = len1 + 1 in
            obind (egg_secure_alloc_full env s tg len use_fallback) (\<lambda>(res, s1).
              if res = 0 \<or> length st < len then Undef
              else obind (memwrite s1 res (take len st)) (\<lambda>s2. Ret (res, s2))))"

definition egg_secure_clear :: "secmem \<Rightarrow> nat \<Rightarrow> nat \<Rightarrow> secmem outcome" where
  "egg_secure_clear s p len =
     (if p = 0 then Ret s else memwrite s p (replicate len 0xAA))"

partial_function (option) mem_strlen :: "secmem \<Rightarrow> nat \<Rightarrow> nat option" where
  "mem_strlen s a =
     (case mem s a of
        None \<Rightarrow> None
      | Some b \<Rightarrow> if b = 0 then Some 0 else Option.bind (mem_strlen s (Suc a)) (\<lambda>n. Some (Suc n)))"

definition egg_secure_strclear :: "secmem \<Rightarrow> nat \<Rightarrow> secmem outcome" where
  "egg_secure_strclear s str =
     (if str = 0 then Ret s
      else (case mem_strlen s str of None \<Rightarrow> Undef | Some n \<Rightarrow> egg_secure_clear s str n))"

definition egg_secure_strfree :: "os \<Rightarrow> secmem \<Rightarrow> nat \<Rightarrow> secmem outcome" where
  "egg_secure_strfree env s str =
     obind (egg_secure_strclear s str) (\<lambda>s1. egg_secure_free_full env s1 str True)"

subsection \<open>The interface of gcr\<close>

definition gcr_secure_memory_alloc :: "os \<Rightarrow> secmem \<Rightarrow> nat \<Rightarrow> (nat \<times> secmem) outcome" where
  "gcr_secure_memory_alloc env s size0 =
     obind (egg_secure_alloc_full env s (Some (cstr ''gcr-secure-memory'')) size0 True) (\<lambda>(memory, s1).
       g_assert (memory \<noteq> 0) (Ret (memory, s1)))"

definition gcr_secure_memory_try_alloc :: "os \<Rightarrow> secmem \<Rightarrow> nat \<Rightarrow> (nat \<times> secmem) outcome" where
  "gcr_secure_memory_try_alloc env s size0 =
     egg_secure_alloc_full env s (Some (cstr ''gcr-secure-memory'')) size0 False"

definition gcr_secure_memory_free :: "os \<Rightarrow> secmem \<Rightarrow> nat \<Rightarrow> secmem outcome" where
  "gcr_secure_memory_free env s memory =
     (if memory = 0 then Ret s else egg_secure_free_full env s memory True)"

definition gcr_secure_memory_realloc ::
  "os \<Rightarrow> (secmem \<Rightarrow> nat \<Rightarrow> nat \<Rightarrow> nat \<times> (nat \<rightharpoonup> byte)) \<Rightarrow> secmem \<Rightarrow> nat \<Rightarrow> nat \<Rightarrow>
   (nat \<times> secmem) outcome" where
  "gcr_secure_memory_realloc env g_realloc s memory size0 =
     (if memory = 0 then gcr_secure_memory_alloc env s size0
      else if size0 = 0 then obind (gcr_secure_memory_free env s memory) (\<lambda>s1. Ret (0, s1))
      else
        obind (egg_secure_check s memory) (\<lambda>secure.
          if \<not> secure then (case g_realloc s memory size0 of (p, m) \<Rightarrow> Ret (p, s\<lparr>mem := m\<rparr>))
          else
            obind (egg_secure_realloc_full env s (Some (cstr ''gcr-secure-memory'')) memory size0 True)
              (\<lambda>(new_memory, s1). g_assert (new_memory \<noteq> 0) (Ret (new_memory, s1)))))"

definition gcr_secure_memory_try_realloc ::
  "os \<Rightarrow> (secmem \<Rightarrow> nat \<Rightarrow> nat \<Rightarrow> nat \<times> (nat \<rightharpoonup> byte)) \<Rightarrow> secmem \<Rightarrow> nat \<Rightarrow> nat \<Rightarrow>
   (nat \<times> secmem) outcome" where
  "gcr_secure_memory_try_realloc env g_try_realloc s memory size0 =
     (if memory = 0 then gcr_secure_memory_try_alloc env s size0
      else if size0 = 0 then obind (gcr_secure_memory_free env s memory) (\<lambda>s1. Ret (0, s1))
      else
        obind (egg_secure_check s memory) (\<lambda>secure.
          if \<not> secure then (case g_try_realloc s memory size0 of (p, m) \<Rightarrow> Ret (p, s\<lparr>mem := m\<rparr>))
          else egg_secure_realloc_full env s (Some (cstr ''gcr-secure-memory'')) memory size0 False))"

definition gcr_secure_memory_is_secure :: "secmem \<Rightarrow> nat \<Rightarrow> bool outcome" where
  "gcr_secure_memory_is_secure s memory = egg_secure_check s memory"

definition gcr_secure_memory_strdup :: "os \<Rightarrow> secmem \<Rightarrow> byte list option \<Rightarrow> (nat \<times> secmem) outcome" where
  "gcr_secure_memory_strdup env s str =
     egg_secure_strdup_full env s (Some (cstr ''gcr-secure-memory'')) str True"

definition gcr_secure_memory_strfree :: "os \<Rightarrow> secmem \<Rightarrow> nat \<Rightarrow> secmem outcome" where
  "gcr_secure_memory_strfree env s str = egg_secure_strfree env s str"


section \<open>The invariant of the allocator\<close>

text \<open>
  The state is described by a layout for every block.  All items of the pools are blocks of the list
  or cells of one of the layouts; blocks do not overlap and consist of whole pages.
\<close>

definition blk_at :: "secmem \<Rightarrow> nat \<Rightarrow> Block" where
  "blk_at s b = (case block_of (items s b) of Some blk \<Rightarrow> blk | None \<Rightarrow> zero_block)"

definition paged :: "os \<Rightarrow> Block \<Rightarrow> bool" where
  "paged env blk \<longleftrightarrow> 0 < block_n_words blk \<and> block_n_words blk < 2 ^ 32 \<and> block_n_words blk * 8 mod getpagesize env = 0 \<and>
     block_words blk + block_n_words blk * 8 \<le> 2 ^ 64"

definition heap_ok :: "os \<Rightarrow> secmem \<Rightarrow> (nat \<Rightarrow> (nat \<times> Cell) list) \<Rightarrow> bool" where
  "heap_ok env s F \<longleftrightarrow>
     pool_inv env s \<and> distinct (all_blocks s) \<and>
     dom (items s) = (\<Union>b\<in>set (all_blocks s). insert b (fst ` set (F b))) \<and>
     (\<forall>b\<in>set (all_blocks s). paged env (blk_at s b) \<and> (\<exists>us fs. block_good s b (blk_at s b) (F b) us fs)) \<and>
     (\<forall>b\<in>set (all_blocks s). \<forall>b'\<in>set (all_blocks s). b \<noteq> b' \<longrightarrow>
        fst ` set (F b) \<inter> fst ` set (F b') = {} \<and> (\<forall>i. \<not> (in_block (blk_at s b) i \<and> in_block (blk_at s b') i)))"

definition sec_ok :: "os \<Rightarrow> secmem \<Rightarrow> bool" where
  "sec_ok env s \<longleftrightarrow> (\<exists>F. heap_ok env s F)"

text \<open>The live allocations of a state, and the addresses of its locked memory.\<close>

definition live :: "secmem \<Rightarrow> (nat \<times> byte list) set" where
  "live s = {(words k + 8, octets (mem s) (words k + 8) (requested k)) |c k. cell_at (items s) c = Some k \<and> 0 < requested k}"

definition secure :: "secmem \<Rightarrow> nat \<Rightarrow> bool" where
  "secure s i \<longleftrightarrow> (\<exists>b\<in>set (all_blocks s). in_block (blk_at s b) i)"

lemma blk_at_item: "items s b = Some (ItemBlock blk) \<Longrightarrow> blk_at s b = blk"
  by (simp add: blk_at_def block_of_def)

lemma blk_at_good: "block_good s b blk L us fs \<Longrightarrow> blk_at s b = blk"
  using block_rep_get(2) by (auto simp: block_good_def intro: blk_at_item)

lemma heap_block:
  assumes "heap_ok env s F" and "b \<in> set (all_blocks s)"
  obtains us fs where "block_good s b (blk_at s b) (F b) us fs" "paged env (blk_at s b)" "get_block s b = Ret (blk_at s b)" "b \<noteq> 0"
proof -
  obtain us fs where g: "block_good s b (blk_at s b) (F b) us fs" "paged env (blk_at s b)" using assms by (auto simp: heap_ok_def)
  have "b \<in> dom (items s)" "pool_inv env s" using assms by (auto simp: heap_ok_def)
  from meta.valid_pointer(1) [OF this(2,1)] have "b \<noteq> 0" by simp
  with g block_rep_get(1) show thesis using that by (auto simp: block_good_def)
qed

lemma heap_apart:
  assumes "heap_ok env s F" and "b \<in> set (all_blocks s)" "b' \<in> set (all_blocks s)" "b \<noteq> b'"
  shows "fst ` set (F b) \<inter> fst ` set (F b') = {}" "\<not> (in_block (blk_at s b) i \<and> in_block (blk_at s b') i)"
  using assms unfolding heap_ok_def by blast+

lemma heap_live:
  assumes "heap_ok env s F"
  shows "live s = (\<Union>b\<in>set (all_blocks s). live_in (mem s) (F b))"
proof (intro set_eqI iffI)
  fix x assume "x \<in> live s"
  then obtain c k where x: "x = (words k + 8, octets (mem s) (words k + 8) (requested k))" "cell_at (items s) c = Some k" "0 < requested k"
    by (auto simp: live_def)
  have "c \<in> dom (items s)" using x(2) by (rule cell_at_dom)
  then obtain b where b: "b \<in> set (all_blocks s)" "c \<in> insert b (fst ` set (F b))" using assms by (auto simp: heap_ok_def)
  obtain us fs where "block_good s b (blk_at s b) (F b) us fs" using assms b(1) by (rule heap_block)
  then have rep: "block_rep s b (blk_at s b) (F b) us fs" by (simp add: block_good_def)
  have "c \<noteq> b" using block_rep_get(3) [OF rep] x(2) by auto
  then obtain k' where k': "(c, k') \<in> set (F b)" using b(2) by auto
  obtain kc where "cell_at (items s) c = Some kc" "core kc = k'" using block_rep_cell(3) [OF rep k'] by auto
  then have "words k' = words k" "requested k' = requested k" using x(2) core_fields [of kc k'] by auto
  then have "x \<in> live_in (mem s) (F b)" using x(1,3) k' unfolding live_in_def
    by (intro CollectI exI [of _ c] exI [of _ k']) simp
  with b(1) show "x \<in> (\<Union>b\<in>set (all_blocks s). live_in (mem s) (F b))" by blast
next
  fix x assume "x \<in> (\<Union>b\<in>set (all_blocks s). live_in (mem s) (F b))"
  then obtain b where b: "b \<in> set (all_blocks s)" "x \<in> live_in (mem s) (F b)" by blast
  then obtain c k where ck: "(c, k) \<in> set (F b)" "0 < requested k" "x = (words k + 8, octets (mem s) (words k + 8) (requested k))"
    by (auto simp: live_in_def)
  obtain us fs where "block_good s b (blk_at s b) (F b) us fs" using assms b(1) by (rule heap_block)
  then have "block_rep s b (blk_at s b) (F b) us fs" by (simp add: block_good_def)
  from block_rep_cell(3) [OF this ck(1)] obtain kc where kc: "cell_at (items s) c = Some kc" "core kc = k" by auto
  from core_fields [OF kc(2)] ck kc(1) show "x \<in> live s" unfolding live_def
    by (intro CollectI exI [of _ c] exI [of _ kc]) simp
qed

lemma heap_live_in:
  assumes "heap_ok env s F" and "b \<in> set (all_blocks s)" and "(p, bs) \<in> live_in (mem s) (F b)"
  shows "in_block (blk_at s b) p" "\<And>i. p \<le> i \<Longrightarrow> i < p + length bs \<Longrightarrow> in_block (blk_at s b) i" "0 < length bs"
proof -
  obtain us fs where good: "block_good s b (blk_at s b) (F b) us fs" using assms(1,2) by (rule heap_block)
  obtain c k where ck: "(c, k) \<in> set (F b)" "0 < requested k" "p = words k + 8" "bs = octets (mem s) p (requested k)"
    using assms(3) by (rule liveE)
  have rep: "block_rep s b (blk_at s b) (F b) us fs" using good by (simp add: block_good_def)
  note fit = live_fit [OF good ck(1,2)] and cell = block_rep_cell(4-6) [OF rep ck(1)]
  have "3 \<le> n_words k" using fit(1) ck(2) by (cases "n_words k - 2") auto
  show "in_block (blk_at s b) i" if "p \<le> i" "i < p + length bs" for i
    using that fit(1) cell ck(3,4) by (auto simp: in_block_def)
  from this [of p] show "in_block (blk_at s b) p" "0 < length bs" using ck(2,4) by auto
qed

lemma heap_live_block:
  assumes "heap_ok env s F" and "(p, bs) \<in> live s"
  obtains b where "b \<in> set (all_blocks s)" "(p, bs) \<in> live_in (mem s) (F b)"
    "\<And>b'. b' \<in> set (all_blocks s) \<Longrightarrow> in_block (blk_at s b') p \<Longrightarrow> b' = b"
proof -
  obtain b where b: "b \<in> set (all_blocks s)" "(p, bs) \<in> live_in (mem s) (F b)" using assms heap_live by blast
  have "b' = b" if "b' \<in> set (all_blocks s)" "in_block (blk_at s b') p" for b'
    using that b(1) heap_live_in(1) [OF assms(1) b] heap_apart(2) [OF assms(1), of b' b p] by blast
  with b show thesis by (rule that)
qed

lemma live_functional:
  assumes "sec_ok env s" and "(p, bs) \<in> live s" "(p, bs') \<in> live s"
  shows "bs = bs'"
proof -
  obtain F where F: "heap_ok env s F" using assms(1) by (auto simp: sec_ok_def)
  obtain b where b: "b \<in> set (all_blocks s)" "(p, bs) \<in> live_in (mem s) (F b)"
    "\<And>b'. b' \<in> set (all_blocks s) \<Longrightarrow> in_block (blk_at s b') p \<Longrightarrow> b' = b" using heap_live_block [OF F assms(2)] by metis
  obtain b' where b': "b' \<in> set (all_blocks s)" "(p, bs') \<in> live_in (mem s) (F b')" using assms(3) heap_live [OF F] by blast
  have "b' = b" using b(3) [OF b'(1) heap_live_in(1) [OF F b']] .
  obtain us fs where good: "block_good s b (blk_at s b) (F b) us fs" using F b(1) by (rule heap_block)
  from live_eq [OF good b(2)] b'(2) \<open>b' = b\<close> show ?thesis by simp
qed

text \<open>An operation on one block leaves the others as they are.\<close>

lemma good_frame:
  assumes good: "block_good s b blk L us fs"
    and its: "\<And>x. x \<in> insert b (fst ` set L) \<Longrightarrow> items s' x = items s x"
    and m: "\<And>i. in_block blk i \<Longrightarrow> mem s' i = mem s i"
  shows "block_good s' b blk L us fs" "live_in (mem s') L = live_in (mem s) L"
proof -
  have rep: "block_rep s b blk L us fs" and coh: "coherent L (set us) (set fs)" using good by (auto simp: block_good_def)
  have t: "tiles (mem s) (items s) (block_words blk) L (block_words blk + block_n_words blk * 8)"
    and rings: "ring (items s) (used_cells blk) us" "ring (items s) (unused_cells blk) fs" "set us \<union> set fs \<subseteq> fst ` set L"
    using rep by (auto simp: block_rep_def)
  have core: "core_at (items s') x = core_at (items s) x" "next_at (items s') x = next_at (items s) x"
    "prev_at (items s') x = prev_at (items s) x" "cell_at (items s') x = cell_at (items s) x" if "x \<in> fst ` set L" for x
    using its [of x] that by (simp_all add: core_at_def cell_at_def next_at_def prev_at_def)
  have mm: "mem s' i = mem s i" if "block_words blk \<le> i" "i < block_words blk + block_n_words blk * 8" for i
    using m that by (simp add: in_block_def)
  have "tiles (mem s') (items s') (block_words blk) L (block_words blk + block_n_words blk * 8)"
    by (rule tiles_frame [OF t]) (simp_all add: core mm)
  moreover have "ring (items s') r xs" if r: "ring (items s) r xs" "set xs \<subseteq> fst ` set L" for r xs
  proof -
    have "cell_at (items s) x \<noteq> None" if "x \<in> set xs" for x using r(1) that by (auto simp: ring_def)
    then show ?thesis using core [OF subsetD [OF r(2)]] by (intro ring_frame [OF r(1)]) simp_all
  qed
  then have "ring (items s') (used_cells blk) us" "ring (items s') (unused_cells blk) fs" using rings by auto
  moreover have "items s' b = Some (ItemBlock blk)" using its [of b] block_rep_get(2) [OF rep] by simp
  ultimately have "block_rep s' b blk L us fs" using rep mm by (auto simp: block_rep_def in_block_def)
  with good show "block_good s' b blk L us fs" by (simp add: block_good_def)
  show "live_in (mem s') L = live_in (mem s) L" by (rule live_in_cong [OF coh t]) (simp add: mm)
qed

lemma heap_items_apart:
  assumes "heap_ok env s F" and "b \<in> set (all_blocks s)" "b' \<in> set (all_blocks s)" "b \<noteq> b'"
  shows "insert b' (fst ` set (F b')) \<inter> insert b (fst ` set (F b)) = {}"
proof -
  obtain us fs where "block_good s b (blk_at s b) (F b) us fs" using assms(1,2) by (rule heap_block)
  then have r: "block_rep s b (blk_at s b) (F b) us fs" by (simp add: block_good_def)
  obtain us' fs' where "block_good s b' (blk_at s b') (F b') us' fs'" using assms(1,3) by (rule heap_block)
  then have r': "block_rep s b' (blk_at s b') (F b') us' fs'" by (simp add: block_good_def)
  have "b' \<notin> fst ` set (F b)" using block_rep_get(4) [OF r'] block_rep_cell(1) [OF r] by fastforce
  moreover have "b \<notin> fst ` set (F b')" using block_rep_get(4) [OF r] block_rep_cell(1) [OF r'] by fastforce
  ultimately show ?thesis using heap_apart(1) [OF assms] assms(4) by blast
qed

lemma step_cells:
  assumes ok: "heap_ok env s F" and b: "b \<in> set (all_blocks s)" and step: "block_step env b (blk_at s b) (F b) s blk' L' s'"
    and d: "d \<in> set (all_blocks s)" "d \<noteq> b"
  shows "insert d (fst ` set (F d)) \<inter> insert b (fst ` set (F b) \<union> fst ` set L') = {}"
proof -
  have "insert d (fst ` set (F d)) \<subseteq> dom (items s)" using ok d(1) by (auto simp: heap_ok_def)
  moreover have "fst ` set L' \<inter> (dom (items s) - fst ` set (F b)) = {}" using step by (simp add: block_step_def)
  ultimately show ?thesis using heap_items_apart [OF ok b d(1)] d(2) by blast
qed

lemma step_other:
  assumes ok: "heap_ok env s F" and b: "b \<in> set (all_blocks s)" and step: "block_step env b (blk_at s b) (F b) s blk' L' s'"
    and d: "d \<in> set (all_blocks s)" "d \<noteq> b"
  shows "blk_at s' d = blk_at s d" "\<exists>us fs. block_good s' d (blk_at s d) (F d) us fs" "live_in (mem s') (F d) = live_in (mem s) (F d)"
proof -
  have conf: "confined b (blk_at s b) (fst ` set (F b) \<union> fst ` set L') s s'" using step by (simp add: block_step_def)
  have items: "items s' x = items s x" if "x \<in> insert d (fst ` set (F d))" for x
  proof -
    have "x \<notin> insert b (fst ` set (F b) \<union> fst ` set L')" using step_cells [OF ok b step d] that by blast
    with conf show ?thesis by (simp add: confined_def)
  qed
  have memf: "mem s' i = mem s i" if "in_block (blk_at s d) i" for i
    using heap_apart(2) [OF ok b d(1)] d(2) that conf unfolding confined_def by blast
  obtain us fs where g: "block_good s d (blk_at s d) (F d) us fs" using ok d(1) by (rule heap_block)
  note f = good_frame [OF g items memf]
  show "\<exists>us fs. block_good s' d (blk_at s d) (F d) us fs" using f(1) by blast
  show "blk_at s' d = blk_at s d" by (rule blk_at_good [OF f(1)])
  show "live_in (mem s') (F d) = live_in (mem s) (F d)" by (rule f(2))
qed

lemma step_geometry:
  assumes ok: "heap_ok env s F" and b: "b \<in> set (all_blocks s)" and step: "block_step env b (blk_at s b) (F b) s blk' L' s'"
  shows "all_blocks s' = all_blocks s" "blk_at s' b = blk'"
    "d \<in> set (all_blocks s) \<Longrightarrow> in_block (blk_at s' d) i \<longleftrightarrow> in_block (blk_at s d) i" "secure s' i \<longleftrightarrow> secure s i"
proof -
  show ab: "all_blocks s' = all_blocks s" using step by (simp add: block_step_def confined_def)
  show b': "blk_at s' b = blk'" using step blk_at_good by (auto simp: block_step_def)
  have inb: "in_block blk' i \<longleftrightarrow> in_block (blk_at s b) i" for i using step by (simp add: block_step_def in_block_def)
  show ib: "in_block (blk_at s' d) i \<longleftrightarrow> in_block (blk_at s d) i" if "d \<in> set (all_blocks s)" for d i
    using step_other(1) [OF ok b step that] b' inb by (cases "d = b") simp_all
  then show "secure s' i \<longleftrightarrow> secure s i" unfolding secure_def ab by simp
qed

lemma UN_upd: "b \<in> A \<Longrightarrow> (\<Union>d\<in>A. G d ((F(b := x)) d)) = G b x \<union> (\<Union>d\<in>A - {b}. G d (F d))"
  by (auto split: if_splits)

lemma swap_part: "D = R \<union> insert b B \<Longrightarrow> R \<inter> B = {} \<Longrightarrow> b \<notin> B \<Longrightarrow> D - B \<union> N = insert b N \<union> R"
  by blast

lemma heap_step:
  assumes ok: "heap_ok env s F" and b: "b \<in> set (all_blocks s)" and step: "block_step env b (blk_at s b) (F b) s blk' L' s'"
  shows "heap_ok env s' (F(b := L'))"
proof -
  let ?F = "F(b := L')"
  note ab = step_geometry(1) [OF ok b step] and b' = step_geometry(2) [OF ok b step] and ib = step_geometry(3) [OF ok b step]
  note cells = step_cells [OF ok b step] and other = step_other [OF ok b step]
  have st: "pool_inv env s'" "dom (items s') = dom (items s) - fst ` set (F b) \<union> fst ` set L'"
    "block_words blk' = block_words (blk_at s b)" "block_n_words blk' = block_n_words (blk_at s b)"
    using step by (simp_all add: block_step_def)
  obtain us fs where "block_good s b (blk_at s b) (F b) us fs" using ok b by (rule heap_block)
  then have nb: "b \<notin> fst ` set (F b)" unfolding block_good_def by (blast dest: block_rep_get(5))
  have each: "paged env (blk_at s' d) \<and> (\<exists>us fs. block_good s' d (blk_at s' d) (?F d) us fs)" if d: "d \<in> set (all_blocks s)" for d
  proof (cases "d = b")
    case True
    have "paged env (blk_at s b)" using ok b by (simp add: heap_ok_def)
    with True st(3,4) step show ?thesis by (simp add: b' paged_def block_step_def)
  next
    case False
    with other(1,2) [OF d False] ok d show ?thesis by (simp add: heap_ok_def)
  qed
  have apart: "fst ` set (?F d) \<inter> fst ` set (?F e) = {} \<and> (\<forall>i. \<not> (in_block (blk_at s' d) i \<and> in_block (blk_at s' e) i))"
    if de: "d \<in> set (all_blocks s)" "e \<in> set (all_blocks s)" "d \<noteq> e" for d e
  proof
    consider "d = b" "e \<noteq> b" | "d \<noteq> b" "e = b" | "d \<noteq> b" "e \<noteq> b" using de(3) by blast
    then show "fst ` set (?F d) \<inter> fst ` set (?F e) = {}"
    proof cases
      case 1
      with cells [OF de(2)] show ?thesis by (auto; blast)
    next
      case 2
      with cells [OF de(1)] show ?thesis by (auto; blast)
    qed (use heap_apart(1) [OF ok de] in simp)
    show "\<forall>i. \<not> (in_block (blk_at s' d) i \<and> in_block (blk_at s' e) i)" using heap_apart(2) [OF ok de] ib de by simp
  qed
  let ?rest = "\<Union>d\<in>set (all_blocks s) - {b}. insert d (fst ` set (F d))"
  have "dom (items s) = ?rest \<union> insert b (fst ` set (F b))" using ok b unfolding heap_ok_def by blast
  moreover have "?rest \<inter> fst ` set (F b) = {}" using cells by blast
  ultimately have "dom (items s') = insert b (fst ` set L') \<union> ?rest" using nb unfolding st(2) by (rule swap_part)
  then have "dom (items s') = (\<Union>d\<in>set (all_blocks s). insert d (fst ` set (?F d)))"
    using UN_upd [OF b, of "\<lambda>d l. insert d (fst ` set l)" F L'] by simp
  moreover have "distinct (all_blocks s)" using ok by (simp add: heap_ok_def)
  ultimately show ?thesis using st(1) each apart unfolding heap_ok_def ab by blast
qed

lemma heap_step_live:
  assumes ok: "heap_ok env s F" and b: "b \<in> set (all_blocks s)" and step: "block_step env b (blk_at s b) (F b) s blk' L' s'"
  shows "live s' = live_in (mem s') L' \<union> (live s - live_in (mem s) (F b))"
    "p \<in> fst ` (live s - live_in (mem s) (F b)) \<Longrightarrow> \<not> in_block (blk_at s b) p"
proof -
  have nin: "\<not> in_block (blk_at s b) p" if "d \<in> set (all_blocks s)" "d \<noteq> b" "(p, bs) \<in> live_in (mem s) (F d)" for p bs d
    using heap_live_in(1) [OF ok that(1,3)] heap_apart(2) [OF ok that(1) b that(2)] by blast
  let ?rest = "\<Union>d\<in>set (all_blocks s) - {b}. live_in (mem s) (F d)"
  have "x \<notin> live_in (mem s) (F b)" if "d \<in> set (all_blocks s)" "d \<noteq> b" "x \<in> live_in (mem s) (F d)" for x d
    using nin [OF that(1,2)] that(3) heap_live_in(1) [OF ok b] by (cases x) blast
  then have r: "?rest = live s - live_in (mem s) (F b)" unfolding heap_live [OF ok] using b by blast
  then show "\<not> in_block (blk_at s b) p" if "p \<in> fst ` (live s - live_in (mem s) (F b))"
    using that nin unfolding r [symmetric] by force
  have "(\<Union>d\<in>set (all_blocks s). live_in (mem s') ((F(b := L')) d)) = live_in (mem s') L' \<union> (\<Union>d\<in>set (all_blocks s) - {b}. live_in (mem s') (F d))"
    by (rule UN_upd [OF b])
  also have "\<dots> = live_in (mem s') L' \<union> ?rest" using step_other(3) [OF ok b step] by simp
  finally show "live s' = live_in (mem s') L' \<union> (live s - live_in (mem s) (F b))"
    unfolding heap_live [OF heap_step [OF ok b step]] step_geometry(1) [OF ok b step] r .
qed

section \<open>Operations in the blocks there are\<close>

definition alloc_spec :: "nat \<Rightarrow> nat \<Rightarrow> (nat \<times> byte list) set \<Rightarrow> (nat \<times> byte list) set \<Rightarrow> bool" where
  "alloc_spec p len lv lv' \<longleftrightarrow> (if p = 0 then lv' = lv else p \<notin> fst ` lv \<and> lv' = insert (p, replicate len 0) lv)"

text \<open>What the blocks keep when memory is given out or taken back in one of them.\<close>

definition kept :: "os \<Rightarrow> secmem \<Rightarrow> secmem \<Rightarrow> bool" where
  "kept env s s' \<longleftrightarrow> sec_ok env s' \<and> all_blocks s' = all_blocks s \<and> (\<forall>i. secure s' i \<longleftrightarrow> secure s i) \<and>
     (\<forall>i. \<not> secure s i \<longrightarrow> mem s' i = mem s i)"

lemma kept_step:
  assumes "heap_ok env s F" and "b \<in> set (all_blocks s)" and "block_step env b (blk_at s b) (F b) s blk' L' s'"
  shows "kept env s s'"
proof -
  have "mem s' i = mem s i" if "\<not> secure s i" for i
    using that assms(2,3) by (auto simp: secure_def block_step_def confined_def)
  then show ?thesis using heap_step [OF assms] step_geometry(1,4) [OF assms] by (auto simp: kept_def sec_ok_def)
qed

lemma kept_trans: "kept env s s1 \<Longrightarrow> kept env s1 s2 \<Longrightarrow> kept env s s2"
  by (simp add: kept_def)

lemma kept_refl: "sec_ok env s \<Longrightarrow> kept env s s"
  by (simp add: kept_def)

lemma heap_alloc:
  assumes ok: "sec_ok env s" and b: "b \<in> set (all_blocks s)" and len: "0 < len"
  shows "\<exists>p s'. sec_alloc env s b tg len = Ret (p, s') \<and> kept env s s' \<and> alloc_spec p len (live s) (live s')"
proof -
  obtain F where F: "heap_ok env s F" using ok by (auto simp: sec_ok_def)
  obtain us fs where g: "block_good s b (blk_at s b) (F b) us fs" using F b by (rule heap_block)
  have inv: "pool_inv env s" using F by (simp add: heap_ok_def)
  from sec_alloc_ok [OF g inv len, of tg] obtain p s' blk' L' where a: "sec_alloc env s b tg len = Ret (p, s')"
    "block_step env b (blk_at s b) (F b) s blk' L' s'" "alloc_result p len (mem s) (F b) (mem s') L'" by blast
  note lv = heap_step_live [OF F b a(2)]
  have "live_in (mem s) (F b) \<subseteq> live s" unfolding heap_live [OF F] using b by blast
  then have all: "live_in (mem s) (F b) \<union> (live s - live_in (mem s) (F b)) = live s" by blast
  have "alloc_spec p len (live s) (live s')"
  proof (cases "p = 0")
    case True
    then show ?thesis using a(3) lv(1) all by (simp add: alloc_spec_def alloc_result_def)
  next
    case False
    have r: "p \<notin> fst ` live_in (mem s) (F b)" "live_in (mem s') L' = insert (p, replicate len 0) (live_in (mem s) (F b))"
      using a(3) False by (simp_all add: alloc_result_def)
    have "in_block (blk_at s' b) p"
      using heap_live_in(1) [OF heap_step [OF F b a(2)], of b p "replicate len 0"] r(2) b step_geometry(1) [OF F b a(2)] by simp
    then have "p \<notin> fst ` (live s - live_in (mem s) (F b))"
      using lv(2) step_geometry(3) [OF F b a(2) b] by blast
    then have "p \<notin> fst ` live s" using r(1) by blast
    then show ?thesis using False lv(1) r(2) all by (simp add: alloc_spec_def)
  qed
  with a(1) kept_step [OF F b a(2)] show ?thesis by blast
qed

lemma alloc_in_blocks_ok:
  assumes "sec_ok env s" and "set bs \<subseteq> set (all_blocks s)" and "0 < len"
  shows "\<exists>p s'. alloc_in_blocks env s bs tg len = Ret (p, s') \<and> kept env s s' \<and> alloc_spec p len (live s) (live s')"
  using assms
proof (induction bs arbitrary: s)
  case Nil
  then show ?case by (simp add: kept_refl alloc_spec_def)
next
  case (Cons b bs)
  then have b: "b \<in> set (all_blocks s)" by simp
  obtain p s1 where a: "sec_alloc env s b tg len = Ret (p, s1)" "kept env s s1" "alloc_spec p len (live s) (live s1)"
    using heap_alloc [OF Cons.prems(1) b Cons.prems(3)] by blast
  show ?case
  proof (cases "p = 0")
    case True
    have "sec_ok env s1" "set bs \<subseteq> set (all_blocks s1)" using a(2) Cons.prems(2) by (auto simp: kept_def)
    from Cons.IH [OF this Cons.prems(3)] obtain q s2 where "alloc_in_blocks env s1 bs tg len = Ret (q, s2)"
      "kept env s1 s2" "alloc_spec q len (live s1) (live s2)" by blast
    with a True show ?thesis by (auto simp: alloc_spec_def intro: kept_trans)
  qed (use a in auto)
qed

text \<open>The block of a live allocation is found through the list.\<close>

lemma valid_word_in_block: "sec_is_valid_word blk i \<longleftrightarrow> in_block blk i"
  by (simp add: sec_is_valid_word_def in_block_def)

lemma find_block_ok:
  assumes "heap_ok env s F" and "set bs \<subseteq> set (all_blocks s)"
  shows "\<exists>b. find_block s bs p = Ret b \<and> (if b = 0 then \<forall>d\<in>set bs. \<not> in_block (blk_at s d) p else b \<in> set bs \<and> in_block (blk_at s b) p)"
  using assms(2)
proof (induction bs)
  case (Cons b bs)
  then have "b \<in> set (all_blocks s)" by simp
  with assms(1) obtain us fs where "get_block s b = Ret (blk_at s b)" "b \<noteq> 0" by (rule heap_block)
  with Cons show ?case by (auto simp: valid_word_in_block)
qed simp

lemma egg_secure_check_ok:
  assumes "sec_ok env s"
  shows "egg_secure_check s p = Ret (secure s p)"
proof -
  obtain F where F: "heap_ok env s F" using assms by (auto simp: sec_ok_def)
  obtain b where "find_block s (all_blocks s) p = Ret b"
    "if b = 0 then \<forall>d\<in>set (all_blocks s). \<not> in_block (blk_at s d) p else b \<in> set (all_blocks s) \<and> in_block (blk_at s b) p"
    using find_block_ok [OF F order_refl] by blast
  then show ?thesis by (auto simp: egg_secure_check_def secure_def split: if_splits)
qed

lemma find_block_live:
  assumes F: "heap_ok env s F" and p: "(p, bs) \<in> live s"
  obtains b c k where "find_block s (all_blocks s) p = Ret b" "b \<noteq> 0" "b \<in> set (all_blocks s)" "in_block (blk_at s b) p"
    "(c, k) \<in> set (F b)" "0 < requested k" "p = words k + 8" "bs = octets (mem s) p (requested k)" "(p, bs) \<in> live_in (mem s) (F b)"
proof -
  obtain b where b: "b \<in> set (all_blocks s)" "(p, bs) \<in> live_in (mem s) (F b)"
    "\<And>b'. b' \<in> set (all_blocks s) \<Longrightarrow> in_block (blk_at s b') p \<Longrightarrow> b' = b" using heap_live_block [OF F p] by metis
  note inb = heap_live_in(1) [OF F b(1,2)]
  obtain us fs where "b \<noteq> 0" using F b(1) by (rule heap_block)
  moreover have "find_block s (all_blocks s) p = Ret b"
    using find_block_ok [OF F order_refl, of p] b(1,3) inb by (metis (no_types, lifting))
  moreover obtain c k where "(c, k) \<in> set (F b)" "0 < requested k" "p = words k + 8" "bs = octets (mem s) p (requested k)"
    using b(2) by (rule liveE)
  ultimately show thesis using b(1,2) inb that by blast
qed

lemma live_secure: "sec_ok env s \<Longrightarrow> (p, bs) \<in> live s \<Longrightarrow> secure s p \<and> p \<noteq> 0 \<and> 0 < length bs"
proof -
  assume ok: "sec_ok env s" and p: "(p, bs) \<in> live s"
  then obtain F where F: "heap_ok env s F" by (auto simp: sec_ok_def)
  obtain b where b: "b \<in> set (all_blocks s)" "(p, bs) \<in> live_in (mem s) (F b)"
    using heap_live_block [OF F p] by metis
  have "p \<noteq> 0" using b(2) by (auto elim: liveE)
  with heap_live_in(1,3) [OF F b] b(1) show ?thesis by (auto simp: secure_def)
qed

lemma heap_free:
  assumes F: "heap_ok env s F" and b: "b \<in> set (all_blocks s)" and ck: "(c, k) \<in> set (F b)" "0 < requested k"
  defines "p \<equiv> words k + 8"
  defines "bs \<equiv> octets (mem s) p (requested k)"
  shows "\<exists>s'. sec_free s b p = Ret s' \<and> kept env s s' \<and> live s' = live s - {(p, bs)} \<and>
    (\<forall>i. p \<le> i \<and> i < p + length bs \<longrightarrow> mem s' i = Some 0)"
proof -
  obtain us fs where g: "block_good s b (blk_at s b) (F b) us fs" using F b by (rule heap_block)
  have inv: "pool_inv env s" using F by (simp add: heap_ok_def)
  from sec_free_ok [OF g inv ck] obtain s' blk' L' where f: "sec_free s b p = Ret s'"
    "block_step env b (blk_at s b) (F b) s blk' L' s'" "live_in (mem s') L' = live_in (mem s) (F b) - {(p, bs)}"
    "\<forall>i. p \<le> i \<and> i < p + length bs \<longrightarrow> mem s' i = Some 0" by (auto simp: p_def bs_def)
  have sub: "live_in (mem s) (F b) \<subseteq> live s" "(p, bs) \<in> live_in (mem s) (F b)"
    unfolding heap_live [OF F] using b ck by (auto simp: live_in_def p_def bs_def)
  have "live s' = live s - {(p, bs)}" unfolding heap_step_live(1) [OF F b f(2)] f(3) using sub by blast
  with f kept_step [OF F b f(2)] show ?thesis by blast
qed

section \<open>Pages and blocks\<close>

lemma and_not_mask_unat:
  fixes w :: "64 word"
  shows "unat (w AND NOT (mask k)) = unat w div 2 ^ k * 2 ^ k"
proof -
  have "w AND NOT (mask k) = push_bit k (drop_bit k w)"
    by (rule bit_eqI) (auto simp: bit_and_iff bit_not_iff bit_mask_iff bit_push_bit_iff bit_drop_bit_eq)
  also have "\<dots> = w - take_bit k w" using bits_ident [of k w] by (simp add: eq_diff_eq)
  finally have "unat (w AND NOT (mask k)) = unat (w - take_bit k w)" by simp
  also have "\<dots> = unat w - unat w mod 2 ^ k"
  proof -
    have u: "unat (take_bit k w) = unat w mod 2 ^ k" unfolding unsigned_take_bit_eq by (simp add: take_bit_eq_mod)
    have "take_bit k w \<le> w" by (simp add: word_le_nat_alt u)
    then show ?thesis by (simp add: unat_sub u)
  qed
  finally show ?thesis by (simp add: minus_mod_eq_div_mult)
qed

lemma unat_word64: "n < 2 ^ 64 \<Longrightarrow> unat (word_of_nat n :: 64 word) = n"
  by (simp add: unat_of_nat)

lemma round_pages_eq: "sz + 2 ^ k - 1 < 2 ^ 64 \<Longrightarrow> round_pages (2 ^ k) sz = (sz + 2 ^ k - 1) div 2 ^ k * 2 ^ k"
proof -
  assume sz: "sz + 2 ^ k - 1 < 2 ^ 64"
  have "(word_of_nat (2 ^ k - 1) :: 64 word) = mask k" by (simp add: mask_eq_exp_minus_1 of_nat_diff)
  then show ?thesis unfolding round_pages_def by (simp only: and_not_mask_unat unat_word64 [OF sz])
qed

lemma os_ok_page_max: "os_ok env \<Longrightarrow> getpagesize env \<le> 2 ^ 24"
  using power_increasing [of _ 24 "2 :: nat"] by (auto simp: os_ok_def)

lemma round_pages_bound:
  assumes "os_ok env" and "0 < sz" "sz \<le> 2 ^ 32"
  shows "sz \<le> round_pages (getpagesize env) sz" "round_pages (getpagesize env) sz < sz + getpagesize env"
    "round_pages (getpagesize env) sz mod getpagesize env = 0" "round_pages (getpagesize env) sz mod 8 = 0"
proof -
  obtain k where k: "7 \<le> k" "k \<le> 24" "getpagesize env = 2 ^ k" using assms(1) by (auto simp: os_ok_def)
  let ?n = "sz + 2 ^ k - 1"
  have "(2 :: nat) ^ k \<le> 2 ^ 24" using k(2) by (intro power_increasing) auto
  then have lt: "?n < 2 ^ 64" using assms(3) by simp
  have r: "round_pages (2 ^ k) sz = ?n div 2 ^ k * 2 ^ k" by (rule round_pages_eq [OF lt])
  have m: "?n div 2 ^ k * 2 ^ k = ?n - ?n mod 2 ^ k" by (simp add: minus_mod_eq_div_mult)
  have "?n mod 2 ^ k < 2 ^ k" by simp
  then show "sz \<le> round_pages (getpagesize env) sz" unfolding k(3) r m using assms(2) by linarith
  show "round_pages (getpagesize env) sz < sz + getpagesize env" unfolding k(3) r m using assms(2) by simp
  show "round_pages (getpagesize env) sz mod getpagesize env = 0" unfolding k(3) r by simp
  have "(2 :: nat) ^ k = 8 * 2 ^ (k - 3)" using k(1) power_add [of "2 :: nat" 3 "k - 3"] by simp
  then show "round_pages (getpagesize env) sz mod 8 = 0" unfolding k(3) r by simp
qed

lemma unmap_fresh:
  assumes "\<And>i. p \<le> i \<Longrightarrow> i < p + n \<Longrightarrow> mem s i = None" and "mem s2 = write_octets (mem s) p (replicate n 0)"
  shows "mem (unmap s2 p n) = mem s"
  using assms by (auto simp: unmap_def write_octets_def fun_eq_iff)

lemma acquire_pages_ok:
  assumes inv: "pool_inv env s" and sz: "0 < sz" "sz \<le> 2 ^ 32"
  defines "n \<equiv> round_pages (getpagesize env) sz"
  shows "\<exists>p s'. sec_acquire_pages env s sz = Ret (p, n, s') \<and> items s' = items s \<and> pool_data s' = pool_data s \<and> all_blocks s' = all_blocks s \<and>
    (if p = 0 then mem s' = mem s
     else p + n \<le> 2 ^ 64 \<and> (\<forall>i. p \<le> i \<and> i < p + n \<longrightarrow> mem s i = None) \<and> mem s' = write_octets (mem s) p (replicate n 0))"
proof (cases "os_mmap env s n")
  case None
  then show ?thesis using sz by (auto simp: sec_acquire_pages_def n_def Let_def)
next
  case (Some p)
  have os: "0 < p" "p + n \<le> 2 ^ 64" "\<And>i. p \<le> i \<Longrightarrow> i < p + n \<Longrightarrow> mem s i = None"
    using inv Some by (auto simp: pool_inv_def os_ok_def)
  let ?s2 = "s\<lparr>os_calls := os_calls s + 1, mem := write_octets (mem s) p (replicate n 0)\<rparr>"
  have un: "mem (unmap ?s2 p n) = mem s" by (rule unmap_fresh [OF os(3)]) simp_all
  show ?thesis
  proof (cases "os_mlock env ?s2 p n")
    case True
    then show ?thesis using Some sz os
      by (intro exI [of _ p] exI [of _ ?s2]) (simp add: sec_acquire_pages_def Let_def flip: n_def)
  next
    case False
    then show ?thesis using Some sz os un
      by (intro exI [of _ 0] exI [of _ "unmap ?s2 p n"]) (simp add: sec_acquire_pages_def Let_def flip: n_def; simp add: unmap_def)
  qed
qed

text \<open>A block of fresh pages: one unused cell that covers it.\<close>

lemma fresh_block:
  assumes inv: "pool_inv env s" and it: "items s b = Some Zeroed" "items s c = Some Zeroed" "b \<noteq> c" and p: "0 < p" "2 \<le> n"
    and m: "\<forall>i. p \<le> i \<and> i < p + n * 8 \<longrightarrow> mem s i \<noteq> None"
  shows "\<exists>s6 s7 blk k us fs. sec_write_guards (set_cell (set_block s b (zero_block\<lparr>block_words := p, block_n_words := n\<rparr>)) c
       (zero_cell\<lparr>words := p, n_words := n, requested := 0\<rparr>)) c = Ret s6 \<and> insert_unused s6 b c = Ret s7 \<and>
     block_good s7 b blk [(c, k)] us fs \<and> block_words blk = p \<and> block_n_words blk = n \<and> requested k = 0 \<and> n_words k = n \<and>
     pool_inv env s7 \<and> all_blocks s7 = all_blocks s \<and> dom (items s7) = dom (items s) \<and>
     (\<forall>x. x \<notin> {b, c} \<longrightarrow> items s7 x = items s x) \<and> (\<forall>i. \<not> in_block blk i \<longrightarrow> mem s7 i = mem s i)"
proof -
  let ?blk = "zero_block\<lparr>block_words := p, block_n_words := n\<rparr>" and ?k = "zero_cell\<lparr>words := p, n_words := n, requested := 0\<rparr>"
  let ?s5 = "set_cell (set_block s b ?blk) c ?k"
  have at: "cell_at (items ?s5) c = Some ?k" by (simp add: cell_at_def)
  have "mapped ?s5 (words ?k) (n_words ?k * 8)" using m by (simp add: mapped_iff)
  from write_guards_ok [OF at _ this] p(2) obtain m' where g: "sec_write_guards ?s5 c = Ret (?s5\<lparr>mem := m'\<rparr>)"
    "ptr_at m' p c" "ptr_at m' (p + (n - 1) * 8) c" "dom m' = dom (mem s)" 
    "\<And>i. \<not> (p \<le> i \<and> i < p + 8) \<Longrightarrow> \<not> (p + (n - 1) * 8 \<le> i \<and> i < p + n * 8) \<Longrightarrow> m' i = mem s i" by auto
  let ?s6 = "?s5\<lparr>mem := m'\<rparr>"
  have "m' i \<noteq> None" if "p \<le> i" "i < p + n * 8" for i
  proof -
    have "i \<in> dom (mem s)" using m that by auto
    then show ?thesis unfolding g(4) [symmetric] by auto
  qed
  then have "block_rep ?s6 b ?blk [(c, core ?k)] [] []"
    using it(3) p g(2,3) by (auto simp: block_rep_def ring_def in_block_def zero_block_def)
  moreover have "c \<noteq> 0" using meta.valid_pointer(1) [OF inv, of c] it(2) by auto
  ultimately obtain s7 fs r where i7: "insert_unused ?s6 b c = Ret s7" "block_rep s7 b (?blk\<lparr>unused_cells := r\<rparr>) [(c, core ?k)] [] fs"
    "set fs = {c}" "linkstep b {c} ?s6 s7"
    using insert_unused_rep [of ?s6 b ?blk "[(c, core ?k)]" "[]" "[]" c] by (auto simp: zero_cell_def)
  have good: "block_good s7 b (?blk\<lparr>unused_cells := r\<rparr>) [(c, core ?k)] [] fs"
    using i7(2,3) by (simp add: block_good_def coherent_def cell_good_def zero_cell_def zero_block_def)
  have dom: "dom (items s7) = dom (items s)" and pd: "pool_data s7 = pool_data s" using i7(4) it by (auto simp: linkstep_def)
  have inv7: "pool_inv env s7" by (rule meta.frame_law [OF inv pd dom])
  have its: "\<forall>x. x \<notin> {b, c} \<longrightarrow> items s7 x = items s x" using i7(4) by (simp add: linkstep_def)
  have mo: "\<forall>i. \<not> in_block (?blk\<lparr>unused_cells := r\<rparr>) i \<longrightarrow> mem s7 i = mem s i"
    using i7(4) g(5) p(2) by (auto simp: linkstep_def in_block_def)
  show ?thesis using g(1) i7(1,4) good inv7 dom its mo
    by (intro exI [of _ ?s6] exI [of _ s7] exI [of _ "?blk\<lparr>unused_cells := r\<rparr>"] exI [of _ "core ?k"] exI [of _ "[]"] exI [of _ fs])
      (simp add: linkstep_def)
qed

lemma heap_frame:
  assumes ok: "heap_ok env s F" and d: "d \<in> set (all_blocks s)"
    and its: "\<And>x. x \<in> insert d (fst ` set (F d)) \<Longrightarrow> items s' x = items s x"
    and m: "\<And>i. in_block (blk_at s d) i \<Longrightarrow> mem s' i = mem s i"
  shows "blk_at s' d = blk_at s d" "paged env (blk_at s' d)" "\<exists>us fs. block_good s' d (blk_at s' d) (F d) us fs"
    "live_in (mem s') (F d) = live_in (mem s) (F d)"
proof -
  obtain us fs where g: "block_good s d (blk_at s d) (F d) us fs" "paged env (blk_at s d)" using ok d by (rule heap_block)
  note f = good_frame [OF g(1) its m]
  show b: "blk_at s' d = blk_at s d" by (rule blk_at_good [OF f(1)])
  show "paged env (blk_at s' d)" "\<exists>us fs. block_good s' d (blk_at s' d) (F d) us fs" using g(2) f(1) unfolding b by blast+
  show "live_in (mem s') (F d) = live_in (mem s) (F d)" by (rule f(2))
qed

lemma heap_cells_dom: "heap_ok env s F \<Longrightarrow> d \<in> set (all_blocks s) \<Longrightarrow> insert d (fst ` set (F d)) \<subseteq> dom (items s)"
  by (auto simp: heap_ok_def)

text \<open>Adding a block to the list.\<close>

lemma heap_add:
  assumes ok: "heap_ok env s F" and inv: "pool_inv env s'" and ab: "all_blocks s' = b # all_blocks s"
    and new: "b \<notin> dom (items s)" "c \<notin> dom (items s)" "dom (items s') = insert b (insert c (dom (items s)))"
    and its: "\<And>x. x \<in> dom (items s) \<Longrightarrow> items s' x = items s x"
    and m: "\<And>i. secure s i \<Longrightarrow> mem s' i = mem s i"
    and good: "block_good s' b blk [(c, k)] us fs" and pg: "paged env blk" and fresh: "\<And>i. in_block blk i \<Longrightarrow> \<not> secure s i"
    and k: "requested k = 0"
  shows "heap_ok env s' (F(b := [(c, k)]))" "live s' = live s" "secure s' i \<longleftrightarrow> secure s i \<or> in_block blk i" "blk_at s' b = blk"
proof -
  let ?F = "F(b := [(c, k)])"
  note sub = heap_cells_dom [OF ok]
  have f: "blk_at s' d = blk_at s d" "paged env (blk_at s' d)" "\<exists>us fs. block_good s' d (blk_at s' d) (F d) us fs"
    "live_in (mem s') (F d) = live_in (mem s) (F d)" if d: "d \<in> set (all_blocks s)" for d
  proof -
    have its': "items s' x = items s x" if "x \<in> insert d (fst ` set (F d))" for x using its sub [OF d] that by blast
    have m': "mem s' i = mem s i" if "in_block (blk_at s d) i" for i using m d that by (auto simp: secure_def)
    show "blk_at s' d = blk_at s d" "paged env (blk_at s' d)" "\<exists>us fs. block_good s' d (blk_at s' d) (F d) us fs"
      "live_in (mem s') (F d) = live_in (mem s) (F d)"
      by (rule heap_frame [OF ok d its' m'], assumption+)+
  qed
  show bk: "blk_at s' b = blk" by (rule blk_at_good [OF good])
  have nb: "d \<noteq> b" "b \<notin> fst ` set (F d)" "c \<notin> fst ` set (F d)" if "d \<in> set (all_blocks s)" for d
    using sub [OF that] new(1,2) by auto
  show sec: "secure s' i \<longleftrightarrow> secure s i \<or> in_block blk i" for i unfolding secure_def ab using f(1) bk by auto
  have each: "paged env (blk_at s' d) \<and> (\<exists>us fs. block_good s' d (blk_at s' d) (?F d) us fs)" if "d \<in> set (all_blocks s')" for d
    using that f(2,3) nb(1) good pg bk by (cases "d = b") (auto simp: ab)
  have sep: "fst ` set (?F d) \<inter> fst ` set (?F e) = {} \<and> (\<forall>i. \<not> (in_block (blk_at s' d) i \<and> in_block (blk_at s' e) i))"
    if de: "d \<in> set (all_blocks s')" "e \<in> set (all_blocks s')" "d \<noteq> e" for d e
  proof -
    have one: "fst ` set (?F b) \<inter> fst ` set (?F x) = {}" "\<And>i. \<not> (in_block (blk_at s' b) i \<and> in_block (blk_at s' x) i)"
      if "x \<in> set (all_blocks s)" for x
      using nb(1,3) [OF that] fresh f(1) [OF that] bk that by (auto simp: secure_def)
    consider "d = b" "e \<in> set (all_blocks s)" | "e = b" "d \<in> set (all_blocks s)" | "d \<in> set (all_blocks s)" "e \<in> set (all_blocks s)"
      using de by (auto simp: ab)
    then show ?thesis
    proof cases
      case 3
      then show ?thesis using heap_apart [OF ok 3 de(3)] f(1) nb(1) by simp
    qed (use one in blast)+
  qed
  have "dom (items s') = (\<Union>d\<in>set (all_blocks s'). insert d (fst ` set (?F d)))"
  proof -
    have "(\<Union>d\<in>set (all_blocks s). insert d (fst ` set (?F d))) = dom (items s)"
      using ok nb(1) by (simp add: heap_ok_def cong: SUP_cong)
    then show ?thesis unfolding ab new(3) by auto
  qed
  moreover have "distinct (all_blocks s')" using ok nb(1) ab by (auto simp: heap_ok_def)
  ultimately show ok': "heap_ok env s' ?F" using inv each sep unfolding heap_ok_def by blast
  have "(\<Union>d\<in>set (all_blocks s). live_in (mem s') (?F d)) = live s"
    unfolding heap_live [OF ok] using f(4) nb(1) by (simp cong: SUP_cong)
  then show "live s' = live s" unfolding heap_live [OF ok'] ab using k by (simp add: live_in_simps)
qed

definition created :: "os \<Rightarrow> secmem \<Rightarrow> nat \<Rightarrow> nat \<Rightarrow> secmem \<Rightarrow> bool" where
  "created env s sz b s' \<longleftrightarrow> sec_ok env s' \<and> live s' = live s \<and>
     (if b = 0 then all_blocks s' = all_blocks s \<and> mem s' = mem s \<and> (\<forall>i. secure s' i \<longleftrightarrow> secure s i)
      else all_blocks s' = b # all_blocks s \<and> (\<exists>c k F. heap_ok env s' F \<and> F b = [(c, k)] \<and> requested k = 0 \<and>
        n_words k = round_pages (getpagesize env) (max sz DEFAULT_BLOCK_SIZE) div 8) \<and>
        (\<forall>i. secure s' i \<longleftrightarrow> secure s i \<or> in_block (blk_at s' b) i) \<and> (\<forall>i. in_block (blk_at s' b) i \<longrightarrow> mem s i = None) \<and>
        (\<forall>i. \<not> in_block (blk_at s' b) i \<longrightarrow> mem s' i = mem s i))"

lemma created_none:
  assumes ok: "sec_ok env s" and "pool_inv env s'" "items s' = items s" "mem s' = mem s" "all_blocks s' = all_blocks s"
  shows "created env s sz 0 s'"
proof -
  obtain F where F: "heap_ok env s F" using ok by (auto simp: sec_ok_def)
  have b: "blk_at s' = blk_at s" using assms(3) by (simp add: blk_at_def fun_eq_iff)
  have "block_good s' d blk L us fs" if "block_good s d blk L us fs" for d blk L us fs
    by (rule good_frame(1) [OF that]) (simp_all add: assms)
  then have "heap_ok env s' F" using F assms(2,3,5) unfolding heap_ok_def b by metis
  then show ?thesis using assms b by (auto simp: created_def sec_ok_def live_def secure_def)
qed

lemma mapped_secure:
  assumes "heap_ok env s F" and "secure s i"
  shows "mem s i \<noteq> None"
proof -
  obtain b where b: "b \<in> set (all_blocks s)" "in_block (blk_at s b) i" using assms(2) by (auto simp: secure_def)
  obtain us fs where "block_good s b (blk_at s b) (F b) us fs" using assms(1) b(1) by (rule heap_block)
  with b(2) show ?thesis by (auto simp: block_good_def block_rep_def)
qed

lemma block_of_pages:
  assumes F: "heap_ok env s F" and inv3: "pool_inv env s3" and ab3: "all_blocks s3 = all_blocks s"
    and it: "items s3 = (items s)(b \<mapsto> Zeroed, c \<mapsto> Zeroed)" "b \<noteq> c" "b \<notin> dom (items s)" "c \<notin> dom (items s)" "b \<noteq> 0"
    and sz: "sz \<le> 2 ^ 32" and p: "0 < p" "p + n \<le> 2 ^ 64" "\<And>i. p \<le> i \<Longrightarrow> i < p + n \<Longrightarrow> mem s i = None"
    and m3: "mem s3 = write_octets (mem s) p (replicate n 0)"
    and n: "n = round_pages (getpagesize env) (max sz DEFAULT_BLOCK_SIZE)"
  shows "\<exists>s6 s7. sec_write_guards (set_cell (set_block s3 b (zero_block\<lparr>block_words := p, block_n_words := n div 8\<rparr>)) c
      (zero_cell\<lparr>words := p, n_words := n div 8, requested := 0\<rparr>)) c = Ret s6 \<and> insert_unused s6 b c = Ret s7 \<and>
     created env s sz b (s7\<lparr>all_blocks := b # all_blocks s7\<rparr>)"
proof -
  have os: "os_ok env" using inv3 by (simp add: pool_inv_def)
  have szb: "0 < max sz DEFAULT_BLOCK_SIZE" "max sz DEFAULT_BLOCK_SIZE \<le> 2 ^ 32" using sz by auto
  note rp = round_pages_bound [OF os szb, folded n]
  have n8: "n div 8 * 8 = n" "2 \<le> n div 8" using rp(1,4) by auto
  have it3: "items s3 b = Some Zeroed" "items s3 c = Some Zeroed" using it(1,2) by auto
  have "\<forall>i. p \<le> i \<and> i < p + n div 8 * 8 \<longrightarrow> mem s3 i \<noteq> None" using m3 n8(1) by (simp add: write_octets_def)
  from fresh_block [OF inv3 it3 it(2) p(1) n8(2) this] obtain s6 s7 blk k us fs where f:
    "sec_write_guards (set_cell (set_block s3 b (zero_block\<lparr>block_words := p, block_n_words := n div 8\<rparr>)) c
      (zero_cell\<lparr>words := p, n_words := n div 8, requested := 0\<rparr>)) c = Ret s6" "insert_unused s6 b c = Ret s7"
    "block_good s7 b blk [(c, k)] us fs" "block_words blk = p" "block_n_words blk = n div 8" "requested k = 0" "n_words k = n div 8"
    "pool_inv env s7" "all_blocks s7 = all_blocks s3" "dom (items s7) = dom (items s3)"
    "\<forall>x. x \<notin> {b, c} \<longrightarrow> items s7 x = items s3 x" "\<forall>i. \<not> in_block blk i \<longrightarrow> mem s7 i = mem s3 i"
    by (elim exE conjE) (rule that; assumption)
  let ?s' = "s7\<lparr>all_blocks := b # all_blocks s7\<rparr>"
  have inb: "in_block blk i \<longleftrightarrow> p \<le> i \<and> i < p + n" for i using f(4,5) n8(1) by (simp add: in_block_def)
  have out: "mem s7 i = mem s i" if "\<not> in_block blk i" for i using f(12) m3 that by (auto simp: inb write_octets_def)
  have "n div 8 < 2 ^ 32" using rp(2) szb(2) os_ok_page_max [OF os] by simp
  then have pg: "paged env blk" using rp(1,3) n8 p(2) f(4,5) szb by (simp add: paged_def)
  have good: "block_good ?s' b blk [(c, k)] us fs" by (rule good_frame(1) [OF f(3)]) simp_all
  have fresh: "\<not> secure s i" if "in_block blk i" for i using mapped_secure [OF F, of i] p(3) [of i] that inb by auto
  have dom: "dom (items ?s') = insert b (insert c (dom (items s)))" using f(10) it(1) by auto
  have its: "items ?s' x = items s x" if "x \<in> dom (items s)" for x
  proof -
    have "x \<noteq> b" "x \<noteq> c" using that it(3,4) by auto
    then show ?thesis using f(11) it(1) by simp
  qed
  have inv': "pool_inv env ?s'" by (rule meta.frame_law [OF f(8)]) simp_all
  have ab: "all_blocks ?s' = b # all_blocks s" using f(9) ab3 by simp
  have ms: "mem ?s' i = mem s i" if "secure s i" for i using out fresh that by auto
  note h = heap_add [OF F inv' ab it(3,4) dom its ms good pg fresh f(6)]
  have "\<exists>c' k' F'. heap_ok env ?s' F' \<and> F' b = [(c', k')] \<and> requested k' = 0 \<and> n_words k' = n div 8"
    using h(1) f(6,7) by (intro exI [of _ c] exI [of _ k] exI [of _ "F(b := [(c, k)])"]) simp
  moreover have "\<forall>i. in_block blk i \<longrightarrow> mem s i = None" "\<forall>i. \<not> in_block blk i \<longrightarrow> mem ?s' i = mem s i"
    using p(3) inb out by auto
  moreover have "sec_ok env ?s'" using h(1) by (auto simp: sec_ok_def)
  ultimately have "created env s sz b ?s'" unfolding created_def n [symmetric] using h(2-4) ab it(5) by simp
  with f(1,2) show ?thesis by blast
qed

lemma sec_block_create_ok:
  assumes ok: "sec_ok env s" and sz: "sz \<le> 2 ^ 32"
  shows "\<exists>b s'. sec_block_create env s sz = Ret (b, s') \<and> created env s sz b s'"
proof (cases "force_fallback env")
  case True
  have "pool_inv env s" using ok by (auto simp: sec_ok_def heap_ok_def)
  with True show ?thesis using created_none [OF ok] by (auto simp: sec_block_create_def)
next
  case False
  obtain F where F: "heap_ok env s F" using ok by (auto simp: sec_ok_def)
  have inv: "pool_inv env s" using F by (simp add: heap_ok_def)
  let ?sz = "max sz DEFAULT_BLOCK_SIZE"
  define n where "n = round_pages (getpagesize env) ?sz"
  have szb: "0 < ?sz" "?sz \<le> 2 ^ 32" using sz by auto
  show ?thesis
  proof (rule meta.alloc_item [OF inv])
    fix s1 assume "pool_alloc env s = Ret (0, s1)" "pool_inv env s1" "mem s1 = mem s" "all_blocks s1 = all_blocks s" "items s1 = items s"
    then show ?thesis using False created_none [OF ok] by (simp add: sec_block_create_def)
  next
    fix b s1 assume b: "pool_alloc env s = Ret (b, s1)" "pool_inv env s1" "mem s1 = mem s" "all_blocks s1 = all_blocks s"
      "0 < b" "b < 2 ^ 64" "b \<notin> dom (items s)" "items s1 = (items s)(b \<mapsto> Zeroed)"
    show ?thesis
    proof (rule meta.alloc_item [OF b(2)])
      fix s2 assume c: "pool_alloc env s1 = Ret (0, s2)" "pool_inv env s2" "mem s2 = mem s1" "all_blocks s2 = all_blocks s1" "items s2 = items s1"
      have "b \<in> dom (items s2)" using c(5) b(8) by simp
      from meta.free_item [OF c(2) this] obtain s3 where s3: "pool_free s2 b = Ret s3" "pool_inv env s3" "mem s3 = mem s2"
        "all_blocks s3 = all_blocks s2" "items s3 = (items s2)(b := None)" by blast
      have "items s3 = items s" using s3(5) c(5) b(7,8) by auto
      then show ?thesis using False b c s3 created_none [OF ok s3(2)] by (simp add: sec_block_create_def)
    next
      fix c s2 assume c: "pool_alloc env s1 = Ret (c, s2)" "pool_inv env s2" "mem s2 = mem s1" "all_blocks s2 = all_blocks s1"
        "0 < c" "c < 2 ^ 64" "c \<notin> dom (items s1)" "items s2 = (items s1)(c \<mapsto> Zeroed)"
      have bc: "b \<noteq> c" "c \<notin> dom (items s)" using c(7) b(8) by auto
      from acquire_pages_ok [OF c(2) szb] obtain p s3 where a: "sec_acquire_pages env s2 ?sz = Ret (p, n, s3)" "items s3 = items s2"
        "pool_data s3 = pool_data s2" "all_blocks s3 = all_blocks s2"
        "if p = 0 then mem s3 = mem s2
         else p + n \<le> 2 ^ 64 \<and> (\<forall>i. p \<le> i \<and> i < p + n \<longrightarrow> mem s2 i = None) \<and> mem s3 = write_octets (mem s2) p (replicate n 0)"
        unfolding n_def by blast
      have inv3: "pool_inv env s3" by (rule meta.frame_law [OF c(2) a(3)]) (simp add: a(2))
      have it3: "items s3 b = Some Zeroed" "items s3 c = Some Zeroed" using a(2) b(8) c(8) bc by auto
      have pre: "sec_block_create env s sz = (if p = 0 then
          obind (pool_free s3 b) (\<lambda>s4. obind (pool_free s4 c) (\<lambda>s5. Ret (0, s5)))
        else obind (sec_write_guards (set_cell (set_block s3 b (zero_block\<lparr>block_words := p, block_n_words := n div 8\<rparr>)) c
          (zero_cell\<lparr>words := p, n_words := n div 8, requested := 0\<rparr>)) c) (\<lambda>s6. obind (insert_unused s6 b c) (\<lambda>s7.
            Ret (b, s7\<lparr>all_blocks := b # all_blocks s7\<rparr>))))"
        using False b(1,5) c(1,5) a(1) it3 bc(1)
        by (simp add: sec_block_create_def get_block_def block_of_def upd_cell_def get_cell_def cell_of_def Let_def)
      show ?thesis
      proof (cases "p = 0")
        case True
        from meta.free_item [OF inv3, of b] it3 obtain s4 where s4: "pool_free s3 b = Ret s4" "pool_inv env s4" "mem s4 = mem s3"
          "all_blocks s4 = all_blocks s3" "items s4 = (items s3)(b := None)" by auto
        have "c \<in> dom (items s4)" using s4(5) it3 bc(1) by auto
        from meta.free_item [OF s4(2) this] obtain s5 where s5: "pool_free s4 c = Ret s5" "pool_inv env s5" "mem s5 = mem s4"
          "all_blocks s5 = all_blocks s4" "items s5 = (items s4)(c := None)" by blast
        have "items s5 = items s" using s5(5) s4(5) a(2) c(8) b(7,8) bc by (auto simp: fun_eq_iff)
        moreover have "mem s5 = mem s" using s5(3) s4(3) a(5) True c(3) b(3) by simp
        moreover have "all_blocks s5 = all_blocks s" using s5(4) s4(4) a(4) c(4) b(4) by simp
        ultimately show ?thesis using pre True s4(1) s5(1) created_none [OF ok s5(2)] by simp
      next
        case p: False
        have a5: "p + n \<le> 2 ^ 64" "\<And>i. p \<le> i \<Longrightarrow> i < p + n \<Longrightarrow> mem s i = None" "mem s3 = write_octets (mem s) p (replicate n 0)"
          using a(5) p c(3) b(3) by auto
        have it: "items s3 = (items s)(b \<mapsto> Zeroed, c \<mapsto> Zeroed)" "all_blocks s3 = all_blocks s" "0 < p" "b \<noteq> 0"
          using a(2,4) c(4,8) b(4,5,8) p by auto
        from block_of_pages [OF F inv3 it(2,1) bc(1) b(7) bc(2) it(4) sz it(3) a5 n_def] pre p show ?thesis by auto
      qed
    qed
  qed
qed

text \<open>Destroying a block without allocations.\<close>

lemma free_unused_ok:
  assumes "pool_inv env s" and "items s b = Some (ItemBlock blk)" and "ring (items s) (used_cells blk) []"
    and "ring (items s) (unused_cells blk) fs" and "length fs < fuel"
  shows "\<exists>s' r. free_unused fuel s b = Ret s' \<and> pool_inv env s' \<and> mem s' = mem s \<and> all_blocks s' = all_blocks s \<and>
    items s' b = Some (ItemBlock (blk\<lparr>unused_cells := r\<rparr>)) \<and> dom (items s') = dom (items s) - set fs \<and>
    (\<forall>x. x \<notin> insert b (set fs) \<longrightarrow> items s' x = items s x)"
  using assms
proof (induction fuel arbitrary: s blk fs)
  case (Suc fuel)
  have gb: "get_block s b = Ret blk" using Suc.prems(2) by (simp add: get_block_def block_of_def)
  show ?case
  proof (cases fs)
    case Nil
    then have "free_unused (Suc fuel) s b = Ret s"
      using gb Suc.prems(4) by (subst free_unused.simps) (simp add: ring_def)
    moreover have "blk\<lparr>unused_cells := unused_cells blk\<rparr> = blk" by simp
    ultimately show ?thesis using Suc.prems(1,2) Nil by (intro exI [of _ s] exI [of _ "unused_cells blk"]) simp
  next
    case (Cons c cs)
    then have c: "unused_cells blk = c" "c \<noteq> 0" "c \<in> set fs" "distinct fs" using Suc.prems(4) by (auto simp: ring_def)
    have cd: "c \<in> dom (items s)" using Suc.prems(4) c(3) by (auto simp: ring_def dest: cell_at_dom)
    have bc: "b \<noteq> c" using Suc.prems(2,4) c(3) by (auto simp: ring_def cell_at_def)
    from remove_unused_rings [OF Suc.prems(2,3,4) _ c(3)] obtain s1 fs1 r where r: "remove_unused s b c = Ret s1"
      "items s1 b = Some (ItemBlock (blk\<lparr>unused_cells := r\<rparr>))" "ring (items s1) (used_cells blk) []" "ring (items s1) r fs1"
      "set fs1 = set fs - {c}" "linkstep b (set fs) s s1" by auto
    have "distinct fs1" using r(4) by (simp add: ring_def)
    then have "length fs1 = length fs - 1"
      using distinct_card [of fs1] distinct_card [OF c(4)] r(5) c(3) by (simp add: card_Diff_singleton)
    then have len: "length fs1 < fuel" using Suc.prems(5) Cons by simp
    have l: "pool_data s1 = pool_data s" "dom (items s1) = dom (items s)" "mem s1 = mem s" "all_blocks s1 = all_blocks s"
      "\<And>x. x \<notin> insert b (set fs) \<Longrightarrow> items s1 x = items s x" using r(6) by (auto simp: linkstep_def)
    have inv1: "pool_inv env s1" by (rule meta.frame_law [OF Suc.prems(1) l(1,2)])
    have "c \<in> dom (items s1)" using cd l(2) by simp
    from meta.free_item [OF inv1 this] obtain s2 where f: "pool_free s1 c = Ret s2" "pool_inv env s2" "mem s2 = mem s1"
      "all_blocks s2 = all_blocks s1" "items s2 = (items s1)(c := None)" by blast
    have b2: "items s2 b = Some (ItemBlock (blk\<lparr>unused_cells := r\<rparr>))" using f(5) r(2) bc by simp
    have "ring (items s2) r fs1" unfolding f(5) by (rule ring_drop [OF r(4)]) (simp add: r(5))
    moreover have "ring (items s2) (used_cells blk) []" unfolding f(5) by (rule ring_drop [OF r(3)]) simp
    ultimately obtain s3 r' where h: "free_unused fuel s2 b = Ret s3" "pool_inv env s3" "mem s3 = mem s2" "all_blocks s3 = all_blocks s2"
      "items s3 b = Some (ItemBlock (blk\<lparr>unused_cells := r'\<rparr>))" "dom (items s3) = dom (items s2) - set fs1"
      "\<forall>x. x \<notin> insert b (set fs1) \<longrightarrow> items s3 x = items s2 x"
      using Suc.IH [OF f(2) b2, of fs1] len by auto
    have "free_unused (Suc fuel) s b = Ret s3" using gb c(1,2) r(1) f(1) h(1) by (subst free_unused.simps) (simp add: Let_def)
    moreover have "dom (items s3) = dom (items s) - set fs" using h(6) f(5) l(2) r(5) c(3) by auto
    moreover have "\<forall>x. x \<notin> insert b (set fs) \<longrightarrow> items s3 x = items s x" using h(7) f(5) l(5) r(5) c(3) by auto
    ultimately show ?thesis using h(2-5) f(3,4) l(3,4) by (intro exI [of _ s3] exI [of _ r']) simp
  qed
qed simp

lemma drop_part: "D = A \<union> R \<Longrightarrow> R \<inter> A = {} \<Longrightarrow> D - A = R"
  by blast

lemma heap_drop:
  assumes ok: "heap_ok env s F" and b: "b \<in> set (all_blocks s)" and inv: "pool_inv env s'" and ab: "all_blocks s' = remove1 b (all_blocks s)"
    and dom: "dom (items s') = dom (items s) - insert b (fst ` set (F b))"
    and its: "\<And>x. x \<notin> insert b (fst ` set (F b)) \<Longrightarrow> items s' x = items s x"
    and m: "\<And>i. \<not> in_block (blk_at s b) i \<Longrightarrow> mem s' i = mem s i" and none: "live_in (mem s) (F b) = {}"
  shows "heap_ok env s' F" "live s' = live s" "secure s' i \<longleftrightarrow> secure s i \<and> \<not> in_block (blk_at s b) i"
proof -
  have dis: "distinct (all_blocks s)" using ok by (simp add: heap_ok_def)
  have ab': "set (all_blocks s') = set (all_blocks s) - {b}" using ab dis by simp
  have f: "blk_at s' d = blk_at s d" "paged env (blk_at s' d)" "\<exists>us fs. block_good s' d (blk_at s' d) (F d) us fs"
    "live_in (mem s') (F d) = live_in (mem s) (F d)" if d: "d \<in> set (all_blocks s) - {b}" for d
  proof -
    have d': "d \<in> set (all_blocks s)" "b \<noteq> d" using d by auto
    have its': "items s' x = items s x" if "x \<in> insert d (fst ` set (F d))" for x
      using its heap_items_apart [OF ok b d'] that by blast
    have m': "mem s' i = mem s i" if "in_block (blk_at s d) i" for i
      using m heap_apart(2) [OF ok b d', of i] that by blast
    show "blk_at s' d = blk_at s d" "paged env (blk_at s' d)" "\<exists>us fs. block_good s' d (blk_at s' d) (F d) us fs"
      "live_in (mem s') (F d) = live_in (mem s) (F d)"
      by (rule heap_frame [OF ok d'(1) its' m'], assumption+)+
  qed
  let ?rest = "\<Union>d\<in>set (all_blocks s) - {b}. insert d (fst ` set (F d))"
  have "dom (items s) = insert b (fst ` set (F b)) \<union> ?rest" using ok b unfolding heap_ok_def by blast
  moreover have "?rest \<inter> insert b (fst ` set (F b)) = {}" using heap_items_apart [OF ok b] by blast
  ultimately have domeq: "dom (items s') = ?rest" unfolding dom by (rule drop_part)
  have dist: "distinct (all_blocks s')" using ab dis by simp
  have sep: "fst ` set (F d) \<inter> fst ` set (F e) = {} \<and> (\<forall>i. \<not> (in_block (blk_at s' d) i \<and> in_block (blk_at s' e) i))"
    if "d \<in> set (all_blocks s) - {b}" "e \<in> set (all_blocks s) - {b}" "d \<noteq> e" for d e
    using heap_apart [OF ok, of d e] f(1) that by simp
  show ok': "heap_ok env s' F"
    unfolding heap_ok_def ab' by (intro conjI ballI impI inv dist domeq f(2,3)) (use sep in blast)+
  have "live s' = (\<Union>d\<in>set (all_blocks s) - {b}. live_in (mem s) (F d))"
    unfolding heap_live [OF ok'] ab' by (rule SUP_cong [OF refl]) (rule f(4))
  then show "live s' = live s" unfolding heap_live [OF ok] using none by auto
  have "secure s' i \<longleftrightarrow> (\<exists>d\<in>set (all_blocks s) - {b}. in_block (blk_at s d) i)" unfolding secure_def ab' using f(1) by simp
  then show "secure s' i \<longleftrightarrow> secure s i \<and> \<not> in_block (blk_at s b) i"
    unfolding secure_def using heap_apart(2) [OF ok b, of _ i] by blast
qed

lemma sec_block_destroy_ok:
  assumes ok: "heap_ok env s F" and b: "b \<in> set (all_blocks s)" and none: "n_used (blk_at s b) = 0"
  shows "\<exists>s'. sec_block_destroy env s b = Ret s' \<and> sec_ok env s' \<and> live s' = live s \<and> all_blocks s' = remove1 b (all_blocks s) \<and>
    (\<forall>i. mem s' i = (if in_block (blk_at s b) i then None else mem s i)) \<and>
    (\<forall>i. secure s' i \<longleftrightarrow> secure s i \<and> \<not> in_block (blk_at s b) i)"
proof -
  let ?blk = "blk_at s b" and ?s1 = "s\<lparr>all_blocks := remove1 b (all_blocks s)\<rparr>"
  obtain us fs where g: "block_good s b ?blk (F b) us fs" "paged env ?blk" "get_block s b = Ret ?blk" "b \<noteq> 0" using ok b by (rule heap_block)
  have rep: "block_rep s b ?blk (F b) us fs" and coh: "coherent (F b) (set us) (set fs)" and us: "us = []"
    using g(1) none by (auto simp: block_good_def)
  have r: "items s b = Some (ItemBlock ?blk)" "ring (items s) (used_cells ?blk) []" "ring (items s) (unused_cells ?blk) fs" "0 < block_words ?blk"
    using rep us by (auto simp: block_rep_def)
  have cells: "set fs = fst ` set (F b)"
    using rep coh us by (auto simp: block_rep_def coherent_def list_all_iff split: if_splits)
  have lv: "live_in (mem s) (F b) = {}" using block_live_used [OF g(1)] none by simp
  have inv: "pool_inv env s" using ok by (simp add: heap_ok_def)
  have inv1: "pool_inv env ?s1" by (rule meta.frame_law [OF inv]) simp_all
  have "length fs \<le> item_slots s"
    using good_dom [OF g(1)] cells r(3) by (intro meta.slots_distinct [OF inv]) (auto simp: ring_def)
  then have l1: "length fs < Suc (item_slots ?s1)" by (simp add: item_slots_def)
  have r1: "items ?s1 b = Some (ItemBlock ?blk)" "ring (items ?s1) (used_cells ?blk) []" "ring (items ?s1) (unused_cells ?blk) fs"
    using r by simp_all
  from free_unused_ok [OF inv1 r1 l1] obtain s2 r' where f: "free_unused (Suc (item_slots ?s1)) ?s1 b = Ret s2" "pool_inv env s2"
    "mem s2 = mem s" "all_blocks s2 = remove1 b (all_blocks s)" "items s2 b = Some (ItemBlock (?blk\<lparr>unused_cells := r'\<rparr>))"
    "dom (items s2) = dom (items s) - set fs" "\<forall>x. x \<notin> insert b (set fs) \<longrightarrow> items s2 x = items s x" by auto
  let ?s3 = "unmap s2 (block_words ?blk) (block_n_words ?blk * 8)"
  have rel: "sec_release_pages env s2 (block_words ?blk) (block_n_words ?blk * 8) = Ret ?s3"
    using r(4) g(2) by (simp add: sec_release_pages_def paged_def)
  have inv3: "pool_inv env ?s3" by (rule meta.frame_law [OF f(2)]) (simp_all add: unmap_def)
  have "b \<in> dom (items ?s3)" using f(5) by (auto simp: unmap_def)
  from meta.free_item [OF inv3 this] obtain s4 where s4: "pool_free ?s3 b = Ret s4" "pool_inv env s4" "mem s4 = mem ?s3"
    "all_blocks s4 = all_blocks ?s3" "items s4 = (items ?s3)(b := None)" by blast
  have m4: "mem s4 i = (if in_block ?blk i then None else mem s i)" for i
    using s4(3) f(3) by (simp add: unmap_def in_block_def)
  have "sec_block_destroy env s b = Ret s4"
    using g(3,4) r(2,4) none b f(1) rel s4(1) by (simp add: sec_block_destroy_def ring_def Let_def)
  moreover have ab: "all_blocks s4 = remove1 b (all_blocks s)" using s4(4) f(4) by (simp add: unmap_def)
  moreover have "heap_ok env s4 F \<and> live s4 = live s \<and> (\<forall>i. secure s4 i \<longleftrightarrow> secure s i \<and> \<not> in_block ?blk i)"
  proof -
    have "dom (items s4) = dom (items s) - insert b (fst ` set (F b))" using s4(5) f(6) cells by (auto simp: unmap_def)
    moreover have "items s4 x = items s x" if "x \<notin> insert b (fst ` set (F b))" for x using that s4(5) f(7) cells by (simp add: unmap_def)
    moreover have "mem s4 i = mem s i" if "\<not> in_block ?blk i" for i using m4 that by simp
    ultimately show ?thesis using heap_drop [OF ok b s4(2) ab _ _ _ lv] by blast
  qed
  ultimately show ?thesis using m4 by (intro exI [of _ s4]) (auto simp: sec_ok_def)
qed

end
