(* ===== verification/Egg_Secure_Contract.thy ===== *)
theory Egg_Secure_Contract
  imports Egg_Secure_Memory
begin

text \<open>
  The contract of the public operations of egg/egg-secure-memory.c: on a state that satisfies the
  invariant of \<^verbatim>\<open>Egg_Secure_Memory\<close> no operation aborts or leaves the memory it owns, the live
  allocations change as the operation promises, and every other allocation keeps its octets.
\<close>

section \<open>The fallback of the program\<close>

text \<open>
  What \<^verbatim>\<open>egg_memory_fallback\<close> promises, as \<^verbatim>\<open>realloc\<close> does: it does not touch the locked
  memory, and memory it returns is mapped and lies outside of it.
\<close>

definition fallback_ok :: "os \<Rightarrow> bool" where
  "fallback_ok env \<longleftrightarrow> (\<forall>f s p n q m. os_fallback env = Some f \<longrightarrow> f s p n = (q, m) \<longrightarrow>
     (\<forall>i. secure s i \<longrightarrow> m i = mem s i) \<and> (0 < n \<longrightarrow> q \<noteq> 0 \<longrightarrow> (\<forall>i. q \<le> i \<and> i < q + n \<longrightarrow> m i \<noteq> None \<and> \<not> secure s i)))"

text \<open>Memory outside of the locked blocks may change freely.\<close>

lemma frame_outside:
  assumes ok: "sec_ok env s" and "items s' = items s" "pool_data s' = pool_data s" "all_blocks s' = all_blocks s"
    and m: "\<And>i. secure s i \<Longrightarrow> mem s' i = mem s i"
  shows "sec_ok env s'" "live s' = live s" "secure s' = secure s"
proof -
  obtain F where F: "heap_ok env s F" using ok by (auto simp: sec_ok_def)
  have b: "blk_at s' = blk_at s" using assms(2) by (simp add: blk_at_def fun_eq_iff)
  have inv: "pool_inv env s'" by (rule meta.frame_law [of env s]) (use F assms in \<open>simp_all add: heap_ok_def\<close>)
  have f: "\<exists>us fs. block_good s' d (blk_at s d) (F d) us fs" "live_in (mem s') (F d) = live_in (mem s) (F d)"
    if d: "d \<in> set (all_blocks s)" for d
  proof -
    have m': "mem s' i = mem s i" if "in_block (blk_at s d) i" for i using m d that by (auto simp: secure_def)
    show "\<exists>us fs. block_good s' d (blk_at s d) (F d) us fs" using heap_frame(3) [OF F d _ m'] assms(2) b by simp
    show "live_in (mem s') (F d) = live_in (mem s) (F d)" using heap_frame(4) [OF F d _ m'] assms(2) by simp
  qed
  have F': "heap_ok env s' F" using F f(1) inv assms(2,4) unfolding heap_ok_def b by simp
  then show "sec_ok env s'" by (auto simp: sec_ok_def)
  show "live s' = live s" unfolding heap_live [OF F] heap_live [OF F'] assms(4) by (rule SUP_cong [OF refl]) (rule f(2))
  show "secure s' = secure s" by (simp add: secure_def fun_eq_iff b assms(4))
qed

lemma call_fallback_ok:
  assumes "sec_ok env s" and "fallback_ok env" and "call_fallback env s use p n = Some (q, s')"
  shows "use" "sec_ok env s'" "live s' = live s" "secure s' = secure s"
    "0 < n \<Longrightarrow> q \<noteq> 0 \<Longrightarrow> mapped s' q n" "0 < n \<Longrightarrow> q \<noteq> 0 \<Longrightarrow> q \<le> i \<Longrightarrow> i < q + n \<Longrightarrow> \<not> secure s i"
proof -
  obtain f m where f: "os_fallback env = Some f" "use" "f s p n = (q, m)" "s' = s\<lparr>mem := m, os_calls := os_calls s + 1\<rparr>"
    using assms(3) by (auto simp: call_fallback_def split: option.splits if_splits prod.splits)
  have c: "secure s i \<Longrightarrow> m i = mem s i" "0 < n \<Longrightarrow> q \<noteq> 0 \<Longrightarrow> q \<le> i \<Longrightarrow> i < q + n \<Longrightarrow> m i \<noteq> None \<and> \<not> secure s i" for i
    using assms(2) f(1,3) unfolding fallback_ok_def by blast+
  show "use" by (rule f(2))
  show "sec_ok env s'" "live s' = live s" "secure s' = secure s" by (rule frame_outside [OF assms(1)]; simp add: f(4) c(1))+
  show "mapped s' q n" if "0 < n" "q \<noteq> 0" using c(2) that f(4) by (simp add: mapped_iff)
  show "\<not> secure s i" if "0 < n" "q \<noteq> 0" "q \<le> i" "i < q + n" using c(2) that by simp
qed

lemma write_outside:
  assumes ok: "sec_ok env s" and m: "mapped s q (length bs)" and o: "\<forall>i. q \<le> i \<and> i < q + length bs \<longrightarrow> \<not> secure s i"
  defines "s' \<equiv> s\<lparr>mem := write_octets (mem s) q bs\<rparr>"
  shows "memwrite s q bs = Ret s'" "sec_ok env s'" "live s' = live s" "secure s' = secure s" "octets (mem s') q (length bs) = bs"
    "dom (mem s') = dom (mem s)"
proof -
  show "memwrite s q bs = Ret s'" unfolding s'_def by (rule memwrite_mapped [OF m])
  show "sec_ok env s'" "live s' = live s" "secure s' = secure s"
    by (rule frame_outside [OF ok]; use o in \<open>auto simp: s'_def write_octets_def\<close>)+
  show "octets (mem s') q (length bs) = bs" by (simp add: s'_def octets_written)
  show "dom (mem s') = dom (mem s)" unfolding s'_def using m by (simp, intro write_octets_mapped) (auto simp: mapped_iff)
qed

section \<open>Allocation\<close>

text \<open>
  \<open>placed\<close> says where an allocation is: in the locked memory, among the live allocations, or outside,
  in memory of the fallback.
\<close>

definition placed :: "bool \<Rightarrow> secmem \<Rightarrow> nat \<Rightarrow> byte list \<Rightarrow> (nat \<times> byte list) set \<Rightarrow> bool" where
  "placed use s p bs others \<longleftrightarrow> p \<noteq> 0 \<and>
     (if secure s p then p \<notin> fst ` others \<and> live s = insert (p, bs) others
      else use \<and> live s = others \<and> mapped s p (length bs) \<and> octets (mem s) p (length bs) = bs \<and>
        (\<forall>i. p \<le> i \<and> i < p + length bs \<longrightarrow> \<not> secure s i))"

lemma alloc_spec_placed:
  assumes "sec_ok env s'" and "alloc_spec p len lv (live s')" and "p \<noteq> 0"
  shows "placed use s' p (replicate len 0) lv"
proof -
  have a: "p \<notin> fst ` lv" "live s' = insert (p, replicate len 0) lv" using assms(2,3) by (auto simp: alloc_spec_def)
  have "secure s' p" using live_secure [OF assms(1), of p "replicate len 0"] a(2) by simp
  with a assms(3) show ?thesis by (simp add: placed_def)
qed

lemma alloc_full_cases:
  assumes ok: "sec_ok env s" and fb: "fallback_ok env" and len: "0 < len" "len \<le> 0x7FFFFFFF"
  shows "\<exists>p s'. egg_secure_alloc_full env s tg len use = Ret (p, s') \<and> sec_ok env s' \<and>
    (if p = 0 then live s' = live s else placed use s' p (replicate len 0) (live s))"
proof -
  let ?t = "case tg of None \<Rightarrow> cstr ''?'' | Some t \<Rightarrow> t"
  obtain p1 s1 where a: "alloc_in_blocks env s (all_blocks s) ?t len = Ret (p1, s1)" "kept env s s1" "alloc_spec p1 len (live s) (live s1)"
    using alloc_in_blocks_ok [OF ok order_refl len(1)] by blast
  have ok1: "sec_ok env s1" using a(2) by (simp add: kept_def)
  obtain p2 s2 where b: "(if p1 \<noteq> 0 then Ret (p1, s1)
       else obind (sec_block_create env s1 len) (\<lambda>(b, s2). if b \<noteq> 0 then sec_alloc env s2 b ?t len else Ret (0, s2))) = Ret (p2, s2)"
    "sec_ok env s2" "alloc_spec p2 len (live s) (live s2)"
  proof (cases "p1 = 0")
    case True
    obtain b sb where c: "sec_block_create env s1 len = Ret (b, sb)" "created env s1 len b sb"
      using sec_block_create_ok [OF ok1, of len] len by auto
    have l: "sec_ok env sb" "live sb = live s" using c(2) a(3) True by (simp_all add: created_def alloc_spec_def)
    show thesis
    proof (cases "b = 0")
      case True
      with \<open>p1 = 0\<close> c l show thesis by (intro that [of 0 sb]) (simp_all add: alloc_spec_def)
    next
      case False
      then have "b \<in> set (all_blocks sb)" using c(2) by (simp add: created_def)
      from heap_alloc [OF l(1) this len(1), of ?t] obtain p s' where
        "sec_alloc env sb b ?t len = Ret (p, s')" "kept env sb s'" "alloc_spec p len (live sb) (live s')" by blast
      with \<open>p1 = 0\<close> False c l show thesis by (intro that [of p s']) (simp_all add: kept_def)
    qed
  next
    case False
    with a ok1 show thesis by (intro that [of p1 s1]) simp_all
  qed
  have big: "\<not> len > 0xFFFFFFFF div 2" "len \<noteq> 0" using len by simp_all
  note eval = egg_secure_alloc_full_def [of env s tg len use] big
  show ?thesis
  proof (cases "p2 = 0")
    case False
    have "egg_secure_alloc_full env s tg len use = Ret (p2, s2)" unfolding eval(1) Let_def a(1) using b(1) big False by simp
    with False b(2) alloc_spec_placed [OF b(2,3) False] show ?thesis by auto
  next
    case p2: True
    have l2: "live s2 = live s" using b(3) p2 by (simp add: alloc_spec_def)
    have ev: "egg_secure_alloc_full env s tg len use =
        (case call_fallback env s2 use 0 len of None \<Rightarrow> Ret (0, s2)
         | Some (p, s4) \<Rightarrow> if p \<noteq> 0 then obind (memwrite s4 p (replicate len 0)) (\<lambda>s5. Ret (p, s5)) else Ret (0, s4))"
      unfolding eval(1) Let_def a(1) using b(1) big p2 by simp
    show ?thesis
    proof (cases "call_fallback env s2 use 0 len")
      case None
      then show ?thesis using ev b(2) l2 by auto
    next
      case (Some q)
      obtain p s4 where q: "q = (p, s4)" by (cases q)
      note cf = call_fallback_ok [OF b(2) fb Some [unfolded q]]
      show ?thesis
      proof (cases "p = 0")
        case True
        then show ?thesis using ev Some q cf l2 by auto
      next
        case False
        let ?z = "replicate len (0 :: byte)"
        have out: "\<forall>i. p \<le> i \<and> i < p + length ?z \<longrightarrow> \<not> secure s4 i" using cf(4,6) len False by simp
        have map4: "mapped s4 p (length ?z)" using cf(5) len False by simp
        note w = write_outside [OF cf(2) map4 out]
        let ?s5 = "s4\<lparr>mem := write_octets (mem s4) p ?z\<rparr>"
        have "mapped ?s5 p len" using map4 w(6) unfolding mapped_iff by (simp add: write_octets_def)
        moreover have "\<not> secure ?s5 i" if "p \<le> i" "i < p + len" for i using out that by (simp add: w(4))
        ultimately have "placed use ?s5 p ?z (live s)"
          using w(3,5) cf(1,3) l2 False len by (auto simp: placed_def)
        then show ?thesis using ev Some q w(1,2) False by auto
      qed
    qed
  qed
qed


section \<open>Release\<close>

lemma free_full_live:
  assumes ok: "sec_ok env s" and p: "(p, bs) \<in> live s"
  shows "\<exists>s'. egg_secure_free_full env s p use = Ret s' \<and> sec_ok env s' \<and> live s' = live s - {(p, bs)} \<and>
    (\<forall>i. p \<le> i \<and> i < p + length bs \<longrightarrow> mem s' i = None \<or> mem s' i = Some 0) \<and>
    (\<forall>i. \<not> secure s i \<longrightarrow> mem s' i = mem s i) \<and> (\<forall>i. secure s' i \<longrightarrow> secure s i)"
proof -
  obtain F where F: "heap_ok env s F" using ok by (auto simp: sec_ok_def)
  obtain b c k where b: "find_block s (all_blocks s) p = Ret b" "b \<noteq> 0" "b \<in> set (all_blocks s)" "(c, k) \<in> set (F b)"
    "0 < requested k" "p = words k + 8" "bs = octets (mem s) p (requested k)" using find_block_live [OF F p] by metis
  have p0: "p \<noteq> 0" using b(6) by simp
  from heap_free [OF F b(3-5)] obtain s1 where f: "sec_free s b p = Ret s1" "kept env s s1" "live s1 = live s - {(p, bs)}"
    "\<forall>i. p \<le> i \<and> i < p + length bs \<longrightarrow> mem s1 i = Some 0" unfolding b(6) [symmetric] b(7) [symmetric] by blast
  have k1: "sec_ok env s1" "all_blocks s1 = all_blocks s" "\<And>i. secure s1 i \<longleftrightarrow> secure s i" "\<And>i. \<not> secure s i \<Longrightarrow> mem s1 i = mem s i"
    using f(2) by (simp_all add: kept_def)
  obtain F1 where F1: "heap_ok env s1 F1" using k1(1) by (auto simp: sec_ok_def)
  have b1: "b \<in> set (all_blocks s1)" using b(3) k1(2) by simp
  obtain us fs where g: "get_block s1 b = Ret (blk_at s1 b)" using F1 b1 by (rule heap_block)
  have eval: "egg_secure_free_full env s p use = (if n_used (blk_at s1 b) = 0 then sec_block_destroy env s1 b else Ret s1)"
    using p0 b(1,2) f(1) g by (simp add: egg_secure_free_full_def)
  show ?thesis
  proof (cases "n_used (blk_at s1 b) = 0")
    case False
    then show ?thesis using eval k1 f(3,4) by (intro exI [of _ s1]) simp
  next
    case True
    from sec_block_destroy_ok [OF F1 b1 True] obtain s2 where d: "sec_block_destroy env s1 b = Ret s2" "sec_ok env s2" "live s2 = live s1"
      "\<forall>i. mem s2 i = (if in_block (blk_at s1 b) i then None else mem s1 i)"
      "\<forall>i. secure s2 i \<longleftrightarrow> secure s1 i \<and> \<not> in_block (blk_at s1 b) i" by blast
    have "mem s2 i = mem s i" if "\<not> secure s i" for i
    proof -
      have "\<not> in_block (blk_at s1 b) i" using that k1(3) [of i] b1 by (auto simp: secure_def)
      then show ?thesis using d(4) k1(4) [OF that] by simp
    qed
    then show ?thesis using eval True d k1(3) f(3,4) by (intro exI [of _ s2]) auto
  qed
qed

section \<open>Reallocation\<close>

definition resized :: "byte list \<Rightarrow> nat \<Rightarrow> byte list \<Rightarrow> bool" where
  "resized bs len bs' \<longleftrightarrow> length bs' = len \<and> take (length bs) bs' = take len bs"

lemma heap_realloc:
  assumes F: "heap_ok env s F" and b: "b \<in> set (all_blocks s)" and ck: "(c, k) \<in> set (F b)" "0 < requested k" and len: "0 < len"
  defines "p \<equiv> words k + 8"
  defines "bs \<equiv> octets (mem s) p (requested k)"
  shows "\<exists>q s'. sec_realloc env s b tg p len = Ret (q, s') \<and> kept env s s' \<and> sec_allocated s b p = Ret (length bs) \<and>
    get_block s' b = Ret (blk_at s' b) \<and> n_used (blk_at s' b) \<noteq> 0 \<and>
    (if q = 0 then live s' = live s \<and> length bs < len
     else \<exists>bs'. resized bs len bs' \<and> placed use s' q bs' (live s - {(p, bs)}))"
proof -
  obtain us fs where g: "block_good s b (blk_at s b) (F b) us fs" using F b by (rule heap_block)
  have inv: "pool_inv env s" using F by (simp add: heap_ok_def)
  from sec_realloc_ok [OF g inv ck len, of tg] obtain q s' blk' L' where r: "sec_realloc env s b tg p len = Ret (q, s')"
    "block_step env b (blk_at s b) (F b) s blk' L' s'"
    "realloc_result p bs q len (live_in (mem s) (F b)) (live_in (mem s') L') (mem s')" unfolding bs_def p_def by blast
  have al: "sec_allocated s b p = Ret (length bs)" using sec_allocated_ok [OF g inv ck] by (simp add: p_def bs_def)
  note kp = kept_step [OF F b r(2)] and lv = heap_step_live [OF F b r(2)]
  have sub: "live_in (mem s) (F b) \<subseteq> live s" unfolding heap_live [OF F] using b by blast
  have pin: "(p, bs) \<in> live_in (mem s) (F b)" using ck by (auto simp: live_in_def p_def bs_def)
  have used: "get_block s' b = Ret (blk_at s' b)" "n_used (blk_at s' b) \<noteq> 0"
  proof -
    have b': "b \<in> set (all_blocks s')" using b step_geometry(1) [OF F b r(2)] by simp
    obtain us' fs' where g': "block_good s' b (blk_at s' b) ((F(b := L')) b) us' fs'" "get_block s' b = Ret (blk_at s' b)"
      using heap_step [OF F b r(2)] b' by (rule heap_block)
    have "live_in (mem s') L' \<noteq> {}" using r(3) pin by (auto simp: realloc_result_def split: if_splits)
    with block_live_used [OF g'(1), of "mem s'"] g'(2) show "get_block s' b = Ret (blk_at s' b)" "n_used (blk_at s' b) \<noteq> 0" by auto
  qed
  show ?thesis
  proof (cases "q = 0")
    case True
    then have "live s' = live s" "length bs < len" using r(3) lv(1) sub by (auto simp: realloc_result_def)
    with True r(1) kp al used show ?thesis by auto
  next
    case False
    then obtain bs' where bs': "length bs' = len" "take (length bs) bs' = take len bs" "q \<noteq> p \<longrightarrow> q \<notin> fst ` live_in (mem s) (F b)"
      "live_in (mem s') L' = insert (q, bs') (live_in (mem s) (F b) - {(p, bs)})" using r(3) by (auto simp: realloc_result_def)
    have l': "live s' = insert (q, bs') (live s - {(p, bs)})" unfolding lv(1) bs'(4) using sub pin by blast
    have ok': "sec_ok env s'" using kp by (simp add: kept_def)
    have sq: "secure s' q" using live_secure [OF ok', of q bs'] l' by simp
    have "in_block (blk_at s b) q"
      using heap_live_in(1) [OF heap_step [OF F b r(2)], of b q bs'] bs'(4) b
        step_geometry(1) [OF F b r(2)] step_geometry(3) [OF F b r(2) b] by simp
    then have "q \<notin> fst ` (live s - live_in (mem s) (F b))" using lv(2) by blast
    moreover have "q \<notin> fst ` (live_in (mem s) (F b) - {(p, bs)})" using bs'(3) live_unique [OF g pin] by (cases "q = p") auto
    ultimately have "q \<notin> fst ` (live s - {(p, bs)})" by blast
    then have "placed use s' q bs' (live s - {(p, bs)})" using l' sq False by (simp add: placed_def)
    with False r(1) kp al used bs'(1,2) show ?thesis by (auto simp: resized_def)
  qed
qed

text \<open>Reading and writing a live allocation.\<close>

lemma live_read:
  assumes "sec_ok env s" and "(p, bs) \<in> live s"
  shows "memread s p (length bs) = Ret bs"
proof -
  obtain F where F: "heap_ok env s F" using assms(1) by (auto simp: sec_ok_def)
  obtain b where b: "b \<in> set (all_blocks s)" "(p, bs) \<in> live_in (mem s) (F b)" using heap_live_block [OF F assms(2)] by metis
  obtain us fs where g: "block_good s b (blk_at s b) (F b) us fs" using F b(1) by (rule heap_block)
  from memread_live [OF g b(2)] show ?thesis .
qed

lemma live_store:
  assumes ok: "sec_ok env s" and p: "(p, bs) \<in> live s" and fit: "off + length ws \<le> length bs"
  shows "\<exists>s'. memwrite s (p + off) ws = Ret s' \<and> kept env s s' \<and>
    live s' = insert (p, take off bs @ ws @ drop (off + length ws) bs) (live s - {(p, bs)})"
proof -
  obtain F where F: "heap_ok env s F" using ok by (auto simp: sec_ok_def)
  obtain b where b: "b \<in> set (all_blocks s)" "(p, bs) \<in> live_in (mem s) (F b)" using heap_live_block [OF F p] by metis
  obtain us fs where g: "block_good s b (blk_at s b) (F b) us fs" using F b(1) by (rule heap_block)
  obtain c k where ck: "(c, k) \<in> set (F b)" "0 < requested k" "p = words k + 8" "bs = octets (mem s) p (requested k)"
    using b(2) by (rule liveE)
  have len: "length bs = requested k" using ck(4) by simp
  have "off + length ws \<le> (n_words k - 2) * 8" using live_fit(1) [OF g ck(1,2)] fit len by simp
  note w = live_write [OF g ck(1,2) this, folded ck(3)]
  let ?s' = "s\<lparr>mem := write_octets (mem s) (p + off) ws\<rparr>"
  have inv: "pool_inv env s" using F by (simp add: heap_ok_def)
  have inv': "pool_inv env ?s'" by (rule meta.frame_law [OF inv]) simp_all
  have step: "block_step env b (blk_at s b) (F b) s (blk_at s b) (F b) ?s'"
    by (rule block_step_same [OF inv' w(2) _ good_dom [OF g] confined_mono [OF w(3)]]) simp_all
  have oct: "octets (mem ?s') p (requested k) = take off bs @ ws @ drop (off + length ws) bs"
    using octets_overwrite [of off ws "requested k" "mem s" p] fit len ck(4) by simp
  have sub: "live_in (mem s) (F b) \<subseteq> live s" unfolding heap_live [OF F] using b(1) by blast
  have "live ?s' = insert (p, take off bs @ ws @ drop (off + length ws) bs) (live s - {(p, bs)})"
    unfolding heap_step_live(1) [OF F b(1) step] w(4) oct ck(4) [symmetric] using sub b(2) by blast
  with w(1) kept_step [OF F b(1) step] show ?thesis by blast
qed

lemma live_block_used:
  assumes F: "heap_ok env s F" and b: "b \<in> set (all_blocks s)" "in_block (blk_at s b) p" and p: "(p, bs) \<in> live s"
  shows "n_used (blk_at s b) \<noteq> 0"
proof -
  obtain d where d: "d \<in> set (all_blocks s)" "(p, bs) \<in> live_in (mem s) (F d)"
    "\<And>b'. b' \<in> set (all_blocks s) \<Longrightarrow> in_block (blk_at s b') p \<Longrightarrow> b' = d" using heap_live_block [OF F p] by metis
  have "b = d" using d(3) [OF b] .
  obtain us fs where g: "block_good s b (blk_at s b) (F b) us fs" using F b(1) by (rule heap_block)
  from block_live_used [OF g, of "mem s"] d(2) \<open>b = d\<close> show ?thesis by auto
qed

text \<open>The allocation moves: it is copied into the new one and freed.\<close>

lemma realloc_copy:
  assumes ok: "sec_ok env s" and pl: "placed use s q (replicate len 0) lv" and p: "(p, bs) \<in> lv" and len: "length bs < len"
  shows "\<exists>s4 s5. memread s p (length bs) = Ret bs \<and> memwrite s q bs = Ret s4 \<and> egg_secure_free_full env s4 p use = Ret s5 \<and>
    sec_ok env s5 \<and> placed use s5 q (bs @ replicate (len - length bs) 0) (lv - {(p, bs)})"
proof (cases "secure s q")
  case True
  let ?bs' = "bs @ replicate (len - length bs) 0"
  have pl': "q \<noteq> 0" "q \<notin> fst ` lv" "live s = insert (q, replicate len 0) lv" using pl True by (simp_all add: placed_def)
  have pin: "(p, bs) \<in> live s" and qin: "(q, replicate len 0) \<in> live s" using p pl'(3) by auto
  have "0 + length bs \<le> length (replicate len (0 :: byte))" using len by simp
  from live_store [OF ok qin this] obtain s4 where w: "memwrite s q bs = Ret s4" "kept env s s4"
    "live s4 = insert (q, ?bs') (live s - {(q, replicate len 0)})" by auto
  have l4: "live s4 = insert (q, ?bs') lv" unfolding w(3) pl'(3) using insert_diff_fst [OF pl'(2)] by simp
  have ok4: "sec_ok env s4" using w(2) by (simp add: kept_def)
  have "(p, bs) \<in> live s4" using l4 p by simp
  from free_full_live [OF ok4 this] obtain s5 where f: "egg_secure_free_full env s4 p use = Ret s5" "sec_ok env s5"
    "live s5 = live s4 - {(p, bs)}" by blast
  have "p \<noteq> q" using pl'(2) p by force
  then have l5: "live s5 = insert (q, ?bs') (lv - {(p, bs)})" unfolding f(3) l4 by auto
  then have "secure s5 q" using live_secure [OF f(2), of q ?bs'] by simp
  moreover have "q \<notin> fst ` (lv - {(p, bs)})" using pl'(2) by blast
  ultimately have "placed use s5 q ?bs' (lv - {(p, bs)})" using l5 pl'(1) by (simp add: placed_def)
  with live_read [OF ok pin] w(1) f(1,2) show ?thesis by blast
next
  case False
  let ?bs' = "bs @ replicate (len - length bs) 0"
  have pl': "q \<noteq> 0" "use" "live s = lv" "mapped s q len" "octets (mem s) q len = replicate len 0" "\<forall>i. q \<le> i \<and> i < q + len \<longrightarrow> \<not> secure s i"
    using pl False by (simp_all add: placed_def)
  have pin: "(p, bs) \<in> live s" using p pl'(3) by simp
  have m: "mapped s q (length bs)" using pl'(4) len by (auto simp: mapped_iff)
  have o: "\<forall>i. q \<le> i \<and> i < q + length bs \<longrightarrow> \<not> secure s i" using pl'(6) len by auto
  note w = write_outside [OF ok m o]
  let ?s4 = "s\<lparr>mem := write_octets (mem s) q bs\<rparr>"
  have "(p, bs) \<in> live ?s4" using w(3) pin by simp
  from free_full_live [OF w(2) this] obtain s5 where f: "egg_secure_free_full env ?s4 p use = Ret s5" "sec_ok env s5"
    "live s5 = live ?s4 - {(p, bs)}" "\<forall>i. \<not> secure ?s4 i \<longrightarrow> mem s5 i = mem ?s4 i" "\<forall>i. secure s5 i \<longrightarrow> secure ?s4 i" by blast
  have ns: "\<not> secure ?s4 i" "\<not> secure s5 i" if "q \<le> i" "i < q + len" for i using that pl'(6) w(4) f(5) by auto
  have m5: "mem s5 i = mem ?s4 i" if "q \<le> i" "i < q + len" for i using ns that f(4) by blast
  have "octets (mem s5) q len = octets (mem ?s4) q len" by (rule octets_cong) (rule m5)
  also have "\<dots> = ?bs'" using octets_overwrite [of 0 bs len "mem s" q] pl'(5) len by simp
  finally have "octets (mem s5) q (length ?bs') = ?bs'" using len by simp
  moreover have "mapped s5 q len" using pl'(4) m5 w(6) by (auto simp: mapped_iff write_octets_def)
  moreover have "\<not> secure s5 q" using ns(2) [of q] len by simp
  ultimately have "placed use s5 q ?bs' (lv - {(p, bs)})" using pl'(1,2,3) f(3) w(3) ns(2) len by (simp add: placed_def)
  with live_read [OF ok pin] w(1) f(1,2) show ?thesis by blast
qed

lemma realloc_full_live:
  assumes ok: "sec_ok env s" and fb: "fallback_ok env" and p: "(p, bs) \<in> live s" and len: "0 < len" "len \<le> 0x7FFFFFFF"
  shows "\<exists>q s'. egg_secure_realloc_full env s tg p len use = Ret (q, s') \<and> sec_ok env s' \<and>
    (if q = 0 then live s' = live s else \<exists>bs'. resized bs len bs' \<and> placed use s' q bs' (live s - {(p, bs)}))"
proof -
  let ?t = "case tg of None \<Rightarrow> cstr ''?'' | Some t \<Rightarrow> t"
  obtain F where F: "heap_ok env s F" using ok by (auto simp: sec_ok_def)
  obtain b c k where b: "find_block s (all_blocks s) p = Ret b" "b \<noteq> 0" "b \<in> set (all_blocks s)" "in_block (blk_at s b) p" "(c, k) \<in> set (F b)"
    "0 < requested k" "p = words k + 8" "bs = octets (mem s) p (requested k)" using find_block_live [OF F p] by metis
  have p0: "p \<noteq> 0" using b(7) by simp
  from heap_realloc [OF F b(3,5,6) len(1), of ?t use] obtain q s1 where r: "sec_realloc env s b ?t p len = Ret (q, s1)" "kept env s s1"
    "sec_allocated s b p = Ret (length bs)" "get_block s1 b = Ret (blk_at s1 b)" "n_used (blk_at s1 b) \<noteq> 0"
    "if q = 0 then live s1 = live s \<and> length bs < len
      else \<exists>bs'. resized bs len bs' \<and> placed use s1 q bs' (live s - {(p, bs)})"
    unfolding b(7) [symmetric] b(8) [symmetric] by blast
  have ok1: "sec_ok env s1" using r(2) by (simp add: kept_def)
  have big: "\<not> len > 0xFFFFFFFF div 2" "len \<noteq> 0" using len by simp_all
  have eval: "egg_secure_realloc_full env s tg p len use =
      (if q \<noteq> 0 then Ret (q, s1)
       else obind (egg_secure_alloc_full env s1 (Some ?t) len use) (\<lambda>(alloc', s3).
         if alloc' = 0 then Ret (0, s3)
         else obind (memread s3 p (length bs)) (\<lambda>bs. obind (memwrite s3 alloc' bs) (\<lambda>s4.
           obind (egg_secure_free_full env s4 p use) (\<lambda>s5. Ret (alloc', s5))))))"
    using big p0 b(1,2) r(1,3-5) by (simp add: egg_secure_realloc_full_def Let_def)
  show ?thesis
  proof (cases "q = 0")
    case False
    with eval ok1 r(6) show ?thesis by auto
  next
    case True
    then have l1: "live s1 = live s" "length bs < len" using r(6) by auto
    from alloc_full_cases [OF ok1 fb len, of "Some ?t" use] obtain q' s3 where a: "egg_secure_alloc_full env s1 (Some ?t) len use = Ret (q', s3)"
      "sec_ok env s3" "if q' = 0 then live s3 = live s1 else placed use s3 q' (replicate len 0) (live s1)" by blast
    show ?thesis
    proof (cases "q' = 0")
      case q': True
      then show ?thesis using eval True a l1 by auto
    next
      case q': False
      then have "placed use s3 q' (replicate len 0) (live s)" using a(3) l1 by simp
      from realloc_copy [OF a(2) this p l1(2)] obtain s4 s5 where m: "memread s3 p (length bs) = Ret bs" "memwrite s3 q' bs = Ret s4"
        "egg_secure_free_full env s4 p use = Ret s5" "sec_ok env s5" "placed use s5 q' (bs @ replicate (len - length bs) 0) (live s - {(p, bs)})"
        by blast
      have "egg_secure_realloc_full env s tg p len use = Ret (q', s5)" using eval True q' a(1) m(1-3) by simp
      moreover have "resized bs len (bs @ replicate (len - length bs) 0)" using l1(2) by (simp add: resized_def)
      ultimately show ?thesis using m(4,5) q' by auto
    qed
  qed
qed

section \<open>Validation and records\<close>

lemma validate_blocks_ok:
  assumes "heap_ok env s F" and "set bs \<subseteq> set (all_blocks s)"
  shows "validate_blocks s bs = Ret ()"
  using assms(2)
proof (induction bs)
  case (Cons b bs)
  then have b: "b \<in> set (all_blocks s)" by simp
  obtain us fs where g: "block_good s b (blk_at s b) (F b) us fs" "paged env (blk_at s b)" using assms(1) b by (rule heap_block)
  have "pool_inv env s" using assms(1) by (simp add: heap_ok_def)
  from sec_validate_ok [OF g(1) this] g(2) Cons show ?case by (simp add: paged_def)
qed simp

lemma validate_ok: "sec_ok env s \<Longrightarrow> egg_secure_validate s = Ret ()"
  unfolding sec_ok_def egg_secure_validate_def using validate_blocks_ok by blast


text \<open>The records: every cell of every block, and the assertion on the total number of words.\<close>

definition cell_in :: "secmem \<Rightarrow> nat \<Rightarrow> Cell" where
  "cell_in s c = (case cell_at (items s) c of Some k \<Rightarrow> k | None \<Rightarrow> zero_cell)"

definition recs_of :: "secmem \<Rightarrow> nat list \<Rightarrow> egg_secure_rec list" where
  "recs_of s cs = map (\<lambda>c. rec_of_cell (cell_in s c)) cs"

definition words_of :: "secmem \<Rightarrow> nat list \<Rightarrow> nat" where
  "words_of s cs = sum_list (map (\<lambda>c. n_words (cell_in s c)) cs)"

definition recs_result :: "os \<Rightarrow> secmem \<Rightarrow> nat list \<Rightarrow> egg_secure_rec list \<Rightarrow> nat \<Rightarrow> egg_secure_rec list option \<times> nat \<Rightarrow> bool" where
  "recs_result env s cs recs tot res \<longleftrightarrow>
     (case fst res of None \<Rightarrow> \<exists>n. \<not> os_realloc env s n
      | Some recs' \<Rightarrow> recs' = recs @ recs_of s cs \<and> snd res = (tot + words_of s cs) mod 2 ^ 32)"

lemma recs_result_Cons:
  "recs_result env s (c # cs) recs tot res \<longleftrightarrow>
     recs_result env s cs (recs @ [rec_of_cell (cell_in s c)]) (wrap32 (tot + n_words (cell_in s c))) res"
  by (simp add: recs_result_def recs_of_def words_of_def wrap32_def mod_add_left_eq add.assoc split: option.splits)

lemma recs_none: "\<not> os_realloc env s n \<Longrightarrow> recs_result env s cs recs tot (None, t)"
  by (auto simp: recs_result_def)

lemma records_loop_ok:
  assumes "ring (items s) r xs" and "xs = ys @ c # zs" and "length zs < fuel"
  shows "\<exists>res. records_loop fuel env s r c recs al tot = Ret res \<and> recs_result env s (c # zs) recs tot res"
  using assms(2,3)
proof (induction zs arbitrary: ys c fuel recs al tot)
  case (Cons d zs)
  obtain k where k: "cell_at (items s) c = Some k" "c \<noteq> 0" using assms(1) Cons.prems(1) by (auto simp: ring_def)
  have "chain (items s) (ys @ c # d # zs @ [hd xs])" using assms(1) Cons.prems(1) by (simp add: ring_def)
  then have nx: "next_cell k = d" using chain_append [of "items s" ys c "d # zs @ [hd xs]"] k by (simp add: next_at_def)
  have d: "d \<noteq> r" "d \<noteq> 0" using assms(1) Cons.prems(1) by (cases ys; auto simp: ring_def)+
  obtain fuel' where f: "fuel = Suc fuel'" using Cons.prems(2) by (cases fuel) auto
  let ?al = "if length recs \<ge> al then al + 32 else al"
  from Cons.IH [of "ys @ [c]" d fuel' "recs @ [rec_of_cell k]" ?al "wrap32 (tot + n_words k)"] Cons.prems f obtain res where
    r: "records_loop fuel' env s r d (recs @ [rec_of_cell k]) ?al (wrap32 (tot + n_words k)) = Ret res"
      "recs_result env s (d # zs) (recs @ [rec_of_cell k]) (wrap32 (tot + n_words k)) res" by auto
  have "recs_result env s (c # d # zs) recs tot res"
    using r(2) k(1) unfolding recs_result_Cons [of env s c] by (simp add: cell_in_def)
  moreover have "records_loop fuel env s r c recs al tot = (if length recs \<ge> al \<and> \<not> os_realloc env s (24 * (al + 32)) then Ret (None, tot) else Ret res)"
    using k nx d r(1) unfolding f by (subst records_loop.simps) (simp add: cell_at_get [OF k(1)] Let_def)
  ultimately show ?case by (cases "al \<le> length recs \<and> \<not> os_realloc env s (24 * (al + 32))") (auto intro: recs_none simp del: split_paired_Ex)
next
  case Nil
  obtain k where k: "cell_at (items s) c = Some k" "c \<noteq> 0" using assms(1) Nil(1) by (auto simp: ring_def)
  have "chain (items s) (ys @ c # [hd xs])" using assms(1) Nil(1) by (simp add: ring_def)
  then have "next_cell k = hd xs" using chain_append [of "items s" ys c "[hd xs]"] k by (simp add: next_at_def)
  moreover have "hd xs = r" using assms(1) Nil(1) by (cases ys) (auto simp: ring_def)
  moreover obtain fuel' where f: "fuel = Suc fuel'" using Nil(2) by (cases fuel) auto
  ultimately have "records_loop fuel env s r c recs al tot = (if length recs \<ge> al \<and> \<not> os_realloc env s (24 * (al + 32)) then Ret (None, tot)
      else Ret (Some (recs @ [rec_of_cell k]), wrap32 (tot + n_words k)))"
    using k unfolding f by (subst records_loop.simps) (simp add: cell_at_get [OF k(1)] Let_def)
  then show ?case using k(1) by (auto simp: recs_result_def recs_of_def words_of_def cell_in_def wrap32_def)
qed

lemma records_for_ring_ok:
  assumes "ring (items s) r xs" and "length xs \<le> item_slots s" and "tot < 2 ^ 32"
  shows "\<exists>res. records_for_ring env s r recs tot = Ret res \<and> recs_result env s xs recs tot res"
proof (cases xs)
  case Nil
  then have "r = 0" using assms(1) by (simp add: ring_def)
  then show ?thesis using assms(3) unfolding records_for_ring_def Nil
    by (subst records_loop.simps) (auto simp: recs_result_def recs_of_def words_of_def)
next
  case (Cons c cs)
  then have "r = c" using assms(1) by (simp add: ring_def)
  then show ?thesis using records_loop_ok [OF assms(1), of "[]" c cs] assms(2) Cons by (simp add: records_for_ring_def)
qed

lemma tiles_words: "tiles m its a L e \<Longrightarrow> sum_list (map (\<lambda>(c, k). n_words k * 8) L) = e - a"
proof (induction m its a L e rule: tiles.induct)
  case (2 m its a c k L e)
  then show ?case using tiles_le [of m its "a + n_words k * 8" L e] by auto
qed simp

lemma block_records:
  assumes good: "block_good s b blk L us fs" and pg: "paged env blk" and inv: "pool_inv env s"
  shows "\<exists>res. obind (records_for_ring env s (unused_cells blk) recs 0) (\<lambda>(r1, total1). case r1 of None \<Rightarrow> Ret None
       | Some recs1 \<Rightarrow> obind (records_for_ring env s (used_cells blk) recs1 total1) (\<lambda>(r2, total2). case r2 of None \<Rightarrow> Ret None
         | Some recs2 \<Rightarrow> g_assert (total2 = block_n_words blk) (cont recs2))) = res \<and>
     (res = cont (recs @ recs_of s (fs @ us)) \<or> res = Ret None \<and> (\<exists>n. \<not> os_realloc env s n))"
    "words_of s (fs @ us) = block_n_words blk" "set (fs @ us) = fst ` set L"
proof -
  have rep: "block_rep s b blk L us fs" and coh: "coherent L (set us) (set fs)" using good by (auto simp: block_good_def)
  have r: "ring (items s) (used_cells blk) us" "ring (items s) (unused_cells blk) fs" "set us \<inter> set fs = {}" "set us \<union> set fs \<subseteq> fst ` set L"
    "tiles (mem s) (items s) (block_words blk) L (block_words blk + block_n_words blk * 8)" using rep by (simp_all add: block_rep_def)
  show sets: "set (fs @ us) = fst ` set L" using r(4) coh by (force simp: coherent_def list_all_iff split: if_splits)
  have dis: "distinct (fs @ us)" "distinct (map fst L)" using r by (auto simp: ring_def dest: tiles_distinct)
  have at: "n_words (cell_in s c) = n_words k" if "(c, k) \<in> set L" for c k
    using block_rep_cell(3) [OF rep that] core_fields(2) by (auto simp: cell_in_def)
  have "words_of s (fs @ us) = (\<Sum>c\<in>set (fs @ us). n_words (cell_in s c))"
    unfolding words_of_def using dis(1) by (rule sum_list_distinct_conv_sum_set)
  also have "set (fs @ us) = set (map fst L)" using sets by simp
  also have "(\<Sum>c\<in>set (map fst L). n_words (cell_in s c)) = sum_list (map (\<lambda>c. n_words (cell_in s c)) (map fst L))"
    using dis(2) by (rule sum_list_distinct_conv_sum_set [symmetric])
  also have "\<dots> = sum_list (map (\<lambda>(c, k). n_words k) L)" using at by (auto intro!: arg_cong [where f = sum_list])
  also have "\<dots> * 8 = block_n_words blk * 8"
    using tiles_words [OF r(5)] sum_list_mult_const [of "\<lambda>(c, k). n_words k" 8 L] by (simp add: case_prod_unfold)
  finally show w: "words_of s (fs @ us) = block_n_words blk" by simp
  have len: "length fs \<le> item_slots s" "length us \<le> item_slots s"
  proof -
    have "set fs \<subseteq> dom (items s)" "set us \<subseteq> dom (items s)" "distinct fs" "distinct us"
      using good_dom [OF good] dis(1) unfolding sets [symmetric] by (simp_all add: distinct_append)
    then show "length fs \<le> item_slots s" "length us \<le> item_slots s" by (blast intro: meta.slots_distinct [OF inv])+
  qed
  obtain res1 where r1: "records_for_ring env s (unused_cells blk) recs 0 = Ret res1" "recs_result env s fs recs 0 res1"
    using records_for_ring_ok [OF r(2) len(1) zero_less_power [OF zero_less_numeral], of env recs] by blast
  show "\<exists>res. obind (records_for_ring env s (unused_cells blk) recs 0) (\<lambda>(r1, total1). case r1 of None \<Rightarrow> Ret None
       | Some recs1 \<Rightarrow> obind (records_for_ring env s (used_cells blk) recs1 total1) (\<lambda>(r2, total2). case r2 of None \<Rightarrow> Ret None
         | Some recs2 \<Rightarrow> g_assert (total2 = block_n_words blk) (cont recs2))) = res \<and>
     (res = cont (recs @ recs_of s (fs @ us)) \<or> res = Ret None \<and> (\<exists>n. \<not> os_realloc env s n))"
  proof (cases "fst res1")
    case None
    then show ?thesis using r1 by (cases res1) (auto simp: recs_result_def)
  next
    case (Some recs1)
    have t1: "recs1 = recs @ recs_of s fs" "snd res1 = words_of s fs mod 2 ^ 32" using r1(2) Some by (simp_all add: recs_result_def)
    have "snd res1 < 2 ^ 32" using t1(2) by simp
    from records_for_ring_ok [OF r(1) len(2) this, of env recs1] obtain res2 where
      r2: "records_for_ring env s (used_cells blk) recs1 (snd res1) = Ret res2" "recs_result env s us recs1 (snd res1) res2" by auto
    show ?thesis
    proof (cases "fst res2")
      case None
      then show ?thesis using r1 r2 Some by (cases res1, cases res2) (auto simp: recs_result_def)
    next
      case s2: (Some recs2)
      have "snd res2 = (words_of s fs mod 2 ^ 32 + words_of s us) mod 2 ^ 32" using r2(2) s2 t1(2) by (simp add: recs_result_def)
      also have "\<dots> = words_of s (fs @ us) mod 2 ^ 32" by (simp add: mod_add_left_eq words_of_def)
      finally have "snd res2 = block_n_words blk" using w pg by (simp add: paged_def)
      moreover have "recs2 = recs @ recs_of s (fs @ us)" using r2(2) s2 t1(1) by (simp add: recs_result_def recs_of_def)
      ultimately show ?thesis using r1 r2 Some s2 by (cases res1, cases res2) auto
    qed
  qed
qed

lemma records_of_blocks_ok:
  assumes F: "heap_ok env s F" and "set bs \<subseteq> set (all_blocks s)"
  shows "\<exists>res. records_of_blocks env s bs recs = Ret res \<and>
    (case res of None \<Rightarrow> \<exists>n. \<not> os_realloc env s n
     | Some recs' \<Rightarrow> \<exists>cs. recs' = recs @ recs_of s cs \<and> set cs = (\<Union>b\<in>set bs. fst ` set (F b)) \<and>
         words_of s cs = sum_list (map (\<lambda>b. block_n_words (blk_at s b)) bs))"
  using assms(2)
proof (induction bs arbitrary: recs)
  case Nil
  show ?case by (auto simp: recs_of_def words_of_def)
next
  case (Cons b bs)
  then have b: "b \<in> set (all_blocks s)" by simp
  obtain us fs where g: "block_good s b (blk_at s b) (F b) us fs" "paged env (blk_at s b)" "get_block s b = Ret (blk_at s b)"
    using F b by (rule heap_block)
  have inv: "pool_inv env s" using F by (simp add: heap_ok_def)
  let ?recs = "recs @ recs_of s (fs @ us)"
  from Cons.IH [of ?recs] Cons.prems obtain res where r: "records_of_blocks env s bs ?recs = Ret res"
    "case res of None \<Rightarrow> \<exists>n. \<not> os_realloc env s n
     | Some recs' \<Rightarrow> \<exists>cs. recs' = ?recs @ recs_of s cs \<and> set cs = (\<Union>b\<in>set bs. fst ` set (F b)) \<and>
         words_of s cs = sum_list (map (\<lambda>b. block_n_words (blk_at s b)) bs)" by auto
  from block_records(1) [OF g(1,2) inv, of recs "\<lambda>recs. records_of_blocks env s bs recs"]
  have "records_of_blocks env s (b # bs) recs = Ret res \<or>
      records_of_blocks env s (b # bs) recs = Ret None \<and> (\<exists>n. \<not> os_realloc env s n)" using r(1) by (simp add: g(3))
  then show ?case
  proof
    assume e: "records_of_blocks env s (b # bs) recs = Ret res"
    show ?case
    proof (cases res)
      case (Some recs')
      then obtain cs where cs: "recs' = ?recs @ recs_of s cs" "set cs = (\<Union>b\<in>set bs. fst ` set (F b))"
        "words_of s cs = sum_list (map (\<lambda>b. block_n_words (blk_at s b)) bs)" using r(2) by auto
      have "recs' = recs @ recs_of s ((fs @ us) @ cs)" "set ((fs @ us) @ cs) = (\<Union>b\<in>set (b # bs). fst ` set (F b))"
        "words_of s ((fs @ us) @ cs) = sum_list (map (\<lambda>b. block_n_words (blk_at s b)) (b # bs))"
        using cs block_records(2,3) [OF g(1,2) inv] by (simp_all add: recs_of_def words_of_def Un_assoc [symmetric])
      then show ?thesis unfolding e Some
        by (intro exI [of _ "Some recs'"] conjI refl) (simp only: option.case, intro exI [of _ "(fs @ us) @ cs"] conjI refl)
    qed (use e r(2) in auto)
  qed auto
qed

lemma records_ok:
  assumes "sec_ok env s"
  shows "\<exists>res. egg_secure_records env s = Ret res \<and>
    (case res of None \<Rightarrow> all_blocks s = [] \<or> (\<exists>n. \<not> os_realloc env s n)
     | Some recs \<Rightarrow> sum_list (map block_length recs) = sum_list (map (\<lambda>b. block_n_words (blk_at s b) * 8) (all_blocks s)) \<and>
         {request_length x |x. x \<in> set recs \<and> 0 < request_length x} = (\<lambda>(p, bs). length bs) ` live s)"
proof -
  obtain F where F: "heap_ok env s F" using assms by (auto simp: sec_ok_def)
  show ?thesis
  proof (cases "all_blocks s = []")
    case True
    then show ?thesis by (simp add: egg_secure_records_def)
  next
    case False
    obtain res where r: "egg_secure_records env s = Ret res" "case res of None \<Rightarrow> \<exists>n. \<not> os_realloc env s n
       | Some recs' \<Rightarrow> \<exists>cs. recs' = recs_of s cs \<and> set cs = (\<Union>b\<in>set (all_blocks s). fst ` set (F b)) \<and>
           words_of s cs = sum_list (map (\<lambda>b. block_n_words (blk_at s b)) (all_blocks s))"
      using records_of_blocks_ok [OF F order_refl, of "[]", unfolded append_Nil] unfolding egg_secure_records_def if_not_P [OF False] by blast
    show ?thesis
    proof (cases res)
      case None
      with r show ?thesis by auto
    next
      case (Some recs)
      then obtain cs where cs: "recs = recs_of s cs" "set cs = (\<Union>b\<in>set (all_blocks s). fst ` set (F b))"
        "words_of s cs = sum_list (map (\<lambda>b. block_n_words (blk_at s b)) (all_blocks s))" using r(2) by auto
      have "sum_list (map block_length recs) = words_of s cs * 8"
        by (simp add: cs(1) recs_of_def words_of_def rec_of_cell_def o_def sum_list_mult_const)
      also have "\<dots> = sum_list (map (\<lambda>b. block_n_words (blk_at s b) * 8) (all_blocks s))" by (simp add: cs(3) sum_list_mult_const)
      finally have "sum_list (map block_length recs) = sum_list (map (\<lambda>b. block_n_words (blk_at s b) * 8) (all_blocks s))" .
      moreover have "{request_length x |x. x \<in> set recs \<and> 0 < request_length x} = (\<lambda>(p, bs). length bs) ` live s"
      proof -
        have cells: "cell_at (items s) c = Some k \<Longrightarrow> c \<in> set cs" for c k
        proof -
          assume k: "cell_at (items s) c = Some k"
          then have "c \<in> dom (items s)" by (rule cell_at_dom)
          then obtain b where b: "b \<in> set (all_blocks s)" "c \<in> insert b (fst ` set (F b))" using F by (auto simp: heap_ok_def)
          obtain us fs where "block_good s b (blk_at s b) (F b) us fs" using F b(1) by (rule heap_block)
          then have "c \<noteq> b" using block_rep_get(3) k by (auto simp: block_good_def)
          then show "c \<in> set cs" using b cs(2) by auto
        qed
        have "{request_length x |x. x \<in> set recs \<and> 0 < request_length x} =
            {requested (cell_in s c) |c. c \<in> set cs \<and> 0 < requested (cell_in s c)}"
        proof -
          have "request_length (rec_of_cell (cell_in s c)) = requested (cell_in s c)" for c by (simp add: rec_of_cell_def)
          then show ?thesis unfolding cs(1) recs_of_def set_map by (auto simp: image_iff) metis+
        qed
        also have "\<dots> = {requested k |c k. cell_at (items s) c = Some k \<and> 0 < requested k}"
        proof (intro set_eqI iffI)
          fix n assume "n \<in> {requested (cell_in s c) |c. c \<in> set cs \<and> 0 < requested (cell_in s c)}"
          then obtain c where "n = requested (cell_in s c)" "0 < requested (cell_in s c)" by auto
          then show "n \<in> {requested k |c k. cell_at (items s) c = Some k \<and> 0 < requested k}"
            by (cases "cell_at (items s) c") (auto simp: cell_in_def zero_cell_def)
        next
          fix n assume "n \<in> {requested k |c k. cell_at (items s) c = Some k \<and> 0 < requested k}"
          then obtain c k where c: "n = requested k" "cell_at (items s) c = Some k" "0 < requested k" by auto
          then have "cell_in s c = k" by (simp add: cell_in_def)
          with c cells [OF c(2)] show "n \<in> {requested (cell_in s c) |c. c \<in> set cs \<and> 0 < requested (cell_in s c)}" by auto
        qed
        also have "\<dots> = (\<lambda>(p, bs). length bs) ` live s"
        proof (intro set_eqI iffI)
          fix n assume "n \<in> {requested k |c k. cell_at (items s) c = Some k \<and> 0 < requested k}"
          then obtain c k where c: "n = requested k" "cell_at (items s) c = Some k" "0 < requested k" by auto
          then have "(words k + 8, octets (mem s) (words k + 8) (requested k)) \<in> live s" unfolding live_def by blast
          from imageI [OF this, of "\<lambda>(p, bs). length bs"] c(1) show "n \<in> (\<lambda>(p, bs). length bs) ` live s" by simp
        qed (auto simp: live_def; blast)
        finally show ?thesis .
      qed
      ultimately show ?thesis using r(1) Some by auto
    qed
  qed
qed
section \<open>Clients\<close>

text \<open>
  The calls a client may make in a state: it frees, reallocates, reads and writes only what is
  live.  \<open>perform\<close> is a call, \<open>permitted\<close> its precondition.
\<close>

datatype call =
  Alloc nat bool
| Free nat bool
| Realloc nat nat bool
| Store nat nat "byte list"

fun perform :: "os \<Rightarrow> secmem \<Rightarrow> call \<Rightarrow> (nat \<times> secmem) outcome" where
  "perform env s (Alloc len use) = egg_secure_alloc_full env s None len use"
| "perform env s (Free p use) = obind (egg_secure_free_full env s p use) (\<lambda>s'. Ret (0, s'))"
| "perform env s (Realloc p len use) = egg_secure_realloc_full env s None p len use"
| "perform env s (Store p off ws) = obind (memwrite s (p + off) ws) (\<lambda>s'. Ret (0, s'))"

fun permitted :: "(nat \<times> byte list) set \<Rightarrow> call \<Rightarrow> bool" where
  "permitted H (Alloc len use) \<longleftrightarrow> True"
| "permitted H (Free p use) \<longleftrightarrow> p \<in> fst ` H"
| "permitted H (Realloc p len use) \<longleftrightarrow> p \<in> fst ` H"
| "permitted H (Store p off ws) \<longleftrightarrow> (\<exists>bs. (p, bs) \<in> H \<and> off + length ws \<le> length bs)"

text \<open>
  The abstract heap: a set of allocations with their octets.  A call of it has a result and another
  heap; memory of the fallback is outside of the heap.
\<close>

definition heap_resize :: "(nat \<times> byte list) set \<Rightarrow> nat \<Rightarrow> byte list \<Rightarrow> nat \<Rightarrow> nat \<Rightarrow> bool \<Rightarrow> (nat \<times> byte list) set \<Rightarrow> bool" where
  "heap_resize H p bs len r use H' \<longleftrightarrow>
     (if r = 0 then H' = H
      else H' = H - {(p, bs)} \<and> use \<or>
        (\<exists>bs'. r \<notin> fst ` (H - {(p, bs)}) \<and> resized bs len bs' \<and> H' = insert (r, bs') (H - {(p, bs)})))"

fun heap_call :: "(nat \<times> byte list) set \<Rightarrow> call \<Rightarrow> nat \<Rightarrow> (nat \<times> byte list) set \<Rightarrow> bool" where
  "heap_call H (Alloc len use) r H' \<longleftrightarrow>
     (if r = 0 then H' = H else H' = H \<and> use \<or> r \<notin> fst ` H \<and> H' = insert (r, replicate len 0) H)"
| "heap_call H (Free p use) r H' \<longleftrightarrow> (\<exists>bs. (p, bs) \<in> H \<and> H' = H - {(p, bs)})"
| "heap_call H (Realloc p len use) r H' \<longleftrightarrow> (\<exists>bs. (p, bs) \<in> H \<and>
     (if len = 0 then H' = H - {(p, bs)} else heap_resize H p bs len r use H'))"
| "heap_call H (Store p off ws) r H' \<longleftrightarrow> (\<exists>bs. (p, bs) \<in> H \<and>
     H' = insert (p, take off bs @ ws @ drop (off + length ws) bs) (H - {(p, bs)}))"

lemma placed_heap:
  "placed use s p bs H \<Longrightarrow> p \<noteq> 0 \<and> (live s = H \<and> use \<or> p \<notin> fst ` H \<and> live s = insert (p, bs) H)"
  by (auto simp: placed_def split: if_splits)

lemma placed_resize:
  assumes "resized bs len bs'" and "placed use s q bs' (H - {(p, bs)})"
  shows "heap_resize H p bs len q use (live s)"
proof -
  have q: "q \<noteq> 0" "live s = H - {(p, bs)} \<and> use \<or> q \<notin> fst ` (H - {(p, bs)}) \<and> live s = insert (q, bs') (H - {(p, bs)})"
    using placed_heap [OF assms(2)] by auto
  then show ?thesis using assms(1) unfolding heap_resize_def if_not_P [OF q(1)] by blast
qed

lemma perform_ok:
  assumes ok: "sec_ok env s" and fb: "fallback_ok env" and pm: "permitted (live s) c"
  shows "\<exists>r s'. perform env s c = Ret (r, s') \<and> sec_ok env s' \<and> heap_call (live s) c r (live s')"
proof (cases c)
  case (Alloc len use)
  show ?thesis
  proof (cases "0 < len \<and> len \<le> 0x7FFFFFFF")
    case True
    from alloc_full_cases [OF ok fb, of len None use] True obtain p s' where
      "egg_secure_alloc_full env s None len use = Ret (p, s')" "sec_ok env s'"
      "if p = 0 then live s' = live s else placed use s' p (replicate len 0) (live s)" by auto
    then show ?thesis using placed_heap [of use s' p _ "live s"] by (auto simp: Alloc split: if_splits)
  next
    case False
    then have "egg_secure_alloc_full env s None len use = Ret (0, s)" by (auto simp: egg_secure_alloc_full_def)
    then show ?thesis using ok by (simp add: Alloc)
  qed
next
  case (Free p use)
  then obtain bs where p: "(p, bs) \<in> live s" using pm by auto
  from free_full_live [OF ok p] obtain s' where "egg_secure_free_full env s p use = Ret s'" "sec_ok env s'" "live s' = live s - {(p, bs)}" by blast
  with p show ?thesis by (auto simp: Free)
next
  case (Realloc p len use)
  then obtain bs where p: "(p, bs) \<in> live s" using pm by auto
  have p0: "p \<noteq> 0" using live_secure [OF ok p] by simp
  consider "len = 0" | "0x7FFFFFFF < len" | "0 < len" "len \<le> 0x7FFFFFFF" by linarith
  then show ?thesis
  proof cases
    case 1
    from free_full_live [OF ok p] obtain s' where "egg_secure_free_full env s p use = Ret s'" "sec_ok env s'" "live s' = live s - {(p, bs)}" by blast
    with 1 p p0 show ?thesis by (auto simp: Realloc egg_secure_realloc_full_def)
  next
    case 2
    then have "egg_secure_realloc_full env s None p len use = Ret (0, s)" by (simp add: egg_secure_realloc_full_def)
    with 2 p ok show ?thesis by (auto simp: Realloc heap_resize_def)
  next
    case 3
    from realloc_full_live [OF ok fb p 3] obtain q s' where "egg_secure_realloc_full env s None p len use = Ret (q, s')" "sec_ok env s'"
      "if q = 0 then live s' = live s else \<exists>bs'. resized bs len bs' \<and> placed use s' q bs' (live s - {(p, bs)})" by blast
    moreover have "heap_resize (live s) p bs len q use (live s')"
    proof (cases "q = 0")
      case True
      then show ?thesis using calculation(3) by (simp add: heap_resize_def)
    next
      case False
      then show ?thesis using calculation(3) placed_resize by auto
    qed
    ultimately show ?thesis using p 3 by (auto simp: Realloc)
  qed
next
  case (Store p off ws)
  then obtain bs where p: "(p, bs) \<in> live s" "off + length ws \<le> length bs" using pm by auto
  from live_store [OF ok p] obtain s' where "memwrite s (p + off) ws = Ret s'" "kept env s s'"
    "live s' = insert (p, take off bs @ ws @ drop (off + length ws) bs) (live s - {(p, bs)})" by blast
  with p show ?thesis by (auto simp: Store kept_def)
qed

text \<open>The states a client reaches, from the state before the first call.\<close>

definition empty_secmem :: secmem where
  "empty_secmem = \<lparr>mem = Map.empty, items = Map.empty, pool_data = [], all_blocks = [], os_calls = 0\<rparr>"

inductive reached :: "os \<Rightarrow> secmem \<Rightarrow> bool" for env :: os where
  start: "reached env empty_secmem"
| call: "reached env s \<Longrightarrow> permitted (live s) c \<Longrightarrow> perform env s c = Ret (r, s') \<Longrightarrow> reached env s'"

inductive_cases reached_cases: "reached env s"

lemma empty_ok: "os_ok env \<Longrightarrow> sec_ok env empty_secmem"
  unfolding sec_ok_def heap_ok_def
  by (rule exI [of _ "\<lambda>_. []"]) (simp add: empty_secmem_def pool_inv_def pools_ok_def)

lemma reached_ok:
  assumes "reached env s" and "os_ok env" "fallback_ok env"
  shows "sec_ok env s"
  using assms(1)
proof induction
  case (call s c r s')
  from perform_ok [OF call.IH assms(3) call.hyps(2)] call.hyps(3) show ?case by auto
qed (rule empty_ok [OF assms(2)])

section \<open>A concrete state\<close>

text \<open>
  An operating system with pages of 128 octets, and a state with one block of 16 words: the
  allocation \<^verbatim>\<open>hello\<close>, and one unused cell.
\<close>

definition demo_mmap :: "secmem \<Rightarrow> nat \<Rightarrow> nat option" where
  "demo_mmap s n =
     (let p = 65536 * (os_calls s + 1) in
      if p + n \<le> 2 ^ 64 \<and> list_all (\<lambda>i. mem s i = None) [p..<p + n] \<and>
         list_all (\<lambda>q. p + n \<le> pool_base q \<or> pool_base q + pool_length q \<le> p) (pool_data s)
      then Some p else None)"

definition demo_os :: os where
  "demo_os = \<lparr>os_mmap = demo_mmap, os_mlock = (\<lambda>_ _ _. True), os_fallback = None, os_realloc = (\<lambda>_ _. True),
     getpagesize = 128, force_fallback = False, pool_version = Some (cstr ''1.0'')\<rparr>"

definition demo_used :: Cell where
  "demo_used = \<lparr>words = 8192, n_words = 3, requested = 5, tag = Some (cstr ''?''), next_cell = 4184, prev_cell = 4184\<rparr>"

definition demo_unused :: Cell where
  "demo_unused = \<lparr>words = 8216, n_words = 13, requested = 0, tag = None, next_cell = 4136, prev_cell = 4136\<rparr>"

definition demo_block :: Block where
  "demo_block = \<lparr>block_words = 8192, block_n_words = 16, n_used = 1, used_cells = 4184, unused_cells = 4136\<rparr>"

definition demo_mem :: "nat \<rightharpoonup> byte" where
  "demo_mem = write_octets (write_octets (write_octets (write_octets (write_octets
     (\<lambda>i. if 8192 \<le> i \<and> i < 8320 then Some 0 else None)
     8192 (ptr_octets 8 4184)) 8208 (ptr_octets 8 4184)) 8216 (ptr_octets 8 4136)) 8312 (ptr_octets 8 4136)) 8200 (cstr ''hello'')"

definition demo_state :: secmem where
  "demo_state = \<lparr>mem = demo_mem,
     items = [4232 \<mapsto> ItemBlock demo_block, 4184 \<mapsto> ItemCell demo_used, 4136 \<mapsto> ItemCell demo_unused],
     pool_data = [\<lparr>pool_base = 4096, pool_length = 256, pool_used = 3, pool_unused = [], n_items = 3\<rparr>],
     all_blocks = [4232], os_calls = 2\<rparr>"

lemma demo_os_ok: "os_ok demo_os" "fallback_ok demo_os"
proof -
  have "getpagesize demo_os = 2 ^ 7" by (simp add: demo_os_def)
  then have "\<exists>k. 7 \<le> k \<and> k \<le> 24 \<and> getpagesize demo_os = 2 ^ k" by (intro exI [of _ 7]) simp
  then show "os_ok demo_os"
    by (auto simp: os_ok_def demo_os_def demo_mmap_def Let_def list_all_iff split: if_splits)
  show "fallback_ok demo_os" by (simp add: fallback_ok_def demo_os_def)
qed

lemma demo_guards:
  "ptr_at demo_mem 8192 4184" "ptr_at demo_mem 8208 4184" "ptr_at demo_mem 8216 4136" "ptr_at demo_mem 8312 4136"
  by (simp_all add: ptr_at_def demo_mem_def write_octets_def cstr_def)

lemma demo_ok: "sec_ok demo_os demo_state"
proof -
  let ?L = "[(4184, core demo_used), (4136, core demo_unused)]"
  have pools: "pool_inv demo_os demo_state"
  proof -
    have three: "{..<3} = {0, 1, 2 :: nat}" by auto
    show ?thesis using demo_os_ok
      by (auto simp: pool_inv_def demo_state_def pools_ok_def pool_ok_def pool_busy_def pool_slots_def three)
  qed
  have b: "blk_at demo_state 4232 = demo_block" by (simp add: demo_state_def blk_at_def block_of_def)
  have "block_good demo_state 4232 demo_block ?L [4184] [4136]"
  proof -
    have m: "\<forall>i. in_block demo_block i \<longrightarrow> demo_mem i \<noteq> None"
      by (simp add: in_block_def demo_block_def demo_mem_def write_octets_def)
    have c: "cell_at (items demo_state) 4184 = Some demo_used" "cell_at (items demo_state) 4136 = Some demo_unused"
      by (simp_all add: demo_state_def cell_at_def)
    have t: "tiles demo_mem (items demo_state) 8192 ?L 8320"
      using demo_guards by (simp add: core_at_def c demo_used_def demo_unused_def)
    have r: "ring (items demo_state) 4184 [4184]" "ring (items demo_state) 4136 [4136]"
      by (simp_all add: ring_def c next_at_def prev_at_def demo_used_def demo_unused_def)
    have i: "items demo_state 4232 = Some (ItemBlock demo_block)" "mem demo_state = demo_mem" by (simp_all add: demo_state_def)
    show ?thesis using m t r
      by (simp add: block_good_def block_rep_def i demo_block_def coherent_def cell_good_def demo_used_def demo_unused_def)
  qed
  moreover have "all_blocks demo_state = [4232]" "dom (items demo_state) = {4232, 4184, 4136}"
    by (auto simp: demo_state_def)
  moreover have "paged demo_os demo_block" by (simp add: paged_def demo_os_def demo_block_def)
  ultimately have "heap_ok demo_os demo_state (\<lambda>_. ?L)" using pools by (auto simp: heap_ok_def b)
  then show ?thesis by (auto simp: sec_ok_def)
qed

lemma demo_live: "(8200, cstr ''hello'') \<in> live demo_state"
proof -
  have "cell_at (items demo_state) 4184 = Some demo_used" by (simp add: demo_state_def cell_at_def)
  moreover have "octets (mem demo_state) 8200 5 = cstr ''hello''"
    unfolding demo_state_def demo_mem_def by simp (rule octets_written, simp add: cstr_def)
  ultimately show ?thesis unfolding live_def by (intro CollectI exI [of _ 4184] exI [of _ demo_used]) (simp add: demo_used_def)
qed

subsection \<open>A first allocation\<close>

text \<open>
  The first allocation of a client of this system: the block that is created for it, and what is live
  afterwards.
\<close>

definition first_mem :: "nat \<rightharpoonup> byte" where
  "first_mem = write_octets (write_octets (write_octets Map.empty 131072 (replicate 16384 0))
     131072 (ptr_octets 8 65624)) 147448 (ptr_octets 8 65624)"

definition first_cell :: Cell where
  "first_cell = \<lparr>words = 131072, n_words = 2048, requested = 0, tag = None, next_cell = 65624, prev_cell = 65624\<rparr>"

definition first_block :: Block where
  "first_block = \<lparr>block_words = 131072, block_n_words = 2048, n_used = 0, used_cells = 0, unused_cells = 65624\<rparr>"

definition first_state :: secmem where
  "first_state = \<lparr>mem = first_mem, items = [65624 \<mapsto> ItemCell first_cell, 65672 \<mapsto> ItemBlock first_block],
     pool_data = [\<lparr>pool_base = 65536, pool_length = 256, pool_used = 2, pool_unused = [65576], n_items = 3\<rparr>],
     all_blocks = [65672], os_calls = 2\<rparr>"

lemma first_pages: "round_pages 128 16384 = 16384"
proof -
  have "round_pages (2 ^ 7) 16384 = 16384" by (subst round_pages_eq) simp_all
  then show ?thesis by simp
qed

lemma first_pool_create:
  "pool_create 65536 256 =
     \<lparr>pool_base = 65536, pool_length = 256, pool_used = 0, pool_unused = [65672, 65624, 65576], n_items = 3\<rparr>"
  by (simp add: pool_create_def unused_push_def Let_def upt_rec)

definition pool_state :: "nat \<Rightarrow> nat list \<Rightarrow> (nat \<rightharpoonup> Item) \<Rightarrow> secmem" where
  "pool_state used unused its = \<lparr>mem = Map.empty, items = its,
     pool_data = [\<lparr>pool_base = 65536, pool_length = 256, pool_used = used, pool_unused = unused, n_items = 3\<rparr>],
     all_blocks = [], os_calls = 1\<rparr>"

lemma first_items:
  "pool_alloc demo_os empty_secmem = Ret (65672, pool_state (Suc 0) [65624, 65576] [65672 \<mapsto> Zeroed])"
  "pool_alloc demo_os (pool_state (Suc 0) [65624, 65576] [65672 \<mapsto> Zeroed]) =
     Ret (65624, pool_state 2 [65576] [65672 \<mapsto> Zeroed, 65624 \<mapsto> Zeroed])"
proof -
  have "demo_mmap empty_secmem 256 = Some 65536"
    by (simp add: demo_mmap_def empty_secmem_def list_all_iff)
  then show "pool_alloc demo_os empty_secmem = Ret (65672, pool_state (Suc 0) [65624, 65576] [65672 \<mapsto> Zeroed])"
    by (simp add: pool_alloc_def demo_os_def empty_secmem_def first_pool_create pool_state_def
        unused_peek_def unused_pop_def)
qed (simp add: pool_alloc_def demo_os_def pool_state_def unused_peek_def unused_pop_def)

lemma first_pages_acquired:
  "sec_acquire_pages demo_os (pool_state used unused its) 16384 =
     Ret (131072, 16384, (pool_state used unused its)
       \<lparr>os_calls := 2, mem := write_octets Map.empty 131072 (replicate 16384 0)\<rparr>)"
proof -
  have "demo_mmap (pool_state used unused its) 16384 = Some 131072"
    by (simp add: demo_mmap_def pool_state_def list_all_iff)
  then show ?thesis
    by (simp add: sec_acquire_pages_def demo_os_def first_pages pool_state_def Let_def)
qed

lemma first_mapped:
  "mem s = write_octets Map.empty 131072 (replicate 16384 0) \<Longrightarrow> mapped s 131072 8"
  "mem s = write_octets (write_octets Map.empty 131072 (replicate 16384 0)) 131072 bs \<Longrightarrow> mapped s 147448 8"
  by (auto simp: mapped_def list_all_iff write_octets_def)

lemma first_created: "sec_block_create demo_os empty_secmem 5 = Ret (65672, first_state)"
  by (subst sec_block_create_def, simp add: first_items first_pages_acquired del: fun_upd_apply)
    (simp add: demo_os_def pool_state_def get_block_def block_of_def set_block_def upd_cell_def get_cell_def cell_of_def
    set_cell_def zero_block_def zero_cell_def Let_def sec_write_guards_def store_ptr_def memwrite_def first_mapped
    insert_unused_def sec_insert_cell_ring_def first_state_def first_mem_def first_cell_def first_block_def
    del: replicate.simps ptr_octets.simps)

lemma first_alloc:
  "\<exists>p s'. p \<noteq> 0 \<and> egg_secure_alloc_full demo_os empty_secmem None 5 False = Ret (p, s')"
proof -
  have "created demo_os empty_secmem 5 65672 first_state"
    using sec_block_create_ok [OF empty_ok [OF demo_os_ok(1)], of 5] first_created by simp
  then obtain c k F where F: "heap_ok demo_os first_state F" "F 65672 = [(c, k)]" "requested k = 0" "n_words k = 2048"
    "all_blocks first_state = [65672]"
    by (auto simp: created_def demo_os_def first_pages empty_secmem_def)
  have "65672 \<in> set (all_blocks first_state)" using F(5) by simp
  from heap_block [OF F(1) this] obtain us fs where
    g: "block_good first_state 65672 (blk_at first_state 65672) (F 65672) us fs" by metis
  have inv: "pool_inv demo_os first_state" using F(1) by (simp add: heap_ok_def)
  have "\<not> (\<exists>s1. pool_alloc demo_os first_state = Ret (0, s1))"
    by (simp add: pool_alloc_def demo_os_def first_state_def unused_peek_def unused_pop_def)
  moreover have "sec_size_to_words 5 + 2 \<le> n_words k" using F(4) by (simp add: sec_size_to_words_def)
  ultimately obtain p s' where "sec_alloc demo_os first_state 65672 (cstr ''?'') 5 = Ret (p, s')" "p \<noteq> 0"
    using sec_alloc_ok [OF g inv, of 5 "cstr ''?''"] F(2,3) by fastforce
  then have "egg_secure_alloc_full demo_os empty_secmem None 5 False = Ret (p, s')"
    using first_created by (simp add: egg_secure_alloc_full_def) (simp add: empty_secmem_def)
  then show ?thesis using \<open>p \<noteq> 0\<close> by blast
qed
lemma first_reached:
  "\<exists>p s. reached demo_os s \<and> all_blocks s \<noteq> [] \<and> (p, replicate 5 0) \<in> live s"
proof -
  obtain p s where s: "p \<noteq> 0" "egg_secure_alloc_full demo_os empty_secmem None 5 False = Ret (p, s)"
    using first_alloc by blast
  have "reached demo_os s"
    by (rule reached.call [OF reached.start, where c = "Alloc 5 False" and r = p]) (use s in simp_all)
  moreover have l: "(p, replicate 5 0) \<in> live s" and ok: "sec_ok demo_os s"
    using alloc_full_cases [OF empty_ok [OF demo_os_ok(1)] demo_os_ok(2), of 5 None False] s
    by (auto simp: placed_def split: if_splits)
  moreover have "all_blocks s \<noteq> []" using live_secure [OF ok l] by (auto simp: secure_def)
  ultimately show ?thesis by blast
qed

section \<open>A block without room\<close>

lemma sec_alloc_none:
  assumes good: "block_good s b blk L us fs" and inv: "pool_inv env s" and len: "0 < len"
    and small: "\<forall>(c, k)\<in>set L. requested k = 0 \<longrightarrow> n_words k < sec_size_to_words len + 2"
  shows "sec_alloc env s b tg len = Ret (0, s)"
proof -
  have rep: "block_rep s b blk L us fs" and coh: "coherent L (set us) (set fs)" using good by (auto simp: block_good_def)
  have r: "ring (items s) (unused_cells blk) fs" "set fs \<subseteq> fst ` set L" using rep by (auto simp: block_rep_def)
  have b0: "b \<noteq> 0" using meta.valid_pointer(1) [OF inv, of b] block_rep_get(2) [OF rep] by auto
  note gb = block_rep_get(1) [OF rep]
  show ?thesis
  proof (cases fs)
    case Nil
    then show ?thesis using r(1) b0 len gb by (simp add: sec_alloc_def ring_def)
  next
    case (Cons h t)
    then have h: "unused_cells blk = h" "h \<noteq> 0" "distinct fs" using r(1) by (auto simp: ring_def)
    have "length fs \<le> item_slots s" using meta.slots_distinct [OF inv h(3)] r(2) block_rep_dom [OF rep] by blast
    then have "length t < item_slots s" using Cons by simp
    from find_cell_ok [OF r(1) [unfolded h(1)], of "[]" h t, OF _ this, of "sec_size_to_words len + 2"] Cons obtain f where
      f: "find_cell (item_slots s) s h h (sec_size_to_words len + 2) = Ret f"
      "f = 0 \<or> f \<in> set fs \<and> (\<exists>k. cell_at (items s) f = Some k \<and> sec_size_to_words len + 2 \<le> n_words k)" by auto
    have "\<not> (f \<in> set fs \<and> (\<exists>k. cell_at (items s) f = Some k \<and> sec_size_to_words len + 2 \<le> n_words k))"
    proof
      assume a: "f \<in> set fs \<and> (\<exists>k. cell_at (items s) f = Some k \<and> sec_size_to_words len + 2 \<le> n_words k)"
      then obtain kl where kl: "(f, kl) \<in> set L" using r(2) by auto
      then have "requested kl = 0" using coh a by (auto simp: coherent_def list_all_iff split: if_splits)
      moreover obtain kc where "cell_at (items s) f = Some kc" "core kc = kl" using block_rep_cell(3) [OF rep kl] by auto
      ultimately show False using small kl a core_fields(2) [of kc kl] by fastforce
    qed
    with f(2) have "f = 0" by blast
    then show ?thesis using f(1) h b0 len gb by (simp add: sec_alloc_def Let_def)
  qed
qed

section \<open>Properties\<close>

text \<open>
  C1. \<^verbatim>\<open>egg_secure_alloc_full\<close> on any state that satisfies the invariant returns: either
  \<^verbatim>\<open>NULL\<close>, and the live allocations and their octets are as before (an empty locked block that was
  created for the request may stay); or a pointer into the locked memory that was
  not live, and the live allocations are the ones before, each with its octets, and the new one, all
  zero; or, when the caller allows it, zeroed memory of the fallback outside of the locked memory.
\<close>

theorem egg_secure_alloc_full_ok:
  assumes "sec_ok env s" and "fallback_ok env" and "0 < len" "len \<le> 0x7FFFFFFF"
  shows "\<exists>p s'. egg_secure_alloc_full env s tg len use = Ret (p, s') \<and> sec_ok env s' \<and>
    (if p = 0 then live s' = live s else placed use s' p (replicate len 0) (live s))"
  by (rule alloc_full_cases [OF assms])

theorem egg_secure_alloc_full_ok_witness:
  "\<exists>p s'. egg_secure_alloc_full demo_os demo_state None 32 False = Ret (p, s') \<and> sec_ok demo_os s' \<and>
    (if p = 0 then live s' = live demo_state else placed False s' p (replicate 32 0) (live demo_state))"
  using egg_secure_alloc_full_ok [OF demo_ok demo_os_ok(2), of 32 None False] by simp

text \<open>
  C2. \<^verbatim>\<open>egg_secure_free_full\<close> of a live allocation returns, removes exactly that allocation, and
  afterwards every octet it had is zero or no longer mapped; nothing outside of the locked memory
  changes.
\<close>

theorem egg_secure_free_full_clears:
  assumes "sec_ok env s" and "(p, bs) \<in> live s"
  shows "\<exists>s'. egg_secure_free_full env s p use = Ret s' \<and> sec_ok env s' \<and> live s' = live s - {(p, bs)} \<and>
    (\<forall>i. p \<le> i \<and> i < p + length bs \<longrightarrow> mem s' i = None \<or> mem s' i = Some 0) \<and>
    (\<forall>i. \<not> secure s i \<longrightarrow> mem s' i = mem s i)"
  using free_full_live [OF assms, of use] by blast

theorem egg_secure_free_full_clears_witness:
  "\<exists>s'. egg_secure_free_full demo_os demo_state 8200 False = Ret s' \<and> sec_ok demo_os s' \<and>
    live s' = live demo_state - {(8200, cstr ''hello'')} \<and>
    (\<forall>i. 8200 \<le> i \<and> i < 8200 + length (cstr ''hello'') \<longrightarrow> mem s' i = None \<or> mem s' i = Some 0) \<and>
    (\<forall>i. \<not> secure demo_state i \<longrightarrow> mem s' i = mem demo_state i)"
  by (rule egg_secure_free_full_clears [OF demo_ok demo_live])

text \<open>
  C3. \<^verbatim>\<open>egg_secure_realloc_full\<close> of a live allocation to a length between 1 and
  \<^verbatim>\<open>G_MAXINT32\<close> returns: either \<^verbatim>\<open>NULL\<close>, and the live allocations, the old one with them, and their
  octets are as before (an empty locked block that was created for the request may stay); or a pointer to
  an allocation of that length which starts with the octets of the old one as far as both reach, and
  which replaces it; all other allocations keep their octets.
\<close>

theorem egg_secure_realloc_full_keeps:
  assumes "sec_ok env s" and "fallback_ok env" and "(p, bs) \<in> live s" and "0 < len" "len \<le> 0x7FFFFFFF"
  shows "\<exists>q s'. egg_secure_realloc_full env s tg p len use = Ret (q, s') \<and> sec_ok env s' \<and>
    (if q = 0 then live s' = live s else \<exists>bs'. resized bs len bs' \<and> placed use s' q bs' (live s - {(p, bs)}))"
  by (rule realloc_full_live [OF assms])

theorem egg_secure_realloc_full_keeps_witness:
  "\<exists>q s'. egg_secure_realloc_full demo_os demo_state None 8200 40 False = Ret (q, s') \<and> sec_ok demo_os s' \<and>
    (if q = 0 then live s' = live demo_state
     else \<exists>bs'. resized (cstr ''hello'') 40 bs' \<and> placed False s' q bs' (live demo_state - {(8200, cstr ''hello'')}))"
  using egg_secure_realloc_full_keeps [OF demo_ok demo_os_ok(2) demo_live, of 40 None False] by simp

text \<open>
  C5. In every state a client reaches from the start with calls it is permitted to make,
  \<^verbatim>\<open>egg_secure_validate\<close> finds all blocks, cells, rings and guards consistent; every live
  allocation is in the locked memory, is known to \<^verbatim>\<open>egg_secure_check\<close>, and is the only one at its
  address.
\<close>

theorem reached_state_valid:
  assumes "reached env s" and "os_ok env" "fallback_ok env"
  shows "egg_secure_validate s = Ret () \<and>
    (\<forall>p bs. (p, bs) \<in> live s \<longrightarrow> egg_secure_check s p = Ret True \<and> memread s p (length bs) = Ret bs) \<and>
    (\<forall>p bs bs'. (p, bs) \<in> live s \<longrightarrow> (p, bs') \<in> live s \<longrightarrow> bs = bs')"
proof -
  have ok: "sec_ok env s" by (rule reached_ok [OF assms])
  show ?thesis using validate_ok [OF ok] egg_secure_check_ok [OF ok] live_secure [OF ok] live_read [OF ok] live_functional [OF ok]
    by auto
qed

theorem reached_state_valid_witness:
  "\<exists>p s. reached demo_os s \<and> all_blocks s \<noteq> [] \<and> (p, replicate 5 0) \<in> live s \<and>
     egg_secure_validate s = Ret () \<and> egg_secure_check s p = Ret True \<and> memread s p 5 = Ret (replicate 5 0)"
proof -
  obtain p s where s: "reached demo_os s" "all_blocks s \<noteq> []" "(p, replicate 5 0) \<in> live s"
    using first_reached by blast
  then show ?thesis using reached_state_valid [OF s(1) demo_os_ok] by (intro exI [of _ p] exI [of _ s]) fastforce
qed

text \<open>
  C4. The allocator implements the abstract heap: in every state with the invariant, each permitted
  call returns, keeps the invariant, and its result and the change of the live allocations are ones
  that the abstract heap allows for that call.
\<close>

theorem secure_memory_refines_heap:
  assumes "sec_ok env s" and "fallback_ok env" and "permitted (live s) c"
  shows "\<exists>r s'. perform env s c = Ret (r, s') \<and> sec_ok env s' \<and> heap_call (live s) c r (live s')"
  by (rule perform_ok [OF assms])

theorem secure_memory_refines_heap_witness:
  "\<exists>r s'. perform demo_os demo_state (Store 8200 1 (cstr ''u'')) = Ret (r, s') \<and> sec_ok demo_os s' \<and>
     heap_call (live demo_state) (Store 8200 1 (cstr ''u'')) r (live s')"
proof (rule secure_memory_refines_heap [OF demo_ok demo_os_ok(2)])
  show "permitted (live demo_state) (Store 8200 1 (cstr ''u''))" using demo_live by (auto simp: cstr_def)
qed

text \<open>
  C6. \<^verbatim>\<open>egg_secure_records\<close> never fails its assertion: it returns \<^verbatim>\<open>NULL\<close> only when
  there is no block or \<^verbatim>\<open>realloc\<close> failed, and otherwise records whose block lengths add up to all locked memory and
  whose non-zero request lengths are those of the live allocations.
\<close>

theorem egg_secure_records_complete:
  assumes "sec_ok env s"
  shows "\<exists>res. egg_secure_records env s = Ret res \<and>
    (case res of None \<Rightarrow> all_blocks s = [] \<or> (\<exists>n. \<not> os_realloc env s n)
     | Some recs \<Rightarrow> sum_list (map block_length recs) = sum_list (map (\<lambda>b. block_n_words (blk_at s b) * 8) (all_blocks s)) \<and>
         {request_length x |x. x \<in> set recs \<and> 0 < request_length x} = (\<lambda>(p, bs). length bs) ` live s)"
  by (rule records_ok [OF assms])

theorem egg_secure_records_complete_witness:
  "\<exists>recs. egg_secure_records demo_os demo_state = Ret (Some recs) \<and> sum_list (map block_length recs) = 128"
proof -
  obtain res where r: "egg_secure_records demo_os demo_state = Ret res" "case res of None \<Rightarrow> all_blocks demo_state = [] \<or> (\<exists>n. \<not> os_realloc demo_os demo_state n)
     | Some recs \<Rightarrow> sum_list (map block_length recs) = sum_list (map (\<lambda>b. block_n_words (blk_at demo_state b) * 8) (all_blocks demo_state)) \<and>
         {request_length x |x. x \<in> set recs \<and> 0 < request_length x} = (\<lambda>(p, bs). length bs) ` live demo_state"
    using egg_secure_records_complete [OF demo_ok] by blast
  have "blk_at demo_state 4232 = demo_block" "all_blocks demo_state = [4232]"
    by (simp_all add: demo_state_def blk_at_def block_of_def)
  moreover from this obtain recs where "res = Some recs" using r(2) by (cases res) (auto simp: demo_os_def)
  ultimately show ?thesis using r by (simp add: demo_block_def)
qed

text \<open>
  A length that fills the pages of a block up to less than the two guard words can never be given
  out from a fresh block: \<^verbatim>\<open>egg_secure_alloc_full\<close> returns \<^verbatim>\<open>NULL\<close> without using the fallback it
  was not allowed to use, and the block it created for the request, locked and empty, stays.
\<close>

theorem egg_secure_alloc_full_no_room:
  assumes ok: "sec_ok env s" and nob: "all_blocks s = []" and len: "0 < len" "len \<le> 0x7FFFFFFF"
    and room: "round_pages (getpagesize env) (max len 16384) < (sec_size_to_words len + 2) * 8"
  shows "\<exists>b s'. sec_block_create env s len = Ret (b, s') \<and> egg_secure_alloc_full env s tg len False = Ret (0, s') \<and>
    live s' = live s \<and> (b \<noteq> 0 \<longrightarrow> all_blocks s' = [b])"
proof -
  obtain b s' where c: "sec_block_create env s len = Ret (b, s')" "created env s len b s'"
    using sec_block_create_ok [OF ok, of len] len by auto
  have none: "sec_alloc env s' b t len = Ret (0, s')" if b: "b \<noteq> 0" for t
  proof -
    obtain cl k F where h: "heap_ok env s' F" "F b = [(cl, k)]" "n_words k = round_pages (getpagesize env) (max len 16384) div 8"
      "b \<in> set (all_blocks s')" using c(2) b by (auto simp: created_def)
    obtain us fs where g: "block_good s' b (blk_at s' b) (F b) us fs" using h(1,4) by (rule heap_block)
    have inv: "pool_inv env s'" using h(1) by (simp add: heap_ok_def)
    show ?thesis by (rule sec_alloc_none [OF g inv len(1)]) (use h(2,3) room in auto)
  qed
  have "egg_secure_alloc_full env s tg len False = Ret (0, s')"
    using len nob c(1) none by (simp add: egg_secure_alloc_full_def call_fallback_def Let_def split: option.splits)
  with c nob show ?thesis by (auto simp: created_def)
qed

theorem egg_secure_alloc_full_no_room_witness:
  "\<exists>b s'. sec_block_create demo_os empty_secmem 16384 = Ret (b, s') \<and>
     egg_secure_alloc_full demo_os empty_secmem None 16384 False = Ret (0, s') \<and>
     live s' = live empty_secmem \<and> (b \<noteq> 0 \<longrightarrow> all_blocks s' = [b])"
proof (rule egg_secure_alloc_full_no_room [OF empty_ok [OF demo_os_ok(1)]])
  have "round_pages (2 ^ 7) 16384 = 16384" by (subst round_pages_eq) simp_all
  then show "round_pages (getpagesize demo_os) (max 16384 16384) < (sec_size_to_words 16384 + 2) * 8"
    by (simp add: demo_os_def sec_size_to_words_def)
qed (simp_all add: empty_secmem_def)

end
