(* ===== verification/Gcr_Certificate_Chain.thy ===== *)
theory Gcr_Certificate_Chain
  imports Egg_Prelude "HOL-Library.Multiset"
begin

text \<open>
  Certificate chains: \<^verbatim>\<open>src/gcr/gcr-certificate-chain.c\<close>, with the certificate operations it
  is built on: \<^verbatim>\<open>gcr_certificate_get_der_data\<close> and \<^verbatim>\<open>gcr_certificate_is_issuer\<close> of
  \<^verbatim>\<open>gcr-certificate.c\<close>, \<^verbatim>\<open>gcr_simple_certificate_new\<close> of
  \<^verbatim>\<open>gcr-simple-certificate.c\<close>.

  A certificate is an object: its identity, its class (the chain tells simple and PKCS#11
  certificates from all others), the DER data its class hands out (\<open>None\<close> for \<^verbatim>\<open>NULL\<close>) and
  the qdata \<^verbatim>\<open>Q_ORIGINAL_CERT\<close> that \<^verbatim>\<open>prep_chain_private_thread_safe\<close> attaches to its
  copies. Reference counts and the debug output are not modelled.

  What the chain asks the outside is the record \<open>chain_env\<close>: the decoding of DER data into the
  raw subject and issuer names, and the answers of the PKCS#11 modules, each of them a
  \<^verbatim>\<open>GError\<close> (\<open>Inl\<close>) or a result (\<open>Inr\<close>). They stay the same during one build.

  The build loop follows issuers it looks up as long as there are some, so it need not end:
  \<open>build_loop\<close> is a partial function and \<open>None\<close> is a loop that never returns.
\<close>

section \<open>Certificates\<close>

type_synonym gerror = nat

datatype GcrCertificateType = SIMPLE_CERTIFICATE | PKCS11_CERTIFICATE | OTHER_CERTIFICATE

datatype GcrCertificate =
  Certificate (cert_id: nat) (cert_type: GcrCertificateType) (cert_der: "byte list option")
    (cert_original: "GcrCertificate option")

text \<open>
  \<open>decode_names\<close> is the decoding of DER data: \<open>None\<close> when it is no X.509 certificate, else
  its raw subject and issuer elements. The three others search the tokens: for a pinned
  certificate assertion (DER data, purpose, peer), for an anchor assertion (DER data, purpose), and
  for a certificate with the issuer name of the given DER data as its subject (handle and
  \<^verbatim>\<open>CKA_VALUE\<close>).
\<close>

record chain_env =
  decode_names :: "byte list \<Rightarrow> (byte list option \<times> byte list option) option"
  find_pinned :: "byte list option \<Rightarrow> byte list \<Rightarrow> byte list \<Rightarrow> gerror + bool"
  find_anchored :: "byte list option \<Rightarrow> byte list \<Rightarrow> gerror + bool"
  find_issuer :: "byte list option \<Rightarrow> gerror + (nat \<times> byte list) option"

definition gcr_certificate_get_der_data :: "GcrCertificate \<Rightarrow> byte list option" where
  "gcr_certificate_get_der_data self = cert_der self"

definition certificate_info_load ::
  "chain_env \<Rightarrow> GcrCertificate \<Rightarrow> (byte list option \<times> byte list option) option" where
  "certificate_info_load env cert =
     (case gcr_certificate_get_der_data cert of
        None \<Rightarrow> None
      | Some der \<Rightarrow> decode_names env der)"

definition gcr_certificate_get_issuer_const ::
  "chain_env \<Rightarrow> GcrCertificate \<Rightarrow> byte list option" where
  "gcr_certificate_get_issuer_const env self =
     (case certificate_info_load env self of None \<Rightarrow> None | Some (subject, issuer) \<Rightarrow> issuer)"

definition gcr_certificate_get_subject_const ::
  "chain_env \<Rightarrow> GcrCertificate \<Rightarrow> byte list option" where
  "gcr_certificate_get_subject_const env self =
     (case certificate_info_load env self of None \<Rightarrow> None | Some (subject, issuer) \<Rightarrow> subject)"

definition gcr_certificate_is_issuer ::
  "chain_env \<Rightarrow> GcrCertificate \<Rightarrow> GcrCertificate \<Rightarrow> bool" where
  "gcr_certificate_is_issuer env self issuer =
     (case gcr_certificate_get_subject_const env issuer of
        None \<Rightarrow> False
      | Some subject_dn \<Rightarrow>
          (case gcr_certificate_get_issuer_const env self of
             None \<Rightarrow> False
           | Some issuer_dn \<Rightarrow> subject_dn = issuer_dn))"

text \<open>\<^verbatim>\<open>gcr_simple_certificate_new\<close>: \<open>None\<close> for an empty area, which it refuses.\<close>

definition gcr_simple_certificate_new ::
  "nat \<Rightarrow> byte list \<Rightarrow> GcrCertificate option" where
  "gcr_simple_certificate_new i der =
     (if der = [] then None else Some (Certificate i SIMPLE_CERTIFICATE (Some der) None))"

definition gcr_trust_is_certificate_pinned ::
  "chain_env \<Rightarrow> GcrCertificate \<Rightarrow> byte list \<Rightarrow> byte list \<Rightarrow> gerror + bool" where
  "gcr_trust_is_certificate_pinned env certificate purp per =
     find_pinned env (gcr_certificate_get_der_data certificate) purp per"

definition gcr_trust_is_certificate_anchored ::
  "chain_env \<Rightarrow> GcrCertificate \<Rightarrow> byte list \<Rightarrow> gerror + bool" where
  "gcr_trust_is_certificate_anchored env certificate purp =
     find_anchored env (gcr_certificate_get_der_data certificate) purp"

definition gcr_pkcs11_certificate_lookup_issuer ::
  "chain_env \<Rightarrow> GcrCertificate \<Rightarrow> gerror + GcrCertificate option" where
  "gcr_pkcs11_certificate_lookup_issuer env certificate =
     (case find_issuer env (gcr_certificate_get_der_data certificate) of
        Inl e \<Rightarrow> Inl e
      | Inr None \<Rightarrow> Inr None
      | Inr (Some (handle, der)) \<Rightarrow>
          Inr (Some (Certificate handle PKCS11_CERTIFICATE (Some der) None)))"

section \<open>The chain\<close>

datatype GcrCertificateChainStatus =
    CHAIN_UNKNOWN | CHAIN_INCOMPLETE | CHAIN_DISTRUSTED | CHAIN_SELFSIGNED | CHAIN_PINNED
  | CHAIN_ANCHORED

definition CHAIN_NO_LOOKUPS :: "32 word" where
  "CHAIN_NO_LOOKUPS = 1"

record chain_private =
  certificates :: "GcrCertificate list"
  status :: GcrCertificateChainStatus
  purpose :: "byte list option"
  peer :: "byte list option"
  flags :: "32 word"

definition new_chain_private :: chain_private where
  "new_chain_private =
     \<lparr>certificates = [], status = CHAIN_UNKNOWN, purpose = None, peer = None, flags = 0\<rparr>"

definition prep_chain_private ::
  "chain_private \<Rightarrow> byte list \<Rightarrow> byte list option \<Rightarrow> 32 word \<Rightarrow> chain_private" where
  "prep_chain_private orig purp per flgs =
     new_chain_private
       \<lparr>certificates := certificates new_chain_private @ certificates orig, status := status orig,
        purpose := Some purp, peer := per, flags := flgs\<rparr>"

text \<open>
  The certificates the other thread works on. A class that hands out no DER data stops the function
  with \<^verbatim>\<open>NULL\<close> (\<open>Ret None\<close>). Empty DER data is refused by
  \<^verbatim>\<open>gcr_simple_certificate_new\<close>, and the \<^verbatim>\<open>NULL\<close> it returns is then used as an object:
  \<open>Undef\<close>. The number \<open>i\<close> stands for the new object of the \<open>i\<close>-th certificate, \<open>base\<close> being
  what the allocator gives out next.
\<close>

fun thread_safe_loop ::
  "nat \<Rightarrow> GcrCertificate list \<Rightarrow> GcrCertificate list option outcome" where
  "thread_safe_loop i [] = Ret (Some [])"
| "thread_safe_loop i (certificate # rest) =
     (if cert_type certificate = SIMPLE_CERTIFICATE \<or> cert_type certificate = PKCS11_CERTIFICATE
      then obind (thread_safe_loop (Suc i) rest) (\<lambda>r. Ret (map_option ((#) certificate) r))
      else
        case gcr_certificate_get_der_data certificate of
          None \<Rightarrow> Ret None
        | Some der \<Rightarrow>
            (case gcr_simple_certificate_new i der of
               None \<Rightarrow> Undef
             | Some (Certificate k t d q) \<Rightarrow>
                 obind (thread_safe_loop (Suc i) rest)
                   (\<lambda>r. Ret (map_option ((#) (Certificate k t d (Some certificate))) r))))"

definition prep_chain_private_thread_safe ::
  "nat \<Rightarrow> chain_private \<Rightarrow> byte list \<Rightarrow> byte list option \<Rightarrow> 32 word \<Rightarrow>
     chain_private option outcome" where
  "prep_chain_private_thread_safe base orig purp per flgs =
     (let pv = prep_chain_private orig purp per flgs in
      obind (thread_safe_loop base (certificates pv))
        (\<lambda>r. Ret (map_option (\<lambda>cs. pv\<lparr>certificates := cs\<rparr>) r)))"

definition replace_original :: "GcrCertificate \<Rightarrow> GcrCertificate" where
  "replace_original certificate =
     (case cert_original certificate of Some orig \<Rightarrow> orig | None \<Rightarrow> certificate)"

definition cleanup_chain_private :: "chain_private \<Rightarrow> chain_private" where
  "cleanup_chain_private pv = pv\<lparr>certificates := map replace_original (certificates pv)\<rparr>"

subsection \<open>Building\<close>

text \<open>\<^verbatim>\<open>g_ptr_array_remove_index_fast\<close>: the last element takes the place of the removed one.\<close>

definition remove_index_fast :: "'a list \<Rightarrow> nat \<Rightarrow> 'a list" where
  "remove_index_fast xs i = butlast (xs[i := last xs])"

fun pop_index :: "chain_env \<Rightarrow> GcrCertificate option \<Rightarrow> GcrCertificate list \<Rightarrow> nat option" where
  "pop_index env issued [] = None"
| "pop_index env issued (certificate # rest) =
     (if (case issued of None \<Rightarrow> True | Some c \<Rightarrow> gcr_certificate_is_issuer env c certificate)
      then Some 0 else map_option Suc (pop_index env issued rest))"

definition pop_certificate ::
  "chain_env \<Rightarrow> GcrCertificate list \<Rightarrow> GcrCertificate option \<Rightarrow>
     GcrCertificate option \<times> GcrCertificate list" where
  "pop_certificate env certs issued =
     (case pop_index env issued certs of
        None \<Rightarrow> (None, certs)
      | Some i \<Rightarrow> (Some (certs ! i), remove_index_fast certs i))"

definition lookups_of :: "chain_private \<Rightarrow> bool" where
  "lookups_of pv \<longleftrightarrow> \<not> (flags pv AND CHAIN_NO_LOOKUPS = CHAIN_NO_LOOKUPS)"

text \<open>The next certificate of the chain and what is left of the given ones.\<close>

definition next_certificate ::
  "chain_env \<Rightarrow> bool \<Rightarrow> GcrCertificate list \<Rightarrow> GcrCertificate \<Rightarrow>
     gerror + (GcrCertificate option \<times> GcrCertificate list)" where
  "next_certificate env lookups input issued =
     (case pop_certificate env input (Some issued) of
        (Some certificate, input') \<Rightarrow> Inr (Some certificate, input')
      | (None, input') \<Rightarrow>
          if lookups
          then (case gcr_pkcs11_certificate_lookup_issuer env issued of
                  Inl e \<Rightarrow> Inl e
                | Inr found \<Rightarrow> Inr (found, input'))
          else Inr (None, input'))"

text \<open>
  The body of the loop: \<open>Inl\<close> of what the function returns, or \<open>Inr\<close> of the chain, the
  certificates left and the certificate of the next round.
\<close>

definition build_body ::
  "chain_env \<Rightarrow> chain_private \<Rightarrow> GcrCertificate list \<Rightarrow> GcrCertificate \<Rightarrow>
     (gerror + chain_private) + (chain_private \<times> GcrCertificate list \<times> GcrCertificate)" where
  "build_body env pv input issued =
     (if gcr_certificate_is_issuer env issued issued
      then Inl (Inr (pv\<lparr>status := CHAIN_SELFSIGNED\<rparr>))
      else
        case next_certificate env (lookups_of pv) input issued of
          Inl e \<Rightarrow> Inl (Inl e)
        | Inr (None, _) \<Rightarrow> Inl (Inr (pv\<lparr>status := CHAIN_INCOMPLETE\<rparr>))
        | Inr (Some certificate, input') \<Rightarrow>
            (let pv' = pv\<lparr>certificates := certificates pv @ [certificate]\<rparr> in
             if lookups_of pv
             then (case gcr_trust_is_certificate_anchored env certificate (the (purpose pv)) of
                     Inl e \<Rightarrow> Inl (Inl e)
                   | Inr ret \<Rightarrow>
                       if ret then Inl (Inr (pv'\<lparr>status := CHAIN_ANCHORED\<rparr>))
                       else Inr (pv', input', certificate))
             else Inr (pv', input', certificate)))"

partial_function (option) build_loop ::
  "chain_env \<Rightarrow> chain_private \<Rightarrow> GcrCertificate list \<Rightarrow> GcrCertificate \<Rightarrow>
     (gerror + chain_private) option" where
  "build_loop env pv input certificate =
     (if status pv = CHAIN_UNKNOWN
      then (case build_body env pv input certificate of
              Inl r \<Rightarrow> Some r
            | Inr (pv', input', certificate') \<Rightarrow> build_loop env pv' input' certificate')
      else Some (Inr pv))"

definition perform_build_chain ::
  "chain_env \<Rightarrow> chain_private \<Rightarrow> (gerror + chain_private) option" where
  "perform_build_chain env pv0 =
     (let pv = pv0\<lparr>status := CHAIN_UNKNOWN\<rparr> in
      case pop_certificate env (certificates pv) None of
        (None, _) \<Rightarrow> Some (Inr pv)
      | (Some certificate, input) \<Rightarrow>
          (let pv' = pv\<lparr>certificates := [certificate]\<rparr> in
           case (if lookups_of pv
                 then (case peer pv of
                         None \<Rightarrow> Inr False
                       | Some p \<Rightarrow>
                           gcr_trust_is_certificate_pinned env certificate (the (purpose pv)) p)
                 else Inr False) of
             Inl e \<Rightarrow> Some (Inl e)
           | Inr ret \<Rightarrow>
               if ret then Some (Inr (pv'\<lparr>status := CHAIN_PINNED\<rparr>))
               else build_loop env pv' input certificate))"

text \<open>\<^verbatim>\<open>thread_build_chain\<close>: what the task returns, after \<^verbatim>\<open>g_assert (pv)\<close>.\<close>

definition thread_build_chain ::
  "chain_env \<Rightarrow> chain_private option \<Rightarrow> (gerror + chain_private) option outcome" where
  "thread_build_chain env data =
     (case data of None \<Rightarrow> Abort | Some pv \<Rightarrow> Ret (perform_build_chain env pv))"

subsection \<open>The object\<close>

record GcrCertificateChain =
  pv :: chain_private
  notified :: "string list"

definition gcr_certificate_chain_new :: GcrCertificateChain where
  "gcr_certificate_chain_new = \<lparr>pv = new_chain_private, notified = []\<rparr>"

definition g_object_notify :: "string \<Rightarrow> GcrCertificateChain \<Rightarrow> GcrCertificateChain" where
  "g_object_notify prop self = self\<lparr>notified := notified self @ [prop]\<rparr>"

definition gcr_certificate_chain_add ::
  "GcrCertificateChain \<Rightarrow> GcrCertificate \<Rightarrow> GcrCertificateChain" where
  "gcr_certificate_chain_add self certificate =
     (let p = (pv self)\<lparr>certificates := certificates (pv self) @ [certificate]\<rparr> in
      g_object_notify ''length'' (g_object_notify ''status''
        (self\<lparr>pv := p\<lparr>status := CHAIN_UNKNOWN\<rparr>\<rparr>)))"

definition gcr_certificate_chain_dispose :: "GcrCertificateChain \<Rightarrow> GcrCertificateChain" where
  "gcr_certificate_chain_dispose self =
     self\<lparr>pv := (pv self)\<lparr>certificates := [], status := CHAIN_UNKNOWN\<rparr>\<rparr>"

definition gcr_certificate_chain_get_status ::
  "GcrCertificateChain \<Rightarrow> GcrCertificateChainStatus" where
  "gcr_certificate_chain_get_status self = status (pv self)"

definition gcr_certificate_chain_get_anchor ::
  "GcrCertificateChain \<Rightarrow> GcrCertificate option outcome" where
  "gcr_certificate_chain_get_anchor self =
     (if status (pv self) \<noteq> CHAIN_ANCHORED then Ret None
      else g_assert (0 < length (certificates (pv self)))
             (Ret (Some (certificates (pv self) ! (length (certificates (pv self)) - 1)))))"

definition gcr_certificate_chain_get_endpoint ::
  "GcrCertificateChain \<Rightarrow> GcrCertificate option" where
  "gcr_certificate_chain_get_endpoint self =
     (if certificates (pv self) = [] then None else Some (certificates (pv self) ! 0))"

definition gcr_certificate_chain_get_length :: "GcrCertificateChain \<Rightarrow> nat" where
  "gcr_certificate_chain_get_length self = length (certificates (pv self))"

definition gcr_certificate_chain_get_certificate ::
  "GcrCertificateChain \<Rightarrow> nat \<Rightarrow> GcrCertificate option" where
  "gcr_certificate_chain_get_certificate self index =
     (if index < length (certificates (pv self)) then Some (certificates (pv self) ! index)
      else None)"

text \<open>What a successful build leaves in the object.\<close>

definition take_built :: "GcrCertificateChain \<Rightarrow> chain_private \<Rightarrow> GcrCertificateChain" where
  "take_built self built =
     g_object_notify ''length'' (g_object_notify ''status''
       (self\<lparr>pv := cleanup_chain_private built\<rparr>))"

definition gcr_certificate_chain_build ::
  "chain_env \<Rightarrow> GcrCertificateChain \<Rightarrow> byte list \<Rightarrow> byte list option \<Rightarrow> 32 word \<Rightarrow>
     (gerror option \<times> GcrCertificateChain) option" where
  "gcr_certificate_chain_build env self purp per flgs =
     map_option (\<lambda>r. case r of Inl e \<Rightarrow> (Some e, self) | Inr built \<Rightarrow> (None, take_built self built))
       (perform_build_chain env (prep_chain_private (pv self) purp per flgs))"

definition gcr_certificate_chain_build_async ::
  "nat \<Rightarrow> GcrCertificateChain \<Rightarrow> byte list \<Rightarrow> byte list option \<Rightarrow> 32 word \<Rightarrow>
     chain_private option outcome" where
  "gcr_certificate_chain_build_async base self purp per flgs =
     prep_chain_private_thread_safe base (pv self) purp per flgs"

definition gcr_certificate_chain_build_finish ::
  "GcrCertificateChain \<Rightarrow> gerror + chain_private \<Rightarrow> gerror option \<times> GcrCertificateChain" where
  "gcr_certificate_chain_build_finish self result =
     (case result of Inl e \<Rightarrow> (Some e, self) | Inr built \<Rightarrow> (None, take_built self built))"

section \<open>Certificates and their names\<close>

text \<open>A certificate the loop ends at because it issued itself.\<close>

abbreviation self_issued :: "chain_env \<Rightarrow> GcrCertificate \<Rightarrow> bool" where
  "self_issued env c \<equiv> gcr_certificate_is_issuer env c c"

abbreviation anchored :: "chain_env \<Rightarrow> chain_private \<Rightarrow> GcrCertificate \<Rightarrow> bool" where
  "anchored env p c \<equiv> gcr_trust_is_certificate_anchored env c (the (purpose p)) = Inr True"

text \<open>
  The certificate \<open>d\<close> may follow \<open>c\<close>: its subject is the issuer of \<open>c\<close>, or the tokens
  answered \<open>d\<close> when asked for the issuer of \<open>c\<close>.
\<close>

definition follows :: "chain_env \<Rightarrow> GcrCertificate \<Rightarrow> GcrCertificate \<Rightarrow> bool" where
  "follows env c d \<longleftrightarrow>
     gcr_certificate_is_issuer env c d \<or>
     gcr_pkcs11_certificate_lookup_issuer env c = Inr (Some d)"

fun linked :: "chain_env \<Rightarrow> GcrCertificate list \<Rightarrow> bool" where
  "linked env (c # d # cs) \<longleftrightarrow> follows env c d \<and> linked env (d # cs)"
| "linked env _ \<longleftrightarrow> True"

lemma linked_snoc: "linked env (cs @ [c]) \<Longrightarrow> follows env c d \<Longrightarrow> linked env (cs @ [c, d])"
  by (induction cs rule: induct_list012) simp_all

text \<open>The certificate operations see the DER data of a certificate only.\<close>

lemma names_der:
  "cert_der c = cert_der c' \<Longrightarrow>
     gcr_certificate_get_subject_const env c = gcr_certificate_get_subject_const env c'"
  "cert_der c = cert_der c' \<Longrightarrow>
     gcr_certificate_get_issuer_const env c = gcr_certificate_get_issuer_const env c'"
  by (simp_all add: gcr_certificate_get_subject_const_def gcr_certificate_get_issuer_const_def
      certificate_info_load_def gcr_certificate_get_der_data_def)

lemma is_issuer_der:
  "cert_der c = cert_der c' \<Longrightarrow> cert_der d = cert_der d' \<Longrightarrow>
     gcr_certificate_is_issuer env c d = gcr_certificate_is_issuer env c' d'"
  unfolding gcr_certificate_is_issuer_def
  using names_der(1) [of d d' env] names_der(2) [of c c' env] by (simp split: option.split)

lemma trust_der:
  "cert_der c = cert_der c' \<Longrightarrow>
     gcr_trust_is_certificate_anchored env c q = gcr_trust_is_certificate_anchored env c' q"
  "cert_der c = cert_der c' \<Longrightarrow>
     gcr_trust_is_certificate_pinned env c q r = gcr_trust_is_certificate_pinned env c' q r"
  "cert_der c = cert_der c' \<Longrightarrow>
     gcr_pkcs11_certificate_lookup_issuer env c = gcr_pkcs11_certificate_lookup_issuer env c'"
  by (simp_all add: gcr_trust_is_certificate_anchored_def gcr_trust_is_certificate_pinned_def
      gcr_pkcs11_certificate_lookup_issuer_def gcr_certificate_get_der_data_def)

lemma lookup_issuer_original:
  "gcr_pkcs11_certificate_lookup_issuer env c = Inr (Some d) \<Longrightarrow> cert_original d = None"
  by (auto simp: gcr_pkcs11_certificate_lookup_issuer_def split: sum.splits option.splits)

section \<open>Taking certificates\<close>

lemma mset_remove_index_fast:
  assumes "i < length xs"
  shows "mset xs = add_mset (xs ! i) (mset (remove_index_fast xs i))"
proof -
  obtain ys z where xs: "xs = ys @ [z]"
    using assms by (cases xs rule: rev_cases) auto
  show ?thesis
  proof (cases "i < length ys")
    case True
    then show ?thesis
      by (simp add: xs remove_index_fast_def list_update_append butlast_append nth_append
          mset_update)
  next
    case False
    then have "i = length ys" using assms xs by simp
    then show ?thesis by (simp add: xs remove_index_fast_def)
  qed
qed

lemma length_remove_index_fast [simp]: "length (remove_index_fast xs i) = length xs - 1"
  by (simp add: remove_index_fast_def)

lemma remove_index_fast_map [simp]:
  "i < length xs \<Longrightarrow> remove_index_fast (map f xs) i = map f (remove_index_fast xs i)"
  by (cases xs rule: rev_cases) (simp_all add: remove_index_fast_def map_butlast map_update)

lemma pop_index_Some:
  "pop_index env issued cs = Some i \<Longrightarrow>
     i < length cs \<and>
     (case issued of None \<Rightarrow> i = 0 | Some c \<Rightarrow> gcr_certificate_is_issuer env c (cs ! i))"
  by (induction cs arbitrary: i) (auto split: if_splits option.splits)

lemma pop_index_None:
  "pop_index env issued cs = None \<longleftrightarrow>
     (case issued of
        None \<Rightarrow> cs = []
      | Some c \<Rightarrow> (\<forall>d \<in> set cs. \<not> gcr_certificate_is_issuer env c d))"
  by (induction cs) (auto split: option.splits)

lemma pop_certificate_Some:
  assumes "pop_certificate env cs (Some c) = (Some d, cs')"
  shows "gcr_certificate_is_issuer env c d" and "mset cs = add_mset d (mset cs')"
    and "length cs' < length cs"
proof -
  obtain i where i: "pop_index env (Some c) cs = Some i" and d: "d = cs ! i"
    and cs': "cs' = remove_index_fast cs i"
    using assms by (auto simp: pop_certificate_def split: option.splits)
  note p = pop_index_Some [OF i]
  show "gcr_certificate_is_issuer env c d" using p d by simp
  show "mset cs = add_mset d (mset cs')" unfolding d cs' by (rule mset_remove_index_fast) (use p in simp)
  show "length cs' < length cs" using p cs' by auto
qed

lemma pop_certificate_None:
  "pop_certificate env cs issued = (None, cs') \<Longrightarrow> pop_index env issued cs = None \<and> cs' = cs"
  by (auto simp: pop_certificate_def split: option.splits)

lemma pop_certificate_first:
  "pop_certificate env [] None = (None, [])"
  "pop_certificate env (c # cs) None = (Some c, remove_index_fast (c # cs) 0)"
  by (simp_all add: pop_certificate_def)

text \<open>What the next certificate of a chain can be.\<close>

lemma next_certificate_Some:
  assumes "next_certificate env lookups input c = Inr (Some d, input')"
  obtains (given) "gcr_certificate_is_issuer env c d" "mset input = add_mset d (mset input')"
      "length input' < length input"
  | (looked_up) "lookups" "gcr_pkcs11_certificate_lookup_issuer env c = Inr (Some d)"
      "input' = input" "\<forall>x \<in> set input. \<not> gcr_certificate_is_issuer env c x"
proof (cases "pop_certificate env input (Some c)")
  case (Pair r rest)
  show ?thesis
  proof (cases r)
    case None
    with Pair have p: "pop_index env (Some c) input = None" "rest = input"
      using pop_certificate_None [of env input "Some c" rest] by auto
    show ?thesis
      using assms looked_up Pair None p
      by (auto simp: next_certificate_def pop_index_None split: if_splits sum.splits)
  next
    case (Some e)
    then show ?thesis
      using assms Pair given pop_certificate_Some [of env input c e rest]
      by (auto simp: next_certificate_def)
  qed
qed

lemma next_certificate_follows:
  "next_certificate env lookups input c = Inr (Some d, input') \<Longrightarrow> follows env c d"
  by (erule next_certificate_Some) (simp_all add: follows_def)

section \<open>The build loop\<close>

text \<open>
  Induction over the rounds of a loop that returns: the case of a chain that is not \<open>UNKNOWN\<close>,
  of a body that returns and of one that goes on.
\<close>

lemma build_loop_induct [consumes 1, case_names built return round]:
  assumes ret: "build_loop env p input c = Some r"
    and built: "\<And>p input c. status p \<noteq> CHAIN_UNKNOWN \<Longrightarrow> P p input c (Inr p)"
    and return: "\<And>p input c r. status p = CHAIN_UNKNOWN \<Longrightarrow> build_body env p input c = Inl r \<Longrightarrow>
                   P p input c r"
    and round: "\<And>p input c p' input' c' r. status p = CHAIN_UNKNOWN \<Longrightarrow>
                  build_body env p input c = Inr (p', input', c') \<Longrightarrow>
                  P p' input' c' r \<Longrightarrow> P p input c r"
  shows "P p input c r"
proof -
  have "env = env \<longrightarrow> P p input c r"
  proof (rule build_loop.raw_induct [where P = "\<lambda>e p input c r. e = env \<longrightarrow> P p input c r",
        OF _ ret], intro impI)
    fix f e p input c r
    assume IH: "\<And>e p input c r. f e p input c = Some r \<Longrightarrow> e = env \<longrightarrow> P p input c r"
      and eq: "(if status p = CHAIN_UNKNOWN
         then (case build_body e p input c of
                 Inl r \<Rightarrow> Some r
               | Inr (pv', input', certificate') \<Rightarrow> f e pv' input' certificate')
         else Some (Inr p)) = Some r" and e: "e = env"
    show "P p input c r"
    proof (cases "status p = CHAIN_UNKNOWN")
      case False
      with eq built show ?thesis by auto
    next
      case True
      with eq e return round IH show ?thesis
        by (cases "build_body env p input c") auto
    qed
  qed
  then show ?thesis by simp
qed

text \<open>What a round does that goes on, and how the loop ends.\<close>

lemma build_body_round:
  assumes "build_body env p input c = Inr (p', input', c')"
  shows "p' = p\<lparr>certificates := certificates p @ [c']\<rparr>" and "\<not> self_issued env c"
    and "next_certificate env (lookups_of p) input c = Inr (Some c', input')"
    and "lookups_of p \<Longrightarrow> gcr_trust_is_certificate_anchored env c' (the (purpose p)) = Inr False"
  using assms
  by (auto simp: build_body_def Let_def split: if_splits sum.splits option.splits)

lemma build_body_return:
  assumes "build_body env p input c = Inl (Inr p')"
  obtains (selfsigned) "self_issued env c" "p' = p\<lparr>status := CHAIN_SELFSIGNED\<rparr>"
  | (incomplete) "\<not> self_issued env c" "p' = p\<lparr>status := CHAIN_INCOMPLETE\<rparr>"
      "\<exists>input'. next_certificate env (lookups_of p) input c = Inr (None, input')"
  | (anchored) d input' where "\<not> self_issued env c" "lookups_of p" "anchored env p d"
      "next_certificate env (lookups_of p) input c = Inr (Some d, input')"
      "p' = p\<lparr>certificates := certificates p @ [d], status := CHAIN_ANCHORED\<rparr>"
  using assms
  by (auto simp: build_body_def Let_def split: if_splits sum.splits option.splits)

lemma lookups_of_update [simp]:
  "lookups_of (p\<lparr>certificates := cs\<rparr>) = lookups_of p" "lookups_of (p\<lparr>status := s\<rparr>) = lookups_of p"
  by (simp_all add: lookups_of_def)

text \<open>
  What a status promises of the chain it stands with. A chain that was built from no certificates
  keeps the status \<open>UNKNOWN\<close>.
\<close>

definition inner_ok :: "chain_env \<Rightarrow> chain_private \<Rightarrow> bool" where
  "inner_ok env p \<longleftrightarrow>
     certificates p \<noteq> [] \<and> linked env (certificates p) \<and>
     (\<forall>c \<in> set (butlast (certificates p)). \<not> self_issued env c)"

definition none_anchored :: "chain_env \<Rightarrow> chain_private \<Rightarrow> GcrCertificate list \<Rightarrow> bool" where
  "none_anchored env p cs \<longleftrightarrow> (lookups_of p \<longrightarrow> (\<forall>c \<in> set cs. \<not> anchored env p c))"

fun status_ok :: "chain_env \<Rightarrow> GcrCertificateChainStatus \<Rightarrow> chain_private \<Rightarrow> bool" where
  "status_ok env CHAIN_UNKNOWN p \<longleftrightarrow> True"
| "status_ok env CHAIN_DISTRUSTED p \<longleftrightarrow> False"
| "status_ok env CHAIN_INCOMPLETE p \<longleftrightarrow>
     inner_ok env p \<and> \<not> self_issued env (last (certificates p)) \<and>
     none_anchored env p (tl (certificates p))"
| "status_ok env CHAIN_SELFSIGNED p \<longleftrightarrow>
     inner_ok env p \<and> self_issued env (last (certificates p)) \<and>
     none_anchored env p (tl (certificates p))"
| "status_ok env CHAIN_PINNED p \<longleftrightarrow>
     lookups_of p \<and>
     (\<exists>c q. certificates p = [c] \<and> peer p = Some q \<and>
        gcr_trust_is_certificate_pinned env c (the (purpose p)) q = Inr True)"
| "status_ok env CHAIN_ANCHORED p \<longleftrightarrow>
     lookups_of p \<and> 2 \<le> length (certificates p) \<and> inner_ok env p \<and>
     anchored env p (last (certificates p)) \<and>
     none_anchored env p (tl (butlast (certificates p)))"

abbreviation chain_ok :: "chain_env \<Rightarrow> chain_private \<Rightarrow> bool" where
  "chain_ok env p \<equiv> status_ok env (status p) p"

text \<open>The invariant of the loop.\<close>

definition loop_ok :: "chain_env \<Rightarrow> chain_private \<Rightarrow> GcrCertificate \<Rightarrow> bool" where
  "loop_ok env p c \<longleftrightarrow>
     inner_ok env p \<and> last (certificates p) = c \<and> none_anchored env p (tl (certificates p))"

lemma none_anchored_update [simp]:
  "none_anchored env (p\<lparr>certificates := cs\<rparr>) = none_anchored env p"
  "none_anchored env (p\<lparr>status := s\<rparr>) = none_anchored env p"
  by (simp_all add: none_anchored_def fun_eq_iff)

lemma inner_ok_status [simp]: "inner_ok env (p\<lparr>status := s\<rparr>) = inner_ok env p"
  by (simp add: inner_ok_def)

lemma inner_ok_snoc:
  assumes "inner_ok env p" and "\<not> self_issued env (last (certificates p))"
    and "follows env (last (certificates p)) d"
  shows "inner_ok env (p\<lparr>certificates := certificates p @ [d]\<rparr>)"
proof -
  obtain cs c where cs: "certificates p = cs @ [c]"
    using assms(1) by (cases "certificates p" rule: rev_cases) (auto simp: inner_ok_def)
  then show ?thesis using assms linked_snoc [of env cs c d] by (auto simp: inner_ok_def butlast_append)
qed

lemma loop_ok_round:
  assumes "loop_ok env p c" and "build_body env p input c = Inr (p', input', c')"
  shows "loop_ok env p' c'"
proof -
  note b = build_body_round [OF assms(2)]
  have "inner_ok env p'"
    using assms(1) b(2) next_certificate_follows [OF b(3)] inner_ok_snoc [of env p c']
    unfolding b(1) loop_ok_def by blast
  moreover have "none_anchored env p' (tl (certificates p'))"
    using assms(1) b(1,4) by (auto simp: loop_ok_def inner_ok_def none_anchored_def)
  ultimately show ?thesis using b(1) by (simp add: loop_ok_def)
qed

lemma loop_ok_return:
  assumes ok: "loop_ok env p c" and ret: "build_body env p input c = Inl (Inr p')"
  shows "chain_ok env p'"
  using ret
proof (cases rule: build_body_return)
  case (anchored d input')
  have "inner_ok env (p\<lparr>certificates := certificates p @ [d]\<rparr>)"
    using ok anchored(1) next_certificate_follows [OF anchored(4)] inner_ok_snoc [of env p d]
    unfolding loop_ok_def by blast
  moreover have "certificates p \<noteq> []" using ok by (simp add: loop_ok_def inner_ok_def)
  ultimately show ?thesis
    using ok anchored
    by (cases "certificates p") (auto simp: loop_ok_def inner_ok_def)
qed (use ok in \<open>auto simp: loop_ok_def\<close>)

lemma build_loop_ok:
  assumes "build_loop env p input c = Some (Inr p')" and "status p = CHAIN_UNKNOWN"
    and "loop_ok env p c"
  shows "chain_ok env p'"
proof -
  have "build_loop env p input c = Some r \<Longrightarrow> status p = CHAIN_UNKNOWN \<and> loop_ok env p c \<longrightarrow>
     (\<forall>p'. r = Inr p' \<longrightarrow> chain_ok env p')" for r
  proof (induction rule: build_loop_induct)
    case (return p input c r)
    then show ?case using loop_ok_return by blast
  next
    case (round p input c p' input' c' r)
    then show ?case using loop_ok_round [of env p c] build_body_round(1) [of env p input c] by auto
  qed simp
  then show ?thesis using assms by blast
qed

text \<open>
  Where the certificates a loop adds come from: the given ones, or the tokens when lookups are
  allowed; without lookups each given certificate is used at most once.
\<close>

definition extends ::
  "chain_env \<Rightarrow> chain_private \<Rightarrow> GcrCertificate list \<Rightarrow> chain_private \<Rightarrow> bool" where
  "extends env p input p' \<longleftrightarrow>
     purpose p' = purpose p \<and> peer p' = peer p \<and> flags p' = flags p \<and>
     (\<exists>more. certificates p' = certificates p @ more \<and>
        (\<forall>d \<in> set more. d \<in> set input \<or>
           lookups_of p \<and> (\<exists>c. gcr_pkcs11_certificate_lookup_issuer env c = Inr (Some d))) \<and>
        (\<not> lookups_of p \<longrightarrow> mset more \<subseteq># mset input))"

lemma extends_status [simp]: "extends env p input (p\<lparr>status := s\<rparr>)"
  by (simp add: extends_def)

lemma extends_next:
  assumes n: "next_certificate env (lookups_of p) input c = Inr (Some d, input')"
    and e: "extends env (p\<lparr>certificates := certificates p @ [d]\<rparr>) input' p'"
  shows "extends env p input p'"
proof -
  obtain more where m: "certificates p' = certificates p @ d # more"
    "\<forall>x \<in> set more. x \<in> set input' \<or>
       lookups_of p \<and> (\<exists>c. gcr_pkcs11_certificate_lookup_issuer env c = Inr (Some x))"
    "\<not> lookups_of p \<longrightarrow> mset more \<subseteq># mset input'"
    using e by (auto simp: extends_def)
  have "\<forall>x \<in> set (d # more). x \<in> set input \<or>
       lookups_of p \<and> (\<exists>c. gcr_pkcs11_certificate_lookup_issuer env c = Inr (Some x))"
    "\<not> lookups_of p \<longrightarrow> mset (d # more) \<subseteq># mset input"
    using n
  proof (atomize (full), cases rule: next_certificate_Some)
    case given
    then have "set input = insert d (set input')" by (metis set_mset_add_mset_insert set_mset_mset)
    then show "(\<forall>x \<in> set (d # more). x \<in> set input \<or>
       lookups_of p \<and> (\<exists>c. gcr_pkcs11_certificate_lookup_issuer env c = Inr (Some x))) \<and>
      (\<not> lookups_of p \<longrightarrow> mset (d # more) \<subseteq># mset input)"
      using given m by auto
  next
    case looked_up
    then show "(\<forall>x \<in> set (d # more). x \<in> set input \<or>
       lookups_of p \<and> (\<exists>c. gcr_pkcs11_certificate_lookup_issuer env c = Inr (Some x))) \<and>
      (\<not> lookups_of p \<longrightarrow> mset (d # more) \<subseteq># mset input)"
      using m by auto
  qed
  then show ?thesis using e m(1) by (auto simp: extends_def)
qed

lemma build_loop_extends:
  "build_loop env p input c = Some r \<Longrightarrow> (case r of Inl e \<Rightarrow> True | Inr p' \<Rightarrow> extends env p input p')"
proof (induction rule: build_loop_induct)
  case (built p input c)
  then show ?case by (simp add: extends_def)
next
  case (return p input c r)
  show ?case
  proof (cases r)
    case (Inr p')
    with return(2) have "build_body env p input c = Inl (Inr p')" by simp
    then have "extends env p input p'"
    proof (cases rule: build_body_return)
      case (anchored d input')
      then show ?thesis by (intro extends_next [OF anchored(4)]) (simp add: extends_def)
    qed simp_all
    then show ?thesis using Inr by simp
  qed simp
next
  case (round p input c p' input' c' r)
  note b = build_body_round [OF round(2)]
  show ?case
    using round(3) extends_next [OF b(3)] unfolding b(1) by (cases r) auto
qed

subsection \<open>The whole build\<close>

lemma perform_build_chain_empty:
  "certificates p = [] \<Longrightarrow> perform_build_chain env p = Some (Inr (p\<lparr>status := CHAIN_UNKNOWN\<rparr>))"
  by (simp add: perform_build_chain_def pop_certificate_first)

lemma perform_build_chain_Cons:
  assumes "certificates p = c # cs"
  shows "perform_build_chain env p =
    (case (if lookups_of p then (case peer p of None \<Rightarrow> Inr False
             | Some q \<Rightarrow> gcr_trust_is_certificate_pinned env c (the (purpose p)) q) else Inr False) of
       Inl e \<Rightarrow> Some (Inl e)
     | Inr ret \<Rightarrow>
         if ret then Some (Inr (p\<lparr>certificates := [c], status := CHAIN_PINNED\<rparr>))
         else build_loop env (p\<lparr>certificates := [c], status := CHAIN_UNKNOWN\<rparr>)
                (remove_index_fast (c # cs) 0) c)"
proof -
  have [simp]: "p\<lparr>status := s, certificates := xs\<rparr> = p\<lparr>certificates := xs, status := s\<rparr>" for s xs
    by simp
  show ?thesis
    by (simp add: perform_build_chain_def assms pop_certificate_first Let_def
        cong: sum.case_cong option.case_cong if_cong)
qed

definition initial_chain :: "chain_private \<Rightarrow> GcrCertificate \<Rightarrow> chain_private" where
  "initial_chain p c = p\<lparr>certificates := [c], status := CHAIN_UNKNOWN\<rparr>"

lemma loop_ok_initial: "loop_ok env (initial_chain p c) c"
  by (simp add: loop_ok_def inner_ok_def none_anchored_def initial_chain_def)

lemma perform_build_chain_cases:
  assumes "perform_build_chain env p = Some r"
  obtains (empty) "certificates p = []" "r = Inr (p\<lparr>status := CHAIN_UNKNOWN\<rparr>)"
  | (fails) e where "r = Inl e"
  | (pinned) c cs q where "certificates p = c # cs" "lookups_of p" "peer p = Some q"
      "gcr_trust_is_certificate_pinned env c (the (purpose p)) q = Inr True"
      "r = Inr (p\<lparr>certificates := [c], status := CHAIN_PINNED\<rparr>)"
  | (loop) c cs where "certificates p = c # cs"
      "build_loop env (initial_chain p c) (remove_index_fast (c # cs) 0) c = Some r"
proof (cases "certificates p")
  case Nil
  then show ?thesis using assms empty by (simp add: perform_build_chain_empty)
next
  case (Cons c cs)
  then show ?thesis
    using assms fails pinned loop
    by (auto simp: perform_build_chain_Cons initial_chain_def
        split: sum.splits if_splits option.splits)
qed

lemma perform_build_chain_ok:
  assumes "perform_build_chain env p = Some (Inr p')"
  shows "chain_ok env p'"
  using assms
proof (cases rule: perform_build_chain_cases)
  case (loop c cs)
  then show ?thesis
    using build_loop_ok [OF loop(2)] loop_ok_initial by (simp add: initial_chain_def)
qed (auto simp: lookups_of_def)

text \<open>The loop never ends with the status it began with.\<close>

lemma build_loop_status:
  "build_loop env p input c = Some r \<Longrightarrow> (case r of Inl e \<Rightarrow> True | Inr p' \<Rightarrow> status p' \<noteq> CHAIN_UNKNOWN)"
proof (induction rule: build_loop_induct)
  case (return p input c r)
  show ?case
  proof (cases r)
    case (Inr p')
    with return(2) have "build_body env p input c = Inl (Inr p')" by simp
    then show ?thesis using Inr by (cases rule: build_body_return) simp_all
  qed simp
qed simp_all

definition build_result ::
  "chain_env \<Rightarrow> chain_private \<Rightarrow> chain_private \<Rightarrow> bool" where
  "build_result env p p' \<longleftrightarrow>
     purpose p' = purpose p \<and> peer p' = peer p \<and> flags p' = flags p \<and>
     take 1 (certificates p') = take 1 (certificates p) \<and>
     (status p' = CHAIN_UNKNOWN \<longleftrightarrow> certificates p = []) \<and>
     (\<forall>d \<in> set (certificates p'). d \<in> set (certificates p) \<or>
        lookups_of p \<and> (\<exists>c. gcr_pkcs11_certificate_lookup_issuer env c = Inr (Some d))) \<and>
     (\<not> lookups_of p \<longrightarrow> mset (certificates p') \<subseteq># mset (certificates p))"

lemma perform_build_chain_result:
  assumes "perform_build_chain env p = Some (Inr p')"
  shows "build_result env p p'"
  using assms
proof (cases rule: perform_build_chain_cases)
  case (loop c cs)
  let ?rest = "remove_index_fast (c # cs) 0"
  have m: "mset (c # cs) = add_mset c (mset ?rest)"
    using mset_remove_index_fast [of 0 "c # cs"] by simp
  then have s: "set ?rest \<subseteq> set (c # cs)"
    by (metis insert_subset order_refl set_mset_add_mset_insert set_mset_mset)
  have "extends env (initial_chain p c) ?rest p'" using build_loop_extends [OF loop(2)] by simp
  then show ?thesis
    using build_loop_status [OF loop(2)] loop(1) s m
    by (auto simp: build_result_def extends_def initial_chain_def)
qed (auto simp: build_result_def)

section \<open>Does the build end?\<close>

text \<open>The lookups the loop goes on with: it asked for the issuer of \<open>c\<close> and \<open>d\<close> is no anchor.\<close>

definition lookup_rel :: "chain_env \<Rightarrow> byte list \<Rightarrow> (GcrCertificate \<times> GcrCertificate) set" where
  "lookup_rel env q =
     {(d, c). \<not> self_issued env c \<and>
        gcr_pkcs11_certificate_lookup_issuer env c = Inr (Some d) \<and>
        gcr_trust_is_certificate_anchored env d q = Inr False}"

lemma build_loop_returns:
  assumes "lookups_of p \<longrightarrow> wf (lookup_rel env (the (purpose p)))"
  shows "\<exists>r. build_loop env p input c = Some r"
proof -
  define R where "R = (if lookups_of p then lookup_rel env (the (purpose p)) else {})"
  have "wf (less_than <*lex*> R)" using assms by (simp add: R_def wf_lex_prod)
  then have "wf (inv_image (less_than <*lex*> R) (\<lambda>(input, c). (length input, c)))"
    by (rule wf_inv_image)
  then have "\<forall>p'. lookups_of p' = lookups_of p \<and> purpose p' = purpose p \<longrightarrow>
    (\<exists>r. build_loop env p' (fst (input, c)) (snd (input, c)) = Some r)"
  proof (induction "(input, c)" arbitrary: input c rule: wf_induct_rule)
    case (less input c)
    show ?case
    proof (intro allI impI)
      fix p'
      assume p': "lookups_of p' = lookups_of p \<and> purpose p' = purpose p"
      show "\<exists>r. build_loop env p' (fst (input, c)) (snd (input, c)) = Some r"
      proof (cases "build_body env p' input c")
        case (Inl r)
        then show ?thesis by (subst build_loop.simps) simp
      next
        case (Inr x)
        then obtain p2 input' c' where b: "build_body env p' input c = Inr (p2, input', c')"
          by (metis prod_cases3)
        note bb = build_body_round [OF b]
        have "((input', c'), (input, c)) \<in>
          inv_image (less_than <*lex*> R) (\<lambda>(input, c). (length input, c))"
          using bb(3)
        proof (cases rule: next_certificate_Some)
          case looked_up
          then show ?thesis using bb(2,4) p' by (simp add: R_def lookup_rel_def)
        qed simp
        moreover have "lookups_of p2 = lookups_of p \<and> purpose p2 = purpose p"
          using bb(1) p' by simp
        ultimately have "\<exists>r. build_loop env p2 input' c' = Some r"
          using less by fastforce
        then show ?thesis using b by (subst build_loop.simps) simp
      qed
    qed
  qed
  then show ?thesis by simp
qed

lemma perform_build_chain_returns:
  assumes "lookups_of p \<longrightarrow> wf (lookup_rel env (the (purpose p)))"
  shows "\<exists>r. perform_build_chain env p = Some r"
proof (cases "certificates p")
  case Nil
  then show ?thesis by (simp add: perform_build_chain_empty)
next
  case (Cons c cs)
  have "\<exists>r. build_loop env (initial_chain p c) (remove_index_fast (c # cs) 0) c = Some r"
    by (rule build_loop_returns) (use assms in \<open>simp add: initial_chain_def\<close>)
  then show ?thesis
    by (simp add: perform_build_chain_Cons [OF Cons] initial_chain_def
        split: sum.splits option.splits)
qed

text \<open>
  Certificates whose issuers are again among them, none of them self-issued and none an anchor: the
  loop goes round for ever.
\<close>

definition endless :: "chain_env \<Rightarrow> byte list \<Rightarrow> GcrCertificate set \<Rightarrow> bool" where
  "endless env q S \<longleftrightarrow>
     (\<forall>c \<in> S. \<not> self_issued env c \<and>
        (\<exists>d \<in> S. gcr_pkcs11_certificate_lookup_issuer env c = Inr (Some d) \<and>
           gcr_trust_is_certificate_anchored env d q = Inr False))"

lemma build_loop_endless:
  assumes e: "endless env q S" and p: "lookups_of p" "the (purpose p) = q" "c \<in> S"
    "status p = CHAIN_UNKNOWN"
  shows "build_loop env p [] c = None"
proof (rule ccontr)
  assume "build_loop env p [] c \<noteq> None"
  then obtain r where "build_loop env p [] c = Some r" by auto
  then have "\<not> (status p = CHAIN_UNKNOWN \<and> lookups_of p \<and> the (purpose p) = q \<and> c \<in> S)"
  proof (induction p "[] :: GcrCertificate list" c r rule: build_loop_induct)
    case (return p c r)
    then show ?case using e
      by (fastforce simp: build_body_def next_certificate_def pop_certificate_def endless_def)
  next
    case (round p c p' input' c' r)
    note b = build_body_round [OF round(2)]
    then show ?case using e round
      by (fastforce simp: next_certificate_def pop_certificate_def endless_def)
  qed simp
  then show False using p by simp
qed

section \<open>The build in another thread\<close>

text \<open>A copy has the DER data of its original; a certificate without original is its own.\<close>

abbreviation copy_ok :: "GcrCertificate \<Rightarrow> bool" where
  "copy_ok c \<equiv> cert_der (replace_original c) = cert_der c"

lemma replace_original_id [simp]: "cert_original c = None \<Longrightarrow> replace_original c = c"
  by (simp add: replace_original_def)

lemma is_issuer_original:
  "copy_ok c \<Longrightarrow> copy_ok d \<Longrightarrow>
     gcr_certificate_is_issuer env (replace_original c) (replace_original d) =
     gcr_certificate_is_issuer env c d"
  by (rule is_issuer_der) simp_all

lemmas trust_original = trust_der [of "replace_original c" c for c]

lemma pop_index_original:
  "copy_ok c \<Longrightarrow> \<forall>d \<in> set cs. copy_ok d \<Longrightarrow>
     pop_index env (Some (replace_original c)) (map replace_original cs) = pop_index env (Some c) cs"
  by (induction cs) (simp_all add: is_issuer_original)

lemma pop_certificate_original:
  assumes "copy_ok c" and "\<forall>d \<in> set cs. copy_ok d"
  shows "pop_certificate env (map replace_original cs) (Some (replace_original c)) =
    map_prod (map_option replace_original) (map replace_original)
      (pop_certificate env cs (Some c))"
  using pop_index_Some [of env "Some c" cs]
  by (auto simp: pop_certificate_def pop_index_original [OF assms] split: option.splits)

lemma next_certificate_original:
  assumes "copy_ok c" and "\<forall>d \<in> set cs. copy_ok d"
  shows "next_certificate env l (map replace_original cs) (replace_original c) =
    map_sum id (map_prod (map_option replace_original) (map replace_original))
      (next_certificate env l cs c)"
proof (cases "pop_certificate env cs (Some c)")
  case (Pair r rest)
  show ?thesis
  proof (cases r)
    case None
    then show ?thesis
      using Pair pop_certificate_original [OF assms, of env] lookup_issuer_original [of env c]
      by (cases "gcr_pkcs11_certificate_lookup_issuer env c")
        (auto simp: next_certificate_def trust_original(3) [OF assms(1)] map_option_case
          split: option.splits)
  next
    case (Some d)
    then show ?thesis
      using Pair pop_certificate_original [OF assms, of env] by (simp add: next_certificate_def)
  qed
qed

lemma next_certificate_copy_ok:
  assumes "next_certificate env l cs c = Inr (Some d, cs')" and "\<forall>d \<in> set cs. copy_ok d"
  shows "copy_ok d" and "\<forall>d \<in> set cs'. copy_ok d"
  using assms(1)
proof (atomize (full), cases rule: next_certificate_Some)
  case given
  then have "set cs = insert d (set cs')" by (metis set_mset_add_mset_insert set_mset_mset)
  then show "copy_ok d \<and> (\<forall>d \<in> set cs'. copy_ok d)" using assms(2) by auto
next
  case looked_up
  then show "copy_ok d \<and> (\<forall>d \<in> set cs'. copy_ok d)"
    using assms(2) lookup_issuer_original [OF looked_up(2)] by auto
qed

lemma cleanup_simps [simp]:
  "status (cleanup_chain_private p) = status p" "purpose (cleanup_chain_private p) = purpose p"
  "peer (cleanup_chain_private p) = peer p" "flags (cleanup_chain_private p) = flags p"
  "lookups_of (cleanup_chain_private p) = lookups_of p"
  "certificates (cleanup_chain_private p) = map replace_original (certificates p)"
  by (simp_all add: cleanup_chain_private_def lookups_of_def)

lemma cleanup_update:
  "cleanup_chain_private (p\<lparr>status := s\<rparr>) = (cleanup_chain_private p)\<lparr>status := s\<rparr>"
  "cleanup_chain_private (p\<lparr>certificates := cs\<rparr>) =
     (cleanup_chain_private p)\<lparr>certificates := map replace_original cs\<rparr>"
  by (simp_all add: cleanup_chain_private_def)

text \<open>One round on the copies is one round on the originals.\<close>

definition on_originals ::
  "(gerror + chain_private) + (chain_private \<times> GcrCertificate list \<times> GcrCertificate) \<Rightarrow>
   (gerror + chain_private) + (chain_private \<times> GcrCertificate list \<times> GcrCertificate)" where
  "on_originals =
     map_sum (map_sum id cleanup_chain_private)
       (\<lambda>(p, input, c). (cleanup_chain_private p, map replace_original input, replace_original c))"

lemma build_body_original:
  assumes "copy_ok c" and "\<forall>d \<in> set input. copy_ok d"
  shows "build_body env (cleanup_chain_private p) (map replace_original input) (replace_original c) =
    on_originals (build_body env p input c)"
proof (cases "next_certificate env (lookups_of p) input c")
  case (Inl e)
  then show ?thesis
    using next_certificate_original [OF assms, of env "lookups_of p"] is_issuer_original assms(1)
    by (simp add: build_body_def on_originals_def cleanup_update)
next
  case (Inr x)
  then obtain d input' where n: "next_certificate env (lookups_of p) input c = Inr (d, input')"
    by (cases x) simp
  show ?thesis
  proof (cases d)
    case None
    then show ?thesis
      using n next_certificate_original [OF assms, of env "lookups_of p"] is_issuer_original assms(1)
      by (simp add: build_body_def on_originals_def cleanup_update)
  next
    case (Some d')
    then have "copy_ok d'" using next_certificate_copy_ok n assms(2) by blast
    then show ?thesis
      using n Some next_certificate_original [OF assms, of env "lookups_of p"] is_issuer_original
        assms(1) trust_original(1)
      by (simp add: build_body_def on_originals_def cleanup_update Let_def split: sum.splits)
  qed
qed

lemma build_body_copy_ok:
  assumes "build_body env p input c = Inr (p', input', c')" and "\<forall>d \<in> set input. copy_ok d"
  shows "copy_ok c' \<and> (\<forall>d \<in> set input'. copy_ok d)"
  using next_certificate_copy_ok [OF build_body_round(3) [OF assms(1)] assms(2)] by simp

lemma build_loop_on_originals:
  "build_loop env p input c = Some r \<Longrightarrow> copy_ok c \<and> (\<forall>d \<in> set input. copy_ok d) \<longrightarrow>
     build_loop env (cleanup_chain_private p) (map replace_original input) (replace_original c) =
     Some (map_sum id cleanup_chain_private r)"
proof (induction rule: build_loop_induct)
  case (built p input c)
  then show ?case by (subst build_loop.simps) simp
next
  case (return p input c r)
  then show ?case
    by (subst build_loop.simps) (simp add: build_body_original on_originals_def id_def)
next
  case (round p input c p' input' c' r)
  then show ?case
    using build_body_copy_ok [OF round(2)]
    by (subst build_loop.simps) (simp add: build_body_original on_originals_def id_def)
qed

lemma build_loop_from_originals:
  "build_loop env p2 input2 c2 = Some r2 \<Longrightarrow>
     \<forall>p input c. p2 = cleanup_chain_private p \<and> input2 = map replace_original input \<and>
       c2 = replace_original c \<and> copy_ok c \<and> (\<forall>d \<in> set input. copy_ok d) \<longrightarrow>
       build_loop env p input c \<noteq> None"
proof (induction rule: build_loop_induct)
  case (built p2 input2 c2)
  then show ?case by (subst build_loop.simps) auto
next
  case (return p2 input2 c2 r)
  show ?case
  proof (intro allI impI, elim conjE)
    fix p input c
    assume a: "p2 = cleanup_chain_private p" "input2 = map replace_original input"
      "c2 = replace_original c" "copy_ok c" "\<forall>d \<in> set input. copy_ok d"
    have "\<exists>r'. build_body env p input c = Inl r'"
      using return build_body_original [OF a(4,5), of env p] a(1-3)
      by (cases "build_body env p input c") (auto simp: on_originals_def)
    then show "build_loop env p input c \<noteq> None" by (subst build_loop.simps) auto
  qed
next
  case (round p2 input2 c2 p2' input2' c2' r)
  show ?case
  proof (intro allI impI, elim conjE)
    fix p input c
    assume a: "p2 = cleanup_chain_private p" "input2 = map replace_original input"
      "c2 = replace_original c" "copy_ok c" "\<forall>d \<in> set input. copy_ok d"
    obtain p' input' c' where b: "build_body env p input c = Inr (p', input', c')"
      and e: "p2' = cleanup_chain_private p'" "input2' = map replace_original input'"
        "c2' = replace_original c'"
      using round(2) build_body_original [OF a(4,5), of env p] a(1-3)
      by (cases "build_body env p input c") (auto simp: on_originals_def)
    have "build_loop env p' input' c' \<noteq> None"
      using round(3) e build_body_copy_ok [OF b a(5)] by blast
    then show "build_loop env p input c \<noteq> None"
      using b by (subst build_loop.simps) simp
  qed
qed

lemma build_loop_original:
  assumes "copy_ok c" and "\<forall>d \<in> set input. copy_ok d"
  shows "build_loop env (cleanup_chain_private p) (map replace_original input) (replace_original c) =
    map_option (map_sum id cleanup_chain_private) (build_loop env p input c)"
proof (cases "build_loop env p input c")
  case (Some r)
  then show ?thesis using build_loop_on_originals assms by fastforce
next
  case None
  then show ?thesis using build_loop_from_originals assms by fastforce
qed

lemma perform_build_chain_original:
  assumes "\<forall>c \<in> set (certificates p). copy_ok c"
  shows "perform_build_chain env (cleanup_chain_private p) =
    map_option (map_sum id cleanup_chain_private) (perform_build_chain env p)"
proof (cases "certificates p")
  case Nil
  then show ?thesis by (simp add: perform_build_chain_empty cleanup_update)
next
  case (Cons c cs)
  let ?rest = "remove_index_fast (c # cs) 0"
  have c: "copy_ok c" using assms Cons by simp
  have "set ?rest \<subseteq> set (c # cs)"
    using mset_remove_index_fast [of 0 "c # cs"] by (metis length_greater_0_conv list.discI
        mset_subset_eq_add_right add_mset_add_single set_mset_mono set_mset_mset union_commute)
  then have rest: "\<forall>d \<in> set ?rest. copy_ok d" using assms Cons by auto
  have cert2: "certificates (cleanup_chain_private p) = replace_original c # map replace_original cs"
    using Cons by simp
  have rest2: "remove_index_fast (replace_original c # map replace_original cs) 0 =
      map replace_original ?rest"
    using remove_index_fast_map [of 0 "c # cs" replace_original] by simp
  have loop: "build_loop env ((cleanup_chain_private p)\<lparr>certificates := [replace_original c],
        status := CHAIN_UNKNOWN\<rparr>) (map replace_original ?rest) (replace_original c) =
      map_option (map_sum id cleanup_chain_private)
        (build_loop env (p\<lparr>certificates := [c], status := CHAIN_UNKNOWN\<rparr>) ?rest c)"
    using build_loop_original [OF c rest, of env "p\<lparr>certificates := [c], status := CHAIN_UNKNOWN\<rparr>"]
    by (simp add: cleanup_update)
  show ?thesis
    unfolding perform_build_chain_Cons [OF Cons] perform_build_chain_Cons [OF cert2] rest2 loop
    by (simp add: trust_original(2) [OF c] cleanup_update split: sum.splits option.splits)
qed

text \<open>A certificate the public functions hand out or take: never a copy.\<close>

abbreviation plain :: "chain_private \<Rightarrow> bool" where
  "plain p \<equiv> \<forall>c \<in> set (certificates p). cert_original c = None"

text \<open>The certificates that can be copied: those of other classes have DER data.\<close>

definition copyable :: "GcrCertificate \<Rightarrow> bool" where
  "copyable c \<longleftrightarrow> (cert_type c = OTHER_CERTIFICATE \<longrightarrow> cert_der c \<noteq> None \<and> cert_der c \<noteq> Some [])"

definition copies :: "GcrCertificate list \<Rightarrow> GcrCertificate list \<Rightarrow> bool" where
  "copies cs ss \<longleftrightarrow> map replace_original ss = cs \<and> (\<forall>s \<in> set ss. copy_ok s)"

lemma copies_Cons:
  "copies cs ss \<Longrightarrow> replace_original s = c \<Longrightarrow> cert_der s = cert_der c \<Longrightarrow>
     copies (c # cs) (s # ss)"
  by (simp add: copies_def)

lemma thread_safe_loop_ok:
  assumes "\<forall>c \<in> set cs. copyable c \<and> cert_original c = None"
  shows "\<exists>ss. thread_safe_loop i cs = Ret (Some ss) \<and> copies cs ss"
  using assms
proof (induction cs arbitrary: i)
  case Nil
  then show ?case by (simp add: copies_def)
next
  case (Cons c cs)
  then obtain ss where ss: "thread_safe_loop (Suc i) cs = Ret (Some ss)" "copies cs ss"
    by fastforce
  show ?case
  proof (cases "cert_type c = OTHER_CERTIFICATE")
    case False
    then have "cert_type c = SIMPLE_CERTIFICATE \<or> cert_type c = PKCS11_CERTIFICATE"
      by (cases "cert_type c") simp_all
    then show ?thesis
      using ss Cons.prems copies_Cons [OF ss(2), of c c] by simp
  next
    case True
    then obtain b bs where d: "cert_der c = Some (b # bs)"
      using Cons.prems by (auto simp: copyable_def neq_Nil_conv)
    let ?s = "Certificate i SIMPLE_CERTIFICATE (Some (b # bs)) (Some c)"
    have "copies (c # cs) (?s # ss)"
      using d by (intro copies_Cons [OF ss(2)]) (simp_all add: replace_original_def)
    then show ?thesis
      using True d ss(1)
      by (simp add: gcr_certificate_get_der_data_def gcr_simple_certificate_new_def)
  qed
qed

text \<open>What the function does with a certificate that cannot be copied.\<close>

lemma thread_safe_loop_plain:
  "thread_safe_loop i cs = Ret (Some ss) \<Longrightarrow> \<forall>c \<in> set cs. cert_original c = None \<Longrightarrow>
     \<forall>c \<in> set cs. copyable c"
proof (induction i cs arbitrary: ss rule: thread_safe_loop.induct)
  case (2 i c cs)
  then show ?case
    by (cases "cert_type c")
      (auto simp: obind_Ret_iff copyable_def gcr_certificate_get_der_data_def
        gcr_simple_certificate_new_def split: option.splits if_splits)
qed simp

lemma prep_simps [simp]:
  "certificates (prep_chain_private orig q r f) = certificates orig"
  "purpose (prep_chain_private orig q r f) = Some q" "peer (prep_chain_private orig q r f) = r"
  "flags (prep_chain_private orig q r f) = f"
  by (simp_all add: prep_chain_private_def new_chain_private_def)

lemma prep_thread_safe_ok:
  assumes "plain orig" and "\<forall>c \<in> set (certificates orig). copyable c"
  obtains p where "prep_chain_private_thread_safe base orig q r f = Ret (Some p)"
    "cleanup_chain_private p = prep_chain_private orig q r f"
    "\<forall>c \<in> set (certificates p). copy_ok c"
proof -
  obtain ss where ss: "thread_safe_loop base (certificates orig) = Ret (Some ss)"
    "map replace_original ss = certificates orig" "\<forall>s \<in> set ss. copy_ok s"
    using thread_safe_loop_ok [of "certificates orig" base] assms by (auto simp: copies_def)
  let ?p = "(prep_chain_private orig q r f)\<lparr>certificates := ss\<rparr>"
  show ?thesis
  proof (rule that [of ?p])
    show "prep_chain_private_thread_safe base orig q r f = Ret (Some ?p)"
      using ss(1) by (simp add: prep_chain_private_thread_safe_def)
    show "cleanup_chain_private ?p = prep_chain_private orig q r f"
      using ss(2)
      by (simp add: cleanup_chain_private_def prep_chain_private_def new_chain_private_def)
  qed (use ss(3) in simp)
qed

text \<open>A build keeps out of the chain every copy that was not put in.\<close>

lemma perform_build_chain_plain:
  assumes "perform_build_chain env p = Some (Inr p')" and "plain p"
  shows "plain p'"
  using assms(1)
proof (cases rule: perform_build_chain_cases)
  case (loop c cs)
  have "extends env (initial_chain p c) (remove_index_fast (c # cs) 0) p'"
    using build_loop_extends [OF loop(2)] by simp
  moreover have "set (remove_index_fast (c # cs) 0) \<subseteq> set (c # cs)"
    using mset_remove_index_fast [of 0 "c # cs"]
    by (metis insert_subset length_greater_0_conv list.discI order_refl set_mset_add_mset_insert
        set_mset_mset)
  ultimately show ?thesis
    using assms(2) loop(1) lookup_issuer_original
    by (fastforce simp: extends_def initial_chain_def)
qed (use assms(2) in auto)

lemma cleanup_plain: "plain p \<Longrightarrow> cleanup_chain_private p = p"
  by (simp add: cleanup_chain_private_def map_idI)

lemma perform_thread_safe:
  assumes "plain orig" and "prep_chain_private_thread_safe base orig q r f = Ret (Some p)"
  shows "map_option (map_sum id cleanup_chain_private) (perform_build_chain env p) =
    perform_build_chain env (prep_chain_private orig q r f)"
proof -
  obtain ss where "thread_safe_loop base (certificates orig) = Ret (Some ss)"
    using assms(2) by (auto simp: prep_chain_private_thread_safe_def obind_Ret_iff)
  then have "\<forall>c \<in> set (certificates orig). copyable c"
    using thread_safe_loop_plain assms(1) by blast
  from prep_thread_safe_ok [OF assms(1) this, of base q r f] obtain p' where
    p': "prep_chain_private_thread_safe base orig q r f = Ret (Some p')"
      "cleanup_chain_private p' = prep_chain_private orig q r f"
      "\<forall>c \<in> set (certificates p'). copy_ok c" .
  then show ?thesis using perform_build_chain_original [OF p'(3), of env] assms(2) by simp
qed

section \<open>A chain in use\<close>

text \<open>
  A chain, and the builds that run beside it: a started task holds its own copy of the chain, a
  finished one its result. The functions of the library are called in any order; the tasks run and
  are finished at any time. \<open>E\<close> are the answers the tokens may give over time.
\<close>

datatype chain_task = Started "chain_private option" | Returned "gerror + chain_private"

record chain_world =
  chain :: GcrCertificateChain
  tasks :: "chain_task list"

inductive chain_step :: "chain_env set \<Rightarrow> chain_world \<Rightarrow> chain_world \<Rightarrow> bool" for E where
  add: "cert_original c = None \<Longrightarrow>
     chain_step E w (w\<lparr>chain := gcr_certificate_chain_add (chain w) c\<rparr>)"
| build: "env \<in> E \<Longrightarrow> gcr_certificate_chain_build env (chain w) q r f = Some (e, s) \<Longrightarrow>
     chain_step E w (w\<lparr>chain := s\<rparr>)"
| start: "gcr_certificate_chain_build_async base (chain w) q r f = Ret d \<Longrightarrow>
     chain_step E w (w\<lparr>tasks := tasks w @ [Started d]\<rparr>)"
| run: "i < length (tasks w) \<Longrightarrow> tasks w ! i = Started d \<Longrightarrow> env \<in> E \<Longrightarrow>
     thread_build_chain env d = Ret (Some res) \<Longrightarrow>
     chain_step E w (w\<lparr>tasks := (tasks w)[i := Returned res]\<rparr>)"
| finish: "i < length (tasks w) \<Longrightarrow> tasks w ! i = Returned res \<Longrightarrow>
     gcr_certificate_chain_build_finish (chain w) res = (e, s) \<Longrightarrow>
     chain_step E w (w\<lparr>chain := s, tasks := take i (tasks w) @ drop (Suc i) (tasks w)\<rparr>)"
| dispose: "chain_step E w (w\<lparr>chain := gcr_certificate_chain_dispose (chain w)\<rparr>)"

inductive chain_reachable :: "chain_env set \<Rightarrow> chain_world \<Rightarrow> bool" for E where
  new: "chain_reachable E \<lparr>chain = gcr_certificate_chain_new, tasks = []\<rparr>"
| step: "chain_reachable E w \<Longrightarrow> chain_step E w w' \<Longrightarrow> chain_reachable E w'"

definition built_ok :: "chain_env set \<Rightarrow> chain_private \<Rightarrow> bool" where
  "built_ok E p \<longleftrightarrow> plain p \<and> (status p \<noteq> CHAIN_UNKNOWN \<longrightarrow> (\<exists>env \<in> E. chain_ok env p))"

fun task_ok :: "chain_env set \<Rightarrow> chain_task \<Rightarrow> bool" where
  "task_ok E (Started None) \<longleftrightarrow> True"
| "task_ok E (Started (Some p)) \<longleftrightarrow>
     (\<exists>base orig q r f. plain orig \<and>
        prep_chain_private_thread_safe base orig q r f = Ret (Some p))"
| "task_ok E (Returned (Inl e)) \<longleftrightarrow> True"
| "task_ok E (Returned (Inr p)) \<longleftrightarrow> built_ok E (cleanup_chain_private p)"

definition world_ok :: "chain_env set \<Rightarrow> chain_world \<Rightarrow> bool" where
  "world_ok E w \<longleftrightarrow> built_ok E (pv (chain w)) \<and> (\<forall>t \<in> set (tasks w). task_ok E t)"

lemma notify_pv [simp]: "pv (g_object_notify n s) = pv s"
  by (simp add: g_object_notify_def)

lemma take_built_pv [simp]: "pv (take_built s p) = cleanup_chain_private p"
  by (simp add: take_built_def)

lemma perform_built_ok:
  assumes "env \<in> E" and "perform_build_chain env p = Some (Inr p')" and "plain p"
  shows "built_ok E p'"
  using assms perform_build_chain_ok perform_build_chain_plain unfolding built_ok_def by blast

lemma chain_build_ok:
  assumes "env \<in> E" and "built_ok E (pv s)"
    and "gcr_certificate_chain_build env s q r f = Some (e, s')"
  shows "built_ok E (pv s')"
proof -
  obtain res where res: "perform_build_chain env (prep_chain_private (pv s) q r f) = Some res"
    and s': "(e, s') = (case res of Inl e \<Rightarrow> (Some e, s) | Inr built \<Rightarrow> (None, take_built s built))"
    using assms(3) by (auto simp: gcr_certificate_chain_build_def)
  have "plain (prep_chain_private (pv s) q r f)" using assms(2) by (simp add: built_ok_def)
  then show ?thesis
    using perform_built_ok [OF assms(1)] res s' assms(2) cleanup_plain
    by (cases res) (auto simp: built_ok_def)
qed

lemma task_run_ok:
  assumes "env \<in> E" and "task_ok E (Started d)" and "thread_build_chain env d = Ret (Some res)"
  shows "task_ok E (Returned res)"
proof (cases res)
  case (Inr p')
  obtain p where p: "d = Some p" "perform_build_chain env p = Some (Inr p')"
    using assms(3) Inr by (auto simp: thread_build_chain_def split: option.splits)
  obtain base orig q r f where o: "plain orig"
    "prep_chain_private_thread_safe base orig q r f = Ret (Some p)"
    using assms(2) p(1) by auto
  have "perform_build_chain env (prep_chain_private orig q r f) =
      Some (Inr (cleanup_chain_private p'))"
    using perform_thread_safe [OF o, of env] p(2) by simp
  then have "built_ok E (cleanup_chain_private p')"
    using perform_built_ok [OF assms(1)] o(1) by simp
  then show ?thesis using Inr by simp
qed simp

lemma chain_step_ok: "chain_step E w w' \<Longrightarrow> world_ok E w \<Longrightarrow> world_ok E w'"
proof (induction rule: chain_step.induct)
  case (add c w)
  then show ?case
    by (auto simp: world_ok_def built_ok_def gcr_certificate_chain_add_def Let_def)
next
  case (build env w q r f e s)
  then show ?case using chain_build_ok by (simp add: world_ok_def) blast
next
  case (start base w q r f d)
  then have "plain (pv (chain w))" by (simp add: world_ok_def built_ok_def)
  then have "task_ok E (Started d)"
    using start(1) [unfolded gcr_certificate_chain_build_async_def]
    by (cases d) (simp, metis task_ok.simps(2))
  then show ?case using start(2) by (simp add: world_ok_def)
next
  case (run i w d env res)
  then have "task_ok E (Started d)" by (metis nth_mem world_ok_def)
  then show ?case
    using run task_run_ok by (auto simp: world_ok_def dest!: set_update_subset_insert [THEN subsetD])
next
  case (finish i w res e s)
  then have "task_ok E (Returned res)" by (metis nth_mem world_ok_def)
  then have "built_ok E (pv s)"
    using finish by (cases res) (auto simp: gcr_certificate_chain_build_finish_def world_ok_def)
  then show ?case
    using finish(4) by (auto simp: world_ok_def dest: in_set_takeD in_set_dropD)
next
  case (dispose w)
  then show ?case by (simp add: world_ok_def built_ok_def gcr_certificate_chain_dispose_def)
qed

lemma chain_reachable_ok: "chain_reachable E w \<Longrightarrow> world_ok E w"
proof (induction rule: chain_reachable.induct)
  case new
  then show ?case
    by (simp add: world_ok_def built_ok_def gcr_certificate_chain_new_def new_chain_private_def)
next
  case (step w w')
  then show ?case using chain_step_ok by blast
qed

section \<open>Correctness of certificate chains\<close>

text \<open>
  A run of examples: the certificates \<open>k\<close> have DER data \<open>[k]\<close>; the subject of \<open>[k]\<close> is \<open>[k]\<close>
  and its issuer \<open>[k + 1]\<close>, except that \<open>[5]\<close> issued itself. The tokens hold the certificate
  \<open>4\<close>, which is an anchor for the purpose \<open>[0]\<close>.
\<close>

definition sample_env :: chain_env where
  "sample_env =
     \<lparr>decode_names = (\<lambda>der. Some (Some der, Some (if der = [5] then [5] else map ((+) 1) der))),
      find_pinned = (\<lambda>der q r. Inr (der = Some [7] \<and> q = [0] \<and> r = [9])),
      find_anchored = (\<lambda>der q. Inr (der = Some [4] \<and> q = [0])),
      find_issuer = (\<lambda>der. Inr (if der = Some [3] then Some (40, [4]) else None))\<rparr>"

definition sample_cert :: "byte \<Rightarrow> GcrCertificate" where
  "sample_cert k = Certificate (unat k) OTHER_CERTIFICATE (Some [k]) None"

definition sample_chain :: GcrCertificateChain where
  "sample_chain =
     gcr_certificate_chain_add (gcr_certificate_chain_add (gcr_certificate_chain_add
       gcr_certificate_chain_new (sample_cert 1)) (sample_cert 3)) (sample_cert 2)"

lemmas sample_eval = sample_env_def sample_cert_def sample_chain_def gcr_certificate_chain_add_def
  gcr_certificate_chain_new_def new_chain_private_def g_object_notify_def Let_def
  gcr_certificate_is_issuer_def gcr_certificate_get_subject_const_def
  gcr_certificate_get_issuer_const_def certificate_info_load_def gcr_certificate_get_der_data_def
  prep_chain_private_def perform_build_chain_def pop_certificate_def remove_index_fast_def
  lookups_of_def CHAIN_NO_LOOKUPS_def gcr_trust_is_certificate_pinned_def
  gcr_trust_is_certificate_anchored_def gcr_pkcs11_certificate_lookup_issuer_def
  next_certificate_def build_body_def

text \<open>
  C7. Whatever sequence of additions, builds, asynchronous builds (run and finished at any time) and
  disposals a chain went through, its status tells the truth about the certificates it holds: a
  chain that is not \<^verbatim>\<open>UNKNOWN\<close> has its certificates linked, each one the issuer by name of the one
  before or the answer of the tokens to the lookup of that issuer, with no self-issued certificate
  before the last; an incomplete chain does not end in a self-issued certificate and a self-signed
  one does, and neither has an anchor behind the endpoint when lookups were allowed; an anchored
  chain has at least two certificates and its last, and no other behind the endpoint, is an anchor
  for the purpose; a pinned chain is the endpoint alone, pinned for purpose and peer; the status
  \<^verbatim>\<open>DISTRUSTED\<close> is never given. No copy made for another thread is ever in the chain, and
  \<^verbatim>\<open>gcr_certificate_chain_get_anchor\<close> never fails its assertion: it returns the last certificate
  of an anchored chain and \<^verbatim>\<open>NULL\<close> otherwise.
\<close>

theorem chain_status_invariant:
  assumes "chain_reachable E w"
  shows "(status (pv (chain w)) \<noteq> CHAIN_UNKNOWN \<longrightarrow> (\<exists>env \<in> E. chain_ok env (pv (chain w)))) \<and>
    (\<forall>c \<in> set (certificates (pv (chain w))). cert_original c = None) \<and>
    gcr_certificate_chain_get_anchor (chain w) =
      Ret (if gcr_certificate_chain_get_status (chain w) = CHAIN_ANCHORED
           then Some (last (certificates (pv (chain w)))) else None)"
proof -
  have ok: "built_ok E (pv (chain w))" using chain_reachable_ok [OF assms] by (simp add: world_ok_def)
  then have "status (pv (chain w)) = CHAIN_ANCHORED \<Longrightarrow> certificates (pv (chain w)) \<noteq> []"
    by (auto simp: built_ok_def)
  then show ?thesis
    using ok
    by (auto simp: built_ok_def gcr_certificate_chain_get_anchor_def last_conv_nth
        gcr_certificate_chain_get_status_def)
qed

lemma sample_build:
  "gcr_certificate_chain_build sample_env sample_chain [0] None 0 =
     Some (None, sample_chain\<lparr>pv := \<lparr>certificates = [sample_cert 1, sample_cert 2, sample_cert 3,
            Certificate 40 PKCS11_CERTIFICATE (Some [4]) None], status = CHAIN_ANCHORED,
          purpose = Some [0], peer = None, flags = 0\<rparr>,
        notified := [''status'', ''length'', ''status'', ''length'', ''status'', ''length'',
          ''status'', ''length'']\<rparr>)"
  by (simp add: gcr_certificate_chain_build_def take_built_def cleanup_chain_private_def
      replace_original_def sample_eval build_loop.simps)

theorem chain_status_invariant_witness:
  "\<exists>w. chain_reachable {sample_env} w \<and>
     gcr_certificate_chain_get_status (chain w) = CHAIN_ANCHORED \<and>
     gcr_certificate_chain_get_anchor (chain w) =
       Ret (Some (Certificate 40 PKCS11_CERTIFICATE (Some [4]) None))"
proof -
  let ?w = "\<lambda>s. \<lparr>chain = s, tasks = []\<rparr>"
  have a: "chain_reachable {sample_env} (?w s) \<Longrightarrow>
      chain_reachable {sample_env} (?w (gcr_certificate_chain_add s (sample_cert k)))" for s k
    using chain_step.add [of "sample_cert k" "{sample_env}" "?w s"]
      chain_reachable.step [of "{sample_env}" "?w s"]
    by (simp add: sample_cert_def)
  have "chain_reachable {sample_env} (?w sample_chain)"
    unfolding sample_chain_def by (intro a chain_reachable.new)
  then obtain s where r: "chain_reachable {sample_env} (?w s)"
    and s: "pv s = \<lparr>certificates = [sample_cert 1, sample_cert 2, sample_cert 3,
            Certificate 40 PKCS11_CERTIFICATE (Some [4]) None], status = CHAIN_ANCHORED,
          purpose = Some [0], peer = None, flags = 0\<rparr>"
    using chain_step.build [of sample_env "{sample_env}" "?w sample_chain" "[0]" None 0, simplified,
        OF sample_build] chain_reachable.step [of "{sample_env}" "?w sample_chain"]
    by fastforce
  show ?thesis
    using chain_status_invariant [OF r] s
    by (intro exI [of _ "?w s"]) (simp add: r gcr_certificate_chain_get_status_def)
qed

text \<open>
  C8. The asynchronous build gives what the synchronous one gives. For a chain whose certificates
  of foreign classes have DER data, the snapshot taken by
  \<^verbatim>\<open>gcr_certificate_chain_build_async\<close>, built by the thread on copies of the certificates and
  put back by \<^verbatim>\<open>gcr_certificate_chain_build_finish\<close>, results in the very same object, error and
  notifications as \<^verbatim>\<open>gcr_certificate_chain_build\<close>, and the one returns if and only if the other
  does. Every copy is replaced by the certificate it was made of.
\<close>

theorem chain_build_async_equals_build:
  assumes "\<forall>c \<in> set (certificates (pv self)). cert_original c = None"
    and "\<forall>c \<in> set (certificates (pv self)). copyable c"
  shows "obind (gcr_certificate_chain_build_async base self q r f)
      (\<lambda>data. obind (thread_build_chain env data)
        (\<lambda>res. Ret (map_option (gcr_certificate_chain_build_finish self) res))) =
    Ret (gcr_certificate_chain_build env self q r f)"
proof -
  obtain p where p: "prep_chain_private_thread_safe base (pv self) q r f = Ret (Some p)"
    by (rule prep_thread_safe_ok [OF assms])
  let ?sync = "perform_build_chain env (prep_chain_private (pv self) q r f)"
  have sync: "map_option (map_sum id cleanup_chain_private) (perform_build_chain env p) = ?sync"
    by (rule perform_thread_safe [OF assms(1) p])
  have plain: "plain p'" if "?sync = Some (Inr p')" for p'
    by (rule perform_build_chain_plain [OF that]) (use assms(1) in simp)
  have "map_option (gcr_certificate_chain_build_finish self) (perform_build_chain env p) =
      gcr_certificate_chain_build env self q r f"
  proof (cases "perform_build_chain env p")
    case None
    then show ?thesis using sync by (auto simp: gcr_certificate_chain_build_def)
  next
    case (Some res)
    show ?thesis
    proof (cases res)
      case (Inl e)
      then have "?sync = Some (Inl e)" using Some sync by auto
      then show ?thesis
        using Some Inl
        by (simp add: gcr_certificate_chain_build_def gcr_certificate_chain_build_finish_def)
    next
      case (Inr p')
      then have s: "?sync = Some (Inr (cleanup_chain_private p'))" using Some sync by auto
      then have "cleanup_chain_private (cleanup_chain_private p') = cleanup_chain_private p'"
        by (intro cleanup_plain plain)
      then show ?thesis
        using Some Inr s
        by (simp add: gcr_certificate_chain_build_def gcr_certificate_chain_build_finish_def
            take_built_def)
    qed
  qed
  then show ?thesis
    by (simp add: gcr_certificate_chain_build_async_def p thread_build_chain_def)
qed

theorem chain_build_async_equals_build_witness:
  "obind (gcr_certificate_chain_build_async 100 sample_chain [0] None 0)
      (\<lambda>data. obind (thread_build_chain sample_env data)
        (\<lambda>res. Ret (map_option (gcr_certificate_chain_build_finish sample_chain) res))) =
    Ret (gcr_certificate_chain_build sample_env sample_chain [0] None 0)"
proof -
  have "set (certificates (pv sample_chain)) = {sample_cert 1, sample_cert 3, sample_cert 2}"
    by (simp add: sample_chain_def gcr_certificate_chain_add_def gcr_certificate_chain_new_def
        new_chain_private_def g_object_notify_def Let_def insert_commute)
  then show ?thesis
    by (intro chain_build_async_equals_build) (simp_all add: sample_cert_def copyable_def)
qed

text \<open>
  C9. A build ends. Without lookups it always does. With lookups it does when the issuers found in
  the tokens do not go on without end, that is when the relation between a certificate that is not
  self-issued and its looked-up issuer that is not an anchor is well-founded.
\<close>

theorem chain_build_completes:
  assumes "wf (lookup_rel env q) \<or> f AND CHAIN_NO_LOOKUPS = CHAIN_NO_LOOKUPS"
  shows "\<exists>res. gcr_certificate_chain_build env self q r f = Some res"
proof -
  have "\<exists>res. perform_build_chain env (prep_chain_private (pv self) q r f) = Some res"
    by (rule perform_build_chain_returns) (use assms in \<open>auto simp: lookups_of_def\<close>)
  then show ?thesis by (auto simp: gcr_certificate_chain_build_def)
qed

theorem chain_build_completes_witness:
  "\<exists>res. gcr_certificate_chain_build sample_env sample_chain [0] None CHAIN_NO_LOOKUPS = Some res"
  by (rule chain_build_completes) simp

text \<open>
  The condition is needed: two authorities that certified each other (here \<open>[1]\<close> and \<open>[2]\<close>), both in
  the tokens and neither an anchor, make the loop add them to the chain in turn for ever.
\<close>

definition cross_env :: chain_env where
  "cross_env =
     \<lparr>decode_names = (\<lambda>der. Some (Some der, Some (if der = [1] then [2] else [1]))),
      find_pinned = (\<lambda>der q r. Inr False), find_anchored = (\<lambda>der q. Inr False),
      find_issuer = (\<lambda>der. Inr (Some (if der = Some [1] then (2, [2]) else (1, [1]))))\<rparr>"

lemma cross_certified_build_never_returns:
  "gcr_certificate_chain_build cross_env
     (gcr_certificate_chain_add gcr_certificate_chain_new
       (Certificate 1 PKCS11_CERTIFICATE (Some [1]) None)) q None 0 = None"
proof -
  let ?a = "Certificate 1 PKCS11_CERTIFICATE (Some [1]) None"
  let ?b = "Certificate 2 PKCS11_CERTIFICATE (Some [2]) None"
  have e: "endless cross_env q {?a, ?b}"
    by (simp add: endless_def cross_env_def sample_eval)
  show ?thesis
    by (simp add: gcr_certificate_chain_build_def gcr_certificate_chain_add_def Let_def
        gcr_certificate_chain_new_def new_chain_private_def prep_chain_private_def
        g_object_notify_def perform_build_chain_def pop_certificate_def lookups_of_def
        CHAIN_NO_LOOKUPS_def remove_index_fast_def build_loop_endless [OF e])
qed

text \<open>
  C10. What a build does with the certificates it was given. A build that fails changes nothing. One
  that succeeds on a chain with certificates keeps the endpoint, the first certificate added; every
  certificate of the built chain was in the chain before or was looked up in the tokens; purpose,
  peer and flags are recorded. Without lookups no certificate is used twice and the chain comes out
  neither pinned nor anchored. An empty chain stays empty and \<^verbatim>\<open>UNKNOWN\<close>.
\<close>

theorem chain_build_result:
  assumes ret: "gcr_certificate_chain_build env self q r f = Some (e, self')"
    and plain: "\<forall>c \<in> set (certificates (pv self)). cert_original c = None"
  shows "(e \<noteq> None \<longrightarrow> self' = self) \<and>
    (e = None \<longrightarrow>
      purpose (pv self') = Some q \<and> peer (pv self') = r \<and> flags (pv self') = f \<and>
      gcr_certificate_chain_get_endpoint self' = gcr_certificate_chain_get_endpoint self \<and>
      (status (pv self') = CHAIN_UNKNOWN \<longleftrightarrow> certificates (pv self) = []) \<and>
      (\<forall>d \<in> set (certificates (pv self')). d \<in> set (certificates (pv self)) \<or>
         f AND CHAIN_NO_LOOKUPS \<noteq> CHAIN_NO_LOOKUPS \<and>
         (\<exists>c. gcr_pkcs11_certificate_lookup_issuer env c = Inr (Some d))) \<and>
      (f AND CHAIN_NO_LOOKUPS = CHAIN_NO_LOOKUPS \<longrightarrow>
         mset (certificates (pv self')) \<subseteq># mset (certificates (pv self)) \<and>
         status (pv self') \<noteq> CHAIN_PINNED \<and> status (pv self') \<noteq> CHAIN_ANCHORED))"
proof -
  let ?p = "prep_chain_private (pv self) q r f"
  obtain res where res: "perform_build_chain env ?p = Some res"
    and s': "(e, self') =
      (case res of Inl e \<Rightarrow> (Some e, self) | Inr built \<Rightarrow> (None, take_built self built))"
    using ret by (auto simp: gcr_certificate_chain_build_def)
  show ?thesis
  proof (cases res)
    case (Inl x)
    then show ?thesis using s' by simp
  next
    case (Inr p')
    have ok: "chain_ok env p'" using perform_build_chain_ok res Inr by blast
    have b: "build_result env ?p p'" using perform_build_chain_result res Inr by blast
    have "plain p'" by (rule perform_build_chain_plain [of env ?p]) (use res Inr plain in simp_all)
    then have p': "pv self' = p'" "e = None" using s' Inr cleanup_plain by simp_all
    have l: "lookups_of p' \<longleftrightarrow> lookups_of ?p"
      using b by (simp add: build_result_def lookups_of_def)
    then have np: "status p' \<noteq> CHAIN_PINNED \<and> status p' \<noteq> CHAIN_ANCHORED" if "\<not> lookups_of ?p"
      using that ok by auto
    have "gcr_certificate_chain_get_endpoint self' = gcr_certificate_chain_get_endpoint self"
      using b p'(1) by (cases "certificates p'"; cases "certificates (pv self)")
        (auto simp: build_result_def gcr_certificate_chain_get_endpoint_def)
    then show ?thesis
      using b np p' unfolding build_result_def by (simp add: lookups_of_def)
  qed
qed

theorem chain_build_result_witness:
  "\<exists>self'. gcr_certificate_chain_build sample_env sample_chain [0] None 0 = Some (None, self') \<and>
     gcr_certificate_chain_get_endpoint self' = Some (sample_cert 1)"
proof -
  obtain self' where r: "gcr_certificate_chain_build sample_env sample_chain [0] None 0 =
      Some (None, self')"
    using sample_build by blast
  have "\<forall>c \<in> set (certificates (pv sample_chain)). cert_original c = None"
    by (simp add: sample_chain_def gcr_certificate_chain_add_def gcr_certificate_chain_new_def
        new_chain_private_def g_object_notify_def Let_def sample_cert_def)
  moreover have "gcr_certificate_chain_get_endpoint sample_chain = Some (sample_cert 1)"
    by (simp add: sample_chain_def gcr_certificate_chain_add_def gcr_certificate_chain_new_def
        new_chain_private_def g_object_notify_def Let_def gcr_certificate_chain_get_endpoint_def)
  ultimately show ?thesis using chain_build_result [OF r] r by simp
qed

end
