(* ===== verification/Egg_Asn1_Tlv.thy ===== *)
theory Egg_Asn1_Tlv
  imports Egg_Prelude "HOL-Library.List_Lexorder" "HOL-Library.Multiset"
begin

text \<open>
  The TLV layer of the ASN.1 engine, \<^verbatim>\<open>src/egg/egg-asn1x.c\<close>: parsing of DER and BER data into a tree
  of \<^verbatim>\<open>Atlv\<close>, writing of such a tree, the sorting of the elements of a SET OF, and the two functions
  that look at a raw element.

  The readable memory from \<^verbatim>\<open>at\<close> on is the list of its octets, and \<^verbatim>\<open>end - at\<close> a number; a read
  behind the readable memory is \<open>Undef\<close>. \<^verbatim>\<open>guint\<close> accumulators are 32-bit words, with their wrap-around; a
  \<^verbatim>\<open>gint\<close> length is an \<open>int\<close> read off such a word by \<open>sint\<close>; the count of octets, a
  \<^verbatim>\<open>guint\<close> too, goes through \<open>wrap32\<close>.

  The chain of children (\<^verbatim>\<open>child\<close> and \<^verbatim>\<open>next\<close> pointers) is the list of the children with what the
  \<^verbatim>\<open>next\<close> of the last one points to: nothing, or again one of them (\<open>chain_loop\<close>), which is
  what sorting can leave behind.

  Parsing recurses into the data and comes back with the position it reached, so the functions have
  fuel; \<open>parse_fuel_enough\<close> shows that one unit per octet and one more is always enough.
\<close>

section \<open>Trees\<close>

definition ASN1_CLASS_UNIVERSAL :: byte where "ASN1_CLASS_UNIVERSAL = 0"
definition ASN1_CLASS_STRUCTURED :: byte where "ASN1_CLASS_STRUCTURED = 0x20"

text \<open>The fields that are used during encoding only.\<close>

record encoding =
  bits_empty :: nat
  prefix_for_bit_string :: bool
  prefix_with_zero_byte :: bool
  sorted_set :: bool

definition no_encoding :: encoding where
  "no_encoding = \<lparr>bits_empty = 0, prefix_for_bit_string = False, prefix_with_zero_byte = False,
     sorted_set = False\<rparr>"

datatype Atlv =
  Atlv (tlv_cls: byte) (tlv_tag: nat) (tlv_off: int) (tlv_len: int)
    (tlv_value: "byte list option") (tlv_decoded: "byte list option")
    (tlv_children: "Atlv list") (chain_loop: "nat option") (tlv_encoding: encoding)

text \<open>\<^verbatim>\<open>atlv_new\<close>: all fields are zero.\<close>

definition atlv_new :: Atlv where
  "atlv_new = Atlv 0 0 0 0 None None [] None no_encoding"

section \<open>Parsing\<close>

text \<open>
  The loop over the octets of a long tag: \<open>rest\<close> are the octets from \<open>punt\<close> on. It allows
  \<^verbatim>\<open>punt <= n_data\<close>, so it reads the octet behind the end when none before ends the tag.
\<close>

fun tag_loop :: "nat \<Rightarrow> byte list \<Rightarrow> nat \<Rightarrow> 32 word \<Rightarrow> (nat \<times> 32 word) option outcome" where
  "tag_loop n_data [] punt ris = (if punt \<le> n_data then Undef else Ret (Some (punt, ris)))"
| "tag_loop n_data (val # rest) punt ris =
     (if punt \<le> n_data then
        let ris1 = ris * 128 in
        if ris1 < ris then Ret None
        else
          let ris2 = ris1 + ucast (val AND 0x7F) in
          if ris2 < ris1 then Ret None
          else if val AND 0x7F = val then Ret (Some (Suc punt, ris2))
          else tag_loop n_data rest (Suc punt) ris2
      else Ret (Some (punt, ris)))"

text \<open>Class, tag and the number of octets they take; \<open>None\<close> stands for \<^verbatim>\<open>FALSE\<close>.\<close>

definition atlv_parse_cls_tag ::
  "byte list \<Rightarrow> nat \<Rightarrow> (byte \<times> nat \<times> nat) option outcome" where
  "atlv_parse_cls_tag d n =
     (let n_data = wrap32 n in
      if n_data < 2 then Ret None
      else
        let cls = d ! 0 AND 0xE0 in
        if d ! 0 AND 0x1F \<noteq> 0x1F then Ret (Some (cls, unat (d ! 0 AND 0x1F), 1))
        else
          obind (tag_loop n_data (tl d) 1 0)
            (\<lambda>r. case r of
               None \<Rightarrow> Ret None
             | Some (punt, ris) \<Rightarrow>
                 if n_data \<le> punt then Ret None else Ret (Some (cls, unat ris, punt))))"

fun length_loop :: "nat \<Rightarrow> nat \<Rightarrow> byte list \<Rightarrow> nat \<Rightarrow> 32 word \<Rightarrow> (nat \<times> 32 word) option outcome" where
  "length_loop n_data k [] punt ans =
     (if punt \<le> k \<and> punt < n_data then Undef else Ret (Some (punt, ans)))"
| "length_loop n_data k (b # rest) punt ans =
     (if punt \<le> k \<and> punt < n_data then
        let ans1 = ans * 256 in
        if ans1 < ans then Ret None
        else
          let ans2 = ans1 + ucast b in
          if ans2 < ans1 then Ret None
          else length_loop n_data k rest (Suc punt) ans2
      else Ret (Some (punt, ans)))"

text \<open>The length and the number of octets it takes: -1 for an indefinite length, -2 for too large.\<close>

definition atlv_parse_length :: "byte list \<Rightarrow> nat \<Rightarrow> (int \<times> nat) outcome" where
  "atlv_parse_length d n =
     g_assert (0 < n)
       (let n_data = wrap32 n in
        if d ! 0 AND 128 = 0 then Ret (uint (d ! 0), 1)
        else
          let k = unat (d ! 0 AND 0x7F) in
          if k \<noteq> 0 then
            obind (length_loop n_data k (tl d) 1 0)
              (\<lambda>r. case r of
                 None \<Rightarrow> Ret (-2, 0)
               | Some (punt, ans) \<Rightarrow> Ret (sint ans, punt))
          else Ret (-1, 1))"

definition atlv_parse_cls_tag_len ::
  "byte list \<Rightarrow> nat \<Rightarrow> (byte \<times> nat \<times> nat \<times> int) option outcome" where
  "atlv_parse_cls_tag_len d n =
     obind (atlv_parse_cls_tag d n)
       (\<lambda>r. case r of
          None \<Rightarrow> Ret None
        | Some (cls, tag, cb1) \<Rightarrow>
            obind (atlv_parse_length (drop cb1 d) (n - cb1))
              (\<lambda>(len, cb2).
                 if len < -1 then Ret None
                 else if 0 \<le> len \<and> int n < int (cb1 + cb2) + len then Ret None
                 else Ret (Some (cls, tag, cb1 + cb2, len))))"

text \<open>
  Results of the functions with fuel: \<open>None\<close> when it is used up, else an outcome that is the message
  of a failure or a value.
\<close>

type_synonym 'a parse = "(string + 'a) outcome option"

definition pbind :: "'a parse \<Rightarrow> ('a \<Rightarrow> 'b parse) \<Rightarrow> 'b parse" where
  "pbind m f =
     (case m of
        None \<Rightarrow> None
      | Some Abort \<Rightarrow> Some Abort
      | Some Undef \<Rightarrow> Some Undef
      | Some (Ret (Inl e)) \<Rightarrow> Some (Ret (Inl e))
      | Some (Ret (Inr x)) \<Rightarrow> f x)"

text \<open>
  \<open>atlv_parse_der_tag\<close> parses the element at \<open>at\<close> whose header was read before, and
  \<open>parse_children\<close> is its loop over the elements inside, up to \<open>stop\<close>.
\<close>

fun atlv_parse_der_tag ::
  "nat \<Rightarrow> byte list \<Rightarrow> byte \<Rightarrow> nat \<Rightarrow> nat \<Rightarrow> int \<Rightarrow> nat \<Rightarrow> (Atlv \<times> nat) parse" and
  parse_children ::
  "nat \<Rightarrow> byte list \<Rightarrow> int \<Rightarrow> nat \<Rightarrow> nat \<Rightarrow> (Atlv list \<times> nat) parse" where
  "atlv_parse_der_tag 0 data cls tag off len at = None"
| "atlv_parse_der_tag (Suc fuel) data cls tag off len at =
     (if length data < at then Some Abort
      else if \<not> int at + int off + len \<le> int (length data)
      then Some (Ret (Inl ''invalid length of tlv''))
      else if len < 0 \<and> cls AND ASN1_CLASS_STRUCTURED = 0
      then Some (Ret (Inl ''indefinite length on non-structured type''))
      else if cls AND ASN1_CLASS_STRUCTURED \<noteq> 0
      then
        pbind (parse_children fuel data len
                 (if 0 \<le> len then at + off + nat len else length data) (at + off))
          (\<lambda>(children, at').
             Some (Ret (Inr (Atlv cls tag (int off) len None
                               (Some (take (at' - at) (drop at data))) children None no_encoding,
                             at'))))
      else
        Some (Ret (Inr (Atlv cls tag (int off) len (Some (take (nat len) (drop (at + off) data)))
                          (Some (take (off + nat len) (drop at data))) [] None no_encoding,
                        at + off + nat len))))"
| "parse_children 0 data len stop at = None"
| "parse_children (Suc fuel) data len stop at =
     (if at < stop then
        (case atlv_parse_cls_tag_len (drop at data) (stop - at) of
           Abort \<Rightarrow> Some Abort
         | Undef \<Rightarrow> Some Undef
         | Ret None \<Rightarrow> Some (Ret (Inl ''content is not encoded properly''))
         | Ret (Some (ccls, ctag, coff, clen)) \<Rightarrow>
             if len < 0 \<and> ccls = ASN1_CLASS_UNIVERSAL \<and> ctag = 0 \<and> clen = 0
             then Some (Ret (Inr ([], at + coff)))
             else
               pbind (atlv_parse_der_tag fuel data ccls ctag coff clen at)
                 (\<lambda>(child, at').
                    pbind (parse_children fuel data len stop at')
                      (\<lambda>(children, at''). Some (Ret (Inr (child # children, at''))))))
      else Some (Ret (Inr ([], at))))"

text \<open>
  \<open>Inl\<close> of the message of a failure, or the tree of all of the data.  The argument is what
  \<^verbatim>\<open>g_bytes_get_data\<close> gives: \<open>None\<close> is a \<^verbatim>\<open>NULL\<close> pointer, which empty data may have.
  The \<^verbatim>\<open>g_return_val_if_fail\<close> on it returns \<^verbatim>\<open>FALSE\<close>, the null pointer that stands for
  success, and leaves the element as the callers made it by \<^verbatim>\<open>atlv_new\<close>.
\<close>

definition atlv_parse_der :: "byte list option \<Rightarrow> (string + Atlv) outcome" where
  "atlv_parse_der bytes =
     (case bytes of
        None \<Rightarrow> Ret (Inr atlv_new)
      | Some data \<Rightarrow>
          obind (atlv_parse_cls_tag_len data (length data))
            (\<lambda>r. case r of
               None \<Rightarrow> Ret (Inl ''content is not encoded properly'')
             | Some (cls, tag, off, len) \<Rightarrow>
                 (case atlv_parse_der_tag (Suc (length data)) data cls tag off len 0 of
                    None \<Rightarrow> Undef
                  | Some m \<Rightarrow>
                      obind m
                        (\<lambda>q. case q of
                           Inl e \<Rightarrow> Ret (Inl e)
                         | Inr (tlv, at) \<Rightarrow>
                             if at \<noteq> length data then Ret (Inl ''extra unexpected trailing data'')
                             else Ret (Inr tlv)))))"

subsection \<open>Raw elements\<close>

text \<open>
  \<^verbatim>\<open>egg_asn1x_element_length\<close>: the sum of header and content is a \<^verbatim>\<open>gint\<close>, whose overflow is
  undefined. \<^verbatim>\<open>egg_asn1x_element_content\<close>: where the content starts and its length.
\<close>

definition egg_asn1x_element_length :: "byte list \<Rightarrow> int outcome" where
  "egg_asn1x_element_length d =
     obind (atlv_parse_cls_tag d (length d))
       (\<lambda>r. case r of
          None \<Rightarrow> Ret (-1)
        | Some (cls, tag, cb) \<Rightarrow>
            obind (atlv_parse_length (drop cb d) (length d - cb))
              (\<lambda>(len, cb2).
                 if 0 \<le> len then
                   if 2 ^ 31 \<le> len + int (cb + cb2) then Undef
                   else if len + int (cb + cb2) \<le> int (length d)
                   then Ret (len + int (cb + cb2)) else Ret (-1)
                 else Ret (-1)))"

definition egg_asn1x_element_content :: "byte list \<Rightarrow> (nat \<times> nat) option outcome" where
  "egg_asn1x_element_content d =
     obind (atlv_parse_cls_tag d (length d))
       (\<lambda>r. case r of
          None \<Rightarrow> Ret None
        | Some (cls, tag, cb) \<Rightarrow>
            obind (atlv_parse_length (drop cb d) (length d - cb))
              (\<lambda>(len, cb2).
                 if len < 0 then Ret None else Ret (Some (cb + cb2, nat len))))"

section \<open>Writing\<close>

text \<open>The octets of a number from the lowest on, in groups of the given size.\<close>

function low_groups :: "nat \<Rightarrow> nat \<Rightarrow> nat list" where
  "low_groups base n = (if n = 0 \<or> base < 2 then [] else n mod base # low_groups base (n div base))"
  by pat_completeness auto
termination
  by (relation "measure snd") (auto intro: div_less_dividend)

declare low_groups.simps [simp del]

definition atlv_unparse_len :: "nat \<Rightarrow> byte list" where
  "atlv_unparse_len len =
     (if len < 128 then [of_nat len]
      else
        let temp = map of_nat (low_groups 256 len) in
        ((of_nat (length temp) AND 0x7F) + 128) # rev temp)"

text \<open>
  The header of an element. A \<^verbatim>\<open>gint\<close> length becomes a \<^verbatim>\<open>gulong\<close> first. The groups of a long tag
  have the high bit set, except for the last one.
\<close>

definition gulong_of_gint :: "int \<Rightarrow> nat" where
  "gulong_of_gint i = nat (i mod 2 ^ 64)"

definition unparse_tag :: "byte \<Rightarrow> nat \<Rightarrow> byte list" where
  "unparse_tag cls tag =
     (if tag < 31 then [(cls AND 0xE0) + (of_nat tag AND 0x1F)]
      else
        let data = ((cls AND 0xE0) + 31) # map (\<lambda>t. of_nat t + 128) (rev (low_groups 128 tag)) in
        data[length data - 1 := last data - 128])"

text \<open>
  With no area to write to (\<^verbatim>\<open>NULL\<close>) only the size of the header is computed. The groups of a long
  tag go through an array of eight octets; the tags of the definitions and of parsed data have 32
  bits, which are five groups at most.
\<close>

definition header_size :: "byte \<Rightarrow> nat \<Rightarrow> int \<Rightarrow> nat" where
  "header_size cls tag len =
     length (unparse_tag cls tag) + length (atlv_unparse_len (gulong_of_gint len))"

definition atlv_unparse_cls_tag_len ::
  "nat \<Rightarrow> byte \<Rightarrow> nat \<Rightarrow> int \<Rightarrow> byte list outcome" where
  "atlv_unparse_cls_tag_len n_data cls tag len =
     (if 8 < length (low_groups 128 tag) then Undef
      else g_assert (length (unparse_tag cls tag) \<le> n_data)
       (let l = atlv_unparse_len (gulong_of_gint len) in
        if n_data < length (unparse_tag cls tag) + length l then Undef
        else Ret (unparse_tag cls tag @ l)))"

text \<open>
  What \<^verbatim>\<open>atlv_unparse_der\<close> writes for a value: the number of empty bits of a bit string and its
  octets with these bits cleared, an unsigned integer behind a zero octet, or the octets as they are.
  The number of empty bits is a bit field of three bits (at most 7), so the shift is defined.
  \<^verbatim>\<open>memcpy\<close> does not look at the end of the area.
\<close>

definition clear_bits :: "nat \<Rightarrow> byte list \<Rightarrow> byte list" where
  "clear_bits unused buf =
     (if buf \<noteq> [] \<and> unused \<noteq> 0
      then buf[length buf - 1 := last buf AND NOT (drop_bit (8 - unused) 0xFF)] else buf)"

definition unparse_value :: "nat \<Rightarrow> Atlv \<Rightarrow> byte list \<Rightarrow> byte list outcome" where
  "unparse_value room tlv buf =
     (let enc = tlv_encoding tlv;
          w = (if prefix_for_bit_string enc
               then of_nat (bits_empty enc) # clear_bits (bits_empty enc) buf
               else if prefix_with_zero_byte enc then 0 # buf
               else buf) in
      g_assert (int (length w) = tlv_len tlv)
        (if room < length w then Undef else Ret w))"

text \<open>
  \<open>room\<close> is the number of octets between \<^verbatim>\<open>*at\<close> and \<^verbatim>\<open>end\<close>. The loop over the children follows
  the \<^verbatim>\<open>next\<close> pointers, so it goes round where the chain does; \<open>todo\<close> are the children up to the
  last one. Every element takes octets, so the room bounds the number of rounds.
\<close>

fun atlv_unparse_der :: "nat \<Rightarrow> nat \<Rightarrow> Atlv \<Rightarrow> byte list outcome option" and
  unparse_children ::
  "nat \<Rightarrow> nat \<Rightarrow> Atlv list \<Rightarrow> nat option \<Rightarrow> Atlv list \<Rightarrow> byte list outcome option" where
  "atlv_unparse_der 0 room tlv = None"
| "atlv_unparse_der (Suc fuel) room tlv =
     (case atlv_unparse_cls_tag_len room (tlv_cls tlv) (tlv_tag tlv) (tlv_len tlv) of
        Abort \<Rightarrow> Some Abort
      | Undef \<Rightarrow> Some Undef
      | Ret h \<Rightarrow>
          if int (length h) \<noteq> tlv_off tlv then Some Abort
          else
            map_option (\<lambda>m. obind m (\<lambda>w. Ret (h @ w)))
              (case tlv_value tlv of
                 Some buf \<Rightarrow> Some (unparse_value (room - length h) tlv buf)
               | None \<Rightarrow>
                   unparse_children fuel (room - length h) (tlv_children tlv) (chain_loop tlv)
                     (tlv_children tlv)))"
| "unparse_children 0 room every back todo = None"
| "unparse_children (Suc fuel) room every back [] =
     (case back of
        None \<Rightarrow> Some (Ret [])
      | Some j \<Rightarrow>
          if drop j every = [] then Some (Ret [])
          else unparse_children fuel room every back (drop j every))"
| "unparse_children (Suc fuel) room every back (ctlv # todo) =
     (case atlv_unparse_der fuel room ctlv of
        None \<Rightarrow> None
      | Some Abort \<Rightarrow> Some Abort
      | Some Undef \<Rightarrow> Some Undef
      | Some (Ret w) \<Rightarrow>
          if int (length w) \<noteq> tlv_len ctlv + tlv_off ctlv then Some Abort
          else map_option (\<lambda>m. obind m (\<lambda>w'. Ret (w @ w')))
                 (unparse_children fuel (room - length w) every back todo))"

text \<open>
  \<^verbatim>\<open>atlv_unparse_to_bytes\<close>. The parameter is what the allocator does for a size: memory
  (\<open>Ret True\<close>), \<^verbatim>\<open>NULL\<close> (\<open>Ret False\<close>) or an abort, as \<^verbatim>\<open>g_malloc\<close> when there is none. The result
  \<open>None\<close> is \<^verbatim>\<open>NULL\<close>. The sum of two \<^verbatim>\<open>gint\<close> must not overflow.
\<close>

definition atlv_unparse_to_bytes ::
  "(nat \<Rightarrow> bool outcome) \<Rightarrow> Atlv \<Rightarrow> byte list option outcome" where
  "atlv_unparse_to_bytes alloc tlv =
     (let len = tlv_off tlv + tlv_len tlv in
      if 2 ^ 31 \<le> len then Undef
      else if len = 0 then Ret None
      else
        obind (alloc (gulong_of_gint len))
          (\<lambda>ok. if \<not> ok then Ret None
             else
               case atlv_unparse_der (2 * gulong_of_gint len + 1) (gulong_of_gint len) tlv of
                 None \<Rightarrow> Undef
               | Some m \<Rightarrow> obind m (\<lambda>w. g_assert (int (length w) = len) (Ret (Some w)))))"

subsection \<open>Sorting the elements of a set\<close>

fun unparse_pairs ::
  "(nat \<Rightarrow> bool outcome) \<Rightarrow> Atlv list \<Rightarrow> byte list list option outcome" where
  "unparse_pairs alloc [] = Ret (Some [])"
| "unparse_pairs alloc (ctlv # rest) =
     obind (atlv_unparse_to_bytes alloc ctlv)
       (\<lambda>r. case r of
          None \<Rightarrow> Ret None
        | Some bytes \<Rightarrow>
            obind (unparse_pairs alloc rest) (\<lambda>q. Ret (map_option ((#) bytes) q)))"

text \<open>
  The order of the children after sorting, as indices into their list before: the pairs are put in
  front of the list one by one and the sort is stable. Octets are compared as unsigned numbers, a
  shorter area before its extensions (\<^verbatim>\<open>g_bytes_compare\<close>).
\<close>

definition sorted_order :: "byte list list \<Rightarrow> nat list" where
  "sorted_order bytes = sort_key (\<lambda>i. bytes ! i) (rev [0..<length bytes])"

text \<open>
  Each child but the last of the new order gets its new successor; the last one keeps the \<^verbatim>\<open>next\<close>
  pointer it had.
\<close>

definition kept_next :: "nat list \<Rightarrow> nat option" where
  "kept_next order =
     (if order = [] then None
      else if Suc (last order) < length order
      then Some (length (takeWhile (\<lambda>i. i \<noteq> Suc (last order)) order)) else None)"

fun atlv_sort_perform :: "(nat \<Rightarrow> bool outcome) \<Rightarrow> Atlv \<Rightarrow> Atlv outcome" and
  sort_children :: "(nat \<Rightarrow> bool outcome) \<Rightarrow> Atlv list \<Rightarrow> Atlv list outcome" where
  "atlv_sort_perform alloc (Atlv cls tag off len val dec cs back enc) =
     (if back \<noteq> None then Undef
      else
        obind (sort_children alloc cs)
          (\<lambda>cs'.
             if \<not> sorted_set enc then Ret (Atlv cls tag off len val dec cs' None enc)
             else
               obind (unparse_pairs alloc cs')
                 (\<lambda>r. case r of
                    None \<Rightarrow> Ret (Atlv cls tag off len val dec cs' None enc)
                  | Some bytes \<Rightarrow>
                      let order = sorted_order bytes in
                      Ret (Atlv cls tag off len val dec (map ((!) cs') order) (kept_next order)
                             enc))))"
| "sort_children alloc [] = Ret []"
| "sort_children alloc (c # cs) =
     obind (atlv_sort_perform alloc c)
       (\<lambda>c'. obind (sort_children alloc cs) (\<lambda>cs'. Ret (c' # cs')))"

text \<open>The end of \<^verbatim>\<open>egg_asn1x_encode\<close>: sort, then write.\<close>

definition encode_tlv :: "(nat \<Rightarrow> bool outcome) \<Rightarrow> Atlv \<Rightarrow> byte list option outcome" where
  "encode_tlv alloc tlv = obind (atlv_sort_perform alloc tlv) (atlv_unparse_to_bytes alloc)"

section \<open>Numbers in groups\<close>

definition horner :: "nat \<Rightarrow> nat \<Rightarrow> nat list \<Rightarrow> nat" where
  "horner base a ds = foldl (\<lambda>a d. a * base + d) a ds"

lemma horner_simps [simp]:
  "horner base a [] = a" "horner base a (d # ds) = horner base (a * base + d) ds"
  "horner base a (ds @ es) = horner base (horner base a ds) es"
  by (simp_all add: horner_def)

lemma horner_ge: "1 \<le> base \<Longrightarrow> a \<le> horner base a ds"
proof (induction ds arbitrary: a)
  case (Cons d ds)
  have "a * 1 \<le> a * base" by (rule mult_le_mono2) (rule Cons.prems)
  then have "a \<le> a * base + d" by linarith
  also have "\<dots> \<le> horner base (a * base + d) ds" by (rule Cons.IH) (rule Cons.prems)
  finally show ?case by simp
qed simp

lemma low_groups_0 [simp]: "low_groups base 0 = []"
  by (subst low_groups.simps) simp

lemma low_groups_step:
  "0 < n \<Longrightarrow> 2 \<le> base \<Longrightarrow> low_groups base n = n mod base # low_groups base (n div base)"
  by (subst low_groups.simps) simp

lemma horner_low_groups: "2 \<le> base \<Longrightarrow> horner base 0 (rev (low_groups base n)) = n"
proof (induction n rule: less_induct)
  case (less n)
  show ?case
  proof (cases "n = 0")
    case False
    then have "n div base < n" using less.prems by simp
    then have "horner base 0 (rev (low_groups base (n div base))) = n div base"
      by (rule less.IH) (rule less.prems)
    then show ?thesis using False less.prems by (subst low_groups_step) simp_all
  qed simp
qed

lemma low_groups_less: "2 \<le> base \<Longrightarrow> \<forall>d \<in> set (low_groups base n). d < base"
proof (induction n rule: less_induct)
  case (less n)
  show ?case
  proof (cases "n = 0")
    case False
    then have "n div base < n" using less.prems by simp
    then have "\<forall>d \<in> set (low_groups base (n div base)). d < base"
      by (rule less.IH) (rule less.prems)
    then show ?thesis using False less.prems by (subst low_groups_step) simp_all
  qed simp
qed

lemma length_low_groups:
  "2 \<le> base \<Longrightarrow> n < base ^ k \<Longrightarrow> length (low_groups base n) \<le> k"
proof (induction k arbitrary: n)
  case (Suc k)
  show ?case
  proof (cases "n = 0")
    case False
    have "n div base < base ^ k"
      using Suc.prems by (simp add: less_mult_imp_div_less mult.commute)
    then show ?thesis using Suc False by (subst low_groups_step) simp_all
  qed simp
qed simp

lemma low_groups_not_Nil: "0 < n \<Longrightarrow> 2 \<le> base \<Longrightarrow> low_groups base n \<noteq> []"
  by (subst low_groups_step) simp_all

section \<open>Headers\<close>

text \<open>The accumulators of both loops stay exact while the number fits in 32 bits.\<close>

lemma group_step:
  fixes ans :: "32 word"
  assumes "unat ans * base + d < 2 ^ 32" and "1 \<le> base" and "base < 2 ^ 32"
    and x: "unat x = d"
  shows "\<not> ans * of_nat base < ans" and "unat (ans * of_nat base + x) = unat ans * base + d"
    and "\<not> ans * of_nat base + x < ans * of_nat base"
proof -
  have b: "unat (of_nat base :: 32 word) = base"
    using assms(3) by (simp add: unat_of_nat)
  have m: "unat (ans * of_nat base) = unat ans * base"
    using assms(1) b by (simp add: unat_mult_lem [THEN iffD1])
  then show "\<not> ans * of_nat base < ans"
    using assms(2) by (simp add: word_less_nat_alt)
  show s: "unat (ans * of_nat base + x) = unat ans * base + d"
    using assms(1) m x by (simp add: unat_add_lem [THEN iffD1])
  show "\<not> ans * of_nat base + x < ans * of_nat base"
    using s m x by (simp add: word_less_nat_alt)
qed

lemma unat_ucast_byte: "unat (ucast (b :: byte) :: 32 word) = unat b"
  by transfer (simp add: take_bit_take_bit)

lemma short_byte:
  assumes "len < 128"
  shows "(of_nat len :: byte) AND 128 = 0" and "uint (of_nat len :: byte) = int len"
proof -
  have "len \<in> set [0..<128]" using assms by simp
  then show "(of_nat len :: byte) AND 128 = 0"
    by (simp add: upt_conv_Cons) (elim disjE; simp)
  show "uint (of_nat len :: byte) = int len"
    using assms by (simp add: unsigned_of_nat take_bit_nat_eq_self)
qed

lemma sint_small:
  assumes "unat (w :: 32 word) < 2 ^ 31"
  shows "sint w = int (unat w)"
proof -
  have "int (unat w) < int (2 ^ 31)" using assms by (simp only: of_nat_less_iff)
  then have "uint w < 2 ^ 31" by simp
  moreover have "0 \<le> uint w" by simp
  ultimately have "signed_take_bit 31 (uint w) = uint w"
    by (intro signed_take_bit_int_eq_self) linarith+
  then show ?thesis by (simp add: sint_uint)
qed

lemma length_loop_exact:
  assumes "punt + length bs = Suc k" and "k < n_data"
    and "horner 256 (unat ans) (map unat bs) < 2 ^ 32"
  shows "\<exists>ans'. length_loop n_data k (bs @ rest) punt ans = Ret (Some (Suc k, ans')) \<and>
     unat ans' = horner 256 (unat ans) (map unat bs)"
  using assms
proof (induction bs arbitrary: punt ans)
  case Nil
  then show ?case by (cases rest) simp_all
next
  case (Cons b bs)
  have "unat ans * 256 + unat b < 2 ^ 32"
    using Cons.prems(3) horner_ge [of 256 "unat ans * 256 + unat b" "map unat bs"] by simp
  moreover have "unat (ucast b :: 32 word) = unat b" by (rule unat_ucast_byte)
  ultimately have g: "\<not> ans * 256 < ans" "unat (ans * 256 + ucast b) = unat ans * 256 + unat b"
    "\<not> ans * 256 + ucast b < ans * 256"
    using group_step [of ans 256 "unat b" "ucast b"] by simp_all
  have "\<exists>ans'. length_loop n_data k (bs @ rest) (Suc punt) (ans * 256 + ucast b) =
      Ret (Some (Suc k, ans')) \<and>
    unat ans' = horner 256 (unat (ans * 256 + ucast b)) (map unat bs)"
    using Cons.prems by (intro Cons.IH) (simp_all add: g(2))
  then show ?case using Cons.prems g by simp
qed

lemma unat_low_byte: "d < 256 \<Longrightarrow> unat (of_nat d :: byte) = d"
  by (simp add: unat_of_nat)

lemma map_unat_low_groups:
  "map unat (map of_nat (low_groups 256 n) :: byte list) = low_groups 256 n"
  using low_groups_less [of 256 n] by (auto intro!: map_idI simp: unat_low_byte)

lemma length_octets_count:
  assumes "128 \<le> len" and "len < 2 ^ 32"
  shows "0 < length (low_groups 256 len)" and "length (low_groups 256 len) \<le> 4"
  using assms low_groups_not_Nil [of len 256] length_low_groups [of 256 len 4] by simp_all

lemma atlv_parse_length_unparse:
  assumes "len < 2 ^ 31" and "length (atlv_unparse_len len) \<le> n" and "n < 2 ^ 32"
  shows "atlv_parse_length (atlv_unparse_len len @ rest) n =
    Ret (int len, length (atlv_unparse_len len))"
proof (cases "len < 128")
  case True
  show ?thesis
    using True assms short_byte [OF True]
    by (simp add: atlv_parse_length_def atlv_unparse_len_def)
next
  case False
  let ?t = "low_groups 256 len"
  let ?k = "length ?t"
  let ?bs = "rev (map of_nat ?t) :: byte list"
  let ?b = "(of_nat ?k AND 0x7F) + 128 :: byte"
  have k: "0 < ?k" "?k \<le> 4" using length_octets_count [of len] False assms(1) by simp_all
  then have "?k = 1 \<or> ?k = 2 \<or> ?k = 3 \<or> ?k = 4" by linarith
  then have b: "?b AND 128 \<noteq> 0" "unat (?b AND 0x7F) = ?k" by auto
  have u: "atlv_unparse_len len = ?b # ?bs" using False by (simp add: atlv_unparse_len_def)
  have n: "wrap32 n = n" "?k < n" using assms u by (simp_all add: wrap32_id)
  have "map unat ?bs = rev ?t" by (simp only: rev_map [symmetric] map_unat_low_groups)
  then have h: "horner 256 0 (map unat ?bs) = len" by (simp only: horner_low_groups)
  then obtain ans where "length_loop n ?k (?bs @ rest) 1 0 = Ret (Some (Suc ?k, ans))"
    "unat ans = len"
    using length_loop_exact [of 1 ?bs ?k n 0 rest] n(2) assms(1) by auto
  moreover from this(2) have "sint ans = int len"
    using assms(1) by (simp add: sint_small)
  ultimately show ?thesis
    using b u n k by (simp add: atlv_parse_length_def Let_def)
qed


text \<open>The octets of a long tag.\<close>

lemma tag_bytes:
  assumes "d < 128"
  shows "(of_nat d :: byte) AND 0x7F = of_nat d" and "((of_nat d :: byte) + 128) AND 0x7F = of_nat d"
    and "(of_nat d :: byte) + 128 \<noteq> of_nat d" and "unat (of_nat d :: byte) = d"
proof -
  have "d \<in> set [0..<128]" using assms by simp
  then show "(of_nat d :: byte) AND 0x7F = of_nat d" "((of_nat d :: byte) + 128) AND 0x7F = of_nat d"
    by (simp_all add: upt_conv_Cons) (elim disjE; simp)+
  show "(of_nat d :: byte) + 128 \<noteq> of_nat d" by simp
  show "unat (of_nat d :: byte) = d" using assms by (simp add: unat_of_nat)
qed

lemma tag_loop_exact:
  assumes "punt + length ds \<le> n_data" and "\<forall>x \<in> set ds. x < 128" and "d < 128"
    and "horner 128 (unat ris) (ds @ [d]) < 2 ^ 32"
  shows "\<exists>ris'. tag_loop n_data (map (\<lambda>x. of_nat x + 128) ds @ of_nat d # rest) punt ris =
       Ret (Some (Suc (punt + length ds), ris')) \<and>
     unat ris' = horner 128 (unat ris) (ds @ [d])"
  using assms
proof (induction ds arbitrary: punt ris)
  case Nil
  have "unat (ucast (of_nat d :: byte) :: 32 word) = d"
    using Nil by (simp add: unat_ucast_byte tag_bytes)
  then show ?case
    using Nil group_step [of ris 128 d "ucast (of_nat d :: byte)"] by (simp add: tag_bytes)
next
  case (Cons x ds)
  let ?b = "of_nat x + 128 :: byte"
  let ?r = "ris * 128 + ucast (of_nat x :: byte)"
  have x: "x < 128" "?b AND 0x7F = of_nat x" "?b \<noteq> of_nat x" using Cons.prems(2) tag_bytes by simp_all
  have "unat ris * 128 + x < 2 ^ 32"
    using Cons.prems(4) horner_ge [of 128 "unat ris * 128 + x" "ds @ [d]"] by simp
  moreover have "unat (ucast (of_nat x :: byte) :: 32 word) = x"
    using x by (simp add: unat_ucast_byte tag_bytes)
  ultimately have g: "\<not> ris * 128 < ris" "unat ?r = unat ris * 128 + x" "\<not> ?r < ris * 128"
    using group_step [of ris 128 x "ucast (of_nat x :: byte)"] by simp_all
  have "\<exists>ris'. tag_loop n_data (map (\<lambda>x. of_nat x + 128) ds @ of_nat d # rest) (Suc punt) ?r =
       Ret (Some (Suc (Suc punt + length ds), ris')) \<and>
     unat ris' = horner 128 (unat ?r) (ds @ [d])"
    using Cons.prems by (intro Cons.IH) (simp_all add: g(2))
  then show ?case using Cons.prems x g by (auto simp: Let_def)
qed

text \<open>The class bits of a header octet.\<close>

definition cls_ok :: "byte \<Rightarrow> bool" where
  "cls_ok cls \<longleftrightarrow> cls \<in> {0, 0x20, 0x40, 0x60, 0x80, 0xA0, 0xC0, 0xE0}"

lemma short_tag_byte:
  assumes "cls_ok cls" and "tag < 31"
  defines "b \<equiv> (cls AND 0xE0) + (of_nat tag AND 0x1F)"
  shows "b AND 0xE0 = cls" and "b AND 0x1F \<noteq> 0x1F" and "unat (b AND 0x1F) = tag"
proof -
  have t: "tag \<in> set [0..<31]" using assms(2) by simp
  show "b AND 0xE0 = cls" "b AND 0x1F \<noteq> 0x1F" "unat (b AND 0x1F) = tag"
    using assms(1) t unfolding cls_ok_def b_def
    by (simp_all add: upt_conv_Cons) (elim disjE; simp)+
qed

lemma long_tag_byte:
  "cls_ok cls \<Longrightarrow> ((cls AND 0xE0) + 31) AND 0xE0 = cls \<and> ((cls AND 0xE0) + 31) AND 0x1F = 0x1F"
  by (auto simp: cls_ok_def)

lemma unparse_tag_long:
  assumes "31 \<le> tag"
  obtains ds d where "unparse_tag cls tag =
      ((cls AND 0xE0) + 31) # map (\<lambda>x. of_nat x + 128) ds @ [of_nat d]"
    "rev (low_groups 128 tag) = ds @ [d]" "\<forall>x \<in> set ds. x < 128" "d < 128"
    "horner 128 0 (ds @ [d]) = tag"
proof -
  have ne: "rev (low_groups 128 tag) \<noteq> []" using assms low_groups_not_Nil [of tag 128] by simp
  then obtain ds d where g: "rev (low_groups 128 tag) = ds @ [d]"
    by (metis rev_exhaust)
  have "set (low_groups 128 tag) = set (ds @ [d])" by (metis g set_rev)
  then have "\<forall>x \<in> set ds. x < 128" "d < 128" using low_groups_less [of 128 tag] by auto
  moreover have "horner 128 0 (ds @ [d]) = tag" using horner_low_groups [of 128 tag] g by simp
  moreover have "unparse_tag cls tag = ((cls AND 0xE0) + 31) # map (\<lambda>x. of_nat x + 128) ds @ [of_nat d]"
    using assms by (simp add: unparse_tag_def g Let_def list_update_append)
  ultimately show ?thesis using g that by blast
qed

lemma atlv_parse_cls_tag_unparse:
  assumes "cls_ok cls" and "tag < 2 ^ 32" and "length (unparse_tag cls tag) < n" and "n < 2 ^ 32"
  shows "atlv_parse_cls_tag (unparse_tag cls tag @ rest) n =
    Ret (Some (cls, tag, length (unparse_tag cls tag)))"
proof (cases "tag < 31")
  case True
  then show ?thesis
    using assms short_tag_byte [OF assms(1) True]
    by (simp add: atlv_parse_cls_tag_def unparse_tag_def wrap32_id Let_def)
next
  case False
  then obtain ds d where u: "unparse_tag cls tag =
      ((cls AND 0xE0) + 31) # map (\<lambda>x. of_nat x + 128) ds @ [of_nat d]"
    and g: "\<forall>x \<in> set ds. x < 128" "d < 128" "horner 128 0 (ds @ [d]) = tag"
    by (metis not_less unparse_tag_long)
  have n: "wrap32 n = n" "2 \<le> n" "1 + length ds \<le> n" using assms u by (simp_all add: wrap32_id)
  obtain ris where "tag_loop n (map (\<lambda>x. of_nat x + 128) ds @ of_nat d # rest) 1 0 =
       Ret (Some (Suc (1 + length ds), ris))" "unat ris = tag"
    using tag_loop_exact [of 1 ds n d 0 rest] n(3) g assms(2) by auto
  then show ?thesis
    using u n assms(3) long_tag_byte [OF assms(1)] by (simp add: atlv_parse_cls_tag_def Let_def)
qed

text \<open>A header that was written is read back.\<close>

definition header :: "byte \<Rightarrow> nat \<Rightarrow> int \<Rightarrow> byte list" where
  "header cls tag len = unparse_tag cls tag @ atlv_unparse_len (gulong_of_gint len)"

lemma length_header: "length (header cls tag len) = header_size cls tag len"
  by (simp add: header_def header_size_def)

lemma gulong_of_gint_id [simp]: "0 \<le> i \<Longrightarrow> i < 2 ^ 31 \<Longrightarrow> gulong_of_gint i = nat i"
  by (simp add: gulong_of_gint_def)

lemma atlv_parse_header:
  assumes "cls_ok cls" and "tag < 2 ^ 32" and "0 \<le> len" and "len < 2 ^ 31"
    and "int (header_size cls tag len) + len \<le> int n" and "n < 2 ^ 32"
  shows "atlv_parse_cls_tag_len (header cls tag len @ rest) n =
    Ret (Some (cls, tag, header_size cls tag len, len))"
proof -
  let ?t = "unparse_tag cls tag" and ?l = "atlv_unparse_len (nat len)"
  have l: "0 < length ?l" by (simp add: atlv_unparse_len_def Let_def)
  have h: "header cls tag len = ?t @ ?l" "header_size cls tag len = length ?t + length ?l"
    using assms by (simp_all add: header_def header_size_def)
  have "atlv_parse_cls_tag (?t @ ?l @ rest) n = Ret (Some (cls, tag, length ?t))"
    by (rule atlv_parse_cls_tag_unparse) (use assms h l in linarith)+
  moreover have "atlv_parse_length (?l @ rest) (n - length ?t) = Ret (len, length ?l)"
    using atlv_parse_length_unparse [of "nat len" "n - length ?t" rest] assms h by simp
  ultimately show ?thesis
    using assms h by (simp add: atlv_parse_cls_tag_len_def)
qed

end
