(* ===== verification/Egg_Asn1_Der.thy ===== *)
theory Egg_Asn1_Der
  imports Egg_Asn1_Tlv
begin

text \<open>
  What the TLV layer does with whole trees: the DER encoding of a tree (\<open>der\<close>), that writing a
  tree the encoder can build gives it and parsing gives the tree ring, that parsing arbitrary data
  always comes to an end inside of the data and describes it truly, and what sorting a SET OF does.
\<close>

section \<open>The encoding of a tree\<close>

definition written :: "encoding \<Rightarrow> byte list \<Rightarrow> byte list" where
  "written enc buf =
     (if prefix_for_bit_string enc then of_nat (bits_empty enc) # clear_bits (bits_empty enc) buf
      else if prefix_with_zero_byte enc then 0 # buf
      else buf)"

fun der :: "Atlv \<Rightarrow> byte list" where
  "der (Atlv cls tag off len val dec cs ring enc) =
     header cls tag len @
     (case val of Some buf \<Rightarrow> written enc buf | None \<Rightarrow> concat (map der cs))"

text \<open>
  The trees the encoder builds: lengths and offsets are those of the parts, a value is primitive and
  children are inside of a structured element, the chain of children ends, and everything fits a
  \<^verbatim>\<open>gint\<close>.
\<close>

fun encodable :: "Atlv \<Rightarrow> bool" where
  "encodable (Atlv cls tag off len val dec cs ring enc) \<longleftrightarrow>
     cls_ok cls \<and> tag < 2 ^ 32 \<and> ring = None \<and> 0 \<le> len \<and> off + len < 2 ^ 31 \<and>
     off = int (header_size cls tag len) \<and>
     (case val of
        Some buf \<Rightarrow> cls AND ASN1_CLASS_STRUCTURED = 0 \<and> cs = [] \<and> len = int (length (written enc buf))
      | None \<Rightarrow>
          cls AND ASN1_CLASS_STRUCTURED \<noteq> 0 \<and> (\<forall>c \<in> set cs. encodable c) \<and>
          len = (\<Sum>c \<leftarrow> cs. tlv_off c + tlv_len c))"

text \<open>The tree as the parser sees it: what was written as value, and the encoding of each part.\<close>

fun parsed :: "Atlv \<Rightarrow> Atlv" where
  "parsed (Atlv cls tag off len val dec cs ring enc) =
     Atlv cls tag off len (map_option (written enc) val)
       (Some (der (Atlv cls tag off len val dec cs ring enc))) (map parsed cs) None no_encoding"

lemma length_der:
  "encodable t \<Longrightarrow> int (length (der t)) = tlv_off t + tlv_len t"
proof (induction t rule: encodable.induct)
  case (1 cls tag off len val dec cs ring enc)
  show ?case
  proof (cases val)
    case None
    have "int (length (concat (map der cs))) = (\<Sum>c \<leftarrow> cs. int (length (der c)))"
      by (induction cs) simp_all
    also have "\<dots> = (\<Sum>c \<leftarrow> cs. tlv_off c + tlv_len c)"
      by (intro arg_cong [where f = sum_list] map_cong refl) (use 1 None in auto)
    finally show ?thesis using 1 None by (simp add: length_header)
  next
    case (Some buf)
    then show ?thesis using 1 by (simp add: length_header)
  qed
qed

lemma header_size_ge: "2 \<le> header_size cls tag len"
proof -
  have "0 < length (unparse_tag cls tag)" "0 < length (atlv_unparse_len (gulong_of_gint len))"
    by (simp_all add: unparse_tag_def atlv_unparse_len_def Let_def split: nat.split)
  then show ?thesis unfolding header_size_def by linarith
qed

lemma length_der_ge: "2 \<le> length (der t)"
  by (cases t) (use header_size_ge in \<open>simp add: length_header trans_le_add1\<close>)

lemma encodable_header:
  assumes "encodable t" and "length (der t) \<le> n" and "n < 2 ^ 32"
  shows "atlv_parse_cls_tag_len (der t @ rest) n =
    Ret (Some (tlv_cls t, tlv_tag t, nat (tlv_off t), tlv_len t))"
proof -
  obtain cls tag off len val dec cs ring enc where
    t: "t = Atlv cls tag off len val dec cs ring enc" by (cases t)
  show ?thesis
    using assms(1,3) length_der [OF assms(1)] assms(2) unfolding t
    by (simp add: atlv_parse_header split del: option.split)
qed

section \<open>Writing gives the encoding\<close>

definition writes :: "Atlv \<Rightarrow> bool" where
  "writes t \<longleftrightarrow>
     (\<forall>room fuel. length (der t) \<le> room \<longrightarrow> 2 * length (der t) + 1 \<le> fuel \<longrightarrow>
        atlv_unparse_der fuel room t = Some (Ret (der t)))"

lemma unparse_children_der:
  assumes "\<forall>c \<in> set todo. writes c \<and> encodable c"
    and "length (concat (map der todo)) \<le> room"
    and "2 * length (concat (map der todo)) + 2 \<le> fuel"
  shows "unparse_children fuel room every None todo = Some (Ret (concat (map der todo)))"
  using assms
proof (induction todo arbitrary: room fuel)
  case Nil
  then show ?case by (cases fuel) simp_all
next
  case (Cons c todo)
  obtain f where f: "fuel = Suc f" using Cons.prems(3) by (cases fuel) simp_all
  have c: "atlv_unparse_der f room c = Some (Ret (der c))"
    using Cons.prems f length_der_ge [of c] by (auto simp: writes_def)
  have "unparse_children f (room - length (der c)) every None todo =
      Some (Ret (concat (map der todo)))"
    using Cons.prems f length_der_ge [of c] by (intro Cons.IH) auto
  then show ?case
    using c f Cons.prems length_der [of c] by simp
qed

lemma atlv_unparse_header:
  assumes "tag < 2 ^ 32" and "header_size cls tag len \<le> room"
  shows "atlv_unparse_cls_tag_len room cls tag len = Ret (header cls tag len)"
proof -
  have "length (low_groups 128 tag) \<le> 8"
    using assms(1) by (intro length_low_groups) simp_all
  then show ?thesis
    using assms(2) by (simp add: atlv_unparse_cls_tag_len_def header_def header_size_def Let_def)
qed

lemma encodable_writes: "encodable t \<Longrightarrow> writes t"
proof (induction t)
  case (Atlv cls tag off len val dec cs ring enc)
  let ?t = "Atlv cls tag off len val dec cs ring enc"
  show ?case
    unfolding writes_def
  proof (intro allI impI)
    fix room fuel
    assume room: "length (der ?t) \<le> room" and fuel: "2 * length (der ?t) + 1 \<le> fuel"
    obtain f where f: "fuel = Suc f" using fuel by (cases fuel) simp_all
    have h: "atlv_unparse_cls_tag_len room cls tag len = Ret (header cls tag len)"
      using Atlv.prems room by (intro atlv_unparse_header) (auto simp: length_header)
    show "atlv_unparse_der fuel room ?t = Some (Ret (der ?t))"
    proof (cases val)
      case None
      have "unparse_children f (room - header_size cls tag len) cs None cs =
          Some (Ret (concat (map der cs)))"
        using Atlv None room fuel f header_size_ge [of cls tag len]
        by (intro unparse_children_der) (auto simp: length_header)
      then show ?thesis using f h None Atlv.prems by (simp add: length_header)
    next
      case (Some buf)
      then show ?thesis
        using f h Atlv.prems room
        by (simp add: length_header unparse_value_def written_def Let_def split: if_splits)
    qed
  qed
qed

lemma unparse_to_bytes_der:
  assumes "encodable t" and "alloc (length (der t)) = Ret True"
  shows "atlv_unparse_to_bytes alloc t = Ret (Some (der t))"
proof -
  have l: "tlv_off t + tlv_len t = int (length (der t))" using length_der [OF assms(1)] by simp
  have "int (length (der t)) < 2 ^ 31" using assms(1) l by (cases t) auto
  then have g: "gulong_of_gint (int (length (der t))) = length (der t)" by simp
  have "0 < length (der t)" using length_der_ge [of t] by linarith
  moreover have "atlv_unparse_der (2 * length (der t) + 1) (length (der t)) t = Some (Ret (der t))"
    using encodable_writes [OF assms(1)] unfolding writes_def by blast
  ultimately show ?thesis
    using assms(2) g l \<open>int (length (der t)) < 2 ^ 31\<close>
    by (simp add: atlv_unparse_to_bytes_def Let_def del: atlv_unparse_der.simps)
qed

section \<open>Parsing gives the tree ring\<close>

definition reads :: "Atlv \<Rightarrow> bool" where
  "reads t \<longleftrightarrow>
     (\<forall>pre post fuel. length (pre @ der t @ post) < 2 ^ 32 \<longrightarrow> length (der t) \<le> fuel \<longrightarrow>
        atlv_parse_der_tag fuel (pre @ der t @ post) (tlv_cls t) (tlv_tag t) (nat (tlv_off t))
          (tlv_len t) (length pre) =
        Some (Ret (Inr (parsed t, length pre + length (der t)))))"

lemma pbind_simps [simp]:
  "pbind (Some (Ret (Inr x))) f = f x" "pbind (Some (Ret (Inl e))) f = Some (Ret (Inl e))"
  "pbind None f = None" "pbind (Some Abort) f = Some Abort" "pbind (Some Undef) f = Some Undef"
  by (simp_all add: pbind_def)

lemma parse_children_der:
  assumes "\<forall>c \<in> set cs. reads c \<and> encodable c"
    and "length (pre @ concat (map der cs) @ post) < 2 ^ 32"
    and "length (concat (map der cs)) + 1 \<le> fuel" and "0 \<le> len"
  shows "parse_children fuel (pre @ concat (map der cs) @ post) len
      (length pre + length (concat (map der cs))) (length pre) =
    Some (Ret (Inr (map parsed cs, length pre + length (concat (map der cs)))))"
  using assms(1-3)
proof (induction cs arbitrary: pre fuel)
  case Nil
  then show ?case by (cases fuel) simp_all
next
  case (Cons c cs)
  let ?rest = "concat (map der cs) @ post"
  obtain f where f: "fuel = Suc f" using Cons.prems(3) by (cases fuel) simp_all
  have ge: "2 \<le> length (der c)" by (rule length_der_ge)
  have h: "atlv_parse_cls_tag_len (der c @ ?rest) (length (der c) + length (concat (map der cs))) =
      Ret (Some (tlv_cls c, tlv_tag c, nat (tlv_off c), tlv_len c))"
    using Cons.prems by (intro encodable_header) auto
  have c: "atlv_parse_der_tag f (pre @ der c @ ?rest) (tlv_cls c) (tlv_tag c) (nat (tlv_off c))
        (tlv_len c) (length pre) = Some (Ret (Inr (parsed c, length pre + length (der c))))"
    using Cons.prems f by (auto simp: reads_def)
  have "parse_children f ((pre @ der c) @ ?rest) len
      (length (pre @ der c) + length (concat (map der cs))) (length (pre @ der c)) =
    Some (Ret (Inr (map parsed cs, length (pre @ der c) + length (concat (map der cs)))))"
    using Cons.prems f ge by (intro Cons.IH) auto
  then have "parse_children f (pre @ der c @ ?rest) len
      (length pre + (length (der c) + length (concat (map der cs)))) (length pre + length (der c)) =
    Some (Ret (Inr (map parsed cs, length pre + (length (der c) + length (concat (map der cs))))))"
    by (simp add: add.assoc)
  moreover have "0 < length (der c)" using ge by linarith
  ultimately show ?case
    using f h c assms(4) by (simp add: add.assoc)
qed

lemma encodable_reads: "encodable t \<Longrightarrow> reads t"
proof (induction t)
  case (Atlv cls tag off len val dec cs ring enc)
  let ?t = "Atlv cls tag off len val dec cs ring enc"
  show ?case
    unfolding reads_def
  proof (intro allI impI)
    fix pre post fuel
    assume data: "length (pre @ der ?t @ post) < 2 ^ 32" and fuel: "length (der ?t) \<le> fuel"
    obtain f where f: "fuel = Suc f" using fuel length_der_ge [of ?t] by (cases fuel) simp_all
    have l: "int (length (der ?t)) = off + len" using length_der [OF Atlv.prems] by simp
    have o: "off = int (header_size cls tag len)" "0 \<le> len" using Atlv.prems by simp_all
    show "atlv_parse_der_tag fuel (pre @ der ?t @ post) (tlv_cls ?t) (tlv_tag ?t)
        (nat (tlv_off ?t)) (tlv_len ?t) (length pre) =
      Some (Ret (Inr (parsed ?t, length pre + length (der ?t))))"
    proof (cases val)
      case None
      have len: "nat len = length (concat (map der cs))"
        using l o None by (simp add: length_header)
      have "parse_children f ((pre @ header cls tag len) @ concat (map der cs) @ post) len
          (length (pre @ header cls tag len) + length (concat (map der cs)))
          (length (pre @ header cls tag len)) =
        Some (Ret (Inr (map parsed cs,
          length (pre @ header cls tag len) + length (concat (map der cs)))))"
        using Atlv None data fuel f header_size_ge [of cls tag len]
        by (intro parse_children_der) (auto simp: length_header)
      then show ?thesis
        using f o l len None Atlv.prems by (simp add: length_header add.assoc)
    next
      case (Some buf)
      then show ?thesis
        using f o l Atlv.prems by (simp add: length_header)
    qed
  qed
qed

section \<open>Parsing arbitrary data\<close>

text \<open>
  The one way in which a header is read outside of the memory: a long tag that no octet ends before
  the memory does.
\<close>

definition overruns :: "byte list \<Rightarrow> bool" where
  "overruns d \<longleftrightarrow> 2 \<le> length d \<and> d ! 0 AND 0x1F = 0x1F \<and> (\<forall>b \<in> set (tl d). b AND 0x7F \<noteq> b)"

lemma tag_loop_result:
  "tag_loop n_data rest punt ris = Ret None \<or>
   (\<exists>punt' ris'. tag_loop n_data rest punt ris = Ret (Some (punt', ris')) \<and> punt \<le> punt') \<or>
   tag_loop n_data rest punt ris = Undef \<and>
     punt + length rest \<le> n_data \<and> (\<forall>b \<in> set rest. b AND 0x7F \<noteq> b)"
proof (induction rest arbitrary: punt ris)
  case (Cons b rest)
  let ?r = "ris * 128 + ucast (b AND 0x7F)"
  show ?case
  proof (cases "punt \<le> n_data \<and> \<not> ris * 128 < ris \<and> \<not> ?r < ris * 128 \<and> b AND 0x7F \<noteq> b")
    case True
    then have "tag_loop n_data (b # rest) punt ris = tag_loop n_data rest (Suc punt) ?r"
      by (simp add: Let_def)
    then show ?thesis using Cons.IH [of "Suc punt" ?r] True by auto
  next
    case False
    then show ?thesis by (auto simp: Let_def)
  qed
qed simp

lemma wrap32_le: "wrap32 n \<le> n"
  by (simp add: wrap32_def)

lemma atlv_parse_cls_tag_result:
  assumes "n \<le> length d"
  shows "atlv_parse_cls_tag d n \<noteq> Abort"
    and "atlv_parse_cls_tag d n = Undef \<Longrightarrow> overruns d"
    and "atlv_parse_cls_tag d n = Ret (Some (cls, tag, cb)) \<Longrightarrow> 1 \<le> cb \<and> cb < n"
proof -
  have w: "wrap32 n \<le> n" by (rule wrap32_le)
  let ?loop = "tag_loop (wrap32 n) (tl d) 1 0"
  have long: "atlv_parse_cls_tag d n = obind ?loop
      (\<lambda>r. case r of None \<Rightarrow> Ret None
         | Some (punt, ris) \<Rightarrow>
             if wrap32 n \<le> punt then Ret None else Ret (Some (d ! 0 AND 0xE0, unat ris, punt)))"
    if "2 \<le> wrap32 n" "d ! 0 AND 0x1F = 0x1F"
    using that by (simp add: atlv_parse_cls_tag_def Let_def)
  have short: "atlv_parse_cls_tag d n = Ret None \<or>
      2 \<le> wrap32 n \<and> (\<exists>c t. atlv_parse_cls_tag d n = Ret (Some (c, t, 1)))"
    if "\<not> (2 \<le> wrap32 n \<and> d ! 0 AND 0x1F = 0x1F)"
    using that by (auto simp: atlv_parse_cls_tag_def Let_def)
  note r = tag_loop_result [of "wrap32 n" "tl d" 1 0]
  show "atlv_parse_cls_tag d n \<noteq> Abort"
  proof (cases "2 \<le> wrap32 n \<and> d ! 0 AND 0x1F = 0x1F")
    case True
    then show ?thesis using r long by (auto split: if_splits)
  qed (use short in auto)
  show "overruns d" if u: "atlv_parse_cls_tag d n = Undef"
  proof -
    have l: "2 \<le> wrap32 n \<and> d ! 0 AND 0x1F = 0x1F" using short u by auto
    then have "?loop = Undef" using long u r by (auto split: if_splits)
    then show ?thesis using r l assms w by (simp add: overruns_def)
  qed
  show "1 \<le> cb \<and> cb < n" if a: "atlv_parse_cls_tag d n = Ret (Some (cls, tag, cb))"
  proof (cases "2 \<le> wrap32 n \<and> d ! 0 AND 0x1F = 0x1F")
    case True
    then obtain ris where "?loop = Ret (Some (cb, ris))" "cb < wrap32 n"
      using long a r by (auto split: if_splits)
    then show ?thesis using r w by auto
  qed (use short a w in auto)
qed

lemma length_loop_result:
  assumes "n_data \<le> punt + length rest" and "punt \<le> n_data"
  shows "length_loop n_data k rest punt ans = Ret None \<or>
    (\<exists>punt' ans'. length_loop n_data k rest punt ans = Ret (Some (punt', ans')) \<and>
       punt \<le> punt' \<and> punt' \<le> n_data)"
  using assms
proof (induction rest arbitrary: punt ans)
  case (Cons b rest)
  let ?a = "ans * 256 + ucast b"
  show ?case
  proof (cases "punt \<le> k \<and> punt < n_data \<and> \<not> ans * 256 < ans \<and> \<not> ?a < ans * 256")
    case True
    then have "length_loop n_data k rest (Suc punt) ?a = Ret None \<or>
      (\<exists>punt' ans'. length_loop n_data k rest (Suc punt) ?a = Ret (Some (punt', ans')) \<and>
         Suc punt \<le> punt' \<and> punt' \<le> n_data)"
      using Cons.prems by (intro Cons.IH) simp_all
    then show ?thesis using True by auto
  next
    case False
    then show ?thesis using Cons.prems by (auto simp: Let_def)
  qed
qed auto

lemma atlv_parse_length_result:
  assumes "0 < n" and "n \<le> length d" and "n < 2 ^ 32"
  shows "\<exists>len cb. atlv_parse_length d n = Ret (len, cb) \<and> (len = -2 \<or> 1 \<le> cb \<and> cb \<le> n)"
proof -
  have w: "wrap32 n = n" using assms(3) by (rule wrap32_id)
  let ?k = "unat (d ! 0 AND 0x7F)"
  have l: "n \<le> 1 + length (tl d)" "1 \<le> n" using assms by simp_all
  show ?thesis
    using length_loop_result [OF l, of ?k 0] assms(1) w
    by (auto simp: atlv_parse_length_def Let_def)
qed

lemma atlv_parse_cls_tag_len_result:
  assumes "n \<le> length d" and "n < 2 ^ 32"
  shows "atlv_parse_cls_tag_len d n \<noteq> Abort"
    and "atlv_parse_cls_tag_len d n = Undef \<Longrightarrow> overruns d"
    and "atlv_parse_cls_tag_len d n = Ret (Some (cls, tag, off, len)) \<Longrightarrow>
      2 \<le> off \<and> off \<le> n \<and> -1 \<le> len \<and> (0 \<le> len \<longrightarrow> int off + len \<le> int n)"
proof -
  note r = atlv_parse_cls_tag_result [OF assms(1)]
  have l: "\<exists>len cb2. atlv_parse_length (drop cb d) (n - cb) = Ret (len, cb2) \<and>
      (len = -2 \<or> 1 \<le> cb2 \<and> cb2 \<le> n - cb)" if "cb < n" for cb
    using that assms by (intro atlv_parse_length_result) auto
  have some: "atlv_parse_cls_tag_len d n \<noteq> Abort \<and> atlv_parse_cls_tag_len d n \<noteq> Undef"
    if c: "atlv_parse_cls_tag d n = Ret (Some (cls, tag, cb))" for cls tag cb
    using l [of cb] r(3) [OF c] c by (auto simp: atlv_parse_cls_tag_len_def split: if_splits)
  show "overruns d" if u: "atlv_parse_cls_tag_len d n = Undef"
  proof (cases "atlv_parse_cls_tag d n")
    case (Ret x)
    then show ?thesis using some u by (cases x) (auto simp: atlv_parse_cls_tag_len_def)
  qed (use r(1,2) in simp_all)
  show "atlv_parse_cls_tag_len d n \<noteq> Abort"
  proof (cases "atlv_parse_cls_tag d n")
    case (Ret x)
    then show ?thesis using some by (cases x) (auto simp: atlv_parse_cls_tag_len_def)
  qed (use r(1) in \<open>simp_all add: atlv_parse_cls_tag_len_def\<close>)
  show "2 \<le> off \<and> off \<le> n \<and> -1 \<le> len \<and> (0 \<le> len \<longrightarrow> int off + len \<le> int n)"
    if a: "atlv_parse_cls_tag_len d n = Ret (Some (cls, tag, off, len))"
  proof -
    obtain cb where c: "atlv_parse_cls_tag d n = Ret (Some (cls, tag, cb))"
      using a by (auto simp: atlv_parse_cls_tag_len_def obind_Ret_iff split: option.splits
          prod.splits if_splits)
    then have "1 \<le> cb" "cb < n" using r(3) by blast+
    with l obtain len' cb2 where "atlv_parse_length (drop cb d) (n - cb) = Ret (len', cb2)"
      "len' = -2 \<or> 1 \<le> cb2 \<and> cb2 \<le> n - cb" by blast
    then show ?thesis
      using a c \<open>1 \<le> cb\<close> \<open>cb < n\<close>
      by (auto simp: atlv_parse_cls_tag_len_def split: if_splits)
  qed
qed

text \<open>
  What a tree says about the data between two positions. A header stands where the element starts,
  read from what was left of the element around it. A primitive element ends with its value. The
  elements inside of a structured one follow each other; those of a definite length reach at least
  as far as the length says, those of an indefinite length may be closed by an empty universal
  element with the tag 0.
\<close>

definition slice :: "byte list \<Rightarrow> nat \<Rightarrow> nat \<Rightarrow> byte list" where
  "slice data i j = take (j - i) (drop i data)"

definition header_at :: "byte list \<Rightarrow> nat \<Rightarrow> nat \<Rightarrow> byte \<Rightarrow> nat \<Rightarrow> nat \<Rightarrow> int \<Rightarrow> bool" where
  "header_at data stop at cls tag off len \<longleftrightarrow>
     at \<le> stop \<and> stop \<le> length data \<and>
     atlv_parse_cls_tag_len (drop at data) (stop - at) = Ret (Some (cls, tag, off, len))"

definition inner_stop :: "byte list \<Rightarrow> int \<Rightarrow> nat \<Rightarrow> nat" where
  "inner_stop data len at = (if 0 \<le> len then at + nat len else length data)"

inductive placed :: "byte list \<Rightarrow> nat \<Rightarrow> nat \<Rightarrow> Atlv \<Rightarrow> nat \<Rightarrow> bool" and
  placed_all :: "byte list \<Rightarrow> int \<Rightarrow> nat \<Rightarrow> nat \<Rightarrow> Atlv list \<Rightarrow> nat \<Rightarrow> bool" for data where
  primitive: "header_at data stop at cls tag off len \<Longrightarrow> cls AND ASN1_CLASS_STRUCTURED = 0 \<Longrightarrow>
     0 \<le> len \<Longrightarrow> at' = at + off + nat len \<Longrightarrow> at' \<le> length data \<Longrightarrow>
     placed data stop at (Atlv cls tag (int off) len (Some (slice data (at + off) at'))
       (Some (slice data at at')) [] None no_encoding) at'"
| structured: "header_at data stop at cls tag off len \<Longrightarrow> cls AND ASN1_CLASS_STRUCTURED \<noteq> 0 \<Longrightarrow>
     placed_all data len (inner_stop data len (at + off)) (at + off) cs at' \<Longrightarrow>
     at' \<le> length data \<Longrightarrow>
     placed data stop at
       (Atlv cls tag (int off) len None (Some (slice data at at')) cs None no_encoding) at'"
| none: "stop \<le> at \<Longrightarrow> placed_all data len stop at [] at"
| closed: "len < 0 \<Longrightarrow> header_at data stop at ASN1_CLASS_UNIVERSAL 0 off 0 \<Longrightarrow>
     placed_all data len stop at [] (at + off)"
| one: "at < stop \<Longrightarrow> placed data stop at c at' \<Longrightarrow> placed_all data len stop at' cs at'' \<Longrightarrow>
     placed_all data len stop at (c # cs) at''"

text \<open>
  A result that is one: there was fuel, nothing aborts, the only undefined behaviour is an overrun,
  and a value satisfies \<open>P\<close>.
\<close>

definition good :: "byte list \<Rightarrow> ('a \<Rightarrow> bool) \<Rightarrow> 'a parse \<Rightarrow> bool" where
  "good data P r \<longleftrightarrow>
     r = Some Undef \<and> (\<exists>k. overruns (drop k data)) \<or> (\<exists>e. r = Some (Ret (Inl e))) \<or>
     (\<exists>x. r = Some (Ret (Inr x)) \<and> P x)"

lemma good_simps [simp]:
  "\<not> good data P None" "\<not> good data P (Some Abort)" "good data P (Some (Ret (Inl e)))"
  "good data P (Some (Ret (Inr x))) \<longleftrightarrow> P x"
  "good data P (Some Undef) \<longleftrightarrow> (\<exists>k. overruns (drop k data))"
  by (simp_all add: good_def)

lemma good_pbind:
  "good data P m \<Longrightarrow> (\<And>x. P x \<Longrightarrow> good data Q (f x)) \<Longrightarrow> good data Q (pbind m f)"
  by (auto simp: good_def [of data P])

abbreviation element_good :: "byte list \<Rightarrow> nat \<Rightarrow> nat \<Rightarrow> nat \<Rightarrow> Atlv \<times> nat \<Rightarrow> bool" where
  "element_good data stop at off \<equiv>
     \<lambda>(t, at'). at + off \<le> at' \<and> at' \<le> length data \<and> placed data stop at t at'"

abbreviation children_good ::
  "byte list \<Rightarrow> int \<Rightarrow> nat \<Rightarrow> nat \<Rightarrow> Atlv list \<times> nat \<Rightarrow> bool" where
  "children_good data len stop at \<equiv>
     \<lambda>(cs, at'). at \<le> at' \<and> at' \<le> length data \<and> placed_all data len stop at cs at'"

text \<open>The two functions, each from the other with less fuel.\<close>

lemma parse_element_good:
  assumes h: "header_at data lim at cls tag off len" and off: "at + off \<le> length data"
    and len: "-1 \<le> len" "0 \<le> len \<longrightarrow> at + off + nat len \<le> length data"
    and IH: "\<And>stop. stop \<le> length data \<Longrightarrow>
      good data (children_good data len stop (at + off)) (parse_children fuel data len stop (at + off))"
  shows "good data (element_good data lim at off)
    (atlv_parse_der_tag (Suc fuel) data cls tag off len at)"
proof -
  have e: "int at + int off + len \<le> int (length data)" "\<not> length data < at" using off len by auto
  show ?thesis
  proof (cases "cls AND ASN1_CLASS_STRUCTURED = 0")
    case True
    show ?thesis
    proof (cases "len < 0")
      case False
      have "placed data lim at (Atlv cls tag (int off) len
          (Some (slice data (at + off) (at + off + nat len)))
          (Some (slice data at (at + off + nat len))) [] None no_encoding) (at + off + nat len)"
        using h True False len by (intro placed_placed_all.primitive) auto
      then show ?thesis using e True False len by (simp add: slice_def)
    qed (use e True in simp)
  next
    case False
    let ?stop = "inner_stop data len (at + off)"
    have "good data (children_good data len ?stop (at + off))
        (parse_children fuel data len ?stop (at + off))"
      using len off by (intro IH) (auto simp: inner_stop_def)
    then have "good data (element_good data lim at off)
      (pbind (parse_children fuel data len ?stop (at + off))
        (\<lambda>(children, at'). Some (Ret (Inr (Atlv cls tag (int off) len None
           (Some (take (at' - at) (drop at data))) children None no_encoding, at')))))"
    proof (rule good_pbind)
      fix x
      assume "children_good data len ?stop (at + off) x"
      then show "good data (element_good data lim at off)
        (case x of (children, at') \<Rightarrow> Some (Ret (Inr (Atlv cls tag (int off) len None
           (Some (take (at' - at) (drop at data))) children None no_encoding, at'))))"
        using h False placed_placed_all.structured [of data lim at cls tag off len]
        by (auto simp: slice_def split: if_splits)
    qed
    then show ?thesis using e False by (simp add: inner_stop_def)
  qed
qed

lemma parse_rest_good:
  assumes size: "length data < 2 ^ 32" and at: "at \<le> length data" "stop \<le> length data"
    and IH1: "\<And>cls tag off len. header_at data stop at cls tag off len \<Longrightarrow> at + off \<le> length data \<Longrightarrow>
      2 \<le> off \<Longrightarrow> -1 \<le> len \<Longrightarrow> 0 \<le> len \<longrightarrow> at + off + nat len \<le> length data \<Longrightarrow> at < length data \<Longrightarrow>
      good data (element_good data stop at off) (atlv_parse_der_tag fuel data cls tag off len at)"
    and IH2: "\<And>at'. at + 2 \<le> at' \<Longrightarrow> at' \<le> length data \<Longrightarrow>
      good data (children_good data len stop at') (parse_children fuel data len stop at')"
  shows "good data (children_good data len stop at) (parse_children (Suc fuel) data len stop at)"
proof (cases "at < stop")
  case False
  then show ?thesis using at by (simp add: placed_placed_all.none)
next
  case True
  have n: "stop - at \<le> length (drop at data)" "stop - at < 2 ^ 32" using at size by auto
  note r = atlv_parse_cls_tag_len_result [OF n]
  show ?thesis
  proof (cases "atlv_parse_cls_tag_len (drop at data) (stop - at)")
    case (Ret x)
    show ?thesis
    proof (cases x)
      case (Some y)
      obtain cls tag off clen where y: "y = (cls, tag, off, clen)" by (cases y)
      note p = Ret [unfolded Some y]
      have b: "2 \<le> off" "off \<le> stop - at" "-1 \<le> clen" "0 \<le> clen \<longrightarrow> int off + clen \<le> int (stop - at)"
        using r(3) [OF p] by auto
      have h: "header_at data stop at cls tag off clen"
        using p at True by (simp add: header_at_def)
      show ?thesis
      proof (cases "len < 0 \<and> cls = ASN1_CLASS_UNIVERSAL \<and> tag = 0 \<and> clen = 0")
        case closed: True
        then show ?thesis
          using True p h b at placed_placed_all.closed [of len data stop at off] by simp
      next
        case going: False
        have "good data (children_good data len stop at)
          (pbind (atlv_parse_der_tag fuel data cls tag off clen at)
            (\<lambda>(child, at'). pbind (parse_children fuel data len stop at')
              (\<lambda>(children, at''). Some (Ret (Inr (child # children, at''))))))"
        proof (rule good_pbind [where P = "element_good data stop at off"])
          show "good data (element_good data stop at off) (atlv_parse_der_tag fuel data cls tag off clen at)"
            using h b at True by (intro IH1) auto
        next
          fix x
          assume x: "element_good data stop at off x"
          obtain c at' where c: "x = (c, at')" by (cases x)
          have "good data (children_good data len stop at)
            (pbind (parse_children fuel data len stop at')
              (\<lambda>(children, at''). Some (Ret (Inr (c # children, at'')))))"
          proof (rule good_pbind [where P = "children_good data len stop at'"])
            show "good data (children_good data len stop at') (parse_children fuel data len stop at')"
              using x c b by (intro IH2) auto
          qed (use x c in \<open>auto intro: placed_placed_all.one [OF True]\<close>)
          then show "good data (children_good data len stop at)
            (case x of (child, at') \<Rightarrow> pbind (parse_children fuel data len stop at')
              (\<lambda>(children, at''). Some (Ret (Inr (child # children, at'')))))"
            using c by simp
        qed
        then show ?thesis using True p going by auto
      qed
    qed (use True Ret in simp)
  qed (use True r in auto)
qed

lemma parse_fuel_enough:
  assumes size: "length data < 2 ^ 32"
  shows "(\<forall>lim at cls tag off len. header_at data lim at cls tag off len \<longrightarrow> at + off \<le> length data \<longrightarrow>
      2 \<le> off \<longrightarrow> -1 \<le> len \<longrightarrow> (0 \<le> len \<longrightarrow> at + off + nat len \<le> length data) \<longrightarrow>
      length data - at \<le> fuel \<longrightarrow>
      good data (element_good data lim at off) (atlv_parse_der_tag fuel data cls tag off len at)) \<and>
    (\<forall>at stop len. at \<le> length data \<longrightarrow> stop \<le> length data \<longrightarrow> length data - at + 1 \<le> fuel \<longrightarrow>
      good data (children_good data len stop at) (parse_children fuel data len stop at))"
proof (induction fuel)
  case 0
  then show ?case by auto
next
  case (Suc fuel)
  show ?case
  proof (intro conjI allI impI)
    fix lim at cls tag off len
    assume "header_at data lim at cls tag off len" "at + off \<le> length data" "2 \<le> off" "-1 \<le> len"
      "0 \<le> len \<longrightarrow> at + off + nat len \<le> length data" "length data - at \<le> Suc fuel"
    then show "good data (element_good data lim at off)
        (atlv_parse_der_tag (Suc fuel) data cls tag off len at)"
      using Suc by (intro parse_element_good) auto
  next
    fix at stop len
    assume a: "at \<le> length data" "stop \<le> length data" "length data - at + 1 \<le> Suc fuel"
    show "good data (children_good data len stop at) (parse_children (Suc fuel) data len stop at)"
    proof (rule parse_rest_good [OF size a(1,2)])
      show "good data (children_good data len stop at') (parse_children fuel data len stop at')"
        if "at + 2 \<le> at'" "at' \<le> length data" for at'
        using Suc a that by auto
    qed (use Suc a in auto)
  qed
qed

text \<open>
  Elements of definite length throughout: every element then takes exactly the octets its header
  says, and nothing sticks out of the element around it.
\<close>

fun definite :: "Atlv \<Rightarrow> bool" where
  "definite (Atlv cls tag off len val dec cs ring enc) \<longleftrightarrow> 0 \<le> len \<and> (\<forall>c \<in> set cs. definite c)"

fun exact :: "Atlv \<Rightarrow> bool" where
  "exact (Atlv cls tag off len val dec cs ring enc) \<longleftrightarrow>
     dec \<noteq> None \<and> int (length (the dec)) = off + len \<and> (\<forall>c \<in> set cs. exact c)"

lemma header_at_bounds:
  assumes "header_at data stop at cls tag off len" and "length data < 2 ^ 32"
  shows "2 \<le> off" "at + off \<le> stop" "-1 \<le> len" "0 \<le> len \<longrightarrow> int at + int off + len \<le> int stop"
    "stop \<le> length data"
proof -
  have h: "at \<le> stop" "stop \<le> length data"
    "atlv_parse_cls_tag_len (drop at data) (stop - at) = Ret (Some (cls, tag, off, len))"
    using assms(1) by (simp_all add: header_at_def)
  have n: "stop - at \<le> length (drop at data)" "stop - at < 2 ^ 32" using h assms(2) by auto
  show "2 \<le> off" "at + off \<le> stop" "-1 \<le> len" "0 \<le> len \<longrightarrow> int at + int off + len \<le> int stop"
    "stop \<le> length data"
    using atlv_parse_cls_tag_len_result(3) [OF n h(3)] h(1,2) by auto
qed

lemma placed_definite:
  assumes "length data < 2 ^ 32"
  shows "placed data stop at t at' \<Longrightarrow> definite t \<longrightarrow>
      at' \<le> stop \<and> int at' = int at + tlv_off t + tlv_len t \<and> exact t"
    and "placed_all data len stop at cs at' \<Longrightarrow> 0 \<le> len \<and> at \<le> stop \<and> (\<forall>c \<in> set cs. definite c) \<longrightarrow>
      at' = stop \<and> (\<forall>c \<in> set cs. exact c)"
proof (induction rule: placed_placed_all.inducts)
  case (primitive stop at cls tag off len at')
  then show ?case
    using header_at_bounds [OF primitive(1) assms] by (auto simp: slice_def)
next
  case (structured stop at cls tag off len cs at')
  then show ?case
    using header_at_bounds [OF structured(1) assms] by (auto simp: slice_def inner_stop_def)
qed auto

lemma atlv_parse_der_good:
  assumes "length data < 2 ^ 32"
  shows "atlv_parse_der (Some data) = Undef \<and> (\<exists>k. overruns (drop k data)) \<or>
    (\<exists>e. atlv_parse_der (Some data) = Ret (Inl e)) \<or>
    (\<exists>t. atlv_parse_der (Some data) = Ret (Inr t) \<and> placed data (length data) 0 t (length data))"
proof (cases "atlv_parse_cls_tag_len data (length data)")
  case (Ret x)
  show ?thesis
  proof (cases x)
    case None
    then show ?thesis using Ret by (simp add: atlv_parse_der_def)
  next
    case (Some y)
    obtain cls tag off len where y: "y = (cls, tag, off, len)" by (cases y)
    have h: "header_at data (length data) 0 cls tag off len"
      using Ret Some y by (simp add: header_at_def)
    note b = header_at_bounds [OF h assms]
    have "good data (element_good data (length data) 0 off)
        (atlv_parse_der_tag (Suc (length data)) data cls tag off len 0)"
      by (rule parse_fuel_enough [OF assms, THEN conjunct1, rule_format, OF h]) (use b in auto)
    then show ?thesis
      using Ret Some y
      by (auto simp: good_def atlv_parse_der_def simp del: atlv_parse_der_tag.simps
          split: if_splits)
  qed
qed (use assms atlv_parse_cls_tag_len_result [of "length data" data] in
    \<open>auto simp: atlv_parse_der_def intro!: exI [of _ 0]\<close>)

section \<open>Sets\<close>

lemma sort_mset_eq: "mset xs = mset ys \<Longrightarrow> sort xs = sort ys"
  for xs ys :: "'a :: linorder list"
  by (metis mset_sort properties_for_sort sorted_sort)

lemma sorted_order_map: "map ((!) bs) (sorted_order bs) = sort bs"
proof -
  have "map ((!) bs) (sorted_order bs) = sort (map ((!) bs) (rev [0..<length bs]))"
    unfolding sorted_order_def by (rule properties_for_sort [symmetric]) simp_all
  also have "\<dots> = sort bs"
    by (rule sort_mset_eq) (metis map_nth mset_map mset_rev)
  finally show ?thesis .
qed

lemma length_sorted_order [simp]: "length (sorted_order bs) = length bs"
  by (simp add: sorted_order_def)

lemma mset_sorted_order: "mset (sorted_order bs) = mset [0..<length bs]"
  by (simp add: sorted_order_def)

lemma set_sorted_order: "set (sorted_order bs) = {0..<length bs}"
  by (simp add: sorted_order_def)

text \<open>The child that keeps its \<^verbatim>\<open>next\<close> pointer was the last one only if it is the one greatest.\<close>

lemma last_insort_key:
  assumes "x \<notin> set ys"
  shows "last (insort_key f x ys) = x \<longleftrightarrow> (\<forall>y \<in> set ys. f y < f x)"
  using assms
proof (induction ys)
  case (Cons y ys)
  have "insort_key f x ys \<noteq> []" by (metis insort_not_Nil)
  then show ?case
  proof (cases "f x \<le> f y")
    case True
    then show ?thesis using Cons by (auto simp: last_ConsR dest: last_in_set)
  next
    case False
    then show ?thesis using Cons \<open>insort_key f x ys \<noteq> []\<close> by auto
  qed
qed simp

definition last_greatest :: "byte list list \<Rightarrow> bool" where
  "last_greatest bs \<longleftrightarrow> (\<forall>i < length bs - 1. bs ! i < bs ! (length bs - 1))"

lemma last_sorted_order:
  assumes "bs \<noteq> []"
  shows "last (sorted_order bs) = length bs - 1 \<longleftrightarrow> last_greatest bs"
proof -
  obtain n where n: "length bs = Suc n" using assms by (cases bs) simp_all
  have "sorted_order bs = insort_key ((!) bs) n (sort_key ((!) bs) (rev [0..<n]))"
    by (simp add: sorted_order_def n)
  then show ?thesis using last_insort_key [of n "sort_key ((!) bs) (rev [0..<n])" "(!) bs"]
    by (simp add: n last_greatest_def Ball_def)
qed

lemma kept_next_None:
  "kept_next (sorted_order bs) = None \<longleftrightarrow> last_greatest bs"
proof (cases "bs = []")
  case True
  then show ?thesis by (simp add: sorted_order_def kept_next_def last_greatest_def)
next
  case False
  then have ne: "sorted_order bs \<noteq> []" by (metis length_0_conv length_sorted_order)
  then have "last (sorted_order bs) < length bs"
    using last_in_set set_sorted_order by fastforce
  then show ?thesis
    using last_sorted_order [OF False] ne by (auto simp: kept_next_def)
qed

lemma kept_next_Some:
  assumes "kept_next (sorted_order bs) = Some j"
  shows "j < length bs"
proof -
  let ?o = "sorted_order bs"
  have l: "?o \<noteq> []" "Suc (last ?o) < length ?o"
    and j: "j = length (takeWhile (\<lambda>i. i \<noteq> Suc (last ?o)) ?o)"
    using assms by (auto simp: kept_next_def split: if_splits)
  have "Suc (last ?o) \<in> set ?o" using l by (simp add: set_sorted_order)
  then have "takeWhile (\<lambda>i. i \<noteq> Suc (last ?o)) ?o \<noteq> ?o" by (auto simp: takeWhile_eq_all_conv)
  then show ?thesis
    using j by (metis length_sorted_order length_takeWhile_le nat_less_le take_all_iff
        takeWhile_eq_take)
qed

text \<open>
  The canonical encoding: the elements of a set that is marked for sorting in ascending order. The
  chain of children survives sorting if in each such set the last element is greater than all
  others.
\<close>

fun canonical :: "Atlv \<Rightarrow> byte list" where
  "canonical (Atlv cls tag off len val dec cs ring enc) =
     header cls tag len @
     (case val of
        Some buf \<Rightarrow> written enc buf
      | None \<Rightarrow>
          concat (if sorted_set enc then sort (map canonical cs) else map canonical cs))"

fun chain_safe :: "Atlv \<Rightarrow> bool" where
  "chain_safe (Atlv cls tag off len val dec cs ring enc) \<longleftrightarrow>
     (\<forall>c \<in> set cs. chain_safe c) \<and> (sorted_set enc \<longrightarrow> last_greatest (map canonical cs))"

abbreviation allocates :: "(nat \<Rightarrow> bool outcome) \<Rightarrow> bool" where
  "allocates alloc \<equiv> \<forall>n. alloc n = Ret True"

definition sorts :: "(nat \<Rightarrow> bool outcome) \<Rightarrow> Atlv \<Rightarrow> Atlv \<Rightarrow> bool" where
  "sorts alloc t t' \<longleftrightarrow>
     atlv_sort_perform alloc t = Ret t' \<and> encodable t' \<and> der t' = canonical t \<and>
     tlv_off t' = tlv_off t \<and> tlv_len t' = tlv_len t"

lemma sort_children_all:
  assumes "\<forall>c \<in> set cs. \<exists>c'. sorts alloc c c'"
  obtains cs' where "sort_children alloc cs = Ret cs'" "\<forall>c \<in> set cs'. encodable c"
    "map der cs' = map canonical cs"
    "map (\<lambda>c. tlv_off c + tlv_len c) cs' = map (\<lambda>c. tlv_off c + tlv_len c) cs"
proof -
  have "\<exists>cs'. sort_children alloc cs = Ret cs' \<and> (\<forall>c \<in> set cs'. encodable c) \<and>
    map der cs' = map canonical cs \<and>
    map (\<lambda>c. tlv_off c + tlv_len c) cs' = map (\<lambda>c. tlv_off c + tlv_len c) cs"
    using assms
  proof (induction cs)
    case (Cons c cs)
    then obtain c' cs' where "sorts alloc c c'" "sort_children alloc cs = Ret cs'"
      "\<forall>c \<in> set cs'. encodable c" "map der cs' = map canonical cs"
      "map (\<lambda>c. tlv_off c + tlv_len c) cs' = map (\<lambda>c. tlv_off c + tlv_len c) cs"
      by auto
    then show ?case by (intro exI [of _ "c' # cs'"]) (simp add: sorts_def)
  qed simp
  then show ?thesis using that by blast
qed

lemma unparse_pairs_der:
  "allocates alloc \<Longrightarrow> \<forall>c \<in> set cs. encodable c \<Longrightarrow> unparse_pairs alloc cs = Ret (Some (map der cs))"
  by (induction cs) (simp_all add: unparse_to_bytes_der)

lemma mset_reordered: "length cs = length bs \<Longrightarrow> mset (map ((!) cs) (sorted_order bs)) = mset cs"
  using mset_sorted_order [of bs] by (metis map_nth mset_map)

text \<open>A set of children that were sorted, with what becomes of the chain.\<close>

lemma sort_perform_set:
  assumes "allocates alloc" and "sort_children alloc cs = Ret cs'" and "\<forall>c \<in> set cs'. encodable c"
    and "map der cs' = map canonical cs" and "sorted_set enc"
  defines "order \<equiv> sorted_order (map canonical cs)"
  shows "atlv_sort_perform alloc (Atlv cls tag off len val dec cs None enc) =
      Ret (Atlv cls tag off len val dec (map ((!) cs') order) (kept_next order) enc)"
    and "map der (map ((!) cs') order) = sort (map canonical cs)"
    and "mset (map ((!) cs') order) = mset cs'"
proof -
  have l: "length cs' = length (map canonical cs)" by (metis assms(4) length_map)
  show "atlv_sort_perform alloc (Atlv cls tag off len val dec cs None enc) =
      Ret (Atlv cls tag off len val dec (map ((!) cs') order) (kept_next order) enc)"
    using assms(2,5) unparse_pairs_der [OF assms(1,3)]
    by (simp add: Let_def assms(4) order_def)
  have "map der (map ((!) cs') order) = map ((!) (map der cs')) order"
    using l by (auto simp: order_def set_sorted_order)
  also have "\<dots> = sort (map canonical cs)" unfolding assms(4) order_def by (rule sorted_order_map)
  finally show "map der (map ((!) cs') order) = sort (map canonical cs)" .
  show "mset (map ((!) cs') order) = mset cs'" unfolding order_def by (rule mset_reordered [OF l])
qed

lemma sum_list_mset: "mset xs = mset ys \<Longrightarrow> (\<Sum>x \<leftarrow> xs. f x) = (\<Sum>x \<leftarrow> ys. f x :: int)"
  by (metis mset_map sum_mset_sum_list)

lemma encodable_sorts:
  assumes "allocates alloc"
  shows "encodable t \<Longrightarrow> chain_safe t \<Longrightarrow> \<exists>t'. sorts alloc t t'"
proof (induction t)
  case (Atlv cls tag off len val dec cs ring enc)
  have ring: "ring = None" using Atlv.prems by simp
  show ?case
  proof (cases val)
    case (Some buf)
    then show ?thesis
      using Atlv.prems ring
      by (intro exI [of _ "Atlv cls tag off len val dec [] None enc"])
        (auto simp: sorts_def sorted_order_def kept_next_def Let_def)
  next
    case None
    then have "\<forall>c \<in> set cs. \<exists>c'. sorts alloc c c'" using Atlv by auto
    then obtain cs' where cs': "sort_children alloc cs = Ret cs'" "\<forall>c \<in> set cs'. encodable c"
      "map der cs' = map canonical cs"
      "map (\<lambda>c. tlv_off c + tlv_len c) cs' = map (\<lambda>c. tlv_off c + tlv_len c) cs"
      by (rule sort_children_all)
    have len: "(\<Sum>c \<leftarrow> cs'. tlv_off c + tlv_len c) = len" using cs'(4) Atlv.prems None by simp
    show ?thesis
    proof (cases "sorted_set enc")
      case False
      then show ?thesis
        using Atlv.prems None ring cs' len
        by (intro exI [of _ "Atlv cls tag off len val dec cs' None enc"]) (auto simp: sorts_def)
    next
      case True
      let ?o = "sorted_order (map canonical cs)"
      let ?cs = "map ((!) cs') ?o"
      note s = sort_perform_set [OF assms cs'(1-3) True]
      have k: "kept_next ?o = None" using Atlv.prems True by (simp add: kept_next_None)
      have "set ?cs = set cs'" using s(3) by (metis set_mset_mset)
      then have enc: "\<forall>c \<in> set ?cs. encodable c" using cs'(2) by blast
      have "(\<Sum>c \<leftarrow> ?cs. tlv_off c + tlv_len c) = len" using sum_list_mset [OF s(3)] len by metis
      then show ?thesis
        using Atlv.prems None ring s(1) [of cls tag off len val dec] k enc s(2) True
        by (intro exI [of _ "Atlv cls tag off len val dec ?cs None enc"])
          (auto simp: sorts_def simp del: map_map atlv_sort_perform.simps)
    qed
  qed
qed

lemma length_concat_der:
  "\<forall>c \<in> set cs. encodable c \<Longrightarrow>
     int (length (concat (map der cs))) = (\<Sum>c \<leftarrow> cs. tlv_off c + tlv_len c)"
  by (induction cs) (simp_all add: length_der)

text \<open>A chain that goes round: with all octets written the next header finds no room.\<close>

lemma unparse_children_ring:
  assumes "\<forall>c \<in> set todo. writes c \<and> encodable c" and "drop j every = d # ds"
    and "room = length (concat (map der todo))" and "2 * room + 3 \<le> fuel" and "tlv_tag d < 2 ^ 32"
  shows "unparse_children fuel room every (Some j) todo = Some Abort"
  using assms(1,3,4)
proof (induction todo arbitrary: room fuel)
  case Nil
  obtain f where f: "fuel = Suc (Suc (Suc f))"
    using Nil.prems by (metis Suc_le_D add_2_eq_Suc' numeral_3_eq_3 mult_0_right add_0 list.map(1)
        concat.simps(1) list.size(3) numeral_2_eq_2 One_nat_def plus_1_eq_Suc Suc_le_mono)
  have "length (low_groups 128 (tlv_tag d)) \<le> 8"
    using assms(5) by (intro length_low_groups) simp_all
  moreover have "unparse_tag (tlv_cls d) (tlv_tag d) \<noteq> []"
    by (simp add: unparse_tag_def Let_def split: nat.split)
  ultimately have "atlv_unparse_cls_tag_len 0 (tlv_cls d) (tlv_tag d) (tlv_len d) = Abort"
    by (simp add: atlv_unparse_cls_tag_len_def)
  then show ?case using f Nil.prems assms(2) by simp
next
  case (Cons c todo)
  obtain f where f: "fuel = Suc f" using Cons.prems(3) by (cases fuel) simp_all
  have "atlv_unparse_der f room c = Some (Ret (der c))"
    using Cons.prems f by (auto simp: writes_def)
  moreover have "unparse_children f (room - length (der c)) every (Some j) todo = Some Abort"
    using Cons.prems f length_der_ge [of c] by (intro Cons.IH) auto
  ultimately show ?case using f Cons.prems length_der [of c] by simp
qed

lemma ring_aborts:
  assumes alloc: "allocates alloc" and enc: "encodable t" "sorted_set (tlv_encoding t)"
    and safe: "\<forall>c \<in> set (tlv_children t). chain_safe c" and bad: "\<not> chain_safe t"
  shows "encode_tlv alloc t = Abort"
proof -
  obtain cls tag off len val dec cs ring e where t: "t = Atlv cls tag off len val dec cs ring e"
    by (cases t)
  have ring: "ring = None" and bad': "\<not> last_greatest (map canonical cs)"
    using enc safe bad by (simp_all add: t)
  then have val: "val = None" using enc(1) by (auto simp: t last_greatest_def split: option.splits)
  have "\<forall>c \<in> set cs. \<exists>c'. sorts alloc c c'"
    using encodable_sorts [OF alloc] enc(1) safe val by (auto simp: t)
  then obtain cs' where cs': "sort_children alloc cs = Ret cs'" "\<forall>c \<in> set cs'. encodable c"
    "map der cs' = map canonical cs"
    "map (\<lambda>c. tlv_off c + tlv_len c) cs' = map (\<lambda>c. tlv_off c + tlv_len c) cs"
    by (rule sort_children_all)
  let ?o = "sorted_order (map canonical cs)"
  let ?cs = "map ((!) cs') ?o"
  note s = sort_perform_set [OF alloc cs'(1-3), of e] 
  have srt: "sorted_set e" using enc(2) by (simp add: t)
  obtain j where j: "kept_next ?o = Some j"
    using bad' by (metis kept_next_None not_Some_eq)
  then have jl: "j < length ?cs" using kept_next_Some [OF j] by simp
  let ?t = "Atlv cls tag off len None dec ?cs (Some j) e"
  have sp: "atlv_sort_perform alloc t = Ret ?t"
    using s(1) [OF srt, of cls tag off len None dec] j ring val by (simp add: t del: map_map)
  obtain d ds where d: "drop j ?cs = d # ds" using jl by (metis Cons_nth_drop_Suc)
  have set: "set ?cs = set cs'" using s(3) [OF srt] by (metis set_mset_mset)
  have "d \<in> set ?cs" using d by (metis in_set_dropD list.set_intros(1))
  then have "encodable d" using set cs'(2) by blast
  then have dt: "tlv_tag d < 2 ^ 32" by (cases d) simp
  have all: "\<forall>c \<in> set ?cs. writes c \<and> encodable c" using set cs'(2) encodable_writes by blast
  have "int (length (concat (map der ?cs))) = (\<Sum>c \<leftarrow> ?cs. tlv_off c + tlv_len c)"
    using all by (intro length_concat_der) blast
  also have "\<dots> = len"
    using sum_list_mset [OF s(3) [OF srt]] cs'(4) enc(1) val by (simp add: t)
  finally have len: "int (length (concat (map der ?cs))) = len" .
  let ?n = "length (concat (map der ?cs))"
  have o: "off = int (header_size cls tag len)" "off + len < 2 ^ 31" "tag < 2 ^ 32"
    using enc(1) by (simp_all add: t)
  have ge: "2 \<le> header_size cls tag len" by (rule header_size_ge)
  let ?all = "header_size cls tag len + ?n"
  have g: "off + len = int ?all" "gulong_of_gint (off + len) = ?all"
    using o len by (simp_all add: gulong_of_gint_def)
  have h: "atlv_unparse_cls_tag_len ?all cls tag len = Ret (header cls tag len)"
    using o by (intro atlv_unparse_header) simp_all
  have "unparse_children (2 * ?all) ?n ?cs (Some j) ?cs = Some Abort"
    using ge by (intro unparse_children_ring [OF all d _ _ dt]) simp_all
  then have "atlv_unparse_der (Suc (2 * ?all)) ?all ?t = Some Abort"
    using h o by (simp add: length_header del: map_map)
  then have "atlv_unparse_to_bytes alloc ?t = Abort"
    using g o(2) alloc ge
    by (simp add: atlv_unparse_to_bytes_def Let_def del: map_map atlv_unparse_der.simps)
  then show ?thesis using sp by (simp add: encode_tlv_def)
qed

lemma parse_der_der:
  assumes "encodable t"
  shows "atlv_parse_der (Some (der t)) = Ret (Inr (parsed t))"
proof -
  have "int (length (der t)) < 2 ^ 31"
    using length_der [OF assms] assms by (cases t) auto
  then have l: "length (der t) < 2 ^ 32" by simp
  have h: "atlv_parse_cls_tag_len (der t) (length (der t)) =
      Ret (Some (tlv_cls t, tlv_tag t, nat (tlv_off t), tlv_len t))"
    using encodable_header [OF assms, of "length (der t)" "[]"] l by simp
  have "atlv_parse_der_tag (Suc (length (der t))) ([] @ der t @ []) (tlv_cls t) (tlv_tag t)
      (nat (tlv_off t)) (tlv_len t) (length ([] :: byte list)) =
    Some (Ret (Inr (parsed t, length ([] :: byte list) + length (der t))))"
    by (rule encodable_reads [OF assms, unfolded reads_def, rule_format]) (use l in simp_all)
  then show ?thesis using h by (simp add: atlv_parse_der_def del: atlv_parse_der_tag.simps)
qed

section \<open>Correctness of the TLV layer\<close>

text \<open>The SEQUENCE of an INTEGER 5 and a BIT STRING of four bits, and sets of INTEGERs.\<close>

definition sample_integer :: "byte \<Rightarrow> Atlv" where
  "sample_integer n = Atlv 0 2 2 1 (Some [n]) None [] None no_encoding"

definition sample_sequence :: Atlv where
  "sample_sequence =
     Atlv 0x20 0x10 2 7 None None
       [sample_integer 5,
        Atlv 0 3 2 2 (Some [0xFF]) None [] None
          (no_encoding\<lparr>bits_empty := 4, prefix_for_bit_string := True\<rparr>)] None no_encoding"

definition sample_set :: "byte list \<Rightarrow> Atlv" where
  "sample_set ns =
     Atlv 0x20 0x11 2 (3 * int (length ns)) None None (map sample_integer ns) None
       (no_encoding\<lparr>sorted_set := True\<rparr>)"

lemma last_greatest_3: "last_greatest [a, b, c] \<longleftrightarrow> a < c \<and> b < c"
  by (auto simp: last_greatest_def less_Suc_eq)

lemma sample_header [simp]:
  "0 \<le> len \<Longrightarrow> len < 128 \<Longrightarrow> tag < 31 \<Longrightarrow> header_size cls tag len = 2"
  by (simp add: header_size_def unparse_tag_def atlv_unparse_len_def)

lemma sample_integer_encodable [simp]: "encodable (sample_integer n)"
  by (simp add: sample_integer_def cls_ok_def ASN1_CLASS_STRUCTURED_def written_def no_encoding_def)

text \<open>
  C15. Round trip of DER. A tree as the encoder builds it (lengths and offsets of its parts, primitive
  values, structured children) is written by \<^verbatim>\<open>atlv_unparse_to_bytes\<close> without failing an assertion
  or leaving the area, and \<^verbatim>\<open>atlv_parse_der\<close> reads the octets back as the same tree: class, tag,
  offset, length and children of every element, its value as it was written (bit strings with the
  count of empty bits, unsigned integers with their zero octet), and as decoded octets the encoding
  of that element.
\<close>

theorem atlv_der_roundtrip:
  assumes "encodable t" and "alloc (length (der t)) = Ret True"
  shows "atlv_unparse_to_bytes alloc t = Ret (Some (der t)) \<and>
    atlv_parse_der (Some (der t)) = Ret (Inr (parsed t))"
  using unparse_to_bytes_der parse_der_der assms by blast

theorem atlv_der_roundtrip_witness:
  "atlv_unparse_to_bytes (\<lambda>n. Ret True) sample_sequence =
     Ret (Some [0x30, 7, 2, 1, 5, 3, 2, 4, 0xF0]) \<and>
   atlv_parse_der (Some [0x30, 7, 2, 1, 5, 3, 2, 4, 0xF0]) = Ret (Inr (parsed sample_sequence))"
proof -
  have e: "encodable sample_sequence"
    by (simp add: sample_sequence_def cls_ok_def ASN1_CLASS_STRUCTURED_def written_def
        no_encoding_def clear_bits_def) (simp add: sample_integer_def)
  have "der sample_sequence = [0x30, 7, 2, 1, 5, 3, 2, 4, 0xF0]"
    by (simp add: sample_sequence_def sample_integer_def header_def unparse_tag_def
        atlv_unparse_len_def written_def no_encoding_def clear_bits_def)
  then show ?thesis using atlv_der_roundtrip [OF e, of "\<lambda>n. Ret True"] by simp
qed

text \<open>
  C16. Parsing arbitrary data of fewer than \<open>2 ^ 31\<close> octets. \<^verbatim>\<open>atlv_parse_der\<close> always comes to an end
  and fails no assertion. It leaves the data in one case only: there is a place where a long tag starts
  and no octet up to the end of the data ends it. A tree it returns describes the data: it covers all of
  it, headers stand where the elements start and were read from the octets left of the element around
  them, values and decoded octets are the octets at their place, and the elements inside follow one
  another. When all lengths are definite, each element takes exactly the octets its header says. For
  empty data without a pointer it reports success without having parsed anything: the element is the
  one \<^verbatim>\<open>atlv_new\<close> made.
\<close>

theorem atlv_parse_der_sound:
  assumes "\<And>data. bytes = Some data \<Longrightarrow> length data < 2 ^ 31"
  shows "atlv_parse_der bytes \<noteq> Abort \<and>
    (atlv_parse_der bytes = Undef \<longrightarrow> (\<exists>data k. bytes = Some data \<and> overruns (drop k data))) \<and>
    (\<forall>t. atlv_parse_der bytes = Ret (Inr t) \<longrightarrow>
       (case bytes of
          None \<Rightarrow> t = atlv_new
        | Some data \<Rightarrow>
            placed data (length data) 0 t (length data) \<and> tlv_decoded t = Some data \<and>
            (definite t \<longrightarrow> exact t)))"
proof (cases bytes)
  case None
  then show ?thesis by (auto simp: atlv_parse_der_def)
next
  case (Some data)
  have size: "length data < 2 ^ 32" using assms [OF Some] by simp
  have d: "placed data (length data) 0 t (length data) \<Longrightarrow> tlv_decoded t = Some data" for t
    by (erule placed.cases) (simp_all add: slice_def)
  show ?thesis unfolding Some
    using atlv_parse_der_good [OF size] placed_definite(1) [OF size, of "length data" 0 _ "length data"] d
    by auto
qed

theorem atlv_parse_der_sound_witness:
  "atlv_parse_der (Some [0x30, 3, 2, 1, 5]) \<noteq> Abort \<and>
   (\<exists>t. atlv_parse_der (Some [0x30, 3, 2, 1, 5]) = Ret (Inr t) \<and>
      tlv_decoded t = Some [0x30, 3, 2, 1, 5])"
proof -
  let ?t = "Atlv 0x20 0x10 2 3 None None [sample_integer 5] None no_encoding"
  have "encodable ?t"
    by (simp add: cls_ok_def ASN1_CLASS_STRUCTURED_def) (simp add: sample_integer_def)
  moreover have "der ?t = [0x30, 3, 2, 1, 5]"
    by (simp add: sample_integer_def header_def unparse_tag_def atlv_unparse_len_def written_def
        no_encoding_def)
  ultimately have "\<exists>t. atlv_parse_der (Some [0x30, 3, 2, 1, 5]) = Ret (Inr t)"
    using parse_der_der [of ?t] by auto
  then show ?thesis using atlv_parse_der_sound [of "Some [0x30, 3, 2, 1, 5]"] by auto
qed

text \<open>Empty data whose pointer is \<^verbatim>\<open>NULL\<close> passes for an element; with a pointer it does not.\<close>

lemma atlv_parse_der_no_data:
  "atlv_parse_der None = Ret (Inr atlv_new)"
  "atlv_parse_der (Some []) = Ret (Inl ''content is not encoded properly'')"
  by (simp_all add: atlv_parse_der_def atlv_parse_cls_tag_len_def atlv_parse_cls_tag_def wrap32_def Let_def)

text \<open>The case in which it does leave the data.\<close>

lemma atlv_parse_der_overrun: "atlv_parse_der (Some [0x1F, 0x80]) = Undef"
  by (simp add: atlv_parse_der_def atlv_parse_cls_tag_len_def atlv_parse_cls_tag_def wrap32_def
      Let_def)

text \<open>
  Data that is no DER and is accepted: a length whose octets are missing, and an element of
  indefinite length that is not closed and reaches out of the element around it.
\<close>

lemma atlv_parse_der_short_length:
  "\<exists>t. atlv_parse_der (Some [0x30, 0x82, 0]) = Ret (Inr t) \<and> tlv_len t = 0"
  by (simp add: atlv_parse_der_def atlv_parse_cls_tag_len_def atlv_parse_cls_tag_def
      atlv_parse_length_def wrap32_def Let_def ASN1_CLASS_STRUCTURED_def)

text \<open>
  C17. Encoding of sets, under a condition. For an encodable tree in which, in every set marked for
  sorting, the encoding of the last element is already strictly greater than that of each other one
  (\<open>chain_safe\<close>; for the other trees see the next theorem), and with memory for the result, sorting and
  writing gives the DER encoding, with the elements of each such set in ascending order.
\<close>

theorem encode_tlv_canonical:
  assumes "encodable t" and "chain_safe t" and "\<forall>n. alloc n = Ret True"
  shows "encode_tlv alloc t = Ret (Some (canonical t))"
proof -
  obtain t' where "sorts alloc t t'" using encodable_sorts [OF assms(3,1,2)] by blast
  then have t': "atlv_sort_perform alloc t = Ret t'" "encodable t'" "der t' = canonical t"
    by (simp_all add: sorts_def)
  have "atlv_unparse_to_bytes alloc t' = Ret (Some (canonical t))"
    using unparse_to_bytes_der [OF t'(2)] assms(3) t'(3) by simp
  then show ?thesis using t'(1) by (simp add: encode_tlv_def)
qed

theorem encode_tlv_canonical_witness:
  "encode_tlv (\<lambda>n. Ret True) (sample_set [3, 1, 8]) = Ret (Some [0x31, 9, 2, 1, 1, 2, 1, 3, 2, 1, 8])"
proof -
  have c: "canonical (sample_integer n) = [2, 1, n]" for n
    by (simp add: sample_integer_def header_def unparse_tag_def atlv_unparse_len_def written_def
        no_encoding_def)
  have e: "encodable (sample_set [3, 1, 8])"
    by (simp add: sample_set_def cls_ok_def ASN1_CLASS_STRUCTURED_def) (simp add: sample_integer_def)
  have s: "chain_safe (sample_set [3, 1, 8])"
    by (simp add: sample_set_def c last_greatest_3)
      (simp add: sample_integer_def no_encoding_def)
  have "canonical (sample_set [3, 1, 8]) = [0x31, 9, 2, 1, 1, 2, 1, 3, 2, 1, 8]"
    by (simp add: sample_set_def c header_def unparse_tag_def atlv_unparse_len_def)
  then show ?thesis using encode_tlv_canonical [OF e s, of "\<lambda>n. Ret True"] by simp
qed

text \<open>
  C18. In every other case a set fails: when its elements can be sorted, but one of them is greater
  than the last one or equal to it, the sorted chain leads back into itself and writing it ends the
  program, because the assertion on the room for a header does not hold.
\<close>

theorem encode_tlv_unsorted_set_aborts:
  assumes "encodable t" and "sorted_set (tlv_encoding t)"
    and "\<forall>c \<in> set (tlv_children t). chain_safe c"
    and "\<not> last_greatest (map canonical (tlv_children t))" and "\<forall>n. alloc n = Ret True"
  shows "encode_tlv alloc t = Abort"
proof -
  have "\<not> chain_safe t" using assms(2,4) by (cases t) simp
  then show ?thesis using ring_aborts assms by blast
qed

theorem encode_tlv_unsorted_set_aborts_witness:
  "encode_tlv (\<lambda>n. Ret True) (sample_set [8, 1]) = Abort \<and>
   encode_tlv (\<lambda>n. Ret True) (sample_set [1, 1]) = Abort"
proof -
  have c: "canonical (sample_integer n) = [2, 1, n]" for n
    by (simp add: sample_integer_def header_def unparse_tag_def atlv_unparse_len_def written_def
        no_encoding_def)
  have "encodable (sample_set [m, n])" for m n
    by (simp add: sample_set_def cls_ok_def ASN1_CLASS_STRUCTURED_def) (simp add: sample_integer_def)
  moreover have "\<forall>c \<in> set (tlv_children (sample_set [m, n])). chain_safe c" for m n
    by (simp add: sample_set_def sample_integer_def no_encoding_def)
  moreover have "\<not> last_greatest (map canonical (tlv_children (sample_set [8, 1])))"
    "\<not> last_greatest (map canonical (tlv_children (sample_set [1, 1])))"
    by (simp_all add: sample_set_def c last_greatest_def)
  moreover have "sorted_set (tlv_encoding (sample_set [m, n]))" for m n
    by (simp add: sample_set_def)
  ultimately show ?thesis by (simp add: encode_tlv_unsorted_set_aborts)
qed

end
