(* ===== verification/Egg_Asn1_Values.thy ===== *)
theory Egg_Asn1_Values
  imports Egg_Asn1_Tlv Egg_Numerals
begin

text \<open>
  The values inside of ASN.1 elements, \<^verbatim>\<open>src/egg/egg-asn1x.c\<close>: small integers, booleans, object
  identifiers and times, as content octets and as C values. A value is the list of its octets; a
  read behind them is \<open>Undef\<close>, and so is what C leaves undefined on \<^verbatim>\<open>int\<close> (overflow, a shift by
  its width or more). \<open>None\<close> stands for \<^verbatim>\<open>FALSE\<close>. The year of the clock is a parameter.

  Writers are called twice, with \<^verbatim>\<open>NULL\<close> for the length and then with an area of that length; the
  model returns the octets.
\<close>

section \<open>Integers\<close>

fun read_integer_loop :: "byte list \<Rightarrow> 64 word \<Rightarrow> 64 word outcome" where
  "read_integer_loop [] value = Ret value"
| "read_integer_loop (b # bs) value =
     (let s = 8 * length bs in
      if 32 \<le> s \<or> 2 ^ 31 \<le> unat b * 2 ^ s then Undef
      else read_integer_loop bs (value OR push_bit s (ucast b)))"

definition anode_read_integer_ulong :: "byte list \<Rightarrow> 64 word option outcome" where
  "anode_read_integer_ulong p =
     (if length p < 1 \<or> 8 < length p then Ret None
      else obind (read_integer_loop p 0) (\<lambda>value. Ret (Some value)))"

definition anode_write_integer_ulong :: "64 word \<Rightarrow> byte list" where
  "anode_write_integer_ulong value =
     (let buf = map (\<lambda>i. ucast (drop_bit ((8 - (i + 1)) * 8) value AND 0xFF)) [0..<8];
          bytes = length (takeWhile (\<lambda>b. b \<noteq> 0) (rev buf));
          bytes' = (if bytes = 0 then 1 else bytes);
          at = drop (8 - bytes') buf in
      if at ! 0 AND 0x80 \<noteq> 0 then 0 # at else at)"

section \<open>Booleans\<close>

definition anode_read_boolean :: "byte list \<Rightarrow> bool option" where
  "anode_read_boolean buf =
     (if length buf \<noteq> 1 then None
      else if buf ! 0 = 0x00 then Some False
      else if buf ! 0 = 0xFF then Some True
      else None)"

definition anode_write_boolean :: "bool \<Rightarrow> byte list" where
  "anode_write_boolean value = (if value then [0xFF] else [0x00])"

definition anode_validate_boolean :: "byte list \<Rightarrow> bool" where
  "anode_validate_boolean buf \<longleftrightarrow>
     \<not> length buf \<noteq> 1 \<and> \<not> (buf ! 0 \<noteq> 0x00 \<and> buf ! 0 \<noteq> 0xFF)"

section \<open>Object identifiers\<close>

text \<open>The digits from the last one on; \<open>base\<close> is multiplied after every digit, needed or not.\<close>

fun atoin_loop :: "byte list \<Rightarrow> int \<Rightarrow> int \<Rightarrow> int outcome" where
  "atoin_loop [] ret base = Ret ret"
| "atoin_loop (c # cs) ret base =
     (if c < chr CHR ''0'' \<or> chr CHR ''9'' < c then Ret (-1)
      else
        let ret' = ret + uint (c - chr CHR ''0'') * base in
        if 2 ^ 31 \<le> ret' \<or> 2 ^ 31 \<le> base * 10 then Undef
        else atoin_loop cs ret' (base * 10))"

definition atoin :: "byte list \<Rightarrow> int outcome" where
  "atoin p = atoin_loop (rev p) 0 1"

text \<open>
  The variable \<^verbatim>\<open>lead\<close> is set to 1 before the loop and again after each number, and never to 0.
\<close>

fun read_oid_loop :: "byte list \<Rightarrow> 32 word \<Rightarrow> 32 word \<Rightarrow> byte list \<Rightarrow> byte list option" where
  "read_oid_loop [] val pval result = Some result"
| "read_oid_loop (b # bs) val pval result =
     (if b = 0x80 then None
      else
        let val' = push_bit 7 val OR ucast (b AND 0x7F) in
        if val' < pval then None
        else if b AND 0x80 = 0
        then read_oid_loop bs 0 0 (result @ cstr ''.'' @ print_unsigned (unat val'))
        else read_oid_loop bs val' val' result)"

definition anode_read_object_id :: "byte list \<Rightarrow> byte list option outcome" where
  "anode_read_object_id p =
     (case p of
        [] \<Rightarrow> Undef
      | b # rest \<Rightarrow>
          let pval = unat b div 40; val = unat b - pval * 40 in
          Ret (read_oid_loop rest 0 0 (print_unsigned pval @ cstr ''.'' @ print_unsigned val)))"

fun write_groups :: "nat \<Rightarrow> bool \<Rightarrow> nat \<Rightarrow> byte list" where
  "write_groups 0 had num = []"
| "write_groups (Suc k) had num =
     (let bit7 = of_nat (num div 2 ^ (k * 7)) AND 0x7F in
      if bit7 \<noteq> 0 \<or> had \<or> k = 0
      then (if k \<noteq> 0 then bit7 OR 0x80 else bit7) # write_groups k True num
      else write_groups k had num)"

lemma rest_shorter: "s \<noteq> [] \<Longrightarrow> length (dropWhile P s) - Suc 0 < length s"
  using length_dropWhile_le [of P s] by (cases s) auto

text \<open>The parts of the text between the dots, from the \<open>i\<close>-th on.\<close>

function write_oid_loop :: "nat \<Rightarrow> nat \<Rightarrow> byte list \<Rightarrow> byte list option outcome" where
  "write_oid_loop i num1 oid =
     (if oid = [] then Ret (Some [])
      else
        let part = takeWhile (\<lambda>c. c \<noteq> chr CHR ''.'') oid;
            rest = tl (dropWhile (\<lambda>c. c \<noteq> chr CHR ''.'') oid) in
        if part = [] then Ret None
        else
          obind (atoin part)
            (\<lambda>num.
               if num < 0 then Ret None
               else if i = 0 then write_oid_loop (Suc i) (nat num) rest
               else if i = 1 then
                 if 2 ^ 31 \<le> 40 * int num1 + num then Undef
                 else
                   obind (write_oid_loop (Suc i) num1 rest)
                     (\<lambda>r. Ret (map_option ((@) [of_nat (40 * num1 + nat num)]) r))
               else
                 obind (write_oid_loop (Suc i) num1 rest)
                   (\<lambda>r. Ret (map_option ((@) (write_groups 5 False (nat num))) r))))"
  by pat_completeness auto
termination
  by (relation "measure (\<lambda>(i, num1, oid). length oid)") (simp_all add: rest_shorter)

declare write_oid_loop.simps [simp del]

definition anode_write_object_id :: "byte list \<Rightarrow> byte list option outcome" where
  "anode_write_object_id oid =
     obind (write_oid_loop 0 0 oid)
       (\<lambda>r. case r of
          None \<Rightarrow> Ret None
        | Some data \<Rightarrow> if length data < 2 then Ret None else Ret (Some data))"

section \<open>Times\<close>

record tm =
  tm_year :: int
  tm_mon :: int
  tm_mday :: int
  tm_hour :: int
  tm_min :: int
  tm_sec :: int

text \<open>\<open>now\<close> is \<^verbatim>\<open>tm_year\<close> of the clock, the years since 1900.\<close>

definition two_to_four_digit_year :: "int \<Rightarrow> int \<Rightarrow> int" where
  "two_to_four_digit_year now year =
     (if \<not> (0 \<le> year \<and> year \<le> 99) then -1
      else
        let current = now mod 100; century = (now + 1900) - current in
        if current < 40 \<and> year < current then century + year
        else if current < 40 \<and> 100 - (40 - current) < year then (century - 100) + year
        else if \<not> current < 40 \<and> year < current \<and> current - 40 < year then century + year
        else if year < current then century + 100 + year
        else century + year)"

text \<open>One field of \<open>n\<close> digits, if there are that many left.\<close>

definition time_field :: "nat \<Rightarrow> (int \<Rightarrow> int) \<Rightarrow> int \<Rightarrow> byte list \<Rightarrow> (int \<times> byte list) outcome" where
  "time_field n f dflt digits =
     (if n \<le> length digits
      then obind (atoin (take n digits)) (\<lambda>v. Ret (f v, drop n digits))
      else Ret (dflt, digits))"

text \<open>Month to second, which both kinds of time read in the same way, and the check of the ranges.\<close>

definition time_fields :: "int \<Rightarrow> byte list \<Rightarrow> (tm \<times> byte list) outcome" where
  "time_fields year digits =
     obind (time_field 2 (\<lambda>v. v - 1) 0 digits) (\<lambda>(mon, d1).
     obind (time_field 2 (\<lambda>v. v) 1 d1) (\<lambda>(mday, d2).
     obind (time_field 2 (\<lambda>v. v) 0 d2) (\<lambda>(hour, d3).
     obind (time_field 2 (\<lambda>v. v) 0 d3) (\<lambda>(min, d4).
     obind (time_field 2 (\<lambda>v. v) 0 d4) (\<lambda>(sec, d5).
       Ret (\<lparr>tm_year = year, tm_mon = mon, tm_mday = mday, tm_hour = hour, tm_min = min,
             tm_sec = sec\<rparr>, d5))))))"

definition time_in_range :: "tm \<Rightarrow> bool" where
  "time_in_range w \<longleftrightarrow>
     \<not> (tm_year w < 0 \<or> tm_year w > 9999 \<or> tm_mon w < 0 \<or> tm_mon w > 11 \<or>
        tm_mday w < 1 \<or> tm_mday w > 31 \<or> tm_hour w < 0 \<or> tm_hour w > 23 \<or>
        tm_min w < 0 \<or> tm_min w > 59 \<or> tm_sec w < 0 \<or> tm_sec w > 59)"

text \<open>
  What stands behind the digits: a fraction of four digits, then \<^verbatim>\<open>Z\<close> or an offset. The character
  that may be a sign is read without a look at the end. An offset out of range makes the function
  return -1, which is not \<^verbatim>\<open>FALSE\<close>; the offset stays 0 then.
\<close>

definition time_zone :: "byte list \<Rightarrow> int option outcome" where
  "time_zone text =
     (let r = (if text \<noteq> [] \<and> hd text = chr CHR ''.'' \<and> 5 \<le> length text then drop 5 text
               else text) in
      if r = [] then Undef
      else if hd r = chr CHR ''Z'' then if tl r = [] then Ret (Some 0) else Ret None
      else if (hd r = chr CHR ''-'' \<or> hd r = chr CHR ''+'') \<and> 3 \<le> length r then
        obind (atoin (take 2 (tl r)))
          (\<lambda>v. let off = v * 3600 in
             if off < 0 \<or> 86400 < off then Ret (Some 0)
             else
               let p = drop 3 r in
               obind (if 2 \<le> length p
                      then obind (atoin (take 2 p)) (\<lambda>w. Ret (off + w * 60, drop 2 p))
                      else Ret (off, p))
                 (\<lambda>(off', p').
                    if p' \<noteq> [] then Ret None
                    else Ret (Some (if hd r = chr CHR ''-'' then 0 - off' else off'))))
      else Ret None)"

text \<open>The text after the year is handled the same in both functions.\<close>

definition time_rest :: "int \<Rightarrow> byte list \<Rightarrow> byte list \<Rightarrow> (tm \<times> int) option outcome" where
  "time_rest year digits text =
     obind (time_fields year digits)
       (\<lambda>(w, left).
          if \<not> time_in_range w then Ret None
          else if left \<noteq> [] then Ret None
          else obind (time_zone text) (\<lambda>z. Ret (map_option (\<lambda>off. (w, off)) z)))"

text \<open>The digits are counted without a look at the end: text of digits only is read past its end.\<close>

definition parse_utc_time :: "int \<Rightarrow> byte list \<Rightarrow> (tm \<times> int) option outcome" where
  "parse_utc_time now time =
     (if length time < 6 \<or> 28 \<le> length time then Ret None
      else if list_all g_ascii_isdigit time then Undef
      else
        obind (time_field 2 (\<lambda>v. two_to_four_digit_year now v - 1900) 0
                 (takeWhile g_ascii_isdigit time))
          (\<lambda>(year, digits). time_rest year digits (dropWhile g_ascii_isdigit time)))"

definition parse_general_time :: "byte list \<Rightarrow> (tm \<times> int) option outcome" where
  "parse_general_time time =
     (if length time < 8 \<or> 30 \<le> length time then Ret None
      else if list_all g_ascii_isdigit time then Undef
      else
        obind (time_field 4 (\<lambda>v. v - 1900) 0 (takeWhile g_ascii_isdigit time))
          (\<lambda>(year, digits). time_rest year digits (dropWhile g_ascii_isdigit time)))"

section \<open>Integers\<close>

definition low_octets :: "64 word \<Rightarrow> byte list" where
  "low_octets v = map (\<lambda>i. ucast (drop_bit (8 * i) v)) [0..<8]"

lemma length_low_octets [simp]: "length (low_octets v) = 8"
  by (simp add: low_octets_def)

lemma low_octets_not_Nil [simp]: "low_octets v \<noteq> []"
  by (metis length_low_octets list.size(3) zero_neq_numeral)

lemma ucast_low_byte: "ucast ((w :: 64 word) AND 0xFF) = (ucast w :: byte)"
proof (rule bit_word_eqI)
  fix n assume "n < LENGTH(8)"
  then have "n < 8" by simp
  moreover have "bit (0xFF :: 64 word) n" if "n < 8"
    using that by (simp add: less_Suc_eq numeral_eq_Suc) auto
  ultimately show "bit (ucast (w AND 0xFF) :: byte) n = bit (ucast w :: byte) n"
    by (simp add: bit_simps)
qed

lemma high_bit: "b AND 0x80 \<noteq> 0 \<longleftrightarrow> 128 \<le> b" for b :: byte
proof -
  have "b AND 2 ^ 7 = 0 \<longleftrightarrow> \<not> bit b 7" by (rule and_exp_eq_0_iff_not_bit)
  moreover have "bit b 7 \<longleftrightarrow> odd (unat b div 128)"
    using bit_unsigned_iff [of b 7, where ?'a = nat] by (simp add: bit_iff_odd)
  moreover have "unat b div 128 < 2"
    using unat_byte_less [of b] by (intro less_mult_imp_div_less) (simp only:)
  then have "unat b div 128 = 0 \<or> unat b div 128 = 1" by linarith
  ultimately show ?thesis by (auto simp: word_le_nat_alt div_eq_0_iff)
qed

lemma buffer_low_octets:
  "map (\<lambda>i. ucast (drop_bit ((8 - (i + 1)) * 8) v AND 0xFF)) [0..<8] = rev (low_octets v)"
  by (simp add: low_octets_def ucast_low_byte upt_rec del: upt_Suc)

lemma unat_octet: "unat (ucast (drop_bit (8 * i) (v :: 64 word)) :: byte) = unat v div 256 ^ i mod 256"
proof -
  have "unat (ucast (drop_bit (8 * i) v) :: byte) = take_bit 8 (unat (drop_bit (8 * i) v))"
    by (simp add: unsigned_ucast_eq)
  also have "unat (drop_bit (8 * i) v) = drop_bit (8 * i) (unat v)"
  proof -
    have "unat v < 2 ^ LENGTH(64)" by (rule unsigned_less)
    then show ?thesis by (simp add: unsigned_drop_bit_eq take_bit_nat_eq_self)
  qed
  also have "take_bit 8 (drop_bit (8 * i) (unat v)) = unat v div 2 ^ (8 * i) mod 2 ^ 8"
    by (simp add: take_bit_eq_mod drop_bit_eq_div)
  also have "(2 :: nat) ^ (8 * i) = 256 ^ i" by (simp add: power_mult)
  finally show ?thesis by simp
qed

lemma be_nat_Cons: "be_nat (b # bs) = unat b * 256 ^ length bs + be_nat bs"
  using be_nat_append [of "[b]" bs] by (simp add: be_nat_def)

lemma be_nat_low_octets:
  "m \<le> 8 \<Longrightarrow> be_nat (rev (take m (low_octets v))) = unat v mod 256 ^ m"
proof (induction m)
  case (Suc m)
  let ?b = "low_octets v ! m"
  have "take (Suc m) (low_octets v) = take m (low_octets v) @ [?b]"
    using Suc.prems by (simp add: take_Suc_conv_app_nth)
  then have "be_nat (rev (take (Suc m) (low_octets v))) =
      unat ?b * 256 ^ m + unat v mod 256 ^ m"
    using Suc by (simp add: be_nat_Cons)
  also have "unat ?b = unat v div 256 ^ m mod 256"
    using Suc.prems by (simp add: low_octets_def unat_octet)
  also have "unat v div 256 ^ m mod 256 * 256 ^ m + unat v mod 256 ^ m = unat v mod 256 ^ Suc m"
    using mod_mult2_eq [of "unat v" "256 ^ m" 256] by (simp add: mult.commute)
  finally show ?case .
qed simp

lemma read_integer_loop_exact:
  assumes "be_nat bs < 2 ^ 31" and "length bs \<le> 4"
  shows "\<exists>x. read_integer_loop bs acc = Ret (acc OR x) \<and> unat x = be_nat bs \<and>
    (\<forall>n \<ge> 8 * length bs. \<not> bit x n)"
  using assms
proof (induction bs arbitrary: acc)
  case Nil
  then show ?case by (intro exI [of _ 0]) simp
next
  case (Cons b bs)
  let ?s = "8 * length bs"
  let ?p = "push_bit ?s (ucast b) :: 64 word"
  have e: "be_nat (b # bs) = unat b * 2 ^ ?s + be_nat bs" by (simp add: be_nat_Cons power_mult)
  have small: "unat b * 2 ^ ?s < 2 ^ 31" "?s < 32" "be_nat bs < 2 ^ 31"
    using Cons.prems e by auto
  obtain x where x: "read_integer_loop bs (acc OR ?p) = Ret ((acc OR ?p) OR x)"
    "unat x = be_nat bs" "\<forall>n \<ge> ?s. \<not> bit x n"
    using Cons small(3) by fastforce
  have "unat (ucast b :: 64 word) = unat b" by transfer (simp add: take_bit_take_bit)
  moreover have "?p = ucast b * 2 ^ ?s" by (simp add: push_bit_eq_mult)
  moreover have "unat ((2 :: 64 word) ^ ?s) = 2 ^ ?s"
  proof -
    have "(2 :: nat) ^ ?s < 2 ^ 64" using small(2) by (intro power_strict_increasing) simp_all
    moreover have "(2 :: 64 word) ^ ?s = of_nat (2 ^ ?s)" by simp
    ultimately show ?thesis by (simp only: unat_of_nat) simp
  qed
  ultimately have up: "unat ?p = unat b * 2 ^ ?s"
    using small(1) by (simp add: unat_mult_lem [THEN iffD1])
  have "?p OR x = ?p + x"
    using x(3) by (intro disjunctive_add_eq_or [symmetric] bit_word_eqI) (auto simp: bit_simps)
  then have "unat (?p OR x) = be_nat (b # bs)"
    using up x(2) e Cons.prems by (simp add: unat_add_lem [THEN iffD1])
  then show ?case
    using x small by (intro exI [of _ "?p OR x"]) (auto simp: Let_def bit_simps or.assoc dest: bit_imp_le_length)
qed

lemma read_integer_loop_undef:
  "read_integer_loop bs acc = Undef \<or>
   length bs \<le> 4 \<and> (length bs = 4 \<longrightarrow> bs ! 0 < 128)"
proof (cases bs)
  case (Cons b rest)
  then show ?thesis
    by (cases "length rest \<le> 3") (auto simp: Let_def word_less_nat_alt not_le)
qed simp

text \<open>
  A number all of whose octets are non-zero, up to its highest.
\<close>

definition no_zero_octet :: "nat \<Rightarrow> bool" where
  "no_zero_octet v \<longleftrightarrow> (\<forall>i. 256 ^ i \<le> v \<longrightarrow> v div 256 ^ i mod 256 \<noteq> 0)"

definition nonzero_count :: "64 word \<Rightarrow> nat" where
  "nonzero_count v = length (takeWhile (\<lambda>b. b \<noteq> 0) (low_octets v))"

lemma nonzero_count_le: "nonzero_count v \<le> 8"
  using length_takeWhile_le [of "\<lambda>b. b \<noteq> 0" "low_octets v"] by (simp add: nonzero_count_def)

lemma low_octet_nth: "i < 8 \<Longrightarrow> unat (low_octets v ! i) = unat v div 256 ^ i mod 256"
  by (simp add: low_octets_def unat_octet)

lemma nonzero_count_less:
  assumes "i < nonzero_count v"
  shows "unat v div 256 ^ i mod 256 \<noteq> 0"
proof -
  have "low_octets v ! i \<noteq> 0"
    using assms nth_mem [of i "takeWhile (\<lambda>b. b \<noteq> 0) (low_octets v)"] takeWhile_nth
    by (metis (mono_tags, lifting) nonzero_count_def set_takeWhileD)
  then show ?thesis
    using low_octet_nth [of i v] assms nonzero_count_le [of v] by (metis less_le_trans unat_eq_0)
qed

lemma nonzero_count_stop:
  assumes "nonzero_count v < 8"
  shows "unat v div 256 ^ nonzero_count v mod 256 = 0"
proof -
  have "low_octets v ! nonzero_count v = 0"
    using nth_length_takeWhile [of "\<lambda>b. b \<noteq> 0" "low_octets v"] assms
    by (simp add: nonzero_count_def)
  then show ?thesis using low_octet_nth [OF assms, of v] by simp
qed

text \<open>What the writer writes.\<close>

lemma write_integer_octets:
  defines "m \<equiv> max 1 o nonzero_count"
  shows "\<exists>z. anode_write_integer_ulong v = z @ rev (take (m v) (low_octets v)) \<and>
    (z = [] \<and> last (take (m v) (low_octets v)) < 128 \<or>
     z = [0] \<and> 128 \<le> last (take (m v) (low_octets v)))"
proof -
  have m: "1 \<le> m v" "m v \<le> 8" using nonzero_count_le [of v] by (simp_all add: m_def)
  let ?at = "rev (take (m v) (low_octets v))"
  have "drop (8 - m v) (rev (low_octets v)) = ?at" using m by (simp add: drop_rev)
  moreover have "(if nonzero_count v = 0 then 1 else nonzero_count v) = m v" by (simp add: m_def)
  ultimately have w: "anode_write_integer_ulong v = (if ?at ! 0 AND 0x80 \<noteq> 0 then 0 # ?at else ?at)"
    unfolding anode_write_integer_ulong_def buffer_low_octets rev_rev_ident Let_def
      nonzero_count_def [symmetric] by simp
  have "?at ! 0 = last (take (m v) (low_octets v))"
    using m by (metis hd_conv_nth hd_rev length_0_conv length_low_octets length_take list.size(3)
        min.absorb2 not_one_le_zero rev_is_Nil_conv)
  then show ?thesis using w high_bit [of "?at ! 0"] by (auto simp: not_le)
qed


lemma be_nat_zero_Cons [simp]: "be_nat (0 # bs) = be_nat bs"
  by (simp add: be_nat_Cons)

lemma write_integer_value:
  "be_nat (anode_write_integer_ulong v) =
     (if nonzero_count v = 0 then 0 else unat v mod 256 ^ nonzero_count v)"
proof -
  obtain z where z: "anode_write_integer_ulong v =
      z @ rev (take (max 1 (nonzero_count v)) (low_octets v))" "z = [] \<or> z = [0]"
    using write_integer_octets [of v] by auto
  have "be_nat (rev (take (max 1 (nonzero_count v)) (low_octets v))) =
      unat v mod 256 ^ max 1 (nonzero_count v)"
    using nonzero_count_le [of v] by (intro be_nat_low_octets) simp
  moreover have "unat v mod 256 = 0" if "nonzero_count v = 0"
    using nonzero_count_stop [of v] that by simp
  ultimately show ?thesis using z by (auto simp: max_def)
qed

lemma no_zero_octet_iff:
  "no_zero_octet (unat v) \<longleftrightarrow> unat v < 256 ^ nonzero_count v"
proof
  assume nz: "no_zero_octet (unat v)"
  have "unat v < 2 ^ LENGTH(64)" by (rule unsigned_less)
  then have "unat v < 256 ^ 8" by simp
  then show "unat v < 256 ^ nonzero_count v"
    using nz nonzero_count_stop [of v] nonzero_count_le [of v]
    by (cases "nonzero_count v = 8") (auto simp: no_zero_octet_def not_le)
next
  assume l: "unat v < 256 ^ nonzero_count v"
  show "no_zero_octet (unat v)"
    unfolding no_zero_octet_def
  proof (intro allI impI)
    fix i
    assume "256 ^ i \<le> unat v"
    then have "(256 :: nat) ^ i < 256 ^ nonzero_count v" using l by linarith
    then have "i < nonzero_count v" by simp
    then show "unat v div 256 ^ i mod 256 \<noteq> 0" by (rule nonzero_count_less)
  qed
qed

lemma write_integer_exact_iff:
  "be_nat (anode_write_integer_ulong v) = unat v \<longleftrightarrow> no_zero_octet (unat v)"
  unfolding write_integer_value no_zero_octet_iff
  by (auto simp: mod_eq_self_iff_div_eq_0 div_eq_0_iff less_Suc0)

lemma read_integer_ok:
  assumes "bs \<noteq> []" and "length bs \<le> 4" and "length bs = 4 \<longrightarrow> bs ! 0 < 128"
  shows "be_nat bs < 2 ^ 31"
    and "anode_read_integer_ulong bs = Ret (Some (of_nat (be_nat bs)))"
proof -
  obtain b r where bs: "bs = b # r" using assms(1) by (cases bs) simp_all
  have r: "be_nat r < 256 ^ length r" by (rule be_nat_less)
  show small: "be_nat bs < 2 ^ 31"
  proof (cases "length r = 3")
    case True
    then have "unat b < 128" using assms(3) bs by (simp add: word_less_nat_alt)
    then have "unat b * 256 ^ 3 + be_nat r < 128 * 256 ^ 3" using r True by simp
    then show ?thesis using bs True by (simp add: be_nat_Cons)
  next
    case False
    then have "length bs \<le> 3" using assms(2) bs by simp
    then have "(256 :: nat) ^ length bs \<le> 256 ^ 3" by (intro power_increasing) simp_all
    then show ?thesis using be_nat_less [of bs] by simp
  qed
  obtain x where x: "read_integer_loop bs 0 = Ret x" "unat x = be_nat bs"
    using read_integer_loop_exact [OF small assms(2), of 0] by auto
  then have "x = of_nat (be_nat bs)" by (simp flip: x(2))
  with x show "anode_read_integer_ulong bs = Ret (Some (of_nat (be_nat bs)))"
    using assms(1,2) by (simp add: anode_read_integer_ulong_def Suc_le_eq)
qed

lemma write_integer_readable:
  assumes "no_zero_octet (unat v)" and "unat v < 2 ^ 31"
  defines "w \<equiv> anode_write_integer_ulong v"
  shows "w \<noteq> []" and "length w \<le> 4" and "length w = 4 \<longrightarrow> w ! 0 < 128"
proof -
  let ?n = "nonzero_count v"
  let ?m = "max 1 ?n"
  obtain z where w: "w = z @ rev (take ?m (low_octets v))"
    and z: "z = [] \<and> last (take ?m (low_octets v)) < 128 \<or>
            z = [0] \<and> 128 \<le> last (take ?m (low_octets v))"
    using write_integer_octets [of v] unfolding w_def by auto
  have top: "last (take k (low_octets v)) = low_octets v ! (k - 1)" if "1 \<le> k" "k \<le> 8" for k
    using that by (subst last_conv_nth) (auto simp: min_def)
  have "?m \<le> 4"
  proof (rule ccontr)
    assume "\<not> ?m \<le> 4"
    then have "4 < ?n" by simp
    then have "unat v div 256 ^ 4 mod 256 \<noteq> 0" by (rule nonzero_count_less)
    then show False using assms(2) by simp
  qed
  moreover have "?m \<le> 3" if "z = [0]"
  proof (rule ccontr)
    assume "\<not> ?m \<le> 3"
    then have "?m = 4" using \<open>?m \<le> 4\<close> by linarith
    then have "128 \<le> unat (low_octets v ! 3)" using z that top [of 4] by (auto simp: word_le_nat_alt)
    then show False using assms(2) low_octet_nth [of 3 v] by simp
  qed
  moreover have "length (rev (take ?m (low_octets v))) = ?m" using \<open>?m \<le> 4\<close> by simp
  moreover have "rev (take ?m (low_octets v)) ! 0 = last (take ?m (low_octets v))"
    using \<open>?m \<le> 4\<close> by (simp add: hd_conv_nth [symmetric] hd_rev del: take_eq_Nil)
      (auto simp: hd_rev hd_conv_nth [symmetric])
  ultimately show "w \<noteq> []" "length w \<le> 4" "length w = 4 \<longrightarrow> w ! 0 < 128"
    using w z by auto
qed

section \<open>Object identifiers\<close>

text \<open>The text of an identifier.\<close>

fun oid_tail :: "nat list \<Rightarrow> byte list" where
  "oid_tail [] = []"
| "oid_tail (n # ns) = cstr ''.'' @ print_unsigned n @ oid_tail ns"

definition oid_text :: "nat \<Rightarrow> nat \<Rightarrow> nat list \<Rightarrow> byte list" where
  "oid_text a b ns = print_unsigned a @ cstr ''.'' @ print_unsigned b @ oid_tail ns"

text \<open>
  The numbers the functions can carry: up to nine digits, and no group of seven bits is zero except
  for the last one.
\<close>

definition arc_ok :: "nat \<Rightarrow> bool" where
  "arc_ok n \<longleftrightarrow> n < 10 ^ 9 \<and> (\<forall>i > 0. 128 ^ i \<le> n \<longrightarrow> n div 128 ^ i mod 128 \<noteq> 0)"

lemma atoin_digit:
  assumes "k < 10"
  shows "\<not> ((chr CHR ''0'' + of_nat k :: byte) < chr CHR ''0'' \<or> chr CHR ''9'' < (chr CHR ''0'' + of_nat k :: byte))"
    and "uint ((chr CHR ''0'' + of_nat k) - chr CHR ''0'' :: byte) = int k"
proof -
  have "k \<in> set [0..<10]" using assms by simp
  then show "\<not> ((chr CHR ''0'' + of_nat k :: byte) < chr CHR ''0'' \<or> chr CHR ''9'' < (chr CHR ''0'' + of_nat k :: byte))"
    by (simp add: upt_conv_Cons) (elim disjE; simp)
  show "uint ((chr CHR ''0'' + of_nat k) - chr CHR ''0'' :: byte) = int k"
    using assms by (simp add: unsigned_of_nat take_bit_nat_eq_self)
qed

lemma atoin_loop_print:
  assumes "ret < base" and "base * 10 ^ length (print_unsigned n) < 2 ^ 31" and "0 \<le> ret"
  shows "atoin_loop (rev (print_unsigned n)) ret base = Ret (ret + int n * base)"
  using assms
proof (induction n arbitrary: ret base rule: print_unsigned.induct)
  case (1 n)
  let ?d = "n mod 10"
  have d: "?d < 10" by simp
  show ?case
  proof (cases "n < 10")
    case True
    then have p: "print_unsigned n = [chr CHR ''0'' + of_nat n]" by (subst print_unsigned.simps) simp
    have "int n * base \<le> 9 * base" using True "1.prems" by (intro mult_right_mono) auto
    moreover have b: "base * 10 < 2 ^ 31" using "1.prems"(2) p by simp
    ultimately have "ret + int n * base < 2 ^ 31" using "1.prems"(1) by linarith
    then show ?thesis using p b atoin_digit [OF True] by simp
  next
    case False
    then have p: "print_unsigned n = print_unsigned (n div 10) @ [chr CHR ''0'' + of_nat ?d]"
      by (subst print_unsigned.simps) simp
    have "int ?d * base \<le> 9 * base" using "1.prems" by (intro mult_right_mono) auto
    moreover have "base * 10 * 10 ^ length (print_unsigned (n div 10)) < 2 ^ 31"
      using "1.prems" p by (simp add: mult.assoc)
    moreover have "base * 10 * 1 \<le> base * 10 * 10 ^ length (print_unsigned (n div 10))"
      using "1.prems" by (intro mult_left_mono) auto
    ultimately have b: "ret + int ?d * base < base * 10" "base * 10 < 2 ^ 31"
      "base * 10 * 10 ^ length (print_unsigned (n div 10)) < 2 ^ 31"
      using "1.prems"(1,3) by linarith+
    have "atoin_loop (rev (print_unsigned (n div 10))) (ret + int ?d * base) (base * 10) =
        Ret (ret + int ?d * base + int (n div 10) * (base * 10))"
      using False b "1.prems" by (intro "1.IH") auto
    moreover have "ret + int ?d * base + int (n div 10) * (base * 10) = ret + int n * base"
    proof -
      have "int n = int ?d + 10 * int (n div 10)" by presburger
      then show ?thesis by (simp add: algebra_simps)
    qed
    ultimately show ?thesis using p atoin_digit [OF d] b by simp
  qed
qed

lemma atoin_print:
  assumes "n < 10 ^ 9"
  shows "atoin (print_unsigned n) = Ret (int n)"
proof -
  have "length (print_unsigned n) \<le> 9" using assms by (intro length_print_unsigned) simp_all
  then have "(10 :: int) ^ length (print_unsigned n) \<le> 10 ^ 9" by (intro power_increasing) simp_all
  then show ?thesis using atoin_loop_print [of 0 1 n] by (simp add: atoin_def)
qed

lemma dot_not_digit: "chr CHR ''.'' \<notin> set (print_unsigned n)"
proof
  assume "chr CHR ''.'' \<in> set (print_unsigned n)"
  then obtain k where "k < 10" "chr CHR ''.'' = (chr CHR ''0'' + of_nat k :: byte)"
    using print_unsigned_digits [of n] by (auto simp: list_all_iff)
  then have "\<not> (chr CHR ''.'' :: byte) < chr CHR ''0''" using atoin_digit(1) by metis
  then show False by simp
qed

text \<open>The parts of a text.\<close>

lemma oid_parts:
  assumes "rest = [] \<or> rest = chr CHR ''.'' # tail"
  shows "takeWhile (\<lambda>c. c \<noteq> chr CHR ''.'') (print_unsigned n @ rest) = print_unsigned n"
    and "dropWhile (\<lambda>c. c \<noteq> chr CHR ''.'') (print_unsigned n @ rest) = rest"
proof -
  have all: "\<forall>c \<in> set (print_unsigned n). c \<noteq> chr CHR ''.''" using dot_not_digit by blast
  then show "takeWhile (\<lambda>c. c \<noteq> chr CHR ''.'') (print_unsigned n @ rest) = print_unsigned n"
    using assms by (auto simp: takeWhile_append2)
  show "dropWhile (\<lambda>c. c \<noteq> chr CHR ''.'') (print_unsigned n @ rest) = rest"
    using all assms by (auto simp: dropWhile_append2)
qed

lemma write_oid_step:
  assumes "n < 10 ^ 9" and "rest = [] \<or> rest = chr CHR ''.'' # tail"
  shows "write_oid_loop i num1 (print_unsigned n @ rest) =
    (if i = 0 then write_oid_loop (Suc i) n (tl rest)
     else if i = 1 then
       if 2 ^ 31 \<le> 40 * int num1 + int n then Undef
       else obind (write_oid_loop (Suc i) num1 (tl rest))
         (\<lambda>r. Ret (map_option ((@) [of_nat (40 * num1 + n)]) r))
     else obind (write_oid_loop (Suc i) num1 (tl rest))
       (\<lambda>r. Ret (map_option ((@) (write_groups 5 False n)) r)))"
  unfolding write_oid_loop.simps [of i num1 "print_unsigned n @ rest"] oid_parts [OF assms(2)] Let_def
  by (simp add: atoin_print [OF assms(1)])

lemma oid_tail_cases: "oid_tail ns = [] \<or> (\<exists>tail. oid_tail ns = chr CHR ''.'' # tail)"
  by (cases ns) simp_all

lemma tl_oid_tail: "tl (oid_tail (n # ns)) = print_unsigned n @ oid_tail ns"
  by simp

lemma write_oid_tail:
  assumes "\<forall>n \<in> set ns. n < 10 ^ 9" and "2 \<le> i"
  shows "write_oid_loop i num1 (tl (oid_tail ns)) =
    Ret (Some (concat (map (write_groups 5 False) ns)))"
  using assms
proof (induction ns arbitrary: i)
  case Nil
  then show ?case by (simp add: write_oid_loop.simps)
next
  case (Cons n ns)
  obtain tail where "oid_tail ns = [] \<or> oid_tail ns = chr CHR ''.'' # tail"
    using oid_tail_cases by blast
  then show ?case
    unfolding tl_oid_tail using Cons by (simp add: write_oid_step)
qed

text \<open>Groups of seven bits as octets.\<close>

lemma low_seven: "(of_nat m :: byte) AND 0x7F = of_nat (m mod 128)"
proof -
  have "(of_nat m :: byte) AND mask 7 = take_bit 7 (of_nat m)" by (rule take_bit_eq_mask [symmetric])
  also have "\<dots> = of_nat (take_bit 7 m)" by (rule take_bit_of_nat)
  finally show ?thesis by (simp add: take_bit_eq_mod mask_eq_exp_minus_1)
qed

lemma group_octet:
  assumes "0 < d" and "d < 128"
  defines "b \<equiv> (of_nat d OR 0x80 :: byte)"
  shows "b \<noteq> 0x80" and "b AND 0x7F = of_nat d" and "b AND 0x80 \<noteq> 0"
proof -
  have b: "b = of_nat d + 128"
    unfolding b_def using short_byte(1) [OF assms(2)] by (simp add: disjunctive_add_eq_or)
  then have u: "unat b = d + 128" using assms by (simp add: unat_word_ariths unat_of_nat)
  show "b \<noteq> 0x80" using u assms(1) by auto
  show "b AND 0x7F = of_nat d" unfolding b by (rule tag_bytes(2) [OF assms(2)])
  show "b AND 0x80 \<noteq> 0" using u by (simp add: high_bit word_le_nat_alt)
qed

lemma push_group:
  assumes "unat val * 128 + d < 2 ^ 32" and "d < 128"
  shows "unat (push_bit 7 val OR ucast (of_nat d :: byte) :: 32 word) = unat val * 128 + d"
proof -
  let ?x = "ucast (of_nat d :: byte) :: 32 word"
  have x: "unat ?x = d" using assms(2) by (simp add: unat_ucast_byte tag_bytes(4))
  have "take_bit 7 d = d" using assms(2) by (simp add: take_bit_nat_eq_self)
  then have b7: "bit d n \<Longrightarrow> n < 7" for n by (metis bit_take_bit_iff)
  have "push_bit 7 val AND ?x = 0" by (intro bit_word_eqI) (auto simp: bit_simps dest: b7)
  then have o: "push_bit 7 val OR ?x = push_bit 7 val + ?x" by (rule disjunctive_add_eq_or [symmetric])
  have m: "push_bit 7 val = val * 128" by (simp add: push_bit_eq_mult)
  show ?thesis unfolding o unfolding m using group_step(2) [of val 128 d ?x] assms x by simp
qed

lemma read_groups:
  assumes "n < 2 ^ 32" and "\<forall>i > 0. 128 ^ i \<le> n \<longrightarrow> n div 128 ^ i mod 128 \<noteq> 0"
    and "unat val = n div 128 ^ Suc k" and "had \<longrightarrow> 128 ^ Suc k \<le> n" and "pval \<le> val"
  shows "read_oid_loop (write_groups (Suc k) had n @ rest) val pval res =
    read_oid_loop rest 0 0 (res @ cstr ''.'' @ print_unsigned n)"
  using assms(3-5)
proof (induction k arbitrary: val pval had)
  case 0
  let ?d = "n mod 128"
  have v: "unat (push_bit 7 val OR ucast (of_nat ?d :: byte) :: 32 word) = n"
    using push_group [of val ?d] 0 assms(1) by simp
  have o: "(of_nat n :: byte) AND 0x7F = of_nat ?d" by (rule low_seven)
  have d: "?d < 128" by simp
  have "(of_nat ?d :: byte) \<noteq> 0x80" using tag_bytes(4) [OF d] by auto
  moreover have "(of_nat ?d :: byte) AND 0x80 = 0" by (rule short_byte(1) [OF d])
  moreover have "\<not> push_bit 7 val OR ucast (of_nat ?d :: byte) < pval"
  proof -
    have "unat pval \<le> unat val" using 0 by (simp add: word_le_nat_alt)
    also have "\<dots> \<le> n" using 0 by simp
    finally show ?thesis using v by (simp add: word_less_nat_alt)
  qed
  ultimately show ?case using v o tag_bytes(1) [OF d] by (simp add: Let_def)
next
  case (Suc k)
  let ?d = "n div 128 ^ Suc k mod 128"
  have p: "(2 :: nat) ^ (Suc k * 7) = 128 ^ Suc k" by (simp only: mult.commute [of "Suc k"] power_mult) simp
  have o: "(of_nat (n div 2 ^ (Suc k * 7)) :: byte) AND 0x7F = of_nat ?d"
    unfolding p by (rule low_seven)
  have d: "?d < 128" by simp
  have nx: "unat val * 128 + ?d = n div 128 ^ Suc k"
    using Suc.prems(1) by (metis (no_types, lifting) div_mult2_eq div_mult_mod_eq power_Suc2)
  have z: "(of_nat ?d :: byte) = 0 \<longleftrightarrow> ?d = 0" 
    unfolding unat_eq_0 [symmetric] tag_bytes(4) [OF d] by (rule refl)
  have w: "write_groups (Suc (Suc k)) had n =
      (if ?d \<noteq> 0 \<or> had then (of_nat ?d OR 0x80) # write_groups (Suc k) True n
       else write_groups (Suc k) had n)"
    by (subst write_groups.simps(2)) (simp only: o Let_def z, simp)
  show ?case
  proof (cases "?d = 0")
    case True
    then have "n < 128 ^ Suc k" using assms(2) by (metis not_le zero_less_Suc)
    then have "\<not> had" using Suc.prems(2) by (auto simp: not_le)
    moreover have "unat val = n div 128 ^ Suc k" using nx True \<open>n < 128 ^ Suc k\<close> by simp
    ultimately show ?thesis
      unfolding w using Suc.IH [of val had pval] Suc.prems(3) True
      by (simp del: write_groups.simps power_Suc)
  next
    case False
    let ?b = "of_nat ?d OR 0x80 :: byte"
    let ?v = "push_bit 7 val OR ucast (of_nat ?d :: byte) :: 32 word"
    have v: "unat ?v = n div 128 ^ Suc k"
      using push_group [of val ?d] nx assms(1) by (simp add: le_less_trans [OF div_le_dividend])
    have "\<not> ?v < pval"
    proof -
      have "unat pval \<le> unat val" using Suc.prems by (simp add: word_le_nat_alt)
      also have "\<dots> \<le> unat ?v" using v nx by linarith
      finally show ?thesis by (simp add: word_less_nat_alt)
    qed
    moreover have "128 ^ Suc k \<le> n" using False by (metis div_less mod_0 not_le)
    ultimately show ?thesis
      unfolding w using Suc.IH [of ?v True ?v] group_octet [of ?d] False d v
      by (simp add: Let_def del: write_groups.simps power_Suc)
  qed
qed

lemma write_read_groups:
  assumes "arc_ok n"
  shows "read_oid_loop (write_groups 5 False n @ rest) 0 0 res =
    read_oid_loop rest 0 0 (res @ cstr ''.'' @ print_unsigned n)"
proof -
  have n: "n < 10 ^ 9" "\<forall>i > 0. 128 ^ i \<le> n \<longrightarrow> n div 128 ^ i mod 128 \<noteq> 0"
    using assms by (simp_all add: arc_ok_def)
  have "read_oid_loop (write_groups (Suc 4) False n @ rest) 0 0 res =
    read_oid_loop rest 0 0 (res @ cstr ''.'' @ print_unsigned n)"
    using n by (intro read_groups) (simp_all del: write_groups.simps)
  then show ?thesis by (simp only: eval_nat_numeral)
qed

lemma read_oid_tail:
  assumes "\<forall>n \<in> set ns. arc_ok n"
  shows "read_oid_loop (concat (map (write_groups 5 False) ns)) 0 0 res = Some (res @ oid_tail ns)"
  using assms
  by (induction ns arbitrary: res) (simp_all add: write_read_groups del: write_groups.simps)

lemma length_write_groups: "0 < k \<Longrightarrow> 0 < length (write_groups k had n)"
  by (induction k had n rule: write_groups.induct) (auto simp: Let_def)

section \<open>Times\<close>

text \<open>The text of a time, and the values its parts may have.\<close>

definition two_digits :: "nat \<Rightarrow> byte list" where
  "two_digits n = [chr CHR ''0'' + of_nat (n div 10), chr CHR ''0'' + of_nat (n mod 10)]"

definition clock_text :: "nat \<Rightarrow> nat \<Rightarrow> nat \<Rightarrow> nat \<Rightarrow> nat \<Rightarrow> byte list" where
  "clock_text mon mday hour mins sec =
     two_digits mon @ two_digits mday @ two_digits hour @ two_digits mins @ two_digits sec"

definition clock_ok :: "nat \<Rightarrow> nat \<Rightarrow> nat \<Rightarrow> nat \<Rightarrow> nat \<Rightarrow> bool" where
  "clock_ok mon mday hour mins sec \<longleftrightarrow>
     1 \<le> mon \<and> mon \<le> 12 \<and> 1 \<le> mday \<and> mday \<le> 31 \<and> hour \<le> 23 \<and> mins \<le> 59 \<and> sec \<le> 59"

datatype zone = Zulu | East nat nat | West nat nat

fun zone_text :: "zone \<Rightarrow> byte list" where
  "zone_text Zulu = cstr ''Z''"
| "zone_text (East h m) = cstr ''+'' @ two_digits h @ two_digits m"
| "zone_text (West h m) = cstr ''-'' @ two_digits h @ two_digits m"

fun zone_offset :: "zone \<Rightarrow> int" where
  "zone_offset Zulu = 0"
| "zone_offset (East h m) = int h * 3600 + int m * 60"
| "zone_offset (West h m) = - (int h * 3600 + int m * 60)"

fun zone_ok :: "zone \<Rightarrow> bool" where
  "zone_ok Zulu \<longleftrightarrow> True"
| "zone_ok (East h m) \<longleftrightarrow> h \<le> 24 \<and> m \<le> 99"
| "zone_ok (West h m) \<longleftrightarrow> h \<le> 24 \<and> m \<le> 99"

lemma length_two_digits [simp]: "length (two_digits n) = 2"
  by (simp add: two_digits_def)

lemma atoin_two_digits:
  assumes "n < 100"
  shows "atoin (two_digits n) = Ret (int n)"
proof -
  have a: "n div 10 < 10" "n mod 10 < 10" using assms by auto
  have "int (n mod 10) + int (n div 10) * 10 = int n" by presburger
  moreover have "int (n mod 10) < 2 ^ 31" "int (n mod 10) + int (n div 10) * 10 < 2 ^ 31"
    using a by auto
  ultimately show ?thesis
    using atoin_digit [OF a(1)] atoin_digit [OF a(2)] by (simp add: atoin_def two_digits_def)
qed

lemma two_digits_isdigit:
  assumes "n < 100"
  shows "\<forall>c \<in> set (two_digits n). g_ascii_isdigit c"
proof -
  have "n div 10 < 10" "n mod 10 < 10" using assms by auto
  then show ?thesis using digit_octet(1) by (auto simp: two_digits_def)
qed

lemma time_field_two:
  "n < 100 \<Longrightarrow> time_field 2 f dflt (two_digits n @ rest) = Ret (f (int n), rest)"
  by (simp add: time_field_def atoin_two_digits)

lemma time_fields_clock:
  assumes "clock_ok mon mday hour mins sec"
  shows "time_fields year (clock_text mon mday hour mins sec) =
    Ret (\<lparr>tm_year = year, tm_mon = int mon - 1, tm_mday = int mday, tm_hour = int hour,
      tm_min = int mins, tm_sec = int sec\<rparr>, [])"
proof -
  have "mon < 100" "mday < 100" "hour < 100" "mins < 100" "sec < 100"
    using assms by (auto simp: clock_ok_def)
  then show ?thesis
    using time_field_two [of sec "\<lambda>v. v" 0 "[]"]
    by (simp add: time_fields_def clock_text_def time_field_two)
qed

lemma time_zone_text:
  assumes "zone_ok z"
  shows "time_zone (zone_text z) = Ret (Some (zone_offset z))"
proof (cases z)
  case Zulu
  then show ?thesis by (simp add: time_zone_def)
next
  case (East h m)
  then have "h < 100" "m < 100" "int h * 3600 \<le> 86400" using assms by auto
  then show ?thesis
    using East by (simp add: time_zone_def atoin_two_digits Let_def)
next
  case (West h m)
  then have "h < 100" "m < 100" "int h * 3600 \<le> 86400" using assms by auto
  then show ?thesis
    using West by (simp add: time_zone_def atoin_two_digits Let_def)
qed

lemma time_rest_text:
  assumes "clock_ok mon mday hour mins sec" and "zone_ok z" and "0 \<le> year" "year \<le> 9999"
  shows "time_rest year (clock_text mon mday hour mins sec) (zone_text z) =
    Ret (Some (\<lparr>tm_year = year, tm_mon = int mon - 1, tm_mday = int mday, tm_hour = int hour,
      tm_min = int mins, tm_sec = int sec\<rparr>, zone_offset z))"
  using assms
  by (auto simp: time_rest_def time_fields_clock time_zone_text time_in_range_def clock_ok_def)

lemma time_text_split:
  assumes "\<forall>c \<in> set ds. g_ascii_isdigit c"
  shows "takeWhile g_ascii_isdigit (ds @ zone_text z) = ds"
    and "dropWhile g_ascii_isdigit (ds @ zone_text z) = zone_text z"
    and "\<not> list_all g_ascii_isdigit (ds @ zone_text z)"
proof -
  obtain c t where z: "zone_text z = c # t" "\<not> g_ascii_isdigit c"
    by (cases z) (simp_all add: g_ascii_isdigit_def)
  show "takeWhile g_ascii_isdigit (ds @ zone_text z) = ds"
    using assms z by (simp add: takeWhile_append_stop)
  show "dropWhile g_ascii_isdigit (ds @ zone_text z) = zone_text z"
    using assms z by (simp add: dropWhile_append)
  show "\<not> list_all g_ascii_isdigit (ds @ zone_text z)" using z by simp
qed

lemma length_zone_text: "1 \<le> length (zone_text z)" "length (zone_text z) \<le> 5"
  by (cases z; simp)+

lemma clock_isdigit:
  assumes "clock_ok mon mday hour mins sec"
  shows "\<forall>c \<in> set (clock_text mon mday hour mins sec). g_ascii_isdigit c"
proof -
  have "mon < 100" "mday < 100" "hour < 100" "mins < 100" "sec < 100"
    using assms by (auto simp: clock_ok_def)
  from this [THEN two_digits_isdigit] show ?thesis by (auto simp: clock_text_def)
qed

lemma length_clock_text [simp]: "length (clock_text mon mday hour mins sec) = 10"
  by (simp add: clock_text_def)

lemma asn1_atoin_loop_step:
  assumes "k < 10" and "ret < base" and "0 < base" and "base * 10 < 2 ^ 31"
  shows "atoin_loop ((chr CHR ''0'' + of_nat k) # cs) ret base =
    atoin_loop cs (ret + int k * base) (base * 10)"
proof -
  have "int k * base \<le> 9 * base" using assms(1,3) by (intro mult_right_mono) auto
  then have "ret + int k * base < 2 ^ 31" using assms(2,4) by linarith
  then show ?thesis using atoin_digit [OF assms(1)] assms(4) by simp
qed

lemma atoin_four_digits:
  assumes "c < 100" and "y < 100"
  shows "atoin (two_digits c @ two_digits y) = Ret (int (100 * c + y))"
proof -
  have a: "c div 10 < 10" "c mod 10 < 10" "y div 10 < 10" "y mod 10 < 10" using assms by auto
  have e: "int (y mod 10) + int (y div 10) * 10 = int y" "int (c mod 10) + int (c div 10) * 10 = int c"
    by presburger+
  have y: "int (y mod 10) < 10" "int y < 100" "int y + int (c mod 10) * 100 < 1000"
    using assms a by auto
  have "atoin (two_digits c @ two_digits y) =
      atoin_loop [chr CHR ''0'' + of_nat (y div 10), chr CHR ''0'' + of_nat (c mod 10),
        chr CHR ''0'' + of_nat (c div 10)] (int (y mod 10)) 10"
    unfolding atoin_def two_digits_def append.simps rev.simps
    by (subst asn1_atoin_loop_step [OF a(4)]) simp_all
  also have "\<dots> = atoin_loop [chr CHR ''0'' + of_nat (c mod 10), chr CHR ''0'' + of_nat (c div 10)]
      (int y) 100"
    using y(1) e(1) by (subst asn1_atoin_loop_step [OF a(3)]) simp_all
  also have "\<dots> = atoin_loop [chr CHR ''0'' + of_nat (c div 10)] (int y + int (c mod 10) * 100) 1000"
    using y(2) by (subst asn1_atoin_loop_step [OF a(2)]) simp_all
  also have "\<dots> = Ret (int y + int (c mod 10) * 100 + int (c div 10) * 1000)"
    using y(3) by (subst asn1_atoin_loop_step [OF a(1)]) simp_all
  also have "int y + int (c mod 10) * 100 + int (c div 10) * 1000 = int (100 * c + y)"
    using e(2) by simp
  finally show ?thesis .
qed

section \<open>Correctness of values\<close>

text \<open>
  C19. Integers. The octets \<^verbatim>\<open>anode_write_integer_ulong\<close> writes for a number are read back as that
  number by \<^verbatim>\<open>anode_read_integer_ulong\<close> if and only if the number is below two to the power of 31
  and none of its octets up to the highest is zero.
\<close>

theorem anode_integer_roundtrip_iff:
  "anode_read_integer_ulong (anode_write_integer_ulong v) = Ret (Some v) \<longleftrightarrow>
     unat v < 2 ^ 31 \<and> no_zero_octet (unat v)"
proof
  let ?w = "anode_write_integer_ulong v"
  assume r: "anode_read_integer_ulong ?w = Ret (Some v)"
  then have "?w \<noteq> []" and "read_integer_loop ?w 0 \<noteq> Undef"
    by (auto simp: anode_read_integer_ulong_def split: if_splits)
  moreover from this(2) have "length ?w \<le> 4" "length ?w = 4 \<longrightarrow> ?w ! 0 < 128"
    using read_integer_loop_undef [of ?w 0] by auto
  ultimately have ok: "be_nat ?w < 2 ^ 31" "v = of_nat (be_nat ?w)"
    using read_integer_ok [of ?w] r by auto
  have "unat (of_nat (be_nat ?w) :: 64 word) = be_nat ?w" using ok(1) by (simp add: unat_of_nat)
  then have "unat v = be_nat ?w" using ok(2) by simp
  then show "unat v < 2 ^ 31 \<and> no_zero_octet (unat v)"
    using ok(1) write_integer_exact_iff [of v] by simp
next
  assume a: "unat v < 2 ^ 31 \<and> no_zero_octet (unat v)"
  then have "be_nat (anode_write_integer_ulong v) = unat v" by (simp add: write_integer_exact_iff)
  then show "anode_read_integer_ulong (anode_write_integer_ulong v) = Ret (Some v)"
    using read_integer_ok(2) [of "anode_write_integer_ulong v"] write_integer_readable [of v] a
    by simp
qed

text \<open>Numbers that are written wrongly: 256 as 0, and 65537 as 1.\<close>

lemma anode_write_integer_wrong:
  "anode_write_integer_ulong 256 = [0]" "anode_write_integer_ulong 65537 = [1]"
  by (simp_all add: anode_write_integer_ulong_def Let_def upt_rec drop_bit_eq_div)

text \<open>
  C20. Object identifiers, within bounds. An identifier \<open>a.b.n\<close>\<dots> in dotted text with \<open>b < 40\<close>, with
  \<open>40 * a + b < 256\<close> (the two fit one octet), with at least one more number, and with further numbers of at
  most nine digits none of whose groups of seven bits but the last is zero (\<open>arc_ok\<close>; 16384 is not one
  of them), is written to octets and read back as the same text.
\<close>

theorem anode_object_id_roundtrip:
  assumes "b < 40" and "40 * a + b < 256" and "ns \<noteq> []" and "\<forall>n \<in> set ns. arc_ok n"
  shows "\<exists>data. anode_write_object_id (oid_text a b ns) = Ret (Some data) \<and>
    anode_read_object_id data = Ret (Some (oid_text a b ns))"
proof -
  let ?rest = "concat (map (write_groups 5 False) ns)"
  let ?data = "of_nat (40 * a + b) # ?rest"
  have small: "a < 10 ^ 9" "b < 10 ^ 9" using assms(1,2) by auto
  have arcs: "\<forall>n \<in> set ns. n < 10 ^ 9" using assms(4) by (auto simp: arc_ok_def)
  obtain tail where t: "oid_tail ns = [] \<or> oid_tail ns = chr CHR ''.'' # tail"
    using oid_tail_cases by blast
  have "write_oid_loop 1 a (print_unsigned b @ oid_tail ns) = Ret (Some ?data)"
    using assms(2) write_oid_step [OF small(2) t, of 1 a] write_oid_tail [OF arcs, of 2 a]
    by (simp add: numeral_2_eq_2)
  then have "write_oid_loop 0 0 (oid_text a b ns) = Ret (Some ?data)"
    unfolding oid_text_def
    using write_oid_step [OF small(1), of "cstr ''.'' @ print_unsigned b @ oid_tail ns"
        "print_unsigned b @ oid_tail ns" 0 0] by simp
  moreover obtain n ns' where ns: "ns = n # ns'" using assms(3) by (cases ns) simp_all
  then have "0 < length ?rest" using length_write_groups [of 5 False n] by simp
  then have "\<not> length ?data < 2" by (cases ?rest) simp_all
  ultimately have w: "anode_write_object_id (oid_text a b ns) = Ret (Some ?data)"
    by (simp add: anode_write_object_id_def)
  have u: "unat (of_nat (40 * a + b) :: byte) = 40 * a + b" using assms(2)
    by (simp only: unat_of_nat) simp
  have "(40 * a + b) div 40 = a" "(40 * a + b) - a * 40 = b" using assms(1) by auto
  then have "anode_read_object_id ?data = Ret (Some (oid_text a b ns))"
    using read_oid_tail [OF assms(4), of "print_unsigned a @ cstr ''.'' @ print_unsigned b"] u
    by (simp add: anode_read_object_id_def oid_text_def Let_def del: of_nat_add of_nat_mult)
  then show ?thesis using w by blast
qed

theorem anode_object_id_roundtrip_witness:
  "\<exists>data. anode_write_object_id (oid_text 1 2 [840, 113549]) = Ret (Some data) \<and>
    anode_read_object_id data = Ret (Some (oid_text 1 2 [840, 113549]))"
proof (rule anode_object_id_roundtrip)
  have arc: "arc_ok n" if "n < 10 ^ 9" "n < 128 ^ 3" "n div 128 mod 128 \<noteq> 0"
    "n < 128 ^ 2 \<or> n div 128 ^ 2 mod 128 \<noteq> 0" for n
    unfolding arc_ok_def
  proof (intro conjI allI impI)
    fix i :: nat
    assume i: "0 < i" "128 ^ i \<le> n"
    then have "(128 :: nat) ^ i < 128 ^ 3" using that(2) by linarith
    then have "i < 3" by (rule power_less_imp_less_exp [rotated]) simp
    then have "i = 1 \<or> i = 2" using i(1) by linarith
    then show "n div 128 ^ i mod 128 \<noteq> 0" using that(3,4) i(2) by auto
  qed (rule that(1))
  show "\<forall>n \<in> set [840, 113549]. arc_ok n" by (auto intro!: arc)
qed simp_all

text \<open>
  An identifier that is refused, though it is encoded properly: the number 16384 is the groups 1, 0
  and 0, and the octet of the middle group is taken for a leading one.
\<close>

lemma anode_read_object_id_refuses: "anode_read_object_id [42, 0x81, 0x80, 0x00] = Ret None"
  by (simp add: anode_read_object_id_def Let_def)

text \<open>
  C21. Times. The text of a UTCTime or GeneralizedTime with all fields in range, in Zulu time or with
  an offset of hours and minutes, is read as just these fields and this offset in seconds. The year
  of a UTCTime comes from the clock: the parser takes the year with these two last digits.
\<close>

theorem parse_time_text:
  assumes "clock_ok mon mday hour mins sec" and "zone_ok z" and "yy < 100"
    and "1900 \<le> two_to_four_digit_year now (int yy)"
    and "two_to_four_digit_year now (int yy) \<le> 11899"
    and "19 \<le> cc" and "cc < 100"
  shows "parse_utc_time now (two_digits yy @ clock_text mon mday hour mins sec @ zone_text z) =
      Ret (Some (\<lparr>tm_year = two_to_four_digit_year now (int yy) - 1900, tm_mon = int mon - 1,
        tm_mday = int mday, tm_hour = int hour, tm_min = int mins, tm_sec = int sec\<rparr>,
        zone_offset z)) \<and>
    parse_general_time
        (two_digits cc @ two_digits yy @ clock_text mon mday hour mins sec @ zone_text z) =
      Ret (Some (\<lparr>tm_year = int (100 * cc + yy) - 1900, tm_mon = int mon - 1, tm_mday = int mday,
        tm_hour = int hour, tm_min = int mins, tm_sec = int sec\<rparr>, zone_offset z))"
proof
  let ?c = "clock_text mon mday hour mins sec"
  have d: "\<forall>c \<in> set (two_digits yy @ ?c). g_ascii_isdigit c"
    "\<forall>c \<in> set (two_digits cc @ two_digits yy @ ?c). g_ascii_isdigit c"
    using two_digits_isdigit [OF assms(3)] two_digits_isdigit [OF assms(7)] clock_isdigit [OF assms(1)]
    by auto
  note u = time_text_split [OF d(1), of z] and g = time_text_split [OF d(2), of z]
  note l = length_zone_text [of z]
  have "parse_utc_time now ((two_digits yy @ ?c) @ zone_text z) =
      time_rest (two_to_four_digit_year now (int yy) - 1900) ?c (zone_text z)"
    unfolding parse_utc_time_def u(1,2) using l
    by (simp only: if_not_P [OF u(3)]) (simp add: time_field_two [OF assms(3)])
  then show "parse_utc_time now (two_digits yy @ ?c @ zone_text z) =
      Ret (Some (\<lparr>tm_year = two_to_four_digit_year now (int yy) - 1900, tm_mon = int mon - 1,
        tm_mday = int mday, tm_hour = int hour, tm_min = int mins, tm_sec = int sec\<rparr>,
        zone_offset z))"
    using time_rest_text [OF assms(1,2)] assms(4,5) by simp
  have "parse_general_time ((two_digits cc @ two_digits yy @ ?c) @ zone_text z) =
      time_rest (int (100 * cc + yy) - 1900) ?c (zone_text z)"
    unfolding parse_general_time_def g(1,2) using l
    by (simp only: if_not_P [OF g(3)]) (simp add: time_field_def atoin_four_digits [OF assms(7,3)])
  then show "parse_general_time (two_digits cc @ two_digits yy @ ?c @ zone_text z) =
      Ret (Some (\<lparr>tm_year = int (100 * cc + yy) - 1900, tm_mon = int mon - 1, tm_mday = int mday,
        tm_hour = int hour, tm_min = int mins, tm_sec = int sec\<rparr>, zone_offset z))"
    using time_rest_text [OF assms(1,2)] assms(3,6,7) by simp
qed

theorem parse_time_text_witness:
  "parse_utc_time 125 (two_digits 99 @ clock_text 12 31 23 59 58 @ zone_text (West 5 30)) =
      Ret (Some (\<lparr>tm_year = 99, tm_mon = 11, tm_mday = 31, tm_hour = 23, tm_min = 59, tm_sec = 58\<rparr>,
        -19800)) \<and>
   parse_general_time
        (two_digits 20 @ two_digits 99 @ clock_text 12 31 23 59 58 @ zone_text (West 5 30)) =
      Ret (Some (\<lparr>tm_year = 199, tm_mon = 11, tm_mday = 31, tm_hour = 23, tm_min = 59, tm_sec = 58\<rparr>,
        -19800))"
proof -
  have y: "two_to_four_digit_year 125 (int 99) = 1999" by (simp add: two_to_four_digit_year_def)
  show ?thesis
    using parse_time_text [of 12 31 23 59 58 "West 5 30" 99 125 20] y by (simp add: clock_ok_def)
qed

text \<open>
  C22. The year of two digits. The year it is taken for has these last two digits and lies less than
  forty years before the year of the clock and at most sixty years after it.
\<close>

theorem two_to_four_digit_year_window:
  assumes "0 \<le> year" and "year \<le> 99" and "0 \<le> now"
  shows "two_to_four_digit_year now year mod 100 = year \<and>
    now + 1900 - 40 < two_to_four_digit_year now year \<and>
    two_to_four_digit_year now year \<le> now + 1900 + 60"
proof -
  define c where "c = now mod 100"
  have c: "0 \<le> c" "c < 100" by (simp_all add: c_def)
  have "now = 100 * (now div 100) + c" by (simp add: c_def)
  then obtain k where k: "now = 100 * k + c" by blast
  have m: "(100 * j + year) mod 100 = year" for j using assms(1,2) by simp
  have "\<exists>j. two_to_four_digit_year now year = 100 * j + year \<and>
      now + 1900 - 40 < 100 * j + year \<and> 100 * j + year \<le> now + 1900 + 60"
  proof (cases "c < 40 \<and> 100 - (40 - c) < year")
    case True
    then have "two_to_four_digit_year now year = 100 * (k + 18) + year"
      using assms c k unfolding two_to_four_digit_year_def Let_def c_def [symmetric] by auto
    then show ?thesis using True k c assms by (intro exI [of _ "k + 18"]) auto
  next
    case F1: False
    show ?thesis
    proof (cases "\<not> c < 40 \<and> year \<le> c - 40")
      case True
      then have "two_to_four_digit_year now year = 100 * (k + 20) + year"
        using assms c k unfolding two_to_four_digit_year_def Let_def c_def [symmetric] by auto
      then show ?thesis using True k c assms by (intro exI [of _ "k + 20"]) auto
    next
      case False
      then have "two_to_four_digit_year now year = 100 * (k + 19) + year"
        using F1 assms c k unfolding two_to_four_digit_year_def Let_def c_def [symmetric] by auto
      then show ?thesis using F1 False k c assms by (intro exI [of _ "k + 19"]) auto
    qed
  qed
  then show ?thesis using m by auto
qed

theorem two_to_four_digit_year_window_witness:
  "two_to_four_digit_year 125 50 mod 100 = 50 \<and> 1985 < two_to_four_digit_year 125 50 \<and>
   two_to_four_digit_year 125 50 \<le> 2085"
  using two_to_four_digit_year_window [of 50 125] by simp

text \<open>A time with an offset that is no number is accepted.\<close>

lemma parse_utc_time_bad_zone:
  "parse_utc_time 125 (cstr ''991231235958+AB'') =
     Ret (Some (\<lparr>tm_year = 99, tm_mon = 11, tm_mday = 31, tm_hour = 23, tm_min = 59, tm_sec = 58\<rparr>, 0))"
  by (simp add: parse_utc_time_def g_ascii_isdigit_def time_field_def atoin_def time_rest_def
      time_fields_def time_in_range_def time_zone_def two_to_four_digit_year_def)

end
