(* ===== verification/Egg_Asn1_Node.thy ===== *)
theory Egg_Asn1_Node
  imports Egg_Asn1_Values
begin

text \<open>
  The nodes of the ASN.1 engine, \<^verbatim>\<open>src/egg/egg-asn1x.c\<close>: definitions (\<^verbatim>\<open>EggAsn1xDef\<close>), the data of a
  node (\<^verbatim>\<open>Anode\<close>), trees of nodes, what type, flags and options a node has, and which tag its element
  bears.

  The \<^verbatim>\<open>type\<close> word of a definition has the type in its low octet and flags above: here a type and the
  list of the flags that are set. A tree is a value: a pointer to a node inside of it is a path. A
  function that changes a node returns the changed one; \<^verbatim>\<open>anode_failure\<close> puts a message into the node it
  is called for.
\<close>

section \<open>Definitions\<close>

datatype EggAsn1xType =
  EGG_ASN1X_CONSTANT | EGG_ASN1X_IDENTIFIER | EGG_ASN1X_INTEGER | EGG_ASN1X_BOOLEAN
| EGG_ASN1X_SEQUENCE | EGG_ASN1X_BIT_STRING | EGG_ASN1X_OCTET_STRING | EGG_ASN1X_TAG
| EGG_ASN1X_DEFAULT | EGG_ASN1X_SIZE | EGG_ASN1X_SEQUENCE_OF | EGG_ASN1X_OBJECT_ID
| EGG_ASN1X_ANY | EGG_ASN1X_SET | EGG_ASN1X_SET_OF | EGG_ASN1X_DEFINITIONS | EGG_ASN1X_TIME
| EGG_ASN1X_CHOICE | EGG_ASN1X_IMPORTS | EGG_ASN1X_NULL | EGG_ASN1X_ENUMERATED
| EGG_ASN1X_GENERAL_STRING | EGG_ASN1X_NUMERIC_STRING | EGG_ASN1X_IA5_STRING
| EGG_ASN1X_TELETEX_STRING | EGG_ASN1X_PRINTABLE_STRING | EGG_ASN1X_UNIVERSAL_STRING
| EGG_ASN1X_BMP_STRING | EGG_ASN1X_UTF8_STRING | EGG_ASN1X_VISIBLE_STRING
| EGG_ASN1X_UTC_TIME | EGG_ASN1X_GENERALIZED_TIME

datatype EggAsn1xFlag =
  FLAG_UNIVERSAL | FLAG_PRIVATE | FLAG_APPLICATION | FLAG_EXPLICIT | FLAG_IMPLICIT | FLAG_TAG
| FLAG_OPTION | FLAG_DEFAULT | FLAG_TRUE | FLAG_FALSE | FLAG_LIST | FLAG_MIN_MAX | FLAG_1_PARAM
| FLAG_SIZE | FLAG_DEFINED_BY | FLAG_GENERALIZED | FLAG_UTC | FLAG_IMPORTS | FLAG_NOT_USED
| FLAG_SET | FLAG_ASSIGN | FLAG_DOWN | FLAG_RIGHT

type_synonym flags = "EggAsn1xFlag list"

record EggAsn1xDef =
  def_name :: "byte list option"
  def_type :: EggAsn1xType
  def_flags :: flags
  def_value :: "byte list option"

definition G_MAXULONG :: nat where "G_MAXULONG = 2 ^ 64 - 1"

text \<open>The number a definition has as value; \<^verbatim>\<open>strtoul\<close> is as \<^verbatim>\<open>g_ascii_strtoull\<close> here.\<close>

definition anode_def_value_as_ulong :: "EggAsn1xDef \<Rightarrow> nat" where
  "anode_def_value_as_ulong def =
     (case def_value def of
        None \<Rightarrow> G_MAXULONG
      | Some v \<Rightarrow> (case g_ascii_strtoull v of (lval, rest) \<Rightarrow> if rest \<noteq> [] then G_MAXULONG else lval))"

section \<open>Nodes\<close>

record Anode =
  an_def :: EggAsn1xDef
  an_join :: "EggAsn1xDef option"
  an_opts :: "EggAsn1xDef list"
  an_value :: "byte list option"
  an_parsed :: "Atlv option"
  an_failure :: "byte list option"
  an_chosen :: bool
  an_bits_empty :: nat
  an_unsigned :: bool

datatype GNode = GNode (node_data: Anode) (node_children: "GNode list")

definition upd_data :: "(Anode \<Rightarrow> Anode) \<Rightarrow> GNode \<Rightarrow> GNode" where
  "upd_data f n = GNode (f (node_data n)) (node_children n)"

definition anode_new :: "EggAsn1xDef \<Rightarrow> GNode" where
  "anode_new def =
     GNode \<lparr>an_def = def, an_join = None, an_opts = [], an_value = None, an_parsed = None,
            an_failure = None, an_chosen = False, an_bits_empty = 0, an_unsigned = False\<rparr> []"

definition anode_copy_func :: "Anode \<Rightarrow> Anode" where
  "anode_copy_func san =
     \<lparr>an_def = an_def san, an_join = an_join san, an_opts = an_opts san, an_value = None,
      an_parsed = None, an_failure = None, an_chosen = False, an_bits_empty = 0, an_unsigned = False\<rparr>"

fun anode_clone :: "GNode \<Rightarrow> GNode" where
  "anode_clone (GNode an cs) = GNode (anode_copy_func an) (map anode_clone cs)"

definition anode_def_type :: "GNode \<Rightarrow> EggAsn1xType" where
  "anode_def_type n =
     (case an_join (node_data n) of
        Some j \<Rightarrow> def_type j
      | None \<Rightarrow> def_type (an_def (node_data n)))"

definition type_is_real :: "EggAsn1xType \<Rightarrow> bool" where
  "type_is_real t \<longleftrightarrow>
     t \<notin> {EGG_ASN1X_CONSTANT, EGG_ASN1X_IDENTIFIER, EGG_ASN1X_TAG, EGG_ASN1X_DEFAULT, EGG_ASN1X_SIZE,
          EGG_ASN1X_DEFINITIONS, EGG_ASN1X_IMPORTS}"

definition anode_def_type_is_real :: "GNode \<Rightarrow> bool" where
  "anode_def_type_is_real n = type_is_real (anode_def_type n)"

definition anode_def_flags :: "GNode \<Rightarrow> flags" where
  "anode_def_flags n =
     def_flags (an_def (node_data n)) @
     (case an_join (node_data n) of None \<Rightarrow> [] | Some j \<Rightarrow> def_flags j)"

definition anode_def_name :: "GNode \<Rightarrow> byte list option" where
  "anode_def_name n = def_name (an_def (node_data n))"

definition anode_def_value :: "GNode \<Rightarrow> byte list option" where
  "anode_def_value n = def_value (an_def (node_data n))"

text \<open>The index of the first child of a name; \<^verbatim>\<open>g_str_equal\<close> does not take \<^verbatim>\<open>NULL\<close>.\<close>

fun child_index :: "GNode list \<Rightarrow> byte list \<Rightarrow> nat option outcome" where
  "child_index [] name = Ret None"
| "child_index (c # cs) name =
     (case anode_def_name c of
        None \<Rightarrow> Undef
      | Some n \<Rightarrow>
          if name = n then Ret (Some 0)
          else obind (child_index cs name) (\<lambda>r. Ret (map_option Suc r)))"

definition anode_child_with_name :: "GNode \<Rightarrow> byte list \<Rightarrow> nat option outcome" where
  "anode_child_with_name n name = child_index (node_children n) name"

definition anode_opt_add :: "EggAsn1xDef \<Rightarrow> GNode \<Rightarrow> GNode" where
  "anode_opt_add def n = upd_data (\<lambda>an. an\<lparr>an_opts := an_opts an @ [def]\<rparr>) n"

text \<open>A name or value that is missing on one side is no reason to skip an option.\<close>

definition differs :: "byte list option \<Rightarrow> byte list option \<Rightarrow> bool" where
  "differs a b \<longleftrightarrow> a \<noteq> None \<and> b \<noteq> None \<and> a \<noteq> b"

definition anode_opt_lookup :: "GNode \<Rightarrow> EggAsn1xType \<Rightarrow> byte list option \<Rightarrow> EggAsn1xDef option" where
  "anode_opt_lookup n type name =
     find (\<lambda>d. \<not> differs name (def_name d) \<and> def_type d = type) (an_opts (node_data n))"

definition anode_opt_lookup_value :: "GNode \<Rightarrow> EggAsn1xType \<Rightarrow> byte list option \<Rightarrow> EggAsn1xDef option" where
  "anode_opt_lookup_value n type val =
     find (\<lambda>d. \<not> differs val (def_value d) \<and> def_type d = type) (an_opts (node_data n))"

definition anode_opts_lookup :: "GNode \<Rightarrow> EggAsn1xType \<Rightarrow> byte list option \<Rightarrow> EggAsn1xDef list" where
  "anode_opts_lookup n type name =
     filter (\<lambda>d. \<not> differs name (def_name d) \<and> def_type d = type) (an_opts (node_data n))"

text \<open>\<^verbatim>\<open>anode_take_value\<close> and \<^verbatim>\<open>anode_set_value\<close> differ in the reference counts only.\<close>

definition anode_clr_value :: "GNode \<Rightarrow> GNode" where
  "anode_clr_value = upd_data (\<lambda>an. an\<lparr>an_value := None, an_parsed := None\<rparr>)"

definition anode_take_value :: "byte list option \<Rightarrow> GNode \<Rightarrow> GNode" where
  "anode_take_value v = upd_data (\<lambda>an. an\<lparr>an_value := v, an_parsed := None\<rparr>)"

definition anode_clear :: "GNode \<Rightarrow> GNode" where
  "anode_clear = upd_data (\<lambda>an. an\<lparr>an_value := None, an_parsed := None, an_failure := None\<rparr>)"

definition failure_prefix :: "Anode \<Rightarrow> byte list" where
  "failure_prefix an =
     (let d = an_def an; j = an_join an;
          p1 = def_name d;
          p2 = (if p1 = None \<and> j \<noteq> None then def_name (the j) else p1);
          p3 = (if p2 = None then def_value d else p2);
          p4 = (if p3 = None \<and> j \<noteq> None then def_value (the j) else p3) in
      case p4 of None \<Rightarrow> cstr ''unknown'' | Some p \<Rightarrow> p)"

definition anode_failure :: "string \<Rightarrow> GNode \<Rightarrow> GNode" where
  "anode_failure msg =
     upd_data (\<lambda>an. an\<lparr>an_failure := Some (failure_prefix an @ cstr '': '' @ cstr msg)\<rparr>)"

definition fail_node :: "string \<Rightarrow> GNode \<Rightarrow> (bool \<times> GNode) outcome" where
  "fail_node msg n = Ret (False, anode_failure msg n)"

section \<open>Tags\<close>

definition ASN1_CLASS_APPLICATION :: byte where "ASN1_CLASS_APPLICATION = 0x40"
definition ASN1_CLASS_CONTEXT_SPECIFIC :: byte where "ASN1_CLASS_CONTEXT_SPECIFIC = 0x80"
definition ASN1_CLASS_PRIVATE :: byte where "ASN1_CLASS_PRIVATE = 0xC0"

fun universal_tag :: "EggAsn1xType \<Rightarrow> flags \<Rightarrow> nat" where
  "universal_tag EGG_ASN1X_INTEGER fs = 0x02"
| "universal_tag EGG_ASN1X_ENUMERATED fs = 0x0A"
| "universal_tag EGG_ASN1X_BOOLEAN fs = 0x01"
| "universal_tag EGG_ASN1X_BIT_STRING fs = 0x03"
| "universal_tag EGG_ASN1X_OCTET_STRING fs = 0x04"
| "universal_tag EGG_ASN1X_OBJECT_ID fs = 0x06"
| "universal_tag EGG_ASN1X_NULL fs = 0x05"
| "universal_tag EGG_ASN1X_GENERAL_STRING fs = 0x1B"
| "universal_tag EGG_ASN1X_NUMERIC_STRING fs = 0x12"
| "universal_tag EGG_ASN1X_IA5_STRING fs = 0x16"
| "universal_tag EGG_ASN1X_TELETEX_STRING fs = 0x14"
| "universal_tag EGG_ASN1X_PRINTABLE_STRING fs = 0x13"
| "universal_tag EGG_ASN1X_UNIVERSAL_STRING fs = 0x1C"
| "universal_tag EGG_ASN1X_BMP_STRING fs = 0x1E"
| "universal_tag EGG_ASN1X_UTF8_STRING fs = 0x0C"
| "universal_tag EGG_ASN1X_VISIBLE_STRING fs = 0x1A"
| "universal_tag EGG_ASN1X_TIME fs =
     (if FLAG_GENERALIZED \<in> set fs then 0x18 else if FLAG_UTC \<in> set fs then 0x17 else G_MAXULONG)"
| "universal_tag EGG_ASN1X_UTC_TIME fs = 0x17"
| "universal_tag EGG_ASN1X_GENERALIZED_TIME fs = 0x18"
| "universal_tag EGG_ASN1X_SEQUENCE fs = 0x10"
| "universal_tag EGG_ASN1X_SEQUENCE_OF fs = 0x10"
| "universal_tag EGG_ASN1X_SET fs = 0x11"
| "universal_tag EGG_ASN1X_SET_OF fs = 0x11"
| "universal_tag _ fs = G_MAXULONG"

definition anode_calc_tag_for_flags :: "GNode \<Rightarrow> flags \<Rightarrow> nat" where
  "anode_calc_tag_for_flags n fs =
     (if FLAG_TAG \<in> set fs
      then
        (case anode_opt_lookup n EGG_ASN1X_TAG None of
           None \<Rightarrow> G_MAXULONG
         | Some def \<Rightarrow> anode_def_value_as_ulong def)
      else universal_tag (anode_def_type n) fs)"

definition anode_calc_tag :: "GNode \<Rightarrow> nat" where
  "anode_calc_tag n = anode_calc_tag_for_flags n (anode_def_flags n)"

definition tag_class :: "EggAsn1xDef \<Rightarrow> byte" where
  "tag_class opt =
     (if FLAG_UNIVERSAL \<in> set (def_flags opt) then ASN1_CLASS_UNIVERSAL
      else if FLAG_APPLICATION \<in> set (def_flags opt) then ASN1_CLASS_APPLICATION
      else if FLAG_PRIVATE \<in> set (def_flags opt) then ASN1_CLASS_PRIVATE
      else ASN1_CLASS_CONTEXT_SPECIFIC)"

text \<open>Whether the tag is explicit, and what is stored to \<^verbatim>\<open>*cls_type\<close>, if anything.\<close>

definition anode_calc_explicit_for_flags :: "GNode \<Rightarrow> flags \<Rightarrow> bool \<times> byte option" where
  "anode_calc_explicit_for_flags n fs =
     (if FLAG_TAG \<notin> set fs then (False, None)
      else
        case anode_opt_lookup n EGG_ASN1X_TAG None of
          None \<Rightarrow> (False, None)
        | Some opt \<Rightarrow> (FLAG_IMPLICIT \<notin> set (def_flags opt), Some (tag_class opt)))"

definition without_tag :: "flags \<Rightarrow> flags" where
  "without_tag fs = filter (\<lambda>f. f \<noteq> FLAG_TAG) fs"

text \<open>Types in the groups the switches of the code name.\<close>

definition is_string_type :: "EggAsn1xType \<Rightarrow> bool" where
  "is_string_type t \<longleftrightarrow>
     t \<in> {EGG_ASN1X_OCTET_STRING, EGG_ASN1X_GENERAL_STRING, EGG_ASN1X_NUMERIC_STRING,
          EGG_ASN1X_IA5_STRING, EGG_ASN1X_TELETEX_STRING, EGG_ASN1X_PRINTABLE_STRING,
          EGG_ASN1X_UNIVERSAL_STRING, EGG_ASN1X_BMP_STRING, EGG_ASN1X_UTF8_STRING,
          EGG_ASN1X_VISIBLE_STRING}"

definition is_time_type :: "EggAsn1xType \<Rightarrow> bool" where
  "is_time_type t \<longleftrightarrow> t \<in> {EGG_ASN1X_TIME, EGG_ASN1X_UTC_TIME, EGG_ASN1X_GENERALIZED_TIME}"

definition is_plain_type :: "EggAsn1xType \<Rightarrow> bool" where
  "is_plain_type t \<longleftrightarrow>
     is_string_type t \<or> is_time_type t \<or>
     t \<in> {EGG_ASN1X_INTEGER, EGG_ASN1X_ENUMERATED, EGG_ASN1X_BOOLEAN, EGG_ASN1X_OBJECT_ID, EGG_ASN1X_NULL}"

definition is_of_type :: "EggAsn1xType \<Rightarrow> bool" where
  "is_of_type t \<longleftrightarrow> t = EGG_ASN1X_SEQUENCE_OF \<or> t = EGG_ASN1X_SET_OF"

definition is_list_type :: "EggAsn1xType \<Rightarrow> bool" where
  "is_list_type t \<longleftrightarrow> t = EGG_ASN1X_SEQUENCE \<or> t = EGG_ASN1X_SET"

lemmas type_groups = is_string_type_def is_time_type_def is_plain_type_def is_of_type_def is_list_type_def

section \<open>Values that are present\<close>

fun egg_asn1x_have :: "GNode \<Rightarrow> bool" where
  "egg_asn1x_have (GNode an cs) \<longleftrightarrow>
     an_value an \<noteq> None \<or> an_parsed an \<noteq> None \<or> (\<exists>c \<in> set cs. egg_asn1x_have c)"

text \<open>The position of the child that is chosen.\<close>

definition egg_asn1x_get_choice :: "GNode \<Rightarrow> nat option" where
  "egg_asn1x_get_choice n =
     (let i = length (takeWhile (\<lambda>c. \<not> an_chosen (node_data c)) (node_children n)) in
      if i < length (node_children n) then Some i else None)"

section \<open>Clearing\<close>

text \<open>
  The traversal is in post-order and stops when the function returns \<^verbatim>\<open>TRUE\<close>, which it does for a
  SEQUENCE OF or SET OF without a template.
\<close>

fun traverse_and_clear :: "GNode \<Rightarrow> bool \<times> GNode" and clear_children :: "GNode list \<Rightarrow> bool \<times> GNode list" where
  "traverse_and_clear (GNode an cs) =
     (case clear_children cs of
        (True, cs') \<Rightarrow> (True, GNode an cs')
      | (False, cs') \<Rightarrow>
          let n = anode_clear (GNode an cs') in
          if is_of_type (anode_def_type n) then
            if cs' = [] then (True, n) else (False, GNode (node_data n) [hd cs'])
          else (False, n))"
| "clear_children [] = (False, [])"
| "clear_children (c # cs) =
     (case traverse_and_clear c of
        (True, c') \<Rightarrow> (True, c' # cs)
      | (False, c') \<Rightarrow> (case clear_children cs of (s, cs') \<Rightarrow> (s, c' # cs')))"

definition egg_asn1x_clear :: "GNode \<Rightarrow> GNode" where
  "egg_asn1x_clear n = snd (traverse_and_clear n)"

end
