(* ===== verification/Egg_Asn1_Decode.thy ===== *)
theory Egg_Asn1_Decode
  imports Egg_Asn1_Node
begin

text \<open>
  Decoding of elements into a tree of nodes, and the validation of a tree, \<^verbatim>\<open>src/egg/egg-asn1x.c\<close>. A
  function of the code that returns \<^verbatim>\<open>gboolean\<close> for a node returns the truth value and the node here;
  one that goes on to the siblings of a node takes the list of the node and its siblings.

  Recursion follows the elements, and for a CHOICE the nodes; a SEQUENCE OF copies its first child, so
  the nodes grow. The year of the clock is a parameter of validation.
\<close>

section \<open>Decoding\<close>

definition anode_decode_bit_string :: "GNode \<Rightarrow> Atlv \<Rightarrow> (bool \<times> GNode) outcome" where
  "anode_decode_bit_string n tlv =
     (case tlv_value tlv of
        None \<Rightarrow> Undef
      | Some buf \<Rightarrow>
          if length buf = 0 then fail_node ''invalid length bit string'' n
          else
            let empty = buf ! 0 in
            if empty \<ge> 8 then fail_node ''invalid number of empty bits'' n
            else
              let mask = drop_bit (8 - unat empty) 0xFF in
              if 1 < length buf \<and> last buf AND mask \<noteq> 0
              then fail_node ''bit string has invalid trailing bits'' n
              else
                Ret (True, upd_data (\<lambda>an. an\<lparr>an_bits_empty := unat empty\<rparr>)
                             (anode_take_value (Some (drop 1 buf)) n)))"

text \<open>The tags of the elements of a SET must not descend.\<close>

fun ascending :: "nat list \<Rightarrow> bool" where
  "ascending (a # b # ts) \<longleftrightarrow> \<not> a > b \<and> ascending (b # ts)"
| "ascending _ \<longleftrightarrow> True"

definition anode_decode_option_or_default :: "GNode \<Rightarrow> bool \<times> GNode" where
  "anode_decode_option_or_default n =
     (if FLAG_OPTION \<in> set (anode_def_flags n) \<or> FLAG_DEFAULT \<in> set (anode_def_flags n)
      then (True, anode_clr_value n) else (False, n))"

text \<open>The nodes there is no element left for.\<close>

fun decode_missing :: "GNode list \<Rightarrow> bool \<times> GNode list" where
  "decode_missing [] = (True, [])"
| "decode_missing (n # ns) =
     (case anode_decode_option_or_default n of
        (True, n') \<Rightarrow> (case decode_missing ns of (r, ns') \<Rightarrow> (r, n' # ns'))
      | (False, n') \<Rightarrow> (False, anode_failure ''no decoded value'' n' # ns))"

definition expected_tag :: "GNode \<Rightarrow> flags \<Rightarrow> Atlv \<Rightarrow> nat" where
  "expected_tag n fs tlv =
     (let tag = anode_calc_tag_for_flags n fs in if tag = G_MAXULONG then tlv_tag tlv else tag)"

lemma obind_cong [fundef_cong]:
  "m = m' \<Longrightarrow> (\<And>x. m' = Ret x \<Longrightarrow> f x = f' x) \<Longrightarrow> obind m f = obind m' f'"
  by (cases m') auto

lemma size_tlv_children: "size_list size (tlv_children tlv) < size tlv"
  by (cases tlv) simp

lemma size_tlv_child:
  "tlv_children tlv = c # cs \<Longrightarrow> size c < size tlv" "tlv_children tlv = c # cs \<Longrightarrow> size_list size cs < size tlv"
  using size_tlv_children [of tlv] by simp_all

lemma size_node_children: "size_list size (node_children n) < size n"
  by (cases n) simp

text \<open>
  The loops are \<open>decode_choices\<close> (over the alternatives) and \<open>decode_elements\<close> (over the elements of
  a SEQUENCE OF after the first one; it returns the nodes that are appended).
\<close>

function (sequential)
  anode_decode_one :: "GNode \<Rightarrow> Atlv \<Rightarrow> (bool \<times> GNode) outcome" and
  anode_decode_one_without_tag :: "GNode \<Rightarrow> Atlv \<Rightarrow> flags \<Rightarrow> (bool \<times> GNode) outcome" and
  anode_decode_structured :: "GNode \<Rightarrow> Atlv \<Rightarrow> (bool \<times> GNode) outcome" and
  anode_decode_primitive :: "GNode \<Rightarrow> Atlv \<Rightarrow> (bool \<times> GNode) outcome" and
  anode_decode_choice :: "GNode \<Rightarrow> Atlv \<Rightarrow> (bool \<times> GNode) outcome" and
  decode_choices :: "GNode list \<Rightarrow> Atlv \<Rightarrow> (bool \<times> GNode list) outcome" and
  anode_decode_sequence_or_set :: "GNode \<Rightarrow> Atlv \<Rightarrow> (bool \<times> GNode) outcome" and
  anode_decode_sequence_or_set_of :: "GNode \<Rightarrow> Atlv \<Rightarrow> (bool \<times> GNode) outcome" and
  decode_elements :: "GNode \<Rightarrow> nat \<Rightarrow> Atlv list \<Rightarrow> (bool \<times> bool \<times> GNode list) outcome" and
  decode_siblings :: "GNode list \<Rightarrow> Atlv list \<Rightarrow> (bool \<times> GNode list) outcome"
where
  "anode_decode_one n tlv =
     (let fs = anode_def_flags n in
      if expected_tag n fs tlv \<noteq> tlv_tag tlv then fail_node ''decoded tag did not match expected'' n
      else anode_decode_one_without_tag n tlv fs)"
| "anode_decode_one_without_tag n tlv fs =
     obind
       (if fst (anode_calc_explicit_for_flags n fs) then
          if tlv_cls tlv AND ASN1_CLASS_CONTEXT_SPECIFIC = 0
          then fail_node ''missing context specific tag'' n
          else
            case tlv_children tlv of
              [] \<Rightarrow> fail_node ''missing context specific child'' n
            | [ctlv] \<Rightarrow> anode_decode_one_without_tag n ctlv (without_tag fs)
            | _ \<Rightarrow> fail_node ''multiple context specific children'' n
        else if tlv_cls tlv AND ASN1_CLASS_STRUCTURED \<noteq> 0 then anode_decode_structured n tlv
        else anode_decode_primitive n tlv)
       (\<lambda>(ret, n'). Ret (ret, if ret then upd_data (\<lambda>an. an\<lparr>an_parsed := Some tlv\<rparr>) n' else n'))"
| "anode_decode_structured n tlv =
     (let type = anode_def_type n in
      if type = EGG_ASN1X_ANY \<or> is_string_type type then Ret (True, n)
      else if type = EGG_ASN1X_CHOICE then anode_decode_choice n tlv
      else if is_list_type type then anode_decode_sequence_or_set n tlv
      else if is_of_type type then anode_decode_sequence_or_set_of n tlv
      else fail_node ''structured value of an unexpected type'' n)"
| "anode_decode_primitive n tlv =
     g_assert (tlv_children tlv = [])
       (let type = anode_def_type n in
        if type = EGG_ASN1X_BIT_STRING then anode_decode_bit_string n tlv
        else if is_plain_type type then Ret (True, anode_take_value (tlv_value tlv) n)
        else if type = EGG_ASN1X_ANY then Ret (True, n)
        else if type = EGG_ASN1X_CHOICE then anode_decode_choice n tlv
        else fail_node ''primitive value of an unexpected type'' n)"
| "anode_decode_choice n tlv =
     obind (decode_choices (node_children n) tlv)
       (\<lambda>(have, cs).
          if have then Ret (True, GNode (node_data n) cs)
          else fail_node ''no choice is present'' (GNode (node_data n) cs))"
| "decode_choices [] tlv = Ret (False, [])"
| "decode_choices (c # cs) tlv =
     obind (anode_decode_one c tlv)
       (\<lambda>(ok, c'). obind (decode_choices cs tlv)
          (\<lambda>(have, cs'). Ret (ok \<or> have, upd_data (\<lambda>an. an\<lparr>an_chosen := ok\<rparr>) c' # cs')))"
| "anode_decode_sequence_or_set n tlv =
     (if anode_def_type n = EGG_ASN1X_SET \<and> \<not> ascending (map tlv_tag (tlv_children tlv))
      then fail_node ''content must be in ascending order'' n
      else
        g_assert (node_children n \<noteq> [])
          (obind (decode_siblings (node_children n) (tlv_children tlv))
            (\<lambda>(ok, cs). Ret (ok, GNode (node_data n) cs))))"
| "anode_decode_sequence_or_set_of n tlv =
     (case node_children n of
        [] \<Rightarrow> Ret (False, n)
      | child # others \<Rightarrow>
          case tlv_children tlv of
            [] \<Rightarrow> Ret (True, n)
          | ctlv # rest \<Rightarrow>
              let tag = anode_calc_tag child in
              obind (anode_decode_one child ctlv)
                (\<lambda>(ok, child').
                   if \<not> ok then Ret (False, GNode (node_data n) (child' # others))
                   else
                     obind (decode_elements child' tag rest)
                       (\<lambda>(ok, mismatch, added).
                          let n' = GNode (node_data n) (child' # others @ added) in
                          if mismatch then fail_node ''invalid mismatched content'' n'
                          else Ret (ok, n'))))"
| "decode_elements child tag [] = Ret (True, False, [])"
| "decode_elements child tag (ctlv # rest) =
     (if tag \<noteq> G_MAXULONG \<and> tlv_tag ctlv \<noteq> tag then Ret (False, True, [])
      else
        obind (anode_decode_one (anode_clone child) ctlv)
          (\<lambda>(ok, other).
             if \<not> ok then Ret (False, False, [other])
             else
               obind (decode_elements child tag rest)
                 (\<lambda>(ok, mismatch, added). Ret (ok, mismatch, other # added))))"
| "decode_siblings [] tlvs = Ret (True, [])"
| "decode_siblings ns [] = Ret (decode_missing ns)"
| "decode_siblings (n # ns) (tlv # tlvs) =
     (let fs = anode_def_flags n in
      if expected_tag n fs tlv \<noteq> tlv_tag tlv then
        (case anode_decode_option_or_default n of
           (skip, n') \<Rightarrow>
             if \<not> skip \<or> ns = []
             then Ret (False, anode_failure ''decoded tag did not match expected'' n' # ns)
             else obind (decode_siblings ns (tlv # tlvs)) (\<lambda>(ok, ns'). Ret (ok, n' # ns')))
      else
        obind (anode_decode_one_without_tag n tlv fs)
          (\<lambda>(ok, n').
             if \<not> ok then Ret (False, n' # ns)
             else if ns = [] \<and> tlvs \<noteq> [] then Ret (False, [anode_failure ''encountered extra tag'' n'])
             else obind (decode_siblings ns tlvs) (\<lambda>(ok, ns'). Ret (ok, n' # ns'))))"
  by pat_completeness auto
termination
  by (relation "inv_image (less_than <*lex*> less_than <*lex*> less_than)
      (\<lambda>x. case x of
         Inl (Inl (Inl (n, tlv))) \<Rightarrow> (size tlv, size n, 5)
       | Inl (Inl (Inr (n, tlv, fs))) \<Rightarrow> (size tlv, size n, 4)
       | Inl (Inr (Inl (n, tlv))) \<Rightarrow> (size tlv, size n, 3)
       | Inl (Inr (Inr (Inl (n, tlv)))) \<Rightarrow> (size tlv, size n, 3)
       | Inl (Inr (Inr (Inr (n, tlv)))) \<Rightarrow> (size tlv, size n, 2)
       | Inr (Inl (Inl (cs, tlv))) \<Rightarrow> (size tlv, size_list size cs, 1)
       | Inr (Inl (Inr (n, tlv))) \<Rightarrow> (size tlv, size n, 2)
       | Inr (Inr (Inl (n, tlv))) \<Rightarrow> (size tlv, size n, 2)
       | Inr (Inr (Inr (Inl (c, t, tlvs)))) \<Rightarrow> (size_list size tlvs, 0, 0)
       | Inr (Inr (Inr (Inr (ns, tlvs)))) \<Rightarrow> (size_list size tlvs, size_list size ns, 0))")
    (auto simp: size_node_children size_tlv_children size_tlv_child)

definition anode_decode_anything :: "GNode list \<Rightarrow> Atlv list \<Rightarrow> (bool \<times> GNode list) outcome" where
  "anode_decode_anything ns tlvs = g_assert (ns \<noteq> []) (decode_siblings ns tlvs)"

section \<open>Validation\<close>

definition g_ascii_isalpha :: "byte \<Rightarrow> bool" where
  "g_ascii_isalpha c \<longleftrightarrow>
     chr CHR ''a'' \<le> c \<and> c \<le> chr CHR ''z'' \<or> chr CHR ''A'' \<le> c \<and> c \<le> chr CHR ''Z''"

text \<open>
  A size can be given by name. The recursion looks up options of one node, so more rounds than options
  mean that it never ends.
\<close>

fun parse_size_loop :: "nat \<Rightarrow> GNode \<Rightarrow> byte list option \<Rightarrow> nat option outcome" where
  "parse_size_loop 0 n text = Undef"
| "parse_size_loop (Suc k) n None = Ret None"
| "parse_size_loop (Suc k) n (Some text) =
     (if text = cstr ''MAX'' then Ret (Some G_MAXULONG)
      else if text \<noteq> [] \<and> g_ascii_isalpha (hd text) then
        (case anode_opt_lookup n EGG_ASN1X_INTEGER (Some text) of
           None \<Rightarrow> Ret None
         | Some def \<Rightarrow> parse_size_loop k n (def_value def))
      else
        (case g_ascii_strtoull text of (val, rest) \<Rightarrow> Ret (if rest \<noteq> [] then None else Some val)))"

definition anode_parse_size :: "GNode \<Rightarrow> byte list option \<Rightarrow> nat option outcome" where
  "anode_parse_size n text = parse_size_loop (Suc (Suc (length (an_opts (node_data n))))) n text"

definition anode_validate_size :: "GNode \<Rightarrow> nat \<Rightarrow> (bool \<times> GNode) outcome" where
  "anode_validate_size n len =
     (if FLAG_SIZE \<in> set (anode_def_flags n) then
        case anode_opt_lookup n EGG_ASN1X_SIZE None of
          None \<Rightarrow> Ret (False, n)
        | Some sz \<Rightarrow>
            obind (anode_parse_size n (def_value sz))
              (\<lambda>r. case r of
                 None \<Rightarrow> Ret (False, n)
               | Some value1 \<Rightarrow>
                   if FLAG_MIN_MAX \<in> set (def_flags sz) then
                     obind (anode_parse_size n (def_name sz))
                       (\<lambda>r. case r of
                          None \<Rightarrow> Ret (False, n)
                        | Some value2 \<Rightarrow>
                            if len < value1 \<or> value2 \<le> len
                            then fail_node ''content size is out of bounds'' n
                            else Ret (True, n))
                   else if len \<noteq> value1 then fail_node ''content size is not correct'' n
                   else Ret (True, n))
      else Ret (True, n))"

text \<open>Whether a value is one of the constants; \<open>None\<close> when a constant is not a number.\<close>

fun find_constant :: "EggAsn1xDef list \<Rightarrow> nat \<Rightarrow> bool option" where
  "find_constant [] val = Some False"
| "find_constant (d # ds) val =
     (let check = anode_def_value_as_ulong d in
      if check = G_MAXULONG then None else if check = val then Some True else find_constant ds val)"

definition anode_validate_integer :: "GNode \<Rightarrow> byte list \<Rightarrow> (bool \<times> GNode) outcome" where
  "anode_validate_integer n val =
     (if length val = 0 then fail_node ''zero length integer'' n
      else if FLAG_LIST \<in> set (anode_def_flags n) then
        obind (anode_read_integer_ulong val)
          (\<lambda>r. case r of
             None \<Rightarrow> fail_node ''integer not part of list'' n
           | Some v \<Rightarrow>
               (case find_constant (anode_opts_lookup n EGG_ASN1X_CONSTANT None) (unat v) of
                  None \<Rightarrow> Ret (False, n)
                | Some found \<Rightarrow>
                    if \<not> found then fail_node ''integer not part of listed set'' n else Ret (True, n)))
      else Ret (True, n))"

definition anode_validate_enumerated :: "GNode \<Rightarrow> byte list \<Rightarrow> (bool \<times> GNode) outcome" where
  "anode_validate_enumerated n val =
     (if 0 < length val \<and> val ! 0 AND 0x80 \<noteq> 0 then fail_node ''enumerated must be positive'' n
      else anode_validate_integer n val)"

definition validate_boolean :: "GNode \<Rightarrow> byte list \<Rightarrow> (bool \<times> GNode) outcome" where
  "validate_boolean n val =
     (if anode_validate_boolean val then Ret (True, n)
      else if length val \<noteq> 1 then fail_node ''invalid length boolean'' n
      else fail_node ''boolean must be true or false'' n)"

definition anode_validate_string :: "GNode \<Rightarrow> byte list \<Rightarrow> (bool \<times> GNode) outcome" where
  "anode_validate_string n val = anode_validate_size n (length val)"

definition anode_validate_object_id :: "GNode \<Rightarrow> byte list \<Rightarrow> (bool \<times> GNode) outcome" where
  "anode_validate_object_id n val =
     obind (anode_read_object_id val)
       (\<lambda>r. if r = None then fail_node ''object id encoding is invalid'' n else Ret (True, n))"

definition anode_validate_null :: "GNode \<Rightarrow> byte list \<Rightarrow> (bool \<times> GNode) outcome" where
  "anode_validate_null n val = Ret (length val = 0, n)"

text \<open>Which of the two formats is read, and the message when it cannot be.\<close>

definition anode_read_time :: "int \<Rightarrow> GNode \<Rightarrow> byte list \<Rightarrow> ((tm \<times> int) option \<times> GNode) outcome" where
  "anode_read_time now n data =
     (let fs = anode_def_flags n; type = anode_def_type n;
          general = (type = EGG_ASN1X_GENERALIZED_TIME \<or>
                     type \<noteq> EGG_ASN1X_UTC_TIME \<and> FLAG_GENERALIZED \<in> set fs);
          utc = (type = EGG_ASN1X_UTC_TIME \<or> FLAG_UTC \<in> set fs) in
      if \<not> general \<and> \<not> utc then Ret (None, n)
      else
        obind (if general then parse_general_time data else parse_utc_time now data)
          (\<lambda>r. Ret (r, if r = None then anode_failure ''invalid time content'' n else n)))"

definition anode_validate_time :: "int \<Rightarrow> GNode \<Rightarrow> byte list \<Rightarrow> (bool \<times> GNode) outcome" where
  "anode_validate_time now n val = obind (anode_read_time now n val) (\<lambda>(r, n'). Ret (r \<noteq> None, n'))"

text \<open>The switches for a node with a value, and for one with a parsed element only.\<close>

definition validate_value :: "int \<Rightarrow> GNode \<Rightarrow> byte list \<Rightarrow> (bool \<times> GNode) outcome" where
  "validate_value now n val =
     (let type = anode_def_type n in
      if type = EGG_ASN1X_INTEGER then anode_validate_integer n val
      else if type = EGG_ASN1X_ENUMERATED then anode_validate_enumerated n val
      else if type = EGG_ASN1X_BOOLEAN then validate_boolean n val
      else if type = EGG_ASN1X_BIT_STRING then Ret (True, n)
      else if type = EGG_ASN1X_BMP_STRING \<or> type = EGG_ASN1X_UNIVERSAL_STRING then Ret (True, n)
      else if is_string_type type then anode_validate_string n val
      else if type = EGG_ASN1X_OBJECT_ID then anode_validate_object_id n val
      else if type = EGG_ASN1X_NULL then anode_validate_null n val
      else if is_time_type type then anode_validate_time now n val
      else Abort)"

definition validate_missing :: "GNode \<Rightarrow> (bool \<times> GNode) outcome" where
  "validate_missing n =
     (if FLAG_OPTION \<in> set (anode_def_flags n) then Ret (True, n)
      else if FLAG_DEFAULT \<in> set (anode_def_flags n) then Ret (True, n)
      else fail_node ''missing value'' n)"

definition validate_leaf :: "int \<Rightarrow> GNode \<Rightarrow> (bool \<times> GNode) outcome" where
  "validate_leaf now n =
     (case an_value (node_data n) of
        Some val \<Rightarrow> validate_value now n val
      | None \<Rightarrow>
          if an_parsed (node_data n) \<noteq> None \<and>
             (anode_def_type n = EGG_ASN1X_ANY \<or> is_string_type (anode_def_type n))
          then Ret (True, n) else validate_missing n)"

text \<open>
  \<open>validate_children\<close> is the loop of SEQUENCE and SET, \<open>validate_elements\<close> the one of SEQUENCE OF and
  SET OF, with the count of the elements; \<open>validate_chosen\<close> validates the child that is chosen, when
  there is one. The argument \<^verbatim>\<open>strict\<close> is handed down and never looked at.
\<close>

fun anode_validate_anything :: "int \<Rightarrow> bool \<Rightarrow> GNode \<Rightarrow> (bool \<times> GNode) outcome" and
  validate_children :: "int \<Rightarrow> bool \<Rightarrow> GNode list \<Rightarrow> (bool \<times> GNode list) outcome" and
  validate_elements :: "int \<Rightarrow> bool \<Rightarrow> GNode list \<Rightarrow> (bool \<times> nat \<times> GNode list) outcome" and
  validate_chosen :: "int \<Rightarrow> bool \<Rightarrow> GNode list \<Rightarrow> (bool \<times> GNode list) outcome"
where
  "anode_validate_anything now strict (GNode an cs) =
     (let n = GNode an cs; type = anode_def_type n; fs = anode_def_flags n in
      if type = EGG_ASN1X_CHOICE then
        (if egg_asn1x_get_choice n = None then fail_node ''one choice must be set'' n
         else
           obind (validate_chosen now strict cs)
             (\<lambda>(ok, cs').
                if \<not> ok then Ret (False, GNode an cs')
                else if 1 < length (filter (\<lambda>c. an_chosen (node_data c)) cs)
                then fail_node ''only one choice may be set'' (GNode an cs')
                else Ret (True, GNode an cs')))
      else if is_list_type type then
        (if FLAG_OPTION \<in> set fs \<and> \<not> egg_asn1x_have n then Ret (True, n)
         else obind (validate_children now strict cs) (\<lambda>(ok, cs'). Ret (ok, GNode an cs')))
      else if is_of_type type then
        obind (validate_elements now strict cs)
          (\<lambda>(ok, count, cs').
             if \<not> ok then Ret (False, GNode an cs')
             else if count = 0 \<and> FLAG_OPTION \<in> set fs then Ret (True, GNode an cs')
             else anode_validate_size (GNode an cs') count)
      else validate_leaf now n)"
| "validate_children now strict [] = Ret (True, [])"
| "validate_children now strict (c # cs) =
     obind (anode_validate_anything now strict c)
       (\<lambda>(ok, c').
          if \<not> ok then Ret (False, c' # cs)
          else obind (validate_children now strict cs) (\<lambda>(ok, cs'). Ret (ok, c' # cs')))"
| "validate_elements now strict [] = Ret (True, 0, [])"
| "validate_elements now strict (c # cs) =
     (if egg_asn1x_have c then
        obind (anode_validate_anything now strict c)
          (\<lambda>(ok, c').
             if \<not> ok then Ret (False, 0, c' # cs)
             else
               obind (validate_elements now strict cs)
                 (\<lambda>(ok, count, cs'). Ret (ok, Suc count, c' # cs')))
      else
        obind (validate_elements now strict cs) (\<lambda>(ok, count, cs'). Ret (ok, count, c # cs')))"
| "validate_chosen now strict [] = Ret (False, [])"
| "validate_chosen now strict (c # cs) =
     (if an_chosen (node_data c)
      then obind (anode_validate_anything now strict c) (\<lambda>(ok, c'). Ret (ok, c' # cs))
      else obind (validate_chosen now strict cs) (\<lambda>(ok, cs'). Ret (ok, c # cs')))"

definition egg_asn1x_validate :: "int \<Rightarrow> bool \<Rightarrow> GNode \<Rightarrow> (bool \<times> GNode) outcome" where
  "egg_asn1x_validate now strict n = anode_validate_anything now strict n"

section \<open>Decoding data\<close>

text \<open>The data is what \<^verbatim>\<open>g_bytes_get_data\<close> gives: \<open>None\<close> is empty data without a pointer.\<close>

definition egg_asn1x_decode_full :: "int \<Rightarrow> GNode \<Rightarrow> byte list option \<Rightarrow> bool \<Rightarrow> (bool \<times> GNode) outcome" where
  "egg_asn1x_decode_full now asn data no_strict =
     (let asn1 = egg_asn1x_clear asn in
      obind (atlv_parse_der data)
        (\<lambda>r. case r of
           Inl msg \<Rightarrow> Ret (False, upd_data (\<lambda>an. an\<lparr>an_failure := Some (cstr msg)\<rparr>) asn1)
         | Inr tlv \<Rightarrow>
             obind (anode_decode_anything [asn1] [tlv])
               (\<lambda>(ret, ns).
                  if \<not> ret then Ret (False, hd ns)
                  else egg_asn1x_validate now (\<not> no_strict) (hd ns))))"

definition egg_asn1x_decode :: "int \<Rightarrow> GNode \<Rightarrow> byte list option \<Rightarrow> (bool \<times> GNode) outcome" where
  "egg_asn1x_decode now asn data = egg_asn1x_decode_full now asn data False"

text \<open>The first message of a node, in post-order.\<close>

fun egg_asn1x_message :: "GNode \<Rightarrow> byte list option" and children_message :: "GNode list \<Rightarrow> byte list option" where
  "egg_asn1x_message (GNode an cs) =
     (case children_message cs of Some m \<Rightarrow> Some m | None \<Rightarrow> an_failure an)"
| "children_message [] = None"
| "children_message (c # cs) =
     (case egg_asn1x_message c of Some m \<Rightarrow> Some m | None \<Rightarrow> children_message cs)"

end
