(* ===== verification/Egg_Asn1_Encode.thy ===== *)
theory Egg_Asn1_Encode
  imports Egg_Asn1_Decode
begin

text \<open>
  Encoding of a tree of nodes, \<^verbatim>\<open>src/egg/egg-asn1x.c\<close>: the elements that are built from the values of the
  nodes, to be sorted and written by \<open>Egg_Asn1_Tlv\<close>. Lengths are \<^verbatim>\<open>gint\<close>: a sum that overflows is
  undefined, the conversion of a size wraps. \<open>None\<close> is the \<^verbatim>\<open>NULL\<close> of a node that is not encoded.
\<close>

definition gint_of_size :: "nat \<Rightarrow> int" where
  "gint_of_size n = signed_take_bit 31 (int n)"

definition gint_add :: "int \<Rightarrow> int \<Rightarrow> int outcome" where
  "gint_add a b = (if a + b < - (2 ^ 31) \<or> 2 ^ 31 \<le> a + b then Undef else Ret (a + b))"

text \<open>The size of a header is computed through the array for the groups of a long tag.\<close>

definition built_header :: "byte \<Rightarrow> nat \<Rightarrow> int \<Rightarrow> int outcome" where
  "built_header cls tag len =
     (if 8 < length (low_groups 128 tag) then Undef else Ret (int (header_size cls tag len)))"

definition base_class :: "EggAsn1xType \<Rightarrow> byte option" where
  "base_class t =
     (if is_plain_type t \<or> t = EGG_ASN1X_BIT_STRING then Some ASN1_CLASS_UNIVERSAL
      else if is_list_type t \<or> is_of_type t then Some (ASN1_CLASS_STRUCTURED OR ASN1_CLASS_UNIVERSAL)
      else None)"

text \<open>
  Class, tag, length and offset of an element with the given value or children. For an implicit tag the
  class comes from the option; \<^verbatim>\<open>cls_type\<close> is not set when there is none.
\<close>

definition anode_build_cls_tag_len ::
  "GNode \<Rightarrow> byte list option \<Rightarrow> Atlv list \<Rightarrow> encoding \<Rightarrow> int \<Rightarrow> Atlv outcome" where
  "anode_build_cls_tag_len n val cs enc len0 =
     obind (if prefix_for_bit_string enc \<or> prefix_with_zero_byte enc then gint_add len0 1 else Ret len0)
       (\<lambda>len.
          case base_class (anode_def_type n) of
            None \<Rightarrow> Abort
          | Some base \<Rightarrow>
              let fs = anode_def_flags n;
                  (explicit, cls_type) = anode_calc_explicit_for_flags n fs in
              obind
                (if FLAG_TAG \<notin> set fs then Ret (base, fs)
                 else if explicit then Ret (base, without_tag fs)
                 else case cls_type of None \<Rightarrow> Undef | Some c \<Rightarrow> Ret (base OR c, fs))
                (\<lambda>(cls, fs').
                   let tag = anode_calc_tag_for_flags n fs' in
                   obind (built_header cls tag len)
                     (\<lambda>off. Ret (Atlv cls tag off len val None cs None enc))))"

definition anode_build_value :: "GNode \<Rightarrow> Atlv option outcome" where
  "anode_build_value n =
     (case an_value (node_data n) of
        None \<Rightarrow> Ret None
      | Some v \<Rightarrow>
          obind (anode_build_cls_tag_len n (Some v) [] no_encoding (gint_of_size (length v)))
            (\<lambda>tlv. Ret (Some tlv)))"

definition anode_build_bit_string :: "GNode \<Rightarrow> Atlv option outcome" where
  "anode_build_bit_string n =
     (case an_value (node_data n) of
        None \<Rightarrow> Ret None
      | Some v \<Rightarrow>
          obind
            (anode_build_cls_tag_len n (Some v) []
              (no_encoding\<lparr>bits_empty := an_bits_empty (node_data n), prefix_for_bit_string := True\<rparr>)
              (gint_of_size (length v)))
            (\<lambda>tlv. Ret (Some tlv)))"

definition anode_build_integer :: "GNode \<Rightarrow> Atlv option outcome" where
  "anode_build_integer n =
     (case an_value (node_data n) of
        None \<Rightarrow> Ret None
      | Some v \<Rightarrow>
          if an_unsigned (node_data n) \<and> v = [] then Undef
          else
            let sign = (an_unsigned (node_data n) \<and> v ! 0 AND 0x80 \<noteq> 0) in
            obind
              (anode_build_cls_tag_len n (Some v) [] (no_encoding\<lparr>prefix_with_zero_byte := sign\<rparr>)
                (gint_of_size (length v)))
              (\<lambda>tlv. Ret (Some tlv)))"

definition anode_build_any :: "GNode \<Rightarrow> Atlv option outcome" where
  "anode_build_any n = Ret (an_parsed (node_data n))"

definition anode_build_maybe_explicit :: "GNode \<Rightarrow> Atlv \<Rightarrow> flags \<Rightarrow> Atlv outcome" where
  "anode_build_maybe_explicit n tlv fs =
     (case anode_calc_explicit_for_flags n fs of
        (explicit, cls_type) \<Rightarrow>
          if explicit then
            let cls = ASN1_CLASS_STRUCTURED OR the cls_type; tag = anode_calc_tag n in
            obind (gint_add (tlv_off tlv) (tlv_len tlv))
              (\<lambda>len. obind (built_header cls tag len)
                 (\<lambda>off. Ret (Atlv cls tag off len None None [tlv] None no_encoding)))
          else Ret tlv)"

fun sum_lengths :: "int \<Rightarrow> Atlv list \<Rightarrow> int outcome" where
  "sum_lengths len [] = Ret len"
| "sum_lengths len (c # cs) =
     obind (gint_add (tlv_off c) (tlv_len c)) (\<lambda>l. obind (gint_add len l) (\<lambda>len'. sum_lengths len' cs))"

text \<open>The end of \<^verbatim>\<open>anode_build_structured\<close>, when the elements inside are built.\<close>

definition built_structured :: "GNode \<Rightarrow> bool \<Rightarrow> Atlv list \<Rightarrow> Atlv option outcome" where
  "built_structured n want0 cs =
     (let want = (want0 \<and> FLAG_OPTION \<notin> set (anode_def_flags n)) in
      obind (sum_lengths 0 cs)
        (\<lambda>len.
           if cs = [] \<and> \<not> want then Ret None
           else
             obind
               (anode_build_cls_tag_len n None cs
                 (no_encoding\<lparr>sorted_set := anode_def_type n = EGG_ASN1X_SET_OF\<rparr>) len)
               (\<lambda>tlv. Ret (Some tlv))))"

definition wrap_built :: "GNode \<Rightarrow> Atlv option \<Rightarrow> Atlv option outcome" where
  "wrap_built n r =
     (case r of
        None \<Rightarrow> Ret None
      | Some tlv \<Rightarrow>
          obind (anode_build_maybe_explicit n tlv (anode_def_flags n)) (\<lambda>tlv'. Ret (Some tlv')))"

text \<open>
  \<open>build_children\<close> is the loop over the children, \<open>build_chosen\<close> finds the child of a CHOICE.
\<close>

fun anode_build_anything :: "bool \<Rightarrow> GNode \<Rightarrow> Atlv option outcome" and
  build_children :: "bool \<Rightarrow> GNode list \<Rightarrow> Atlv list outcome" and
  build_chosen :: "bool \<Rightarrow> GNode list \<Rightarrow> Atlv option outcome"
where
  "anode_build_anything want (GNode an cs) =
     (let n = GNode an cs; type = anode_def_type n in
      if type = EGG_ASN1X_BIT_STRING then obind (anode_build_bit_string n) (wrap_built n)
      else if type = EGG_ASN1X_INTEGER then obind (anode_build_integer n) (wrap_built n)
      else if is_plain_type type then obind (anode_build_value n) (wrap_built n)
      else if type = EGG_ASN1X_ANY then anode_build_any n
      else if is_list_type type \<or> is_of_type type then
        obind (build_children (want \<and> \<not> is_of_type type) cs)
          (\<lambda>tlvs. obind (built_structured n want tlvs) (wrap_built n))
      else if type = EGG_ASN1X_CHOICE then obind (build_chosen want cs) (wrap_built n)
      else Abort)"
| "build_children want [] = Ret []"
| "build_children want (c # cs) =
     obind (anode_build_anything want c)
       (\<lambda>r. obind (build_children want cs)
          (\<lambda>tlvs. Ret (case r of None \<Rightarrow> tlvs | Some tlv \<Rightarrow> tlv # tlvs)))"
| "build_chosen want [] = Ret None"
| "build_chosen want (c # cs) =
     (if an_chosen (node_data c) then anode_build_anything want c else build_chosen want cs)"

definition egg_asn1x_encode ::
  "int \<Rightarrow> (nat \<Rightarrow> bool outcome) \<Rightarrow> GNode \<Rightarrow> (byte list option \<times> GNode) outcome" where
  "egg_asn1x_encode now alloc asn =
     (if \<not> anode_def_type_is_real asn then Ret (None, asn)
      else
        obind (egg_asn1x_validate now True asn)
          (\<lambda>(ok, asn1).
             if \<not> ok then Ret (None, asn1)
             else
               obind (anode_build_anything True asn1)
                 (\<lambda>r. case r of
                    None \<Rightarrow> Ret (None, asn1)
                  | Some tlv \<Rightarrow> obind (encode_tlv alloc tlv) (\<lambda>bytes. Ret (bytes, asn1)))))"

section \<open>ANY\<close>

text \<open>
  Decoding the element of one node into another tree, encoding a tree for it, and its octets. The
  parsed element of a node has no sibling.
\<close>

definition inner_element :: "GNode \<Rightarrow> Atlv \<Rightarrow> Atlv option" where
  "inner_element n tlv =
     (if fst (anode_calc_explicit_for_flags n (anode_def_flags n))
      then (case tlv_children tlv of [] \<Rightarrow> None | c # cs \<Rightarrow> Some c) else Some tlv)"

definition egg_asn1x_get_any_into_full :: "int \<Rightarrow> GNode \<Rightarrow> GNode \<Rightarrow> bool \<Rightarrow> (bool \<times> GNode) outcome" where
  "egg_asn1x_get_any_into_full now n into no_strict =
     (if anode_def_type n \<noteq> EGG_ASN1X_ANY then Ret (False, into)
      else
        case an_parsed (node_data n) of
          None \<Rightarrow> Ret (False, into)
        | Some tlv \<Rightarrow>
            (case inner_element n tlv of
               None \<Rightarrow> Ret (False, into)
             | Some tlv' \<Rightarrow>
                 obind (anode_decode_anything [into] [tlv'])
                   (\<lambda>(ok, ns).
                      if \<not> ok then Ret (False, hd ns)
                      else egg_asn1x_validate now (\<not> no_strict) (hd ns))))"

definition egg_asn1x_get_any_into :: "int \<Rightarrow> GNode \<Rightarrow> GNode \<Rightarrow> (bool \<times> GNode) outcome" where
  "egg_asn1x_get_any_into now n into =
     (if anode_def_type n \<noteq> EGG_ASN1X_ANY then Ret (False, into)
      else egg_asn1x_get_any_into_full now n into False)"

definition string_def :: "EggAsn1xType \<Rightarrow> EggAsn1xDef" where
  "string_def type =
     \<lparr>def_name = None, def_type = type, def_flags = [FLAG_UNIVERSAL, FLAG_IMPLICIT], def_value = None\<rparr>"

definition egg_asn1x_get_any_as_string_full ::
  "int \<Rightarrow> GNode \<Rightarrow> EggAsn1xType \<Rightarrow> bool \<Rightarrow> GNode option outcome" where
  "egg_asn1x_get_any_as_string_full now n type no_strict =
     (if anode_def_type n \<noteq> EGG_ASN1X_ANY then Ret None
      else if type \<notin> {EGG_ASN1X_BMP_STRING, EGG_ASN1X_UTF8_STRING, EGG_ASN1X_IA5_STRING} then Ret None
      else
        obind (egg_asn1x_get_any_into_full now n (anode_new (string_def type)) no_strict)
          (\<lambda>(ok, asn). Ret (if ok then Some asn else None)))"

definition egg_asn1x_get_any_as_string :: "int \<Rightarrow> GNode \<Rightarrow> EggAsn1xType \<Rightarrow> GNode option outcome" where
  "egg_asn1x_get_any_as_string now n type =
     (if anode_def_type n \<noteq> EGG_ASN1X_ANY then Ret None
      else egg_asn1x_get_any_as_string_full now n type False)"

definition set_parsed :: "Atlv \<Rightarrow> GNode \<Rightarrow> GNode" where
  "set_parsed tlv = upd_data (\<lambda>an. an\<lparr>an_parsed := Some tlv\<rparr>)"

definition egg_asn1x_set_any_from :: "GNode \<Rightarrow> GNode \<Rightarrow> GNode outcome" where
  "egg_asn1x_set_any_from n from =
     (if anode_def_type n \<noteq> EGG_ASN1X_ANY then Ret n
      else
        obind (anode_build_anything True from)
          (\<lambda>r. case r of
             None \<Rightarrow> Ret n
           | Some tlv \<Rightarrow>
               obind (anode_build_maybe_explicit n tlv (anode_def_flags n)) (\<lambda>tlv'. Ret (set_parsed tlv' n))))"

definition egg_asn1x_get_any_raw ::
  "(nat \<Rightarrow> bool outcome) \<Rightarrow> GNode \<Rightarrow> (byte list option \<times> GNode) outcome" where
  "egg_asn1x_get_any_raw alloc n =
     obind (anode_build_anything True n)
       (\<lambda>r. case r of
          None \<Rightarrow> Ret (None, anode_failure ''missing value(s)'' n)
        | Some tlv \<Rightarrow> obind (encode_tlv alloc tlv) (\<lambda>bytes. Ret (bytes, n)))"

definition egg_asn1x_set_any_raw :: "GNode \<Rightarrow> byte list option \<Rightarrow> (bool \<times> GNode) outcome" where
  "egg_asn1x_set_any_raw n raw =
     obind (atlv_parse_der raw)
       (\<lambda>r. case r of
          Inr tlv \<Rightarrow>
            obind (anode_build_maybe_explicit n tlv (anode_def_flags n)) (\<lambda>tlv'. Ret (True, set_parsed tlv' n))
        | Inl msg \<Rightarrow> Ret (False, upd_data (\<lambda>an. an\<lparr>an_failure := Some (cstr msg)\<rparr>) n))"

definition egg_asn1x_get_element_raw :: "GNode \<Rightarrow> byte list option" where
  "egg_asn1x_get_element_raw n =
     (case an_parsed (node_data n) of
        None \<Rightarrow> None
      | Some tlv \<Rightarrow> (case inner_element n tlv of None \<Rightarrow> None | Some tlv' \<Rightarrow> tlv_decoded tlv'))"

definition egg_asn1x_get_value_raw :: "GNode \<Rightarrow> byte list option" where
  "egg_asn1x_get_value_raw n = an_value (node_data n)"

end
