(* ===== verification/Egg_Asn1_Shape.thy ===== *)
theory Egg_Asn1_Shape
  imports Egg_Asn1_Decode Egg_Asn1_Der
begin

text \<open>
  What decoding and validation leave of a tree of nodes: its definitions. A tree has a skeleton, the
  definitions without the data; decoding keeps it whatever the data is, is defined for every element
  the parser gives, and validation changes messages only.
\<close>

section \<open>What a tree is made of\<close>

text \<open>
  The definitions of a tree without its data. Of the children of a SEQUENCE OF or SET OF the first one
  tells: the others are copies.
\<close>

fun skeleton :: "GNode \<Rightarrow> GNode" where
  "skeleton (GNode an cs) =
     GNode (anode_copy_func an)
       (if is_of_type (anode_def_type (GNode an cs)) then take 1 (map skeleton cs) else map skeleton cs)"

fun shaped :: "GNode \<Rightarrow> bool" where
  "shaped (GNode an cs) \<longleftrightarrow>
     (\<forall>c \<in> set cs. shaped c) \<and>
     (is_list_type (anode_def_type (GNode an cs)) \<or> is_of_type (anode_def_type (GNode an cs)) \<longrightarrow> cs \<noteq> []) \<and>
     (is_of_type (anode_def_type (GNode an cs)) \<longrightarrow> (\<forall>c \<in> set cs. skeleton c = skeleton (hd cs)))"

text \<open>The elements the parser gives: a primitive one has a value and nothing inside.\<close>

fun plain_element :: "Atlv \<Rightarrow> bool" where
  "plain_element (Atlv cls tag off len val dec cs back enc) \<longleftrightarrow>
     (cls AND ASN1_CLASS_STRUCTURED = 0 \<longrightarrow> val \<noteq> None \<and> cs = []) \<and> (\<forall>c \<in> set cs. plain_element c)"

lemma plain_element_simps:
  "plain_element t \<Longrightarrow> tlv_cls t AND ASN1_CLASS_STRUCTURED = 0 \<Longrightarrow> tlv_value t \<noteq> None \<and> tlv_children t = []"
  "plain_element t \<Longrightarrow> c \<in> set (tlv_children t) \<Longrightarrow> plain_element c"
  by (cases t; simp)+

text \<open>What depends on the definitions of a node only.\<close>

abbreviation same_def :: "GNode \<Rightarrow> GNode \<Rightarrow> bool" where
  "same_def n m \<equiv> anode_copy_func (node_data n) = anode_copy_func (node_data m)"

lemma same_def_iff:
  "same_def n m \<longleftrightarrow>
     an_def (node_data n) = an_def (node_data m) \<and> an_join (node_data n) = an_join (node_data m) \<and>
     an_opts (node_data n) = an_opts (node_data m)"
  by (auto simp: anode_copy_func_def)

lemma same_def_eqs:
  assumes "same_def n m"
  shows "anode_def_type n = anode_def_type m" "anode_def_flags n = anode_def_flags m"
    "anode_def_name n = anode_def_name m" "anode_def_value n = anode_def_value m"
    "anode_opt_lookup n = anode_opt_lookup m" "anode_opts_lookup n = anode_opts_lookup m"
    "anode_calc_tag_for_flags n = anode_calc_tag_for_flags m" "anode_calc_tag n = anode_calc_tag m"
    "anode_calc_explicit_for_flags n = anode_calc_explicit_for_flags m"
    "expected_tag n = expected_tag m"
  using assms unfolding same_def_iff
  by (simp_all add: fun_eq_iff anode_def_type_def anode_def_flags_def anode_def_name_def anode_def_value_def
      anode_opt_lookup_def anode_opts_lookup_def anode_calc_tag_for_flags_def anode_calc_tag_def
      anode_calc_explicit_for_flags_def expected_tag_def cong: option.case_cong if_cong)

lemma node_upd_data [simp]:
  "node_data (upd_data f n) = f (node_data n)" "node_children (upd_data f n) = node_children n"
  by (simp_all add: upd_data_def)

lemma def_type_node [simp]: "anode_def_type (GNode (node_data n) cs) = anode_def_type n"
  by (simp add: anode_def_type_def cong: option.case_cong)

lemma skeleton_node:
  "skeleton n =
     GNode (anode_copy_func (node_data n))
       (if is_of_type (anode_def_type n) then take 1 (map skeleton (node_children n))
        else map skeleton (node_children n))"
  by (cases n) simp

lemma shaped_node:
  "shaped n \<longleftrightarrow>
     (\<forall>c \<in> set (node_children n). shaped c) \<and>
     (is_list_type (anode_def_type n) \<or> is_of_type (anode_def_type n) \<longrightarrow> node_children n \<noteq> []) \<and>
     (is_of_type (anode_def_type n) \<longrightarrow>
        (\<forall>c \<in> set (node_children n). skeleton c = skeleton (hd (node_children n))))"
  by (cases n) simp

lemma skeleton_same_def: "skeleton n = skeleton m \<Longrightarrow> same_def n m"
  by (simp add: skeleton_node)

lemma node_children_changes [simp]:
  "node_children (anode_failure msg n) = node_children n" "node_children (anode_clr_value n) = node_children n"
  "node_children (anode_clear n) = node_children n" "node_children (anode_take_value v n) = node_children n"
  by (simp_all add: anode_failure_def anode_clr_value_def anode_clear_def anode_take_value_def)

text \<open>Changes of the data of a node that keep what it is.\<close>

lemma skeleton_keep:
  assumes "anode_copy_func (f (node_data n)) = anode_copy_func (node_data n)"
  shows "skeleton (upd_data f n) = skeleton n" "shaped (upd_data f n) = shaped n"
proof -
  have "anode_def_type (upd_data f n) = anode_def_type n"
    by (rule same_def_eqs) (simp add: assms)
  then show "skeleton (upd_data f n) = skeleton n" "shaped (upd_data f n) = shaped n"
    using assms by (simp_all add: skeleton_node [of "upd_data f n"] skeleton_node [of n] shaped_node [of n]
        shaped_node [of "upd_data f n"])
qed

lemma skeleton_changes [simp]:
  "skeleton (anode_failure msg n) = skeleton n" "shaped (anode_failure msg n) = shaped n"
  "skeleton (anode_clr_value n) = skeleton n" "shaped (anode_clr_value n) = shaped n"
  "skeleton (anode_clear n) = skeleton n" "shaped (anode_clear n) = shaped n"
  "skeleton (anode_take_value v n) = skeleton n" "shaped (anode_take_value v n) = shaped n"
  "skeleton (upd_data (\<lambda>an. an\<lparr>an_parsed := p\<rparr>) n) = skeleton n"
  "shaped (upd_data (\<lambda>an. an\<lparr>an_parsed := p\<rparr>) n) = shaped n"
  "skeleton (upd_data (\<lambda>an. an\<lparr>an_chosen := b\<rparr>) n) = skeleton n"
  "shaped (upd_data (\<lambda>an. an\<lparr>an_chosen := b\<rparr>) n) = shaped n"
  "skeleton (upd_data (\<lambda>an. an\<lparr>an_bits_empty := k\<rparr>) n) = skeleton n"
  "shaped (upd_data (\<lambda>an. an\<lparr>an_bits_empty := k\<rparr>) n) = shaped n"
  unfolding anode_failure_def anode_clr_value_def anode_clear_def anode_take_value_def
  by (rule skeleton_keep; simp add: anode_copy_func_def)+

lemma copy_func_idem [simp]: "anode_copy_func (anode_copy_func an) = anode_copy_func an"
  by (simp add: anode_copy_func_def)

lemma def_type_clone: "anode_def_type (GNode (anode_copy_func an) cs') = anode_def_type (GNode an cs)"
  by (rule same_def_eqs) simp

lemma skeleton_clone [simp]: "skeleton (anode_clone n) = skeleton n"
proof (induction n)
  case (GNode an cs)
  then show ?case
    using def_type_clone [of an "map anode_clone cs" cs] by (simp cong: map_cong)
qed

lemma shaped_clone [simp]: "shaped (anode_clone n) = shaped n"
proof (induction n)
  case (GNode an cs)
  then show ?case
    using def_type_clone [of an "map anode_clone cs" cs] by (cases cs) auto
qed

declare skeleton.simps [simp del] shaped.simps [simp del]

text \<open>New children of a node.\<close>

lemma skeleton_children:
  "map skeleton cs' = map skeleton cs \<Longrightarrow> skeleton (GNode an cs') = skeleton (GNode an cs)"
  using def_type_node [of "GNode an cs" cs']
  by (simp add: skeleton_node [of "GNode an cs"] skeleton_node [of "GNode an cs'"])

lemma shape_children:
  assumes "shaped n" and "map skeleton cs = map skeleton (node_children n)" and "\<forall>c \<in> set cs. shaped c"
  shows "skeleton (GNode (node_data n) cs) = skeleton n" "shaped (GNode (node_data n) cs)"
proof -
  show "skeleton (GNode (node_data n) cs) = skeleton n"
    using assms(2) by (simp add: skeleton_node [of n] skeleton_node [of "GNode (node_data n) cs"])
  have "cs = [] \<longleftrightarrow> node_children n = []" using assms(2) by (metis map_is_Nil_conv)
  moreover have "skeleton c = skeleton (hd cs)" if "is_of_type (anode_def_type n)" "c \<in> set cs" for c
  proof -
    have "\<forall>s \<in> set (map skeleton (node_children n)). s = hd (map skeleton (node_children n))"
      using assms(1) that(1) by (cases "node_children n") (auto simp: shaped_node [of n])
    then have "\<forall>s \<in> set (map skeleton cs). s = hd (map skeleton cs)" unfolding assms(2) .
    then show ?thesis using that(2) by (cases cs) auto
  qed
  ultimately show "shaped (GNode (node_data n) cs)"
    using assms(3) assms(1) [unfolded shaped_node [of n]]
    unfolding shaped_node [of "GNode (node_data n) cs"] def_type_node GNode.sel by blast
qed

lemma shape_elements:
  assumes "shaped n" and "is_of_type (anode_def_type n)" and "node_children n = child # others"
    and "skeleton child' = skeleton child" and "shaped child'"
    and "\<forall>c \<in> set added. skeleton c = skeleton child' \<and> shaped c"
  shows "skeleton (GNode (node_data n) (child' # others @ added)) = skeleton n"
    "shaped (GNode (node_data n) (child' # others @ added))"
proof -
  let ?m = "GNode (node_data n) (child' # others @ added)"
  have o: "shaped child" "\<forall>c \<in> set others. shaped c \<and> skeleton c = skeleton child"
    using assms(1-3) by (simp_all add: shaped_node [of n])
  show "skeleton ?m = skeleton n"
    using assms(2-4) by (simp add: skeleton_node [of n] skeleton_node [of ?m])
  show "shaped ?m"
    using assms(2,4-6) o by (auto simp: shaped_node [of ?m])
qed

section \<open>Decoding keeps the definitions\<close>

definition keeps :: "GNode \<Rightarrow> (bool \<times> GNode) outcome \<Rightarrow> bool" where
  "keeps n r \<longleftrightarrow> (\<exists>ok n'. r = Ret (ok, n') \<and> skeleton n' = skeleton n \<and> shaped n')"

definition keeps_all :: "GNode list \<Rightarrow> (bool \<times> GNode list) outcome \<Rightarrow> bool" where
  "keeps_all ns r \<longleftrightarrow>
     (\<exists>ok ns'. r = Ret (ok, ns') \<and> map skeleton ns' = map skeleton ns \<and> (\<forall>c \<in> set ns'. shaped c))"

definition keeps_added :: "GNode \<Rightarrow> (bool \<times> bool \<times> GNode list) outcome \<Rightarrow> bool" where
  "keeps_added child r \<longleftrightarrow>
     (\<exists>ok mm ns. r = Ret (ok, mm, ns) \<and> (\<forall>c \<in> set ns. skeleton c = skeleton child \<and> shaped c))"

lemma keepsE:
  assumes "keeps n r"
  obtains ok n' where "r = Ret (ok, n')" "skeleton n' = skeleton n" "shaped n'"
  using assms by (auto simp: keeps_def)

lemma keeps_allE:
  assumes "keeps_all ns r"
  obtains ok ns' where "r = Ret (ok, ns')" "map skeleton ns' = map skeleton ns" "\<forall>c \<in> set ns'. shaped c"
  using assms by (auto simp: keeps_all_def)

lemma keeps_addedE:
  assumes "keeps_added child r"
  obtains ok mm ns where "r = Ret (ok, mm, ns)" "\<forall>c \<in> set ns. skeleton c = skeleton child \<and> shaped c"
  using assms by (auto simp: keeps_added_def)

lemma keeps_simps [simp]:
  "keeps n (Ret (ok, n')) \<longleftrightarrow> skeleton n' = skeleton n \<and> shaped n'"
  "keeps_all ns (Ret (ok, ns')) \<longleftrightarrow> map skeleton ns' = map skeleton ns \<and> (\<forall>c \<in> set ns'. shaped c)"
  "keeps_added child (Ret (ok, mm, ns)) \<longleftrightarrow> (\<forall>c \<in> set ns. skeleton c = skeleton child \<and> shaped c)"
  "keeps n (fail_node msg n') \<longleftrightarrow> skeleton n' = skeleton n \<and> shaped n'"
  by (auto simp: keeps_def keeps_all_def keeps_added_def fail_node_def)

lemma keeps_bit_string:
  assumes "shaped n" and "tlv_value tlv \<noteq> None"
  shows "keeps n (anode_decode_bit_string n tlv)"
  using assms by (auto simp: anode_decode_bit_string_def Let_def)

lemma keeps_option_or_default:
  assumes "shaped n" and "anode_decode_option_or_default n = (b, n')"
  shows "skeleton n' = skeleton n" "shaped n'"
  using assms by (auto simp: anode_decode_option_or_default_def split: if_splits)

lemma keeps_missing:
  assumes "\<forall>c \<in> set ns. shaped c"
  shows "keeps_all ns (Ret (decode_missing ns))"
  using assms
proof (induction ns)
  case (Cons n ns)
  obtain b n' where o: "anode_decode_option_or_default n = (b, n')" by fastforce
  have "skeleton n' = skeleton n" "shaped n'" using keeps_option_or_default [OF _ o] Cons.prems by auto
  then show ?case
    using Cons o by (cases "decode_missing ns") (auto split: bool.split)
qed simp
lemma decode_keeps:
  "shaped n1 \<Longrightarrow> plain_element t1 \<Longrightarrow> keeps n1 (anode_decode_one n1 t1)"
  "shaped n2 \<Longrightarrow> plain_element t2 \<Longrightarrow> keeps n2 (anode_decode_one_without_tag n2 t2 fs)"
  "shaped n3 \<Longrightarrow> plain_element t3 \<Longrightarrow> keeps n3 (anode_decode_structured n3 t3)"
  "shaped n4 \<Longrightarrow> plain_element t4 \<Longrightarrow> tlv_cls t4 AND ASN1_CLASS_STRUCTURED = 0 \<Longrightarrow>
    keeps n4 (anode_decode_primitive n4 t4)"
  "shaped n5 \<Longrightarrow> plain_element t5 \<Longrightarrow> keeps n5 (anode_decode_choice n5 t5)"
  "\<forall>c \<in> set ns6. shaped c \<Longrightarrow> plain_element t6 \<Longrightarrow> keeps_all ns6 (decode_choices ns6 t6)"
  "shaped n7 \<Longrightarrow> plain_element t7 \<Longrightarrow> is_list_type (anode_def_type n7) \<Longrightarrow>
    keeps n7 (anode_decode_sequence_or_set n7 t7)"
  "shaped n8 \<Longrightarrow> plain_element t8 \<Longrightarrow> is_of_type (anode_def_type n8) \<Longrightarrow>
    keeps n8 (anode_decode_sequence_or_set_of n8 t8)"
  "shaped n9 \<Longrightarrow> \<forall>t \<in> set ts9. plain_element t \<Longrightarrow> keeps_added n9 (decode_elements n9 k ts9)"
  "\<forall>c \<in> set ns. shaped c \<Longrightarrow> \<forall>t \<in> set ts. plain_element t \<Longrightarrow> keeps_all ns (decode_siblings ns ts)"
proof (induction n1 t1 and n2 t2 fs and n3 t3 and n4 t4 and n5 t5 and ns6 t6 and n7 t7 and n8 t8 and n9 k ts9 and ns ts
    rule: anode_decode_one_anode_decode_one_without_tag_anode_decode_structured_anode_decode_primitive_anode_decode_choice_decode_choices_anode_decode_sequence_or_set_anode_decode_sequence_or_set_of_decode_elements_decode_siblings.induct)
  case (1 n tlv)
  then show ?case by (simp add: Let_def)
next
  case (2 n tlv fs)
  have ch: "plain_element c" if "tlv_children tlv = [c]" for c
    using plain_element_simps(2) [OF 2(5), of c] that by simp
  have "keeps n (if fst (anode_calc_explicit_for_flags n fs) then
          if tlv_cls tlv AND ASN1_CLASS_CONTEXT_SPECIFIC = 0
          then fail_node ''missing context specific tag'' n
          else
            case tlv_children tlv of
              [] \<Rightarrow> fail_node ''missing context specific child'' n
            | [ctlv] \<Rightarrow> anode_decode_one_without_tag n ctlv (without_tag fs)
            | _ \<Rightarrow> fail_node ''multiple context specific children'' n
        else if tlv_cls tlv AND ASN1_CLASS_STRUCTURED \<noteq> 0 then anode_decode_structured n tlv
        else anode_decode_primitive n tlv)"
    using 2 ch by (auto split: list.split)
  then show ?case by (auto elim!: keepsE)
next
  case (3 n tlv)
  then show ?case by (auto simp: Let_def)
next
  case (4 n tlv)
  then show ?case using plain_element_simps(1) [OF 4(3,4)] by (auto simp: Let_def keeps_bit_string)
next
  case (5 n tlv)
  then have "keeps_all (node_children n) (decode_choices (node_children n) tlv)"
    by (simp add: shaped_node [of n])
  then show ?case using 5(2) by (auto elim!: keeps_allE simp: shape_children)
next
  case (6 tlv)
  then show ?case by simp
next
  case (7 c cs tlv)
  have "keeps c (anode_decode_one c tlv)" using 7 by simp
  then obtain ok c' where c: "anode_decode_one c tlv = Ret (ok, c')" "skeleton c' = skeleton c" "shaped c'"
    by (rule keepsE)
  have "keeps_all cs (decode_choices cs tlv)" using 7 c(1) by simp
  then show ?case using c by (auto elim!: keeps_allE)
next
  case (8 n tlv)
  have ne: "node_children n \<noteq> []" using 8 by (simp add: shaped_node [of n])
  have "keeps_all (node_children n) (decode_siblings (node_children n) (tlv_children tlv))"
    if "\<not> (anode_def_type n = EGG_ASN1X_SET \<and> \<not> ascending (map tlv_tag (tlv_children tlv)))"
    using 8(1) [OF that] 8(2) plain_element_simps(2) [OF 8(3)] by (simp add: shaped_node [of n])
  then show ?case using 8(2) ne by (auto elim!: keeps_allE simp: shape_children)
next
  case (9 n tlv)
  show ?case
  proof (cases "node_children n")
    case Nil
    then show ?thesis using 9 by simp
  next
    case (Cons child others)
    show ?thesis
    proof (cases "tlv_children tlv")
      case Nil
      then show ?thesis using 9 Cons by simp
    next
      case (Cons ctlv rest)
      note el = Cons and ch = \<open>node_children n = child # others\<close>
      have sh: "shaped child" "plain_element ctlv" "\<forall>t \<in> set rest. plain_element t"
        using 9(3) ch el plain_element_simps(2) [OF 9(4)] by (simp_all add: shaped_node [of n])
      have "keeps child (anode_decode_one child ctlv)" using 9(1) [OF ch el refl] sh by simp
      then obtain ok child' where c: "anode_decode_one child ctlv = Ret (ok, child')"
        "skeleton child' = skeleton child" "shaped child'" by (rule keepsE)
      show ?thesis
      proof (cases ok)
        case False
        then show ?thesis using ch el c shape_elements [OF 9(3,5) ch c(2,3), of "[]"] by simp
      next
        case True
        have "keeps_added child' (decode_elements child' (anode_calc_tag child) rest)"
          using 9(2) [OF ch el refl c(1) refl] c(3) sh(3) True by simp
        then obtain ok2 mm added where a: "decode_elements child' (anode_calc_tag child) rest = Ret (ok2, mm, added)"
          "\<forall>c \<in> set added. skeleton c = skeleton child' \<and> shaped c" by (rule keeps_addedE)
        show ?thesis
          using True ch el c a(1) shape_elements [OF 9(3,5) ch c(2,3) a(2)]
          by (simp add: Let_def del: anode_decode_one.simps)
      qed
    qed
  qed
next
  case (10 child tag)
  then show ?case by simp
next
  case (11 child tag ctlv rest)
  show ?case
  proof (cases "tag \<noteq> G_MAXULONG \<and> tlv_tag ctlv \<noteq> tag")
    case True
    then show ?thesis by simp
  next
    case False
    have "keeps (anode_clone child) (anode_decode_one (anode_clone child) ctlv)"
      using 11(1) [OF False] 11(3,4) by simp
    then obtain ok other where c: "anode_decode_one (anode_clone child) ctlv = Ret (ok, other)"
      "skeleton other = skeleton child" "shaped other" by (auto elim: keepsE)
    show ?thesis
    proof (cases ok)
      case True
      have "keeps_added child (decode_elements child tag rest)"
        using 11(2) [OF False c(1) refl] 11(3,4) True by simp
      then show ?thesis using False c True by (auto elim!: keeps_addedE)
    qed (use False c in simp)
  qed
next
  case (12 ts)
  then show ?case by simp
next
  case (13 v va)
  then show ?case using keeps_missing [of "v # va"] by simp
next
  case (14 n ns tlv tlvs)
  show ?case
  proof (cases "expected_tag n (anode_def_flags n) tlv \<noteq> tlv_tag tlv")
    case True
    obtain b n' where o: "anode_decode_option_or_default n = (b, n')" by fastforce
    have n': "skeleton n' = skeleton n" "shaped n'" using keeps_option_or_default [OF _ o] 14(4) by auto
    show ?thesis
    proof (cases "\<not> b \<or> ns = []")
      case False
      have "keeps_all ns (decode_siblings ns (tlv # tlvs))"
        using 14(1) [OF refl True o [symmetric]] False 14(4,5) by simp
      then show ?thesis using True o n' False by (auto elim!: keeps_allE)
    qed (use True o n' 14(4) in auto)
  next
    case False
    have "keeps n (anode_decode_one_without_tag n tlv (anode_def_flags n))"
      using 14(2) [OF refl False] 14(4,5) by simp
    then obtain ok n' where c: "anode_decode_one_without_tag n tlv (anode_def_flags n) = Ret (ok, n')"
      "skeleton n' = skeleton n" "shaped n'" by (rule keepsE)
    show ?thesis
    proof (cases "ok \<and> \<not> (ns = [] \<and> tlvs \<noteq> [])")
      case True
      have "keeps_all ns (decode_siblings ns tlvs)"
        using 14(3) [OF refl False c(1)] True 14(4,5) by simp
      then show ?thesis using False c True by (auto elim!: keeps_allE)
    qed (use False c 14(4) in auto)
  qed
qed

subsection \<open>Elements of the parser\<close>

lemma placed_plain:
  "placed data stop at t at' \<Longrightarrow> plain_element t"
  "placed_all data len stop at cs at' \<Longrightarrow> \<forall>c \<in> set cs. plain_element c"
  by (induction rule: placed_placed_all.inducts) auto

lemma parsed_plain:
  assumes "length data < 2 ^ 32" and "atlv_parse_der (Some data) = Ret (Inr tlv)"
  shows "plain_element tlv"
  using atlv_parse_der_good [OF assms(1)] assms(2) placed_plain(1) by auto

subsection \<open>Clearing\<close>

lemma shape_first:
  assumes "shaped n" and "is_of_type (anode_def_type n)" and "node_children n = c # cs"
  shows "skeleton (GNode (node_data n) [c]) = skeleton n" "shaped (GNode (node_data n) [c])"
  using assms by (auto simp: skeleton_node [of n] skeleton_node [of "GNode (node_data n) [c]"]
      shaped_node [of n] shaped_node [of "GNode (node_data n) [c]"])

lemma clear_keeps:
  "shaped n \<Longrightarrow> skeleton (snd (traverse_and_clear n)) = skeleton n \<and> shaped (snd (traverse_and_clear n))"
  "\<forall>c \<in> set cs. shaped c \<Longrightarrow>
    map skeleton (snd (clear_children cs)) = map skeleton cs \<and> (\<forall>c \<in> set (snd (clear_children cs)). shaped c)"
proof (induction n and cs rule: traverse_and_clear_clear_children.induct)
  case (1 an cs)
  obtain s cs' where cs': "clear_children cs = (s, cs')" by fastforce
  then have k: "skeleton (GNode an cs') = skeleton (GNode an cs)" "shaped (GNode an cs')"
    using shape_children [OF 1(2), of cs'] 1(1) 1(2) by (auto simp: shaped_node [of "GNode an cs"])
  then show ?case
    using cs' shape_first [of "anode_clear (GNode an cs')"]
    by (cases cs') (auto simp: Let_def split: bool.split)
next
  case (3 c cs)
  then show ?case by (cases "traverse_and_clear c") (auto split: prod.split bool.split)
qed auto

lemma egg_asn1x_clear_keeps:
  assumes "shaped n"
  shows "skeleton (egg_asn1x_clear n) = skeleton n" "shaped (egg_asn1x_clear n)"
  using clear_keeps(1) [OF assms] by (simp_all add: egg_asn1x_clear_def)

subsection \<open>Validation\<close>

text \<open>What validation returns for a node: the node itself when it is valid, else it may bear a message.\<close>

definition judged :: "GNode \<Rightarrow> (bool \<times> GNode) outcome \<Rightarrow> bool" where
  "judged n r \<longleftrightarrow>
     (\<forall>ok n'. r = Ret (ok, n') \<longrightarrow> (ok \<longrightarrow> n' = n) \<and> skeleton n' = skeleton n \<and> (shaped n \<longrightarrow> shaped n'))"

definition judged_all :: "GNode list \<Rightarrow> bool \<Rightarrow> GNode list \<Rightarrow> bool" where
  "judged_all ns ok ns' \<longleftrightarrow>
     (ok \<longrightarrow> ns' = ns) \<and> map skeleton ns' = map skeleton ns \<and>
     ((\<forall>c \<in> set ns. shaped c) \<longrightarrow> (\<forall>c \<in> set ns'. shaped c))"

lemma judged_simps [simp]:
  "judged n (Ret (ok, n)) \<longleftrightarrow> True" "judged n (fail_node msg n)" "judged n Abort" "judged n Undef"
  by (auto simp: judged_def fail_node_def)

lemma judged_obind: "(\<And>x. m = Ret x \<Longrightarrow> judged n (f x)) \<Longrightarrow> judged n (obind m f)"
  by (cases m) auto

lemma judged_size: "judged n (anode_validate_size n len)"
  unfolding anode_validate_size_def by (auto split: option.split intro!: judged_obind)

lemma judged_integer: "judged n (anode_validate_integer n val)"
  unfolding anode_validate_integer_def by (auto split: option.split intro!: judged_obind)

lemma judged_object_id: "judged n (anode_validate_object_id n val)"
  unfolding anode_validate_object_id_def by (auto intro!: judged_obind)

lemma judged_failing: "judged n (obind m (\<lambda>r. Ret (r \<noteq> None, if r = None then anode_failure msg n else n)))"
  by (cases m) (auto simp: judged_def)

lemma judged_time: "judged n (anode_validate_time now n val)"
  using judged_failing [of n "parse_general_time val"] judged_failing [of n "parse_utc_time now val"]
  by (simp add: anode_validate_time_def anode_read_time_def Let_def obind_assoc)

lemma judged_if: "judged n x \<Longrightarrow> judged n y \<Longrightarrow> judged n (if b then x else y)"
  by simp

lemma judged_value: "judged n (validate_value now n val)"
  unfolding validate_value_def validate_boolean_def anode_validate_string_def anode_validate_null_def
    anode_validate_enumerated_def Let_def
  by (intro judged_if judged_integer judged_object_id judged_time judged_size judged_simps(2,3)
      judged_simps(1) [THEN iffD2] TrueI)

lemma judged_leaf: "judged n (validate_leaf now n)"
  unfolding validate_leaf_def validate_missing_def by (simp add: judged_value split: option.split)

lemma judged_children:
  assumes "judged_all cs ok cs'"
  shows "judged (GNode an cs) (Ret (ok, GNode an cs'))"
proof -
  have "shaped (GNode an cs')" if "shaped (GNode an cs)"
    using shape_children(2) [OF that, of cs'] assms that
    by (simp add: judged_all_def shaped_node [of "GNode an cs"])
  then show ?thesis
    using assms skeleton_children [of cs' cs an] by (auto simp: judged_all_def judged_def)
qed

lemma judged_all_first:
  "judged c (Ret (False, c')) \<Longrightarrow> judged_all (c # cs) False (c' # cs)"
  "judged c (Ret (ok, c')) \<Longrightarrow> judged_all cs ok cs' \<Longrightarrow> judged_all (c # cs) ok (c # cs')"
  "judged c (Ret (True, c')) \<Longrightarrow> judged_all cs ok cs' \<Longrightarrow> judged_all (c # cs) ok (c' # cs')"
  "judged c (Ret (ok, c')) \<Longrightarrow> judged_all (c # cs) ok (c' # cs)"
  "judged_all cs ok cs' \<Longrightarrow> judged_all (c # cs) ok (c # cs')"
  by (auto simp: judged_all_def judged_def)

lemma validate_judges:
  "judged n (anode_validate_anything now strict n)"
  "validate_children now strict cs = Ret (ok, cs') \<Longrightarrow> judged_all cs ok cs'"
  "validate_elements now strict es = Ret (ok2, k, es') \<Longrightarrow> judged_all es ok2 es'"
  "validate_chosen now strict ds = Ret (ok3, ds') \<Longrightarrow> judged_all ds ok3 ds'"
proof (induction now strict n and now strict cs and now strict es and now strict ds
    arbitrary: and ok cs' and ok2 k es' and ok3 ds'
    rule: anode_validate_anything_validate_children_validate_elements_validate_chosen.induct)
  case (1 now strict an cs)
  let ?n = "GNode an cs"
  consider (choice) "anode_def_type ?n = EGG_ASN1X_CHOICE"
    | (many) "anode_def_type ?n \<noteq> EGG_ASN1X_CHOICE" "is_list_type (anode_def_type ?n)"
    | (elements) "anode_def_type ?n \<noteq> EGG_ASN1X_CHOICE" "\<not> is_list_type (anode_def_type ?n)"
        "is_of_type (anode_def_type ?n)"
    | (leaf) "anode_def_type ?n \<noteq> EGG_ASN1X_CHOICE" "\<not> is_list_type (anode_def_type ?n)"
        "\<not> is_of_type (anode_def_type ?n)" by blast
  then show ?case
  proof cases
    case choice
    show ?thesis
    proof (cases "egg_asn1x_get_choice ?n = None")
      case False
      have j: "judged ?n (Ret (ok, GNode an cs'))" if "validate_chosen now strict cs = Ret (ok, cs')" for ok cs'
        by (rule judged_children) (rule 1(1) [OF refl refl refl choice False that])
      then show ?thesis
        using choice False
        by (auto simp: Let_def intro!: judged_obind) (auto simp: judged_def fail_node_def)
    qed (use choice in simp)
  next
    case many
    have j: "judged ?n (Ret (ok, GNode an cs'))"
      if "\<not> (FLAG_OPTION \<in> set (anode_def_flags ?n) \<and> \<not> egg_asn1x_have ?n)"
        "validate_children now strict cs = Ret (ok, cs')" for ok cs'
      by (rule judged_children) (rule 1(2) [OF refl refl refl many that])
    then show ?thesis using many by (auto simp: Let_def intro!: judged_obind)
  next
    case elements
    have j: "judged ?n (Ret (ok, GNode an cs'))" if "validate_elements now strict cs = Ret (ok, k, cs')" for ok k cs'
      by (rule judged_children) (rule 1(3) [OF refl refl refl elements that])
    have "judged ?n (anode_validate_size (GNode an cs') k)"
      if "validate_elements now strict cs = Ret (True, k, cs')" for k cs'
    proof -
      have "GNode an cs' = ?n" using j [OF that, unfolded judged_def, rule_format, OF refl] by blast
      then show ?thesis using judged_size by metis
    qed
    moreover have "judged ?n (Ret (False, GNode an cs'))" if "validate_elements now strict cs = Ret (False, k, cs')" for k cs'
      using j [OF that] by simp
    moreover have "judged ?n (Ret (True, GNode an cs'))" if "validate_elements now strict cs = Ret (True, k, cs')" for k cs'
      using j [OF that] by simp
    ultimately show ?thesis
      using elements by (simp add: Let_def judged_obind split: prod.split)
  next
    case leaf
    then show ?thesis using judged_leaf by (simp add: Let_def)
  qed
next
  case (2 now strict)
  then show ?case by (simp add: judged_all_def)
next
  case (3 now strict c cs)
  obtain ok1 c' where c: "anode_validate_anything now strict c = Ret (ok1, c')"
    using 3(3) by (auto simp: obind_Ret_iff)
  have j: "judged c (Ret (ok1, c'))" using 3(1) c by simp
  show ?case
  proof (cases ok1)
    case True
    then obtain ok2 ds where d: "validate_children now strict cs = Ret (ok2, ds)"
      using 3(3) c by (auto simp: obind_Ret_iff)
    have "judged_all cs ok2 ds" by (rule 3(2) [OF c refl _ d]) (use True in simp)
    then show ?thesis using 3(3) c d True j judged_all_first(3) by auto
  next
    case False
    then show ?thesis using 3(3) c j judged_all_first(1) by auto
  qed
next
  case (4 now strict)
  then show ?case by (simp add: judged_all_def)
next
  case (5 now strict c cs)
  show ?case
  proof (cases "egg_asn1x_have c")
    case True
    then obtain ok1 c' where c: "anode_validate_anything now strict c = Ret (ok1, c')"
      using 5(4) by (auto simp: obind_Ret_iff)
    have j: "judged c (Ret (ok1, c'))" using 5(1) True c by simp
    show ?thesis
    proof (cases ok1)
      case True
      then obtain ok3 k3 ds where d: "validate_elements now strict cs = Ret (ok3, k3, ds)"
        using 5(4) c \<open>egg_asn1x_have c\<close> by (auto simp: obind_Ret_iff)
      have "judged_all cs ok3 ds" by (rule 5(2) [OF \<open>egg_asn1x_have c\<close> c refl _ d]) (use True in simp)
      then show ?thesis using 5(4) c d True j judged_all_first(3) \<open>egg_asn1x_have c\<close> by auto
    next
      case False
      then show ?thesis using 5(4) c j judged_all_first(1) True by auto
    qed
  next
    case False
    then obtain ok3 k3 ds where d: "validate_elements now strict cs = Ret (ok3, k3, ds)"
      using 5(4) by (auto simp: obind_Ret_iff)
    have "judged_all cs ok3 ds" by (rule 5(3) [OF False d])
    then show ?thesis using 5(4) d False judged_all_first(5) by auto
  qed
next
  case (6 now strict)
  then show ?case by (simp add: judged_all_def)
next
  case (7 now strict c cs)
  show ?case
  proof (cases "an_chosen (node_data c)")
    case True
    then obtain ok1 c' where c: "anode_validate_anything now strict c = Ret (ok1, c')"
      using 7(3) by (auto simp: obind_Ret_iff)
    have "judged c (Ret (ok1, c'))" using 7(1) True c by simp
    then show ?thesis using 7(3) c True judged_all_first(4) by auto
  next
    case False
    then obtain ok4 ds where d: "validate_chosen now strict cs = Ret (ok4, ds)"
      using 7(3) by (auto simp: obind_Ret_iff)
    have "judged_all cs ok4 ds" by (rule 7(2) [OF False d])
    then show ?thesis using 7(3) d False judged_all_first(5) by auto
  qed
qed

section \<open>Preservation and progress\<close>

lemma decode_shapes:
  assumes "shaped n" and "plain_element tlv"
  obtains ok n' where "anode_decode_anything [n] [tlv] = Ret (ok, [n'])" "skeleton n' = skeleton n" "shaped n'"
proof -
  have "keeps_all [n] (anode_decode_anything [n] [tlv])"
    using decode_keeps(10) [of "[n]" "[tlv]"] assms by (simp add: anode_decode_anything_def del: decode_siblings.simps)
  then obtain ok ns' where "anode_decode_anything [n] [tlv] = Ret (ok, ns')" "map skeleton ns' = [skeleton n]"
    "\<forall>c \<in> set ns'. shaped c" by (auto elim: keeps_allE)
  then show thesis using that by (auto simp: map_eq_Cons_conv)
qed

section \<open>Examples\<close>

text \<open>The tree of \<^verbatim>\<open>RSAPublicKey\<close>: a SEQUENCE of two INTEGERs.\<close>

definition plain_def :: "EggAsn1xType \<Rightarrow> flags \<Rightarrow> string \<Rightarrow> EggAsn1xDef" where
  "plain_def type fs name = \<lparr>def_name = Some (cstr name), def_type = type, def_flags = fs, def_value = None\<rparr>"

definition rsa_public_key :: GNode where
  "rsa_public_key =
     GNode (node_data (anode_new (plain_def EGG_ASN1X_SEQUENCE [FLAG_DOWN, FLAG_RIGHT] ''RSAPublicKey'')))
       [anode_new (plain_def EGG_ASN1X_INTEGER [FLAG_RIGHT] ''modulus''),
        anode_new (plain_def EGG_ASN1X_INTEGER [] ''publicExponent'')]"

definition rsa_element :: Atlv where
  "rsa_element = Atlv 0x20 0x10 2 6 None None [sample_integer 5, sample_integer 3] None no_encoding"

lemma rsa_shaped: "shaped rsa_public_key"
  by (simp add: rsa_public_key_def anode_new_def plain_def_def shaped.simps anode_def_type_def type_groups)

lemma rsa_element_parsed: "atlv_parse_der (Some [0x30, 6, 2, 1, 5, 2, 1, 3]) = Ret (Inr (parsed rsa_element))"
proof -
  have "encodable rsa_element"
    by (simp add: rsa_element_def cls_ok_def ASN1_CLASS_STRUCTURED_def) (simp add: sample_integer_def)
  moreover have "der rsa_element = [0x30, 6, 2, 1, 5, 2, 1, 3]"
    by (simp add: rsa_element_def sample_integer_def header_def unparse_tag_def atlv_unparse_len_def
        written_def no_encoding_def)
  ultimately show ?thesis using parse_der_der [of rsa_element] by simp
qed

lemmas node_eval = anode_new_def egg_asn1x_clear_def anode_clear_def anode_def_type_def type_groups upd_data_def
  anode_decode_anything_def expected_tag_def anode_calc_tag_def anode_calc_tag_for_flags_def anode_def_flags_def
  Let_def anode_calc_explicit_for_flags_def ASN1_CLASS_STRUCTURED_def written_def no_encoding_def
  anode_take_value_def G_MAXULONG_def

lemma rsa_decoded:
  "\<exists>asn'. egg_asn1x_decode_full 2000 rsa_public_key (Some [0x30, 6, 2, 1, 5, 2, 1, 3]) False = Ret (True, asn')"
  unfolding egg_asn1x_decode_full_def rsa_element_parsed
  by (simp add: rsa_public_key_def rsa_element_def sample_integer_def plain_def_def node_eval
      egg_asn1x_validate_def validate_leaf_def validate_value_def anode_validate_integer_def)

section \<open>Decoding data\<close>

lemma decode_full_keeps:
  assumes "shaped asn" and "length data < 2 ^ 32"
    and "egg_asn1x_decode_full now asn (Some data) no_strict = Ret (ok, asn')"
  shows "skeleton asn' = skeleton asn \<and> shaped asn'"
proof -
  note c = egg_asn1x_clear_keeps [OF assms(1)]
  obtain r where r: "atlv_parse_der (Some data) = Ret r"
    using assms(3) by (auto simp: egg_asn1x_decode_full_def Let_def obind_Ret_iff)
  show ?thesis
  proof (cases r)
    case (Inl msg)
    then show ?thesis
      using assms(3) r c skeleton_keep [of "\<lambda>an. an\<lparr>an_failure := Some (cstr msg)\<rparr>" "egg_asn1x_clear asn"]
      by (auto simp: egg_asn1x_decode_full_def anode_copy_func_def)
  next
    case (Inr tlv)
    obtain ok1 n' where d: "anode_decode_anything [egg_asn1x_clear asn] [tlv] = Ret (ok1, [n'])"
      "skeleton n' = skeleton asn" "shaped n'"
      using decode_shapes [OF c(2) parsed_plain [OF assms(2)], of tlv] r Inr c(1) by auto
    have "judged n' (egg_asn1x_validate now s n')" for s
      unfolding egg_asn1x_validate_def by (rule validate_judges)
    then show ?thesis
      using assms(3) r Inr d by (auto simp: egg_asn1x_decode_full_def judged_def split: if_splits)
  qed
qed



end
