(* ===== verification/Egg_Asn1_Roundtrip.thy ===== *)
theory Egg_Asn1_Roundtrip
  imports Egg_Asn1_Encode Egg_Asn1_Shape
begin

text \<open>
  Encoding a tree of nodes and decoding the octets again, \<^verbatim>\<open>src/egg/egg-asn1x.c\<close>. \<open>content\<close> is what a tree
  says; a tree can be told apart (\<open>clear_cut\<close>) when the tags of its fields and alternatives say which of them
  an element belongs to, and it is \<open>complete\<close> when what is missing may be missing. For such trees the
  elements the encoder builds are decoded, node by node, to a tree that says the same.
\<close>

section \<open>What a tree says\<close>

text \<open>
  The values of a tree without what only encoding or decoding knows: missing values are \<open>None\<close>, an
  unsigned number has its zero octet, the unused bits of a bit string are zero, an ANY is its encoding.
\<close>

datatype AsnVal =
  Octets "byte list" | Bits nat "byte list" | Raw "byte list" | Parts "AsnVal option list"
| Alternative nat AsnVal | Elements "AsnVal list"

definition leaf_content :: "GNode \<Rightarrow> byte list \<Rightarrow> AsnVal" where
  "leaf_content n v =
     (if anode_def_type n = EGG_ASN1X_BIT_STRING
      then Bits (an_bits_empty (node_data n)) (clear_bits (an_bits_empty (node_data n)) v)
      else if anode_def_type n = EGG_ASN1X_INTEGER \<and> an_unsigned (node_data n) \<and> v \<noteq> [] \<and> hd v AND 0x80 \<noteq> 0
      then Octets (0 # v) else Octets v)"

fun somes :: "'a option list \<Rightarrow> 'a list" where
  "somes [] = []"
| "somes (None # xs) = somes xs"
| "somes (Some x # xs) = x # somes xs"

fun content :: "GNode \<Rightarrow> AsnVal option" where
  "content (GNode an cs) =
     (let n = GNode an cs; type = anode_def_type n in
      if type = EGG_ASN1X_ANY then map_option (\<lambda>t. Raw (der t)) (an_parsed an)
      else if type = EGG_ASN1X_CHOICE then
        (let i = length (takeWhile (\<lambda>c. \<not> an_chosen (node_data c)) cs) in
         if i < length cs then map_option (Alternative i) (map content cs ! i) else None)
      else if is_list_type type then
        (if \<forall>v \<in> set (map content cs). v = None then None else Some (Parts (map content cs)))
      else if is_of_type type then
        (if \<forall>v \<in> set (map content cs). v = None then None else Some (Elements (somes (map content cs))))
      else map_option (leaf_content n) (an_value an))"

section \<open>Trees that can be told apart\<close>

definition skippable :: "GNode \<Rightarrow> bool" where
  "skippable n \<longleftrightarrow> FLAG_OPTION \<in> set (anode_def_flags n) \<or> FLAG_DEFAULT \<in> set (anode_def_flags n)"

definition open_type :: "EggAsn1xType \<Rightarrow> bool" where
  "open_type t \<longleftrightarrow> t = EGG_ASN1X_CHOICE \<or> t = EGG_ASN1X_ANY"

text \<open>
  A tag that is given has a number; an explicit one has a class that decoding recognises, and the types
  that have no tag of their own can be tagged explicitly only.
\<close>

definition tag_fits :: "GNode \<Rightarrow> bool" where
  "tag_fits n \<longleftrightarrow>
     (\<not> open_type (anode_def_type n) \<longrightarrow> universal_tag (anode_def_type n) (anode_def_flags n) < 2 ^ 32) \<and>
     (FLAG_TAG \<in> set (anode_def_flags n) \<longrightarrow>
        (case anode_opt_lookup n EGG_ASN1X_TAG None of
           None \<Rightarrow> False
         | Some opt \<Rightarrow>
             anode_def_value_as_ulong opt < 2 ^ 32 \<and>
             (if FLAG_IMPLICIT \<in> set (def_flags opt) then \<not> open_type (anode_def_type n)
              else tag_class opt AND 0x80 \<noteq> 0)))"

text \<open>Whether an element with the tag can be the encoding of the node.\<close>

fun may_start :: "GNode \<Rightarrow> nat \<Rightarrow> bool" where
  "may_start (GNode an cs) t \<longleftrightarrow>
     (let n = GNode an cs; tag = anode_calc_tag n in
      if tag \<noteq> G_MAXULONG then tag = t
      else if anode_def_type n = EGG_ASN1X_CHOICE then \<exists>c \<in> set cs. may_start c t
      else True)"

text \<open>
  A field that may be missing has a tag of its own, and none of the fields that can follow when it is
  missing starts with that tag.
\<close>

fun followers :: "GNode list \<Rightarrow> GNode list" where
  "followers [] = []"
| "followers (c # cs) = (if skippable c then c # followers cs else [c])"

fun told_apart :: "GNode list \<Rightarrow> bool" where
  "told_apart [] \<longleftrightarrow> True"
| "told_apart (c # cs) \<longleftrightarrow>
     (skippable c \<and> cs \<noteq> [] \<longrightarrow>
        anode_calc_tag c \<noteq> G_MAXULONG \<and> (\<forall>d \<in> set (followers cs). \<not> may_start d (anode_calc_tag c))) \<and>
     told_apart cs"

fun clear_cut :: "GNode \<Rightarrow> bool" where
  "clear_cut (GNode an cs) \<longleftrightarrow>
     (let n = GNode an cs; type = anode_def_type n in
      tag_fits n \<and> (\<forall>c \<in> set cs. clear_cut c) \<and>
      (is_list_type type \<longrightarrow> told_apart cs) \<and>
      (type = EGG_ASN1X_SET \<longrightarrow>
         sorted (map anode_calc_tag cs) \<and> G_MAXULONG \<notin> set (map anode_calc_tag cs)) \<and>
      (type = EGG_ASN1X_CHOICE \<longrightarrow>
         distinct (map anode_calc_tag cs) \<and> G_MAXULONG \<notin> set (map anode_calc_tag cs)))"

section \<open>Trees that can be encoded\<close>

text \<open>Whether the encoder builds an element for the node: \<^verbatim>\<open>want\<close> is handed down to it.\<close>

fun present :: "bool \<Rightarrow> GNode \<Rightarrow> bool" where
  "present want (GNode an cs) \<longleftrightarrow>
     (let n = GNode an cs; type = anode_def_type n in
      if type = EGG_ASN1X_ANY then an_parsed an \<noteq> None
      else if type = EGG_ASN1X_CHOICE then
        (let i = length (takeWhile (\<lambda>c. \<not> an_chosen (node_data c)) cs) in
         i < length cs \<and> map (present want) cs ! i)
      else if is_list_type type \<or> is_of_type type then
        (\<exists>c \<in> set cs. present (want \<and> \<not> is_of_type type) c) \<or>
        want \<and> FLAG_OPTION \<notin> set (anode_def_flags n)
      else an_value an \<noteq> None)"

text \<open>
  Nothing is missing: what is not present may be missing, and of a CHOICE one alternative is chosen. The
  values fit the sizes of the code, the elements of an ANY are ones the code can write, and a SET OF has
  at most one element.
\<close>

fun calm :: "Atlv \<Rightarrow> bool" where
  "calm (Atlv cls tag off len val dec cs back enc) \<longleftrightarrow>
     (\<forall>c \<in> set cs. calm c) \<and> (sorted_set enc \<longrightarrow> length cs \<le> 1)"

definition any_fits :: "GNode \<Rightarrow> Atlv \<Rightarrow> bool" where
  "any_fits n t \<longleftrightarrow>
     encodable t \<and> calm t \<and>
     (FLAG_TAG \<in> set (anode_def_flags n) \<longrightarrow>
        tlv_tag t = anode_calc_tag n \<and> tlv_cls t AND 0x80 \<noteq> 0 \<and> length (tlv_children t) = 1)"

fun complete :: "bool \<Rightarrow> GNode \<Rightarrow> bool" where
  "complete want (GNode an cs) \<longleftrightarrow>
     (let n = GNode an cs; type = anode_def_type n in
      if type = EGG_ASN1X_ANY then (\<forall>t. an_parsed an = Some t \<longrightarrow> any_fits n t)
      else if type = EGG_ASN1X_CHOICE then
        length (filter (\<lambda>c. an_chosen (node_data c)) cs) = 1 \<and>
        (\<forall>c \<in> set cs. an_chosen (node_data c) \<longrightarrow> complete want c)
      else if is_list_type type then
        (\<forall>c \<in> set cs. if present want c then complete want c else skippable c)
      else if is_of_type type then
        (\<forall>c \<in> set cs. present False c \<longrightarrow> complete False c) \<and>
        (type = EGG_ASN1X_SET_OF \<longrightarrow> length (filter (present False) cs) \<le> 1)
      else
        (\<forall>v. an_value an = Some v \<longrightarrow> length v < 2 ^ 31) \<and> an_bits_empty an < 8)"

text \<open>A tree for decoding: no number in it is marked as unsigned.\<close>

fun unmarked :: "GNode \<Rightarrow> bool" where
  "unmarked (GNode an cs) \<longleftrightarrow> \<not> an_unsigned an \<and> (\<forall>c \<in> set cs. unmarked c)"

section \<open>Elements that are built\<close>

lemma obind_Some:
  "obind m f = Ret y \<Longrightarrow> (\<And>x. m = Ret x \<Longrightarrow> f x = Ret y \<Longrightarrow> P) \<Longrightarrow> P"
  by (cases m) auto

lemma gint_add_Ret: "gint_add a b = Ret c \<Longrightarrow> c = a + b \<and> a + b < 2 ^ 31"
  by (auto simp: gint_add_def split: if_splits)

lemma sum_lengths_Ret:
  "sum_lengths len cs = Ret l \<Longrightarrow>
     l = len + (\<Sum>c \<leftarrow> cs. tlv_off c + tlv_len c) \<and> (\<forall>c \<in> set cs. tlv_off c + tlv_len c < 2 ^ 31)"
proof (induction cs arbitrary: len)
  case (Cons c cs)
  then obtain a b where "gint_add (tlv_off c) (tlv_len c) = Ret a" "gint_add len a = Ret b" "sum_lengths b cs = Ret l"
    by (auto simp: obind_Ret_iff)
  then show ?case using Cons.IH gint_add_Ret by fastforce
qed simp

text \<open>Building gives an element just when one is due.\<close>

lemma wrap_built_None: "wrap_built n r = Ret r' \<Longrightarrow> r' = None \<longleftrightarrow> r = None"
  by (auto simp: wrap_built_def obind_Ret_iff split: option.splits)

lemma build_leaf_present:
  "anode_build_bit_string n = Ret r \<Longrightarrow> r \<noteq> None \<longleftrightarrow> an_value (node_data n) \<noteq> None"
  "anode_build_integer n = Ret r \<Longrightarrow> r \<noteq> None \<longleftrightarrow> an_value (node_data n) \<noteq> None"
  "anode_build_value n = Ret r \<Longrightarrow> r \<noteq> None \<longleftrightarrow> an_value (node_data n) \<noteq> None"
  by (auto simp: anode_build_bit_string_def anode_build_integer_def anode_build_value_def Let_def
      obind_Ret_iff split: option.splits if_splits)

lemma build_structured_present:
  "built_structured n want cs = Ret r \<Longrightarrow>
     r \<noteq> None \<longleftrightarrow> cs \<noteq> [] \<or> want \<and> FLAG_OPTION \<notin> set (anode_def_flags n)"
  by (auto simp: built_structured_def Let_def obind_Ret_iff split: if_splits)

lemma chosen_build:
  "build_chosen want cs =
     (let i = length (takeWhile (\<lambda>c. \<not> an_chosen (node_data c)) cs) in
      if i < length cs then anode_build_anything want (cs ! i) else Ret None)"
  by (induction cs) (auto simp: Let_def)

lemma build_children_present:
  assumes "\<And>c r. c \<in> set cs \<Longrightarrow> anode_build_anything want c = Ret r \<Longrightarrow> r \<noteq> None \<longleftrightarrow> present want c"
    and "build_children want cs = Ret ts"
  shows "ts \<noteq> [] \<longleftrightarrow> (\<exists>c \<in> set cs. present want c)"
  using assms
proof (induction cs arbitrary: ts)
  case (Cons c cs)
  then show ?case by (fastforce simp: obind_Ret_iff split: option.splits)
qed simp

lemma build_present: "anode_build_anything want n = Ret r \<Longrightarrow> r \<noteq> None \<longleftrightarrow> present want n"
proof (induction n arbitrary: want r)
  case (GNode an cs)
  let ?n = "GNode an cs" and ?t = "anode_def_type (GNode an cs)"
  have kinds: "is_plain_type ?t \<Longrightarrow> \<not> is_list_type ?t \<and> \<not> is_of_type ?t \<and> ?t \<noteq> EGG_ASN1X_ANY \<and> ?t \<noteq> EGG_ASN1X_CHOICE"
    by (auto simp: type_groups)
  consider (bits) "?t = EGG_ASN1X_BIT_STRING" | (int) "?t = EGG_ASN1X_INTEGER"
    | (plain) "?t \<noteq> EGG_ASN1X_BIT_STRING" "?t \<noteq> EGG_ASN1X_INTEGER" "is_plain_type ?t"
    | (any) "?t = EGG_ASN1X_ANY"
    | (struct) "is_list_type ?t \<or> is_of_type ?t" | (choice) "?t = EGG_ASN1X_CHOICE"
    using GNode.prems by (auto simp: Let_def split: if_splits)
  then show ?case
  proof cases
    case bits
    then show ?thesis using GNode.prems build_leaf_present(1) [of ?n] wrap_built_None
      by (fastforce simp: type_groups Let_def elim!: obind_Some)
  next
    case int
    then show ?thesis using GNode.prems build_leaf_present(2) [of ?n] wrap_built_None
      by (fastforce simp: type_groups Let_def elim!: obind_Some)
  next
    case plain
    then show ?thesis using GNode.prems build_leaf_present(3) [of ?n] wrap_built_None kinds
      by (fastforce simp: Let_def elim!: obind_Some)
  next
    case any
    then show ?thesis using GNode.prems by (auto simp: type_groups Let_def anode_build_any_def)
  next
    case struct
    then have t: "?t \<noteq> EGG_ASN1X_BIT_STRING" "?t \<noteq> EGG_ASN1X_INTEGER" "\<not> is_plain_type ?t" "?t \<noteq> EGG_ASN1X_ANY"
      "?t \<noteq> EGG_ASN1X_CHOICE" by (auto simp: type_groups)
    obtain ts r1 where b: "build_children (want \<and> \<not> is_of_type ?t) cs = Ret ts"
      "built_structured ?n want ts = Ret r1" "wrap_built ?n r1 = Ret r"
      using GNode.prems t struct by (auto simp: Let_def obind_Ret_iff)
    show ?thesis
      using build_children_present [OF GNode.IH b(1)] build_structured_present [OF b(2)] wrap_built_None [OF b(3)]
        t struct by (auto simp: Let_def)
  next
    case choice
    let ?i = "length (takeWhile (\<lambda>c. \<not> an_chosen (node_data c)) cs)"
    obtain r1 where b: "build_chosen want cs = Ret r1" "wrap_built ?n r1 = Ret r"
      using GNode.prems choice by (auto simp: Let_def obind_Ret_iff type_groups)
    show ?thesis
    proof (cases "?i < length cs")
      case True
      then have "anode_build_anything want (cs ! ?i) = Ret r1" "cs ! ?i \<in> set cs"
        using b(1) by (simp_all add: chosen_build Let_def)
      then have "r1 \<noteq> None \<longleftrightarrow> present want (cs ! ?i)" using GNode.IH by blast
      then show ?thesis using wrap_built_None [OF b(2)] choice True by (simp add: Let_def)
    next
      case False
      then show ?thesis using wrap_built_None [OF b(2)] b(1) choice by (simp add: chosen_build Let_def)
    qed
  qed
qed

text \<open>The ways an element is built.\<close>

definition leaf_encoding :: "GNode \<Rightarrow> byte list \<Rightarrow> encoding" where
  "leaf_encoding n v =
     (if anode_def_type n = EGG_ASN1X_BIT_STRING
      then no_encoding\<lparr>bits_empty := an_bits_empty (node_data n), prefix_for_bit_string := True\<rparr>
      else if anode_def_type n = EGG_ASN1X_INTEGER
      then no_encoding\<lparr>prefix_with_zero_byte := (an_unsigned (node_data n) \<and> v ! 0 AND 0x80 \<noteq> 0)\<rparr>
      else no_encoding)"

definition is_leaf :: "GNode \<Rightarrow> bool" where
  "is_leaf n \<longleftrightarrow> is_plain_type (anode_def_type n) \<or> anode_def_type n = EGG_ASN1X_BIT_STRING"

definition is_struct :: "GNode \<Rightarrow> bool" where
  "is_struct n \<longleftrightarrow> is_list_type (anode_def_type n) \<or> is_of_type (anode_def_type n)"

definition chosen_index :: "GNode list \<Rightarrow> nat" where
  "chosen_index cs = length (takeWhile (\<lambda>c. \<not> an_chosen (node_data c)) cs)"

lemma kinds:
  "is_leaf n \<Longrightarrow> \<not> is_struct n \<and> \<not> open_type (anode_def_type n)"
  "is_struct n \<Longrightarrow> \<not> is_leaf n \<and> \<not> open_type (anode_def_type n)"
  "open_type t \<longleftrightarrow> t = EGG_ASN1X_CHOICE \<or> t = EGG_ASN1X_ANY"
  by (auto simp: is_leaf_def is_struct_def open_type_def type_groups)

lemma build_cases:
  assumes "anode_build_anything want n = Ret (Some t)"
  obtains (leaf) v inner where "is_leaf n" "an_value (node_data n) = Some v"
      "anode_def_type n = EGG_ASN1X_INTEGER \<and> an_unsigned (node_data n) \<longrightarrow> v \<noteq> []"
      "anode_build_cls_tag_len n (Some v) [] (leaf_encoding n v) (gint_of_size (length v)) = Ret inner"
      "wrap_built n (Some inner) = Ret (Some t)"
    | (any) "anode_def_type n = EGG_ASN1X_ANY" "an_parsed (node_data n) = Some t"
    | (struct) ts inner where "is_struct n"
      "build_children (want \<and> \<not> is_of_type (anode_def_type n)) (node_children n) = Ret ts"
      "built_structured n want ts = Ret (Some inner)" "wrap_built n (Some inner) = Ret (Some t)"
    | (choice) inner where "anode_def_type n = EGG_ASN1X_CHOICE"
      "chosen_index (node_children n) < length (node_children n)"
      "anode_build_anything want (node_children n ! chosen_index (node_children n)) = Ret (Some inner)"
      "wrap_built n (Some inner) = Ret (Some t)"
proof -
  obtain an cs where n: "n = GNode an cs" by (cases n)
  have w: "wrap_built n r = Ret (Some t) \<Longrightarrow> \<exists>inner. r = Some inner" for r
    using wrap_built_None [of n r "Some t"] by (cases r) simp_all
  let ?t = "anode_def_type n"
  consider (bits) "?t = EGG_ASN1X_BIT_STRING" | (int) "?t = EGG_ASN1X_INTEGER"
    | (plain) "?t \<noteq> EGG_ASN1X_BIT_STRING" "?t \<noteq> EGG_ASN1X_INTEGER" "is_plain_type ?t"
    | (anyt) "?t = EGG_ASN1X_ANY"
    | (structt) "is_list_type ?t \<or> is_of_type ?t" | (choicet) "?t = EGG_ASN1X_CHOICE"
    using assms n by (auto simp: Let_def split: if_splits)
  then show thesis
  proof cases
    case bits
    then obtain r where r: "anode_build_bit_string n = Ret r" "wrap_built n r = Ret (Some t)"
      using assms n by (auto simp: Let_def obind_Ret_iff)
    then show thesis
      using w [OF r(2)] bits
      by (auto simp: anode_build_bit_string_def obind_Ret_iff is_leaf_def leaf_encoding_def
          split: option.splits intro!: leaf)
  next
    case int
    then obtain r where r: "anode_build_integer n = Ret r" "wrap_built n r = Ret (Some t)"
      using assms n by (auto simp: Let_def obind_Ret_iff)
    then show thesis
      using w [OF r(2)] int
      by (auto simp: anode_build_integer_def obind_Ret_iff is_leaf_def leaf_encoding_def type_groups Let_def
          split: option.splits if_splits intro!: leaf)
  next
    case plain
    then obtain r where r: "anode_build_value n = Ret r" "wrap_built n r = Ret (Some t)"
      using assms n by (auto simp: Let_def obind_Ret_iff)
    then show thesis
      using w [OF r(2)] plain
      by (auto simp: anode_build_value_def obind_Ret_iff is_leaf_def leaf_encoding_def
          split: option.splits intro!: leaf)
  next
    case anyt
    then show thesis using assms n by (intro any) (auto simp: type_groups Let_def anode_build_any_def)
  next
    case structt
    then have k: "?t \<noteq> EGG_ASN1X_BIT_STRING" "?t \<noteq> EGG_ASN1X_INTEGER" "\<not> is_plain_type ?t" "?t \<noteq> EGG_ASN1X_ANY"
      by (auto simp: type_groups)
    then obtain ts r where r: "build_children (want \<and> \<not> is_of_type ?t) cs = Ret ts"
      "built_structured n want ts = Ret r" "wrap_built n r = Ret (Some t)"
      using assms n structt by (auto simp: Let_def obind_Ret_iff)
    then show thesis using w [OF r(3)] structt n struct [of ts] by (auto simp: is_struct_def)
  next
    case choicet
    then obtain r where r: "build_chosen want cs = Ret r" "wrap_built n r = Ret (Some t)"
      using assms n by (auto simp: Let_def obind_Ret_iff type_groups)
    then show thesis
      using w [OF r(2)] choicet n choice by (auto simp: chosen_build Let_def chosen_index_def split: if_splits)
  qed
qed

subsection \<open>Class and tag\<close>

definition is_explicit :: "GNode \<Rightarrow> bool" where
  "is_explicit n \<longleftrightarrow> fst (anode_calc_explicit_for_flags n (anode_def_flags n))"

lemma universal_tag_without [simp]: "universal_tag t (without_tag fs) = universal_tag t fs"
  by (cases t) (auto simp: without_tag_def)

lemma without_tag_simps [simp]: "FLAG_TAG \<notin> set (without_tag fs)"
  by (simp add: without_tag_def)

lemma explicit_without [simp]: "anode_calc_explicit_for_flags n (without_tag fs) = (False, None)"
  by (simp add: anode_calc_explicit_for_flags_def)

lemma not_tagged:
  "FLAG_TAG \<notin> set (anode_def_flags n) \<Longrightarrow>
     \<not> is_explicit n \<and> anode_calc_tag n = universal_tag (anode_def_type n) (anode_def_flags n)"
  by (simp add: is_explicit_def anode_calc_explicit_for_flags_def anode_calc_tag_def anode_calc_tag_for_flags_def)

lemma tagged:
  assumes "tag_fits n" and "FLAG_TAG \<in> set (anode_def_flags n)"
  obtains opt where "anode_calc_tag n = anode_def_value_as_ulong opt" "anode_calc_tag n < 2 ^ 32"
    "anode_calc_explicit_for_flags n (anode_def_flags n) = (is_explicit n, Some (tag_class opt))"
    "is_explicit n \<longrightarrow> tag_class opt AND 0x80 \<noteq> 0" "\<not> is_explicit n \<longrightarrow> \<not> open_type (anode_def_type n)"
  using assms that
  by (auto simp: tag_fits_def is_explicit_def anode_calc_explicit_for_flags_def anode_calc_tag_def
      anode_calc_tag_for_flags_def split: option.splits if_splits)

lemma open_type_tag: "open_type t \<Longrightarrow> universal_tag t fs = G_MAXULONG"
  by (auto simp: open_type_def)

lemma maxulong_big: "n < 2 ^ 32 \<Longrightarrow> n \<noteq> G_MAXULONG"
  by (auto simp: G_MAXULONG_def)

lemma tag_class_cases:
  "tag_class opt = 0 \<or> tag_class opt = 0x40 \<or> tag_class opt = 0x80 \<or> tag_class opt = 0xC0"
  by (simp add: tag_class_def ASN1_CLASS_UNIVERSAL_def ASN1_CLASS_APPLICATION_def ASN1_CLASS_PRIVATE_def
      ASN1_CLASS_CONTEXT_SPECIFIC_def)

lemma class_bits:
  "cls_ok (0 OR tag_class opt)" "cls_ok (0x20 OR tag_class opt)" "cls_ok 0" "cls_ok 0x20"
  "(0 OR tag_class opt) AND ASN1_CLASS_STRUCTURED = 0" "(0x20 OR tag_class opt) AND ASN1_CLASS_STRUCTURED \<noteq> 0"
  "(0x20 OR tag_class opt) AND ASN1_CLASS_CONTEXT_SPECIFIC = tag_class opt AND 0x80"
  using tag_class_cases [of opt]
  by (auto simp: cls_ok_def ASN1_CLASS_STRUCTURED_def ASN1_CLASS_CONTEXT_SPECIFIC_def)

lemma base_class_kinds:
  "base_class (anode_def_type n) =
     (if is_leaf n then Some 0 else if is_struct n then Some 0x20 else None)"
  unfolding base_class_def is_leaf_def is_struct_def
  by (simp add: ASN1_CLASS_UNIVERSAL_def ASN1_CLASS_STRUCTURED_def)

lemma cls_tag_len_Ret:
  assumes "anode_build_cls_tag_len n val cs enc len0 = Ret inner" and "tag_fits n"
    and "is_leaf n \<or> is_struct n"
  obtains cls tag len where "inner = Atlv cls tag (int (header_size cls tag len)) len val None cs None enc"
    "len = len0 + (if prefix_for_bit_string enc \<or> prefix_with_zero_byte enc then 1 else 0)"
    "cls_ok cls" "cls AND ASN1_CLASS_STRUCTURED \<noteq> 0 \<longleftrightarrow> is_struct n" "tag < 2 ^ 32"
    "\<not> is_explicit n \<longrightarrow> tag = anode_calc_tag n"
proof -
  let ?fs = "anode_def_flags n"
  obtain len where len: "(if prefix_for_bit_string enc \<or> prefix_with_zero_byte enc then gint_add len0 1
      else Ret len0) = Ret len"
    using assms(1) by (auto simp: anode_build_cls_tag_len_def obind_Ret_iff)
  have l: "len = len0 + (if prefix_for_bit_string enc \<or> prefix_with_zero_byte enc then 1 else 0)"
    using len gint_add_Ret by (auto split: if_splits)
  obtain base where base: "base_class (anode_def_type n) = Some base" "base = (if is_struct n then 0x20 else 0)"
    using assms(3) kinds(2) [of n] by (cases "is_struct n") (auto simp: base_class_kinds)
  have u: "universal_tag (anode_def_type n) ?fs < 2 ^ 32"
    using assms(2,3) kinds by (auto simp: tag_fits_def)
  have b: "built_header cls tag len = Ret off \<Longrightarrow> off = int (header_size cls tag len)" for cls tag off
    by (auto simp: built_header_def split: if_splits)
  have bb: "cls_ok base" "base AND ASN1_CLASS_STRUCTURED \<noteq> 0 \<longleftrightarrow> is_struct n"
    "cls_ok (base OR tag_class opt)" "(base OR tag_class opt) AND ASN1_CLASS_STRUCTURED \<noteq> 0 \<longleftrightarrow> is_struct n" for opt
    using class_bits(1) [of opt] class_bits(2) [of opt] class_bits(5) [of opt] class_bits(6) [of opt] class_bits(3,4) by (cases "is_struct n"; simp add: base(2) ASN1_CLASS_STRUCTURED_def)+
  note bind = assms(1) [unfolded anode_build_cls_tag_len_def len obind_simps(1) base(1) option.case]
  show thesis
  proof (cases "FLAG_TAG \<in> set ?fs")
    case False
    then have e: "anode_calc_explicit_for_flags n ?fs = (False, None)"
      by (simp add: anode_calc_explicit_for_flags_def)
    obtain off where off: "built_header base (anode_calc_tag n) len = Ret off"
      "inner = Atlv base (anode_calc_tag n) off len val None cs None enc"
      using bind False by (auto simp: Let_def e obind_Ret_iff anode_calc_tag_def)
    show thesis
      by (rule that [of base "anode_calc_tag n" len]) (use off b [OF off(1)] l bb u not_tagged [OF False] in simp_all)
  next
    case True
    obtain opt where o: "anode_calc_tag n = anode_def_value_as_ulong opt" "anode_calc_tag n < 2 ^ 32"
      "anode_calc_explicit_for_flags n ?fs = (is_explicit n, Some (tag_class opt))"
      by (rule tagged [OF assms(2) True])
    show thesis
    proof (cases "is_explicit n")
      case True
      have w: "anode_calc_tag_for_flags n (without_tag ?fs) = universal_tag (anode_def_type n) ?fs"
        by (simp add: anode_calc_tag_for_flags_def)
      obtain off where off: "built_header base (universal_tag (anode_def_type n) ?fs) len = Ret off"
        "inner = Atlv base (universal_tag (anode_def_type n) ?fs) off len val None cs None enc"
        using bind True \<open>FLAG_TAG \<in> set ?fs\<close> by (auto simp: Let_def o(3) w obind_Ret_iff)
      show thesis
        by (rule that [of base "universal_tag (anode_def_type n) ?fs" len]) (use off b [OF off(1)] l bb u True in simp_all)
    next
      case False
      obtain off where off: "built_header (base OR tag_class opt) (anode_calc_tag n) len = Ret off"
        "inner = Atlv (base OR tag_class opt) (anode_calc_tag n) off len val None cs None enc"
        using bind False \<open>FLAG_TAG \<in> set ?fs\<close> by (auto simp: Let_def o(3) anode_calc_tag_def [symmetric] obind_Ret_iff)
      show thesis
        by (rule that [of "base OR tag_class opt" "anode_calc_tag n" len]) (use off b [OF off(1)] l bb o(2) in simp_all)
    qed
  qed
qed

lemma wrap_built_Ret:
  assumes "wrap_built n (Some inner) = Ret (Some t)" and "tag_fits n"
  obtains (implicit) "\<not> is_explicit n" "t = inner"
    | (explicit) cls len where "is_explicit n" "FLAG_TAG \<in> set (anode_def_flags n)"
      "t = Atlv cls (anode_calc_tag n) (int (header_size cls (anode_calc_tag n) len)) len None None [inner] None no_encoding"
      "cls_ok cls" "cls AND ASN1_CLASS_STRUCTURED \<noteq> 0" "cls AND ASN1_CLASS_CONTEXT_SPECIFIC \<noteq> 0"
      "anode_calc_tag n < 2 ^ 32" "len = tlv_off inner + tlv_len inner" "len < 2 ^ 31"
proof (cases "is_explicit n")
  case False
  then have "t = inner"
    using assms(1) by (auto simp: wrap_built_def anode_build_maybe_explicit_def is_explicit_def obind_Ret_iff
        split: prod.splits)
  then show thesis using implicit False by simp
next
  case True
  then have tg: "FLAG_TAG \<in> set (anode_def_flags n)" using not_tagged by blast
  obtain opt where o: "anode_calc_tag n < 2 ^ 32"
    "anode_calc_explicit_for_flags n (anode_def_flags n) = (is_explicit n, Some (tag_class opt))"
    "tag_class opt AND 0x80 \<noteq> 0"
    using tagged [OF assms(2) tg] True by metis
  obtain len off where l: "gint_add (tlv_off inner) (tlv_len inner) = Ret len"
    "built_header (ASN1_CLASS_STRUCTURED OR tag_class opt) (anode_calc_tag n) len = Ret off"
    "t = Atlv (ASN1_CLASS_STRUCTURED OR tag_class opt) (anode_calc_tag n) off len None None [inner] None no_encoding"
    using assms(1) o(2) True
    by (auto simp: wrap_built_def anode_build_maybe_explicit_def Let_def obind_Ret_iff)
  have "off = int (header_size (ASN1_CLASS_STRUCTURED OR tag_class opt) (anode_calc_tag n) len)"
    using l(2) by (auto simp: built_header_def split: if_splits)
  moreover have "cls_ok (ASN1_CLASS_STRUCTURED OR tag_class opt)"
    "(ASN1_CLASS_STRUCTURED OR tag_class opt) AND ASN1_CLASS_STRUCTURED \<noteq> 0"
    "(ASN1_CLASS_STRUCTURED OR tag_class opt) AND ASN1_CLASS_CONTEXT_SPECIFIC \<noteq> 0"
    using class_bits(2) [of opt] class_bits(6) [of opt] class_bits(7) [of opt] o(3)
    by (simp_all add: ASN1_CLASS_STRUCTURED_def)
  ultimately show thesis
    using l(3) gint_add_Ret [OF l(1)] by (intro explicit [OF True tg _ _ _ _ o(1), of _ len]) simp_all
qed

subsection \<open>What is built can be written and has the right tag\<close>

lemma build_children_Ret:
  assumes "build_children want cs = Ret ts"
  shows "\<exists>rs. list_all2 (\<lambda>c r. anode_build_anything want c = Ret r) cs rs \<and> ts = somes rs"
  using assms
proof (induction cs arbitrary: ts)
  case (Cons c cs)
  then obtain r us where r: "anode_build_anything want c = Ret r" "build_children want cs = Ret us"
    "ts = (case r of None \<Rightarrow> us | Some tlv \<Rightarrow> tlv # us)"
    by (auto simp: obind_Ret_iff)
  with Cons.IH [OF r(2)] show ?case
    by (auto split: option.split intro!: exI [of _ "r # rs" for rs])
qed simp

lemma set_somes: "x \<in> set (somes rs) \<longleftrightarrow> Some x \<in> set rs"
  by (induction rs rule: somes.induct) auto

lemma length_somes: "length (somes rs) = length (filter (\<lambda>r. r \<noteq> None) rs)"
  by (induction rs rule: somes.induct) auto

lemma built_child:
  assumes "build_children want cs = Ret ts" and "t \<in> set ts"
  obtains c where "c \<in> set cs" "anode_build_anything want c = Ret (Some t)" "present want c"
proof -
  obtain rs where rs: "list_all2 (\<lambda>c r. anode_build_anything want c = Ret r) cs rs" "ts = somes rs"
    using build_children_Ret [OF assms(1)] by blast
  have "Some t \<in> set rs" using assms(2) rs(2) by (simp add: set_somes)
  then obtain i where "i < length rs" "rs ! i = Some t" by (auto simp: in_set_conv_nth)
  then have i: "i < length cs" "anode_build_anything want (cs ! i) = Ret (Some t)"
    using list_all2_lengthD [OF rs(1)] list_all2_nthD2 [OF rs(1), of i] by simp_all
  show thesis using that [of "cs ! i"] i build_present [OF i(2)] by simp
qed

lemma length_built:
  assumes "build_children want cs = Ret ts"
  shows "length ts = length (filter (present want) cs)"
proof -
  obtain rs where rs: "list_all2 (\<lambda>c r. anode_build_anything want c = Ret r) cs rs" "ts = somes rs"
    using build_children_Ret [OF assms(1)] by blast
  have "length (filter (\<lambda>r. r \<noteq> None) rs) = length (filter (present want) cs)"
    using rs(1) by (induction rule: list_all2_induct) (auto dest: build_present)
  then show ?thesis using rs(2) by (simp add: length_somes)
qed

lemma written_leaf:
  "int (length (written (leaf_encoding n v) v)) =
     int (length v) + (if prefix_for_bit_string (leaf_encoding n v) \<or> prefix_with_zero_byte (leaf_encoding n v)
                       then 1 else 0)"
  by (simp add: written_def leaf_encoding_def no_encoding_def clear_bits_def)

lemma gint_of_size_id: "k < 2 ^ 31 \<Longrightarrow> gint_of_size k = int k"
  by (simp add: gint_of_size_def signed_take_bit_int_eq_self)

lemma complete_chosen:
  assumes "complete want n" and "anode_def_type n = EGG_ASN1X_CHOICE"
    and "chosen_index (node_children n) < length (node_children n)"
  shows "complete want (node_children n ! chosen_index (node_children n))"
proof -
  let ?cs = "node_children n"
  have "an_chosen (node_data (?cs ! chosen_index ?cs))"
    using assms(3) nth_length_takeWhile unfolding chosen_index_def by blast
  then show ?thesis using assms by (cases n) (auto simp: Let_def)
qed

lemma complete_leaf:
  assumes "complete want n" and "is_leaf n"
  shows "an_value (node_data n) = Some v \<Longrightarrow> length v < 2 ^ 31" "an_bits_empty (node_data n) < 8"
  using assms kinds(1) [OF assms(2)] by (cases n; simp add: Let_def is_struct_def open_type_def)+

lemma complete_any:
  "complete want n \<Longrightarrow> anode_def_type n = EGG_ASN1X_ANY \<Longrightarrow> an_parsed (node_data n) = Some t \<Longrightarrow> any_fits n t"
  by (cases n) simp

lemma complete_set_of:
  "complete want n \<Longrightarrow> anode_def_type n = EGG_ASN1X_SET_OF \<Longrightarrow>
     length (filter (present False) (node_children n)) \<le> 1"
  by (cases n) (simp add: type_groups)

lemma complete_field:
  "complete want n \<Longrightarrow> is_list_type (anode_def_type n) \<Longrightarrow> c \<in> set (node_children n) \<Longrightarrow>
     if present want c then complete want c else skippable c"
  by (cases n) (auto simp: type_groups)

lemma complete_child:
  assumes "complete want n" and "is_struct n" and "c \<in> set (node_children n)"
    and "present (want \<and> \<not> is_of_type (anode_def_type n)) c"
  shows "complete (want \<and> \<not> is_of_type (anode_def_type n)) c"
proof (cases "is_of_type (anode_def_type n)")
  case True
  then have "\<not> is_list_type (anode_def_type n)" "\<not> open_type (anode_def_type n)"
    by (auto simp: type_groups open_type_def)
  then show ?thesis using assms True by (cases n) (simp add: Let_def open_type_def)
next
  case False
  then show ?thesis using assms complete_field [OF assms(1) _ assms(3)] by (auto simp: is_struct_def)
qed

lemma built_structured_Ret:
  assumes "built_structured n want ts = Ret (Some inner)"
  obtains len where "(\<forall>t \<in> set ts. tlv_off t + tlv_len t < 2 ^ 31)" "len = (\<Sum>c \<leftarrow> ts. tlv_off c + tlv_len c)"
    "anode_build_cls_tag_len n None ts
       (no_encoding\<lparr>sorted_set := anode_def_type n = EGG_ASN1X_SET_OF\<rparr>) len = Ret inner"
  using assms sum_lengths_Ret [of 0 ts]
  by (auto simp: built_structured_def Let_def obind_Ret_iff split: if_splits)

lemma clear_cut_node:
  "clear_cut n \<longleftrightarrow>
     tag_fits n \<and> (\<forall>c \<in> set (node_children n). clear_cut c) \<and>
     (is_list_type (anode_def_type n) \<longrightarrow> told_apart (node_children n)) \<and>
     (anode_def_type n = EGG_ASN1X_SET \<longrightarrow>
        sorted (map anode_calc_tag (node_children n)) \<and> G_MAXULONG \<notin> set (map anode_calc_tag (node_children n))) \<and>
     (anode_def_type n = EGG_ASN1X_CHOICE \<longrightarrow>
        distinct (map anode_calc_tag (node_children n)) \<and> G_MAXULONG \<notin> set (map anode_calc_tag (node_children n)))"
  by (cases n) (simp add: Let_def)

declare clear_cut.simps [simp del] complete.simps [simp del] present.simps [simp del] content.simps [simp del]
  anode_build_anything.simps [simp del]

lemma encodable_len: "encodable t \<Longrightarrow> 0 \<le> tlv_off t \<and> 0 \<le> tlv_len t"
  by (cases t) simp

lemma build_encodable:
  "anode_build_anything want n = Ret (Some t) \<Longrightarrow> clear_cut n \<Longrightarrow> complete want n \<Longrightarrow>
     (tlv_off t + tlv_len t < 2 ^ 31 \<longrightarrow> encodable t) \<and> calm t"
proof (induction n arbitrary: want t)
  case (GNode an cs)
  let ?n = "GNode an cs"
  have tf: "tag_fits ?n" using GNode.prems(2) by (simp add: clear_cut_node [of ?n])
  have wrapped: "(tlv_off t + tlv_len t < 2 ^ 31 \<longrightarrow> encodable t) \<and> calm t"
    if "wrap_built ?n (Some inner) = Ret (Some t)" "tlv_off inner + tlv_len inner < 2 ^ 31 \<longrightarrow> encodable inner"
      "calm inner" for inner
    using that(1) tf
  proof (cases rule: wrap_built_Ret)
    case implicit
    then show ?thesis using that by simp
  next
    case (explicit cls len)
    then have "encodable inner" using that(2) by simp
    then show ?thesis using explicit that(3) encodable_len [of inner] by (simp add: no_encoding_def)
  qed
  show ?case using GNode.prems(1)
  proof (cases rule: build_cases)
    case (leaf v inner)
    let ?e = "leaf_encoding ?n v"
    obtain cls tag len where i:
      "inner = Atlv cls tag (int (header_size cls tag len)) len (Some v) None [] None ?e"
      "len = gint_of_size (length v) + (if prefix_for_bit_string ?e \<or> prefix_with_zero_byte ?e then 1 else 0)"
      "cls_ok cls" "cls AND ASN1_CLASS_STRUCTURED \<noteq> 0 \<longleftrightarrow> is_struct ?n" "tag < 2 ^ 32"
      "\<not> is_explicit ?n \<longrightarrow> tag = anode_calc_tag ?n"
      by (rule cls_tag_len_Ret [OF leaf(4) tf disjI1 [OF leaf(1)]])
    have "length v < 2 ^ 31" by (rule complete_leaf(1) [OF GNode.prems(3) leaf(1,2)])
    then have "len = int (length (written (leaf_encoding ?n v) v))"
      using i(2) gint_of_size_id written_leaf by simp
    then show ?thesis
      using i kinds(1) [OF leaf(1)] by (intro wrapped [OF leaf(5)]) (auto simp: leaf_encoding_def no_encoding_def)
  next
    case any
    then show ?thesis using complete_any [OF GNode.prems(3) any] by (simp add: any_fits_def)
  next
    case (struct ts inner)
    obtain len where l: "\<forall>t \<in> set ts. tlv_off t + tlv_len t < 2 ^ 31" "len = (\<Sum>c \<leftarrow> ts. tlv_off c + tlv_len c)"
      "anode_build_cls_tag_len ?n None ts
         (no_encoding\<lparr>sorted_set := anode_def_type ?n = EGG_ASN1X_SET_OF\<rparr>) len = Ret inner"
      by (rule built_structured_Ret [OF struct(3)])
    let ?e = "no_encoding\<lparr>sorted_set := anode_def_type ?n = EGG_ASN1X_SET_OF\<rparr>"
    obtain cls tag len' where i:
      "inner = Atlv cls tag (int (header_size cls tag len')) len' None None ts None ?e"
      "len' = len + (if prefix_for_bit_string ?e \<or> prefix_with_zero_byte ?e then 1 else 0)"
      "cls_ok cls" "cls AND ASN1_CLASS_STRUCTURED \<noteq> 0 \<longleftrightarrow> is_struct ?n" "tag < 2 ^ 32"
      "\<not> is_explicit ?n \<longrightarrow> tag = anode_calc_tag ?n"
      by (rule cls_tag_len_Ret [OF l(3) tf disjI2 [OF struct(1)]])
    have len': "len' = len" using i(2) by (simp add: no_encoding_def)
    have ts: "encodable c \<and> calm c" if m: "c \<in> set ts" for c
    proof -
      obtain d where d: "d \<in> set cs" "anode_build_anything (want \<and> \<not> is_of_type (anode_def_type ?n)) d = Ret (Some c)"
        "present (want \<and> \<not> is_of_type (anode_def_type ?n)) d"
        using built_child [OF struct(2) m] by auto
      have "clear_cut d" using GNode.prems(2) d(1) by (simp add: clear_cut_node [of ?n])
      moreover have "complete (want \<and> \<not> is_of_type (anode_def_type ?n)) d"
        by (rule complete_child [OF GNode.prems(3) struct(1) _ d(3)]) (use d in simp)
      ultimately show ?thesis using GNode.IH [OF d(1,2)] l(1) m by simp
    qed
    have "0 \<le> len" unfolding l(2) using ts encodable_len by (intro sum_list_nonneg) fastforce
    moreover have "length ts \<le> 1" if "anode_def_type ?n = EGG_ASN1X_SET_OF"
      using complete_set_of [OF GNode.prems(3) that] length_built [OF struct(2)] that by (simp add: type_groups)
    ultimately show ?thesis
      using i(1,3-5) len' struct(1) l(2) ts by (intro wrapped [OF struct(4)]) auto
  next
    case (choice inner)
    let ?c = "cs ! chosen_index cs"
    have c: "?c \<in> set cs" using choice(2) by simp
    then have "clear_cut ?c" using GNode.prems(2) by (simp add: clear_cut_node [of ?n])
    moreover have "complete want ?c" using complete_chosen [OF GNode.prems(3) choice(1)] choice(2) by simp
    ultimately show ?thesis using GNode.IH [OF c, of want inner] choice(3) by (intro wrapped [OF choice(4)]) simp_all
  qed
qed

lemma complete_clear_child:
  assumes "clear_cut n" and "c \<in> set (node_children n)"
  shows "clear_cut c"
  using assms by (simp add: clear_cut_node [of n])

lemma may_start_node:
  "may_start n t \<longleftrightarrow>
     (if anode_calc_tag n \<noteq> G_MAXULONG then anode_calc_tag n = t
      else if anode_def_type n = EGG_ASN1X_CHOICE then \<exists>c \<in> set (node_children n). may_start c t
      else True)"
  by (cases n) (simp add: Let_def)

declare may_start.simps [simp del]

lemma open_untagged:
  "tag_fits n \<Longrightarrow> open_type (anode_def_type n) \<Longrightarrow> \<not> is_explicit n \<Longrightarrow>
     FLAG_TAG \<notin> set (anode_def_flags n) \<and> anode_calc_tag n = G_MAXULONG"
  using tagged [of n] not_tagged [of n] open_type_tag by metis

lemma build_starts:
  "anode_build_anything want n = Ret (Some t) \<Longrightarrow> clear_cut n \<Longrightarrow> complete want n \<Longrightarrow> may_start n (tlv_tag t)"
proof (induction n arbitrary: want t)
  case (GNode an cs)
  let ?n = "GNode an cs"
  have tf: "tag_fits ?n" using GNode.prems(2) by (simp add: clear_cut_node [of ?n])
  have wrapped: "may_start ?n (tlv_tag t)"
    if "wrap_built ?n (Some inner) = Ret (Some t)" "\<not> is_explicit ?n \<longrightarrow> may_start ?n (tlv_tag inner)" for inner
    using that(1) tf
  proof (cases rule: wrap_built_Ret)
    case (explicit cls len)
    then show ?thesis using maxulong_big by (simp add: may_start_node [of ?n])
  qed (use that in simp)
  have equal: "may_start ?n (anode_calc_tag ?n)" if "\<not> open_type (anode_def_type ?n)"
    using that by (simp add: may_start_node [of ?n] open_type_def)
  show ?case using GNode.prems(1)
  proof (cases rule: build_cases)
    case (leaf v inner)
    let ?e = "leaf_encoding ?n v"
    obtain cls tag len where i:
      "inner = Atlv cls tag (int (header_size cls tag len)) len (Some v) None [] None ?e"
      "len = gint_of_size (length v) + (if prefix_for_bit_string ?e \<or> prefix_with_zero_byte ?e then 1 else 0)"
      "cls_ok cls" "cls AND ASN1_CLASS_STRUCTURED \<noteq> 0 \<longleftrightarrow> is_struct ?n" "tag < 2 ^ 32"
      "\<not> is_explicit ?n \<longrightarrow> tag = anode_calc_tag ?n"
      by (rule cls_tag_len_Ret [OF leaf(4) tf disjI1 [OF leaf(1)]])
    show ?thesis
      by (rule wrapped [OF leaf(5)]) (use i(1,6) equal kinds(1) [OF leaf(1)] in simp)
  next
    case any
    have f: "any_fits ?n t" by (rule complete_any [OF GNode.prems(3)]) (use any in simp_all)
    have "anode_calc_tag ?n = G_MAXULONG" if "FLAG_TAG \<notin> set (anode_def_flags ?n)"
      using not_tagged [OF that] any(1) by simp
    then show ?thesis
      using any(1) f by (auto simp: may_start_node [of ?n] any_fits_def)
  next
    case (struct ts inner)
    obtain len where l: "\<forall>t \<in> set ts. tlv_off t + tlv_len t < 2 ^ 31" "len = (\<Sum>c \<leftarrow> ts. tlv_off c + tlv_len c)"
      "anode_build_cls_tag_len ?n None ts
         (no_encoding\<lparr>sorted_set := anode_def_type ?n = EGG_ASN1X_SET_OF\<rparr>) len = Ret inner"
      by (rule built_structured_Ret [OF struct(3)])
    let ?e = "no_encoding\<lparr>sorted_set := anode_def_type ?n = EGG_ASN1X_SET_OF\<rparr>"
    obtain cls tag len' where i:
      "inner = Atlv cls tag (int (header_size cls tag len')) len' None None ts None ?e"
      "len' = len + (if prefix_for_bit_string ?e \<or> prefix_with_zero_byte ?e then 1 else 0)"
      "cls_ok cls" "cls AND ASN1_CLASS_STRUCTURED \<noteq> 0 \<longleftrightarrow> is_struct ?n" "tag < 2 ^ 32"
      "\<not> is_explicit ?n \<longrightarrow> tag = anode_calc_tag ?n"
      by (rule cls_tag_len_Ret [OF l(3) tf disjI2 [OF struct(1)]])
    show ?thesis
      by (rule wrapped [OF struct(4)]) (use i(1,6) equal kinds(2) [OF struct(1)] in simp)
  next
    case (choice inner)
    let ?c = "cs ! chosen_index cs"
    have c: "?c \<in> set cs" using choice(2) by simp
    then have "clear_cut ?c" by (intro complete_clear_child [OF GNode.prems(2)]) simp
    moreover have "complete want ?c" using complete_chosen [OF GNode.prems(3) choice(1)] choice(2) by simp
    ultimately have "may_start ?c (tlv_tag inner)" using GNode.IH [OF c, of want inner] choice(3) by simp
    then show ?thesis
      using c choice(1) open_untagged [OF tf]
      by (intro wrapped [OF choice(4)]) (auto simp: may_start_node [of ?n] open_type_def)
  qed
qed

section \<open>Decoding what was built\<close>

lemma parsed_sel [simp]:
  "tlv_cls (parsed t) = tlv_cls t" "tlv_tag (parsed t) = tlv_tag t" "tlv_children (parsed t) = map parsed (tlv_children t)"
  "tlv_value (parsed t) = map_option (written (tlv_encoding t)) (tlv_value t)"
  by (cases t; simp)+

definition decode_body :: "GNode \<Rightarrow> Atlv \<Rightarrow> (bool \<times> GNode) outcome" where
  "decode_body n t =
     (if tlv_cls t AND ASN1_CLASS_STRUCTURED \<noteq> 0 then anode_decode_structured n t else anode_decode_primitive n t)"

lemma decode_without_tag:
  assumes "\<not> fst (anode_calc_explicit_for_flags n fs)" and "decode_body n t = Ret (True, n')"
  shows "anode_decode_one_without_tag n t fs = Ret (True, upd_data (\<lambda>an. an\<lparr>an_parsed := Some t\<rparr>) n')"
  using assms by (simp add: decode_body_def)

declare anode_decode_one_without_tag.simps [simp del]

lemma decode_wrapped:
  assumes "wrap_built n (Some inner) = Ret (Some t)" and "tag_fits n" and "same_def n0 n"
    and "\<not> is_explicit n \<longrightarrow> tlv_tag inner = anode_calc_tag n \<or> anode_calc_tag n = G_MAXULONG"
    and "decode_body n0 (parsed inner) = Ret (True, n')"
  shows "anode_decode_one n0 (parsed t) = Ret (True, upd_data (\<lambda>an. an\<lparr>an_parsed := Some (parsed t)\<rparr>) n')"
  using assms(1,2)
proof (cases rule: wrap_built_Ret)
  case implicit
  have "\<not> fst (anode_calc_explicit_for_flags n0 (anode_def_flags n0))"
    using implicit(1) by (simp add: same_def_eqs [OF assms(3)] is_explicit_def)
  then have "anode_decode_one_without_tag n0 (parsed t) (anode_def_flags n0) =
      Ret (True, upd_data (\<lambda>an. an\<lparr>an_parsed := Some (parsed t)\<rparr>) n')"
    using assms(5) implicit(2) by (intro decode_without_tag) simp_all
  moreover have "expected_tag n0 (anode_def_flags n0) (parsed t) = tlv_tag t"
    using assms(4) implicit by (auto simp: same_def_eqs [OF assms(3)] expected_tag_def Let_def anode_calc_tag_def)
  ultimately show ?thesis by (simp add: Let_def)
next
  case (explicit cls len)
  have e: "fst (anode_calc_explicit_for_flags n0 (anode_def_flags n0))"
    using explicit(1) by (simp add: same_def_eqs [OF assms(3)] is_explicit_def)
  have "anode_decode_one_without_tag n0 (parsed inner) (without_tag (anode_def_flags n0)) =
      Ret (True, upd_data (\<lambda>an. an\<lparr>an_parsed := Some (parsed inner)\<rparr>) n')"
    using assms(5) by (intro decode_without_tag) simp_all
  then have "anode_decode_one_without_tag n0 (parsed t) (anode_def_flags n0) =
      Ret (True, upd_data (\<lambda>an. an\<lparr>an_parsed := Some (parsed t)\<rparr>) n')"
    using e explicit(3,6) by (simp add: anode_decode_one_without_tag.simps [of n0 _ "anode_def_flags n0"] upd_data_def)
  moreover have "expected_tag n0 (anode_def_flags n0) (parsed t) = tlv_tag t"
    using explicit(3) maxulong_big [OF explicit(7)]
    by (simp add: same_def_eqs [OF assms(3)] expected_tag_def Let_def anode_calc_tag_def)
  ultimately show ?thesis by (simp add: Let_def)
qed

subsection \<open>Content\<close>

lemma content_node:
  "anode_def_type n = EGG_ASN1X_ANY \<Longrightarrow> content n = map_option (\<lambda>t. Raw (der t)) (an_parsed (node_data n))"
  "anode_def_type n = EGG_ASN1X_CHOICE \<Longrightarrow>
     content n = (if chosen_index (node_children n) < length (node_children n)
       then map_option (Alternative (chosen_index (node_children n)))
              (content (node_children n ! chosen_index (node_children n))) else None)"
  "is_list_type (anode_def_type n) \<Longrightarrow>
     content n = (if \<forall>c \<in> set (node_children n). content c = None then None
       else Some (Parts (map content (node_children n))))"
  "is_of_type (anode_def_type n) \<Longrightarrow>
     content n = (if \<forall>c \<in> set (node_children n). content c = None then None
       else Some (Elements (somes (map content (node_children n)))))"
  "is_leaf n \<Longrightarrow> content n = map_option (leaf_content n) (an_value (node_data n))"
  by (cases n; auto simp: content.simps Let_def type_groups chosen_index_def is_leaf_def)+

lemma content_kinds:
  "is_leaf n \<or> is_struct n \<or> anode_def_type n = EGG_ASN1X_ANY \<or> anode_def_type n = EGG_ASN1X_CHOICE \<or>
     (content n = map_option (leaf_content n) (an_value (node_data n)) \<and> \<not> is_struct n \<and> \<not> is_leaf n)"
  by (cases n) (auto simp: content.simps Let_def is_struct_def)

lemma have_node:
  "egg_asn1x_have n \<longleftrightarrow>
     an_value (node_data n) \<noteq> None \<or> an_parsed (node_data n) \<noteq> None \<or> (\<exists>c \<in> set (node_children n). egg_asn1x_have c)"
  by (cases n) simp

declare egg_asn1x_have.simps [simp del]

lemma content_blank: "\<not> egg_asn1x_have n \<Longrightarrow> content n = None"
proof (induction n)
  case (GNode an cs)
  then have "an_value an = None" "an_parsed an = None" "\<forall>c \<in> set cs. content c = None"
    by (auto simp: have_node [of "GNode an cs"])
  then show ?case by (auto simp: content.simps Let_def)
qed

lemma content_absent: "\<not> present want n \<Longrightarrow> content n = None"
proof (induction n arbitrary: want)
  case (GNode an cs)
  show ?case
  proof (cases "is_struct (GNode an cs)")
    case True
    let ?w = "want \<and> \<not> is_of_type (anode_def_type (GNode an cs))"
    have "\<forall>c \<in> set cs. \<not> present ?w c"
      using GNode.prems True kinds(2) [OF True] by (auto simp: present.simps Let_def is_struct_def open_type_def)
    then have "\<forall>c \<in> set cs. content c = None" using GNode.IH by blast
    then show ?thesis using True by (auto simp: content_node(3,4) is_struct_def)
  next
    case False
    then show ?thesis
      using GNode.prems GNode.IH
      by (auto simp: present.simps content.simps Let_def is_struct_def split: if_splits)
  qed
qed

lemma content_upd_data:
  assumes "\<And>an. an_def (f an) = an_def an \<and> an_join (f an) = an_join an \<and> an_opts (f an) = an_opts an \<and>
      an_value (f an) = an_value an \<and> an_bits_empty (f an) = an_bits_empty an \<and> an_unsigned (f an) = an_unsigned an"
    and "anode_def_type n = EGG_ASN1X_ANY \<Longrightarrow> an_parsed (f (node_data n)) = an_parsed (node_data n)"
  shows "content (upd_data f n) = content n"
proof -
  have t: "anode_def_type (upd_data f n) = anode_def_type n"
    by (rule same_def_eqs) (simp add: anode_copy_func_def assms(1))
  have l: "leaf_content (upd_data f n) = leaf_content n"
    by (simp add: fun_eq_iff leaf_content_def t assms(1))
  have "content (GNode (f (node_data n)) (node_children n)) = content (GNode (node_data n) (node_children n))"
    using t l assms unfolding content.simps Let_def by (simp add: upd_data_def)
  then show ?thesis by (simp add: upd_data_def)
qed

lemma content_parsed:
  "anode_def_type n \<noteq> EGG_ASN1X_ANY \<Longrightarrow> content (upd_data (\<lambda>an. an\<lparr>an_parsed := p\<rparr>) n) = content n"
  by (rule content_upd_data) simp_all

lemma content_chosen: "content (upd_data (\<lambda>an. an\<lparr>an_chosen := b\<rparr>) n) = content n"
  by (rule content_upd_data) simp_all

lemma have_upd:
  "an_value (f (node_data n)) = an_value (node_data n) \<or> an_value (f (node_data n)) = None \<Longrightarrow>
   an_parsed (f (node_data n)) = an_parsed (node_data n) \<or> an_parsed (f (node_data n)) = None \<Longrightarrow>
   \<not> egg_asn1x_have n \<Longrightarrow> \<not> egg_asn1x_have (upd_data f n)"
  by (auto simp: have_node [of n] have_node [of "upd_data f n"])

lemma have_changes:
  assumes "\<not> egg_asn1x_have n"
  shows "\<not> egg_asn1x_have (anode_clr_value n)" "\<not> egg_asn1x_have (anode_failure msg n)"
  unfolding anode_clr_value_def anode_failure_def by (rule have_upd [OF _ _ assms]; simp)+

lemma der_written: "der (parsed t) = der t"
proof (induction t)
  case (Atlv cls tag off len val dec cs ring enc)
  then show ?case by (cases val) (auto simp: written_def no_encoding_def intro: arg_cong [where f = concat])
qed

lemma parsed_plain_element: "encodable t \<Longrightarrow> plain_element (parsed t)"
proof (induction t)
  case (Atlv cls tag off len val dec cs ring enc)
  then show ?case by (cases val) auto
qed

text \<open>A tree to decode into.\<close>

definition fresh :: "GNode \<Rightarrow> bool" where
  "fresh n \<longleftrightarrow> \<not> egg_asn1x_have n \<and> unmarked n"

definition fits :: "GNode \<Rightarrow> GNode \<Rightarrow> bool" where
  "fits n0 n \<longleftrightarrow> skeleton n0 = skeleton n \<and> shaped n0 \<and> fresh n0"

lemma fresh_children: "fresh n \<Longrightarrow> c \<in> set (node_children n) \<Longrightarrow> fresh c"
  by (cases n) (auto simp: fresh_def egg_asn1x_have.simps)

lemma fresh_clone: "fresh (anode_clone n)"
proof (induction n)
  case (GNode an cs)
  then show ?case
    by (auto simp: fresh_def egg_asn1x_have.simps anode_copy_func_def)
qed

lemma list_all2_map_eq:
  "map f xs = map f ys \<Longrightarrow> \<forall>x \<in> set xs. P x \<Longrightarrow> list_all2 (\<lambda>x y. f x = f y \<and> P x) xs ys"
  by (induction xs arbitrary: ys) (auto simp: Cons_eq_map_conv)

lemma fits_children:
  assumes "fits n0 n" and "shaped n" and "\<not> is_of_type (anode_def_type n)"
  shows "list_all2 fits (node_children n0) (node_children n)"
proof -
  have e: "skeleton n0 = skeleton n" "shaped n0" "fresh n0" using assms(1) by (simp_all add: fits_def)
  have t: "anode_def_type n0 = anode_def_type n" by (rule same_def_eqs(1) [OF skeleton_same_def [OF e(1)]])
  have "map skeleton (node_children m) = node_children (skeleton m)" if "\<not> is_of_type (anode_def_type m)" for m
    using that by (subst skeleton_node) simp
  from this [of n0] this [of n] have "map skeleton (node_children n0) = map skeleton (node_children n)"
    using e(1) t assms(3) by simp
  moreover have "\<forall>c \<in> set (node_children n0). shaped c \<and> fresh c"
    using e(2) fresh_children [OF e(3)] by (subst (asm) shaped_node) blast
  ultimately have "list_all2 (\<lambda>c d. skeleton c = skeleton d \<and> shaped c \<and> fresh c) (node_children n0) (node_children n)"
    by (rule list_all2_map_eq)
  then show ?thesis by (rule list_all2_mono) (simp add: fits_def)
qed

subsection \<open>Fields and elements\<close>

text \<open>What is shown for each node: the element built for it decodes to the same content.\<close>

definition decodes :: "GNode \<Rightarrow> bool" where
  "decodes n \<longleftrightarrow>
     (\<forall>want t n0. anode_build_anything want n = Ret (Some t) \<longrightarrow> complete want n \<longrightarrow> encodable t \<longrightarrow>
        fits n0 n \<longrightarrow>
        (\<exists>n'. anode_decode_one n0 (parsed t) = Ret (True, n') \<and> content n' = content n))"

lemma decodesD:
  assumes "decodes n" and "anode_build_anything want n = Ret (Some t)" and "complete want n" and "encodable t"
    and "fits n0 n"
  obtains n' where "anode_decode_one n0 (parsed t) = Ret (True, n')" "content n' = content n"
  using assms unfolding decodes_def by blast

declare anode_decode_one.simps [simp del]

lemma fits_same_def: "fits n0 n \<Longrightarrow> same_def n0 n"
  unfolding fits_def by (elim conjE) (rule skeleton_same_def)

lemma skippable_same:
  assumes "same_def n0 n"
  shows "skippable n0 = skippable n"
  unfolding skippable_def same_def_eqs(2) [OF assms] ..

lemma option_or_default_skips:
  "skippable n \<Longrightarrow> anode_decode_option_or_default n = (True, anode_clr_value n)"
  by (simp add: skippable_def anode_decode_option_or_default_def)

lemma decode_missing_skips:
  assumes "\<forall>c \<in> set cs. skippable c \<and> \<not> egg_asn1x_have c"
  shows "\<exists>cs'. decode_missing cs = (True, cs') \<and> map content cs' = map (\<lambda>c. None) cs"
  using assms
proof (induction cs)
  case (Cons c cs)
  then show ?case by (auto simp: option_or_default_skips content_blank have_changes)
qed simp

lemma build_children_Cons:
  "build_children want (c # cs) = Ret ts \<longleftrightarrow>
     (\<exists>r us. anode_build_anything want c = Ret r \<and> build_children want cs = Ret us \<and>
        ts = (case r of None \<Rightarrow> us | Some t \<Rightarrow> t # us))"
  by (auto simp: obind_Ret_iff)

lemma first_follower:
  assumes "build_children want cs = Ret (t # ts)" and "\<forall>c \<in> set cs. \<not> present want c \<longrightarrow> skippable c"
  shows "\<exists>d \<in> set (followers cs). d \<in> set cs \<and> anode_build_anything want d = Ret (Some t) \<and> present want d"
  using assms
proof (induction cs)
  case (Cons c cs)
  then obtain r us where r: "anode_build_anything want c = Ret r" "build_children want cs = Ret us"
    "t # ts = (case r of None \<Rightarrow> us | Some t \<Rightarrow> t # us)"
    unfolding build_children_Cons by blast
  show ?case
  proof (cases r)
    case None
    then have "skippable c" using build_present [OF r(1)] Cons.prems(2) by simp
    then show ?thesis using Cons.IH r None Cons.prems(2) by auto
  next
    case (Some u)
    then show ?thesis using r build_present [OF r(1)] by simp
  qed
qed simp

lemma decode_one_matches:
  assumes "anode_decode_one n t = Ret (True, n')"
  shows "expected_tag n (anode_def_flags n) t = tlv_tag t"
    "anode_decode_one_without_tag n t (anode_def_flags n) = Ret (True, n')"
  using assms by (auto simp: anode_decode_one.simps Let_def fail_node_def split: if_splits)

lemma siblings_decode:
  assumes "build_children want cs = Ret ts" and "\<forall>t \<in> set ts. encodable t" and "list_all2 fits cs0 cs"
    and "\<forall>c \<in> set cs. decodes c \<and> clear_cut c \<and> (if present want c then complete want c else skippable c)"
    and "told_apart cs"
  shows "\<exists>cs'. decode_siblings cs0 (map parsed ts) = Ret (True, cs') \<and> map content cs' = map content cs"
  using assms
proof (induction cs arbitrary: cs0 ts)
  case Nil
  then show ?case by auto
next
  case (Cons c cs)
  obtain c0 ds where c0: "cs0 = c0 # ds" "fits c0 c" "list_all2 fits ds cs"
    using Cons.prems(3) by (auto simp: list_all2_Cons2)
  obtain r us where r: "anode_build_anything want c = Ret r" "build_children want cs = Ret us"
    "ts = (case r of None \<Rightarrow> us | Some t \<Rightarrow> t # us)"
    using Cons.prems(1) unfolding build_children_Cons by blast
  have "\<forall>t \<in> set us. encodable t" using Cons.prems(2) r(3) by (auto split: option.splits)
  then obtain ds' where ds': "decode_siblings ds (map parsed us) = Ret (True, ds')" "map content ds' = map content cs"
    using Cons.IH [OF r(2) _ c0(3)] Cons.prems(4,5) by auto
  note sd = fits_same_def [OF c0(2)]
  show ?case
  proof (cases r)
    case None
    then have ab: "\<not> present want c" "skippable c" using build_present [OF r(1)] Cons.prems(4) by auto
    have blank: "\<not> egg_asn1x_have c0" using c0(2) by (simp add: fits_def fresh_def)
    have skip: "anode_decode_option_or_default c0 = (True, anode_clr_value c0)"
      using option_or_default_skips skippable_same [OF sd] ab(2) by blast
    have cc: "content (anode_clr_value c0) = content c"
      using content_absent [OF ab(1)] content_blank have_changes(1) [OF blank] by simp
    show ?thesis
    proof (cases us)
      case Nil
      then have "decode_missing ds = (True, ds')"
        using ds'(1) by (cases ds) auto
      then show ?thesis using c0(1) None r(3) Nil skip cc ds'(2) by simp
    next
      case (Cons u vs)
      have "\<forall>c \<in> set cs. \<not> present want c \<longrightarrow> skippable c" using Cons.prems(4) by auto
      then obtain d where d: "d \<in> set (followers cs)" "d \<in> set cs" "anode_build_anything want d = Ret (Some u)"
        "present want d"
        using first_follower r(2) Cons by blast
      have "clear_cut d" "complete want d" using Cons.prems(4) d(2,4) by auto
      then have "may_start d (tlv_tag u)" using build_starts [OF d(3)] by blast
      moreover have "anode_calc_tag c \<noteq> G_MAXULONG" "\<not> may_start d (anode_calc_tag c)"
        using Cons.prems(5) ab(2) d(1,2) by auto
      ultimately have "expected_tag c0 (anode_def_flags c0) (parsed u) \<noteq> tlv_tag (parsed u)"
        by (auto simp: same_def_eqs [OF sd] expected_tag_def Let_def anode_calc_tag_def)
      moreover have "ds \<noteq> []" using c0(3) d(2) by auto
      ultimately show ?thesis using c0(1) None r(3) Cons skip cc ds' by (simp add: Let_def)
    qed
  next
    case (Some t)
    have "complete want c" "decodes c" using Cons.prems(4) build_present [OF r(1)] Some by auto
    moreover have "encodable t" using Cons.prems(2) r(3) Some by simp
    ultimately obtain c' where c': "anode_decode_one c0 (parsed t) = Ret (True, c')" "content c' = content c"
      using decodesD [of c want t c0] r(1) Some c0(2) by metis
    note m = decode_one_matches [OF c'(1)]
    have "\<not> (ds = [] \<and> map parsed us \<noteq> [])"
      using c0(3) r(2) by auto
    then show ?thesis using c0(1) r(3) Some m c'(2) ds' by (auto simp: Let_def)
  qed
qed

lemma built_pairs:
  assumes "build_children want cs = Ret ts"
  shows "list_all2 (\<lambda>c t. anode_build_anything want c = Ret (Some t)) (filter (present want) cs) ts"
  using assms
proof (induction cs arbitrary: ts)
  case (Cons c cs)
  then obtain r us where r: "anode_build_anything want c = Ret r" "build_children want cs = Ret us"
    "ts = (case r of None \<Rightarrow> us | Some t \<Rightarrow> t # us)"
    unfolding build_children_Cons by blast
  then show ?case using Cons.IH [OF r(2)] build_present [OF r(1)] by (cases r) auto
qed simp

lemma elements_decode:
  assumes "list_all2 (\<lambda>c t. anode_build_anything False c = Ret (Some t) \<and> encodable t) cs ts"
    and "\<forall>c \<in> set cs. decodes c \<and> clear_cut c \<and> complete False c \<and> skeleton c = skeleton child"
    and "shaped child" and "tag = anode_calc_tag child"
  shows "\<exists>added. decode_elements child tag (map parsed ts) = Ret (True, False, added) \<and>
    map content added = map content cs"
  using assms(1,2)
proof (induction cs ts rule: list_all2_induct)
  case (Cons c cs t ts)
  have "fits (anode_clone child) c"
    using Cons.prems assms(3) fresh_clone by (simp add: fits_def)
  moreover have "decodes c" "complete False c" "anode_build_anything False c = Ret (Some t)" "encodable t"
    using Cons.prems Cons.hyps(1) by simp_all
  ultimately obtain c' where c': "anode_decode_one (anode_clone child) (parsed t) = Ret (True, c')" "content c' = content c"
    using decodesD by blast
  have "skeleton c = skeleton child" using Cons.prems by simp
  then have "anode_calc_tag c = tag" using same_def_eqs(8) [OF skeleton_same_def] assms(4) by blast
  moreover have "may_start c (tlv_tag t)" using build_starts [of False c t] Cons.hyps(1) Cons.prems by simp
  ultimately have "tag = G_MAXULONG \<or> tlv_tag (parsed t) = tag"
    by (auto simp: may_start_node [of c] split: if_splits)
  moreover obtain added where "decode_elements child tag (map parsed ts) = Ret (True, False, added)"
    "map content added = map content cs" using Cons by auto
  ultimately show ?case using c' by auto
qed simp

lemma somes_append [simp]: "somes (xs @ ys) = somes xs @ somes ys"
  by (induction xs rule: somes.induct) auto

lemma somes_none: "\<forall>x \<in> set xs. x = None \<Longrightarrow> somes xs = []"
  by (induction xs rule: somes.induct) auto

lemma somes_filter: "(\<And>x. x \<in> set xs \<Longrightarrow> \<not> P x \<Longrightarrow> f x = None) \<Longrightarrow> somes (map f (filter P xs)) = somes (map f xs)"
  by (induction xs) (auto, metis somes.simps(2,3) option.exhaust)

lemma somes_Nil: "somes xs = [] \<longleftrightarrow> (\<forall>x \<in> set xs. x = None)"
  by (induction xs rule: somes.induct) auto

lemma content_of_somes:
  "is_of_type (anode_def_type n) \<Longrightarrow>
     content n = (if somes (map content (node_children n)) = [] then None
       else Some (Elements (somes (map content (node_children n)))))"
  by (auto simp: content_node(4) somes_Nil)

subsection \<open>Alternatives\<close>

lemma choices_none:
  assumes "\<forall>c \<in> set cs. expected_tag c (anode_def_flags c) t \<noteq> tlv_tag t"
  shows "decode_choices cs t = Ret (False,
    map (\<lambda>c. upd_data (\<lambda>an. an\<lparr>an_chosen := False\<rparr>) (anode_failure ''decoded tag did not match expected'' c)) cs)"
  using assms by (induction cs) (simp_all add: anode_decode_one.simps Let_def fail_node_def)

lemma choices_one:
  assumes "\<forall>c \<in> set (pre @ post). expected_tag c (anode_def_flags c) t \<noteq> tlv_tag t"
    and "anode_decode_one c t = Ret (True, c')"
  shows "decode_choices (pre @ c # post) t = Ret (True,
    map (\<lambda>c. upd_data (\<lambda>an. an\<lparr>an_chosen := False\<rparr>) (anode_failure ''decoded tag did not match expected'' c)) pre @
    upd_data (\<lambda>an. an\<lparr>an_chosen := True\<rparr>) c' #
    map (\<lambda>c. upd_data (\<lambda>an. an\<lparr>an_chosen := False\<rparr>) (anode_failure ''decoded tag did not match expected'' c)) post)"
  using assms
proof (induction pre)
  case Nil
  then show ?case using choices_none [of post t] by simp
qed (simp add: anode_decode_one.simps Let_def fail_node_def)

lemma chosen_index_at:
  assumes "\<forall>c \<in> set pre. \<not> an_chosen (node_data c)" and "an_chosen (node_data c)"
  shows "chosen_index (pre @ c # post) = length pre"
  using assms by (simp add: chosen_index_def takeWhile_append_stop)

subsection \<open>All nodes\<close>

text \<open>The element around an explicit one leaves what is inside to be decoded.\<close>

lemma wrapped_inner:
  assumes "wrap_built n (Some inner) = Ret (Some t)" and "tag_fits n" and "encodable t"
  shows "encodable inner"
  using assms(1,2)
proof (cases rule: wrap_built_Ret)
  case (explicit cls len)
  then show ?thesis using assms(3) by simp
qed (use assms in simp)

lemma decoded_wrapped:
  assumes "wrap_built n (Some inner) = Ret (Some t)" and "tag_fits n" and "fits n0 n"
    and "\<not> is_explicit n \<longrightarrow> tlv_tag inner = anode_calc_tag n \<or> anode_calc_tag n = G_MAXULONG"
    and "decode_body n0 (parsed inner) = Ret (True, n')" and "content n' = content n"
    and "anode_def_type n' \<noteq> EGG_ASN1X_ANY"
  shows "\<exists>n'. anode_decode_one n0 (parsed t) = Ret (True, n') \<and> content n' = content n"
  using decode_wrapped [OF assms(1,2) fits_same_def [OF assms(3)] assms(4,5)] content_parsed [OF assms(7)] assms(6)
  by auto

lemma clear_bits_idem: "clear_bits e (clear_bits e v) = clear_bits e v"
proof (cases "v = []")
  case False
  have "NOT m AND (NOT m AND b) = NOT m AND b" for m b :: byte by (simp add: and.left_idem)
  with False show ?thesis
    by (simp add: clear_bits_def last_list_update and.assoc)
qed (simp add: clear_bits_def)

lemma clear_bits_last:
  assumes "v \<noteq> []" and "e < 8"
  shows "last (clear_bits e v) AND drop_bit (8 - e) 0xFF = 0"
proof (cases "e = 0")
  case True
  then show ?thesis by (simp add: clear_bits_def)
next
  case False
  then show ?thesis using assms by (simp add: clear_bits_def last_list_update and.assoc)
qed

lemma bit_string_decodes:
  assumes "tlv_value t = Some (of_nat e # clear_bits e v)" and "e < 8"
  shows "anode_decode_bit_string n t =
    Ret (True, upd_data (\<lambda>an. an\<lparr>an_bits_empty := e\<rparr>) (anode_take_value (Some (clear_bits e v)) n))"
proof -
  have e: "unat (of_nat e :: byte) = e" using assms(2) by (intro unat_low_byte) simp
  then have "\<not> (of_nat e :: byte) \<ge> 8" using assms(2) by (simp add: word_le_nat_alt)
  moreover have "clear_bits e v = [] \<longleftrightarrow> v = []" by (simp add: clear_bits_def)
  moreover have "last (of_nat e # clear_bits e v) AND drop_bit (8 - e) 0xFF = 0" if "v \<noteq> []"
    using clear_bits_last [OF that assms(2)] \<open>clear_bits e v = [] \<longleftrightarrow> v = []\<close> that by simp
  ultimately show ?thesis
    using assms(1) e by (auto simp: anode_decode_bit_string_def Let_def)
qed

lemma leaf_decodes:
  assumes "is_leaf n" and "an_value (node_data n) = Some v" and "complete want n" and "fits n0 n"
    and "anode_def_type n = EGG_ASN1X_INTEGER \<and> an_unsigned (node_data n) \<longrightarrow> v \<noteq> []"
    and "tlv_cls t AND ASN1_CLASS_STRUCTURED = 0" and "tlv_children t = []"
    and "tlv_value t = Some (written (leaf_encoding n v) v)"
  shows "\<exists>n'. decode_body n0 t = Ret (True, n') \<and> content n' = content n \<and> anode_def_type n' \<noteq> EGG_ASN1X_ANY"
proof -
  note sd = fits_same_def [OF assms(4)]
  have ty: "anode_def_type n0 = anode_def_type n" by (rule same_def_eqs(1) [OF sd])
  have body: "decode_body n0 t =
      (if anode_def_type n = EGG_ASN1X_BIT_STRING then anode_decode_bit_string n0 t
       else Ret (True, anode_take_value (tlv_value t) n0))"
    using assms(1,6,7) ty by (auto simp: decode_body_def Let_def is_leaf_def)
  have um: "\<not> an_unsigned (node_data n0)" using assms(4) by (cases n0) (simp add: fits_def fresh_def)
  have cn: "content n = Some (leaf_content n v)" using content_node(5) [OF assms(1)] assms(2) by simp
  have na: "anode_def_type n \<noteq> EGG_ASN1X_ANY" using kinds(1) [OF assms(1)] by (simp add: open_type_def)
  show ?thesis
  proof (cases "anode_def_type n = EGG_ASN1X_BIT_STRING")
    case True
    let ?e = "an_bits_empty (node_data n)"
    let ?m = "upd_data (\<lambda>an. an\<lparr>an_bits_empty := ?e\<rparr>) (anode_take_value (Some (clear_bits ?e v)) n0)"
    have "tlv_value t = Some (of_nat ?e # clear_bits ?e v)"
      using assms(8) True by (simp add: written_def leaf_encoding_def)
    then have "decode_body n0 t = Ret (True, ?m)"
      using body True bit_string_decodes [of t ?e v n0] complete_leaf(2) [OF assms(3,1)] by simp
    moreover have m: "anode_def_type ?m = anode_def_type n"
      unfolding ty [symmetric] by (rule same_def_eqs) (simp add: anode_take_value_def anode_copy_func_def)
    moreover have "content ?m = content n"
      using True m clear_bits_idem
      by (subst content_node(5)) (auto simp: is_leaf_def cn leaf_content_def anode_take_value_def)
    ultimately show ?thesis using na by auto
  next
    case False
    let ?m = "anode_take_value (Some (written (leaf_encoding n v) v)) n0"
    have m: "anode_def_type ?m = anode_def_type n"
      unfolding ty [symmetric] by (rule same_def_eqs) (simp add: anode_take_value_def anode_copy_func_def)
    have "content ?m = Some (leaf_content ?m (written (leaf_encoding n v) v))"
      using m assms(1) by (subst content_node(5)) (auto simp: is_leaf_def anode_take_value_def)
    also have "\<dots> = content n"
      using False m um assms(5)
      by (auto simp: cn leaf_content_def written_def leaf_encoding_def no_encoding_def anode_take_value_def
          hd_conv_nth)
    finally show ?thesis using body False m na assms(8) by auto
  qed
qed

text \<open>The fields of a SET have ascending tags, those that are present too.\<close>

lemma ascending_sorted: "ascending ts \<longleftrightarrow> sorted ts"
  by (induction ts rule: ascending.induct) (auto simp: not_less intro: order_trans)

lemma set_tags:
  assumes "build_children want cs = Ret ts"
    and "\<forall>c \<in> set cs. clear_cut c \<and> (present want c \<longrightarrow> complete want c)"
    and "G_MAXULONG \<notin> set (map anode_calc_tag cs)"
  shows "map tlv_tag ts = map anode_calc_tag (filter (present want) cs)"
proof -
  have "list_all2 (\<lambda>c t. anode_build_anything want c = Ret (Some t)) (filter (present want) cs) ts"
    by (rule built_pairs [OF assms(1)])
  then have "list_all2 (\<lambda>c t. tlv_tag t = anode_calc_tag c) (filter (present want) cs) ts"
  proof (rule list.rel_mono_strong)
    fix c t assume c: "c \<in> set (filter (present want) cs)" "t \<in> set ts" "anode_build_anything want c = Ret (Some t)"
    then have "may_start c (tlv_tag t)" using build_starts [OF c(3)] assms(2) c(1) by simp
    moreover have "anode_calc_tag c \<in> set (map anode_calc_tag cs)" using c(1) by simp
    then have "anode_calc_tag c \<noteq> G_MAXULONG" using assms(3) by metis
    ultimately show "tlv_tag t = anode_calc_tag c" by (simp add: may_start_node [of c])
  qed
  then show ?thesis by (induction rule: list_all2_induct) simp_all
qed

lemma fits_type: "fits n0 n \<Longrightarrow> anode_def_type n0 = anode_def_type n"
  by (rule same_def_eqs(1)) (rule fits_same_def)

lemma struct_body:
  assumes "tlv_cls t AND ASN1_CLASS_STRUCTURED \<noteq> 0"
  shows "is_list_type (anode_def_type n0) \<Longrightarrow> decode_body n0 t = anode_decode_sequence_or_set n0 t"
    "is_of_type (anode_def_type n0) \<Longrightarrow> decode_body n0 t = anode_decode_sequence_or_set_of n0 t"
  using assms by (auto simp: decode_body_def Let_def type_groups)

lemma list_decodes:
  assumes "is_list_type (anode_def_type n)" and "fits n0 n" and "shaped n" and "clear_cut n" and "complete want n"
    and "\<forall>c \<in> set (node_children n). decodes c"
    and "build_children want (node_children n) = Ret ts" and "\<forall>t \<in> set ts. encodable t"
    and "tlv_cls t AND ASN1_CLASS_STRUCTURED \<noteq> 0" and "tlv_children t = map parsed ts"
  shows "\<exists>n'. decode_body n0 t = Ret (True, n') \<and> content n' = content n \<and> anode_def_type n' = anode_def_type n"
proof -
  let ?cs = "node_children n" and ?ds = "node_children n0"
  note ty = fits_type [OF assms(2)]
  have no: "\<not> is_of_type (anode_def_type n)" using assms(1) by (auto simp: type_groups)
  have fields: "if present want c then complete want c else skippable c" if "c \<in> set ?cs" for c
    by (rule complete_field [OF assms(5,1) that])
  have cc: "\<forall>c \<in> set ?cs. clear_cut c" "told_apart ?cs"
    using assms(1,4) by (simp_all add: clear_cut_node [of n])
  have f: "list_all2 fits ?ds ?cs" by (rule fits_children [OF assms(2,3) no])
  have "\<forall>c \<in> set ?cs. decodes c \<and> clear_cut c \<and> (if present want c then complete want c else skippable c)"
    using assms(6) cc(1) fields by blast
  from siblings_decode [OF assms(7,8) f this cc(2)]
  obtain cs' where cs': "decode_siblings ?ds (map parsed ts) = Ret (True, cs')" "map content cs' = map content ?cs"
    by blast
  have "ascending (map tlv_tag (map parsed ts))" if "anode_def_type n = EGG_ASN1X_SET"
  proof -
    have "sorted (map anode_calc_tag ?cs)" "G_MAXULONG \<notin> set (map anode_calc_tag ?cs)"
      using assms(4) that by (simp_all add: clear_cut_node [of n])
    moreover have "\<forall>c \<in> set ?cs. clear_cut c \<and> (present want c \<longrightarrow> complete want c)"
      using cc(1) fields by metis
    ultimately show ?thesis
      using set_tags [OF assms(7)] by (simp add: ascending_sorted sorted_filter comp_def)
  qed
  moreover have "?ds \<noteq> []" using assms(1,2) ty by (simp add: fits_def shaped_node [of n0])
  ultimately have "decode_body n0 t = Ret (True, GNode (node_data n0) cs')"
    using struct_body(1) [OF assms(9), of n0] assms(1,10) ty cs'(1) by auto
  moreover have "anode_def_type (GNode (node_data n0) cs') = anode_def_type n" using ty by simp
  moreover have "content (GNode (node_data n0) cs') = content n"
  proof -
    have "(\<forall>c \<in> set cs'. content c = None) \<longleftrightarrow> (\<forall>v \<in> set (map content cs'). v = None)" by simp
    also have "\<dots> \<longleftrightarrow> (\<forall>c \<in> set ?cs. content c = None)" unfolding cs'(2) by simp
    finally show ?thesis
      using assms(1) ty cs'(2) by (simp add: content_node(3))
  qed
  ultimately show ?thesis by blast
qed

lemma somes_present:
  "somes (map content (filter (present want) cs)) = somes (map content cs)"
  by (rule somes_filter) (rule content_absent)

lemma of_decodes:
  assumes "is_of_type (anode_def_type n)" and "fits n0 n" and "shaped n" and "clear_cut n" and "complete want n"
    and "\<forall>c \<in> set (node_children n). decodes c"
    and "build_children False (node_children n) = Ret ts" and "\<forall>t \<in> set ts. encodable t"
    and "tlv_cls t AND ASN1_CLASS_STRUCTURED \<noteq> 0" and "tlv_children t = map parsed ts"
  shows "\<exists>n'. decode_body n0 t = Ret (True, n') \<and> content n' = content n \<and> anode_def_type n' = anode_def_type n"
proof -
  let ?cs = "node_children n"
  let ?ps = "filter (present False) ?cs"
  note ty = fits_type [OF assms(2)]
  have sk: "skeleton n0 = skeleton n" "shaped n0" "fresh n0" using assms(2) by (simp_all add: fits_def)
  have ne: "?cs \<noteq> []" "node_children n0 \<noteq> []"
    using assms(1,3) sk(2) ty by (simp_all add: shaped_node [of n] shaped_node [of n0])
  then obtain child others where n0: "node_children n0 = child # others" by (cases "node_children n0") auto
  have "take 1 (map skeleton (node_children n0)) = take 1 (map skeleton ?cs)"
    using sk(1) assms(1) ty by (simp add: skeleton_node [of n0] skeleton_node [of n])
  then have "skeleton child = skeleton (hd ?cs)" using ne n0 by (cases ?cs) auto
  moreover have "skeleton c = skeleton (hd ?cs)" if "c \<in> set ?cs" for c
    using assms(3) [unfolded shaped_node [of n]] assms(1) that by blast
  ultimately have all: "skeleton c = skeleton child" if "c \<in> set ?cs" for c using that by metis
  have sc: "shaped child" "fresh child" using sk(2,3) n0 fresh_children by (simp_all add: shaped_node [of n0])
  have blank: "\<forall>c \<in> set (node_children n0). content c = None"
    using fresh_children [OF sk(3)] content_blank by (simp add: fresh_def)
  have ready: "complete False c" if "c \<in> set ?ps" for c
    using complete_child [OF assms(5), of c] assms(1) that by (simp add: is_struct_def)
  have cc: "clear_cut c" if "c \<in> set ?cs" for c using assms(4) that by (simp add: clear_cut_node [of n])
  have pairs: "list_all2 (\<lambda>c t. anode_build_anything False c = Ret (Some t)) ?ps ts"
    by (rule built_pairs [OF assms(7)])
  have same: "content (GNode (node_data n0) cs) = content n" if "somes (map content cs) = somes (map content ?cs)" for cs
    using that assms(1) ty by (simp add: content_of_somes)
  have body: "decode_body n0 t = anode_decode_sequence_or_set_of n0 t"
    using struct_body(2) [OF assms(9), of n0] assms(1) ty by simp
  show ?thesis
  proof (cases ts)
    case Nil
    then have "?ps = []" using pairs by simp
    then have "somes (map content ?cs) = []" using somes_present [of False ?cs] by simp
    then have "content n = None" using assms(1) by (simp add: content_of_somes)
    moreover have "content n0 = None" using blank assms(1) ty by (simp add: content_node(4))
    ultimately show ?thesis using body Nil assms(10) n0 ty by simp
  next
    case (Cons u us)
    then obtain c ps where ps: "?ps = c # ps" "anode_build_anything False c = Ret (Some u)"
      "list_all2 (\<lambda>c t. anode_build_anything False c = Ret (Some t)) ps us"
      using pairs by (auto simp: list_all2_Cons2)
    have "set ?ps = insert c (set ps)" unfolding ps(1) by simp
    then have pc: "c \<in> set ?ps" "set ps \<subseteq> set ?ps" by blast+
    have cs: "set ?ps \<subseteq> set ?cs" by auto
    have "fits child c" using all [of c] subsetD [OF cs pc(1)] sc by (simp add: fits_def)
    moreover have "decodes c" "complete False c" "encodable u" 
      using assms(6,8) subsetD [OF cs pc(1)] ready [OF pc(1)] Cons by simp_all
    ultimately obtain child' where c': "anode_decode_one child (parsed u) = Ret (True, child')" "content child' = content c"
      using decodesD ps(2) by metis
    have "keeps child (anode_decode_one child (parsed u))"
      using decode_keeps(1) [OF sc(1) parsed_plain_element [OF \<open>encodable u\<close>]] .
    then have k: "skeleton child' = skeleton child" "shaped child'" using c'(1) by simp_all
    have "list_all2 (\<lambda>c t. anode_build_anything False c = Ret (Some t) \<and> encodable t) ps us"
      by (rule list.rel_mono_strong [OF ps(3)]) (use assms(8) Cons in auto)
    moreover have "\<forall>c \<in> set ps. decodes c \<and> clear_cut c \<and> complete False c \<and> skeleton c = skeleton child'"
    proof
      fix d assume "d \<in> set ps"
      then have "d \<in> set ?ps" "d \<in> set ?cs" using pc(2) cs by blast+
      then show "decodes d \<and> clear_cut d \<and> complete False d \<and> skeleton d = skeleton child'"
        using assms(6) ready cc all k(1) by simp
    qed
    moreover have "anode_calc_tag child = anode_calc_tag child'"
      by (rule same_def_eqs(8) [OF skeleton_same_def]) (simp add: k(1))
    ultimately obtain added where a: "decode_elements child' (anode_calc_tag child) (map parsed us) = Ret (True, False, added)"
      "map content added = map content ps"
      using elements_decode [of ps us child' "anode_calc_tag child"] k(2) by metis
    let ?m = "GNode (node_data n0) (child' # others @ added)"
    have "decode_body n0 t = Ret (True, ?m)"
      using body n0 assms(10) Cons c'(1) a(1) by (simp add: Let_def)
    moreover have "somes (map content others) = []" using blank n0 by (intro somes_none) auto
    then have "somes (map content (child' # others @ added)) = somes (map content (c # ps))"
      using c'(2) a(2) by (cases "content c") simp_all
    then have "content ?m = content n"
      using somes_present [of False ?cs] ps(1) by (intro same) simp
    ultimately show ?thesis using ty by auto
  qed
qed

lemma choice_body:
  assumes "anode_def_type n0 = EGG_ASN1X_CHOICE" and "plain_element t"
  shows "decode_body n0 t = anode_decode_choice n0 t"
  using assms plain_element_simps(1) [OF assms(2)] by (simp add: decode_body_def Let_def type_groups)

lemma choice_decodes:
  assumes "anode_def_type n = EGG_ASN1X_CHOICE" and "fits n0 n" and "shaped n" and "clear_cut n" and "complete want n"
    and "chosen_index (node_children n) < length (node_children n)"
    and "decodes (node_children n ! chosen_index (node_children n))"
    and "anode_build_anything want (node_children n ! chosen_index (node_children n)) = Ret (Some t)"
    and "encodable t"
  shows "\<exists>n'. decode_body n0 (parsed t) = Ret (True, n') \<and> content n' = content n \<and>
    anode_def_type n' = anode_def_type n"
proof -
  let ?cs = "node_children n" and ?ds = "node_children n0"
  let ?i = "chosen_index ?cs"
  note ty = fits_type [OF assms(2)]
  have f: "list_all2 fits ?ds ?cs" using fits_children [OF assms(2,3)] assms(1) by (simp add: type_groups)
  have len: "length ?ds = length ?cs" by (rule list_all2_lengthD [OF f])
  have fi: "fits (?ds ! j) (?cs ! j)" if "j < length ?cs" for j using f that list_all2_nthD2 by blast
  have "complete want (?cs ! ?i)" by (rule complete_chosen [OF assms(5,1,6)])
  moreover have "clear_cut (?cs ! ?i)" using assms(4,6) by (simp add: clear_cut_node [of n])
  ultimately obtain c' where c': "anode_decode_one (?ds ! ?i) (parsed t) = Ret (True, c')" "content c' = content (?cs ! ?i)"
    "may_start (?cs ! ?i) (tlv_tag t)"
    using decodesD [OF assms(7,8) _ assms(9) fi [OF assms(6)]] build_starts [OF assms(8)] by metis
  have tags: "distinct (map anode_calc_tag ?cs)" "G_MAXULONG \<notin> set (map anode_calc_tag ?cs)"
    using assms(1,4) by (simp_all add: clear_cut_node [of n])
  then have known: "anode_calc_tag (?cs ! j) \<noteq> G_MAXULONG" if "j < length ?cs" for j
    using that by (metis length_map nth_map nth_mem)
  have ti: "tlv_tag t = anode_calc_tag (?cs ! ?i)"
    using c'(3) known [OF assms(6)] by (simp add: may_start_node [of "?cs ! ?i"])
  have other: "expected_tag (?ds ! j) (anode_def_flags (?ds ! j)) (parsed t) \<noteq> tlv_tag (parsed t)"
    if "j < length ?cs" "j \<noteq> ?i" for j
  proof -
    note sd = fits_same_def [OF fi [OF that(1)]]
    have "anode_calc_tag (?cs ! j) \<noteq> anode_calc_tag (?cs ! ?i)"
      using tags(1) that assms(6) by (metis length_map nth_eq_iff_index_eq nth_map)
    then show ?thesis
      using known [OF that(1)] ti unfolding same_def_eqs(10) [OF sd] same_def_eqs(2) [OF sd]
      by (simp add: expected_tag_def Let_def anode_calc_tag_def)
  qed
  let ?pre = "take ?i ?ds" and ?post = "drop (Suc ?i) ?ds"
  have split: "?ds = ?pre @ ?ds ! ?i # ?post" using assms(6) len by (simp add: id_take_nth_drop)
  have "\<forall>c \<in> set (?pre @ ?post). expected_tag c (anode_def_flags c) (parsed t) \<noteq> tlv_tag (parsed t)"
  proof
    fix c assume "c \<in> set (?pre @ ?post)"
    then consider j where "j < ?i" "c = ?ds ! j" | j where "j < length ?ds - Suc ?i" "c = ?ds ! (Suc ?i + j)"
      using assms(6) len by (auto simp: in_set_conv_nth)
    then show "expected_tag c (anode_def_flags c) (parsed t) \<noteq> tlv_tag (parsed t)"
      using other assms(6) len by cases auto
  qed
  note d = choices_one [OF this c'(1), folded split]
  obtain pre' post' where p: "decode_choices ?ds (parsed t) =
      Ret (True, pre' @ upd_data (\<lambda>an. an\<lparr>an_chosen := True\<rparr>) c' # post')"
    "length pre' = ?i" "\<forall>c \<in> set pre'. \<not> an_chosen (node_data c)"
    using d assms(6) len by auto
  let ?es = "pre' @ upd_data (\<lambda>an. an\<lparr>an_chosen := True\<rparr>) c' # post'"
  have ci: "chosen_index ?es = ?i" using chosen_index_at [OF p(3)] p(2) by simp
  have "plain_element (parsed t)" by (rule parsed_plain_element [OF assms(9)])
  then have "decode_body n0 (parsed t) = Ret (True, GNode (node_data n0) ?es)"
    using choice_body [of n0] assms(1) ty p(1) by simp
  moreover have "content (GNode (node_data n0) ?es) = content n"
    using assms(1,6) ty ci p(2) c'(2) by (simp add: content_node(2) content_chosen nth_append)
  ultimately show ?thesis using ty by auto
qed

lemma any_decodes:
  assumes "anode_def_type n = EGG_ASN1X_ANY" and "fits n0 n" and "tag_fits n"
    and "an_parsed (node_data n) = Some t" and "any_fits n t"
  shows "\<exists>n'. anode_decode_one n0 (parsed t) = Ret (True, n') \<and> content n' = content n"
proof -
  note sd = fits_same_def [OF assms(2)]
  note ty = fits_type [OF assms(2)]
  have body: "decode_body n0 (parsed u) = Ret (True, n0)" if "encodable u" for u
    using parsed_plain_element [OF that] plain_element_simps(1) [of "parsed u"] assms(1) ty
    by (simp add: decode_body_def Let_def type_groups)
  let ?m = "upd_data (\<lambda>an. an\<lparr>an_parsed := Some (parsed t)\<rparr>) n0"
  have enc: "encodable t" using assms(5) by (simp add: any_fits_def)
  have "anode_def_type ?m = EGG_ASN1X_ANY"
    using ty assms(1) same_def_eqs(1) [of ?m n0] by (simp add: anode_copy_func_def)
  then have "content ?m = content n"
    using assms(1,4) by (simp add: content_node(1) der_written)
  moreover have "anode_decode_one n0 (parsed t) = Ret (True, ?m)"
  proof (cases "FLAG_TAG \<in> set (anode_def_flags n)")
    case False
    then have "\<not> fst (anode_calc_explicit_for_flags n0 (anode_def_flags n0))" "anode_calc_tag n = G_MAXULONG"
      using not_tagged [OF False] assms(1) unfolding same_def_eqs(2,9) [OF sd] is_explicit_def by simp_all
    then show ?thesis
      using decode_without_tag [OF _ body [OF enc]] unfolding anode_decode_one.simps same_def_eqs(10) [OF sd]
        same_def_eqs(2) [OF sd]
      by (simp add: expected_tag_def Let_def anode_calc_tag_def)
  next
    case True
    have e: "is_explicit n" using open_untagged [OF assms(3)] assms(1) True by (auto simp: open_type_def)
    obtain u where u: "tlv_children t = [u]" "tlv_tag t = anode_calc_tag n" "tlv_cls t AND 0x80 \<noteq> 0"
      using assms(5) True by (auto simp: any_fits_def length_Suc_conv)
    have "encodable u" using enc u(1) by (cases t) (auto split: option.splits)
    then have "anode_decode_one_without_tag n0 (parsed u) (without_tag (anode_def_flags n0)) =
        Ret (True, upd_data (\<lambda>an. an\<lparr>an_parsed := Some (parsed u)\<rparr>) n0)"
      by (intro decode_without_tag body) simp_all
    moreover have "fst (anode_calc_explicit_for_flags n0 (anode_def_flags n0))"
      using e unfolding same_def_eqs(2,9) [OF sd] is_explicit_def .
    ultimately have "anode_decode_one_without_tag n0 (parsed t) (anode_def_flags n0) = Ret (True, ?m)"
      using u by (simp add: anode_decode_one_without_tag.simps [of n0 _ "anode_def_flags n0"] upd_data_def
          ASN1_CLASS_CONTEXT_SPECIFIC_def)
    moreover have "expected_tag n0 (anode_def_flags n0) (parsed t) = tlv_tag t"
      unfolding same_def_eqs(10) [OF sd] same_def_eqs(2) [OF sd]
      using u(2) by (simp add: expected_tag_def Let_def anode_calc_tag_def)
    ultimately show ?thesis by (simp add: anode_decode_one.simps Let_def)
  qed
  ultimately show ?thesis by blast
qed

lemma shaped_child: "shaped n \<Longrightarrow> c \<in> set (node_children n) \<Longrightarrow> shaped c"
  by (simp add: shaped_node [of n])

lemma all_decode: "clear_cut n \<Longrightarrow> shaped n \<Longrightarrow> decodes n"
proof (induction n)
  case (GNode an cs)
  let ?n = "GNode an cs"
  have tf: "tag_fits ?n" using GNode.prems(1) by (simp add: clear_cut_node [of ?n])
  have IH: "decodes c" if "c \<in> set cs" for c
    using GNode.IH [OF that] complete_clear_child [OF GNode.prems(1)] shaped_child [OF GNode.prems(2)] that by simp
  show ?case unfolding decodes_def
  proof (intro allI impI)
    fix want t n0
    assume b: "anode_build_anything want ?n = Ret (Some t)" and co: "complete want ?n" and en: "encodable t"
      and fi: "fits n0 ?n"
    show "\<exists>n'. anode_decode_one n0 (parsed t) = Ret (True, n') \<and> content n' = content ?n"
      using b
    proof (cases rule: build_cases)
      case (leaf v inner)
      let ?e = "leaf_encoding ?n v"
      obtain cls tag len where i:
        "inner = Atlv cls tag (int (header_size cls tag len)) len (Some v) None [] None ?e"
        "len = gint_of_size (length v) + (if prefix_for_bit_string ?e \<or> prefix_with_zero_byte ?e then 1 else 0)"
        "cls_ok cls" "cls AND ASN1_CLASS_STRUCTURED \<noteq> 0 \<longleftrightarrow> is_struct ?n" "tag < 2 ^ 32"
        "\<not> is_explicit ?n \<longrightarrow> tag = anode_calc_tag ?n"
        by (rule cls_tag_len_Ret [OF leaf(4) tf disjI1 [OF leaf(1)]])
      obtain n' where n': "decode_body n0 (parsed inner) = Ret (True, n')" "content n' = content ?n"
        "anode_def_type n' \<noteq> EGG_ASN1X_ANY"
        using leaf_decodes [OF leaf(1,2) co fi leaf(3), of "parsed inner"] i(1,4) kinds(1) [OF leaf(1)] by auto
      show ?thesis
        by (rule decoded_wrapped [OF leaf(5) tf fi _ n']) (use i in simp)
    next
      case any
      show ?thesis by (rule any_decodes [OF any(1) fi tf any(2) complete_any [OF co any]])
    next
      case (struct ts inner)
      let ?e = "no_encoding\<lparr>sorted_set := anode_def_type ?n = EGG_ASN1X_SET_OF\<rparr>"
      obtain len where l: "\<forall>t \<in> set ts. tlv_off t + tlv_len t < 2 ^ 31" "len = (\<Sum>c \<leftarrow> ts. tlv_off c + tlv_len c)"
        "anode_build_cls_tag_len ?n None ts ?e len = Ret inner"
        by (rule built_structured_Ret [OF struct(3)])
      obtain cls tag len' where i:
        "inner = Atlv cls tag (int (header_size cls tag len')) len' None None ts None ?e"
        "len' = len + (if prefix_for_bit_string ?e \<or> prefix_with_zero_byte ?e then 1 else 0)"
        "cls_ok cls" "cls AND ASN1_CLASS_STRUCTURED \<noteq> 0 \<longleftrightarrow> is_struct ?n" "tag < 2 ^ 32"
        "\<not> is_explicit ?n \<longrightarrow> tag = anode_calc_tag ?n"
        by (rule cls_tag_len_Ret [OF l(3) tf disjI2 [OF struct(1)]])
      have "encodable inner" by (rule wrapped_inner [OF struct(4) tf en])
      then have ets: "\<forall>t \<in> set ts. encodable t" using i(1) by simp
      have st: "tlv_cls (parsed inner) AND ASN1_CLASS_STRUCTURED \<noteq> 0" "tlv_children (parsed inner) = map parsed ts"
        using i(1,4) struct(1) by simp_all
      have dec: "\<forall>c \<in> set (node_children ?n). decodes c" using IH by simp
      obtain n' where n': "decode_body n0 (parsed inner) = Ret (True, n')" "content n' = content ?n"
        "anode_def_type n' = anode_def_type ?n"
      proof (cases "is_of_type (anode_def_type ?n)")
        case True
        have "build_children False (node_children ?n) = Ret ts" using struct(2) True by simp
        from of_decodes [OF True fi GNode.prems(2,1) co dec this ets st] show thesis using that by blast
      next
        case False
        have lt: "is_list_type (anode_def_type ?n)" using struct(1) False by (simp add: is_struct_def)
        have "build_children want (node_children ?n) = Ret ts" using struct(2) False by simp
        from list_decodes [OF lt fi GNode.prems(2,1) co dec this ets st] show thesis using that by blast
      qed
      have "anode_def_type n' \<noteq> EGG_ASN1X_ANY" using n'(3) kinds(2) [OF struct(1)] by (simp add: open_type_def)
      then show ?thesis
        by (intro decoded_wrapped [OF struct(4) tf fi _ n'(1,2)]) (use i in simp_all)
    next
      case (choice inner)
      have ei: "encodable inner" by (rule wrapped_inner [OF choice(4) tf en])
      have dc: "decodes (node_children ?n ! chosen_index (node_children ?n))" using IH choice(2) by simp
      obtain n' where n': "decode_body n0 (parsed inner) = Ret (True, n')" "content n' = content ?n"
        "anode_def_type n' = anode_def_type ?n"
        using choice_decodes [OF choice(1) fi GNode.prems(2,1) co choice(2) dc choice(3) ei] by blast
      have "anode_def_type n' \<noteq> EGG_ASN1X_ANY" using n'(3) choice(1) by simp
      moreover have "\<not> is_explicit ?n \<longrightarrow> anode_calc_tag ?n = G_MAXULONG"
        using open_untagged [OF tf] choice(1) by (simp add: open_type_def)
      ultimately show ?thesis by (intro decoded_wrapped [OF choice(4) tf fi _ n'(1,2)]) simp_all
    qed
  qed
qed

section \<open>Encoding and decoding\<close>

lemma sort_short: "length xs \<le> 1 \<Longrightarrow> sort xs = xs"
  by (cases xs) auto

lemma calm_canonical: "calm t \<Longrightarrow> chain_safe t \<and> canonical t = der t"
proof (induction t)
  case (Atlv cls tag off len val dec cs ring enc)
  then have c: "\<forall>c \<in> set cs. chain_safe c \<and> canonical c = der c" by simp
  then have m: "map canonical cs = map der cs" by simp
  have "length cs \<le> 1" if "sorted_set enc" using Atlv.prems that by simp
  then have "last_greatest (map canonical cs) \<and> sort (map canonical cs) = map canonical cs" if "sorted_set enc"
    using that by (simp add: sort_short last_greatest_def)
  then show ?case using c by (cases val) (auto simp: m)
qed

lemma sort_perform_len:
  "atlv_sort_perform alloc t = Ret t' \<Longrightarrow> tlv_off t' = tlv_off t \<and> tlv_len t' = tlv_len t"
  by (cases t) (auto simp: obind_Ret_iff Let_def split: if_splits option.splits)

lemma encode_calm:
  assumes "allocates alloc" and "encodable t" and "calm t"
  shows "encode_tlv alloc t = Ret (Some (der t))"
proof -
  obtain t' where t': "sorts alloc t t'"
    using encodable_sorts [OF assms(1,2)] calm_canonical [OF assms(3)] by blast
  then have "atlv_unparse_to_bytes alloc t' = Ret (Some (der t'))"
    using unparse_to_bytes_der assms(1) by (simp add: sorts_def)
  then show ?thesis using t' calm_canonical [OF assms(3)] by (simp add: sorts_def encode_tlv_def)
qed

lemma encode_tlv_Ret:
  assumes "allocates alloc" and "encode_tlv alloc t = Ret (Some bytes)" and "calm t"
    and "tlv_off t + tlv_len t < 2 ^ 31 \<longrightarrow> encodable t"
  shows "encodable t" "bytes = der t"
proof -
  obtain t' where t': "atlv_sort_perform alloc t = Ret t'" "atlv_unparse_to_bytes alloc t' = Ret (Some bytes)"
    using assms(2) by (auto simp: encode_tlv_def obind_Ret_iff)
  have "tlv_off t' + tlv_len t' < 2 ^ 31"
    using t'(2) by (auto simp: atlv_unparse_to_bytes_def Let_def split: if_splits)
  then show "encodable t" using assms(4) sort_perform_len [OF t'(1)] by simp
  then show "bytes = der t" using encode_calm [OF assms(1) _ assms(3)] assms(2) by simp
qed

lemma clear_fresh:
  "shaped n \<Longrightarrow> unmarked n \<Longrightarrow> \<exists>n'. traverse_and_clear n = (False, n') \<and> fresh n'"
  "\<forall>c \<in> set cs. shaped c \<and> unmarked c \<Longrightarrow>
     \<exists>cs'. clear_children cs = (False, cs') \<and> (\<forall>c \<in> set cs'. fresh c) \<and> length cs' = length cs"
proof (induction n and cs rule: traverse_and_clear_clear_children.induct)
  case (1 an cs)
  then obtain cs' where cs': "clear_children cs = (False, cs')" "\<forall>c \<in> set cs'. fresh c" "length cs' = length cs"
    by (auto simp: shaped_node [of "GNode an cs"])
  have ty: "anode_def_type (anode_clear (GNode an cs')) = anode_def_type (GNode an cs)"
    by (rule same_def_eqs) (simp add: anode_clear_def anode_copy_func_def)
  have ne: "cs' \<noteq> []" if "is_of_type (anode_def_type (GNode an cs))"
    using 1(2) that cs'(3) by (auto simp: shaped_node [of "GNode an cs"])
  have "fresh (GNode (node_data (anode_clear (GNode an cs'))) ds)" if "set ds \<subseteq> set cs'" for ds
    using 1(3) cs'(2) that by (auto simp: fresh_def anode_clear_def egg_asn1x_have.simps)
  moreover have "anode_clear (GNode an cs') = GNode (node_data (anode_clear (GNode an cs'))) cs'"
    by (simp add: anode_clear_def upd_data_def)
  ultimately have "fresh (anode_clear (GNode an cs'))" "cs' \<noteq> [] \<Longrightarrow> fresh (GNode (node_data (anode_clear (GNode an cs'))) [hd cs'])"
    by (metis order_refl, simp)
  then show ?case using cs'(1) ne ty by (auto simp: Let_def)
next
  case (3 c cs)
  obtain c' where c': "traverse_and_clear c = (False, c')" "fresh c'" using 3 by auto
  have "\<exists>cs'. clear_children cs = (False, cs') \<and> (\<forall>c \<in> set cs'. fresh c) \<and> length cs' = length cs"
    by (rule 3(2) [of False c']) (use c' 3(3) in simp_all)
  with c' show ?case by auto
qed simp

text \<open>
  An instance: a SEQUENCE of an optional INTEGER with the explicit tag 0, a BIT STRING of four bits and a
  SEQUENCE OF two OCTET STRINGs, and an empty tree of the same definitions.
\<close>

definition tag_zero :: EggAsn1xDef where
  "tag_zero = \<lparr>def_name = None, def_type = EGG_ASN1X_TAG, def_flags = [FLAG_EXPLICIT], def_value = Some (cstr ''0'')\<rparr>"

definition leaf_node :: "EggAsn1xType \<Rightarrow> flags \<Rightarrow> string \<Rightarrow> byte list option \<Rightarrow> GNode" where
  "leaf_node type fs name v = upd_data (\<lambda>an. an\<lparr>an_value := v\<rparr>) (anode_new (plain_def type fs name))"

definition sample_tree :: "byte list option \<Rightarrow> byte list option \<Rightarrow> nat \<Rightarrow> byte list option list \<Rightarrow> GNode" where
  "sample_tree v bits unused parts =
     GNode (node_data (anode_new (plain_def EGG_ASN1X_SEQUENCE [FLAG_DOWN] ''Sample'')))
       [anode_opt_add tag_zero
          (leaf_node EGG_ASN1X_INTEGER [FLAG_TAG, FLAG_OPTION, FLAG_DOWN, FLAG_RIGHT] ''version'' v),
        upd_data (\<lambda>an. an\<lparr>an_bits_empty := unused\<rparr>) (leaf_node EGG_ASN1X_BIT_STRING [FLAG_RIGHT] ''flags'' bits),
        GNode (node_data (anode_new (plain_def EGG_ASN1X_SEQUENCE_OF [FLAG_DOWN] ''parts'')))
          (map (leaf_node EGG_ASN1X_OCTET_STRING [] ''part'') parts)]"

definition sample_full :: GNode where
  "sample_full = sample_tree (Some [5]) (Some [0xF0]) 4 [Some [1, 2], Some [3]]"

definition sample_empty :: GNode where
  "sample_empty = sample_tree None None 0 [None]"

definition sample_encoding :: Atlv where
  "sample_encoding =
     Atlv 0x20 0x10 2 18 None None
       [Atlv 0xA0 0 2 3 None None [sample_integer 5] None no_encoding,
        Atlv 0 3 2 2 (Some [0xF0]) None [] None (no_encoding\<lparr>bits_empty := 4, prefix_for_bit_string := True\<rparr>),
        Atlv 0x20 0x10 2 7 None None
          [Atlv 0 4 2 2 (Some [1, 2]) None [] None no_encoding, Atlv 0 4 2 1 (Some [3]) None [] None no_encoding]
          None no_encoding]
       None no_encoding"

lemmas sample_defs = sample_tree_def leaf_node_def anode_opt_add_def upd_data_def anode_new_def plain_def_def tag_zero_def

lemma zero_text: "g_ascii_strtoull [48] = (0, [])"
  by (simp add: g_ascii_strtoull_def parse_long_long_def isspace_def g_ascii_isdigit_def Let_def digits_nat_def)

lemmas sample_tree_eval = anode_def_type_def anode_def_flags_def type_groups Let_def anode_calc_tag_def
  anode_calc_tag_for_flags_def anode_calc_explicit_for_flags_def anode_opt_lookup_def differs_def
  anode_def_value_as_ulong_def zero_text tag_class_def G_MAXULONG_def

lemma sample_shaped: "shaped sample_full" "shaped sample_empty" "skeleton sample_empty = skeleton sample_full"
  by (simp_all add: sample_full_def sample_empty_def sample_defs shaped.simps skeleton.simps anode_def_type_def
      type_groups anode_copy_func_def)

lemma sample_unmarked: "unmarked sample_empty"
  by (simp add: sample_empty_def sample_defs)

lemma sample_clear_cut: "clear_cut sample_full"
  by (simp add: sample_full_def sample_defs clear_cut.simps tag_fits_def open_type_def sample_tree_eval skippable_def
      may_start.simps ASN1_CLASS_CONTEXT_SPECIFIC_def)

lemma sample_complete: "complete True sample_full"
  by (simp add: sample_full_def sample_defs complete.simps present.simps skippable_def anode_def_type_def
      anode_def_flags_def type_groups Let_def)

lemma sample_built: "anode_build_anything True sample_full = Ret (Some sample_encoding)"
  by (simp add: sample_full_def sample_defs sample_tree_eval sample_encoding_def sample_integer_def
      anode_build_anything.simps anode_build_integer_def anode_build_bit_string_def anode_build_value_def
      anode_build_cls_tag_len_def base_class_def ASN1_CLASS_UNIVERSAL_def ASN1_CLASS_STRUCTURED_def
      ASN1_CLASS_CONTEXT_SPECIFIC_def without_tag_def wrap_built_def anode_build_maybe_explicit_def
      built_structured_def gint_add_def gint_of_size_def built_header_def no_encoding_def
      low_groups.simps)

lemma sample_valid: "egg_asn1x_validate now True sample_full = Ret (True, sample_full)"
  by (simp add: sample_full_def sample_defs sample_tree_eval egg_asn1x_validate_def validate_leaf_def validate_value_def
      anode_validate_integer_def anode_validate_string_def anode_validate_size_def egg_asn1x_have.simps)

lemma sample_encodable: "encodable sample_encoding" "calm sample_encoding"
  by (simp_all add: sample_encoding_def cls_ok_def ASN1_CLASS_STRUCTURED_def written_def no_encoding_def
      sample_integer_def clear_bits_def)

lemma sample_content:
  "content sample_full =
     Some (Parts [Some (Octets [5]), Some (Bits 4 [0xF0]), Some (Elements [Octets [1, 2], Octets [3]])])"
  by (simp add: sample_full_def sample_defs sample_tree_eval content.simps leaf_content_def clear_bits_def)

text \<open>
  C24. Round trip of a tree. When \<^verbatim>\<open>egg_asn1x_encode\<close>, with memory, gives octets for a tree of nodes whose
  definitions can be told apart (\<open>clear_cut\<close>: a field that may be missing has a tag that nothing that can come in
  its place starts with, the alternatives of a CHOICE have tags and these differ, the fields of a SET are in
  the order of their tags, tags are below \<open>2 ^ 32\<close>, tagged CHOICE and ANY are explicit, and explicit tags are
  context specific or private) and that is \<open>complete\<close> (what is not there may be missing, a CHOICE has one alternative chosen, an
  ANY holds an element that can be written, values are shorter than \<open>2 ^ 31\<close> octets, a SET OF has at most one element), and the octets are decoded
  into any well-formed tree of the same definitions without numbers marked as unsigned, then decoding passes:
  it goes on to validate, and answers with the validation of, a tree of the same definitions that says the same
  as the one that was encoded, field by field, alternative by alternative and element by element.
\<close>

theorem egg_asn1x_encode_decode:
  assumes "allocates alloc" and "egg_asn1x_encode now alloc asn = Ret (Some bytes, asn1)"
    and "shaped asn" and "clear_cut asn" and "complete True asn"
    and "skeleton into = skeleton asn" and "shaped into" and "unmarked into"
  shows "\<exists>asn2. egg_asn1x_decode now into (Some bytes) = egg_asn1x_validate now True asn2 \<and>
    content asn2 = content asn \<and> skeleton asn2 = skeleton asn"
proof -
  have "judged asn (egg_asn1x_validate now True asn)"
    unfolding egg_asn1x_validate_def by (rule validate_judges)
  then obtain t where t: "anode_build_anything True asn = Ret (Some t)" "encode_tlv alloc t = Ret (Some bytes)"
    using assms(2) by (auto simp: egg_asn1x_encode_def obind_Ret_iff judged_def split: if_splits option.splits)
  have b: "tlv_off t + tlv_len t < 2 ^ 31 \<longrightarrow> encodable t" "calm t"
    using build_encodable [OF t(1) assms(4,5)] by simp_all
  have en: "encodable t" "bytes = der t" by (rule encode_tlv_Ret [OF assms(1) t(2) b(2,1)])+
  have "fresh (egg_asn1x_clear into)" using clear_fresh(1) [OF assms(7,8)] by (auto simp: egg_asn1x_clear_def)
  then have f: "fits (egg_asn1x_clear into) asn"
    using egg_asn1x_clear_keeps [OF assms(7)] assms(6) by (simp add: fits_def)
  obtain asn2 where a: "anode_decode_one (egg_asn1x_clear into) (parsed t) = Ret (True, asn2)" "content asn2 = content asn"
    by (rule decodesD [OF all_decode [OF assms(4,3)] t(1) assms(5) en(1) f])
  note m = decode_one_matches [OF a(1)]
  have d: "anode_decode_anything [egg_asn1x_clear into] [parsed t] = Ret (True, [asn2])"
    using m by (simp add: anode_decode_anything_def Let_def)
  have "keeps (egg_asn1x_clear into) (anode_decode_one (egg_asn1x_clear into) (parsed t))"
    using f by (intro decode_keeps(1) parsed_plain_element [OF en(1)]) (simp add: fits_def)
  then have "skeleton asn2 = skeleton asn" using a(1) f by (simp add: fits_def)
  moreover have "egg_asn1x_decode now into (Some bytes) = egg_asn1x_validate now True asn2"
    using d parse_der_der [OF en(1)] en(2) by (simp add: egg_asn1x_decode_def egg_asn1x_decode_full_def Let_def)
  ultimately show ?thesis using a(2) by blast
qed

theorem egg_asn1x_encode_decode_witness:
  "\<exists>asn2. egg_asn1x_encode 2000 (\<lambda>n. Ret True) sample_full = Ret (Some (der sample_encoding), sample_full) \<and>
     egg_asn1x_decode 2000 sample_empty (Some (der sample_encoding)) = egg_asn1x_validate 2000 True asn2 \<and>
     content asn2 =
       Some (Parts [Some (Octets [5]), Some (Bits 4 [0xF0]), Some (Elements [Octets [1, 2], Octets [3]])]) \<and>
     skeleton asn2 = skeleton sample_full"
proof -
  have "encode_tlv (\<lambda>n. Ret True) sample_encoding = Ret (Some (der sample_encoding))"
    by (rule encode_calm [OF _ sample_encodable]) simp
  moreover have "anode_def_type_is_real sample_full"
    by (simp add: anode_def_type_is_real_def type_is_real_def sample_full_def sample_defs anode_def_type_def)
  ultimately have "egg_asn1x_encode 2000 (\<lambda>n. Ret True) sample_full = Ret (Some (der sample_encoding), sample_full)"
    by (simp add: egg_asn1x_encode_def sample_valid sample_built)
  from egg_asn1x_encode_decode [OF _ this sample_shaped(1) sample_clear_cut sample_complete sample_shaped(3,2)
      sample_unmarked] this sample_content show ?thesis by simp
qed

end
