(* ===== verification/Egg_Base64.thy ===== *)
theory Egg_Base64
  imports Egg_Prelude
begin

text \<open>
  The interface to the base64 functions of GLib, which \<^verbatim>\<open>src/egg/egg-armor.c\<close> calls: the locale
  \<open>base64_codec\<close> states what the code relies on, and the encoding of RFC 4648 has it.
\<close>

definition newline :: byte where "newline = 10"

section \<open>The contract\<close>

text \<open>
  What the code relies on: the text of base64 has four characters for three octets or a part of them
  and ends in the newline that \<^verbatim>\<open>g_base64_encode_close\<close> adds, with fill characters in the second half
  of a group only; decoding passes over newlines, gives the octets back, and never writes more than
  three octets for four characters.
\<close>

definition base64_alphabet :: "byte list" where
  "base64_alphabet = cstr ''ABCDEFGHIJKLMNOPQRSTUVWXYZabcdefghijklmnopqrstuvwxyz0123456789+/''"

definition base64_text :: "(byte list \<Rightarrow> byte list \<times> 's) \<Rightarrow> ('s \<Rightarrow> byte list) \<Rightarrow> byte list \<Rightarrow> byte list" where
  "base64_text encode_step encode_close data =
     fst (encode_step data) @ encode_close (snd (encode_step data))"

definition base64_line :: "byte list \<Rightarrow> bool" where
  "base64_line t \<longleftrightarrow>
     (\<forall>i < length t. t ! i \<in> set base64_alphabet \<or> t ! i = chr CHR ''='' \<and> 2 \<le> i mod 4)"

locale base64_codec =
  fixes encode_step :: "byte list \<Rightarrow> byte list \<times> 's"
    and encode_close :: "'s \<Rightarrow> byte list"
    and decode :: "byte list \<Rightarrow> byte list"
  assumes encode_shape: "\<exists>t. base64_text encode_step encode_close data = t @ [newline] \<and>
      length t = 4 * ((length data + 2) div 3) \<and> base64_line t"
    and decode_encode: "decode (base64_text encode_step encode_close data) = data"
    and decode_newlines: "decode (filter (\<lambda>c. c \<noteq> newline) s) = decode s"
    and decode_length: "length (decode s) \<le> 3 * length s div 4"

section \<open>The encoding of RFC 4648\<close>

text \<open>Such a pair of functions: the encoding of RFC 4648.\<close>

definition b64_char :: "nat \<Rightarrow> byte" where
  "b64_char n = base64_alphabet ! n"

fun b64_groups :: "byte list \<Rightarrow> byte list" where
  "b64_groups (a # b # c # s) =
     b64_char (unat a div 4) # b64_char (unat a mod 4 * 16 + unat b div 16) #
     b64_char (unat b mod 16 * 4 + unat c div 64) # b64_char (unat c mod 64) # b64_groups s"
| "b64_groups [a, b] =
     [b64_char (unat a div 4), b64_char (unat a mod 4 * 16 + unat b div 16),
      b64_char (unat b mod 16 * 4), chr CHR ''='']"
| "b64_groups [a] =
     [b64_char (unat a div 4), b64_char (unat a mod 4 * 16), chr CHR ''='', chr CHR ''='']"
| "b64_groups [] = []"

definition b64_step :: "byte list \<Rightarrow> byte list \<times> byte list" where
  "b64_step data =
     (let n = 3 * (length data div 3) in (b64_groups (take n data), drop n data))"

definition b64_close :: "byte list \<Rightarrow> byte list" where
  "b64_close rest = b64_groups rest @ [newline]"

text \<open>The value of a character; a fill character counts as 0, and others have none.\<close>

definition b64_rank :: "byte \<Rightarrow> nat option" where
  "b64_rank c = (if c = chr CHR ''='' then Some 0 else memchr base64_alphabet c)"

definition b64_octets :: "byte \<Rightarrow> byte \<Rightarrow> byte \<Rightarrow> byte \<Rightarrow> byte list" where
  "b64_octets a b c d =
     (let r = (\<lambda>x. the (b64_rank x)); v = ((r a * 64 + r b) * 64 + r c) * 64 + r d in
      [of_nat (v div 65536)] @ (if c \<noteq> chr CHR ''='' then [of_nat (v div 256)] else []) @
      (if d \<noteq> chr CHR ''='' then [of_nat v] else []))"

fun b64_decode_groups :: "byte list \<Rightarrow> byte list" where
  "b64_decode_groups (a # b # c # d # s) = b64_octets a b c d @ b64_decode_groups s"
| "b64_decode_groups s = []"

definition b64_decode :: "byte list \<Rightarrow> byte list" where
  "b64_decode s = b64_decode_groups (filter (\<lambda>c. b64_rank c \<noteq> None) s)"

lemma length_base64_alphabet [simp]: "length base64_alphabet = 64"
  by (simp add: base64_alphabet_def)

lemma distinct_base64_alphabet: "distinct base64_alphabet"
  by (simp add: base64_alphabet_def)

lemma base64_alphabet_not:
  "0 \<notin> set base64_alphabet" "newline \<notin> set base64_alphabet" "chr CHR ''='' \<notin> set base64_alphabet"
  "chr CHR ''-'' \<notin> set base64_alphabet" "\<forall>c \<in> set base64_alphabet. \<not> isspace c"
  by (simp_all add: base64_alphabet_def newline_def isspace_def word_le_nat_alt)

lemma b64_char_in: "n < 64 \<Longrightarrow> b64_char n \<in> set base64_alphabet"
  by (simp add: b64_char_def)

lemma b64_rank_char: "n < 64 \<Longrightarrow> b64_rank (b64_char n) = Some n"
  using base64_alphabet_not(3) b64_char_in [of n] distinct_base64_alphabet
  by (auto simp: b64_rank_def b64_char_def memchr_Some_iff in_set_conv_nth nth_eq_iff_index_eq)

lemma b64_char_not_fill: "n < 64 \<Longrightarrow> b64_char n \<noteq> chr CHR ''=''"
  using b64_char_in base64_alphabet_not(3) by metis

lemma six_bits:
  "unat (a :: byte) div 4 < 64" "unat (a :: byte) mod 4 * 16 + unat (b :: byte) div 16 < 64"
  "unat (b :: byte) mod 16 * 4 + unat (c :: byte) div 64 < 64"
  "unat (a :: byte) mod 4 * 16 < 64" "unat (b :: byte) mod 16 * 4 < 64"
proof -
  note u = unat_byte_less [of a] unat_byte_less [of b] unat_byte_less [of c]
  show "unat a div 4 < 64" using u(1) by linarith
  have "unat a mod 4 \<le> 3" "unat b div 16 \<le> 15" "unat b mod 16 \<le> 15" "unat c div 64 \<le> 3" using u by linarith+
  then show "unat a mod 4 * 16 + unat b div 16 < 64" "unat b mod 16 * 4 + unat c div 64 < 64"
    "unat a mod 4 * 16 < 64" "unat b mod 16 * 4 < 64" by linarith+
qed

lemma of_nat_byte: "of_nat (m * 256 + unat b) = (b :: byte)"
proof -
  have "of_nat (256 :: nat) = (0 :: byte)" by simp
  then have "of_nat (m * 256) = (0 :: byte)" by (metis mult_zero_right of_nat_mult)
  then show ?thesis by simp
qed

lemma join_groups:
  "((a div 4 * 64 + (a mod 4 * 16 + b div 16)) * 64 + (b mod 16 * 4 + c div 64)) * 64 + c mod 64 =
    (a * 256 + b) * 256 + (c :: nat)"
proof -
  have "((a1 * 64 + (a2 * 16 + b1)) * 64 + (b2 * 4 + c1)) * 64 + c2 =
      ((4 * a1 + a2) * 256 + (16 * b1 + b2)) * 256 + (64 * c1 + c2)" for a1 a2 b1 b2 c1 c2 :: nat
    by (simp add: algebra_simps)
  note this [of "a div 4" "a mod 4" "b div 16" "b mod 16" "c div 64" "c mod 64"]
  then show ?thesis by (simp only: mult_div_mod_eq)
qed

lemma octets_of_groups:
  fixes a b c :: byte
  defines "v \<equiv> (unat a * 256 + unat b) * 256 + unat c"
  shows "of_nat (v div 65536) = a" "of_nat (v div 256) = b" "of_nat v = c"
proof -
  note u = unat_byte_less [of a] unat_byte_less [of b] unat_byte_less [of c]
  have q: "(q * 256 + n) div 256 = q" if "n < 256" for q n :: nat using that by simp
  have d: "v div 256 = unat a * 256 + unat b" unfolding v_def by (rule q [OF u(3)])
  have "v div 65536 = v div 256 div 256" by (simp add: div_mult2_eq [symmetric])
  also have "\<dots> = unat a" unfolding d by (rule q [OF u(2)])
  finally show "of_nat (v div 65536) = a" by simp
  show "of_nat (v div 256) = b" unfolding d by (rule of_nat_byte)
  show "of_nat v = c" unfolding v_def by (rule of_nat_byte)
qed

lemma b64_octets_3:
  "b64_octets (b64_char (unat a div 4)) (b64_char (unat a mod 4 * 16 + unat b div 16))
     (b64_char (unat b mod 16 * 4 + unat c div 64)) (b64_char (unat c mod 64)) = [a, b, c]"
proof -
  have c: "unat c mod 64 < 64" by simp
  note s = six_bits(1) [of a] six_bits(2) [of a b] six_bits(3) [of b c] c
  show ?thesis
    unfolding b64_octets_def Let_def b64_rank_char [OF s(1)] b64_rank_char [OF s(2)]
      b64_rank_char [OF s(3)] b64_rank_char [OF s(4)] option.sel
      join_groups octets_of_groups
    using b64_char_not_fill [OF s(3)] b64_char_not_fill [OF s(4)] by simp
qed

lemma b64_octets_2:
  "b64_octets (b64_char (unat a div 4)) (b64_char (unat a mod 4 * 16 + unat b div 16))
     (b64_char (unat b mod 16 * 4)) (chr CHR ''='') = [a, b]"
proof -
  note s = six_bits(1) [of a] six_bits(2) [of a b] six_bits(5) [of b]
  have f: "b64_rank (chr CHR ''='') = Some 0" by (simp add: b64_rank_def)
  have j: "((unat a div 4 * 64 + (unat a mod 4 * 16 + unat b div 16)) * 64 + unat b mod 16 * 4) * 64 + 0 =
      (unat a * 256 + unat b) * 256 + unat (0 :: byte)"
    using join_groups [of "unat a" "unat b" 0] by simp
  show ?thesis
    unfolding b64_octets_def Let_def b64_rank_char [OF s(1)] b64_rank_char [OF s(2)]
      b64_rank_char [OF s(3)] f option.sel j octets_of_groups
    using b64_char_not_fill [OF s(3)] by simp
qed

lemma b64_octets_1:
  "b64_octets (b64_char (unat a div 4)) (b64_char (unat a mod 4 * 16)) (chr CHR ''='') (chr CHR ''='') = [a]"
proof -
  note s = six_bits(1) [of a] six_bits(4) [of a]
  have f: "b64_rank (chr CHR ''='') = Some 0" by (simp add: b64_rank_def)
  have j: "((unat a div 4 * 64 + unat a mod 4 * 16) * 64 + 0) * 64 + 0 =
      (unat a * 256 + unat (0 :: byte)) * 256 + unat (0 :: byte)"
    using join_groups [of "unat a" 0 0] by simp
  show ?thesis
    unfolding b64_octets_def Let_def b64_rank_char [OF s(1)] b64_rank_char [OF s(2)] f option.sel j
      octets_of_groups by simp
qed

lemma b64_decode_groups_encoded: "b64_decode_groups (b64_groups d) = d"
  by (induction d rule: b64_groups.induct)
    (simp_all only: b64_groups.simps b64_decode_groups.simps b64_octets_1 b64_octets_2 b64_octets_3
      append.simps)

lemma length_b64_groups: "length (b64_groups d) = 4 * ((length d + 2) div 3)"
proof (induction d rule: b64_groups.induct)
  case (1 a b c s)
  have "(length s + 5) div 3 = (length s + 2) div 3 + 1" by presburger
  then show ?case using 1 by (simp add: add.commute)
qed simp_all

lemma b64_groups_append: "length d mod 3 = 0 \<Longrightarrow> b64_groups (d @ e) = b64_groups d @ b64_groups e"
  by (induction d rule: b64_groups.induct) auto

lemma base64_line_Cons4:
  "base64_line (a # b # c # d # t) \<longleftrightarrow>
     a \<in> set base64_alphabet \<and> b \<in> set base64_alphabet \<and>
     (c \<in> set base64_alphabet \<or> c = chr CHR ''='') \<and> (d \<in> set base64_alphabet \<or> d = chr CHR ''='') \<and>
     base64_line t"
proof -
  have "(\<forall>i < length (a # b # c # d # t). P i) \<longleftrightarrow>
      P 0 \<and> P 1 \<and> P 2 \<and> P 3 \<and> (\<forall>i < length t. P (4 + i))" for P
    by (auto simp: less_Suc_eq_0_disj All_less_Suc2 numeral_eq_Suc)
  note this [of "\<lambda>i. (a # b # c # d # t) ! i \<in> set base64_alphabet \<or>
      (a # b # c # d # t) ! i = chr CHR ''='' \<and> 2 \<le> i mod 4"]
  then show ?thesis unfolding base64_line_def by (simp del: length_Cons)
qed

lemma base64_line_b64_groups: "base64_line (b64_groups d)"
proof (induction d rule: b64_groups.induct)
  case (1 a b c s)
  then show ?case
    using six_bits(1) [of a] six_bits(2) [of a b] six_bits(3) [of b c]
    by (simp add: base64_line_Cons4 b64_char_in)
next
  case (2 a b)
  then show ?case
    using six_bits(1) [of a] six_bits(2) [of a b] six_bits(5) [of b]
    by (simp add: base64_line_Cons4 b64_char_in) (simp add: base64_line_def)
next
  case (3 a)
  then show ?case
    using six_bits(1) [of a] six_bits(4) [of a]
    by (simp add: base64_line_Cons4 b64_char_in) (simp add: base64_line_def)
qed (simp add: base64_line_def)

lemma base64_line_chars:
  "base64_line t \<Longrightarrow> c \<in> set t \<Longrightarrow> c \<in> set base64_alphabet \<or> c = chr CHR ''=''"
  by (auto simp: base64_line_def in_set_conv_nth)

lemma b64_text: "base64_text b64_step b64_close d = b64_groups d @ [newline]"
proof -
  let ?n = "3 * (length d div 3)"
  have "b64_groups (take ?n d @ drop ?n d) = b64_groups (take ?n d) @ b64_groups (drop ?n d)"
    by (rule b64_groups_append) simp
  then show ?thesis by (simp add: base64_text_def b64_step_def b64_close_def Let_def)
qed

lemma b64_rank_newline: "b64_rank newline = None"
  using base64_alphabet_not(2) by (simp add: b64_rank_def newline_def)

lemma length_b64_decode_groups: "length (b64_decode_groups s) \<le> 3 * length s div 4"
proof (induction s rule: b64_decode_groups.induct)
  case (1 a b c d s)
  have "length (b64_octets a b c d) \<le> 3" by (simp add: b64_octets_def Let_def)
  then show ?case using 1 by simp
qed simp_all

interpretation b64: base64_codec b64_step b64_close b64_decode
proof
  fix data s :: "byte list"
  show "\<exists>t. base64_text b64_step b64_close data = t @ [newline] \<and>
      length t = 4 * ((length data + 2) div 3) \<and> base64_line t"
    using b64_text length_b64_groups base64_line_b64_groups by blast
  have "filter (\<lambda>c. b64_rank c \<noteq> None) (b64_groups data) = b64_groups data"
  proof (rule filter_True, rule ballI)
    fix c assume "c \<in> set (b64_groups data)"
    then have "c \<in> set base64_alphabet \<or> c = chr CHR ''=''"
      by (rule base64_line_chars [OF base64_line_b64_groups])
    moreover have "b64_rank c = None \<longleftrightarrow> c \<noteq> chr CHR ''='' \<and> c \<notin> set base64_alphabet"
      by (simp add: b64_rank_def del: not_None_eq)
    ultimately show "b64_rank c \<noteq> None" by blast
  qed
  then show "b64_decode (base64_text b64_step b64_close data) = data"
    by (simp add: b64_decode_def b64_text b64_rank_newline b64_decode_groups_encoded)
  show "b64_decode (filter (\<lambda>c. c \<noteq> newline) s) = b64_decode s"
    unfolding b64_decode_def filter_filter
    by (rule arg_cong [where f = b64_decode_groups], rule filter_cong) (auto simp: b64_rank_newline)
  show "length (b64_decode s) \<le> 3 * length s div 4"
    unfolding b64_decode_def
    by (rule order.trans [OF length_b64_decode_groups])
      (simp add: div_le_mono)
qed

end
