(* ===== verification/Egg_Armor.thy ===== *)
theory Egg_Armor
  imports Egg_Base64
begin

text \<open>
  ASCII armor, \<^verbatim>\<open>src/egg/egg-armor.c\<close>: the parser of PEM and OpenPGP text and the writer.

  The readable memory that starts with the data is a list of octets, \<open>mem\<close>; it may be longer than
  the data. Pointers are positions in it, and a read behind it is \<open>Undef\<close>. A type is the string its
  quark stands for. A table of headers is a map from names to values; the writer gets it as the list
  of its entries, in the order \<^verbatim>\<open>g_hash_table_foreach\<close> has them, and \<open>None\<close> is \<^verbatim>\<open>NULL\<close>.
  What the callback gets is the list of the blocks found.

  Parameters: the base64 functions of GLib (\<open>decode\<close> is \<^verbatim>\<open>g_base64_decode_step\<close> from its initial
  state, \<open>encode_step\<close> and \<open>encode_close\<close> are without and with line breaks as the code calls them),
  and whether secure memory is used and can be allocated.
\<close>

section \<open>Searching\<close>

text \<open>The comparison of a needle with the memory, up to the first difference.\<close>

fun str_matches :: "byte list \<Rightarrow> byte list \<Rightarrow> bool outcome" where
  "str_matches [] s = Ret True"
| "str_matches (c # cs) [] = Undef"
| "str_matches (c # cs) (b # s) = (if b = c then str_matches cs s else Ret False)"

text \<open>\<^verbatim>\<open>g_strstr_len\<close>: the first occurrence within \<open>n\<close> octets and before a NUL.\<close>

fun g_strstr_len :: "byte list \<Rightarrow> nat \<Rightarrow> byte list \<Rightarrow> nat option outcome" where
  "g_strstr_len [] n needle = (if n < length needle then Ret None else Undef)"
| "g_strstr_len (b # s) n needle =
     (if n < length needle then Ret None
      else if b = 0 then Ret None
      else
        obind (str_matches needle (b # s))
          (\<lambda>m. if m then Ret (Some 0)
                else obind (g_strstr_len s (n - 1) needle) (\<lambda>r. Ret (map_option Suc r))))"

fun last_newline :: "byte list \<Rightarrow> nat option" where
  "last_newline [] = None"
| "last_newline (b # s) =
     (case last_newline s of
        Some k \<Rightarrow> Some (Suc k)
      | None \<Rightarrow> if b = newline then Some 0 else None)"

text \<open>
  \<^verbatim>\<open>g_strrstr_len\<close> for a newline: the last one within \<open>n\<close> octets and before a NUL; a negative
  number means that the string ends at its NUL.
\<close>

definition g_strrstr_newline :: "byte list \<Rightarrow> int \<Rightarrow> nat option outcome" where
  "g_strrstr_newline s n =
     (if 0 \<le> n
      then if length s < nat n \<and> c_string s then Undef
           else Ret (last_newline (until_nul (take (nat n) s)))
      else if c_string s then Undef else Ret (last_newline (until_nul s)))"

section \<open>Parsing\<close>

definition ARMOR_SUFF :: "byte list" where "ARMOR_SUFF = cstr ''-----''"
definition ARMOR_PREF_BEGIN :: "byte list" where "ARMOR_PREF_BEGIN = cstr ''-----BEGIN ''"
definition ARMOR_PREF_END :: "byte list" where "ARMOR_PREF_END = cstr ''-----END ''"

type_synonym headers = "byte list \<rightharpoonup> byte list"

text \<open>\<^verbatim>\<open>strchr\<close> on a line finds no colon when it finds the terminator only.\<close>

definition add_header_line :: "byte list \<Rightarrow> headers option \<Rightarrow> headers option" where
  "add_header_line line0 result =
     (let line = g_strstrip line0 in
      case memchr line (chr CHR '':'') of
        None \<Rightarrow> result
      | Some k \<Rightarrow>
          (let t = (case result of None \<Rightarrow> Map.empty | Some t \<Rightarrow> t) in
           Some (t(g_strstrip (take k line) \<mapsto> g_strstrip (drop (Suc k) line)))))"

definition parse_header_lines :: "byte list \<Rightarrow> headers option \<Rightarrow> headers option" where
  "parse_header_lines text result = fold add_header_line (split_fields newline (until_nul text)) result"

text \<open>Type, position of the begin line, and the position behind it.\<close>

definition armor_find_begin ::
  "byte list \<Rightarrow> nat \<Rightarrow> nat \<Rightarrow> (byte list \<times> nat \<times> nat) option outcome" where
  "armor_find_begin mem data n_data =
     obind (g_strstr_len (drop data mem) n_data ARMOR_PREF_BEGIN)
       (\<lambda>r. case r of
          None \<Rightarrow> Ret None
        | Some k \<Rightarrow>
            let pref = data + k; len = n_data - (k + 11); at = pref + 11 in
            obind (g_strstr_len (drop at mem) len ARMOR_SUFF)
              (\<lambda>r. case r of
                 None \<Rightarrow> Ret None
               | Some j \<Rightarrow>
                   let suff = at + j in
                   if memchr (take (suff - pref) (drop pref mem)) newline \<noteq> None then Ret None
                   else
                     g_assert (suff > pref + 11)
                       (Ret (Some (take (suff - at) (drop at mem), pref, suff + 5)))))"

text \<open>The end of the data and the position behind the end line.\<close>

definition armor_find_end ::
  "byte list \<Rightarrow> nat \<Rightarrow> nat \<Rightarrow> byte list \<Rightarrow> (nat \<times> nat) option outcome" where
  "armor_find_end mem data n_data stype =
     obind (g_strstr_len (drop data mem) n_data ARMOR_PREF_END)
       (\<lambda>r. case r of
          None \<Rightarrow> Ret None
        | Some k \<Rightarrow>
            let pref = data + k; len = n_data - (k + 9); at = pref + 9; n_type = length stype in
            if n_type > len then Ret None
            else
              obind (str_matches stype (drop at mem))
                (\<lambda>same. if \<not> same then Ret None
                  else
                    let len = len - n_type; at = at + n_type in
                    if 5 > len then Ret None
                    else
                      obind (str_matches ARMOR_SUFF (drop at mem))
                        (\<lambda>same. if \<not> same then Ret None
                          else
                            obind (g_strrstr_newline (drop data mem) (int k - 1))
                              (\<lambda>line.
                                 let pref = (case line of
                                       None \<Rightarrow> pref
                                     | Some l \<Rightarrow>
                                         if mem ! (data + l + 1) = chr CHR ''='' then data + l else pref);
                                     at = at + 5 in
                                 if length mem \<le> at then Undef
                                 else Ret (Some (pref, if isspace (mem ! at) then at + 1 else at))))))"

text \<open>
  From a line on: whether there is only white space up to a second newline, and where that newline
  or else the first other character is. The octet at the end of the data is looked at, too.
\<close>

fun second_newline :: "byte list \<Rightarrow> (bool \<times> nat) outcome" where
  "second_newline [] = Undef"
| "second_newline (c # s) =
     (if isspace c
      then if c = newline then Ret (True, 0)
           else obind (second_newline s) (\<lambda>(found, j). Ret (found, Suc j))
      else Ret (False, 0))"

lemma memchr_less: "memchr s c = Some k \<Longrightarrow> k < length s"
  by (simp add: memchr_Some_iff)

function header_end :: "byte list \<Rightarrow> nat \<Rightarrow> nat \<Rightarrow> nat option outcome" where
  "header_end mem p stop =
     (if stop < p \<or> length mem < stop then Undef
      else
        case memchr (take (stop - p) (drop p mem)) newline of
          None \<Rightarrow> Ret None
        | Some k \<Rightarrow>
            let x = p + k + 1 in
            obind (second_newline (drop x mem))
              (\<lambda>(found, j). if found then Ret (Some (x + j)) else header_end mem (x + j) stop))"
  by pat_completeness auto
termination
  by (relation "measure (\<lambda>(mem, p, stop). length mem - p)") (auto dest!: memchr_less)

declare header_end.simps [simp del]

definition armor_parse_block ::
  "bool \<Rightarrow> (nat \<Rightarrow> bool) \<Rightarrow> (byte list \<Rightarrow> byte list) \<Rightarrow> byte list \<Rightarrow> nat \<Rightarrow> nat \<Rightarrow> headers option \<Rightarrow>
     (byte list \<times> headers option) option outcome" where
  "armor_parse_block secure secure_alloc decode mem data n_data headers =
     g_assert (n_data \<noteq> 0)
       (let stop = data + n_data in
        obind (header_end mem data stop)
          (\<lambda>hend.
             let data' = (case hend of None \<Rightarrow> data | Some h \<Rightarrow> h);
                 n_data' = stop - data';
                 n_decoded = wrap64 (n_data' * 3) div 4 + 1;
                 decoded = decode (take n_data' (drop data' mem)) in
             if secure \<and> \<not> secure_alloc n_decoded then Ret None
             else if n_decoded < length decoded then Undef
             else if decoded = [] then Ret None
             else
               Ret (Some (decoded,
                 case hend of
                   None \<Rightarrow> headers
                 | Some h \<Rightarrow> parse_header_lines (take (h - data) (drop data mem)) headers))))"

record armor_block =
  armor_type :: "byte list"
  armor_dec :: "byte list"
  armor_outer :: "byte list"
  armor_headers :: "headers option"

lemma str_matches_True: "str_matches needle s = Ret True \<longleftrightarrow> take (length needle) s = needle"
  by (induction needle s rule: str_matches.induct) auto

lemma g_strstr_len_SomeD:
  assumes "g_strstr_len s n needle = Ret (Some k)"
  shows "k + length needle \<le> n \<and> take (length needle) (drop k s) = needle"
  using assms
proof (induction s arbitrary: n k)
  case (Cons b s)
  then have n: "length needle \<le> n" by (auto split: if_splits)
  obtain m where m: "str_matches needle (b # s) = Ret m"
    using Cons.prems n by (cases "str_matches needle (b # s)") (auto split: if_splits)
  show ?case
  proof (cases m)
    case True
    then show ?thesis using Cons.prems n m str_matches_True [of needle "b # s"] by (auto split: if_splits)
  next
    case False
    then have "needle \<noteq> []" using m by auto
    moreover obtain r where r: "g_strstr_len s (n - 1) needle = Ret r"
      using Cons.prems n m False by (cases "g_strstr_len s (n - 1) needle") (auto split: if_splits)
    ultimately obtain k' where k': "k = Suc k'" "r = Some k'"
      using Cons.prems n m False by (auto split: if_splits)
    then show ?thesis using Cons.IH [of "n - 1" k'] r n \<open>needle \<noteq> []\<close> by (cases needle) auto
  qed
qed (simp split: if_splits)

lemma g_strstr_len_bounds:
  assumes "g_strstr_len s n needle = Ret (Some k)" and "needle \<noteq> []"
  shows "k + length needle \<le> n" and "k + length needle \<le> length s"
proof -
  have "length needle = min (length needle) (length s - k)"
    using g_strstr_len_SomeD [OF assms(1)] by (metis length_drop length_take min.commute)
  then show "k + length needle \<le> n" "k + length needle \<le> length s"
    using g_strstr_len_SomeD [OF assms(1)] assms(2) by (cases needle; simp; linarith)+
qed

lemma armor_find_begin_bounds:
  assumes "armor_find_begin mem data n_data = Ret (Some (ty, outer, beg))"
  shows "data \<le> outer" and "outer + 16 < beg" and "beg \<le> data + n_data" and "beg \<le> length mem"
proof -
  obtain k j where k: "g_strstr_len (drop data mem) n_data ARMOR_PREF_BEGIN = Ret (Some k)"
    and j: "g_strstr_len (drop (data + k + 11) mem) (n_data - (k + 11)) ARMOR_SUFF = Ret (Some j)"
    and e: "outer = data + k" "beg = data + k + 11 + j + 5" and "0 < j"
    using assms by (auto simp: armor_find_begin_def obind_Ret_iff Let_def g_assert_def
        split: option.splits if_splits)
  have "k + 11 \<le> n_data" "data + k + 11 + j + 5 \<le> length mem" "j + 5 \<le> n_data - (k + 11)"
    using g_strstr_len_bounds [OF k] g_strstr_len_bounds [OF j]
    by (simp_all add: ARMOR_PREF_BEGIN_def ARMOR_SUFF_def)
  then show "data \<le> outer" "outer + 16 < beg" "beg \<le> data + n_data" "beg \<le> length mem"
    using e \<open>0 < j\<close> by auto
qed

lemma armor_find_end_Some:
  assumes "armor_find_end mem data n_data ty = Ret (Some (pref, outer))"
  obtains k line at where "g_strstr_len (drop data mem) n_data ARMOR_PREF_END = Ret (Some k)"
    and "k + 14 + length ty \<le> n_data" and "str_matches ty (drop (data + k + 9) mem) = Ret True"
    and "str_matches ARMOR_SUFF (drop (data + k + 9 + length ty) mem) = Ret True"
    and "g_strrstr_newline (drop data mem) (int k - 1) = Ret line"
    and "pref = (case line of None \<Rightarrow> data + k
           | Some l \<Rightarrow> if mem ! (data + l + 1) = chr CHR ''='' then data + l else data + k)"
    and "at = data + k + 14 + length ty" and "at < length mem"
    and "outer = (if isspace (mem ! at) then at + 1 else at)"
proof -
  obtain r where r: "g_strstr_len (drop data mem) n_data ARMOR_PREF_END = Ret r"
    using assms unfolding armor_find_end_def by (simp only: obind_Ret_iff) blast
  then obtain k where k: "r = Some k" using assms by (cases r) (simp_all add: armor_find_end_def)
  have kn: "k + 9 \<le> n_data"
    using g_strstr_len_bounds(1) [OF r [unfolded k]] by (simp add: ARMOR_PREF_END_def)
  have n1: "\<not> length ty > n_data - (k + 9)"
    using assms r k by (auto simp: armor_find_end_def Let_def)
  obtain s1 where s1: "str_matches ty (drop (data + k + 9) mem) = Ret s1"
    using assms r k n1 by (cases "str_matches ty (drop (data + k + 9) mem)")
      (auto simp: armor_find_end_def Let_def)
  have t1: "s1" using assms r k n1 s1 by (cases s1) (auto simp: armor_find_end_def Let_def)
  have n2: "\<not> 5 > n_data - (k + 9) - length ty"
    using assms r k n1 s1 t1 by (auto simp: armor_find_end_def Let_def)
  obtain s2 where s2: "str_matches ARMOR_SUFF (drop (data + k + 9 + length ty) mem) = Ret s2"
    using assms r k n1 s1 t1 n2
    by (cases "str_matches ARMOR_SUFF (drop (data + k + 9 + length ty) mem)")
      (auto simp: armor_find_end_def Let_def)
  have t2: "s2" using assms r k n1 s1 t1 n2 s2 by (cases s2) (auto simp: armor_find_end_def Let_def)
  obtain line where l: "g_strrstr_newline (drop data mem) (int k - 1) = Ret line"
    using assms r k n1 s1 t1 n2 s2 t2
    by (cases "g_strrstr_newline (drop data mem) (int k - 1)") (auto simp: armor_find_end_def Let_def)
  obtain at where at: "data + k + 9 + length ty + 5 = at" by blast
  have "(if length mem \<le> data + k + 9 + length ty + 5 then Undef
      else Ret (Some (case line of None \<Rightarrow> data + k
         | Some l \<Rightarrow> if mem ! (data + l + 1) = chr CHR ''='' then data + l else data + k,
       if isspace (mem ! (data + k + 9 + length ty + 5)) then data + k + 9 + length ty + 5 + 1
       else data + k + 9 + length ty + 5))) = Ret (Some (pref, outer))"
    using assms r k n1 s1 t1 n2 s2 t2 l
    by (simp add: armor_find_end_def Let_def) (simp split: if_splits)
  then have m: "\<not> length mem \<le> at" and e: "pref = (case line of None \<Rightarrow> data + k
         | Some l \<Rightarrow> if mem ! (data + l + 1) = chr CHR ''='' then data + l else data + k)"
    "outer = (if isspace (mem ! at) then at + 1 else at)"
    unfolding at by (simp_all split: if_splits)
  show ?thesis
  proof (rule that [of k line at])
    show "k + 14 + length ty \<le> n_data" using kn n1 n2 by linarith
    show "at = data + k + 14 + length ty" using at by linarith
  qed (use r k s1 t1 s2 t2 l m e in simp_all)
qed

lemma armor_find_end_bounds:
  assumes "armor_find_end mem data n_data ty = Ret (Some (pref, outer))"
  shows "data \<le> pref" and "outer \<le> length mem"
proof -
  obtain k line at where "pref = (case line of None \<Rightarrow> data + k
           | Some l \<Rightarrow> if mem ! (data + l + 1) = chr CHR ''='' then data + l else data + k)"
    and "at < length mem" and "outer = (if isspace (mem ! at) then at + 1 else at)"
    using assms by (rule armor_find_end_Some)
  then show "data \<le> pref" "outer \<le> length mem" by (simp_all split: option.split)
qed

text \<open>\<open>n_at\<close> is a \<^verbatim>\<open>gsize\<close> and wraps around when the next block starts behind the data.\<close>

definition armor_found ::
  "bool \<Rightarrow> (nat \<Rightarrow> bool) \<Rightarrow> (byte list \<Rightarrow> byte list) \<Rightarrow> byte list \<Rightarrow> byte list \<Rightarrow> nat \<Rightarrow> nat \<Rightarrow> nat \<Rightarrow> nat \<Rightarrow>
     headers option \<Rightarrow> (armor_block list \<times> headers option) outcome" where
  "armor_found secure secure_alloc decode mem ty outer_beg beg stop outer_end headers =
     (if beg \<noteq> stop
      then
        obind (armor_parse_block secure secure_alloc decode mem beg (stop - beg) headers)
          (\<lambda>r. case r of
             None \<Rightarrow> Ret ([], headers)
           | Some (dec, headers') \<Rightarrow>
               g_assert (outer_end > outer_beg)
                 (Ret ([\<lparr>armor_type = ty, armor_dec = dec,
                         armor_outer = take (outer_end - outer_beg) (drop outer_beg mem),
                         armor_headers = headers'\<rparr>],
                       map_option (\<lambda>_. Map.empty) headers')))
      else Ret ([], headers))"

function armor_loop ::
  "bool \<Rightarrow> (nat \<Rightarrow> bool) \<Rightarrow> (byte list \<Rightarrow> byte list) \<Rightarrow> byte list \<Rightarrow> nat \<Rightarrow> nat \<Rightarrow> headers option \<Rightarrow>
     armor_block list outcome" where
  "armor_loop secure secure_alloc decode mem at n_at headers =
     (if n_at > 0
      then
        (case armor_find_begin mem at n_at of
           Abort \<Rightarrow> Abort
         | Undef \<Rightarrow> Undef
         | Ret None \<Rightarrow> Ret []
         | Ret (Some (ty, outer_beg, beg)) \<Rightarrow>
             (case armor_find_end mem beg (n_at - (beg - at)) ty of
                Abort \<Rightarrow> Abort
              | Undef \<Rightarrow> Undef
              | Ret None \<Rightarrow> Ret []
              | Ret (Some (stop, outer_end)) \<Rightarrow>
                  obind (armor_found secure secure_alloc decode mem ty outer_beg beg stop outer_end headers)
                    (\<lambda>(found, headers').
                       let at' = stop + 5 in
                       obind (armor_loop secure secure_alloc decode mem at'
                                (if at' - at \<le> n_at then n_at - (at' - at)
                                 else wrap64 (2 ^ 64 + n_at - (at' - at)))
                                headers')
                         (\<lambda>rest. Ret (found @ rest)))))
      else Ret [])"
  by pat_completeness auto
termination
proof (relation "measure (\<lambda>(secure, secure_alloc, decode, mem, at, n_at, headers). length mem - at)",
    goal_cases)
  case (2 secure secure_alloc decode mem at n_at)
  then show ?case
    using armor_find_begin_bounds [of mem at n_at] armor_find_end_bounds [of mem] by fastforce
qed simp

declare armor_loop.simps [simp del]

text \<open>
  All blocks, and their number; \<open>n\<close> is the length of the data.
\<close>

definition egg_armor_parse ::
  "bool \<Rightarrow> (nat \<Rightarrow> bool) \<Rightarrow> (byte list \<Rightarrow> byte list) \<Rightarrow> byte list \<Rightarrow> nat \<Rightarrow> (nat \<times> armor_block list) outcome" where
  "egg_armor_parse secure secure_alloc decode mem n =
     obind (armor_loop secure secure_alloc decode mem 0 n None)
       (\<lambda>found. Ret (wrap32 (length found), found))"

section \<open>Writing\<close>

definition ORDERED_HEADERS :: "byte list list" where
  "ORDERED_HEADERS = [cstr ''Proc-Type'', cstr ''DEK-Info'']"

definition header_line :: "byte list \<Rightarrow> byte list \<Rightarrow> byte list" where
  "header_line name val = name @ cstr '': '' @ val @ [newline]"

definition append_each_header :: "byte list \<times> byte list \<Rightarrow> byte list" where
  "append_each_header e = (if fst e \<in> set ORDERED_HEADERS then [] else header_line (fst e) (snd e))"

definition ordered_header :: "(byte list \<times> byte list) list option \<Rightarrow> byte list \<Rightarrow> byte list" where
  "ordered_header headers name =
     (case headers of
        None \<Rightarrow> []
      | Some h \<Rightarrow> (case map_of h name of None \<Rightarrow> [] | Some val \<Rightarrow> header_line name val))"

function break_lines :: "nat \<Rightarrow> byte list \<Rightarrow> byte list" where
  "break_lines i text =
     (if i < length text then break_lines (i + 1 + 64) (take i text @ [newline] @ drop i text) else text)"
  by pat_completeness auto
termination
  by (relation "measure (\<lambda>(i, text). length text + 1 - i)") auto

declare break_lines.simps [simp del]

definition egg_armor_write ::
  "(byte list \<Rightarrow> byte list \<times> 's) \<Rightarrow> ('s \<Rightarrow> byte list) \<Rightarrow> byte list \<Rightarrow> byte list \<Rightarrow>
     (byte list \<times> byte list) list option \<Rightarrow> byte list outcome" where
  "egg_armor_write encode_step encode_close data ty headers =
     (let n_data = length data;
          others = (case headers of
              None \<Rightarrow> []
            | Some h \<Rightarrow> if length h > 0 then concat (map append_each_header h) @ [newline] else []);
          prefix = ARMOR_PREF_BEGIN @ ty @ ARMOR_SUFF @ [newline] @
            concat (map (ordered_header headers) ORDERED_HEADERS) @ others;
          estimate = wrap64 (wrap64 (n_data * 4) div 3 + wrap64 (n_data * 4) div (3 * 65) + 7);
          (body, state) = encode_step data;
          text = body @ encode_close state in
      if estimate < length text then Undef
      else
        Ret (prefix @ break_lines 64 text @ ARMOR_PREF_END @ ty @ ARMOR_SUFF @ [newline]))"

section \<open>Searching in text\<close>

abbreviation (input) dash :: byte where "dash \<equiv> chr CHR ''-''"

text \<open>No two dashes next to each other, and none at the end.\<close>

definition single_dashes :: "byte list \<Rightarrow> bool" where
  "single_dashes s \<longleftrightarrow> successively (\<lambda>a b. \<not> (a = dash \<and> b = dash)) s \<and> (s \<noteq> [] \<longrightarrow> last s \<noteq> dash)"

lemma single_dashes_append:
  "single_dashes s \<Longrightarrow> single_dashes t \<Longrightarrow> single_dashes (s @ t)"
  by (auto simp: single_dashes_def successively_append_iff last_append split: if_splits)

lemma single_dashes_none: "dash \<notin> set s \<Longrightarrow> single_dashes s"
  unfolding single_dashes_def
  by (induction s) (auto simp: successively_Cons last_in_set)

lemma str_matches_self: "str_matches s (s @ t) = Ret True"
  by (simp add: str_matches_True)

lemma strstr_here:
  assumes "needle \<noteq> []" and "hd needle \<noteq> 0" and "length needle \<le> n"
  shows "g_strstr_len (needle @ t) n needle = Ret (Some 0)"
proof (cases needle)
  case (Cons c cs)
  then show ?thesis using assms str_matches_self [of needle t] by (simp del: str_matches.simps)
qed (use assms in simp)

lemma str_matches_single:
  assumes "single_dashes (b # s)" and "needle = dash # dash # rest"
  shows "str_matches needle (b # s @ t) = Ret False"
proof (cases "b = dash")
  case True
  then obtain c s' where "s = c # s'" "c \<noteq> dash"
    using assms(1) by (cases s) (auto simp: single_dashes_def)
  then show ?thesis using True assms(2) by simp
qed (simp add: assms(2))

lemma strstr_skip:
  assumes "c_string s" and "single_dashes s" and "needle = dash # dash # rest"
    and "length s + length needle \<le> n"
  shows "g_strstr_len (s @ t) n needle =
    obind (g_strstr_len t (n - length s) needle) (\<lambda>r. Ret (map_option (\<lambda>k. length s + k) r))"
  using assms
proof (induction s arbitrary: n)
  case Nil
  then show ?case by (cases "g_strstr_len t n needle") (simp_all add: option.map_ident)
next
  case (Cons b s)
  have no: "str_matches needle (b # s @ t) = Ret False" by (rule str_matches_single [OF Cons.prems(2,3)])
  have "single_dashes s" using Cons.prems(2) by (auto simp: single_dashes_def successively_Cons)
  then have IH: "g_strstr_len (s @ t) (n - 1) needle =
      obind (g_strstr_len t (n - 1 - length s) needle) (\<lambda>r. Ret (map_option (\<lambda>k. length s + k) r))"
    using Cons.prems by (intro Cons.IH) auto
  have n: "\<not> n < length needle" "b \<noteq> 0" using Cons.prems by auto
  show ?case
    unfolding append_Cons g_strstr_len.simps using n no IH
    by (cases "g_strstr_len t (n - 1 - length s) needle")
      (simp_all add: option.map_comp comp_def del: str_matches.simps)
qed

lemma strstr_found:
  assumes "c_string s" and "single_dashes s" and "needle = dash # dash # rest"
    and "length s + length needle \<le> n"
  shows "g_strstr_len (s @ needle @ t) n needle = Ret (Some (length s))"
  using strstr_skip [OF assms, of "needle @ t"] strstr_here [of needle "n - length s" t] assms by simp

lemma last_newline_append:
  "last_newline (s @ t) =
     (case last_newline t of Some k \<Rightarrow> Some (length s + k) | None \<Rightarrow> last_newline s)"
  by (induction s) (auto split: option.splits)

lemma last_newline_None: "newline \<notin> set s \<Longrightarrow> last_newline s = None"
  by (induction s) auto

lemma last_newline_at: "newline \<notin> set l \<Longrightarrow> last_newline (z @ [newline] @ l) = Some (length z)"
  by (simp add: last_newline_append last_newline_None)

section \<open>Lines\<close>

definition lines_text :: "byte list list \<Rightarrow> byte list" where
  "lines_text ls = concat (map (\<lambda>l. l @ [newline]) ls)"

lemma lines_text_simps [simp]:
  "lines_text [] = []" "lines_text (l # ls) = l @ newline # lines_text ls"
  "lines_text (ks @ ls) = lines_text ks @ lines_text ls"
  by (simp_all add: lines_text_def)

function line_chunks :: "byte list \<Rightarrow> byte list list" where
  "line_chunks t = (if length t \<le> 64 then [t] else take 64 t # line_chunks (drop 64 t))"
  by pat_completeness auto
termination by (relation "measure length") auto

declare line_chunks.simps [simp del]

lemma concat_line_chunks: "concat (line_chunks t) = t"
  by (induction t rule: line_chunks.induct) (subst line_chunks.simps, simp)

lemma break_lines_step:
  "t \<noteq> [] \<Longrightarrow> break_lines (length pre + 64) (pre @ t @ [newline]) =
     pre @ lines_text (line_chunks t) @ (if length t mod 64 = 0 then [newline] else [])"
proof (induction t arbitrary: pre rule: line_chunks.induct)
  case (1 t)
  show ?case
  proof (cases "length t < 64")
    case True
    then have "length t mod 64 \<noteq> 0" using 1(2) by simp
    then show ?thesis using True by (subst break_lines.simps, subst line_chunks.simps) simp
  next
    case False
    let ?p = "pre @ take 64 t @ [newline]"
    have b: "break_lines (length pre + 64) (pre @ t @ [newline]) =
        break_lines (length ?p + 64) (?p @ drop 64 t @ [newline])"
      using False by (subst break_lines.simps) (simp add: add.commute)
    show ?thesis
    proof (cases "length t = 64")
      case True
      then have "break_lines (length ?p + 64) (?p @ drop 64 t @ [newline]) = pre @ t @ [newline, newline]"
        by (subst break_lines.simps) simp
      then show ?thesis unfolding b using True by (subst line_chunks.simps) simp
    next
      case f: False
      then have "drop 64 t \<noteq> []" "\<not> length t \<le> 64" using False by simp_all
      then have "break_lines (length ?p + 64) (?p @ drop 64 t @ [newline]) =
          ?p @ lines_text (line_chunks (drop 64 t)) @ (if length (drop 64 t) mod 64 = 0 then [newline] else [])"
        by (intro 1(1)) simp_all
      moreover have "length (drop 64 t) mod 64 = length t mod 64"
        using False by (simp add: le_mod_geq)
      ultimately show ?thesis unfolding b using f False by (subst line_chunks.simps) simp
    qed
  qed
qed

lemma break_lines_text:
  "t \<noteq> [] \<Longrightarrow> break_lines 64 (t @ [newline]) =
     lines_text (line_chunks t) @ (if length t mod 64 = 0 then [newline] else [])"
  using break_lines_step [of t "[]"] by simp

text \<open>The lines of base64 text: none is empty, and none begins with a fill character.\<close>

definition body_line :: "byte list \<Rightarrow> bool" where
  "body_line l \<longleftrightarrow> l \<noteq> [] \<and> hd l \<noteq> chr CHR ''='' \<and>
     (\<forall>c \<in> set l. c \<in> set base64_alphabet \<or> c = chr CHR ''='')"

lemma line_chunks_body:
  assumes "base64_line t" and "t \<noteq> []"
  shows "\<forall>l \<in> set (line_chunks t). body_line l"
  using assms
proof (induction t rule: line_chunks.induct)
  case (1 t)
  have first: "body_line (take 64 t)"
  proof -
    have "0 < length t" using 1(3) by simp
    then have "t ! 0 \<in> set base64_alphabet" using 1(2) unfolding base64_line_def by fastforce
    then have "hd (take 64 t) \<noteq> chr CHR ''=''"
      using 1(3) base64_alphabet_not(3) by (metis hd_conv_nth hd_take zero_less_numeral)
    then show ?thesis
      using 1(3) base64_line_chars [OF 1(2)] by (auto simp: body_line_def dest: in_set_takeD)
  qed
  show ?case
  proof (cases "length t \<le> 64")
    case True
    then show ?thesis using first by (subst line_chunks.simps) simp
  next
    case False
    have "base64_line (drop 64 t)"
      unfolding base64_line_def
    proof (intro allI impI)
      fix i assume "i < length (drop 64 t)"
      then have "64 + i < length t" by simp
      moreover have "(64 + i) mod 4 = i mod 4" by presburger
      ultimately show "drop 64 t ! i \<in> set base64_alphabet \<or> drop 64 t ! i = chr CHR ''='' \<and> 2 \<le> i mod 4"
        using 1(2) unfolding base64_line_def by (metis False nat_le_linear nth_drop)
    qed
    then show ?thesis
      using first False 1(1) by (subst line_chunks.simps) simp
  qed
qed

section \<open>Headers\<close>

text \<open>A line that \<^verbatim>\<open>armor_parse_block\<close> does not take for a blank one.\<close>

definition nonblank :: "byte list \<Rightarrow> bool" where
  "nonblank l \<longleftrightarrow> newline \<notin> set l \<and> l \<noteq> [] \<and> \<not> isspace (hd l)"

lemma isspace_newline: "isspace newline"
  by (simp add: isspace_def newline_def word_le_nat_alt)

lemma drop_at: "drop p mem = a @ r \<Longrightarrow> q = p + length a \<Longrightarrow> drop q mem = r"
  by (metis add.commute append_eq_conv_conj drop_drop)

lemma header_end_step:
  assumes "drop p mem = w @ newline # c # r" and "newline \<notin> set w"
    and "p + length w + 1 \<le> stop" and "stop \<le> length mem"
  shows "c = newline \<Longrightarrow> header_end mem p stop = Ret (Some (p + length w + 1))"
    and "\<not> isspace c \<Longrightarrow> header_end mem p stop = header_end mem (p + length w + 1) stop"
proof -
  have "take (stop - p) (drop p mem) = w @ newline # take (stop - p - length w - 1) (c # r)"
    unfolding assms(1) using assms(3) by (simp add: take_Cons')
  then have m: "memchr (take (stop - p) (drop p mem)) newline = Some (length w)"
    using memchr_append [OF assms(2)] by simp
  have x: "drop (p + length w + 1) mem = c # r"
    by (rule drop_at [of p mem "w @ [newline]"]) (simp_all add: assms(1))
  have n: "\<not> (stop < p \<or> length mem < stop)" using assms(3,4) by simp
  show "header_end mem p stop = Ret (Some (p + length w + 1))" if "c = newline"
    unfolding header_end.simps [of mem p] if_not_P [OF n] m option.case Let_def x that
    by (simp add: isspace_newline)
  show "header_end mem p stop = header_end mem (p + length w + 1) stop" if "\<not> isspace c"
    unfolding header_end.simps [of mem p] if_not_P [OF n] m option.case Let_def x
    using that by simp
qed

lemma header_end_lines:
  assumes "drop p mem = w @ newline # lines_text ls @ z # u" and "newline \<notin> set w"
    and "\<forall>l \<in> set ls. nonblank l" and "q = p + length w + 1 + length (lines_text ls)"
    and "q \<le> stop" and "stop \<le> length mem" and "z = newline \<or> \<not> isspace z"
  shows "header_end mem p stop = (if z = newline then Ret (Some q) else header_end mem q stop)"
  using assms
proof (induction ls arbitrary: p w)
  case Nil
  then have d: "drop p mem = w @ newline # z # u" by simp
  show ?case
    using header_end_step [OF d Nil.prems(2) _ Nil.prems(6)] Nil.prems by auto
next
  case (Cons l ls)
  let ?x = "p + length w + 1"
  have x: "drop ?x mem = l @ newline # lines_text ls @ z # u"
    by (rule drop_at [of p mem "w @ [newline]"]) (simp_all add: Cons.prems(1))
  obtain c l' where l: "l = c # l'" "\<not> isspace c"
    using Cons.prems(3) by (cases l) (auto simp: nonblank_def)
  then have d: "drop p mem = w @ newline # c # l' @ newline # lines_text ls @ z # u"
    using Cons.prems(1) by simp
  have "header_end mem p stop = header_end mem ?x stop"
    using header_end_step(2) [OF d Cons.prems(2) _ Cons.prems(6) l(2)] Cons.prems(4,5) by simp
  moreover have "newline \<notin> set l" "\<forall>l \<in> set ls. nonblank l"
    "q = ?x + length l + 1 + length (lines_text ls)"
    using Cons.prems(3,4) by (simp_all add: nonblank_def)
  ultimately show ?case using Cons.IH [OF x] Cons.prems(5,6,7) by simp
qed

text \<open>Headers that come back: no colon or line break in the wrong place, no white space around.\<close>

definition unspaced :: "byte list \<Rightarrow> bool" where
  "unspaced s \<longleftrightarrow> s = [] \<or> \<not> isspace (hd s) \<and> \<not> isspace (last s)"

definition header_ok :: "byte list \<times> byte list \<Rightarrow> bool" where
  "header_ok e \<longleftrightarrow>
     (\<forall>s \<in> {fst e, snd e}. c_string s \<and> newline \<notin> set s \<and> single_dashes s \<and> unspaced s) \<and>
     chr CHR '':'' \<notin> set (fst e)"

definition header_text :: "byte list \<times> byte list \<Rightarrow> byte list" where
  "header_text e = fst e @ cstr '': '' @ snd e"

lemma ascii_isspace: "g_ascii_isspace c \<Longrightarrow> isspace c"
  by (auto simp: g_ascii_isspace_def isspace_def word_le_nat_alt)

lemma g_strstrip_unspaced:
  assumes "unspaced s"
  shows "g_strstrip s = s" and "g_strstrip (32 # s) = s" and "g_strstrip (s @ [32]) = s"
proof -
  have d: "dropWhile g_ascii_isspace s = s" "dropWhile g_ascii_isspace (rev s) = rev s"
    using assms ascii_isspace unfolding unspaced_def dropWhile_eq_self_iff
    by (auto simp: hd_rev)
  have sp: "g_ascii_isspace 32" by (simp add: g_ascii_isspace_def)
  show "g_strstrip s = s" "g_strstrip (32 # s) = s" by (simp_all add: g_strstrip_def d sp)
  show "g_strstrip (s @ [32]) = s"
  proof (cases "s = []")
    case True
    then show ?thesis by (simp add: g_strstrip_def sp)
  next
    case False
    then have "dropWhile g_ascii_isspace (s @ [32]) = s @ [32]"
      using assms ascii_isspace unfolding unspaced_def dropWhile_eq_self_iff by auto
    then show ?thesis by (simp add: g_strstrip_def d sp)
  qed
qed

lemma colon_space: "\<not> isspace (chr CHR '':'')"
  by (simp add: isspace_def word_le_nat_alt)

lemma header_text_stripped:
  assumes "header_ok (n, v)"
  shows "g_strstrip (header_text (n, v)) = n @ chr CHR '':'' # (if v = [] then [] else 32 # v)"
proof (cases "v = []")
  case True
  have "unspaced (n @ [chr CHR '':''])"
    using assms colon_space by (cases n) (auto simp: header_ok_def unspaced_def)
  then show ?thesis using g_strstrip_unspaced(3) [of "n @ [chr CHR '':'']"] True
    by (simp add: header_text_def)
next
  case False
  have "unspaced (n @ cstr '': '' @ v)"
    using assms colon_space False by (cases n) (auto simp: header_ok_def unspaced_def)
  then show ?thesis using g_strstrip_unspaced(1) [of "n @ cstr '': '' @ v"] False
    by (simp add: header_text_def)
qed

lemma add_header_line_text:
  assumes "header_ok (n, v)"
  shows "add_header_line (header_text (n, v)) r =
    Some ((case r of None \<Rightarrow> Map.empty | Some t \<Rightarrow> t)(n \<mapsto> v))"
proof -
  let ?l = "n @ chr CHR '':'' # (if v = [] then [] else 32 # v)"
  have m: "memchr ?l (chr CHR '':'') = Some (length n)"
    using assms by (intro memchr_append) (simp add: header_ok_def)
  have u: "unspaced n" "unspaced v" using assms by (simp_all add: header_ok_def)
  have "g_strstrip (take (length n) ?l) = n" using g_strstrip_unspaced(1) [OF u(1)] by simp
  moreover have "g_strstrip (drop (Suc (length n)) ?l) = v"
    using g_strstrip_unspaced(2) [OF u(2)] by (simp add: g_strstrip_def)
  ultimately show ?thesis
    unfolding add_header_line_def header_text_stripped [OF assms] Let_def m by simp
qed

lemma add_header_lines:
  "\<forall>e \<in> set es. header_ok e \<Longrightarrow>
   fold add_header_line (map header_text es) (Some t) = Some (t ++ map_of (rev es))"
proof (induction es arbitrary: t)
  case (Cons e es)
  obtain n v where e: "e = (n, v)" by (cases e)
  have "add_header_line (header_text e) (Some t) = Some (t(n \<mapsto> v))"
    using add_header_line_text [of n v "Some t"] Cons.prems e by simp
  then show ?case using Cons e by simp
qed simp

lemma add_header_lines_first:
  assumes "\<forall>e \<in> set es. header_ok e" and "es \<noteq> []"
  shows "fold add_header_line (map header_text es) None = Some (map_of (rev es))"
proof -
  obtain n v es' where es: "es = (n, v) # es'" using assms(2) by (cases es) auto
  then have "add_header_line (header_text (n, v)) None = Some (Map.empty(n \<mapsto> v))"
    using add_header_line_text [of n v None] assms(1) by simp
  then show ?thesis using add_header_lines [of es' "Map.empty(n \<mapsto> v)"] assms(1) es by simp
qed

lemma parse_header_lines_text:
  assumes "\<forall>e \<in> set es. header_ok e" and "es \<noteq> []"
  shows "parse_header_lines (newline # lines_text (map header_text es)) None = Some (map_of (rev es))"
proof -
  have ok: "\<forall>e \<in> set es. c_string (header_text e) \<and> newline \<notin> set (header_text e)"
    using assms(1) by (auto simp: header_ok_def header_text_def newline_def)
  then have "c_string (newline # lines_text (map header_text es))"
    by (auto simp: lines_text_def c_string_def newline_def)
  moreover have "split_fields newline (lines_text (map header_text es)) = map header_text es @ [[]]"
    unfolding lines_text_def using ok by (intro split_fields_joined) (auto simp: list_all_iff)
  moreover have "add_header_line [] r = r" for r by (simp add: add_header_line_def g_strstrip_def)
  ultimately show ?thesis
    using add_header_lines_first [OF assms] by (simp add: parse_header_lines_def)
qed

lemma header_text_nonblank: "header_ok e \<Longrightarrow> nonblank (header_text e)"
  using colon_space by (cases "fst e") (auto simp: header_ok_def header_text_def nonblank_def unspaced_def newline_def)

text \<open>The entries in the order in which they are written.\<close>

definition written_headers :: "(byte list \<times> byte list) list \<Rightarrow> (byte list \<times> byte list) list" where
  "written_headers h =
     concat (map (\<lambda>k. case map_of h k of None \<Rightarrow> [] | Some v \<Rightarrow> [(k, v)]) ORDERED_HEADERS) @
     filter (\<lambda>e. fst e \<notin> set ORDERED_HEADERS) h"

lemma set_written_headers: "distinct (map fst h) \<Longrightarrow> set (written_headers h) = set h"
  by (auto simp: written_headers_def dest: map_of_SomeD split: option.splits)

lemma distinct_written_headers: "distinct (map fst h) \<Longrightarrow> distinct (map fst (written_headers h))"
  by (auto simp: written_headers_def ORDERED_HEADERS_def distinct_map_filter split: option.splits)

lemma map_of_written_headers:
  assumes "distinct (map fst h)"
  shows "map_of (rev (written_headers h)) = map_of h"
  using assms distinct_written_headers [OF assms] set_written_headers [OF assms]
  by (subst map_of_inject_set) (simp_all add: rev_map [symmetric])

lemma ordered_headers_text:
  "concat (map (ordered_header (Some h)) ORDERED_HEADERS) @ concat (map append_each_header h) =
     lines_text (map header_text (written_headers h))"
proof -
  have "concat (map append_each_header h) =
      lines_text (map header_text (filter (\<lambda>e. fst e \<notin> set ORDERED_HEADERS) h))"
    by (induction h) (auto simp: append_each_header_def header_line_def header_text_def)
  moreover have "ordered_header (Some h) k =
      lines_text (map header_text (case map_of h k of None \<Rightarrow> [] | Some v \<Rightarrow> [(k, v)]))" for k
    by (simp add: ordered_header_def header_line_def header_text_def split: option.split)
  ultimately show ?thesis by (simp add: written_headers_def ORDERED_HEADERS_def)
qed

section \<open>Round trip\<close>

definition type_ok :: "byte list \<Rightarrow> bool" where
  "type_ok ty \<longleftrightarrow> ty \<noteq> [] \<and> c_string ty \<and> newline \<notin> set ty \<and> single_dashes ty"

lemma SUFF_parts: "ARMOR_SUFF = dash # dash # cstr ''---''" "length ARMOR_SUFF = 5" "hd ARMOR_SUFF \<noteq> 0"
  "ARMOR_SUFF \<noteq> []"
  and BEGIN_parts: "ARMOR_PREF_BEGIN = dash # dash # cstr ''---BEGIN ''" "length ARMOR_PREF_BEGIN = 11"
  "hd ARMOR_PREF_BEGIN \<noteq> 0" "ARMOR_PREF_BEGIN \<noteq> []" "newline \<notin> set ARMOR_PREF_BEGIN"
  and END_parts: "ARMOR_PREF_END = dash # dash # cstr ''---END ''" "length ARMOR_PREF_END = 9"
  "hd ARMOR_PREF_END \<noteq> 0" "ARMOR_PREF_END \<noteq> []"
  by (simp_all add: ARMOR_SUFF_def ARMOR_PREF_BEGIN_def ARMOR_PREF_END_def newline_def)

lemma armor_find_begin_text:
  assumes "type_ok ty" and "drop at mem = ARMOR_PREF_BEGIN @ ty @ ARMOR_SUFF @ r"
    and "16 + length ty \<le> n"
  shows "armor_find_begin mem at n = Ret (Some (ty, at, at + length ty + 16))"
proof -
  have 1: "g_strstr_len (drop at mem) n ARMOR_PREF_BEGIN = Ret (Some 0)"
    unfolding assms(2) using BEGIN_parts assms(3) by (intro strstr_here) simp_all
  have d: "drop (at + 11) mem = ty @ ARMOR_SUFF @ r"
    by (rule drop_at [OF assms(2)]) (simp add: BEGIN_parts)
  have 2: "g_strstr_len (drop (at + 11) mem) (n - 11) ARMOR_SUFF = Ret (Some (length ty))"
    unfolding d using assms SUFF_parts
    by (intro strstr_found [where rest = "cstr ''---''"]) (simp_all add: type_ok_def)
  have 3: "take (11 + length ty) (drop at mem) = ARMOR_PREF_BEGIN @ ty"
    unfolding assms(2) using BEGIN_parts(2) by simp
  have 4: "memchr (ARMOR_PREF_BEGIN @ ty) newline = None"
    using assms(1) BEGIN_parts(5) by (simp add: type_ok_def)
  have 5: "0 < length ty" using assms(1) by (simp add: type_ok_def)
  have 6: "take (length ty) (drop (at + 11) mem) = ty" unfolding d by simp
  show ?thesis
    unfolding armor_find_begin_def 1 Let_def obind_simps option.case
    using 2 3 4 5 6 by (simp add: add.assoc)
qed

lemma strstr_none:
  assumes "c_string s" and "single_dashes s" and "needle = dash # dash # rest"
    and "m < length s + length needle" and "length needle \<le> m + 1 + length t \<or> m < length needle"
  shows "g_strstr_len (s @ t) m needle = Ret None"
  using assms
proof (induction s arbitrary: m)
  case Nil
  then show ?case by (cases t) simp_all
next
  case (Cons b s)
  show ?case
  proof (cases "m < length needle")
    case False
    have "str_matches needle (b # s @ t) = Ret False" by (rule str_matches_single [OF Cons.prems(2,3)])
    moreover have "g_strstr_len (s @ t) (m - 1) needle = Ret None"
      using Cons False by (intro Cons.IH) (auto simp: single_dashes_def successively_Cons)
    ultimately show ?thesis using False Cons.prems(1) by (simp del: str_matches.simps)
  qed simp
qed

lemma armor_find_begin_none:
  assumes "type_ok ty" and "drop at mem = cstr ''END '' @ ty @ ARMOR_SUFF @ r" and "n = length ty + 10"
  shows "armor_find_begin mem at n = Ret None"
proof -
  let ?s = "cstr ''END '' @ ty"
  have dashes: "single_dashes ?s"
  proof (rule single_dashes_append)
    show "single_dashes (cstr ''END '')" by (rule single_dashes_none) simp
    show "single_dashes ty" using assms(1) by (simp add: type_ok_def)
  qed
  have "g_strstr_len (drop at mem) n ARMOR_PREF_BEGIN = Ret None"
  proof -
    have "g_strstr_len (?s @ ARMOR_SUFF @ r) n ARMOR_PREF_BEGIN = Ret None"
      using assms dashes BEGIN_parts SUFF_parts
      by (intro strstr_none [where rest = "cstr ''---BEGIN ''"]) (simp_all add: type_ok_def)
    then show ?thesis using assms(2) by simp
  qed
  then show ?thesis by (simp add: armor_find_begin_def)
qed

lemma armor_find_end_text:
  assumes "type_ok ty" and "drop at mem = s @ ARMOR_PREF_END @ ty @ ARMOR_SUFF @ newline # r"
    and "c_string s" and "single_dashes s" and "s = z @ newline # l @ [newline]" and "newline \<notin> set l"
    and "hd (l @ [newline]) \<noteq> chr CHR ''=''" and "length s + 14 + length ty \<le> n"
  shows "armor_find_end mem at n ty = Ret (Some (at + length s, at + length s + length ty + 15))"
proof -
  let ?k = "length s"
  have 1: "g_strstr_len (drop at mem) n ARMOR_PREF_END = Ret (Some ?k)"
    unfolding assms(2) using assms END_parts
    by (intro strstr_found [where rest = "cstr ''---END ''"]) simp_all
  have d1: "drop (at + ?k + 9) mem = ty @ ARMOR_SUFF @ newline # r"
    by (rule drop_at [of at mem "s @ ARMOR_PREF_END"]) (simp_all add: assms(2) END_parts)
  have d2: "drop (at + ?k + 9 + length ty) mem = ARMOR_SUFF @ newline # r"
    by (rule drop_at [OF d1]) simp
  have d3: "drop (at + ?k + 9 + length ty + 5) mem = newline # r"
    by (rule drop_at [OF d2]) (simp add: SUFF_parts)
  have n: "\<not> length ty > n - (?k + 9)" "\<not> 5 > n - (?k + 9) - length ty" using assms(8) by linarith+
  have at: "at \<le> length mem" using d3 by (metis drop_all linear list.distinct(1) trans_le_add1)
  have "take (?k - 1) (drop at mem) = z @ newline # l" unfolding assms(2) by (simp add: assms(5))
  moreover have "c_string (z @ newline # l)" using assms(3,5) by simp
  moreover have "last_newline (z @ newline # l) = Some (length z)"
    using last_newline_at [OF assms(6)] by simp
  moreover have "?k - 1 \<le> length (drop at mem)" unfolding assms(2) by simp
  moreover have "0 \<le> int ?k - 1" "nat (int ?k - 1) = ?k - 1" using assms(5) by simp_all
  ultimately have 3: "g_strrstr_newline (drop at mem) (int ?k - 1) = Ret (Some (length z))"
    unfolding g_strrstr_newline_def by simp
  have "mem ! (at + length z + 1) = drop at mem ! (length z + 1)"
    using at by (simp add: add.assoc)
  also have "\<dots> = hd (l @ [newline])"
    unfolding assms(2,5) by (cases l) (simp_all add: nth_append)
  finally have 4: "mem ! (at + length z + 1) \<noteq> chr CHR ''=''" using assms(7) by simp
  have 5: "\<not> length mem \<le> at + ?k + 9 + length ty + 5"
    using d3 by (metis drop_all list.distinct(1))
  then have 6: "mem ! (at + ?k + 9 + length ty + 5) = newline"
    using d3 by (metis hd_drop_conv_nth linorder_not_le list.sel(1))
  show ?thesis
    unfolding armor_find_end_def 1 obind_simps option.case Let_def if_not_P [OF n(1)] d1 str_matches_self
      d2 if_not_P [OF n(2)] not_True_eq_False if_False 3 if_not_P [OF 4] if_not_P [OF 5] 6
    by (simp add: isspace_newline)
qed

lemma body_line_facts:
  assumes "body_line l"
  shows "nonblank l" and "c_string l" and "dash \<notin> set l" and "newline \<notin> set l" and "l \<noteq> []"
    and "hd l \<noteq> chr CHR ''=''"
proof -
  have c: "\<forall>c \<in> set l. c \<in> set base64_alphabet \<or> c = chr CHR ''=''" "l \<noteq> []"
    "hd l \<noteq> chr CHR ''=''"
    using assms by (auto simp: body_line_def)
  have fill: "chr CHR ''='' \<noteq> newline" "chr CHR ''='' \<noteq> dash" "chr CHR ''='' \<noteq> (0 :: byte)"
    "\<not> isspace (chr CHR ''='')"
    by (simp_all add: newline_def isspace_def word_le_nat_alt)
  show "c_string l" using c(1) fill(3) base64_alphabet_not(1) unfolding c_string_def by metis
  show "dash \<notin> set l" using c(1) fill(2) base64_alphabet_not(4) by metis
  show n: "newline \<notin> set l" using c(1) fill(1) base64_alphabet_not(2) by metis
  show "nonblank l" using n c fill(4) base64_alphabet_not(5) unfolding nonblank_def by (metis hd_in_set)
  show "l \<noteq> []" "hd l \<noteq> chr CHR ''=''" using c by simp_all
qed

lemma dash_not_newline: "dash \<noteq> newline" "\<not> isspace dash" "(0 :: byte) \<noteq> newline"
  by (simp_all add: newline_def isspace_def word_le_nat_alt)

lemma lines_text_chars:
  "(\<forall>l \<in> set ls. c_string l) \<Longrightarrow> c_string (lines_text ls)"
  "(\<forall>l \<in> set ls. single_dashes l) \<Longrightarrow> single_dashes (lines_text ls)"
  "(\<forall>l \<in> set ls. newline \<notin> set l) \<Longrightarrow> filter (\<lambda>c. c \<noteq> newline) (lines_text ls) = concat ls"
proof -
  show "c_string (lines_text ls)" if "\<forall>l \<in> set ls. c_string l"
    using that dash_not_newline by (induction ls) auto
  have nl: "single_dashes [newline]" by (rule single_dashes_none) (simp add: newline_def)
  show "single_dashes (lines_text ls)" if "\<forall>l \<in> set ls. single_dashes l"
    using that
  proof (induction ls)
    case Nil
    then show ?case by (simp add: single_dashes_def)
  next
    case (Cons l ls)
    then have "single_dashes (l @ [newline] @ lines_text ls)"
      by (intro single_dashes_append nl) simp_all
    then show ?case by simp
  qed
  show "filter (\<lambda>c. c \<noteq> newline) (lines_text ls) = concat ls" if "\<forall>l \<in> set ls. newline \<notin> set l"
    using that by (induction ls) (auto simp: filter_id_conv)
qed

text \<open>What stands between the begin line and the end line.\<close>

definition armor_body :: "(byte list \<times> byte list) list \<Rightarrow> byte list \<Rightarrow> byte list" where
  "armor_body hs t =
     newline # (if hs = [] then [] else lines_text (map header_text hs) @ [newline]) @
     lines_text (line_chunks t) @ (if length t mod 64 = 0 then [newline] else [])"

lemma armor_body_text:
  assumes "base64_line t" and "t \<noteq> []" and "\<forall>e \<in> set hs. header_ok e"
  shows "c_string (armor_body hs t)" and "single_dashes (armor_body hs t)"
    and "\<exists>z l. armor_body hs t = z @ newline # l @ [newline] \<and> newline \<notin> set l \<and>
      hd (l @ [newline]) \<noteq> chr CHR ''=''"
proof -
  let ?h = "if hs = [] then [] else lines_text (map header_text hs) @ [newline]"
  let ?x = "if length t mod 64 = 0 then [newline] else []"
  have b: "\<forall>l \<in> set (line_chunks t). body_line l" by (rule line_chunks_body [OF assms(1,2)])
  have nl: "c_string [newline]" "single_dashes [newline]"
    using dash_not_newline by (auto intro!: single_dashes_none)
  have emp: "single_dashes []" by (simp add: single_dashes_def)
  have colon: "single_dashes (cstr '': '')" by (rule single_dashes_none) simp
  have "c_string (header_text e)" "single_dashes (header_text e)" if "e \<in> set hs" for e
    using assms(3) that colon
    by (auto simp: header_ok_def header_text_def simp del: cstr_simps intro!: single_dashes_append)
      (simp add: c_string_def cstr_def)+
  then have h: "c_string ?h" "single_dashes ?h"
    using nl emp by (auto simp del: c_string_simps(2) intro!: lines_text_chars single_dashes_append)
  have l: "c_string (lines_text (line_chunks t))" "single_dashes (lines_text (line_chunks t))"
    using b body_line_facts by (simp_all add: lines_text_chars single_dashes_none)
  show "c_string (armor_body hs t)" using h l nl unfolding armor_body_def by simp
  have "single_dashes ([newline] @ ?h @ lines_text (line_chunks t) @ ?x)"
    using h(2) l(2) nl(2) emp by (intro single_dashes_append) simp_all
  then show "single_dashes (armor_body hs t)" by (simp add: armor_body_def)
  obtain ls l where ls: "line_chunks t = ls @ [l]"
    using concat_line_chunks [of t] assms(2) by (cases "line_chunks t" rule: rev_cases) simp_all
  let ?w = "newline # ?h @ lines_text ls"
  have "last ?w = newline" by (cases ls rule: rev_cases) simp_all
  then obtain z where z: "?w = z @ [newline]" by (metis append_butlast_last_id list.distinct(1))
  have fl: "newline \<notin> set l" "l \<noteq> []" "hd l \<noteq> chr CHR ''=''" using b ls body_line_facts by auto
  have e: "armor_body hs t = ?w @ l @ [newline] @ ?x" by (simp add: armor_body_def ls)
  show "\<exists>z l. armor_body hs t = z @ newline # l @ [newline] \<and> newline \<notin> set l \<and>
      hd (l @ [newline]) \<noteq> chr CHR ''=''"
  proof (cases "length t mod 64 = 0")
    case True
    then show ?thesis unfolding e
      by (intro exI [of _ "?w @ l"] exI [of _ "[]"]) (simp add: newline_def)
  next
    case False
    then show ?thesis unfolding e z using fl
      by (intro exI [of _ z] exI [of _ l]) simp
  qed
qed

lemma header_end_body:
  assumes "drop p mem = armor_body hs t @ dash # u" and "base64_line t" and "t \<noteq> []"
    and "\<forall>e \<in> set hs. header_ok e" and "stop = p + length (armor_body hs t)"
  shows "header_end mem p stop =
    Ret (if hs \<noteq> [] then Some (p + 1 + length (lines_text (map header_text hs)))
         else if length t mod 64 = 0 then Some (p + length (armor_body hs t) - 1) else None)"
proof -
  let ?C = "line_chunks t"
  let ?x = "if length t mod 64 = 0 then [newline] else []"
  have len: "stop \<le> length mem"
  proof -
    have "p + length (armor_body hs t @ dash # u) = length mem"
      using assms(1) by (metis add.commute append_Nil2 drop_all length_drop le_add_diff_inverse2
          linorder_le_cases list.distinct(1) append_is_Nil_conv)
    then show ?thesis using assms(5) by simp
  qed
  have body: "\<forall>l \<in> set ?C. nonblank l"
    using line_chunks_body [OF assms(2,3)] body_line_facts(1) by blast
  show ?thesis
  proof (cases "hs = []")
    case False
    let ?ls = "map header_text hs"
    have d: "drop p mem = [] @ newline # lines_text ?ls @ newline # lines_text ?C @ ?x @ dash # u"
      using assms(1) False by (simp add: armor_body_def)
    have "\<forall>l \<in> set ?ls. nonblank l" using assms(4) header_text_nonblank by simp
    then have "header_end mem p stop = Ret (Some (p + 1 + length (lines_text ?ls)))"
      using header_end_lines [OF d _ _ refl _ len] False assms(5) by (simp add: armor_body_def)
    then show ?thesis using False by simp
  next
    case True
    let ?q = "p + 1 + length (lines_text ?C)"
    have d: "drop p mem = [] @ newline # lines_text ?C @ hd (?x @ [dash]) # tl (?x @ dash # u)"
      using assms(1) True by (simp add: armor_body_def)
    have s: "stop = ?q + length ?x" using assms(5) True by (simp add: armor_body_def)
    have z: "hd (?x @ [dash]) = newline \<longleftrightarrow> length t mod 64 = 0"
      "hd (?x @ [dash]) = newline \<or> \<not> isspace (hd (?x @ [dash]))"
      using dash_not_newline by simp_all
    have "header_end mem p stop =
        (if hd (?x @ [dash]) = newline then Ret (Some ?q) else header_end mem ?q stop)"
      by (rule header_end_lines [OF d _ body _ _ len z(2)]) (use s in simp_all)
    moreover have "header_end mem ?q stop = Ret None" if "length t mod 64 \<noteq> 0"
      using s len that by (subst header_end.simps) simp
    ultimately show ?thesis using True z(1) by (simp add: armor_body_def)
  qed
qed

definition headers_of :: "(byte list \<times> byte list) list option \<Rightarrow> (byte list \<times> byte list) list" where
  "headers_of headers = (case headers of None \<Rightarrow> [] | Some h \<Rightarrow> h)"

lemma concat_chunks_decode:
  assumes "base64_codec encode_step encode_close decode" and "base64_line t" and "t \<noteq> []"
    and "base64_text encode_step encode_close data = t @ [newline]"
  shows "decode (newline # lines_text (line_chunks t) @ replicate k newline) = data"
proof -
  have nl: "\<forall>l \<in> set (line_chunks t). newline \<notin> set l"
    using line_chunks_body [OF assms(2,3)] body_line_facts(4) by blast
  then have "newline \<notin> set t" using concat_line_chunks [of t] by (metis UN_iff set_concat)
  then have "filter (\<lambda>c. c \<noteq> newline) t = t" by (auto simp: filter_id_conv)
  then have "filter (\<lambda>c. c \<noteq> newline) (newline # lines_text (line_chunks t) @ replicate k newline) =
      filter (\<lambda>c. c \<noteq> newline) (t @ [newline])"
    using lines_text_chars(3) [OF nl] concat_line_chunks [of t] by simp
  then show ?thesis
    using base64_codec.decode_newlines [OF assms(1)] base64_codec.decode_encode [OF assms(1)] assms(4)
    by metis
qed

lemma length_lines_text:
  "\<forall>l \<in> set ls. l \<noteq> [] \<Longrightarrow> length (lines_text ls) \<le> 2 * length (concat ls)"
proof (induction ls)
  case (Cons l ls)
  then show ?case by (cases l) simp_all
qed simp

lemma armor_parse_block_result:
  assumes codec: "base64_codec encode_step encode_close decode"
    and h: "header_end mem p (p + n) = Ret hend" and n: "n \<noteq> 0" "3 * n < 2 ^ 64"
    and d: "d = (case hend of None \<Rightarrow> p | Some h \<Rightarrow> h)" "p \<le> d" and alloc: "\<forall>n. secure_alloc n"
  shows "armor_parse_block secure secure_alloc decode mem p n headers =
    (let decoded = decode (take (p + n - d) (drop d mem)) in
     Ret (if decoded = [] then None
       else Some (decoded, case hend of None \<Rightarrow> headers
         | Some h \<Rightarrow> parse_header_lines (take (h - p) (drop p mem)) headers)))"
proof -
  let ?r = "take (p + n - d) (drop d mem)"
  have "length (decode ?r) \<le> 3 * length ?r div 4" by (rule base64_codec.decode_length [OF codec])
  also have "\<dots> \<le> (p + n - d) * 3 div 4" by (intro div_le_mono) simp
  finally have "\<not> wrap64 ((p + n - d) * 3) div 4 + 1 < length (decode ?r)"
    using n(2) d(2) by (simp add: wrap64_id)
  then show ?thesis
    using h n(1) alloc d(1) by (simp add: armor_parse_block_def Let_def split: option.split)
qed

lemma written_headers_Nil: "written_headers h = [] \<longleftrightarrow> h = []"
proof
  assume w: "written_headers h = []"
  then have "\<forall>k \<in> set ORDERED_HEADERS. k \<notin> fst ` set h"
    by (auto simp: written_headers_def map_of_eq_None_iff split: option.splits)
  then have "filter (\<lambda>e. fst e \<notin> set ORDERED_HEADERS) h = h" by (auto simp: filter_id_conv)
  then show "h = []" using w by (simp add: written_headers_def)
qed (simp add: written_headers_def ORDERED_HEADERS_def)

lemma write_armor:
  assumes "base64_text encode_step encode_close data = t @ [newline]"
    and "length t = 4 * ((length data + 2) div 3)" and "t \<noteq> []" and "length data < 2 ^ 58"
  shows "egg_armor_write encode_step encode_close data ty headers =
    Ret (ARMOR_PREF_BEGIN @ ty @ ARMOR_SUFF @ armor_body (written_headers (headers_of headers)) t @
      ARMOR_PREF_END @ ty @ ARMOR_SUFF @ [newline])"
proof -
  let ?n = "length data"
  have w: "wrap64 (?n * 4) = ?n * 4" using assms(4) by (simp add: wrap64_id)
  have "?n < 288230376151711744" using assms(4) by simp
  then have "?n * 4 div 3 + ?n * 4 div 195 + 7 < 18446744073709551616" by linarith
  then have "?n * 4 div 3 + ?n * 4 div 195 + 7 < 2 ^ 64" by simp
  then have e: "wrap64 (?n * 4 div 3 + ?n * 4 div 195 + 7) = ?n * 4 div 3 + ?n * 4 div 195 + 7"
    by (rule wrap64_id)
  have "4 * ((?n + 2) div 3) + 1 \<le> ?n * 4 div 3 + 7" by linarith
  then have fits: "\<not> ?n * 4 div 3 + ?n * 4 div 195 + 7 < length (t @ [newline])" using assms(2) by simp
  have h: "concat (map (ordered_header headers) ORDERED_HEADERS) @
      (case headers of None \<Rightarrow> []
       | Some h \<Rightarrow> if length h > 0 then concat (map append_each_header h) @ [newline] else []) =
      (if written_headers (headers_of headers) = [] then []
       else lines_text (map header_text (written_headers (headers_of headers))) @ [newline])"
  proof (cases headers)
    case None
    then show ?thesis
      using written_headers_Nil [of "[]"]
      by (simp add: headers_of_def ordered_header_def ORDERED_HEADERS_def)
  next
    case (Some h)
    then show ?thesis
      using ordered_headers_text [of h] written_headers_Nil [of h]
      by (cases "h = []") (auto simp: headers_of_def simp del: append_assoc simp flip: append_assoc)
  qed
  obtain body state where st: "encode_step data = (body, state)" by (cases "encode_step data")
  then have bt: "body @ encode_close state = t @ [newline]" using assms(1) by (simp add: base64_text_def)
  show ?thesis
    unfolding egg_armor_write_def Let_def st prod.case w bt
    using e fits h break_lines_text [OF assms(3)] by (simp add: armor_body_def)
qed


lemma armor_body_length:
  assumes "length t = 4 * ((length data + 2) div 3)" and "base64_line t" and "t \<noteq> []"
    and "length (lines_text (map header_text hs)) < 2 ^ 58" and "length data < 2 ^ 58"
  shows "3 * length (armor_body hs t) < 2 ^ 64"
proof -
  have "length (lines_text (line_chunks t)) \<le> 2 * length t"
    using length_lines_text [of "line_chunks t"] concat_line_chunks [of t]
      line_chunks_body [OF assms(2,3)] body_line_facts(5) by metis
  then have "length (armor_body hs t) \<le> 3 + length (lines_text (map header_text hs)) + 2 * length t"
    by (simp add: armor_body_def)
  moreover have "length t \<le> 4 * (length data + 2)" using assms(1) by simp
  moreover have "length data < 288230376151711744"
    "length (lines_text (map header_text hs)) < 288230376151711744" using assms(4,5) by simp_all
  ultimately have "length (armor_body hs t) \<le> 3 + 288230376151711744 + 2 * (4 * (288230376151711744 + 2))"
    by (meson add_mono le_trans less_imp_le mult_le_mono2 order_refl)
  then show ?thesis by simp
qed

text \<open>What is found in a body.\<close>

lemma armor_parse_body:
  assumes codec: "base64_codec encode_step encode_close decode" and alloc: "\<forall>n. secure_alloc n"
    and t: "base64_text encode_step encode_close data = t @ [newline]" "base64_line t" "t \<noteq> []"
    and data: "data \<noteq> []" and hs: "\<forall>e \<in> set hs. header_ok e"
    and d: "drop p mem = armor_body hs t @ dash # u" and small: "3 * length (armor_body hs t) < 2 ^ 64"
  shows "armor_parse_block secure secure_alloc decode mem p (length (armor_body hs t)) None =
    Ret (if hs = [] \<and> length t mod 64 = 0 then None
      else Some (data, if hs = [] then None else Some (map_of (rev hs))))"
proof -
  let ?b = "armor_body hs t" and ?C = "lines_text (line_chunks t)"
  let ?k = "if length t mod 64 = 0 then 1 else 0 :: nat"
  let ?H = "lines_text (map header_text hs)"
  have n: "length ?b \<noteq> 0" by (simp add: armor_body_def)
  have take: "take (p + length ?b - (p + m)) (drop (p + m) mem) = drop m ?b" for m
  proof -
    have "drop (p + m) mem = drop m (drop p mem)" by (simp add: add.commute)
    then show ?thesis unfolding d by (cases "m \<le> length ?b") simp_all
  qed
  note h = header_end_body [OF d t(2,3) hs refl]
  note r = armor_parse_block_result [OF codec _ n small _ _ alloc]
  have dec: "decode (newline # ?C @ replicate ?k newline) = data"
    by (rule concat_chunks_decode [OF codec t(2,3,1)])
  show ?thesis
  proof (cases "hs = []")
    case True
    have b: "?b = newline # ?C @ replicate ?k newline" using True by (simp add: armor_body_def)
    show ?thesis
    proof (cases "length t mod 64 = 0")
      case False
      then have "header_end mem p (p + length ?b) = Ret None" using h True by simp
      from r [OF this, where d = p and headers = None and secure = secure] show ?thesis
        using take [of 0] False True dec data b by (simp add: Let_def)
    next
      case m: True
      have e: "p + length ?b - 1 = p + (length ?b - 1)" using n by (cases ?b) simp_all
      have "header_end mem p (p + length ?b) = Ret (Some (p + (length ?b - 1)))"
        using h True m unfolding e by simp
      note r = r [OF this, where d = "p + (length ?b - 1)" and headers = None and secure = secure]
      have "decode [newline] = decode []" using base64_codec.decode_newlines [OF codec, of "[newline]"] by simp
      moreover have "decode [] = []" using base64_codec.decode_length [OF codec, of "[]"] by simp
      moreover have "drop (length ?b - 1) ?b = [newline]" using m by (simp add: b)
      ultimately show ?thesis
        using r take [of "length ?b - 1"] True m n by (simp add: Let_def)
    qed
  next
    case False
    then have "header_end mem p (p + length ?b) = Ret (Some (p + 1 + length ?H))" using h by simp
    note r = r [OF this, where d = "p + 1 + length ?H" and headers = None and secure = secure]
    have b: "?b = (newline # ?H) @ newline # ?C @ replicate ?k newline"
      using False by (simp add: armor_body_def)
    have "drop (1 + length ?H) ?b = newline # ?C @ replicate ?k newline" unfolding b by simp
    moreover have "take (1 + length ?H) (drop p mem) = newline # ?H" unfolding d b by simp
    ultimately show ?thesis
      using r take [of "1 + length ?H"] False dec data parse_header_lines_text [OF hs False]
      by (simp add: Let_def)
  qed
qed

text \<open>The loop over a text with one block.\<close>

definition armor_text :: "byte list \<Rightarrow> byte list \<Rightarrow> byte list" where
  "armor_text ty b = ARMOR_PREF_BEGIN @ ty @ ARMOR_SUFF @ b @ ARMOR_PREF_END @ ty @ ARMOR_SUFF @ [newline]"

lemma armor_text_body:
  "drop (length ty + 16) (armor_text ty b @ behind) =
     b @ ARMOR_PREF_END @ ty @ ARMOR_SUFF @ newline # behind"
  "length (armor_text ty b) = 2 * length ty + length b + 31"
proof -
  show "drop (length ty + 16) (armor_text ty b @ behind) =
      b @ ARMOR_PREF_END @ ty @ ARMOR_SUFF @ newline # behind"
    by (rule drop_at [of 0 _ "ARMOR_PREF_BEGIN @ ty @ ARMOR_SUFF"])
      (simp_all add: armor_text_def BEGIN_parts(2) SUFF_parts(2))
  show "length (armor_text ty b) = 2 * length ty + length b + 31"
    by (simp add: armor_text_def BEGIN_parts(2) SUFF_parts(2) END_parts(2))
qed

lemma armor_loop_text:
  assumes ty: "type_ok ty" and b: "c_string b" "single_dashes b"
    and z: "b = z @ newline # l @ [newline]" "newline \<notin> set l" "hd (l @ [newline]) \<noteq> chr CHR ''=''"
  shows "armor_loop secure secure_alloc decode (armor_text ty b @ behind) 0 (length (armor_text ty b)) None =
    obind (armor_found secure secure_alloc decode (armor_text ty b @ behind) ty 0 (length ty + 16)
        (length ty + 16 + length b) (length (armor_text ty b)) None)
      (\<lambda>(found, h). Ret found)"
proof -
  let ?mem = "armor_text ty b @ behind" and ?n = "length (armor_text ty b)"
  let ?beg = "length ty + 16" and ?stop = "length ty + 16 + length b"
  note d = armor_text_body(1) [of ty b behind] and n = armor_text_body(2) [of ty b]
  have start: "armor_find_begin ?mem 0 ?n = Ret (Some (ty, 0, ?beg))"
    using armor_find_begin_text [OF ty, of 0 ?mem] n by (simp add: armor_text_def)
  have fin: "armor_find_end ?mem ?beg (?n - ?beg) ty = Ret (Some (?stop, ?n))"
    using armor_find_end_text [OF ty d b z, of "?n - ?beg"] n by simp
  have e: "ARMOR_PREF_END = ARMOR_SUFF @ cstr ''END ''" by (simp add: ARMOR_PREF_END_def ARMOR_SUFF_def)
  have d2: "drop (?stop + 5) ?mem = cstr ''END '' @ ty @ ARMOR_SUFF @ newline # behind"
  proof (rule drop_at)
    show "drop ?beg ?mem = (b @ ARMOR_SUFF) @ cstr ''END '' @ ty @ ARMOR_SUFF @ newline # behind"
      using d unfolding e by simp
  qed (simp add: SUFF_parts(2))
  have "next": "armor_loop secure secure_alloc decode ?mem (?stop + 5) (length ty + 10) hs = Ret []" for hs
    using armor_find_begin_none [OF ty d2 refl] by (subst armor_loop.simps) simp
  have "?n - (?stop + 5) = length ty + 10" "?stop + 5 \<le> ?n" "0 < ?n" using n by simp_all
  then show ?thesis
    using start fin "next" by (subst armor_loop.simps) (simp add: Let_def)
qed

lemma armor_write_parse:
  assumes codec: "base64_codec encode_step encode_close decode"
    and data: "data \<noteq> []" "length data < 2 ^ 58" and ty: "type_ok ty"
    and hdr: "\<forall>e \<in> set (headers_of headers). header_ok e" "distinct (map fst (headers_of headers))"
      "length (lines_text (map header_text (written_headers (headers_of headers)))) < 2 ^ 58"
    and alloc: "\<forall>n. secure_alloc n"
  shows "\<exists>text. egg_armor_write encode_step encode_close data ty headers = Ret text \<and>
    egg_armor_parse secure secure_alloc decode (text @ behind) (length text) =
      (if headers_of headers = [] \<and> (length data + 2) div 3 mod 16 = 0 then Ret (0, [])
       else Ret (1, [\<lparr>armor_type = ty, armor_dec = data, armor_outer = text,
         armor_headers = (if headers_of headers = [] then None else Some (map_of (headers_of headers)))\<rparr>]))"
proof -
  let ?h = "headers_of headers"
  let ?es = "written_headers ?h"
  obtain t where t: "base64_text encode_step encode_close data = t @ [newline]"
    "length t = 4 * ((length data + 2) div 3)" "base64_line t"
    using base64_codec.encode_shape [OF codec] by blast
  have t0: "t \<noteq> []" using t(2) data(1) by (cases data) auto
  have es: "\<forall>e \<in> set ?es. header_ok e" "?es = [] \<longleftrightarrow> ?h = []"
    using hdr(1) set_written_headers [OF hdr(2)] by auto
  let ?b = "armor_body ?es t"
  let ?text = "armor_text ty ?b"
  let ?mem = "?text @ behind" and ?n = "length ?text"
  let ?beg = "length ty + 16" and ?stop = "length ty + 16 + length ?b"
  have w: "egg_armor_write encode_step encode_close data ty headers = Ret ?text"
    unfolding armor_text_def by (rule write_armor [OF t(1,2) t0 data(2)])
  note b = armor_body_text [OF t(3) t0 es(1)]
  then have loop: "armor_loop secure secure_alloc decode ?mem 0 ?n None =
      obind (armor_found secure secure_alloc decode ?mem ty 0 ?beg ?stop ?n None) (\<lambda>(found, h). Ret found)"
    using armor_loop_text [OF ty b(1,2)] by blast
  have blk: "length ?b \<noteq> 0" "3 * length ?b < 2 ^ 64"
    using armor_body_length [OF t(2,3) t0 hdr(3) data(2)] by (simp_all add: armor_body_def)
  have d': "drop ?beg ?mem = ?b @ dash # tl ARMOR_PREF_END @ ty @ ARMOR_SUFF @ newline # behind"
    unfolding armor_text_body by (simp add: ARMOR_PREF_END_def)
  have p: "armor_parse_block secure secure_alloc decode ?mem ?beg (length ?b) None =
      Ret (if ?es = [] \<and> length t mod 64 = 0 then None
        else Some (data, if ?es = [] then None else Some (map_of (rev ?es))))"
    by (rule armor_parse_body [OF codec alloc t(1,3) t0 data(1) es(1) d' blk(2)])
  have m: "length t mod 64 = 0 \<longleftrightarrow> (length data + 2) div 3 mod 16 = 0"
    unfolding t(2) by presburger
  have "?n > 0" by (simp add: armor_text_body(2))
  then have "armor_found secure secure_alloc decode ?mem ty 0 ?beg ?stop ?n None =
      (if ?h = [] \<and> (length data + 2) div 3 mod 16 = 0 then Ret ([], None)
       else Ret ([\<lparr>armor_type = ty, armor_dec = data, armor_outer = ?text,
          armor_headers = (if ?h = [] then None else Some (map_of ?h))\<rparr>],
        if ?h = [] then None else Some Map.empty))"
    unfolding armor_found_def using p blk(1) es(2) m map_of_written_headers [OF hdr(2)] by simp
  then have "egg_armor_parse secure secure_alloc decode ?mem ?n =
      (if ?h = [] \<and> (length data + 2) div 3 mod 16 = 0 then Ret (0, [])
       else Ret (1, [\<lparr>armor_type = ty, armor_dec = data, armor_outer = ?text,
         armor_headers = (if ?h = [] then None else Some (map_of ?h))\<rparr>]))"
    unfolding egg_armor_parse_def loop by (simp add: wrap32_def)
  then show ?thesis using w by blast
qed

text \<open>
  C25. A text written by \<^verbatim>\<open>egg_armor_write\<close> is parsed by \<^verbatim>\<open>egg_armor_parse\<close>, whatever follows it in
  memory: one block is found, with the type, the octets, the whole text and the headers that were
  written. There is one exception: without headers, and when the base64 text fills its last line of
  64 characters (46 to 48, 94 to 96, \<dots> octets), the writer leaves a blank line before the end line, the
  parser takes all before it for headers, and nothing is found.
\<close>

theorem egg_armor_roundtrip:
  assumes codec: "base64_codec encode_step encode_close decode"
    and data: "data \<noteq> []" "length data < 2 ^ 58" and ty: "type_ok ty"
    and hdr: "\<forall>e \<in> set (headers_of headers). header_ok e" "distinct (map fst (headers_of headers))"
      "length (lines_text (map header_text (written_headers (headers_of headers)))) < 2 ^ 58"
    and alloc: "\<forall>n. secure_alloc n"
  shows "\<exists>text. egg_armor_write encode_step encode_close data ty headers = Ret text \<and>
    egg_armor_parse secure secure_alloc decode (text @ behind) (length text) =
      (if headers_of headers = [] \<and> (length data + 2) div 3 mod 16 = 0 then Ret (0, [])
       else Ret (1, [\<lparr>armor_type = ty, armor_dec = data, armor_outer = text,
         armor_headers = (if headers_of headers = [] then None else Some (map_of (headers_of headers)))\<rparr>]))"
  by (rule armor_write_parse [OF assms])

theorem egg_armor_roundtrip_witness:
  "\<exists>text. egg_armor_write b64_step b64_close [7, 8, 9] (cstr ''CERTIFICATE'')
      (Some [(cstr ''Name'', cstr ''a b''), (cstr ''DEK-Info'', cstr ''DES-CBC,70'')]) = Ret text \<and>
    egg_armor_parse True (\<lambda>_. True) b64_decode (text @ [0]) (length text) =
      Ret (1, [\<lparr>armor_type = cstr ''CERTIFICATE'', armor_dec = [7, 8, 9], armor_outer = text,
        armor_headers = Some (map_of [(cstr ''Name'', cstr ''a b''), (cstr ''DEK-Info'', cstr ''DES-CBC,70'')])\<rparr>])"
proof -
  let ?h = "[(cstr ''Name'', cstr ''a b''), (cstr ''DEK-Info'', cstr ''DES-CBC,70'')]"
  have ty: "type_ok (cstr ''CERTIFICATE'')"
    by (simp add: type_ok_def newline_def single_dashes_none)
  have h: "\<forall>e \<in> set (headers_of (Some ?h)). header_ok e"
    by (simp add: headers_of_def header_ok_def newline_def single_dashes_def unspaced_def isspace_def
        word_le_nat_alt)
  have d: "distinct (map fst (headers_of (Some ?h)))" by (simp add: headers_of_def)
  have l: "length (lines_text (map header_text (written_headers (headers_of (Some ?h))))) < 2 ^ 58"
    by (simp add: headers_of_def written_headers_def ORDERED_HEADERS_def header_text_def)
  show ?thesis
    using egg_armor_roundtrip [OF b64.base64_codec_axioms _ _ ty h d l, of "[7, 8, 9]" "\<lambda>_. True" True "[0]"]
    by (simp add: headers_of_def)
qed

section \<open>Memory safety\<close>

lemma str_matches_returns: "length needle \<le> length s \<Longrightarrow> \<exists>m. str_matches needle s = Ret m"
  by (induction needle s rule: str_matches.induct) auto

lemma g_strstr_len_returns:
  assumes "n \<le> length s" and "needle \<noteq> []"
  shows "\<exists>r. g_strstr_len s n needle = Ret r"
  using assms(1)
proof (induction s arbitrary: n)
  case (Cons b s)
  show ?case
  proof (cases "n < length needle \<or> b = 0")
    case False
    then obtain m where m: "str_matches needle (b # s) = Ret m"
      using str_matches_returns [of needle "b # s"] Cons.prems by auto
    show ?thesis
    proof (cases m)
      case True
      then show ?thesis using m False by auto
    next
      case f: False
      obtain r where "g_strstr_len s (n - 1) needle = Ret r" using Cons by fastforce
      then show ?thesis using m f False by auto
    qed
  qed auto
qed (use assms(2) in simp)

lemma second_newline_bound:
  "i < length s \<Longrightarrow> s ! i = newline \<or> \<not> isspace (s ! i) \<Longrightarrow>
   \<exists>f j. second_newline s = Ret (f, j) \<and> j \<le> i"
proof (induction s arbitrary: i)
  case (Cons c s)
  then show ?case
  proof (cases "isspace c \<and> c \<noteq> newline")
    case True
    then obtain i' where "i = Suc i'" using Cons.prems by (cases i) auto
    then show ?thesis using Cons.IH [of i'] Cons.prems True by auto
  qed auto
qed simp

lemma header_end_returns:
  assumes "p \<le> stop" and "stop < length mem" and "mem ! stop = newline \<or> \<not> isspace (mem ! stop)"
  shows "\<exists>r. header_end mem p stop = Ret r \<and> (case r of None \<Rightarrow> True | Some h \<Rightarrow> p \<le> h \<and> h \<le> stop)"
  using assms
proof (induction mem p stop rule: header_end.induct)
  case (1 mem p stop)
  have n: "\<not> (stop < p \<or> length mem < stop)" using 1(2,3) by simp
  show ?case
  proof (cases "memchr (take (stop - p) (drop p mem)) newline")
    case None
    then show ?thesis unfolding header_end.simps [of mem p] if_not_P [OF n] None option.case by simp
  next
    case (Some k)
    let ?x = "p + k + 1"
    have x: "?x \<le> stop" using memchr_less [OF Some] 1(3) by simp
    then have "stop - ?x < length (drop ?x mem)" "drop ?x mem ! (stop - ?x) = mem ! stop"
      using 1(3) by simp_all
    then obtain f j where s: "second_newline (drop ?x mem) = Ret (f, j)" "j \<le> stop - ?x"
      using second_newline_bound [of "stop - ?x" "drop ?x mem"] 1(4) by auto
    show ?thesis
    proof (cases f)
      case True
      then show ?thesis unfolding header_end.simps [of mem p] if_not_P [OF n] using Some s x
        by (simp add: Let_def)
    next
      case False
      have "?x + j \<le> stop" using s(2) x by simp
      then have "\<exists>r. header_end mem (?x + j) stop = Ret r \<and>
          (case r of None \<Rightarrow> True | Some h \<Rightarrow> ?x + j \<le> h \<and> h \<le> stop)"
        using 1(1) [OF n Some refl, of f j] False 1(3,4) by simp
      then have "\<exists>r. header_end mem (?x + j) stop = Ret r \<and>
          (case r of None \<Rightarrow> True | Some h \<Rightarrow> p \<le> h \<and> h \<le> stop)"
        by (auto split: option.splits)
      moreover have "header_end mem p stop = header_end mem (?x + j) stop"
        unfolding header_end.simps [of mem p] if_not_P [OF n] using Some s False by (simp add: Let_def)
      ultimately show ?thesis by simp
    qed
  qed
qed

text \<open>What a begin line and an end line look like.\<close>

lemma take_drop_eq: "take n (drop i s) = a \<Longrightarrow> length a = n \<Longrightarrow> drop i s = a @ drop (i + n) s"
  by (metis add.commute append_take_drop_id drop_drop)

lemma armor_find_begin_Some:
  assumes "armor_find_begin mem data n_data = Ret (Some (ty, outer, beg))"
  shows "drop outer mem = ARMOR_PREF_BEGIN @ ty @ ARMOR_SUFF @ drop beg mem" and "beg = outer + 16 + length ty"
proof -
  obtain k j where k: "g_strstr_len (drop data mem) n_data ARMOR_PREF_BEGIN = Ret (Some k)"
    and j: "g_strstr_len (drop (data + k + 11) mem) (n_data - (k + 11)) ARMOR_SUFF = Ret (Some j)"
    and e: "outer = data + k" "beg = data + k + 11 + j + 5" "ty = take j (drop (data + k + 11) mem)"
    using assms by (auto simp: armor_find_begin_def obind_Ret_iff Let_def g_assert_def
        split: option.splits if_splits)
  have "take 11 (drop outer mem) = ARMOR_PREF_BEGIN"
    using g_strstr_len_SomeD [OF k] BEGIN_parts(2) e(1) by (simp add: add.commute)
  then have 1: "drop outer mem = ARMOR_PREF_BEGIN @ drop (outer + 11) mem"
    using take_drop_eq BEGIN_parts(2) by metis
  have "j + 5 \<le> length (drop (outer + 11) mem)"
    using g_strstr_len_bounds(2) [OF j] SUFF_parts(2,4) e(1) by simp
  then have ty: "length ty = j" using e(1,3) by simp
  then have 2: "drop (outer + 11) mem = ty @ drop (outer + 11 + j) mem"
    using take_drop_eq e(1,3) by metis
  have "take 5 (drop (outer + 11 + j) mem) = ARMOR_SUFF"
    using g_strstr_len_SomeD [OF j] SUFF_parts(2) e(1) by (simp add: add.commute)
  then have "drop (outer + 11 + j) mem = ARMOR_SUFF @ drop (outer + 11 + j + 5) mem"
    using take_drop_eq SUFF_parts(2) by metis
  then show "drop outer mem = ARMOR_PREF_BEGIN @ ty @ ARMOR_SUFF @ drop beg mem"
    using 1 2 e(1,2) by simp
  show "beg = outer + 16 + length ty" using e ty by simp
qed

lemma armor_find_begin_returns:
  assumes "data + n_data \<le> length mem"
  shows "\<exists>r. armor_find_begin mem data n_data = Ret r \<or>
    armor_find_begin mem data n_data = Abort \<and>
    (\<exists>i \<ge> data. i + 16 \<le> data + n_data \<and> take 16 (drop i mem) = ARMOR_PREF_BEGIN @ ARMOR_SUFF)"
proof -
  have len: "n_data \<le> length (drop data mem)" using assms by simp
  obtain r where r: "g_strstr_len (drop data mem) n_data ARMOR_PREF_BEGIN = Ret r"
    using g_strstr_len_returns [OF len BEGIN_parts(4)] by blast
  show ?thesis
  proof (cases r)
    case None
    then show ?thesis using r by (simp add: armor_find_begin_def)
  next
    case (Some k)
    note bounds = g_strstr_len_bounds [OF r [unfolded Some] BEGIN_parts(4)]
    have pre: "take 11 (drop (data + k) mem) = ARMOR_PREF_BEGIN"
      using g_strstr_len_SomeD [OF r [unfolded Some]] BEGIN_parts(2) by (simp add: add.commute)
    have "n_data - (k + 11) \<le> length (drop (data + k + 11) mem)"
      using assms bounds BEGIN_parts(2) by simp
    then obtain q where q: "g_strstr_len (drop (data + k + 11) mem) (n_data - (k + 11)) ARMOR_SUFF = Ret q"
      using g_strstr_len_returns SUFF_parts(4) by blast
    show ?thesis
    proof (cases "q = Some 0")
      case False
      then show ?thesis
      proof (cases q)
        case None
        then show ?thesis using r Some q by (simp add: armor_find_begin_def Let_def)
      next
        case s: (Some j)
        then have "0 < j" using False by simp
        then show ?thesis
          unfolding armor_find_begin_def r Some obind_simps option.case Let_def q s by auto
      qed
    next
      case True
      have "take 5 (drop (data + k + 11) mem) = ARMOR_SUFF"
        using g_strstr_len_SomeD [OF q [unfolded True]] SUFF_parts(2) by simp
      then have t: "take 16 (drop (data + k) mem) = ARMOR_PREF_BEGIN @ ARMOR_SUFF"
        using pre take_add [of 11 5 "drop (data + k) mem"] by (simp add: add.commute)
      have "k + 16 \<le> n_data" using g_strstr_len_bounds(1) [OF q [unfolded True] SUFF_parts(4)] SUFF_parts(2) by simp
      then have "data + k \<ge> data \<and> data + k + 16 \<le> data + n_data" by simp
      moreover have "armor_find_begin mem data n_data = Abort \<or> (\<exists>r. armor_find_begin mem data n_data = Ret r)"
        unfolding armor_find_begin_def r Some obind_simps option.case Let_def q True by auto
      ultimately show ?thesis using t by blast
    qed
  qed
qed

lemma last_newline_Some: "last_newline s = Some k \<Longrightarrow> k < length s \<and> s ! k = newline"
  by (induction s arbitrary: k) (auto split: option.splits if_splits)

text \<open>
  Where a block may end: in the data of \<open>n\<close> octets, or one octet behind it when the octet there is
  white space.
\<close>

definition ends_in :: "byte list \<Rightarrow> nat \<Rightarrow> nat \<Rightarrow> bool" where
  "ends_in mem n outer \<longleftrightarrow> outer \<le> n \<or> outer = n + 1 \<and> isspace (mem ! n)"

lemma armor_find_end_rest:
  assumes r: "g_strstr_len (drop data mem) n_data ARMOR_PREF_END = Ret (Some k)" and km: "k + 9 \<le> n_data"
    and n: "data + n_data < length mem"
    and line: "g_strrstr_newline (drop data mem) (int k - 1) = Ret line"
    and stop: "data \<le> stop \<and> stop \<le> data + k \<and> (mem ! stop = newline \<or> \<not> isspace (mem ! stop))"
    and e: "stop = (case line of None \<Rightarrow> data + k
      | Some l \<Rightarrow> if mem ! (data + l + 1) = chr CHR ''='' then data + l else data + k)"
  shows "\<exists>r. armor_find_end mem data n_data ty = Ret r \<and>
    (case r of None \<Rightarrow> True
     | Some (stop, outer) \<Rightarrow> data \<le> stop \<and> stop + 14 \<le> data + n_data \<and> data + 14 \<le> outer \<and>
         ends_in mem (data + n_data) outer \<and> (mem ! stop = newline \<or> \<not> isspace (mem ! stop)))"
proof (cases "armor_find_end mem data n_data ty = Ret None")
  case False
  have n1: "\<not> length ty > n_data - (k + 9)" using False r by (auto simp: armor_find_end_def Let_def)
  then have "length ty + (data + k + 9) \<le> length mem" using n km by linarith
  then have "length ty \<le> length (drop (data + k + 9) mem)" by simp
  then obtain s1 where s1: "str_matches ty (drop (data + k + 9) mem) = Ret s1"
    using str_matches_returns by blast
  have t1: "s1" using False r n1 s1 by (cases s1) (auto simp: armor_find_end_def Let_def)
  have n2: "\<not> 5 > n_data - (k + 9) - length ty"
    using False r n1 s1 t1 by (auto simp: armor_find_end_def Let_def)
  then have "length ARMOR_SUFF \<le> length (drop (data + k + 9 + length ty) mem)"
    using n km n1 SUFF_parts(2) by simp
  then obtain s2 where s2: "str_matches ARMOR_SUFF (drop (data + k + 9 + length ty) mem) = Ret s2"
    using str_matches_returns by blast
  have t2: "s2" using False r n1 s1 t1 n2 s2 by (cases s2) (auto simp: armor_find_end_def Let_def)
  obtain at where at: "data + k + 9 + length ty + 5 = at" by blast
  have m: "\<not> length mem \<le> at" using n km n1 n2 unfolding at [symmetric] by linarith
  have "armor_find_end mem data n_data ty = Ret (Some (stop, if isspace (mem ! at) then at + 1 else at))"
    unfolding armor_find_end_def r obind_simps option.case Let_def if_not_P [OF n1] s1 line
    using t1 n2 s2 t2 m e at by (simp split: option.split)
  moreover have "at \<le> data + n_data" "data + 14 \<le> at" "k + 14 \<le> n_data" using n1 n2 km at by linarith+
  moreover from this have "at = data + n_data \<or> at + 1 \<le> data + n_data" by linarith
  ultimately show ?thesis using stop by (auto simp: ends_in_def)
qed simp

lemma armor_find_end_returns:
  assumes "data + n_data < length mem" and "\<not> (9 \<le> n_data \<and> take 9 (drop data mem) = ARMOR_PREF_END)"
  shows "\<exists>r. armor_find_end mem data n_data ty = Ret r \<and>
    (case r of None \<Rightarrow> True
     | Some (stop, outer) \<Rightarrow> data \<le> stop \<and> stop + 14 \<le> data + n_data \<and> data + 14 \<le> outer \<and>
         ends_in mem (data + n_data) outer \<and> (mem ! stop = newline \<or> \<not> isspace (mem ! stop)))"
proof -
  have len: "n_data \<le> length (drop data mem)" using assms by simp
  obtain r where r: "g_strstr_len (drop data mem) n_data ARMOR_PREF_END = Ret r"
    using g_strstr_len_returns [OF len END_parts(4)] by blast
  show ?thesis
  proof (cases r)
    case None
    then show ?thesis using r by (simp add: armor_find_end_def)
  next
    case (Some k)
    note bounds = g_strstr_len_bounds [OF r [unfolded Some] END_parts(4)]
    have pre: "take 9 (drop (data + k) mem) = ARMOR_PREF_END"
      using g_strstr_len_SomeD [OF r [unfolded Some]] END_parts(2) by (simp add: add.commute)
    have km: "k + 9 \<le> n_data" using bounds(1) END_parts(2) by simp
    then have k0: "0 < k" using pre assms(2) by (cases k) simp_all
    have "data + k < length mem" using km assms(1) by linarith
    moreover have "hd (drop (data + k) mem) = dash"
      unfolding take_drop_eq [OF pre END_parts(2)] by (simp add: ARMOR_PREF_END_def)
    ultimately have dash_end: "mem ! (data + k) = dash"
      using hd_drop_conv_nth [of "data + k" mem] by metis
    let ?line = "last_newline (until_nul (take (k - 1) (drop data mem)))"
    have line: "g_strrstr_newline (drop data mem) (int k - 1) = Ret ?line"
    proof -
      have "nat (int k - 1) = k - 1" "0 \<le> int k - 1" using k0 by simp_all
      moreover have "\<not> length (drop data mem) < k - 1" using len km by simp
      ultimately show ?thesis by (simp add: g_strrstr_newline_def)
    qed
    let ?stop = "case ?line of None \<Rightarrow> data + k
      | Some l \<Rightarrow> if mem ! (data + l + 1) = chr CHR ''='' then data + l else data + k"
    have stop: "data \<le> ?stop \<and> ?stop \<le> data + k \<and> (mem ! ?stop = newline \<or> \<not> isspace (mem ! ?stop))"
    proof (cases ?line)
      case None
      then show ?thesis using dash_end dash_not_newline(2) by simp
    next
      case (Some l)
      let ?t = "take (k - 1) (drop data mem)"
      have l: "l < length (until_nul ?t)" "until_nul ?t ! l = newline" using last_newline_Some [OF Some] by simp_all
      moreover have "length (until_nul ?t) \<le> length ?t" unfolding until_nul_def by (rule length_takeWhile_le)
      moreover have "until_nul ?t ! l = ?t ! l" using l(1) unfolding until_nul_def by (rule takeWhile_nth)
      moreover have "drop data mem ! l = mem ! (data + l)" using assms(1) by (intro nth_drop) simp
      ultimately have "l < k - 1" "mem ! (data + l) = newline" by simp_all
      then have "l \<le> k" "mem ! (data + l) = newline" by simp_all
      then show ?thesis using Some dash_end dash_not_newline(2) by simp
    qed
    show ?thesis by (rule armor_find_end_rest [OF r [unfolded Some] km assms(1) line stop refl])
  qed
qed

lemma armor_parse_block_returns:
  assumes codec: "\<And>s. length (decode s) \<le> 3 * length s div 4"
    and n: "p < stop" "stop < length mem" "3 * length mem < 2 ^ 64"
    and z: "mem ! stop = newline \<or> \<not> isspace (mem ! stop)"
  shows "\<exists>r. armor_parse_block secure secure_alloc decode mem p (stop - p) headers = Ret r \<and>
    (case r of None \<Rightarrow> True | Some (dec, h) \<Rightarrow> dec \<noteq> [])"
proof -
  have s: "p + (stop - p) = stop" using n(1) by simp
  obtain hend where h: "header_end mem p stop = Ret hend"
    "case hend of None \<Rightarrow> True | Some h \<Rightarrow> p \<le> h \<and> h \<le> stop"
    using header_end_returns [of p stop mem] n z by auto
  define d where "d = (case hend of None \<Rightarrow> p | Some h \<Rightarrow> h)"
  let ?r = "take (stop - d) (drop d mem)"
  have "length (decode ?r) \<le> 3 * length ?r div 4" by (rule codec)
  also have "\<dots> \<le> (stop - d) * 3 div 4" by (intro div_le_mono) simp
  moreover have "wrap64 ((stop - d) * 3) = (stop - d) * 3"
  proof (rule wrap64_id)
    have "(stop - d) * 3 \<le> 3 * length mem" using n(2) by simp
    then show "(stop - d) * 3 < 2 ^ 64" using n(3) by (rule le_less_trans)
  qed
  ultimately have fits: "\<not> wrap64 ((stop - d) * 3) div 4 + 1 < length (decode ?r)" by simp
  show ?thesis
    unfolding armor_parse_block_def s h(1) obind_simps Let_def d_def [symmetric] if_not_P [OF fits]
    using n(1) by simp
qed

text \<open>
  A block that lies in the data of \<open>n\<close> octets, but that its text may take in one white space
  character behind the data.
\<close>

definition block_in :: "byte list \<Rightarrow> nat \<Rightarrow> armor_block \<Rightarrow> bool" where
  "block_in mem n b \<longleftrightarrow>
     armor_dec b \<noteq> [] \<and> armor_type b \<noteq> [] \<and>
     (\<exists>i k. ends_in mem n (i + k) \<and> armor_outer b = take k (drop i mem)) \<and>
     (\<exists>t. armor_outer b = ARMOR_PREF_BEGIN @ armor_type b @ ARMOR_SUFF @ t)"

lemma armor_found_safe:
  assumes codec: "\<And>s. length (decode s) \<le> 3 * length s div 4"
    and n: "n < length mem" "3 * length mem < 2 ^ 64"
    and d: "drop outer_beg mem = ARMOR_PREF_BEGIN @ ty @ ARMOR_SUFF @ drop beg mem"
      "beg = outer_beg + 16 + length ty" "outer_beg + 16 < beg"
    and e: "beg \<le> stop" "stop + 14 \<le> n" "beg + 14 \<le> outer_end" "ends_in mem n outer_end"
      "mem ! stop = newline \<or> \<not> isspace (mem ! stop)"
  shows "\<exists>found h. armor_found secure secure_alloc decode mem ty outer_beg beg stop outer_end headers =
      Ret (found, h) \<and> (\<forall>b \<in> set found. block_in mem n b)"
proof (cases "beg = stop")
  case False
  then obtain r where r: "armor_parse_block secure secure_alloc decode mem beg (stop - beg) headers = Ret r"
    "case r of None \<Rightarrow> True | Some (dec, h) \<Rightarrow> dec \<noteq> []"
    using armor_parse_block_returns [OF codec, of beg stop mem secure secure_alloc headers] n e by auto
  show ?thesis
  proof (cases r)
    case None
    then show ?thesis using r False by (simp add: armor_found_def)
  next
    case (Some p)
    then obtain dec h where p: "r = Some (dec, h)" "dec \<noteq> []" using r(2) by (cases p) auto
    let ?outer = "take (outer_end - outer_beg) (drop outer_beg mem)"
    have "outer_beg < outer_end" using d(3) e(3) by linarith
    moreover have "?outer = ARMOR_PREF_BEGIN @ ty @ ARMOR_SUFF @ take (outer_end - beg) (drop beg mem)"
      unfolding d(1) using d(2) e(3) BEGIN_parts(2) SUFF_parts(2) by (simp add: ac_simps)
    moreover have "ty \<noteq> []" using d(2,3) by auto
    moreover have "outer_beg + (outer_end - outer_beg) = outer_end" using e(3) d(3) by linarith
    then have "\<exists>i k. ends_in mem n (i + k) \<and> ?outer = take k (drop i mem)" using e(4) by metis
    ultimately have "block_in mem n \<lparr>armor_type = ty, armor_dec = dec, armor_outer = ?outer, armor_headers = h\<rparr>"
      using p(2) by (simp add: block_in_def)
    then show ?thesis
      using r(1) p False \<open>outer_beg < outer_end\<close> by (simp add: armor_found_def)
  qed
qed (simp add: armor_found_def)

lemma armor_loop_safe:
  assumes codec: "\<And>s. length (decode s) \<le> 3 * length s div 4"
    and n: "n < length mem" "3 * length mem < 2 ^ 64"
    and nobegin: "\<forall>i. i + 16 \<le> n \<longrightarrow> take 16 (drop i mem) \<noteq> ARMOR_PREF_BEGIN @ ARMOR_SUFF"
    and noend: "\<forall>i. i + 14 \<le> n \<longrightarrow> take 14 (drop i mem) \<noteq> ARMOR_SUFF @ ARMOR_PREF_END"
    and at: "at + n_at = n"
  shows "\<exists>bs. armor_loop secure secure_alloc decode mem at n_at headers = Ret bs \<and> (\<forall>b \<in> set bs. block_in mem n b)"
  using at
proof (induction "length mem - at" arbitrary: at n_at headers rule: less_induct)
  case less
  show ?case
  proof (cases "n_at = 0")
    case True
    then show ?thesis by (subst armor_loop.simps) simp
  next
    case False
    obtain r where b: "armor_find_begin mem at n_at = Ret r"
      using armor_find_begin_returns [of at n_at mem] less.prems n(1) nobegin by auto
    show ?thesis
    proof (cases r)
      case None
      then show ?thesis using b False by (subst armor_loop.simps) simp
    next
      case (Some rr)
      then obtain ty outer_beg beg where rr: "r = Some (ty, outer_beg, beg)" by (cases rr) auto
      note bb = armor_find_begin_bounds [OF b [unfolded rr]] armor_find_begin_Some [OF b [unfolded rr]]
      let ?n = "n_at - (beg - at)"
      have n': "beg + ?n = n" using bb(1-3) less.prems by linarith
      have pre: "take 14 (drop (beg - 5) mem) = ARMOR_SUFF @ ARMOR_PREF_END"
        if e: "take 9 (drop beg mem) = ARMOR_PREF_END"
      proof -
        have "drop (beg - 5) mem = ARMOR_SUFF @ drop beg mem"
          by (rule drop_at [of outer_beg mem "ARMOR_PREF_BEGIN @ ty"])
            (use bb(5,6) BEGIN_parts(2) in simp_all)
        then show ?thesis using e SUFF_parts(2) by simp
      qed
      show ?thesis
      proof (cases "beg + 9 \<le> n \<and> take 9 (drop beg mem) = ARMOR_PREF_END")
        case True
        then have "beg - 5 + 14 \<le> n" using bb(2) by linarith
        then show ?thesis using pre True noend by blast
      next
        case False
        then have "\<not> (9 \<le> ?n \<and> take 9 (drop beg mem) = ARMOR_PREF_END)" using n' by linarith
        then obtain q where q: "armor_find_end mem beg ?n ty = Ret q"
          "case q of None \<Rightarrow> True
           | Some (stop, outer) \<Rightarrow> beg \<le> stop \<and> stop + 14 \<le> beg + ?n \<and> beg + 14 \<le> outer \<and>
               ends_in mem (beg + ?n) outer \<and> (mem ! stop = newline \<or> \<not> isspace (mem ! stop))"
          using armor_find_end_returns [of beg ?n mem ty] n(1) n' by auto
        show ?thesis
        proof (cases q)
          case None
          then show ?thesis using b rr q False \<open>n_at \<noteq> 0\<close> by (subst armor_loop.simps) simp
        next
          case (Some qq)
          then obtain stop outer_end where qq: "q = Some (stop, outer_end)" by (cases qq) auto
          then have e: "beg \<le> stop" "stop + 14 \<le> n" "beg + 14 \<le> outer_end" "ends_in mem n outer_end"
            "mem ! stop = newline \<or> \<not> isspace (mem ! stop)" using q(2) n' by auto
          obtain found h where f: "armor_found secure secure_alloc decode mem ty outer_beg beg stop outer_end headers =
              Ret (found, h)" "\<forall>b \<in> set found. block_in mem n b"
            using armor_found_safe [OF codec n bb(5,6,2) e, of secure secure_alloc headers] by blast
          have "at < stop + 5" "at \<le> stop + 5" using e(1) bb(1,2) by linarith+
          moreover have "at < length mem" using n(1) less.prems False \<open>n_at \<noteq> 0\<close> by linarith
          ultimately have "length mem - (stop + 5) < length mem - at" by linarith
          moreover have "stop + 5 + (n_at - (stop + 5 - at)) = n" "stop + 5 - at \<le> n_at"
            using e(1,2) bb(1,2) less.prems by linarith+
          ultimately obtain rest where "armor_loop secure secure_alloc decode mem (stop + 5)
              (n_at - (stop + 5 - at)) h = Ret rest" "\<forall>b \<in> set rest. block_in mem n b"
            using less.hyps [of "stop + 5"] by blast
          then show ?thesis
            using b rr q qq f \<open>n_at \<noteq> 0\<close> \<open>stop + 5 - at \<le> n_at\<close>
            by (subst armor_loop.simps) (auto simp: Let_def)
        qed
      qed
    qed
  qed
qed

text \<open>A text in which a block is found, and a search that evaluates.\<close>

definition sample_armor :: "byte list" where
  "sample_armor = cstr ''-----BEGIN X-----'' @ [10] @ cstr ''BwgJ'' @ [10] @ cstr ''-----END X-----'' @ [10]"

fun occurs :: "byte list \<Rightarrow> byte list \<Rightarrow> bool" where
  "occurs needle [] = (needle = [])"
| "occurs needle (b # s) = (take (length needle) (b # s) = needle \<or> occurs needle s)"

lemma occurs_not: "\<not> occurs needle s \<Longrightarrow> length needle = n \<Longrightarrow> take n (drop i s) \<noteq> needle"
proof (induction s arbitrary: i)
  case (Cons b s)
  then show ?case by (cases i) auto
qed simp

lemma sample_armor_parsed:
  "egg_armor_parse False (\<lambda>_. True) b64_decode (sample_armor @ [0]) (length sample_armor) =
     Ret (1, [\<lparr>armor_type = cstr ''X'', armor_dec = [7, 8, 9], armor_outer = sample_armor, armor_headers = None\<rparr>])"
proof -
  have ty: "type_ok (cstr ''X'')" by (simp add: type_ok_def newline_def single_dashes_none)
  have "base64_text b64_step b64_close [7, 8, 9] = cstr ''BwgJ'' @ [newline]"
    by (simp add: b64_text b64_char_def base64_alphabet_def)
  from write_armor [OF this, of "cstr ''X''" None]
  have "egg_armor_write b64_step b64_close [7, 8, 9] (cstr ''X'') None = Ret sample_armor"
    using written_headers_Nil [of "[]"]
    by (simp add: headers_of_def armor_body_def sample_armor_def ARMOR_PREF_BEGIN_def ARMOR_SUFF_def
        ARMOR_PREF_END_def newline_def lines_text_def line_chunks.simps)
  then show ?thesis
    using armor_write_parse [OF b64.base64_codec_axioms _ _ ty, of "[7, 8, 9]" None "\<lambda>_. True" False "[0]"]
    by (simp add: headers_of_def written_headers_def lines_text_def ORDERED_HEADERS_def)
qed

text \<open>
  C26. Memory safety of \<^verbatim>\<open>egg_armor_parse\<close>. The octet behind the data is assumed to be readable, since
  the parser looks at it. On a text that has no begin line without a type (it aborts on one) and no
  begin line that is followed by an end line at once (it can leave the data then) the parser returns
  the number of the blocks it finds. Each of them has a type and contents, and its text starts with
  the begin line of its type and lies in the data, except that one white space character behind the
  data may be taken in.
\<close>

theorem egg_armor_parse_safe:
  assumes "base64_codec encode_step encode_close decode" and "n < length mem" and "3 * length mem < 2 ^ 64"
    and "\<forall>i. i + 16 \<le> n \<longrightarrow> take 16 (drop i mem) \<noteq> cstr ''-----BEGIN -----''"
    and "\<forall>i. i + 14 \<le> n \<longrightarrow> take 14 (drop i mem) \<noteq> cstr ''----------END ''"
  shows "\<exists>blocks. egg_armor_parse secure secure_alloc decode mem n = Ret (wrap32 (length blocks), blocks) \<and>
    (\<forall>b \<in> set blocks. block_in mem n b)"
proof -
  have "ARMOR_PREF_BEGIN @ ARMOR_SUFF = cstr ''-----BEGIN -----''"
    "ARMOR_SUFF @ ARMOR_PREF_END = cstr ''----------END ''"
    by (simp_all add: ARMOR_PREF_BEGIN_def ARMOR_SUFF_def ARMOR_PREF_END_def)
  then obtain bs where "armor_loop secure secure_alloc decode mem 0 n None = Ret bs"
    "\<forall>b \<in> set bs. block_in mem n b"
    using armor_loop_safe [OF base64_codec.decode_length [OF assms(1)] assms(2,3), of 0 n secure secure_alloc None]
      assms(4,5) by (auto simp del: cstr_simps)
  then show ?thesis by (simp add: egg_armor_parse_def)
qed

theorem egg_armor_parse_safe_witness:
  "\<exists>b. egg_armor_parse False (\<lambda>_. True) b64_decode (sample_armor @ [0]) (length sample_armor) = Ret (1, [b]) \<and>
    armor_dec b = [7, 8, 9] \<and> block_in (sample_armor @ [0]) (length sample_armor) b"
proof -
  have no: "take 16 (drop i (sample_armor @ [0])) \<noteq> cstr ''-----BEGIN -----''"
    "take 14 (drop i (sample_armor @ [0])) \<noteq> cstr ''----------END ''" for i
    by (rule occurs_not; simp add: sample_armor_def)+
  have "length sample_armor < length (sample_armor @ [0])" "3 * length (sample_armor @ [0]) < 2 ^ 64"
    by (simp_all add: sample_armor_def)
  from egg_armor_parse_safe [OF b64.base64_codec_axioms this, of False "\<lambda>_. True"] no
  have "\<exists>blocks. egg_armor_parse False (\<lambda>_. True) b64_decode (sample_armor @ [0]) (length sample_armor) =
      Ret (wrap32 (length blocks), blocks) \<and>
    (\<forall>b \<in> set blocks. block_in (sample_armor @ [0]) (length sample_armor) b)" by blast
  then show ?thesis unfolding sample_armor_parsed by auto
qed

text \<open>Without a readable octet behind the data, reading it is out of bounds.\<close>

lemma armor_find_end_overread:
  "armor_find_end (cstr ''-----BEGIN X-----'' @ 10 # cstr ''BwgJ'' @ 10 # cstr ''-----END X-----'') 17 21 (cstr ''X'') = Undef"
  by (simp add: armor_find_end_def g_strrstr_newline_def until_nul_def ARMOR_PREF_END_def ARMOR_SUFF_def
      newline_def isspace_def Let_def word_le_nat_alt)

text \<open>The two exceptions: a begin line without a type, and one with an end line behind it.\<close>

lemma egg_armor_parse_aborts:
  "egg_armor_parse False (\<lambda>_. False) decode (cstr ''-----BEGIN -----'' @ rest) 16 = Abort"
  by (subst egg_armor_parse_def, subst armor_loop.simps)
    (simp add: armor_find_begin_def ARMOR_PREF_BEGIN_def ARMOR_SUFF_def newline_def Let_def)

lemma armor_find_end_overrun:
  "armor_find_end (cstr ''-----BEGIN X----------END X-----'' @ [1, 10, 61, 0]) 17 15 (cstr ''X'') = Ret (Some (33, 32))"
  by (simp add: armor_find_end_def g_strrstr_newline_def until_nul_def ARMOR_PREF_END_def ARMOR_SUFF_def
      newline_def isspace_def Let_def word_le_nat_alt)

end
