(* ===== verification/Gcr_System_Prompter.thy ===== *)
theory Gcr_System_Prompter
  imports Egg_Prelude "HOL-Library.Multiset"
begin

text \<open>
  The system prompter, \<^verbatim>\<open>src/gcr/gcr-system-prompter.c\<close>: the D-Bus service that shows prompts for its
  callers, one at a time or many.

  The state is \<^verbatim>\<open>GcrSystemPrompterPrivate\<close>. The hash tables are lists of their entries; the order in
  which a table is iterated over is an argument. An \<^verbatim>\<open>ActivePrompt\<close> has an address and a count of
  references; access to a released one is \<open>Undef\<close>. The asynchronous operations that are under way, each
  with the \<^verbatim>\<open>ActivePrompt\<close> it holds a reference to, are the multiset \<open>pending\<close>. What the prompter does to
  the outside (calls on the bus and on prompts) is appended to \<open>sent\<close>.

  The handlers run one after the other in the main loop, so an event is the run of one handler. Arguments
  of the handlers stand for what the outside answers: the address of new memory, whether the
  \<^verbatim>\<open>new-prompt\<close> signal gave a prompt, the identifier of a new watch, whether the secret exchange accepts
  what was received, which properties a caller changes.
\<close>

section \<open>State\<close>

datatype GcrSystemPrompterMode = PROMPTER_SINGLE | PROMPTER_MULTIPLE

record Callback =
  cb_path :: string
  cb_name :: string

record ActivePrompt =
  refs :: nat
  callback :: Callback
  cancelled :: bool
  ready :: bool
  changed :: "string list"
  exchange :: bool
  received :: bool

datatype pending_op = ReadyCall | ConfirmOp | PasswordOp

datatype sent_secret = ExchangeBegin | ExchangeSend "string option"

datatype action =
  SendReady Callback string "string list" sent_secret
| SendDone Callback bool
| ReturnOk
| ReturnError
| StartOp pending_op nat
| CancelOp nat
| ClosePrompt nat
| NotifyPrompting

record prompter =
  mode :: GcrSystemPrompterMode
  registered :: bool
  connection :: bool
  callbacks :: "(Callback \<times> nat) list"
  active :: "(Callback \<times> nat) list"
  waiting :: "Callback list"
  watches :: "(nat \<times> string) list"
  heap :: "nat \<rightharpoonup> ActivePrompt"
  pending :: "(pending_op \<times> nat) multiset"
  sent :: "action list"

definition send :: "action \<Rightarrow> prompter \<Rightarrow> prompter" where
  "send a s = s\<lparr>sent := sent s @ [a]\<rparr>"

definition get_active :: "prompter \<Rightarrow> nat \<Rightarrow> ActivePrompt outcome" where
  "get_active s a = (case heap s a of None \<Rightarrow> Undef | Some ap \<Rightarrow> Ret ap)"

definition upd_active :: "nat \<Rightarrow> (ActivePrompt \<Rightarrow> ActivePrompt) \<Rightarrow> prompter \<Rightarrow> prompter outcome" where
  "upd_active a f s = obind (get_active s a) (\<lambda>ap. Ret (s\<lparr>heap := (heap s)(a \<mapsto> f ap)\<rparr>))"

text \<open>Hash tables with unique keys.\<close>

definition table_remove :: "'k \<Rightarrow> ('k \<times> 'v) list \<Rightarrow> ('k \<times> 'v) list" where
  "table_remove k t = filter (\<lambda>e. fst e \<noteq> k) t"

section \<open>Active prompts\<close>

definition active_prompt_ref :: "nat \<Rightarrow> prompter \<Rightarrow> prompter outcome" where
  "active_prompt_ref a s = upd_active a (\<lambda>ap. ap\<lparr>refs := Suc (refs ap)\<rparr>) s"

definition active_prompt_unref :: "nat \<Rightarrow> prompter \<Rightarrow> prompter outcome" where
  "active_prompt_unref a s =
     obind (get_active s a)
       (\<lambda>ap. if refs ap - 1 = 0 then Ret (s\<lparr>heap := (heap s)(a := None)\<rparr>)
             else Ret (s\<lparr>heap := (heap s)(a \<mapsto> ap\<lparr>refs := refs ap - 1\<rparr>)\<rparr>))"

definition on_prompt_notify :: "nat \<Rightarrow> string \<Rightarrow> prompter \<Rightarrow> prompter outcome" where
  "on_prompt_notify a name s =
     upd_active a (\<lambda>ap. ap\<lparr>changed := (if name \<in> set (changed ap) then changed ap else changed ap @ [name])\<rparr>) s"

text \<open>\<open>None\<close> when the signal gave no prompt: the memory is not released then, and not used again.\<close>

definition active_prompt_create ::
  "nat \<Rightarrow> bool \<Rightarrow> Callback \<Rightarrow> prompter \<Rightarrow> nat option \<times> prompter" where
  "active_prompt_create addr prompt lookup s =
     (let ap = \<lparr>refs = 1, callback = lookup, cancelled = False, ready = False, changed = [],
                exchange = False, received = False\<rparr>;
          s1 = s\<lparr>heap := (heap s)(addr \<mapsto> ap)\<rparr> in
      if \<not> prompt then (None, s1)
      else (Some addr, s1\<lparr>active := (lookup, addr) # table_remove lookup (active s1)\<rparr>))"

text \<open>The properties of the \<^verbatim>\<open>GcrPrompt\<close> interface, all of them strings, numbers or truth values.\<close>

definition prompt_interface_properties :: "string list" where
  "prompt_interface_properties =
     [''title'', ''message'', ''description'', ''warning'', ''password-new'', ''password-strength'',
      ''choice-label'', ''choice-chosen'', ''caller-window'', ''continue-label'', ''cancel-label'']"

definition prompt_build_properties :: "nat \<Rightarrow> prompter \<Rightarrow> (string list \<times> prompter) outcome" where
  "prompt_build_properties a s =
     obind (get_active s a)
       (\<lambda>ap. obind (upd_active a (\<lambda>ap. ap\<lparr>changed := []\<rparr>) s)
          (\<lambda>s1. Ret (filter (\<lambda>p. p \<in> set prompt_interface_properties) (changed ap), s1)))"

section \<open>Stopping and starting\<close>

definition prompt_stop_prompting :: "Callback \<Rightarrow> bool \<Rightarrow> bool \<Rightarrow> prompter \<Rightarrow> prompter outcome" where
  "prompt_stop_prompting cb send_done_message wait_for_reply s =
     (case map_of (callbacks s) cb of
        None \<Rightarrow> Ret s
      | Some watch \<Rightarrow>
          let s1 = s\<lparr>callbacks := table_remove cb (callbacks s), waiting := remove1 cb (waiting s)\<rparr> in
          obind
            (case map_of (active s1) cb of
               None \<Rightarrow> Ret s1
             | Some a \<Rightarrow>
                 obind (active_prompt_ref a s1) (\<lambda>s2.
                 obind (active_prompt_unref a (s2\<lparr>active := table_remove cb (active s2)\<rparr>)) (\<lambda>s3.
                 obind (get_active s3 a) (\<lambda>ap.
                 obind (if \<not> ready ap
                        then upd_active a (\<lambda>ap. ap\<lparr>cancelled := True\<rparr>) (send (CancelOp a) s3)
                        else Ret s3) (\<lambda>s4.
                 active_prompt_unref a (send (ClosePrompt a) s4))))))
            (\<lambda>s5.
               let s6 = (if send_done_message \<and> connection s5
                         then send (SendDone cb wait_for_reply) s5 else s5) in
               Ret (send NotifyPrompting (s6\<lparr>watches := table_remove watch (watches s6)\<rparr>))))"

text \<open>
  The reference for the call is taken before the call; without a connection the call fails, and nobody
  releases the reference.
\<close>

definition prompt_send_ready :: "nat \<Rightarrow> string \<Rightarrow> string option \<Rightarrow> prompter \<Rightarrow> prompter outcome" where
  "prompt_send_ready a response secret s =
     obind (get_active s a) (\<lambda>ap.
     g_assert (ready ap = False)
       (obind (upd_active a (\<lambda>ap. ap\<lparr>exchange := True\<rparr>) s) (\<lambda>s1.
        if \<not> received ap \<and> secret \<noteq> None then Ret s1
        else
          let out = (if \<not> received ap then ExchangeBegin else ExchangeSend secret) in
          obind (prompt_build_properties a s1) (\<lambda>(props, s2).
          obind (active_prompt_ref a s2) (\<lambda>s3.
            if connection s3
            then Ret (send (SendReady (callback ap) response props out)
                        (s3\<lparr>pending := add_mset (ReadyCall, a) (pending s3)\<rparr>))
            else Ret s3)))))"

definition prompt_next_ready :: "nat \<Rightarrow> bool \<Rightarrow> prompter \<Rightarrow> prompter outcome" where
  "prompt_next_ready addr prompt s =
     (if mode s = PROMPTER_SINGLE \<and> length (active s) > 0 then Ret s
      else
        case waiting s of
          [] \<Rightarrow> Ret s
        | cb # rest \<Rightarrow>
            let s1 = s\<lparr>waiting := rest\<rparr> in
            g_assert (map_of (active s1) cb = None)
              (case active_prompt_create addr prompt cb s1 of
                 (None, s2) \<Rightarrow> Ret s2
               | (Some a, s2) \<Rightarrow> prompt_send_ready a '''' None s2))"

section \<open>Handlers\<close>

definition on_prompt_close :: "nat \<Rightarrow> prompter \<Rightarrow> prompter outcome" where
  "on_prompt_close a s =
     obind (get_active s a) (\<lambda>ap. prompt_stop_prompting (callback ap) True False s)"

datatype call_result = CallOk | CallCancelled | CallFailed

text \<open>The handlers of operations take theirs out of \<open>pending\<close>; the reference is released at the end.\<close>

definition on_prompt_ready_complete ::
  "nat \<Rightarrow> call_result \<Rightarrow> nat \<Rightarrow> bool \<Rightarrow> prompter \<Rightarrow> prompter outcome" where
  "on_prompt_ready_complete a result addr prompt s0 =
     (let s = s0\<lparr>pending := pending s0 - {#(ReadyCall, a)#}\<rparr> in
      obind (get_active s a) (\<lambda>ap.
      g_assert (ready ap = False)
        (obind (upd_active a (\<lambda>ap. ap\<lparr>ready := True\<rparr>) s) (\<lambda>s1.
         obind
           (if result = CallCancelled \<and> cancelled ap then Ret s1
            else if result \<noteq> CallOk
            then obind (prompt_stop_prompting (callback ap) False False s1) (prompt_next_ready addr prompt)
            else Ret s1)
           (\<lambda>s2. active_prompt_unref a s2)))))"

definition on_prompt_password :: "nat \<Rightarrow> string option \<Rightarrow> prompter \<Rightarrow> prompter outcome" where
  "on_prompt_password a reply s0 =
     (let s = s0\<lparr>pending := pending s0 - {#(PasswordOp, a)#}\<rparr> in
      obind (get_active s a) (\<lambda>ap.
      g_assert (ready ap = False)
        (let response = (if reply = None then ''no'' else ''yes'') in
         obind (prompt_send_ready a response reply s) (active_prompt_unref a))))"

datatype GcrPromptReply = PROMPT_REPLY_CANCEL | PROMPT_REPLY_CONTINUE | PROMPT_REPLY_OTHER

definition on_prompt_confirm :: "nat \<Rightarrow> GcrPromptReply \<Rightarrow> prompter \<Rightarrow> prompter outcome" where
  "on_prompt_confirm a reply s0 =
     (let s = s0\<lparr>pending := pending s0 - {#(ConfirmOp, a)#}\<rparr> in
      obind (get_active s a) (\<lambda>ap.
      g_assert (ready ap = False)
        (let response = (case reply of PROMPT_REPLY_CONTINUE \<Rightarrow> ''yes'' | PROMPT_REPLY_CANCEL \<Rightarrow> ''no''
                         | PROMPT_REPLY_OTHER \<Rightarrow> '''') in
         obind (prompt_send_ready a response None s) (active_prompt_unref a))))"

text \<open>\<open>order\<close> are the keys of the table of callbacks, in the order of the iteration.\<close>

fun stop_each :: "Callback list \<Rightarrow> bool \<Rightarrow> bool \<Rightarrow> prompter \<Rightarrow> prompter outcome" where
  "stop_each [] d w s = Ret s"
| "stop_each (cb # cbs) d w s = obind (prompt_stop_prompting cb d w s) (stop_each cbs d w)"

definition on_caller_vanished :: "string \<Rightarrow> Callback list \<Rightarrow> prompter \<Rightarrow> prompter outcome" where
  "on_caller_vanished name order s = stop_each (filter (\<lambda>cb. name = cb_name cb) order) False False s"

definition prompter_method_begin_prompting ::
  "string \<Rightarrow> string \<Rightarrow> nat \<Rightarrow> nat \<Rightarrow> bool \<Rightarrow> prompter \<Rightarrow> prompter outcome" where
  "prompter_method_begin_prompting sender path watch_id addr prompt s =
     (let lookup = \<lparr>cb_path = path, cb_name = sender\<rparr> in
      if map_of (callbacks s) lookup \<noteq> None then Ret (send ReturnError s)
      else
        let s1 = s\<lparr>watches := (watch_id, sender) # watches s, callbacks := (lookup, watch_id) # callbacks s\<rparr>;
            s2 = send ReturnOk s1;
            s3 = send NotifyPrompting (s2\<lparr>waiting := waiting s2 @ [lookup]\<rparr>) in
        prompt_next_ready addr prompt s3)"

text \<open>Setting properties of a prompt makes it notify of them.\<close>

fun prompt_update_properties :: "nat \<Rightarrow> string list \<Rightarrow> prompter \<Rightarrow> prompter outcome" where
  "prompt_update_properties a [] s = Ret s"
| "prompt_update_properties a (p # ps) s = obind (on_prompt_notify a p s) (prompt_update_properties a ps)"

definition prompter_method_perform_prompt ::
  "string \<Rightarrow> string \<Rightarrow> string \<Rightarrow> string list \<Rightarrow> bool \<Rightarrow> prompter \<Rightarrow> prompter outcome" where
  "prompter_method_perform_prompt sender path type props exchange_ok s =
     (let lookup = \<lparr>cb_path = path, cb_name = sender\<rparr> in
      case map_of (active s) lookup of
        None \<Rightarrow> Ret (send ReturnError s)
      | Some a \<Rightarrow>
          obind (get_active s a) (\<lambda>ap.
            if \<not> ready ap then Ret (send ReturnError s)
            else
              obind (prompt_update_properties a props s) (\<lambda>s1.
              obind (upd_active a (\<lambda>ap. ap\<lparr>exchange := True\<rparr>) s1) (\<lambda>s2.
                if \<not> exchange_ok then Ret (send ReturnError s2)
                else
                  obind (upd_active a (\<lambda>ap. ap\<lparr>received := True\<rparr>) s2) (\<lambda>s3.
                    if type = ''confirm'' \<or> type = ''password'' then
                      let op = (if type = ''confirm'' then ConfirmOp else PasswordOp) in
                      obind (upd_active a (\<lambda>ap. ap\<lparr>ready := False\<rparr>) s3) (\<lambda>s4.
                      obind (active_prompt_ref a s4) (\<lambda>s5.
                        Ret (send ReturnOk (send (StartOp op a)
                          (s5\<lparr>pending := add_mset (op, a) (pending s5)\<rparr>)))))
                    else Ret (send ReturnError s3))))))"

definition prompter_method_stop_prompting ::
  "string \<Rightarrow> string \<Rightarrow> nat \<Rightarrow> bool \<Rightarrow> prompter \<Rightarrow> prompter outcome" where
  "prompter_method_stop_prompting sender path addr prompt s =
     obind (prompt_stop_prompting \<lparr>cb_path = path, cb_name = sender\<rparr> True False s)
       (\<lambda>s1. prompt_next_ready addr prompt (send ReturnOk s1))"

section \<open>The object\<close>

definition gcr_system_prompter_new :: "GcrSystemPrompterMode \<Rightarrow> prompter" where
  "gcr_system_prompter_new m =
     \<lparr>mode = m, registered = False, connection = False, callbacks = [], active = [], waiting = [],
      watches = [], heap = Map.empty, pending = {#}, sent = []\<rparr>"

text \<open>\<open>ok\<close> tells whether the object can be exported on the bus.\<close>

definition gcr_system_prompter_register :: "bool \<Rightarrow> prompter \<Rightarrow> prompter" where
  "gcr_system_prompter_register ok s =
     (if registered s \<or> connection s then s else s\<lparr>connection := True, registered := ok\<rparr>)"

definition gcr_system_prompter_unregister :: "bool \<Rightarrow> Callback list \<Rightarrow> prompter \<Rightarrow> prompter outcome" where
  "gcr_system_prompter_unregister wait order s =
     (if \<not> registered s then Ret s
      else
        obind (stop_each order True wait s) (\<lambda>s1.
        g_assert (length (active s1) = 0) (g_assert (length (callbacks s1) = 0) (g_assert (waiting s1 = [])
          (Ret (s1\<lparr>registered := False, connection := False\<rparr>))))))"

fun unref_each :: "nat list \<Rightarrow> prompter \<Rightarrow> prompter outcome" where
  "unref_each [] s = Ret s"
| "unref_each (a # as) s = obind (active_prompt_unref a s) (unref_each as)"

definition gcr_system_prompter_dispose :: "Callback list \<Rightarrow> prompter \<Rightarrow> prompter outcome" where
  "gcr_system_prompter_dispose order s =
     obind (if registered s then gcr_system_prompter_unregister False order s else Ret s) (\<lambda>s1.
     let watch_ids = map snd (callbacks s1);
         s2 = s1\<lparr>callbacks := [], watches := filter (\<lambda>e. fst e \<notin> set watch_ids) (watches s1)\<rparr> in
     obind (unref_each (map snd (active s2)) (s2\<lparr>active := []\<rparr>)) (\<lambda>s3. Ret (send NotifyPrompting s3)))"

definition gcr_system_prompter_finalize :: "prompter \<Rightarrow> unit outcome" where
  "gcr_system_prompter_finalize s = g_assert (connection s = False) (g_assert (registered s = False) (Ret ()))"

definition gcr_system_prompter_get_mode :: "prompter \<Rightarrow> GcrSystemPrompterMode" where
  "gcr_system_prompter_get_mode s = mode s"

definition gcr_system_prompter_get_prompting :: "prompter \<Rightarrow> bool" where
  "gcr_system_prompter_get_prompting s \<longleftrightarrow> length (callbacks s) \<noteq> 0"

section \<open>Events\<close>

datatype event =
  Register bool
| Unregister bool "Callback list"
| BeginPrompting string string nat nat bool
| PerformPrompt string string string "string list" bool
| StopPrompting string string nat bool
| CallerVanished string "Callback list"
| PromptNotify nat string
| PromptClose nat
| ReadyComplete nat call_result nat bool
| PasswordComplete nat "string option"
| ConfirmComplete nat GcrPromptReply

fun handle :: "event \<Rightarrow> prompter \<Rightarrow> prompter outcome" where
  "handle (Register ok) s = Ret (gcr_system_prompter_register ok s)"
| "handle (Unregister wait order) s = gcr_system_prompter_unregister wait order s"
| "handle (BeginPrompting sender path w addr p) s = prompter_method_begin_prompting sender path w addr p s"
| "handle (PerformPrompt sender path type props ok) s =
     prompter_method_perform_prompt sender path type props ok s"
| "handle (StopPrompting sender path addr p) s = prompter_method_stop_prompting sender path addr p s"
| "handle (CallerVanished name order) s = on_caller_vanished name order s"
| "handle (PromptNotify a p) s = on_prompt_notify a p s"
| "handle (PromptClose a) s = on_prompt_close a s"
| "handle (ReadyComplete a r addr p) s = on_prompt_ready_complete a r addr p s"
| "handle (PasswordComplete a reply) s = on_prompt_password a reply s"
| "handle (ConfirmComplete a reply) s = on_prompt_confirm a reply s"

abbreviation keys :: "('k \<times> 'v) list \<Rightarrow> 'k list" where
  "keys t \<equiv> map fst t"

text \<open>
  When an event can come: methods are called while the object is exported, signals come from prompts
  that are active (the others are disposed of, which disconnects their signals), operations complete that are under way, new addresses and watches are not in
  use, and an iteration meets each key once.
\<close>

fun enabled :: "event \<Rightarrow> prompter \<Rightarrow> bool" where
  "enabled (Register ok) s \<longleftrightarrow> True"
| "enabled (Unregister wait order) s \<longleftrightarrow> distinct order \<and> set order = set (keys (callbacks s))"
| "enabled (BeginPrompting sender path w addr p) s \<longleftrightarrow>
     registered s \<and> w \<notin> set (keys (watches s)) \<and> heap s addr = None"
| "enabled (PerformPrompt sender path type props ok) s \<longleftrightarrow> registered s"
| "enabled (StopPrompting sender path addr p) s \<longleftrightarrow> registered s \<and> heap s addr = None"
| "enabled (CallerVanished name order) s \<longleftrightarrow> distinct order \<and> set order = set (keys (callbacks s))"
| "enabled (PromptNotify a p) s \<longleftrightarrow> a \<in> snd ` set (active s)"
| "enabled (PromptClose a) s \<longleftrightarrow> a \<in> snd ` set (active s)"
| "enabled (ReadyComplete a r addr p) s \<longleftrightarrow> (ReadyCall, a) \<in># pending s \<and> heap s addr = None"
| "enabled (PasswordComplete a reply) s \<longleftrightarrow> (PasswordOp, a) \<in># pending s"
| "enabled (ConfirmComplete a reply) s \<longleftrightarrow> (ConfirmOp, a) \<in># pending s"

text \<open>Events of a run in which prompts can be made, and that ends when nothing is under way.\<close>

fun quiet :: "event \<Rightarrow> prompter \<Rightarrow> bool" where
  "quiet (BeginPrompting sender path w addr p) s \<longleftrightarrow> p"
| "quiet (StopPrompting sender path addr p) s \<longleftrightarrow> p"
| "quiet (ReadyComplete a r addr p) s \<longleftrightarrow> p"
| "quiet (Unregister wait order) s \<longleftrightarrow> pending s = {#}"
| "quiet e s \<longleftrightarrow> True"

inductive prompter_reached :: "bool \<Rightarrow> prompter \<Rightarrow> bool" for q where
  created: "prompter_reached q (gcr_system_prompter_new m)"
| handled: "prompter_reached q s \<Longrightarrow> enabled e s \<Longrightarrow> (q \<longrightarrow> quiet e s) \<Longrightarrow> handle e s = Ret s' \<Longrightarrow>
    prompter_reached q s'"

section \<open>Invariant\<close>

text \<open>References of an address: from the table of active prompts, from operations under way.\<close>

definition in_table :: "prompter \<Rightarrow> nat \<Rightarrow> nat" where
  "in_table s a = (if a \<in> snd ` set (active s) then 1 else 0)"

definition under_way :: "prompter \<Rightarrow> nat \<Rightarrow> nat" where
  "under_way s a = size (filter_mset (\<lambda>p. snd p = a) (pending s))"

text \<open>
  \<open>held\<close> are the references of the handler that runs, and \<open>busy\<close> are the addresses whose state it
  has not finished with. With \<open>q\<close> the references are accounted for exactly.
\<close>

definition prompt_ok :: "bool \<Rightarrow> nat \<Rightarrow> nat \<Rightarrow> nat \<Rightarrow> bool \<Rightarrow> ActivePrompt \<Rightarrow> bool" where
  "prompt_ok q tab way held busy ap \<longleftrightarrow>
     (if q then refs ap = tab + way + held else tab + way + held \<le> refs ap) \<and> 0 < refs ap \<and>
     way \<le> 1 \<and> (way = 1 \<longrightarrow> \<not> ready ap) \<and> (tab = 1 \<and> \<not> busy \<longrightarrow> ready ap = (way = 0))"

definition heap_ok :: "bool \<Rightarrow> (nat \<Rightarrow> nat) \<Rightarrow> nat set \<Rightarrow> prompter \<Rightarrow> bool" where
  "heap_ok q held busy s \<longleftrightarrow>
     (\<forall>a. heap s a = None \<longrightarrow> in_table s a = 0 \<and> under_way s a = 0 \<and> held a = 0) \<and>
     (\<forall>a ap. heap s a = Some ap \<longrightarrow> prompt_ok q (in_table s a) (under_way s a) (held a) (a \<in> busy) ap) \<and>
     (\<forall>a ap. heap s a = Some ap \<longrightarrow> (PasswordOp, a) \<in># pending s \<longrightarrow> received ap)"

definition tables_ok :: "bool \<Rightarrow> prompter \<Rightarrow> bool" where
  "tables_ok q s \<longleftrightarrow>
     distinct (keys (callbacks s)) \<and> distinct (keys (active s)) \<and> distinct (waiting s) \<and>
     distinct (map snd (active s)) \<and> set (keys (active s)) \<subseteq> set (keys (callbacks s)) \<and>
     set (waiting s) \<subseteq> set (keys (callbacks s)) \<and> set (waiting s) \<inter> set (keys (active s)) = {} \<and>
     (q \<longrightarrow> set (keys (callbacks s)) \<subseteq> set (keys (active s)) \<union> set (waiting s)) \<and>
     (mode s = PROMPTER_SINGLE \<longrightarrow> length (active s) \<le> 1) \<and>
     (\<forall>e \<in> set (active s). \<exists>ap. heap s (snd e) = Some ap \<and> callback ap = fst e) \<and>
     (\<not> connection s \<longrightarrow> callbacks s = [] \<and> (q \<longrightarrow> pending s = {#})) \<and> (registered s \<longrightarrow> connection s)"

definition watches_ok :: "prompter \<Rightarrow> bool" where
  "watches_ok s \<longleftrightarrow>
     distinct (keys (watches s)) \<and> distinct (map snd (callbacks s)) \<and>
     set (keys (watches s)) = snd ` set (callbacks s) \<and>
     (\<forall>e \<in> set (callbacks s). (snd e, cb_name (fst e)) \<in> set (watches s))"

definition prompter_inv :: "bool \<Rightarrow> (nat \<Rightarrow> nat) \<Rightarrow> nat set \<Rightarrow> prompter \<Rightarrow> bool" where
  "prompter_inv q held busy s \<longleftrightarrow> heap_ok q held busy s \<and> tables_ok q s \<and> watches_ok s"

lemma prompter_invD:
  assumes "prompter_inv q held busy s"
  shows "heap_ok q held busy s" "tables_ok q s" "watches_ok s"
  using assms by (simp_all add: prompter_inv_def)

lemma inv_SomeD:
  "prompter_inv q held busy s \<Longrightarrow> heap s a = Some ap \<Longrightarrow>
     prompt_ok q (in_table s a) (under_way s a) (held a) (a \<in> busy) ap"
  unfolding prompter_inv_def heap_ok_def by blast

lemma inv_NoneD:
  "prompter_inv q held busy s \<Longrightarrow> heap s a = None \<Longrightarrow> in_table s a = 0 \<and> under_way s a = 0 \<and> held a = 0"
  unfolding prompter_inv_def heap_ok_def by blast

lemma inv_heap:
  "prompter_inv q held busy s \<Longrightarrow> 0 < in_table s a + under_way s a + held a \<Longrightarrow> \<exists>ap. heap s a = Some ap"
  using inv_NoneD [of q held busy s a] by (cases "heap s a") auto

lemma send_fields [simp]:
  "heap (send x s) = heap s" "active (send x s) = active s" "callbacks (send x s) = callbacks s"
  "waiting (send x s) = waiting s" "watches (send x s) = watches s" "pending (send x s) = pending s"
  "mode (send x s) = mode s" "connection (send x s) = connection s" "registered (send x s) = registered s"
  by (simp_all add: send_def)

lemma send_counts [simp]: "in_table (send x s) = in_table s" "under_way (send x s) = under_way s"
  by (simp_all add: in_table_def under_way_def fun_eq_iff)

lemma send_inv [simp]: "prompter_inv q held busy (send x s) = prompter_inv q held busy s"
  by (simp add: prompter_inv_def heap_ok_def tables_ok_def watches_ok_def)

lemma heap_counts [simp]:
  "in_table (s\<lparr>heap := h\<rparr>) = in_table s" "under_way (s\<lparr>heap := h\<rparr>) = under_way s"
  by (simp_all add: in_table_def under_way_def fun_eq_iff)

lemma inv_receivedD:
  "prompter_inv q held busy s \<Longrightarrow> heap s a = Some ap \<Longrightarrow> (PasswordOp, a) \<in># pending s \<Longrightarrow> received ap"
  unfolding prompter_inv_def heap_ok_def by blast

lemma heap_okI:
  assumes "\<And>a. heap s a = None \<Longrightarrow> in_table s a = 0 \<and> under_way s a = 0 \<and> held a = 0"
    and "\<And>a ap. heap s a = Some ap \<Longrightarrow> prompt_ok q (in_table s a) (under_way s a) (held a) (a \<in> busy) ap \<and>
      ((PasswordOp, a) \<in># pending s \<longrightarrow> received ap)"
  shows "heap_ok q held busy s"
  using assms unfolding heap_ok_def by blast

lemma not_pending: "under_way s a = 0 \<Longrightarrow> (op, a) \<notin># pending s"
  unfolding under_way_def by (auto simp: filter_mset_eq_conv dest: multi_member_split)

text \<open>A change of one prompt, or its release.\<close>

lemma inv_change:
  assumes "prompter_inv q held busy s" and "heap s a = Some ap"
    and "callback ap' = callback ap" "received ap \<longrightarrow> received ap'"
    and "prompt_ok q (in_table s a) (under_way s a) (held' a) (a \<in> busy') ap'"
    and "\<And>b. b \<noteq> a \<Longrightarrow> held' b = held b" and "\<And>b. b \<noteq> a \<Longrightarrow> b \<in> busy' \<longleftrightarrow> b \<in> busy"
  shows "prompter_inv q held' busy' (s\<lparr>heap := (heap s)(a \<mapsto> ap')\<rparr>)"
proof -
  have "heap_ok q held' busy' (s\<lparr>heap := (heap s)(a \<mapsto> ap')\<rparr>)"
  proof (rule heap_okI)
    fix b assume "heap (s\<lparr>heap := (heap s)(a \<mapsto> ap')\<rparr>) b = None"
    then show "in_table (s\<lparr>heap := (heap s)(a \<mapsto> ap')\<rparr>) b = 0 \<and>
        under_way (s\<lparr>heap := (heap s)(a \<mapsto> ap')\<rparr>) b = 0 \<and> held' b = 0"
      using inv_NoneD [OF assms(1), of b] assms(6) [of b] by (simp split: if_splits)
  next
    fix b bp assume "heap (s\<lparr>heap := (heap s)(a \<mapsto> ap')\<rparr>) b = Some bp"
    then show "prompt_ok q (in_table (s\<lparr>heap := (heap s)(a \<mapsto> ap')\<rparr>) b)
        (under_way (s\<lparr>heap := (heap s)(a \<mapsto> ap')\<rparr>) b) (held' b) (b \<in> busy') bp \<and>
        ((PasswordOp, b) \<in># pending (s\<lparr>heap := (heap s)(a \<mapsto> ap')\<rparr>) \<longrightarrow> received bp)"
      using inv_SomeD [OF assms(1), of b] inv_receivedD [OF assms(1), of b] assms(2,4,5) assms(6,7) [of b]
      by (auto split: if_splits)
  qed
  moreover have "tables_ok q (s\<lparr>heap := (heap s)(a \<mapsto> ap')\<rparr>)"
    using prompter_invD(2) [OF assms(1)] assms(2,3) unfolding tables_ok_def by auto
  ultimately show ?thesis
    using prompter_invD(3) [OF assms(1)] by (simp add: prompter_inv_def watches_ok_def)
qed

lemma inv_release:
  assumes "prompter_inv q held busy s" and "in_table s a = 0" and "under_way s a = 0" and "held' a = 0"
    and "\<And>b. b \<noteq> a \<Longrightarrow> held' b = held b" and "\<And>b. b \<noteq> a \<Longrightarrow> b \<in> busy' \<longleftrightarrow> b \<in> busy"
  shows "prompter_inv q held' busy' (s\<lparr>heap := (heap s)(a := None)\<rparr>)"
proof -
  have "heap_ok q held' busy' (s\<lparr>heap := (heap s)(a := None)\<rparr>)"
  proof (rule heap_okI)
    fix b assume "heap (s\<lparr>heap := (heap s)(a := None)\<rparr>) b = None"
    then show "in_table (s\<lparr>heap := (heap s)(a := None)\<rparr>) b = 0 \<and>
        under_way (s\<lparr>heap := (heap s)(a := None)\<rparr>) b = 0 \<and> held' b = 0"
      using inv_NoneD [OF assms(1), of b] assms(2-4) assms(5) [of b] by (cases "b = a") auto
  next
    fix b bp assume "heap (s\<lparr>heap := (heap s)(a := None)\<rparr>) b = Some bp"
    then show "prompt_ok q (in_table (s\<lparr>heap := (heap s)(a := None)\<rparr>) b)
        (under_way (s\<lparr>heap := (heap s)(a := None)\<rparr>) b) (held' b) (b \<in> busy') bp \<and>
        ((PasswordOp, b) \<in># pending (s\<lparr>heap := (heap s)(a := None)\<rparr>) \<longrightarrow> received bp)"
      using inv_SomeD [OF assms(1), of b] inv_receivedD [OF assms(1), of b] assms(5,6) [of b]
      by (simp split: if_splits)
  qed
  moreover have "a \<notin> snd ` set (active s)" using assms(2) by (simp add: in_table_def split: if_splits)
  then have "tables_ok q (s\<lparr>heap := (heap s)(a := None)\<rparr>)"
    using prompter_invD(2) [OF assms(1)] unfolding tables_ok_def by (auto simp: image_iff)
  ultimately show ?thesis
    using prompter_invD(3) [OF assms(1)] by (simp add: prompter_inv_def watches_ok_def)
qed


section \<open>References\<close>

definition one_less :: "ActivePrompt \<Rightarrow> ActivePrompt option" where
  "one_less ap = (if refs ap - 1 = 0 then None else Some (ap\<lparr>refs := refs ap - 1\<rparr>))"

lemma ref_eq: "heap s a = Some ap \<Longrightarrow> active_prompt_ref a s = Ret (s\<lparr>heap := (heap s)(a \<mapsto> ap\<lparr>refs := Suc (refs ap)\<rparr>)\<rparr>)"
  by (simp add: active_prompt_ref_def upd_active_def get_active_def)

lemma unref_eq: "heap s a = Some ap \<Longrightarrow> active_prompt_unref a s = Ret (s\<lparr>heap := (heap s)(a := one_less ap)\<rparr>)"
  by (simp add: active_prompt_unref_def get_active_def one_less_def)

lemma upd_eq: "heap s a = Some ap \<Longrightarrow> upd_active a f s = Ret (s\<lparr>heap := (heap s)(a \<mapsto> f ap)\<rparr>)"
  by (simp add: upd_active_def get_active_def)

lemma get_eq: "heap s a = Some ap \<Longrightarrow> get_active s a = Ret ap"
  by (simp add: get_active_def)

text \<open>What a handler that holds a reference does when it ends.\<close>

lemma inv_unref:
  assumes inv: "prompter_inv q held busy s" and held: "0 < held a"
  obtains h where "active_prompt_unref a s = Ret (s\<lparr>heap := h\<rparr>)" and "dom h \<subseteq> dom (heap s)"
    and "prompter_inv q (held(a := held a - 1)) busy (s\<lparr>heap := h\<rparr>)"
proof -
  obtain ap where ap: "heap s a = Some ap" using inv_heap [OF inv, of a] held by auto
  have ok: "prompt_ok q (in_table s a) (under_way s a) (held a) (a \<in> busy) ap" by (rule inv_SomeD [OF inv ap])
  show thesis
  proof (cases "refs ap - 1 = 0")
    case True
    then have "in_table s a = 0" "under_way s a = 0" "held a = 1"
      using ok held by (auto simp: prompt_ok_def split: if_splits)
    then have "prompter_inv q (held(a := held a - 1)) busy (s\<lparr>heap := (heap s)(a := None)\<rparr>)"
      by (intro inv_release [OF inv]) auto
    then show thesis using True by (intro that [OF unref_eq [OF ap]]) (auto simp: one_less_def)
  next
    case False
    then have "prompt_ok q (in_table s a) (under_way s a) (held a - 1) (a \<in> busy) (ap\<lparr>refs := refs ap - 1\<rparr>)"
      using ok held by (auto simp: prompt_ok_def split: if_splits)
    then have "prompter_inv q (held(a := held a - 1)) busy (s\<lparr>heap := (heap s)(a \<mapsto> ap\<lparr>refs := refs ap - 1\<rparr>)\<rparr>)"
      by (intro inv_change [OF inv ap]) auto
    then show thesis using False ap by (intro that [OF unref_eq [OF ap]]) (auto simp: one_less_def)
  qed
qed

section \<open>Stopping\<close>

lemma map_of_remove: "map_of (table_remove k t) k' = (if k' = k then None else map_of t k')"
  by (induction t) (auto simp: table_remove_def)

lemma table_remove_absent: "k \<notin> set (keys t) \<Longrightarrow> table_remove k t = t"
  by (auto simp: table_remove_def filter_id_conv)

lemma set_table_remove: "set (table_remove k t) = {e \<in> set t. fst e \<noteq> k}"
  by (simp add: table_remove_def)

lemma keys_table_remove: "set (keys (table_remove k t)) = set (keys t) - {k}"
  by (auto simp: table_remove_def)

lemma distinct_table_remove:
  "distinct (keys t) \<Longrightarrow> distinct (keys (table_remove k t))"
  "distinct (map snd t) \<Longrightarrow> distinct (map snd (table_remove k t))"
  by (auto simp: table_remove_def distinct_map inj_on_def)

lemma length_table_remove: "length (table_remove k t) \<le> length t"
  by (simp add: table_remove_def)

lemma values_table_remove:
  assumes "distinct (keys t)" and "distinct (map snd t)" and "map_of t k = Some v"
  shows "snd ` set (table_remove k t) = snd ` set t - {v}"
proof -
  have kv: "(k, v) \<in> set t" using assms(3) by (rule map_of_SomeD)
  have inj: "inj_on fst (set t)" "inj_on snd (set t)" using assms(1,2) by (simp_all add: distinct_map)
  have "fst e = k \<longleftrightarrow> snd e = v" if "e \<in> set t" for e
    by (metis fst_conv snd_conv kv that inj_onD [OF inj(1)] inj_onD [OF inj(2)])
  then show ?thesis by (auto simp: set_table_remove image_iff)
qed

text \<open>The prompt that is taken out of the table: cancelled when it was not ready, and one reference less.\<close>

definition closed_prompt :: "ActivePrompt \<Rightarrow> ActivePrompt option" where
  "closed_prompt ap = one_less (if ready ap then ap else ap\<lparr>cancelled := True\<rparr>)"

definition stopped :: "Callback \<Rightarrow> prompter \<Rightarrow> prompter" where
  "stopped cb s =
     s\<lparr>callbacks := table_remove cb (callbacks s), waiting := remove1 cb (waiting s),
       active := table_remove cb (active s),
       watches := (case map_of (callbacks s) cb of None \<Rightarrow> watches s | Some w \<Rightarrow> table_remove w (watches s)),
       heap := (case map_of (active s) cb of
                  None \<Rightarrow> heap s
                | Some a \<Rightarrow> (heap s)(a := closed_prompt (the (heap s a))))\<rparr>"


lemma stop_eq:
  assumes inv: "prompter_inv q held busy s"
  obtains x where "prompt_stop_prompting cb d w s = Ret ((stopped cb s)\<lparr>sent := x\<rparr>)"
proof (cases "map_of (callbacks s) cb")
  case None
  have t: "tables_ok q s" by (rule prompter_invD(2) [OF inv])
  have cb: "cb \<notin> set (keys (callbacks s))" using None by (simp add: map_of_eq_None_iff)
  then have "cb \<notin> set (keys (active s))" "cb \<notin> set (waiting s)" using t unfolding tables_ok_def by blast+
  moreover have "map_of (active s) cb = None" using calculation(1) by (simp add: map_of_eq_None_iff)
  ultimately have "stopped cb s = s"
    using cb None by (simp add: stopped_def table_remove_absent remove1_idem del: map_of_eq_None_iff)
  then show thesis using None by (intro that [of "sent s"]) (simp add: prompt_stop_prompting_def)
next
  case (Some watch)
  define done_msg where "done_msg = (if d \<and> connection s then [SendDone cb w] else []) @ [NotifyPrompting]"
  show thesis
  proof (cases "map_of (active s) cb")
    case None
    then have "table_remove cb (active s) = active s" by (simp add: table_remove_absent map_of_eq_None_iff)
    then show thesis using Some None
      by (intro that [of "sent s @ done_msg"])
        (simp add: prompt_stop_prompting_def stopped_def send_def Let_def done_msg_def)
  next
    fix a assume a: "map_of (active s) cb = Some a"
    then have "a \<in> snd ` set (active s)" using map_of_SomeD by force
    then have "in_table s a = 1" by (simp add: in_table_def)
    then obtain ap where ap: "heap s a = Some ap" using inv_heap [OF inv, of a] by auto
    have refs: "0 < refs ap" using inv_SomeD [OF inv ap] by (simp add: prompt_ok_def)
    define ap' where "ap' = (if ready ap then ap else ap\<lparr>cancelled := True\<rparr>)"
    define s1 where "s1 = s\<lparr>callbacks := table_remove cb (callbacks s), waiting := remove1 cb (waiting s)\<rparr>"
    define s3 where "s3 = s1\<lparr>active := table_remove cb (active s)\<rparr>"
    have heaps: "heap s1 a = Some ap" "heap s3 a = Some ap" "active s1 = active s"
      using ap by (simp_all add: s1_def s3_def)
    have unref1: "active_prompt_unref a (s1\<lparr>heap := (heap s1)(a \<mapsto> ap\<lparr>refs := Suc (refs ap)\<rparr>),
        active := table_remove cb (active s)\<rparr>) = Ret s3"
      using refs heaps by (simp add: unref_eq one_less_def s3_def fun_upd_idem)
    obtain x where cancel: "(if \<not> ready ap then upd_active a (\<lambda>ap. ap\<lparr>cancelled := True\<rparr>) (send (CancelOp a) s3)
        else Ret s3) = Ret (s3\<lparr>heap := (heap s3)(a \<mapsto> ap'), sent := x\<rparr>)"
      using heaps by (intro that [of "if ready ap then sent s3 else sent s3 @ [CancelOp a]"])
        (simp add: upd_active_def get_active_def ap'_def send_def fun_upd_idem)
    have unref2: "active_prompt_unref a (send (ClosePrompt a) (s3\<lparr>heap := (heap s3)(a \<mapsto> ap'), sent := x\<rparr>)) =
        Ret (s3\<lparr>heap := (heap s3)(a := one_less ap'), sent := x @ [ClosePrompt a]\<rparr>)"
      by (simp add: unref_eq send_def)
    show thesis
      using Some a ap heaps unref1 cancel unref2
      by (intro that [of "(x @ [ClosePrompt a]) @ done_msg"])
        (simp add: prompt_stop_prompting_def s1_def [symmetric] ref_eq get_eq stopped_def closed_prompt_def
          ap'_def [symmetric] Let_def, simp add: send_def s3_def s1_def done_msg_def)
  qed
qed


lemma stopped_fields [simp]:
  "callbacks (stopped cb s) = table_remove cb (callbacks s)" "waiting (stopped cb s) = remove1 cb (waiting s)"
  "active (stopped cb s) = table_remove cb (active s)" "pending (stopped cb s) = pending s"
  "mode (stopped cb s) = mode s" "connection (stopped cb s) = connection s"
  "registered (stopped cb s) = registered s"
  by (simp_all add: stopped_def)

lemma under_way_pending: "pending s' = pending s \<Longrightarrow> under_way s' = under_way s"
  by (simp add: under_way_def fun_eq_iff)

lemma in_table_active: "active s' = active s \<Longrightarrow> in_table s' = in_table s"
  by (simp add: in_table_def fun_eq_iff)

lemma sent_inv [simp]: "prompter_inv q held busy (s\<lparr>sent := x\<rparr>) = prompter_inv q held busy s"
  by (simp add: prompter_inv_def heap_ok_def tables_ok_def watches_ok_def in_table_def under_way_def)

lemma in_table_cases: "in_table s a = (if \<exists>cb. (cb, a) \<in> set (active s) then 1 else 0)"
  by (force simp: in_table_def)

lemma active_heap:
  assumes "prompter_inv q held busy s" and "(cb, a) \<in> set (active s)"
  obtains ap where "heap s a = Some ap" "callback ap = cb" "0 < refs ap"
proof -
  obtain ap where ap: "heap s a = Some ap" "callback ap = cb"
    using prompter_invD(2) [OF assms(1)] assms(2) by (fastforce simp: tables_ok_def)
  then show thesis using inv_SomeD [OF assms(1) ap(1)] by (intro that) (auto simp: prompt_ok_def)
qed

lemma heap_stopped:
  assumes inv: "prompter_inv q held busy s"
  shows "heap (stopped cb s) b =
    (if (cb, b) \<in> set (active s) then closed_prompt (the (heap s b)) else heap s b)"
proof -
  have d: "distinct (keys (active s))" using prompter_invD(2) [OF inv] by (simp add: tables_ok_def)
  show ?thesis
    using d by (auto simp: stopped_def split: option.splits dest: map_of_SomeD)
qed

lemma prompt_ok_closed:
  assumes "prompt_ok q 1 way held busy ap"
  shows "closed_prompt ap = None \<Longrightarrow> way = 0 \<and> held = 0"
    and "closed_prompt ap = Some bp \<Longrightarrow> prompt_ok q 0 way held busy' bp \<and> received bp = received ap"
proof -
  assume "closed_prompt ap = None"
  then have "refs ap \<le> 1" by (simp add: closed_prompt_def one_less_def split: if_splits)
  then show "way = 0 \<and> held = 0" using assms by (simp add: prompt_ok_def split: if_splits)
next
  assume "closed_prompt ap = Some bp"
  then have "1 < refs ap" "refs bp = refs ap - 1" "ready bp = ready ap" "received bp = received ap"
    by (auto simp: closed_prompt_def one_less_def split: if_splits)
  then show "prompt_ok q 0 way held busy' bp \<and> received bp = received ap"
    using assms unfolding prompt_ok_def by (simp split: if_splits) linarith+
qed

lemma heap_ok_stopped:
  assumes inv: "prompter_inv q held busy s"
  shows "heap_ok q held busy (stopped cb s)"
proof -
  have d: "distinct (map snd (active s))" "distinct (keys (active s))"
    using prompter_invD(2) [OF inv] by (simp_all add: tables_ok_def)
  have way: "under_way (stopped cb s) = under_way s" by (rule under_way_pending) simp
  have tab: "in_table (stopped cb s) b = (if (cb, b) \<in> set (active s) then 0 else in_table s b)" for b
  proof (cases "(cb, b) \<in> set (active s)")
    case True
    have "c = cb" if "(c, b) \<in> set (active s)" for c
      using d(1) inj_onD [of snd "set (active s)" "(c, b)" "(cb, b)"] True that by (simp add: distinct_map)
    then have "\<not> (\<exists>c. (c, b) \<in> set (table_remove cb (active s)))" unfolding set_table_remove by auto
    then show ?thesis using True by (simp add: in_table_cases)
  next
    case False
    then have "(\<exists>c. (c, b) \<in> set (table_remove cb (active s))) = (\<exists>c. (c, b) \<in> set (active s))"
      unfolding set_table_remove by auto
    then show ?thesis using False by (simp add: in_table_cases)
  qed
  have gone: "\<exists>ap. heap s b = Some ap \<and> prompt_ok q 1 (under_way s b) (held b) (b \<in> busy) ap \<and>
      heap (stopped cb s) b = closed_prompt ap" if entry: "(cb, b) \<in> set (active s)" for b
  proof -
    obtain ap where ap: "heap s b = Some ap" using entry by (rule active_heap [OF inv])
    have "in_table s b = 1" using entry by (auto simp: in_table_cases)
    then show ?thesis using inv_SomeD [OF inv ap] ap entry by (simp add: heap_stopped [OF inv])
  qed
  show ?thesis
  proof (rule heap_okI)
    fix b assume h: "heap (stopped cb s) b = None"
    show "in_table (stopped cb s) b = 0 \<and> under_way (stopped cb s) b = 0 \<and> held b = 0"
    proof (cases "(cb, b) \<in> set (active s)")
      case True
      obtain ap where ap: "prompt_ok q 1 (under_way s b) (held b) (b \<in> busy) ap" "closed_prompt ap = None"
        using gone [OF True] h by auto
      show ?thesis using prompt_ok_closed(1) [OF ap] True way tab [of b] by simp
    next
      case False
      then show ?thesis using h inv_NoneD [OF inv, of b] way tab [of b] by (simp add: heap_stopped [OF inv])
    qed
  next
    fix b bp assume h: "heap (stopped cb s) b = Some bp"
    show "prompt_ok q (in_table (stopped cb s) b) (under_way (stopped cb s) b) (held b) (b \<in> busy) bp \<and>
      ((PasswordOp, b) \<in># pending (stopped cb s) \<longrightarrow> received bp)"
    proof (cases "(cb, b) \<in> set (active s)")
      case True
      obtain ap where ap: "heap s b = Some ap" "prompt_ok q 1 (under_way s b) (held b) (b \<in> busy) ap"
        "closed_prompt ap = Some bp" using gone [OF True] h by auto
      show ?thesis
        using prompt_ok_closed(2) [OF ap(2,3), of "b \<in> busy"] inv_receivedD [OF inv ap(1)] True way tab [of b]
        by simp
    next
      case False
      then show ?thesis
        using h inv_SomeD [OF inv, of b] inv_receivedD [OF inv, of b] way tab [of b]
        by (simp add: heap_stopped [OF inv])
    qed
  qed
qed

lemma tables_ok_stopped:
  assumes inv: "prompter_inv q held busy s"
  shows "tables_ok q (stopped cb s)"
proof -
  have t: "tables_ok q s" by (rule prompter_invD(2) [OF inv])
  have d: "distinct (map snd (active s))" "distinct (keys (active s))" using t by (simp_all add: tables_ok_def)
  have prompts: "\<exists>ap. heap (stopped cb s) (snd e) = Some ap \<and> callback ap = fst e"
    if e: "e \<in> set (active s)" "fst e \<noteq> cb" for e
  proof -
    obtain ap where "heap s (snd e) = Some ap" "callback ap = fst e"
      using active_heap [OF inv, of "fst e" "snd e"] e by auto
    moreover have "(cb, snd e) \<notin> set (active s)"
      using d(1) e by (metis distinct_map fst_conv inj_onD snd_conv)
    ultimately show ?thesis by (simp add: heap_stopped [OF inv])
  qed
  have w: "set (remove1 cb (waiting s)) = set (waiting s) - {cb}" "distinct (remove1 cb (waiting s))"
    using t by (simp_all add: tables_ok_def set_remove1_eq)
  have sub: "set (keys (active s)) - {cb} \<subseteq> set (keys (callbacks s)) - {cb}"
    "set (waiting s) - {cb} \<subseteq> set (keys (callbacks s)) - {cb}"
    "(set (waiting s) - {cb}) \<inter> (set (keys (active s)) - {cb}) = {}"
    using t unfolding tables_ok_def by blast+
  have q: "q \<longrightarrow> set (keys (callbacks s)) - {cb} \<subseteq> (set (keys (active s)) - {cb}) \<union> (set (waiting s) - {cb})"
    using t unfolding tables_ok_def by blast
  have dt: "distinct (keys (callbacks s))" "distinct (keys (active s))" "distinct (map snd (active s))"
    using t by (simp_all add: tables_ok_def)
  have "mode s = PROMPTER_SINGLE \<longrightarrow> length (table_remove cb (active s)) \<le> 1"
    using t length_table_remove [of cb "active s"] unfolding tables_ok_def by linarith
  moreover have "\<not> connection s \<longrightarrow> table_remove cb (callbacks s) = [] \<and> (q \<longrightarrow> pending s = {#})" "registered s \<longrightarrow> connection s"
    using t by (simp_all add: tables_ok_def table_remove_def)
  moreover have "\<forall>e \<in> set (table_remove cb (active s)). \<exists>ap. heap (stopped cb s) (snd e) = Some ap \<and> callback ap = fst e"
    using prompts by (simp add: set_table_remove)
  ultimately show ?thesis
    unfolding tables_ok_def stopped_fields keys_table_remove w(1)
    using w(2) sub q distinct_table_remove(1) [OF dt(1)] distinct_table_remove(1) [OF dt(2)]
      distinct_table_remove(2) [OF dt(3)]
    by (intro conjI) assumption+
qed

lemma watches_ok_stopped:
  assumes inv: "prompter_inv q held busy s"
  shows "watches_ok (stopped cb s)"
proof (cases "map_of (callbacks s) cb")
  case None
  then have "table_remove cb (callbacks s) = callbacks s" by (simp add: table_remove_absent map_of_eq_None_iff)
  then show ?thesis using prompter_invD(3) [OF inv] None by (simp add: watches_ok_def stopped_def)
next
  case (Some w)
  have d: "distinct (keys (callbacks s))" using prompter_invD(2) [OF inv] by (simp add: tables_ok_def)
  have k: "watches_ok s" by (rule prompter_invD(3) [OF inv])
  then have ds: "distinct (map snd (callbacks s))" by (simp add: watches_ok_def)
  have v: "snd ` set (table_remove cb (callbacks s)) = snd ` set (callbacks s) - {w}"
    by (rule values_table_remove [OF d ds Some])
  then have ne: "snd e \<noteq> w" if "e \<in> set (table_remove cb (callbacks s))" for e using that by blast
  have "\<forall>e \<in> set (table_remove cb (callbacks s)). (snd e, cb_name (fst e)) \<in> set (table_remove w (watches s))"
  proof
    fix e assume e: "e \<in> set (table_remove cb (callbacks s))"
    then have "(snd e, cb_name (fst e)) \<in> set (watches s)"
      using k unfolding watches_ok_def set_table_remove by blast
    then show "(snd e, cb_name (fst e)) \<in> set (table_remove w (watches s))"
      using ne [OF e] by (simp add: set_table_remove)
  qed
  moreover have "distinct (keys (table_remove w (watches s)))"
    using k by (intro distinct_table_remove) (simp add: watches_ok_def)
  moreover have "distinct (map snd (table_remove cb (callbacks s)))" by (rule distinct_table_remove(2) [OF ds])
  moreover have "set (keys (table_remove w (watches s))) = snd ` set (table_remove cb (callbacks s))"
    using k unfolding v keys_table_remove by (simp add: watches_ok_def)
  ultimately show ?thesis
    using Some unfolding watches_ok_def by (simp add: stopped_def)
qed

text \<open>Stopping keeps the invariant, with any references the caller holds.\<close>

lemma inv_stop:
  assumes inv: "prompter_inv q held busy s"
  obtains x where "prompt_stop_prompting cb d w s = Ret ((stopped cb s)\<lparr>sent := x\<rparr>)"
    and "prompter_inv q held busy ((stopped cb s)\<lparr>sent := x\<rparr>)"
proof -
  obtain x where x: "prompt_stop_prompting cb d w s = Ret ((stopped cb s)\<lparr>sent := x\<rparr>)" by (rule stop_eq [OF inv])
  have "prompter_inv q held busy (stopped cb s)"
    using heap_ok_stopped [OF inv] tables_ok_stopped [OF inv] watches_ok_stopped [OF inv]
    by (simp add: prompter_inv_def)
  then show thesis by (intro that [OF x]) simp
qed

lemma dom_stopped:
  assumes "prompter_inv q held busy s"
  shows "dom (heap (stopped cb s)) \<subseteq> dom (heap s)"
proof
  fix b assume "b \<in> dom (heap (stopped cb s))"
  then obtain bp where bp: "heap (stopped cb s) b = Some bp" by auto
  show "b \<in> dom (heap s)"
  proof (cases "(cb, b) \<in> set (active s)")
    case True
    then obtain ap where "heap s b = Some ap" by (rule active_heap [OF assms])
    then show ?thesis by auto
  next
    case False
    then show ?thesis using bp by (simp add: heap_stopped [OF assms] dom_def)
  qed
qed


section \<open>Operations under way\<close>

lemma under_way_add:
  "under_way (s\<lparr>heap := h, pending := add_mset (op, a) (pending s)\<rparr>) b =
     (if b = a then Suc (under_way s b) else under_way s b)"
  by (simp add: under_way_def)

lemma under_way_remove:
  assumes "(op, a) \<in># pending s"
  shows "under_way (s\<lparr>pending := pending s - {#(op, a)#}\<rparr>) b =
     (if b = a then under_way s b - 1 else under_way s b)"
proof -
  obtain p where "pending s = add_mset (op, a) p" using assms by (rule mset_add)
  then show ?thesis by (simp add: under_way_def)
qed

lemma pending_counts [simp]:
  "in_table (s\<lparr>pending := p\<rparr>) = in_table s" "in_table (s\<lparr>heap := h, pending := p\<rparr>) = in_table s"
  by (simp_all add: in_table_def fun_eq_iff)

text \<open>An operation starts that holds a reference.\<close>

lemma inv_start:
  assumes inv: "prompter_inv q held busy s" and ap: "heap s a = Some ap" and way: "under_way s a = 0"
    and ap': "callback ap' = callback ap" "refs ap' = Suc (refs ap)" "\<not> ready ap'" "received ap \<longrightarrow> received ap'"
    and op: "op = PasswordOp \<longrightarrow> received ap'" and conn: "connection s"
  shows "prompter_inv q held (busy - {a})
    (s\<lparr>heap := (heap s)(a \<mapsto> ap'), pending := add_mset (op, a) (pending s)\<rparr>)" (is "prompter_inv q held _ ?s")
proof -
  have ok: "prompt_ok q (in_table s a) 1 (held a) False ap'"
    using inv_SomeD [OF inv ap] way ap' unfolding prompt_ok_def by (simp split: if_splits)
  have "heap_ok q held (busy - {a}) ?s"
  proof (rule heap_okI)
    fix b assume "heap ?s b = None"
    then show "in_table ?s b = 0 \<and> under_way ?s b = 0 \<and> held b = 0"
      using inv_NoneD [OF inv, of b] by (simp add: under_way_add split: if_splits)
  next
    fix b bp assume h: "heap ?s b = Some bp"
    show "prompt_ok q (in_table ?s b) (under_way ?s b) (held b) (b \<in> busy - {a}) bp \<and>
        ((PasswordOp, b) \<in># pending ?s \<longrightarrow> received bp)"
    proof (cases "b = a")
      case True
      then show ?thesis using h ok way op not_pending [OF way] by (auto simp: under_way_add)
    next
      case False
      then show ?thesis
        using h inv_SomeD [OF inv, of b] inv_receivedD [OF inv, of b] by (simp add: under_way_add)
    qed
  qed
  moreover have "tables_ok q ?s"
    using prompter_invD(2) [OF inv] ap ap'(1) conn unfolding tables_ok_def by auto
  ultimately show ?thesis
    using prompter_invD(3) [OF inv] by (simp add: prompter_inv_def watches_ok_def)
qed

text \<open>An operation ends, and its handler holds the reference.\<close>

lemma inv_complete:
  assumes inv: "prompter_inv q held busy s" and p: "(op, a) \<in># pending s"
  shows "prompter_inv q (held(a := Suc (held a))) (insert a busy) (s\<lparr>pending := pending s - {#(op, a)#}\<rparr>)"
      (is "prompter_inv q ?held ?busy ?s")
    and "\<exists>ap. heap s a = Some ap \<and> ready ap = False \<and> under_way s a = 1"
    and "under_way (s\<lparr>pending := pending s - {#(op, a)#}\<rparr>) a = 0"
proof -
  have "under_way s a \<noteq> 0" using p not_pending by blast
  moreover obtain ap where ap: "heap s a = Some ap" using inv_heap [OF inv, of a] calculation by auto
  ultimately have way: "under_way s a = 1" and nr: "\<not> ready ap"
    using inv_SomeD [OF inv ap] unfolding prompt_ok_def by auto
  show "\<exists>ap. heap s a = Some ap \<and> ready ap = False \<and> under_way s a = 1" using ap nr way by simp
  show way0: "under_way ?s a = 0" using way by (simp add: under_way_remove [OF p])
  have "heap_ok q ?held ?busy ?s"
  proof (rule heap_okI)
    fix b assume "heap ?s b = None"
    then show "in_table ?s b = 0 \<and> under_way ?s b = 0 \<and> ?held b = 0"
      using inv_NoneD [OF inv, of b] ap by (auto simp: under_way_remove [OF p])
  next
    fix b bp assume h: "heap ?s b = Some bp"
    have sub: "(PasswordOp, b) \<in># pending ?s \<longrightarrow> received bp"
      using h inv_receivedD [OF inv, of b] by (auto dest: in_diffD)
    show "prompt_ok q (in_table ?s b) (under_way ?s b) (?held b) (b \<in> ?busy) bp \<and>
        ((PasswordOp, b) \<in># pending ?s \<longrightarrow> received bp)"
      using h sub inv_SomeD [OF inv, of b] way
      by (cases "b = a") (auto simp: under_way_remove [OF p] prompt_ok_def split: if_splits)
  qed
  moreover have "tables_ok q ?s"
    using prompter_invD(2) [OF inv] p unfolding tables_ok_def by auto
  ultimately show "prompter_inv q ?held ?busy ?s"
    using prompter_invD(3) [OF inv] by (simp add: prompter_inv_def watches_ok_def)
qed

section \<open>Sending and starting\<close>

lemma send_ready_eq:
  assumes "heap s a = Some ap" and "ready ap = False" and "secret \<noteq> None \<longrightarrow> received ap"
  obtains ap' act where "callback ap' = callback ap" "refs ap' = Suc (refs ap)" "\<not> ready ap'" "received ap' = received ap"
    and "prompt_send_ready a response secret s =
      Ret (if connection s
           then (s\<lparr>heap := (heap s)(a \<mapsto> ap'), pending := add_mset (ReadyCall, a) (pending s), sent := sent s @ [act]\<rparr>)
           else s\<lparr>heap := (heap s)(a \<mapsto> ap')\<rparr>)"
proof -
  define act where "act = SendReady (callback ap) response
    (filter (\<lambda>p. p \<in> set prompt_interface_properties) (changed ap))
    (if \<not> received ap then ExchangeBegin else ExchangeSend secret)"
  show thesis
    by (rule that [of "ap\<lparr>exchange := True, changed := [], refs := Suc (refs ap)\<rparr>" act])
      (use assms(3) in \<open>auto simp: prompt_send_ready_def upd_active_def get_active_def assms(1,2)
        prompt_build_properties_def active_prompt_ref_def Let_def send_def act_def\<close>)
qed

text \<open>
  The prompt gets ready: with a connection a call is under way then; without one, the reference
  that the call should hold is lost.
\<close>

lemma inv_send_ready:
  assumes inv: "prompter_inv q held busy s" and ap: "heap s a = Some ap" "ready ap = False" "under_way s a = 0"
    and secret: "secret \<noteq> None \<longrightarrow> received ap" and conn: "connection s \<or> \<not> q \<and> in_table s a = 0"
  obtains h p x where "prompt_send_ready a response secret s = Ret (s\<lparr>heap := h, pending := p, sent := x\<rparr>)"
    and "prompter_inv q held (busy - {a}) (s\<lparr>heap := h, pending := p, sent := x\<rparr>)"
    and "dom h = dom (heap s)" and "connection s \<Longrightarrow> p = add_mset (ReadyCall, a) (pending s)"
proof -
  obtain ap' act where ap': "callback ap' = callback ap" "refs ap' = Suc (refs ap)" "\<not> ready ap'" "received ap' = received ap"
    and eq: "prompt_send_ready a response secret s =
      Ret (if connection s
           then (s\<lparr>heap := (heap s)(a \<mapsto> ap'), pending := add_mset (ReadyCall, a) (pending s), sent := sent s @ [act]\<rparr>)
           else s\<lparr>heap := (heap s)(a \<mapsto> ap')\<rparr>)"
    by (rule send_ready_eq [OF ap(1,2) secret])
  show thesis
  proof (cases "connection s")
    case True
    have "prompter_inv q held (busy - {a})
        (s\<lparr>heap := (heap s)(a \<mapsto> ap'), pending := add_mset (ReadyCall, a) (pending s)\<rparr>)"
      using ap' True by (intro inv_start [OF inv ap(1,3)]) auto
    then show thesis
      using eq True ap(1)
      by (intro that [of "sent s @ [act]" "add_mset (ReadyCall, a) (pending s)" "(heap s)(a \<mapsto> ap')"]) auto
  next
    case False
    have "prompt_ok q (in_table s a) (under_way s a) (held a) (a \<in> busy - {a}) ap'"
      using inv_SomeD [OF inv ap(1)] False conn ap' ap(3) unfolding prompt_ok_def by auto
    then have "prompter_inv q held (busy - {a}) (s\<lparr>heap := (heap s)(a \<mapsto> ap')\<rparr>)"
      using ap' by (intro inv_change [OF inv ap(1)]) auto
    then show thesis
      using eq False ap(1) by (intro that [of "sent s" "pending s" "(heap s)(a \<mapsto> ap')"]) auto
  qed
qed


lemma prompt_ok_busy: "prompt_ok q tab way held b ap \<Longrightarrow> (b \<Longrightarrow> b') \<Longrightarrow> prompt_ok q tab way held b' ap"
  by (auto simp: prompt_ok_def)

lemma inv_busy:
  assumes inv: "prompter_inv q held busy s" and "busy \<subseteq> busy'"
  shows "prompter_inv q held busy' s"
proof -
  have "heap_ok q held busy' s"
    using inv_NoneD [OF inv] prompt_ok_busy [OF inv_SomeD [OF inv]] inv_receivedD [OF inv] assms(2)
    by (intro heap_okI) blast+
  then show ?thesis using prompter_invD(2,3) [OF inv] by (simp add: prompter_inv_def)
qed

text \<open>A new prompt for the first caller that waits.\<close>

definition new_prompt :: "Callback \<Rightarrow> ActivePrompt" where
  "new_prompt cb = \<lparr>refs = 1, callback = cb, cancelled = False, ready = False, changed = [],
     exchange = False, received = False\<rparr>"

lemma inv_created:
  assumes inv: "prompter_inv q held busy s" and fresh: "heap s addr = None" and w: "waiting s = cb # rest"
    and single: "mode s = PROMPTER_SINGLE \<longrightarrow> active s = []"
  shows "prompter_inv q held (insert addr busy)
    (s\<lparr>waiting := rest, heap := (heap s)(addr \<mapsto> new_prompt cb), active := (cb, addr) # active s\<rparr>)"
    (is "prompter_inv q held _ ?s")
proof -
  have t: "tables_ok q s" by (rule prompter_invD(2) [OF inv])
  have none: "in_table s addr = 0" "under_way s addr = 0" "held addr = 0" using inv_NoneD [OF inv fresh] by auto
  have way: "under_way ?s = under_way s" by (rule under_way_pending) simp
  have tab: "in_table ?s b = (if b = addr then 1 else in_table s b)" for b by (simp add: in_table_def)
  have "heap_ok q held (insert addr busy) ?s"
  proof (rule heap_okI)
    fix b assume "heap ?s b = None"
    then show "in_table ?s b = 0 \<and> under_way ?s b = 0 \<and> held b = 0"
      using inv_NoneD [OF inv, of b] way by (simp add: tab split: if_splits)
  next
    fix b bp assume h: "heap ?s b = Some bp"
    show "prompt_ok q (in_table ?s b) (under_way ?s b) (held b) (b \<in> insert addr busy) bp \<and>
        ((PasswordOp, b) \<in># pending ?s \<longrightarrow> received bp)"
    proof (cases "b = addr")
      case True
      then show ?thesis
        using h none way not_pending [OF none(2)] tab [of addr]
        by simp (auto simp: prompt_ok_def new_prompt_def)
    next
      case False
      then show ?thesis
        using h inv_SomeD [OF inv, of b] inv_receivedD [OF inv, of b] way by (simp add: tab)
    qed
  qed
  moreover have "addr \<notin> snd ` set (active s)" using none(1) by (simp add: in_table_def split: if_splits)
  then have "tables_ok q ?s"
    using t w single unfolding tables_ok_def by (auto simp: new_prompt_def image_iff)
  ultimately show ?thesis using prompter_invD(3) [OF inv] by (simp add: prompter_inv_def watches_ok_def)
qed

lemma inv_not_created:
  assumes inv: "prompter_inv False held busy s" and fresh: "heap s addr = None" and w: "waiting s = cb # rest"
  shows "prompter_inv False held busy (s\<lparr>waiting := rest, heap := (heap s)(addr \<mapsto> new_prompt cb)\<rparr>)"
    (is "prompter_inv False held _ ?s")
proof -
  have t: "tables_ok False s" by (rule prompter_invD(2) [OF inv])
  have none: "in_table s addr = 0" "under_way s addr = 0" "held addr = 0" using inv_NoneD [OF inv fresh] by auto
  have way: "under_way ?s = under_way s" by (rule under_way_pending) simp
  have tab: "in_table ?s = in_table s" by (rule in_table_active) simp
  have "heap_ok False held busy ?s"
  proof (rule heap_okI)
    fix b assume "heap ?s b = None"
    then show "in_table ?s b = 0 \<and> under_way ?s b = 0 \<and> held b = 0"
      using inv_NoneD [OF inv, of b] way tab by (simp split: if_splits)
  next
    fix b bp assume h: "heap ?s b = Some bp"
    show "prompt_ok False (in_table ?s b) (under_way ?s b) (held b) (b \<in> busy) bp \<and>
        ((PasswordOp, b) \<in># pending ?s \<longrightarrow> received bp)"
    proof (cases "b = addr")
      case True
      then show ?thesis
        using h none way tab not_pending [OF none(2)] by (auto simp: prompt_ok_def new_prompt_def)
    next
      case False
      then show ?thesis
        using h inv_SomeD [OF inv, of b] inv_receivedD [OF inv, of b] way tab by simp
    qed
  qed
  moreover have "addr \<notin> snd ` set (active s)" using none(1) by (simp add: in_table_def split: if_splits)
  then have "tables_ok False ?s" using t w unfolding tables_ok_def by (auto simp: image_iff)
  ultimately show ?thesis using prompter_invD(3) [OF inv] by (simp add: prompter_inv_def watches_ok_def)
qed

text \<open>What \<^verbatim>\<open>prompt_next_ready\<close> leads to: nothing, or the first caller that waits becomes active.\<close>

definition promoted :: "nat \<Rightarrow> bool \<Rightarrow> prompter \<Rightarrow> prompter \<Rightarrow> bool" where
  "promoted addr prompt s s' \<longleftrightarrow>
     callbacks s' = callbacks s \<and> mode s' = mode s \<and> connection s' = connection s \<and> registered s' = registered s \<and>
     watches s' = watches s \<and>
     (if mode s = PROMPTER_SINGLE \<and> active s \<noteq> [] \<or> waiting s = [] then s' = s
      else
        waiting s' = tl (waiting s) \<and>
        (if prompt then active s' = (hd (waiting s), addr) # active s \<and>
            pending s' = add_mset (ReadyCall, addr) (pending s)
         else active s' = active s \<and> pending s' = pending s))"

lemma inv_next_ready:
  assumes inv: "prompter_inv q held busy s" and fresh: "heap s addr = None" and p: "q \<longrightarrow> prompt"
  obtains s' where "prompt_next_ready addr prompt s = Ret s'" and "prompter_inv q held busy s'"
    and "promoted addr prompt s s'"
proof (cases "mode s = PROMPTER_SINGLE \<and> active s \<noteq> [] \<or> waiting s = []")
  case True
  then show thesis
    using inv by (intro that [of s]) (auto simp: prompt_next_ready_def promoted_def)
next
  case False
  then obtain cb rest where w: "waiting s = cb # rest" by (cases "waiting s") auto
  have single: "mode s = PROMPTER_SINGLE \<longrightarrow> active s = []" using False by blast
  have t: "tables_ok q s" by (rule prompter_invD(2) [OF inv])
  then have cb: "cb \<notin> set (keys (active s))" "cb \<in> set (keys (callbacks s))" using w unfolding tables_ok_def by auto
  then have conn: "connection s" using t unfolding tables_ok_def by auto
  have room: "\<not> (mode s = PROMPTER_SINGLE \<and> 0 < length (active s))" using single by auto
  have key: "map_of (active s) cb = None" using cb(1) by (simp add: map_of_eq_None_iff)
  show thesis
  proof (cases prompt)
    case True
    let ?s = "s\<lparr>waiting := rest, heap := (heap s)(addr \<mapsto> new_prompt cb), active := (cb, addr) # active s\<rparr>"
    have i: "prompter_inv q held (insert addr busy) ?s" by (rule inv_created [OF inv fresh w single])
    have way: "under_way ?s addr = 0"
      using inv_NoneD [OF inv fresh] by (simp add: under_way_def)
    obtain h p x where r: "prompt_send_ready addr '''' None ?s = Ret (?s\<lparr>heap := h, pending := p, sent := x\<rparr>)"
      "prompter_inv q held (insert addr busy - {addr}) (?s\<lparr>heap := h, pending := p, sent := x\<rparr>)"
      "p = add_mset (ReadyCall, addr) (pending ?s)"
      by (rule inv_send_ready [OF i, of addr "new_prompt cb" None "''''"])
        (use way conn in \<open>auto simp: new_prompt_def\<close>)
    have "prompt_next_ready addr prompt s = Ret (?s\<lparr>heap := h, pending := p, sent := x\<rparr>)"
      unfolding prompt_next_ready_def if_not_P [OF room] using w r(1) True key
      by (simp add: active_prompt_create_def table_remove_absent [OF cb(1)] new_prompt_def)
    moreover have "prompter_inv q held busy (?s\<lparr>heap := h, pending := p, sent := x\<rparr>)"
      by (rule inv_busy [OF r(2)]) auto
    ultimately show thesis
      using True False w r(3) by (intro that [of "?s\<lparr>heap := h, pending := p, sent := x\<rparr>"]) (auto simp: promoted_def)
  next
    case np: False
    let ?s = "s\<lparr>waiting := rest, heap := (heap s)(addr \<mapsto> new_prompt cb)\<rparr>"
    have q: "q = False" using p np by simp
    have "prompt_next_ready addr prompt s = Ret ?s"
      unfolding prompt_next_ready_def if_not_P [OF room] using w np key
      by (simp add: active_prompt_create_def new_prompt_def)
    moreover have "prompter_inv q held busy ?s"
      using inv_not_created [OF inv [unfolded q] fresh w] q by simp
    ultimately show thesis
      using np False w by (intro that [of ?s]) (auto simp: promoted_def)
  qed
qed

lemma promoted_dom: "promoted addr prompt s s' \<Longrightarrow> callbacks s' = callbacks s"
  by (simp add: promoted_def)

text \<open>Stopping one after the other.\<close>

lemma inv_stop_each:
  assumes "prompter_inv q held busy s"
  obtains s' where "stop_each cbs d w s = Ret s'" and "prompter_inv q held busy s'"
    and "callbacks s' = filter (\<lambda>e. fst e \<notin> set cbs) (callbacks s)"
    and "registered s' = registered s" "connection s' = connection s" "pending s' = pending s"
  using assms
proof (induction cbs arbitrary: s thesis)
  case Nil
  then show ?case by simp
next
  case (Cons cb cbs)
  obtain x where x: "prompt_stop_prompting cb d w s = Ret ((stopped cb s)\<lparr>sent := x\<rparr>)"
    "prompter_inv q held busy ((stopped cb s)\<lparr>sent := x\<rparr>)" by (rule inv_stop [OF Cons.prems(2)])
  obtain s' where s': "stop_each cbs d w ((stopped cb s)\<lparr>sent := x\<rparr>) = Ret s'" "prompter_inv q held busy s'"
    "callbacks s' = filter (\<lambda>e. fst e \<notin> set cbs) (table_remove cb (callbacks s))"
    "registered s' = registered s" "connection s' = connection s" "pending s' = pending s"
    by (rule Cons.IH [OF _ x(2)]) simp
  have "callbacks s' = filter (\<lambda>e. fst e \<notin> set (cb # cbs)) (callbacks s)"
    unfolding s'(3) table_remove_def filter_filter by (rule filter_cong) auto
  then show ?case using Cons.prems(1) x(1) s' by simp
qed


section \<open>Every handler returns and keeps the invariant\<close>

abbreviation sound :: "bool \<Rightarrow> prompter \<Rightarrow> bool" where
  "sound q s \<equiv> prompter_inv q (\<lambda>_. 0) {} s"

definition returns_sound :: "bool \<Rightarrow> prompter outcome \<Rightarrow> bool" where
  "returns_sound q m \<longleftrightarrow> (\<exists>s'. m = Ret s' \<and> sound q s')"

lemma returns_soundI: "m = Ret s' \<Longrightarrow> sound q s' \<Longrightarrow> returns_sound q m"
  by (simp add: returns_sound_def)

lemma register_sound:
  assumes "sound q s"
  shows "sound q (gcr_system_prompter_register ok s)"
  using assms unfolding gcr_system_prompter_register_def prompter_inv_def heap_ok_def tables_ok_def watches_ok_def
    in_table_def under_way_def
  by auto

lemma unregister_sound:
  assumes inv: "sound q s" and order: "set order = set (keys (callbacks s))" and p: "q \<longrightarrow> pending s = {#}"
  shows "returns_sound q (gcr_system_prompter_unregister wait order s)"
proof -
  obtain s1 where s1: "stop_each order True wait s = Ret s1" "sound q s1"
    "callbacks s1 = filter (\<lambda>e. fst e \<notin> set order) (callbacks s)" "pending s1 = pending s"
    by (rule inv_stop_each [OF inv])
  have "callbacks s1 = []" unfolding s1(3) order by (auto simp: filter_empty_conv)
  moreover have t: "tables_ok q s1" by (rule prompter_invD(2) [OF s1(2)])
  ultimately have none: "callbacks s1 = []" "active s1 = []" "waiting s1 = []" unfolding tables_ok_def by auto
  have "sound q (s1\<lparr>registered := False, connection := False\<rparr>)"
    using s1(2,4) p none unfolding prompter_inv_def heap_ok_def tables_ok_def watches_ok_def in_table_def under_way_def
    by simp
  then show ?thesis
    using inv s1(1) none
    by (auto simp: gcr_system_prompter_unregister_def returns_sound_def)
qed

lemma begin_sound:
  assumes inv: "sound q s" and reg: "registered s" and w: "w \<notin> set (keys (watches s))"
    and fresh: "heap s addr = None" and p: "q \<longrightarrow> prompt"
  shows "returns_sound q (prompter_method_begin_prompting sender path w addr prompt s)"
proof -
  define lookup where "lookup = \<lparr>cb_path = path, cb_name = sender\<rparr>"
  define s3 where "s3 = send NotifyPrompting ((send ReturnOk
    (s\<lparr>watches := (w, sender) # watches s, callbacks := (lookup, w) # callbacks s\<rparr>))\<lparr>waiting := waiting s @ [lookup]\<rparr>)"
  have eq: "prompter_method_begin_prompting sender path w addr prompt s =
      (if map_of (callbacks s) lookup \<noteq> None then Ret (send ReturnError s) else prompt_next_ready addr prompt s3)"
    by (simp add: prompter_method_begin_prompting_def Let_def lookup_def s3_def del: not_None_eq)
  show ?thesis
  proof (cases "map_of (callbacks s) lookup = None")
    case False
    then show ?thesis using inv eq by (intro returns_soundI [of _ "send ReturnError s"]) auto
  next
    case True
    have t: "tables_ok q s" and k: "watches_ok s" by (rule prompter_invD [OF inv])+
    have new: "lookup \<notin> set (keys (callbacks s))" using True by (simp add: map_of_eq_None_iff)
    have "heap_ok q (\<lambda>_. 0) {} s3"
      using prompter_invD(1) [OF inv] by (simp add: s3_def heap_ok_def in_table_def under_way_def send_def)
    moreover have "tables_ok q s3"
      using t new reg unfolding tables_ok_def s3_def by (auto simp: image_iff)
    moreover have "w \<notin> snd ` set (callbacks s)" using k w unfolding watches_ok_def by auto
    then have "watches_ok s3"
      using k w unfolding watches_ok_def s3_def by (auto simp: lookup_def image_iff)
    ultimately have i: "sound q s3" by (simp add: prompter_inv_def)
    have f: "heap s3 addr = None" using fresh by (simp add: s3_def)
    obtain s' where "prompt_next_ready addr prompt s3 = Ret s'" "sound q s'"
      by (rule inv_next_ready [OF i f p])
    then show ?thesis using eq True by (simp add: returns_sound_def)
  qed
qed

lemma stop_sound:
  assumes inv: "sound q s" and fresh: "heap s addr = None" and p: "q \<longrightarrow> prompt"
  shows "returns_sound q (prompter_method_stop_prompting sender path addr prompt s)"
proof -
  define cb where "cb = \<lparr>cb_path = path, cb_name = sender\<rparr>"
  obtain x where x: "prompt_stop_prompting cb True False s = Ret ((stopped cb s)\<lparr>sent := x\<rparr>)"
    "sound q ((stopped cb s)\<lparr>sent := x\<rparr>)" by (rule inv_stop [OF inv])
  define s1 where "s1 = send ReturnOk ((stopped cb s)\<lparr>sent := x\<rparr>)"
  have i: "sound q s1" using x(2) by (simp add: s1_def)
  have f: "heap s1 addr = None" using dom_stopped [OF inv, of cb] fresh by (auto simp: s1_def)
  obtain s' where "prompt_next_ready addr prompt s1 = Ret s'" "sound q s'"
    by (rule inv_next_ready [OF i f p])
  then show ?thesis
    using x(1) by (simp add: prompter_method_stop_prompting_def cb_def [symmetric] s1_def [symmetric] returns_sound_def)
qed

lemma vanished_sound:
  assumes "sound q s"
  shows "returns_sound q (on_caller_vanished name order s)"
proof -
  obtain s' where "on_caller_vanished name order s = Ret s'" "sound q s'"
    unfolding on_caller_vanished_def by (rule inv_stop_each [OF assms])
  then show ?thesis by (simp add: returns_sound_def)
qed

lemma active_prompt_heap:
  assumes inv: "prompter_inv q held busy s" and a: "a \<in> snd ` set (active s)"
  obtains ap where "heap s a = Some ap"
proof -
  have "in_table s a = 1" using a by (simp add: in_table_def)
  then show thesis using inv_heap [OF inv, of a] that by auto
qed

lemma notify_sound:
  assumes inv: "sound q s" and a: "a \<in> snd ` set (active s)"
  shows "returns_sound q (on_prompt_notify a p s)"
proof -
  obtain ap where ap: "heap s a = Some ap" using a by (rule active_prompt_heap [OF inv])
  show ?thesis unfolding on_prompt_notify_def upd_eq [OF ap]
    by (rule returns_soundI [OF refl], rule inv_change [OF inv ap])
      (use inv_SomeD [OF inv ap] in \<open>simp_all add: prompt_ok_def split: if_splits\<close>)
qed

lemma close_sound:
  assumes inv: "sound q s" and a: "a \<in> snd ` set (active s)"
  shows "returns_sound q (on_prompt_close a s)"
proof -
  obtain ap where ap: "heap s a = Some ap" using a by (rule active_prompt_heap [OF inv])
  obtain x where "prompt_stop_prompting (callback ap) True False s = Ret ((stopped (callback ap) s)\<lparr>sent := x\<rparr>)"
    "sound q ((stopped (callback ap) s)\<lparr>sent := x\<rparr>)" by (rule inv_stop [OF inv])
  then show ?thesis by (simp add: on_prompt_close_def get_eq [OF ap] returns_sound_def)
qed

lemma held_none: "(\<lambda>_. 0)(a := Suc 0, a := Suc 0 - 1) = (\<lambda>_. 0 :: nat)"
  by (simp add: fun_eq_iff)

lemma unref_sound:
  assumes "prompter_inv q ((\<lambda>_. 0)(a := Suc 0)) {} s"
  shows "returns_sound q (active_prompt_unref a s)"
proof -
  obtain h where "active_prompt_unref a s = Ret (s\<lparr>heap := h\<rparr>)"
    "prompter_inv q (((\<lambda>_. 0)(a := Suc 0))(a := ((\<lambda>_. 0)(a := Suc 0)) a - 1)) {} (s\<lparr>heap := h\<rparr>)"
    by (rule inv_unref [OF assms]) simp
  then show ?thesis by (intro returns_soundI) (auto simp: fun_upd_idem)
qed

text \<open>The handler of a finished operation holds its reference, and its prompt is not ready.\<close>

lemma completeE:
  assumes inv: "sound q s" and p: "(op, a) \<in># pending s"
  obtains ap where "heap s a = Some ap" "ready ap = False"
    "prompter_inv q ((\<lambda>_. 0)(a := Suc 0)) {a} (s\<lparr>pending := pending s - {#(op, a)#}\<rparr>)"
    "under_way (s\<lparr>pending := pending s - {#(op, a)#}\<rparr>) a = 0" "connection s \<or> \<not> q \<and> in_table s a = 0"
proof -
  obtain ap where ap: "heap s a = Some ap" "ready ap = False" using inv_complete(2) [OF inv p] by blast
  have t: "tables_ok q s" by (rule prompter_invD(2) [OF inv])
  have "\<not> q \<and> active s = []" if "\<not> connection s" using t that p unfolding tables_ok_def by auto
  then have "connection s \<or> \<not> q \<and> in_table s a = 0" by (cases "connection s") (simp_all add: in_table_def)
  then show thesis
    using that [OF ap] inv_complete(1) [OF inv p] inv_complete(3) [OF inv p] by simp
qed

lemma confirm_sound:
  assumes inv: "sound q s" and p: "(ConfirmOp, a) \<in># pending s"
  shows "returns_sound q (on_prompt_confirm a reply s)"
proof -
  let ?s = "s\<lparr>pending := pending s - {#(ConfirmOp, a)#}\<rparr>"
  obtain ap where ap: "heap s a = Some ap" "ready ap = False"
    and c: "prompter_inv q ((\<lambda>_. 0)(a := Suc 0)) {a} ?s" "under_way ?s a = 0" "connection s \<or> \<not> q \<and> in_table s a = 0"
    using inv p by (rule completeE)
  have ap': "heap ?s a = Some ap" using ap(1) by simp
  obtain response where eq: "on_prompt_confirm a reply s = obind (prompt_send_ready a response None ?s) (active_prompt_unref a)"
    using ap(2) get_eq [OF ap'] by (simp add: on_prompt_confirm_def Let_def)
  obtain s1 where s1: "prompt_send_ready a response None ?s = Ret s1" "prompter_inv q ((\<lambda>_. 0)(a := Suc 0)) ({a} - {a}) s1"
    by (rule inv_send_ready [OF c(1) ap' ap(2) c(2), of None response]) (use c(3) in \<open>auto intro: that\<close>)
  then show ?thesis using eq unref_sound by simp
qed

lemma password_sound:
  assumes inv: "sound q s" and p: "(PasswordOp, a) \<in># pending s"
  shows "returns_sound q (on_prompt_password a reply s)"
proof -
  let ?s = "s\<lparr>pending := pending s - {#(PasswordOp, a)#}\<rparr>"
  obtain ap where ap: "heap s a = Some ap" "ready ap = False"
    and c: "prompter_inv q ((\<lambda>_. 0)(a := Suc 0)) {a} ?s" "under_way ?s a = 0" "connection s \<or> \<not> q \<and> in_table s a = 0"
    using inv p by (rule completeE)
  have ap': "heap ?s a = Some ap" using ap(1) by simp
  have rec: "received ap" by (rule inv_receivedD [OF inv ap(1) p])
  obtain response where eq: "on_prompt_password a reply s = obind (prompt_send_ready a response reply ?s) (active_prompt_unref a)"
    using ap(2) get_eq [OF ap'] by (simp add: on_prompt_password_def Let_def)
  obtain s1 where s1: "prompt_send_ready a response reply ?s = Ret s1" "prompter_inv q ((\<lambda>_. 0)(a := Suc 0)) ({a} - {a}) s1"
    by (rule inv_send_ready [OF c(1) ap' ap(2) c(2), of reply response]) (use c(3) rec in \<open>auto intro: that\<close>)
  then show ?thesis using eq unref_sound by simp
qed


lemma update_properties_ex:
  "heap s a = Some ap \<Longrightarrow>
     \<exists>c. prompt_update_properties a ps s = Ret (s\<lparr>heap := (heap s)(a \<mapsto> ap\<lparr>changed := c\<rparr>)\<rparr>)"
proof (induction ps arbitrary: s ap)
  case Nil
  then show ?case by (intro exI [of _ "changed ap"]) (simp add: fun_upd_idem)
next
  case (Cons p ps)
  define d where "d = (if p \<in> set (changed ap) then changed ap else changed ap @ [p])"
  let ?s = "s\<lparr>heap := (heap s)(a \<mapsto> ap\<lparr>changed := d\<rparr>)\<rparr>"
  have "on_prompt_notify a p s = Ret ?s"
    unfolding on_prompt_notify_def upd_eq [OF Cons.prems] d_def by simp
  moreover have "\<exists>c. prompt_update_properties a ps ?s =
      Ret (?s\<lparr>heap := (heap ?s)(a \<mapsto> ap\<lparr>changed := d\<rparr>\<lparr>changed := c\<rparr>)\<rparr>)"
    by (rule Cons.IH) simp
  moreover have "?s\<lparr>heap := (heap ?s)(a \<mapsto> ap\<lparr>changed := d\<rparr>\<lparr>changed := c\<rparr>)\<rparr> =
      s\<lparr>heap := (heap s)(a \<mapsto> ap\<lparr>changed := c\<rparr>)\<rparr>" for c by simp
  ultimately show ?case by (simp del: fun_upd_apply)
qed

lemma perform_sound:
  assumes inv: "sound q s" and reg: "registered s"
  shows "returns_sound q (prompter_method_perform_prompt sender path type props ok s)"
proof (cases "map_of (active s) \<lparr>cb_path = path, cb_name = sender\<rparr>")
  case None
  then show ?thesis
    using inv by (intro returns_soundI [of _ "send ReturnError s"])
      (simp_all add: prompter_method_perform_prompt_def)
next
  case (Some a)
  then have "a \<in> snd ` set (active s)" using map_of_SomeD by force
  moreover from this obtain ap where ap: "heap s a = Some ap" by (rule active_prompt_heap [OF inv])
  ultimately have tab: "in_table s a = 1" by (simp add: in_table_def)
  have ok1: "prompt_ok q 1 (under_way s a) 0 False ap" using inv_SomeD [OF inv ap] tab by simp
  have conn: "connection s" using prompter_invD(2) [OF inv] reg by (simp add: tables_ok_def)
  show ?thesis
  proof (cases "ready ap")
    case False
    then show ?thesis
      using inv Some ap by (intro returns_soundI [of _ "send ReturnError s"])
        (simp_all add: prompter_method_perform_prompt_def get_eq)
  next
    case True
    then have way: "under_way s a = 0" using ok1 by (simp add: prompt_ok_def)
    obtain c where c: "prompt_update_properties a props s = Ret (s\<lparr>heap := (heap s)(a \<mapsto> ap\<lparr>changed := c\<rparr>)\<rparr>)"
      using update_properties_ex [OF ap] by blast
    let ?ap2 = "ap\<lparr>changed := c, exchange := True\<rparr>" let ?ap3 = "?ap2\<lparr>received := True\<rparr>"
    let ?ap5 = "?ap3\<lparr>ready := False, refs := Suc (refs ap)\<rparr>"
    have i2: "sound q (s\<lparr>heap := (heap s)(a \<mapsto> ?ap2)\<rparr>)"
      by (rule inv_change [OF inv ap]) (use ok1 tab in \<open>simp_all add: prompt_ok_def split: if_splits\<close>)
    have i3: "sound q (s\<lparr>heap := (heap s)(a \<mapsto> ?ap3)\<rparr>)"
      by (rule inv_change [OF inv ap]) (use ok1 tab in \<open>simp_all add: prompt_ok_def split: if_splits\<close>)
    have i5: "sound q (s\<lparr>heap := (heap s)(a \<mapsto> ?ap5), pending := add_mset (op, a) (pending s)\<rparr>)" for op
      using inv_start [OF inv ap way, of ?ap5 op] conn by simp
    show ?thesis
    proof (cases ok)
      case False
      then show ?thesis
        using Some True ap c i2 by (intro returns_soundI [of _ "send ReturnError (s\<lparr>heap := (heap s)(a \<mapsto> ?ap2)\<rparr>)"])
          (simp_all add: prompter_method_perform_prompt_def get_eq upd_eq)
    next
      case ok: True
      show ?thesis
      proof (cases "type = ''confirm'' \<or> type = ''password''")
        case False
        then show ?thesis
          using Some True ap c i3 ok
          by (intro returns_soundI [of _ "send ReturnError (s\<lparr>heap := (heap s)(a \<mapsto> ?ap3)\<rparr>)"])
            (simp_all add: prompter_method_perform_prompt_def get_eq upd_eq)
      next
        case type: True
        define op where "op = (if type = ''confirm'' then ConfirmOp else PasswordOp)"
        show ?thesis
          using Some True ap c i5 [of op] ok
          by (intro returns_soundI [of _ "send ReturnOk (send (StartOp op a)
              (s\<lparr>heap := (heap s)(a \<mapsto> ?ap5), pending := add_mset (op, a) (pending s)\<rparr>))"])
            (simp_all only: prompter_method_perform_prompt_def get_eq upd_eq ref_eq type op_def [symmetric] Let_def
              option.case obind_simps if_True not_True_eq_False if_False fun_upd_same fun_upd_upd,
              simp_all add: upd_active_def get_active_def active_prompt_ref_def send_def)
      qed
    qed
  qed
qed

lemma ready_complete_sound:
  assumes inv: "sound q s" and p: "(ReadyCall, a) \<in># pending s" and fresh: "heap s addr = None" and prm: "q \<longrightarrow> prompt"
  shows "returns_sound q (on_prompt_ready_complete a result addr prompt s)"
proof -
  let ?s = "s\<lparr>pending := pending s - {#(ReadyCall, a)#}\<rparr>"
  obtain ap where ap: "heap s a = Some ap" "ready ap = False"
    and c: "prompter_inv q ((\<lambda>_. 0)(a := Suc 0)) {a} ?s" "under_way ?s a = 0"
    using inv p by (rule completeE)
  have ap': "heap ?s a = Some ap" using ap(1) by simp
  let ?s1 = "?s\<lparr>heap := (heap ?s)(a \<mapsto> ap\<lparr>ready := True\<rparr>)\<rparr>"
  have i1: "prompter_inv q ((\<lambda>_. 0)(a := Suc 0)) {} ?s1"
    by (rule inv_change [OF c(1) ap']) (use inv_SomeD [OF c(1) ap'] c(2) in \<open>simp_all add: prompt_ok_def split: if_splits\<close>)
  have f1: "heap ?s1 addr = None" using fresh ap(1) by auto
  obtain x where x: "prompt_stop_prompting (callback ap) False False ?s1 = Ret ((stopped (callback ap) ?s1)\<lparr>sent := x\<rparr>)"
    "prompter_inv q ((\<lambda>_. 0)(a := Suc 0)) {} ((stopped (callback ap) ?s1)\<lparr>sent := x\<rparr>)" by (rule inv_stop [OF i1])
  have f2: "heap ((stopped (callback ap) ?s1)\<lparr>sent := x\<rparr>) addr = None"
    using contra_subsetD [OF dom_stopped [OF i1, of "callback ap"], of addr] f1 unfolding domIff by simp
  obtain s2 where s2: "prompt_next_ready addr prompt ((stopped (callback ap) ?s1)\<lparr>sent := x\<rparr>) = Ret s2"
    "prompter_inv q ((\<lambda>_. 0)(a := Suc 0)) {} s2" by (rule inv_next_ready [OF x(2) f2 prm])
  have "on_prompt_ready_complete a result addr prompt s =
      obind (if result = CallCancelled \<and> cancelled ap then Ret ?s1
             else if result \<noteq> CallOk
             then obind (prompt_stop_prompting (callback ap) False False ?s1) (prompt_next_ready addr prompt)
             else Ret ?s1) (active_prompt_unref a)"
    using ap' ap(2) by (simp add: on_prompt_ready_complete_def get_eq upd_eq Let_def)
  also have "\<dots> = active_prompt_unref a
      (if result = CallCancelled \<and> cancelled ap then ?s1 else if result \<noteq> CallOk then s2 else ?s1)"
    unfolding x(1) obind_simps s2(1) by simp
  finally show ?thesis using unref_sound [OF i1] unref_sound [OF s2(2)] by simp
qed

section \<open>Runs\<close>

lemma new_sound: "sound q (gcr_system_prompter_new m)"
  by (simp add: gcr_system_prompter_new_def prompter_inv_def heap_ok_def tables_ok_def watches_ok_def
      in_table_def under_way_def)

lemma handle_sound:
  assumes "sound q s" and "enabled e s" and "q \<longrightarrow> quiet e s"
  shows "returns_sound q (handle e s)"
  using assms register_sound [OF assms(1)]
  by (cases e)
    (simp_all add: unregister_sound begin_sound perform_sound stop_sound vanished_sound notify_sound close_sound
      ready_complete_sound password_sound confirm_sound returns_sound_def [of q "Ret _"])

lemma reached_sound: "prompter_reached q s \<Longrightarrow> sound q s"
proof (induction rule: prompter_reached.induct)
  case (created m)
  show ?case by (rule new_sound)
next
  case (handled s e s')
  then show ?case using handle_sound [of q s e] by (simp add: returns_sound_def)
qed


text \<open>A run from a new object, event by event.\<close>

fun run :: "bool \<Rightarrow> event list \<Rightarrow> prompter \<Rightarrow> prompter outcome" where
  "run q [] s = Ret s"
| "run q (e # es) s = (if enabled e s \<and> (q \<longrightarrow> quiet e s) then obind (handle e s) (run q es) else Abort)"

lemma run_reached_from: "prompter_reached q s \<Longrightarrow> run q es s = Ret s' \<Longrightarrow> prompter_reached q s'"
proof (induction es arbitrary: s)
  case Nil
  then show ?case by simp
next
  case (Cons e es)
  have ok: "enabled e s" "q \<longrightarrow> quiet e s" using Cons.prems(2) by (auto split: if_splits)
  then obtain s1 where s1: "handle e s = Ret s1" "run q es s1 = Ret s'"
    using Cons.prems(2) by (auto simp: obind_Ret_iff)
  have "prompter_reached q s1" by (rule prompter_reached.handled [OF Cons.prems(1) ok s1(1)])
  then show ?case using s1(2) by (rule Cons.IH)
qed

lemma run_reached: "run q es (gcr_system_prompter_new m) = Ret s \<Longrightarrow> prompter_reached q s"
  using prompter_reached.created by (rule run_reached_from)

lemmas prompter_run_simps = gcr_system_prompter_new_def gcr_system_prompter_register_def
  prompter_method_begin_prompting_def prompter_method_stop_prompting_def prompter_method_perform_prompt_def
  prompt_next_ready_def active_prompt_create_def prompt_send_ready_def get_active_def upd_active_def
  prompt_build_properties_def active_prompt_ref_def active_prompt_unref_def prompt_stop_prompting_def
  on_prompt_ready_complete_def on_prompt_confirm_def on_prompt_password_def on_caller_vanished_def
  on_prompt_close_def on_prompt_notify_def table_remove_def send_def Let_def

section \<open>Properties\<close>

text \<open>
  C11. Whatever the callers, the bus and the prompts do, and in whatever order, every handler of the
  prompter returns: no assertion fails, and no \<^verbatim>\<open>ActivePrompt\<close> is used after its release.
\<close>

theorem prompter_handlers_return:
  assumes "prompter_reached False s" and "enabled e s"
  shows "\<exists>s'. handle e s = Ret s' \<and> prompter_reached False s'"
proof -
  obtain s' where "handle e s = Ret s'"
    using handle_sound [OF reached_sound [OF assms(1)] assms(2)] by (auto simp: returns_sound_def)
  then show ?thesis using prompter_reached.handled [OF assms] by simp
qed

definition two_callers :: "event list" where
  "two_callers =
     [Register True, BeginPrompting '':1.2'' ''/p'' 1 100 True, BeginPrompting '':1.3'' ''/q'' 2 200 True]"

lemma two_callers_run:
  "\<exists>s. run q two_callers (gcr_system_prompter_new PROMPTER_SINGLE) = Ret s \<and>
     mode s = PROMPTER_SINGLE \<and> registered s \<and> heap s 300 = None \<and> (ReadyCall, 100) \<in># pending s \<and>
     active s = [(\<lparr>cb_path = ''/p'', cb_name = '':1.2''\<rparr>, 100)] \<and>
     waiting s = [\<lparr>cb_path = ''/q'', cb_name = '':1.3''\<rparr>]"
  by (simp add: two_callers_def prompter_run_simps)


theorem prompter_handlers_return_witness:
  "\<exists>s s'. run False two_callers (gcr_system_prompter_new PROMPTER_SINGLE) = Ret s \<and>
     handle (ReadyComplete 100 CallFailed 300 False) s = Ret s'"
proof -
  obtain s where s: "run False two_callers (gcr_system_prompter_new PROMPTER_SINGLE) = Ret s"
    "heap s 300 = None" "(ReadyCall, 100) \<in># pending s" using two_callers_run by blast
  then show ?thesis
    using prompter_handlers_return [OF run_reached [OF s(1)], of "ReadyComplete 100 CallFailed 300 False"] by auto
qed

text \<open>The number of operations under way of a prompt.\<close>

definition operations :: "prompter \<Rightarrow> nat \<Rightarrow> pending_op multiset" where
  "operations s a = image_mset fst (filter_mset (\<lambda>p. snd p = a) (pending s))"

lemma size_operations: "size (operations s a) = under_way s a"
  by (simp add: operations_def under_way_def)

text \<open>
  C12. The tables of the prompter agree at all times. A caller is in the queue or in the table of active
  prompts, never in both, and only while it has begun and not stopped; a single prompter has one active
  prompt at most; there is exactly one watch for each caller that has begun, on the bus name of this caller. An active
  prompt belongs to its caller, and it is ready if and only if no operation of it is under way, of which
  there is one at most.
\<close>

theorem prompter_tables_agree:
  assumes "prompter_reached False s"
  shows "distinct (keys (callbacks s)) \<and> distinct (waiting s @ keys (active s)) \<and>
    set (waiting s @ keys (active s)) \<subseteq> set (keys (callbacks s)) \<and>
    (gcr_system_prompter_get_mode s = PROMPTER_SINGLE \<longrightarrow> length (active s) \<le> 1) \<and>
    distinct (map snd (callbacks s)) \<and> distinct (keys (watches s)) \<and>
    set (keys (watches s)) = set (map snd (callbacks s)) \<and>
    (\<forall>(cb, w) \<in> set (callbacks s). (w, cb_name cb) \<in> set (watches s)) \<and>
    (\<forall>(cb, a) \<in> set (active s). \<exists>ap. heap s a = Some ap \<and> callback ap = cb \<and>
       (ready ap \<longleftrightarrow> operations s a = {#}) \<and> size (operations s a) \<le> 1) \<and>
    (gcr_system_prompter_get_prompting s \<longrightarrow> connection s)"
proof -
  have inv: "sound False s" by (rule reached_sound [OF assms])
  note t = prompter_invD(2) [OF inv] and k = prompter_invD(3) [OF inv]
  have "\<exists>ap. heap s a = Some ap \<and> callback ap = cb \<and> (ready ap \<longleftrightarrow> operations s a = {#}) \<and>
      size (operations s a) \<le> 1" if entry: "(cb, a) \<in> set (active s)" for cb a
  proof -
    obtain ap where ap: "heap s a = Some ap" "callback ap = cb" using entry by (rule active_heap [OF inv])
    have "in_table s a = 1" using entry by (auto simp: in_table_cases)
    then have "ready ap = (under_way s a = 0)" "under_way s a \<le> 1"
      using inv_SomeD [OF inv ap(1)] by (simp_all add: prompt_ok_def)
    then show ?thesis using ap by (simp flip: size_operations)
  qed
  moreover have "distinct (waiting s @ keys (active s))" "set (waiting s @ keys (active s)) \<subseteq> set (keys (callbacks s))"
    using t unfolding tables_ok_def by auto
  moreover have "gcr_system_prompter_get_prompting s \<longrightarrow> connection s"
    using t unfolding tables_ok_def gcr_system_prompter_get_prompting_def by auto
  ultimately show ?thesis
    using t k unfolding tables_ok_def watches_ok_def gcr_system_prompter_get_mode_def by auto
qed

theorem prompter_tables_agree_witness:
  "\<exists>s. run False two_callers (gcr_system_prompter_new PROMPTER_SINGLE) = Ret s \<and>
     waiting s \<noteq> [] \<and> length (active s) \<le> 1 \<and> set (keys (watches s)) = set (map snd (callbacks s))"
proof -
  obtain s where s: "run False two_callers (gcr_system_prompter_new PROMPTER_SINGLE) = Ret s"
    "mode s = PROMPTER_SINGLE" "waiting s = [\<lparr>cb_path = ''/q'', cb_name = '':1.3''\<rparr>]"
    using two_callers_run by blast
  then show ?thesis
    using prompter_tables_agree [OF run_reached [OF s(1)]] by (simp add: gcr_system_prompter_get_mode_def)
qed

text \<open>
  C13. No leaks, under two conditions (\<open>prompter_reached True\<close>): every prompt that is asked for can be
  made, and the prompter is unregistered only while no operation is under way.  Then the references
  of an \<^verbatim>\<open>ActivePrompt\<close> are at all times those of the table and of its operations, and once the prompter
  is disconnected all are released.  Without the second condition they are not: see \<open>prompter_leaks\<close>.
\<close>

theorem prompter_releases_prompts:
  assumes "prompter_reached True s"
  shows "(\<forall>a ap. heap s a = Some ap \<longrightarrow>
      refs ap = (if a \<in> set (map snd (active s)) then 1 else 0) + size (operations s a) \<and> 0 < refs ap) \<and>
    (\<not> connection s \<longrightarrow> heap s = Map.empty)"
proof -
  have inv: "sound True s" by (rule reached_sound [OF assms])
  have r: "refs ap = in_table s a + under_way s a \<and> 0 < refs ap" if "heap s a = Some ap" for a ap
    using inv_SomeD [OF inv that] by (auto simp: prompt_ok_def)
  have "heap s a = None" if "\<not> connection s" for a
  proof -
    have "active s = []" "pending s = {#}" using prompter_invD(2) [OF inv] that unfolding tables_ok_def by auto
    then have "in_table s a = 0" "under_way s a = 0" by (simp_all add: in_table_def under_way_def)
    then show ?thesis using r [of a] by (cases "heap s a") auto
  qed
  then have "\<not> connection s \<longrightarrow> heap s = Map.empty" by auto
  moreover have "refs ap = (if a \<in> set (map snd (active s)) then 1 else 0) + size (operations s a) \<and> 0 < refs ap"
    if "heap s a = Some ap" for a ap
    using r [OF that] unfolding size_operations in_table_def set_map .
  ultimately show ?thesis by blast
qed

lemma all_stopped_run:
  "\<exists>s. run True (two_callers @ [ReadyComplete 100 CallOk 300 True, Unregister False
       [\<lparr>cb_path = ''/p'', cb_name = '':1.2''\<rparr>, \<lparr>cb_path = ''/q'', cb_name = '':1.3''\<rparr>]])
     (gcr_system_prompter_new PROMPTER_SINGLE) = Ret s \<and> \<not> connection s"
  by (simp add: two_callers_def prompter_run_simps gcr_system_prompter_unregister_def insert_commute)

theorem prompter_releases_prompts_witness:
  "\<exists>s. run True (two_callers @ [ReadyComplete 100 CallOk 300 True, Unregister False
       [\<lparr>cb_path = ''/p'', cb_name = '':1.2''\<rparr>, \<lparr>cb_path = ''/q'', cb_name = '':1.3''\<rparr>]])
     (gcr_system_prompter_new PROMPTER_SINGLE) = Ret s \<and> heap s = Map.empty"
  using all_stopped_run prompter_releases_prompts [OF run_reached] by blast

text \<open>
  C14. The queue advances. When the caller whose prompt is shown by a single prompter stops, the first caller
  that waits gets a new prompt, and the call that tells it so is under way; the others keep their order.
\<close>

theorem prompter_queue_advances:
  assumes "prompter_reached False s" and "enabled (StopPrompting sender path addr True) s"
    and "mode s = PROMPTER_SINGLE" and "active s = [(\<lparr>cb_path = path, cb_name = sender\<rparr>, a)]"
    and "waiting s = cb # rest"
  shows "\<exists>s'. handle (StopPrompting sender path addr True) s = Ret s' \<and>
    active s' = [(cb, addr)] \<and> waiting s' = rest \<and> operations s' addr = {#ReadyCall#} \<and>
    \<lparr>cb_path = path, cb_name = sender\<rparr> \<notin> set (keys (callbacks s'))"
proof -
  have inv: "sound False s" by (rule reached_sound [OF assms(1)])
  define old where "old = \<lparr>cb_path = path, cb_name = sender\<rparr>"
  obtain x where x: "prompt_stop_prompting old True False s = Ret ((stopped old s)\<lparr>sent := x\<rparr>)"
    "sound False ((stopped old s)\<lparr>sent := x\<rparr>)" by (rule inv_stop [OF inv])
  define s1 where "s1 = send ReturnOk ((stopped old s)\<lparr>sent := x\<rparr>)"
  have fresh: "heap s addr = None" using assms(2) by simp
  have i: "sound False s1" using x(2) by (simp add: s1_def)
  have f: "heap s1 addr = None" using dom_stopped [OF inv, of old] fresh by (auto simp: s1_def)
  obtain s' where s': "prompt_next_ready addr True s1 = Ret s'" "promoted addr True s1 s'"
    by (rule inv_next_ready [OF i f]) simp
  have "old \<notin> set (waiting s)" using prompter_invD(2) [OF inv] assms(4) by (auto simp: tables_ok_def old_def)
  then have s1: "waiting s1 = cb # rest" "active s1 = []" "mode s1 = PROMPTER_SINGLE" "pending s1 = pending s"
    "callbacks s1 = table_remove old (callbacks s)"
    using assms(3-5) by (auto simp: s1_def table_remove_def old_def [symmetric] remove1_idem)
  have "under_way s addr = 0" using inv_NoneD [OF inv fresh] by simp
  then have "operations s addr = {#}" by (simp flip: size_operations)
  then have "active s' = [(cb, addr)]" "waiting s' = rest" "operations s' addr = {#ReadyCall#}"
    "callbacks s' = table_remove old (callbacks s)"
    using s'(2) s1 by (simp_all add: promoted_def operations_def)
  then show ?thesis
    using x(1) s'(1)
    by (auto simp: prompter_method_stop_prompting_def old_def [symmetric] s1_def [symmetric] table_remove_def)
qed

theorem prompter_queue_advances_witness:
  "\<exists>s s'. run False two_callers (gcr_system_prompter_new PROMPTER_SINGLE) = Ret s \<and>
     handle (StopPrompting '':1.2'' ''/p'' 300 True) s = Ret s' \<and>
     active s' = [(\<lparr>cb_path = ''/q'', cb_name = '':1.3''\<rparr>, 300)] \<and> waiting s' = []"
proof -
  obtain s where s: "run False two_callers (gcr_system_prompter_new PROMPTER_SINGLE) = Ret s"
    "mode s = PROMPTER_SINGLE" "registered s" "heap s 300 = None"
    "active s = [(\<lparr>cb_path = ''/p'', cb_name = '':1.2''\<rparr>, 100)]"
    "waiting s = [\<lparr>cb_path = ''/q'', cb_name = '':1.3''\<rparr>]"
    using two_callers_run by blast
  then have "enabled (StopPrompting '':1.2'' ''/p'' 300 True) s" by simp
  then show ?thesis using prompter_queue_advances [OF run_reached [OF s(1)] _ s(2,5,6)] s(1) by blast
qed

text \<open>
  When a caller vanishes, and when the user closes a prompt, its prompt is taken down, but nobody is
  taken from the queue: the callers that wait go on waiting while nothing is active.
\<close>

lemma prompter_queue_stuck:
  "\<exists>s. run True (two_callers @ [CallerVanished '':1.2''
        [\<lparr>cb_path = ''/p'', cb_name = '':1.2''\<rparr>, \<lparr>cb_path = ''/q'', cb_name = '':1.3''\<rparr>]])
      (gcr_system_prompter_new PROMPTER_SINGLE) = Ret s \<and>
    active s = [] \<and> waiting s = [\<lparr>cb_path = ''/q'', cb_name = '':1.3''\<rparr>]"
  by (simp add: two_callers_def prompter_run_simps insert_commute)

lemma prompter_queue_stuck_close:
  "\<exists>s. run True (two_callers @ [PromptClose 100]) (gcr_system_prompter_new PROMPTER_SINGLE) = Ret s \<and>
    active s = [] \<and> waiting s = [\<lparr>cb_path = ''/q'', cb_name = '':1.3''\<rparr>]"
  by (simp add: two_callers_def prompter_run_simps)

text \<open>
  A password operation that ends after the prompter was unregistered: the answer cannot be sent, and the
  reference taken for the call is never released.
\<close>

lemma prompter_leaks:
  "\<exists>s. run False [Register True, BeginPrompting '':1.2'' ''/p'' 1 100 True, ReadyComplete 100 CallOk 300 True,
        PerformPrompt '':1.2'' ''/p'' ''password'' [] True,
        Unregister False [\<lparr>cb_path = ''/p'', cb_name = '':1.2''\<rparr>], PasswordComplete 100 None]
      (gcr_system_prompter_new PROMPTER_SINGLE) = Ret s \<and>
    heap s 100 \<noteq> None \<and> active s = [] \<and> pending s = {#}"
  by (simp add: prompter_run_simps gcr_system_prompter_unregister_def)

text \<open>
  The end of the object: a prompter that was registered, or never tried to, can be disposed of and
  finalized.
\<close>

theorem prompter_dispose_finalize:
  assumes "prompter_reached False s" and "distinct order" "set order = set (keys (callbacks s))"
    and "connection s \<longrightarrow> registered s"
  shows "\<exists>s'. gcr_system_prompter_dispose order s = Ret s' \<and> gcr_system_prompter_finalize s' = Ret () \<and>
    active s' = [] \<and> callbacks s' = [] \<and> watches s' = []"
proof -
  have inv: "sound False s" by (rule reached_sound [OF assms(1)])
  obtain s1 where s1: "(if registered s then gcr_system_prompter_unregister False order s else Ret s) = Ret s1"
    "sound False s1" "\<not> registered s1" "\<not> connection s1"
  proof (cases "registered s")
    case False
    then show thesis using that [of s] inv assms(4) by simp
  next
    case True
    obtain s1 where s1: "gcr_system_prompter_unregister False order s = Ret s1" "sound False s1"
      using unregister_sound [OF inv assms(3)] by (auto simp: returns_sound_def)
    then have "\<not> registered s1" "\<not> connection s1"
      using True by (auto simp: gcr_system_prompter_unregister_def obind_Ret_iff g_assert_def split: if_splits)
    then show thesis using that [of s1] s1 True by simp
  qed
  have none: "callbacks s1 = []" "active s1 = []" "watches s1 = []"
    using prompter_invD(2,3) [OF s1(2)] s1(4) unfolding tables_ok_def watches_ok_def by auto
  then show ?thesis
    using s1 by (auto simp: gcr_system_prompter_dispose_def gcr_system_prompter_finalize_def Let_def)
qed

lemma prompter_finalize_aborts:
  "gcr_system_prompter_dispose [] (gcr_system_prompter_register False (gcr_system_prompter_new m)) = Ret s \<Longrightarrow>
     gcr_system_prompter_finalize s = Abort"
  by (auto simp: prompter_run_simps gcr_system_prompter_dispose_def gcr_system_prompter_finalize_def)

end
