(* ===== verification/Spec2Isabelle.thy ===== *)
theory Spec2Isabelle
  imports Egg_Hex Egg_Decimal Egg_Padding Egg_Buffer Gcr_Record Gck_Attributes Gcr_Openssh Egg_Secure_Contract
    Gcr_Certificate_Chain Egg_Asn1_Der Egg_Asn1_Values Egg_Asn1_Roundtrip Egg_Armor Gcr_System_Prompter
begin

text \<open>
  A verification development for gcr, the library of GNOME for certificates, keys, PKCS#11 and
  password prompts, written in C. It models parts of the libraries under \<^verbatim>\<open>src/egg\<close> (helpers shared by
  GNOME Keyring and gcr), \<^verbatim>\<open>src/gck\<close> (PKCS#11 for GObject) and \<^verbatim>\<open>src/gcr\<close> (certificates, keys, records,
  prompts) as functions of HOL, and proves what these parts promise to their callers.

  \<^bold>\<open>How the parts fit together.\<close> Everything secret lives in the locked memory of
  \<^verbatim>\<open>egg-secure-memory.c\<close>; \<^verbatim>\<open>egg-buffer.c\<close> collects and reads octets in it or in the normal heap. Text and
  number formats (\<^verbatim>\<open>egg-hex.c\<close>, \<^verbatim>\<open>egg-decimal.c\<close>, \<^verbatim>\<open>egg-padding.c\<close>, \<^verbatim>\<open>egg-armor.c\<close>) turn files into octets;
  \<^verbatim>\<open>egg-asn1x.c\<close> turns octets into trees and values. Above them \<^verbatim>\<open>gck-attributes.c\<close> builds the attributes
  of PKCS#11 objects, \<^verbatim>\<open>gcr-openssh.c\<close> reads SSH keys into such attributes (with the buffer and the decimal
  numbers), \<^verbatim>\<open>gcr-record.c\<close> reads the tables of GnuPG, \<^verbatim>\<open>gcr-certificate-chain.c\<close> puts certificates in
  order with the answers of tokens, and \<^verbatim>\<open>gcr-system-prompter.c\<close> shows prompts for other processes. Each
  theory models one of these files and imports the theories of the files it calls.

  \<^bold>\<open>Conventions\<close> (\<open>Egg_Prelude\<close>). An octet is an 8-bit word, a memory area the list of its octets, a C string
  a list without NUL. The result of a call is an \<open>outcome\<close>: \<open>Ret x\<close> when it returns, \<open>Abort\<close> when a
  \<^verbatim>\<open>g_assert\<close> fails, \<open>Undef\<close> for an access outside of the memory that is there and for what C leaves
  undefined. Inside of it \<open>option\<close> stands for \<^verbatim>\<open>NULL\<close> or \<^verbatim>\<open>FALSE\<close>, and a sum for a \<^verbatim>\<open>GError\<close>. Sizes that can
  wrap go through \<open>wrap32\<close> and \<open>wrap64\<close>, or are words. State is passed as a record. A loop is a
  recursive function over the data; where the recursion is not structural a measure is given, where it
  needs a bound there is fuel with a theorem that it is enough, and where it may not end it is a partial
  function to \<open>option\<close>. \<open>Egg_Numerals\<close> has the conversions of numbers from and to decimal text of the C
  library and GLib, which several files call.

  \<^bold>\<open>The theories.\<close>

  \<^item> \<open>Egg_Hex\<close>, \<open>Egg_Decimal\<close>, \<open>Egg_Padding\<close> (\<^verbatim>\<open>egg-hex.c\<close>, \<^verbatim>\<open>egg-decimal.c\<close>, \<^verbatim>\<open>egg-padding.c\<close>): all functions
    of these files. Shown: round trips, equality with a reference decoder, correctness of the decimal
    conversion, and that filling with random octets ends for areas that fit in 32 bits. Loops that count
    with a \<^verbatim>\<open>guint\<close> up to a 64-bit size are \<open>guint_for\<close> of \<open>Egg_Prelude\<close>: they never end from \<open>2 ^ 32\<close> on. The random source is an argument, numbered by
    calls; the hypothesis for termination is that some round brings no zero. The locale
    \<open>padding_scheme\<close> states what a padding promises, and is interpreted for the three schemes.

  \<^item> \<open>Egg_Buffer\<close> (\<^verbatim>\<open>egg-buffer.c\<close>): the record \<open>EggBuffer\<close> and every operation. The allocator is a parameter
    with the contract \<open>realloc_like\<close>, which \<open>c_realloc\<close> has. The locale \<open>buffer_field\<close> states what a
    kind of field promises (what is added is read back, reading is checked against the end); octets, integers
    and octet arrays are instances by \<open>sublocale\<close>.

  \<^item> \<open>Egg_Secure_Pool\<close>, \<open>Egg_Secure_Cells\<close>, \<open>Egg_Secure_Realloc\<close>, \<open>Egg_Secure_Memory\<close>, \<open>Egg_Secure_Contract\<close>
    (\<^verbatim>\<open>egg-secure-memory.c\<close>, \<^verbatim>\<open>gcr-secure-memory.c\<close>): the pools of meta data with their free lists, the rings
    of cells with guard words, the blocks of pages, and the public operations. The memory is a map from
    addresses to octets. Shown: an invariant of the whole state (rings, guards, disjoint cells that fill
    their block, free lists without duplicates), that every operation keeps it, never aborts and never
    leaves its memory, that the state refines an abstract heap of live allocations, that released memory
    is cleared, that reallocation keeps the contents, and that the list of records is complete. The
    operating system (\<^verbatim>\<open>mmap\<close>, \<^verbatim>\<open>mlock\<close>, page size) and the fallback allocator are parameters with the
    contracts \<open>os_ok\<close> and \<open>fallback_ok\<close>. Loops over rings have the number of slots of all pools
    as fuel; a ring has no more cells than there are slots. The locale \<open>item_pool\<close> is the interface
    between pools and cells.

  \<^item> \<open>Egg_Base64\<close>, \<open>Egg_Armor\<close> (\<^verbatim>\<open>egg-armor.c\<close>): the PEM parser, on memory that must not be left, and the
    writer. Shown: what is written is found again, with one exception that is stated, and the parser
    returns on every text but for two kinds that are named. The base64 functions of GLib are parameters
    with the contract \<open>base64_codec\<close>, which the encoding of RFC 4648 in \<open>Egg_Base64\<close> has.

  \<^item> \<open>Egg_Asn1_Tlv\<close>, \<open>Egg_Asn1_Der\<close>, \<open>Egg_Asn1_Values\<close> (\<^verbatim>\<open>egg-asn1x.c\<close>): the layer of tags, lengths and
    values: parsing, writing, the sorting of sets, raw elements; and the conversions of integers, booleans,
    object identifiers and times. Shown: the round trip of trees, that parsing always ends inside of the data
    and describes it truly, the canonical order of sets, and for each conversion when it is right. The
    parser has one unit of fuel per octet and one more, the writer two per octet and one more; both are shown
    to be enough. The year of the clock is a parameter.

  \<^item> \<open>Egg_Asn1_Node\<close>, \<open>Egg_Asn1_Decode\<close>, \<open>Egg_Asn1_Encode\<close> (\<^verbatim>\<open>egg-asn1x.c\<close>): the trees of nodes over these
    elements. A node has a definition, a joined definition, options and what was decoded or set; the type
    word is a type and a list of flags. The second has the decoding of elements into a tree and the
    validation, the third the encoding and ANY. Recursion follows the elements and the nodes; the names of
    sizes are looked up at most once per option, since more rounds never end. \<open>Egg_Asn1_Shape\<close> shows that
    decoding is defined and keeps the definitions of a tree, \<open>Egg_Asn1_Roundtrip\<close> that what is encoded is
    decoded to the same content, for definitions that can be told apart.

  \<^item> \<open>Gck_Attributes\<close> (\<^verbatim>\<open>gck-attributes.c\<close>): values with reference counts in a store, the builder, attribute
    lists. Shown: for every operation, and for programs of them, that the counts are exact and that the
    builder refines a list of pairs (the locale \<open>builder_edit\<close>, interpreted for each edit). A
    \<^verbatim>\<open>CK_ULONG\<close> has eight octets, least significant first.

  \<^item> \<open>Gcr_Record\<close> (\<^verbatim>\<open>gcr-record.c\<close>): records as a chain of blocks with column pointers into them, refining
    the list of the texts of the columns; parsing, formatting and the typed columns (locale
    \<open>record_column\<close>).

  \<^item> \<open>Gcr_Openssh\<close> (\<^verbatim>\<open>gcr-openssh.c\<close>): lines and packets of public keys of both versions. Shown: a key that
    is encoded as OpenSSH does is read with all its numbers, and the parser never leaves its text and fails
    cleanly unless the name of a line and of its packet differ, where the code uses a name it has released.
    \<open>decode\<close>, \<open>ec_params\<close> and \<open>ec_point\<close> are parameters (base64 and two encodings of egg-asn1x).

  \<^item> \<open>Gcr_Certificate_Chain\<close> (\<^verbatim>\<open>gcr-certificate-chain.c\<close>): the chain, building it at once or in a thread, and
    the order in which the calls may come. Shown: the status fits the chain at all times, the thread
    builds what the call builds, building ends when the issuers do, and what the result is. The record
    \<open>chain_env\<close> holds the answers of the DER decoder and of the tokens.

  \<^item> \<open>Gcr_System_Prompter\<close> (\<^verbatim>\<open>gcr-system-prompter.c\<close>): the tables, the queue and the counted prompts of the
    D-Bus service; the handlers are events of a transition system whose order is free. Shown: an
    invariant of all reachable states, from which no handler fails and nothing is used after its
    release, exact reference counts for orderly runs, and that the queue advances.

  \<^bold>\<open>What goes wrong.\<close> Where the code does not do what it is meant to, the theorem says what it does, and a
  lemma shows a case: for instance \<open>encode_tlv_unsorted_set_aborts\<close>, \<open>anode_write_integer_wrong\<close>,
  \<open>egg_armor_parse_aborts\<close>, \<open>armor_find_end_overrun\<close>, \<open>prompter_queue_stuck\<close>.

  \<^bold>\<open>Not modelled.\<close> In \<^verbatim>\<open>egg-asn1x.c\<close>, the creation of a tree from a table of definitions, navigation, the getters
  and setters of single values and the dump; and what rests on them (distinguished names,
  certificate extensions, the parser of keys in \<^verbatim>\<open>gcr-parser.c\<close>, views of certificates). Calls of crypto
  libraries (\<^verbatim>\<open>egg-dh*\<close>, \<^verbatim>\<open>egg-hkdf*\<close>, \<^verbatim>\<open>egg-symkey.c\<close>, the secret
  exchange): their behaviour is in libgcrypt or GnuTLS. The wrappers of PKCS#11 calls in \<^verbatim>\<open>src/gck\<close>, the
  importers and the trust assertions: GObject shells around calls to a module. The SSH agent, the GnuPG
  process, the client of the prompter: processes, sockets and main loops around formats that are
  modelled. Widgets, tests, mock objects and generated code.
\<close>

end
